(* ===== verification/Prelude.thy ===== *)
theory Prelude imports Main "HOL-Library.Word" begin

text \<open>
  Shared vocabulary of the development: the library's error codes and the
  result type that stands for its nullable pointers, the \<open>for\<close> loops the C code
  is written with, 32-bit unsigned arithmetic on sizes, pointer arithmetic into
  a sequence, and the generic lemmas on lists that the components rely on.
\<close>

named_theorems loop_simps
  \<open>closed forms of the loops of the code\<close>
named_theorems res_simps
  \<open>unfolding of the result type\<close>

subsection \<open>Errors and nullable pointers\<close>

text \<open>\<open>enum isl_error\<close> of include/isl/ctx.h.\<close>

datatype isl_error =
    isl_error_none
  | isl_error_abort
  | isl_error_alloc
  | isl_error_unknown
  | isl_error_internal
  | isl_error_invalid
  | isl_error_quota
  | isl_error_unsupported

text \<open>
  A pointer to an object (or an \<open>isl_bool\<close>, an \<open>isl_size\<close>, an \<open>isl_stat\<close>) that may
  be \<open>NULL\<close> (\<open>isl_bool_error\<close>, ...): \<open>Inl e\<close> is the null value, with the error
  that \<open>isl_die\<close> recorded in the context when it was produced.
\<close>

type_synonym 'a res = "isl_error + 'a"

fun res_bind :: "'a res \<Rightarrow> ('a \<Rightarrow> 'b res) \<Rightarrow> 'b res" where
  "res_bind (Inl e) f = Inl e"
| "res_bind (Inr x) f = f x"

definition isl_die :: "isl_error \<Rightarrow> 'a res" where
  "isl_die e = Inl e"

definition isl_assert :: "bool \<Rightarrow> 'a res \<Rightarrow> 'a res" where
  "isl_assert test k = (if test then k else isl_die isl_error_unknown)"

lemma res_bind_Inr_iff [res_simps]:
  "res_bind r f = Inr y \<longleftrightarrow> (\<exists>x. r = Inr x \<and> f x = Inr y)"
  by (cases r) auto

lemma res_bind_assoc [res_simps]:
  "res_bind (res_bind r f) g = res_bind r (\<lambda>x. res_bind (f x) g)"
  by (cases r) auto

lemma res_bind_return [res_simps, simp]: "res_bind r Inr = r"
  by (cases r) auto

lemma isl_assert_Inr_iff [res_simps]:
  "isl_assert t k = Inr y \<longleftrightarrow> t \<and> k = Inr y"
  by (simp add: isl_assert_def isl_die_def)

lemma isl_assert_simps [simp]:
  "isl_assert True k = k" "isl_assert False k = Inl isl_error_unknown"
  by (simp_all add: isl_assert_def isl_die_def)

lemma isl_die_neq_Inr [simp]: "isl_die e \<noteq> Inr x" "Inr x \<noteq> isl_die e"
  by (simp_all add: isl_die_def)

lemma isl_die_eq_Inl [simp]: "(isl_die e = Inl e') = (e = e')"
  by (simp add: isl_die_def)

subsection \<open>Sizes and positions\<close>

text \<open>
  \<open>unsigned\<close> sizes are natural numbers below \<open>2 ^ 32\<close>; where the code adds two of
  them the sum wraps.
\<close>

definition u32_bound :: nat where
  "u32_bound = 2 ^ 32"

definition u32_add :: "nat \<Rightarrow> nat \<Rightarrow> nat" where
  "u32_add a b = (a + b) mod 2 ^ 32"

lemma u32_add_small [simp]: "a + b < 2 ^ 32 \<Longrightarrow> u32_add a b = a + b"
  by (simp add: u32_add_def)

lemma u32_add_wraps:
  assumes "a < 2 ^ 32" and "b < 2 ^ 32" and "2 ^ 32 \<le> a + b"
  shows "u32_add a b = a + b - 2 ^ 32"
proof -
  have "a + b - 2 ^ 32 < 2 ^ 32" using assms by linarith
  then show ?thesis
    using assms by (simp add: u32_add_def le_mod_geq)
qed

lemma u32_add_overflow_iff:
  assumes "a < 2 ^ 32" and "b < 2 ^ 32"
  shows "u32_add a b < a \<longleftrightarrow> 2 ^ 32 \<le> a + b"
proof (cases "2 ^ 32 \<le> a + b")
  case True
  then show ?thesis using assms by (simp add: u32_add_wraps)
next
  case False
  then show ?thesis by simp
qed

subsection \<open>Loops\<close>

text \<open>\<open>for (i = lo; i < hi; ++i) s = f(i, s);\<close>\<close>

definition for_range :: "nat \<Rightarrow> nat \<Rightarrow> (nat \<Rightarrow> 's \<Rightarrow> 's) \<Rightarrow> 's \<Rightarrow> 's" where
  "for_range lo hi f s = fold f [lo..<hi] s"

lemma for_range_empty [simp]: "hi \<le> lo \<Longrightarrow> for_range lo hi f s = s"
  by (simp add: for_range_def)

lemma for_range_Suc: "lo \<le> hi \<Longrightarrow> for_range lo (Suc hi) f s = f hi (for_range lo hi f s)"
  by (simp add: for_range_def)

lemma for_range_step: "lo < hi \<Longrightarrow> for_range lo hi f s = for_range (Suc lo) hi f (f lo s)"
  by (simp add: for_range_def upt_conv_Cons)

text \<open>The invariant rule of a \<open>for\<close> loop.\<close>

lemma for_range_induct [consumes 1, case_names init step]:
  assumes "lo \<le> hi"
    and "P lo s"
    and "\<And>i t. lo \<le> i \<Longrightarrow> i < hi \<Longrightarrow> P i t \<Longrightarrow> P (Suc i) (f i t)"
  shows "P hi (for_range lo hi f s)"
  using assms
proof (induction hi)
  case 0
  then show ?case by simp
next
  case (Suc hi)
  show ?case
  proof (cases "lo = Suc hi")
    case True
    with Suc.prems show ?thesis by simp
  next
    case False
    with Suc.prems have le: "lo \<le> hi" by simp
    have "P hi (for_range lo hi f s)"
      using Suc.IH Suc.prems le by simp
    then show ?thesis using Suc.prems(3) [of hi] le by (simp add: for_range_Suc)
  qed
qed

lemma for_range_cong:
  assumes "\<And>i t. lo \<le> i \<Longrightarrow> i < hi \<Longrightarrow> f i t = g i t"
  shows "for_range lo hi f s = for_range lo hi g s"
  unfolding for_range_def by (rule List.fold_cong) (use assms in auto)

text \<open>A loop that writes element \<open>i\<close> of an array in iteration \<open>i\<close>, in place.\<close>

lemma length_for_range_update [simp]:
  "length (for_range lo hi (\<lambda>i d. d[i := g i d]) d) = length d"
proof (induction hi arbitrary: d)
  case (Suc hi)
  then show ?case
    by (cases "lo \<le> hi") (simp_all add: for_range_Suc)
qed simp

lemma nth_for_range_update [loop_simps]:
  assumes "hi \<le> length d"
  shows "k < length d \<Longrightarrow>
    for_range lo hi (\<lambda>i d. d[i := g i (d ! i)]) d ! k = (if lo \<le> k \<and> k < hi then g k (d ! k) else d ! k)"
  using assms
proof (induction hi)
  case 0
  then show ?case by simp
next
  case (Suc hi)
  show ?case
  proof (cases "lo \<le> hi")
    case True
    with Suc show ?thesis by (auto simp: for_range_Suc nth_list_update)
  next
    case False
    with Suc.prems show ?thesis by auto
  qed
qed

lemma for_range_update_map:
  assumes "n \<le> length d"
  shows "for_range 0 n (\<lambda>i d. d[i := g i (d ! i)]) d = map (\<lambda>i. g i (d ! i)) [0..<n] @ drop n d"
  by (rule nth_equalityI) (use assms in \<open>auto simp: loop_simps nth_append\<close>)

lemma for_range_write:
  "n \<le> length d \<Longrightarrow> for_range 0 n (\<lambda>i d. d[i := h i]) d = map h [0..<n] @ drop n d"
  using for_range_update_map [of n d "\<lambda>i _. h i"] .

lemma nth_for_range_write:
  "hi \<le> length d \<Longrightarrow> k < length d \<Longrightarrow>
   for_range lo hi (\<lambda>i d. d[i := h i]) d ! k = (if lo \<le> k \<and> k < hi then h k else d ! k)"
  using nth_for_range_update [of hi d k lo "\<lambda>i _. h i"] .

text \<open>\<open>for (i = hi - 1; i >= lo; --i) s = f(i, s);\<close>\<close>

definition for_down :: "nat \<Rightarrow> nat \<Rightarrow> (nat \<Rightarrow> 's \<Rightarrow> 's) \<Rightarrow> 's \<Rightarrow> 's" where
  "for_down lo hi f s = fold f (rev [lo..<hi]) s"

lemma for_down_empty [simp]: "hi \<le> lo \<Longrightarrow> for_down lo hi f s = s"
  by (simp add: for_down_def)

lemma for_down_Suc: "lo \<le> hi \<Longrightarrow> for_down lo (Suc hi) f s = for_down lo hi f (f hi s)"
  by (simp add: for_down_def)

lemma for_down_induct [consumes 1, case_names init step]:
  assumes "lo \<le> hi"
    and "P hi s"
    and "\<And>i t. lo \<le> i \<Longrightarrow> i < hi \<Longrightarrow> P (Suc i) t \<Longrightarrow> P i (f i t)"
  shows "P lo (for_down lo hi f s)"
  using assms
proof (induction hi arbitrary: s)
  case 0
  then show ?case by simp
next
  case (Suc hi)
  show ?case
  proof (cases "lo = Suc hi")
    case True
    with Suc.prems show ?thesis by simp
  next
    case False
    with Suc.prems have "lo \<le> hi" by simp
    moreover have "P hi (f hi s)" using Suc.prems(2) Suc.prems(3) [of hi s] \<open>lo \<le> hi\<close> by simp
    ultimately show ?thesis using Suc.IH [of "f hi s"] Suc.prems(3) by (simp add: for_down_Suc)
  qed
qed

text \<open>A \<open>for\<close> loop whose body may fail to return.\<close>

definition for_range_opt :: "nat \<Rightarrow> nat \<Rightarrow> (nat \<Rightarrow> 's \<Rightarrow> 's option) \<Rightarrow> 's \<Rightarrow> 's option" where
  "for_range_opt lo hi f s = fold (\<lambda>i so. Option.bind so (f i)) [lo..<hi] (Some s)"

lemma for_range_opt_empty [simp]: "hi \<le> lo \<Longrightarrow> for_range_opt lo hi f s = Some s"
  by (simp add: for_range_opt_def)

lemma for_range_opt_Suc:
  "lo \<le> hi \<Longrightarrow> for_range_opt lo (Suc hi) f s = Option.bind (for_range_opt lo hi f s) (f hi)"
  by (simp add: for_range_opt_def)

lemma for_range_opt_induct [consumes 1, case_names init step]:
  assumes "lo \<le> hi"
    and "P lo s"
    and "\<And>i t. lo \<le> i \<Longrightarrow> i < hi \<Longrightarrow> P i t \<Longrightarrow> \<exists>t'. f i t = Some t' \<and> P (Suc i) t'"
  shows "\<exists>t. for_range_opt lo hi f s = Some t \<and> P hi t"
  using assms
proof (induction hi)
  case 0
  then show ?case by simp
next
  case (Suc hi)
  show ?case
  proof (cases "lo = Suc hi")
    case True
    with Suc.prems show ?thesis by simp
  next
    case False
    with Suc.prems have le: "lo \<le> hi" by simp
    then obtain t where "for_range_opt lo hi f s = Some t" "P hi t" using Suc.IH Suc.prems by auto
    with Suc.prems(3) [of hi t] le show ?thesis by (auto simp: for_range_opt_Suc)
  qed
qed

lemma for_range_commute:
  assumes "\<And>i x. f i (g x) = g (f' i x)"
  shows "for_range lo hi f (g s) = g (for_range lo hi f' s)"
proof (induction hi)
  case (Suc hi)
  then show ?case by (cases "lo \<le> hi") (simp_all add: for_range_Suc assms)
qed simp

lemma for_range_opt_commute:
  assumes "\<And>i x. f i (g x) = map_option g (f' i x)"
  shows "for_range_opt lo hi f (g s) = map_option g (for_range_opt lo hi f' s)"
proof (induction hi)
  case (Suc hi)
  show ?case
  proof (cases "lo \<le> hi")
    case True
    with Suc show ?thesis by (cases "for_range_opt lo hi f' s") (simp_all add: for_range_opt_Suc assms)
  qed simp
qed simp

subsection \<open>Pointers into a sequence\<close>

text \<open>Running \<open>f\<close> on the pointer \<open>p + off\<close>: the elements before it stay.\<close>

definition at_off :: "nat \<Rightarrow> ('a list \<Rightarrow> 'a list) \<Rightarrow> 'a list \<Rightarrow> 'a list" where
  "at_off off f p = take off p @ f (drop off p)"

lemma length_at_off:
  assumes "\<And>q. length (f q) = length q"
  shows "length (at_off off f p) = length p"
  using assms by (simp add: at_off_def)

lemma nth_at_off:
  assumes "off \<le> length p"
  shows "at_off off f p ! k = (if k < off then p ! k else f (drop off p) ! (k - off))"
  using assms by (auto simp: at_off_def nth_append)

text \<open>
  Memory that is allocated and not yet written has unknown contents: the model
  takes them from a parameter \<open>junk\<close>.
\<close>

type_synonym 'a junk = "nat \<Rightarrow> 'a"

definition fresh :: "'a junk \<Rightarrow> nat \<Rightarrow> 'a list" where
  "fresh junk n = map junk [0..<n]"

lemma length_fresh [simp]: "length (fresh junk n) = n"
  by (simp add: fresh_def)

subsection \<open>Lists\<close>

lemma nth_ge_take_drop_swap:
  assumes "i < length xs" "j < length xs"
  shows "(xs[i := xs ! j, j := xs ! i]) ! k =
    (if k = j then xs ! i else if k = i then xs ! j else xs ! k)"
  using assms by (auto simp: nth_list_update)

lemma sum_list_map2_sum:
  fixes xs ys :: "int list"
  assumes "length xs = n" "length ys = n"
  shows "sum_list (map2 (*) xs ys) = (\<Sum>i<n. xs ! i * ys ! i)"
  using assms by (simp add: sum_list_sum_nth atLeast0LessThan)

lemma find_upt_None_iff:
  "List.find P [lo..<hi] = None \<longleftrightarrow> (\<forall>i. lo \<le> i \<and> i < hi \<longrightarrow> \<not> P i)"
  by (auto simp: find_None_iff)

lemma find_upt_Some_iff:
  "List.find P [lo..<hi] = Some i \<longleftrightarrow>
     lo \<le> i \<and> i < hi \<and> P i \<and> (\<forall>j. lo \<le> j \<and> j < i \<longrightarrow> \<not> P j)"
proof
  assume "List.find P [lo..<hi] = Some i"
  then obtain n where n: "n < hi - lo" "P ([lo..<hi] ! n)" "i = [lo..<hi] ! n"
    "\<And>j. j < n \<Longrightarrow> \<not> P ([lo..<hi] ! j)"
    by (auto simp: find_Some_iff)
  show "lo \<le> i \<and> i < hi \<and> P i \<and> (\<forall>j. lo \<le> j \<and> j < i \<longrightarrow> \<not> P j)"
  proof (intro conjI allI impI)
    fix j assume j: "lo \<le> j \<and> j < i"
    with n(1,3) have "j - lo < n" by auto
    from n(4) [OF this] j n(1,3) show "\<not> P j" by auto
  qed (use n in auto)
next
  assume a: "lo \<le> i \<and> i < hi \<and> P i \<and> (\<forall>j. lo \<le> j \<and> j < i \<longrightarrow> \<not> P j)"
  show "List.find P [lo..<hi] = Some i"
    unfolding find_Some_iff
    by (rule exI [of _ "i - lo"]) (use a in auto)
qed

end
