(* ===== verification/Isl_Int.thy ===== *)
theory Isl_Int imports Prelude begin

text \<open>
  The integers of the library, as its clients see them: an \<open>isl_int\<close> is an
  unbounded integer, and every \<open>isl_int_*\<close> macro has the meaning given here.
  Assignment, negation, addition, subtraction, multiplication, comparison and
  absolute value are HOL's own operations on \<^typ>\<open>int\<close>; the three roundings of
  the division, the shift and the number-theoretic operations are defined below.  A
  division by zero is a crash of the program: every theorem about a division
  assumes the divisor non-zero, or shows it.

  Theory \<open>Sioimath\<close> models the representation the library is configured with and
  shows that its operations implement exactly these functions.
\<close>

type_synonym isl_int = int

definition isl_int_sgn :: "isl_int \<Rightarrow> int" where
  "isl_int_sgn i = sgn i"

definition isl_int_cmp :: "isl_int \<Rightarrow> isl_int \<Rightarrow> int" where
  "isl_int_cmp i j = sgn (i - j)"

definition isl_int_tdiv_q :: "isl_int \<Rightarrow> isl_int \<Rightarrow> isl_int" where
  "isl_int_tdiv_q i j = sgn i * sgn j * (\<bar>i\<bar> div \<bar>j\<bar>)"

definition isl_int_divexact :: "isl_int \<Rightarrow> isl_int \<Rightarrow> isl_int" where
  "isl_int_divexact i j = isl_int_tdiv_q i j"

definition isl_int_fdiv_q :: "isl_int \<Rightarrow> isl_int \<Rightarrow> isl_int" where
  "isl_int_fdiv_q i j = i div j"

definition isl_int_fdiv_r :: "isl_int \<Rightarrow> isl_int \<Rightarrow> isl_int" where
  "isl_int_fdiv_r i j = i mod j"

definition isl_int_cdiv_q :: "isl_int \<Rightarrow> isl_int \<Rightarrow> isl_int" where
  "isl_int_cdiv_q i j = - ((- i) div j)"

definition isl_int_gcd :: "isl_int \<Rightarrow> isl_int \<Rightarrow> isl_int" where
  "isl_int_gcd i j = gcd i j"

definition isl_int_lcm :: "isl_int \<Rightarrow> isl_int \<Rightarrow> isl_int" where
  "isl_int_lcm i j = lcm i j"

text \<open>
  A shift to the left is imath's: the exponent, an \<open>unsigned long\<close>, is converted to the signed
  \<open>mp_small\<close>, which an assertion of \<open>mp_int_mul_pow2\<close> requires not to be negative, and then to the
  32 bits of an \<open>mp_size\<close>.  \<open>None\<close> is the failed assertion.
\<close>

definition mp_int_mul_pow2 :: "int \<Rightarrow> 64 word \<Rightarrow> int option" where
  "mp_int_mul_pow2 a p2 = (if 0 \<le> sint p2 then Some (a * 2 ^ unat (ucast p2 :: 32 word)) else None)"

definition isl_int_mul_2exp :: "isl_int \<Rightarrow> 64 word \<Rightarrow> isl_int option" where
  "isl_int_mul_2exp i j = mp_int_mul_pow2 i j"

definition isl_int_is_divisible_by :: "isl_int \<Rightarrow> isl_int \<Rightarrow> bool" where
  "isl_int_is_divisible_by i j = (j dvd i)"

subsection \<open>Shifts\<close>

lemma mp_int_mul_pow2_eq:
  "mp_int_mul_pow2 a p2 = (if unat p2 < 2 ^ 63 then Some (a * 2 ^ (unat p2 mod 2 ^ 32)) else None)"
proof -
  have lt: "unat p2 < 2 ^ 64" using unsigned_less [of p2, where ?'a = nat] by simp
  have "odd (unat p2 div 2 ^ 63) \<longleftrightarrow> \<not> unat p2 < 2 ^ 63"
  proof (cases "unat p2 < 2 ^ 63")
    case False
    then have "unat p2 div 2 ^ 63 = 1" using lt by (intro div_nat_eqI) simp_all
    with False show ?thesis by simp
  qed simp
  moreover have "bit p2 63 = odd (unat p2 div 2 ^ 63)"
    using bit_unsigned_iff [of p2 63, where ?'a = nat] by (simp add: bit_iff_odd [of "unat p2"])
  ultimately have "0 \<le> sint p2 \<longleftrightarrow> unat p2 < 2 ^ 63"
    using bit_last_iff [of p2] by (simp, linarith)
  moreover have "unat (ucast p2 :: 32 word) = unat p2 mod 2 ^ 32"
    by (simp add: unsigned_ucast_eq take_bit_eq_mod)
  ultimately show ?thesis by (simp add: mp_int_mul_pow2_def)
qed

lemma isl_int_mul_2exp_eq:
  "isl_int_mul_2exp i j = (if unat j < 2 ^ 63 then Some (i * 2 ^ (unat j mod 2 ^ 32)) else None)"
  unfolding isl_int_mul_2exp_def by (rule mp_int_mul_pow2_eq)

lemma isl_int_mul_2exp_exact:
  "unat j < 2 ^ 32 \<Longrightarrow> isl_int_mul_2exp i j = Some (i * 2 ^ unat j)"
  by (simp add: isl_int_mul_2exp_eq)

subsection \<open>Division\<close>

lemma isl_int_tdiv_q_zero [simp]: "isl_int_tdiv_q i 0 = 0" "isl_int_tdiv_q 0 j = 0"
  by (simp_all add: isl_int_tdiv_q_def)

lemma isl_int_divexact_mult [simp]:
  assumes "j \<noteq> 0"
  shows "isl_int_divexact (j * k) j = k" "isl_int_divexact (k * j) j = k"
proof -
  have "sgn (j * k) * sgn j * (\<bar>j * k\<bar> div \<bar>j\<bar>) = k"
    using assms by (simp add: abs_mult sgn_mult mult.commute abs_mult_sgn)
  then show "isl_int_divexact (j * k) j = k" "isl_int_divexact (k * j) j = k"
    by (simp_all add: isl_int_divexact_def isl_int_tdiv_q_def mult.commute)
qed

lemma isl_int_divexact_dvd:
  assumes "j dvd i"
  shows "isl_int_divexact i j = i div j"
proof (cases "j = 0")
  case True
  then show ?thesis by (simp add: isl_int_divexact_def)
next
  case False
  with assms show ?thesis by (auto elim!: dvdE)
qed

lemma isl_int_divexact_eq: "j dvd i \<Longrightarrow> j * isl_int_divexact i j = i"
  by (simp add: isl_int_divexact_dvd)

lemma isl_int_divexact_zero_iff:
  "j dvd i \<Longrightarrow> isl_int_divexact i j = 0 \<longleftrightarrow> i = 0"
  using isl_int_divexact_eq by (metis isl_int_divexact_def isl_int_tdiv_q_zero(2) mult_zero_right)

lemma isl_int_cdiv_q_bounds:
  assumes "0 < j"
  shows "i \<le> j * isl_int_cdiv_q i j" and "j * isl_int_cdiv_q i j < i + j"
proof -
  have "j * ((- i) div j) \<le> - i" "- i < j * ((- i) div j) + j"
    using assms mult_div_mod_eq [of j "- i"] pos_mod_sign [of j "- i"] pos_mod_bound [of j "- i"]
    by linarith+
  then show "i \<le> j * isl_int_cdiv_q i j" and "j * isl_int_cdiv_q i j < i + j"
    by (simp_all add: isl_int_cdiv_q_def)
qed

lemma isl_int_fdiv_q_bounds:
  assumes "0 < j"
  shows "j * isl_int_fdiv_q i j \<le> i" and "i < j * isl_int_fdiv_q i j + j"
  using assms mult_div_mod_eq [of j i] pos_mod_sign [of j i] pos_mod_bound [of j i]
  unfolding isl_int_fdiv_q_def by linarith+

text \<open>Remainders after the two roundings, as the Hermite reduction uses them.\<close>

lemma fdiv_rem_range: "0 < j \<Longrightarrow> 0 \<le> i - isl_int_fdiv_q i j * j \<and> i - isl_int_fdiv_q i j * j < j"
  using isl_int_fdiv_q_bounds [of j i] by (simp add: mult.commute)

lemma cdiv_rem_range: "0 < j \<Longrightarrow> - j < i - isl_int_cdiv_q i j * j \<and> i - isl_int_cdiv_q i j * j \<le> 0"
  using isl_int_cdiv_q_bounds [of j i] by (simp add: mult.commute)

lemma isl_int_cdiv_q_unique:
  assumes "0 < j" and "j * q - j < i" and "i \<le> j * q"
  shows "isl_int_cdiv_q i j = q"
proof -
  have "(- i) div j = - q"
    by (rule int_div_pos_eq [where r = "j * q - i"]) (use assms in auto)
  then show ?thesis by (simp add: isl_int_cdiv_q_def)
qed

lemma isl_int_tdiv_q_pos_dvsr:
  assumes "0 < j"
  shows "isl_int_tdiv_q i j = (if 0 \<le> i then i div j else - ((- i) div j))"
  using assms by (auto simp: isl_int_tdiv_q_def sgn_if)

subsection \<open>Signs\<close>

lemma isl_int_cmp_simps [simp]:
  "isl_int_cmp i j = 0 \<longleftrightarrow> i = j"
  "0 < isl_int_cmp i j \<longleftrightarrow> j < i"
  "isl_int_cmp i j < 0 \<longleftrightarrow> i < j"
  by (auto simp: isl_int_cmp_def sgn_if split: if_splits)

lemma isl_int_gcd_pos: "i \<noteq> 0 \<or> j \<noteq> 0 \<Longrightarrow> 0 < isl_int_gcd i j"
  by (auto simp: isl_int_gcd_def)

end
