(* ===== verification/Sioimath.thy ===== *)
theory Sioimath imports Isl_Int begin

text \<open>
  The integer representation the library is configured with
  (isl_int_sioimath.h, isl_int_sioimath.c): a 64-bit word that holds either a
  32-bit integer together with a discriminator bit, or the pointer to an imath
  number.  The operations work on machine words while both arguments are small
  and fall back to imath otherwise, so each of them has a fast path whose
  overflow conditions have to be right.

  The words are modelled at their width (\<open>int32_t\<close>: \<^typ>\<open>32 word\<close>, \<open>int64_t\<close>,
  \<open>unsigned long\<close>: \<^typ>\<open>64 word\<close>), and a big number by the integer it holds: the
  \<open>mp_int_*\<close> functions of imath are exact integer operations here, except \<open>mp_int_mul_pow2\<close>,
  which keeps 32 bits of the number of places (theory Isl_Int).  The layer of
  gmp_compat.c between the two (\<open>impz_cdiv_q\<close>, \<open>impz_fdiv_q\<close>, ...), which derives
  the other roundings from imath's truncating division, is modelled as written.

  The locale \<open>int_impl\<close> is the contract the rest of the library uses; it is
  interpreted on the representation at the end.
\<close>

unbundle bit_operations_syntax

type_synonym i32 = "32 word"
type_synonym i64 = "64 word"
type_synonym ulong = "64 word"

subsection \<open>The 64-bit encoding\<close>

definition isl_sioimath_is_small_word :: "64 word \<Rightarrow> bool" where
  "isl_sioimath_is_small_word val = (val AND 1 \<noteq> 0)"

definition isl_sioimath_get_small_word :: "64 word \<Rightarrow> i32" where
  "isl_sioimath_get_small_word val = ucast (drop_bit 32 val)"

definition isl_sioimath_encode_small :: "i32 \<Rightarrow> 64 word" where
  "isl_sioimath_encode_small val = push_bit 32 (scast val) OR 1"

lemma encode_small_roundtrip:
  "isl_sioimath_get_small_word (isl_sioimath_encode_small v) = v"
  unfolding isl_sioimath_encode_small_def isl_sioimath_get_small_word_def
  by (rule bit_word_eqI) (auto simp: bit_simps)

lemma encode_small_is_small: "isl_sioimath_is_small_word (isl_sioimath_encode_small v)"
proof -
  have "isl_sioimath_encode_small v AND 1 = 1"
    unfolding isl_sioimath_encode_small_def
    by (rule bit_word_eqI) (auto simp: bit_simps)
  then show ?thesis by (simp add: isl_sioimath_is_small_word_def)
qed

lemma even_pointer_is_big: "even p \<Longrightarrow> \<not> isl_sioimath_is_small_word p"
  by (simp add: isl_sioimath_is_small_word_def and_one_eq even_iff_mod_2_eq_zero)

subsection \<open>Values\<close>

text \<open>\<open>Small w\<close> is a word in small representation, \<open>Big n\<close> the pointer to a number.\<close>

datatype isl_sioimath = Small i32 | Big int

definition SMALL_MIN :: int where
  "SMALL_MIN = - (2 ^ 31 - 1)"

definition SMALL_MAX :: int where
  "SMALL_MAX = 2 ^ 31 - 1"

fun sio_val :: "isl_sioimath \<Rightarrow> int" where
  "sio_val (Small w) = sint w"
| "sio_val (Big n) = n"

text \<open>\<open>INT32_MIN\<close> is never held in small representation.\<close>

fun sio_ok :: "isl_sioimath \<Rightarrow> bool" where
  "sio_ok (Small w) = (SMALL_MIN \<le> sint w)"
| "sio_ok (Big n) = True"

subsection \<open>Setting and converting\<close>

definition isl_sioimath_set_int32 :: "i32 \<Rightarrow> isl_sioimath" where
  "isl_sioimath_set_int32 val =
     (if SMALL_MIN \<le> sint val \<and> sint val \<le> SMALL_MAX then Small val else Big (sint val))"

definition isl_sioimath_set_int64 :: "i64 \<Rightarrow> isl_sioimath" where
  "isl_sioimath_set_int64 val =
     (if SMALL_MIN \<le> sint val \<and> sint val \<le> SMALL_MAX then Small (ucast val) else Big (sint val))"

definition isl_sioimath_set_si :: "i64 \<Rightarrow> isl_sioimath" where
  "isl_sioimath_set_si val =
     (if SMALL_MIN \<le> sint val \<and> sint val \<le> SMALL_MAX then Small (ucast val) else Big (sint val))"

definition isl_sioimath_set_ui :: "ulong \<Rightarrow> isl_sioimath" where
  "isl_sioimath_set_ui val =
     (if uint val \<le> SMALL_MAX then Small (ucast val) else Big (uint val))"

fun isl_sioimath_promote :: "isl_sioimath \<Rightarrow> isl_sioimath" where
  "isl_sioimath_promote (Big n) = Big n"
| "isl_sioimath_promote (Small w) = Big (sint w)"

text \<open>\<open>mp_int_to_int\<close> succeeds exactly on the range of \<open>long\<close>.\<close>

definition mp_int_to_int :: "int \<Rightarrow> i64 option" where
  "mp_int_to_int n = (if - (2 ^ 63) \<le> n \<and> n < 2 ^ 63 then Some (word_of_int n) else None)"

definition mp_int_to_uint :: "int \<Rightarrow> ulong option" where
  "mp_int_to_uint n = (if 0 \<le> n \<and> n < 2 ^ 64 then Some (word_of_int n) else None)"

fun isl_sioimath_try_demote :: "isl_sioimath \<Rightarrow> isl_sioimath" where
  "isl_sioimath_try_demote (Small w) = Small w"
| "isl_sioimath_try_demote (Big n) =
     (case mp_int_to_int n of
        None \<Rightarrow> Big n
      | Some small \<Rightarrow>
          if SMALL_MIN \<le> sint small \<and> sint small \<le> SMALL_MAX then Small (ucast small) else Big n)"

fun isl_sioimath_fits_slong :: "isl_sioimath \<Rightarrow> bool" where
  "isl_sioimath_fits_slong (Small w) = True"
| "isl_sioimath_fits_slong (Big n) = (mp_int_to_int n \<noteq> None)"

fun isl_sioimath_get_si :: "isl_sioimath \<Rightarrow> i64 option" where
  "isl_sioimath_get_si (Small w) = Some (scast w)"
| "isl_sioimath_get_si (Big n) = mp_int_to_int n"

fun isl_sioimath_fits_ulong :: "isl_sioimath \<Rightarrow> bool" where
  "isl_sioimath_fits_ulong (Small w) = (0 \<le> sint w)"
| "isl_sioimath_fits_ulong (Big n) = (mp_int_to_uint n \<noteq> None)"

fun isl_sioimath_get_ui :: "isl_sioimath \<Rightarrow> ulong option" where
  "isl_sioimath_get_ui (Small w) = Some (scast w)"
| "isl_sioimath_get_ui (Big n) = mp_int_to_uint n"

subsection \<open>Additive operations\<close>

fun isl_sioimath_abs :: "isl_sioimath \<Rightarrow> isl_sioimath" where
  "isl_sioimath_abs (Small w) = Small (if sint w < 0 then - w else w)"
| "isl_sioimath_abs (Big n) = Big \<bar>n\<bar>"

fun isl_sioimath_neg :: "isl_sioimath \<Rightarrow> isl_sioimath" where
  "isl_sioimath_neg (Small w) = Small (- w)"
| "isl_sioimath_neg (Big n) = Big (- n)"

fun isl_sioimath_add :: "isl_sioimath \<Rightarrow> isl_sioimath \<Rightarrow> isl_sioimath" where
  "isl_sioimath_add (Small l) (Small r) = isl_sioimath_set_int64 (scast l + scast r)"
| "isl_sioimath_add lhs rhs = isl_sioimath_try_demote (Big (sio_val lhs + sio_val rhs))"

fun isl_sioimath_sub :: "isl_sioimath \<Rightarrow> isl_sioimath \<Rightarrow> isl_sioimath" where
  "isl_sioimath_sub (Small l) (Small r) = isl_sioimath_set_int64 (scast l - scast r)"
| "isl_sioimath_sub lhs rhs = isl_sioimath_try_demote (Big (sio_val lhs - sio_val rhs))"

text \<open>
  The guard of the fast path of \<open>add_ui\<close> is \<open>rhs <= (uint64_t) INT64_MAX -
  (uint64_t) SMALL_MAX\<close>, that of \<open>sub_ui\<close> is \<open>rhs < (uint64_t) INT64_MIN -
  (uint64_t) SMALL_MIN\<close>, both computed in 64-bit arithmetic.
\<close>

definition INT64_MAX :: i64 where
  "INT64_MAX = word_of_int (2 ^ 63 - 1)"

definition INT64_MIN :: i64 where
  "INT64_MIN = word_of_int (- (2 ^ 63))"

fun isl_sioimath_add_ui :: "isl_sioimath \<Rightarrow> ulong \<Rightarrow> isl_sioimath" where
  "isl_sioimath_add_ui (Small l) rhs =
     (if rhs \<le> INT64_MAX - word_of_int SMALL_MAX
      then isl_sioimath_set_int64 (scast l + rhs)
      else isl_sioimath_try_demote (Big (sint l + uint rhs)))"
| "isl_sioimath_add_ui (Big n) rhs = isl_sioimath_try_demote (Big (n + uint rhs))"

fun isl_sioimath_sub_ui :: "isl_sioimath \<Rightarrow> ulong \<Rightarrow> isl_sioimath" where
  "isl_sioimath_sub_ui (Small l) rhs =
     (if rhs < INT64_MIN - word_of_int SMALL_MIN
      then isl_sioimath_set_int64 (scast l - rhs)
      else isl_sioimath_try_demote (Big (sint l - uint rhs)))"
| "isl_sioimath_sub_ui (Big n) rhs = isl_sioimath_try_demote (Big (n - uint rhs))"

subsection \<open>Multiplicative operations\<close>

fun isl_sioimath_mul :: "isl_sioimath \<Rightarrow> isl_sioimath \<Rightarrow> isl_sioimath" where
  "isl_sioimath_mul (Small l) (Small r) = isl_sioimath_set_int64 (scast l * scast r)"
| "isl_sioimath_mul lhs rhs = isl_sioimath_try_demote (Big (sio_val lhs * sio_val rhs))"

fun isl_sioimath_mul_2exp :: "isl_sioimath \<Rightarrow> ulong \<Rightarrow> isl_sioimath option" where
  "isl_sioimath_mul_2exp (Small l) rhs =
     (if rhs \<le> 32 then Some (isl_sioimath_set_int64 (push_bit (unat rhs) (scast l)))
      else map_option Big (mp_int_mul_pow2 (sint l) rhs))"
| "isl_sioimath_mul_2exp (Big n) rhs = map_option Big (mp_int_mul_pow2 n rhs)"

definition UINT32_MAX :: int where
  "UINT32_MAX = 2 ^ 32 - 1"

fun isl_sioimath_mul_si :: "isl_sioimath \<Rightarrow> i64 \<Rightarrow> isl_sioimath" where
  "isl_sioimath_mul_si (Small l) rhs =
     (if sint rhs > - (2 ^ 63) \<and> \<bar>sint rhs\<bar> \<le> UINT32_MAX
      then isl_sioimath_set_int64 (scast l * rhs)
      else isl_sioimath_try_demote (Big (sint l * sint rhs)))"
| "isl_sioimath_mul_si (Big n) rhs = isl_sioimath_try_demote (Big (n * sint rhs))"

fun isl_sioimath_mul_ui :: "isl_sioimath \<Rightarrow> ulong \<Rightarrow> isl_sioimath" where
  "isl_sioimath_mul_ui (Small l) rhs =
     (if uint rhs \<le> UINT32_MAX
      then isl_sioimath_set_int64 (scast l * rhs)
      else isl_sioimath_try_demote (Big (sint l * uint rhs)))"
| "isl_sioimath_mul_ui (Big n) rhs = isl_sioimath_try_demote (Big (n * uint rhs))"

definition isl_sioimath_addmul :: "isl_sioimath \<Rightarrow> isl_sioimath \<Rightarrow> isl_sioimath \<Rightarrow> isl_sioimath" where
  "isl_sioimath_addmul dst lhs rhs = (let tmp = isl_sioimath_mul lhs rhs in isl_sioimath_add dst tmp)"

definition isl_sioimath_addmul_ui :: "isl_sioimath \<Rightarrow> isl_sioimath \<Rightarrow> ulong \<Rightarrow> isl_sioimath" where
  "isl_sioimath_addmul_ui dst lhs rhs = (let tmp = isl_sioimath_mul_ui lhs rhs in isl_sioimath_add dst tmp)"

definition isl_sioimath_submul :: "isl_sioimath \<Rightarrow> isl_sioimath \<Rightarrow> isl_sioimath \<Rightarrow> isl_sioimath" where
  "isl_sioimath_submul dst lhs rhs = (let tmp = isl_sioimath_mul lhs rhs in isl_sioimath_sub dst tmp)"

definition isl_sioimath_submul_ui :: "isl_sioimath \<Rightarrow> isl_sioimath \<Rightarrow> ulong \<Rightarrow> isl_sioimath" where
  "isl_sioimath_submul_ui dst lhs rhs = (let tmp = isl_sioimath_mul_ui lhs rhs in isl_sioimath_sub dst tmp)"

text \<open>
  In \<open>pow_ui\<close> the test \<open>(MP_SMALL_MIN <= rhs) && (rhs <= MP_SMALL_MAX)\<close> compares a
  \<open>long\<close> with an \<open>unsigned long\<close>, so \<open>LONG_MIN\<close> is converted to \<open>2 ^ 63\<close> and the branch of
  \<open>mp_int_expt_value\<close>, which keeps 32 bits of its exponent, is never taken.
\<close>

fun isl_sioimath_pow_ui :: "isl_sioimath \<Rightarrow> ulong \<Rightarrow> isl_sioimath option" where
  "isl_sioimath_pow_ui lhs rhs =
     (if rhs = 0 then Some (Small 1)
      else if rhs = 1 then Some lhs
      else if rhs = 2 then Some (isl_sioimath_mul lhs lhs)
      else case lhs of
        Small l \<Rightarrow>
          if l = 0 then Some (Small 0)
          else if l = 1 then Some (Small 1)
          else if l = 2 then isl_sioimath_mul_2exp (Small 1) rhs
          else if INT64_MIN \<le> rhs \<and> rhs \<le> INT64_MAX
               then Some (isl_sioimath_try_demote (Big (sint l ^ unat (ucast rhs :: 32 word))))
          else Some (isl_sioimath_try_demote (Big (sint l ^ unat rhs)))
      | Big n \<Rightarrow> Some (isl_sioimath_try_demote (Big (n ^ unat rhs))))"

subsection \<open>Division\<close>

text \<open>C's division of signed words truncates; so does \<open>mp_int_div\<close>.\<close>

definition c_rem :: "int \<Rightarrow> int \<Rightarrow> int" where
  "c_rem a b = a - isl_int_tdiv_q a b * b"

definition i32_div :: "i32 \<Rightarrow> i32 \<Rightarrow> i32" where
  "i32_div a b = word_of_int (isl_int_tdiv_q (sint a) (sint b))"

definition i64_div :: "i64 \<Rightarrow> i64 \<Rightarrow> i64" where
  "i64_div a b = word_of_int (isl_int_tdiv_q (sint a) (sint b))"

definition i64_rem :: "i64 \<Rightarrow> i64 \<Rightarrow> i64" where
  "i64_rem a b = word_of_int (c_rem (sint a) (sint b))"

text \<open>The rounding functions of gmp_compat.c over the truncating division.\<close>

definition impz_cdiv_q :: "int \<Rightarrow> int \<Rightarrow> int" where
  "impz_cdiv_q n d =
     (let q = isl_int_tdiv_q n d; r = c_rem n d
      in if 0 < q then (if r \<noteq> 0 then q + 1 else q)
         else if q = 0
              then (if r \<noteq> 0 then if (0 < n \<and> 0 < d) \<or> (n < 0 \<and> d < 0) then 1 else q else q)
         else q)"

definition impz_fdiv_q :: "int \<Rightarrow> int \<Rightarrow> int" where
  "impz_fdiv_q n d =
     (let q = isl_int_tdiv_q n d; r = c_rem n d
      in if q < 0 then (if r \<noteq> 0 then q - 1 else q)
         else if q = 0
              then (if r \<noteq> 0 then if (n < 0 \<and> 0 < d) \<or> (0 < n \<and> d < 0) then - 1 else q else q)
         else q)"

definition impz_fdiv_r :: "int \<Rightarrow> int \<Rightarrow> int" where
  "impz_fdiv_r n d = (let q = impz_fdiv_q n d; temp = q * d in n - temp)"

definition impz_gcd :: "int \<Rightarrow> int \<Rightarrow> int" where
  "impz_gcd op1 op2 = (if op1 = 0 \<and> op2 = 0 then 0 else gcd op1 op2)"

definition impz_lcm :: "int \<Rightarrow> int \<Rightarrow> int" where
  "impz_lcm op1 op2 = (if op1 = 0 \<or> op2 = 0 then 0 else \<bar>lcm op1 op2\<bar>)"

fun isl_sioimath_tdiv_q :: "isl_sioimath \<Rightarrow> isl_sioimath \<Rightarrow> isl_sioimath" where
  "isl_sioimath_tdiv_q (Small l) (Small r) = Small (i32_div l r)"
| "isl_sioimath_tdiv_q lhs rhs =
     isl_sioimath_try_demote (Big (isl_int_tdiv_q (sio_val lhs) (sio_val rhs)))"

fun isl_sioimath_cdiv_q :: "isl_sioimath \<Rightarrow> isl_sioimath \<Rightarrow> isl_sioimath" where
  "isl_sioimath_cdiv_q (Small l) (Small r) =
     Small (if 0 \<le> sint l \<and> 0 \<le> sint r then ucast (i64_div (scast l + scast r - 1) (scast r))
            else if sint l < 0 \<and> sint r < 0 then ucast (i64_div (scast l + scast r + 1) (scast r))
            else i32_div l r)"
| "isl_sioimath_cdiv_q lhs rhs =
     isl_sioimath_try_demote (Big (impz_cdiv_q (sio_val lhs) (sio_val rhs)))"

fun isl_sioimath_fdiv_q :: "isl_sioimath \<Rightarrow> isl_sioimath \<Rightarrow> isl_sioimath" where
  "isl_sioimath_fdiv_q (Small l) (Small r) =
     Small (if sint l < 0 \<and> 0 \<le> sint r then ucast (i64_div (scast l - (scast r - 1)) (scast r))
            else if 0 \<le> sint l \<and> sint r < 0 then ucast (i64_div (scast l - (scast r + 1)) (scast r))
            else i32_div l r)"
| "isl_sioimath_fdiv_q lhs rhs =
     isl_sioimath_try_demote (Big (impz_fdiv_q (sio_val lhs) (sio_val rhs)))"

fun isl_sioimath_fdiv_r :: "isl_sioimath \<Rightarrow> isl_sioimath \<Rightarrow> isl_sioimath" where
  "isl_sioimath_fdiv_r (Small l) (Small r) =
     (let lhssmall = scast l :: i64; rhssmall = scast r :: i64
      in Small (ucast (i64_rem (rhssmall + i64_rem lhssmall rhssmall) rhssmall)))"
| "isl_sioimath_fdiv_r lhs rhs =
     isl_sioimath_try_demote (Big (impz_fdiv_r (sio_val lhs) (sio_val rhs)))"

text \<open>Euclid's algorithm on 32-bit unsigned words.\<close>

function smallgcd_loop :: "32 word \<Rightarrow> 32 word \<Rightarrow> 32 word" where
  "smallgcd_loop dividend divisor =
     (if divisor = 0 then dividend else smallgcd_loop divisor (dividend mod divisor))"
  by pat_completeness auto
termination
proof (relation "measure (\<lambda>(_, divisor). unat divisor)")
  fix dividend divisor :: "32 word"
  assume "divisor \<noteq> 0"
  then have "unat (dividend mod divisor) < unat divisor"
    by (simp add: unat_mod unat_gt_0 [symmetric] word_neq_0_conv)
  then show "((divisor, dividend mod divisor), dividend, divisor) \<in> measure (\<lambda>(_, divisor). unat divisor)"
    by simp
qed simp

declare smallgcd_loop.simps [simp del]

definition labs32 :: "i32 \<Rightarrow> 32 word" where
  "labs32 w = word_of_int \<bar>sint w\<bar>"

definition isl_sioimath_smallgcd :: "i32 \<Rightarrow> i32 \<Rightarrow> 32 word" where
  "isl_sioimath_smallgcd lhs rhs = smallgcd_loop (labs32 lhs) (labs32 rhs)"

fun isl_sioimath_gcd :: "isl_sioimath \<Rightarrow> isl_sioimath \<Rightarrow> isl_sioimath" where
  "isl_sioimath_gcd (Small l) (Small r) = Small (isl_sioimath_smallgcd l r)"
| "isl_sioimath_gcd lhs rhs = isl_sioimath_try_demote (Big (impz_gcd (sio_val lhs) (sio_val rhs)))"

fun isl_sioimath_lcm :: "isl_sioimath \<Rightarrow> isl_sioimath \<Rightarrow> isl_sioimath" where
  "isl_sioimath_lcm (Small l) (Small r) =
     (if l = 0 \<or> r = 0 then Small 0
      else let smallgcd = isl_sioimath_smallgcd l r;
               multiple = (ucast (labs32 l) :: 64 word) * ucast (labs32 r)
           in isl_sioimath_set_int64 (multiple div ucast smallgcd))"
| "isl_sioimath_lcm lhs rhs = isl_sioimath_try_demote (Big (impz_lcm (sio_val lhs) (sio_val rhs)))"

subsection \<open>Comparison\<close>

fun isl_sioimath_sgn :: "isl_sioimath \<Rightarrow> int" where
  "isl_sioimath_sgn (Small w) = of_bool (0 < sint w) - of_bool (sint w < 0)"
| "isl_sioimath_sgn (Big n) = sgn n"

fun isl_sioimath_cmp :: "isl_sioimath \<Rightarrow> isl_sioimath \<Rightarrow> int" where
  "isl_sioimath_cmp (Small l) (Small r) = of_bool (sint r < sint l) - of_bool (sint l < sint r)"
| "isl_sioimath_cmp (Big l) (Small r) = sgn (l - sint r)"
| "isl_sioimath_cmp (Small l) (Big r) = - sgn (r - sint l)"
| "isl_sioimath_cmp (Big l) (Big r) = sgn (l - r)"

fun isl_sioimath_cmp_si :: "isl_sioimath \<Rightarrow> i64 \<Rightarrow> int" where
  "isl_sioimath_cmp_si (Small l) rhs = of_bool (sint rhs < sint l) - of_bool (sint l < sint rhs)"
| "isl_sioimath_cmp_si (Big l) rhs = sgn (l - sint rhs)"

fun isl_sioimath_abs_cmp :: "isl_sioimath \<Rightarrow> isl_sioimath \<Rightarrow> int" where
  "isl_sioimath_abs_cmp (Small l) (Small r) =
     (let l' = sint (labs32 l); r' = sint (labs32 r) in of_bool (r' < l') - of_bool (l' < r'))"
| "isl_sioimath_abs_cmp lhs rhs = sgn (\<bar>sio_val lhs\<bar> - \<bar>sio_val rhs\<bar>)"

fun isl_sioimath_is_divisible_by :: "isl_sioimath \<Rightarrow> isl_sioimath \<Rightarrow> bool" where
  "isl_sioimath_is_divisible_by lhs rhs =
     (if isl_sioimath_sgn rhs = 0 then isl_sioimath_sgn lhs = 0
      else case (lhs, rhs) of
        (Small l, Small r) \<Rightarrow> c_rem (sint l) (sint r) = 0
      | _ \<Rightarrow> c_rem (sio_val lhs) (sio_val rhs) = 0)"

subsection \<open>Machine words as integers\<close>

lemma sint32_range: "- (2 ^ 31) \<le> sint (w :: 32 word)" "sint (w :: 32 word) < 2 ^ 31"
  using sint_greater_eq [of w] sint_less [of w] by simp_all

lemma sint64_range: "- (2 ^ 63) \<le> sint (w :: 64 word)" "sint (w :: 64 word) < 2 ^ 63"
  using sint_greater_eq [of w] sint_less [of w] by simp_all

lemma uint64_range: "0 \<le> uint (w :: 64 word)" "uint (w :: 64 word) < 2 ^ 64"
  using uint_bounded [of w] by simp_all

lemmas sint32_num = sint32_range [simplified]

lemma uint64_num: "0 \<le> uint (w :: 64 word)" "uint (w :: 64 word) < 18446744073709551616"
  using uint64_range by simp_all

lemma sint_word_of_int64: "- (2 ^ 63) \<le> x \<Longrightarrow> x < 2 ^ 63 \<Longrightarrow> sint (word_of_int x :: 64 word) = x"
  by (simp add: sint_sbintrunc' signed_take_bit_int_eq_self)

lemma sint_word_of_int32: "- (2 ^ 31) \<le> x \<Longrightarrow> x < 2 ^ 31 \<Longrightarrow> sint (word_of_int x :: 32 word) = x"
  by (simp add: sint_sbintrunc' signed_take_bit_int_eq_self)

lemma sint_down32:
  assumes "- (2 ^ 31) \<le> sint (w :: 64 word)" "sint w < 2 ^ 31"
  shows "sint (ucast w :: 32 word) = sint w" "sint (scast w :: 32 word) = sint w"
proof -
  have "(ucast w :: 32 word) = word_of_int (sint w)"
    by (rule bit_word_eqI) (auto simp: bit_simps)
  then show *: "sint (ucast w :: 32 word) = sint w"
    using sint_word_of_int32 [OF assms] by metis
  show "sint (scast w :: 32 word) = sint w"
    unfolding scast_eq by (rule sint_word_of_int32 [OF assms])
qed

lemma set_int64_val: "sio_val (isl_sioimath_set_int64 v) = sint v" "sio_ok (isl_sioimath_set_int64 v)"
  by (auto simp: isl_sioimath_set_int64_def SMALL_MIN_def SMALL_MAX_def sint_down32)

lemma try_demote_val: "sio_val (isl_sioimath_try_demote x) = sio_val x"
  "sio_ok x \<Longrightarrow> sio_ok (isl_sioimath_try_demote x)"
  by (cases x; simp add: mp_int_to_int_def SMALL_MIN_def SMALL_MAX_def sint_down32 sint_word_of_int64)+

lemma scast_arith64:
  fixes a b :: "32 word"
  shows "sint (scast a + scast b :: 64 word) = sint a + sint b"
    and "sint (scast a - scast b :: 64 word) = sint a - sint b"
    and "sint (scast a * scast b :: 64 word) = sint a * sint b"
proof -
  note r = sint32_range [of a] sint32_range [of b]
  show "sint (scast a + scast b :: 64 word) = sint a + sint b"
    unfolding scast_eq wi_homs by (rule sint_word_of_int64) (use r in simp_all)
  show "sint (scast a - scast b :: 64 word) = sint a - sint b"
    unfolding scast_eq wi_homs by (rule sint_word_of_int64) (use r in simp_all)
  have "\<bar>sint a * sint b\<bar> \<le> 2 ^ 31 * 2 ^ 31"
    unfolding abs_mult by (rule mult_mono) (use r in auto)
  then show "sint (scast a * scast b :: 64 word) = sint a * sint b"
    unfolding scast_eq wi_homs by (intro sint_word_of_int64) simp_all
qed

lemma add_correct: "sio_val (isl_sioimath_add x y) = sio_val x + sio_val y" "sio_ok (isl_sioimath_add x y)"
  by (cases x; cases y; simp add: set_int64_val try_demote_val scast_arith64 del: isl_sioimath_try_demote.simps)+

lemma mul_correct: "sio_val (isl_sioimath_mul x y) = sio_val x * sio_val y" "sio_ok (isl_sioimath_mul x y)"
  by (cases x; cases y; simp add: set_int64_val try_demote_val scast_arith64 del: isl_sioimath_try_demote.simps)+

subsection \<open>The rounding layer\<close>

lemma tdiv_q_cases:
  assumes "d \<noteq> 0"
  shows "0 \<le> n \<Longrightarrow> 0 < d \<Longrightarrow> isl_int_tdiv_q n d = n div d"
    and "n \<le> 0 \<Longrightarrow> 0 < d \<Longrightarrow> isl_int_tdiv_q n d = - ((- n) div d)"
    and "0 \<le> n \<Longrightarrow> d < 0 \<Longrightarrow> isl_int_tdiv_q n d = - (n div (- d))"
    and "n \<le> 0 \<Longrightarrow> d < 0 \<Longrightarrow> isl_int_tdiv_q n d = (- n) div (- d)"
  by (cases "n = 0"; simp add: isl_int_tdiv_q_def sgn_if)+

lemma c_rem_eq: "c_rem n d = sgn n * (\<bar>n\<bar> mod \<bar>d\<bar>)"
proof -
  have "\<bar>d\<bar> * (\<bar>n\<bar> div \<bar>d\<bar>) + \<bar>n\<bar> mod \<bar>d\<bar> = \<bar>n\<bar>" by simp
  then have "sgn n * (\<bar>d\<bar> * (\<bar>n\<bar> div \<bar>d\<bar>)) + sgn n * (\<bar>n\<bar> mod \<bar>d\<bar>) = n"
    by (metis distrib_left mult_sgn_abs)
  moreover have "isl_int_tdiv_q n d * d = sgn n * (\<bar>d\<bar> * (\<bar>n\<bar> div \<bar>d\<bar>))"
    by (simp add: isl_int_tdiv_q_def abs_sgn mult.assoc mult.left_commute mult.commute)
  ultimately show ?thesis by (simp add: c_rem_def)
qed

lemma c_rem_zero_iff: "c_rem n d = 0 \<longleftrightarrow> d dvd n"
  by (cases "n = 0") (auto simp: c_rem_eq sgn_if dvd_eq_mod_eq_0 [of "\<bar>d\<bar>" "\<bar>n\<bar>", symmetric])

lemma floor_div_neg: "0 < b \<Longrightarrow> (- a) div b = (if b dvd a then - (a div b) else - (a div b) - 1)" for a b :: int
  by (simp add: zdiv_zminus1_eq_if dvd_eq_mod_eq_0)

lemma impz_fdiv_q_correct: "d \<noteq> 0 \<Longrightarrow> impz_fdiv_q n d = n div d"
proof -
  assume d: "d \<noteq> 0"
  have *: "impz_fdiv_q n d = n div d" if "0 < d" for n d :: int
  proof (cases "0 \<le> n")
    case True
    then have "0 \<le> n div d" using that by (simp add: pos_imp_zdiv_nonneg_iff)
    then show ?thesis
      using that True by (simp add: impz_fdiv_q_def Let_def tdiv_q_cases)
  next
    case False
    then have "0 \<le> (- n) div d" using that by (simp add: pos_imp_zdiv_nonneg_iff)
    moreover have "n div d = (if d dvd n then - ((- n) div d) else - ((- n) div d) - 1)"
      using floor_div_neg [OF that, of "- n"] by simp
    ultimately show ?thesis
      using that False by (auto simp: impz_fdiv_q_def Let_def tdiv_q_cases c_rem_zero_iff)
  qed
  show ?thesis
  proof (cases "0 < d")
    case True
    then show ?thesis by (rule *)
  next
    case False
    have "impz_fdiv_q n d = impz_fdiv_q (- n) (- d)"
      by (auto simp: impz_fdiv_q_def Let_def isl_int_tdiv_q_def c_rem_zero_iff)
    also have "\<dots> = (- n) div (- d)" by (rule *) (use d False in simp)
    finally show ?thesis by simp
  qed
qed

lemma impz_cdiv_q_correct: "d \<noteq> 0 \<Longrightarrow> impz_cdiv_q n d = isl_int_cdiv_q n d"
proof -
  assume d: "d \<noteq> 0"
  have "impz_cdiv_q n d = - impz_fdiv_q (- n) d"
    by (auto simp: impz_fdiv_q_def impz_cdiv_q_def Let_def isl_int_tdiv_q_def c_rem_zero_iff)
  with impz_fdiv_q_correct [OF d] show ?thesis by (simp add: isl_int_cdiv_q_def)
qed

lemma impz_fdiv_r_correct: "d \<noteq> 0 \<Longrightarrow> impz_fdiv_r n d = n mod d"
  by (simp add: impz_fdiv_r_def impz_fdiv_q_correct minus_div_mult_eq_mod Let_def)
subsection \<open>The operations compute the integer functions\<close>

lemma sub_correct: "sio_val (isl_sioimath_sub x y) = sio_val x - sio_val y" "sio_ok (isl_sioimath_sub x y)"
  by (cases x; cases y; simp add: set_int64_val try_demote_val scast_arith64 del: isl_sioimath_try_demote.simps)+

lemma sint_uminus32: "SMALL_MIN \<le> sint w \<Longrightarrow> sint (- w :: 32 word) = - sint w"
proof -
  assume "SMALL_MIN \<le> sint w"
  have "- w = word_of_int (- sint w)" by simp
  then have "sint (- w) = sint (word_of_int (- sint w) :: 32 word)" by (rule arg_cong)
  also have "\<dots> = - sint w"
    by (rule sint_word_of_int32) (use sint32_range [of w] \<open>SMALL_MIN \<le> sint w\<close> in \<open>simp_all add: SMALL_MIN_def\<close>)
  finally show ?thesis .
qed

lemma neg_correct:
  assumes "sio_ok x"
  shows "sio_val (isl_sioimath_neg x) = - sio_val x" "sio_ok (isl_sioimath_neg x)"
    and "sio_val (isl_sioimath_abs x) = \<bar>sio_val x\<bar>" "sio_ok (isl_sioimath_abs x)"
proof -
  have "sint (- w) = - sint w \<and> SMALL_MIN \<le> - sint w" if "SMALL_MIN \<le> sint w" for w :: i32
    using that sint32_range(2) [of w] by (simp add: sint_uminus32 SMALL_MIN_def)
  with assms show "sio_val (isl_sioimath_neg x) = - sio_val x" "sio_ok (isl_sioimath_neg x)"
    and "sio_val (isl_sioimath_abs x) = \<bar>sio_val x\<bar>" "sio_ok (isl_sioimath_abs x)"
    by (cases x; simp)+
qed

lemma uint_word_consts: "uint (INT64_MAX - word_of_int SMALL_MAX) = 2 ^ 63 - 2 ^ 31"
  "uint (INT64_MIN - word_of_int SMALL_MIN) = 2 ^ 63 + 2 ^ 31 - 1"
  by (simp_all add: INT64_MAX_def INT64_MIN_def SMALL_MAX_def SMALL_MIN_def)

lemma mixed_arith64:
  fixes a :: "32 word" and w :: "64 word"
  shows "- (2 ^ 63) \<le> sint a + uint w \<Longrightarrow> sint a + uint w < 2 ^ 63 \<Longrightarrow> sint (scast a + w) = sint a + uint w"
    and "- (2 ^ 63) \<le> sint a - uint w \<Longrightarrow> sint a - uint w < 2 ^ 63 \<Longrightarrow> sint (scast a - w) = sint a - uint w"
    and "- (2 ^ 63) \<le> sint a * uint w \<Longrightarrow> sint a * uint w < 2 ^ 63 \<Longrightarrow> sint (scast a * w) = sint a * uint w"
    and "- (2 ^ 63) \<le> sint a * sint w \<Longrightarrow> sint a * sint w < 2 ^ 63 \<Longrightarrow> sint (scast a * w) = sint a * sint w"
proof -
  have w: "w = word_of_int (uint w)" "w = word_of_int (sint w)" by simp_all
  have mul: "scast a * w = word_of_int (sint a * sint w)"
    by (subst w(2), simp only: scast_eq wi_homs)
  have "scast a + w = word_of_int (sint a + uint w)" "scast a - w = word_of_int (sint a - uint w)"
    "scast a * w = word_of_int (sint a * uint w)"
    by (subst w(1), simp only: scast_eq wi_homs)+
  then show "- (2 ^ 63) \<le> sint a + uint w \<Longrightarrow> sint a + uint w < 2 ^ 63 \<Longrightarrow> sint (scast a + w) = sint a + uint w"
    and "- (2 ^ 63) \<le> sint a - uint w \<Longrightarrow> sint a - uint w < 2 ^ 63 \<Longrightarrow> sint (scast a - w) = sint a - uint w"
    and "- (2 ^ 63) \<le> sint a * uint w \<Longrightarrow> sint a * uint w < 2 ^ 63 \<Longrightarrow> sint (scast a * w) = sint a * uint w"
    by (simp_all only: sint_word_of_int64)
  show "- (2 ^ 63) \<le> sint a * sint w \<Longrightarrow> sint a * sint w < 2 ^ 63 \<Longrightarrow> sint (scast a * w) = sint a * sint w"
    unfolding mul by (rule sint_word_of_int64)
qed

lemma add_ui_correct:
  "sio_val (isl_sioimath_add_ui x rhs) = sio_val x + uint rhs" "sio_ok (isl_sioimath_add_ui x rhs)"
proof -
  have "sint (scast l + rhs) = sint l + uint rhs" if "rhs \<le> INT64_MAX - word_of_int SMALL_MAX" for l :: i32
  proof (rule mixed_arith64(1))
    have "uint rhs \<le> 2 ^ 63 - 2 ^ 31"
      using that unfolding word_le_def uint_word_consts .
    then show "- (2 ^ 63) \<le> sint l + uint rhs" "sint l + uint rhs < 2 ^ 63"
      by (simp_all, insert sint32_num [of l] uint64_num(1) [of rhs], linarith+)
  qed
  then show "sio_val (isl_sioimath_add_ui x rhs) = sio_val x + uint rhs" "sio_ok (isl_sioimath_add_ui x rhs)"
    by (cases x; simp add: set_int64_val try_demote_val del: isl_sioimath_try_demote.simps)+
qed

lemma sub_ui_cases:
  "isl_sioimath_sub_ui (Small l) rhs =
     (if uint rhs < 2 ^ 63 + 2 ^ 31 - 1 then isl_sioimath_set_int64 (scast l - rhs)
      else isl_sioimath_try_demote (Big (sint l - uint rhs)))"
  by (simp only: isl_sioimath_sub_ui.simps word_less_def uint_word_consts)

lemma sub_ui_wrapped:
  assumes "sint l - uint rhs < - (2 ^ 63)" and "uint rhs < 2 ^ 63 + 2 ^ 31 - 1"
  shows "sint (scast (l :: 32 word) - rhs :: 64 word) = sint l - uint rhs + 2 ^ 64"
proof -
  have rhs: "rhs = word_of_int (uint rhs)" by simp
  have "scast l - rhs = (word_of_int (sint l - uint rhs) :: 64 word)"
    by (subst rhs) (simp only: scast_eq wi_homs)
  also have "\<dots> = word_of_int (sint l - uint rhs + 2 ^ 64)"
    by (simp add: wi_hom_add [symmetric])
  finally have "sint (scast l - rhs) = sint (word_of_int (sint l - uint rhs + 2 ^ 64) :: 64 word)"
    by (rule arg_cong)
  also have "\<dots> = sint l - uint rhs + 2 ^ 64"
    by (rule sint_word_of_int64) (use assms in simp_all, insert sint32_num [of l], linarith+)
  finally show ?thesis .
qed

lemma sub_ui_correct_iff:
  "sio_val (isl_sioimath_sub_ui (Small l) rhs) = sint l - uint rhs \<longleftrightarrow>
     \<not> (sint l + 2 ^ 63 < uint rhs \<and> uint rhs < 2 ^ 63 + 2 ^ 31 - 1)"
proof (cases "uint rhs < 2 ^ 63 + 2 ^ 31 - 1")
  case T: True
  show ?thesis
  proof (cases "sint l - uint rhs < - (2 ^ 63)")
    case True
    then show ?thesis using sub_ui_wrapped [OF True T] T by (simp add: sub_ui_cases set_int64_val del: isl_sioimath_sub_ui.simps)
  next
    case False
    have "sint (scast l - rhs) = sint l - uint rhs"
      by (rule mixed_arith64(2)) (use False in simp_all, insert sint32_num [of l] uint64_num(1) [of rhs], linarith+)
    then show ?thesis using T False by (simp add: sub_ui_cases set_int64_val del: isl_sioimath_sub_ui.simps)
  qed
next
  case False
  then show ?thesis by (simp add: sub_ui_cases try_demote_val del: isl_sioimath_sub_ui.simps isl_sioimath_try_demote.simps)
qed

lemma mul_2exp_correct:
  "map_option sio_val (isl_sioimath_mul_2exp x rhs) = isl_int_mul_2exp (sio_val x) rhs"
  "pred_option sio_ok (isl_sioimath_mul_2exp x rhs)"
proof -
  have "sint (push_bit (unat rhs) (scast l :: 64 word)) = sint l * 2 ^ unat rhs" if "rhs \<le> 32" for l :: i32
  proof -
    have u: "unat rhs \<le> 32" using that by (simp add: word_le_nat_alt)
    have "push_bit (unat rhs) (scast l :: 64 word) = word_of_int (sint l * 2 ^ unat rhs)"
      by (simp add: push_bit_eq_mult wi_hom_mult [symmetric])
    moreover have "- (2 ^ 63) \<le> sint l * 2 ^ unat rhs" "sint l * 2 ^ unat rhs < 2 ^ 63"
    proof -
      define P where "P = (2::int) ^ unat rhs"
      have P: "0 \<le> P" "P \<le> 4294967296"
        using power_increasing [OF u, of "2::int"] by (simp_all add: P_def)
      have "- 2147483648 * P \<le> sint l * P" "sint l * P \<le> 2147483647 * P"
        by (rule mult_right_mono; use sint32_num [of l] P in linarith)+
      with P have "- 9223372036854775808 \<le> sint l * P" "sint l * P < 9223372036854775808"
        by linarith+
      then show "- (2 ^ 63) \<le> sint l * 2 ^ unat rhs" "sint l * 2 ^ unat rhs < 2 ^ 63"
        by (simp_all add: P_def)
    qed
    ultimately show ?thesis by (simp only: sint_word_of_int64)
  qed
  then have fast: "isl_int_mul_2exp (sint l) rhs = Some (sint (push_bit (unat rhs) (scast l :: 64 word)))"
    if "rhs \<le> 32" for l :: i32
    using that by (simp add: isl_int_mul_2exp_exact word_le_nat_alt)
  show "map_option sio_val (isl_sioimath_mul_2exp x rhs) = isl_int_mul_2exp (sio_val x) rhs"
    by (cases x) (simp_all add: set_int64_val fast option.map_comp o_def isl_int_mul_2exp_def [symmetric] option.map_ident)
  show "pred_option sio_ok (isl_sioimath_mul_2exp x rhs)"
    by (cases x) (simp_all add: set_int64_val option.pred_map o_def option.pred_True)
qed

lemma small_times_u32:
  assumes "\<bar>x\<bar> \<le> UINT32_MAX"
  shows "- (2 ^ 63) \<le> sint (l :: i32) * x" "sint l * x < 2 ^ 63"
proof -
  have "\<bar>sint l * x\<bar> \<le> 2 ^ 31 * (2 ^ 32 - 1)"
    unfolding abs_mult
    by (rule mult_mono) (use assms sint32_range [of l] in \<open>auto simp: UINT32_MAX_def\<close>)
  then show "- (2 ^ 63) \<le> sint l * x" "sint l * x < 2 ^ 63" by simp_all
qed

lemma mul_ui_correct:
  "sio_val (isl_sioimath_mul_ui x rhs) = sio_val x * uint rhs" "sio_ok (isl_sioimath_mul_ui x rhs)"
proof -
  have "sint (scast l * rhs) = sint l * uint rhs" if "uint rhs \<le> UINT32_MAX" for l :: i32
    by (rule mixed_arith64(3); rule small_times_u32) (use that in simp_all)
  then show "sio_val (isl_sioimath_mul_ui x rhs) = sio_val x * uint rhs" "sio_ok (isl_sioimath_mul_ui x rhs)"
    by (cases x; simp add: set_int64_val try_demote_val del: isl_sioimath_try_demote.simps)+
qed

lemma mul_si_correct:
  "sio_val (isl_sioimath_mul_si x rhs) = sio_val x * sint rhs" "sio_ok (isl_sioimath_mul_si x rhs)"
proof -
  have "sint (scast l * rhs) = sint l * sint rhs" if "\<bar>sint rhs\<bar> \<le> UINT32_MAX" for l :: i32
    by (rule mixed_arith64(4); rule small_times_u32) (use that in simp_all)
  then show "sio_val (isl_sioimath_mul_si x rhs) = sio_val x * sint rhs" "sio_ok (isl_sioimath_mul_si x rhs)"
    by (cases x; simp add: set_int64_val try_demote_val del: isl_sioimath_try_demote.simps)+
qed

lemma small_const_iff:
  "l = 0 \<longleftrightarrow> sint l = 0" "l = 1 \<longleftrightarrow> sint l = 1" "l = 2 \<longleftrightarrow> sint l = 2" for l :: i32
proof -
  have w: "m = word_of_int (sint m)" for m :: i32 by simp
  have inj: "sint l = sint m \<Longrightarrow> l = m" for m :: i32 by (metis w)
  show "l = 0 \<longleftrightarrow> sint l = 0" using inj [of 0] by auto
  show "l = 1 \<longleftrightarrow> sint l = 1" using inj [of 1] by auto
  show "l = 2 \<longleftrightarrow> sint l = 2" using inj [of 2] by auto
qed

lemma pow_ui_correct:
  assumes "sio_ok x" and "sio_val x = 2 \<Longrightarrow> unat rhs < 2 ^ 32"
  shows "\<exists>z. isl_sioimath_pow_ui x rhs = Some z \<and> sio_val z = sio_val x ^ unat rhs \<and> sio_ok z"
proof (cases x)
  case (Small l)
  have u: "rhs = 0 \<or> 0 < unat rhs" by (simp add: unat_gt_0)
  have dead: "\<not> (INT64_MIN \<le> rhs \<and> rhs \<le> INT64_MAX)"
    by (simp add: INT64_MIN_def INT64_MAX_def word_le_nat_alt)
  have two: "\<exists>z. isl_sioimath_mul_2exp (Small 1) rhs = Some z \<and> sio_val z = 2 ^ unat rhs \<and> sio_ok z" if "sint l = 2"
  proof -
    have "map_option sio_val (isl_sioimath_mul_2exp (Small 1) rhs) = Some (2 ^ unat rhs)"
      using that assms(2) Small by (simp add: mul_2exp_correct isl_int_mul_2exp_exact del: isl_sioimath_mul_2exp.simps)
    then show ?thesis using mul_2exp_correct(2) [of "Small 1" rhs] by (auto simp del: isl_sioimath_mul_2exp.simps)
  qed
  show ?thesis using assms u Small dead two
    by (auto simp: mul_correct try_demote_val small_const_iff power2_eq_square zero_power SMALL_MIN_def
      simp del: isl_sioimath_try_demote.simps isl_sioimath_mul.simps isl_sioimath_mul_2exp.simps)
next
  case (Big n)
  then show ?thesis
    by (auto simp: mul_correct try_demote_val power2_eq_square SMALL_MIN_def
      simp del: isl_sioimath_try_demote.simps isl_sioimath_mul.simps)
qed

lemma i32_div_val:
  assumes "SMALL_MIN \<le> sint l"
  shows "sint (i32_div l r) = isl_int_tdiv_q (sint l) (sint r)" "SMALL_MIN \<le> isl_int_tdiv_q (sint l) (sint r)"
proof -
  have "\<bar>isl_int_tdiv_q (sint l) (sint r)\<bar> \<le> \<bar>sint l\<bar>"
  proof (cases "sint r = 0")
    case False
    then have "\<bar>sint l\<bar> div \<bar>sint r\<bar> \<le> \<bar>sint l\<bar>"
      using zdiv_mono2 [of "\<bar>sint l\<bar>" 1 "\<bar>sint r\<bar>"] by simp
    then show ?thesis
      using False
      by (cases "sint l = 0") (auto simp: isl_int_tdiv_q_def abs_mult pos_imp_zdiv_nonneg_iff)
  qed simp
  with assms sint32_num [of l]
  have "- 2147483647 \<le> isl_int_tdiv_q (sint l) (sint r)" "isl_int_tdiv_q (sint l) (sint r) \<le> 2147483647"
    by (simp_all add: SMALL_MIN_def)
  then show "sint (i32_div l r) = isl_int_tdiv_q (sint l) (sint r)"
    "SMALL_MIN \<le> isl_int_tdiv_q (sint l) (sint r)"
    by (simp_all add: i32_div_def SMALL_MIN_def sint_word_of_int32)
qed

lemma cdiv_pos: "0 \<le> n \<Longrightarrow> 0 < d \<Longrightarrow> isl_int_tdiv_q (n + d - 1) d = isl_int_cdiv_q n d"
proof -
  assume n: "0 \<le> n" and d: "0 < d"
  have "isl_int_cdiv_q n d = (n + d - 1) div d"
  proof (rule isl_int_cdiv_q_unique [OF d])
    show "d * ((n + d - 1) div d) - d < n" "n \<le> d * ((n + d - 1) div d)"
      using isl_int_fdiv_q_bounds [OF d, of "n + d - 1"] unfolding isl_int_fdiv_q_def by linarith+
  qed
  then show ?thesis using n d by (simp add: tdiv_q_cases)
qed

lemma tdiv_neg_neg: "isl_int_tdiv_q (- n) (- d) = isl_int_tdiv_q n d"
  by (simp add: isl_int_tdiv_q_def)

lemma cdiv_neg_neg: "isl_int_cdiv_q (- n) (- d) = isl_int_cdiv_q n d"
  by (simp add: isl_int_cdiv_q_def div_minus_right)

lemma cdiv_mixed: "d \<noteq> 0 \<Longrightarrow> (n \<le> 0 \<and> 0 < d) \<or> (0 \<le> n \<and> d < 0) \<Longrightarrow> isl_int_tdiv_q n d = isl_int_cdiv_q n d"
  using tdiv_q_cases [of d n] by (auto simp: isl_int_cdiv_q_def div_minus_right)

lemma cdiv_q_abs_le:
  assumes "d \<noteq> 0"
  shows "\<bar>isl_int_cdiv_q n d\<bar> \<le> \<bar>n\<bar>"
proof -
  have *: "\<bar>isl_int_cdiv_q n d\<bar> \<le> \<bar>n\<bar>" if d: "0 < d" for n d :: int
  proof -
    define q where "q = isl_int_cdiv_q n d"
    note b = isl_int_cdiv_q_bounds [OF d, of n, folded q_def]
    have "q \<le> n" if "0 < n"
    proof (rule ccontr)
      assume "\<not> q \<le> n"
      then have "d * (n + 1) \<le> d * q" using d by (intro mult_left_mono) auto
      moreover have "1 * n \<le> d * n" using d that by (intro mult_right_mono) auto
      ultimately show False using b by (simp add: algebra_simps)
    qed
    moreover have "0 \<le> q" if "0 < n"
      using b that d by (smt (verit) mult_pos_neg)
    moreover have "q \<le> 0" if "n \<le> 0"
      using b that d by (smt (verit) mult_le_cancel_left1)
    moreover have "n \<le> q" if "n \<le> 0"
    proof (rule ccontr)
      assume "\<not> n \<le> q"
      then have "d * q \<le> d * (n - 1)" using d by (intro mult_left_mono) auto
      moreover have "d * (n - 1) \<le> 1 * (n - 1)"
        by (rule mult_right_mono_neg) (use d that in auto)
      ultimately show False using b by (simp add: algebra_simps)
    qed
    ultimately show ?thesis by (simp add: q_def abs_if) linarith
  qed
  show ?thesis
  proof (cases "0 < d")
    case False
    with assms have "\<bar>isl_int_cdiv_q (- n) (- d)\<bar> \<le> \<bar>- n\<bar>" by (intro *) simp
    then show ?thesis by (simp only: cdiv_neg_neg abs_minus_cancel)
  qed (rule *)
qed

lemma fdiv_as_cdiv: "n div d = - isl_int_cdiv_q (- n) d"
  by (simp add: isl_int_cdiv_q_def)

lemma fdiv_q_abs_le: "(d :: int) \<noteq> 0 \<Longrightarrow> \<bar>n div d\<bar> \<le> \<bar>n\<bar>"
  using cdiv_q_abs_le [of d "- n"] by (simp add: fdiv_as_cdiv)

lemma small_result:
  assumes "\<bar>q\<bar> \<le> \<bar>sint (l :: i32)\<bar>" and "SMALL_MIN \<le> sint l" and "sint (w :: i64) = q"
  shows "sint (ucast w :: i32) = q" "SMALL_MIN \<le> q"
proof -
  have "- 2147483647 \<le> q" "q \<le> 2147483647"
    using assms(1,2) sint32_num [of l] by (auto simp: SMALL_MIN_def)
  then show "sint (ucast w :: i32) = q" "SMALL_MIN \<le> q"
    using assms(3) sint_down32(1) [of w] by (simp_all add: SMALL_MIN_def)
qed

lemma i64_div_val:
  assumes "sint a = x" and "sint b = y" and "\<bar>isl_int_tdiv_q x y\<bar> \<le> \<bar>sint (l :: i32)\<bar>"
  shows "sint (i64_div a b) = isl_int_tdiv_q x y"
  unfolding i64_div_def assms(1,2)
  by (rule sint_word_of_int64) (use assms(3) sint32_num [of l] in \<open>simp_all\<close>)

lemma scast_i32_64 [simp]: "sint (scast (l :: i32) :: i64) = sint l"
  using scast_arith64(1) [of l 0] by simp


lemma scast_sum64:
  fixes l r :: i32
  shows "sint (scast l + scast r - 1 :: i64) = sint l + sint r - 1"
    and "sint (scast l + scast r + 1 :: i64) = sint l + sint r + 1"
    and "sint (scast l - (scast r - 1) :: i64) = sint l - (sint r - 1)"
    and "sint (scast l - (scast r + 1) :: i64) = sint l - (sint r + 1)"
proof -
  have one: "(1 :: i64) = word_of_int 1" by simp
  note b = sint32_num [of l] sint32_num [of r]
  show "sint (scast l + scast r - 1 :: i64) = sint l + sint r - 1"
    unfolding one scast_eq wi_homs by (rule sint_word_of_int64) (simp_all, insert b, linarith+)
  show "sint (scast l + scast r + 1 :: i64) = sint l + sint r + 1"
    unfolding one scast_eq wi_homs by (rule sint_word_of_int64) (simp_all, insert b, linarith+)
  show "sint (scast l - (scast r - 1) :: i64) = sint l - (sint r - 1)"
    unfolding one scast_eq wi_homs by (rule sint_word_of_int64) (simp_all, insert b, linarith+)
  show "sint (scast l - (scast r + 1) :: i64) = sint l - (sint r + 1)"
    unfolding one scast_eq wi_homs by (rule sint_word_of_int64) (simp_all, insert b, linarith+)
qed

lemma small_div_result:
  assumes "SMALL_MIN \<le> sint (l :: i32)" and "\<bar>q\<bar> \<le> \<bar>sint l\<bar>"
    and "sint a = n" and "isl_int_tdiv_q n (sint r) = q"
  shows "sint (ucast (i64_div a (scast (r :: i32))) :: i32) = q" "SMALL_MIN \<le> q"
  using small_result [OF assms(2,1) i64_div_val [OF assms(3) scast_i32_64, of r l, unfolded assms(4)]] assms(2,4)
  by simp_all

lemma cdiv_q_correct:
  assumes "sio_ok x" and "sio_val y \<noteq> 0"
  shows "sio_val (isl_sioimath_cdiv_q x y) = isl_int_cdiv_q (sio_val x) (sio_val y)"
    "sio_ok x \<Longrightarrow> sio_ok (isl_sioimath_cdiv_q x y)"
proof -
  have "sio_val (isl_sioimath_cdiv_q x y) = isl_int_cdiv_q (sio_val x) (sio_val y) \<and> sio_ok (isl_sioimath_cdiv_q x y)"
  proof (cases "\<exists>l r. x = Small l \<and> y = Small r")
    case True
    then obtain l r where xy: "x = Small l" "y = Small r" by blast
    with assms have l: "SMALL_MIN \<le> sint l" and r: "sint r \<noteq> 0" by auto
    let ?q = "isl_int_cdiv_q (sint l) (sint r)"
    have le: "\<bar>?q\<bar> \<le> \<bar>sint l\<bar>" by (rule cdiv_q_abs_le [OF r])
    note b = sint32_num [of l] sint32_num [of r]
    consider (pp) "0 \<le> sint l" "0 \<le> sint r" | (nn) "sint l < 0" "sint r < 0"
      | (m) "0 \<le> sint l \<and> sint r < 0 \<or> sint l < 0 \<and> 0 \<le> sint r" by linarith
    then show ?thesis
    proof cases
      case pp
      have "isl_int_tdiv_q (sint l + sint r - 1) (sint r) = ?q"
        using pp r by (intro cdiv_pos) auto
      from small_div_result [OF l le scast_sum64(1) this] show ?thesis using pp xy by simp
    next
      case nn
      have e: "- sint l + - sint r - 1 = - (sint l + sint r + 1)" by simp
      have "isl_int_tdiv_q (- sint l + - sint r - 1) (- sint r) = isl_int_cdiv_q (- sint l) (- sint r)"
        by (rule cdiv_pos) (use nn in auto)
      then have "isl_int_tdiv_q (sint l + sint r + 1) (sint r) = ?q"
        unfolding e tdiv_neg_neg cdiv_neg_neg .
      from small_div_result [OF l le scast_sum64(2) this] show ?thesis using nn xy by simp
    next
      case m
      then have "isl_int_tdiv_q (sint l) (sint r) = ?q" using r by (intro cdiv_mixed) auto
      with i32_div_val [OF l, of r] show ?thesis using m r xy by auto
    qed
  next
    case False
    then show ?thesis
      using assms(2) by (cases x; cases y) (auto simp: impz_cdiv_q_correct try_demote_val simp del: isl_sioimath_try_demote.simps)
  qed
  then show "sio_val (isl_sioimath_cdiv_q x y) = isl_int_cdiv_q (sio_val x) (sio_val y)"
    "sio_ok x \<Longrightarrow> sio_ok (isl_sioimath_cdiv_q x y)" by blast+
qed

lemma tdiv_q_correct:
  assumes "sio_ok x"
  shows "sio_val (isl_sioimath_tdiv_q x y) = isl_int_tdiv_q (sio_val x) (sio_val y)"
    "sio_ok (isl_sioimath_tdiv_q x y)"
  using assms
  by (cases x; cases y; simp add: i32_div_val try_demote_val del: isl_sioimath_try_demote.simps)+

lemma fdiv_q_correct:
  assumes "sio_ok x" and "sio_val y \<noteq> 0"
  shows "sio_val (isl_sioimath_fdiv_q x y) = isl_int_fdiv_q (sio_val x) (sio_val y)"
    "sio_ok (isl_sioimath_fdiv_q x y)"
proof -
  have "sio_val (isl_sioimath_fdiv_q x y) = isl_int_fdiv_q (sio_val x) (sio_val y) \<and> sio_ok (isl_sioimath_fdiv_q x y)"
  proof (cases "\<exists>l r. x = Small l \<and> y = Small r")
    case True
    then obtain l r where xy: "x = Small l" "y = Small r" by blast
    with assms have l: "SMALL_MIN \<le> sint l" and r: "sint r \<noteq> 0" by auto
    let ?q = "sint l div sint r"
    have le: "\<bar>?q\<bar> \<le> \<bar>sint l\<bar>" by (rule fdiv_q_abs_le [OF r])
    have neg: "isl_int_tdiv_q (- n) d = - isl_int_tdiv_q n d" for n d
      by (simp add: isl_int_tdiv_q_def)
    consider (np) "sint l < 0" "0 \<le> sint r" | (pn) "0 \<le> sint l" "sint r < 0"
      | (m) "0 \<le> sint l \<and> 0 \<le> sint r \<or> sint l < 0 \<and> sint r < 0" by linarith
    then show ?thesis
    proof cases
      case np
      have "isl_int_tdiv_q (sint l - (sint r - 1)) (sint r) = ?q"
        using cdiv_pos [of "- sint l" "sint r"] np r neg [of "sint l - (sint r - 1)" "sint r"]
        by (simp add: fdiv_as_cdiv algebra_simps)
      from small_div_result [OF l le scast_sum64(3) this] show ?thesis
        using np xy by (simp add: isl_int_fdiv_q_def)
    next
      case pn
      have "isl_int_tdiv_q (sint l - (sint r + 1)) (sint r) = ?q"
        using cdiv_pos [of "sint l" "- sint r"] pn cdiv_neg_neg [of "- sint l" "sint r"]
          tdiv_neg_neg [of "sint l - (sint r + 1)" "sint r"] neg [of "sint l - (sint r + 1)" "- sint r"]
        by (simp add: fdiv_as_cdiv algebra_simps)
      from small_div_result [OF l le scast_sum64(4) this] show ?thesis
        using pn xy by (simp add: isl_int_fdiv_q_def)
    next
      case m
      then have "isl_int_tdiv_q (sint l) (sint r) = ?q" using r tdiv_q_cases [of "sint r" "sint l"] by auto
      with i32_div_val [OF l, of r] show ?thesis using m r xy by (auto simp: isl_int_fdiv_q_def)
    qed
  next
    case False
    then show ?thesis
      using assms(2) by (cases x; cases y) (auto simp: impz_fdiv_q_correct isl_int_fdiv_q_def try_demote_val simp del: isl_sioimath_try_demote.simps)
  qed
  then show "sio_val (isl_sioimath_fdiv_q x y) = isl_int_fdiv_q (sio_val x) (sio_val y)"
    "sio_ok (isl_sioimath_fdiv_q x y)" by blast+
qed

lemma c_rem_range: "d \<noteq> 0 \<Longrightarrow> \<bar>c_rem n d\<bar> < \<bar>d\<bar>"
  by (cases "n = 0") (auto simp: c_rem_eq abs_mult)

lemma c_rem_mod: "c_rem n d mod d = n mod d"
  by (simp add: c_rem_def mod_diff_eq [symmetric])

lemma floor_rem_from_c_rem:
  assumes "d \<noteq> 0"
  shows "c_rem (d + c_rem n d) d = n mod d"
proof -
  let ?t = "d + c_rem n d"
  have t: "?t mod d = n mod d" using c_rem_mod [of n d] by simp
  show ?thesis
  proof (cases "0 < d")
    case True
    then have "0 < ?t" using c_rem_range [OF assms, of n] by linarith
    with True t show ?thesis by (simp add: c_rem_eq)
  next
    case False
    with assms have d: "d < 0" by simp
    then have "?t < 0" using c_rem_range [OF assms, of n] by linarith
    then have "c_rem ?t d = - ((- ?t) mod (- d))" using d by (simp add: c_rem_eq)
    also have "\<dots> = ?t mod d" by (simp only: mod_minus_minus minus_minus)
    finally show ?thesis using t by simp
  qed
qed

lemma fdiv_r_correct:
  assumes "sio_ok y" and "sio_val y \<noteq> 0"
  shows "sio_val (isl_sioimath_fdiv_r x y) = isl_int_fdiv_r (sio_val x) (sio_val y)"
    "sio_ok (isl_sioimath_fdiv_r x y)"
proof -
  have "sio_val (isl_sioimath_fdiv_r x y) = isl_int_fdiv_r (sio_val x) (sio_val y) \<and> sio_ok (isl_sioimath_fdiv_r x y)"
  proof (cases "\<exists>l r. x = Small l \<and> y = Small r")
    case True
    then obtain l r where xy: "x = Small l" "y = Small r" by blast
    with assms have r: "SMALL_MIN \<le> sint r" "sint r \<noteq> 0" by auto
    note b = sint32_num [of l] sint32_num [of r]
    have 1: "sint (i64_rem (scast l) (scast r)) = c_rem (sint l) (sint r)"
      unfolding i64_rem_def scast_i32_64
      by (rule sint_word_of_int64) (simp_all, insert b c_rem_range [OF r(2), of "sint l"], linarith+)
    have w: "scast r + i64_rem (scast l) (scast r) = word_of_int (sint r + c_rem (sint l) (sint r))"
      unfolding i64_rem_def scast_i32_64 unfolding scast_eq wi_homs ..
    have 2: "sint (scast r + i64_rem (scast l) (scast r)) = sint r + c_rem (sint l) (sint r)"
      unfolding w by (rule sint_word_of_int64) (simp_all, insert b c_rem_range [OF r(2), of "sint l"], linarith+)
    have lt: "\<bar>sint l mod sint r\<bar> < \<bar>sint r\<bar>"
      using r(2) by (simp add: abs_mod_less)
    have "sint (i64_rem (scast r + i64_rem (scast l) (scast r)) (scast r)) = sint l mod sint r"
      unfolding i64_rem_def [of "scast r + _"] 2 scast_i32_64 floor_rem_from_c_rem [OF r(2)]
      by (rule sint_word_of_int64) (simp_all, insert b lt, linarith+)
    from small_result [OF less_imp_le [OF lt] r(1) this] show ?thesis
      using xy by (simp add: isl_int_fdiv_r_def Let_def)
  next
    case False
    then show ?thesis
      using assms(2) by (cases x; cases y) (auto simp: impz_fdiv_r_correct isl_int_fdiv_r_def try_demote_val simp del: isl_sioimath_try_demote.simps)
  qed
  then show "sio_val (isl_sioimath_fdiv_r x y) = isl_int_fdiv_r (sio_val x) (sio_val y)"
    "sio_ok (isl_sioimath_fdiv_r x y)" by blast+
qed

lemma smallgcd_loop_gcd: "uint (smallgcd_loop a b) = gcd (uint a) (uint b)"
proof (induction a b rule: smallgcd_loop.induct)
  case (1 a b)
  show ?case
  proof (cases "b = 0")
    case False
    with 1 show ?thesis
      by (simp add: smallgcd_loop.simps [of a b] uint_mod gcd_red_int [of "uint a" "uint b", symmetric])
  qed (simp add: smallgcd_loop.simps [of a 0])
qed

lemma uint_labs32: "uint (labs32 w) = \<bar>sint w\<bar>"
proof -
  have "0 \<le> \<bar>sint w\<bar>" "\<bar>sint w\<bar> < 2 ^ 32" using sint32_num [of w] by auto
  then show ?thesis by (simp add: labs32_def uint_word_of_int_eq take_bit_int_eq_self)
qed

lemma uint_smallgcd: "uint (isl_sioimath_smallgcd l r) = gcd (sint l) (sint r)"
  by (simp add: isl_sioimath_smallgcd_def smallgcd_loop_gcd uint_labs32)

lemma sint_eq_uint32: "uint (w :: i32) < 2 ^ 31 \<Longrightarrow> sint w = uint w"
  using sint_word_of_int32 [of "uint w", OF order_trans [OF _ uint_ge_0]] by simp

lemma sint_eq_uint64: "uint (w :: i64) < 2 ^ 63 \<Longrightarrow> sint w = uint w"
  using sint_word_of_int64 [of "uint w", OF order_trans [OF _ uint_ge_0]] by simp

lemma gcd_small:
  assumes "SMALL_MIN \<le> sint (l :: i32)" "SMALL_MIN \<le> sint (r :: i32)"
  shows "gcd (sint l) (sint r) < 2 ^ 31"
proof (cases "sint l = 0")
  case True
  then show ?thesis using assms sint32_num [of r] by (auto simp: SMALL_MIN_def)
next
  case False
  then have "gcd (sint l) (sint r) \<le> \<bar>sint l\<bar>" by (intro zdvd_imp_le) simp_all
  then show ?thesis using assms sint32_num [of l] by (auto simp: SMALL_MIN_def)
qed

lemma gcd_correct:
  assumes "sio_ok x" and "sio_ok y"
  shows "sio_val (isl_sioimath_gcd x y) = isl_int_gcd (sio_val x) (sio_val y)"
    "sio_ok (isl_sioimath_gcd x y)"
proof -
  have "sint (isl_sioimath_smallgcd l r) = gcd (sint l) (sint r) \<and> SMALL_MIN \<le> gcd (sint l) (sint r)"
    if "SMALL_MIN \<le> sint l" "SMALL_MIN \<le> sint r" for l r
    using sint_eq_uint32 [of "isl_sioimath_smallgcd l r"] gcd_small [OF that]
    by (simp add: uint_smallgcd SMALL_MIN_def order_trans [OF _ gcd_ge_0_int])
  moreover have "impz_gcd a b = gcd a b" for a b by (simp add: impz_gcd_def)
  ultimately show "sio_val (isl_sioimath_gcd x y) = isl_int_gcd (sio_val x) (sio_val y)"
    "sio_ok (isl_sioimath_gcd x y)"
    using assms by (cases x; cases y; simp add: isl_int_gcd_def try_demote_val del: isl_sioimath_try_demote.simps)+
qed

lemma uint_small_lcm:
  fixes l r :: i32
  assumes "sint l \<noteq> 0" and "sint r \<noteq> 0"
  shows "uint ((ucast (labs32 l) * ucast (labs32 r) :: 64 word) div ucast (isl_sioimath_smallgcd l r)) = lcm (sint l) (sint r)"
    and "lcm (sint l) (sint r) < 2 ^ 63"
proof -
  have m: "\<bar>sint l\<bar> * \<bar>sint r\<bar> \<le> 2147483648 * 2147483648"
    by (rule mult_mono) (use sint32_num [of l] sint32_num [of r] in auto)
  have tb: "take_bit 64 \<bar>sint w\<bar> = \<bar>sint w\<bar>" for w :: i32
    using sint32_num [of w] by (intro take_bit_int_eq_self) auto
  have "uint (ucast (labs32 l) * ucast (labs32 r) :: 64 word) = \<bar>sint l\<bar> * \<bar>sint r\<bar>"
  proof -
    have "uint (ucast (labs32 l) * ucast (labs32 r) :: 64 word) = (\<bar>sint l\<bar> * \<bar>sint r\<bar>) mod 2 ^ 64"
      by (simp add: uint_word_ariths uint_labs32 unsigned_ucast_eq tb)
    also have "\<dots> = \<bar>sint l\<bar> * \<bar>sint r\<bar>" using m by (intro mod_pos_pos_trivial) auto
    finally show ?thesis .
  qed
  moreover have "uint (ucast (isl_sioimath_smallgcd l r) :: 64 word) = gcd (sint l) (sint r)"
  proof -
    have "take_bit 64 (gcd (sint l) (sint r)) = gcd (sint l) (sint r)"
      using uint_bounded [of "isl_sioimath_smallgcd l r"] by (intro take_bit_int_eq_self) (simp_all add: uint_smallgcd)
    then show ?thesis by (simp add: unsigned_ucast_eq uint_smallgcd)
  qed
  ultimately show "uint ((ucast (labs32 l) * ucast (labs32 r) :: 64 word) div ucast (isl_sioimath_smallgcd l r)) = lcm (sint l) (sint r)"
    by (simp add: uint_div lcm_altdef_int)
  have "lcm (sint l) (sint r) \<le> \<bar>sint l\<bar> * \<bar>sint r\<bar>"
    using assms by (intro zdvd_imp_le) (auto simp flip: abs_mult)
  with m show "lcm (sint l) (sint r) < 2 ^ 63" by simp
qed

lemma lcm_correct:
  assumes "sio_ok x" and "sio_ok y"
  shows "sio_val (isl_sioimath_lcm x y) = isl_int_lcm (sio_val x) (sio_val y)"
    "sio_ok (isl_sioimath_lcm x y)"
proof -
  have "sio_val (isl_sioimath_lcm x y) = isl_int_lcm (sio_val x) (sio_val y) \<and> sio_ok (isl_sioimath_lcm x y)"
  proof (cases "\<exists>l r. x = Small l \<and> y = Small r")
    case True
    then obtain l r where xy: "x = Small l" "y = Small r" by blast
    show ?thesis
    proof (cases "l = 0 \<or> r = 0")
      case True
      then show ?thesis by (auto simp: xy isl_int_lcm_def SMALL_MIN_def)
    next
      case False
      with uint_small_lcm [of l r] show ?thesis
        by (simp add: xy small_const_iff isl_int_lcm_def set_int64_val sint_eq_uint64 Let_def)
    qed
  next
    case False
    moreover have "impz_lcm a b = lcm a b" for a b by (auto simp: impz_lcm_def)
    ultimately show ?thesis
      by (cases x; cases y) (auto simp: isl_int_lcm_def try_demote_val simp del: isl_sioimath_try_demote.simps)
  qed
  then show "sio_val (isl_sioimath_lcm x y) = isl_int_lcm (sio_val x) (sio_val y)"
    "sio_ok (isl_sioimath_lcm x y)" by blast+
qed

lemma cmp_correct:
  assumes "sio_ok x" and "sio_ok y"
  shows "isl_sioimath_cmp x y = isl_int_cmp (sio_val x) (sio_val y)"
    and "isl_sioimath_sgn x = isl_int_sgn (sio_val x)"
    and "isl_sioimath_cmp_si x s = isl_int_cmp (sio_val x) (sint s)"
    and "isl_sioimath_abs_cmp x y = isl_int_cmp \<bar>sio_val x\<bar> \<bar>sio_val y\<bar>"
    and "isl_sioimath_is_divisible_by x y = isl_int_is_divisible_by (sio_val x) (sio_val y)"
proof -
  show "isl_sioimath_cmp x y = isl_int_cmp (sio_val x) (sio_val y)"
    by (cases x; cases y) (auto simp: isl_int_cmp_def sgn_if)
  show sgn: "isl_sioimath_sgn x = isl_int_sgn (sio_val x)" for x
    by (cases x) (auto simp: isl_int_sgn_def sgn_if)
  show "isl_sioimath_cmp_si x s = isl_int_cmp (sio_val x) (sint s)"
    by (cases x) (auto simp: isl_int_cmp_def sgn_if)
  have "sint (labs32 w) = \<bar>sint w\<bar>" if "SMALL_MIN \<le> sint w" for w :: i32
    using sint_eq_uint32 [of "labs32 w"] that sint32_num [of w] by (auto simp: uint_labs32 SMALL_MIN_def)
  then show "isl_sioimath_abs_cmp x y = isl_int_cmp \<bar>sio_val x\<bar> \<bar>sio_val y\<bar>"
    using assms by (cases x; cases y) (auto simp: isl_int_cmp_def sgn_if Let_def)
  show "isl_sioimath_is_divisible_by x y = isl_int_is_divisible_by (sio_val x) (sio_val y)"
    by (cases x; cases y; simp add: sgn isl_int_sgn_def sgn_0_0 isl_int_is_divisible_by_def c_rem_zero_iff)
qed

lemma set_si_correct:
  "sio_val (isl_sioimath_set_si v) = sint v" "sio_ok (isl_sioimath_set_si v)"
  "sio_val (isl_sioimath_set_ui u) = uint u" "sio_ok (isl_sioimath_set_ui u)"
  "sio_val (isl_sioimath_set_int32 w) = sint w" "sio_ok (isl_sioimath_set_int32 w)"
proof -
  show "sio_val (isl_sioimath_set_si v) = sint v" "sio_ok (isl_sioimath_set_si v)"
    by (auto simp: isl_sioimath_set_si_def SMALL_MIN_def SMALL_MAX_def sint_down32)
  have "sint (ucast u :: i32) = uint u" if "uint u \<le> SMALL_MAX"
    using that sint_down32(1) [of u] sint_eq_uint64 [of u] order_trans [OF _ uint_ge_0, of _ u]
    by (simp add: SMALL_MAX_def)
  then show "sio_val (isl_sioimath_set_ui u) = uint u" "sio_ok (isl_sioimath_set_ui u)"
    using order_trans [OF _ uint_ge_0, of SMALL_MIN u]
    by (auto simp: isl_sioimath_set_ui_def SMALL_MIN_def)
  show "sio_val (isl_sioimath_set_int32 w) = sint w" "sio_ok (isl_sioimath_set_int32 w)"
    by (auto simp: isl_sioimath_set_int32_def)
qed

lemma get_si_correct:
  "isl_sioimath_fits_slong x \<longleftrightarrow> - (2 ^ 63) \<le> sio_val x \<and> sio_val x < 2 ^ 63"
  "isl_sioimath_fits_slong x \<Longrightarrow> map_option sint (isl_sioimath_get_si x) = Some (sio_val x)"
  "isl_sioimath_fits_ulong x \<longleftrightarrow> 0 \<le> sio_val x \<and> sio_val x < 2 ^ 64"
  "isl_sioimath_fits_ulong x \<Longrightarrow> map_option uint (isl_sioimath_get_ui x) = Some (sio_val x)"
proof -
  have s: "- (2 ^ 63) \<le> sint w" "sint w < 2 ^ 63" "sint w < 2 ^ 64" for w :: i32
    using sint32_num [of w] by simp_all
  have u: "uint (scast w :: i64) = sint w" if "0 \<le> sint w" for w :: i32
  proof -
    have "uint (word_of_int (sint w) :: i64) = sint w"
      unfolding uint_word_of_int_eq by (rule take_bit_int_eq_self) (use that s in auto)
    then show ?thesis by (simp only: scast_eq)
  qed
  show "isl_sioimath_fits_slong x \<longleftrightarrow> - (2 ^ 63) \<le> sio_val x \<and> sio_val x < 2 ^ 63"
    "isl_sioimath_fits_slong x \<Longrightarrow> map_option sint (isl_sioimath_get_si x) = Some (sio_val x)"
    using s by (cases x; simp add: mp_int_to_int_def sint_word_of_int64 split: if_splits)+
  show "isl_sioimath_fits_ulong x \<longleftrightarrow> 0 \<le> sio_val x \<and> sio_val x < 2 ^ 64"
    "isl_sioimath_fits_ulong x \<Longrightarrow> map_option uint (isl_sioimath_get_ui x) = Some (sio_val x)"
    using s by (cases x; simp add: mp_int_to_uint_def u uint_word_of_int_eq take_bit_int_eq_self split: if_splits)+
qed

lemma promote_correct: "sio_val (isl_sioimath_promote x) = sio_val x"
  by (cases x) simp_all

lemma addmul_correct:
  "sio_val (isl_sioimath_addmul d x y) = sio_val d + sio_val x * sio_val y"
  "sio_val (isl_sioimath_submul d x y) = sio_val d - sio_val x * sio_val y"
  "sio_val (isl_sioimath_addmul_ui d x u) = sio_val d + sio_val x * uint u"
  "sio_val (isl_sioimath_submul_ui d x u) = sio_val d - sio_val x * uint u"
  "sio_ok (isl_sioimath_addmul d x y)" "sio_ok (isl_sioimath_submul d x y)"
  by (simp_all add: isl_sioimath_addmul_def isl_sioimath_submul_def isl_sioimath_addmul_ui_def
    isl_sioimath_submul_ui_def add_correct sub_correct mul_correct mul_ui_correct Let_def)

subsection \<open>The interface of the integers\<close>

text \<open>
  What the sequences, and through them every other component, rely on: a value,
  a representation invariant every operation keeps, and the meaning of each
  operation on values.
\<close>

locale int_impl =
  fixes val :: "'i \<Rightarrow> int"
    and ok :: "'i \<Rightarrow> bool"
    and of_si :: "i64 \<Rightarrow> 'i"
    and neg :: "'i \<Rightarrow> 'i"
    and mul :: "'i \<Rightarrow> 'i \<Rightarrow> 'i"
    and addmul :: "'i \<Rightarrow> 'i \<Rightarrow> 'i \<Rightarrow> 'i"
    and tdiv_q :: "'i \<Rightarrow> 'i \<Rightarrow> 'i"
    and igcd :: "'i \<Rightarrow> 'i \<Rightarrow> 'i"
  assumes of_si_val: "val (of_si s) = sint s" "ok (of_si s)"
    and neg_val: "ok x \<Longrightarrow> val (neg x) = - val x" "ok x \<Longrightarrow> ok (neg x)"
    and mul_val: "val (mul x y) = val x * val y" "ok (mul x y)"
    and addmul_val: "val (addmul d x y) = val d + val x * val y" "ok (addmul d x y)"
    and tdiv_val: "ok x \<Longrightarrow> val (tdiv_q x y) = isl_int_tdiv_q (val x) (val y)" "ok x \<Longrightarrow> ok (tdiv_q x y)"
    and gcd_val: "ok x \<Longrightarrow> ok y \<Longrightarrow> val (igcd x y) = isl_int_gcd (val x) (val y)"
      "ok x \<Longrightarrow> ok y \<Longrightarrow> ok (igcd x y)"
begin

text \<open>Accumulating loops: every client loop of this shape computes on values.\<close>

lemma addmul_loop_val:
  "lo \<le> hi \<Longrightarrow> val (for_range lo hi (\<lambda>i acc. addmul acc (p i) (q i)) z) = val z + (\<Sum>i = lo..<hi. val (p i) * val (q i))"
  by (induction rule: for_range_induct [where P = "\<lambda>n t. val t = val z + (\<Sum>i = lo..<n. val (p i) * val (q i))"])
    (simp_all add: addmul_val)

lemma addmul_loop_ok:
  "ok z \<Longrightarrow> lo \<le> hi \<Longrightarrow> ok (for_range lo hi (\<lambda>i acc. addmul acc (p i) (q i)) z)"
  by (rule for_range_induct [where P = "\<lambda>_. ok"]) (simp_all add: addmul_val)

lemma divexact_gcd_val:
  assumes "ok x" and "ok y" and "val y \<noteq> 0"
  shows "val (tdiv_q x (igcd x y)) * gcd (val x) (val y) = val x"
  using assms isl_int_divexact_eq [of "gcd (val x) (val y)" "val x"]
  by (simp add: tdiv_val gcd_val isl_int_gcd_def isl_int_divexact_def mult.commute)

end

interpretation sio: int_impl sio_val sio_ok isl_sioimath_set_si isl_sioimath_neg isl_sioimath_mul
    isl_sioimath_addmul isl_sioimath_tdiv_q isl_sioimath_gcd
  by unfold_locales
    (simp_all add: set_si_correct neg_correct mul_correct addmul_correct tdiv_q_correct gcd_correct)

subsection \<open>Properties\<close>

text \<open>
  C10: the ring operations on the small/big representation compute integer
  addition, subtraction, multiplication and fused multiply-add exactly, in all
  combinations of representations and with every overflow of the 32-bit and 64-bit
  intermediate values accounted for, and their results satisfy the representation invariant.
  A shift to the left by a 64-bit number of places \<open>u\<close> shifts by the lower 32 bits of \<open>u\<close>, which
  is exact up to \<open>2 ^ 32 - 1\<close> and wrong from there on, except for zero; from \<open>2 ^ 63\<close> on it fails an assertion.
\<close>

theorem sioimath_ring_exact:
  "sio_val (isl_sioimath_add x y) = sio_val x + sio_val y \<and>
   sio_val (isl_sioimath_sub x y) = sio_val x - sio_val y \<and>
   sio_val (isl_sioimath_mul x y) = sio_val x * sio_val y \<and>
   sio_val (isl_sioimath_addmul d x y) = sio_val d + sio_val x * sio_val y \<and>
   sio_val (isl_sioimath_add_ui x u) = sio_val x + uint u \<and>
   sio_val (isl_sioimath_mul_ui x u) = sio_val x * uint u \<and>
   map_option sio_val (isl_sioimath_mul_2exp x u) =
     (if unat u < 2 ^ 63 then Some (sio_val x * 2 ^ (unat u mod 2 ^ 32)) else None) \<and>
   sio_ok (isl_sioimath_add x y) \<and> sio_ok (isl_sioimath_sub x y) \<and> sio_ok (isl_sioimath_mul x y) \<and>
   sio_ok (isl_sioimath_addmul d x y) \<and> sio_ok (isl_sioimath_add_ui x u) \<and>
   sio_ok (isl_sioimath_mul_ui x u) \<and> pred_option sio_ok (isl_sioimath_mul_2exp x u)"
  unfolding isl_int_mul_2exp_eq [symmetric]
  by (simp add: add_correct sub_correct mul_correct addmul_correct add_ui_correct mul_ui_correct
      mul_2exp_correct)

text \<open>
  C20: the three roundings of the division, the remainder, and the number-theoretic
  operations agree with their mathematical definitions on every pair of
  well-formed numbers with a non-zero divisor: truncation, floor and ceiling
  quotients, the floor remainder, the greatest common divisor, the least common
  multiple and the three-way comparison.
\<close>

theorem sioimath_division_exact:
  assumes "sio_ok x" and "sio_ok y" and "sio_val y \<noteq> 0"
  shows "sio_val (isl_sioimath_tdiv_q x y) = sgn (sio_val x) * sgn (sio_val y) * (\<bar>sio_val x\<bar> div \<bar>sio_val y\<bar>) \<and>
    sio_val (isl_sioimath_fdiv_q x y) = sio_val x div sio_val y \<and>
    sio_val (isl_sioimath_cdiv_q x y) = - ((- sio_val x) div sio_val y) \<and>
    sio_val (isl_sioimath_fdiv_r x y) = sio_val x mod sio_val y \<and>
    sio_val (isl_sioimath_gcd x y) = gcd (sio_val x) (sio_val y) \<and>
    sio_val (isl_sioimath_lcm x y) = lcm (sio_val x) (sio_val y) \<and>
    isl_sioimath_cmp x y = sgn (sio_val x - sio_val y)"
  using assms tdiv_q_correct(1) [of x y] fdiv_q_correct(1) [of x y] cdiv_q_correct(1) [of x y]
    fdiv_r_correct(1) [of y x] gcd_correct(1) [of x y] lcm_correct(1) [of x y] cmp_correct(1) [of x y]
  by (simp add: isl_int_tdiv_q_def isl_int_fdiv_q_def isl_int_cdiv_q_def isl_int_fdiv_r_def
      isl_int_gcd_def isl_int_lcm_def isl_int_cmp_def)

theorem sioimath_division_exact_witness:
  "sio_val (isl_sioimath_fdiv_q (Small (- 7)) (Big 2)) = - 4 \<and>
   sio_val (isl_sioimath_cdiv_q (Small (- 7)) (Big 2)) = - 3"
proof -
  have "sio_ok (Small (- 7))" "sio_ok (Big 2)" "sio_val (Big 2) \<noteq> 0" by (simp_all add: SMALL_MIN_def)
  from sioimath_division_exact [OF this] show ?thesis by (simp del: isl_sioimath_fdiv_q.simps isl_sioimath_cdiv_q.simps)
qed

text \<open>
  C39: subtracting an unsigned long from a small number is exact if and only if
  the operand is outside the window from the value plus \<open>2 ^ 63\<close> to
  \<open>2 ^ 63 + 2 ^ 31 - 1\<close>; inside it the guard of the fast path admits operands whose
  64-bit difference wraps.
\<close>

theorem sioimath_sub_ui_window:
  "sio_val (isl_sioimath_sub_ui (Small l) rhs) = sint l - uint rhs \<longleftrightarrow>
     (uint rhs \<le> sint l + 2 ^ 63 \<or> 2 ^ 63 + 2 ^ 31 - 1 \<le> uint rhs)"
  using sub_ui_correct_iff [of l rhs] by linarith

end
