(* ===== verification/Hashing.thy ===== *)
theory Hashing imports Sioimath begin

unbundle bit_operations_syntax

text \<open>
  Hash codes (include/isl/hash.h, isl_hash.c, isl_imath.c): the FNV mixing steps,
  the hash of memory and of strings, and the hash of an integer in either
  representation.  A \<open>uint32_t\<close> is a 32-bit word; \<open>char\<close> is signed, so a byte is
  sign extended before it is mixed in, an \<open>unsigned char\<close> is not.
\<close>

type_synonym u32 = "32 word"

definition isl_hash_init :: u32 where
  "isl_hash_init = 2166136261"

definition isl_hash_byte :: "u32 \<Rightarrow> u32 \<Rightarrow> u32" where
  "isl_hash_byte h b = (h * 16777619) XOR b"

definition isl_hash_hash :: "u32 \<Rightarrow> u32 \<Rightarrow> u32" where
  "isl_hash_hash h h2 =
     (let h = isl_hash_byte h (h2 AND 0xFF);
          h = isl_hash_byte h (drop_bit 8 h2 AND 0xFF);
          h = isl_hash_byte h (drop_bit 16 h2 AND 0xFF)
      in isl_hash_byte h (drop_bit 24 h2 AND 0xFF))"

definition isl_hash_bits :: "u32 \<Rightarrow> nat \<Rightarrow> u32" where
  "isl_hash_bits h bits =
     (if bits = 32 then h
      else if 16 \<le> bits then drop_bit bits h XOR (h AND (push_bit bits 1 - 1))
      else (drop_bit bits h XOR h) AND (push_bit bits 1 - 1))"

text \<open>The characters before the terminating zero.\<close>

fun isl_hash_string :: "u32 \<Rightarrow> 8 word list \<Rightarrow> u32" where
  "isl_hash_string hash [] = hash"
| "isl_hash_string hash (c # s) =
     (if c = 0 then hash else isl_hash_string (isl_hash_byte hash (scast c)) s)"

definition isl_hash_mem :: "u32 \<Rightarrow> 8 word list \<Rightarrow> nat \<Rightarrow> u32" where
  "isl_hash_mem hash s len = for_range 0 len (\<lambda>i hash. isl_hash_byte hash (scast (s ! i))) hash"

subsection \<open>Integers\<close>

text \<open>
  A big number holds its magnitude in 32-bit digits, the least significant first,
  at least one and none of them a leading zero; \<open>digit_bytes\<close> are the bytes of a
  digit in memory on a little endian machine.
\<close>

function mp_digits :: "nat \<Rightarrow> u32 list" where
  "mp_digits n = (if n < 2 ^ 32 then [of_nat n] else of_nat n # mp_digits (n div 2 ^ 32))"
  by pat_completeness auto
termination by (relation "measure id") auto

declare mp_digits.simps [simp del]

definition digit_bytes :: "u32 \<Rightarrow> 8 word list" where
  "digit_bytes d = [ucast d, ucast (drop_bit 8 d), ucast (drop_bit 16 d), ucast (drop_bit 24 d)]"

definition hash_digits :: "u32 list \<Rightarrow> u32 \<Rightarrow> u32" where
  "hash_digits ds hash = fold (\<lambda>b hash. isl_hash_byte hash (ucast b)) (concat (map digit_bytes ds)) hash"

definition isl_imath_hash :: "int \<Rightarrow> u32 \<Rightarrow> u32" where
  "isl_imath_hash v hash =
     (let hash = (if v < 0 then isl_hash_byte hash 0xFF else hash)
      in hash_digits (mp_digits (nat \<bar>v\<bar>)) hash)"

text \<open>\<open>isl_siomath_uint32_to_digits\<close>: one digit holds a \<open>uint32_t\<close>.\<close>

definition isl_siomath_uint32_to_digits :: "u32 \<Rightarrow> u32 list" where
  "isl_siomath_uint32_to_digits num = [num]"

fun isl_sioimath_hash :: "isl_sioimath \<Rightarrow> u32 \<Rightarrow> u32" where
  "isl_sioimath_hash (Small small) hash =
     (let hash = (if sint small < 0 then isl_hash_byte hash 0xFF else hash);
          num = (if sint small < 0 then - small else small)
      in hash_digits (isl_siomath_uint32_to_digits num) hash)"
| "isl_sioimath_hash (Big big) hash = isl_imath_hash big hash"

text \<open>The macro on the value: the number in its canonical representation.\<close>

definition isl_int_hash :: "int \<Rightarrow> u32 \<Rightarrow> u32" where
  "isl_int_hash v hash = isl_sioimath_hash (isl_sioimath_try_demote (Big v)) hash"

lemma hash_small_big:
  assumes "sio_ok (Small w)"
  shows "isl_sioimath_hash (Small w) h = isl_sioimath_hash (Big (sint w)) h"
proof -
  have b: "- (2 ^ 31) < sint w" "sint w < 2 ^ 31"
    using assms sint_lt [of w] by (simp_all add: SMALL_MIN_def)
  have "\<bar>sint w\<bar> < 2 ^ 32" using b by simp
  then have "nat \<bar>sint w\<bar> < 2 ^ 32" by (simp add: nat_less_iff)
  then have "mp_digits (nat \<bar>sint w\<bar>) = [of_nat (nat \<bar>sint w\<bar>)]" by (simp add: mp_digits.simps)
  also have "of_nat (nat \<bar>sint w\<bar>) = (if sint w < 0 then - w else w)"
  proof -
    have "of_nat (nat \<bar>sint w\<bar>) = (word_of_int \<bar>sint w\<bar> :: 32 word)" by simp
    also have "\<dots> = (if sint w < 0 then - w else w)"
      by (simp add: abs_if wi_hom_neg [symmetric])
    finally show ?thesis .
  qed
  finally show ?thesis
    by (simp add: isl_imath_hash_def isl_siomath_uint32_to_digits_def Let_def)
qed

lemma hash_depends_on_value:
  assumes "sio_ok x" and "sio_ok y" and "sio_val x = sio_val y"
  shows "isl_sioimath_hash x h = isl_sioimath_hash y h"
proof -
  have "isl_sioimath_hash z h = isl_sioimath_hash (Big (sio_val z)) h" if "sio_ok z" for z
    using that by (cases z) (simp_all add: hash_small_big del: isl_sioimath_hash.simps)
  with assms show ?thesis by metis
qed

text \<open>The index of a hash table fits its number of bits.\<close>

lemma isl_hash_bits_less:
  assumes "0 < bits" and "bits \<le> 32"
  shows "unat (isl_hash_bits h bits) < 2 ^ bits"
proof -
  have m: "push_bit bits 1 - 1 = (mask bits :: u32)" by (simp add: mask_eq_decr_exp push_bit_eq_mult)
  have small: "unat (w AND mask bits) < 2 ^ bits" for w :: u32
    by (simp add: take_bit_eq_mask [symmetric] unsigned_take_bit_eq)
  consider "bits = 32" | "16 \<le> bits" "bits < 32" | "bits < 16" using assms by linarith
  then show ?thesis
  proof cases
    case 1
    then show ?thesis using unsigned_less [of h, where ?'a = nat] by (simp add: isl_hash_bits_def)
  next
    case 2
    have "drop_bit bits h = drop_bit bits h AND mask bits"
    proof (rule bit_word_eqI)
      fix n assume "n < LENGTH(32)"
      show "bit (drop_bit bits h) n = bit (drop_bit bits h AND mask bits) n"
        using 2 bit_imp_le_length [of h "bits + n"] by (auto simp: bit_simps)
    qed
    then have "drop_bit bits h XOR (h AND mask bits) = (drop_bit bits h XOR h) AND mask bits"
      by (metis bit.conj_xor_distrib2)
    with 2 m small show ?thesis by (simp add: isl_hash_bits_def)
  next
    case 3
    with m small show ?thesis by (simp add: isl_hash_bits_def)
  qed
qed

subsection \<open>Properties\<close>

text \<open>
  C32: the hash code of an integer depends on its value only: a number held in the
  small representation hashes like the same number held as a big one, whatever
  hash code is extended, so that equal integers never miss each other in a hash table.
\<close>

theorem sioimath_hash_representation_independent:
  assumes "sio_ok x" and "sio_ok y" and "sio_val x = sio_val y"
  shows "isl_sioimath_hash x h = isl_sioimath_hash y h"
  using assms by (rule hash_depends_on_value)

theorem sioimath_hash_representation_independent_witness:
  "isl_sioimath_hash (Small (- 5)) 7 = isl_sioimath_hash (Big (- 5)) 7"
  by (rule sioimath_hash_representation_independent) (simp_all add: SMALL_MIN_def)

end
