(* ===== verification/Val.thy ===== *)
theory Val imports Hashing Complex_Main begin

text \<open>
  Values (isl_val.c): rational numbers extended with the two infinities and NaN, as
  a numerator and a denominator.  \<open>+infinity\<close> is \<open>1/0\<close>, \<open>-infinity\<close> is \<open>-1/0\<close>, NaN is \<open>0/0\<close>.
  The operations are translated case by case; \<open>isl_val_cow\<close> returns an object of
  the same value and is left out here (theory \<open>Objects\<close> models the reference counts).
  The abstract values are \<open>erat\<close>, and \<open>val_abs\<close> maps an object to the one it represents.
\<close>

named_theorems val_defs \<open>definitions of the operations on values\<close>

record isl_val =
  val_n :: isl_int
  val_d :: isl_int

text \<open>A function on a pointer that is given away or kept: \<open>NULL\<close> in, \<open>NULL\<close> out.\<close>

definition take1 :: "'a res \<Rightarrow> ('a \<Rightarrow> 'b res) \<Rightarrow> 'b res" where
  "take1 v k = res_bind v k"

definition take2 :: "'a res \<Rightarrow> 'b res \<Rightarrow> ('a \<Rightarrow> 'b \<Rightarrow> 'c res) \<Rightarrow> 'c res" where
  "take2 v1 v2 k = res_bind v1 (\<lambda>v1. res_bind v2 (\<lambda>v2. k v1 v2))"

definition keep1 :: "'a res \<Rightarrow> ('a \<Rightarrow> 'b) \<Rightarrow> 'b res" where
  "keep1 v f = res_bind v (\<lambda>v. Inr (f v))"

lemma take_simps [simp]:
  "take1 (Inr a) k = k a" "take1 (Inl e) k = Inl e"
  "take2 (Inr a) (Inr b) k2 = k2 a b" "take2 (Inl e) r k2 = Inl e" "take2 (Inr a) (Inl e) k2 = Inl e"
  "keep1 (Inr a) f = Inr (f a)" "keep1 (Inl e) f = Inl e"
  by (simp_all add: take1_def take2_def keep1_def)

subsection \<open>Construction\<close>

definition mk_val :: "isl_int \<Rightarrow> isl_int \<Rightarrow> isl_val" where
  "mk_val n d = \<lparr>val_n = n, val_d = d\<rparr>"

lemma mk_val_sel [simp]: "val_n (mk_val n d) = n" "val_d (mk_val n d) = d"
  by (simp_all add: mk_val_def)

lemma mk_val_update [simp]:
  "v\<lparr>val_n := n\<rparr> = mk_val n (val_d v)" "v\<lparr>val_d := d\<rparr> = mk_val (val_n v) d"
  by (simp_all add: mk_val_def)

lemma mk_val_eq_iff [simp]: "mk_val n d = mk_val n' d' \<longleftrightarrow> n = n' \<and> d = d'"
  by (simp add: mk_val_def)

lemma mk_val_surj [simp]: "mk_val (val_n v) (val_d v) = v"
  by (simp add: mk_val_def)

text \<open>\<open>isl_int_init\<close> makes an integer zero.\<close>

definition isl_val_alloc :: "isl_val res" where
  "isl_val_alloc = Inr \<lparr>val_n = 0, val_d = 0\<rparr>"

definition isl_val_nan :: "isl_val res" where
  "isl_val_nan = take1 isl_val_alloc (\<lambda>v. Inr (v\<lparr>val_n := 0, val_d := 0\<rparr>))"

definition isl_val_infty :: "isl_val res" where
  "isl_val_infty = take1 isl_val_alloc (\<lambda>v. Inr (v\<lparr>val_n := 1, val_d := 0\<rparr>))"

definition isl_val_neginfty :: "isl_val res" where
  "isl_val_neginfty = take1 isl_val_alloc (\<lambda>v. Inr (v\<lparr>val_n := - 1, val_d := 0\<rparr>))"

definition isl_val_int_from_si :: "i64 \<Rightarrow> isl_val res" where
  "isl_val_int_from_si i = take1 isl_val_alloc (\<lambda>v. Inr (v\<lparr>val_n := sint i, val_d := 1\<rparr>))"

definition isl_val_int_from_ui :: "ulong \<Rightarrow> isl_val res" where
  "isl_val_int_from_ui u = take1 isl_val_alloc (\<lambda>v. Inr (v\<lparr>val_n := uint u, val_d := 1\<rparr>))"

definition isl_val_int_from_isl_int :: "isl_int \<Rightarrow> isl_val res" where
  "isl_val_int_from_isl_int n = take1 isl_val_alloc (\<lambda>v. Inr (v\<lparr>val_n := n, val_d := 1\<rparr>))"

definition isl_val_rat_from_isl_int :: "isl_int \<Rightarrow> isl_int \<Rightarrow> isl_val res" where
  "isl_val_rat_from_isl_int n d = take1 isl_val_alloc (\<lambda>v. Inr (v\<lparr>val_n := n, val_d := d\<rparr>))"

definition isl_val_zero :: "isl_val res" where
  "isl_val_zero = isl_val_int_from_si 0"

definition isl_val_one :: "isl_val res" where
  "isl_val_one = isl_val_int_from_si 1"

definition isl_val_negone :: "isl_val res" where
  "isl_val_negone = isl_val_int_from_si (- 1)"

definition isl_val_dup :: "isl_val res \<Rightarrow> isl_val res" where
  "isl_val_dup val = take1 val (\<lambda>val. take1 isl_val_alloc
     (\<lambda>dup. Inr (dup\<lparr>val_n := val_n val, val_d := val_d val\<rparr>)))"

subsection \<open>Predicates\<close>

text \<open>
  Each predicate on a non-null pointer, as the code uses it in its conditions, and
  the interface function, which returns \<open>isl_bool_error\<close> on \<open>NULL\<close>.
\<close>

definition val_is_int :: "isl_val \<Rightarrow> bool" where "val_is_int v = (val_d v = 1)"
definition val_is_rat :: "isl_val \<Rightarrow> bool" where "val_is_rat v = (val_d v \<noteq> 0)"
definition val_is_nan :: "isl_val \<Rightarrow> bool" where "val_is_nan v = (val_n v = 0 \<and> val_d v = 0)"
definition val_is_infty :: "isl_val \<Rightarrow> bool" where "val_is_infty v = (0 < val_n v \<and> val_d v = 0)"
definition val_is_neginfty :: "isl_val \<Rightarrow> bool" where "val_is_neginfty v = (val_n v < 0 \<and> val_d v = 0)"
definition val_is_zero :: "isl_val \<Rightarrow> bool" where "val_is_zero v = (val_n v = 0 \<and> val_d v \<noteq> 0)"
definition val_is_one :: "isl_val \<Rightarrow> bool" where
  "val_is_one v = (if val_is_nan v then False else val_n v = val_d v)"
definition val_is_negone :: "isl_val \<Rightarrow> bool" where
  "val_is_negone v = (val_n v < 0 \<and> \<bar>val_n v\<bar> = \<bar>val_d v\<bar>)"
definition val_is_pos :: "isl_val \<Rightarrow> bool" where "val_is_pos v = (0 < val_n v)"
definition val_is_neg :: "isl_val \<Rightarrow> bool" where "val_is_neg v = (val_n v < 0)"
definition val_is_nonneg :: "isl_val \<Rightarrow> bool" where
  "val_is_nonneg v = (if val_is_nan v then False else 0 \<le> val_n v)"
definition val_is_nonpos :: "isl_val \<Rightarrow> bool" where
  "val_is_nonpos v = (if val_is_nan v then False else val_n v \<le> 0)"

definition isl_val_is_int :: "isl_val res \<Rightarrow> bool res" where "isl_val_is_int v = keep1 v val_is_int"
definition isl_val_is_rat :: "isl_val res \<Rightarrow> bool res" where "isl_val_is_rat v = keep1 v val_is_rat"
definition isl_val_is_nan :: "isl_val res \<Rightarrow> bool res" where "isl_val_is_nan v = keep1 v val_is_nan"
definition isl_val_is_infty :: "isl_val res \<Rightarrow> bool res" where "isl_val_is_infty v = keep1 v val_is_infty"
definition isl_val_is_neginfty :: "isl_val res \<Rightarrow> bool res" where
  "isl_val_is_neginfty v = keep1 v val_is_neginfty"
definition isl_val_is_zero :: "isl_val res \<Rightarrow> bool res" where "isl_val_is_zero v = keep1 v val_is_zero"
definition isl_val_is_one :: "isl_val res \<Rightarrow> bool res" where "isl_val_is_one v = keep1 v val_is_one"
definition isl_val_is_negone :: "isl_val res \<Rightarrow> bool res" where "isl_val_is_negone v = keep1 v val_is_negone"
definition isl_val_is_pos :: "isl_val res \<Rightarrow> bool res" where "isl_val_is_pos v = keep1 v val_is_pos"
definition isl_val_is_neg :: "isl_val res \<Rightarrow> bool res" where "isl_val_is_neg v = keep1 v val_is_neg"
definition isl_val_is_nonneg :: "isl_val res \<Rightarrow> bool res" where "isl_val_is_nonneg v = keep1 v val_is_nonneg"
definition isl_val_is_nonpos :: "isl_val res \<Rightarrow> bool res" where "isl_val_is_nonpos v = keep1 v val_is_nonpos"

text \<open>The sign; the function returns 0 on \<open>NULL\<close>.\<close>

definition val_sgn :: "isl_val \<Rightarrow> int" where
  "val_sgn v = (if val_is_zero v then 0 else if val_is_pos v then 1 else - 1)"

definition isl_val_sgn :: "isl_val res \<Rightarrow> int" where
  "isl_val_sgn v = (case v of Inl _ \<Rightarrow> 0 | Inr v \<Rightarrow> val_sgn v)"

lemmas val_pred_defs = val_is_int_def val_is_rat_def val_is_nan_def val_is_infty_def val_is_neginfty_def
  val_is_zero_def val_is_one_def val_is_negone_def val_is_pos_def val_is_neg_def val_is_nonneg_def
  val_is_nonpos_def

subsection \<open>Comparison\<close>

definition val_eq :: "isl_val \<Rightarrow> isl_val \<Rightarrow> bool" where
  "val_eq v1 v2 = (if val_is_nan v1 \<or> val_is_nan v2 then False else val_n v1 = val_n v2 \<and> val_d v1 = val_d v2)"

definition val_ne :: "isl_val \<Rightarrow> isl_val \<Rightarrow> bool" where
  "val_ne v1 v2 = (if val_is_nan v1 \<or> val_is_nan v2 then False else val_n v1 \<noteq> val_n v2 \<or> val_d v1 \<noteq> val_d v2)"

definition val_abs_eq :: "isl_val \<Rightarrow> isl_val \<Rightarrow> bool" where
  "val_abs_eq v1 v2 =
     (if val_is_nan v1 \<or> val_is_nan v2 then False else \<bar>val_n v1\<bar> = \<bar>val_n v2\<bar> \<and> val_d v1 = val_d v2)"

definition val_lt :: "isl_val \<Rightarrow> isl_val \<Rightarrow> bool" where
  "val_lt v1 v2 =
     (if val_is_int v1 \<and> val_is_int v2 then val_n v1 < val_n v2
      else if val_is_nan v1 \<or> val_is_nan v2 then False
      else if val_eq v1 v2 then False
      else if val_is_infty v2 then True
      else if val_is_infty v1 then False
      else if val_is_neginfty v1 then True
      else if val_is_neginfty v2 then False
      else let t = val_n v1 * val_d v2; t = t - val_n v2 * val_d v1 in t < 0)"

definition val_le :: "isl_val \<Rightarrow> isl_val \<Rightarrow> bool" where
  "val_le v1 v2 =
     (if val_is_int v1 \<and> val_is_int v2 then val_n v1 \<le> val_n v2
      else if val_is_nan v1 \<or> val_is_nan v2 then False
      else if val_eq v1 v2 then True
      else if val_is_infty v2 then True
      else if val_is_infty v1 then False
      else if val_is_neginfty v1 then True
      else if val_is_neginfty v2 then False
      else let t = val_n v1 * val_d v2; t = t - val_n v2 * val_d v1 in t \<le> 0)"

definition isl_val_eq :: "isl_val res \<Rightarrow> isl_val res \<Rightarrow> bool res" where
  "isl_val_eq v1 v2 = take2 v1 v2 (\<lambda>v1 v2. Inr (val_eq v1 v2))"

definition isl_val_ne :: "isl_val res \<Rightarrow> isl_val res \<Rightarrow> bool res" where
  "isl_val_ne v1 v2 = take2 v1 v2 (\<lambda>v1 v2. Inr (val_ne v1 v2))"

definition isl_val_abs_eq :: "isl_val res \<Rightarrow> isl_val res \<Rightarrow> bool res" where
  "isl_val_abs_eq v1 v2 = take2 v1 v2 (\<lambda>v1 v2. Inr (val_abs_eq v1 v2))"

definition isl_val_plain_is_equal :: "isl_val res \<Rightarrow> isl_val res \<Rightarrow> bool res" where
  "isl_val_plain_is_equal val1 val2 = isl_val_eq val1 val2"

definition isl_val_lt :: "isl_val res \<Rightarrow> isl_val res \<Rightarrow> bool res" where
  "isl_val_lt v1 v2 = take2 v1 v2 (\<lambda>v1 v2. Inr (val_lt v1 v2))"

definition isl_val_gt :: "isl_val res \<Rightarrow> isl_val res \<Rightarrow> bool res" where
  "isl_val_gt v1 v2 = isl_val_lt v2 v1"

definition isl_val_le :: "isl_val res \<Rightarrow> isl_val res \<Rightarrow> bool res" where
  "isl_val_le v1 v2 = take2 v1 v2 (\<lambda>v1 v2. Inr (val_le v1 v2))"

definition isl_val_ge :: "isl_val res \<Rightarrow> isl_val res \<Rightarrow> bool res" where
  "isl_val_ge v1 v2 = isl_val_le v2 v1"

definition isl_val_gt_si :: "isl_val res \<Rightarrow> i64 \<Rightarrow> bool res" where
  "isl_val_gt_si v i = take1 v (\<lambda>v.
     if val_is_int v then Inr (0 < isl_int_cmp (val_n v) (sint i))
     else if val_is_nan v then Inr False
     else if val_is_infty v then Inr True
     else if val_is_neginfty v then Inr False
     else isl_val_gt (Inr v) (isl_val_int_from_si i))"

definition isl_val_eq_si :: "isl_val res \<Rightarrow> i64 \<Rightarrow> bool res" where
  "isl_val_eq_si v i = take1 v (\<lambda>v.
     if \<not> val_is_int v then Inr False else Inr (isl_int_cmp (val_n v) (sint i) = 0))"

text \<open>Returns 0 on \<open>NULL\<close>.\<close>

definition isl_val_cmp_si :: "isl_val res \<Rightarrow> i64 \<Rightarrow> int" where
  "isl_val_cmp_si v i = (case v of Inl _ \<Rightarrow> 0 | Inr v \<Rightarrow>
     if val_is_int v then isl_int_cmp (val_n v) (sint i)
     else if val_is_nan v then 0
     else if val_is_infty v then 1
     else if val_is_neginfty v then - 1
     else let t = val_d v * sint i; t = val_n v - t in isl_int_sgn t)"

subsection \<open>Changing a value\<close>

definition isl_val_set_nan :: "isl_val res \<Rightarrow> isl_val res" where
  "isl_val_set_nan v = take1 v (\<lambda>v.
     if val_is_nan v then Inr v else Inr (v\<lparr>val_n := 0, val_d := 0\<rparr>))"

definition isl_val_set_si :: "isl_val res \<Rightarrow> i64 \<Rightarrow> isl_val res" where
  "isl_val_set_si v i = take1 v (\<lambda>v.
     if val_is_int v \<and> isl_int_cmp (val_n v) (sint i) = 0 then Inr v
     else Inr (v\<lparr>val_n := sint i, val_d := 1\<rparr>))"

definition isl_val_set_zero :: "isl_val res \<Rightarrow> isl_val res" where
  "isl_val_set_zero v = isl_val_set_si v 0"

definition isl_val_normalize :: "isl_val res \<Rightarrow> isl_val res" where
  "isl_val_normalize v = take1 v (\<lambda>v.
     if val_is_int v then Inr v
     else if \<not> val_is_rat v then Inr v
     else let v = (if val_d v < 0 then v\<lparr>val_d := - val_d v, val_n := - val_n v\<rparr> else v);
              normalize_gcd = isl_int_gcd (val_n v) (val_d v)
          in if normalize_gcd = 1 then Inr v
             else Inr (v\<lparr>val_n := isl_int_divexact (val_n v) normalize_gcd,
                         val_d := isl_int_divexact (val_d v) normalize_gcd\<rparr>))"

definition isl_val_neg :: "isl_val res \<Rightarrow> isl_val res" where
  "isl_val_neg v = take1 v (\<lambda>v.
     if val_is_nan v then Inr v
     else if val_is_zero v then Inr v
     else Inr (v\<lparr>val_n := - val_n v\<rparr>))"

definition isl_val_inv :: "isl_val res \<Rightarrow> isl_val res" where
  "isl_val_inv v = take1 v (\<lambda>v.
     if val_is_nan v then Inr v
     else if val_is_zero v then isl_val_nan
     else if val_is_infty v \<or> val_is_neginfty v then isl_val_zero
     else isl_val_normalize (Inr (v\<lparr>val_n := val_d v, val_d := val_n v\<rparr>)))"

definition isl_val_abs :: "isl_val res \<Rightarrow> isl_val res" where
  "isl_val_abs v = take1 v (\<lambda>v.
     if val_is_nan v then Inr v
     else if val_is_nonneg v then Inr v
     else isl_val_neg (Inr v))"

definition isl_val_floor :: "isl_val res \<Rightarrow> isl_val res" where
  "isl_val_floor v = take1 v (\<lambda>v.
     if val_is_int v then Inr v
     else if \<not> val_is_rat v then Inr v
     else Inr (v\<lparr>val_n := isl_int_fdiv_q (val_n v) (val_d v), val_d := 1\<rparr>))"

definition isl_val_ceil :: "isl_val res \<Rightarrow> isl_val res" where
  "isl_val_ceil v = take1 v (\<lambda>v.
     if val_is_int v then Inr v
     else if \<not> val_is_rat v then Inr v
     else Inr (v\<lparr>val_n := isl_int_cdiv_q (val_n v) (val_d v), val_d := 1\<rparr>))"

definition isl_val_trunc :: "isl_val res \<Rightarrow> isl_val res" where
  "isl_val_trunc v = take1 v (\<lambda>v.
     if val_is_int v then Inr v
     else if \<not> val_is_rat v then Inr v
     else Inr (v\<lparr>val_n := isl_int_tdiv_q (val_n v) (val_d v), val_d := 1\<rparr>))"

text \<open>
  \<open>unsigned long\<close> has 64 bits: \<open>isl_int_fits_ulong\<close> is the test against \<open>2 ^ 64\<close>.  The shift is the
  one of theory Isl_Int, with its assertion (\<open>None\<close>) and its 32 bits of the exponent.
\<close>

definition isl_val_pow2 :: "isl_val res \<Rightarrow> isl_val res option" where
  "isl_val_pow2 v = (case v of Inl e \<Rightarrow> Some (Inl e) | Inr v \<Rightarrow>
     if \<not> val_is_int v then Some (isl_die isl_error_invalid)
     else let neg = val_is_neg v;
              v = (if neg then v\<lparr>val_n := - val_n v\<rparr> else v)
          in if \<not> (0 \<le> val_n v \<and> val_n v < 2 ^ 64) then Some (isl_die isl_error_invalid)
             else let exp = word_of_int (val_n v)
                  in if neg then map_option (\<lambda>d. Inr (v\<lparr>val_d := d, val_n := 1\<rparr>)) (isl_int_mul_2exp (val_d v) exp)
                     else map_option (\<lambda>n. Inr (v\<lparr>val_n := n\<rparr>)) (isl_int_mul_2exp (val_d v) exp))"

definition isl_val_2exp :: "isl_val res \<Rightarrow> isl_val res option" where
  "isl_val_2exp v = isl_val_pow2 v"

subsection \<open>Binary operations\<close>

definition isl_val_min :: "isl_val res \<Rightarrow> isl_val res \<Rightarrow> isl_val res" where
  "isl_val_min v1 v2 = take2 v1 v2 (\<lambda>v1 v2.
     if val_is_nan v1 then Inr v1
     else if val_is_nan v2 then Inr v2
     else if val_le v1 v2 then Inr v1 else Inr v2)"

definition isl_val_max :: "isl_val res \<Rightarrow> isl_val res \<Rightarrow> isl_val res" where
  "isl_val_max v1 v2 = take2 v1 v2 (\<lambda>v1 v2.
     if val_is_nan v1 then Inr v1
     else if val_is_nan v2 then Inr v2
     else if val_le v2 v1 then Inr v1 else Inr v2)"

definition isl_val_add :: "isl_val res \<Rightarrow> isl_val res \<Rightarrow> isl_val res" where
  "isl_val_add v1 v2 = take2 v1 v2 (\<lambda>v1 v2.
     if val_is_nan v1 then Inr v1
     else if val_is_nan v2 then Inr v2
     else if (val_is_infty v1 \<and> val_is_neginfty v2) \<or> (val_is_neginfty v1 \<and> val_is_infty v2)
       then isl_val_set_nan (Inr v1)
     else if val_is_infty v1 \<or> val_is_neginfty v1 then Inr v1
     else if val_is_infty v2 \<or> val_is_neginfty v2 then Inr v2
     else if val_is_zero v1 then Inr v2
     else if val_is_zero v2 then Inr v1
     else if val_is_int v1 \<and> val_is_int v2 then Inr (v1\<lparr>val_n := val_n v1 + val_n v2\<rparr>)
     else let v1 = (if val_d v1 = val_d v2 then v1\<lparr>val_n := val_n v1 + val_n v2\<rparr>
                    else let v1 = v1\<lparr>val_n := val_n v1 * val_d v2\<rparr>;
                             v1 = v1\<lparr>val_n := val_n v1 + val_n v2 * val_d v1\<rparr>
                         in v1\<lparr>val_d := val_d v1 * val_d v2\<rparr>)
          in isl_val_normalize (Inr v1))"

definition isl_val_add_ui :: "isl_val res \<Rightarrow> ulong \<Rightarrow> isl_val res" where
  "isl_val_add_ui v1 v2 = take1 v1 (\<lambda>v1.
     if \<not> val_is_rat v1 then Inr v1
     else if v2 = 0 then Inr v1
     else Inr (v1\<lparr>val_n := val_n v1 + val_d v1 * uint v2\<rparr>))"

definition isl_val_sub :: "isl_val res \<Rightarrow> isl_val res \<Rightarrow> isl_val res" where
  "isl_val_sub v1 v2 = take2 v1 v2 (\<lambda>v1 v2.
     if val_is_nan v1 then Inr v1
     else if val_is_nan v2 then Inr v2
     else if (val_is_infty v1 \<and> val_is_infty v2) \<or> (val_is_neginfty v1 \<and> val_is_neginfty v2)
       then isl_val_set_nan (Inr v1)
     else if val_is_infty v1 \<or> val_is_neginfty v1 then Inr v1
     else if val_is_infty v2 \<or> val_is_neginfty v2 then isl_val_neg (Inr v2)
     else if val_is_zero v2 then Inr v1
     else if val_is_zero v1 then isl_val_neg (Inr v2)
     else if val_is_int v1 \<and> val_is_int v2 then Inr (v1\<lparr>val_n := val_n v1 - val_n v2\<rparr>)
     else let v1 = (if val_d v1 = val_d v2 then v1\<lparr>val_n := val_n v1 - val_n v2\<rparr>
                    else let v1 = v1\<lparr>val_n := val_n v1 * val_d v2\<rparr>;
                             v1 = v1\<lparr>val_n := val_n v1 - val_n v2 * val_d v1\<rparr>
                         in v1\<lparr>val_d := val_d v1 * val_d v2\<rparr>)
          in isl_val_normalize (Inr v1))"

definition isl_val_sub_ui :: "isl_val res \<Rightarrow> ulong \<Rightarrow> isl_val res" where
  "isl_val_sub_ui v1 v2 = take1 v1 (\<lambda>v1.
     if \<not> val_is_rat v1 then Inr v1
     else if v2 = 0 then Inr v1
     else Inr (v1\<lparr>val_n := val_n v1 - val_d v1 * uint v2\<rparr>))"

definition isl_val_mul :: "isl_val res \<Rightarrow> isl_val res \<Rightarrow> isl_val res" where
  "isl_val_mul v1 v2 = take2 v1 v2 (\<lambda>v1 v2.
     if val_is_nan v1 then Inr v1
     else if val_is_nan v2 then Inr v2
     else if (\<not> val_is_rat v1 \<and> val_is_zero v2) \<or> (val_is_zero v1 \<and> \<not> val_is_rat v2)
       then isl_val_set_nan (Inr v1)
     else if val_is_zero v1 then Inr v1
     else if val_is_zero v2 then Inr v2
     else if val_is_infty v1 \<or> val_is_neginfty v1
       then (if val_is_neg v2 then isl_val_neg (Inr v1) else Inr v1)
     else if val_is_infty v2 \<or> val_is_neginfty v2
       then (if val_is_neg v1 then isl_val_neg (Inr v2) else Inr v2)
     else if val_is_int v1 \<and> val_is_int v2 then Inr (v1\<lparr>val_n := val_n v1 * val_n v2\<rparr>)
     else isl_val_normalize (Inr (v1\<lparr>val_n := val_n v1 * val_n v2, val_d := val_d v1 * val_d v2\<rparr>)))"

definition isl_val_scale_val :: "isl_val res \<Rightarrow> isl_val res \<Rightarrow> isl_val res" where
  "isl_val_scale_val v1 v2 = isl_val_mul v1 v2"

definition isl_val_mul_ui :: "isl_val res \<Rightarrow> ulong \<Rightarrow> isl_val res" where
  "isl_val_mul_ui v1 v2 = take1 v1 (\<lambda>v1.
     if val_is_nan v1 then Inr v1
     else if \<not> val_is_rat v1 then (if v2 = 0 then isl_val_set_nan (Inr v1) else Inr v1)
     else if v2 = 1 then Inr v1
     else isl_val_normalize (Inr (v1\<lparr>val_n := val_n v1 * uint v2\<rparr>)))"

definition isl_val_div :: "isl_val res \<Rightarrow> isl_val res \<Rightarrow> isl_val res" where
  "isl_val_div v1 v2 = take2 v1 v2 (\<lambda>v1 v2.
     if val_is_nan v1 then Inr v1
     else if val_is_nan v2 then Inr v2
     else if val_is_zero v2 \<or> (\<not> val_is_rat v1 \<and> \<not> val_is_rat v2) then isl_val_set_nan (Inr v1)
     else if val_is_zero v1 then Inr v1
     else if val_is_infty v1 \<or> val_is_neginfty v1
       then (if val_is_neg v2 then isl_val_neg (Inr v1) else Inr v1)
     else if val_is_infty v2 \<or> val_is_neginfty v2 then isl_val_set_zero (Inr v1)
     else if val_is_int v2
       then isl_val_normalize (Inr (v1\<lparr>val_d := val_d v1 * val_n v2\<rparr>))
     else isl_val_normalize (Inr (v1\<lparr>val_d := val_d v1 * val_n v2, val_n := val_n v1 * val_d v2\<rparr>)))"

definition isl_val_div_ui :: "isl_val res \<Rightarrow> ulong \<Rightarrow> isl_val res" where
  "isl_val_div_ui v1 v2 = take1 v1 (\<lambda>v1.
     if val_is_nan v1 then Inr v1
     else if v2 = 0 then isl_val_set_nan (Inr v1)
     else if v2 = 1 then Inr v1
     else if val_is_zero v1 then Inr v1
     else if val_is_infty v1 \<or> val_is_neginfty v1 then Inr v1
     else isl_val_normalize (Inr (v1\<lparr>val_d := val_d v1 * uint v2\<rparr>)))"

definition isl_val_scale_down_val :: "isl_val res \<Rightarrow> isl_val res \<Rightarrow> isl_val res" where
  "isl_val_scale_down_val v1 v2 = isl_val_div v1 v2"

definition isl_val_is_divisible_by :: "isl_val res \<Rightarrow> isl_val res \<Rightarrow> bool res" where
  "isl_val_is_divisible_by v1 v2 = take2 v1 v2 (\<lambda>v1 v2.
     if \<not> val_is_int v1 \<or> \<not> val_is_int v2 then isl_die isl_error_invalid
     else Inr (isl_int_is_divisible_by (val_n v1) (val_n v2)))"

definition isl_val_mod :: "isl_val res \<Rightarrow> isl_val res \<Rightarrow> isl_val res" where
  "isl_val_mod v1 v2 = take2 v1 v2 (\<lambda>v1 v2.
     if \<not> val_is_int v1 \<or> \<not> val_is_int v2 then isl_die isl_error_invalid
     else if val_is_nonneg v1 \<and> val_lt v1 v2 then Inr v1
     else Inr (v1\<lparr>val_n := isl_int_fdiv_r (val_n v1) (val_n v2)\<rparr>))"

definition isl_val_mod_val :: "isl_val res \<Rightarrow> isl_val res \<Rightarrow> isl_val res" where
  "isl_val_mod_val v1 v2 = isl_val_mod v1 v2"

definition isl_val_gcd :: "isl_val res \<Rightarrow> isl_val res \<Rightarrow> isl_val res" where
  "isl_val_gcd v1 v2 = take2 v1 v2 (\<lambda>v1 v2.
     if \<not> val_is_int v1 \<or> \<not> val_is_int v2 then isl_die isl_error_invalid
     else if val_eq v1 v2 then Inr v1
     else if val_is_one v1 then Inr v1
     else if val_is_one v2 then Inr v2
     else Inr (v1\<lparr>val_n := isl_int_gcd (val_n v1) (val_n v2)\<rparr>))"





subsection \<open>Reading a value\<close>

text \<open>
  The C functions that return a \<open>long\<close> return 0 after an error; \<open>isl_int_fits_slong\<close>
  is the test against the range of 64-bit signed integers.
\<close>

definition fits_slong :: "isl_int \<Rightarrow> bool" where
  "fits_slong n = (- (2 ^ 63) \<le> n \<and> n < 2 ^ 63)"

definition isl_val_get_num_si :: "isl_val res \<Rightarrow> i64" where
  "isl_val_get_num_si v = (case v of Inl _ \<Rightarrow> 0 | Inr v \<Rightarrow>
     if \<not> val_is_rat v then 0
     else if \<not> fits_slong (val_n v) then 0
     else word_of_int (val_n v))"

definition isl_val_get_den_si :: "isl_val res \<Rightarrow> i64" where
  "isl_val_get_den_si v = (case v of Inl _ \<Rightarrow> 0 | Inr v \<Rightarrow>
     if \<not> val_is_rat v then 0
     else if \<not> fits_slong (val_d v) then 0
     else word_of_int (val_d v))"

definition isl_val_get_num_isl_int :: "isl_val res \<Rightarrow> isl_int res" where
  "isl_val_get_num_isl_int v = take1 v (\<lambda>v.
     if \<not> val_is_rat v then isl_die isl_error_invalid else Inr (val_n v))"

definition isl_val_get_den_val :: "isl_val res \<Rightarrow> isl_val res" where
  "isl_val_get_den_val v = take1 v (\<lambda>v.
     if \<not> val_is_rat v then isl_die isl_error_invalid else isl_val_int_from_isl_int (val_d v))"

definition isl_val_get_hash :: "isl_val res \<Rightarrow> u32" where
  "isl_val_get_hash val = (case val of Inl _ \<Rightarrow> 0 | Inr val \<Rightarrow>
     let hash = isl_hash_init;
         hash = isl_int_hash (val_n val) hash
     in isl_int_hash (val_d val) hash)"

text \<open>
  The printer receives the strings below; a value is printed with its sign, as an
  integer or as a fraction.  The integer printer is the argument \<open>print_int\<close>.
\<close>

definition isl_printer_print_val :: "(isl_int \<Rightarrow> string) \<Rightarrow> string res \<Rightarrow> isl_val res \<Rightarrow> string res" where
  "isl_printer_print_val print_int p v = take2 p v (\<lambda>p v.
     let neg = (val_n v < 0);
         (p, v) = (if neg then (p @ ''-'', v\<lparr>val_n := - val_n v\<rparr>) else (p, v));
         p = (if val_d v = 0
              then let sgn = isl_int_sgn (val_n v)
                   in p @ (if sgn < 0 then ''-infty'' else if sgn = 0 then ''NaN'' else ''infty'')
              else p @ print_int (val_n v));
         v = (if neg then v\<lparr>val_n := - val_n v\<rparr> else v);
         p = (if val_d v \<noteq> 0 \<and> val_d v \<noteq> 1 then p @ ''/'' @ print_int (val_d v) else p)
     in Inr p)"

text \<open>The hooks of the generic multi-expressions: a value has no dimensions.\<close>

definition isl_val_involves_dims :: "isl_val res \<Rightarrow> nat \<Rightarrow> nat \<Rightarrow> bool res" where
  "isl_val_involves_dims v first n = take1 v (\<lambda>v. Inr False)"

definition isl_val_insert_dims :: "isl_val res \<Rightarrow> nat \<Rightarrow> nat \<Rightarrow> isl_val res" where
  "isl_val_insert_dims v first n = v"

definition isl_val_set_dim_name :: "isl_val res \<Rightarrow> nat \<Rightarrow> string \<Rightarrow> isl_val res" where
  "isl_val_set_dim_name v pos s = v"

subsection \<open>Extended rational numbers\<close>

datatype erat = Fin rat | PInf | NInf | NaN

fun erat_neg :: "erat \<Rightarrow> erat" where
  "erat_neg (Fin q) = Fin (- q)"
| "erat_neg PInf = NInf"
| "erat_neg NInf = PInf"
| "erat_neg NaN = NaN"

fun erat_add :: "erat \<Rightarrow> erat \<Rightarrow> erat" where
  "erat_add (Fin p) (Fin q) = Fin (p + q)"
| "erat_add NaN _ = NaN"
| "erat_add _ NaN = NaN"
| "erat_add PInf NInf = NaN"
| "erat_add NInf PInf = NaN"
| "erat_add PInf _ = PInf"
| "erat_add _ PInf = PInf"
| "erat_add NInf _ = NInf"
| "erat_add _ NInf = NInf"

fun inf_of :: "rat \<Rightarrow> erat" where
  "inf_of s = (if s < 0 then NInf else if s = 0 then NaN else PInf)"

fun erat_mul :: "erat \<Rightarrow> erat \<Rightarrow> erat" where
  "erat_mul (Fin p) (Fin q) = Fin (p * q)"
| "erat_mul NaN _ = NaN"
| "erat_mul _ NaN = NaN"
| "erat_mul PInf (Fin q) = inf_of q"
| "erat_mul NInf (Fin q) = inf_of (- q)"
| "erat_mul (Fin p) PInf = inf_of p"
| "erat_mul (Fin p) NInf = inf_of (- p)"
| "erat_mul PInf PInf = PInf"
| "erat_mul NInf NInf = PInf"
| "erat_mul PInf NInf = NInf"
| "erat_mul NInf PInf = NInf"

fun erat_inv :: "erat \<Rightarrow> erat" where
  "erat_inv (Fin q) = (if q = 0 then NaN else Fin (inverse q))"
| "erat_inv NaN = NaN"
| "erat_inv _ = Fin 0"

fun erat_less :: "erat \<Rightarrow> erat \<Rightarrow> bool" where
  "erat_less (Fin p) (Fin q) = (p < q)"
| "erat_less NaN _ = False"
| "erat_less _ NaN = False"
| "erat_less _ NInf = False"
| "erat_less NInf _ = True"
| "erat_less PInf _ = False"
| "erat_less _ PInf = True"

fun erat_round :: "(rat \<Rightarrow> int) \<Rightarrow> erat \<Rightarrow> erat" where
  "erat_round f (Fin q) = Fin (of_int (f q))"
| "erat_round f e = e"

text \<open>What an object represents, and the normal form every operation keeps.\<close>

definition val_abs :: "isl_val \<Rightarrow> erat" where
  "val_abs v = (if val_d v \<noteq> 0 then Fin (of_int (val_n v) / of_int (val_d v))
     else if 0 < val_n v then PInf else if val_n v < 0 then NInf else NaN)"

definition val_ok :: "isl_val \<Rightarrow> bool" where
  "val_ok v = ((0 < val_d v \<and> coprime (val_n v) (val_d v)) \<or>
     (val_d v = 0 \<and> (val_n v = 0 \<or> val_n v = 1 \<or> val_n v = - 1)))"

lemma val_ok_cases [consumes 1, case_names rat infty neginfty nan]:
  assumes "val_ok v"
  obtains (rat) n d where "v = mk_val n d" "0 < d" "coprime n d"
  | (infty) "v = mk_val 1 0" | (neginfty) "v = mk_val (- 1) 0" | (nan) "v = mk_val 0 0"
  using assms by (cases v) (auto simp: val_ok_def mk_val_def)

lemma val_abs_mk [simp]:
  "d \<noteq> 0 \<Longrightarrow> val_abs (mk_val n d) = Fin (of_int n / of_int d)"
  "val_abs (mk_val 1 0) = PInf" "val_abs (mk_val (- 1) 0) = NInf" "val_abs (mk_val 0 0) = NaN"
  by (simp_all add: val_abs_def)

lemma val_ok_mk [simp]:
  "0 < d \<Longrightarrow> val_ok (mk_val n d) \<longleftrightarrow> coprime n d"
  "val_ok (mk_val 1 0)" "val_ok (mk_val (- 1) 0)" "val_ok (mk_val 0 0)"
  by (auto simp: val_ok_def)

lemma rat_quot_eq_iff:
  "b \<noteq> 0 \<Longrightarrow> d \<noteq> 0 \<Longrightarrow> (of_int a / of_int b :: rat) = of_int c / of_int d \<longleftrightarrow> a * d = c * b"
proof -
  assume "b \<noteq> 0" "d \<noteq> 0"
  then have "(of_int a / of_int b :: rat) = of_int c / of_int d \<longleftrightarrow> (of_int (a * d) :: rat) = of_int (c * b)"
    by (simp add: frac_eq_eq)
  then show ?thesis by (simp only: of_int_eq_iff)
qed

lemma rat_quot_less_iff:
  "0 < b \<Longrightarrow> 0 < d \<Longrightarrow> (of_int a / of_int b :: rat) < of_int c / of_int d \<longleftrightarrow> a * d < c * b"
proof -
  assume "0 < b" "0 < d"
  then have "(of_int a / of_int b :: rat) < of_int c / of_int d \<longleftrightarrow> (of_int (a * d) :: rat) < of_int (c * b)"
    by (simp add: divide_less_eq less_divide_eq mult.commute mult.left_commute field_simps)
  then show ?thesis by (simp only: of_int_less_iff)
qed

lemma coprime_quot_unique:
  fixes a b c d :: int
  assumes "0 < b" "0 < d" "coprime a b" "coprime c d" "a * d = c * b"
  shows "a = c" "b = d"
proof -
  have "b dvd d" using assms by (metis coprime_commute coprime_dvd_mult_right_iff dvd_triv_right)
  moreover have "d dvd b" using assms by (metis coprime_commute coprime_dvd_mult_right_iff dvd_triv_right)
  ultimately show "b = d" using assms by (simp add: zdvd_antisym_nonneg)
  then show "a = c" using assms by simp
qed

text \<open>The representation is canonical.\<close>

lemma val_abs_inj:
  assumes "val_ok v" and "val_ok w"
  shows "val_abs v = val_abs w \<longleftrightarrow> v = w"
  using assms
  by (elim val_ok_cases) (auto simp: rat_quot_eq_iff dest: coprime_quot_unique)

lemma val_normalize_ok:
  assumes "d \<noteq> 0"
  obtains w where "isl_val_normalize (Inr (mk_val n d)) = Inr w" "val_ok w"
    "val_abs w = Fin (of_int n / of_int d)"
proof (cases "d = 1")
  case True
  then show ?thesis
    by (intro that [of "mk_val n 1"]) (simp_all add: isl_val_normalize_def val_is_int_def)
next
  case False
  define n' where "n' = (if d < 0 then - n else n)"
  define d' where "d' = (if d < 0 then - d else d)"
  have d': "0 < d'" "(of_int n' / of_int d' :: rat) = of_int n / of_int d"
    using assms by (simp_all add: n'_def d'_def)
  define g where "g = gcd n' d'"
  have g: "0 < g" "g dvd n'" "g dvd d'" using d'(1) by (simp_all add: g_def)
  have r: "isl_val_normalize (Inr (mk_val n d)) =
      Inr (if g = 1 then mk_val n' d' else mk_val (isl_int_divexact n' g) (isl_int_divexact d' g))"
    using False assms
    by (simp add: isl_val_normalize_def val_is_int_def val_is_rat_def isl_int_gcd_def Let_def
        n'_def d'_def g_def)
  let ?w = "mk_val (n' div g) (d' div g)"
  have "isl_val_normalize (Inr (mk_val n d)) = Inr ?w"
    unfolding r using g by (simp add: isl_int_divexact_dvd)
  moreover have pos: "0 < d' div g" using g d'(1) by (simp add: pos_imp_zdiv_pos_iff zdvd_imp_le)
  moreover have "coprime (n' div g) (d' div g)"
    unfolding g_def by (rule div_gcd_coprime) (use d'(1) in simp)
  moreover have "(of_int (n' div g) / of_int (d' div g) :: rat) = of_int n' / of_int d'"
    using g pos d'(1) by (subst rat_quot_eq_iff) (auto elim!: dvdE)
  ultimately show ?thesis using d'(2) by (intro that [of ?w]) simp_all
qed

text \<open>The result of an operation represents an extended rational.\<close>

definition represents :: "isl_val res \<Rightarrow> erat \<Rightarrow> bool" where
  "represents r e = (\<exists>w. r = Inr w \<and> val_ok w \<and> val_abs w = e)"

lemma represents_Inr [simp]: "represents (Inr w) e \<longleftrightarrow> val_ok w \<and> val_abs w = e"
  by (auto simp: represents_def)

lemma represents_unique: "represents r e \<Longrightarrow> represents r' e \<Longrightarrow> r = r'"
  by (auto simp: represents_def val_abs_inj)

lemma normalize_represents:
  "d \<noteq> 0 \<Longrightarrow> represents (isl_val_normalize (Inr (mk_val n d))) (Fin (of_int n / of_int d))"
  by (rule val_normalize_ok [of d n]) (auto simp: represents_def)

lemma normalize_represents_eq:
  "d \<noteq> 0 \<Longrightarrow> e = Fin (of_int n / of_int d) \<Longrightarrow> represents (isl_val_normalize (Inr (mk_val n d))) e"
  using normalize_represents by simp

lemmas val_case_simps = val_pred_defs isl_val_set_nan_def isl_val_set_zero_def isl_val_set_si_def
  isl_int_cmp_def sgn_eq_0_iff

lemma isl_val_neg_represents:
  "val_ok v \<Longrightarrow> represents (isl_val_neg (Inr v)) (erat_neg (val_abs v))"
  by (erule val_ok_cases) (auto simp: isl_val_neg_def val_case_simps)

lemma isl_val_abs_represents:
  assumes "val_ok v"
  shows "represents (isl_val_abs (Inr v))
    (if erat_less (val_abs v) (Fin 0) then erat_neg (val_abs v) else val_abs v)"
  using assms
proof (cases rule: val_ok_cases)
  case (rat n d)
  then have "erat_less (val_abs v) (Fin 0) \<longleftrightarrow> n < 0"
    by (simp add: divide_less_0_iff)
  with rat show ?thesis by (auto simp: isl_val_abs_def isl_val_neg_def val_case_simps)
qed (auto simp: isl_val_abs_def isl_val_neg_def val_case_simps)

lemma isl_val_inv_represents:
  assumes "val_ok v"
  shows "represents (isl_val_inv (Inr v)) (erat_inv (val_abs v))"
  using assms
proof (cases rule: val_ok_cases)
  case (rat n d)
  then show ?thesis
    by (cases "n = 0")
       (auto simp: isl_val_inv_def val_case_simps isl_val_nan_def isl_val_alloc_def mk_val_def [symmetric]
         intro!: normalize_represents_eq)
qed (auto simp: isl_val_inv_def val_case_simps isl_val_zero_def isl_val_int_from_si_def isl_val_alloc_def
    mk_val_def [symmetric])

lemma isl_val_add_represents:
  assumes "val_ok v" and "val_ok w"
  shows "represents (isl_val_add (Inr v) (Inr w)) (erat_add (val_abs v) (val_abs w))"
  using assms(1)
proof (cases rule: val_ok_cases)
  case (rat n d)
  note v = this
  show ?thesis using assms(2)
  proof (cases rule: val_ok_cases)
    case (rat n' d')
    have d: "d \<noteq> 0" "d' \<noteq> 0" using v rat by auto
    have same: "represents (isl_val_normalize (Inr (mk_val (n + n') d))) (Fin (of_int n / of_int d + of_int n' / of_int d))"
      by (rule normalize_represents_eq) (use d in \<open>simp_all add: add_divide_distrib\<close>)
    have diff: "represents (isl_val_normalize (Inr (mk_val (n * d' + n' * d) (d * d'))))
        (Fin (of_int n / of_int d + of_int n' / of_int d'))"
      by (rule normalize_represents_eq) (use d in \<open>simp_all add: add_frac_eq mult.commute\<close>)
    show ?thesis using v rat d same diff
      by (auto simp: isl_val_add_def val_case_simps Let_def)
  qed (use v in \<open>auto simp: isl_val_add_def val_case_simps\<close>)
qed (rule val_ok_cases [OF assms(2)]; auto simp: isl_val_add_def val_case_simps)+

lemma isl_val_sub_represents:
  assumes "val_ok v" and "val_ok w"
  shows "represents (isl_val_sub (Inr v) (Inr w)) (erat_add (val_abs v) (erat_neg (val_abs w)))"
  using assms(1)
proof (cases rule: val_ok_cases)
  case (rat n d)
  note v = this
  show ?thesis using assms(2)
  proof (cases rule: val_ok_cases)
    case (rat n' d')
    have d: "d \<noteq> 0" "d' \<noteq> 0" using v rat by auto
    have same: "represents (isl_val_normalize (Inr (mk_val (n - n') d))) (Fin (of_int n / of_int d - of_int n' / of_int d))"
      by (rule normalize_represents_eq) (use d in \<open>simp_all add: diff_divide_distrib\<close>)
    have diff: "represents (isl_val_normalize (Inr (mk_val (n * d' - n' * d) (d * d'))))
        (Fin (of_int n / of_int d - of_int n' / of_int d'))"
      by (rule normalize_represents_eq) (use d in \<open>simp_all add: diff_frac_eq mult.commute\<close>)
    show ?thesis using v rat d same diff
      by (auto simp: isl_val_sub_def isl_val_neg_def val_case_simps Let_def)
  qed (use v in \<open>auto simp: isl_val_sub_def isl_val_neg_def val_case_simps\<close>)
qed (rule val_ok_cases [OF assms(2)]; auto simp: isl_val_sub_def isl_val_neg_def val_case_simps)+

lemma isl_val_mul_represents:
  assumes "val_ok v" and "val_ok w"
  shows "represents (isl_val_mul (Inr v) (Inr w)) (erat_mul (val_abs v) (val_abs w))"
  using assms(1)
proof (cases rule: val_ok_cases)
  case (rat n d)
  note v = this
  show ?thesis using assms(2)
  proof (cases rule: val_ok_cases)
    case (rat n' d')
    have d: "d \<noteq> 0" "d' \<noteq> 0" using v rat by auto
    have "represents (isl_val_normalize (Inr (mk_val (n * n') (d * d'))))
        (Fin (of_int n / of_int d * (of_int n' / of_int d')))"
      by (rule normalize_represents_eq) (use d in simp_all)
    then show ?thesis using v rat d by (auto simp: isl_val_mul_def val_case_simps)
  qed (use v in \<open>auto simp: isl_val_mul_def isl_val_neg_def val_case_simps divide_less_0_iff zero_less_divide_iff\<close>)
qed (rule val_ok_cases [OF assms(2)];
     auto simp: isl_val_mul_def isl_val_neg_def val_case_simps divide_less_0_iff zero_less_divide_iff)+

lemma isl_val_div_represents:
  assumes "val_ok v" and "val_ok w"
  shows "represents (isl_val_div (Inr v) (Inr w)) (erat_mul (val_abs v) (erat_inv (val_abs w)))"
  using assms(1)
proof (cases rule: val_ok_cases)
  case (rat n d)
  note v = this
  show ?thesis using assms(2)
  proof (cases rule: val_ok_cases)
    case (rat n' d')
    have d: "d \<noteq> 0" "d' \<noteq> 0" using v rat by auto
    have "n' \<noteq> 0 \<Longrightarrow> represents (isl_val_normalize (Inr (mk_val (n * d') (d * n'))))
        (Fin (of_int n / of_int d * inverse (of_int n' / of_int d')))"
      by (rule normalize_represents_eq) (use d in simp_all)
    then show ?thesis using v rat d by (auto simp: isl_val_div_def val_case_simps)
  qed (use v in \<open>auto simp: isl_val_div_def isl_val_neg_def val_case_simps\<close>)
qed (rule val_ok_cases [OF assms(2)];
     auto simp: isl_val_div_def isl_val_neg_def val_case_simps divide_less_0_iff zero_less_divide_iff)+

subsection \<open>Comparisons\<close>

lemma val_abs_NaN_iff: "val_ok v \<Longrightarrow> val_abs v = NaN \<longleftrightarrow> val_is_nan v"
  by (erule val_ok_cases) (auto simp: val_pred_defs)

lemma val_eq_iff:
  assumes "val_ok v" and "val_ok w"
  shows "val_eq v w \<longleftrightarrow> val_abs v = val_abs w \<and> val_abs v \<noteq> NaN"
    and "val_ne v w \<longleftrightarrow> val_abs v \<noteq> val_abs w \<and> val_abs v \<noteq> NaN \<and> val_abs w \<noteq> NaN"
proof -
  have "val_n v = val_n w \<and> val_d v = val_d w \<longleftrightarrow> v = w" by (metis mk_val_surj)
  then show "val_eq v w \<longleftrightarrow> val_abs v = val_abs w \<and> val_abs v \<noteq> NaN"
    "val_ne v w \<longleftrightarrow> val_abs v \<noteq> val_abs w \<and> val_abs v \<noteq> NaN \<and> val_abs w \<noteq> NaN"
    using assms by (auto simp: val_eq_def val_ne_def val_abs_inj val_abs_NaN_iff)
qed

lemma val_lt_iff:
  assumes "val_ok v" and "val_ok w"
  shows "val_lt v w \<longleftrightarrow> erat_less (val_abs v) (val_abs w)"
  using assms(1)
proof (cases rule: val_ok_cases)
  case (rat n d)
  note v = this
  show ?thesis using assms(2)
  proof (cases rule: val_ok_cases)
    case (rat n' d')
    have "n * d' < n' * d \<longleftrightarrow> (of_int n / of_int d :: rat) < of_int n' / of_int d'"
      using v rat by (simp add: rat_quot_less_iff)
    then show ?thesis using v rat
      by (auto simp: val_lt_def val_eq_def val_pred_defs Let_def)
  qed (use v in \<open>auto simp: val_lt_def val_eq_def val_pred_defs\<close>)
qed (rule val_ok_cases [OF assms(2)]; auto simp: val_lt_def val_eq_def val_pred_defs)+

lemma val_le_iff:
  assumes "val_ok v" and "val_ok w"
  shows "val_le v w \<longleftrightarrow> val_lt v w \<or> val_eq v w"
  using assms(1)
proof (cases rule: val_ok_cases)
  case (rat n d)
  note v = this
  show ?thesis using assms(2)
  proof (cases rule: val_ok_cases)
    case (rat n' d')
    have "n * d' = n' * d \<Longrightarrow> n = n' \<and> d = d'"
      using v rat coprime_quot_unique [of d d' n n'] by auto
    then show ?thesis using v rat
      by (auto simp: val_le_def val_lt_def val_eq_def val_pred_defs Let_def)
  qed (use v in \<open>auto simp: val_le_def val_lt_def val_eq_def val_pred_defs\<close>)
qed (rule val_ok_cases [OF assms(2)]; auto simp: val_le_def val_lt_def val_eq_def val_pred_defs)+

lemma erat_less_total:
  "e \<noteq> NaN \<Longrightarrow> f \<noteq> NaN \<Longrightarrow> erat_less e f \<or> e = f \<or> erat_less f e"
  "\<not> erat_less e e"
  by (cases e; cases f; auto)+

lemma erat_less_trans: "erat_less e f \<Longrightarrow> erat_less f g \<Longrightarrow> erat_less e g"
  by (cases e; cases f; cases g; auto)

lemma erat_less_NaN [simp]: "\<not> erat_less NaN e" "\<not> erat_less e NaN"
  by (cases e; simp)+

lemma isl_val_cmp_si_eq:
  assumes "val_ok v" and "val_abs v \<noteq> NaN"
  shows "isl_val_cmp_si (Inr v) i =
    (if erat_less (val_abs v) (Fin (of_int (sint i))) then - 1
     else if val_abs v = Fin (of_int (sint i)) then 0 else 1)"
  using assms(1)
proof (cases rule: val_ok_cases)
  case (rat n d)
  have "n < d * sint i \<longleftrightarrow> (of_int n / of_int d :: rat) < of_int (sint i)"
    using rat rat_quot_less_iff [of d 1 n "sint i"] by (simp add: mult.commute)
  moreover have "n = d * sint i \<longleftrightarrow> (of_int n / of_int d :: rat) = of_int (sint i)"
    using rat rat_quot_eq_iff [of d 1 n "sint i"] by (simp add: mult.commute)
  ultimately show ?thesis using rat
    by (auto simp: isl_val_cmp_si_def val_pred_defs Let_def isl_int_sgn_def isl_int_cmp_def sgn_if)
qed (use assms(2) in \<open>auto simp: isl_val_cmp_si_def val_pred_defs\<close>)

lemma isl_val_gt_si_eq:
  assumes "val_ok v"
  shows "isl_val_gt_si (Inr v) i = Inr (erat_less (Fin (of_int (sint i))) (val_abs v))"
  using assms
proof (cases rule: val_ok_cases)
  case (rat n d)
  have ok: "val_ok (mk_val (sint i) 1)" by simp
  show ?thesis
    using rat val_lt_iff [OF ok, of v] assms
    by (auto simp: isl_val_gt_si_def val_is_int_def val_is_nan_def val_is_infty_def val_is_neginfty_def
        isl_val_gt_def isl_val_lt_def isl_val_int_from_si_def isl_val_alloc_def mk_val_def [symmetric]
        isl_int_cmp_def simp del: of_int_sint)
qed (auto simp: isl_val_gt_si_def val_pred_defs)

lemma isl_val_min_max_represents:
  assumes "val_ok v" and "val_ok w"
  shows "represents (isl_val_min (Inr v) (Inr w))
      (if val_abs v = NaN \<or> val_abs w = NaN then NaN
       else if erat_less (val_abs w) (val_abs v) then val_abs w else val_abs v)"
    and "represents (isl_val_max (Inr v) (Inr w))
      (if val_abs v = NaN \<or> val_abs w = NaN then NaN
       else if erat_less (val_abs v) (val_abs w) then val_abs w else val_abs v)"
proof -
  have lt: "val_lt v w \<longleftrightarrow> erat_less (val_abs v) (val_abs w)" "val_lt w v \<longleftrightarrow> erat_less (val_abs w) (val_abs v)"
    using assms val_lt_iff by auto
  have le: "val_le v w \<longleftrightarrow> val_lt v w \<or> val_eq v w" "val_le w v \<longleftrightarrow> val_lt w v \<or> val_eq w v"
    using assms val_le_iff by auto
  have eq: "val_eq v w \<longleftrightarrow> val_abs v = val_abs w \<and> val_abs v \<noteq> NaN"
    "val_eq w v \<longleftrightarrow> val_abs w = val_abs v \<and> val_abs w \<noteq> NaN"
    using assms val_eq_iff(1) by auto
  have nan: "val_is_nan v \<longleftrightarrow> val_abs v = NaN" "val_is_nan w \<longleftrightarrow> val_abs w = NaN"
    using assms val_abs_NaN_iff by auto
  note tot = erat_less_total(1) [of "val_abs v" "val_abs w"] erat_less_total(2) [of "val_abs v"]
    erat_less_trans [of "val_abs v" "val_abs w" "val_abs v"]
  show "represents (isl_val_min (Inr v) (Inr w))
      (if val_abs v = NaN \<or> val_abs w = NaN then NaN
       else if erat_less (val_abs w) (val_abs v) then val_abs w else val_abs v)"
    "represents (isl_val_max (Inr v) (Inr w))
      (if val_abs v = NaN \<or> val_abs w = NaN then NaN
       else if erat_less (val_abs v) (val_abs w) then val_abs w else val_abs v)"
    using assms tot unfolding isl_val_min_def isl_val_max_def take_simps le lt eq nan
    by (simp_all split: if_splits) metis+
qed

subsection \<open>Rounding and mixed operations\<close>

lemma floor_quot: "0 < d \<Longrightarrow> \<lfloor>of_int n / of_int d :: rat\<rfloor> = n div d"
  by (simp add: floor_divide_of_int_eq)

lemma ceiling_quot: "0 < d \<Longrightarrow> \<lceil>of_int n / of_int d :: rat\<rceil> = isl_int_cdiv_q n d"
proof -
  assume "0 < d"
  have "- (of_int n / of_int d :: rat) = of_int (- n) / of_int d" by simp
  then show ?thesis
    using \<open>0 < d\<close> by (simp only: ceiling_def floor_quot isl_int_cdiv_q_def)
qed

definition rat_trunc :: "rat \<Rightarrow> int" where
  "rat_trunc q = (if 0 \<le> q then \<lfloor>q\<rfloor> else \<lceil>q\<rceil>)"

lemma trunc_quot: "0 < d \<Longrightarrow> rat_trunc (of_int n / of_int d) = isl_int_tdiv_q n d"
  by (auto simp: rat_trunc_def floor_quot ceiling_quot isl_int_tdiv_q_pos_dvsr isl_int_cdiv_q_def
      zero_le_divide_iff)

lemma isl_val_round_represents:
  assumes "val_ok v"
  shows "represents (isl_val_floor (Inr v)) (erat_round floor (val_abs v))"
    and "represents (isl_val_ceil (Inr v)) (erat_round ceiling (val_abs v))"
    and "represents (isl_val_trunc (Inr v)) (erat_round rat_trunc (val_abs v))"
proof -
  have *: "represents (if d = 1 then Inr (mk_val n d) else Inr (mk_val (f n d) 1)) (Fin (of_int (g (of_int n / of_int d))))"
    if "0 < d" and "g (of_int n / of_int d :: rat) = f n d" and "d = 1 \<Longrightarrow> f n d = n" for n d f g
    using that by auto
  show "represents (isl_val_floor (Inr v)) (erat_round floor (val_abs v))" using assms
  proof (cases rule: val_ok_cases)
    case (rat n d)
    then show ?thesis using * [of d floor n isl_int_fdiv_q] floor_quot [of d n]
      by (simp add: isl_val_floor_def val_pred_defs isl_int_fdiv_q_def)
  qed (simp_all add: isl_val_floor_def val_pred_defs)
  show "represents (isl_val_ceil (Inr v)) (erat_round ceiling (val_abs v))" using assms
  proof (cases rule: val_ok_cases)
    case (rat n d)
    then show ?thesis using * [of d ceiling n isl_int_cdiv_q] ceiling_quot [of d n]
      by (simp add: isl_val_ceil_def val_pred_defs isl_int_cdiv_q_def)
  qed (simp_all add: isl_val_ceil_def val_pred_defs)
  show "represents (isl_val_trunc (Inr v)) (erat_round rat_trunc (val_abs v))" using assms
  proof (cases rule: val_ok_cases)
    case (rat n d)
    then show ?thesis using * [of d rat_trunc n isl_int_tdiv_q] trunc_quot [of d n]
      by (simp add: isl_val_trunc_def val_pred_defs isl_int_tdiv_q_pos_dvsr)
  qed (simp_all add: isl_val_trunc_def val_pred_defs)
qed

lemma coprime_add_mult: "coprime n d \<Longrightarrow> coprime (n + d * k) (d :: int)" "coprime n d \<Longrightarrow> coprime (n - d * k) d"
proof -
  have "gcd (n + d * k) d = gcd n d" for k
    using gcd_add_mult [of d k n] by (simp only: gcd.commute [of _ d] add.commute [of n] mult.commute [of d])
  from this [of k] this [of "- k"]
  show "coprime n d \<Longrightarrow> coprime (n + d * k) d" "coprime n d \<Longrightarrow> coprime (n - d * k) d"
    by (simp_all add: coprime_iff_gcd_eq_1)
qed

lemma isl_val_add_ui_represents:
  assumes "val_ok v"
  shows "represents (isl_val_add_ui (Inr v) u) (erat_add (val_abs v) (Fin (of_int (uint u))))"
    and "represents (isl_val_sub_ui (Inr v) u) (erat_add (val_abs v) (Fin (- of_int (uint u))))"
proof -
  have "of_int (n + d * k) / of_int d = (of_int n / of_int d + of_int k :: rat)"
    "of_int (n - d * k) / of_int d = (of_int n / of_int d - of_int k :: rat)" if "0 < d" for n d k
    using that by (simp_all add: add_divide_distrib diff_divide_distrib)
  note quot = this
  show "represents (isl_val_add_ui (Inr v) u) (erat_add (val_abs v) (Fin (of_int (uint u))))" using assms
  proof (cases rule: val_ok_cases)
    case (rat n d)
    then show ?thesis
      using quot(1) [of d n "uint u"] coprime_add_mult(1) [of n d "uint u"]
      by (simp add: isl_val_add_ui_def val_pred_defs del: of_int_uint)
  qed (simp_all add: isl_val_add_ui_def val_pred_defs del: of_int_uint)
  show "represents (isl_val_sub_ui (Inr v) u) (erat_add (val_abs v) (Fin (- of_int (uint u))))" using assms
  proof (cases rule: val_ok_cases)
    case (rat n d)
    then show ?thesis
      using quot(2) [of d n "uint u"] coprime_add_mult(2) [of n d "uint u"]
      by (simp add: isl_val_sub_ui_def val_pred_defs del: of_int_uint)
  qed (simp_all add: isl_val_sub_ui_def val_pred_defs del: of_int_uint)
qed

lemma isl_val_mul_ui_represents:
  assumes "val_ok v"
  shows "represents (isl_val_mul_ui (Inr v) u) (erat_mul (val_abs v) (Fin (of_int (uint u))))"
proof -
  have u: "u \<noteq> 0 \<Longrightarrow> 0 < uint u"
    by (metis order_le_less uint_0_iff unsigned_greater_eq)
  show ?thesis using assms
  proof (cases rule: val_ok_cases)
    case (rat n d)
    then have "represents (isl_val_normalize (Inr (mk_val (n * uint u) d)))
        (Fin (of_int n / of_int d * of_int (uint u)))"
      by (intro normalize_represents_eq) auto
    with rat show ?thesis by (auto simp: isl_val_mul_ui_def val_pred_defs simp del: of_int_uint)
  qed (use u in \<open>auto simp: isl_val_mul_ui_def val_case_simps uint_0_iff simp del: of_int_uint\<close>)
qed

lemma isl_val_div_ui_represents:
  assumes "val_ok v"
  shows "represents (isl_val_div_ui (Inr v) u)
    (if u = 0 then NaN else erat_mul (val_abs v) (Fin (inverse (of_int (uint u)))))"
proof -
  have u: "u \<noteq> 0 \<Longrightarrow> 0 < uint u"
    by (metis order_le_less uint_0_iff unsigned_greater_eq)
  show ?thesis using assms
  proof (cases rule: val_ok_cases)
    case (rat n d)
    then have "u \<noteq> 0 \<Longrightarrow> represents (isl_val_normalize (Inr (mk_val n (d * uint u))))
        (Fin (of_int n / of_int d * inverse (of_int (uint u))))"
      by (intro normalize_represents_eq) (use u in \<open>auto simp: divide_inverse\<close>)
    with rat show ?thesis by (auto simp: isl_val_div_ui_def val_case_simps uint_0_iff simp del: of_int_uint)
  qed (use u in \<open>auto simp: isl_val_div_ui_def val_case_simps uint_0_iff simp del: of_int_uint\<close>)
qed

lemma isl_val_set_si_represents:
  "represents (isl_val_int_from_si i) (Fin (of_int (sint i)))"
  "val_ok v \<Longrightarrow> represents (isl_val_set_si (Inr v) i) (Fin (of_int (sint i)))"
  "val_ok v \<Longrightarrow> represents (isl_val_set_nan (Inr v)) NaN"
  "represents (isl_val_int_from_ui u) (Fin (of_int (uint u)))"
  "represents (isl_val_int_from_isl_int n) (Fin (of_int n))"
  "represents isl_val_nan NaN" "represents isl_val_infty PInf" "represents isl_val_neginfty NInf"
proof -
  show "represents (isl_val_set_si (Inr v) i) (Fin (of_int (sint i)))" if "val_ok v"
    by (cases v) (use that in \<open>auto simp: isl_val_set_si_def val_is_int_def mk_val_def [symmetric] simp del: of_int_sint\<close>)
  show "represents (isl_val_set_nan (Inr v)) NaN" if "val_ok v"
    by (cases v) (use that in \<open>auto simp: isl_val_set_nan_def val_is_nan_def mk_val_def [symmetric]\<close>)
qed (simp_all add: isl_val_int_from_si_def isl_val_int_from_ui_def isl_val_int_from_isl_int_def isl_val_nan_def
    isl_val_infty_def isl_val_neginfty_def isl_val_alloc_def mk_val_def [symmetric] del: of_int_sint of_int_uint)

lemma isl_val_pow2_int:
  "isl_val_pow2 (Inr (mk_val k 1)) = (if 2 ^ 64 \<le> \<bar>k\<bar> then Some (Inl isl_error_invalid)
    else if 2 ^ 63 \<le> \<bar>k\<bar> then None
    else Some (Inr (if 0 \<le> k then mk_val (2 ^ (nat k mod 2 ^ 32)) 1 else mk_val 1 (2 ^ (nat (- k) mod 2 ^ 32)))))"
proof (cases "2 ^ 64 \<le> \<bar>k\<bar>")
  case True
  then show ?thesis by (auto simp: isl_val_pow2_def val_is_int_def val_is_neg_def isl_die_def Let_def)
next
  case False
  then have "unat (word_of_int \<bar>k\<bar> :: 64 word) = nat \<bar>k\<bar>"
    by (simp add: unsigned_of_int take_bit_int_eq_self)
  then have shift: "isl_int_mul_2exp i (word_of_int \<bar>k\<bar>) =
      (if 2 ^ 63 \<le> \<bar>k\<bar> then None else Some (i * 2 ^ (nat \<bar>k\<bar> mod 2 ^ 32)))" for i
    by (simp add: isl_int_mul_2exp_eq nat_less_iff)
  show ?thesis
  proof (cases "0 \<le> k")
    case True
    then show ?thesis using False shift [of 1]
      by (simp add: isl_val_pow2_def val_is_int_def val_is_neg_def mk_val_def)
  next
    case neg: False
    then show ?thesis using False shift [of 1]
      by (simp add: isl_val_pow2_def val_is_int_def val_is_neg_def mk_val_def)
  qed
qed

lemma isl_val_pow2_value:
  assumes "\<bar>k\<bar> < 2 ^ 63"
  shows "\<exists>w. isl_val_pow2 (Inr (mk_val k 1)) = Some (Inr w) \<and> val_ok w \<and>
    val_abs w = Fin (2 powi (sgn k * (\<bar>k\<bar> mod 2 ^ 32)))"
proof -
  define m where "m = nat \<bar>k\<bar> mod 2 ^ 32"
  have m: "int m = \<bar>k\<bar> mod 2 ^ 32" by (simp add: m_def zmod_int)
  have result: "isl_val_pow2 (Inr (mk_val k 1)) = Some (Inr (if 0 \<le> k then mk_val (2 ^ m) 1 else mk_val 1 (2 ^ m)))"
    using assms by (simp add: isl_val_pow2_int m_def)
  have exp: "sgn k * (\<bar>k\<bar> mod 2 ^ 32) = (if 0 \<le> k then int m else - int m)"
    unfolding m [symmetric] by (cases "k = 0") (simp_all add: sgn_if m_def)
  show ?thesis unfolding result exp by (simp add: power_int_minus divide_inverse)
qed

lemma val_mk_int: "val_ok v \<Longrightarrow> val_is_int v \<longleftrightarrow> (\<exists>k. val_abs v = Fin (of_int k))"
proof
  assume "val_is_int v"
  then show "\<exists>k. val_abs v = Fin (of_int k)" by (auto simp: val_is_int_def val_abs_def)
next
  assume v: "val_ok v" "\<exists>k. val_abs v = Fin (of_int k)"
  then obtain k where "val_abs v = Fin (of_int k)" by auto
  then have "v = mk_val k 1" using v(1) val_abs_inj [of v "mk_val k 1"] by simp
  then show "val_is_int v" by (simp add: val_is_int_def)
qed

lemma val_is_int_mk: "val_is_int v \<Longrightarrow> v = mk_val (val_n v) 1"
  by (cases v) (simp add: val_is_int_def mk_val_def)

lemma isl_val_mod_int:
  assumes "val_is_int v" and "val_is_int w" and "val_n w \<noteq> 0"
  shows "isl_val_mod (Inr v) (Inr w) = Inr (mk_val (val_n v mod val_n w) 1)"
proof -
  obtain a b where v: "v = mk_val a 1" and w: "w = mk_val b 1" using assms val_is_int_mk by blast
  have "0 \<le> a \<Longrightarrow> a < b \<Longrightarrow> a mod b = a" by simp
  with v w show ?thesis
    by (auto simp: isl_val_mod_def val_is_int_def val_is_nonneg_def val_is_nan_def val_lt_def isl_int_fdiv_r_def)
qed

lemma isl_val_mod_error:
  "\<not> val_is_int v \<or> \<not> val_is_int w \<Longrightarrow> isl_val_mod (Inr v) (Inr w) = Inl isl_error_invalid"
  "\<not> val_is_int v \<or> \<not> val_is_int w \<Longrightarrow> isl_val_gcd (Inr v) (Inr w) = Inl isl_error_invalid"
  "\<not> val_is_int v \<or> \<not> val_is_int w \<Longrightarrow> isl_val_is_divisible_by (Inr v) (Inr w) = Inl isl_error_invalid"
  "\<not> val_is_int v \<Longrightarrow> isl_val_pow2 (Inr v) = Some (Inl isl_error_invalid)"
  by (auto simp: isl_val_mod_def isl_val_gcd_def isl_val_is_divisible_by_def isl_val_pow2_def)

lemma two_powi_inject: "(2 :: rat) powi i = 2 powi j \<longleftrightarrow> i = j"
  using power_int_strict_increasing [of i j "2 :: rat"] power_int_strict_increasing [of j i "2 :: rat"]
  by (cases i j rule: linorder_cases) auto

lemma val_pow2_cases:
  assumes "val_ok v"
  shows "if \<exists>k. val_abs v = Fin (of_int k)
    then \<exists>k. val_abs v = Fin (of_int k) \<and>
      ((\<exists>r. isl_val_pow2 (Inr v) = Some r \<and> represents r (Fin (2 powi k))) \<longleftrightarrow> \<bar>k\<bar> < 2 ^ 32) \<and>
      ((\<exists>w. isl_val_pow2 (Inr v) = Some (Inr w) \<and> val_ok w) \<longleftrightarrow> \<bar>k\<bar> < 2 ^ 63) \<and>
      (isl_val_pow2 (Inr v) = None \<longleftrightarrow> 2 ^ 63 \<le> \<bar>k\<bar> \<and> \<bar>k\<bar> < 2 ^ 64) \<and>
      (isl_val_pow2 (Inr v) = Some (Inl isl_error_invalid) \<longleftrightarrow> 2 ^ 64 \<le> \<bar>k\<bar>)
    else isl_val_pow2 (Inr v) = Some (Inl isl_error_invalid)"
proof (cases "\<exists>k. val_abs v = Fin (of_int k)")
  case True
  then obtain k where k: "val_abs v = Fin (of_int k)" by blast
  then have v: "v = mk_val k 1" using assms val_abs_inj [of v "mk_val k 1"] by simp
  have exact: "sgn k * (\<bar>k\<bar> mod 2 ^ 32) = k \<longleftrightarrow> \<bar>k\<bar> < 2 ^ 32"
    by (metis abs_ge_zero abs_mult_sgn mod_pos_pos_trivial mult.commute mult_cancel_left pos_mod_bound sgn_0_0 zero_less_numeral
      zero_less_power abs_0)
  have "(\<exists>r. isl_val_pow2 (Inr v) = Some r \<and> represents r (Fin (2 powi k))) \<longleftrightarrow> \<bar>k\<bar> < 2 ^ 32"
  proof (cases "\<bar>k\<bar> < 2 ^ 63")
    case True
    then obtain w where w: "isl_val_pow2 (Inr v) = Some (Inr w)" "val_ok w"
      "val_abs w = Fin (2 powi (sgn k * (\<bar>k\<bar> mod 2 ^ 32)))"
      using isl_val_pow2_value v by blast
    then have "(\<exists>r. isl_val_pow2 (Inr v) = Some r \<and> represents r (Fin (2 powi k))) \<longleftrightarrow>
        (2 :: rat) powi (sgn k * (\<bar>k\<bar> mod 2 ^ 32)) = 2 powi k"
      by (simp add: represents_def)
    also have "\<dots> \<longleftrightarrow> sgn k * (\<bar>k\<bar> mod 2 ^ 32) = k" by (rule two_powi_inject)
    finally show ?thesis using exact by simp
  qed (auto simp: v isl_val_pow2_int represents_def)
  moreover have "(\<exists>w. isl_val_pow2 (Inr v) = Some (Inr w) \<and> val_ok w) \<longleftrightarrow> \<bar>k\<bar> < 2 ^ 63"
    using isl_val_pow2_value [of k] unfolding v by (cases "\<bar>k\<bar> < 2 ^ 63") (auto simp: isl_val_pow2_int)
  ultimately show ?thesis using k unfolding v by (auto simp: isl_val_pow2_int)
next
  case False
  then show ?thesis using assms val_mk_int [of v] isl_val_mod_error(4) [of v] by auto
qed

text \<open>
  The greatest common divisor of two integers: exact, except that two equal negative
  arguments are returned as they are.
\<close>

lemma isl_val_gcd_int:
  assumes "val_is_int v" and "val_is_int w"
  shows "isl_val_gcd (Inr v) (Inr w) =
    Inr (mk_val (if v = w then val_n v else gcd (val_n v) (val_n w)) 1)"
proof -
  obtain a b where v: "v = mk_val a 1" and w: "w = mk_val b 1" using assms val_is_int_mk by blast
  show ?thesis unfolding v w
    by (auto simp: isl_val_gcd_def val_is_int_def val_eq_def val_is_nan_def val_is_one_def isl_int_gcd_def)
qed

subsection \<open>The extended Euclidean algorithm\<close>




subsection \<open>Properties\<close>

text \<open>
  C12: addition, subtraction, multiplication and division of values, of arbitrary
  normalized arguments including the infinities and NaN, return a normalized value
  that represents the result of the extended rational operation: infinity minus
  infinity, zero times infinity, infinity over infinity and a division by zero are NaN.
\<close>

theorem val_arithmetic_represents:
  assumes "val_ok v" and "val_ok w"
  shows "represents (isl_val_add (Inr v) (Inr w)) (erat_add (val_abs v) (val_abs w)) \<and>
    represents (isl_val_sub (Inr v) (Inr w)) (erat_add (val_abs v) (erat_neg (val_abs w))) \<and>
    represents (isl_val_mul (Inr v) (Inr w)) (erat_mul (val_abs v) (val_abs w)) \<and>
    represents (isl_val_div (Inr v) (Inr w)) (erat_mul (val_abs v) (erat_inv (val_abs w)))"
  using assms by (simp add: isl_val_add_represents isl_val_sub_represents isl_val_mul_represents
      isl_val_div_represents)

theorem val_arithmetic_represents_witness:
  "represents (isl_val_div (Inr (mk_val 3 4)) (Inr (mk_val (- 9) 2))) (Fin (- 1 / 6)) \<and>
   represents (isl_val_sub (Inr (mk_val 1 0)) (Inr (mk_val 1 0))) NaN"
  using val_arithmetic_represents [of "mk_val 3 4" "mk_val (- 9) 2"]
    val_arithmetic_represents [of "mk_val 1 0" "mk_val 1 0"]
  by (simp add: coprime_iff_gcd_eq_1 gcd_non_0_int)

text \<open>
  C27: on normalized values the comparisons are those of the extended rational
  numbers: equality of the fields is equality of the represented numbers, less-than is
  their order with the infinities at the ends, less-or-equal is the disjunction of the
  two, and every comparison with NaN is false.
\<close>

theorem val_comparison_represents:
  assumes "val_ok v" and "val_ok w"
  shows "isl_val_eq (Inr v) (Inr w) = Inr (val_abs v = val_abs w \<and> val_abs v \<noteq> NaN) \<and>
    isl_val_lt (Inr v) (Inr w) = Inr (erat_less (val_abs v) (val_abs w)) \<and>
    isl_val_le (Inr v) (Inr w) =
      Inr (erat_less (val_abs v) (val_abs w) \<or> val_abs v = val_abs w \<and> val_abs v \<noteq> NaN) \<and>
    isl_val_gt (Inr v) (Inr w) = isl_val_lt (Inr w) (Inr v) \<and>
    isl_val_ge (Inr v) (Inr w) = isl_val_le (Inr w) (Inr v)"
  using assms by (simp add: isl_val_eq_def isl_val_lt_def isl_val_le_def isl_val_gt_def isl_val_ge_def
      val_eq_iff val_lt_iff val_le_iff)

theorem val_comparison_represents_witness:
  "isl_val_lt (Inr (mk_val 2 3)) (Inr (mk_val 3 4)) = Inr True"
  using val_comparison_represents [of "mk_val 2 3" "mk_val 3 4"] by (simp add: coprime_iff_gcd_eq_1 gcd_non_0_int)

text \<open>
  C28: floor, ceiling and truncation return the value of the integer the represented
  rational number rounds to, and leave the infinities and NaN alone.
\<close>

theorem val_rounding_represents:
  assumes "val_ok v"
  shows "represents (isl_val_floor (Inr v)) (erat_round floor (val_abs v)) \<and>
    represents (isl_val_ceil (Inr v)) (erat_round ceiling (val_abs v)) \<and>
    represents (isl_val_trunc (Inr v))
      (erat_round (\<lambda>q. if 0 \<le> q then \<lfloor>q\<rfloor> else \<lceil>q\<rceil>) (val_abs v))"
  using isl_val_round_represents [OF assms] by (simp add: rat_trunc_def [abs_def])

theorem val_rounding_represents_witness:
  "represents (isl_val_floor (Inr (mk_val (- 7) 2))) (Fin (- 4))"
proof -
  have "\<lfloor>- 7 / 2 :: rat\<rfloor> = - 4" by (simp add: floor_eq_iff)
  then show ?thesis using val_rounding_represents [of "mk_val (- 7) 2"] by (simp add: coprime_iff_gcd_eq_1 gcd_non_0_int)
qed



text \<open>
  C40: Two to the power of an integer value, negative ones included, is computed exactly if and only
  if the exponent is below \<open>2 ^ 32\<close> in absolute value; an exponent from \<open>2 ^ 63\<close> on fails the assertion
  of the shift, and from \<open>2 ^ 64\<close> on it is the error "invalid", which a value that is not an
  integer is as well.  Between \<open>2 ^ 32\<close> and \<open>2 ^ 63\<close> the result is a value in normal form, but a wrong
  one.
\<close>

theorem val_pow2_exact_iff:
  assumes "val_ok v"
  shows "if \<exists>k. val_abs v = Fin (of_int k)
    then \<exists>k. val_abs v = Fin (of_int k) \<and>
      ((\<exists>r. isl_val_pow2 (Inr v) = Some r \<and> represents r (Fin (2 powi k))) \<longleftrightarrow> \<bar>k\<bar> < 2 ^ 32) \<and>
      ((\<exists>w. isl_val_pow2 (Inr v) = Some (Inr w) \<and> val_ok w) \<longleftrightarrow> \<bar>k\<bar> < 2 ^ 63) \<and>
      (isl_val_pow2 (Inr v) = None \<longleftrightarrow> 2 ^ 63 \<le> \<bar>k\<bar> \<and> \<bar>k\<bar> < 2 ^ 64) \<and>
      (isl_val_pow2 (Inr v) = Some (Inl isl_error_invalid) \<longleftrightarrow> 2 ^ 64 \<le> \<bar>k\<bar>)
    else isl_val_pow2 (Inr v) = Some (Inl isl_error_invalid)"
  using assms by (rule val_pow2_cases)

theorem val_pow2_exact_iff_witness:
  "(\<exists>r. isl_val_pow2 (Inr (mk_val (- 3) 1)) = Some r \<and> represents r (Fin (2 powi - 3))) \<and>
   (\<exists>k. k = (2 :: int) ^ 32 \<and>
     \<not> (\<exists>r. isl_val_pow2 (Inr (mk_val k 1)) = Some r \<and> represents r (Fin (2 powi k)))) \<and>
   isl_val_pow2 (Inr (mk_val (2 ^ 63) 1)) = None"
proof -
  have at: "((\<exists>r. isl_val_pow2 (Inr (mk_val k 1)) = Some r \<and> represents r (Fin (2 powi k))) \<longleftrightarrow> \<bar>k\<bar> < 2 ^ 32) \<and>
      (isl_val_pow2 (Inr (mk_val k 1)) = None \<longleftrightarrow> 2 ^ 63 \<le> \<bar>k\<bar> \<and> \<bar>k\<bar> < 2 ^ 64)" for k
  proof -
    have "\<exists>i. val_abs (mk_val k 1) = Fin (of_int i)" by auto
    then show ?thesis using val_pow2_exact_iff [of "mk_val k 1"] by auto
  qed
  have "(\<exists>k. k = (2 :: int) ^ 32 \<and>
     \<not> (\<exists>r. isl_val_pow2 (Inr (mk_val k 1)) = Some r \<and> represents r (Fin (2 powi k))))"
    using at [of "2 ^ 32"] less_irrefl [of "2 ^ 32 :: int"] by (auto simp only: power_abs abs_numeral)
  moreover have "\<exists>r. isl_val_pow2 (Inr (mk_val (- 3) 1)) = Some r \<and> represents r (Fin (2 powi - 3))"
    by (subst at [THEN conjunct1]) simp
  moreover have "isl_val_pow2 (Inr (mk_val (2 ^ 63) 1)) = None"
    by (subst at [THEN conjunct2]) simp
  ultimately show ?thesis by blast
qed

end
