(* ===== verification/Val_Expr.thy ===== *)
theory Val_Expr imports Val begin

text \<open>
  Expressions over values: the operations of theory Val composed in any way.  Values are kept in
  normal form (reduced, with a denominator above zero, or one of the three values without a
  rational), and this is what an expression has, whatever its operations, unless it is an error or
  C has no result for it.
\<close>

datatype val_unop = VDup | VNormalize | VNeg | VInv | VAbs | VFloor | VCeil | VTrunc | V2exp | VSetNan | VSetSi i64 |
  VAddUi ulong | VSubUi ulong | VMulUi ulong | VDivUi ulong | VDen

datatype val_binop = VAdd | VSub | VMul | VDiv | VMod | VGcd | VMin | VMax | VScale | VScaleDown

datatype val_expr = VNan | VInfty | VNeginfty | VSi i64 | VUi ulong | VInt isl_int | VRat isl_int isl_int
  | Unary val_unop val_expr | Binary val_binop val_expr val_expr

fun unary :: "val_unop \<Rightarrow> isl_val res \<Rightarrow> isl_val res option" where
  "unary VDup v = Some (isl_val_dup v)"
| "unary VNormalize v = Some (isl_val_normalize v)"
| "unary VNeg v = Some (isl_val_neg v)"
| "unary VInv v = Some (isl_val_inv v)"
| "unary VAbs v = Some (isl_val_abs v)"
| "unary VFloor v = Some (isl_val_floor v)"
| "unary VCeil v = Some (isl_val_ceil v)"
| "unary VTrunc v = Some (isl_val_trunc v)"
| "unary VSetNan v = Some (isl_val_set_nan v)"
| "unary VDen v = Some (isl_val_get_den_val v)"
| "unary (VSetSi i) v = Some (isl_val_set_si v i)"
| "unary (VAddUi u) v = Some (isl_val_add_ui v u)"
| "unary (VSubUi u) v = Some (isl_val_sub_ui v u)"
| "unary (VMulUi u) v = Some (isl_val_mul_ui v u)"
| "unary (VDivUi u) v = Some (isl_val_div_ui v u)"
| "unary V2exp v = isl_val_2exp v"

fun binary :: "val_binop \<Rightarrow> isl_val res \<Rightarrow> isl_val res \<Rightarrow> isl_val res" where
  "binary VAdd = isl_val_add"
| "binary VSub = isl_val_sub"
| "binary VMul = isl_val_mul"
| "binary VDiv = isl_val_div"
| "binary VMod = isl_val_mod"
| "binary VGcd = isl_val_gcd"
| "binary VMin = isl_val_min"
| "binary VMax = isl_val_max"
| "binary VScale = isl_val_scale_val"
| "binary VScaleDown = isl_val_scale_down_val"

fun val_eval :: "val_expr \<Rightarrow> isl_val res option" where
  "val_eval VNan = Some isl_val_nan"
| "val_eval VInfty = Some isl_val_infty"
| "val_eval VNeginfty = Some isl_val_neginfty"
| "val_eval (VSi i) = Some (isl_val_int_from_si i)"
| "val_eval (VUi u) = Some (isl_val_int_from_ui u)"
| "val_eval (VInt n) = Some (isl_val_int_from_isl_int n)"
| "val_eval (VRat n d) = Some (isl_val_normalize (isl_val_rat_from_isl_int n d))"
| "val_eval (Unary f x) = Option.bind (val_eval x) (unary f)"
| "val_eval (Binary f x y) = Option.bind (val_eval x) (\<lambda>v. map_option (binary f v) (val_eval y))"

text \<open>
  The expressions C has a result for.  A rational is given with a denominator other than zero, a
  remainder is not taken by zero, and a power of two has no exponent from \<open>2 ^ 63\<close> below \<open>2 ^ 64\<close>
  in absolute value, on which the assertion of the shift fails.
\<close>

fun val_defined :: "val_expr \<Rightarrow> bool" where
  "val_defined (VRat n d) = (d \<noteq> 0)"
| "val_defined (Unary f x) = (val_defined x \<and>
     (f = V2exp \<longrightarrow> (case val_eval x of Some (Inr v) \<Rightarrow>
        \<not> (val_is_int v \<and> 2 ^ 63 \<le> \<bar>val_n v\<bar> \<and> \<bar>val_n v\<bar> < 2 ^ 64) | _ \<Rightarrow> True)))"
| "val_defined (Binary f x y) = (val_defined x \<and> val_defined y \<and>
     (f = VMod \<longrightarrow> (case val_eval y of Some (Inr w) \<Rightarrow> \<not> val_is_zero w | _ \<Rightarrow> True)))"
| "val_defined x = True"

definition well_typed :: "isl_val res \<Rightarrow> bool" where
  "well_typed r \<longleftrightarrow> (case r of Inl e \<Rightarrow> e = isl_error_invalid | Inr v \<Rightarrow> val_ok v)"

lemma well_typed_simps [simp]: "well_typed (Inr v) \<longleftrightarrow> val_ok v" "well_typed (Inl e) \<longleftrightarrow> e = isl_error_invalid"
  by (simp_all add: well_typed_def)

lemma represents_typed: "represents r e \<Longrightarrow> well_typed r"
  by (auto simp: represents_def)

lemmas represented = isl_val_neg_represents isl_val_abs_represents isl_val_inv_represents isl_val_round_represents
  isl_val_add_ui_represents isl_val_mul_ui_represents isl_val_div_ui_represents isl_val_set_si_represents

lemmas typed = represented [THEN represents_typed]

lemma unary_fails: "unary f (Inl e) = Some (Inl e)"
  by (cases f) (simp_all add: isl_val_dup_def isl_val_normalize_def isl_val_neg_def isl_val_inv_def isl_val_abs_def
    isl_val_floor_def isl_val_ceil_def isl_val_trunc_def isl_val_2exp_def isl_val_pow2_def isl_val_set_nan_def isl_val_set_si_def
    isl_val_add_ui_def isl_val_sub_ui_def isl_val_mul_ui_def isl_val_div_ui_def isl_val_get_den_val_def)

lemma binary_fails: "binary f (Inl e) r = Inl e" "binary f (Inr v) (Inl e) = Inl e"
  by (cases f, simp_all add: isl_val_add_def isl_val_sub_def isl_val_mul_def isl_val_div_def isl_val_mod_def isl_val_gcd_def
    isl_val_min_def isl_val_max_def isl_val_scale_val_def isl_val_scale_down_val_def)+

lemma val_normalize_id: "val_ok v \<Longrightarrow> isl_val_normalize (Inr v) = Inr v"
  by (erule val_ok_cases) (auto simp: isl_val_normalize_def val_case_simps isl_int_gcd_def)

lemma unary_typed:
  assumes "val_ok v" and "f = V2exp \<Longrightarrow> \<not> (val_is_int v \<and> 2 ^ 63 \<le> \<bar>val_n v\<bar> \<and> \<bar>val_n v\<bar> < 2 ^ 64)"
  shows "\<exists>r. unary f (Inr v) = Some r \<and> well_typed r"
proof (cases f)
  case V2exp
  show ?thesis
  proof (cases "val_is_int v")
    case True
    then obtain k where k: "v = mk_val k 1" using val_is_int_mk by blast
    show ?thesis
    proof (cases "\<bar>k\<bar> < 2 ^ 63")
      case True
      then show ?thesis using isl_val_pow2_value [of k] V2exp k by (auto simp: isl_val_2exp_def)
    next
      case False
      then show ?thesis using assms(2) [OF V2exp] V2exp k by (simp add: isl_val_2exp_def isl_val_pow2_int val_is_int_def)
    qed
  next
    case False
    then show ?thesis using isl_val_mod_error(4) V2exp by (simp add: isl_val_2exp_def)
  qed
next
  case VDup
  then show ?thesis using assms by (simp add: isl_val_dup_def isl_val_alloc_def)
next
  case VNormalize
  then show ?thesis using assms val_normalize_id by simp
next
  case VDen
  then show ?thesis by (simp add: isl_val_get_den_val_def isl_val_int_from_isl_int_def isl_val_alloc_def isl_die_def mk_val_def [symmetric])
qed (use assms(1) typed in simp_all)

lemma binary_typed:
  assumes "val_ok v" and "val_ok w" and "f = VMod \<Longrightarrow> \<not> val_is_zero w"
  shows "well_typed (binary f (Inr v) (Inr w))"
proof (cases f)
  case VMod
  show ?thesis
  proof (cases "val_is_int v \<and> val_is_int w")
    case True
    then have "val_n w \<noteq> 0" using assms(3) [OF VMod] by (simp add: val_is_zero_def val_is_int_def)
    then show ?thesis using True isl_val_mod_int [of v w] VMod by simp
  next
    case False
    then show ?thesis using isl_val_mod_error(1) [of v w] VMod by auto
  qed
next
  case VGcd
  then show ?thesis using isl_val_mod_error(2) [of v w] isl_val_gcd_int [of v w] by (cases "val_is_int v \<and> val_is_int w") auto
next
  case VMin
  then show ?thesis using represents_typed isl_val_min_max_represents [OF assms(1,2)] by auto
next
  case VMax
  then show ?thesis using represents_typed isl_val_min_max_represents [OF assms(1,2)] by auto
qed (use represents_typed isl_val_add_represents [OF assms(1,2)] isl_val_sub_represents [OF assms(1,2)]
    isl_val_mul_represents [OF assms(1,2)] isl_val_div_represents [OF assms(1,2)] in
    \<open>auto simp: isl_val_scale_val_def isl_val_scale_down_val_def\<close>)

lemma val_eval_typed: "val_defined x \<Longrightarrow> \<exists>r. val_eval x = Some r \<and> well_typed r"
proof (induction x)
  case (VRat n d)
  obtain w where "isl_val_normalize (Inr (mk_val n d)) = Inr w" "val_ok w" using val_normalize_ok [of d n] VRat by auto
  then show ?case by (simp add: isl_val_rat_from_isl_int_def isl_val_alloc_def)
next
  case (Unary f x)
  then obtain r where "val_eval x = Some r" "well_typed r" by auto
  then show ?case using Unary.prems unary_typed [of _ f] unary_fails [of f] by (cases r) auto
next
  case (Binary f x y)
  then obtain r s where r: "val_eval x = Some r" "well_typed r" and s: "val_eval y = Some s" "well_typed s" by auto
  show ?case
  proof (cases r)
    case (Inr v)
    show ?thesis using Binary.prems r s Inr binary_typed [of v _ f] binary_fails(2) by (cases s) auto
  qed (use r s binary_fails(1) in simp)
qed (simp_all add: isl_val_nan_def isl_val_infty_def isl_val_neginfty_def isl_val_int_from_isl_int_def isl_val_alloc_def
  isl_val_int_from_si_def isl_val_int_from_ui_def)

text \<open>
  C26: Every expression composed of the operations on values in which no denominator given is zero,
  no remainder is taken by zero and no power of two has an integer exponent from \<open>2 ^ 63\<close> below
  \<open>2 ^ 64\<close> in absolute value (\<open>val_defined\<close>) has a result, which is a value in normal form, so that
  equal values have equal parts, or the error "invalid"; the operations keep the invariant on which
  each of them relies.
\<close>

theorem val_expressions_are_typed:
  assumes "val_defined x" and "val_defined y"
  shows "\<exists>r s. val_eval x = Some r \<and> val_eval y = Some s \<and> (case r of
      Inl e \<Rightarrow> e = isl_error_invalid
    | Inr v \<Rightarrow> val_ok v \<and> (\<forall>w. s = Inr w \<longrightarrow> (val_abs v = val_abs w \<longleftrightarrow> v = w)))"
proof -
  obtain r s where "val_eval x = Some r" "well_typed r" "val_eval y = Some s" "well_typed s"
    using assms val_eval_typed by blast
  then show ?thesis using val_abs_inj by (cases r; cases s) auto
qed

text \<open>\<open>1/6 + 2^-1\<close> and the quotient of \<open>14\<close> and \<open>21\<close>; and \<open>2^(1/2)\<close>, which is an error.\<close>

theorem val_expressions_are_typed_witness:
  "(\<exists>v. val_eval (Binary VAdd (VRat 1 6) (Unary V2exp (VInt (- 1)))) = Some (Inr v) \<and>
     val_ok v \<and> val_eval (Binary VDiv (VInt 14) (VInt 21)) = Some (Inr v)) \<and>
   val_eval (Unary V2exp (VRat 1 2)) = Some (Inl isl_error_invalid)"
proof -
  let ?x = "Binary VAdd (VRat 1 6) (Unary V2exp (VInt (- 1)))" and ?y = "Binary VDiv (VInt 14) (VInt 21)"
  have x: "val_eval ?x = Some (Inr (mk_val 2 3))" and y: "val_eval ?y = Some (Inr (mk_val 2 3))"
    and i: "val_eval (VInt (- 1)) = Some (Inr (mk_val (- 1) 1))"
    and e: "val_eval (Unary V2exp (VRat 1 2)) = Some (Inl isl_error_invalid)"
    unfolding mk_val_def by code_simp+
  have "val_defined ?x" "val_defined ?y" by (simp_all add: i del: val_eval.simps)
  from val_expressions_are_typed [OF this] show ?thesis unfolding x y e by simp
qed

end
