(* ===== verification/Seq.thy ===== *)
theory Seq imports Hashing Complex_Main begin

text \<open>
  Sequences of integers (isl_seq.c): the vector kernels every matrix, constraint
  and tableau routine is built from.  A sequence is the list of the elements that
  follow a pointer; an operation gets the pointers it reads and the one it writes
  and returns the new contents of the latter.  Every loop of the C code is the
  same loop here; a pointer into the middle of a sequence is \<open>drop\<close>, or \<open>at_off\<close>
  where it is written through.  A function that returns \<open>-1\<close> for "no such
  position" returns \<^const>\<open>None\<close>.
\<close>

named_theorems seq_simps \<open>what the sequence operations compute\<close>

type_synonym isl_seq = "isl_int list"

subsection \<open>Element-wise operations\<close>

definition isl_seq_clr :: "isl_seq \<Rightarrow> nat \<Rightarrow> isl_seq" where
  "isl_seq_clr p len = for_range 0 len (\<lambda>i p. p[i := 0]) p"

definition isl_seq_set_si :: "isl_seq \<Rightarrow> int \<Rightarrow> nat \<Rightarrow> isl_seq" where
  "isl_seq_set_si p v len = for_range 0 len (\<lambda>i p. p[i := v]) p"

definition isl_seq_set :: "isl_seq \<Rightarrow> isl_int \<Rightarrow> nat \<Rightarrow> isl_seq" where
  "isl_seq_set p v len = for_range 0 len (\<lambda>i p. p[i := v]) p"

definition isl_seq_neg :: "isl_seq \<Rightarrow> isl_seq \<Rightarrow> nat \<Rightarrow> isl_seq" where
  "isl_seq_neg dst src len = for_range 0 len (\<lambda>i dst. dst[i := - (src ! i)]) dst"

definition isl_seq_cpy :: "isl_seq \<Rightarrow> isl_seq \<Rightarrow> nat \<Rightarrow> isl_seq" where
  "isl_seq_cpy dst src len = for_range 0 len (\<lambda>i dst. dst[i := src ! i]) dst"

definition isl_seq_sub :: "isl_seq \<Rightarrow> isl_seq \<Rightarrow> nat \<Rightarrow> isl_seq" where
  "isl_seq_sub dst src len = for_range 0 len (\<lambda>i dst. dst[i := dst ! i - src ! i]) dst"

definition isl_seq_submul :: "isl_seq \<Rightarrow> isl_int \<Rightarrow> isl_seq \<Rightarrow> nat \<Rightarrow> isl_seq" where
  "isl_seq_submul dst f src len = for_range 0 len (\<lambda>i dst. dst[i := dst ! i - f * src ! i]) dst"

definition isl_seq_addmul :: "isl_seq \<Rightarrow> isl_int \<Rightarrow> isl_seq \<Rightarrow> nat \<Rightarrow> isl_seq" where
  "isl_seq_addmul dst f src len = for_range 0 len (\<lambda>i dst. dst[i := dst ! i + f * src ! i]) dst"

text \<open>\<open>isl_int_swap_or_set\<close> is a swap in the small integer representation.\<close>

definition isl_seq_swp_or_cpy :: "isl_seq \<Rightarrow> isl_seq \<Rightarrow> nat \<Rightarrow> isl_seq \<times> isl_seq" where
  "isl_seq_swp_or_cpy dst src len =
     for_range 0 len (\<lambda>i (dst, src). (dst[i := src ! i], src[i := dst ! i])) (dst, src)"

definition isl_seq_scale :: "isl_seq \<Rightarrow> isl_seq \<Rightarrow> isl_int \<Rightarrow> nat \<Rightarrow> isl_seq" where
  "isl_seq_scale dst src m len = for_range 0 len (\<lambda>i dst. dst[i := src ! i * m]) dst"

definition isl_seq_scale_down :: "isl_seq \<Rightarrow> isl_seq \<Rightarrow> isl_int \<Rightarrow> nat \<Rightarrow> isl_seq" where
  "isl_seq_scale_down dst src m len = for_range 0 len (\<lambda>i dst. dst[i := isl_int_divexact (src ! i) m]) dst"

definition isl_seq_cdiv_q :: "isl_seq \<Rightarrow> isl_seq \<Rightarrow> isl_int \<Rightarrow> nat \<Rightarrow> isl_seq" where
  "isl_seq_cdiv_q dst src m len = for_range 0 len (\<lambda>i dst. dst[i := isl_int_cdiv_q (src ! i) m]) dst"

definition isl_seq_fdiv_q :: "isl_seq \<Rightarrow> isl_seq \<Rightarrow> isl_int \<Rightarrow> nat \<Rightarrow> isl_seq" where
  "isl_seq_fdiv_q dst src m len = for_range 0 len (\<lambda>i dst. dst[i := isl_int_fdiv_q (src ! i) m]) dst"

definition isl_seq_fdiv_r :: "isl_seq \<Rightarrow> isl_seq \<Rightarrow> isl_int \<Rightarrow> nat \<Rightarrow> isl_seq" where
  "isl_seq_fdiv_r dst src m len = for_range 0 len (\<lambda>i dst. dst[i := isl_int_fdiv_r (src ! i) m]) dst"

text \<open>
  The copy inside one buffer, from position \<open>s\<close> to position \<open>d\<close>: source and
  destination may overlap.
\<close>

definition isl_seq_cpy_within :: "isl_seq \<Rightarrow> nat \<Rightarrow> nat \<Rightarrow> nat \<Rightarrow> isl_seq" where
  "isl_seq_cpy_within buf d s len = for_range 0 len (\<lambda>i buf. buf[d + i := buf ! (s + i)]) buf"

text \<open>
  \<open>isl_seq_combine\<close> compares the pointers \<open>dst\<close> and \<open>src1\<close>: the first definition is
  the call with distinct pointers, the second the call with \<open>dst == src1\<close>.
\<close>

definition isl_seq_combine ::
  "isl_seq \<Rightarrow> isl_int \<Rightarrow> isl_seq \<Rightarrow> isl_int \<Rightarrow> isl_seq \<Rightarrow> nat \<Rightarrow> isl_seq" where
  "isl_seq_combine dst m1 src1 m2 src2 len =
     for_range 0 len (\<lambda>i dst. let tmp = m1 * src1 ! i; tmp = tmp + m2 * src2 ! i in dst[i := tmp]) dst"

definition isl_seq_combine_inplace ::
  "isl_seq \<Rightarrow> isl_int \<Rightarrow> isl_int \<Rightarrow> isl_seq \<Rightarrow> nat \<Rightarrow> isl_seq" where
  "isl_seq_combine_inplace src1 m1 m2 src2 len =
     (if m1 = 1
      then if m2 = 0 then src1
           else for_range 0 len (\<lambda>i src1. src1[i := src1 ! i + m2 * src2 ! i]) src1
      else for_range 0 len (\<lambda>i src1. let tmp = m1 * src1 ! i; tmp = tmp + m2 * src2 ! i in src1[i := tmp]) src1)"

subsection \<open>Searches and comparisons\<close>

definition isl_seq_eq :: "isl_seq \<Rightarrow> isl_seq \<Rightarrow> nat \<Rightarrow> bool" where
  "isl_seq_eq p1 p2 len = (List.find (\<lambda>i. p1 ! i \<noteq> p2 ! i) [0..<len] = None)"

definition isl_seq_cmp :: "isl_seq \<Rightarrow> isl_seq \<Rightarrow> nat \<Rightarrow> int" where
  "isl_seq_cmp p1 p2 len =
     (case List.find (\<lambda>i. isl_int_cmp (p1 ! i) (p2 ! i) \<noteq> 0) [0..<len] of
        None \<Rightarrow> 0
      | Some i \<Rightarrow> isl_int_cmp (p1 ! i) (p2 ! i))"

definition isl_seq_is_neg :: "isl_seq \<Rightarrow> isl_seq \<Rightarrow> nat \<Rightarrow> bool" where
  "isl_seq_is_neg p1 p2 len =
     (List.find (\<lambda>i. \<bar>p1 ! i\<bar> \<noteq> \<bar>p2 ! i\<bar> \<or> (p1 ! i \<noteq> 0 \<and> p1 ! i = p2 ! i)) [0..<len] = None)"

definition isl_seq_first_non_zero :: "isl_seq \<Rightarrow> nat \<Rightarrow> nat option" where
  "isl_seq_first_non_zero p len = List.find (\<lambda>i. p ! i \<noteq> 0) [0..<len]"

definition isl_seq_last_non_zero :: "isl_seq \<Rightarrow> nat \<Rightarrow> nat option" where
  "isl_seq_last_non_zero p len = List.find (\<lambda>i. p ! i \<noteq> 0) (rev [0..<len])"

definition isl_seq_any_non_zero :: "isl_seq \<Rightarrow> nat \<Rightarrow> bool" where
  "isl_seq_any_non_zero p len = (isl_seq_first_non_zero p len \<noteq> None)"

definition isl_seq_abs_max :: "isl_seq \<Rightarrow> nat \<Rightarrow> isl_int" where
  "isl_seq_abs_max p len = for_range 0 len (\<lambda>i mx. if \<bar>mx\<bar> < \<bar>p ! i\<bar> then \<bar>p ! i\<bar> else mx) 0"

definition isl_seq_abs_min_non_zero :: "isl_seq \<Rightarrow> nat \<Rightarrow> nat option" where
  "isl_seq_abs_min_non_zero p len =
     (case isl_seq_first_non_zero p len of
        None \<Rightarrow> None
      | Some m \<Rightarrow>
          Some (for_range (m + 1) len
            (\<lambda>i m. if p ! i = 0 then m else if \<bar>p ! i\<bar> < \<bar>p ! m\<bar> then i else m) m))"

subsection \<open>Reductions\<close>

function seq_gcd_loop :: "isl_seq \<Rightarrow> nat \<Rightarrow> nat \<Rightarrow> nat \<Rightarrow> isl_int \<Rightarrow> isl_int" where
  "seq_gcd_loop p len m i g =
     (if 1 < g \<and> i < len
      then seq_gcd_loop p len m (i + 1)
             (if i = m then g else if p ! i = 0 then g else isl_int_gcd g (p ! i))
      else g)"
  by pat_completeness auto
termination by (relation "measure (\<lambda>(p, len, m, i, g). len - i)") auto

declare seq_gcd_loop.simps [simp del]

definition isl_seq_gcd :: "isl_seq \<Rightarrow> nat \<Rightarrow> isl_int" where
  "isl_seq_gcd p len =
     (case isl_seq_abs_min_non_zero p len of
        None \<Rightarrow> 0
      | Some m \<Rightarrow> seq_gcd_loop p len m 0 \<bar>p ! m\<bar>)"

definition isl_seq_normalize :: "isl_seq \<Rightarrow> nat \<Rightarrow> isl_seq" where
  "isl_seq_normalize p len =
     (if len = 0 then p
      else let normalize_gcd = isl_seq_gcd p len
           in if normalize_gcd \<noteq> 0 \<and> normalize_gcd \<noteq> 1
              then isl_seq_scale_down p p normalize_gcd len else p)"

definition isl_seq_lcm :: "isl_seq \<Rightarrow> nat \<Rightarrow> isl_int" where
  "isl_seq_lcm p len =
     (if len = 0 then 1
      else for_range 1 len (\<lambda>i lcm. isl_int_lcm lcm (p ! i)) (p ! 0))"

definition isl_seq_inner_product :: "isl_seq \<Rightarrow> isl_seq \<Rightarrow> nat \<Rightarrow> isl_int" where
  "isl_seq_inner_product p1 p2 len =
     (if len = 0 then 0
      else for_range 1 len (\<lambda>i prod. prod + p1 ! i * p2 ! i) (p1 ! 0 * p2 ! 0))"

text \<open>The same loop on the representation of the integers.\<close>

definition sio_seq_inner_product :: "isl_sioimath list \<Rightarrow> isl_sioimath list \<Rightarrow> nat \<Rightarrow> isl_sioimath" where
  "sio_seq_inner_product p1 p2 len =
     (if len = 0 then isl_sioimath_set_si 0
      else for_range 1 len (\<lambda>i prod. isl_sioimath_addmul prod (p1 ! i) (p2 ! i))
             (isl_sioimath_mul (p1 ! 0) (p2 ! 0)))"

subsection \<open>Elimination and substitution\<close>

text \<open>\<open>m\<close> is the optional factor the caller wants multiplied along.\<close>

definition isl_seq_elim ::
  "isl_seq \<Rightarrow> isl_seq \<Rightarrow> nat \<Rightarrow> nat \<Rightarrow> isl_int option \<Rightarrow> isl_seq \<times> isl_int option" where
  "isl_seq_elim dst src pos len m =
     (if dst ! pos = 0 then (dst, m)
      else let a = isl_int_gcd (src ! pos) (dst ! pos);
               b = isl_int_divexact (dst ! pos) a;
               b = (if 0 < src ! pos then - b else b);
               a = isl_int_divexact (src ! pos) a;
               a = \<bar>a\<bar>;
               dst = isl_seq_combine_inplace dst a b src len
           in (dst, map_option (\<lambda>m. m * a) m))"

definition isl_seq_substitute :: "isl_seq \<Rightarrow> nat \<Rightarrow> isl_seq \<Rightarrow> nat \<Rightarrow> nat \<Rightarrow> isl_seq" where
  "isl_seq_substitute p pos subs p_len subs_len =
     (let v = p ! (1 + pos);
          p = p[1 + pos := 0];
          p = at_off 1 (\<lambda>q. isl_seq_combine_inplace q (subs ! 0) v (drop 1 subs) (subs_len - 1)) p;
          p = at_off subs_len (\<lambda>q. isl_seq_scale q q (subs ! 0) (p_len - subs_len)) p
      in p[0 := p ! 0 * subs ! 0])"

subsection \<open>What the operations compute\<close>

lemmas seq_write_defs = isl_seq_clr_def isl_seq_set_si_def isl_seq_set_def isl_seq_neg_def
  isl_seq_cpy_def isl_seq_scale_def isl_seq_scale_down_def isl_seq_cdiv_q_def isl_seq_fdiv_q_def
  isl_seq_fdiv_r_def isl_seq_combine_def

lemma seq_write_closed:
  "len \<le> length p \<Longrightarrow> isl_seq_clr p len = replicate len 0 @ drop len p"
  "len \<le> length p \<Longrightarrow> isl_seq_set_si p v len = replicate len v @ drop len p"
  "len \<le> length p \<Longrightarrow> isl_seq_set p v len = replicate len v @ drop len p"
  "len \<le> length p \<Longrightarrow> isl_seq_neg p s len = map (\<lambda>i. - (s ! i)) [0..<len] @ drop len p"
  "len \<le> length p \<Longrightarrow> isl_seq_cpy p s len = map (\<lambda>i. s ! i) [0..<len] @ drop len p"
  "len \<le> length p \<Longrightarrow> isl_seq_scale p s m len = map (\<lambda>i. s ! i * m) [0..<len] @ drop len p"
  "len \<le> length p \<Longrightarrow>
     isl_seq_scale_down p s m len = map (\<lambda>i. isl_int_divexact (s ! i) m) [0..<len] @ drop len p"
  "len \<le> length p \<Longrightarrow>
     isl_seq_cdiv_q p s m len = map (\<lambda>i. isl_int_cdiv_q (s ! i) m) [0..<len] @ drop len p"
  "len \<le> length p \<Longrightarrow>
     isl_seq_fdiv_q p s m len = map (\<lambda>i. isl_int_fdiv_q (s ! i) m) [0..<len] @ drop len p"
  "len \<le> length p \<Longrightarrow>
     isl_seq_fdiv_r p s m len = map (\<lambda>i. isl_int_fdiv_r (s ! i) m) [0..<len] @ drop len p"
  "len \<le> length p \<Longrightarrow>
     isl_seq_combine p m1 s1 m2 s2 len = map (\<lambda>i. m1 * s1 ! i + m2 * s2 ! i) [0..<len] @ drop len p"
  by (simp_all add: seq_write_defs for_range_write Let_def map_replicate_const)

lemma seq_length [simp]:
  "length (isl_seq_clr p len) = length p"
  "length (isl_seq_set_si p v len) = length p"
  "length (isl_seq_set p v len) = length p"
  "length (isl_seq_neg p s len) = length p"
  "length (isl_seq_cpy p s len) = length p"
  "length (isl_seq_sub p s len) = length p"
  "length (isl_seq_addmul p f s len) = length p"
  "length (isl_seq_submul p f s len) = length p"
  "length (isl_seq_scale p s m len) = length p"
  "length (isl_seq_scale_down p s m len) = length p"
  "length (isl_seq_cdiv_q p s m len) = length p"
  "length (isl_seq_fdiv_q p s m len) = length p"
  "length (isl_seq_fdiv_r p s m len) = length p"
  "length (isl_seq_combine p m1 s1 m2 s2 len) = length p"
  "length (isl_seq_combine_inplace p m1 m2 s2 len) = length p"
  by (simp_all add: seq_write_defs isl_seq_sub_def isl_seq_addmul_def isl_seq_submul_def
      isl_seq_combine_inplace_def Let_def)

lemma seq_write_nth [seq_simps]:
  assumes "len \<le> length p" and "k < length p"
  shows
    "isl_seq_clr p len ! k = (if k < len then 0 else p ! k)"
    "isl_seq_set_si p v len ! k = (if k < len then v else p ! k)"
    "isl_seq_set p v len ! k = (if k < len then v else p ! k)"
    "isl_seq_neg p s len ! k = (if k < len then - (s ! k) else p ! k)"
    "isl_seq_cpy p s len ! k = (if k < len then s ! k else p ! k)"
    "isl_seq_scale p s m len ! k = (if k < len then s ! k * m else p ! k)"
    "isl_seq_scale_down p s m len ! k = (if k < len then isl_int_divexact (s ! k) m else p ! k)"
    "isl_seq_cdiv_q p s m len ! k = (if k < len then isl_int_cdiv_q (s ! k) m else p ! k)"
    "isl_seq_fdiv_q p s m len ! k = (if k < len then isl_int_fdiv_q (s ! k) m else p ! k)"
    "isl_seq_fdiv_r p s m len ! k = (if k < len then isl_int_fdiv_r (s ! k) m else p ! k)"
    "isl_seq_combine p m1 s1 m2 s2 len ! k = (if k < len then m1 * s1 ! k + m2 * s2 ! k else p ! k)"
  using assms by (auto simp: seq_write_defs nth_for_range_write Let_def)

lemma seq_update_nth [seq_simps]:
  assumes "len \<le> length p" and "k < length p"
  shows
    "isl_seq_sub p s len ! k = (if k < len then p ! k - s ! k else p ! k)"
    "isl_seq_addmul p f s len ! k = (if k < len then p ! k + f * s ! k else p ! k)"
    "isl_seq_submul p f s len ! k = (if k < len then p ! k - f * s ! k else p ! k)"
  using assms nth_for_range_update [of len p k 0 "\<lambda>i x. x - s ! i"]
    nth_for_range_update [of len p k 0 "\<lambda>i x. x + f * s ! i"]
    nth_for_range_update [of len p k 0 "\<lambda>i x. x - f * s ! i"]
  by (auto simp: isl_seq_sub_def isl_seq_addmul_def isl_seq_submul_def)

text \<open>
  The in-place combination, which skips the multiplication when the factor is one
  and the whole loop when there is nothing to add, agrees with the general one.
\<close>

lemma isl_seq_combine_inplace_nth [seq_simps]:
  assumes "len \<le> length p" and "k < length p"
  shows "isl_seq_combine_inplace p m1 m2 s2 len ! k =
    (if k < len then m1 * p ! k + m2 * s2 ! k else p ! k)"
  using assms nth_for_range_update [of len p k 0 "\<lambda>i x. x + m2 * s2 ! i"]
    nth_for_range_update [of len p k 0 "\<lambda>i x. m1 * x + m2 * s2 ! i"]
  by (auto simp: isl_seq_combine_inplace_def Let_def)

lemma isl_seq_combine_inplace_eq:
  "len \<le> length p \<Longrightarrow> isl_seq_combine_inplace p m1 m2 s2 len = isl_seq_combine p m1 p m2 s2 len"
  by (rule nth_equalityI) (auto simp: seq_simps)

lemma isl_seq_swp_or_cpy_closed:
  assumes "len \<le> length dst" and "len \<le> length src"
  shows "isl_seq_swp_or_cpy dst src len =
    (take len src @ drop len dst, take len dst @ drop len src)"
proof -
  have "n \<le> len \<Longrightarrow> for_range 0 n (\<lambda>i (dst, src). (dst[i := src ! i], src[i := dst ! i])) (dst, src) =
    (take n src @ drop n dst, take n dst @ drop n src)" for n
  proof (induction n)
    case (Suc n)
    then show ?case using assms
      by (simp add: for_range_Suc nth_append list_update_append take_Suc_conv_app_nth)
         (simp add: Cons_nth_drop_Suc [symmetric])
  qed simp
  then show ?thesis by (simp add: isl_seq_swp_or_cpy_def)
qed

text \<open>
  A copy inside one buffer: when the destination does not start behind the source the
  loop, which runs upwards, never reads an element it has overwritten.
\<close>

lemma isl_seq_cpy_within_nth:
  assumes "d \<le> s" and "s + len \<le> length buf" and "k < length buf"
  shows "isl_seq_cpy_within buf d s len ! k = (if d \<le> k \<and> k < d + len then buf ! (k - d + s) else buf ! k)"
proof -
  have "n \<le> len \<Longrightarrow> length (for_range 0 n (\<lambda>i buf. buf[d + i := buf ! (s + i)]) buf) = length buf \<and>
    (\<forall>k < length buf. for_range 0 n (\<lambda>i buf. buf[d + i := buf ! (s + i)]) buf ! k =
      (if d \<le> k \<and> k < d + n then buf ! (k - d + s) else buf ! k))" for n
  proof (induction n)
    case (Suc n)
    then show ?case using assms by (auto simp: for_range_Suc nth_list_update add.commute)
  qed simp
  from this [of len] show ?thesis using assms(3) by (simp add: isl_seq_cpy_within_def)
qed

lemma length_isl_seq_cpy_within [simp]: "length (isl_seq_cpy_within buf d s len) = length buf"
proof -
  have "length (for_range 0 n (\<lambda>i buf. buf[d + i := buf ! (s + i)]) buf) = length buf" for n
    by (induction n) (simp_all add: for_range_Suc)
  then show ?thesis by (simp add: isl_seq_cpy_within_def)
qed

lemma isl_seq_cpy_within_memmove:
  assumes "d \<le> s" and "s + len \<le> length buf"
  shows "isl_seq_cpy_within buf d s len = take d buf @ take len (drop s buf) @ drop (d + len) buf"
proof (rule nth_equalityI)
  fix k assume "k < length (isl_seq_cpy_within buf d s len)"
  with assms show "isl_seq_cpy_within buf d s len ! k = (take d buf @ take len (drop s buf) @ drop (d + len) buf) ! k"
    by (auto simp: isl_seq_cpy_within_nth nth_append add.commute)
qed (use assms in auto)

subsection \<open>What the searches find\<close>

lemma isl_seq_eq_iff [seq_simps]: "isl_seq_eq p q len \<longleftrightarrow> (\<forall>i<len. p ! i = q ! i)"
  by (auto simp: isl_seq_eq_def find_upt_None_iff)

lemma isl_seq_eq_take:
  "len \<le> length p \<Longrightarrow> len \<le> length q \<Longrightarrow> isl_seq_eq p q len \<longleftrightarrow> take len p = take len q"
  by (auto simp: isl_seq_eq_iff list_eq_iff_nth_eq)

lemma isl_seq_is_neg_iff [seq_simps]: "isl_seq_is_neg p q len \<longleftrightarrow> (\<forall>i<len. q ! i = - (p ! i))"
proof -
  have "(\<not> (\<bar>a\<bar> \<noteq> \<bar>b\<bar> \<or> (a \<noteq> 0 \<and> a = b))) = (b = - a)" for a b :: int by auto
  then show ?thesis by (auto simp: isl_seq_is_neg_def find_upt_None_iff)
qed

lemma isl_seq_first_non_zero_None [seq_simps]:
  "isl_seq_first_non_zero p len = None \<longleftrightarrow> (\<forall>i<len. p ! i = 0)"
  by (auto simp: isl_seq_first_non_zero_def find_upt_None_iff)

lemma isl_seq_first_non_zero_Some [seq_simps]:
  "isl_seq_first_non_zero p len = Some i \<longleftrightarrow> i < len \<and> p ! i \<noteq> 0 \<and> (\<forall>j<i. p ! j = 0)"
  by (auto simp: isl_seq_first_non_zero_def find_upt_Some_iff)

lemma isl_seq_any_non_zero_iff [seq_simps]:
  "isl_seq_any_non_zero p len \<longleftrightarrow> (\<exists>i<len. p ! i \<noteq> 0)"
  by (auto simp: isl_seq_any_non_zero_def seq_simps)

lemma isl_seq_last_non_zero_None [seq_simps]:
  "isl_seq_last_non_zero p len = None \<longleftrightarrow> (\<forall>i<len. p ! i = 0)"
  by (auto simp: isl_seq_last_non_zero_def find_None_iff)

lemma isl_seq_last_non_zero_Some [seq_simps]:
  "isl_seq_last_non_zero p len = Some i \<longleftrightarrow>
     i < len \<and> p ! i \<noteq> 0 \<and> (\<forall>j. i < j \<and> j < len \<longrightarrow> p ! j = 0)"
proof (induction len)
  case (Suc len)
  then show ?case
    by (auto simp: isl_seq_last_non_zero_def less_Suc_eq)
qed (simp add: isl_seq_last_non_zero_def)

text \<open>The comparison is the lexicographic order on sequences of one length.\<close>

lemma isl_seq_cmp_cases:
  obtains (eq) "\<forall>i<len. p ! i = q ! i" and "isl_seq_cmp p q len = 0"
  | (diff) i where "i < len" and "p ! i \<noteq> q ! i" and "\<forall>j<i. p ! j = q ! j"
      and "isl_seq_cmp p q len = isl_int_cmp (p ! i) (q ! i)"
proof (cases "List.find (\<lambda>i. isl_int_cmp (p ! i) (q ! i) \<noteq> 0) [0..<len]")
  case None
  then have "isl_seq_cmp p q len = 0" by (simp only: isl_seq_cmp_def option.simps)
  moreover have "\<forall>i<len. p ! i = q ! i" using None by (auto simp: find_upt_None_iff)
  ultimately show ?thesis by (intro eq)
next
  case (Some i)
  then have "isl_seq_cmp p q len = isl_int_cmp (p ! i) (q ! i)"
    by (simp only: isl_seq_cmp_def option.simps)
  with Some show ?thesis by (intro diff [of i]) (auto simp: find_upt_Some_iff)
qed

lemma isl_seq_cmp_zero_iff: "isl_seq_cmp p q len = 0 \<longleftrightarrow> (\<forall>i<len. p ! i = q ! i)"
  by (cases rule: isl_seq_cmp_cases [where len = len and p = p and q = q]) auto

lemma isl_seq_cmp_neg_iff:
  "isl_seq_cmp p q len < 0 \<longleftrightarrow> (\<exists>i<len. p ! i < q ! i \<and> (\<forall>j<i. p ! j = q ! j))"
proof (cases rule: isl_seq_cmp_cases [where len = len and p = p and q = q])
  case eq
  then show ?thesis by auto
next
  case (diff i)
  then show ?thesis by simp (metis linorder_neqE_nat order_less_irrefl)
qed

lemma isl_seq_cmp_antisym: "isl_seq_cmp q p len = - isl_seq_cmp p q len"
proof -
  have swap: "isl_int_cmp a b = - isl_int_cmp b a" for a b by (simp add: isl_int_cmp_def sgn_if)
  have "(\<lambda>i. isl_int_cmp (q ! i) (p ! i) \<noteq> 0) = (\<lambda>i. isl_int_cmp (p ! i) (q ! i) \<noteq> 0)" by auto
  then show ?thesis by (simp only: isl_seq_cmp_def swap [of "q ! _"]) (auto split: option.splits)
qed

lemma isl_seq_cmp_range: "isl_seq_cmp p q len \<in> {-1, 0, 1}"
  by (auto simp: isl_seq_cmp_def isl_int_cmp_def sgn_if split: option.splits)

lemma lexord_nth:
  assumes "length xs = length ys"
  shows "(xs, ys) \<in> lexord {(a, b). a < (b :: int)} \<longleftrightarrow>
    (\<exists>i < length xs. xs ! i < ys ! i \<and> (\<forall>j<i. xs ! j = ys ! j))"
  using assms
proof (induction xs ys rule: list_induct2)
  case (Cons x xs y ys)
  have "(\<exists>i < length (x # xs). (x # xs) ! i < (y # ys) ! i \<and> (\<forall>j<i. (x # xs) ! j = (y # ys) ! j)) \<longleftrightarrow>
    x < y \<or> (x = y \<and> (\<exists>i < length xs. xs ! i < ys ! i \<and> (\<forall>j<i. xs ! j = ys ! j)))"
    by (simp add: Ex_less_Suc2 All_less_Suc2) auto
  with Cons show ?case by auto
qed simp

lemma isl_seq_cmp_lexord:
  assumes "length p = len" and "length q = len"
  shows "isl_seq_cmp p q len < 0 \<longleftrightarrow> (p, q) \<in> lexord {(a, b). a < b}"
  using assms by (simp add: isl_seq_cmp_neg_iff lexord_nth)

lemma isl_seq_abs_max_eq:
  "isl_seq_abs_max p len = Max (insert 0 ((\<lambda>i. \<bar>p ! i\<bar>) ` {..<len}))"
proof (induction len)
  case (Suc len)
  have "insert 0 ((\<lambda>i. \<bar>p ! i\<bar>) ` {..<Suc len}) = insert \<bar>p ! len\<bar> (insert 0 ((\<lambda>i. \<bar>p ! i\<bar>) ` {..<len}))"
    by (auto simp: lessThan_Suc)
  then have "Max (insert 0 ((\<lambda>i. \<bar>p ! i\<bar>) ` {..<Suc len})) = max \<bar>p ! len\<bar> (isl_seq_abs_max p len)"
    using Suc by simp
  moreover have "0 \<le> isl_seq_abs_max p len" using Suc by simp
  ultimately show ?case by (auto simp: isl_seq_abs_max_def for_range_Suc max_def)
qed (simp add: isl_seq_abs_max_def)

lemma isl_seq_abs_min_non_zero_None [seq_simps]:
  "isl_seq_abs_min_non_zero p len = None \<longleftrightarrow> (\<forall>i<len. p ! i = 0)"
  by (auto simp: isl_seq_abs_min_non_zero_def seq_simps split: option.splits)

lemma isl_seq_abs_min_non_zero_Some:
  assumes "isl_seq_abs_min_non_zero p len = Some m"
  shows "m < len" and "p ! m \<noteq> 0" and "\<And>i. i < len \<Longrightarrow> p ! i \<noteq> 0 \<Longrightarrow> \<bar>p ! m\<bar> \<le> \<bar>p ! i\<bar>"
proof -
  let ?f = "\<lambda>i m. if p ! i = 0 then m else if \<bar>p ! i\<bar> < \<bar>p ! m\<bar> then i else m"
  obtain f where f: "isl_seq_first_non_zero p len = Some f" and m: "m = for_range (f + 1) len ?f f"
    using assms by (auto simp: isl_seq_abs_min_non_zero_def split: option.splits)
  from f have f': "f < len" "p ! f \<noteq> 0" "\<forall>j<f. p ! j = 0" by (auto simp: seq_simps)
  have "m < len \<and> p ! m \<noteq> 0 \<and> (\<forall>i<len. p ! i \<noteq> 0 \<longrightarrow> \<bar>p ! m\<bar> \<le> \<bar>p ! i\<bar>)"
    unfolding m
  proof (rule for_range_induct
      [where P = "\<lambda>n m. m < len \<and> p ! m \<noteq> 0 \<and> (\<forall>i<n. p ! i \<noteq> 0 \<longrightarrow> \<bar>p ! m\<bar> \<le> \<bar>p ! i\<bar>)"], goal_cases)
    case 2
    then show ?case using f' by (auto simp: less_Suc_eq)
  next
    case (3 i t)
    then show ?case by (auto simp: less_Suc_eq)
  qed (use f' in simp)
  then show "m < len" and "p ! m \<noteq> 0" and "\<And>i. i < len \<Longrightarrow> p ! i \<noteq> 0 \<Longrightarrow> \<bar>p ! m\<bar> \<le> \<bar>p ! i\<bar>"
    by auto
qed

subsection \<open>Hash codes\<close>

definition isl_seq_hash :: "isl_seq \<Rightarrow> nat \<Rightarrow> u32 \<Rightarrow> u32" where
  "isl_seq_hash p len hash =
     for_range 0 len (\<lambda>i hash.
       if p ! i = 0 then hash
       else let hash = hash * 16777619;
                hash = hash XOR (of_nat i AND 0xFF)
            in isl_int_hash (p ! i) hash) hash"

definition isl_seq_get_hash :: "isl_seq \<Rightarrow> nat \<Rightarrow> u32" where
  "isl_seq_get_hash p len = isl_seq_hash p len isl_hash_init"

definition isl_seq_get_hash_bits :: "isl_seq \<Rightarrow> nat \<Rightarrow> nat \<Rightarrow> u32" where
  "isl_seq_get_hash_bits p len bits = (let hash = isl_seq_get_hash p len in isl_hash_bits hash bits)"

lemma isl_seq_hash_cong:
  assumes "\<And>i. i < len \<Longrightarrow> p ! i = q ! i"
  shows "isl_seq_hash p len h = isl_seq_hash q len h"
  unfolding isl_seq_hash_def by (rule for_range_cong) (simp add: assms)

text \<open>Trailing zeroes do not change the hash code.\<close>

lemma isl_seq_hash_zeros:
  assumes "len \<le> len'" and "\<And>i. len \<le> i \<Longrightarrow> i < len' \<Longrightarrow> p ! i = 0"
  shows "isl_seq_hash p len' h = isl_seq_hash p len h"
proof -
  have "for_range len n (\<lambda>i hash. if p ! i = 0 then hash else f i hash) s = s" if "n \<le> len'" for f n and s :: u32
  proof (cases "len \<le> n")
    case True
    then show ?thesis using that assms(2)
      by (intro for_range_induct [where P = "\<lambda>_ t. t = s"]) auto
  qed simp
  moreover have "for_range 0 len' f s = for_range len len' f (for_range 0 len f s)" for f and s :: u32
    using assms(1) upt_add_eq_append [of 0 len "len' - len"] by (simp add: for_range_def)
  ultimately show ?thesis by (simp add: isl_seq_hash_def)
qed

subsection \<open>What the reductions compute\<close>

lemma seq_gcd_loop_Gcd:
  assumes "0 < g" and "g dvd p ! m"
  shows "seq_gcd_loop p len m i g = gcd g (Gcd ((\<lambda>i. p ! i) ` {i..<len}))"
  using assms
proof (induction p len m i g rule: seq_gcd_loop.induct)
  case (1 p len m i g)
  show ?case
  proof (cases "1 < g \<and> i < len")
    case True
    define g' where "g' = (if i = m then g else if p ! i = 0 then g else isl_int_gcd g (p ! i))"
    have "g' = gcd g (p ! i)" using 1(2,3) by (simp add: g'_def isl_int_gcd_def)
    moreover have "0 < gcd g (p ! i)" using 1(2) by simp
    moreover have "gcd g (p ! i) dvd p ! m" using 1(3) by (meson dvd_trans gcd_dvd1)
    moreover have "{i..<len} = insert i {i + 1..<len}" using True by auto
    ultimately show ?thesis
      using 1(1) [OF True] True
      by (simp add: seq_gcd_loop.simps [of p len m i g] g'_def [symmetric] gcd.assoc)
  next
    case False
    then have "seq_gcd_loop p len m i g = g" by (simp only: seq_gcd_loop.simps [of p len m i g] if_False)
    moreover have "g = 1 \<or> {i..<len} = {}" using False 1(2) by auto
    ultimately show ?thesis using 1(2) by auto
  qed
qed

lemma isl_seq_gcd_Gcd: "isl_seq_gcd p len = Gcd ((\<lambda>i. p ! i) ` {..<len})"
proof (cases "isl_seq_abs_min_non_zero p len")
  case None
  then have "\<forall>i<len. p ! i = 0" by (simp add: seq_simps)
  then have "Gcd ((\<lambda>i. p ! i) ` {..<len}) = 0" by (auto simp: Gcd_0_iff)
  with None show ?thesis by (simp add: isl_seq_gcd_def)
next
  case (Some m)
  note m = isl_seq_abs_min_non_zero_Some [OF Some]
  have "gcd \<bar>p ! m\<bar> (Gcd ((\<lambda>i. p ! i) ` {0..<len})) = Gcd ((\<lambda>i. p ! i) ` {0..<len})"
    using m(1) by (simp add: gcd_proj2_if_dvd_int Gcd_dvd)
  with Some m show ?thesis
    by (simp add: isl_seq_gcd_def seq_gcd_loop_Gcd atLeast0LessThan)
qed

lemma isl_seq_gcd_Gcd_set: "length p = len \<Longrightarrow> isl_seq_gcd p len = Gcd (set p)"
  by (simp add: isl_seq_gcd_Gcd set_conv_nth image_def) (metis lessThan_iff)

lemma isl_seq_gcd_dvd: "i < len \<Longrightarrow> isl_seq_gcd p len dvd p ! i"
  by (simp add: isl_seq_gcd_Gcd Gcd_dvd)

lemma isl_seq_gcd_zero_iff: "isl_seq_gcd p len = 0 \<longleftrightarrow> (\<forall>i<len. p ! i = 0)"
  by (auto simp: isl_seq_gcd_Gcd Gcd_0_iff)

lemma isl_seq_gcd_ge_zero [simp]: "0 \<le> isl_seq_gcd p len"
  by (simp add: isl_seq_gcd_Gcd)

lemma isl_seq_gcd_greatest: "(\<And>i. i < len \<Longrightarrow> d dvd p ! i) \<Longrightarrow> d dvd isl_seq_gcd p len"
  by (auto simp: isl_seq_gcd_Gcd intro: Gcd_greatest)

lemma length_isl_seq_normalize [simp]: "length (isl_seq_normalize p len) = length p"
  by (simp add: isl_seq_normalize_def Let_def)

lemma isl_seq_normalize_nth:
  assumes "len \<le> length p" and "k < length p"
  shows "k < len \<Longrightarrow> isl_seq_gcd p len * isl_seq_normalize p len ! k = p ! k"
    and "len \<le> k \<Longrightarrow> isl_seq_normalize p len ! k = p ! k"
proof -
  show "isl_seq_gcd p len * isl_seq_normalize p len ! k = p ! k" if "k < len"
  proof (cases "isl_seq_gcd p len = 0")
    case True
    with that show ?thesis by (simp add: isl_seq_gcd_zero_iff)
  next
    case False
    with that assms isl_seq_gcd_dvd [OF that, of p] show ?thesis
      by (auto simp: isl_seq_normalize_def Let_def seq_simps isl_int_divexact_eq)
  qed
  show "isl_seq_normalize p len ! k = p ! k" if "len \<le> k"
    using that assms by (auto simp: isl_seq_normalize_def Let_def seq_simps)
qed

lemma isl_seq_gcd_scaled:
  assumes "\<And>i. i < len \<Longrightarrow> p ! i = c * q ! i"
  shows "isl_seq_gcd p len = \<bar>c\<bar> * isl_seq_gcd q len"
proof -
  have "(\<lambda>i. p ! i) ` {..<len} = (*) c ` ((\<lambda>i. q ! i) ` {..<len})"
    using assms by (auto simp: image_iff)
  then show ?thesis by (simp add: isl_seq_gcd_Gcd Gcd_mult abs_mult)
qed

lemma isl_seq_normalize_coprime:
  assumes "len \<le> length p" and "k < len" and "p ! k \<noteq> 0"
  shows "isl_seq_gcd (isl_seq_normalize p len) len = 1"
proof -
  have "isl_seq_gcd p len = \<bar>isl_seq_gcd p len\<bar> * isl_seq_gcd (isl_seq_normalize p len) len"
    by (rule isl_seq_gcd_scaled) (use assms(1) in \<open>simp add: isl_seq_normalize_nth\<close>)
  moreover have "isl_seq_gcd p len \<noteq> 0" using assms(2,3) by (auto simp: isl_seq_gcd_zero_iff)
  ultimately show ?thesis by simp
qed

text \<open>
  The least common multiple: with a single element, or when an element is negative,
  only up to the sign, since the first element is taken as it is.
\<close>

lemma isl_seq_lcm_Lcm:
  assumes "0 < len"
  shows "\<bar>isl_seq_lcm p len\<bar> = Lcm ((\<lambda>i. p ! i) ` {..<len})"
    and "1 < len \<or> 0 \<le> p ! 0 \<Longrightarrow> isl_seq_lcm p len = Lcm ((\<lambda>i. p ! i) ` {..<len})"
proof -
  let ?r = "\<lambda>n. for_range 1 n (\<lambda>i lcm. isl_int_lcm lcm (p ! i)) (p ! 0)"
  have "\<bar>?r n\<bar> = Lcm ((\<lambda>i. p ! i) ` {..<n})" if "1 \<le> n" for n
    using that
  proof (induction n)
    case (Suc n)
    show ?case
    proof (cases "n = 0")
      case False
      then have "lcm (?r n) (p ! n) = lcm (p ! n) (Lcm ((\<lambda>i. p ! i) ` {..<n}))"
        using Suc.IH by (metis One_nat_def Suc_leI lcm.commute lcm_abs1_int neq0_conv)
      with False show ?thesis by (simp add: for_range_Suc lessThan_Suc isl_int_lcm_def)
    qed (simp add: lessThan_Suc)
  qed simp
  then have abs: "\<bar>?r len\<bar> = Lcm ((\<lambda>i. p ! i) ` {..<len})" using assms by simp
  then show "\<bar>isl_seq_lcm p len\<bar> = Lcm ((\<lambda>i. p ! i) ` {..<len})"
    using assms by (simp add: isl_seq_lcm_def)
  have "0 \<le> ?r len" if "1 < len \<or> 0 \<le> p ! 0"
    using that assms by (cases len) (auto simp: for_range_Suc isl_int_lcm_def le_Suc_eq less_Suc_eq)
  then show "isl_seq_lcm p len = Lcm ((\<lambda>i. p ! i) ` {..<len})" if "1 < len \<or> 0 \<le> p ! 0"
    using abs assms that by (simp add: isl_seq_lcm_def)
qed

lemma isl_seq_inner_product_sum [seq_simps]:
  "isl_seq_inner_product p q len = (\<Sum>i<len. p ! i * q ! i)"
proof (cases len)
  case (Suc n)
  have "for_range 1 (Suc n) (\<lambda>i prod. prod + p ! i * q ! i) (p ! 0 * q ! 0) = (\<Sum>i<Suc n. p ! i * q ! i)"
    by (induction n) (simp_all add: for_range_Suc)
  with Suc show ?thesis by (simp add: isl_seq_inner_product_def)
qed (simp add: isl_seq_inner_product_def)

lemma sio_seq_inner_product_refines:
  assumes "len \<le> length p" and "len \<le> length q"
  shows "sio_val (sio_seq_inner_product p q len) =
      isl_seq_inner_product (map sio_val p) (map sio_val q) len"
    and "sio_ok (sio_seq_inner_product p q len)"
proof -
  show "sio_val (sio_seq_inner_product p q len) =
      isl_seq_inner_product (map sio_val p) (map sio_val q) len"
  proof (cases len)
    case (Suc n)
    have "sio_val (sio_seq_inner_product p q len) =
      sio_val (p ! 0) * sio_val (q ! 0) + (\<Sum>i = 1..<len. sio_val (p ! i) * sio_val (q ! i))"
      using Suc sio.addmul_loop_val [of 1 len "(!) p" "(!) q" "isl_sioimath_mul (p ! 0) (q ! 0)"]
      by (simp only: sio_seq_inner_product_def mul_correct) simp
    also have "\<dots> = (\<Sum>i<len. sio_val (p ! i) * sio_val (q ! i))"
      using Suc by (simp add: sum.atLeast_Suc_lessThan [of 0] lessThan_atLeast0)
    also have "\<dots> = isl_seq_inner_product (map sio_val p) (map sio_val q) len"
      using assms by (simp add: seq_simps)
    finally show ?thesis .
  qed (simp add: sio_seq_inner_product_def isl_seq_inner_product_def set_si_correct)
  show "sio_ok (sio_seq_inner_product p q len)"
    by (cases "len = 0")
       (simp_all add: sio_seq_inner_product_def set_si_correct mul_correct sio.addmul_loop_ok)
qed

subsection \<open>Elimination and substitution\<close>

lemma length_isl_seq_elim [simp]: "length (fst (isl_seq_elim dst src pos len m)) = length dst"
  by (simp add: isl_seq_elim_def Let_def)

lemma isl_seq_elim_id: "dst ! pos = 0 \<Longrightarrow> isl_seq_elim dst src pos len m = (dst, m)"
  by (simp add: isl_seq_elim_def)

text \<open>
  The factors of the elimination: \<open>a\<close> is what \<open>dst\<close> is multiplied by, \<open>b\<close> the multiple of
  \<open>src\<close> that is added.  \<open>a\<close> is positive unless \<open>src\<close> has no pivot.
\<close>

lemma isl_seq_elim_factors:
  assumes "dst ! pos \<noteq> 0"
  obtains a b where
    "isl_seq_elim dst src pos len m = (isl_seq_combine_inplace dst a b src len, map_option (\<lambda>m. m * a) m)"
    and "a * gcd (src ! pos) (dst ! pos) = \<bar>src ! pos\<bar>"
    and "b * gcd (src ! pos) (dst ! pos) = (if 0 < src ! pos then - (dst ! pos) else dst ! pos)"
    and "0 \<le> a"
proof -
  let ?g = "gcd (src ! pos) (dst ! pos)"
  let ?b = "if 0 < src ! pos then - isl_int_divexact (dst ! pos) ?g else isl_int_divexact (dst ! pos) ?g"
  have "?g > 0" using assms by simp
  moreover have "isl_int_divexact (src ! pos) ?g * ?g = src ! pos" "isl_int_divexact (dst ! pos) ?g * ?g = dst ! pos"
    by (simp_all add: isl_int_divexact_dvd)
  ultimately have "\<bar>isl_int_divexact (src ! pos) ?g\<bar> * ?g = \<bar>src ! pos\<bar>"
    "?b * ?g = (if 0 < src ! pos then - (dst ! pos) else dst ! pos)"
    by (metis abs_mult abs_of_pos) (auto simp: isl_int_divexact_dvd)
  with assms show ?thesis
    by (intro that [of "\<bar>isl_int_divexact (src ! pos) ?g\<bar>" ?b])
      (simp_all add: isl_seq_elim_def isl_int_gcd_def Let_def)
qed

lemma isl_seq_elim_nth:
  assumes "len \<le> length dst" and "k < len"
  shows "dst ! pos \<noteq> 0 \<Longrightarrow> src ! pos \<noteq> 0 \<Longrightarrow>
      gcd (src ! pos) (dst ! pos) * fst (isl_seq_elim dst src pos len m) ! k =
      \<bar>src ! pos\<bar> * dst ! k - sgn (src ! pos) * dst ! pos * src ! k"
    and "dst ! pos \<noteq> 0 \<Longrightarrow> src ! pos = 0 \<Longrightarrow>
      fst (isl_seq_elim dst src pos len m) ! k = sgn (dst ! pos) * src ! k"
proof -
  assume d: "dst ! pos \<noteq> 0"
  from isl_seq_elim_factors [OF d, of src len m] obtain a b where
    ab: "isl_seq_elim dst src pos len m = (isl_seq_combine_inplace dst a b src len, map_option (\<lambda>m. m * a) m)"
      "a * gcd (src ! pos) (dst ! pos) = \<bar>src ! pos\<bar>"
      "b * gcd (src ! pos) (dst ! pos) = (if 0 < src ! pos then - (dst ! pos) else dst ! pos)" .
  have nth: "fst (isl_seq_elim dst src pos len m) ! k = a * dst ! k + b * src ! k"
    using assms ab(1) by (simp add: seq_simps)
  have g: "gcd (src ! pos) (dst ! pos) * (a * dst ! k + b * src ! k) =
    (a * gcd (src ! pos) (dst ! pos)) * dst ! k + (b * gcd (src ! pos) (dst ! pos)) * src ! k"
    by algebra
  show "gcd (src ! pos) (dst ! pos) * fst (isl_seq_elim dst src pos len m) ! k =
      \<bar>src ! pos\<bar> * dst ! k - sgn (src ! pos) * dst ! pos * src ! k" if "src ! pos \<noteq> 0"
    using that unfolding nth g ab(2,3) by (simp add: sgn_if)
  show "fst (isl_seq_elim dst src pos len m) ! k = sgn (dst ! pos) * src ! k" if "src ! pos = 0"
  proof -
    have "a = 0" using ab(2) d that by simp
    moreover have "b = sgn (dst ! pos)"
    proof -
      have "b * \<bar>dst ! pos\<bar> = sgn (dst ! pos) * \<bar>dst ! pos\<bar>" using ab(3) that by (simp add: sgn_mult_abs)
      then show ?thesis using d by simp
    qed
    ultimately show ?thesis using nth by simp
  qed
qed

lemma isl_seq_elim_pos_zero:
  assumes "len \<le> length dst" and "pos < len"
  shows "fst (isl_seq_elim dst src pos len m) ! pos = 0"
proof (cases "dst ! pos = 0")
  case True
  then show ?thesis by (simp add: isl_seq_elim_id)
next
  case d: False
  show ?thesis
  proof (cases "src ! pos = 0")
    case True
    with isl_seq_elim_nth(2) [OF assms d True, of m] show ?thesis by simp
  next
    case False
    have "\<bar>src ! pos\<bar> * dst ! pos - sgn (src ! pos) * dst ! pos * src ! pos = 0"
      by (simp add: abs_sgn algebra_simps)
    with isl_seq_elim_nth(1) [OF assms d False, of m] d show ?thesis by auto
  qed
qed

text \<open>The factor that is multiplied along.\<close>

lemma isl_seq_elim_factor:
  assumes "dst ! pos \<noteq> 0"
  shows "\<exists>a. snd (isl_seq_elim dst src pos len (Some m)) = Some (m * a) \<and>
    a * gcd (src ! pos) (dst ! pos) = \<bar>src ! pos\<bar>"
  using isl_seq_elim_factors [OF assms, of src len "Some m"] by (metis option.simps(9) snd_conv)

text \<open>
  Every common zero of the two rows is a zero of the result, and when \<open>src\<close> has a
  pivot a zero of the result and of \<open>src\<close> is a zero of \<open>dst\<close>.
\<close>

lemma isl_seq_elim_inner_product:
  assumes "len \<le> length dst" and "dst ! pos \<noteq> 0" and "src ! pos \<noteq> 0"
  shows "gcd (src ! pos) (dst ! pos) * isl_seq_inner_product (fst (isl_seq_elim dst src pos len m)) x len =
    \<bar>src ! pos\<bar> * isl_seq_inner_product dst x len
      - sgn (src ! pos) * dst ! pos * isl_seq_inner_product src x len"
proof -
  have "gcd (src ! pos) (dst ! pos) * (fst (isl_seq_elim dst src pos len m) ! i * x ! i) =
    \<bar>src ! pos\<bar> * (dst ! i * x ! i) - sgn (src ! pos) * dst ! pos * (src ! i * x ! i)" if "i < len" for i
    using isl_seq_elim_nth(1) [OF assms(1) that assms(2,3), of m] by algebra
  then show ?thesis
    by (simp add: seq_simps sum_distrib_left sum_subtractf [symmetric])
qed

text \<open>
  The value of an affine expression \<open>p\<close> with a denominator: the position \<open>0\<close> of the
  variables is the constant, \<open>x 0 = 1\<close>.
\<close>

definition aff_val :: "isl_seq \<Rightarrow> nat \<Rightarrow> (nat \<Rightarrow> rat) \<Rightarrow> rat" where
  "aff_val p len x = (\<Sum>i<len - 1. of_int (p ! (1 + i)) * x i) / of_int (p ! 0)"

lemma isl_seq_substitute_nth:
  assumes "1 + pos < subs_len" and "subs_len \<le> p_len" and "p_len \<le> length p" and "subs_len \<le> length subs"
    and "k < length p"
  shows "isl_seq_substitute p pos subs p_len subs_len ! k =
    (if k = 0 then p ! 0 * subs ! 0
     else if k < subs_len then subs ! 0 * (if k = 1 + pos then 0 else p ! k) + p ! (1 + pos) * subs ! k
     else if k < p_len then p ! k * subs ! 0 else p ! k)"
proof -
  let ?p1 = "p[1 + pos := 0]"
  let ?p2 = "at_off 1 (\<lambda>q. isl_seq_combine_inplace q (subs ! 0) (p ! (1 + pos)) (drop 1 subs) (subs_len - 1)) ?p1"
  let ?p3 = "at_off subs_len (\<lambda>q. isl_seq_scale q q (subs ! 0) (p_len - subs_len)) ?p2"
  have l2: "length ?p2 = length p" and l3: "length ?p3 = length p" by (simp_all add: length_at_off)
  have n2: "?p2 ! j = (if 1 \<le> j \<and> j < subs_len
      then subs ! 0 * ?p1 ! j + p ! (1 + pos) * subs ! j else ?p1 ! j)" if "j < length p" for j
    using that assms by (auto simp: nth_at_off seq_simps)
  have n3: "?p3 ! j = (if subs_len \<le> j \<and> j < p_len then ?p2 ! j * subs ! 0 else ?p2 ! j)" if "j < length p" for j
    using that assms l2 by (auto simp: nth_at_off seq_simps)
  have "isl_seq_substitute p pos subs p_len subs_len = ?p3[0 := ?p3 ! 0 * subs ! 0]"
    by (simp add: isl_seq_substitute_def Let_def)
  then show ?thesis
    using assms l3 n2 n3 by (auto simp: nth_list_update)
qed

lemma isl_seq_substitute_val:
  assumes "1 + pos < subs_len" and "subs_len \<le> p_len" and "p_len \<le> length p"
    and "subs_len \<le> length subs" and "subs ! 0 \<noteq> 0"
  shows "aff_val (isl_seq_substitute p pos subs p_len subs_len) p_len x =
    aff_val p p_len (x(pos := aff_val subs subs_len x))"
proof -
  let ?v = "of_int (p ! (1 + pos)) :: rat"
  let ?d = "of_int (subs ! 0) :: rat"
  let ?q = "\<lambda>i. if i = pos then 0 else of_int (p ! (1 + i)) * x i"
  have d: "?d \<noteq> 0" using assms(5) by simp
  let ?f = "\<lambda>i. of_int (subs ! (1 + i)) * x i"
  have val: "of_int (isl_seq_substitute p pos subs p_len subs_len ! (1 + i)) * x i =
      ?d * ?q i + (if i < subs_len - 1 then ?v * ?f i else 0)" if "i < p_len - 1" for i
    using that assms by (auto simp: isl_seq_substitute_nth algebra_simps)
  have "(\<Sum>i<p_len - 1. of_int (isl_seq_substitute p pos subs p_len subs_len ! (1 + i)) * x i) =
      (\<Sum>i<p_len - 1. ?d * ?q i + (if i < subs_len - 1 then ?v * ?f i else 0))"
    by (rule sum.cong) (use val in auto)
  also have "\<dots> = ?d * (\<Sum>i<p_len - 1. ?q i) + ?v * sum ?f {..<subs_len - 1}"
  proof -
    have "{..<p_len - 1} \<inter> {i. i < subs_len - 1} = {..<subs_len - 1}" using assms(2) by auto
    then show ?thesis
      by (simp add: sum.distrib sum_distrib_left [symmetric] sum.If_cases)
  qed
  also have "sum ?f {..<subs_len - 1} = ?d * aff_val subs subs_len x"
    using d by (simp add: aff_val_def)
  finally have num: "(\<Sum>i<p_len - 1. of_int (isl_seq_substitute p pos subs p_len subs_len ! (1 + i)) * x i) =
      ?d * ((\<Sum>i<p_len - 1. ?q i) + ?v * aff_val subs subs_len x)"
    by (simp add: algebra_simps)
  have "(\<Sum>i<p_len - 1. of_int (p ! (1 + i)) * (x(pos := aff_val subs subs_len x)) i) =
      (\<Sum>i<p_len - 1. ?q i + (if i = pos then ?v * aff_val subs subs_len x else 0))"
    by (rule sum.cong) auto
  also have "\<dots> = (\<Sum>i<p_len - 1. ?q i) + ?v * aff_val subs subs_len x"
  proof -
    have "pos < p_len - 1" using assms(1,2) by simp
    then show ?thesis by (simp add: sum.distrib)
  qed
  finally have den: "(\<Sum>i<p_len - 1. of_int (p ! (1 + i)) * (x(pos := aff_val subs subs_len x)) i) =
      (\<Sum>i<p_len - 1. ?q i) + ?v * aff_val subs subs_len x" .
  have zero: "isl_seq_substitute p pos subs p_len subs_len ! 0 = p ! 0 * subs ! 0"
  proof -
    have "0 < length p" using assms by linarith
    with assms show ?thesis by (simp only: isl_seq_substitute_nth if_True simp_thms)
  qed
  show ?thesis
    unfolding aff_val_def [of "isl_seq_substitute _ _ _ _ _"] aff_val_def [of p] num den zero
    using d by simp
qed

subsection \<open>Properties\<close>

text \<open>
  C31: the inner product loop on the small/big representation of integers returns a
  well-formed number whose value is the sum of the products of the values, for
  every mixture of representations among the elements.
\<close>

theorem seq_inner_product_on_representation:
  assumes "len \<le> length p" and "len \<le> length q"
  shows "sio_val (sio_seq_inner_product p q len) = (\<Sum>i<len. sio_val (p ! i) * sio_val (q ! i)) \<and>
    sio_ok (sio_seq_inner_product p q len)"
  using sio_seq_inner_product_refines [OF assms] assms by (simp add: seq_simps)

theorem seq_inner_product_on_representation_witness:
  "sio_val (sio_seq_inner_product [Small 2, Big (2 ^ 40)] [Small 3, Small 5] 2) = 6 + 5 * 2 ^ 40"
  using seq_inner_product_on_representation [of 2 "[Small 2, Big (2 ^ 40)]" "[Small 3, Small 5]"]
  by (simp add: numeral_2_eq_2)

text \<open>
  C21: \<open>isl_seq_normalize\<close> divides the first \<open>len\<close> elements by their greatest common
  divisor and leaves the rest: the old elements are the gcd times the new ones,
  and the new ones are coprime unless all of them are zero.
\<close>

theorem seq_normalize_primitive:
  assumes "len \<le> length p"
  shows "length (isl_seq_normalize p len) = length p \<and>
    (\<forall>k < length p. p ! k =
      (if k < len then Gcd ((\<lambda>i. p ! i) ` {..<len}) * isl_seq_normalize p len ! k
       else isl_seq_normalize p len ! k)) \<and>
    (Gcd ((\<lambda>i. isl_seq_normalize p len ! i) ` {..<len}) = 1 \<or> (\<forall>k<len. p ! k = 0))"
  using isl_seq_normalize_nth [OF assms] isl_seq_normalize_coprime [OF assms]
  by (auto simp: isl_seq_gcd_Gcd)

theorem seq_normalize_primitive_witness:
  "isl_seq_normalize [6, -9, 0, 7] 3 = [2, -3, 0, 7] \<and>
    length (isl_seq_normalize [6, -9, 0, 7] 3) = length [6, -9, 0, 7 :: int]"
proof
  show "isl_seq_normalize [6, -9, 0, 7] 3 = [2, -3, 0, 7]" by code_simp
  show "length (isl_seq_normalize [6, -9, 0, 7] 3) = length [6, -9, 0, 7 :: int]"
    using seq_normalize_primitive [of 3 "[6, -9, 0, 7]"] by simp
qed

text \<open>
  C23: \<open>isl_seq_elim\<close> makes the element at \<open>pos\<close> zero, and when the source row has a
  pivot there the result is the combination \<open>(|s| dst - sgn(s) d src) / gcd(s, d)\<close>
  element by element, so that it vanishes on every common zero of the two rows.
\<close>

theorem seq_elim_combination:
  assumes "len \<le> length dst" and "pos < len" and "dst ! pos \<noteq> 0" and "src ! pos \<noteq> 0"
  shows "fst (isl_seq_elim dst src pos len m) ! pos = 0 \<and>
    (\<forall>k<len. gcd (src ! pos) (dst ! pos) * fst (isl_seq_elim dst src pos len m) ! k =
      \<bar>src ! pos\<bar> * dst ! k - sgn (src ! pos) * dst ! pos * src ! k) \<and>
    (\<forall>x. isl_seq_inner_product dst x len = 0 \<and> isl_seq_inner_product src x len = 0 \<longrightarrow>
      isl_seq_inner_product (fst (isl_seq_elim dst src pos len m)) x len = 0)"
proof (intro conjI allI impI)
  fix x assume "isl_seq_inner_product dst x len = 0 \<and> isl_seq_inner_product src x len = 0"
  then show "isl_seq_inner_product (fst (isl_seq_elim dst src pos len m)) x len = 0"
    using isl_seq_elim_inner_product [OF assms(1,3,4), of m x] assms(3) by simp
qed (use assms in \<open>simp_all add: isl_seq_elim_pos_zero isl_seq_elim_nth(1)\<close>)

theorem seq_elim_combination_witness:
  "fst (isl_seq_elim [4, 1, 6] [3, 2, -4] 2 3 None) ! 2 = 0 \<and>
    isl_seq_elim [4, 1, 6] [3, 2, -4] 2 3 (Some 5) = ([17, 8, 0], Some 10)"
proof
  show "fst (isl_seq_elim [4, 1, 6] [3, 2, -4] 2 3 None) ! 2 = 0"
    using seq_elim_combination [of 3 "[4, 1, 6]" 2 "[3, 2, -4]"] by simp
  show "isl_seq_elim [4, 1, 6] [3, 2, -4] 2 3 (Some 5) = ([17, 8, 0], Some 10)" by code_simp
qed

text \<open>
  C33: plugging an affine expression \<open>f/d\<close> in for a variable of another one is
  substitution: the value of the result at any rational point is the value of the
  original expression at the point whose coordinate \<open>pos\<close> is the value of \<open>f/d\<close>.
\<close>

theorem seq_substitute_is_substitution:
  assumes "1 + pos < subs_len" and "subs_len \<le> p_len" and "p_len \<le> length p"
    and "subs_len \<le> length subs" and "subs ! 0 \<noteq> 0"
  shows "aff_val (isl_seq_substitute p pos subs p_len subs_len) p_len x =
    aff_val p p_len (x(pos := aff_val subs subs_len x))"
  using assms by (rule isl_seq_substitute_val)

theorem seq_substitute_is_substitution_witness:
  "isl_seq_substitute [2, 1, 3, 5] 1 [4, 7, 0] 4 3 = [8, 25, 0, 20] \<and>
   aff_val (isl_seq_substitute [2, 1, 3, 5] 1 [4, 7, 0] 4 3) 4 (\<lambda>_. 1) =
     aff_val [2, 1, 3, 5] 4 ((\<lambda>_. 1)(1 := aff_val [4, 7, 0] 3 (\<lambda>_. 1)))"
proof
  show "isl_seq_substitute [2, 1, 3, 5] 1 [4, 7, 0] 4 3 = [8, 25, 0, 20]" by code_simp
  show "aff_val (isl_seq_substitute [2, 1, 3, 5] 1 [4, 7, 0] 4 3) 4 (\<lambda>_. 1) =
     aff_val [2, 1, 3, 5] 4 ((\<lambda>_. 1)(1 := aff_val [4, 7, 0] 3 (\<lambda>_. 1)))"
    by (rule seq_substitute_is_substitution) simp_all
qed

text \<open>
  \<open>isl_seq_cmp\<close> returns -1, 0 or 1 and is the lexicographic comparison of the two
  sequences; swapping the arguments negates the result.
\<close>

theorem seq_cmp_lexicographic:
  assumes "length p = len" and "length q = len"
  shows "isl_seq_cmp p q len \<in> {-1, 0, 1} \<and>
    (isl_seq_cmp p q len < 0 \<longleftrightarrow> (p, q) \<in> lexord {(a, b). a < b}) \<and>
    (isl_seq_cmp p q len = 0 \<longleftrightarrow> p = q) \<and>
    isl_seq_cmp q p len = - isl_seq_cmp p q len"
proof (intro conjI)
  show "isl_seq_cmp q p len = - isl_seq_cmp p q len" by (rule isl_seq_cmp_antisym)
qed (use assms isl_seq_cmp_range in \<open>simp_all add: isl_seq_cmp_lexord isl_seq_cmp_zero_iff list_eq_iff_nth_eq\<close>)

theorem seq_cmp_lexicographic_witness:
  "([1, 2, 9], [1, 3, 0]) \<in> lexord {(a, b). a < (b :: int)}"
proof -
  have "isl_seq_cmp [1, 2, 9] [1, 3, 0] 3 < 0" by code_simp
  with seq_cmp_lexicographic [of "[1, 2, 9]" 3 "[1, 3, 0]"] show ?thesis by simp
qed

end
