(* ===== verification/Vec.thy ===== *)
theory Vec imports Seq Val begin

text \<open>
  Vectors (isl_vec.c).  A vector holds its size and its elements; the memory behind
  the elements in use is not part of the model, so that what an enlarged vector
  holds there is unknown (the parameter \<open>junk\<close>).  Copy-on-write returns an
  object with the same contents and is left out; theory \<open>Objects\<close> models the reference
  counts.  Sizes are 32-bit unsigned numbers: where the code adds two of them the
  sum is \<^const>\<open>u32_add\<close>.
\<close>

record isl_vec =
  vec_size :: nat
  vec_el :: isl_seq

text \<open>The part of a reordering (isl_reordering.h) that vectors use.\<close>

record isl_reordering =
  r_src_len :: nat
  r_dst_len :: nat
  r_pos :: "nat list"

definition vec_ok :: "isl_vec \<Rightarrow> bool" where
  "vec_ok v = (length (vec_el v) = vec_size v)"

subsection \<open>Creation and resizing\<close>

definition isl_vec_alloc :: "isl_int junk \<Rightarrow> nat \<Rightarrow> isl_vec res" where
  "isl_vec_alloc junk sz = Inr \<lparr>vec_size = sz, vec_el = fresh junk sz\<rparr>"

definition isl_vec_extend :: "isl_int junk \<Rightarrow> isl_vec res \<Rightarrow> nat \<Rightarrow> isl_vec res" where
  "isl_vec_extend junk vec sz = take1 vec (\<lambda>vec.
     if sz \<le> vec_size vec then Inr vec
     else Inr (vec\<lparr>vec_size := sz, vec_el := vec_el vec @ fresh junk (sz - vec_size vec)\<rparr>))"

text \<open>
  The second loop runs downwards over the expanded range with the index \<open>j\<close> of the
  last element that has not been placed yet.
\<close>

definition expand_step :: "nat \<Rightarrow> int list \<Rightarrow> nat \<Rightarrow> int \<times> isl_seq \<Rightarrow> int \<times> isl_seq" where
  "expand_step pos ex i = (\<lambda>(j, el).
     if 0 \<le> j \<and> ex ! nat j = int i
     then (j - 1,
           if int i \<noteq> j
           then el[pos + i := el ! (pos + nat j), pos + nat j := el ! (pos + i)]
           else el)
     else (j, el[pos + i := 0]))"

definition isl_vec_expand ::
  "isl_int junk \<Rightarrow> isl_vec res \<Rightarrow> int \<Rightarrow> int \<Rightarrow> int list \<Rightarrow> int \<Rightarrow> isl_vec res" where
  "isl_vec_expand junk vec pos n ex expanded = take1 vec (\<lambda>vec.
     if expanded < n then isl_die isl_error_invalid
     else if expanded = n then Inr vec
     else if pos < 0 \<or> n < 0 \<or> pos + n > int (vec_size vec) then isl_die isl_error_invalid
     else let old_size = vec_size vec;
              extra = nat (expanded - n)
          in take1 (isl_vec_extend junk (Inr vec) (old_size + extra)) (\<lambda>vec.
               let el = for_down (nat (pos + n)) old_size (\<lambda>i el. el[i + extra := el ! i]) (vec_el vec);
                   (j, el) = for_down 0 (nat expanded) (expand_step (nat pos) ex) (n - 1, el)
               in Inr (vec\<lparr>vec_el := el\<rparr>)))"

definition isl_vec_zero :: "isl_int junk \<Rightarrow> nat \<Rightarrow> isl_vec res" where
  "isl_vec_zero junk sz = take1 (isl_vec_alloc junk sz) (\<lambda>vec.
     Inr (vec\<lparr>vec_el := isl_seq_clr (vec_el vec) sz\<rparr>))"

definition isl_vec_zero_extend :: "isl_int junk \<Rightarrow> isl_vec res \<Rightarrow> nat \<Rightarrow> isl_vec res" where
  "isl_vec_zero_extend junk vec sz = take1 vec (\<lambda>vec.
     if sz \<le> vec_size vec then Inr vec
     else let extra = sz - vec_size vec
          in take1 (isl_vec_extend junk (Inr vec) sz) (\<lambda>vec.
               Inr (vec\<lparr>vec_el := at_off (sz - extra) (\<lambda>p. isl_seq_clr p extra) (vec_el vec)\<rparr>)))"

definition isl_vec_concat :: "isl_int junk \<Rightarrow> isl_vec res \<Rightarrow> isl_vec res \<Rightarrow> isl_vec res" where
  "isl_vec_concat junk vec1 vec2 = take2 vec1 vec2 (\<lambda>vec1 vec2.
     if vec_size vec2 = 0 then Inr vec1
     else if vec_size vec1 = 0 then Inr vec2
     else take1 (isl_vec_extend junk (Inr vec1) (u32_add (vec_size vec1) (vec_size vec2))) (\<lambda>vec1.
       Inr (vec1\<lparr>vec_el := at_off (vec_size vec1 - vec_size vec2)
         (\<lambda>p. isl_seq_cpy p (vec_el vec2) (vec_size vec2)) (vec_el vec1)\<rparr>)))"

definition isl_vec_dup :: "isl_int junk \<Rightarrow> isl_vec res \<Rightarrow> isl_vec res" where
  "isl_vec_dup junk vec = take1 vec (\<lambda>vec.
     take1 (isl_vec_alloc junk (vec_size vec)) (\<lambda>vec2.
       Inr (vec2\<lparr>vec_el := isl_seq_cpy (vec_el vec2) (vec_el vec) (vec_size vec)\<rparr>)))"

subsection \<open>Elements\<close>

definition isl_vec_size :: "isl_vec res \<Rightarrow> nat res" where
  "isl_vec_size vec = keep1 vec vec_size"

definition isl_vec_get_hash :: "isl_vec res \<Rightarrow> u32" where
  "isl_vec_get_hash vec = (case vec of Inl _ \<Rightarrow> 0 | Inr vec \<Rightarrow> isl_seq_get_hash (vec_el vec) (vec_size vec))"

definition isl_vec_get_element_val :: "isl_vec res \<Rightarrow> int \<Rightarrow> isl_val res" where
  "isl_vec_get_element_val vec pos = take1 vec (\<lambda>vec.
     if pos < 0 \<or> int (vec_size vec) \<le> pos then isl_die isl_error_invalid
     else isl_val_int_from_isl_int (vec_el vec ! nat pos))"

definition isl_vec_set_element :: "isl_vec res \<Rightarrow> int \<Rightarrow> isl_int \<Rightarrow> isl_vec res" where
  "isl_vec_set_element vec pos v = take1 vec (\<lambda>vec.
     if pos < 0 \<or> int (vec_size vec) \<le> pos then isl_die isl_error_invalid
     else Inr (vec\<lparr>vec_el := (vec_el vec)[nat pos := v]\<rparr>))"

definition isl_vec_set_element_si :: "isl_vec res \<Rightarrow> int \<Rightarrow> i32 \<Rightarrow> isl_vec res" where
  "isl_vec_set_element_si vec pos v = take1 vec (\<lambda>vec.
     if pos < 0 \<or> int (vec_size vec) \<le> pos then isl_die isl_error_invalid
     else Inr (vec\<lparr>vec_el := (vec_el vec)[nat pos := sint v]\<rparr>))"

definition isl_vec_set_element_val :: "isl_vec res \<Rightarrow> int \<Rightarrow> isl_val res \<Rightarrow> isl_vec res" where
  "isl_vec_set_element_val vec pos v = take1 v (\<lambda>v.
     if \<not> val_is_int v then isl_die isl_error_invalid
     else isl_vec_set_element vec pos (val_n v))"

text \<open>Returns 0 on an error.\<close>

definition isl_vec_cmp_element :: "isl_vec res \<Rightarrow> isl_vec res \<Rightarrow> int \<Rightarrow> int" where
  "isl_vec_cmp_element vec1 vec2 pos = (case (vec1, vec2) of
     (Inr vec1, Inr vec2) \<Rightarrow>
       if pos < 0 \<or> int (vec_size vec1) \<le> pos \<or> int (vec_size vec2) \<le> pos then 0
       else isl_int_cmp (vec_el vec1 ! nat pos) (vec_el vec2 ! nat pos)
   | _ \<Rightarrow> 0)"

definition isl_vec_is_zero :: "isl_vec res \<Rightarrow> bool res" where
  "isl_vec_is_zero vec = keep1 vec (\<lambda>vec. \<not> isl_seq_any_non_zero (vec_el vec) (vec_size vec))"

definition isl_vec_is_equal :: "isl_vec res \<Rightarrow> isl_vec res \<Rightarrow> bool res" where
  "isl_vec_is_equal vec1 vec2 = take2 vec1 vec2 (\<lambda>vec1 vec2.
     if vec_size vec1 \<noteq> vec_size vec2 then Inr False
     else Inr (isl_seq_eq (vec_el vec1) (vec_el vec2) (vec_size vec1)))"

definition isl_printer_print_vec :: "(isl_int \<Rightarrow> string) \<Rightarrow> string res \<Rightarrow> isl_vec res \<Rightarrow> string res" where
  "isl_printer_print_vec print_int printer vec = take2 printer vec (\<lambda>printer vec.
     let printer = printer @ ''['';
         printer = for_range 0 (vec_size vec) (\<lambda>i printer.
           let printer = (if i \<noteq> 0 then printer @ '','' else printer)
           in printer @ print_int (vec_el vec ! i)) printer
     in Inr (printer @ '']''))"

subsection \<open>Element-wise operations\<close>

definition isl_vec_set :: "isl_vec res \<Rightarrow> isl_int \<Rightarrow> isl_vec res" where
  "isl_vec_set vec v = take1 vec (\<lambda>vec. Inr (vec\<lparr>vec_el := isl_seq_set (vec_el vec) v (vec_size vec)\<rparr>))"

definition isl_vec_set_si :: "isl_vec res \<Rightarrow> i32 \<Rightarrow> isl_vec res" where
  "isl_vec_set_si vec v = take1 vec (\<lambda>vec.
     Inr (vec\<lparr>vec_el := isl_seq_set_si (vec_el vec) (sint v) (vec_size vec)\<rparr>))"

definition isl_vec_set_val :: "isl_vec res \<Rightarrow> isl_val res \<Rightarrow> isl_vec res" where
  "isl_vec_set_val vec v = take2 vec v (\<lambda>vec v.
     if \<not> val_is_int v then isl_die isl_error_invalid
     else Inr (vec\<lparr>vec_el := isl_seq_set (vec_el vec) (val_n v) (vec_size vec)\<rparr>))"

definition isl_vec_clr :: "isl_vec res \<Rightarrow> isl_vec res" where
  "isl_vec_clr vec = take1 vec (\<lambda>vec. Inr (vec\<lparr>vec_el := isl_seq_clr (vec_el vec) (vec_size vec)\<rparr>))"

definition isl_vec_lcm :: "isl_vec \<Rightarrow> isl_int" where
  "isl_vec_lcm vec = isl_seq_lcm (vec_el vec) (vec_size vec)"

definition isl_vec_ceil :: "isl_vec res \<Rightarrow> isl_vec res" where
  "isl_vec_ceil vec = take1 vec (\<lambda>vec.
     let el = at_off 1 (\<lambda>p. isl_seq_cdiv_q p p (vec_el vec ! 0) (vec_size vec - 1)) (vec_el vec)
     in Inr (vec\<lparr>vec_el := el[0 := 1]\<rparr>))"

definition isl_vec_normalize :: "isl_vec res \<Rightarrow> isl_vec res" where
  "isl_vec_normalize vec = take1 vec (\<lambda>vec.
     Inr (vec\<lparr>vec_el := isl_seq_normalize (vec_el vec) (vec_size vec)\<rparr>))"

definition isl_vec_neg :: "isl_vec res \<Rightarrow> isl_vec res" where
  "isl_vec_neg vec = take1 vec (\<lambda>vec.
     Inr (vec\<lparr>vec_el := isl_seq_neg (vec_el vec) (vec_el vec) (vec_size vec)\<rparr>))"

definition isl_vec_scale :: "isl_vec res \<Rightarrow> isl_int \<Rightarrow> isl_vec res" where
  "isl_vec_scale vec m =
     (if m = 1 then vec
      else take1 vec (\<lambda>vec. Inr (vec\<lparr>vec_el := isl_seq_scale (vec_el vec) (vec_el vec) m (vec_size vec)\<rparr>)))"

definition isl_vec_fdiv_r :: "isl_vec res \<Rightarrow> isl_int \<Rightarrow> isl_vec res" where
  "isl_vec_fdiv_r vec m = take1 vec (\<lambda>vec.
     Inr (vec\<lparr>vec_el := isl_seq_fdiv_r (vec_el vec) (vec_el vec) m (vec_size vec)\<rparr>))"

definition isl_vec_add :: "isl_vec res \<Rightarrow> isl_vec res \<Rightarrow> isl_vec res" where
  "isl_vec_add vec1 vec2 = take2 vec1 vec2 (\<lambda>vec1 vec2.
     isl_assert (vec_size vec1 = vec_size vec2)
       (Inr (vec1\<lparr>vec_el := isl_seq_combine_inplace (vec_el vec1) 1 1 (vec_el vec2) (vec_size vec1)\<rparr>)))"

text \<open>\<open>qsort\<close> with the comparison of integers, under which equal elements are identical.\<close>

definition isl_vec_sort :: "isl_vec res \<Rightarrow> isl_vec res" where
  "isl_vec_sort vec = take1 vec (\<lambda>vec. Inr (vec\<lparr>vec_el := sort (vec_el vec)\<rparr>))"

subsection \<open>Moving elements\<close>

text \<open>The copy inside the vector moves the elements to the left over the dropped ones.\<close>

definition isl_vec_drop_els :: "isl_vec res \<Rightarrow> nat \<Rightarrow> nat \<Rightarrow> isl_vec res" where
  "isl_vec_drop_els vec pos n =
     (if n = 0 then vec
      else take1 vec (\<lambda>vec.
        if u32_add pos n > vec_size vec then isl_die isl_error_invalid
        else let el = (if u32_add pos n \<noteq> vec_size vec
                       then isl_seq_cpy_within (vec_el vec) pos (pos + n) (vec_size vec - pos - n)
                       else vec_el vec)
             in Inr (vec\<lparr>vec_size := vec_size vec - n, vec_el := take (vec_size vec - n) el\<rparr>)))"

definition isl_vec_insert_els :: "isl_int junk \<Rightarrow> isl_vec res \<Rightarrow> nat \<Rightarrow> nat \<Rightarrow> isl_vec res" where
  "isl_vec_insert_els junk vec pos n =
     (if n = 0 then vec
      else take1 vec (\<lambda>vec.
        if pos > vec_size vec then isl_die isl_error_invalid
        else take1 (isl_vec_alloc junk (u32_add (vec_size vec) n)) (\<lambda>ext.
          let el = isl_seq_cpy (vec_el ext) (vec_el vec) pos;
              el = at_off (pos + n) (\<lambda>p. isl_seq_cpy p (drop pos (vec_el vec)) (vec_size vec - pos)) el
          in Inr (ext\<lparr>vec_el := el\<rparr>))))"

definition isl_vec_add_els :: "isl_int junk \<Rightarrow> isl_vec res \<Rightarrow> nat \<Rightarrow> isl_vec res" where
  "isl_vec_add_els junk vec n = take1 vec (\<lambda>v. isl_vec_insert_els junk vec (vec_size v) n)"



definition isl_vec_reorder :: "isl_int junk \<Rightarrow> isl_vec res \<Rightarrow> nat \<Rightarrow> isl_reordering res \<Rightarrow> isl_vec res" where
  "isl_vec_reorder junk vec offset r = take2 vec r (\<lambda>vec r.
     take1 (isl_vec_alloc junk (u32_add offset (r_dst_len r))) (\<lambda>res.
       let el = isl_seq_cpy (vec_el res) (vec_el vec) offset;
           el = at_off offset (\<lambda>p. isl_seq_clr p (vec_size res - offset)) el;
           el = for_range 0 (r_src_len r) (\<lambda>i el. el[offset + r_pos r ! i := vec_el vec ! (offset + i)]) el
       in Inr (res\<lparr>vec_el := el\<rparr>)))"

subsection \<open>What the operations compute\<close>

definition mk_vec :: "isl_seq \<Rightarrow> isl_vec" where
  "mk_vec xs = \<lparr>vec_size = length xs, vec_el = xs\<rparr>"

lemma mk_vec_sel [simp]: "vec_size (mk_vec xs) = length xs" "vec_el (mk_vec xs) = xs" "vec_ok (mk_vec xs)"
  by (simp_all add: mk_vec_def vec_ok_def)

lemma vec_ok_mk_vec: "vec_ok v \<longleftrightarrow> v = mk_vec (vec_el v)"
  by (cases v) (auto simp: vec_ok_def mk_vec_def)

lemma mk_vec_eq_iff [simp]: "mk_vec xs = mk_vec ys \<longleftrightarrow> xs = ys"
  by (auto simp: mk_vec_def)

lemma mk_vec_update [simp]: "length ys = length xs \<Longrightarrow> mk_vec xs\<lparr>vec_el := ys\<rparr> = mk_vec ys"
  by (simp add: mk_vec_def)

lemma mk_vec_resize: "n = length ys \<Longrightarrow> mk_vec xs\<lparr>vec_size := n, vec_el := ys\<rparr> = mk_vec ys"
  by (simp add: mk_vec_def)

lemma isl_vec_alloc_mk: "isl_vec_alloc junk n = Inr (mk_vec (fresh junk n))"
  by (simp add: isl_vec_alloc_def mk_vec_def)

lemma map_nth_upt: "len \<le> length s \<Longrightarrow> map (\<lambda>i. s ! i) [0..<len] = take len s"
  by (rule nth_equalityI) auto

lemma isl_seq_cpy_closed:
  "len \<le> length p \<Longrightarrow> len \<le> length s \<Longrightarrow> isl_seq_cpy p s len = take len s @ drop len p"
  by (simp add: seq_write_closed map_nth_upt)

lemma isl_vec_extend_mk:
  "isl_vec_extend junk (Inr (mk_vec xs)) n =
    Inr (mk_vec (if n \<le> length xs then xs else xs @ fresh junk (n - length xs)))"
  by (simp add: isl_vec_extend_def mk_vec_resize)

lemma isl_vec_dup_mk: "isl_vec_dup junk (Inr (mk_vec xs)) = Inr (mk_vec xs)"
  by (simp add: isl_vec_dup_def isl_vec_alloc_mk isl_seq_cpy_closed)

lemma isl_vec_zero_mk: "isl_vec_zero junk n = Inr (mk_vec (replicate n 0))"
  by (simp add: isl_vec_zero_def isl_vec_alloc_mk seq_write_closed)

lemma isl_vec_zero_extend_mk:
  "isl_vec_zero_extend junk (Inr (mk_vec xs)) n = Inr (mk_vec (xs @ replicate (n - length xs) 0))"
  by (auto simp: isl_vec_zero_extend_def isl_vec_extend_mk seq_write_closed at_off_def Let_def)

lemma isl_vec_concat_mk:
  assumes "length xs + length ys < 2 ^ 32"
  shows "isl_vec_concat junk (Inr (mk_vec xs)) (Inr (mk_vec ys)) = Inr (mk_vec (xs @ ys))"
  using assms
  by (auto simp: isl_vec_concat_def isl_vec_extend_mk isl_seq_cpy_closed at_off_def)




text \<open>Moving: the elements are taken out and put back in at the new position.\<close>

definition move_list :: "nat \<Rightarrow> nat \<Rightarrow> nat \<Rightarrow> 'a list \<Rightarrow> 'a list" where
  "move_list dst src n xs =
     (let rest = take src xs @ drop (src + n) xs
      in take dst rest @ take n (drop src xs) @ drop dst rest)"

lemma nth_insert_segment:
  assumes "dst \<le> length rest" and "k < length rest + length seg"
  shows "(take dst rest @ seg @ drop dst rest) ! k =
    (if k < dst then rest ! k else if k < dst + length seg then seg ! (k - dst) else rest ! (k - length seg))"
proof -
  have "dst + (k - dst - length seg) = k - length seg" if "dst + length seg \<le> k" using that by linarith
  then show ?thesis using assms by (auto simp: nth_append less_diff_conv2 not_less)
qed

lemma move_list_nth:
  assumes "src + n \<le> length xs" and "dst + n \<le> length xs" and "k < length xs"
  shows "move_list dst src n xs ! k =
    (if dst \<le> k \<and> k < dst + n then xs ! (k - dst + src)
     else let r = (if k < dst then k else k - n) in xs ! (if r < src then r else r + n))"
proof -
  define rest where "rest = take src xs @ drop (src + n) xs"
  have len: "length rest = length xs - n" using assms by (simp add: rest_def)
  have rest: "rest ! r = xs ! (if r < src then r else r + n)" if "r < length xs - n" for r
  proof (cases "r < src")
    case False
    then have "src + n + (r - src) = r + n" by simp
    with False that assms show ?thesis by (simp add: rest_def nth_append add.commute)
  qed (use assms in \<open>simp add: rest_def nth_append\<close>)
  have "move_list dst src n xs ! k = (take dst rest @ take n (drop src xs) @ drop dst rest) ! k"
    by (simp add: move_list_def rest_def)
  also have "\<dots> = (if k < dst then rest ! k else if k < dst + n then xs ! (k - dst + src) else rest ! (k - n))"
    using assms len nth_insert_segment [of dst rest k "take n (drop src xs)"] by (simp add: add.commute)
  finally show ?thesis using rest [of k] rest [of "k - n"] assms by (simp add: Let_def)
qed

lemma length_move_list [simp]:
  "src + n \<le> length xs \<Longrightarrow> dst + n \<le> length xs \<Longrightarrow> length (move_list dst src n xs) = length xs"
  by (simp add: move_list_def Let_def)

lemma at_off_cpy:
  assumes "off + len \<le> length r" and "len \<le> length s"
  shows "at_off off (\<lambda>p. isl_seq_cpy p s len) r = take off r @ take len s @ drop (off + len) r"
  using assms by (simp add: at_off_def isl_seq_cpy_closed add.commute)



lemma isl_vec_reorder_mk:
  assumes "offset + r_dst_len r < 2 ^ 32" and "offset + r_src_len r \<le> length xs"
    and "length (r_pos r) = r_src_len r" and "distinct (r_pos r)" and "\<forall>p \<in> set (r_pos r). p < r_dst_len r"
  shows "\<exists>ys. isl_vec_reorder junk (Inr (mk_vec xs)) offset (Inr r) = Inr (mk_vec ys) \<and>
    length ys = offset + r_dst_len r \<and> (\<forall>k<offset. ys ! k = xs ! k) \<and>
    (\<forall>i<r_src_len r. ys ! (offset + r_pos r ! i) = xs ! (offset + i)) \<and>
    (\<forall>p<r_dst_len r. p \<notin> set (r_pos r) \<longrightarrow> ys ! (offset + p) = 0)"
proof -
  define e0 where "e0 = at_off offset (\<lambda>p. isl_seq_clr p (r_dst_len r))
      (isl_seq_cpy (fresh junk (offset + r_dst_len r)) xs offset)"
  have e0: "e0 = take offset xs @ replicate (r_dst_len r) 0"
    using assms by (simp add: e0_def isl_seq_cpy_closed at_off_def seq_write_closed)
  let ?st = "\<lambda>i el. el[offset + r_pos r ! i := xs ! (offset + i)]"
  have pos: "r_pos r ! i < r_dst_len r" "r_pos r ! i \<in> set (r_pos r)" if "i < r_src_len r" for i
    using that assms by auto
  have inv: "length el = offset + r_dst_len r \<and> (\<forall>k<offset. el ! k = xs ! k) \<and>
      (\<forall>i<n. el ! (offset + r_pos r ! i) = xs ! (offset + i)) \<and>
      (\<forall>p<r_dst_len r. p \<notin> set (r_pos r) \<longrightarrow> el ! (offset + p) = 0)"
    if "el = for_range 0 n ?st e0" and "n \<le> r_src_len r" for n el
    using that
  proof (induction n arbitrary: el)
    case 0
    then show ?case using e0 assms by (auto simp: nth_append)
  next
    case (Suc n)
    let ?el = "for_range 0 n ?st e0"
    have el: "el = ?st n ?el" using Suc.prems by (simp add: for_range_Suc)
    have len: "length ?el = offset + r_dst_len r" using Suc.IH [of ?el] Suc.prems(2) by simp
    have ne: "r_pos r ! i \<noteq> r_pos r ! n" if "i < n" for i
      using that Suc.prems(2) assms(3,4) by (simp add: nth_eq_iff_index_eq)
    have nz: "p \<noteq> r_pos r ! n" if "p \<notin> set (r_pos r)" for p using pos(2) [of n] Suc.prems(2) that by auto
    have IH: "\<forall>k<offset. ?el ! k = xs ! k" "\<forall>i<n. ?el ! (offset + r_pos r ! i) = xs ! (offset + i)"
      "\<forall>p<r_dst_len r. p \<notin> set (r_pos r) \<longrightarrow> ?el ! (offset + p) = 0"
      using Suc.IH [of ?el] Suc.prems(2) by simp_all
    have in_range: "offset + r_pos r ! n < length ?el" using pos(1) [of n] Suc.prems(2) len by simp
    show ?case unfolding el
    proof (intro conjI allI impI)
      fix i assume "i < Suc n"
      then show "?st n ?el ! (offset + r_pos r ! i) = xs ! (offset + i)"
        using IH(2) ne [of i] in_range by (cases "i = n") (simp_all add: less_Suc_eq)
    next
      fix p assume "p < r_dst_len r" "p \<notin> set (r_pos r)"
      then show "?st n ?el ! (offset + p) = 0" using IH(3) nz [of p] by simp
    qed (use IH(1) len in simp_all)
  qed
  have "isl_vec_reorder junk (Inr (mk_vec xs)) offset (Inr r) = Inr (mk_vec (for_range 0 (r_src_len r) ?st e0))"
    using inv [OF refl, of "r_src_len r"] assms(1)
    by (simp add: isl_vec_reorder_def isl_vec_alloc_mk Let_def flip: e0_def)
  with inv [OF refl, of "r_src_len r"] show ?thesis by blast
qed

subsection \<open>Expansion\<close>

lemma shift_up_loop:
  assumes "lo \<le> hi" and "hi + extra \<le> length el"
  shows "length (for_down lo hi (\<lambda>i el. el[i + extra := el ! i]) el) = length el"
    and "k < length el \<Longrightarrow> for_down lo hi (\<lambda>i el. el[i + extra := el ! i]) el ! k =
      (if lo + extra \<le> k \<and> k < hi + extra then el ! (k - extra) else el ! k)"
proof -
  let ?P = "\<lambda>i t. length t = length el \<and>
    (\<forall>k<length el. t ! k = (if i + extra \<le> k \<and> k < hi + extra then el ! (k - extra) else el ! k))"
  have "?P lo (for_down lo hi (\<lambda>i el. el[i + extra := el ! i]) el)"
    using assms(1)
  proof (rule for_down_induct [where P = ?P])
    fix i t assume i: "lo \<le> i" "i < hi" and P: "?P (Suc i) t"
    have "t ! i = el ! i" using P i assms(2) by simp
    moreover have "i + extra < length t" using P i assms(2) by simp
    ultimately show "?P i (t[i + extra := t ! i])"
      using P i by (auto simp: nth_list_update)
  next
    show "?P hi el" by auto
  qed
  then show "length (for_down lo hi (\<lambda>i el. el[i + extra := el ! i]) el) = length el"
    "k < length el \<Longrightarrow> for_down lo hi (\<lambda>i el. el[i + extra := el ! i]) el ! k =
      (if lo + extra \<le> k \<and> k < hi + extra then el ! (k - extra) else el ! k)"
    by simp_all
qed

text \<open>
  The elements at and above \<open>i\<close> of the expanded range are final, the elements up to
  \<open>j\<close>, which belong below \<open>i\<close>, are still in place, and everything outside the range is untouched.
\<close>

definition expand_inv :: "isl_seq \<Rightarrow> nat \<Rightarrow> nat \<Rightarrow> int list \<Rightarrow> nat \<Rightarrow> nat \<Rightarrow> int \<times> isl_seq \<Rightarrow> bool" where
  "expand_inv el0 pos n ex expanded i = (\<lambda>(j, el).
     length el = length el0 \<and> - 1 \<le> j \<and> j < int n \<and>
     (\<forall>k<n. int k \<le> j \<longleftrightarrow> ex ! k < int i) \<and>
     (\<forall>k<n. int k \<le> j \<longrightarrow> el ! (pos + k) = el0 ! (pos + k)) \<and>
     (\<forall>k<n. int i \<le> ex ! k \<longrightarrow> el ! (pos + nat (ex ! k)) = el0 ! (pos + k)) \<and>
     (\<forall>q. i \<le> q \<and> q < expanded \<and> int q \<notin> set (take n ex) \<longrightarrow> el ! (pos + q) = 0) \<and>
     (\<forall>p<length el0. p < pos \<or> pos + expanded \<le> p \<longrightarrow> el ! p = el0 ! p))"

definition expansion :: "int list \<Rightarrow> nat \<Rightarrow> nat \<Rightarrow> bool" where
  "expansion ex n expanded = (n \<le> length ex \<and> sorted_wrt (<) (take n ex) \<and>
     (\<forall>k<n. 0 \<le> ex ! k \<and> ex ! k < int expanded))"

lemma expansion_mono:
  assumes "expansion ex n expanded" and "k < l" and "l < n"
  shows "ex ! k < ex ! l"
  using assms sorted_wrt_nth_less [of "(<)" "take n ex" k l] by (simp add: expansion_def)

lemma expansion_ge:
  assumes "expansion ex n expanded" and "k < n"
  shows "int k \<le> ex ! k"
  using assms(2)
proof (induction k)
  case 0
  then show ?case using assms(1) by (simp add: expansion_def)
next
  case (Suc k)
  then show ?case using expansion_mono [OF assms(1), of k "Suc k"] by simp
qed

lemma expand_step_inv:
  assumes ex: "expansion ex n expanded" and len: "pos + expanded \<le> length el0" and i: "i < expanded"
    and inv: "expand_inv el0 pos n ex expanded (Suc i) (j, el)"
  shows "expand_inv el0 pos n ex expanded i (expand_step pos ex i (j, el))"
proof -
  have I: "length el = length el0" "- 1 \<le> j" "j < int n"
    and less: "\<And>k. k < n \<Longrightarrow> int k \<le> j \<longleftrightarrow> ex ! k < int i + 1"
    and keep: "\<And>k. k < n \<Longrightarrow> int k \<le> j \<Longrightarrow> el ! (pos + k) = el0 ! (pos + k)"
    and placed: "\<And>k. k < n \<Longrightarrow> int i + 1 \<le> ex ! k \<Longrightarrow> el ! (pos + nat (ex ! k)) = el0 ! (pos + k)"
    and zero: "\<And>q. Suc i \<le> q \<Longrightarrow> q < expanded \<Longrightarrow> int q \<notin> set (take n ex) \<Longrightarrow> el ! (pos + q) = 0"
    and out: "\<And>p. p < length el0 \<Longrightarrow> p < pos \<or> pos + expanded \<le> p \<Longrightarrow> el ! p = el0 ! p"
    using inv by (auto simp: expand_inv_def)
  note mono = expansion_mono [OF ex] and ge = expansion_ge [OF ex]
  have inset: "\<And>k. k < n \<Longrightarrow> ex ! k \<in> set (take n ex)"
    using ex by (auto simp: expansion_def in_set_conv_nth)
  have range: "\<And>k. k < n \<Longrightarrow> 0 \<le> ex ! k \<and> ex ! k < int expanded" using ex by (simp add: expansion_def)
  show ?thesis
  proof (cases "0 \<le> j \<and> ex ! nat j = int i")
    case True
    define m where "m = nat j"
    have m: "j = int m" "m < n" "ex ! m = int i" using True I(3) by (auto simp: m_def)
    have mi: "m \<le> i" using ge [OF m(2)] m(3) by simp
    let ?el = "if i \<noteq> m then el[pos + i := el ! (pos + m), pos + m := el ! (pos + i)] else el"
    have step: "expand_step pos ex i (j, el) = (int m - 1, ?el)"
      using m by (simp add: expand_step_def)
    have lens: "pos + i < length el" "pos + m < length el" using I(1) len i mi by simp_all
    have nth: "?el ! (pos + q) = (if q = i then el ! (pos + m) else if q = m then el ! (pos + i) else el ! (pos + q))" for q
      using lens by (auto simp: nth_list_update)
    have nth': "p < pos \<or> pos + expanded \<le> p \<Longrightarrow> ?el ! p = el ! p" for p
      using i mi by auto
    have ltm: "ex ! k < int i \<longleftrightarrow> k < m" if "k < n" for k
      using mono [of k m] mono [of m k] m that by (metis linorder_neqE_nat order_less_asym order_less_irrefl)
    have gtm: "k = m \<or> int i + 1 \<le> ex ! k" if "k < n" "int i \<le> ex ! k" for k
      using that ltm [of k] mono [of m k] m by (metis linorder_not_less zle_add1_eq_le less_le zless_imp_add1_zle linorder_neqE_nat)
    show ?thesis
      unfolding step expand_inv_def prod.case
    proof (intro conjI allI impI)
      show "length ?el = length el0" using I(1) by simp
      show "int k \<le> int m - 1 \<longleftrightarrow> ex ! k < int i" if "k < n" for k using ltm that by auto
      show "?el ! (pos + k) = el0 ! (pos + k)" if "k < n" "int k \<le> int m - 1" for k
        using that mi keep [of k] m(1) nth [of k] by simp
      show "?el ! (pos + nat (ex ! k)) = el0 ! (pos + k)" if k: "k < n" "int i \<le> ex ! k" for k
        using gtm [OF k]
      proof
        assume "k = m"
        then show ?thesis using m nth [of i] keep [of m] by simp
      next
        assume "int i + 1 \<le> ex ! k"
        then have "nat (ex ! k) \<noteq> i" "nat (ex ! k) \<noteq> m" using mi by auto
        then show ?thesis using \<open>int i + 1 \<le> ex ! k\<close> k placed [of k] nth [of "nat (ex ! k)"] by simp
      qed
      show "?el ! (pos + q) = 0" if "i \<le> q \<and> q < expanded \<and> int q \<notin> set (take n ex)" for q
      proof -
        have "q \<noteq> i" using that inset [of m] m by auto
        then show ?thesis using that zero [of q] nth [of q] mi by simp
      qed
      show "?el ! p = el0 ! p" if "p < length el0" "p < pos \<or> pos + expanded \<le> p" for p
        using nth' out that by simp
    qed (use m in simp_all)
  next
    case False
    have step: "expand_step pos ex i (j, el) = (j, el[pos + i := 0])"
      using False by (auto simp: expand_step_def)
    have lens: "pos + i < length el" using I(1) len i by simp
    have nei: "ex ! k \<noteq> int i" if "k < n" for k
    proof
      assume e: "ex ! k = int i"
      then have kj: "int k \<le> j" using less that by simp
      then have "nat j < n" "k \<le> nat j" using I(3) by simp_all
      moreover have "k \<noteq> nat j" using False e kj by auto
      ultimately have "ex ! k < ex ! nat j" using mono by simp
      moreover have "ex ! nat j < int i + 1" using less [of "nat j"] \<open>nat j < n\<close> kj by simp
      ultimately show False using e by simp
    qed
    have small: "k < i" if "k < n" "int k \<le> j" for k
      using less [OF that(1)] nei [OF that(1)] ge [OF that(1)] that(2) by simp
    show ?thesis
      unfolding step expand_inv_def prod.case
    proof (intro conjI allI impI)
      show "int k \<le> j \<longleftrightarrow> ex ! k < int i" if "k < n" for k using less [OF that] nei [OF that] by auto
      show "el[pos + i := 0] ! (pos + k) = el0 ! (pos + k)" if "k < n" "int k \<le> j" for k
        using small [OF that] keep that by simp
      show "el[pos + i := 0] ! (pos + nat (ex ! k)) = el0 ! (pos + k)" if k: "k < n" "int i \<le> ex ! k" for k
        using k placed [of k] nei [of k] by simp
      show "el[pos + i := 0] ! (pos + q) = 0" if "i \<le> q \<and> q < expanded \<and> int q \<notin> set (take n ex)" for q
        using that zero [of q] lens by (cases "q = i") simp_all
      show "el[pos + i := 0] ! p = el0 ! p" if "p < length el0" "p < pos \<or> pos + expanded \<le> p" for p
        using out [of p] that i by auto
    qed (use I in simp_all)
  qed
qed

lemma isl_vec_expand_mk:
  assumes ex: "expansion ex n expanded" and n: "n < expanded" and pos: "pos + n \<le> length xs"
  shows "\<exists>ys. isl_vec_expand junk (Inr (mk_vec xs)) (int pos) (int n) ex (int expanded) = Inr (mk_vec ys) \<and>
    length ys = length xs + (expanded - n) \<and> take pos ys = take pos xs \<and>
    drop (pos + expanded) ys = drop (pos + n) xs \<and>
    (\<forall>k<n. ys ! (pos + nat (ex ! k)) = xs ! (pos + k)) \<and>
    (\<forall>q<expanded. int q \<notin> set (take n ex) \<longrightarrow> ys ! (pos + q) = 0)"
proof -
  define extra where "extra = expanded - n"
  define e1 where "e1 = xs @ fresh junk extra"
  define e2 where "e2 = for_down (pos + n) (length xs) (\<lambda>i el. el[i + extra := el ! i]) e1"
  define r where "r = for_down 0 expanded (expand_step pos ex) (int n - 1, e2)"
  have len1: "length e1 = length xs + extra" by (simp add: e1_def)
  note shift = shift_up_loop [of "pos + n" "length xs" extra e1, OF pos]
  have len2: "length e2 = length xs + extra" using shift(1) len1 by (simp add: e2_def)
  have nth2: "e2 ! k = (if pos + expanded \<le> k then xs ! (k - extra) else e1 ! k)" if "k < length xs + extra" for k
  proof -
    have "pos + n + extra = pos + expanded" using n by (simp add: extra_def)
    then have "e2 ! k = (if pos + expanded \<le> k then e1 ! (k - extra) else e1 ! k)"
      using shift(2) len1 that by (simp add: e2_def)
    moreover have "pos + expanded \<le> k \<Longrightarrow> k - extra < length xs" using that n pos by (simp add: extra_def) 
    ultimately show ?thesis by (simp add: e1_def nth_append)
  qed
  have inv: "expand_inv e2 pos n ex expanded 0 r"
    unfolding r_def
  proof (rule for_down_induct [where P = "expand_inv e2 pos n ex expanded"])
    have "ex ! k < int expanded \<and> \<not> int expanded \<le> ex ! k" if "k < n" for k
      using ex that by (auto simp: expansion_def not_le)
    then show "expand_inv e2 pos n ex expanded expanded (int n - 1, e2)"
      unfolding expand_inv_def prod.case by (intro conjI allI impI) auto
  next
    fix i t assume "i < expanded" "expand_inv e2 pos n ex expanded (Suc i) t"
    moreover have "pos + expanded \<le> length e2" using len2 n pos by (simp add: extra_def)
    ultimately show "expand_inv e2 pos n ex expanded i (expand_step pos ex i t)"
      using expand_step_inv [OF ex] by (cases t) simp
  qed simp
  obtain j ys where r: "r = (j, ys)" by (cases r)
  have len: "length ys = length xs + extra" using inv len2 by (simp add: r expand_inv_def)
  have I: "\<And>k. k < n \<Longrightarrow> ys ! (pos + nat (ex ! k)) = e2 ! (pos + k)"
    "\<And>q. q < expanded \<Longrightarrow> int q \<notin> set (take n ex) \<Longrightarrow> ys ! (pos + q) = 0"
    "\<And>p. p < length e2 \<Longrightarrow> p < pos \<or> pos + expanded \<le> p \<Longrightarrow> ys ! p = e2 ! p"
    using inv ex by (auto simp: r expand_inv_def expansion_def)
  have "isl_vec_expand junk (Inr (mk_vec xs)) (int pos) (int n) ex (int expanded) = Inr (mk_vec ys)"
  proof -
    have "nat (int expanded - int n) = extra" "nat (int pos + int n) = pos + n" "length xs + extra - length xs = extra"
      using n by (simp_all add: extra_def)
    moreover have "\<not> length xs + extra \<le> length xs" using n by (simp add: extra_def)
    ultimately show ?thesis
      using n pos len r len1
      by (simp add: isl_vec_expand_def isl_vec_extend_mk flip: e1_def e2_def) (simp add: r_def [symmetric])
  qed
  moreover have "take pos ys = take pos xs"
    using I(3) len len2 nth2 pos n by (intro nth_equalityI) (auto simp: e1_def nth_append extra_def)
  moreover have "drop (pos + expanded) ys = drop (pos + n) xs"
  proof (rule nth_equalityI)
    fix k assume "k < length (drop (pos + expanded) ys)"
    then have k: "pos + expanded + k < length xs + extra" using len by simp
    then have "ys ! (pos + expanded + k) = xs ! (pos + expanded + k - extra)" using I(3) len2 nth2 by simp
    moreover have "pos + expanded + k - extra = pos + n + k" using n by (simp add: extra_def)
    ultimately show "drop (pos + expanded) ys ! k = drop (pos + n) xs ! k"
      using k len pos n by (simp add: extra_def ac_simps)
  qed (use len pos n in \<open>simp add: extra_def\<close>)
  moreover have "e2 ! (pos + k) = xs ! (pos + k)" if "k < n" for k
    using nth2 [of "pos + k"] that n pos by (simp add: e1_def nth_append)
  ultimately show ?thesis using I(1,2) len by (auto simp: extra_def)
qed

subsection \<open>Element-wise operations\<close>

lemma isl_vec_pointwise_mk:
  "isl_vec_neg (Inr (mk_vec xs)) = Inr (mk_vec (map uminus xs))"
  "isl_vec_scale (Inr (mk_vec xs)) m = Inr (mk_vec (map (\<lambda>x. x * m) xs))"
  "isl_vec_fdiv_r (Inr (mk_vec xs)) m = Inr (mk_vec (map (\<lambda>x. x mod m) xs))"
  "isl_vec_clr (Inr (mk_vec xs)) = Inr (mk_vec (replicate (length xs) 0))"
  "isl_vec_set (Inr (mk_vec xs)) c = Inr (mk_vec (replicate (length xs) c))"
  "isl_vec_sort (Inr (mk_vec xs)) = Inr (mk_vec (sort xs))"
proof -
  have m: "map (\<lambda>i. f (xs ! i)) [0..<length xs] = map f xs" for f :: "int \<Rightarrow> int"
    by (rule nth_equalityI) auto
  show "isl_vec_neg (Inr (mk_vec xs)) = Inr (mk_vec (map uminus xs))"
    using m [of uminus] by (simp add: isl_vec_neg_def seq_write_closed)
  show "isl_vec_scale (Inr (mk_vec xs)) k = Inr (mk_vec (map (\<lambda>x. x * k) xs))" for k
    using m [of "\<lambda>x. x * k"] by (simp add: isl_vec_scale_def seq_write_closed)
  show "isl_vec_fdiv_r (Inr (mk_vec xs)) m = Inr (mk_vec (map (\<lambda>x. x mod m) xs))"
    using m [of "\<lambda>x. x mod m"] by (simp add: isl_vec_fdiv_r_def seq_write_closed isl_int_fdiv_r_def)
qed (simp_all add: isl_vec_clr_def isl_vec_set_def isl_vec_sort_def seq_write_closed)

lemma isl_vec_add_mk:
  "isl_vec_add (Inr (mk_vec xs)) (Inr (mk_vec ys)) =
    (if length xs = length ys then Inr (mk_vec (map2 (+) xs ys)) else Inl isl_error_unknown)"
proof (cases "length xs = length ys")
  case True
  then have "isl_seq_combine_inplace xs 1 1 ys (length xs) = map2 (+) xs ys"
    by (intro nth_equalityI) (auto simp: seq_simps)
  with True show ?thesis by (simp add: isl_vec_add_def)
qed (simp add: isl_vec_add_def)

lemma isl_vec_is_equal_mk:
  "isl_vec_is_equal (Inr (mk_vec xs)) (Inr (mk_vec ys)) = Inr (xs = ys)"
  by (auto simp: isl_vec_is_equal_def isl_seq_eq_take)

lemma isl_vec_is_zero_mk:
  "isl_vec_is_zero (Inr (mk_vec xs)) = Inr (\<forall>x\<in>set xs. x = 0)"
  by (simp add: isl_vec_is_zero_def seq_simps set_conv_nth) blast

text \<open>Rounding up a rational vector: the coordinates are the ceilings of the old ones.\<close>

lemma isl_vec_ceil_mk:
  assumes "xs \<noteq> []"
  shows "isl_vec_ceil (Inr (mk_vec xs)) = Inr (mk_vec (1 # map (\<lambda>x. isl_int_cdiv_q x (hd xs)) (tl xs)))"
proof -
  obtain d ys where xs: "xs = d # ys" using assms by (cases xs) auto
  have "map (\<lambda>i. isl_int_cdiv_q (ys ! i) d) [0..<length ys] = map (\<lambda>x. isl_int_cdiv_q x d) ys"
    by (rule nth_equalityI) auto
  then show ?thesis by (simp add: xs isl_vec_ceil_def Let_def at_off_def seq_write_closed)
qed

text \<open>A range that wraps around slips through the check of \<open>isl_vec_drop_els\<close>.\<close>

lemma isl_vec_drop_els_wrapped:
  assumes "pos < 2 ^ 32" and "n < 2 ^ 32" and "2 ^ 32 \<le> pos + n" and "pos + n - 2 ^ 32 \<le> length xs"
  shows "\<exists>v. isl_vec_drop_els (Inr (mk_vec xs)) pos n = Inr v"
proof -
  have "u32_add pos n = pos + n - 2 ^ 32" using assms by (simp add: u32_add_wraps)
  then show ?thesis using assms by (auto simp: isl_vec_drop_els_def Let_def)
qed

subsection \<open>Properties\<close>





text \<open>
  Expanding \<open>n\<close> elements at \<open>pos\<close> along an increasing position list places element \<open>k\<close>
  at its new position, fills the positions that are not hit with zeroes, shifts the
  elements behind the range and keeps the ones before it, whatever the enlarged vector
  held in its new memory.
\<close>

theorem vec_expand_places:
  assumes "expansion ex n expanded" and "n < expanded" and "pos + n \<le> length xs"
  shows "\<exists>ys. isl_vec_expand junk (Inr (mk_vec xs)) (int pos) (int n) ex (int expanded) = Inr (mk_vec ys) \<and>
    length ys = length xs + (expanded - n) \<and> take pos ys = take pos xs \<and>
    drop (pos + expanded) ys = drop (pos + n) xs \<and>
    (\<forall>k<n. ys ! (pos + nat (ex ! k)) = xs ! (pos + k)) \<and>
    (\<forall>q<expanded. int q \<notin> set (take n ex) \<longrightarrow> ys ! (pos + q) = 0)"
  using assms by (rule isl_vec_expand_mk)

theorem vec_expand_places_witness:
  "\<exists>ys. isl_vec_expand (\<lambda>_. 9) (Inr (mk_vec [5, 6, 7, 8])) 1 2 [1, 3] 4 = Inr (mk_vec ys) \<and>
    length ys = 6 \<and> take 1 ys = [5] \<and> drop 5 ys = [8] \<and> ys ! 2 = 6 \<and> ys ! 4 = 7 \<and> ys ! 1 = 0 \<and> ys ! 3 = 0"
proof -
  have ex: "expansion [1, 3] 2 4" by (simp add: expansion_def numeral_2_eq_2 less_Suc_eq)
  obtain ys where
    y: "isl_vec_expand (\<lambda>_. 9) (Inr (mk_vec [5, 6, 7, 8])) (int 1) (int 2) [1, 3] (int 4) = Inr (mk_vec ys)"
      "length ys = length [5, 6, 7, 8 :: int] + (4 - 2)" "take 1 ys = take 1 [5, 6, 7, 8]"
      "drop (1 + 4) ys = drop (1 + 2) [5, 6, 7, 8]"
      "\<forall>k<2. ys ! (1 + nat ([1, 3] ! k)) = [5, 6, 7, 8] ! (1 + k)"
      "\<forall>q<4. int q \<notin> set (take 2 [1, 3]) \<longrightarrow> ys ! (1 + q) = 0"
    using vec_expand_places [OF ex, of 1 "[5, 6, 7, 8]" "\<lambda>_. 9"] by auto
  have "ys ! 2 = 6" using y(5) [rule_format, of 0] by (simp add: numeral_2_eq_2)
  moreover have "ys ! 4 = 7" using y(5) [rule_format, of 1] by simp
  moreover have "ys ! 1 = 0" using y(6) [rule_format, of 0] by simp
  moreover have "ys ! 3 = 0" using y(6) [rule_format, of 2] by (simp add: numeral_3_eq_3 numeral_2_eq_2)
  ultimately show ?thesis using y(1-4) by (intro exI [of _ ys]) simp
qed

end
