(* ===== verification/Mat.thy ===== *)
theory Mat imports Vec begin

text \<open>
  Matrices (isl_mat.c, first part): the data structure, element access, construction,
  copying of blocks, row and column operations, products.  \<open>mat_row\<close> holds the rows in
  memory: at least \<open>n_row\<close> of them, each at least \<open>n_col\<close> long.  Positions and sizes
  are 32-bit unsigned numbers where the code adds them.
\<close>

named_theorems mat_simps \<open>dimensions and entries of the results of the operations\<close>

record isl_mat =
  n_row :: nat
  n_col :: nat
  mat_row :: "isl_int list list"
  max_col :: nat
  mat_borrowed :: bool

definition mat_ok :: "isl_mat \<Rightarrow> bool" where
  "mat_ok M = (n_row M \<le> length (mat_row M) \<and> (\<forall>i < n_row M. n_col M \<le> length (mat_row M ! i)))"

definition ent :: "isl_mat \<Rightarrow> nat \<Rightarrow> nat \<Rightarrow> isl_int" where
  "ent M i j = mat_row M ! i ! j"

text \<open>Writing one element, and running an operation on one row.\<close>

definition set_ent :: "isl_int list list \<Rightarrow> nat \<Rightarrow> nat \<Rightarrow> isl_int \<Rightarrow> isl_int list list" where
  "set_ent rs i j v = rs[i := (rs ! i)[j := v]]"

definition upd_row :: "isl_int list list \<Rightarrow> nat \<Rightarrow> (isl_seq \<Rightarrow> isl_seq) \<Rightarrow> isl_int list list" where
  "upd_row rs i f = rs[i := f (rs ! i)]"

subsection \<open>Creation and copying\<close>

definition isl_mat_alloc :: "isl_int junk \<Rightarrow> nat \<Rightarrow> nat \<Rightarrow> isl_mat res" where
  "isl_mat_alloc junk nr nc = Inr
     \<lparr>n_row = nr, n_col = nc, mat_row = map (\<lambda>i. map (\<lambda>j. junk (i * nc + j)) [0..<nc]) [0..<nr],
      max_col = nc, mat_borrowed = False\<rparr>"

definition isl_mat_extend :: "isl_int junk \<Rightarrow> isl_mat res \<Rightarrow> nat \<Rightarrow> nat \<Rightarrow> isl_mat res" where
  "isl_mat_extend junk mat nr nc = take1 mat (\<lambda>mat.
     if nc \<le> max_col mat \<and> nr \<le> n_row mat
     then Inr (if n_col mat < nc then mat\<lparr>n_col := nc\<rparr> else mat)
     else if max_col mat < nc
     then let nr = (if nr < n_row mat then n_row mat else nr)
          in take1 (isl_mat_alloc junk nr nc) (\<lambda>new_mat.
               Inr (new_mat\<lparr>mat_row := for_range 0 (n_row mat)
                 (\<lambda>i rs. upd_row rs i (\<lambda>p. isl_seq_cpy p (mat_row mat ! i) (n_col mat))) (mat_row new_mat)\<rparr>))
     else let rows = take (n_row mat) (mat_row mat) @
                map (\<lambda>i. map (\<lambda>j. junk (i * max_col mat + j)) [0..<max_col mat]) [n_row mat..<nr];
              mat = mat\<lparr>mat_row := rows, n_row := nr\<rparr>
          in Inr (if n_col mat < nc then mat\<lparr>n_col := nc\<rparr> else mat))"

text \<open>
  A view on a block of rows: the model copies the block, the code shares it.  The code
  leaves \<open>max_col\<close> unset.
\<close>

definition isl_mat_sub_alloc6 ::
  "nat \<Rightarrow> isl_int list list \<Rightarrow> nat \<Rightarrow> nat \<Rightarrow> nat \<Rightarrow> nat \<Rightarrow> isl_mat res" where
  "isl_mat_sub_alloc6 unset rows first_row nr first_col nc = Inr
     \<lparr>n_row = nr, n_col = nc, mat_row = map (\<lambda>i. drop first_col (rows ! (first_row + i))) [0..<nr],
      max_col = unset, mat_borrowed = True\<rparr>"

definition isl_mat_sub_alloc :: "nat \<Rightarrow> isl_mat res \<Rightarrow> nat \<Rightarrow> nat \<Rightarrow> nat \<Rightarrow> nat \<Rightarrow> isl_mat res" where
  "isl_mat_sub_alloc unset mat first_row nr first_col nc = take1 mat (\<lambda>mat.
     isl_mat_sub_alloc6 unset (mat_row mat) first_row nr first_col nc)"

definition isl_mat_sub_copy ::
  "isl_int list list \<Rightarrow> isl_int list list \<Rightarrow> nat \<Rightarrow> nat \<Rightarrow> nat \<Rightarrow> nat \<Rightarrow> isl_int list list" where
  "isl_mat_sub_copy dst src nr dst_col src_col nc =
     for_range 0 nr (\<lambda>i dst. upd_row dst i
       (at_off dst_col (\<lambda>p. isl_seq_cpy p (drop src_col (src ! i)) nc))) dst"

definition isl_mat_sub_neg ::
  "isl_int list list \<Rightarrow> isl_int list list \<Rightarrow> nat \<Rightarrow> nat \<Rightarrow> nat \<Rightarrow> nat \<Rightarrow> isl_int list list" where
  "isl_mat_sub_neg dst src nr dst_col src_col nc =
     for_range 0 nr (\<lambda>i dst. upd_row dst i
       (at_off dst_col (\<lambda>p. isl_seq_neg p (drop src_col (src ! i)) nc))) dst"

definition isl_mat_dup :: "isl_int junk \<Rightarrow> isl_mat res \<Rightarrow> isl_mat res" where
  "isl_mat_dup junk mat = take1 mat (\<lambda>mat.
     take1 (isl_mat_alloc junk (n_row mat) (n_col mat)) (\<lambda>mat2.
       Inr (mat2\<lparr>mat_row := for_range 0 (n_row mat)
         (\<lambda>i rs. upd_row rs i (\<lambda>p. isl_seq_cpy p (mat_row mat ! i) (n_col mat))) (mat_row mat2)\<rparr>)))"

definition isl_mat_rows :: "isl_mat res \<Rightarrow> nat res" where
  "isl_mat_rows mat = keep1 mat n_row"

definition isl_mat_cols :: "isl_mat res \<Rightarrow> nat res" where
  "isl_mat_cols mat = keep1 mat n_col"

definition isl_mat_get_hash :: "isl_mat res \<Rightarrow> u32" where
  "isl_mat_get_hash mat = (case mat of Inl _ \<Rightarrow> 0 | Inr mat \<Rightarrow>
     let hash = isl_hash_init;
         hash = isl_hash_byte hash (of_nat (n_row mat) AND 0xFF);
         hash = isl_hash_byte hash (of_nat (n_col mat) AND 0xFF)
     in for_range 0 (n_row mat) (\<lambda>i hash.
          let row_hash = isl_seq_get_hash (mat_row mat ! i) (n_col mat)
          in isl_hash_hash hash row_hash) hash)"

subsection \<open>Range checks\<close>

definition check_col :: "isl_mat res \<Rightarrow> int \<Rightarrow> unit res" where
  "check_col mat col = take1 mat (\<lambda>mat.
     if col < 0 \<or> int (n_col mat) \<le> col then isl_die isl_error_invalid else Inr ())"

definition check_row :: "isl_mat res \<Rightarrow> int \<Rightarrow> unit res" where
  "check_row mat r = take1 mat (\<lambda>mat.
     if r < 0 \<or> int (n_row mat) \<le> r then isl_die isl_error_invalid else Inr ())"

definition check_col_range :: "isl_mat res \<Rightarrow> nat \<Rightarrow> nat \<Rightarrow> unit res" where
  "check_col_range mat first n = take1 mat (\<lambda>mat.
     if u32_add first n > n_col mat \<or> u32_add first n < first then isl_die isl_error_invalid else Inr ())"

definition check_row_range :: "isl_mat res \<Rightarrow> nat \<Rightarrow> nat \<Rightarrow> unit res" where
  "check_row_range mat first n = take1 mat (\<lambda>mat.
     if u32_add first n > n_row mat \<or> u32_add first n < first then isl_die isl_error_invalid else Inr ())"

text \<open>\<open>if (check(...) < 0) return isl_mat_free(mat);\<close>\<close>

definition checked :: "unit res \<Rightarrow> 'a res \<Rightarrow> 'a res" where
  "checked c k = res_bind c (\<lambda>_. k)"

lemma checked_simps [simp]: "checked (Inr u) k = k" "checked (Inl e) k = Inl e"
  by (simp_all add: checked_def)

subsection \<open>Elements\<close>

definition isl_mat_get_element :: "isl_mat res \<Rightarrow> int \<Rightarrow> int \<Rightarrow> isl_int res" where
  "isl_mat_get_element mat r c =
     checked (check_row mat r) (checked (check_col mat c) (keep1 mat (\<lambda>mat. ent mat (nat r) (nat c))))"

definition isl_mat_get_element_val :: "isl_mat res \<Rightarrow> int \<Rightarrow> int \<Rightarrow> isl_val res" where
  "isl_mat_get_element_val mat r c =
     checked (check_row mat r) (checked (check_col mat c)
       (take1 mat (\<lambda>mat. isl_val_int_from_isl_int (ent mat (nat r) (nat c)))))"

definition isl_mat_set_element :: "isl_mat res \<Rightarrow> int \<Rightarrow> int \<Rightarrow> isl_int \<Rightarrow> isl_mat res" where
  "isl_mat_set_element mat r c v =
     checked (check_row mat r) (checked (check_col mat c)
       (take1 mat (\<lambda>mat. Inr (mat\<lparr>mat_row := set_ent (mat_row mat) (nat r) (nat c) v\<rparr>))))"

definition isl_mat_set_element_si :: "isl_mat res \<Rightarrow> int \<Rightarrow> int \<Rightarrow> i32 \<Rightarrow> isl_mat res" where
  "isl_mat_set_element_si mat r c v =
     checked (check_row mat r) (checked (check_col mat c)
       (take1 mat (\<lambda>mat. Inr (mat\<lparr>mat_row := set_ent (mat_row mat) (nat r) (nat c) (sint v)\<rparr>))))"

definition isl_mat_set_element_val :: "isl_mat res \<Rightarrow> int \<Rightarrow> int \<Rightarrow> isl_val res \<Rightarrow> isl_mat res" where
  "isl_mat_set_element_val mat r c v = take1 v (\<lambda>v.
     if \<not> val_is_int v then isl_die isl_error_invalid else isl_mat_set_element mat r c (val_n v))"

subsection \<open>Special matrices\<close>

definition isl_mat_diag :: "isl_int junk \<Rightarrow> nat \<Rightarrow> isl_int \<Rightarrow> isl_mat res" where
  "isl_mat_diag junk nr d = take1 (isl_mat_alloc junk nr nr) (\<lambda>mat.
     Inr (mat\<lparr>mat_row := for_range 0 nr (\<lambda>i rs.
       let rs = upd_row rs i (\<lambda>p. isl_seq_clr p i);
           rs = set_ent rs i i d
       in upd_row rs i (at_off (i + 1) (\<lambda>p. isl_seq_clr p (nr - (i + 1))))) (mat_row mat)\<rparr>))"

definition isl_mat_zero :: "isl_int junk \<Rightarrow> nat \<Rightarrow> nat \<Rightarrow> isl_mat res" where
  "isl_mat_zero junk nr nc = take1 (isl_mat_alloc junk nr nc) (\<lambda>mat.
     Inr (mat\<lparr>mat_row := for_range 0 nr (\<lambda>i rs. upd_row rs i (\<lambda>p. isl_seq_clr p nc)) (mat_row mat)\<rparr>))"

definition isl_mat_identity :: "isl_int junk \<Rightarrow> nat \<Rightarrow> isl_mat res" where
  "isl_mat_identity junk nr = isl_mat_diag junk nr 1"

definition isl_mat_is_scaled_identity :: "isl_mat res \<Rightarrow> bool res" where
  "isl_mat_is_scaled_identity mat = keep1 mat (\<lambda>mat.
     if n_row mat \<noteq> n_col mat then False
     else List.find (\<lambda>i. isl_seq_any_non_zero (mat_row mat ! i) i
                      \<or> ent mat 0 0 \<noteq> ent mat i i
                      \<or> isl_seq_any_non_zero (drop (i + 1) (mat_row mat ! i)) (n_col mat - (i + 1)))
            [0..<n_row mat] = None)"

subsection \<open>Products\<close>

definition isl_mat_vec_product :: "isl_int junk \<Rightarrow> isl_mat res \<Rightarrow> isl_vec res \<Rightarrow> isl_vec res" where
  "isl_mat_vec_product junk mat vec = take2 mat vec (\<lambda>mat vec.
     isl_assert (n_col mat = vec_size vec)
       (take1 (isl_vec_alloc junk (n_row mat)) (\<lambda>prod.
          Inr (prod\<lparr>vec_el := for_range 0 (vec_size prod)
            (\<lambda>i el. el[i := isl_seq_inner_product (mat_row mat ! i) (vec_el vec) (vec_size vec)]) (vec_el prod)\<rparr>))))"

definition isl_vec_mat_product :: "isl_int junk \<Rightarrow> isl_vec res \<Rightarrow> isl_mat res \<Rightarrow> isl_vec res" where
  "isl_vec_mat_product junk vec mat = take2 vec mat (\<lambda>vec mat.
     isl_assert (n_row mat = vec_size vec)
       (take1 (isl_vec_alloc junk (n_col mat)) (\<lambda>prod.
          Inr (prod\<lparr>vec_el := for_range 0 (vec_size prod)
            (\<lambda>i el. for_range 0 (vec_size vec)
               (\<lambda>j el. el[i := el ! i + vec_el vec ! j * ent mat j i]) (el[i := 0])) (vec_el prod)\<rparr>))))"

text \<open>The product skips the terms whose left factor is zero.\<close>

definition product_row :: "isl_mat \<Rightarrow> isl_mat \<Rightarrow> nat \<Rightarrow> nat \<Rightarrow> isl_seq \<Rightarrow> isl_seq" where
  "product_row left right nc i p =
     (let p = for_range 0 nc (\<lambda>j p. p[j := ent left i 0 * ent right 0 j]) p
      in for_range 1 (n_col left) (\<lambda>k p.
           if ent left i k = 0 then p
           else for_range 0 nc (\<lambda>j p. p[j := p ! j + ent left i k * ent right k j]) p) p)"

definition isl_mat_product :: "isl_int junk \<Rightarrow> isl_mat res \<Rightarrow> isl_mat res \<Rightarrow> isl_mat res" where
  "isl_mat_product junk left right = take2 left right (\<lambda>left right.
     isl_assert (n_col left = n_row right)
       (take1 (isl_mat_alloc junk (n_row left) (n_col right)) (\<lambda>prod.
          if n_col left = 0
          then Inr (prod\<lparr>mat_row := for_range 0 (n_row prod)
                 (\<lambda>i rs. upd_row rs i (\<lambda>p. isl_seq_clr p (n_col prod))) (mat_row prod)\<rparr>)
          else Inr (prod\<lparr>mat_row := for_range 0 (n_row prod)
                 (\<lambda>i rs. upd_row rs i (product_row left right (n_col prod) i)) (mat_row prod)\<rparr>))))"

definition isl_mat_aff_direct_sum :: "isl_int junk \<Rightarrow> isl_mat res \<Rightarrow> isl_mat res \<Rightarrow> isl_mat res" where
  "isl_mat_aff_direct_sum junk left right = take2 left right (\<lambda>left right.
     isl_assert (n_row left = n_row right)
     (isl_assert (1 \<le> n_row left)
     (isl_assert (1 \<le> n_col left)
     (isl_assert (1 \<le> n_col right)
     (isl_assert (\<not> isl_seq_any_non_zero (drop 1 (mat_row left ! 0)) (n_col left - 1))
     (isl_assert (\<not> isl_seq_any_non_zero (drop 1 (mat_row right ! 0)) (n_col right - 1))
     (take1 (isl_mat_alloc junk (n_row left) (n_col left + n_col right - 1)) (\<lambda>sum.
        let l00 = ent left 0 0; r00 = ent right 0 0;
            rs = set_ent (mat_row sum) 0 0 (isl_int_lcm l00 r00);
            l00 = isl_int_divexact (rs ! 0 ! 0) l00;
            r00 = isl_int_divexact (rs ! 0 ! 0) r00;
            rs = upd_row rs 0 (at_off 1 (\<lambda>p. isl_seq_clr p (n_col sum - 1)));
            rs = for_range 1 (n_row sum) (\<lambda>i rs.
              let rs = set_ent rs i 0 (l00 * ent left i 0);
                  rs = set_ent rs i 0 (rs ! i ! 0 + r00 * ent right i 0);
                  rs = upd_row rs i (at_off 1
                         (\<lambda>p. isl_seq_scale p (drop 1 (mat_row left ! i)) l00 (n_col left - 1)))
              in upd_row rs i (at_off (n_col left)
                   (\<lambda>p. isl_seq_scale p (drop 1 (mat_row right ! i)) r00 (n_col right - 1)))) rs
        in Inr (sum\<lparr>mat_row := rs\<rparr>)))))))))"

subsection \<open>Blocks, transposition, exchanges\<close>

definition isl_mat_lin_to_aff :: "isl_int junk \<Rightarrow> isl_mat res \<Rightarrow> isl_mat res" where
  "isl_mat_lin_to_aff junk mat = take1 mat (\<lambda>mat.
     take1 (isl_mat_alloc junk (1 + n_row mat) (1 + n_col mat)) (\<lambda>mat2.
       let rs = set_ent (mat_row mat2) 0 0 1;
           rs = upd_row rs 0 (at_off 1 (\<lambda>p. isl_seq_clr p (n_col mat)));
           rs = for_range 0 (n_row mat) (\<lambda>i rs.
             let rs = set_ent rs (1 + i) 0 0
             in upd_row rs (1 + i) (at_off 1 (\<lambda>p. isl_seq_cpy p (mat_row mat ! i) (n_col mat)))) rs
       in Inr (mat2\<lparr>mat_row := rs\<rparr>)))"

definition isl_mat_diagonal :: "isl_int junk \<Rightarrow> isl_mat res \<Rightarrow> isl_mat res \<Rightarrow> isl_mat res" where
  "isl_mat_diagonal junk mat1 mat2 = take2 mat1 mat2 (\<lambda>mat1 mat2.
     take1 (isl_mat_alloc junk (n_row mat1 + n_row mat2) (n_col mat1 + n_col mat2)) (\<lambda>mat.
       let rs = for_range 0 (n_row mat1) (\<lambda>i rs.
             let rs = upd_row rs i (\<lambda>p. isl_seq_cpy p (mat_row mat1 ! i) (n_col mat1))
             in upd_row rs i (at_off (n_col mat1) (\<lambda>p. isl_seq_clr p (n_col mat2)))) (mat_row mat);
           rs = for_range 0 (n_row mat2) (\<lambda>i rs.
             let rs = upd_row rs (n_row mat1 + i) (\<lambda>p. isl_seq_clr p (n_col mat1))
             in upd_row rs (n_row mat1 + i) (at_off (n_col mat1)
                  (\<lambda>p. isl_seq_cpy p (mat_row mat2 ! i) (n_col mat2)))) rs
       in Inr (mat\<lparr>mat_row := rs\<rparr>)))"

text \<open>A square matrix is transposed in place.\<close>

definition isl_mat_transpose :: "isl_int junk \<Rightarrow> isl_mat res \<Rightarrow> isl_mat res" where
  "isl_mat_transpose junk mat = take1 mat (\<lambda>mat.
     if n_col mat = n_row mat
     then Inr (mat\<lparr>mat_row := for_range 0 (n_row mat) (\<lambda>i rs.
            for_range (i + 1) (n_col mat) (\<lambda>j rs.
              let a = rs ! i ! j; b = rs ! j ! i in set_ent (set_ent rs i j b) j i a) rs) (mat_row mat)\<rparr>)
     else take1 (isl_mat_alloc junk (n_col mat) (n_row mat)) (\<lambda>transpose.
            Inr (transpose\<lparr>mat_row := for_range 0 (n_row mat) (\<lambda>i rs.
              for_range 0 (n_col mat) (\<lambda>j rs. set_ent rs j i (ent mat i j)) rs) (mat_row transpose)\<rparr>)))"

definition isl_mat_swap_cols :: "isl_mat res \<Rightarrow> nat \<Rightarrow> nat \<Rightarrow> isl_mat res" where
  "isl_mat_swap_cols mat i j =
     checked (check_col_range mat i 1) (checked (check_col_range mat j 1) (take1 mat (\<lambda>mat.
       Inr (mat\<lparr>mat_row := for_range 0 (n_row mat) (\<lambda>r rs.
         upd_row rs r (\<lambda>p. p[i := p ! j, j := p ! i])) (mat_row mat)\<rparr>))))"

definition isl_mat_swap_rows :: "isl_mat res \<Rightarrow> nat \<Rightarrow> nat \<Rightarrow> isl_mat res" where
  "isl_mat_swap_rows mat i j = take1 mat (\<lambda>m.
     checked (check_row_range mat i 1) (checked (check_row_range mat j 1)
       (let t = mat_row m ! i
        in Inr (m\<lparr>mat_row := (mat_row m)[i := mat_row m ! j, j := t]\<rparr>))))"

definition isl_mat_drop_cols :: "isl_mat res \<Rightarrow> nat \<Rightarrow> nat \<Rightarrow> isl_mat res" where
  "isl_mat_drop_cols mat col n =
     (if n = 0 then mat
      else checked (check_col_range mat col n) (take1 mat (\<lambda>mat.
        let rs = (if col \<noteq> n_col mat - n
                  then for_range 0 (n_row mat) (\<lambda>r rs.
                    upd_row rs r (\<lambda>p. isl_seq_cpy_within p col (col + n) (n_col mat - col - n))) (mat_row mat)
                  else mat_row mat)
        in Inr (mat\<lparr>mat_row := rs, n_col := n_col mat - n\<rparr>))))"

definition isl_mat_drop_rows :: "isl_mat res \<Rightarrow> nat \<Rightarrow> nat \<Rightarrow> isl_mat res" where
  "isl_mat_drop_rows mat r0 n =
     checked (check_row_range mat r0 n) (take1 mat (\<lambda>mat.
       let rs = for_range r0 (n_row mat - n) (\<lambda>r rs. rs[r := rs ! (r + n)]) (mat_row mat)
       in Inr (mat\<lparr>mat_row := rs, n_row := n_row mat - n\<rparr>)))"

definition isl_mat_insert_cols :: "isl_int junk \<Rightarrow> isl_mat res \<Rightarrow> nat \<Rightarrow> nat \<Rightarrow> isl_mat res" where
  "isl_mat_insert_cols junk mat col n =
     checked (check_col_range mat col 0)
       (if n = 0 then mat
        else take1 mat (\<lambda>mat. take1 (isl_mat_alloc junk (n_row mat) (u32_add (n_col mat) n)) (\<lambda>ext.
          let rs = isl_mat_sub_copy (mat_row ext) (mat_row mat) (n_row mat) 0 0 col;
              rs = isl_mat_sub_copy rs (mat_row mat) (n_row mat) (col + n) col (n_col mat - col)
          in Inr (ext\<lparr>mat_row := rs\<rparr>))))"

definition isl_mat_insert_zero_cols :: "isl_int junk \<Rightarrow> isl_mat res \<Rightarrow> nat \<Rightarrow> nat \<Rightarrow> isl_mat res" where
  "isl_mat_insert_zero_cols junk mat first n =
     take1 (isl_mat_insert_cols junk mat first n) (\<lambda>mat.
       Inr (mat\<lparr>mat_row := for_range 0 (n_row mat) (\<lambda>i rs.
         upd_row rs i (at_off first (\<lambda>p. isl_seq_clr p n))) (mat_row mat)\<rparr>))"

definition isl_mat_add_zero_cols :: "isl_int junk \<Rightarrow> isl_mat res \<Rightarrow> nat \<Rightarrow> isl_mat res" where
  "isl_mat_add_zero_cols junk mat n = take1 mat (\<lambda>m. isl_mat_insert_zero_cols junk mat (n_col m) n)"

definition isl_mat_insert_rows :: "isl_int junk \<Rightarrow> isl_mat res \<Rightarrow> nat \<Rightarrow> nat \<Rightarrow> isl_mat res" where
  "isl_mat_insert_rows junk mat r0 n =
     checked (check_row_range mat r0 0)
       (if n = 0 then mat
        else take1 mat (\<lambda>mat. take1 (isl_mat_alloc junk (u32_add (n_row mat) n) (n_col mat)) (\<lambda>ext.
          let rs = isl_mat_sub_copy (mat_row ext) (mat_row mat) r0 0 0 (n_col mat);
              rs = at_off (r0 + n) (\<lambda>rs. isl_mat_sub_copy rs (drop r0 (mat_row mat)) (n_row mat - r0) 0 0 (n_col mat)) rs
          in Inr (ext\<lparr>mat_row := rs\<rparr>))))"

definition isl_mat_add_rows :: "isl_int junk \<Rightarrow> isl_mat res \<Rightarrow> nat \<Rightarrow> isl_mat res" where
  "isl_mat_add_rows junk mat n = take1 mat (\<lambda>m. isl_mat_insert_rows junk mat (n_row m) n)"

definition isl_mat_insert_zero_rows :: "isl_int junk \<Rightarrow> isl_mat res \<Rightarrow> nat \<Rightarrow> nat \<Rightarrow> isl_mat res" where
  "isl_mat_insert_zero_rows junk mat r0 n =
     take1 (isl_mat_insert_rows junk mat r0 n) (\<lambda>mat.
       Inr (mat\<lparr>mat_row := for_range 0 n (\<lambda>i rs.
         upd_row rs (r0 + i) (\<lambda>p. isl_seq_clr p (n_col mat))) (mat_row mat)\<rparr>))"

definition isl_mat_add_zero_rows :: "isl_int junk \<Rightarrow> isl_mat res \<Rightarrow> nat \<Rightarrow> isl_mat res" where
  "isl_mat_add_zero_rows junk mat n = take1 mat (\<lambda>m. isl_mat_insert_zero_rows junk mat (n_row m) n)"

definition isl_mat_move_cols :: "isl_int junk \<Rightarrow> isl_mat res \<Rightarrow> nat \<Rightarrow> nat \<Rightarrow> nat \<Rightarrow> isl_mat res" where
  "isl_mat_move_cols junk mat dst_col src_col n = take1 mat (\<lambda>mat.
     if n = 0 \<or> dst_col = src_col then Inr mat
     else take1 (isl_mat_alloc junk (n_row mat) (n_col mat)) (\<lambda>res.
       let m = mat_row mat; nr = n_row mat;
           rs = (if dst_col < src_col
             then let rs = isl_mat_sub_copy (mat_row res) m nr 0 0 dst_col;
                      rs = isl_mat_sub_copy rs m nr dst_col src_col n;
                      rs = isl_mat_sub_copy rs m nr (dst_col + n) dst_col (src_col - dst_col)
                  in isl_mat_sub_copy rs m nr (src_col + n) (src_col + n) (n_col res - src_col - n)
             else let rs = isl_mat_sub_copy (mat_row res) m nr 0 0 src_col;
                      rs = isl_mat_sub_copy rs m nr src_col (src_col + n) (dst_col - src_col);
                      rs = isl_mat_sub_copy rs m nr dst_col src_col n
                  in isl_mat_sub_copy rs m nr (dst_col + n) (dst_col + n) (n_col res - dst_col - n))
       in Inr (res\<lparr>mat_row := rs\<rparr>)))"

definition isl_mat_concat :: "isl_int junk \<Rightarrow> isl_mat res \<Rightarrow> isl_mat res \<Rightarrow> isl_mat res" where
  "isl_mat_concat junk tp bt = take2 tp bt (\<lambda>tp bt.
     isl_assert (n_col tp = n_col bt)
       (if n_row tp = 0 then Inr bt
        else if n_row bt = 0 then Inr tp
        else take1 (isl_mat_alloc junk (n_row tp + n_row bt) (n_col tp)) (\<lambda>mat.
          let rs = isl_mat_sub_copy (mat_row mat) (mat_row tp) (n_row tp) 0 0 (n_col mat);
              rs = at_off (n_row tp) (\<lambda>rs. isl_mat_sub_copy rs (mat_row bt) (n_row bt) 0 0 (n_col mat)) rs
          in Inr (mat\<lparr>mat_row := rs\<rparr>))))"

definition isl_mat_from_row_vec :: "isl_int junk \<Rightarrow> isl_vec res \<Rightarrow> isl_mat res" where
  "isl_mat_from_row_vec junk vec = take1 vec (\<lambda>vec.
     take1 (isl_mat_alloc junk 1 (vec_size vec)) (\<lambda>mat.
       Inr (mat\<lparr>mat_row := upd_row (mat_row mat) 0 (\<lambda>p. isl_seq_cpy p (vec_el vec) (vec_size vec))\<rparr>)))"

definition isl_mat_get_row :: "isl_int junk \<Rightarrow> isl_mat res \<Rightarrow> nat \<Rightarrow> isl_vec res" where
  "isl_mat_get_row junk mat r = take1 mat (\<lambda>mat.
     if r \<ge> n_row mat then isl_die isl_error_invalid
     else take1 (isl_vec_alloc junk (n_col mat)) (\<lambda>v.
       Inr (v\<lparr>vec_el := isl_seq_cpy (vec_el v) (mat_row mat ! r) (n_col mat)\<rparr>)))"

definition isl_mat_vec_concat :: "isl_int junk \<Rightarrow> isl_mat res \<Rightarrow> isl_vec res \<Rightarrow> isl_mat res" where
  "isl_mat_vec_concat junk tp bt = isl_mat_concat junk tp (isl_mat_from_row_vec junk bt)"

definition isl_mat_is_equal :: "isl_mat res \<Rightarrow> isl_mat res \<Rightarrow> bool res" where
  "isl_mat_is_equal mat1 mat2 = take2 mat1 mat2 (\<lambda>mat1 mat2.
     if n_row mat1 \<noteq> n_row mat2 then Inr False
     else if n_col mat1 \<noteq> n_col mat2 then Inr False
     else Inr (List.find (\<lambda>i. \<not> isl_seq_eq (mat_row mat1 ! i) (mat_row mat2 ! i) (n_col mat1))
                 [0..<n_row mat1] = None))"

subsection \<open>Row and column operations\<close>

definition isl_mat_col_scale :: "isl_mat \<Rightarrow> nat \<Rightarrow> isl_int \<Rightarrow> isl_mat" where
  "isl_mat_col_scale mat col m = mat\<lparr>mat_row := for_range 0 (n_row mat)
     (\<lambda>i rs. set_ent rs i col (rs ! i ! col * m)) (mat_row mat)\<rparr>"

definition isl_mat_col_combine :: "isl_mat \<Rightarrow> nat \<Rightarrow> isl_int \<Rightarrow> nat \<Rightarrow> isl_int \<Rightarrow> nat \<Rightarrow> isl_mat" where
  "isl_mat_col_combine mat dst m1 src1 m2 src2 = mat\<lparr>mat_row := for_range 0 (n_row mat)
     (\<lambda>i rs. let tmp = m1 * rs ! i ! src1; tmp = tmp + m2 * rs ! i ! src2 in set_ent rs i dst tmp) (mat_row mat)\<rparr>"

definition isl_mat_col_submul :: "isl_mat \<Rightarrow> nat \<Rightarrow> isl_int \<Rightarrow> nat \<Rightarrow> isl_mat" where
  "isl_mat_col_submul mat dst_col f src_col = mat\<lparr>mat_row := for_range 0 (n_row mat)
     (\<lambda>i rs. set_ent rs i dst_col (rs ! i ! dst_col - f * rs ! i ! src_col)) (mat_row mat)\<rparr>"

definition isl_mat_col_add :: "isl_mat res \<Rightarrow> nat \<Rightarrow> nat \<Rightarrow> isl_mat res" where
  "isl_mat_col_add mat dst_col src_col = take1 mat (\<lambda>mat. Inr (mat\<lparr>mat_row := for_range 0 (n_row mat)
     (\<lambda>i rs. set_ent rs i dst_col (rs ! i ! dst_col + rs ! i ! src_col)) (mat_row mat)\<rparr>))"

definition isl_mat_col_mul :: "isl_mat \<Rightarrow> nat \<Rightarrow> isl_int \<Rightarrow> nat \<Rightarrow> isl_mat" where
  "isl_mat_col_mul mat dst_col f src_col = mat\<lparr>mat_row := for_range 0 (n_row mat)
     (\<lambda>i rs. set_ent rs i dst_col (f * rs ! i ! src_col)) (mat_row mat)\<rparr>"

definition isl_mat_col_addmul :: "isl_mat res \<Rightarrow> int \<Rightarrow> isl_int \<Rightarrow> int \<Rightarrow> isl_mat res" where
  "isl_mat_col_addmul mat dst_col f src_col =
     checked (check_col mat dst_col) (checked (check_col mat src_col) (take1 mat (\<lambda>mat.
       Inr (mat\<lparr>mat_row := for_range 0 (n_row mat) (\<lambda>i rs.
         if rs ! i ! nat src_col = 0 then rs
         else set_ent rs i (nat dst_col) (rs ! i ! nat dst_col + f * rs ! i ! nat src_col)) (mat_row mat)\<rparr>))))"

definition isl_mat_col_neg :: "isl_mat res \<Rightarrow> int \<Rightarrow> isl_mat res" where
  "isl_mat_col_neg mat col =
     checked (check_col mat col) (take1 mat (\<lambda>mat.
       Inr (mat\<lparr>mat_row := for_range 0 (n_row mat) (\<lambda>i rs.
         if rs ! i ! nat col = 0 then rs
         else set_ent rs i (nat col) (- (rs ! i ! nat col))) (mat_row mat)\<rparr>)))"

definition isl_mat_row_neg :: "isl_mat res \<Rightarrow> int \<Rightarrow> isl_mat res" where
  "isl_mat_row_neg mat r =
     checked (check_row mat r) (take1 mat (\<lambda>mat.
       if \<not> isl_seq_any_non_zero (mat_row mat ! nat r) (n_col mat) then Inr mat
       else Inr (mat\<lparr>mat_row := upd_row (mat_row mat) (nat r) (\<lambda>p. isl_seq_neg p p (n_col mat))\<rparr>)))"

definition isl_mat_row_gcd :: "isl_mat res \<Rightarrow> int \<Rightarrow> isl_int res" where
  "isl_mat_row_gcd mat r =
     checked (check_row mat r) (keep1 mat (\<lambda>mat. isl_seq_gcd (mat_row mat ! nat r) (n_col mat)))"

definition isl_mat_gcd :: "isl_mat res \<Rightarrow> isl_int" where
  "isl_mat_gcd mat = (case mat of Inl _ \<Rightarrow> 0 | Inr mat \<Rightarrow>
     for_range 0 (n_row mat) (\<lambda>i gcd.
       let g = isl_seq_gcd (mat_row mat ! i) (n_col mat) in isl_int_gcd gcd g) 0)"

definition isl_mat_scale :: "isl_mat res \<Rightarrow> isl_int \<Rightarrow> isl_mat res" where
  "isl_mat_scale mat m =
     (if m = 1 then mat
      else take1 mat (\<lambda>mat. Inr (mat\<lparr>mat_row := for_range 0 (n_row mat)
        (\<lambda>i rs. upd_row rs i (\<lambda>p. isl_seq_scale p p m (n_col mat))) (mat_row mat)\<rparr>)))"

definition isl_mat_scale_down :: "isl_mat res \<Rightarrow> isl_int \<Rightarrow> isl_mat res" where
  "isl_mat_scale_down mat m =
     (if m = 1 then mat
      else take1 mat (\<lambda>mat. Inr (mat\<lparr>mat_row := for_range 0 (n_row mat)
        (\<lambda>i rs. upd_row rs i (\<lambda>p. isl_seq_scale_down p p m (n_col mat))) (mat_row mat)\<rparr>)))"

definition isl_mat_scale_down_row :: "isl_mat res \<Rightarrow> nat \<Rightarrow> isl_int \<Rightarrow> isl_mat res" where
  "isl_mat_scale_down_row mat r m =
     (if m = 1 then mat
      else take1 mat (\<lambda>mat. Inr (mat\<lparr>mat_row :=
        upd_row (mat_row mat) r (\<lambda>p. isl_seq_scale_down p p m (n_col mat))\<rparr>)))"

definition isl_mat_normalize :: "isl_mat res \<Rightarrow> isl_mat res" where
  "isl_mat_normalize mat = take1 mat (\<lambda>m.
     let gcd = isl_mat_gcd mat in isl_mat_scale_down mat gcd)"

definition isl_mat_normalize_row :: "isl_mat res \<Rightarrow> nat \<Rightarrow> isl_mat res" where
  "isl_mat_normalize_row mat r = take1 mat (\<lambda>mat. Inr (mat\<lparr>mat_row :=
     upd_row (mat_row mat) r (\<lambda>p. isl_seq_normalize p (n_col mat))\<rparr>))"

subsection \<open>Searching a column\<close>

definition row_first_non_zero :: "isl_int list list \<Rightarrow> nat \<Rightarrow> nat \<Rightarrow> nat option" where
  "row_first_non_zero rs nr col = List.find (\<lambda>i. rs ! i ! col \<noteq> 0) [0..<nr]"

definition row_abs_min_non_zero :: "isl_int list list \<Rightarrow> nat \<Rightarrow> nat \<Rightarrow> nat option" where
  "row_abs_min_non_zero rs nr col =
     (case row_first_non_zero rs nr col of
        None \<Rightarrow> None
      | Some m \<Rightarrow> Some (for_range (m + 1) nr
          (\<lambda>i m. if rs ! i ! col = 0 then m else if \<bar>rs ! i ! col\<bar> < \<bar>rs ! m ! col\<bar> then i else m) m))"

text \<open>Returns -1 on \<open>NULL\<close>.\<close>

definition isl_mat_initial_non_zero_cols :: "isl_mat res \<Rightarrow> int" where
  "isl_mat_initial_non_zero_cols mat = (case mat of Inl _ \<Rightarrow> - 1 | Inr mat \<Rightarrow>
     (case List.find (\<lambda>i. row_first_non_zero (mat_row mat) (n_row mat) i = None) [0..<n_col mat] of
        Some i \<Rightarrow> int i
      | None \<Rightarrow> int (n_col mat)))"

subsection \<open>Transforming coefficients\<close>

text \<open>
  The rows \<open>q\<close> belong to a constraint matrix; with \<open>has_div\<close> set they start with a
  denominator.  \<open>isl_seq_swp_or_cpy\<close> moves the transformed row into place.
\<close>

definition preimage_row :: "nat \<Rightarrow> nat \<Rightarrow> nat \<Rightarrow> nat \<Rightarrow> isl_seq \<Rightarrow> isl_seq \<Rightarrow> isl_seq" where
  "preimage_row n_div has_div nc e trow q =
     (let q = at_off has_div (\<lambda>p. fst (isl_seq_swp_or_cpy p trow nc)) q;
          q = isl_seq_cpy_within q (has_div + nc) (has_div + nc + e) n_div
      in at_off (has_div + nc + n_div) (\<lambda>p. isl_seq_clr p e) q)"

definition preimage ::
  "isl_int junk \<Rightarrow> nat \<Rightarrow> isl_int list list \<Rightarrow> nat \<Rightarrow> nat \<Rightarrow> bool \<Rightarrow> isl_mat \<Rightarrow> isl_int list list res" where
  "preimage junk unset q n n_div has_div mat =
     (let e = (if n_row mat \<le> n_col mat then 0 else n_row mat - n_col mat);
          h = (if has_div then 1 else 0);
          q = (if has_div then for_range 0 n (\<lambda>i q. set_ent q i 0 (q ! i ! 0 * ent mat 0 0)) q else q)
      in take1 (isl_mat_product junk (isl_mat_sub_alloc6 unset q 0 n h (n_row mat)) (Inr mat)) (\<lambda>t.
           Inr (for_range 0 n (\<lambda>i q. upd_row q i (preimage_row n_div h (n_col t) e (mat_row t ! i))) q)))"

definition isl_mat_sub_transform ::
  "isl_int junk \<Rightarrow> nat \<Rightarrow> isl_int list list \<Rightarrow> nat \<Rightarrow> nat \<Rightarrow> isl_mat res \<Rightarrow> isl_int list list res" where
  "isl_mat_sub_transform junk unset rs nr first_col mat = take1 mat (\<lambda>m.
     take1 (isl_mat_product junk (isl_mat_sub_alloc6 unset rs 0 nr first_col (n_row m)) mat) (\<lambda>t.
       Inr (for_range 0 nr (\<lambda>i rs. upd_row rs i
         (at_off first_col (\<lambda>p. fst (isl_seq_swp_or_cpy p (mat_row t ! i) (n_col t))))) rs)))"

subsection \<open>Loops over the rows\<close>

lemma length_set_ent [simp]: "length (set_ent rs i j v) = length rs"
  by (simp add: set_ent_def)

lemma length_upd_row [simp]: "length (upd_row rs i f) = length rs"
  by (simp add: upd_row_def)

lemma set_ent_upd_row: "set_ent rs i j (g (rs ! i)) = upd_row rs i (\<lambda>p. p[j := g p])"
  by (simp add: set_ent_def upd_row_def)

lemma nth_upd_row: "k < length rs \<Longrightarrow> upd_row rs i f ! k = (if k = i then f (rs ! i) else rs ! k)"
  by (auto simp: upd_row_def nth_list_update)

lemma length_nth_set_ent [simp]: "length (set_ent rs i j v ! k) = length (rs ! k)"
  by (cases "i < length rs") (auto simp: set_ent_def nth_list_update list_update_beyond)

lemma nth_set_ent:
  "k < length rs \<Longrightarrow> l < length (rs ! k) \<Longrightarrow>
   set_ent rs i j v ! k ! l = (if k = i \<and> l = j then v else rs ! k ! l)"
  by (cases "k = i") (auto simp: set_ent_def nth_list_update)

lemma nth_for_rows:
  "hi \<le> length rs \<Longrightarrow> k < length rs \<Longrightarrow>
   for_range lo hi (\<lambda>i rs. upd_row rs i (f i)) rs ! k = (if lo \<le> k \<and> k < hi then f k (rs ! k) else rs ! k)"
  using nth_for_range_update [of hi rs k lo f] by (simp add: upd_row_def)

lemma length_for_rows [simp]: "length (for_range lo hi (\<lambda>i rs. upd_row rs i (f i)) rs) = length rs"
  using length_for_range_update [of lo hi "\<lambda>i d. f i (d ! i)" rs] by (simp add: upd_row_def)

lemma for_rows_closed:
  "n \<le> length rs \<Longrightarrow> for_range 0 n (\<lambda>i rs. upd_row rs i (f i)) rs = map (\<lambda>i. f i (rs ! i)) [0..<n] @ drop n rs"
  using for_range_update_map [of n rs f] by (simp add: upd_row_def)

subsection \<open>Dimensions and entries\<close>

lemma mat_okD:
  "mat_ok M \<Longrightarrow> n_row M \<le> length (mat_row M)"
  "mat_ok M \<Longrightarrow> i < n_row M \<Longrightarrow> n_col M \<le> length (mat_row M ! i)"
  "mat_ok M \<Longrightarrow> i < n_row M \<Longrightarrow> i < length (mat_row M)"
  "mat_ok M \<Longrightarrow> i < n_row M \<Longrightarrow> j < n_col M \<Longrightarrow> j < length (mat_row M ! i)"
  by (auto simp: mat_ok_def intro: less_le_trans)

text \<open>The matrix a list of rows stands for.\<close>

definition mk_mat :: "nat \<Rightarrow> nat \<Rightarrow> (nat \<Rightarrow> nat \<Rightarrow> isl_int) \<Rightarrow> isl_mat" where
  "mk_mat nr nc f = \<lparr>n_row = nr, n_col = nc, mat_row = map (\<lambda>i. map (f i) [0..<nc]) [0..<nr],
     max_col = nc, mat_borrowed = False\<rparr>"

lemma mk_mat_simps [simp]:
  "n_row (mk_mat nr nc f) = nr" "n_col (mk_mat nr nc f) = nc" "mat_ok (mk_mat nr nc f)"
  "i < nr \<Longrightarrow> j < nc \<Longrightarrow> ent (mk_mat nr nc f) i j = f i j"
  "i < nr \<Longrightarrow> mat_row (mk_mat nr nc f) ! i = map (f i) [0..<nc]"
  "length (mat_row (mk_mat nr nc f)) = nr"
  by (simp_all add: mk_mat_def mat_ok_def ent_def)

lemma mk_mat_cong:
  "(\<And>i j. i < nr \<Longrightarrow> j < nc \<Longrightarrow> f i j = g i j) \<Longrightarrow> mk_mat nr nc f = mk_mat nr nc g"
  by (simp add: mk_mat_def)

lemma isl_mat_alloc_mk: "isl_mat_alloc junk nr nc = Inr (mk_mat nr nc (\<lambda>i j. junk (i * nc + j)))"
  by (simp add: isl_mat_alloc_def mk_mat_def)

text \<open>A result whose rows are computed one by one in a fresh matrix.\<close>

lemma mk_mat_update_rows:
  assumes "length rs = nr" and "\<And>i. i < nr \<Longrightarrow> rs ! i = map (g i) [0..<nc]"
  shows "mk_mat nr nc f\<lparr>mat_row := rs\<rparr> = mk_mat nr nc g"
  using assms by (auto simp: mk_mat_def intro: nth_equalityI)

lemma row_eq_map:
  "length p = nc \<Longrightarrow> (\<And>j. j < nc \<Longrightarrow> p ! j = g j) \<Longrightarrow> p = map g [0..<nc]"
  by (rule nth_equalityI) auto

lemma mk_mat_for_rows:
  assumes "\<And>i. i < nr \<Longrightarrow> h i (map (f i) [0..<nc]) = map (g i) [0..<nc]"
  shows "mk_mat nr nc f\<lparr>mat_row := for_range 0 nr (\<lambda>i rs. upd_row rs i (h i)) (mat_row (mk_mat nr nc f))\<rparr> =
    mk_mat nr nc g"
  by (rule mk_mat_update_rows) (use assms in \<open>simp_all add: nth_for_rows\<close>)

lemma isl_mat_dup_mk:
  assumes "mat_ok M"
  shows "isl_mat_dup junk (Inr M) = Inr (mk_mat (n_row M) (n_col M) (ent M))"
proof -
  have "isl_seq_cpy (map f [0..<n_col M]) (mat_row M ! i) (n_col M) = map (ent M i) [0..<n_col M]"
    if "i < n_row M" for f i
  proof (rule row_eq_map)
    show "isl_seq_cpy (map f [0..<n_col M]) (mat_row M ! i) (n_col M) ! j = ent M i j" if "j < n_col M" for j
      using that by (simp add: seq_write_nth ent_def)
  qed simp
  then show ?thesis by (simp add: isl_mat_dup_def isl_mat_alloc_mk mk_mat_for_rows)
qed

lemma isl_mat_zero_mk: "isl_mat_zero junk nr nc = Inr (mk_mat nr nc (\<lambda>i j. 0))"
proof -
  have "isl_seq_clr (map f [0..<nc]) nc = map (\<lambda>_. 0) [0..<nc]" for f
    by (simp add: seq_write_closed map_replicate_const)
  then show ?thesis by (simp add: isl_mat_zero_def isl_mat_alloc_mk mk_mat_for_rows)
qed

lemma isl_mat_diag_mk: "isl_mat_diag junk nr d = Inr (mk_mat nr nr (\<lambda>i j. if i = j then d else 0))"
proof -
  let ?h = "\<lambda>i p. at_off (i + 1) (\<lambda>p. isl_seq_clr p (nr - (i + 1))) ((isl_seq_clr p i)[i := d])"
  have step: "upd_row (set_ent (upd_row rs i (\<lambda>p. isl_seq_clr p i)) i i d) i
      (at_off (i + 1) (\<lambda>p. isl_seq_clr p (nr - (i + 1)))) = upd_row rs i (?h i)" for i rs
    by (cases "i < length rs") (simp_all add: upd_row_def set_ent_def list_update_beyond)
  have "?h i (map f [0..<nr]) = map (\<lambda>j. if i = j then d else 0) [0..<nr]" if "i < nr" for f i
  proof (rule row_eq_map)
    show "length (?h i (map f [0..<nr])) = nr" by (simp add: length_at_off)
    show "?h i (map f [0..<nr]) ! j = (if i = j then d else 0)" if "j < nr" for j
      using that \<open>i < nr\<close> by (auto simp: nth_at_off seq_write_nth nth_list_update)
  qed
  then have "mk_mat nr nr f\<lparr>mat_row := for_range 0 nr (\<lambda>i rs. upd_row rs i (?h i)) (mat_row (mk_mat nr nr f))\<rparr> =
      mk_mat nr nr (\<lambda>i j. if i = j then d else 0)" for f
    by (rule mk_mat_for_rows)
  then show ?thesis by (simp only: isl_mat_diag_def isl_mat_alloc_mk take_simps Let_def step mk_mat_simps)
qed

lemma isl_mat_identity_mk: "isl_mat_identity junk nr = Inr (mk_mat nr nr (\<lambda>i j. if i = j then 1 else 0))"
  by (simp add: isl_mat_identity_def isl_mat_diag_mk)

lemma isl_mat_is_scaled_identity_iff:
  assumes "mat_ok M"
  shows "isl_mat_is_scaled_identity (Inr M) = Inr (n_row M = n_col M \<and>
    (\<exists>d. \<forall>i < n_row M. \<forall>j < n_row M. ent M i j = (if i = j then d else 0)))"
proof (cases "n_row M = n_col M")
  case True
  let ?n = "n_row M"
  have row: "drop (i + 1) (mat_row M ! i) ! j = ent M i (i + 1 + j)" if "i < ?n" "j < ?n - (i + 1)" for i j
    using that True mat_okD(2) [OF assms, of i] by (simp add: ent_def)
  have bad: "(isl_seq_any_non_zero (mat_row M ! i) i \<or> ent M 0 0 \<noteq> ent M i i \<or>
      isl_seq_any_non_zero (drop (i + 1) (mat_row M ! i)) (?n - (i + 1))) \<longleftrightarrow>
      \<not> (\<forall>j < ?n. ent M i j = (if i = j then ent M 0 0 else 0))" if i: "i < ?n" for i
  proof -
    have split: "(\<forall>j < ?n. P j) \<longleftrightarrow> (\<forall>j<i. P j) \<and> P i \<and> (\<forall>k < ?n - (i + 1). P (i + 1 + k))" for P
    proof
      assume r: "(\<forall>j<i. P j) \<and> P i \<and> (\<forall>k < ?n - (i + 1). P (i + 1 + k))"
      show "\<forall>j < ?n. P j"
      proof (intro allI impI)
        fix j assume j: "j < ?n"
        consider "j < i" | "j = i" | "j = i + 1 + (j - (i + 1))" "j - (i + 1) < ?n - (i + 1)"
          using j by linarith
        then show "P j" using r by cases auto
      qed
    qed (use i in auto)
    have low: "isl_seq_any_non_zero (mat_row M ! i) i \<longleftrightarrow> \<not> (\<forall>j<i. ent M i j = 0)"
      by (simp add: seq_simps ent_def)
    have high: "isl_seq_any_non_zero (drop (i + 1) (mat_row M ! i)) (?n - (i + 1)) \<longleftrightarrow>
        \<not> (\<forall>k < ?n - (i + 1). ent M i (i + 1 + k) = 0)"
      unfolding isl_seq_any_non_zero_iff using row [OF i] by auto
    have "(\<forall>j<i. ent M i j = (if i = j then ent M 0 0 else 0)) \<longleftrightarrow> (\<forall>j<i. ent M i j = 0)" by auto
    then show ?thesis
      unfolding split [of "\<lambda>j. ent M i j = (if i = j then ent M 0 0 else 0)"] low high by auto
  qed
  have "isl_mat_is_scaled_identity (Inr M) = Inr (\<forall>i < ?n. \<forall>j < ?n. ent M i j = (if i = j then ent M 0 0 else 0))"
    using True bad by (auto simp: isl_mat_is_scaled_identity_def find_upt_None_iff)
  moreover have "(\<forall>i < ?n. \<forall>j < ?n. ent M i j = (if i = j then ent M 0 0 else 0)) \<longleftrightarrow>
    (\<exists>d. \<forall>i < ?n. \<forall>j < ?n. ent M i j = (if i = j then d else 0))"
  proof
    assume "\<exists>d. \<forall>i < ?n. \<forall>j < ?n. ent M i j = (if i = j then d else 0)"
    then obtain d where d: "\<forall>i < ?n. \<forall>j < ?n. ent M i j = (if i = j then d else 0)" by blast
    then have "0 < ?n \<Longrightarrow> ent M 0 0 = d" by simp
    with d show "\<forall>i < ?n. \<forall>j < ?n. ent M i j = (if i = j then ent M 0 0 else 0)" by auto
  qed blast
  ultimately show ?thesis using True by simp
qed (simp add: isl_mat_is_scaled_identity_def)

subsection \<open>Products\<close>

lemma product_row_nth:
  assumes "0 < n_col left" and "length p = nc" and "j < nc"
  shows "product_row left right nc i p ! j = (\<Sum>k < n_col left. ent left i k * ent right k j)"
proof -
  let ?f = "\<lambda>k p. if ent left i k = 0 then p
           else for_range 0 nc (\<lambda>j p. p[j := p ! j + ent left i k * ent right k j]) p"
  let ?p0 = "for_range 0 nc (\<lambda>j p. p[j := ent left i 0 * ent right 0 j]) p"
  have "1 \<le> n_col left" using assms(1) by simp
  then have "length (for_range 1 (n_col left) ?f ?p0) = nc \<and>
    (\<forall>j<nc. for_range 1 (n_col left) ?f ?p0 ! j = (\<Sum>k < n_col left. ent left i k * ent right k j))"
  proof (rule for_range_induct [where P = "\<lambda>m q. length q = nc \<and>
      (\<forall>j<nc. q ! j = (\<Sum>k<m. ent left i k * ent right k j))"])
    fix k q assume "length q = nc \<and> (\<forall>j<nc. q ! j = (\<Sum>l<k. ent left i l * ent right l j))"
    then show "length (?f k q) = nc \<and> (\<forall>j<nc. ?f k q ! j = (\<Sum>l<Suc k. ent left i l * ent right l j))"
      using nth_for_range_update [of nc q _ 0 "\<lambda>j x. x + ent left i k * ent right k j"] by simp
  qed (use assms(2) in \<open>simp add: nth_for_range_write\<close>)
  then show ?thesis using assms(3) by (simp add: product_row_def)
qed

lemma length_product_row [simp]: "length (product_row left right nc i p) = length p"
proof -
  have "length (for_range 1 n (\<lambda>k p. if ent left i k = 0 then p
           else for_range 0 nc (\<lambda>j p. p[j := p ! j + ent left i k * ent right k j]) p) q) = length q" for n and q :: "int list"
    by (cases "1 \<le> n") (rule for_range_induct [where P = "\<lambda>_ t. length t = length q"], simp_all)
  then show ?thesis by (simp add: product_row_def)
qed

lemma isl_mat_product_mk:
  "isl_mat_product junk (Inr A) (Inr B) =
    (if n_col A = n_row B
     then Inr (mk_mat (n_row A) (n_col B) (\<lambda>i j. \<Sum>k < n_col A. ent A i k * ent B k j))
     else Inl isl_error_unknown)"
proof (cases "n_col A = n_row B")
  case True
  show ?thesis
  proof (cases "n_col A = 0")
    case z: True
    have "isl_seq_clr (map f [0..<n_col B]) (n_col B) = map (\<lambda>_. 0) [0..<n_col B]" for f
      by (simp add: seq_write_closed map_replicate_const)
    then show ?thesis using True z by (simp add: isl_mat_product_def isl_mat_alloc_mk mk_mat_for_rows)
  next
    case False
    have "product_row A B (n_col B) i (map f [0..<n_col B]) =
        map (\<lambda>j. \<Sum>k < n_col A. ent A i k * ent B k j) [0..<n_col B]" for i f
      by (rule row_eq_map) (use False in \<open>simp_all add: product_row_nth\<close>)
    then show ?thesis using True False by (simp add: isl_mat_product_def isl_mat_alloc_mk mk_mat_for_rows)
  qed
qed (simp add: isl_mat_product_def)

lemma isl_mat_vec_product_mk:
  assumes "n_col A = length x"
  shows "isl_mat_vec_product junk (Inr A) (Inr (mk_vec x)) =
    Inr (mk_vec (map (\<lambda>i. \<Sum>j < n_col A. ent A i j * x ! j) [0..<n_row A]))"
  using assms
  by (simp add: isl_mat_vec_product_def isl_vec_alloc_mk for_range_write seq_simps ent_def)

lemma isl_vec_mat_product_mk:
  assumes "n_row A = length x"
  shows "isl_vec_mat_product junk (Inr (mk_vec x)) (Inr A) =
    Inr (mk_vec (map (\<lambda>i. \<Sum>j < n_row A. x ! j * ent A j i) [0..<n_col A]))"
proof -
  have inner: "for_range 0 n (\<lambda>j el. el[i := el ! i + x ! j * ent A j i]) (el[i := 0]) =
      el[i := \<Sum>j<n. x ! j * ent A j i]" if "i < length el" for el :: "int list" and i n
    using that by (induction n) (simp_all add: for_range_Suc)
  have "for_range 0 n (\<lambda>i el. for_range 0 (length x) (\<lambda>j el. el[i := el ! i + x ! j * ent A j i]) (el[i := 0])) el =
      for_range 0 n (\<lambda>i el. el[i := \<Sum>j < length x. x ! j * ent A j i]) el"
    if "n \<le> length el" for n and el :: "int list"
    using that by (induction n) (simp_all add: for_range_Suc inner)
  then show ?thesis using assms by (simp add: isl_vec_mat_product_def isl_vec_alloc_mk for_range_write)
qed

subsection \<open>Transposition and exchange of rows\<close>

lemma transpose_square_rows:
  assumes len: "length rs = n" "\<forall>i<n. n \<le> length (rs ! i)" and "m \<le> n"
  defines "sw \<equiv> \<lambda>i j rs. let a = rs ! i ! j; b = rs ! j ! i in set_ent (set_ent rs i j b) j i a"
  shows "length (for_range 0 m (\<lambda>i rs. for_range (i + 1) n (sw i) rs) rs) = n \<and>
    (\<forall>i<n. n \<le> length (for_range 0 m (\<lambda>i rs. for_range (i + 1) n (sw i) rs) rs ! i)) \<and>
    (\<forall>i<n. \<forall>j<n. for_range 0 m (\<lambda>i rs. for_range (i + 1) n (sw i) rs) rs ! i ! j =
      (if i < m \<or> j < m then rs ! j ! i else rs ! i ! j))"
proof -
  let ?Q = "\<lambda>c ts. length ts = n \<and> (\<forall>i<n. n \<le> length (ts ! i)) \<and> (\<forall>i<n. \<forall>j<n. ts ! i ! j = (if c i j then rs ! j ! i else rs ! i ! j))"
  have sw: "?Q (\<lambda>p q. c p q \<or> {p, q} = {i, j}) (sw i j ts)"
    if "?Q c ts" "i < n" "j < n" "i \<noteq> j" "\<not> c i j" "\<not> c j i" for c ts i j
    using that by (auto simp: sw_def Let_def nth_set_ent doubleton_eq_iff)
  have inner: "?Q (\<lambda>p q. p < Suc i \<or> q < Suc i) (for_range (i + 1) n (sw i) ts)"
    if "?Q (\<lambda>p q. p < i \<or> q < i) ts" "i < n" for i ts
  proof -
    let ?c = "\<lambda>l p q. p < i \<or> q < i \<or> (p = i \<and> q < l) \<or> (q = i \<and> p < l)"
    have "?Q (?c n) (for_range (i + 1) n (sw i) ts)"
    proof (rule for_range_induct [where P = "\<lambda>l. ?Q (?c l)"])
      show "i + 1 \<le> n" using that(2) by simp
      show "?Q (?c (i + 1)) ts" using that(1) by (auto simp: less_Suc_eq)
    next
      fix j us assume j: "i + 1 \<le> j" "j < n" and us: "?Q (?c j) us"
      have "?Q (\<lambda>p q. ?c j p q \<or> {p, q} = {i, j}) (sw i j us)"
        by (rule sw [OF us]) (use that(2) j in auto)
      moreover have "(?c j p q \<or> {p, q} = {i, j}) = ?c (Suc j) p q" if "p < n" "q < n" for p q
        using j by (auto simp: doubleton_eq_iff less_Suc_eq)
      ultimately show "?Q (?c (Suc j)) (sw i j us)" by simp
    qed
    then show ?thesis by (auto simp: less_Suc_eq)
  qed
  have "?Q (\<lambda>p q. p < m \<or> q < m) (for_range 0 m (\<lambda>i rs. for_range (i + 1) n (sw i) rs) rs)"
    using assms(3)
  proof (intro for_range_induct [where P = "\<lambda>m. ?Q (\<lambda>p q. p < m \<or> q < m)"])
    fix i ts assume "i < m" "?Q (\<lambda>p q. p < i \<or> q < i) ts"
    then show "?Q (\<lambda>p q. p < Suc i \<or> q < Suc i) (for_range (i + 1) n (sw i) ts)"
      using assms(3) by (intro inner) auto
  qed (use len in auto)
  then show ?thesis by blast
qed

text \<open>Equality of matrices on the entries in use.\<close>

definition mat_eqv :: "isl_mat \<Rightarrow> isl_mat \<Rightarrow> bool" where
  "mat_eqv A B = (n_row A = n_row B \<and> n_col A = n_col B \<and>
     (\<forall>i < n_row A. \<forall>j < n_col A. ent A i j = ent B i j))"

lemma mat_eqv_refl [simp]: "mat_eqv A A"
  by (simp add: mat_eqv_def)

lemma isl_mat_is_equal_iff: "isl_mat_is_equal (Inr A) (Inr B) = Inr (mat_eqv A B)"
  by (auto simp: isl_mat_is_equal_def mat_eqv_def find_upt_None_iff seq_simps ent_def)

text \<open>The loops of the transposition leave the rows in memory behind the matrix alone.\<close>

definition transpose_swap :: "nat \<Rightarrow> nat \<Rightarrow> isl_int list list \<Rightarrow> isl_int list list" where
  "transpose_swap i j rs = (let a = rs ! i ! j; b = rs ! j ! i in set_ent (set_ent rs i j b) j i a)"

lemma length_transpose_swaps [simp]: "length (for_range l n (transpose_swap i) qs) = length qs"
  by (cases "l \<le> n") (rule for_range_induct [where P = "\<lambda>_ t. length t = length qs"],
      simp_all add: transpose_swap_def Let_def)

lemma transpose_swaps_append:
  assumes "n \<le> length ps" and "i < length ps"
  shows "for_range l n (transpose_swap i) (ps @ qs) = for_range l n (transpose_swap i) ps @ qs"
proof (cases "l \<le> n")
  case True
  then show ?thesis using assms(1)
  proof (induction n)
    case (Suc n)
    have "transpose_swap i n (us @ qs) = transpose_swap i n us @ qs" if "length us = length ps" for us
      using that assms(2) Suc.prems(2)
      by (simp add: transpose_swap_def Let_def set_ent_def nth_append list_update_append)
    with Suc show ?case by (cases "l = Suc n") (simp_all add: for_range_Suc)
  qed simp
qed simp

lemma transpose_loops_append:
  assumes "m \<le> length ps" and "n \<le> length ps"
  shows "length (for_range 0 m (\<lambda>i. for_range (i + 1) n (transpose_swap i)) ps) = length ps"
    and "for_range 0 m (\<lambda>i. for_range (i + 1) n (transpose_swap i)) (ps @ qs) =
      for_range 0 m (\<lambda>i. for_range (i + 1) n (transpose_swap i)) ps @ qs"
  using assms(1)
proof (induction m)
  case (Suc m)
  {
    case 1
    then show ?case using Suc.IH(1) by (simp add: for_range_Suc)
  next
    case 2
    then show ?case using Suc.IH transpose_swaps_append [OF _ _, of n _ m "m + 1" qs] assms(2)
      by (simp add: for_range_Suc)
  }
qed simp_all

lemma isl_mat_transpose_square:
  assumes "mat_ok M" and "n_col M = n_row M"
  shows "\<exists>T. isl_mat_transpose junk (Inr M) = Inr T \<and> mat_ok T \<and>
    mat_eqv T (mk_mat (n_col M) (n_row M) (\<lambda>i j. ent M j i))"
proof -
  let ?n = "n_row M"
  let ?rs = "take ?n (mat_row M)"
  let ?ts = "\<lambda>rs. for_range 0 ?n (\<lambda>i. for_range (i + 1) ?n (transpose_swap i)) rs"
  have rs: "length ?rs = ?n" "\<forall>i < ?n. ?n \<le> length (?rs ! i)"
    using assms mat_okD(2) [OF assms(1)] by (simp_all add: mat_okD(1))
  note sq = transpose_square_rows [OF rs order_refl, folded transpose_swap_def]
  have split: "?ts (mat_row M) = ?ts ?rs @ drop ?n (mat_row M)"
    using transpose_loops_append(2) [of ?n ?rs ?n "drop ?n (mat_row M)"] rs(1) by simp
  have "n_row M \<le> length (?ts (mat_row M))" "\<forall>i < ?n. ?n \<le> length (?ts (mat_row M) ! i)"
    "\<forall>i < ?n. \<forall>j < ?n. ?ts (mat_row M) ! i ! j = ?rs ! j ! i"
    unfolding split using sq by (auto simp: nth_append)
  then have "mat_ok (M\<lparr>mat_row := ?ts (mat_row M)\<rparr>)"
    "mat_eqv (M\<lparr>mat_row := ?ts (mat_row M)\<rparr>) (mk_mat (n_col M) (n_row M) (\<lambda>i j. ent M j i))"
    using assms(2) by (simp_all add: mat_ok_def mat_eqv_def ent_def)
  moreover have "isl_mat_transpose junk (Inr M) = Inr (M\<lparr>mat_row := ?ts (mat_row M)\<rparr>)"
    using assms(2) by (simp add: isl_mat_transpose_def transpose_swap_def [abs_def])
  ultimately show ?thesis by blast
qed

lemma transpose_column_loop:
  fixes M :: isl_mat and i :: nat
  assumes "length rs = nc" and "n \<le> nc"
  defines "c \<equiv> \<lambda>n. for_range 0 n (\<lambda>j rs. set_ent rs j i (ent M i j)) rs"
  shows "length (c n) = nc \<and> (\<forall>k<nc. length (c n ! k) = length (rs ! k)) \<and>
    (\<forall>k<nc. \<forall>l < length (rs ! k). c n ! k ! l = (if k < n \<and> l = i then ent M i k else rs ! k ! l))"
  using assms(2)
proof (induction n)
  case 0
  then show ?case using assms(1) by (simp add: c_def)
next
  case (Suc n)
  have "c (Suc n) = set_ent (c n) n i (ent M i n)" by (simp add: c_def for_range_Suc)
  with Suc show ?case by (auto simp: nth_set_ent less_Suc_eq)
qed

lemma isl_mat_transpose_eqv:
  assumes "mat_ok M"
  shows "\<exists>T. isl_mat_transpose junk (Inr M) = Inr T \<and> mat_ok T \<and>
    mat_eqv T (mk_mat (n_col M) (n_row M) (\<lambda>i j. ent M j i))"
proof (cases "n_col M = n_row M")
  case True
  with assms show ?thesis by (rule isl_mat_transpose_square)
next
  case False
  define T0 where "T0 = mk_mat (n_col M) (n_row M) (\<lambda>i j. junk (i * n_row M + j))"
  let ?ts = "\<lambda>m. for_range 0 m (\<lambda>i. for_range 0 (n_col M) (\<lambda>j rs. set_ent rs j i (ent M i j))) (mat_row T0)"
  let ?P = "\<lambda>m ts. length ts = n_col M \<and> (\<forall>k < n_col M. length (ts ! k) = n_row M) \<and>
    (\<forall>k < n_col M. \<forall>l<m. ts ! k ! l = ent M l k)"
  have "?P (n_row M) (?ts (n_row M))"
  proof (rule for_range_induct [where P = ?P])
    show "?P 0 (mat_row T0)" by (simp add: T0_def)
  next
    fix i ts assume "i < n_row M" "?P i ts"
    then show "?P (Suc i) (for_range 0 (n_col M) (\<lambda>j rs. set_ent rs j i (ent M i j)) ts)"
      using transpose_column_loop [of ts "n_col M" "n_col M" i M] by (auto simp: less_Suc_eq)
  qed simp
  then show ?thesis
    using False
    by (intro exI [of _ "T0\<lparr>mat_row := ?ts (n_row M)\<rparr>"])
      (simp add: isl_mat_transpose_def isl_mat_alloc_mk T0_def mat_ok_def mat_eqv_def ent_def)
qed

subsection \<open>Rows\<close>

text \<open>The range checks accept exactly the ranges inside the matrix, wrapped sums included.\<close>

lemma check_range_iff:
  assumes "first < 2 ^ 32" and "n < 2 ^ 32"
  shows "n_col M < 2 ^ 32 \<Longrightarrow> check_col_range (Inr M) first n =
      (if first + n \<le> n_col M then Inr () else Inl isl_error_invalid)"
    and "n_row M < 2 ^ 32 \<Longrightarrow> check_row_range (Inr M) first n =
      (if first + n \<le> n_row M then Inr () else Inl isl_error_invalid)"
proof -
  have *: "(u32_add first n > b \<or> u32_add first n < first) \<longleftrightarrow> \<not> first + n \<le> b" if "b < 2 ^ 32" for b
  proof (cases "first + n < 2 ^ 32")
    case False
    then have "u32_add first n < first" using assms by (simp add: u32_add_overflow_iff)
    with False that show ?thesis by simp
  qed auto
  show "n_col M < 2 ^ 32 \<Longrightarrow> check_col_range (Inr M) first n =
      (if first + n \<le> n_col M then Inr () else Inl isl_error_invalid)"
    "n_row M < 2 ^ 32 \<Longrightarrow> check_row_range (Inr M) first n =
      (if first + n \<le> n_row M then Inr () else Inl isl_error_invalid)"
    using * by (auto simp: check_col_range_def check_row_range_def isl_die_def)
qed

lemma isl_mat_swap_rows_ent:
  assumes "mat_ok M" and "i < n_row M" and "j < n_row M" and "n_row M < 2 ^ 32"
  defines "M' \<equiv> M\<lparr>mat_row := (mat_row M)[i := mat_row M ! j, j := mat_row M ! i]\<rparr>"
  shows "isl_mat_swap_rows (Inr M) i j = Inr M'" and "mat_ok M'"
    and "\<And>r c. ent M' r c = (if r = i then ent M j c else if r = j then ent M i c else ent M r c)"
proof -
  have "check_row_range (Inr M) i 1 = Inr ()" "check_row_range (Inr M) j 1 = Inr ()"
    using assms check_range_iff(2) [of i 1 M] check_range_iff(2) [of j 1 M] by simp_all
  then show "isl_mat_swap_rows (Inr M) i j = Inr M'"
    by (simp add: isl_mat_swap_rows_def M'_def)
  show "mat_ok M'" "\<And>r c. ent M' r c = (if r = i then ent M j c else if r = j then ent M i c else ent M r c)"
    using assms mat_okD(3) [OF assms(1)] by (auto simp: mat_ok_def ent_def nth_list_update)
qed

lemma isl_mat_row_neg_ent:
  assumes "mat_ok M" and "r < n_row M"
  shows "\<exists>M'. isl_mat_row_neg (Inr M) (int r) = Inr M' \<and> mat_ok M' \<and> n_row M' = n_row M \<and> n_col M' = n_col M \<and>
    (\<forall>i < n_row M. \<forall>c < n_col M. ent M' i c = (if i = r then - ent M i c else ent M i c))"
proof (cases "isl_seq_any_non_zero (mat_row M ! r) (n_col M)")
  case True
  then show ?thesis using assms
    by (intro exI [of _ "M\<lparr>mat_row := upd_row (mat_row M) r (\<lambda>p. isl_seq_neg p p (n_col M))\<rparr>"])
      (auto simp: isl_mat_row_neg_def check_row_def mat_ok_def ent_def nth_upd_row seq_write_nth
        intro: less_le_trans)
next
  case False
  then show ?thesis using assms
    by (intro exI [of _ M]) (auto simp: isl_mat_row_neg_def check_row_def seq_simps ent_def)
qed

lemma isl_mat_drop_rows_ent:
  assumes "mat_ok M" and "r0 + n \<le> n_row M" and "n_row M < 2 ^ 32"
  shows "\<exists>M'. isl_mat_drop_rows (Inr M) r0 n = Inr M' \<and> mat_ok M' \<and>
    n_row M' = n_row M - n \<and> n_col M' = n_col M \<and>
    (\<forall>i < n_row M - n. \<forall>c. ent M' i c = (if i < r0 then ent M i c else ent M (i + n) c))"
proof -
  let ?rs = "for_range r0 (n_row M - n) (\<lambda>r rs. rs[r := rs ! (r + n)]) (mat_row M)"
  let ?P = "\<lambda>m rs. length rs = length (mat_row M) \<and>
    (\<forall>i < n_row M. rs ! i = (if r0 \<le> i \<and> i < m then mat_row M ! (i + n) else mat_row M ! i))"
  have "?P (n_row M - n) ?rs"
  proof (rule for_range_induct [where P = ?P])
    show "r0 \<le> n_row M - n" using assms(2) by simp
  next
    fix i rs assume i: "r0 \<le> i" "i < n_row M - n" and P: "?P i rs"
    then have "i < length rs" "rs ! (i + n) = mat_row M ! (i + n)"
      using mat_okD(1) [OF assms(1)] by auto
    then show "?P (Suc i) (rs[i := rs ! (i + n)])" using P i by (auto simp: nth_list_update less_Suc_eq)
  next
    show "?P r0 (mat_row M)" by auto
  qed
  moreover have "check_row_range (Inr M) r0 n = Inr ()"
    using assms check_range_iff(2) [of r0 n M] by simp
  ultimately show ?thesis
    using assms mat_okD(1,2) [OF assms(1)]
    by (intro exI [of _ "M\<lparr>mat_row := ?rs, n_row := n_row M - n\<rparr>"])
      (auto simp: isl_mat_drop_rows_def mat_ok_def ent_def)
qed

subsection \<open>Copying blocks of rows\<close>

lemma isl_mat_sub_copy_rows:
  assumes "nr \<le> length dst"
  shows "length (isl_mat_sub_copy dst src nr dc sc nc) = length dst"
    and "k < length dst \<Longrightarrow> isl_mat_sub_copy dst src nr dc sc nc ! k =
      (if k < nr then at_off dc (\<lambda>p. isl_seq_cpy p (drop sc (src ! k)) nc) (dst ! k) else dst ! k)"
  using assms by (simp_all add: isl_mat_sub_copy_def nth_for_rows)

lemma isl_mat_concat_mk:
  assumes "mat_ok A" and "mat_ok B" and "n_col A = n_col B"
  shows "\<exists>C. isl_mat_concat junk (Inr A) (Inr B) = Inr C \<and> mat_ok C \<and>
    mat_eqv C (mk_mat (n_row A + n_row B) (n_col A)
      (\<lambda>i j. if i < n_row A then ent A i j else ent B (i - n_row A) j))"
proof -
  consider "n_row A = 0" | "n_row A \<noteq> 0" "n_row B = 0" | "n_row A \<noteq> 0" "n_row B \<noteq> 0" by blast
  then show ?thesis
  proof cases
    case 3
    let ?nr = "n_row A + n_row B" and ?nc = "n_col A"
    let ?f = "\<lambda>i j. if i < n_row A then ent A i j else ent B (i - n_row A) j"
    let ?r0 = "map (\<lambda>i. map (\<lambda>j. junk (i * ?nc + j)) [0..<?nc]) [0..<?nr]"
    let ?r1 = "isl_mat_sub_copy ?r0 (mat_row A) (n_row A) 0 0 ?nc"
    let ?r2 = "at_off (n_row A) (\<lambda>rs. isl_mat_sub_copy rs (mat_row B) (n_row B) 0 0 ?nc) ?r1"
    have r1: "length ?r1 = ?nr" using isl_mat_sub_copy_rows(1) [of "n_row A" ?r0] by simp
    have cpy: "isl_seq_cpy (map g [0..<?nc]) p ?nc = map (\<lambda>j. p ! j) [0..<?nc]" for g p
      by (simp add: seq_write_closed)
    have len2: "length ?r2 = ?nr"
      using r1 isl_mat_sub_copy_rows(1) [of "n_row B" "drop (n_row A) ?r1"] by (simp add: at_off_def)
    have "?r2 ! i = map (?f i) [0..<?nc]" if i: "i < ?nr" for i
    proof (cases "i < n_row A")
      case True
      then have "?r2 ! i = ?r1 ! i" using r1 by (simp add: nth_at_off)
      also have "\<dots> = map (\<lambda>j. mat_row A ! i ! j) [0..<?nc]"
        using True i isl_mat_sub_copy_rows(2) [of "n_row A" ?r0 i] by (simp add: at_off_def cpy)
      finally show ?thesis using True by (simp add: ent_def)
    next
      case False
      have k: "i - n_row A < length (drop (n_row A) ?r1)" using i False r1 by simp
      have "?r2 ! i = isl_mat_sub_copy (drop (n_row A) ?r1) (mat_row B) (n_row B) 0 0 ?nc ! (i - n_row A)"
        using False r1 by (simp add: nth_at_off)
      also have "\<dots> = isl_seq_cpy (?r1 ! i) (mat_row B ! (i - n_row A)) ?nc"
      proof -
        have "n_row B \<le> length (drop (n_row A) ?r1)" using r1 by simp
        moreover have "i - n_row A < n_row B" "drop (n_row A) ?r1 ! (i - n_row A) = ?r1 ! i" using False i r1 by auto
        ultimately show ?thesis using isl_mat_sub_copy_rows(2) [OF _ k, of "n_row B"]
          by (simp only: if_True) (simp add: at_off_def)
      qed
      also have "?r1 ! i = ?r0 ! i"
        using False i isl_mat_sub_copy_rows(2) [of "n_row A" ?r0 i] by simp
      finally show ?thesis using False i assms(3) cpy [unfolded assms(3)] by (simp add: ent_def)
    qed
    then have eq: "mk_mat ?nr ?nc (\<lambda>i j. junk (i * ?nc + j))\<lparr>mat_row := ?r2\<rparr> = mk_mat ?nr ?nc ?f"
      using len2 by (intro mk_mat_update_rows)
    have r0: "mat_row (mk_mat ?nr ?nc (\<lambda>i j. junk (i * ?nc + j))) = ?r0" by (simp add: mk_mat_def)
    have "isl_mat_concat junk (Inr A) (Inr B) = Inr (mk_mat ?nr ?nc (\<lambda>i j. junk (i * ?nc + j))\<lparr>mat_row := ?r2\<rparr>)"
      unfolding isl_mat_concat_def isl_mat_alloc_mk Let_def take_simps
      by (subst isl_assert_def) (simp only: 3 assms(3) if_True if_False refl simp_thms mk_mat_simps r0 [unfolded assms(3)])
    then have "isl_mat_concat junk (Inr A) (Inr B) = Inr (mk_mat ?nr ?nc ?f)" unfolding eq .
    then show ?thesis by (intro exI [of _ "mk_mat ?nr ?nc ?f"]) simp
  qed (use assms in \<open>auto simp: isl_mat_concat_def mat_eqv_def\<close>)
qed

end
