(* ===== verification/Mat_Hermite.thy ===== *)
theory Mat_Hermite imports Mat "HOL-Library.While_Combinator" begin

text \<open>
  The Hermite normal form by column operations (\<open>isl_mat_left_hermite\<close> of isl_mat.c): the
  algorithm, and that it terminates, keeps the factorization and produces the form.  The loops that run until a row is cleared are \<^const>\<open>while_option\<close>: a function
  that does not return has the value \<^const>\<open>None\<close>, and the theorems show that it
  never has.  \<open>U\<close> and \<open>Q\<close> are computed when the caller asks for them.
\<close>

type_synonym herm_state = "isl_mat \<times> isl_mat option \<times> isl_mat option"

subsection \<open>Column operations\<close>

definition exchange ::
  "isl_mat \<Rightarrow> isl_mat option \<Rightarrow> isl_mat option \<Rightarrow> nat \<Rightarrow> nat \<Rightarrow> nat \<Rightarrow> herm_state" where
  "exchange M U Q r0 i j =
     (M\<lparr>mat_row := for_range r0 (n_row M) (\<lambda>r rs. upd_row rs r (\<lambda>p. p[i := p ! j, j := p ! i])) (mat_row M)\<rparr>,
      map_option (\<lambda>U. U\<lparr>mat_row := for_range 0 (n_row U)
        (\<lambda>r rs. upd_row rs r (\<lambda>p. p[i := p ! j, j := p ! i])) (mat_row U)\<rparr>) U,
      map_option (\<lambda>Q. case isl_mat_swap_rows (Inr Q) i j of Inr Q' \<Rightarrow> Q' | Inl _ \<Rightarrow> Q) Q)"

definition subtract ::
  "isl_mat \<Rightarrow> isl_mat option \<Rightarrow> isl_mat option \<Rightarrow> nat \<Rightarrow> nat \<Rightarrow> nat \<Rightarrow> isl_int \<Rightarrow> herm_state" where
  "subtract M U Q r0 i j m =
     (M\<lparr>mat_row := for_range r0 (n_row M) (\<lambda>r rs. upd_row rs r (\<lambda>p. p[j := p ! j - m * p ! i])) (mat_row M)\<rparr>,
      map_option (\<lambda>U. U\<lparr>mat_row := for_range 0 (n_row U)
        (\<lambda>r rs. upd_row rs r (\<lambda>p. p[j := p ! j - m * p ! i])) (mat_row U)\<rparr>) U,
      map_option (\<lambda>Q. Q\<lparr>mat_row := for_range 0 (n_col Q)
        (\<lambda>r rs. set_ent rs i r (rs ! i ! r + m * rs ! j ! r)) (mat_row Q)\<rparr>) Q)"

definition oppose ::
  "isl_mat \<Rightarrow> isl_mat option \<Rightarrow> isl_mat option \<Rightarrow> nat \<Rightarrow> nat \<Rightarrow> herm_state" where
  "oppose M U Q r0 col =
     (M\<lparr>mat_row := for_range r0 (n_row M) (\<lambda>r rs. upd_row rs r (\<lambda>p. p[col := - (p ! col)])) (mat_row M)\<rparr>,
      map_option (\<lambda>U. U\<lparr>mat_row := for_range 0 (n_row U)
        (\<lambda>r rs. upd_row rs r (\<lambda>p. p[col := - (p ! col)])) (mat_row U)\<rparr>) U,
      map_option (\<lambda>Q. Q\<lparr>mat_row := upd_row (mat_row Q) col (\<lambda>p. isl_seq_neg p p (n_col Q))\<rparr>) Q)"

subsection \<open>The Hermite normal form\<close>

text \<open>Euclid's algorithm on the entries of a row behind the pivot column.\<close>

definition clear_cond :: "nat \<Rightarrow> herm_state \<times> nat \<Rightarrow> bool" where
  "clear_cond r = (\<lambda>((M, U, Q), first).
     isl_seq_first_non_zero (drop first (mat_row M ! r)) (n_col M - first) \<noteq> None)"

definition clear_step :: "nat \<Rightarrow> nat \<Rightarrow> herm_state \<times> nat \<Rightarrow> herm_state \<times> nat" where
  "clear_step r col = (\<lambda>((M, U, Q), first).
     let off = the (isl_seq_first_non_zero (drop first (mat_row M ! r)) (n_col M - first));
         first = first + off;
         c = isl_int_fdiv_q (ent M r first) (ent M r col);
         (M, U, Q) = subtract M U Q r col first c
     in if ent M r first \<noteq> 0 then (exchange M U Q r first col, first) else ((M, U, Q), first + 1))"

definition clear_row :: "nat \<Rightarrow> nat \<Rightarrow> herm_state \<Rightarrow> herm_state option" where
  "clear_row r col s = map_option fst (while_option (clear_cond r) (clear_step r col) (s, col + 1))"

definition reduce_left :: "bool \<Rightarrow> nat \<Rightarrow> nat \<Rightarrow> nat \<Rightarrow> herm_state \<Rightarrow> herm_state" where
  "reduce_left neg r col i = (\<lambda>(M, U, Q).
     if ent M r i = 0 then (M, U, Q)
     else let c = (if neg then isl_int_cdiv_q (ent M r i) (ent M r col)
                   else isl_int_fdiv_q (ent M r i) (ent M r col))
          in if c = 0 then (M, U, Q) else subtract M U Q r col i c)"

definition hermite_row :: "bool \<Rightarrow> nat \<Rightarrow> herm_state \<times> nat \<Rightarrow> (herm_state \<times> nat) option" where
  "hermite_row neg r = (\<lambda>((M, U, Q), col).
     case isl_seq_abs_min_non_zero (drop col (mat_row M ! r)) (n_col M - col) of
       None \<Rightarrow> Some ((M, U, Q), col)
     | Some first \<Rightarrow>
         let first = first + col;
             (M, U, Q) = (if first \<noteq> col then exchange M U Q r first col else (M, U, Q));
             (M, U, Q) = (if ent M r col < 0 then oppose M U Q r col else (M, U, Q))
         in Option.bind (clear_row r col (M, U, Q)) (\<lambda>s.
              Some (for_range 0 col (reduce_left neg r col) s, col + 1)))"

definition isl_mat_left_hermite ::
  "isl_int junk \<Rightarrow> isl_mat res \<Rightarrow> bool \<Rightarrow> bool \<Rightarrow> bool \<Rightarrow> herm_state res option" where
  "isl_mat_left_hermite junk M neg want_U want_Q =
     (case M of
        Inl e \<Rightarrow> Some (Inl e)
      | Inr M \<Rightarrow>
          (case isl_mat_identity junk (n_col M) of
             Inl e \<Rightarrow> Some (Inl e)
           | Inr I \<Rightarrow>
               let U = (if want_U then Some I else None);
                   Q = (if want_Q then Some I else None)
               in if n_col M = 0 then Some (Inr (M, U, Q))
                  else map_option (\<lambda>(s, col). Inr s)
                         (for_range_opt 0 (n_row M) (hermite_row neg) ((M, U, Q), 0))))"

subsection \<open>Unimodular column operations\<close>

datatype colop = Swap nat nat | Sub nat nat int | Opp nat

text \<open>The effect on the columns of a matrix, and the inverse effect on the rows.\<close>

fun cact :: "colop \<Rightarrow> (nat \<Rightarrow> int) \<Rightarrow> nat \<Rightarrow> int" where
  "cact (Swap i j) a k = (if k = i then a j else if k = j then a i else a k)"
| "cact (Sub i j m) a k = (if k = j then a j - m * a i else a k)"
| "cact (Opp i) a k = (if k = i then - a i else a k)"

fun ract :: "colop \<Rightarrow> (nat \<Rightarrow> int) \<Rightarrow> nat \<Rightarrow> int" where
  "ract (Swap i j) b k = (if k = i then b j else if k = j then b i else b k)"
| "ract (Sub i j m) b k = (if k = i then b i + m * b j else b k)"
| "ract (Opp i) b k = (if k = i then - b i else b k)"

fun valid_op :: "nat \<Rightarrow> colop \<Rightarrow> bool" where
  "valid_op n (Swap i j) = (i < n \<and> j < n)"
| "valid_op n (Sub i j m) = (i < n \<and> j < n \<and> i \<noteq> j)"
| "valid_op n (Opp i) = (i < n)"

lemma cact_cong:
  "valid_op n op \<Longrightarrow> (\<And>k. k < n \<Longrightarrow> a k = b k) \<Longrightarrow> k < n \<Longrightarrow> cact op a k = cact op b k"
  by (cases op) auto

lemma ract_cong:
  "valid_op n op \<Longrightarrow> (\<And>k. k < n \<Longrightarrow> a k = b k) \<Longrightarrow> k < n \<Longrightarrow> ract op a k = ract op b k"
  by (cases op) auto

lemma sum_perturb:
  fixes f g :: "nat \<Rightarrow> int"
  assumes "i < n" and "j < n" and "i \<noteq> j" and "\<And>k. k \<noteq> i \<Longrightarrow> k \<noteq> j \<Longrightarrow> f k = g k"
    and "f i + f j = g i + g j"
  shows "(\<Sum>k<n. f k) = (\<Sum>k<n. g k)"
proof -
  have split: "(\<Sum>k<n. h k) = h i + h j + (\<Sum>k\<in>{..<n} - {i, j}. h k)" for h :: "nat \<Rightarrow> int"
  proof -
    have "(\<Sum>k<n. h k) = h i + (\<Sum>k\<in>{..<n} - {i}. h k)" using assms by (simp add: sum.remove)
    also have "(\<Sum>k\<in>{..<n} - {i}. h k) = h j + (\<Sum>k\<in>{..<n} - {i} - {j}. h k)"
      using assms by (intro sum.remove) auto
    also have "{..<n} - {i} - {j} = {..<n} - {i, j}" by auto
    finally show ?thesis by simp
  qed
  have "(\<Sum>k\<in>{..<n} - {i, j}. f k) = (\<Sum>k\<in>{..<n} - {i, j}. g k)"
    by (rule sum.cong) (use assms(4) in auto)
  with assms(5) show ?thesis by (simp add: split)
qed

lemma cact_ract_pairing:
  assumes "valid_op n op"
  shows "(\<Sum>k<n. cact op a k * ract op b k) = (\<Sum>k<n. a k * b k)"
proof (cases op)
  case (Swap i j)
  show ?thesis
  proof (cases "i = j")
    case True
    with Swap show ?thesis by (intro sum.cong) auto
  next
    case False
    with Swap assms show ?thesis by (intro sum_perturb [of i n j]) auto
  qed
next
  case (Sub i j m)
  with assms show ?thesis by (intro sum_perturb [of i n j]) (auto simp: algebra_simps)
next
  case (Opp i)
  then show ?thesis by (intro sum.cong) auto
qed

lemma cact_linear:
  "(\<Sum>k<n. a k * cact op (B k) j) = cact op (\<lambda>j. \<Sum>k<n. a k * B k j) j"
  by (cases op) (auto simp: algebra_simps sum_subtractf sum_distrib_left sum_negf)

lemma ract_linear:
  "(\<Sum>k<n. ract op (\<lambda>i. B i k) i * a k) = ract op (\<lambda>i. \<Sum>k<n. B i k * a k) i"
  by (cases op) (auto simp: algebra_simps sum.distrib sum_distrib_left sum_negf)

lemma ract_cact_unit:
  assumes "valid_op n op" and "i < n" and "j < n"
  shows "ract op (\<lambda>i. cact op (\<lambda>j. if i = j then 1 else 0) j) i = (if i = j then 1 else 0)"
  using assms by (cases op) auto

text \<open>\<open>A\<close> is \<open>m\<close> by \<open>n\<close>; \<open>M = A U\<close>, \<open>A = M Q\<close>, and \<open>U\<close> and \<open>Q\<close> are inverse to each other.\<close>

definition factored ::
  "nat \<Rightarrow> nat \<Rightarrow> (nat \<Rightarrow> nat \<Rightarrow> int) \<Rightarrow> (nat \<Rightarrow> nat \<Rightarrow> int) \<Rightarrow> (nat \<Rightarrow> nat \<Rightarrow> int) \<Rightarrow> (nat \<Rightarrow> nat \<Rightarrow> int) \<Rightarrow> bool"
where
  "factored m n A M U Q =
     ((\<forall>r<m. \<forall>j<n. M r j = (\<Sum>k<n. A r k * U k j)) \<and>
      (\<forall>r<m. \<forall>j<n. A r j = (\<Sum>k<n. M r k * Q k j)) \<and>
      (\<forall>i<n. \<forall>j<n. (\<Sum>k<n. U i k * Q k j) = (if i = j then 1 else 0)) \<and>
      (\<forall>i<n. \<forall>j<n. (\<Sum>k<n. Q i k * U k j) = (if i = j then 1 else 0)))"

lemma factored_init:
  "factored m n A A (\<lambda>i j. if i = j then 1 else 0) (\<lambda>i j. if i = j then 1 else 0)"
  by (simp add: factored_def if_distrib [of "(*) _"] if_distribR cong: if_cong)

lemma factored_colop:
  assumes F: "factored m n A M U Q" and op: "valid_op n op"
    and M': "\<And>r j. r < m \<Longrightarrow> j < n \<Longrightarrow> M' r j = cact op (M r) j"
    and U': "\<And>i j. i < n \<Longrightarrow> j < n \<Longrightarrow> U' i j = cact op (U i) j"
    and Q': "\<And>i j. i < n \<Longrightarrow> j < n \<Longrightarrow> Q' i j = ract op (\<lambda>i. Q i j) i"
  shows "factored m n A M' U' Q'"
  unfolding factored_def
proof (intro conjI allI impI)
  have M: "\<And>r j. r < m \<Longrightarrow> j < n \<Longrightarrow> M r j = (\<Sum>k<n. A r k * U k j)"
    and A: "\<And>r j. r < m \<Longrightarrow> j < n \<Longrightarrow> A r j = (\<Sum>k<n. M r k * Q k j)"
    and UQ: "\<And>i j. i < n \<Longrightarrow> j < n \<Longrightarrow> (\<Sum>k<n. U i k * Q k j) = (if i = j then 1 else 0)"
    and QU: "\<And>i j. i < n \<Longrightarrow> j < n \<Longrightarrow> (\<Sum>k<n. Q i k * U k j) = (if i = j then 1 else 0)"
    using F by (simp_all add: factored_def)
  show "M' r j = (\<Sum>k<n. A r k * U' k j)" if "r < m" "j < n" for r j
  proof -
    have "M' r j = cact op (\<lambda>j. \<Sum>k<n. A r k * U k j) j"
      using that M' M by (simp add: cact_cong [OF op, of "M r" "\<lambda>j. \<Sum>k<n. A r k * U k j"])
    then show ?thesis using that U' by (simp add: cact_linear [symmetric])
  qed
  show "A r j = (\<Sum>k<n. M' r k * Q' k j)" if "r < m" "j < n" for r j
    using that A M' Q' by (simp add: cact_ract_pairing [OF op])
  show "(\<Sum>k<n. U' i k * Q' k j) = (if i = j then 1 else 0)" if "i < n" "j < n" for i j
    using that UQ U' Q' by (simp add: cact_ract_pairing [OF op])
  show "(\<Sum>k<n. Q' i k * U' k j) = (if i = j then 1 else 0)" if "i < n" "j < n" for i j
  proof -
    have "(\<Sum>k<n. Q' i k * U' k j) = (\<Sum>k<n. ract op (\<lambda>i. Q i k) i * cact op (U k) j)"
      using that U' Q' by simp
    also have "\<dots> = ract op (\<lambda>i. \<Sum>k<n. Q i k * cact op (U k) j) i" by (rule ract_linear)
    also have "\<dots> = ract op (\<lambda>i. cact op (\<lambda>j. \<Sum>k<n. Q i k * U k j) j) i" by (simp only: cact_linear)
    also have "\<dots> = ract op (\<lambda>i. cact op (\<lambda>j. if i = j then 1 else 0) j) i"
      using QU that by (intro ract_cong [OF op] cact_cong [OF op]) auto
    also have "\<dots> = (if i = j then 1 else 0)" using ract_cact_unit [OF op] that by simp
    finally show ?thesis .
  qed
qed

subsection \<open>The operations of the code are column operations\<close>

text \<open>A matrix of given dimensions; the transformations are square.\<close>

definition mat_dim :: "isl_mat \<Rightarrow> nat \<Rightarrow> nat \<Rightarrow> bool" where
  "mat_dim M m n = (mat_ok M \<and> n_row M = m \<and> n_col M = n)"

definition applies :: "nat \<Rightarrow> nat \<Rightarrow> nat \<Rightarrow> colop \<Rightarrow> herm_state \<Rightarrow> isl_mat \<Rightarrow> isl_mat \<Rightarrow> isl_mat \<Rightarrow> bool" where
  "applies m n r0 op s M U Q = (\<exists>M' U' Q'. s = (M', Some U', Some Q') \<and>
     mat_dim M' m n \<and> mat_dim U' n n \<and> mat_dim Q' n n \<and>
     (\<forall>r<m. \<forall>j<n. ent M' r j = (if r0 \<le> r then cact op (ent M r) j else ent M r j)) \<and>
     (\<forall>i<n. \<forall>j<n. ent U' i j = cact op (ent U i) j) \<and>
     (\<forall>i<n. \<forall>j<n. ent Q' i j = ract op (\<lambda>i. ent Q i j) i))"

lemma mat_dim_update_rows:
  assumes "mat_dim M m n" and "\<And>r p. length (f r p) = length p"
  shows "mat_dim (M\<lparr>mat_row := for_range lo m (\<lambda>r rs. upd_row rs r (f r)) (mat_row M)\<rparr>) m n"
  using assms by (auto simp: mat_dim_def mat_ok_def ent_def nth_for_rows)

lemma ent_update_rows:
  assumes "mat_dim M m n" and "r < m"
  shows "ent (M\<lparr>mat_row := for_range lo m (\<lambda>r rs. upd_row rs r (f r)) (mat_row M)\<rparr>) r j =
      (if lo \<le> r then f r (mat_row M ! r) ! j else ent M r j)"
  using assms by (auto simp: mat_dim_def mat_ok_def ent_def nth_for_rows)

lemma update_rows_applies:
  assumes M: "mat_dim M m n" and op: "\<And>p k. n \<le> length p \<Longrightarrow> k < n \<Longrightarrow> f p ! k = cact op (\<lambda>k. p ! k) k"
    and len: "\<And>p. length (f p) = length p"
  shows "mat_dim (M\<lparr>mat_row := for_range lo (n_row M) (\<lambda>r rs. upd_row rs r f) (mat_row M)\<rparr>) m n \<and>
    (\<forall>r<m. \<forall>j<n. ent (M\<lparr>mat_row := for_range lo (n_row M) (\<lambda>r rs. upd_row rs r f) (mat_row M)\<rparr>) r j =
      (if lo \<le> r then cact op (ent M r) j else ent M r j))"
proof -
  have m: "n_row M = m" using M by (simp add: mat_dim_def)
  have l: "n \<le> length (mat_row M ! r)" if "r < m" for r
    using that M by (auto simp: mat_dim_def mat_ok_def)
  have e: "(\<lambda>k. mat_row M ! r ! k) = ent M r" for r by (simp add: ent_def [abs_def])
  have "f (mat_row M ! r) ! j = cact op (ent M r) j" if "r < m" "j < n" for r j
    using op [OF l [OF that(1)] that(2)] by (simp add: e)
  then show ?thesis
    unfolding m using mat_dim_update_rows [OF M, of "\<lambda>_. f"] ent_update_rows [OF M, of _ lo "\<lambda>_. f"] len
    by simp
qed

lemma appliesI:
  assumes "mat_dim M' m n \<and> (\<forall>r<m. \<forall>j<n. ent M' r j = (if r0 \<le> r then cact op (ent M r) j else ent M r j))"
    and "mat_dim U' n n \<and> (\<forall>i<n. \<forall>j<n. ent U' i j = (if 0 \<le> i then cact op (ent U i) j else ent U i j))"
    and "mat_dim Q' n n \<and> (\<forall>i<n. \<forall>j<n. ent Q' i j = ract op (\<lambda>i. ent Q i j) i)"
  shows "applies m n r0 op (M', Some U', Some Q') M U Q"
  using assms by (simp add: applies_def)

lemma exchange_applies:
  assumes "mat_dim M m n" "mat_dim U n n" "mat_dim Q n n" and "i < n" "j < n" "n < 2 ^ 32"
  shows "applies m n r0 (Swap i j) (exchange M (Some U) (Some Q) r0 i j) M U Q"
proof -
  have nth: "p[i := p ! j, j := p ! i] ! k = cact (Swap i j) (\<lambda>k. p ! k) k" if "n \<le> length p" for p :: "int list" and k
    using that assms by (auto simp: nth_list_update)
  obtain Q' where Q': "isl_mat_swap_rows (Inr Q) i j = Inr Q'" "mat_ok Q'"
    "\<And>r c. ent Q' r c = (if r = i then ent Q j c else if r = j then ent Q i c else ent Q r c)"
    "n_row Q' = n" "n_col Q' = n"
    using isl_mat_swap_rows_ent [of Q i j] assms by (auto simp: mat_dim_def)
  have Q: "mat_dim Q' n n \<and> (\<forall>k<n. \<forall>d<n. ent Q' k d = ract (Swap i j) (\<lambda>k. ent Q k d) k)"
    using Q' by (simp add: mat_dim_def)
  show ?thesis
    unfolding exchange_def option.map Q'(1) sum.case
    by (rule appliesI [OF update_rows_applies update_rows_applies Q]) (use assms nth in simp_all)
qed

lemma subtract_applies:
  assumes "mat_dim M m n" "mat_dim U n n" "mat_dim Q n n" and "i < n" "j < n" "i \<noteq> j"
  shows "applies m n r0 (Sub i j c) (subtract M (Some U) (Some Q) r0 i j c) M U Q"
proof -
  let ?Q = "\<lambda>l. for_range 0 l (\<lambda>r rs. set_ent rs i r (rs ! i ! r + c * rs ! j ! r)) (mat_row Q)"
  have nth: "p[j := p ! j - c * p ! i] ! k = cact (Sub i j c) (\<lambda>k. p ! k) k" if "n \<le> length p" for p :: "int list" and k
    using that assms by (auto simp: nth_list_update)
  have Q: "n \<le> length (mat_row Q)" "\<And>k. k < n \<Longrightarrow> n \<le> length (mat_row Q ! k)"
    using assms(3) by (auto simp: mat_dim_def mat_ok_def)
  have "length (?Q l) = length (mat_row Q) \<and> (\<forall>k<n. length (?Q l ! k) = length (mat_row Q ! k)) \<and>
      (\<forall>k<n. \<forall>d<n. ?Q l ! k ! d = (if k = i \<and> d < l then ent Q i d + c * ent Q j d else ent Q k d))"
    if "l \<le> n" for l
    using that
  proof (induction l)
    case (Suc l)
    let ?R = "?Q l"
    have R: "length ?R = length (mat_row Q)" "\<And>k. k < n \<Longrightarrow> length (?R ! k) = length (mat_row Q ! k)"
      "\<And>k d. k < n \<Longrightarrow> d < n \<Longrightarrow> ?R ! k ! d = (if k = i \<and> d < l then ent Q i d + c * ent Q j d else ent Q k d)"
      using Suc by simp_all
    have step: "?Q (Suc l) = set_ent ?R i l (?R ! i ! l + c * ?R ! j ! l)" by (simp add: for_range_Suc)
    have lk: "k < length ?R" if "k < n" for k using R(1) Q(1) that by simp
    have ld: "d < length (?R ! k)" if "k < n" "d < n" for k d
      using R(2) [OF that(1)] Q(2) [OF that(1)] that(2) by simp
    have ij: "?R ! i ! l = ent Q i l" "?R ! j ! l = ent Q j l"
      using R(3) assms(4-6) Suc.prems by simp_all
    show ?case unfolding step
    proof (intro conjI allI impI)
      show "set_ent ?R i l (?R ! i ! l + c * ?R ! j ! l) ! k ! d =
          (if k = i \<and> d < Suc l then ent Q i d + c * ent Q j d else ent Q k d)" if "k < n" "d < n" for k d
        using nth_set_ent [OF lk ld, OF that(1) that] R(3) [OF that] ij by (auto simp: less_Suc_eq)
    qed (use R in simp_all)
  qed (simp add: ent_def)
  from this [of n] have Q': "mat_dim (Q\<lparr>mat_row := ?Q n\<rparr>) n n \<and>
    (\<forall>k<n. \<forall>d<n. ent (Q\<lparr>mat_row := ?Q n\<rparr>) k d = ract (Sub i j c) (\<lambda>k. ent Q k d) k)"
    using assms(3) Q by (auto simp: mat_dim_def mat_ok_def ent_def)
  have n: "n_col Q = n" using assms(3) by (simp add: mat_dim_def)
  show ?thesis
    unfolding subtract_def option.map n
    by (rule appliesI [OF update_rows_applies update_rows_applies Q']) (use assms nth in simp_all)
qed

lemma oppose_applies:
  assumes "mat_dim M m n" "mat_dim U n n" "mat_dim Q n n" and "i < n"
  shows "applies m n r0 (Opp i) (oppose M (Some U) (Some Q) r0 i) M U Q"
proof -
  have nth: "p[i := - (p ! i)] ! k = cact (Opp i) (\<lambda>k. p ! k) k" if "n \<le> length p" for p :: "int list" and k
    using that assms by (auto simp: nth_list_update)
  have Q: "n \<le> length (mat_row Q)" "\<And>k. k < n \<Longrightarrow> n \<le> length (mat_row Q ! k)" "n_col Q = n"
    using assms(3) by (auto simp: mat_dim_def mat_ok_def)
  let ?Q = "Q\<lparr>mat_row := upd_row (mat_row Q) i (\<lambda>p. isl_seq_neg p p n)\<rparr>"
  have "mat_dim ?Q n n"
    using assms(3) Q by (auto simp: mat_dim_def mat_ok_def nth_upd_row)
  moreover have "ent ?Q k d = ract (Opp i) (\<lambda>k. ent Q k d) k" if "k < n" "d < n" for k d
    using Q(1) Q(2) [OF assms(4)] that by (simp add: ent_def nth_upd_row seq_write_nth)
  ultimately have Q': "mat_dim ?Q n n \<and> (\<forall>k<n. \<forall>d<n. ent ?Q k d = ract (Opp i) (\<lambda>k. ent Q k d) k)"
    by simp
  show ?thesis
    unfolding oppose_def option.map Q(3)
    by (rule appliesI [OF update_rows_applies update_rows_applies Q']) (use assms nth in simp_all)
qed

subsection \<open>The state of the computation\<close>

definition herm_ok :: "nat \<Rightarrow> nat \<Rightarrow> (nat \<Rightarrow> nat \<Rightarrow> int) \<Rightarrow> herm_state \<Rightarrow> bool" where
  "herm_ok m n A s = (\<exists>M U Q. s = (M, Some U, Some Q) \<and>
     mat_dim M m n \<and> mat_dim U n n \<and> mat_dim Q n n \<and> factored m n A (ent M) (ent U) (ent Q))"

definition col_step ::
  "(herm_state \<Rightarrow> bool) \<Rightarrow> nat \<Rightarrow> nat \<Rightarrow> colop \<Rightarrow> isl_mat \<Rightarrow> herm_state \<Rightarrow> bool" where
  "col_step ok m n op M s' = (ok s' \<and> (\<forall>r<m. \<forall>j<n. ent (fst s') r j = cact op (ent M r) j))"

lemma applies_herm_step:
  assumes app: "applies m n r0 op s' M U Q" and ok: "herm_ok m n A (M, Some U, Some Q)"
    and op: "valid_op n op"
    and above: "\<And>r j. r < r0 \<Longrightarrow> r < m \<Longrightarrow> j < n \<Longrightarrow> cact op (ent M r) j = ent M r j"
  shows "col_step (herm_ok m n A) m n op M s'"
proof -
  obtain M' U' Q' where s': "s' = (M', Some U', Some Q')"
    and dim: "mat_dim M' m n" "mat_dim U' n n" "mat_dim Q' n n"
    and M': "\<And>r j. r < m \<Longrightarrow> j < n \<Longrightarrow> ent M' r j = (if r0 \<le> r then cact op (ent M r) j else ent M r j)"
    and U': "\<And>i j. i < n \<Longrightarrow> j < n \<Longrightarrow> ent U' i j = cact op (ent U i) j"
    and Q': "\<And>i j. i < n \<Longrightarrow> j < n \<Longrightarrow> ent Q' i j = ract op (\<lambda>i. ent Q i j) i"
    using app by (auto simp: applies_def)
  have e: "ent M' r j = cact op (ent M r) j" if "r < m" "j < n" for r j
    using M' [OF that] above [of r j] that by (cases "r0 \<le> r") auto
  have "factored m n A (ent M) (ent U) (ent Q)" using ok by (auto simp: herm_ok_def)
  from factored_colop [OF this op e U' Q'] have "factored m n A (ent M') (ent U') (ent Q')" .
  with s' dim e show ?thesis by (auto simp: col_step_def herm_ok_def)
qed

lemma herm_ok_cases:
  assumes "herm_ok m n A (M, U, Q)"
  obtains U' Q' where "U = Some U'" "Q = Some Q'" "mat_dim M m n" "mat_dim U' n n" "mat_dim Q' n n"
    "herm_ok m n A (M, Some U', Some Q')"
  using assms by (auto simp: herm_ok_def)

lemma exchange_step:
  assumes ok: "herm_ok m n A (M, U, Q)" and ij: "i < n" "j < n" "n < 2 ^ 32"
    and above: "\<And>r. r < r0 \<Longrightarrow> r < m \<Longrightarrow> ent M r i = 0 \<and> ent M r j = 0"
  shows "col_step (herm_ok m n A) m n (Swap i j) M (exchange M U Q r0 i j)"
  using ok
proof (cases rule: herm_ok_cases)
  case (1 U' Q')
  show ?thesis unfolding 1
    by (rule applies_herm_step [OF exchange_applies [OF 1(3-5) ij] 1(6)]) (use ij above in auto)
qed

lemma subtract_step:
  assumes ok: "herm_ok m n A (M, U, Q)" and ij: "i < n" "j < n" "i \<noteq> j"
    and above: "\<And>r. r < r0 \<Longrightarrow> r < m \<Longrightarrow> ent M r i = 0"
  shows "col_step (herm_ok m n A) m n (Sub i j c) M (subtract M U Q r0 i j c)"
  using ok
proof (cases rule: herm_ok_cases)
  case (1 U' Q')
  show ?thesis unfolding 1
    by (rule applies_herm_step [OF subtract_applies [OF 1(3-5) ij] 1(6)]) (use ij above in auto)
qed

lemma oppose_step:
  assumes ok: "herm_ok m n A (M, U, Q)" and i: "i < n"
    and above: "\<And>r. r < r0 \<Longrightarrow> r < m \<Longrightarrow> ent M r i = 0"
  shows "col_step (herm_ok m n A) m n (Opp i) M (oppose M U Q r0 i)"
  using ok
proof (cases rule: herm_ok_cases)
  case (1 U' Q')
  show ?thesis unfolding 1
    by (rule applies_herm_step [OF oppose_applies [OF 1(3-5) i] 1(6)]) (use i above in auto)
qed

lemma col_step_ent:
  assumes "col_step ok m n op M s"
  shows "ok s" and "r < m \<Longrightarrow> j < n \<Longrightarrow> ent (fst s) r j = cact op (ent M r) j"
  using assms by (auto simp: col_step_def)

lemma herm_ok_dim:
  assumes "herm_ok m n A s"
  shows "n_row (fst s) = m" "n_col (fst s) = n" "mat_dim (fst s) m n"
  using assms by (auto simp: herm_ok_def mat_dim_def)

subsection \<open>Clearing a row\<close>

text \<open>
  The invariant of the loop: the columns before the pivot column are as they
  were, the rows above are zero from the pivot column on, the pivot is positive
  and the row is zero between the pivot and \<open>first\<close>.
\<close>

definition clear_inv ::
  "(herm_state \<Rightarrow> bool) \<Rightarrow> nat \<Rightarrow> nat \<Rightarrow> isl_mat \<Rightarrow> nat \<Rightarrow> nat \<Rightarrow> herm_state \<times> nat \<Rightarrow> bool" where
  "clear_inv ok m n M0 r col = (\<lambda>(s, first).
     ok s \<and> col < first \<and> first \<le> n \<and> 0 < ent (fst s) r col \<and>
     (\<forall>k<m. \<forall>j<col. ent (fst s) k j = ent M0 k j) \<and>
     (\<forall>k<r. \<forall>j<n. col \<le> j \<longrightarrow> ent (fst s) k j = 0) \<and>
     (\<forall>j. col < j \<and> j < first \<longrightarrow> ent (fst s) r j = 0))"

definition clear_measure :: "nat \<Rightarrow> nat \<Rightarrow> nat \<Rightarrow> herm_state \<times> nat \<Rightarrow> nat" where
  "clear_measure n r col = (\<lambda>(s, first). nat (ent (fst s) r col) * (n + 1) + (n - first))"

text \<open>
  What the pivoting of a row relies on: a property of the state that the three
  column operations keep when the rows they skip are zero in the columns involved.
  The Hermite form and the right inverse keep different properties.
\<close>

locale column_ops =
  fixes ok :: "herm_state \<Rightarrow> bool" and m n :: nat
  assumes ok_dim: "ok s \<Longrightarrow> mat_dim (fst s) m n"
    and exchange_law: "ok (M, U, Q) \<Longrightarrow> i < n \<Longrightarrow> j < n \<Longrightarrow> n < 2 ^ 32 \<Longrightarrow>
      (\<And>r. r < r0 \<Longrightarrow> r < m \<Longrightarrow> ent M r i = 0 \<and> ent M r j = 0) \<Longrightarrow>
      col_step ok m n (Swap i j) M (exchange M U Q r0 i j)"
    and subtract_law: "ok (M, U, Q) \<Longrightarrow> i < n \<Longrightarrow> j < n \<Longrightarrow> i \<noteq> j \<Longrightarrow>
      (\<And>r. r < r0 \<Longrightarrow> r < m \<Longrightarrow> ent M r i = 0) \<Longrightarrow>
      col_step ok m n (Sub i j c) M (subtract M U Q r0 i j c)"
    and oppose_law: "ok (M, U, Q) \<Longrightarrow> i < n \<Longrightarrow> (\<And>r. r < r0 \<Longrightarrow> r < m \<Longrightarrow> ent M r i = 0) \<Longrightarrow>
      col_step ok m n (Opp i) M (oppose M U Q r0 i)"
begin

lemma clear_step_inv:
  assumes inv: "clear_inv ok m n M0 r col x" and cond: "clear_cond r x"
    and r: "r < m" and n: "n < 2 ^ 32"
  shows "clear_inv ok m n M0 r col (clear_step r col x) \<and>
    clear_measure n r col (clear_step r col x) < clear_measure n r col x"
proof -
  obtain M U Q f0 where x: "x = ((M, U, Q), f0)" by (cases x) auto
  from inv have ok: "ok (M, U, Q)" and f0: "col < f0" "f0 \<le> n" and p: "0 < ent M r col"
    and before: "\<And>k j. k < m \<Longrightarrow> j < col \<Longrightarrow> ent M k j = ent M0 k j"
    and above: "\<And>k j. k < r \<Longrightarrow> j < n \<Longrightarrow> col \<le> j \<Longrightarrow> ent M k j = 0"
    and zero: "\<And>j. col < j \<Longrightarrow> j < f0 \<Longrightarrow> ent M r j = 0"
    by (auto simp: x clear_inv_def)
  have dim: "n_col M = n" "n \<le> length (mat_row M ! r)"
    using ok_dim [OF ok] r by (auto simp: mat_dim_def mat_ok_def)
  obtain off where off: "isl_seq_first_non_zero (drop f0 (mat_row M ! r)) (n - f0) = Some off"
    using cond dim by (auto simp: x clear_cond_def)
  define f where "f = f0 + off"
  have f: "f < n" "ent M r f \<noteq> 0" "\<And>j. f0 \<le> j \<Longrightarrow> j < f \<Longrightarrow> ent M r j = 0"
  proof -
    have o: "off < n - f0" "drop f0 (mat_row M ! r) ! off \<noteq> 0" "\<And>j. j < off \<Longrightarrow> drop f0 (mat_row M ! r) ! j = 0"
      using off by (auto simp: seq_simps)
    then show "f < n" "ent M r f \<noteq> 0" using f0 dim by (auto simp: f_def ent_def)
    show "ent M r j = 0" if "f0 \<le> j" "j < f" for j
      using o(1) o(3) [of "j - f0"] that f0 dim by (auto simp: f_def ent_def)
  qed
  have col: "col < f" "col < n" "f0 \<le> f" using f0 f by (auto simp: f_def)
  have zero': "ent M r j = 0" if "col < j" "j < f" for j
    using zero f(3) that by (cases "j < f0") auto
  define c where "c = isl_int_fdiv_q (ent M r f) (ent M r col)"
  obtain M1 U1 Q1 where s1: "subtract M U Q r col f c = (M1, U1, Q1)" by (cases "subtract M U Q r col f c") auto
  have st1: "col_step ok m n (Sub col f c) M (M1, U1, Q1)"
    unfolding s1 [symmetric] by (rule subtract_law [OF ok]) (use col f above in auto)
  from col_step_ent [OF st1] have ok1: "ok (M1, U1, Q1)"
    and e1: "\<And>k j. k < m \<Longrightarrow> j < n \<Longrightarrow> ent M1 k j = (if j = f then ent M k f - c * ent M k col else ent M k j)"
    by auto
  have rem: "0 \<le> ent M1 r f" "ent M1 r f < ent M r col"
    using fdiv_rem_range [OF p, of "ent M r f"] f r by (auto simp: e1 c_def)
  have above1: "ent M1 k j = 0" if "k < r" "j < n" "col \<le> j" for k j
    using that above e1 [of k j] col f r by auto
  show ?thesis
  proof (cases "ent M1 r f = 0")
    case True
    have step: "clear_step r col x = ((M1, U1, Q1), f + 1)"
      using True by (simp add: clear_step_def x dim off f_def [symmetric] c_def [symmetric] s1 Let_def)
    have "ent M1 r j = 0" if "col < j" "j < f + 1" for j
      using that True zero' [of j] e1 [of r j] f r by (cases "j = f") auto
    moreover have "ent M1 r col = ent M r col" using e1 col r by simp
    moreover have "ent M1 k j = ent M0 k j" if "k < m" "j < col" for k j
      using that before [of k j] e1 [of k j] col by simp
    ultimately show ?thesis using ok1 col f p above1
      unfolding step by (auto simp: clear_inv_def clear_measure_def x)
  next
    case False
    obtain M2 U2 Q2 where s2: "exchange M1 U1 Q1 r f col = (M2, U2, Q2)"
      by (cases "exchange M1 U1 Q1 r f col") auto
    have st2: "col_step ok m n (Swap f col) M1 (M2, U2, Q2)"
      unfolding s2 [symmetric] by (rule exchange_law [OF ok1]) (use col f above1 n in auto)
    from col_step_ent [OF st2] have ok2: "ok (M2, U2, Q2)"
      and e2: "\<And>k j. k < m \<Longrightarrow> j < n \<Longrightarrow>
        ent M2 k j = (if j = f then ent M1 k col else if j = col then ent M1 k f else ent M1 k j)"
      by auto
    have step: "clear_step r col x = ((M2, U2, Q2), f)"
      using False by (simp add: clear_step_def x dim off f_def [symmetric] c_def [symmetric] s1 s2 Let_def)
    have piv: "ent M2 r col = ent M1 r f" using e2 col r by simp
    have "ent M2 r j = 0" if "col < j" "j < f" for j
      using that zero' [of j] e1 [of r j] e2 [of r j] f r by simp
    moreover have "ent M2 k j = ent M0 k j" if "k < m" "j < col" for k j
      using that before [of k j] e1 [of k j] e2 [of k j] col by simp
    moreover have "ent M2 k j = 0" if "k < r" "j < n" "col \<le> j" for k j
      using that above1 [of k] e2 [of k j] col f r by auto
    ultimately have "clear_inv ok m n M0 r col (clear_step r col x)"
      unfolding step using ok2 col f rem False piv by (simp add: clear_inv_def)
    moreover have "nat (ent M1 r f) * (n + 1) + (n - f) < nat (ent M r col) * (n + 1) + (n - f0)"
    proof -
      have "(nat (ent M1 r f) + 1) * (n + 1) \<le> nat (ent M r col) * (n + 1)"
        using rem by (intro mult_right_mono) auto
      moreover have "a + 1 * k \<le> b \<Longrightarrow> x < k \<Longrightarrow> a + x < b + y" for a b k x y :: nat by simp
      ultimately show ?thesis unfolding distrib_right by (meson diff_le_self less_Suc_eq_le Suc_eq_plus1 le_imp_less_Suc le_less_trans less_add_one)
    qed
    ultimately show ?thesis unfolding step by (simp add: clear_measure_def x piv)
  qed
qed

lemma clear_row_correct:
  assumes ok: "ok s" and r: "r < m" and col: "col < n" and n: "n < 2 ^ 32"
    and p: "0 < ent (fst s) r col"
    and above: "\<And>k j. k < r \<Longrightarrow> j < n \<Longrightarrow> col \<le> j \<Longrightarrow> ent (fst s) k j = 0"
  shows "\<exists>s'. clear_row r col s = Some s' \<and> ok s' \<and> 0 < ent (fst s') r col \<and>
    (\<forall>k<m. \<forall>j<col. ent (fst s') k j = ent (fst s) k j) \<and>
    (\<forall>k<r. \<forall>j<n. col \<le> j \<longrightarrow> ent (fst s') k j = 0) \<and>
    (\<forall>j<n. col < j \<longrightarrow> ent (fst s') r j = 0)"
proof -
  let ?P = "clear_inv ok m n (fst s) r col"
  have init: "?P (s, col + 1)" using ok p col above by (auto simp: clear_inv_def)
  have step: "?P (clear_step r col x) \<and> clear_measure n r col (clear_step r col x) < clear_measure n r col x"
    if "?P x" "clear_cond r x" for x
    by (rule clear_step_inv [OF that r n])
  obtain t where t: "while_option (clear_cond r) (clear_step r col) (s, col + 1) = Some t"
    using measure_while_option_Some [of ?P "clear_cond r" "clear_step r col" "clear_measure n r col"] step init
    by blast
  have inv: "?P t"
    by (rule while_option_rule [of ?P "clear_cond r" "clear_step r col", OF _ t init]) (use step in blast)
  have stop: "\<not> clear_cond r t" by (rule while_option_stop [OF t])
  obtain M U Q f where x: "t = ((M, U, Q), f)" by (cases t) auto
  have ok': "ok (M, U, Q)" and f: "col < f" "f \<le> n" using inv by (auto simp: clear_inv_def x)
  have dim: "n_col M = n" "n \<le> length (mat_row M ! r)"
    using ok_dim [OF ok'] r by (auto simp: mat_dim_def mat_ok_def)
  have z: "ent M r j = 0" if "col < j" "j < n" for j
  proof (cases "j < f")
    case True
    then show ?thesis using inv that by (auto simp: clear_inv_def x)
  next
    case False
    have "\<forall>i<n - f. drop f (mat_row M ! r) ! i = 0"
      using stop dim by (simp add: clear_cond_def x seq_simps)
    with False that have "drop f (mat_row M ! r) ! (j - f) = 0" by (metis diff_less_mono not_less)
    with False that dim f show ?thesis by (simp add: ent_def)
  qed
  show ?thesis
    by (rule exI [of _ "(M, U, Q)"]) (use inv z t in \<open>auto simp: clear_inv_def x clear_row_def\<close>)
qed

text \<open>The pivot is brought to its column and made positive.\<close>

lemma pivot_ok:
  assumes ok: "ok (M, U, Q)" and r: "r < m" and n: "n < 2 ^ 32"
    and f: "col \<le> f" "f < n" "ent M r f \<noteq> 0"
    and above: "\<And>k j. k < r \<Longrightarrow> j < n \<Longrightarrow> col \<le> j \<Longrightarrow> ent M k j = 0"
  defines "s1 \<equiv> (if f \<noteq> col then exchange M U Q r f col else (M, U, Q))"
  defines "s2 \<equiv> (case s1 of (M, U, Q) \<Rightarrow> if ent M r col < 0 then oppose M U Q r col else (M, U, Q))"
  shows "ok s2 \<and> 0 < ent (fst s2) r col \<and>
    (\<forall>k<m. \<forall>j<n. j < col \<or> k < r \<longrightarrow> ent (fst s2) k j = ent M k j)"
proof -
  have col: "col < n" using f by simp
  have 1: "ok s1 \<and> ent (fst s1) r col \<noteq> 0 \<and>
    (\<forall>k<m. \<forall>j<n. j < col \<or> k < r \<longrightarrow> ent (fst s1) k j = ent M k j)"
  proof (cases "f = col")
    case True
    with ok f show ?thesis by (simp add: s1_def)
  next
    case False
    have st: "col_step ok m n (Swap f col) M s1"
      unfolding s1_def using False by simp (rule exchange_law [OF ok f(2) col n], use above f col in auto)
    have "ent (fst s1) k j = ent M k j" if "k < m" "j < n" "j < col \<or> k < r" for k j
      using col_step_ent(2) [OF st that(1,2)] that above [of k] f col by auto
    then show ?thesis using col_step_ent(1) [OF st] col_step_ent(2) [OF st r col] f by simp
  qed
  obtain M1 U1 Q1 where s1: "s1 = (M1, U1, Q1)" by (cases s1) auto
  note 1 = 1 [unfolded s1 fst_conv]
  have z1: "ent M1 k j = 0" if "k < r" "j < n" "col \<le> j" for k j
    using 1 above [OF that] that r by auto
  show ?thesis
  proof (cases "ent M1 r col < 0")
    case False
    with 1 show ?thesis by (simp add: s2_def s1)
  next
    case True
    then have s2: "s2 = oppose M1 U1 Q1 r col" by (simp add: s2_def s1)
    have st: "col_step ok m n (Opp col) M1 s2"
      unfolding s2 by (rule oppose_law [OF 1 [THEN conjunct1] col]) (use z1 col in auto)
    have "ent (fst s2) k j = ent M k j" if "k < m" "j < n" "j < col \<or> k < r" for k j
      using col_step_ent(2) [OF st that(1,2)] 1 that z1 [of k col] col by auto
    then show ?thesis using col_step_ent(1) [OF st] col_step_ent(2) [OF st r col] True by simp
  qed
qed

end

interpretation hermite_ops: column_ops "herm_ok m n A" m n for m n A
  by unfold_locales (auto intro: exchange_step subtract_step oppose_step herm_ok_dim)

subsection \<open>The shape of the normal form\<close>

text \<open>
  The first \<open>k\<close> rows are in column echelon form, with pivot rows \<open>ps\<close>: the column of
  the \<open>c\<close>-th pivot is zero above it, the columns behind the last pivot are zero, and
  the entries before a pivot are reduced modulo the pivot.
\<close>

definition reduced :: "bool \<Rightarrow> int \<Rightarrow> int \<Rightarrow> bool" where
  "reduced neg p e = (if neg then - p < e \<and> e \<le> 0 else 0 \<le> e \<and> e < p)"

definition hermite_form :: "bool \<Rightarrow> (nat \<Rightarrow> nat \<Rightarrow> int) \<Rightarrow> nat \<Rightarrow> nat \<Rightarrow> nat list \<Rightarrow> bool" where
  "hermite_form neg H k n ps =
     (length ps \<le> n \<and> sorted_wrt (<) ps \<and> (\<forall>r\<in>set ps. r < k) \<and>
      (\<forall>c<length ps. 0 < H (ps ! c) c) \<and>
      (\<forall>c<n. \<forall>r<k. (c < length ps \<longrightarrow> r < ps ! c) \<longrightarrow> H r c = 0) \<and>
      (\<forall>c<length ps. \<forall>j<c. reduced neg (H (ps ! c) c) (H (ps ! c) j)))"

lemma hermite_form_init: "hermite_form neg H 0 n []"
  by (simp add: hermite_form_def)

lemma hermite_formD:
  assumes "hermite_form neg H k n ps"
  shows "length ps \<le> n" and "sorted_wrt (<) ps"
    and "c < length ps \<Longrightarrow> ps ! c < k" and "c < length ps \<Longrightarrow> 0 < H (ps ! c) c"
    and "c < n \<Longrightarrow> r < k \<Longrightarrow> (c < length ps \<Longrightarrow> r < ps ! c) \<Longrightarrow> H r c = 0"
    and "c < length ps \<Longrightarrow> j < c \<Longrightarrow> reduced neg (H (ps ! c) c) (H (ps ! c) j)"
  using assms by (auto simp: hermite_form_def)

lemma hermite_formI:
  assumes "length ps \<le> n" and "sorted_wrt (<) ps"
    and "\<And>c. c < length ps \<Longrightarrow> ps ! c < k" and "\<And>c. c < length ps \<Longrightarrow> 0 < H (ps ! c) c"
    and "\<And>c r. c < n \<Longrightarrow> r < k \<Longrightarrow> (c < length ps \<Longrightarrow> r < ps ! c) \<Longrightarrow> H r c = 0"
    and "\<And>c j. c < length ps \<Longrightarrow> j < c \<Longrightarrow> reduced neg (H (ps ! c) c) (H (ps ! c) j)"
  shows "hermite_form neg H k n ps"
proof -
  have "\<forall>r\<in>set ps. r < k" using assms(3) by (auto simp: in_set_conv_nth)
  with assms show ?thesis unfolding hermite_form_def by blast
qed

lemma hermite_form_cong:
  assumes hf: "hermite_form neg H k n ps" and e: "\<And>r c. r < k \<Longrightarrow> c < n \<Longrightarrow> H' r c = H r c"
  shows "hermite_form neg H' k n ps"
proof (rule hermite_formI)
  note D = hermite_formD [OF hf]
  show "0 < H' (ps ! c) c" if "c < length ps" for c
    using that D(1) D(3) [OF that] D(4) [OF that] by (simp add: e)
  show "H' r c = 0" if "c < n" "r < k" "c < length ps \<Longrightarrow> r < ps ! c" for r c
    using that D(5) [OF that] by (simp add: e)
  show "reduced neg (H' (ps ! c) c) (H' (ps ! c) j)" if "c < length ps" "j < c" for c j
    using that D(1) D(3) [OF that(1)] D(6) [OF that] by (simp add: e)
qed (use hermite_formD [OF hf] in auto)

text \<open>A further row is zero behind the last pivot, or has a pivot of its own.\<close>

lemma hermite_form_skip:
  assumes hf: "hermite_form neg H k n ps" and z: "\<And>c. length ps \<le> c \<Longrightarrow> c < n \<Longrightarrow> H k c = 0"
  shows "hermite_form neg H (Suc k) n ps"
proof (rule hermite_formI)
  note D = hermite_formD [OF hf]
  show "H r c = 0" if "c < n" "r < Suc k" "c < length ps \<Longrightarrow> r < ps ! c" for r c
  proof (cases "r = k")
    case True
    with that(3) D(3) [of c] have "length ps \<le> c" by force
    with True that z show ?thesis by simp
  next
    case False
    with that have "r < k" by simp
    with that D(5) show ?thesis by blast
  qed
  show "ps ! c < Suc k" if "c < length ps" for c using D(3) [OF that] by simp
qed (use hermite_formD [OF hf] in auto)

lemma hermite_form_pivot:
  assumes hf: "hermite_form neg H k n ps" and l: "length ps < n" and p: "0 < H k (length ps)"
    and z: "\<And>c. length ps < c \<Longrightarrow> c < n \<Longrightarrow> H k c = 0"
    and red: "\<And>j. j < length ps \<Longrightarrow> reduced neg (H k (length ps)) (H k j)"
  shows "hermite_form neg H (Suc k) n (ps @ [k])"
proof (rule hermite_formI)
  note D = hermite_formD [OF hf]
  have nth: "(ps @ [k]) ! c = (if c < length ps then ps ! c else k)" if "c < length (ps @ [k])" for c
    using that by (auto simp: nth_append)
  have last: "c = length ps" if "c < length (ps @ [k])" "\<not> c < length ps" for c using that by simp
  show "sorted_wrt (<) (ps @ [k])" using D(2,3) by (auto simp: sorted_wrt_append in_set_conv_nth)
  show "(ps @ [k]) ! c < Suc k" if "c < length (ps @ [k])" for c
    using nth [OF that] D(3) [of c] by auto
  show "0 < H ((ps @ [k]) ! c) c" if "c < length (ps @ [k])" for c
    using nth [OF that] D(4) [of c] p last [OF that] by auto
  show "reduced neg (H ((ps @ [k]) ! c) c) (H ((ps @ [k]) ! c) j)" if "c < length (ps @ [k])" "j < c" for c j
  proof (cases "c < length ps")
    case True
    with nth [OF that(1)] D(6) [of c j] that show ?thesis by simp
  next
    case False
    with nth [OF that(1)] last [OF that(1)] red [of j] that show ?thesis by simp
  qed
  show "H r c = 0" if rc: "c < n" "r < Suc k" "c < length (ps @ [k]) \<Longrightarrow> r < (ps @ [k]) ! c" for r c
  proof (cases "r = k")
    case True
    have "length ps < c"
    proof (rule ccontr)
      assume "\<not> length ps < c"
      then have "c < length (ps @ [k])" by simp
      with that(3) True nth [OF this] D(3) [of c] show False by (auto split: if_splits)
    qed
    with True that z show ?thesis by simp
  next
    case False
    with that have "r < k" by simp
    moreover have "r < ps ! c" if "c < length ps" using that rc(3) by (simp add: nth_append)
    ultimately show ?thesis using that(1) D(5) by blast
  qed
qed (use l in simp)

subsection \<open>A row of the algorithm\<close>

lemma reduce_left_step:
  fixes neg :: bool
  assumes ok: "herm_ok m n A s" and r: "r < m" and i: "i < col" "col < n" and p: "0 < ent (fst s) r col"
    and above: "\<And>k. k < r \<Longrightarrow> ent (fst s) k col = 0"
  defines "s' \<equiv> reduce_left neg r col i s"
  shows "herm_ok m n A s' \<and> (\<forall>k<m. \<forall>j<n. j \<noteq> i \<or> k < r \<longrightarrow> ent (fst s') k j = ent (fst s) k j) \<and>
    reduced neg (ent (fst s) r col) (ent (fst s') r i)"
proof -
  obtain M U Q where s: "s = (M, U, Q)" by (cases s) auto
  define c where "c = (if neg then isl_int_cdiv_q (ent M r i) (ent M r col)
    else isl_int_fdiv_q (ent M r i) (ent M r col))"
  have red: "reduced neg (ent M r col) (ent M r i - c * ent M r col)"
    using fdiv_rem_range [of "ent M r col" "ent M r i"] cdiv_rem_range [of "ent M r col" "ent M r i"] p
    by (simp add: reduced_def c_def s)
  have zero: "c = 0" if "ent M r i = 0"
    using that by (simp add: c_def isl_int_cdiv_q_def isl_int_fdiv_q_def)
  show ?thesis
  proof (cases "ent M r i = 0 \<or> c = 0")
    case True
    then have "s' = s" unfolding s'_def s by (auto simp: reduce_left_def c_def [symmetric])
    with red zero True ok show ?thesis by (auto simp: s)
  next
    case False
    then have s': "s' = subtract M U Q r col i c"
      unfolding s'_def s by (auto simp: reduce_left_def c_def [symmetric])
    have "col_step (herm_ok m n A) m n (Sub col i c) M s'"
      unfolding s' by (rule subtract_step [OF ok [unfolded s]]) (use i above in \<open>auto simp: s\<close>)
    note st = col_step_ent [OF this]
    show ?thesis
      using st(1) st(2) [of r i] red r i above by (auto simp: s st(2))
  qed
qed

lemma reduce_left_loop:
  fixes neg :: bool
  assumes ok: "herm_ok m n A s" and r: "r < m" and col: "col < n" and p: "0 < ent (fst s) r col"
    and above: "\<And>k. k < r \<Longrightarrow> ent (fst s) k col = 0"
  defines "s' \<equiv> for_range 0 col (reduce_left neg r col) s"
  shows "herm_ok m n A s' \<and>
    (\<forall>k<m. \<forall>j<n. col \<le> j \<or> k < r \<longrightarrow> ent (fst s') k j = ent (fst s) k j) \<and>
    (\<forall>j<col. reduced neg (ent (fst s) r col) (ent (fst s') r j))"
proof -
  let ?P = "\<lambda>i s'. herm_ok m n A s' \<and>
    (\<forall>k<m. \<forall>j<n. col \<le> j \<or> k < r \<longrightarrow> ent (fst s') k j = ent (fst s) k j) \<and>
    (\<forall>j<i. reduced neg (ent (fst s) r col) (ent (fst s') r j))"
  have "?P col s'"
    unfolding s'_def
  proof (rule for_range_induct [where P = ?P])
    fix i t assume i: "0 \<le> i" "i < col" and P: "?P i t"
    let ?t = "reduce_left neg r col i t"
    have e: "ent (fst t) r col = ent (fst s) r col" using P r col by simp
    have "herm_ok m n A ?t \<and> (\<forall>k<m. \<forall>j<n. j \<noteq> i \<or> k < r \<longrightarrow> ent (fst ?t) k j = ent (fst t) k j) \<and>
      reduced neg (ent (fst t) r col) (ent (fst ?t) r i)"
      by (rule reduce_left_step) (use P r i col p above in auto)
    with P r i col e show "?P (Suc i) ?t" by (auto simp: less_Suc_eq)
  qed (use ok in auto)
  then show ?thesis .
qed

definition herm_inv :: "bool \<Rightarrow> nat \<Rightarrow> nat \<Rightarrow> (nat \<Rightarrow> nat \<Rightarrow> int) \<Rightarrow> nat \<Rightarrow> herm_state \<Rightarrow> nat list \<Rightarrow> bool" where
  "herm_inv neg m n A r s ps = (herm_ok m n A s \<and> hermite_form neg (ent (fst s)) r n ps)"

lemma herm_inv_above:
  assumes "herm_inv neg m n A r s ps" and "k < r" "j < n" "length ps \<le> j"
  shows "ent (fst s) k j = 0"
  using assms by (auto simp: herm_inv_def hermite_form_def)

lemma pivot_prepare:
  assumes inv: "herm_inv neg m n A r (M, U, Q) ps" and r: "r < m" and n: "n < 2 ^ 32"
    and f: "length ps \<le> f" "f < n" "ent M r f \<noteq> 0"
  defines "s1 \<equiv> (if f \<noteq> length ps then exchange M U Q r f (length ps) else (M, U, Q))"
  defines "s2 \<equiv> (case s1 of (M, U, Q) \<Rightarrow>
    if ent M r (length ps) < 0 then oppose M U Q r (length ps) else (M, U, Q))"
  shows "herm_inv neg m n A r s2 ps \<and> 0 < ent (fst s2) r (length ps)"
proof -
  have ok: "herm_ok m n A (M, U, Q)" and hf: "hermite_form neg (ent M) r n ps"
    using inv by (simp_all add: herm_inv_def)
  have z: "ent M k j = 0" if "k < r" "j < n" "length ps \<le> j" for k j
    using herm_inv_above [OF inv] that by simp
  note p = hermite_ops.pivot_ok [OF ok r n f z, folded s1_def, folded s2_def]
  have "hermite_form neg (ent (fst s2)) r n ps" by (rule hermite_form_cong [OF hf]) (use p r in simp)
  with p show ?thesis by (simp add: herm_inv_def)
qed

lemma hermite_row_correct:
  assumes inv: "herm_inv neg m n A r s ps" and r: "r < m" and n: "n < 2 ^ 32"
  shows "\<exists>s' ps'. hermite_row neg r (s, length ps) = Some (s', length ps') \<and> herm_inv neg m n A (Suc r) s' ps'"
proof -
  let ?col = "length ps"
  obtain M U Q where s: "s = (M, U, Q)" by (cases s) auto
  have ok: "herm_ok m n A (M, U, Q)" and hf: "hermite_form neg (ent M) r n ps"
    using inv by (auto simp: herm_inv_def s)
  have dim: "n_col M = n" "n \<le> length (mat_row M ! r)"
    using herm_ok_dim [OF ok] r by (auto simp: mat_dim_def mat_ok_def)
  have le: "?col \<le> n" using hf by (simp add: hermite_form_def)
  have at: "drop ?col (mat_row M ! r) ! i = ent M r (?col + i)" if "i < n - ?col" for i
    using that dim by (simp add: ent_def)
  show ?thesis
  proof (cases "isl_seq_abs_min_non_zero (drop ?col (mat_row M ! r)) (n - ?col)")
    case None
    then have "ent M r (?col + i) = 0" if "i < n - ?col" for i
      using that at by (simp add: seq_simps)
    then have "ent M r c = 0" if "?col \<le> c" "c < n" for c
      using that by (metis diff_less_mono le_add_diff_inverse)
    from hermite_form_skip [OF hf this] have "herm_inv neg m n A (Suc r) s ps"
      using ok by (simp add: herm_inv_def s)
    moreover have "hermite_row neg r (s, ?col) = Some (s, ?col)"
      using None dim by (simp add: hermite_row_def s)
    ultimately show ?thesis by blast
  next
    case (Some off)
    define f where "f = off + ?col"
    have f: "?col \<le> f" "f < n" "ent M r f \<noteq> 0"
      using isl_seq_abs_min_non_zero_Some(1,2) [OF Some] at [of off] by (auto simp: f_def add.commute)
    define s1 where "s1 = (if f \<noteq> ?col then exchange M U Q r f ?col else (M, U, Q))"
    define s2 where "s2 = (case s1 of (M, U, Q) \<Rightarrow>
      if ent M r ?col < 0 then oppose M U Q r ?col else (M, U, Q))"
    have 2: "herm_inv neg m n A r s2 ps" "0 < ent (fst s2) r ?col"
      using pivot_prepare [OF inv [unfolded s] r n f] by (simp_all add: s1_def s2_def)
    have ok2: "herm_ok m n A s2" using 2 by (simp add: herm_inv_def)
    have col: "?col < n" using f by simp
    obtain s3 where s3: "clear_row r ?col s2 = Some s3" "herm_ok m n A s3" "0 < ent (fst s3) r ?col"
      "\<And>k j. k < m \<Longrightarrow> j < ?col \<Longrightarrow> ent (fst s3) k j = ent (fst s2) k j"
      "\<And>k j. k < r \<Longrightarrow> j < n \<Longrightarrow> ?col \<le> j \<Longrightarrow> ent (fst s3) k j = 0"
      "\<And>j. j < n \<Longrightarrow> ?col < j \<Longrightarrow> ent (fst s3) r j = 0"
      using hermite_ops.clear_row_correct [OF ok2 r col n 2(2) herm_inv_above [OF 2(1)]] by blast
    let ?s4 = "for_range 0 ?col (reduce_left neg r ?col) s3"
    have 4: "herm_ok m n A ?s4"
      "\<And>k j. k < m \<Longrightarrow> j < n \<Longrightarrow> ?col \<le> j \<or> k < r \<Longrightarrow> ent (fst ?s4) k j = ent (fst s3) k j"
      "\<And>j. j < ?col \<Longrightarrow> reduced neg (ent (fst s3) r ?col) (ent (fst ?s4) r j)"
      using reduce_left_loop [OF s3(2) r col s3(3), of neg] s3(5) [OF _ col] by auto
    obtain M1 U1 Q1 where s1: "s1 = (M1, U1, Q1)" by (cases s1) auto
    obtain M2 U2 Q2 where s2: "s2 = (M2, U2, Q2)" by (cases s2) auto
    have i1: "(if f \<noteq> ?col then exchange M U Q r f ?col else (M, U, Q)) = (M1, U1, Q1)"
      using s1 by (simp only: s1_def)
    have i2: "(if ent M1 r ?col < 0 then oppose M1 U1 Q1 r ?col else (M1, U1, Q1)) = (M2, U2, Q2)"
      using s2 by (simp only: s2_def s1 prod.case)
    have row: "hermite_row neg r (s, ?col) = Some (?s4, ?col + 1)"
      unfolding hermite_row_def s prod.case dim Some option.case Let_def f_def [symmetric] i1 i2
      using s3(1) by (simp add: s2)
    have e: "ent (fst ?s4) k j = ent (fst s2) k j" if "k < r" "j < n" for k j
      using that 4(2) [of k j] s3(4,5) [of k j] herm_inv_above [OF 2(1), of k j] r
      by (cases "j < ?col") auto
    have "hermite_form neg (ent (fst ?s4)) r n ps"
      by (rule hermite_form_cong [OF _ e]) (use 2(1) in \<open>simp add: herm_inv_def\<close>)
    then have "hermite_form neg (ent (fst ?s4)) (Suc r) n (ps @ [r])"
      by (rule hermite_form_pivot) (use col s3(3,6) 4(2,3) r in auto)
    then have "herm_inv neg m n A (Suc r) ?s4 (ps @ [r])" using 4(1) by (simp add: herm_inv_def)
    with row show ?thesis by (intro exI [of _ ?s4] exI [of _ "ps @ [r]"]) simp
  qed
qed

subsection \<open>The algorithm as a whole\<close>

lemma factored_cong:
  assumes F: "factored m n A M U Q"
    and M: "\<And>r j. r < m \<Longrightarrow> j < n \<Longrightarrow> M' r j = M r j"
    and U: "\<And>r j. r < n \<Longrightarrow> j < n \<Longrightarrow> U' r j = U r j" and Q: "\<And>r j. r < n \<Longrightarrow> j < n \<Longrightarrow> Q' r j = Q r j"
  shows "factored m n A M' U' Q'"
proof -
  have a: "(\<Sum>k<n. A r k * U' k j) = (\<Sum>k<n. A r k * U k j)" if "j < n" for r j
    by (rule sum.cong) (use U that in auto)
  have b: "(\<Sum>k<n. M' r k * Q' k j) = (\<Sum>k<n. M r k * Q k j)" if "r < m" "j < n" for r j
    by (rule sum.cong) (use M Q that in auto)
  have c: "(\<Sum>k<n. U' i k * Q' k j) = (\<Sum>k<n. U i k * Q k j)"
    "(\<Sum>k<n. Q' i k * U' k j) = (\<Sum>k<n. Q i k * U k j)" if "i < n" "j < n" for i j
    by (rule sum.cong; use U Q that in auto)+
  show ?thesis
    unfolding factored_def
  proof (intro conjI allI impI)
    show "M' r j = (\<Sum>k<n. A r k * U' k j)" "A r j = (\<Sum>k<n. M' r k * Q' k j)" if "r < m" "j < n" for r j
      unfolding a [OF that(2)] b [OF that] M [OF that] using F that unfolding factored_def by blast+
    show "(\<Sum>k<n. U' i k * Q' k j) = (if i = j then 1 else 0)"
      "(\<Sum>k<n. Q' i k * U' k j) = (if i = j then 1 else 0)" if "i < n" "j < n" for i j
      unfolding c [OF that] using F that unfolding factored_def by blast+
  qed
qed

text \<open>What the caller does not ask for is not computed, and does not change the rest.\<close>

fun mask :: "bool \<Rightarrow> bool \<Rightarrow> herm_state \<Rightarrow> herm_state" where
  "mask u q (M, U, Q) = (M, if u then U else None, if q then Q else None)"

lemma fst_mask [simp]: "fst (mask u q s) = fst s"
  by (cases s) auto

lemma colop_mask:
  "exchange M (if u then U else None) (if q then Q else None) r0 i j = mask u q (exchange M U Q r0 i j)"
  "subtract M (if u then U else None) (if q then Q else None) r0 i j c = mask u q (subtract M U Q r0 i j c)"
  "oppose M (if u then U else None) (if q then Q else None) r0 i = mask u q (oppose M U Q r0 i)"
  by (simp_all add: exchange_def subtract_def oppose_def)

lemma clear_row_mask: "clear_row r col (mask u q s) = map_option (mask u q) (clear_row r col s)"
proof -
  let ?f = "map_prod (mask u q) id :: herm_state \<times> nat \<Rightarrow> _"
  have cond: "clear_cond r x = clear_cond r (?f x)" for x
  proof (cases x)
    case (Pair s f)
    then show ?thesis by (cases s) (simp add: clear_cond_def)
  qed
  have step: "?f (clear_step r col x) = clear_step r col (?f x)" for x
  proof (cases x)
    case (Pair s f0)
    obtain M U Q where s: "s = (M, U, Q)" by (cases s) auto
    define f where "f = f0 + the (isl_seq_first_non_zero (drop f0 (mat_row M ! r)) (n_col M - f0))"
    define c where "c = isl_int_fdiv_q (ent M r f) (ent M r col)"
    obtain M1 U1 Q1 where s1: "subtract M U Q r col f c = (M1, U1, Q1)"
      by (cases "subtract M U Q r col f c") auto
    have c1: "clear_step r col (?f x) = (if ent M1 r f \<noteq> 0
        then (exchange M1 (if u then U1 else None) (if q then Q1 else None) r f col, f)
        else ((M1, if u then U1 else None, if q then Q1 else None), f + 1))"
      using s1 by (simp add: Pair s clear_step_def Let_def colop_mask f_def [symmetric] c_def [symmetric])
    have c2: "clear_step r col x = (if ent M1 r f \<noteq> 0 then (exchange M1 U1 Q1 r f col, f) else ((M1, U1, Q1), f + 1))"
      using s1 by (simp add: Pair s clear_step_def Let_def f_def [symmetric] c_def [symmetric])
    show ?thesis unfolding c1 c2 colop_mask by simp
  qed
  have "map_option ?f (while_option (clear_cond r) (clear_step r col) (s, col + 1)) =
      while_option (clear_cond r) (clear_step r col) (mask u q s, col + 1)"
    using while_option_commute [of "clear_cond r" "clear_cond r" ?f "clear_step r col" "clear_step r col",
        OF cond step] by simp
  then have "map_option fst (map_option ?f (while_option (clear_cond r) (clear_step r col) (s, col + 1))) =
      clear_row r col (mask u q s)"
    by (simp add: clear_row_def)
  then show ?thesis by (simp add: clear_row_def option.map_comp comp_def)
qed

lemma reduce_left_mask: "reduce_left neg r col i (mask u q s) = mask u q (reduce_left neg r col i s)"
  by (cases s) (simp add: reduce_left_def Let_def colop_mask)

lemma hermite_row_mask:
  "hermite_row neg r (map_prod (mask u q) id x) = map_option (map_prod (mask u q) id) (hermite_row neg r x)"
proof -
  obtain M U Q col where x: "x = ((M, U, Q), col)" by (cases x) auto
  show ?thesis
  proof (cases "isl_seq_abs_min_non_zero (drop col (mat_row M ! r)) (n_col M - col)")
    case (Some off)
    define f where "f = off + col"
    obtain M1 U1 Q1 where s1: "(if f \<noteq> col then exchange M U Q r f col else (M, U, Q)) = (M1, U1, Q1)"
      by (metis prod_cases3)
    obtain M2 U2 Q2 where s2: "(if ent M1 r col < 0 then oppose M1 U1 Q1 r col else (M1, U1, Q1)) = (M2, U2, Q2)"
      by (metis prod_cases3)
    have m1: "(if f \<noteq> col then exchange M (if u then U else None) (if q then Q else None) r f col
        else (M, if u then U else None, if q then Q else None)) = mask u q (M1, U1, Q1)"
      using s1 by (auto simp: colop_mask split: if_splits)
    have m2: "(if ent M1 r col < 0 then oppose M1 (if u then U1 else None) (if q then Q1 else None) r col
        else (M1, if u then U1 else None, if q then Q1 else None)) = mask u q (M2, U2, Q2)"
      using s2 by (auto simp: colop_mask split: if_splits)
    have "hermite_row neg r (map_prod (mask u q) id x) = Option.bind (clear_row r col (mask u q (M2, U2, Q2)))
        (\<lambda>s. Some (for_range 0 col (reduce_left neg r col) s, col + 1))"
      unfolding x map_prod_simp id_apply mask.simps hermite_row_def prod.case Some option.case Let_def
        f_def [symmetric] m1 m2 ..
    moreover have "hermite_row neg r x = Option.bind (clear_row r col (M2, U2, Q2))
        (\<lambda>s. Some (for_range 0 col (reduce_left neg r col) s, col + 1))"
      unfolding x hermite_row_def prod.case Some option.case Let_def f_def [symmetric] s1 s2 ..
    moreover have "for_range 0 col (reduce_left neg r col) (mask u q s) =
        mask u q (for_range 0 col (reduce_left neg r col) s)" for s
      by (rule for_range_commute) (rule reduce_left_mask)
    ultimately show ?thesis
      by (cases "clear_row r col (M2, U2, Q2)") (simp_all add: clear_row_mask del: mask.simps)
  qed (simp add: x hermite_row_def)
qed

lemma mat_dim_self: "mat_ok M \<Longrightarrow> mat_dim M (n_row M) (n_col M)"
  by (simp add: mat_dim_def)

lemma isl_mat_left_hermite_run:
  assumes ok: "mat_ok M" and n: "n_col M < 2 ^ 32"
  shows "\<exists>s ps. (\<forall>u q. isl_mat_left_hermite junk (Inr M) neg u q = Some (Inr (mask u q s))) \<and>
    herm_inv neg (n_row M) (n_col M) (ent M) (n_row M) s ps"
proof -
  let ?I = "mk_mat (n_col M) (n_col M) (\<lambda>i j. if i = j then 1 else 0)"
  let ?s = "(M, Some ?I, Some ?I)"
  let ?P = "\<lambda>r x. \<exists>s ps. x = (s, length ps) \<and> herm_inv neg (n_row M) (n_col M) (ent M) r s ps"
  have "factored (n_row M) (n_col M) (ent M) (ent M) (ent ?I) (ent ?I)"
    by (rule factored_cong [OF factored_init]) auto
  then have hok: "herm_ok (n_row M) (n_col M) (ent M) ?s"
    by (auto simp: herm_ok_def mat_dim_def ok)
  have init: "?P 0 (?s, 0)"
    by (intro exI [of _ ?s] exI [of _ "[]"]) (simp add: herm_inv_def hok hermite_form_init)
  have run: "\<exists>t. for_range_opt 0 (n_row M) (hermite_row neg) (?s, 0) = Some t \<and> ?P (n_row M) t"
  proof (rule for_range_opt_induct [where P = ?P, OF le0 init])
    show "\<exists>t'. hermite_row neg i t = Some t' \<and> ?P (Suc i) t'"
      if i: "0 \<le> i" "i < n_row M" and P: "?P i t" for i t
    proof -
      from P obtain s ps where t: "t = (s, length ps)"
        and inv: "herm_inv neg (n_row M) (n_col M) (ent M) i s ps" by (elim exE conjE)
      from hermite_row_correct [OF inv i(2) n] obtain s' ps'
        where "hermite_row neg i (s, length ps) = Some (s', length ps')"
          "herm_inv neg (n_row M) (n_col M) (ent M) (Suc i) s' ps'" by (elim exE conjE)
      then show ?thesis unfolding t by (intro exI conjI) (assumption, rule refl, assumption)
    qed
  qed
  then obtain s ps where s: "for_range_opt 0 (n_row M) (hermite_row neg) (?s, 0) = Some (s, length ps)"
    and inv: "herm_inv neg (n_row M) (n_col M) (ent M) (n_row M) s ps" by blast
  have m: "map_prod (mask u q) id (?s, 0) = ((M, if u then Some ?I else None, if q then Some ?I else None), 0)"
    for u q by simp
  show ?thesis
  proof (cases "n_col M = 0")
    case True
    have "herm_inv neg (n_row M) (n_col M) (ent M) (n_row M) ?s []"
      using hok True by (simp add: herm_inv_def hermite_form_def)
    moreover have "isl_mat_left_hermite junk (Inr M) neg u q = Some (Inr (mask u q ?s))" for u q
      using True by (simp add: isl_mat_left_hermite_def isl_mat_identity_mk)
    ultimately show ?thesis by blast
  next
    case False
    have "isl_mat_left_hermite junk (Inr M) neg u q = Some (Inr (mask u q s))" for u q
      using False for_range_opt_commute [of "hermite_row neg" "map_prod (mask u q) id" "hermite_row neg" 0 "n_row M" "(?s, 0)",
          OF hermite_row_mask, unfolded m s]
      by (simp add: isl_mat_left_hermite_def isl_mat_identity_mk)
    with inv show ?thesis by blast
  qed
qed

subsection \<open>Properties\<close>

lemma herm_inv_cases:
  assumes "herm_inv neg m n A k s ps"
  obtains H U Q where "s = (H, Some U, Some Q)" "mat_dim H m n" "mat_dim U n n" "mat_dim Q n n"
    "factored m n A (ent H) (ent U) (ent Q)" "hermite_form neg (ent H) k n ps"
  using assms by (auto simp: herm_inv_def herm_ok_def)

text \<open>
  C4: \<open>isl_mat_left_hermite\<close> returns on every matrix, with a matrix \<open>H\<close> in column
  Hermite form (each column zero above its pivot, positive pivots going down, the
  entries left of a pivot reduced modulo the pivot to the requested sign) and
  matrices \<open>U\<close> and \<open>Q\<close>, inverse to each other, with \<open>H = M U\<close> and \<open>M = H Q\<close>.
\<close>

theorem left_hermite_normal_form:
  assumes "mat_ok M" and "n_col M < 2 ^ 32"
  shows "\<exists>H U Q ps. isl_mat_left_hermite junk (Inr M) neg True True = Some (Inr (H, Some U, Some Q)) \<and>
    mat_dim H (n_row M) (n_col M) \<and> mat_dim U (n_col M) (n_col M) \<and> mat_dim Q (n_col M) (n_col M) \<and>
    factored (n_row M) (n_col M) (ent M) (ent H) (ent U) (ent Q) \<and>
    hermite_form neg (ent H) (n_row M) (n_col M) ps"
proof -
  obtain s ps where s: "isl_mat_left_hermite junk (Inr M) neg True True = Some (Inr (mask True True s))"
    and inv: "herm_inv neg (n_row M) (n_col M) (ent M) (n_row M) s ps"
    using isl_mat_left_hermite_run [OF assms] by blast
  from inv show ?thesis by (rule herm_inv_cases) (use s in auto)
qed

definition hermite_input :: isl_mat where
  "hermite_input = mk_mat 2 3 (\<lambda>i j. [[4, 6, 2], [3, 5, 7 :: int]] ! i ! j)"

theorem left_hermite_normal_form_witness:
  "\<exists>H U Q ps. isl_mat_left_hermite (\<lambda>_. 7) (Inr hermite_input) False True True = Some (Inr (H, Some U, Some Q)) \<and>
    mat_dim H (n_row hermite_input) (n_col hermite_input) \<and>
    mat_dim U (n_col hermite_input) (n_col hermite_input) \<and> mat_dim Q (n_col hermite_input) (n_col hermite_input) \<and>
    factored (n_row hermite_input) (n_col hermite_input) (ent hermite_input) (ent H) (ent U) (ent Q) \<and>
    hermite_form False (ent H) (n_row hermite_input) (n_col hermite_input) ps"
  by (rule left_hermite_normal_form) (simp_all add: hermite_input_def)

text \<open>
  C35: asking for fewer of the transformation matrices does not change the result:
  a call without \<open>U\<close> or \<open>Q\<close> returns the other parts of the full computation.
\<close>

theorem left_hermite_optional_outputs:
  assumes "mat_ok M" and "n_col M < 2 ^ 32"
  shows "\<exists>H U Q. isl_mat_left_hermite junk (Inr M) neg True True = Some (Inr (H, Some U, Some Q)) \<and>
    isl_mat_left_hermite junk (Inr M) neg want_U want_Q =
      Some (Inr (H, if want_U then Some U else None, if want_Q then Some Q else None))"
proof -
  obtain s ps where s: "\<And>u q. isl_mat_left_hermite junk (Inr M) neg u q = Some (Inr (mask u q s))"
    and inv: "herm_inv neg (n_row M) (n_col M) (ent M) (n_row M) s ps"
    using isl_mat_left_hermite_run [OF assms] by blast
  from inv show ?thesis by (rule herm_inv_cases) (use s in auto)
qed

theorem left_hermite_optional_outputs_witness:
  "\<exists>H U Q. isl_mat_left_hermite (\<lambda>_. 7) (Inr hermite_input) False True True = Some (Inr (H, Some U, Some Q)) \<and>
    isl_mat_left_hermite (\<lambda>_. 7) (Inr hermite_input) False False True =
      Some (Inr (H, if False then Some U else None, if True then Some Q else None))"
  by (rule left_hermite_optional_outputs) (simp_all add: hermite_input_def)

end
