(* ===== verification/Mat_Kernel.thy ===== *)
theory Mat_Kernel imports Mat_Hermite begin

text \<open>
  What isl_mat.c computes with the Hermite normal form: rank, integer kernel,
  completion to a unimodular matrix, extension of a row basis.
\<close>

subsection \<open>Rank, kernel, completion\<close>

text \<open>The two nested loops share the position of the row they have reached.\<close>

function first_zero_col_loop :: "isl_mat \<Rightarrow> nat \<Rightarrow> nat \<Rightarrow> nat \<Rightarrow> nat" where
  "first_zero_col_loop H nr col r =
     (if col < n_col H
      then case List.find (\<lambda>r. ent H r col \<noteq> 0) [r..<nr] of
             None \<Rightarrow> col
           | Some r \<Rightarrow> first_zero_col_loop H nr (col + 1) r
      else n_col H)"
  by pat_completeness auto
termination by (relation "measure (\<lambda>(H, nr, col, r). n_col H - col)") auto

declare first_zero_col_loop.simps [simp del]

definition hermite_first_zero_col :: "isl_mat \<Rightarrow> nat \<Rightarrow> nat \<Rightarrow> nat" where
  "hermite_first_zero_col H first_col nr = first_zero_col_loop H nr first_col 0"

definition isl_mat_rank :: "isl_int junk \<Rightarrow> isl_mat res \<Rightarrow> nat res option" where
  "isl_mat_rank junk mat = map_option (\<lambda>r. res_bind r (\<lambda>(H, _, _).
     Inr (hermite_first_zero_col H 0 (n_row H)))) (isl_mat_left_hermite junk mat False False False)"

definition isl_mat_right_kernel :: "isl_int junk \<Rightarrow> isl_mat res \<Rightarrow> isl_mat res option" where
  "isl_mat_right_kernel junk mat = map_option (\<lambda>r. res_bind r (\<lambda>(mat, U, _).
     case U of None \<Rightarrow> isl_die isl_error_internal
     | Some U \<Rightarrow>
         let rank = hermite_first_zero_col mat 0 (n_row mat)
         in take1 (isl_mat_alloc junk (n_row U) (n_col U - rank)) (\<lambda>K.
              Inr (K\<lparr>mat_row := isl_mat_sub_copy (mat_row K) (mat_row U) (n_row U) 0 rank (n_col U - rank)\<rparr>))))
     (isl_mat_left_hermite junk mat False True False)"

text \<open>The first \<open>nr\<close> rows are completed; the matrix is written to directly.\<close>

definition isl_mat_unimodular_complete :: "isl_int junk \<Rightarrow> isl_mat res \<Rightarrow> nat \<Rightarrow> isl_mat res option" where
  "isl_mat_unimodular_complete junk M nr = (case M of
     Inl e \<Rightarrow> Some (Inl e)
   | Inr M \<Rightarrow>
       if n_row M \<noteq> n_col M then Some (isl_die isl_error_unknown)
       else map_option (\<lambda>r. res_bind r (\<lambda>(H, _, Q).
         case Q of None \<Rightarrow> isl_die isl_error_internal
         | Some Q \<Rightarrow>
             isl_assert (List.find (\<lambda>r. ent H r r \<noteq> 1) [0..<nr] = None)
               (Inr (M\<lparr>mat_row := for_range nr (n_col M)
                 (\<lambda>r rs. upd_row rs r (\<lambda>p. isl_seq_cpy p (mat_row Q ! r) (n_col M))) (mat_row M)\<rparr>))))
         (isl_mat_left_hermite junk (Inr (M\<lparr>n_row := nr\<rparr>)) False False True))"

definition isl_mat_row_basis_extension :: "isl_int junk \<Rightarrow> isl_mat res \<Rightarrow> isl_mat res \<Rightarrow> isl_mat res option" where
  "isl_mat_row_basis_extension junk mat1 mat2 =
     map_option (\<lambda>r. res_bind (isl_mat_rows mat1) (\<lambda>n1. res_bind r (\<lambda>(H, _, Q).
       case Q of None \<Rightarrow> isl_die isl_error_internal
       | Some Q \<Rightarrow>
           let r1 = hermite_first_zero_col H 0 n1;
               r = hermite_first_zero_col H r1 (n_row H);
               Q = isl_mat_drop_rows (Inr Q) r (n_row Q - r)
           in isl_mat_drop_rows Q 0 r1)))
       (isl_mat_left_hermite junk (isl_mat_concat junk mat1 mat2) False False True)"

definition isl_mat_has_linearly_independent_rows ::
  "isl_int junk \<Rightarrow> isl_mat res \<Rightarrow> isl_mat res \<Rightarrow> bool res option" where
  "isl_mat_has_linearly_independent_rows junk mat1 mat2 =
     Option.bind (isl_mat_rank junk mat1) (\<lambda>r1. case r1 of Inl e \<Rightarrow> Some (Inl e)
     | Inr r1 \<Rightarrow> if r1 = 0 then Some (Inr True) else
         Option.bind (isl_mat_rank junk mat2) (\<lambda>r2. case r2 of Inl e \<Rightarrow> Some (Inl e)
         | Inr r2 \<Rightarrow> if r2 = 0 then Some (Inr True) else
             map_option (\<lambda>r. res_bind r (\<lambda>r. Inr (r = r1 + r2)))
               (isl_mat_rank junk (isl_mat_concat junk mat1 mat2))))"

subsection \<open>Rank\<close>

lemma first_zero_col_hermite:
  assumes hf: "hermite_form neg (ent H) nr (n_col H) ps" and col: "col \<le> length ps"
    and r: "col < length ps \<Longrightarrow> r \<le> ps ! col"
  shows "first_zero_col_loop H nr col r = length ps"
  using col r
proof (induction "length ps - col" arbitrary: col r)
  case 0
  then have c: "col = length ps" by simp
  show ?case
  proof (cases "col < n_col H")
    case True
    have "List.find (\<lambda>r. ent H r col \<noteq> 0) [r..<nr] = None"
      using hermite_formD(5) [OF hf True] c by (auto simp: find_upt_None_iff)
    with True c show ?thesis by (simp add: first_zero_col_loop.simps)
  next
    case False
    with c hermite_formD(1) [OF hf] show ?thesis by (simp add: first_zero_col_loop.simps)
  qed
next
  case (Suc d)
  then have c: "col < length ps" by simp
  note D = hermite_formD [OF hf]
  have n: "col < n_col H" using c D(1) by simp
  have "List.find (\<lambda>r. ent H r col \<noteq> 0) [r..<nr] = Some (ps ! col)"
    unfolding find_upt_Some_iff
  proof (intro conjI allI impI)
    show "ent H (ps ! col) col \<noteq> 0" using D(4) [OF c] by simp
    show "\<not> ent H i col \<noteq> 0" if "r \<le> i \<and> i < ps ! col" for i
      using that D(5) [OF n, of i] D(3) [OF c] by simp
  qed (use Suc.prems c D(3) in auto)
  moreover have "first_zero_col_loop H nr (col + 1) (ps ! col) = length ps"
  proof (rule Suc.hyps(1))
    show "d = length ps - (col + 1)" using Suc.hyps(2) by simp
    show "ps ! col \<le> ps ! (col + 1)" if "col + 1 < length ps"
      using D(2) that by (simp add: sorted_wrt_iff_nth_less less_imp_le)
  qed (use c in simp)
  ultimately show ?case using n by (simp add: first_zero_col_loop.simps)
qed

lemma hermite_first_zero_col_rank:
  assumes "hermite_form neg (ent H) nr (n_col H) ps" and "c0 \<le> length ps"
  shows "hermite_first_zero_col H c0 nr = length ps"
  unfolding hermite_first_zero_col_def by (rule first_zero_col_hermite [OF assms]) simp

text \<open>The pivots of the first rows are those of the whole matrix that lie in them.\<close>

lemma hermite_form_prefix:
  assumes hf: "hermite_form neg H k n ps" and le: "k' \<le> k"
  shows "\<exists>c \<le> length ps. hermite_form neg H k' n (take c ps)"
proof -
  note D = hermite_formD [OF hf]
  define c where "c = length (takeWhile (\<lambda>r. r < k') ps)"
  have c: "c \<le> length ps" unfolding c_def by (rule length_takeWhile_le)
  have lt: "ps ! i < k'" if "i < c" for i
  proof -
    have "takeWhile (\<lambda>r. r < k') ps ! i = ps ! i" using that by (simp add: c_def takeWhile_nth)
    moreover have "takeWhile (\<lambda>r. r < k') ps ! i \<in> set (takeWhile (\<lambda>r. r < k') ps)"
      using that by (intro nth_mem) (simp add: c_def)
    ultimately show ?thesis using set_takeWhileD by fastforce
  qed
  have ge: "k' \<le> ps ! i" if "c \<le> i" "i < length ps" for i
  proof -
    have "\<not> ps ! c < k'" using that nth_length_takeWhile [of "\<lambda>r. r < k'" ps] by (simp add: c_def)
    moreover have "ps ! c \<le> ps ! i"
      using D(2) that by (cases "c = i") (simp_all add: sorted_wrt_iff_nth_less less_imp_le)
    ultimately show ?thesis by simp
  qed
  have "hermite_form neg H k' n (take c ps)"
  proof (rule hermite_formI)
    show "sorted_wrt (<) (take c ps)" using D(2) by (rule sorted_wrt_take)
    show "H r i = 0" if "i < n" "r < k'" "i < length (take c ps) \<Longrightarrow> r < take c ps ! i" for i r
    proof (rule D(5) [OF that(1)])
      show "r < ps ! i" if "i < length ps"
        using that \<open>i < length (take c ps) \<Longrightarrow> r < take c ps ! i\<close> \<open>r < k'\<close> ge [of i]
        by (cases "i < c") auto
    qed (use le that in simp)
  qed (use c D lt in auto)
  with c show ?thesis by blast
qed

text \<open>
  \<open>r\<close> is the rank of \<open>A\<close>: a unimodular change of the columns leaves \<open>r\<close> columns in
  echelon form, with a non-zero entry where the later columns are zero, and zero
  columns behind them.
\<close>

definition echelon :: "(nat \<Rightarrow> nat \<Rightarrow> int) \<Rightarrow> nat \<Rightarrow> nat \<Rightarrow> nat list \<Rightarrow> bool" where
  "echelon H m n ps = (length ps \<le> n \<and>
     (\<forall>c<length ps. ps ! c < m \<and> H (ps ! c) c \<noteq> 0 \<and> (\<forall>j<n. c < j \<longrightarrow> H (ps ! c) j = 0)) \<and>
     (\<forall>r<m. \<forall>j<n. length ps \<le> j \<longrightarrow> H r j = 0))"

definition has_rank :: "nat \<Rightarrow> nat \<Rightarrow> (nat \<Rightarrow> nat \<Rightarrow> int) \<Rightarrow> nat \<Rightarrow> bool" where
  "has_rank m n A r = (\<exists>H U Q ps. factored m n A H U Q \<and> echelon H m n ps \<and> length ps = r)"

lemma hermite_form_right_zero:
  assumes hf: "hermite_form neg H m n ps" and c: "c < length ps" and j: "c < j" "j < n"
  shows "H (ps ! c) j = 0"
proof (rule hermite_formD(5) [OF hf j(2) hermite_formD(3) [OF hf c]])
  show "ps ! c < ps ! j" if "j < length ps"
    using hermite_formD(2) [OF hf] that j(1) by (simp add: sorted_wrt_iff_nth_less)
qed

lemma hermite_form_echelon:
  assumes hf: "hermite_form neg H m n ps"
  shows "echelon H m n ps"
  unfolding echelon_def
  using hermite_form_right_zero [OF hf] hermite_formD(1,3) [OF hf] hermite_formD(4) [OF hf]
    hermite_formD(5) [OF hf]
  by (metis not_less order_less_irrefl)

lemma isl_mat_left_hermite_full:
  assumes "mat_ok M" and "n_col M < 2 ^ 32"
  shows "\<exists>H U Q ps. (\<forall>u q. isl_mat_left_hermite junk (Inr M) neg u q =
      Some (Inr (H, if u then Some U else None, if q then Some Q else None))) \<and>
    mat_dim H (n_row M) (n_col M) \<and> mat_dim U (n_col M) (n_col M) \<and> mat_dim Q (n_col M) (n_col M) \<and>
    factored (n_row M) (n_col M) (ent M) (ent H) (ent U) (ent Q) \<and>
    hermite_form neg (ent H) (n_row M) (n_col M) ps"
proof -
  obtain s ps where s: "\<And>u q. isl_mat_left_hermite junk (Inr M) neg u q = Some (Inr (mask u q s))"
    and inv: "herm_inv neg (n_row M) (n_col M) (ent M) (n_row M) s ps"
    using isl_mat_left_hermite_run [OF assms] by blast
  from inv show ?thesis by (rule herm_inv_cases) (use s in auto)
qed

lemma isl_mat_rank_eq:
  assumes "isl_mat_left_hermite junk (Inr M) False False False = Some (Inr (H, U, Q))"
    and "mat_dim H m n" "hermite_form False (ent H) m n ps"
  shows "isl_mat_rank junk (Inr M) = Some (Inr (length ps))"
  using assms hermite_first_zero_col_rank [of False H m ps 0] by (simp add: isl_mat_rank_def mat_dim_def)

subsection \<open>The integer kernel\<close>

lemma factoredD:
  assumes "factored m n A M U Q"
  shows "r < m \<Longrightarrow> j < n \<Longrightarrow> M r j = (\<Sum>k<n. A r k * U k j)"
    and "r < m \<Longrightarrow> j < n \<Longrightarrow> A r j = (\<Sum>k<n. M r k * Q k j)"
    and "i < n \<Longrightarrow> j < n \<Longrightarrow> (\<Sum>k<n. U i k * Q k j) = (if i = j then 1 else 0)"
    and "i < n \<Longrightarrow> j < n \<Longrightarrow> (\<Sum>k<n. Q i k * U k j) = (if i = j then 1 else 0)"
  using assms by (simp_all add: factored_def)

lemma sum_swap_product:
  fixes a :: "nat \<Rightarrow> int"
  shows "(\<Sum>k<n. (\<Sum>l<p. a l * B l k) * c k) = (\<Sum>l<p. a l * (\<Sum>k<n. B l k * c k))"
proof -
  have "(\<Sum>k<n. (\<Sum>l<p. a l * B l k) * c k) = (\<Sum>k<n. \<Sum>l<p. a l * (B l k * c k))"
    by (simp add: sum_distrib_right mult.assoc)
  also have "\<dots> = (\<Sum>l<p. \<Sum>k<n. a l * (B l k * c k))" by (rule sum.swap)
  finally show ?thesis by (simp add: sum_distrib_left)
qed

lemma sum_if_eq:
  fixes x :: "nat \<Rightarrow> int"
  shows "i < n \<Longrightarrow> (\<Sum>k<n. (if i = k then 1 else 0) * x k) = x i"
  by (simp add: if_distrib [of "\<lambda>a. a * _"] cong: if_cong)

text \<open>A vector with a zero image has zero coordinates on the pivot columns.\<close>

lemma echelon_zero_image:
  assumes e: "echelon H m n ps" and z: "\<And>r. r < m \<Longrightarrow> (\<Sum>k<n. H r k * z k) = 0" and c: "c < length ps"
  shows "z c = 0"
  using c
proof (induction c rule: less_induct)
  case (less c)
  from e less.prems have p: "ps ! c < m" "H (ps ! c) c \<noteq> 0" "c < n"
    and zr: "\<And>j. c < j \<Longrightarrow> j < n \<Longrightarrow> H (ps ! c) j = 0"
    by (auto simp: echelon_def)
  have "H (ps ! c) k * z k = (if k = c then H (ps ! c) c * z c else 0)" if "k < n" for k
    using less zr [of k] that by (cases k c rule: linorder_cases) auto
  then have "(\<Sum>k<n. H (ps ! c) k * z k) = (\<Sum>k<n. if k = c then H (ps ! c) c * z c else 0)"
    by (intro sum.cong) auto
  with z [OF p(1)] p show ?case by simp
qed

lemma sum_split_tail:
  fixes f :: "nat \<Rightarrow> int"
  assumes "r \<le> n"
  shows "(\<Sum>k<n. f k) = (\<Sum>k<r. f k) + (\<Sum>k<n - r. f (r + k))"
proof -
  have "(\<Sum>k<r + d. f k) = (\<Sum>k<r. f k) + (\<Sum>k<d. f (r + k))" for d
    by (induction d) (simp_all add: add.assoc)
  from this [of "n - r"] assms show ?thesis by simp
qed

text \<open>
  The columns of \<open>U\<close> behind the pivots generate the kernel freely over the integers.
\<close>

lemma kernel_of_echelon:
  assumes F: "factored m n A H U Q" and e: "echelon H m n ps"
  defines "d \<equiv> n - length ps" and "K \<equiv> \<lambda>i j. U i (length ps + j)"
  shows "(\<forall>r<m. (\<Sum>k<n. A r k * x k) = 0) \<longleftrightarrow> (\<exists>y. \<forall>i<n. x i = (\<Sum>j<d. K i j * y j))"
    and "(\<forall>i<n. (\<Sum>j<d. K i j * y j) = (\<Sum>j<d. K i j * y' j)) \<Longrightarrow> j < d \<Longrightarrow> y j = y' j"
proof -
  note D = factoredD [OF F]
  have le: "length ps \<le> n" and H0: "\<And>r j. r < m \<Longrightarrow> length ps \<le> j \<Longrightarrow> j < n \<Longrightarrow> H r j = 0"
    using e by (auto simp: echelon_def)
  have img: "(\<Sum>k<n. A r k * (\<Sum>l<n. U k l * z l)) = (\<Sum>l<n. H r l * z l)" if "r < m" for r z
    using that D(1) by (simp add: sum_swap_product [symmetric])
  have tail: "(\<Sum>l<n. U i l * z l) = (\<Sum>j<d. K i j * z (length ps + j))"
    if "\<And>c. c < length ps \<Longrightarrow> z c = 0" for z i
    unfolding sum_split_tail [OF le] d_def K_def using that by simp
  show "(\<forall>r<m. (\<Sum>k<n. A r k * x k) = 0) \<longleftrightarrow> (\<exists>y. \<forall>i<n. x i = (\<Sum>j<d. K i j * y j))" (is "?L \<longleftrightarrow> ?R")
  proof
    assume L: ?L
    define z where "z i = (\<Sum>k<n. Q i k * x k)" for i
    have xz: "x i = (\<Sum>l<n. U i l * z l)" if "i < n" for i
    proof -
      have "(\<Sum>l<n. U i l * z l) = (\<Sum>k<n. (\<Sum>l<n. U i l * Q l k) * x k)"
        by (simp add: z_def sum_swap_product)
      also have "\<dots> = (\<Sum>k<n. (if i = k then 1 else 0) * x k)" using D(3) that by (intro sum.cong) auto
      also have "\<dots> = x i" using that by (rule sum_if_eq)
      finally show ?thesis ..
    qed
    have zero: "(\<Sum>k<n. H r k * z k) = 0" if "r < m" for r
    proof -
      have "(\<Sum>k<n. A r k * x k) = (\<Sum>k<n. A r k * (\<Sum>l<n. U k l * z l))" using xz by (intro sum.cong) auto
      with img [OF that] L that show ?thesis by simp
    qed
    have "z c = 0" if "c < length ps" for c by (rule echelon_zero_image [OF e zero that])
    then show ?R using xz tail by (intro exI [of _ "\<lambda>j. z (length ps + j)"]) simp
  next
    assume ?R
    then obtain y where y: "\<And>i. i < n \<Longrightarrow> x i = (\<Sum>j<d. K i j * y j)" by blast
    define z where "z l = (if l < length ps then 0 else y (l - length ps))" for l
    have xz: "x i = (\<Sum>l<n. U i l * z l)" if "i < n" for i
      using y [OF that] tail [of z] by (simp add: z_def)
    show ?L
    proof (intro allI impI)
      fix r assume r: "r < m"
      have "(\<Sum>k<n. A r k * x k) = (\<Sum>l<n. H r l * z l)" using img [OF r] xz by simp
      also have "\<dots> = 0" using H0 [OF r] by (intro sum.neutral) (auto simp: z_def not_less)
      finally show "(\<Sum>k<n. A r k * x k) = 0" .
    qed
  qed
  show "y j = y' j" if eq: "\<forall>i<n. (\<Sum>j<d. K i j * y j) = (\<Sum>j<d. K i j * y' j)" and j: "j < d"
  proof -
    have coord: "y j = (\<Sum>k<n. Q (length ps + j) k * (\<Sum>j<d. K k j * y j))" for y
    proof -
      define z where "z l = (if l < length ps then 0 else y (l - length ps))" for l
      have "(\<Sum>k<n. Q (length ps + j) k * (\<Sum>l<n. U k l * z l)) =
          (\<Sum>l<n. (\<Sum>k<n. Q (length ps + j) k * U k l) * z l)"
        by (rule sum_swap_product [symmetric])
      also have "\<dots> = (\<Sum>l<n. (if length ps + j = l then 1 else 0) * z l)"
        using D(4) j by (intro sum.cong) (auto simp: d_def)
      also have "\<dots> = z (length ps + j)" using j by (intro sum_if_eq) (simp add: d_def)
      finally show ?thesis using tail [of z] by (simp add: z_def)
    qed
    show ?thesis unfolding coord [of y] coord [of y'] using eq by simp
  qed
qed

lemma sub_copy_columns:
  assumes ok: "mat_ok U" and U: "n_row U = n" "n_col U = r + d"
  shows "isl_mat_sub_copy (mat_row (mk_mat n d f)) (mat_row U) n 0 r d = mat_row (mk_mat n d (\<lambda>i j. ent U i (r + j)))"
proof (rule nth_equalityI)
  have l: "n \<le> length (mat_row (mk_mat n d f))" by simp
  note copy = isl_mat_sub_copy_rows [OF l, where src = "mat_row U" and dc = 0 and sc = r and nc = d]
  show "length (isl_mat_sub_copy (mat_row (mk_mat n d f)) (mat_row U) n 0 r d) =
      length (mat_row (mk_mat n d (\<lambda>i j. ent U i (r + j))))"
    using copy(1) by simp
  fix i assume "i < length (isl_mat_sub_copy (mat_row (mk_mat n d f)) (mat_row U) n 0 r d)"
  then have i: "i < n" using copy(1) by simp
  have len: "r + d \<le> length (mat_row U ! i)" using mat_okD(2) [OF ok] U i by simp
  have "isl_mat_sub_copy (mat_row (mk_mat n d f)) (mat_row U) n 0 r d ! i =
      isl_seq_cpy (map (f i) [0..<d]) (drop r (mat_row U ! i)) d"
    using i copy(2) [where k = i] by (simp add: at_off_def)
  also have "\<dots> = map (\<lambda>j. ent U i (r + j)) [0..<d]"
    using len by (intro nth_equalityI) (simp_all add: seq_write_nth ent_def)
  finally show "isl_mat_sub_copy (mat_row (mk_mat n d f)) (mat_row U) n 0 r d ! i =
      mat_row (mk_mat n d (\<lambda>i j. ent U i (r + j))) ! i"
    using i by simp
qed

lemma isl_mat_right_kernel_run:
  assumes ok: "mat_ok A" and n: "n_col A < 2 ^ 32"
  shows "\<exists>K rank. isl_mat_right_kernel junk (Inr A) = Some (Inr K) \<and>
    isl_mat_rank junk (Inr A) = Some (Inr rank) \<and> rank \<le> n_col A \<and>
    mat_ok K \<and> n_row K = n_col A \<and> n_col K = n_col A - rank \<and>
    (\<forall>x. (\<forall>r<n_row A. (\<Sum>k<n_col A. ent A r k * x k) = 0) \<longleftrightarrow>
       (\<exists>y. \<forall>i<n_row K. x i = (\<Sum>j<n_col K. ent K i j * y j))) \<and>
    (\<forall>y y'. (\<forall>i<n_row K. (\<Sum>j<n_col K. ent K i j * y j) = (\<Sum>j<n_col K. ent K i j * y' j)) \<longrightarrow>
       (\<forall>j<n_col K. y j = y' j)) \<and>
    has_rank (n_row A) (n_col A) (ent A) rank"
proof -
  let ?m = "n_row A" and ?n = "n_col A"
  obtain H U Q ps where lh: "\<forall>u q. isl_mat_left_hermite junk (Inr A) False u q =
      Some (Inr (H, if u then Some U else None, if q then Some Q else None))"
    and dim: "mat_dim H ?m ?n" "mat_dim U ?n ?n" "mat_dim Q ?n ?n"
    and F: "factored ?m ?n (ent A) (ent H) (ent U) (ent Q)"
    and hf: "hermite_form False (ent H) ?m ?n ps"
    using isl_mat_left_hermite_full [OF ok n, of junk False] by (elim exE conjE) (rule that; assumption)
  let ?r = "length ps"
  let ?K = "mk_mat ?n (?n - ?r) (\<lambda>i j. ent U i (?r + j))"
  have e: "echelon (ent H) ?m ?n ps" by (rule hermite_form_echelon [OF hf])
  have le: "?r \<le> ?n" using hermite_formD(1) [OF hf] .
  have rank: "isl_mat_rank junk (Inr A) = Some (Inr ?r)"
    by (rule isl_mat_rank_eq [OF _ dim(1) hf]) (simp add: lh)
  have fz: "hermite_first_zero_col H 0 (n_row H) = ?r"
    using hermite_first_zero_col_rank [of False H ?m ps 0] hf dim(1) by (simp add: mat_dim_def)
  have U: "mat_ok U" "n_row U = ?n" "n_col U = ?n" using dim(2) by (simp_all add: mat_dim_def)
  have "isl_mat_sub_copy (mat_row (mk_mat ?n (?n - ?r) f)) (mat_row U) ?n 0 ?r (?n - ?r) = mat_row ?K" for f
    by (rule sub_copy_columns [OF U(1,2)]) (use U le in simp)
  then have ker: "isl_mat_right_kernel junk (Inr A) = Some (Inr ?K)"
    using lh [rule_format, of True False] fz U
    by (simp add: isl_mat_right_kernel_def isl_mat_alloc_mk mk_mat_def Let_def)
  note kern = kernel_of_echelon [OF F e]
  have sumK: "(\<Sum>j<?n - ?r. ent ?K i j * y j) = (\<Sum>j<?n - ?r. ent U i (?r + j) * y j)" if "i < ?n" for i y
    using that by (intro sum.cong) auto
  show ?thesis
  proof (intro exI [of _ ?K] exI [of _ ?r] conjI allI impI)
    show "(\<forall>r<?m. (\<Sum>k<?n. ent A r k * x k) = 0) \<longleftrightarrow>
        (\<exists>y. \<forall>i<n_row ?K. x i = (\<Sum>j<n_col ?K. ent ?K i j * y j))" for x
      using kern(1) [of x] sumK by simp
    show "y j = y' j" if "\<forall>i<n_row ?K. (\<Sum>j<n_col ?K. ent ?K i j * y j) = (\<Sum>j<n_col ?K. ent ?K i j * y' j)"
      "j < n_col ?K" for y y' j
      using kern(2) [of y y' j] that sumK by simp
    show "has_rank ?m ?n (ent A) ?r" unfolding has_rank_def using F e by blast
  qed (use rank ker le in simp_all)
qed

subsection \<open>Completion to a unimodular matrix\<close>

definition inverse_pair :: "nat \<Rightarrow> (nat \<Rightarrow> nat \<Rightarrow> int) \<Rightarrow> (nat \<Rightarrow> nat \<Rightarrow> int) \<Rightarrow> bool" where
  "inverse_pair n B C = (\<forall>i<n. \<forall>j<n. (\<Sum>k<n. B i k * C k j) = (if i = j then 1 else 0) \<and>
     (\<Sum>k<n. C i k * B k j) = (if i = j then 1 else 0))"

text \<open>The leading diagonal of a Hermite form is one exactly when the form is the identity.\<close>

lemma hermite_unit_diagonal:
  assumes hf: "hermite_form False H nr n ps" and nr: "nr \<le> n" and d: "\<And>r. r < nr \<Longrightarrow> H r r = 1"
    and r: "r < nr" and j: "j < n"
  shows "H r j = (if j = r then 1 else 0)"
proof -
  note D = hermite_formD [OF hf]
  have piv: "r < length ps \<and> ps ! r = r" if "r < nr" for r
    using that
  proof (induction r rule: less_induct)
    case (less r)
    have "\<not> (r < length ps \<longrightarrow> r < ps ! r)"
    proof
      assume "r < length ps \<longrightarrow> r < ps ! r"
      then have "H r r = 0" using D(5) [of r r] less.prems nr by simp
      with d [OF less.prems] show False by simp
    qed
    then have r: "r < length ps" "ps ! r \<le> r" by auto
    have "r \<le> ps ! r"
    proof (cases r)
      case (Suc k)
      then have "ps ! k = k" using less.IH [of k] less.prems by simp
      moreover have "ps ! k < ps ! r" using D(2) r(1) Suc by (simp add: sorted_wrt_iff_nth_less)
      ultimately show ?thesis using Suc by simp
    qed simp
    with r show ?case by simp
  qed
  note p = piv [OF r]
  show ?thesis
  proof (cases j r rule: linorder_cases)
    case less
    then show ?thesis using D(6) [of r j] p d [OF r] by (simp add: reduced_def)
  next
    case greater
    then show ?thesis using hermite_form_right_zero [OF hf, of r j] p j by simp
  qed (use d [OF r] in simp)
qed

text \<open>
  Conversely, if the rows extend to an invertible matrix the diagonal is one: the
  form maps onto the unit rows, so every row has a pivot and every pivot divides one.
\<close>

lemma completable_unit_diagonal:
  assumes F: "factored nr n A H U Q" and hf: "hermite_form False H nr n ps" and nr: "nr \<le> n"
    and BC: "inverse_pair n B C" and B: "\<And>i j. i < nr \<Longrightarrow> j < n \<Longrightarrow> B i j = A i j"
    and r: "r < nr"
  shows "H r r = 1"
proof -
  note D = hermite_formD [OF hf] and FD = factoredD [OF F]
  define W where "W i j = (\<Sum>k<n. Q i k * C k j)" for i j
  have HW: "(\<Sum>k<n. H i k * W k j) = (if i = j then 1 else 0)" if "i < nr" "j < n" for i j
  proof -
    have "(\<Sum>k<n. H i k * W k j) = (\<Sum>k<n. (\<Sum>l<n. H i l * Q l k) * C k j)"
      by (simp add: W_def sum_swap_product)
    also have "\<dots> = (\<Sum>k<n. B i k * C k j)"
      using FD(2) B that by (intro sum.cong) auto
    finally show ?thesis using BC that nr by (simp add: inverse_pair_def)
  qed
  have "(\<forall>j<n. H r j = (if j = r then 1 else 0)) \<and> r < length ps \<and> ps ! r = r" if "r < nr" for r
    using that
  proof (induction r rule: less_induct)
    case (less r)
    have rn: "r < n" using less.prems nr by simp
    have IH: "H i j = (if j = i then 1 else 0)" if "i < r" "j < n" for i j
      using less.IH [of i] less.prems that by auto
    have ge: "r \<le> ps ! r" if "r < length ps"
    proof (cases r)
      case (Suc k)
      then have "ps ! k = k" using less.IH [of k] less.prems by simp
      moreover have "ps ! k < ps ! r" using D(2) that Suc by (simp add: sorted_wrt_iff_nth_less)
      ultimately show ?thesis using Suc by simp
    qed simp
    have no_pivot: "H r j = 0" if np: "\<not> (r < length ps \<and> ps ! r = r)" and j: "r \<le> j" "j < n" for j
    proof (rule D(5) [OF j(2) less.prems])
      assume jl: "j < length ps"
      then have "r < ps ! r" using np ge j(1) by (simp add: le_neq_implies_less)
      moreover have "ps ! r \<le> ps ! j"
        using D(2) j(1) jl by (cases "r = j") (simp_all add: sorted_wrt_iff_nth_less less_imp_le)
      ultimately show "r < ps ! j" by simp
    qed
    have after: "H r j = 0" if "r < j" "j < n" for j
      using hermite_form_right_zero [OF hf, of r j] no_pivot [of j] that
      by (cases "r < length ps \<and> ps ! r = r") auto
    have W0: "W k r = 0" if "k < r" for k
    proof -
      have "(\<Sum>l<n. H k l * W l r) = (\<Sum>l<n. (if k = l then 1 else 0) * W l r)"
        using IH [OF that] by (intro sum.cong) auto
      also have "\<dots> = W k r" using that rn by (intro sum_if_eq) simp
      finally show ?thesis using HW [of k r] that rn less.prems by simp
    qed
    have "H r k * W k r = (if k = r then H r r * W r r else 0)" if "k < n" for k
      using W0 [of k] after [of k] that by (cases k r rule: linorder_cases) auto
    then have "(\<Sum>k<n. H r k * W k r) = (\<Sum>k<n. if k = r then H r r * W r r else 0)"
      by (intro sum.cong) auto
    then have unit: "H r r * W r r = 1" using HW [of r r] rn less.prems by simp
    have p: "r < length ps \<and> ps ! r = r" using no_pivot [of r] rn unit by fastforce
    have one: "H r r = 1" using unit D(4) [of r] p by (auto simp: zmult_eq_1_iff)
    have "H r j = 0" if "j < r" for j using D(6) [of r j] p one that by (simp add: reduced_def)
    with p one after show ?case by (metis linorder_neqE_nat)
  qed
  with r nr show ?thesis by simp
qed

lemma unimodular_complete_spec:
  assumes ok: "mat_ok M" and sq: "n_row M = n" "n_col M = n" and n: "n < 2 ^ 32" and nr: "nr \<le> n"
  shows "\<exists>r. isl_mat_unimodular_complete junk (Inr M) nr = Some r \<and>
    ((\<exists>M'. r = Inr M') \<longleftrightarrow> (\<exists>B C. inverse_pair n B C \<and> (\<forall>i<nr. \<forall>j<n. B i j = ent M i j))) \<and>
    (\<forall>M'. r = Inr M' \<longrightarrow> mat_dim M' n n \<and> (\<forall>i<nr. \<forall>j<n. ent M' i j = ent M i j) \<and>
      (\<exists>C. inverse_pair n (ent M') C))"
proof -
  let ?T = "M\<lparr>n_row := nr\<rparr>"
  have T: "mat_ok ?T" "n_row ?T = nr" "n_col ?T = n" "ent ?T = ent M"
    using ok sq nr by (auto simp: mat_ok_def ent_def [abs_def])
  obtain H U Q ps where lh: "\<forall>u q. isl_mat_left_hermite junk (Inr ?T) False u q =
      Some (Inr (H, if u then Some U else None, if q then Some Q else None))"
    and dim: "mat_dim H nr n" "mat_dim U n n" "mat_dim Q n n"
    and F: "factored nr n (ent M) (ent H) (ent U) (ent Q)"
    and hf: "hermite_form False (ent H) nr n ps"
    using isl_mat_left_hermite_full [OF T(1), of junk False, unfolded T(2-4), OF n]
    by (elim exE conjE) (rule that; assumption)
  let ?M = "M\<lparr>mat_row := for_range nr n (\<lambda>r rs. upd_row rs r (\<lambda>p. isl_seq_cpy p (mat_row Q ! r) n)) (mat_row M)\<rparr>"
  have run: "isl_mat_unimodular_complete junk (Inr M) nr =
      Some (isl_assert (\<forall>r<nr. ent H r r = 1) (Inr ?M))"
    using lh [rule_format, of False True] sq
    by (simp add: isl_mat_unimodular_complete_def find_upt_None_iff)
  have dimM: "mat_dim M n n" using ok sq by (simp add: mat_dim_def)
  have M': "mat_dim ?M n n" by (rule mat_dim_update_rows [OF dimM]) (simp add: seq_write_closed)
  have Qlen: "n \<le> length (mat_row M ! i)" "n \<le> length (mat_row Q ! i)" if "i < n" for i
    using dimM dim(3) that by (auto simp: mat_dim_def mat_ok_def)
  have e: "ent ?M i j = (if nr \<le> i then ent Q i j else ent M i j)" if "i < n" "j < n" for i j
    using ent_update_rows [OF dimM that(1), of nr "\<lambda>r p. isl_seq_cpy p (mat_row Q ! r) n" j]
      Qlen [OF that(1)] that(2) by (simp add: seq_write_nth ent_def)
  have inv: "inverse_pair n (ent ?M) (ent U) \<and> (\<forall>i<nr. \<forall>j<n. ent ?M i j = ent M i j)"
    if d: "\<And>r. r < nr \<Longrightarrow> ent H r r = 1"
  proof -
    have "ent M i j = ent Q i j" if "i < nr" "j < n" for i j
    proof -
      have "ent M i j = (\<Sum>k<n. ent H i k * ent Q k j)" using factoredD(2) [OF F] that by simp
      also have "\<dots> = (\<Sum>k<n. (if i = k then 1 else 0) * ent Q k j)"
        using hermite_unit_diagonal [OF hf nr d that(1)] by (intro sum.cong) auto
      also have "\<dots> = ent Q i j" using that nr by (intro sum_if_eq) simp
      finally show ?thesis .
    qed
    then have eQ: "ent ?M i j = ent Q i j" if "i < n" "j < n" for i j using e that by simp
    have "(\<Sum>k<n. ent ?M i k * ent U k j) = (\<Sum>k<n. ent Q i k * ent U k j)"
      "(\<Sum>k<n. ent U i k * ent ?M k j) = (\<Sum>k<n. ent U i k * ent Q k j)" if "i < n" "j < n" for i j
      by (rule sum.cong; use eQ that in simp)+
    then have "inverse_pair n (ent ?M) (ent U)"
      using factoredD(3,4) [OF F] by (simp add: inverse_pair_def)
    moreover have "\<forall>i<nr. \<forall>j<n. ent ?M i j = ent M i j" using e nr by simp
    ultimately show ?thesis ..
  qed
  show ?thesis
  proof (cases "\<forall>r<nr. ent H r r = 1")
    case True
    then have "inverse_pair n (ent ?M) (ent U) \<and> (\<forall>i<nr. \<forall>j<n. ent ?M i j = ent M i j)" using inv by simp
    with M' True run show ?thesis by (intro exI [of _ "Inr ?M"]) auto
  next
    case False
    have "\<not> (inverse_pair n B C \<and> (\<forall>i<nr. \<forall>j<n. B i j = ent M i j))" for B C
      using completable_unit_diagonal [OF F hf nr, of B C] False by metis
    then have "\<not> (\<exists>B C. inverse_pair n B C \<and> (\<forall>i<nr. \<forall>j<n. B i j = ent M i j))" by blast
    moreover have "(\<forall>r<nr. ent H r r = 1) = False" using False by simp
    then have "isl_mat_unimodular_complete junk (Inr M) nr = Some (Inl isl_error_unknown)"
      using run by (simp only: isl_assert_simps)
    ultimately show ?thesis by blast
  qed
qed

subsection \<open>Properties\<close>

text \<open>
  C18: \<open>isl_mat_right_kernel\<close> returns a basis of the integer kernel: its columns
  generate exactly the integer vectors that the matrix maps to zero, each in one way
  only, and there are as many as there are columns less the rank that \<open>isl_mat_rank\<close>
  returns, the number of columns left by a unimodular reduction to echelon form.
\<close>

theorem right_kernel_basis:
  assumes "mat_ok A" and "n_col A < 2 ^ 32"
  shows "\<exists>K rank. isl_mat_right_kernel junk (Inr A) = Some (Inr K) \<and>
    isl_mat_rank junk (Inr A) = Some (Inr rank) \<and> rank \<le> n_col A \<and>
    mat_ok K \<and> n_row K = n_col A \<and> n_col K = n_col A - rank \<and>
    (\<forall>x. (\<forall>r<n_row A. (\<Sum>k<n_col A. ent A r k * x k) = 0) \<longleftrightarrow>
       (\<exists>y. \<forall>i<n_row K. x i = (\<Sum>j<n_col K. ent K i j * y j))) \<and>
    (\<forall>y y'. (\<forall>i<n_row K. (\<Sum>j<n_col K. ent K i j * y j) = (\<Sum>j<n_col K. ent K i j * y' j)) \<longrightarrow>
       (\<forall>j<n_col K. y j = y' j)) \<and>
    has_rank (n_row A) (n_col A) (ent A) rank"
  using assms by (rule isl_mat_right_kernel_run)

theorem right_kernel_basis_witness:
  "\<exists>K rank. isl_mat_right_kernel (\<lambda>_. 7) (Inr hermite_input) = Some (Inr K) \<and>
    isl_mat_rank (\<lambda>_. 7) (Inr hermite_input) = Some (Inr rank) \<and> n_col K = 3 - rank"
  using right_kernel_basis [of hermite_input "\<lambda>_. 7"] by (fastforce simp: hermite_input_def)

text \<open>
  C19: \<open>isl_mat_unimodular_complete\<close> always returns; it succeeds exactly when the
  given first rows are the first rows of some unimodular integer matrix, and then its
  result keeps these rows and is unimodular.
\<close>

theorem unimodular_complete_iff:
  assumes "mat_ok M" and "n_row M = n" and "n_col M = n" and "n < 2 ^ 32" and "nr \<le> n"
  shows "\<exists>r. isl_mat_unimodular_complete junk (Inr M) nr = Some r \<and>
    ((\<exists>M'. r = Inr M') \<longleftrightarrow> (\<exists>B C. inverse_pair n B C \<and> (\<forall>i<nr. \<forall>j<n. B i j = ent M i j))) \<and>
    (\<forall>M'. r = Inr M' \<longrightarrow> mat_dim M' n n \<and> (\<forall>i<nr. \<forall>j<n. ent M' i j = ent M i j) \<and>
      (\<exists>C. inverse_pair n (ent M') C))"
  using assms by (rule unimodular_complete_spec)

definition completion_input :: isl_mat where
  "completion_input = mk_mat 2 2 (\<lambda>i j. [[3, 5], [9, 9 :: int]] ! i ! j)"

theorem unimodular_complete_iff_witness:
  "\<exists>r. isl_mat_unimodular_complete (\<lambda>_. 7) (Inr completion_input) 1 = Some r \<and>
    ((\<exists>M'. r = Inr M') \<longleftrightarrow> (\<exists>B C. inverse_pair 2 B C \<and> (\<forall>i<1. \<forall>j<2. B i j = ent completion_input i j))) \<and>
    (\<forall>M'. r = Inr M' \<longrightarrow> mat_dim M' 2 2 \<and> (\<forall>i<1. \<forall>j<2. ent M' i j = ent completion_input i j) \<and>
      (\<exists>C. inverse_pair 2 (ent M') C))"
  by (rule unimodular_complete_iff) (simp_all add: completion_input_def)

end
