(* ===== verification/Mat_Inverse.thy ===== *)
theory Mat_Inverse imports Mat_Kernel begin

text \<open>
  Solving linear systems with integer matrices (isl_mat.c): \<open>isl_mat_inverse_product\<close>
  computes a multiple of \<open>inv(left) * right\<close> by row operations on both,
  \<open>isl_mat_right_inverse\<close> a right inverse up to a factor by column operations.  As in
  the Hermite form a row or column is cleared by a loop that may a priori not end.
\<close>

subsection \<open>Row operations on a pair of matrices\<close>

type_synonym inv_state = "isl_mat \<times> isl_mat"

definition inv_exchange :: "isl_mat \<Rightarrow> isl_mat \<Rightarrow> nat \<Rightarrow> nat \<Rightarrow> inv_state res" where
  "inv_exchange left right i j =
     res_bind (isl_mat_swap_rows (Inr left) i j) (\<lambda>left.
     res_bind (isl_mat_swap_rows (Inr right) i j) (\<lambda>right. Inr (left, right)))"

definition inv_oppose :: "isl_mat \<Rightarrow> isl_mat \<Rightarrow> nat \<Rightarrow> inv_state" where
  "inv_oppose left right row =
     (left\<lparr>mat_row := upd_row (mat_row left) row (at_off row (\<lambda>p. isl_seq_neg p p (n_col left - row)))\<rparr>,
      right\<lparr>mat_row := upd_row (mat_row right) row (\<lambda>p. isl_seq_neg p p (n_col right))\<rparr>)"

definition inv_subtract :: "isl_mat \<Rightarrow> isl_mat \<Rightarrow> nat \<Rightarrow> nat \<Rightarrow> isl_int \<Rightarrow> inv_state" where
  "inv_subtract left right row i m =
     (let m = - m
      in (left\<lparr>mat_row := upd_row (mat_row left) i (at_off row
            (\<lambda>p. isl_seq_combine_inplace p 1 m (drop row (mat_row left ! row)) (n_col left - row)))\<rparr>,
          right\<lparr>mat_row := upd_row (mat_row right) i
            (\<lambda>p. isl_seq_combine_inplace p 1 m (mat_row right ! row) (n_col right))\<rparr>))"

subsection \<open>Multiplication by an inverse\<close>

definition inv_clear_cond :: "nat \<Rightarrow> inv_state res \<times> nat \<Rightarrow> bool" where
  "inv_clear_cond row = (\<lambda>(s, first). case s of
     Inl _ \<Rightarrow> False
   | Inr (left, right) \<Rightarrow>
       row_first_non_zero (drop first (mat_row left)) (n_row left - first) row \<noteq> None)"

definition inv_clear_step :: "nat \<Rightarrow> inv_state res \<times> nat \<Rightarrow> inv_state res \<times> nat" where
  "inv_clear_step row = (\<lambda>(s, first). case s of
     Inl e \<Rightarrow> (Inl e, first)
   | Inr (left, right) \<Rightarrow>
       let off = the (row_first_non_zero (drop first (mat_row left)) (n_row left - first) row);
           first = first + off;
           a = isl_int_fdiv_q (ent left first row) (ent left row row);
           (left, right) = inv_subtract left right row first a
       in if ent left first row \<noteq> 0 then (inv_exchange left right row first, first)
          else (Inr (left, right), first + 1))"

definition inv_clear :: "nat \<Rightarrow> inv_state \<Rightarrow> inv_state res option" where
  "inv_clear row s =
     map_option fst (while_option (inv_clear_cond row) (inv_clear_step row) (Inr s, row + 1))"

definition inv_reduce :: "nat \<Rightarrow> nat \<Rightarrow> inv_state \<Rightarrow> inv_state" where
  "inv_reduce row i = (\<lambda>(left, right).
     if ent left i row = 0 then (left, right)
     else let a = isl_int_gcd (ent left row row) (ent left i row);
              b = isl_int_divexact (ent left i row) a;
              a = isl_int_divexact (ent left row row) a;
              b = - b
          in (left\<lparr>mat_row := upd_row (mat_row left) i (at_off i
                (\<lambda>p. isl_seq_combine_inplace p a b (drop i (mat_row left ! row)) (n_col left - i)))\<rparr>,
              right\<lparr>mat_row := upd_row (mat_row right) i
                (\<lambda>p. isl_seq_combine_inplace p a b (mat_row right ! row) (n_col right))\<rparr>))"

definition inverse_row :: "nat \<Rightarrow> inv_state res \<Rightarrow> inv_state res option" where
  "inverse_row row s = (case s of
     Inl e \<Rightarrow> Some (Inl e)
   | Inr (left, right) \<Rightarrow>
       (case row_abs_min_non_zero (drop row (mat_row left)) (n_row left - row) row of
          None \<Rightarrow> Some (isl_die isl_error_unknown)
        | Some pivot \<Rightarrow>
            let pivot = pivot + row
            in case (if pivot \<noteq> row then inv_exchange left right pivot row else Inr (left, right)) of
                 Inl e \<Rightarrow> Some (Inl e)
               | Inr (left, right) \<Rightarrow>
                   map_option (\<lambda>s. res_bind s (\<lambda>s. Inr (for_range 0 row (inv_reduce row) s)))
                     (inv_clear row
                       (if ent left row row < 0 then inv_oppose left right row else (left, right)))))"

definition inverse_finish :: "inv_state \<Rightarrow> isl_mat res" where
  "inverse_finish = (\<lambda>(left, right).
     let a = for_range 1 (n_row left) (\<lambda>row a. isl_int_lcm a (ent left row row)) (ent left 0 0)
     in isl_assert (a \<noteq> 0)
          (Inr (snd (for_range 0 (n_row left) (\<lambda>row (left, right).
             let left = left\<lparr>mat_row := set_ent (mat_row left) row row (isl_int_divexact a (ent left row row))\<rparr>
             in if ent left row row = 1 then (left, right)
                else (left, right\<lparr>mat_row := upd_row (mat_row right) row
                  (\<lambda>p. isl_seq_scale p p (ent left row row) (n_col right))\<rparr>)) (left, right)))))"

definition isl_mat_inverse_product :: "isl_mat res \<Rightarrow> isl_mat res \<Rightarrow> isl_mat res option" where
  "isl_mat_inverse_product left right = (case left of
     Inl e \<Rightarrow> Some (Inl e)
   | Inr left \<Rightarrow> (case right of
       Inl e \<Rightarrow> Some (Inl e)
     | Inr right \<Rightarrow>
         if n_row left \<noteq> n_col left then Some (isl_die isl_error_unknown)
         else if n_row left \<noteq> n_row right then Some (isl_die isl_error_unknown)
         else if n_row left = 0 then Some (Inr right)
         else map_option (\<lambda>s. res_bind s inverse_finish)
                (for_range_opt 0 (n_row left) inverse_row (Inr (left, right)))))"

definition isl_mat_vec_inverse_product :: "isl_int junk \<Rightarrow> isl_mat res \<Rightarrow> isl_vec res \<Rightarrow> isl_vec res option" where
  "isl_mat_vec_inverse_product junk mat vec = (case mat of
     Inl e \<Rightarrow> Some (Inl e)
   | Inr mat \<Rightarrow> (case vec of
       Inl e \<Rightarrow> Some (Inl e)
     | Inr vec \<Rightarrow>
         let vec_mat = res_bind (isl_mat_alloc junk (vec_size vec) 1) (\<lambda>vec_mat.
               Inr (vec_mat\<lparr>mat_row := for_range 0 (vec_size vec)
                 (\<lambda>i rs. set_ent rs i 0 (vec_el vec ! i)) (mat_row vec_mat)\<rparr>))
         in map_option (\<lambda>vec_mat. res_bind vec_mat (\<lambda>vec_mat.
              res_bind (isl_vec_alloc junk (n_row vec_mat)) (\<lambda>vec.
                Inr (vec\<lparr>vec_el := for_range 0 (vec_size vec)
                  (\<lambda>i el. el[i := ent vec_mat i 0]) (vec_el vec)\<rparr>))))
              (isl_mat_inverse_product (Inr mat) vec_mat)))"

subsection \<open>Right inverse\<close>

text \<open>Only the first transformation is kept; the loop clears with exchanged arguments.\<close>

definition right_clear_step :: "nat \<Rightarrow> herm_state \<times> nat \<Rightarrow> herm_state \<times> nat" where
  "right_clear_step row = (\<lambda>((mat, inv1, Q), first).
     let off = the (isl_seq_first_non_zero (drop first (mat_row mat ! row)) (n_col mat - first));
         first = first + off;
         a = isl_int_fdiv_q (ent mat row first) (ent mat row row);
         (mat, inv1, Q) = subtract mat inv1 Q row row first a
     in if ent mat row first \<noteq> 0 then (exchange mat inv1 Q row row first, first)
        else ((mat, inv1, Q), first + 1))"

definition right_clear :: "nat \<Rightarrow> herm_state \<Rightarrow> herm_state option" where
  "right_clear row s =
     map_option fst (while_option (clear_cond row) (right_clear_step row) (s, row + 1))"

definition right_reduce :: "nat \<Rightarrow> nat \<Rightarrow> herm_state \<Rightarrow> herm_state" where
  "right_reduce row i = (\<lambda>(mat, inv1, Q).
     if ent mat row i = 0 then (mat, inv1, Q)
     else let a = isl_int_gcd (ent mat row row) (ent mat row i);
              b = isl_int_divexact (ent mat row i) a;
              a = isl_int_divexact (ent mat row row) a;
              a = - a
          in (isl_mat_col_combine mat i a i b row, map_option (\<lambda>inv1. isl_mat_col_combine inv1 i a i b row) inv1, Q))"

definition right_row :: "nat \<Rightarrow> herm_state res \<Rightarrow> herm_state res option" where
  "right_row row s = (case s of
     Inl e \<Rightarrow> Some (Inl e)
   | Inr (mat, inv1, Q) \<Rightarrow>
       (case isl_seq_abs_min_non_zero (drop row (mat_row mat ! row)) (n_col mat - row) of
          None \<Rightarrow> Some (isl_die isl_error_unknown)
        | Some pivot \<Rightarrow>
            let pivot = pivot + row;
                (mat, inv1, Q) = (if pivot \<noteq> row then exchange mat inv1 Q row pivot row else (mat, inv1, Q));
                (mat, inv1, Q) = (if ent mat row row < 0 then oppose mat inv1 Q row row else (mat, inv1, Q))
            in map_option (\<lambda>s. Inr (for_range 0 row (right_reduce row) s)) (right_clear row (mat, inv1, Q))))"

definition right_finish :: "isl_mat \<Rightarrow> isl_mat \<Rightarrow> isl_mat res" where
  "right_finish mat inv1 =
     (let a = for_range 1 (n_row mat) (\<lambda>row a. isl_int_lcm a (ent mat row row)) (ent mat 0 0)
      in if a = 0 then Inl isl_error_none
         else Inr (snd (for_range 0 (n_row mat) (\<lambda>row (mat, inv1).
           let mat = mat\<lparr>mat_row := set_ent (mat_row mat) row row (isl_int_divexact a (ent mat row row))\<rparr>
           in if ent mat row row = 1 then (mat, inv1)
              else (mat, isl_mat_col_scale inv1 row (ent mat row row))) (mat, inv1))))"

definition isl_mat_right_inverse :: "isl_int junk \<Rightarrow> isl_mat res \<Rightarrow> isl_mat res option" where
  "isl_mat_right_inverse junk mat = (case mat of
     Inl e \<Rightarrow> Some (Inl e)
   | Inr mat \<Rightarrow> (case isl_mat_identity junk (n_col mat) of
       Inl e \<Rightarrow> Some (Inl e)
     | Inr inv1 \<Rightarrow>
         map_option (\<lambda>s. res_bind s (\<lambda>(mat, inv1, _). case inv1 of
             None \<Rightarrow> isl_die isl_error_internal
           | Some inv1 \<Rightarrow> right_finish mat inv1))
           (for_range_opt 0 (n_row mat) right_row (Inr (mat, Some inv1, None)))))"

subsection \<open>Linear operations on columns\<close>

text \<open>
  An operation on the entries of a row that is linear, depends on the first \<open>n\<close>
  entries only and loses no information: the column operations of the Hermite form and
  the scaled combination of two columns.
\<close>

definition linear_op :: "nat \<Rightarrow> ((nat \<Rightarrow> int) \<Rightarrow> nat \<Rightarrow> int) \<Rightarrow> bool" where
  "linear_op n L =
     ((\<forall>(p::nat) a B. \<forall>j<n. (\<Sum>k<p. a k * L (B k) j) = L (\<lambda>j. \<Sum>k<p. a k * B k j) j) \<and>
      (\<forall>f g. (\<forall>j<n. f j = g j) \<longrightarrow> (\<forall>j<n. L f j = L g j)) \<and>
      (\<forall>f. (\<forall>j<n. L f j = 0) \<longleftrightarrow> (\<forall>j<n. f j = 0)))"

lemma linear_opD:
  assumes "linear_op n L"
  shows "j < n \<Longrightarrow> (\<Sum>k<(p::nat). a k * L (B k) j) = L (\<lambda>j. \<Sum>k<p. a k * B k j) j"
    and "(\<And>j. j < n \<Longrightarrow> f j = g j) \<Longrightarrow> j < n \<Longrightarrow> L f j = L g j"
    and "(\<forall>j<n. L f j = 0) \<longleftrightarrow> (\<forall>j<n. f j = 0)"
  using assms unfolding linear_op_def by blast+

lemma cact_zero_iff:
  assumes "valid_op n op"
  shows "(\<forall>j<n. cact op f j = 0) \<longleftrightarrow> (\<forall>j<n. f j = 0)"
proof (cases op)
  case (Swap i j)
  with assms show ?thesis by (auto split: if_splits)
next
  case (Sub i j c)
  show ?thesis
  proof
    assume a: "\<forall>k<n. cact op f k = 0"
    have "f i = 0" using a [rule_format, of i] assms Sub by simp
    show "\<forall>k<n. f k = 0"
    proof (intro allI impI)
      fix k assume "k < n"
      with a [rule_format, of k] \<open>f i = 0\<close> Sub show "f k = 0" by (auto split: if_splits)
    qed
  qed (use assms Sub in auto)
next
  case (Opp i)
  with assms show ?thesis by (auto split: if_splits)
qed

lemma linear_op_cact: "valid_op n op \<Longrightarrow> linear_op n (cact op)"
  unfolding linear_op_def using cact_linear cact_cong cact_zero_iff by blast

definition ccomb :: "nat \<Rightarrow> int \<Rightarrow> int \<Rightarrow> nat \<Rightarrow> (nat \<Rightarrow> int) \<Rightarrow> nat \<Rightarrow> int" where
  "ccomb i a b j f k = (if k = i then a * f i + b * f j else f k)"

lemma linear_op_ccomb:
  assumes "i < n" "j < n" "i \<noteq> j" "a \<noteq> 0"
  shows "linear_op n (ccomb i a b j)"
  unfolding linear_op_def
proof (intro conjI allI impI)
  show "(\<Sum>k<p. c k * ccomb i a b j (B k) l) = ccomb i a b j (\<lambda>l. \<Sum>k<p. c k * B k l) l" for p c B l
    by (simp add: ccomb_def sum_distrib_left sum.distrib [symmetric] algebra_simps)
  show "ccomb i a b j f l = ccomb i a b j g l" if "\<forall>j<n. f j = g j" "l < n" for f g l
    using that assms by (simp add: ccomb_def)
  show "(\<forall>l<n. ccomb i a b j f l = 0) \<longleftrightarrow> (\<forall>l<n. f l = 0)" for f
  proof
    assume z: "\<forall>l<n. ccomb i a b j f l = 0"
    have "f j = 0" using z [rule_format, of j] assms by (simp add: ccomb_def)
    moreover from this have "f i = 0" using z [rule_format, of i] assms by (simp add: ccomb_def)
    ultimately show "\<forall>l<n. f l = 0" using z by (auto simp: ccomb_def split: if_splits)
  qed (use assms in \<open>simp add: ccomb_def\<close>)
qed

subsection \<open>The state of the right inverse\<close>

text \<open>\<open>M = A V\<close>, and \<open>M\<close> has the linear relations between the rows of \<open>A\<close>.\<close>

definition rinv_ok :: "nat \<Rightarrow> nat \<Rightarrow> (nat \<Rightarrow> nat \<Rightarrow> int) \<Rightarrow> herm_state \<Rightarrow> bool" where
  "rinv_ok m n A s = (\<exists>M V. s = (M, Some V, None) \<and> mat_dim M m n \<and> mat_dim V n n \<and>
     (\<forall>r<m. \<forall>j<n. ent M r j = (\<Sum>k<n. A r k * ent V k j)) \<and>
     (\<forall>w. (\<forall>j<n. (\<Sum>r<m. w r * ent M r j) = 0) \<longleftrightarrow> (\<forall>j<n. (\<Sum>r<m. w r * A r j) = 0)))"

lemma rinv_ok_linear:
  assumes ok: "rinv_ok m n A (M, Some V, None)" and L: "linear_op n L"
    and dim: "mat_dim M' m n" "mat_dim V' n n"
    and M': "\<And>r j. r < m \<Longrightarrow> j < n \<Longrightarrow> ent M' r j = L (ent M r) j"
    and V': "\<And>r j. r < n \<Longrightarrow> j < n \<Longrightarrow> ent V' r j = L (ent V r) j"
  shows "rinv_ok m n A (M', Some V', None)"
proof -
  from ok have MV: "\<And>r j. r < m \<Longrightarrow> j < n \<Longrightarrow> ent M r j = (\<Sum>k<n. A r k * ent V k j)"
    and ker: "\<And>w. (\<forall>j<n. (\<Sum>r<m. w r * ent M r j) = 0) \<longleftrightarrow> (\<forall>j<n. (\<Sum>r<m. w r * A r j) = 0)"
    unfolding rinv_ok_def by blast+
  have "ent M' r j = (\<Sum>k<n. A r k * ent V' k j)" if "r < m" "j < n" for r j
  proof -
    have "ent M' r j = L (\<lambda>j. \<Sum>k<n. A r k * ent V k j) j"
      unfolding M' [OF that] by (rule linear_opD(2) [OF L _ that(2)]) (rule MV [OF that(1)])
    also have "\<dots> = (\<Sum>k<n. A r k * L (ent V k) j)" by (rule linear_opD(1) [OF L that(2), symmetric])
    finally show ?thesis using V' that by simp
  qed
  moreover have "(\<forall>j<n. (\<Sum>r<m. w r * ent M' r j) = 0) \<longleftrightarrow> (\<forall>j<n. (\<Sum>r<m. w r * A r j) = 0)" for w
  proof -
    have "(\<Sum>r<m. w r * ent M' r j) = L (\<lambda>j. \<Sum>r<m. w r * ent M r j) j" if "j < n" for j
      using M' that linear_opD(1) [OF L that, of w "ent M" m] by simp
    then show ?thesis using linear_opD(3) [OF L, of "\<lambda>j. \<Sum>r<m. w r * ent M r j"] ker [of w] by simp
  qed
  ultimately show ?thesis using dim by (auto simp: rinv_ok_def)
qed

lemma rinv_col_step:
  assumes ok: "rinv_ok m n A (M, Some V, None)" and op: "valid_op n op"
    and M': "mat_dim M' m n \<and> (\<forall>r<m. \<forall>j<n. ent M' r j = (if r0 \<le> r then cact op (ent M r) j else ent M r j))"
    and V': "mat_dim V' n n \<and> (\<forall>r<n. \<forall>j<n. ent V' r j = (if 0 \<le> r then cact op (ent V r) j else ent V r j))"
    and above: "\<And>r j. r < r0 \<Longrightarrow> r < m \<Longrightarrow> j < n \<Longrightarrow> cact op (ent M r) j = ent M r j"
  shows "col_step (rinv_ok m n A) m n op M (M', Some V', None)"
proof -
  have e: "ent M' r j = cact op (ent M r) j" if "r < m" "j < n" for r j
    using M' above [of r j] that by (cases "r0 \<le> r") auto
  have "rinv_ok m n A (M', Some V', None)"
    by (rule rinv_ok_linear [OF ok linear_op_cact [OF op] _ _ e]) (use M' V' in auto)
  with e show ?thesis by (simp add: col_step_def)
qed

lemma rinv_ok_cases:
  assumes "rinv_ok m n A (M, U, Q)"
  obtains V where "U = Some V" "Q = None" "mat_dim M m n" "mat_dim V n n"
    "rinv_ok m n A (M, Some V, None)"
  using assms by (auto simp: rinv_ok_def)

lemma colop_nth:
  assumes "n \<le> length p" and "k < n"
  shows "i < n \<Longrightarrow> j < n \<Longrightarrow> p[i := p ! j, j := p ! i] ! k = cact (Swap i j) (\<lambda>k. p ! k) k"
    and "j < n \<Longrightarrow> p[j := p ! j - c * p ! i] ! k = cact (Sub i j c) (\<lambda>k. p ! k) k"
    and "i < n \<Longrightarrow> p[i := - (p ! i)] ! k = cact (Opp i) (\<lambda>k. p ! k) k"
  using assms by (auto simp: nth_list_update)

lemma rinv_exchange:
  assumes ok: "rinv_ok m n A (M, U, Q)" and ij: "i < n" "j < n"
    and above: "\<And>r. r < r0 \<Longrightarrow> r < m \<Longrightarrow> ent M r i = 0 \<and> ent M r j = 0"
  shows "col_step (rinv_ok m n A) m n (Swap i j) M (exchange M U Q r0 i j)"
  using ok
proof (cases rule: rinv_ok_cases)
  case (1 V)
  show ?thesis unfolding 1 exchange_def option.map
    by (rule rinv_col_step [OF 1(5) _ update_rows_applies [OF 1(3)] update_rows_applies [OF 1(4)]])
      (use ij above colop_nth(1) in auto)
qed

lemma rinv_subtract:
  assumes ok: "rinv_ok m n A (M, U, Q)" and ij: "i < n" "j < n" "i \<noteq> j"
    and above: "\<And>r. r < r0 \<Longrightarrow> r < m \<Longrightarrow> ent M r i = 0"
  shows "col_step (rinv_ok m n A) m n (Sub i j c) M (subtract M U Q r0 i j c)"
  using ok
proof (cases rule: rinv_ok_cases)
  case (1 V)
  show ?thesis unfolding 1 subtract_def option.map
    by (rule rinv_col_step [OF 1(5) _ update_rows_applies [OF 1(3)] update_rows_applies [OF 1(4)]])
      (use ij above colop_nth(2) in auto)
qed

lemma rinv_oppose:
  assumes ok: "rinv_ok m n A (M, U, Q)" and i: "i < n"
    and above: "\<And>r. r < r0 \<Longrightarrow> r < m \<Longrightarrow> ent M r i = 0"
  shows "col_step (rinv_ok m n A) m n (Opp i) M (oppose M U Q r0 i)"
  using ok
proof (cases rule: rinv_ok_cases)
  case (1 V)
  show ?thesis unfolding 1 oppose_def option.map
    by (rule rinv_col_step [OF 1(5) _ update_rows_applies [OF 1(3)] update_rows_applies [OF 1(4)]])
      (use i above colop_nth(3) in auto)
qed

lemma rinv_ok_dim: "rinv_ok m n A s \<Longrightarrow> mat_dim (fst s) m n"
  by (auto simp: rinv_ok_def)

interpretation right_ops: column_ops "rinv_ok m n A" m n for m n A
  by unfold_locales (auto intro: rinv_exchange rinv_subtract rinv_oppose rinv_ok_dim)

subsection \<open>Correctness of the right inverse\<close>

lemma isl_mat_swap_rows_commute: "isl_mat_swap_rows (Inr M) i j = isl_mat_swap_rows (Inr M) j i"
  by (cases "i = j") (auto simp: isl_mat_swap_rows_def checked_def list_update_swap check_row_range_def take1_def
      isl_die_def split: if_splits)

lemma exchange_commute: "i \<noteq> j \<Longrightarrow> exchange M U Q r0 i j = exchange M U Q r0 j i"
  unfolding exchange_def by (simp add: isl_mat_swap_rows_commute [of _ i j] list_update_swap [of i j])

lemma right_clear_eq: "right_clear r s = clear_row r r s"
proof -
  let ?P = "\<lambda>(s :: herm_state, first). r < first"
  have eq: "id (clear_step r r x) = right_clear_step r (id x)" if "?P x" for x
  proof -
    obtain M U Q f where x: "x = ((M, U, Q), f)" by (cases x) auto
    with that have f: "r < f" by simp
    define g where "g = f + the (isl_seq_first_non_zero (drop f (mat_row M ! r)) (n_col M - f))"
    obtain M1 U1 Q1 where s1: "subtract M U Q r r g (isl_int_fdiv_q (ent M r g) (ent M r r)) = (M1, U1, Q1)"
      by (metis prod_cases3)
    have "g \<noteq> r" using f by (simp add: g_def)
    then show ?thesis
      using exchange_commute [of g r M1 U1 Q1 r] s1
      by (simp add: x clear_step_def right_clear_step_def Let_def g_def [symmetric])
  qed
  have inv: "?P (clear_step r r x)" if "?P x" for x
    using that by (cases x) (auto simp: clear_step_def Let_def split: prod.splits if_splits)
  have "map_option id (while_option (clear_cond r) (clear_step r r) (s, r + 1)) =
      while_option (clear_cond r) (right_clear_step r) (id (s, r + 1))"
    by (rule while_option_commute_invariant [where P = ?P]) (use inv eq in auto)
  then show ?thesis by (simp add: right_clear_def clear_row_def option.map_id)
qed

lemma isl_mat_col_combine_ent:
  assumes dim: "mat_dim M m n" and ij: "i < n" "j < n"
  shows "mat_dim (isl_mat_col_combine M i a i b j) m n \<and>
    (\<forall>r<m. \<forall>k<n. ent (isl_mat_col_combine M i a i b j) r k = ccomb i a b j (ent M r) k)"
proof -
  have eq: "isl_mat_col_combine M i a i b j =
      M\<lparr>mat_row := for_range 0 m (\<lambda>r rs. upd_row rs r (\<lambda>p. p[i := a * p ! i + b * p ! j])) (mat_row M)\<rparr>"
    using dim by (simp add: isl_mat_col_combine_def mat_dim_def set_ent_def upd_row_def Let_def)
  show ?thesis
    unfolding eq using mat_dim_update_rows [OF dim, of "\<lambda>_ p. p[i := a * p ! i + b * p ! j]" 0]
      ent_update_rows [OF dim, of _ 0 "\<lambda>_ p. p[i := a * p ! i + b * p ! j]"] dim ij
    by (auto simp: ccomb_def mat_dim_def mat_ok_def ent_def nth_list_update)
qed

text \<open>The first rows are diagonal.\<close>

definition diag_rows :: "nat \<Rightarrow> nat \<Rightarrow> (nat \<Rightarrow> nat \<Rightarrow> int) \<Rightarrow> bool" where
  "diag_rows r n M = (r \<le> n \<and> (\<forall>k<r. \<forall>j<n. M k j = 0 \<longleftrightarrow> j \<noteq> k))"

lemma right_reduce_step:
  assumes ok: "rinv_ok m n A s" and r: "r < m" "r < n" and i: "i < r" and p: "ent (fst s) r r \<noteq> 0"
    and d: "diag_rows r n (ent (fst s))"
  defines "s' \<equiv> right_reduce r i s"
  shows "rinv_ok m n A s' \<and> diag_rows r n (ent (fst s')) \<and> ent (fst s') r i = 0 \<and>
    (\<forall>j<n. j \<noteq> i \<longrightarrow> ent (fst s') r j = ent (fst s) r j)"
proof -
  obtain M U Q where s: "s = (M, U, Q)" by (cases s) auto
  show ?thesis
  proof (cases "ent M r i = 0")
    case True
    then have "s' = s" unfolding s'_def s by (simp add: right_reduce_def)
    with ok d True show ?thesis by (simp add: s)
  next
    case False
    define g where "g = isl_int_gcd (ent M r r) (ent M r i)"
    define b where "b = isl_int_divexact (ent M r i) g"
    define a where "a = - isl_int_divexact (ent M r r) g"
    have g: "g dvd ent M r r" "g dvd ent M r i" by (simp_all add: g_def isl_int_gcd_def)
    then have bg: "g * b = ent M r i" and ag: "g * a = - ent M r r"
      using isl_int_divexact_eq by (simp_all add: a_def b_def)
    have a0: "a \<noteq> 0" using ag p by (auto simp: s)
    have g0: "g \<noteq> 0" using p g by (auto simp: s)
    from ok s obtain V where V: "U = Some V" "Q = None" "mat_dim M m n" "mat_dim V n n"
      "rinv_ok m n A (M, Some V, None)" by (auto elim: rinv_ok_cases)
    have s': "s' = (isl_mat_col_combine M i a i b r, Some (isl_mat_col_combine V i a i b r), None)"
      unfolding s'_def s V(1,2) using False
      by (simp add: right_reduce_def Let_def g_def [symmetric] a_def [symmetric] b_def [symmetric])
    have i': "i < n" "i \<noteq> r" using i r by auto
    note eM = isl_mat_col_combine_ent [OF V(3) i'(1) r(2), of a b]
    note eV = isl_mat_col_combine_ent [OF V(4) i'(1) r(2), of a b]
    have ok': "rinv_ok m n A s'"
      unfolding s' by (rule rinv_ok_linear [OF V(5) linear_op_ccomb [OF i'(1) r(2) i'(2) a0]])
        (use eM eV in auto)
    have e: "ent (fst s') k j = ccomb i a b r (ent M k) j" if "k < m" "j < n" for k j
      using eM that by (simp add: s')
    have "g * (a * ent M r i + b * ent M r r) = 0"
      using ag bg by (simp add: distrib_left mult.assoc [symmetric])
    then have z: "ent (fst s') r i = 0" using e [OF r(1) i'(1)] g0 by (simp add: ccomb_def)
    have "diag_rows r n (ent (fst s'))"
      unfolding diag_rows_def
    proof (intro conjI allI impI)
      fix k j assume k: "k < r" and j: "j < n"
      have "ent M k r = 0" using d k r by (simp add: diag_rows_def s)
      moreover have "ent M k j = 0 \<longleftrightarrow> j \<noteq> k" using d k j by (simp add: diag_rows_def s)
      ultimately show "ent (fst s') k j = 0 \<longleftrightarrow> j \<noteq> k"
        using e [of k j] k j r a0 by (auto simp: ccomb_def)
    qed (use r in simp)
    with ok' z show ?thesis using e [OF r(1)] by (simp add: s ccomb_def)
  qed
qed

lemma right_reduce_loop:
  assumes ok: "rinv_ok m n A s" and r: "r < m" "r < n" and p: "ent (fst s) r r \<noteq> 0"
    and d: "diag_rows r n (ent (fst s))" and z: "\<And>j. r < j \<Longrightarrow> j < n \<Longrightarrow> ent (fst s) r j = 0"
  defines "s' \<equiv> for_range 0 r (right_reduce r) s"
  shows "rinv_ok m n A s' \<and> diag_rows (Suc r) n (ent (fst s'))"
proof -
  let ?P = "\<lambda>i s'. rinv_ok m n A s' \<and> diag_rows r n (ent (fst s')) \<and>
    (\<forall>j<i. ent (fst s') r j = 0) \<and> (\<forall>j<n. r \<le> j \<longrightarrow> ent (fst s') r j = ent (fst s) r j)"
  have "?P r s'"
    unfolding s'_def
  proof (rule for_range_induct [where P = ?P])
    fix i t assume i: "0 \<le> i" "i < r" and P: "?P i t"
    have p': "ent (fst t) r r \<noteq> 0" using P p r by simp
    have "rinv_ok m n A (right_reduce r i t) \<and> diag_rows r n (ent (fst (right_reduce r i t))) \<and>
      ent (fst (right_reduce r i t)) r i = 0 \<and>
      (\<forall>j<n. j \<noteq> i \<longrightarrow> ent (fst (right_reduce r i t)) r j = ent (fst t) r j)"
      by (rule right_reduce_step [OF _ r i(2) p']) (use P in auto)
    with P i r show "?P (Suc i) (right_reduce r i t)" by (auto simp: less_Suc_eq)
  qed (use ok d in auto)
  then have P: "?P r s'" .
  have "ent (fst s') k j = 0 \<longleftrightarrow> j \<noteq> k" if "k < Suc r" "j < n" for k j
  proof (cases "k = r")
    case True
    with P that r p z show ?thesis by (cases j r rule: linorder_cases) auto
  next
    case False
    with P that show ?thesis by (simp add: diag_rows_def)
  qed
  with P r show ?thesis by (simp add: diag_rows_def)
qed

text \<open>A relation between the rows, when no pivot is found.\<close>

definition dependent :: "nat \<Rightarrow> nat \<Rightarrow> (nat \<Rightarrow> nat \<Rightarrow> int) \<Rightarrow> bool" where
  "dependent m n A = (\<exists>w. (\<exists>r<m. w r \<noteq> 0) \<and> (\<forall>j<n. (\<Sum>r<m. w r * A r j) = 0))"

lemma diag_rows_dependent:
  assumes d: "diag_rows r n M" and r: "r < m" and z: "\<And>j. r \<le> j \<Longrightarrow> j < n \<Longrightarrow> M r j = 0"
  shows "dependent m n M"
proof -
  define D where "D = (\<Prod>k<r. M k k)"
  have nz: "M k k \<noteq> 0" if "k < r" for k using d that by (auto simp: diag_rows_def)
  have dvd: "M k k dvd D" if "k < r" for k unfolding D_def using that by (intro dvd_prodI) auto
  have D0: "D \<noteq> 0" using nz by (simp add: D_def)
  define w where "w k = (if k < r then - M r k * (D div M k k) else if k = r then D else 0)" for k
  have "(\<Sum>k<m. w k * M k j) = 0" if j: "j < n" for j
  proof -
    have "w k * M k j = (if k = r then D * M r j else if k = j then (if j < r then - M r j * D else 0) else 0)"
      if "k < m" for k
      using d dvd [of k] j by (auto simp: w_def diag_rows_def)
    then have "(\<Sum>k<m. w k * M k j) = (\<Sum>k<m. (if k = r then D * M r j else 0) +
        (if k = j then (if j < r then - M r j * D else 0) else 0))"
      by (intro sum.cong) auto
    also have "\<dots> = 0" using r z [of j] j by (cases "j < r") (simp_all add: sum.distrib)
    finally show ?thesis .
  qed
  moreover have "w r \<noteq> 0" using D0 by (simp add: w_def)
  ultimately show ?thesis using r unfolding dependent_def by blast
qed

lemma rinv_ok_dependent:
  assumes "rinv_ok m n A s"
  shows "dependent m n (ent (fst s)) \<longleftrightarrow> dependent m n A"
proof -
  obtain M where "fst s = M" and "\<forall>w. (\<forall>j<n. (\<Sum>r<m. w r * ent M r j) = 0) \<longleftrightarrow> (\<forall>j<n. (\<Sum>r<m. w r * A r j) = 0)"
    using assms unfolding rinv_ok_def by fastforce
  then show ?thesis by (simp add: dependent_def)
qed

lemma right_row_correct:
  assumes ok: "rinv_ok m n A s" and d: "diag_rows r n (ent (fst s))" and r: "r < m" and n: "n < 2 ^ 32"
  shows "(\<exists>s'. right_row r (Inr s) = Some (Inr s') \<and> rinv_ok m n A s' \<and> diag_rows (Suc r) n (ent (fst s'))) \<or>
    (\<exists>e. right_row r (Inr s) = Some (Inl e) \<and> dependent m n A)"
proof -
  obtain M U Q where s: "s = (M, U, Q)" by (cases s) auto
  have ok: "rinv_ok m n A (M, U, Q)" and d: "diag_rows r n (ent M)" using ok d by (simp_all add: s)
  have dim: "n_col M = n" "n \<le> length (mat_row M ! r)"
    using rinv_ok_dim [OF ok] r by (auto simp: mat_dim_def mat_ok_def)
  have le: "r \<le> n" using d by (simp add: diag_rows_def)
  have at: "drop r (mat_row M ! r) ! i = ent M r (r + i)" if "i < n - r" for i
    using that dim by (simp add: ent_def)
  show ?thesis
  proof (cases "isl_seq_abs_min_non_zero (drop r (mat_row M ! r)) (n - r)")
    case None
    then have "ent M r (r + i) = 0" if "i < n - r" for i using that at by (simp add: seq_simps)
    then have "ent M r c = 0" if "r \<le> c" "c < n" for c
      using that by (metis diff_less_mono le_add_diff_inverse)
    then have "dependent m n (ent M)" by (rule diag_rows_dependent [OF d r])
    then have "dependent m n A" using rinv_ok_dependent [OF ok] by simp
    moreover have "right_row r (Inr s) = Some (isl_die isl_error_unknown)"
      using None dim by (simp add: right_row_def s)
    ultimately show ?thesis by (auto simp: isl_die_def)
  next
    case (Some off)
    define f where "f = off + r"
    have f: "r \<le> f" "f < n" "ent M r f \<noteq> 0"
      using isl_seq_abs_min_non_zero_Some(1,2) [OF Some] at [of off] by (auto simp: f_def add.commute)
    have rn: "r < n" using f by simp
    have z: "ent M k j = 0" if "k < r" "j < n" "r \<le> j" for k j using d that by (simp add: diag_rows_def)
    define s1 where "s1 = (if f \<noteq> r then exchange M U Q r f r else (M, U, Q))"
    define s2 where "s2 = (case s1 of (M, U, Q) \<Rightarrow> if ent M r r < 0 then oppose M U Q r r else (M, U, Q))"
    have 2: "rinv_ok m n A s2" "0 < ent (fst s2) r r"
      "\<And>k j. k < m \<Longrightarrow> j < n \<Longrightarrow> j < r \<or> k < r \<Longrightarrow> ent (fst s2) k j = ent M k j"
      using right_ops.pivot_ok [OF ok r n f z, folded s1_def, folded s2_def] by blast+
    have z2: "ent (fst s2) k j = 0" if "k < r" "j < n" "r \<le> j" for k j
      using 2(3) [of k j] z [OF that] that r by simp
    obtain s3 where s3: "clear_row r r s2 = Some s3" "rinv_ok m n A s3" "0 < ent (fst s3) r r"
      "\<And>k j. k < m \<Longrightarrow> j < r \<Longrightarrow> ent (fst s3) k j = ent (fst s2) k j"
      "\<And>k j. k < r \<Longrightarrow> j < n \<Longrightarrow> r \<le> j \<Longrightarrow> ent (fst s3) k j = 0"
      "\<And>j. j < n \<Longrightarrow> r < j \<Longrightarrow> ent (fst s3) r j = 0"
      using right_ops.clear_row_correct [OF 2(1) r rn n 2(2) z2] by blast
    have e3: "ent (fst s3) k j = ent M k j" if "k < r" "j < n" for k j
      using s3(4) [of k j] s3(5) [of k j] 2(3) [of k j] z [of k j] that r by (cases "j < r") auto
    have d3: "diag_rows r n (ent (fst s3))" using d by (simp add: diag_rows_def e3)
    have 4: "rinv_ok m n A (for_range 0 r (right_reduce r) s3) \<and>
      diag_rows (Suc r) n (ent (fst (for_range 0 r (right_reduce r) s3)))"
      by (rule right_reduce_loop [OF s3(2) r rn _ d3]) (use s3 in auto)
    obtain M1 U1 Q1 where s1: "s1 = (M1, U1, Q1)" by (cases s1) auto
    obtain M2 U2 Q2 where s2: "s2 = (M2, U2, Q2)" by (cases s2) auto
    have i1: "(if f \<noteq> r then exchange M U Q r f r else (M, U, Q)) = (M1, U1, Q1)"
      using s1 by (simp only: s1_def)
    have i2: "(if ent M1 r r < 0 then oppose M1 U1 Q1 r r else (M1, U1, Q1)) = (M2, U2, Q2)"
      using s2 by (simp only: s2_def s1 prod.case)
    have "right_row r (Inr s) = Some (Inr (for_range 0 r (right_reduce r) s3))"
      unfolding right_row_def s sum.case prod.case dim Some option.case Let_def f_def [symmetric] i1 i2 right_clear_eq
      using s3(1) by (simp add: s2)
    with 4 show ?thesis by blast
  qed
qed

lemma lcm_loop:
  assumes nz: "\<And>k. k < Suc m \<Longrightarrow> d k \<noteq> (0::int)"
  shows "(\<forall>k<Suc m. d k dvd for_range 1 (Suc m) (\<lambda>row a. isl_int_lcm a (d row)) (d 0)) \<and>
    for_range 1 (Suc m) (\<lambda>row a. isl_int_lcm a (d row)) (d 0) \<noteq> 0"
proof -
  let ?P = "\<lambda>i a. (\<forall>k<i. d k dvd a) \<and> a \<noteq> 0"
  have "?P (Suc m) (for_range 1 (Suc m) (\<lambda>row a. isl_int_lcm a (d row)) (d 0))"
  proof (rule for_range_induct [where P = ?P])
    show "?P (Suc i) (isl_int_lcm a (d i))" if "1 \<le> i" "i < Suc m" "?P i a" for i a
      using that nz [of i] by (auto simp: isl_int_lcm_def less_Suc_eq lcm_eq_0_iff intro: dvd_lcmI1)
  qed (use nz [of 0] in auto)
  then show ?thesis .
qed

lemma isl_mat_col_scale_ent:
  assumes dim: "mat_dim M m n" and c: "col < n"
  shows "mat_dim (isl_mat_col_scale M col d) m n \<and>
    (\<forall>r<m. \<forall>k<n. ent (isl_mat_col_scale M col d) r k = (if k = col then ent M r k * d else ent M r k))"
proof -
  have eq: "isl_mat_col_scale M col d =
      M\<lparr>mat_row := for_range 0 m (\<lambda>r rs. upd_row rs r (\<lambda>p. p[col := p ! col * d])) (mat_row M)\<rparr>"
    using dim by (simp add: isl_mat_col_scale_def mat_dim_def set_ent_def upd_row_def)
  show ?thesis
    unfolding eq using mat_dim_update_rows [OF dim, of "\<lambda>_ p. p[col := p ! col * d]" 0]
      ent_update_rows [OF dim, of _ 0 "\<lambda>_ p. p[col := p ! col * d]"] dim c
    by (auto simp: mat_dim_def mat_ok_def ent_def nth_list_update)
qed

text \<open>The last loop divides on the diagonal and scales the columns of the inverse.\<close>

lemma right_finish_correct:
  assumes dim: "mat_dim M m n" "mat_dim V n n" and m: "0 < m" and d: "diag_rows m n (ent M)"
  shows "\<exists>V' a. right_finish M V = Inr V' \<and> a \<noteq> 0 \<and> mat_dim V' n n \<and>
    (\<forall>k<m. ent M k k dvd a) \<and>
    (\<forall>k<n. \<forall>j<n. ent V' k j = (if j < m then ent V k j * (a div ent M j j) else ent V k j))"
proof -
  let ?d = "\<lambda>k. ent M k k"
  have mn: "m \<le> n" and nz: "\<And>k. k < m \<Longrightarrow> ?d k \<noteq> 0" using d by (auto simp: diag_rows_def)
  define a where "a = for_range 1 m (\<lambda>row a. isl_int_lcm a (?d row)) (?d 0)"
  obtain m' where m': "m = Suc m'" using m by (cases m) auto
  have a: "\<And>k. k < m \<Longrightarrow> ?d k dvd a" "a \<noteq> 0"
    using lcm_loop [of m' ?d] nz unfolding m' a_def by auto
  have row: "n_row M = m" using dim(1) by (simp add: mat_dim_def)
  let ?body = "\<lambda>row (mat, inv1).
    let mat = mat\<lparr>mat_row := set_ent (mat_row mat) row row (isl_int_divexact a (ent mat row row))\<rparr>
    in if ent mat row row = 1 then (mat, inv1) else (mat, isl_mat_col_scale inv1 row (ent mat row row))"
  let ?P = "\<lambda>r s. mat_dim (fst s) m n \<and> mat_dim (snd s) n n \<and>
    (\<forall>k<m. r \<le> k \<longrightarrow> ent (fst s) k k = ?d k) \<and>
    (\<forall>k<n. \<forall>j<n. ent (snd s) k j = (if j < r then ent V k j * (a div ?d j) else ent V k j))"
  have "?P m (for_range 0 m ?body (M, V))"
  proof (rule for_range_induct [where P = ?P])
    fix r t assume r: "0 \<le> r" "r < m" and P: "?P r t"
    obtain mat W where t: "t = (mat, W)" by (cases t)
    have rn: "r < n" using r mn by simp
    let ?mat = "mat\<lparr>mat_row := set_ent (mat_row mat) r r (isl_int_divexact a (ent mat r r))\<rparr>"
    have dm: "mat_dim mat m n" and dW: "mat_dim W n n" using P by (simp_all add: t)
    have len: "m \<le> length (mat_row mat)" "\<And>k. k < m \<Longrightarrow> n \<le> length (mat_row mat ! k)"
      using dm by (auto simp: mat_dim_def mat_ok_def)
    have dm': "mat_dim ?mat m n"
      using dm by (auto simp: mat_dim_def mat_ok_def)
    have dd: "isl_int_divexact a (ent mat r r) = a div ?d r"
      using P r a(1) [OF r(2)] nz [OF r(2)] isl_int_divexact_eq [of "?d r" a] by (auto simp: t)
    have e: "ent ?mat k k = (if k = r then a div ?d r else ent mat k k)" if "k < m" for k
    proof -
      have "r < length (mat_row mat)" "r < length (mat_row mat ! r)"
        using len(1) len(2) [OF r(2)] r rn by simp_all
      then show ?thesis using dd by (simp add: ent_def set_ent_def nth_list_update)
    qed
    have body: "?body r t = (?mat, if a div ?d r = 1 then W else isl_mat_col_scale W r (a div ?d r))"
      using e [OF r(2)] by (simp add: t Let_def)
    note sc = isl_mat_col_scale_ent [OF dW rn, of "a div ?d r"]
    define t' where "t' = ?body r t"
    have t': "fst t' = ?mat" "mat_dim (snd t') n n" "\<And>k j. k < n \<Longrightarrow> j < n \<Longrightarrow>
        ent (snd t') k j = (if j = r then ent W k j * (a div ?d r) else ent W k j)"
      unfolding t'_def body using sc dW by simp_all
    have "ent (fst t') k k = ?d k" if "k < m" "Suc r \<le> k" for k
      unfolding t' using e [OF that(1)] P that by (simp add: t)
    moreover have "ent (snd t') k j = (if j < Suc r then ent V k j * (a div ?d j) else ent V k j)"
      if "k < n" "j < n" for k j
      using t'(3) [OF that] P that by (auto simp: t less_Suc_eq)
    moreover have "mat_dim (fst t') m n" unfolding t' by (rule dm')
    ultimately show "?P (Suc r) (?body r t)" unfolding t'_def [symmetric] using t'(2) by simp
  qed (use dim in simp_all)
  moreover have "right_finish M V = Inr (snd (for_range 0 m ?body (M, V)))"
    using a(2) by (simp add: right_finish_def row a_def Let_def)
  ultimately show ?thesis using a by blast
qed

lemma right_rows_run:
  assumes ok: "rinv_ok m n A s" and n: "n < 2 ^ 32"
  shows "\<exists>t. for_range_opt 0 m right_row (Inr s) = Some t \<and>
    ((\<exists>s'. t = Inr s' \<and> rinv_ok m n A s' \<and> diag_rows m n (ent (fst s'))) \<or> (\<exists>e. t = Inl e \<and> dependent m n A))"
proof (rule for_range_opt_induct [where lo = 0 and hi = m and
      P = "\<lambda>r t. (\<exists>s'. t = Inr s' \<and> rinv_ok m n A s' \<and> diag_rows r n (ent (fst s'))) \<or>
        (\<exists>e. t = Inl e \<and> dependent m n A)"])
  fix i and t :: "herm_state res"
  assume i: "0 \<le> i" "i < m" and
    P: "(\<exists>s'. t = Inr s' \<and> rinv_ok m n A s' \<and> diag_rows i n (ent (fst s'))) \<or> (\<exists>e. t = Inl e \<and> dependent m n A)"
  from P show "\<exists>t'. right_row i t = Some t' \<and>
    ((\<exists>s'. t' = Inr s' \<and> rinv_ok m n A s' \<and> diag_rows (Suc i) n (ent (fst s'))) \<or>
      (\<exists>e. t' = Inl e \<and> dependent m n A))"
  proof
    assume "\<exists>s'. t = Inr s' \<and> rinv_ok m n A s' \<and> diag_rows i n (ent (fst s'))"
    then obtain s' where t: "t = Inr s'" "rinv_ok m n A s'" "diag_rows i n (ent (fst s'))" by blast
    from right_row_correct [OF t(2,3) i(2) n] show ?thesis unfolding t(1) by blast
  next
    assume "\<exists>e. t = Inl e \<and> dependent m n A"
    then show ?thesis by (auto simp: right_row_def)
  qed
qed (use ok in \<open>simp_all add: diag_rows_def\<close>)

lemma isl_mat_right_inverse_run:
  assumes ok: "mat_ok A" and m: "0 < n_row A" and n: "n_col A < 2 ^ 32"
  shows "\<exists>t. isl_mat_right_inverse junk (Inr A) = Some t \<and>
    (case t of
       Inl _ \<Rightarrow> dependent (n_row A) (n_col A) (ent A)
     | Inr V \<Rightarrow> mat_dim V (n_col A) (n_col A) \<and> (\<exists>a. a \<noteq> 0 \<and>
         (\<forall>r<n_row A. \<forall>j<n_col A. (\<Sum>k<n_col A. ent A r k * ent V k j) = (if j = r then a else 0))))"
proof -
  let ?m = "n_row A" and ?n = "n_col A"
  let ?I = "mk_mat ?n ?n (\<lambda>i j. if i = j then 1 else 0)"
  have sumI: "(\<Sum>k<?n. ent A r k * ent ?I k j) = ent A r j" if "j < ?n" for r j
  proof -
    have "(\<Sum>k<?n. ent A r k * ent ?I k j) = (\<Sum>k<?n. if k = j then ent A r k else 0)"
      using that by (intro sum.cong) auto
    with that show ?thesis by simp
  qed
  have init: "rinv_ok ?m ?n (ent A) (A, Some ?I, None)"
    using ok sumI by (simp add: rinv_ok_def mat_dim_def)
  obtain t where t: "for_range_opt 0 ?m right_row (Inr (A, Some ?I, None)) = Some t"
    and cases: "(\<exists>s'. t = Inr s' \<and> rinv_ok ?m ?n (ent A) s' \<and> diag_rows ?m ?n (ent (fst s'))) \<or>
      (\<exists>e. t = Inl e \<and> dependent ?m ?n (ent A))"
    using right_rows_run [OF init n] by blast
  note run = isl_mat_right_inverse_def [of junk "Inr A", simplified, unfolded isl_mat_identity_mk, simplified, unfolded t]
  from cases show ?thesis
  proof
    assume "\<exists>e. t = Inl e \<and> dependent ?m ?n (ent A)"
    then show ?thesis using run by auto
  next
    assume "\<exists>s'. t = Inr s' \<and> rinv_ok ?m ?n (ent A) s' \<and> diag_rows ?m ?n (ent (fst s'))"
    then obtain M V where tM: "t = Inr (M, Some V, None)" and dim: "mat_dim M ?m ?n" "mat_dim V ?n ?n"
      and MV: "\<And>r j. r < ?m \<Longrightarrow> j < ?n \<Longrightarrow> ent M r j = (\<Sum>k<?n. ent A r k * ent V k j)"
      and d: "diag_rows ?m ?n (ent M)"
      unfolding rinv_ok_def by fastforce
    from right_finish_correct [OF dim m d] obtain V' a where V': "right_finish M V = Inr V'" "a \<noteq> 0"
      "mat_dim V' ?n ?n" "\<And>k. k < ?m \<Longrightarrow> ent M k k dvd a"
      "\<And>k j. k < ?n \<Longrightarrow> j < ?n \<Longrightarrow> ent V' k j = (if j < ?m then ent V k j * (a div ent M j j) else ent V k j)"
      by blast
    have "(\<Sum>k<?n. ent A r k * ent V' k j) = (if j = r then a else 0)" if "r < ?m" "j < ?n" for r j
    proof -
      have Mrj: "ent M r j = 0 \<longleftrightarrow> j \<noteq> r" using d that by (simp add: diag_rows_def)
      have "(\<Sum>k<?n. ent A r k * ent V' k j) =
          (\<Sum>k<?n. ent A r k * ent V k j * (if j < ?m then a div ent M j j else 1))"
        using V'(5) that by (intro sum.cong) auto
      also have "\<dots> = ent M r j * (if j < ?m then a div ent M j j else 1)"
        using MV [OF that] by (simp add: sum_distrib_right)
      also have "\<dots> = (if j = r then a else 0)" using Mrj V'(4) [of r] that by auto
      finally show ?thesis .
    qed
    then show ?thesis using run tM V' by auto
  qed
qed

subsection \<open>The state of the inverse product\<close>

text \<open>
  The columns of the two matrices side by side; the row operations keep the solutions
  of the homogeneous system they form.
\<close>

definition aug :: "nat \<Rightarrow> (nat \<Rightarrow> nat \<Rightarrow> int) \<Rightarrow> (nat \<Rightarrow> nat \<Rightarrow> int) \<Rightarrow> nat \<Rightarrow> nat \<Rightarrow> int" where
  "aug n L R k r = (if k < n then L r k else R r (k - n))"

definition solves :: "nat \<Rightarrow> nat \<Rightarrow> (nat \<Rightarrow> nat \<Rightarrow> int) \<Rightarrow> (nat \<Rightarrow> nat \<Rightarrow> int) \<Rightarrow> (nat \<Rightarrow> int) \<Rightarrow> bool" where
  "solves n p L R z = (\<forall>r<n. (\<Sum>k<n + p. z k * aug n L R k r) = 0)"

definition inv_ok ::
  "nat \<Rightarrow> nat \<Rightarrow> (nat \<Rightarrow> nat \<Rightarrow> int) \<Rightarrow> (nat \<Rightarrow> nat \<Rightarrow> int) \<Rightarrow> inv_state \<Rightarrow> bool" where
  "inv_ok n p L0 R0 s = (mat_dim (fst s) n n \<and> mat_dim (snd s) n p \<and>
     (\<forall>z. solves n p (ent (fst s)) (ent (snd s)) z \<longleftrightarrow> solves n p L0 R0 z))"

text \<open>\<open>T\<close> acts on the rows of both matrices.\<close>

definition row_step ::
  "nat \<Rightarrow> nat \<Rightarrow> ((nat \<Rightarrow> int) \<Rightarrow> nat \<Rightarrow> int) \<Rightarrow> inv_state \<Rightarrow> inv_state \<Rightarrow> bool" where
  "row_step n p T s s' = (mat_dim (fst s') n n \<and> mat_dim (snd s') n p \<and>
     (\<forall>r<n. \<forall>k<n. ent (fst s') r k = T (\<lambda>r. ent (fst s) r k) r) \<and>
     (\<forall>r<n. \<forall>k<p. ent (snd s') r k = T (\<lambda>r. ent (snd s) r k) r))"

lemma row_step_ok:
  assumes ok: "inv_ok n p L0 R0 s" and T: "linear_op n T" and st: "row_step n p T s s'"
  shows "inv_ok n p L0 R0 s'"
proof -
  have aug: "aug n (ent (fst s')) (ent (snd s')) k r = T (aug n (ent (fst s)) (ent (snd s)) k) r"
    if "k < n + p" "r < n" for k r
    using st that by (cases "k < n") (auto simp: aug_def [abs_def] row_step_def)
  have "solves n p (ent (fst s')) (ent (snd s')) z \<longleftrightarrow> solves n p (ent (fst s)) (ent (snd s)) z" for z
  proof -
    have "(\<Sum>k<n + p. z k * aug n (ent (fst s')) (ent (snd s')) k r) =
        T (\<lambda>r. \<Sum>k<n + p. z k * aug n (ent (fst s)) (ent (snd s)) k r) r" if "r < n" for r
      using aug that linear_opD(1) [OF T that, of z "aug n (ent (fst s)) (ent (snd s))" "n + p"] by simp
    then show ?thesis
      using linear_opD(3) [OF T, of "\<lambda>r. \<Sum>k<n + p. z k * aug n (ent (fst s)) (ent (snd s)) k r"]
      by (simp add: solves_def)
  qed
  with ok st show ?thesis by (simp add: inv_ok_def row_step_def)
qed

lemma inv_exchange_step:
  assumes dim: "mat_dim L n n" "mat_dim R n p" and ij: "i < n" "j < n" "n < 2 ^ 32"
  shows "\<exists>s. inv_exchange L R i j = Inr s \<and> row_step n p (cact (Swap i j)) (L, R) s"
proof -
  have L: "mat_ok L" "n_row L = n" "n_col L = n" and R: "mat_ok R" "n_row R = n" "n_col R = p"
    using dim by (simp_all add: mat_dim_def)
  have l: "i < n_row L" "j < n_row L" "n_row L < 2 ^ 32" "i < n_row R" "j < n_row R" "n_row R < 2 ^ 32"
    using ij L R by simp_all
  note sL = isl_mat_swap_rows_ent [OF L(1) l(1-3)] and sR = isl_mat_swap_rows_ent [OF R(1) l(4-6)]
  show ?thesis
    unfolding inv_exchange_def sL(1) sR(1) res_bind.simps
    by (intro exI conjI, rule refl) (use sL(2,3) sR(2,3) L R in \<open>simp add: row_step_def mat_dim_def\<close>)
qed

text \<open>One row is rewritten, the left one from the column \<open>c\<close> on, before which nothing changes.\<close>

lemma length_nth_upd_row:
  assumes "\<And>q. length (h q) = length q"
  shows "length (upd_row rs i h ! k) = length (rs ! k)"
  using assms by (cases "k = i"; cases "i < length rs") (simp_all add: upd_row_def list_update_beyond)

lemma row_update_step:
  assumes dim: "mat_dim L n n" "mat_dim R n p" and i: "i < n" "c \<le> n"
    and len: "\<And>q. length (f q) = length q" "\<And>q. length (g q) = length q"
    and f: "\<And>q k. length q = length (mat_row L ! i) - c \<Longrightarrow> k < n - c \<Longrightarrow>
      (\<And>k. k < n - c \<Longrightarrow> q ! k = ent L i (c + k)) \<Longrightarrow> f q ! k = T (\<lambda>r. ent L r (c + k)) i"
    and g: "\<And>k. k < p \<Longrightarrow> g (mat_row R ! i) ! k = T (\<lambda>r. ent R r k) i"
    and keep: "\<And>h r. r \<noteq> i \<Longrightarrow> T h r = h r"
    and before: "\<And>k. k < c \<Longrightarrow> T (\<lambda>r. ent L r k) i = ent L i k"
  shows "row_step n p T (L, R)
    (L\<lparr>mat_row := upd_row (mat_row L) i (at_off c f)\<rparr>, R\<lparr>mat_row := upd_row (mat_row R) i g\<rparr>)"
proof -
  have L: "n \<le> length (mat_row L)" "\<And>k. k < n \<Longrightarrow> n \<le> length (mat_row L ! k)"
    and R: "n \<le> length (mat_row R)" "\<And>k. k < n \<Longrightarrow> p \<le> length (mat_row R ! k)"
    using dim by (auto simp: mat_dim_def mat_ok_def)
  let ?L = "L\<lparr>mat_row := upd_row (mat_row L) i (at_off c f)\<rparr>"
  let ?R = "R\<lparr>mat_row := upd_row (mat_row R) i g\<rparr>"
  have cl: "c \<le> length (mat_row L ! i)" using L(2) [OF i(1)] i(2) by simp
  have "mat_dim ?L n n"
    using dim(1) len(1) by (auto simp: mat_dim_def mat_ok_def length_nth_upd_row length_at_off)
  moreover have "mat_dim ?R n p"
    using dim(2) len(2) by (auto simp: mat_dim_def mat_ok_def length_nth_upd_row)
  moreover have "ent ?L r k = T (\<lambda>r. ent L r k) r" if "r < n" "k < n" for r k
  proof (cases "r = i")
    case False
    then show ?thesis using keep by (simp add: ent_def upd_row_def)
  next
    case True
    have il: "i < length (mat_row L)" using L(1) i by simp
    have "ent ?L i k = (if k < c then ent L i k else f (drop c (mat_row L ! i)) ! (k - c))"
      using nth_at_off [OF cl, of f k] il by (simp add: ent_def upd_row_def)
    also have "\<dots> = T (\<lambda>r. ent L r k) i"
    proof (cases "k < c")
      case False
      have "f (drop c (mat_row L ! i)) ! (k - c) = T (\<lambda>r. ent L r (c + (k - c))) i"
        using False that L(2) [OF i(1)] by (intro f) (auto simp: ent_def)
      with False show ?thesis by simp
    qed (use before in simp)
    finally show ?thesis using True by simp
  qed
  moreover have "ent ?R r k = T (\<lambda>r. ent R r k) r" if "r < n" "k < p" for r k
    using that keep g R(1) i by (cases "r = i") (simp_all add: ent_def upd_row_def)
  ultimately show ?thesis by (simp add: row_step_def)
qed

lemma inv_oppose_step:
  assumes dim: "mat_dim L n n" "mat_dim R n p" and r: "row < n" and z: "\<And>k. k < row \<Longrightarrow> ent L row k = 0"
  shows "row_step n p (cact (Opp row)) (L, R) (inv_oppose L R row)"
proof -
  have c: "n_col L = n" "n_col R = p" and lR: "p \<le> length (mat_row R ! row)" and lL: "n \<le> length (mat_row L ! row)"
    using dim r by (auto simp: mat_dim_def mat_ok_def)
  show ?thesis
    unfolding inv_oppose_def c
    by (rule row_update_step [OF dim r]) (use r z lR lL in \<open>auto simp: seq_write_nth ent_def\<close>)
qed

lemma combine_step:
  assumes dim: "mat_dim L n n" "mat_dim R n p" and i: "i < n" and r: "row < n" and ir: "i \<noteq> row" and c: "c \<le> n"
    and z: "\<And>k. k < c \<Longrightarrow> a * ent L i k + b * ent L row k = ent L i k"
  shows "row_step n p (ccomb i a b row) (L, R)
    (L\<lparr>mat_row := upd_row (mat_row L) i (at_off c
        (\<lambda>p. isl_seq_combine_inplace p a b (drop c (mat_row L ! row)) (n_col L - c)))\<rparr>,
     R\<lparr>mat_row := upd_row (mat_row R) i (\<lambda>p. isl_seq_combine_inplace p a b (mat_row R ! row) (n_col R))\<rparr>)"
proof -
  have n: "n_col L = n" "n_col R = p" and lR: "p \<le> length (mat_row R ! i)"
    and lL: "n \<le> length (mat_row L ! i)" "n \<le> length (mat_row L ! row)"
    using dim r i by (auto simp: mat_dim_def mat_ok_def)
  show ?thesis
    unfolding n
    by (rule row_update_step [OF dim i c])
      (use z lR lL in \<open>auto simp: isl_seq_combine_inplace_nth ent_def ccomb_def\<close>)
qed

lemma inv_subtract_step:
  assumes dim: "mat_dim L n n" "mat_dim R n p" and i: "i < n" and r: "row < n" and ir: "i \<noteq> row"
    and z: "\<And>k. k < row \<Longrightarrow> ent L row k = 0"
  shows "row_step n p (ccomb i 1 (- m) row) (L, R) (inv_subtract L R row i m)"
  unfolding inv_subtract_def Let_def by (rule combine_step [OF dim i r ir]) (use r z in auto)

subsection \<open>Clearing a column\<close>

lemma row_first_non_zero_iff:
  "row_first_non_zero rs nr c = None \<longleftrightarrow> (\<forall>i<nr. rs ! i ! c = 0)"
  "row_first_non_zero rs nr c = Some i \<longleftrightarrow> i < nr \<and> rs ! i ! c \<noteq> 0 \<and> (\<forall>j<i. rs ! j ! c = 0)"
  by (auto simp: row_first_non_zero_def find_upt_None_iff find_upt_Some_iff)

lemma row_abs_min_non_zero_cases:
  "row_abs_min_non_zero rs nr c = None \<longleftrightarrow> (\<forall>i<nr. rs ! i ! c = 0)"
  "row_abs_min_non_zero rs nr c = Some i \<Longrightarrow> i < nr \<and> rs ! i ! c \<noteq> 0"
proof -
  show "row_abs_min_non_zero rs nr c = None \<longleftrightarrow> (\<forall>i<nr. rs ! i ! c = 0)"
    by (auto simp: row_abs_min_non_zero_def row_first_non_zero_iff split: option.splits)
  show "i < nr \<and> rs ! i ! c \<noteq> 0" if a: "row_abs_min_non_zero rs nr c = Some i"
  proof -
    let ?f = "\<lambda>i m. if rs ! i ! c = 0 then m else if \<bar>rs ! i ! c\<bar> < \<bar>rs ! m ! c\<bar> then i else m"
    obtain m where m: "row_first_non_zero rs nr c = Some m" "i = for_range (m + 1) nr ?f m"
      using a by (auto simp: row_abs_min_non_zero_def split: option.splits)
    then have m': "m < nr" "rs ! m ! c \<noteq> 0" by (auto simp: row_first_non_zero_iff)
    have "for_range (m + 1) nr ?f m < nr \<and> rs ! for_range (m + 1) nr ?f m ! c \<noteq> 0"
      by (rule for_range_induct [where P = "\<lambda>_ m. m < nr \<and> rs ! m ! c \<noteq> 0"]) (use m' in auto)
    with m show ?thesis by simp
  qed
qed

text \<open>The first columns are diagonal, in all rows.\<close>

definition diag_cols :: "nat \<Rightarrow> nat \<Rightarrow> isl_mat \<Rightarrow> bool" where
  "diag_cols r n L = diag_rows r n (\<lambda>j k. ent L k j)"

lemma diag_cols_iff: "diag_cols r n L \<longleftrightarrow> r \<le> n \<and> (\<forall>j<r. \<forall>k<n. ent L k j = 0 \<longleftrightarrow> k \<noteq> j)"
  by (simp add: diag_cols_def diag_rows_def)

lemma diag_cols_zero: "diag_cols r n L \<Longrightarrow> j < r \<Longrightarrow> k < n \<Longrightarrow> k \<noteq> j \<Longrightarrow> ent L k j = 0"
  by (simp add: diag_cols_iff)

text \<open>An operation that keeps vectors with zeroes from row \<open>r\<close> on keeps these columns.\<close>

lemma row_step_diag:
  assumes st: "row_step n p T s s'" and d: "diag_cols r n (fst s)"
    and T: "\<And>h k. k < n \<Longrightarrow> (\<And>k. r \<le> k \<Longrightarrow> k < n \<Longrightarrow> h k = 0) \<Longrightarrow> T h k = 0 \<longleftrightarrow> h k = 0"
  shows "diag_cols r n (fst s')"
proof -
  have "ent (fst s') k j = 0 \<longleftrightarrow> k \<noteq> j" if j: "j < r" and k: "k < n" for j k
  proof -
    have jn: "j < n" using j d by (simp add: diag_cols_iff)
    have "T (\<lambda>k. ent (fst s) k j) k = 0 \<longleftrightarrow> ent (fst s) k j = 0"
      by (rule T [OF k]) (use diag_cols_zero [OF d j] j in auto)
    then show ?thesis using st d j k jn by (simp add: row_step_def diag_cols_iff)
  qed
  with d show ?thesis by (simp add: diag_cols_iff)
qed

definition inv_clear_inv ::
  "nat \<Rightarrow> nat \<Rightarrow> (nat \<Rightarrow> nat \<Rightarrow> int) \<Rightarrow> (nat \<Rightarrow> nat \<Rightarrow> int) \<Rightarrow> nat \<Rightarrow> inv_state res \<times> nat \<Rightarrow> bool" where
  "inv_clear_inv n p L0 R0 r = (\<lambda>(t, first). \<exists>s. t = Inr s \<and> inv_ok n p L0 R0 s \<and> diag_cols r n (fst s) \<and>
     r < first \<and> first \<le> n \<and> 0 < ent (fst s) r r \<and> (\<forall>k. r < k \<and> k < first \<longrightarrow> ent (fst s) k r = 0))"

definition inv_clear_measure :: "nat \<Rightarrow> nat \<Rightarrow> inv_state res \<times> nat \<Rightarrow> nat" where
  "inv_clear_measure n r = (\<lambda>(t, first). case t of Inl _ \<Rightarrow> 0
     | Inr s \<Rightarrow> nat (ent (fst s) r r) * (n + 1) + (n - first))"

lemma measure_drop:
  fixes p q :: int
  assumes "0 \<le> q" "q < p"
  shows "nat q * (n + 1) + (n - f) < nat p * (n + 1) + (n - g :: nat)"
proof -
  have "(nat q + 1) * (n + 1) \<le> nat p * (n + 1)" using assms by (intro mult_right_mono) auto
  moreover have "a + 1 * k \<le> b \<Longrightarrow> x < k \<Longrightarrow> a + x < b + y" for a b k x y :: nat by simp
  ultimately show ?thesis
    unfolding distrib_right by (meson diff_le_self less_Suc_eq_le Suc_eq_plus1 le_imp_less_Suc le_less_trans less_add_one)
qed

lemma inv_clear_step_inv:
  assumes inv: "inv_clear_inv n p L0 R0 r x" and cond: "inv_clear_cond r x"
    and r: "r < n" and n: "n < 2 ^ 32"
  shows "inv_clear_inv n p L0 R0 r (inv_clear_step r x) \<and>
    inv_clear_measure n r (inv_clear_step r x) < inv_clear_measure n r x"
proof -
  obtain L R f0 where x: "x = (Inr (L, R), f0)" using inv by (auto simp: inv_clear_inv_def)
  from inv have ok: "inv_ok n p L0 R0 (L, R)" and d: "diag_cols r n L" and f0: "r < f0" "f0 \<le> n"
    and pv: "0 < ent L r r" and zero: "\<And>k. r < k \<Longrightarrow> k < f0 \<Longrightarrow> ent L k r = 0"
    by (auto simp: x inv_clear_inv_def)
  have dim: "mat_dim L n n" "mat_dim R n p" using ok by (simp_all add: inv_ok_def)
  have rows: "n_row L = n" "n \<le> length (mat_row L)" using dim by (auto simp: mat_dim_def mat_ok_def)
  obtain off where off: "row_first_non_zero (drop f0 (mat_row L)) (n - f0) r = Some off"
    using cond rows by (auto simp: x inv_clear_cond_def)
  define f where "f = f0 + off"
  have f: "f < n" "ent L f r \<noteq> 0" "\<And>k. f0 \<le> k \<Longrightarrow> k < f \<Longrightarrow> ent L k r = 0"
  proof -
    have o: "off < n - f0" "drop f0 (mat_row L) ! off ! r \<noteq> 0" "\<And>k. k < off \<Longrightarrow> drop f0 (mat_row L) ! k ! r = 0"
      using off by (auto simp: row_first_non_zero_iff)
    then show "f < n" "ent L f r \<noteq> 0" using f0 rows by (auto simp: f_def ent_def)
    show "ent L k r = 0" if "f0 \<le> k" "k < f" for k
      using o(1) o(3) [of "k - f0"] that f0 rows by (auto simp: f_def ent_def)
  qed
  have rf: "r < f" "f \<noteq> r" "f0 \<le> f" using f0 by (auto simp: f_def)
  have zero': "ent L k r = 0" if "r < k" "k < f" for k
    using zero f(3) that by (cases "k < f0") auto
  have z0: "ent L r k = 0" if "k < r" for k using diag_cols_zero [OF d that r] that by simp
  define c where "c = isl_int_fdiv_q (ent L f r) (ent L r r)"
  obtain L1 R1 where s1: "inv_subtract L R r f c = (L1, R1)" by (cases "inv_subtract L R r f c") auto
  have st1: "row_step n p (ccomb f 1 (- c) r) (L, R) (L1, R1)"
    unfolding s1 [symmetric] by (rule inv_subtract_step [OF dim f(1) r rf(2) z0])
  have ok1: "inv_ok n p L0 R0 (L1, R1)"
    by (rule row_step_ok [OF ok linear_op_ccomb st1]) (use f r rf in auto)
  have dim1: "mat_dim L1 n n" "mat_dim R1 n p" using ok1 by (simp_all add: inv_ok_def)
  have e1: "ent L1 k j = (if k = f then ent L f j - c * ent L r j else ent L k j)" if "k < n" "j < n" for k j
    using st1 that by (auto simp: row_step_def ccomb_def)
  have d1: "diag_cols r n L1"
    using row_step_diag [OF st1, of r] d f rf r by (auto simp: ccomb_def)
  have rem: "0 \<le> ent L1 f r" "ent L1 f r < ent L r r"
    using fdiv_rem_range [OF pv, of "ent L f r"] f r by (auto simp: e1 c_def)
  show ?thesis
  proof (cases "ent L1 f r = 0")
    case True
    have step: "inv_clear_step r x = (Inr (L1, R1), f + 1)"
      using True by (simp add: inv_clear_step_def x rows off f_def [symmetric] c_def [symmetric] s1 Let_def)
    have "ent L1 k r = 0" if "r < k" "k < f + 1" for k
      using that True zero' [of k] e1 [of k r] f r by (cases "k = f") auto
    moreover have "ent L1 r r = ent L r r" using e1 r rf by simp
    ultimately show ?thesis
      unfolding step using ok1 d1 f rf pv by (auto simp: inv_clear_inv_def inv_clear_measure_def x)
  next
    case False
    obtain s2 where s2: "inv_exchange L1 R1 r f = Inr s2"
      and st2: "row_step n p (cact (Swap r f)) (L1, R1) s2"
      using inv_exchange_step [OF dim1 r f(1) n] by blast
    have ok2: "inv_ok n p L0 R0 s2"
      by (rule row_step_ok [OF ok1 linear_op_cact st2]) (use f r in auto)
    have e2: "ent (fst s2) k j = (if k = r then ent L1 f j else if k = f then ent L1 r j else ent L1 k j)"
      if "k < n" "j < n" for k j
      using st2 that by (auto simp: row_step_def)
    have d2: "diag_cols r n (fst s2)"
      using row_step_diag [OF st2, of r] d1 f rf r by auto
    have step: "inv_clear_step r x = (Inr s2, f)"
      using False by (simp add: inv_clear_step_def x rows off f_def [symmetric] c_def [symmetric] s1 s2 Let_def)
    have piv: "ent (fst s2) r r = ent L1 f r" using e2 r by simp
    have "ent (fst s2) k r = 0" if "r < k" "k < f" for k
      using that zero' [of k] e1 [of k r] e2 [of k r] f r by simp
    then show ?thesis
      unfolding step using ok2 d2 f rf rem False piv measure_drop [OF rem, of n f f0]
      by (cases s2) (auto simp: inv_clear_inv_def inv_clear_measure_def x)
  qed
qed

lemma inv_clear_correct:
  assumes ok: "inv_ok n p L0 R0 s" and d: "diag_cols r n (fst s)" and pv: "0 < ent (fst s) r r"
    and r: "r < n" and n: "n < 2 ^ 32"
  shows "\<exists>s'. inv_clear r s = Some (Inr s') \<and> inv_ok n p L0 R0 s' \<and> diag_cols r n (fst s') \<and>
    0 < ent (fst s') r r \<and> (\<forall>k<n. r < k \<longrightarrow> ent (fst s') k r = 0)"
proof -
  let ?P = "inv_clear_inv n p L0 R0 r"
  have init: "?P (Inr s, r + 1)" using ok d pv r by (cases s) (simp add: inv_clear_inv_def)
  have step: "?P (inv_clear_step r x) \<and> inv_clear_measure n r (inv_clear_step r x) < inv_clear_measure n r x"
    if "?P x" "inv_clear_cond r x" for x
    by (rule inv_clear_step_inv [OF that r n])
  obtain t where t: "while_option (inv_clear_cond r) (inv_clear_step r) (Inr s, r + 1) = Some t"
    using measure_while_option_Some [of ?P "inv_clear_cond r" "inv_clear_step r" "inv_clear_measure n r"]
      step init by blast
  have inv: "?P t"
    by (rule while_option_rule [of ?P "inv_clear_cond r" "inv_clear_step r", OF _ t init]) (use step in blast)
  have stop: "\<not> inv_clear_cond r t" by (rule while_option_stop [OF t])
  obtain L R f where x: "t = (Inr (L, R), f)" using inv by (auto simp: inv_clear_inv_def)
  have ok': "inv_ok n p L0 R0 (L, R)" and f: "r < f" "f \<le> n"
    and before: "\<And>k. r < k \<Longrightarrow> k < f \<Longrightarrow> ent L k r = 0" using inv by (auto simp: inv_clear_inv_def x)
  have rows: "n_row L = n" "n \<le> length (mat_row L)" using ok' by (auto simp: inv_ok_def mat_dim_def mat_ok_def)
  have z: "ent L k r = 0" if "r < k" "k < n" for k
  proof (cases "k < f")
    case False
    have "\<forall>i<n - f. drop f (mat_row L) ! i ! r = 0"
      using stop rows by (simp add: inv_clear_cond_def x row_first_non_zero_iff)
    with False that have "drop f (mat_row L) ! (k - f) ! r = 0" by (metis diff_less_mono not_less)
    with False that rows f show ?thesis by (simp add: ent_def)
  qed (use before that in simp)
  show ?thesis
    by (rule exI [of _ "(L, R)"]) (use inv z t in \<open>auto simp: inv_clear_inv_def x inv_clear_def\<close>)
qed

subsection \<open>Correctness of the inverse product\<close>

lemma inv_reduce_step:
  assumes ok: "inv_ok n p L0 R0 s" and r: "r < n" and i: "i < r" and d: "diag_cols r n (fst s)"
    and pv: "ent (fst s) r r \<noteq> 0" and z: "\<And>k. r < k \<Longrightarrow> k < n \<Longrightarrow> ent (fst s) k r = 0"
  defines "s' \<equiv> inv_reduce r i s"
  shows "inv_ok n p L0 R0 s' \<and> diag_cols r n (fst s') \<and> ent (fst s') i r = 0 \<and>
    (\<forall>k<n. k \<noteq> i \<longrightarrow> ent (fst s') k r = ent (fst s) k r)"
proof -
  obtain L R where s: "s = (L, R)" by (cases s)
  have dim: "mat_dim L n n" "mat_dim R n p" using ok by (simp_all add: inv_ok_def s)
  show ?thesis
  proof (cases "ent L i r = 0")
    case True
    then have "s' = s" unfolding s'_def s by (simp add: inv_reduce_def)
    with ok d True show ?thesis by (simp add: s)
  next
    case False
    define g where "g = isl_int_gcd (ent L r r) (ent L i r)"
    define a where "a = isl_int_divexact (ent L r r) g"
    define b where "b = - isl_int_divexact (ent L i r) g"
    have g: "g dvd ent L r r" "g dvd ent L i r" by (simp_all add: g_def isl_int_gcd_def)
    then have bg: "g * b = - ent L i r" and ag: "g * a = ent L r r"
      using isl_int_divexact_eq by (simp_all add: a_def b_def)
    have a0: "a \<noteq> 0" using ag pv by (auto simp: s)
    have g0: "g \<noteq> 0" using pv g by (auto simp: s)
    have i': "i < n" "i \<noteq> r" "i \<le> n" using i r by auto
    have zi: "a * ent L i k + b * ent L r k = ent L i k" if "k < i" for k
      using diag_cols_zero [of r n L k] d that i r by (simp add: s)
    have s': "s' = (L\<lparr>mat_row := upd_row (mat_row L) i (at_off i
        (\<lambda>p. isl_seq_combine_inplace p a b (drop i (mat_row L ! r)) (n_col L - i)))\<rparr>,
       R\<lparr>mat_row := upd_row (mat_row R) i (\<lambda>p. isl_seq_combine_inplace p a b (mat_row R ! r) (n_col R))\<rparr>)"
      unfolding s'_def s using False
      by (simp add: inv_reduce_def Let_def g_def [symmetric] a_def [symmetric] b_def [symmetric])
    have st: "row_step n p (ccomb i a b r) s s'"
      unfolding s' s by (rule combine_step [OF dim i'(1) r i'(2,3) zi])
    have ok': "inv_ok n p L0 R0 s'"
      by (rule row_step_ok [OF ok linear_op_ccomb st]) (use i' r a0 in auto)
    have "diag_cols r n (fst s')"
      by (rule row_step_diag [OF st d]) (use a0 r in \<open>auto simp: ccomb_def\<close>)
    moreover have e: "ent (fst s') k r = ccomb i a b r (\<lambda>k. ent L k r) k" if "k < n" for k
      using st that r by (simp add: row_step_def s)
    moreover have "g * (a * ent L i r + b * ent L r r) = 0"
      using ag bg by (simp add: distrib_left mult.assoc [symmetric])
    ultimately show ?thesis using ok' g0 i' by (simp add: ccomb_def s)
  qed
qed

lemma inv_reduce_loop:
  assumes ok: "inv_ok n p L0 R0 s" and r: "r < n" and d: "diag_cols r n (fst s)"
    and pv: "ent (fst s) r r \<noteq> 0" and z: "\<And>k. r < k \<Longrightarrow> k < n \<Longrightarrow> ent (fst s) k r = 0"
  defines "s' \<equiv> for_range 0 r (inv_reduce r) s"
  shows "inv_ok n p L0 R0 s' \<and> diag_cols (Suc r) n (fst s')"
proof -
  let ?P = "\<lambda>i s'. inv_ok n p L0 R0 s' \<and> diag_cols r n (fst s') \<and>
    (\<forall>k<i. ent (fst s') k r = 0) \<and> (\<forall>k<n. r \<le> k \<longrightarrow> ent (fst s') k r = ent (fst s) k r)"
  have "?P r s'"
    unfolding s'_def
  proof (rule for_range_induct [where P = ?P])
    fix i t assume i: "0 \<le> i" "i < r" and P: "?P i t"
    have pv': "ent (fst t) r r \<noteq> 0" using P pv r by simp
    have "inv_ok n p L0 R0 (inv_reduce r i t) \<and> diag_cols r n (fst (inv_reduce r i t)) \<and>
      ent (fst (inv_reduce r i t)) i r = 0 \<and>
      (\<forall>k<n. k \<noteq> i \<longrightarrow> ent (fst (inv_reduce r i t)) k r = ent (fst t) k r)"
      by (rule inv_reduce_step [OF _ r i(2) _ pv']) (use P z in auto)
    with P i r show "?P (Suc i) (inv_reduce r i t)" by (auto simp: less_Suc_eq)
  qed (use ok d in auto)
  then have P: "?P r s'" .
  have "ent (fst s') k j = 0 \<longleftrightarrow> k \<noteq> j" if "j < Suc r" "k < n" for k j
  proof (cases "j = r")
    case True
    with P that r pv z show ?thesis by (cases k r rule: linorder_cases) auto
  next
    case False
    with P that show ?thesis by (simp add: diag_cols_iff)
  qed
  with P r show ?thesis by (simp add: diag_cols_iff)
qed

text \<open>\<open>left\<close> is singular: some non-zero integer vector is mapped to zero.\<close>

definition singular :: "nat \<Rightarrow> (nat \<Rightarrow> nat \<Rightarrow> int) \<Rightarrow> bool" where
  "singular n L = (\<exists>x. (\<exists>k<n. x k \<noteq> 0) \<and> (\<forall>r<n. (\<Sum>k<n. L r k * x k) = 0))"

lemma sum_aug:
  "(\<Sum>k<n + p. z k * aug n L R k r) = (\<Sum>k<n. L r k * z k) + (\<Sum>j<p. R r j * z (n + j))"
  using sum_split_tail [of n "n + p" "\<lambda>k. z k * aug n L R k r"] by (simp add: aug_def mult.commute)

lemma inv_ok_singular:
  assumes ok: "inv_ok n p L0 R0 s" and sg: "singular n (ent (fst s))"
  shows "singular n L0"
proof -
  obtain x where x: "\<exists>k<n. x k \<noteq> 0" "\<And>r. r < n \<Longrightarrow> (\<Sum>k<n. ent (fst s) r k * x k) = 0"
    using sg by (auto simp: singular_def)
  define z where "z k = (if k < n then x k else 0)" for k
  have zx: "(\<Sum>k<n. L r k * z k) = (\<Sum>k<n. L r k * x k)" for L :: "nat \<Rightarrow> nat \<Rightarrow> int" and r
    by (intro sum.cong) (simp_all add: z_def)
  have "solves n p (ent (fst s)) (ent (snd s)) z"
    unfolding solves_def sum_aug zx using x(2) by (simp add: z_def)
  then have "solves n p L0 R0 z" using ok by (simp add: inv_ok_def)
  then have "\<forall>r<n. (\<Sum>k<n. L0 r k * x k) = 0"
    unfolding solves_def sum_aug zx by (simp add: z_def)
  with x(1) show ?thesis by (auto simp: singular_def)
qed

lemma inverse_row_correct:
  assumes ok: "inv_ok n p L0 R0 s" and d: "diag_cols r n (fst s)" and r: "r < n" and n: "n < 2 ^ 32"
  shows "(\<exists>s'. inverse_row r (Inr s) = Some (Inr s') \<and> inv_ok n p L0 R0 s' \<and> diag_cols (Suc r) n (fst s')) \<or>
    (\<exists>e. inverse_row r (Inr s) = Some (Inl e) \<and> singular n L0)"
proof -
  obtain L R where s: "s = (L, R)" by (cases s)
  have ok: "inv_ok n p L0 R0 (L, R)" and d: "diag_cols r n L" using ok d by (simp_all add: s)
  have dim: "mat_dim L n n" "mat_dim R n p" using ok by (simp_all add: inv_ok_def)
  have rows: "n_row L = n" "n \<le> length (mat_row L)" using dim by (auto simp: mat_dim_def mat_ok_def)
  have at: "drop r (mat_row L) ! i ! r = ent L (r + i) r" if "i < n - r" for i
    using that rows by (simp add: ent_def)
  show ?thesis
  proof (cases "row_abs_min_non_zero (drop r (mat_row L)) (n - r) r")
    case None
    then have "ent L (r + i) r = 0" if "i < n - r" for i
      using that at by (simp add: row_abs_min_non_zero_cases)
    then have "ent L k r = 0" if "r \<le> k" "k < n" for k
      using that by (metis diff_less_mono le_add_diff_inverse)
    then have "dependent n n (\<lambda>j k. ent L k j)"
      by (intro diag_rows_dependent [OF d [unfolded diag_cols_def] r])
    then have "singular n (ent (fst (L, R)))" by (auto simp: dependent_def singular_def mult.commute)
    then have "singular n L0" by (rule inv_ok_singular [OF ok])
    moreover have "inverse_row r (Inr s) = Some (isl_die isl_error_unknown)"
      using None rows by (simp add: inverse_row_def s)
    ultimately show ?thesis by (auto simp: isl_die_def)
  next
    case (Some off)
    define f where "f = off + r"
    have f: "r \<le> f" "f < n" "ent L f r \<noteq> 0"
      using row_abs_min_non_zero_cases(2) [OF Some] at [of off] by (auto simp: f_def add.commute)
    have "\<exists>s1. (if f \<noteq> r then inv_exchange L R f r else Inr (L, R)) = Inr s1 \<and> inv_ok n p L0 R0 s1 \<and>
      diag_cols r n (fst s1) \<and> ent (fst s1) r r \<noteq> 0"
    proof (cases "f = r")
      case True
      with ok d f show ?thesis by simp
    next
      case False
      obtain s1 where s1: "inv_exchange L R f r = Inr s1" and st: "row_step n p (cact (Swap f r)) (L, R) s1"
        using inv_exchange_step [OF dim f(2) r n] by blast
      have "inv_ok n p L0 R0 s1" by (rule row_step_ok [OF ok linear_op_cact st]) (use f r in auto)
      moreover have "diag_cols r n (fst s1)" by (rule row_step_diag [OF st]) (use d f r in auto)
      moreover have "ent (fst s1) r r \<noteq> 0" using st f r by (auto simp: row_step_def)
      ultimately show ?thesis using s1 False by auto
    qed
    then obtain L1 R1 where s1: "(if f \<noteq> r then inv_exchange L R f r else Inr (L, R)) = Inr (L1, R1)"
      and ok1: "inv_ok n p L0 R0 (L1, R1)" and d1: "diag_cols r n L1" and p1: "ent L1 r r \<noteq> 0" by auto
    define s2 where "s2 = (if ent L1 r r < 0 then inv_oppose L1 R1 r else (L1, R1))"
    have 2: "inv_ok n p L0 R0 s2 \<and> diag_cols r n (fst s2) \<and> 0 < ent (fst s2) r r"
    proof (cases "ent L1 r r < 0")
      case True
      have dim1: "mat_dim L1 n n" "mat_dim R1 n p" using ok1 by (simp_all add: inv_ok_def)
      have z: "ent L1 r k = 0" if "k < r" for k using diag_cols_zero [OF d1 that r] that by simp
      have st: "row_step n p (cact (Opp r)) (L1, R1) s2"
        using inv_oppose_step [OF dim1 r z] True by (simp add: s2_def)
      have "inv_ok n p L0 R0 s2" by (rule row_step_ok [OF ok1 linear_op_cact st]) (use r in auto)
      moreover have "diag_cols r n (fst s2)" by (rule row_step_diag [OF st]) (use d1 r in auto)
      moreover have "0 < ent (fst s2) r r" using st r True by (simp add: row_step_def)
      ultimately show ?thesis by blast
    qed (use ok1 d1 p1 in \<open>simp add: s2_def\<close>)
    obtain s3 where s3: "inv_clear r s2 = Some (Inr s3)" "inv_ok n p L0 R0 s3" "diag_cols r n (fst s3)"
      "0 < ent (fst s3) r r" "\<And>k. r < k \<Longrightarrow> k < n \<Longrightarrow> ent (fst s3) k r = 0"
      using inv_clear_correct [of n p L0 R0 s2 r] 2 r n by blast
    have 4: "inv_ok n p L0 R0 (for_range 0 r (inv_reduce r) s3) \<and>
      diag_cols (Suc r) n (fst (for_range 0 r (inv_reduce r) s3))"
      by (rule inv_reduce_loop [OF s3(2) r s3(3)]) (use s3 in auto)
    have "inverse_row r (Inr s) = Some (Inr (for_range 0 r (inv_reduce r) s3))"
      unfolding inverse_row_def s sum.case prod.case rows Some option.case Let_def f_def [symmetric] s1
        s2_def [symmetric] s3(1) by simp
    with 4 show ?thesis by blast
  qed
qed

lemma inverse_rows_run:
  assumes ok: "inv_ok n p L0 R0 s" and n: "n < 2 ^ 32"
  shows "\<exists>t. for_range_opt 0 n inverse_row (Inr s) = Some t \<and>
    ((\<exists>s'. t = Inr s' \<and> inv_ok n p L0 R0 s' \<and> diag_cols n n (fst s')) \<or> (\<exists>e. t = Inl e \<and> singular n L0))"
proof (rule for_range_opt_induct [where lo = 0 and hi = n and
      P = "\<lambda>r t. (\<exists>s'. t = Inr s' \<and> inv_ok n p L0 R0 s' \<and> diag_cols r n (fst s')) \<or>
        (\<exists>e. t = Inl e \<and> singular n L0)"])
  fix i and t :: "inv_state res"
  assume i: "0 \<le> i" "i < n" and
    P: "(\<exists>s'. t = Inr s' \<and> inv_ok n p L0 R0 s' \<and> diag_cols i n (fst s')) \<or> (\<exists>e. t = Inl e \<and> singular n L0)"
  from P show "\<exists>t'. inverse_row i t = Some t' \<and>
    ((\<exists>s'. t' = Inr s' \<and> inv_ok n p L0 R0 s' \<and> diag_cols (Suc i) n (fst s')) \<or>
      (\<exists>e. t' = Inl e \<and> singular n L0))"
  proof
    assume "\<exists>s'. t = Inr s' \<and> inv_ok n p L0 R0 s' \<and> diag_cols i n (fst s')"
    then obtain s' where t: "t = Inr s'" "inv_ok n p L0 R0 s'" "diag_cols i n (fst s')" by blast
    from inverse_row_correct [OF t(2,3) i(2) n] show ?thesis unfolding t(1) by blast
  next
    assume "\<exists>e. t = Inl e \<and> singular n L0"
    then show ?thesis by (auto simp: inverse_row_def)
  qed
qed (use ok in \<open>simp_all add: diag_cols_iff\<close>)

text \<open>The last loop divides on the diagonal and scales the rows of the result.\<close>

lemma inverse_finish_correct:
  assumes dim: "mat_dim L n n" "mat_dim R n p" and n: "0 < n" and d: "diag_cols n n L"
  shows "\<exists>X a. inverse_finish (L, R) = Inr X \<and> a \<noteq> 0 \<and> mat_dim X n p \<and> (\<forall>k<n. ent L k k dvd a) \<and>
    (\<forall>k<n. \<forall>j<p. ent X k j = ent R k j * (a div ent L k k))"
proof -
  let ?d = "\<lambda>k. ent L k k"
  have nz: "\<And>k. k < n \<Longrightarrow> ?d k \<noteq> 0" using d by (simp add: diag_cols_iff)
  define a where "a = for_range 1 n (\<lambda>row a. isl_int_lcm a (?d row)) (?d 0)"
  obtain n' where n': "n = Suc n'" using n by (cases n) auto
  have a: "\<And>k. k < n \<Longrightarrow> ?d k dvd a" "a \<noteq> 0"
    using lcm_loop [of n' ?d] nz unfolding n' a_def by auto
  have row: "n_row L = n" using dim(1) by (simp add: mat_dim_def)
  let ?body = "\<lambda>row (left, right).
    let left = left\<lparr>mat_row := set_ent (mat_row left) row row (isl_int_divexact a (ent left row row))\<rparr>
    in if ent left row row = 1 then (left, right)
       else (left, right\<lparr>mat_row := upd_row (mat_row right) row
         (\<lambda>p. isl_seq_scale p p (ent left row row) (n_col right))\<rparr>)"
  let ?P = "\<lambda>r s. mat_dim (fst s) n n \<and> mat_dim (snd s) n p \<and>
    (\<forall>k<n. r \<le> k \<longrightarrow> ent (fst s) k k = ?d k) \<and>
    (\<forall>k<n. \<forall>j<p. ent (snd s) k j = (if k < r then ent R k j * (a div ?d k) else ent R k j))"
  define F where "F = for_range 0 n ?body (L, R)"
  have P: "?P n F"
    unfolding F_def
  proof (rule for_range_induct [where P = ?P])
    fix r t assume r: "0 \<le> r" "r < n" and P: "?P r t"
    obtain lm W where t: "t = (lm, W)" by (cases t)
    let ?lm = "lm\<lparr>mat_row := set_ent (mat_row lm) r r (isl_int_divexact a (ent lm r r))\<rparr>"
    have dm: "mat_dim lm n n" and dW: "mat_dim W n p" using P by (simp_all add: t)
    have len: "n \<le> length (mat_row lm)" "\<And>k. k < n \<Longrightarrow> n \<le> length (mat_row lm ! k)"
      "n \<le> length (mat_row W)" "p \<le> length (mat_row W ! r)" "n_col W = p"
      using dm dW r by (auto simp: mat_dim_def mat_ok_def)
    have dm': "mat_dim ?lm n n" using dm by (auto simp: mat_dim_def mat_ok_def)
    have dd: "isl_int_divexact a (ent lm r r) = a div ?d r"
      using P r a(1) [OF r(2)] nz [OF r(2)] isl_int_divexact_eq [of "?d r" a] by (auto simp: t)
    have e: "ent ?lm k k = (if k = r then a div ?d r else ent lm k k)" if "k < n" for k
    proof -
      have "r < length (mat_row lm)" "r < length (mat_row lm ! r)"
        using len(1) len(2) [OF r(2)] r by simp_all
      then show ?thesis using dd by (simp add: ent_def set_ent_def nth_list_update)
    qed
    let ?W = "W\<lparr>mat_row := upd_row (mat_row W) r (\<lambda>q. isl_seq_scale q q (a div ?d r) p)\<rparr>"
    have body: "?body r t = (?lm, if a div ?d r = 1 then W else ?W)"
      using e [OF r(2)] len(5) by (simp add: t Let_def)
    have dW': "mat_dim ?W n p" using dW by (auto simp: mat_dim_def mat_ok_def length_nth_upd_row)
    have eW: "ent ?W k j = (if k = r then ent W k j * (a div ?d r) else ent W k j)" if "k < n" "j < p" for k j
      using len(3,4) that r by (auto simp: ent_def upd_row_def nth_list_update seq_write_nth)
    define t' where "t' = ?body r t"
    have t': "fst t' = ?lm" "mat_dim (snd t') n p" "\<And>k j. k < n \<Longrightarrow> j < p \<Longrightarrow>
        ent (snd t') k j = (if k = r then ent W k j * (a div ?d r) else ent W k j)"
      unfolding t'_def body using dW dW' eW by simp_all
    have "ent (fst t') k k = ?d k" if "k < n" "Suc r \<le> k" for k
      unfolding t' using e [OF that(1)] P that by (simp add: t)
    moreover have "ent (snd t') k j = (if k < Suc r then ent R k j * (a div ?d k) else ent R k j)"
      if "k < n" "j < p" for k j
      using t'(3) [OF that] P that by (auto simp: t less_Suc_eq)
    moreover have "mat_dim (fst t') n n" unfolding t' by (rule dm')
    ultimately show "?P (Suc r) (?body r t)" unfolding t'_def [symmetric] using t'(2) by simp
  qed (use dim in simp_all)
  have "isl_assert (a \<noteq> 0) k = k" for k :: "isl_mat res" using a(2) by (simp add: isl_assert_def)
  then have fin: "inverse_finish (L, R) = Inr (snd F)"
    unfolding inverse_finish_def prod.case row a_def [symmetric] F_def by (simp add: Let_def)
  show ?thesis
    by (intro exI [of _ "snd F"] exI [of _ a]) (use P fin a in simp)
qed

lemma isl_mat_inverse_product_run:
  assumes ok: "mat_ok L" "mat_ok R" and sq: "n_row L = n" "n_col L = n" "n_row R = n" and p: "n_col R = p"
    and n: "0 < n" "n < 2 ^ 32"
  shows "\<exists>t. isl_mat_inverse_product (Inr L) (Inr R) = Some t \<and>
    (case t of
       Inl _ \<Rightarrow> singular n (ent L)
     | Inr X \<Rightarrow> \<not> singular n (ent L) \<and> mat_dim X n p \<and> (\<exists>a. a \<noteq> 0 \<and>
         (\<forall>r<n. \<forall>c<p. (\<Sum>k<n. ent L r k * ent X k c) = a * ent R r c)))"
proof -
  have init: "inv_ok n p (ent L) (ent R) (L, R)"
    using ok sq p by (simp add: inv_ok_def mat_dim_def)
  obtain t where t: "for_range_opt 0 n inverse_row (Inr (L, R)) = Some t"
    and cases: "(\<exists>s'. t = Inr s' \<and> inv_ok n p (ent L) (ent R) s' \<and> diag_cols n n (fst s')) \<or>
      (\<exists>e. t = Inl e \<and> singular n (ent L))"
    using inverse_rows_run [OF init n(2)] by blast
  have run: "isl_mat_inverse_product (Inr L) (Inr R) = Some (res_bind t inverse_finish)"
    using sq n t by (simp add: isl_mat_inverse_product_def)
  from cases show ?thesis
  proof
    assume "\<exists>e. t = Inl e \<and> singular n (ent L)"
    then show ?thesis using run by auto
  next
    assume "\<exists>s'. t = Inr s' \<and> inv_ok n p (ent L) (ent R) s' \<and> diag_cols n n (fst s')"
    then obtain M W where tM: "t = Inr (M, W)" and okM: "inv_ok n p (ent L) (ent R) (M, W)"
      and d: "diag_cols n n M" by auto
    have dim: "mat_dim M n n" "mat_dim W n p"
      and sol: "\<And>z. solves n p (ent M) (ent W) z \<longleftrightarrow> solves n p (ent L) (ent R) z"
      using okM by (simp_all add: inv_ok_def)
    have Mdiag: "(\<Sum>k<n. ent M r k * x k) = ent M r r * x r" if "r < n" for r x
    proof -
      have "ent M r k * x k = (if k = r then ent M r r * x r else 0)" if "k < n" for k
        using d \<open>r < n\<close> that by (auto simp: diag_cols_iff)
      then have "(\<Sum>k<n. ent M r k * x k) = (\<Sum>k<n. if k = r then ent M r r * x r else 0)"
        by (intro sum.cong) auto
      with that show ?thesis by simp
    qed
    have nz: "ent M r r \<noteq> 0" if "r < n" for r using d that by (simp add: diag_cols_iff)
    from inverse_finish_correct [OF dim n(1) d] obtain X a where X: "inverse_finish (M, W) = Inr X" "a \<noteq> 0"
      "mat_dim X n p" "\<And>k. k < n \<Longrightarrow> ent M k k dvd a"
      "\<And>k j. k < n \<Longrightarrow> j < p \<Longrightarrow> ent X k j = ent W k j * (a div ent M k k)" by blast
    have prod: "(\<Sum>k<n. ent L r k * ent X k c) = a * ent R r c" if r: "r < n" and c: "c < p" for r c
    proof -
      define z where "z k = (if k < n then ent X k c else if k = n + c then - a else 0)" for k
      have res: "(\<Sum>k<n + p. z k * aug n A B k r) = (\<Sum>k<n. A r k * ent X k c) - a * B r c" for A B r
      proof -
        have "(\<Sum>k<n. A r k * z k) = (\<Sum>k<n. A r k * ent X k c)" by (intro sum.cong) (simp_all add: z_def)
        moreover have "(\<Sum>j<p. B r j * z (n + j)) = (\<Sum>j<p. if j = c then - a * B r c else 0)"
          by (intro sum.cong) (simp_all add: z_def)
        ultimately show ?thesis using c by (simp add: sum_aug)
      qed
      have "ent M r r * ent X r c = a * ent W r c" if "r < n" for r
        using X(4) [OF that] X(5) [OF that c] by (auto simp: mult.commute)
      then have "solves n p (ent M) (ent W) z" by (simp add: solves_def res Mdiag)
      then have "solves n p (ent L) (ent R) z" using sol by simp
      with r show ?thesis by (simp add: solves_def res)
    qed
    have "\<not> singular n (ent L)"
    proof
      assume "singular n (ent L)"
      then obtain x where x: "\<exists>k<n. x k \<noteq> 0" "\<And>r. r < n \<Longrightarrow> (\<Sum>k<n. ent L r k * x k) = 0"
        by (auto simp: singular_def)
      define z where "z k = (if k < n then x k else 0)" for k
      have zx: "(\<Sum>k<n. A r k * z k) = (\<Sum>k<n. A r k * x k)" for A :: "nat \<Rightarrow> nat \<Rightarrow> int" and r
        by (intro sum.cong) (simp_all add: z_def)
      have "solves n p (ent L) (ent R) z" unfolding solves_def sum_aug zx using x(2) by (simp add: z_def)
      then have "solves n p (ent M) (ent W) z" using sol by simp
      then have "ent M r r * x r = 0" if "r < n" for r
        using that by (simp add: solves_def sum_aug zx Mdiag z_def)
      with nz x(1) show False by auto
    qed
    then show ?thesis using run tM X prod by auto
  qed
qed

subsection \<open>Properties\<close>

text \<open>
  C14: \<open>isl_mat_inverse_product\<close> on a square matrix always returns; it fails exactly
  when the matrix is singular, and otherwise returns the solution of \<open>left * X = a * right\<close>
  for some non-zero factor \<open>a\<close>.
\<close>

theorem inverse_product_solves:
  assumes "mat_ok L" and "mat_ok R" and "n_row L = n" and "n_col L = n" and "n_row R = n" and "n_col R = p"
    and "0 < n" and "n < 2 ^ 32"
  shows "\<exists>t. isl_mat_inverse_product (Inr L) (Inr R) = Some t \<and>
    (case t of
       Inl _ \<Rightarrow> singular n (ent L)
     | Inr X \<Rightarrow> \<not> singular n (ent L) \<and> mat_dim X n p \<and> (\<exists>a. a \<noteq> 0 \<and>
         (\<forall>r<n. \<forall>c<p. (\<Sum>k<n. ent L r k * ent X k c) = a * ent R r c)))"
  using assms by (rule isl_mat_inverse_product_run)

definition inverse_left :: isl_mat where
  "inverse_left = mk_mat 2 2 (\<lambda>i j. [[0, 3], [2, 5 :: int]] ! i ! j)"

definition inverse_right :: isl_mat where
  "inverse_right = mk_mat 2 1 (\<lambda>i j. [[6], [4 :: int]] ! i ! j)"

theorem inverse_product_solves_witness:
  "\<exists>t. isl_mat_inverse_product (Inr inverse_left) (Inr inverse_right) = Some t \<and>
    (case t of
       Inl _ \<Rightarrow> singular 2 (ent inverse_left)
     | Inr X \<Rightarrow> \<not> singular 2 (ent inverse_left) \<and> mat_dim X 2 1 \<and> (\<exists>a. a \<noteq> 0 \<and>
         (\<forall>r<2. \<forall>c<1. (\<Sum>k<2. ent inverse_left r k * ent X k c) = a * ent inverse_right r c)))"
  by (rule inverse_product_solves) (simp_all add: inverse_left_def inverse_right_def)

text \<open>
  C22: \<open>isl_mat_right_inverse\<close> on a matrix with at least one row always returns: with a
  matrix whose product with the argument is a non-zero multiple of the identity,
  continued by zero columns, or with failure when the rows are linearly dependent.
\<close>

theorem right_inverse_inverts:
  assumes "mat_ok A" and "0 < n_row A" and "n_col A < 2 ^ 32"
  shows "\<exists>t. isl_mat_right_inverse junk (Inr A) = Some t \<and>
    (case t of
       Inl _ \<Rightarrow> dependent (n_row A) (n_col A) (ent A)
     | Inr V \<Rightarrow> mat_dim V (n_col A) (n_col A) \<and> (\<exists>a. a \<noteq> 0 \<and>
         (\<forall>r<n_row A. \<forall>j<n_col A. (\<Sum>k<n_col A. ent A r k * ent V k j) = (if j = r then a else 0))))"
  using assms by (rule isl_mat_right_inverse_run)

theorem right_inverse_inverts_witness:
  "\<exists>t. isl_mat_right_inverse (\<lambda>_. 7) (Inr hermite_input) = Some t \<and>
    (case t of
       Inl _ \<Rightarrow> dependent (n_row hermite_input) (n_col hermite_input) (ent hermite_input)
     | Inr V \<Rightarrow> mat_dim V (n_col hermite_input) (n_col hermite_input) \<and> (\<exists>a. a \<noteq> 0 \<and>
         (\<forall>r<n_row hermite_input. \<forall>j<n_col hermite_input.
            (\<Sum>k<n_col hermite_input. ent hermite_input r k * ent V k j) = (if j = r then a else 0))))"
  by (rule right_inverse_inverts) (simp_all add: hermite_input_def)

end
