(* ===== verification/Mat_Gauss.thy ===== *)
theory Mat_Gauss imports Mat_Inverse begin

text \<open>
  Gaussian elimination on the rows of a matrix, from the last row and the last column
  (isl_mat.c): \<open>eliminate\<close>, \<open>isl_mat_reverse_gauss\<close> and what is built on it.
\<close>

subsection \<open>Elimination\<close>

definition eliminate :: "isl_mat \<Rightarrow> nat \<Rightarrow> nat \<Rightarrow> isl_mat" where
  "eliminate mat row col = mat\<lparr>mat_row := for_range 0 (n_row mat) (\<lambda>k rs.
     if k = row then rs
     else if rs ! k ! col = 0 then rs
     else upd_row rs k (\<lambda>p. isl_seq_normalize (fst (isl_seq_elim p (rs ! row) col (n_col mat) None)) (n_col mat)))
     (mat_row mat)\<rparr>"

text \<open>
  The search for the next pivot, with \<open>last + 1\<close> as a natural number: the last column
  up to \<open>last\<close> with a non-zero entry in the rows up to \<open>row\<close>, and the last such row.
\<close>

fun gauss_search :: "isl_int list list \<Rightarrow> nat \<Rightarrow> nat \<Rightarrow> (nat \<times> nat) option" where
  "gauss_search rs row 0 = None"
| "gauss_search rs row (Suc lst) =
     (case List.find (\<lambda>k. rs ! k ! lst \<noteq> 0) (rev [0..<Suc row]) of
        Some k \<Rightarrow> Some (lst, k)
      | None \<Rightarrow> gauss_search rs row lst)"

text \<open>The loop over the rows, with \<open>row + 1\<close>; the result has the value of \<open>row + 1\<close> at its end.\<close>

fun gauss_loop :: "isl_mat \<Rightarrow> nat \<Rightarrow> nat \<Rightarrow> isl_mat res \<times> nat" where
  "gauss_loop mat 0 last1 = (Inr mat, 0)"
| "gauss_loop mat (Suc row) last1 =
     (case gauss_search (mat_row mat) row last1 of
        None \<Rightarrow> (Inr mat, Suc row)
      | Some (lst, k) \<Rightarrow>
          (case (if k \<noteq> row then isl_mat_swap_rows (Inr mat) k row else Inr mat) of
             Inl e \<Rightarrow> (Inl e, 0)
           | Inr mat \<Rightarrow>
               (case (if ent mat row lst < 0 then isl_mat_row_neg (Inr mat) (int row) else Inr mat) of
                  Inl e \<Rightarrow> (Inl e, 0)
                | Inr mat \<Rightarrow> gauss_loop (eliminate mat row lst) row (Suc lst))))"

definition isl_mat_reverse_gauss :: "isl_mat res \<Rightarrow> isl_mat res" where
  "isl_mat_reverse_gauss mat = take1 mat (\<lambda>mat.
     let (mat, n) = gauss_loop mat (n_row mat) (n_col mat)
     in isl_mat_drop_rows mat 0 n)"

definition isl_mat_lexnonneg_rows :: "isl_mat res \<Rightarrow> isl_mat res" where
  "isl_mat_lexnonneg_rows mat = take1 mat (\<lambda>m.
     for_range 0 (n_row m) (\<lambda>i mat. res_bind mat (\<lambda>mat.
       case isl_seq_first_non_zero (mat_row mat ! i) (n_col m) of
         None \<Rightarrow> Inr mat
       | Some pos \<Rightarrow> if 0 \<le> ent mat i pos then Inr mat else isl_mat_row_neg (Inr mat) (int i))) (Inr m))"

definition isl_mat_row_basis :: "isl_mat res \<Rightarrow> isl_mat res" where
  "isl_mat_row_basis mat = isl_mat_reverse_gauss mat"

subsection \<open>One elimination\<close>

lemma elim_normalize_nth:
  assumes len: "n \<le> length p" and l: "l < n" and pv: "0 < src ! l" and d: "p ! l \<noteq> 0"
  defines "q \<equiv> isl_seq_normalize (fst (isl_seq_elim p src l n None)) n"
  shows "length q = length p" and "\<exists>h>0. \<forall>j<n. h * q ! j = src ! l * p ! j - p ! l * src ! j"
proof -
  let ?e = "fst (isl_seq_elim p src l n None)"
  let ?g = "gcd (src ! l) (p ! l)" and ?G = "isl_seq_gcd ?e n"
  show "length q = length p" by (simp add: q_def)
  have e: "?g * ?e ! j = src ! l * p ! j - p ! l * src ! j" if "j < n" for j
    using isl_seq_elim_nth(1) [where len = n and dst = p and pos = l and src = src and m = None, OF len that d] pv
    by simp
  have G: "?G * q ! j = ?e ! j" if "j < n" for j
    unfolding q_def using that len by (intro isl_seq_normalize_nth(1)) simp_all
  have g: "0 < ?g" using d by simp
  have G0: "0 \<le> ?G" using len by (simp add: isl_seq_gcd_Gcd)
  show "\<exists>h>0. \<forall>j<n. h * q ! j = src ! l * p ! j - p ! l * src ! j"
  proof (cases "?G = 0")
    case True
    then have "q = ?e" by (simp add: q_def isl_seq_normalize_def Let_def)
    then show ?thesis by (intro exI [of _ ?g]) (use e g in blast)
  next
    case False
    have "?g * ?G * q ! j = src ! l * p ! j - p ! l * src ! j" if "j < n" for j
      using e [OF that] G [OF that] by (simp add: mult.assoc)
    moreover have "0 < ?G" using G0 False by linarith
    with g have "0 < ?g * ?G" by (rule mult_pos_pos)
    ultimately show ?thesis by blast
  qed
qed

text \<open>The effect on the matrix: every other row is replaced by a positive combination.\<close>

definition eliminated :: "nat \<Rightarrow> nat \<Rightarrow> nat \<Rightarrow> nat \<Rightarrow> (nat \<Rightarrow> nat \<Rightarrow> int) \<Rightarrow> (nat \<Rightarrow> nat \<Rightarrow> int) \<Rightarrow> bool" where
  "eliminated m n row l M M' = ((\<forall>j<n. M' row j = M row j) \<and>
     (\<forall>k<m. k \<noteq> row \<longrightarrow> (\<exists>h>0. \<forall>j<n. h * M' k j = M row l * M k j - M k l * M row j)))"

lemma eliminate_eliminated:
  assumes dim: "mat_dim M m n" and r: "row < m" and l: "l < n" and pv: "0 < ent M row l"
  shows "mat_dim (eliminate M row l) m n \<and> eliminated m n row l (ent M) (ent (eliminate M row l))"
proof -
  have len: "m \<le> length (mat_row M)" "\<And>k. k < m \<Longrightarrow> n \<le> length (mat_row M ! k)" "n_row M = m" "n_col M = n"
    using dim by (auto simp: mat_dim_def mat_ok_def)
  let ?q = "\<lambda>p. isl_seq_normalize (fst (isl_seq_elim p (mat_row M ! row) l n None)) n"
  let ?new = "\<lambda>k. if k = row \<or> mat_row M ! k ! l = 0 then mat_row M ! k else ?q (mat_row M ! k)"
  let ?body = "\<lambda>k rs. if k = row then rs else if rs ! k ! l = 0 then rs
    else upd_row rs k (\<lambda>p. isl_seq_normalize (fst (isl_seq_elim p (rs ! row) l n None)) n)"
  let ?P = "\<lambda>i rs. length rs = length (mat_row M) \<and>
    (\<forall>k<m. rs ! k = (if k < i then ?new k else mat_row M ! k))"
  have "?P m (for_range 0 m ?body (mat_row M))"
  proof (rule for_range_induct [where P = ?P])
    fix i rs assume i: "0 \<le> i" "i < m" and P: "?P i rs"
    have ri: "rs ! i = mat_row M ! i" using P i by simp
    have rr: "rs ! row = mat_row M ! row" using P r by simp
    have il: "i < length rs" using P len(1) i by simp
    show "?P (Suc i) (?body i rs)"
    proof (cases "i = row \<or> mat_row M ! i ! l = 0")
      case True
      with P ri show ?thesis by (auto simp: less_Suc_eq)
    next
      case False
      then have "?body i rs = upd_row rs i ?q" using ri rr by simp
      with P ri il False show ?thesis by (auto simp: less_Suc_eq upd_row_def nth_list_update)
    qed
  qed simp_all
  moreover have "mat_row (eliminate M row l) = for_range 0 m ?body (mat_row M)"
    unfolding eliminate_def len(3,4) by simp
  ultimately have rs: "length (mat_row (eliminate M row l)) = length (mat_row M)"
    "\<And>k. k < m \<Longrightarrow> mat_row (eliminate M row l) ! k = ?new k"
    by simp_all
  have "mat_dim (eliminate M row l) m n"
    using dim rs len elim_normalize_nth(1) [OF len(2) l pv [unfolded ent_def]]
    by (auto simp: mat_dim_def mat_ok_def eliminate_def)
  moreover have "eliminated m n row l (ent M) (ent (eliminate M row l))"
    unfolding eliminated_def
  proof (intro conjI allI impI)
    show "ent (eliminate M row l) row j = ent M row j" if "j < n" for j
      using rs(2) [OF r] by (simp add: ent_def)
    show "\<exists>h>0. \<forall>j<n. h * ent (eliminate M row l) k j = ent M row l * ent M k j - ent M k l * ent M row j"
      if k: "k < m" "k \<noteq> row" for k
    proof (cases "mat_row M ! k ! l = 0")
      case True
      with rs(2) [OF k(1)] k(2) pv show ?thesis by (auto simp: ent_def)
    next
      case False
      from elim_normalize_nth(2) [OF len(2) [OF k(1)] l pv [unfolded ent_def] False] rs(2) [OF k(1)] k(2) False
      show ?thesis by (simp add: ent_def)
    qed
  qed
  ultimately show ?thesis ..
qed

subsection \<open>Row echelon form from the end\<close>

definition row_kernel :: "nat \<Rightarrow> nat \<Rightarrow> (nat \<Rightarrow> nat \<Rightarrow> int) \<Rightarrow> (nat \<Rightarrow> int) \<Rightarrow> bool" where
  "row_kernel m n M x = (\<forall>r<m. (\<Sum>k<n. M r k * x k) = 0)"

lemma row_kernel_eliminated:
  assumes e: "eliminated m n row l M M'" and r: "row < m" and pv: "0 < M row l"
  shows "row_kernel m n M' x \<longleftrightarrow> row_kernel m n M x"
proof -
  have row: "(\<Sum>k<n. M' row k * x k) = (\<Sum>k<n. M row k * x k)"
    using e by (simp add: eliminated_def)
  have other: "\<exists>h>0. h * (\<Sum>k<n. M' i k * x k) = M row l * (\<Sum>k<n. M i k * x k) - M i l * (\<Sum>k<n. M row k * x k)"
    if i: "i < m" "i \<noteq> row" for i
  proof -
    obtain h where h: "h > 0" "\<And>j. j < n \<Longrightarrow> h * M' i j = M row l * M i j - M i l * M row j"
      using e i by (auto simp: eliminated_def)
    have "h * (\<Sum>k<n. M' i k * x k) = (\<Sum>k<n. (h * M' i k) * x k)" by (simp add: sum_distrib_left mult.assoc)
    also have "\<dots> = (\<Sum>k<n. M row l * (M i k * x k) - M i l * (M row k * x k))"
      by (intro sum.cong) (simp_all add: h(2) left_diff_distrib mult.assoc)
    finally show ?thesis using h(1) by (auto simp: sum_subtractf sum_distrib_left)
  qed
  show ?thesis
    unfolding row_kernel_def
  proof (intro iffI allI impI)
    fix i assume k: "\<forall>r<m. (\<Sum>k<n. M' r k * x k) = 0" and i: "i < m"
    show "(\<Sum>k<n. M i k * x k) = 0"
      using other [OF i] k i r row pv by (cases "i = row") auto
  next
    fix i assume k: "\<forall>r<m. (\<Sum>k<n. M r k * x k) = 0" and i: "i < m"
    show "(\<Sum>k<n. M' i k * x k) = 0"
      using other [OF i] k i r row by (cases "i = row") auto
  qed
qed

text \<open>
  The rows from \<open>k\<close> on are in form: row \<open>i\<close> ends with a positive pivot in column
  \<open>q i\<close>, the only entry of that column, and the pivots move to the right; the rows
  before are zero from column \<open>c\<close> on, where the pivots are.
\<close>

definition gauss_form ::
  "nat \<Rightarrow> nat \<Rightarrow> nat \<Rightarrow> nat \<Rightarrow> (nat \<Rightarrow> nat) \<Rightarrow> (nat \<Rightarrow> nat \<Rightarrow> int) \<Rightarrow> bool" where
  "gauss_form m n k c q M =
     ((\<forall>i<k. \<forall>j<n. c \<le> j \<longrightarrow> M i j = 0) \<and>
      (\<forall>i. k \<le> i \<and> i < m \<longrightarrow> c \<le> q i \<and> q i < n \<and> 0 < M i (q i) \<and> (\<forall>j<n. q i < j \<longrightarrow> M i j = 0) \<and>
         (\<forall>r<m. r \<noteq> i \<longrightarrow> M r (q i) = 0)) \<and>
      (\<forall>i i'. k \<le> i \<and> i < i' \<and> i' < m \<longrightarrow> q i < q i'))"

lemma gauss_formD:
  assumes "gauss_form m n k c q M"
  shows "i < k \<Longrightarrow> j < n \<Longrightarrow> c \<le> j \<Longrightarrow> M i j = 0"
    and "k \<le> i \<Longrightarrow> i < m \<Longrightarrow> c \<le> q i" and "k \<le> i \<Longrightarrow> i < m \<Longrightarrow> q i < n"
    and "k \<le> i \<Longrightarrow> i < m \<Longrightarrow> 0 < M i (q i)"
    and "k \<le> i \<Longrightarrow> i < m \<Longrightarrow> j < n \<Longrightarrow> q i < j \<Longrightarrow> M i j = 0"
    and "k \<le> i \<Longrightarrow> i < m \<Longrightarrow> r < m \<Longrightarrow> r \<noteq> i \<Longrightarrow> M r (q i) = 0"
    and "k \<le> i \<Longrightarrow> i < i' \<Longrightarrow> i' < m \<Longrightarrow> q i < q i'"
  using assms unfolding gauss_form_def by blast+

text \<open>Rows before \<open>k\<close> may be exchanged or negated.\<close>

lemma gauss_form_permute:
  assumes gf: "gauss_form m n k c q M" and km: "k \<le> m"
    and same: "\<And>i j. k \<le> i \<Longrightarrow> i < m \<Longrightarrow> j < n \<Longrightarrow> M' i j = M i j"
    and perm: "\<And>i. i < k \<Longrightarrow> \<exists>i'<k. (\<forall>j<n. M i' j = 0 \<longrightarrow> M' i j = 0)"
  shows "gauss_form m n k c q M'"
  unfolding gauss_form_def
proof (intro conjI allI impI)
  note D = gauss_formD [OF gf]
  show "M' i j = 0" if i: "i < k" and j: "j < n" and c: "c \<le> j" for i j
    using perm [OF i] D(1) [OF _ j c] j by blast
  fix i assume i: "k \<le> i \<and> i < m"
  then have qn: "q i < n" using D(3) by simp
  show "c \<le> q i" "q i < n" using i D(2,3) by simp_all
  show "0 < M' i (q i)" using i same qn D(4) by simp
  show "M' i j = 0" if "j < n" "q i < j" for j using i that same D(5) by simp
  show "M' r (q i) = 0" if "r < m" "r \<noteq> i" for r
  proof (cases "k \<le> r")
    case True
    then show ?thesis using same [of r "q i"] that qn D(6) [of i r] i by simp
  next
    case False
    then obtain i' where i': "i' < k" "M i' (q i) = 0 \<longrightarrow> M' r (q i) = 0" using perm [of r] qn by auto
    have "M i' (q i) = 0" by (rule D(6)) (use i i' km in auto)
    with i' show ?thesis by simp
  qed
next
  show "q i < q i'" if "k \<le> i \<and> i < i' \<and> i' < m" for i i' using that gauss_formD(7) [OF gf] by simp
qed

lemma gauss_form_eliminated:
  assumes gf: "gauss_form m n (Suc row) c q M" and r: "row < m" and l: "l < c" "l < n"
    and pv: "0 < M row l" and z: "\<And>i j. i \<le> row \<Longrightarrow> j < n \<Longrightarrow> l < j \<Longrightarrow> M i j = 0"
    and e: "eliminated m n row l M M'"
  shows "gauss_form m n row l (q(row := l)) M'"
proof -
  note D = gauss_formD [OF gf]
  have row: "M' row j = M row j" if "j < n" for j using e that by (simp add: eliminated_def)
  have comb: "\<exists>h>0. \<forall>j<n. h * M' k j = M row l * M k j - M k l * M row j" if "k < m" "k \<noteq> row" for k
    using e that by (simp add: eliminated_def)
  have zero: "M' k j = 0" if "k < m" "k \<noteq> row" "j < n" "M k j = 0" "M row j = 0" for k j
    using comb [OF that(1,2)] that by force
  have col: "M' k l = 0" if "k < m" "k \<noteq> row" for k
    using comb [OF that] l(2) by (force simp: mult.commute)
  have pos: "0 < M' k j" if a: "k < m" "k \<noteq> row" "j < n" "0 < M k j" "M row j = 0" for k j
  proof -
    obtain h where h: "h > 0" "h * M' k j = M row l * M k j" using comb [OF a(1,2)] a(3-5) by force
    then have "0 < h * M' k j" using pv a by simp
    with h(1) show ?thesis by (simp add: zero_less_mult_iff)
  qed
  have qrow: "M row (q i) = 0" if "Suc row \<le> i" "i < m" for i
    by (rule D(1)) (use that D(2,3) in auto)
  show ?thesis
    unfolding gauss_form_def
  proof (intro conjI allI impI)
    show "M' i j = 0" if "i < row" "j < n" "l \<le> j" for i j
      using that z [of i j] z [of row j] zero [of i j] col [of i] r by (cases "j = l") auto
    fix i assume i: "row \<le> i \<and> i < m"
    show "l \<le> (q(row := l)) i" "(q(row := l)) i < n" using i l D(2,3) [of i] by (auto intro: less_imp_le less_le_trans)
    show "0 < M' i ((q(row := l)) i)"
      using i row pv l pos [of i "q i"] D(3,4) [of i] qrow [of i] by (cases "i = row") auto
    show "M' i j = 0" if "j < n" "(q(row := l)) i < j" for j
    proof (cases "i = row")
      case True
      with that row z [of row j] show ?thesis by simp
    next
      case False
      then have "l < j" using that i l D(2) [of i] by simp
      with False that i zero [of i j] D(5) [of i j] z [of row j] show ?thesis by simp
    qed
    show "M' r' ((q(row := l)) i) = 0" if "r' < m" "r' \<noteq> i" for r'
    proof (cases "i = row")
      case True
      with that col show ?thesis by simp
    next
      case False
      then have "M' r' (q i) = 0"
        using that i row qrow [of i] zero [of r' "q i"] D(3) [of i] D(6) [of i r'] by (cases "r' = row") auto
      with False show ?thesis by simp
    qed
  next
    show "(q(row := l)) i < (q(row := l)) i'" if "row \<le> i \<and> i < i' \<and> i' < m" for i i'
      using that l D(2) [of i'] D(7) [of i i'] by (cases "i = row") auto
  qed
qed

lemma find_down_iff:
  "List.find P (rev [0..<Suc row]) = None \<longleftrightarrow> (\<forall>k\<le>row. \<not> P k)"
  "List.find P (rev [0..<Suc row]) = Some k \<Longrightarrow> k \<le> row \<and> P k"
proof -
  show "List.find P (rev [0..<Suc row]) = None \<longleftrightarrow> (\<forall>k\<le>row. \<not> P k)"
    unfolding find_None_iff set_rev set_upt by auto
  show "k \<le> row \<and> P k" if f: "List.find P (rev [0..<Suc row]) = Some k"
  proof -
    have "k \<in> set (rev [0..<Suc row])" "P k"
      using f unfolding find_Some_iff by (metis nth_mem)+
    then show ?thesis unfolding set_rev set_upt by simp
  qed
qed

lemma gauss_search_None:
  "gauss_search rs row l1 = None \<longleftrightarrow> (\<forall>j<l1. \<forall>k\<le>row. rs ! k ! j = 0)"
proof (induction l1)
  case (Suc n)
  show ?case
  proof (cases "List.find (\<lambda>k. rs ! k ! n \<noteq> 0) (rev [0..<Suc row])")
    case None
    with find_down_iff(1) [of "\<lambda>k. rs ! k ! n \<noteq> 0" row] Suc show ?thesis
      by (auto simp: less_Suc_eq simp del: upt_Suc)
  next
    case (Some k)
    with find_down_iff(2) [OF Some] show ?thesis by (auto simp: less_Suc_eq simp del: upt_Suc)
  qed
qed simp

lemma gauss_search_Some:
  assumes "gauss_search rs row l1 = Some (l, k)"
  shows "l < l1" and "k \<le> row" and "rs ! k ! l \<noteq> 0" and "\<And>i j. i \<le> row \<Longrightarrow> l < j \<Longrightarrow> j < l1 \<Longrightarrow> rs ! i ! j = 0"
proof -
  have "l < l1 \<and> k \<le> row \<and> rs ! k ! l \<noteq> 0 \<and> (\<forall>i j. i \<le> row \<longrightarrow> l < j \<longrightarrow> j < l1 \<longrightarrow> rs ! i ! j = 0)"
    using assms
  proof (induction l1)
    case (Suc n)
    show ?case
    proof (cases "List.find (\<lambda>k. rs ! k ! n \<noteq> 0) (rev [0..<Suc row])")
      case None
      with Suc.prems Suc.IH have "l < n \<and> k \<le> row \<and> rs ! k ! l \<noteq> 0 \<and> (\<forall>i j. i \<le> row \<longrightarrow> l < j \<longrightarrow> j < n \<longrightarrow> rs ! i ! j = 0)"
        by (simp del: upt_Suc)
      moreover have "\<forall>k\<le>row. rs ! k ! n = 0" using None unfolding find_down_iff(1) by simp
      ultimately show ?thesis by (auto simp: less_Suc_eq)
    next
      case (Some k')
      with Suc.prems find_down_iff(2) [OF Some] show ?thesis by (auto simp del: upt_Suc)
    qed
  qed simp
  then show "l < l1" "k \<le> row" "rs ! k ! l \<noteq> 0" "\<And>i j. i \<le> row \<Longrightarrow> l < j \<Longrightarrow> j < l1 \<Longrightarrow> rs ! i ! j = 0"
    by blast+
qed

lemma row_kernel_permute:
  assumes "\<And>i. i < m \<Longrightarrow> \<exists>i'<m. (\<forall>j<n. M' i j = M i' j) \<or> (\<forall>j<n. M' i j = - M i' j)"
    and "\<And>i. i < m \<Longrightarrow> \<exists>i'<m. (\<forall>j<n. M i j = M' i' j) \<or> (\<forall>j<n. M i j = - M' i' j)"
  shows "row_kernel m n M' x \<longleftrightarrow> row_kernel m n M x"
proof -
  have "row_kernel m n B x"
    if p: "\<And>i. i < m \<Longrightarrow> \<exists>i'<m. (\<forall>j<n. B i j = A i' j) \<or> (\<forall>j<n. B i j = - A i' j)" and k: "row_kernel m n A x"
    for A B :: "nat \<Rightarrow> nat \<Rightarrow> int"
    unfolding row_kernel_def
  proof (intro allI impI)
    fix i assume "i < m"
    from p [OF this] obtain i' where "i' < m"
      and "(\<forall>j<n. B i j = A i' j) \<or> (\<forall>j<n. B i j = - A i' j)" by blast
    with k show "(\<Sum>k<n. B i k * x k) = 0" by (auto simp: row_kernel_def sum_negf)
  qed
  with assms show ?thesis by blast
qed

text \<open>The pivot row is moved to its place and made positive.\<close>

lemma gauss_pivot:
  assumes dim: "mat_dim M m n" and m: "m < 2 ^ 32" and r: "row < m" and k: "k \<le> row" and l: "l < n"
    and nz: "ent M k l \<noteq> 0" and gf: "gauss_form m n (Suc row) c q (ent M)"
    and z: "\<And>i j. i \<le> row \<Longrightarrow> j < n \<Longrightarrow> l < j \<Longrightarrow> ent M i j = 0"
  defines "s1 \<equiv> (if k \<noteq> row then isl_mat_swap_rows (Inr M) k row else Inr M)"
  shows "\<exists>M1. s1 = Inr M1 \<and> (\<exists>M2. (if ent M1 row l < 0 then isl_mat_row_neg (Inr M1) (int row) else Inr M1) = Inr M2 \<and>
    mat_dim M2 m n \<and> 0 < ent M2 row l \<and> gauss_form m n (Suc row) c q (ent M2) \<and>
    (\<forall>i\<le>row. \<forall>j<n. l < j \<longrightarrow> ent M2 i j = 0) \<and> (\<forall>x. row_kernel m n (ent M2) x \<longleftrightarrow> row_kernel m n (ent M) x))"
proof -
  have M: "mat_ok M" "n_row M = m" "n_col M = n" using dim by (simp_all add: mat_dim_def)
  have km: "k < m" using k r by simp
  have "\<exists>M1. s1 = Inr M1 \<and> mat_dim M1 m n \<and>
    (\<forall>i j. ent M1 i j = (if i = k then ent M row j else if i = row then ent M k j else ent M i j))"
  proof (cases "k = row")
    case True
    with dim show ?thesis by (auto simp: s1_def)
  next
    case False
    have h: "k < n_row M" "row < n_row M" "n_row M < 2 ^ 32" using M km r m by simp_all
    from isl_mat_swap_rows_ent [OF M(1) h] False M show ?thesis by (auto simp: s1_def mat_dim_def)
  qed
  then obtain M1 where s1: "s1 = Inr M1" and dim1: "mat_dim M1 m n"
    and e1: "\<And>i j. ent M1 i j = (if i = k then ent M row j else if i = row then ent M k j else ent M i j)" by blast
  have p1: "ent M1 row l \<noteq> 0" using nz by (simp add: e1)
  have "\<exists>M2. (if ent M1 row l < 0 then isl_mat_row_neg (Inr M1) (int row) else Inr M1) = Inr M2 \<and> mat_dim M2 m n \<and>
    (\<forall>i<m. \<forall>j<n. ent M2 i j = (if i = row \<and> ent M1 row l < 0 then - ent M1 i j else ent M1 i j))"
  proof (cases "ent M1 row l < 0")
    case True
    have h: "mat_ok M1" "row < n_row M1" using dim1 r by (simp_all add: mat_dim_def)
    from isl_mat_row_neg_ent [OF h] True dim1 show ?thesis by (auto simp: mat_dim_def)
  qed (use dim1 in auto)
  then obtain M2 where s2: "(if ent M1 row l < 0 then isl_mat_row_neg (Inr M1) (int row) else Inr M1) = Inr M2"
    and dim2: "mat_dim M2 m n"
    and e2: "\<And>i j. i < m \<Longrightarrow> j < n \<Longrightarrow> ent M2 i j = (if i = row \<and> ent M1 row l < 0 then - ent M1 i j else ent M1 i j)"
    by blast
  let ?p = "\<lambda>i. if i = k then row else if i = row then k else i"
  have e: "(\<forall>j<n. ent M2 i j = ent M (?p i) j) \<or> (\<forall>j<n. ent M2 i j = - ent M (?p i) j)" if "i < m" for i
    using e2 [OF that] e1 by (cases "i = row \<and> ent M1 row l < 0") auto
  have e': "(\<forall>j<n. ent M i j = ent M2 (?p i) j) \<or> (\<forall>j<n. ent M i j = - ent M2 (?p i) j)" if "i < m" for i
  proof -
    have pm: "?p i < m" using that km r by simp
    have pp: "?p (?p i) = i" by simp
    from e [OF pm] show ?thesis unfolding pp by auto
  qed
  have pos: "0 < ent M2 row l" using p1 e2 [OF r l] by auto
  have gf2: "gauss_form m n (Suc row) c q (ent M2)"
  proof (rule gauss_form_permute [OF gf])
    show "ent M2 i j = ent M i j" if "Suc row \<le> i" "i < m" "j < n" for i j
      using e2 [OF that(2,3)] e1 k that by auto
    show "\<exists>i'<Suc row. \<forall>j<n. ent M i' j = 0 \<longrightarrow> ent M2 i j = 0" if "i < Suc row" for i
      using e [of i] that r k by (intro exI [of _ "?p i"]) auto
  qed (use r in simp)
  have z2: "ent M2 i j = 0" if "i \<le> row" "j < n" "l < j" for i j
    using e [of i] z [of "?p i" j] that r k by (auto split: if_splits)
  have "row_kernel m n (ent M2) x \<longleftrightarrow> row_kernel m n (ent M) x" for x
  proof (rule row_kernel_permute)
    fix i assume i: "i < m"
    have pm: "?p i < m" using i km r by simp
    from e [OF i] pm show "\<exists>i'<m. (\<forall>j<n. ent M2 i j = ent M i' j) \<or> (\<forall>j<n. ent M2 i j = - ent M i' j)" by blast
    from e' [OF i] pm show "\<exists>i'<m. (\<forall>j<n. ent M i j = ent M2 i' j) \<or> (\<forall>j<n. ent M i j = - ent M2 i' j)" by blast
  qed
  with s1 s2 dim2 pos gf2 z2 show ?thesis by blast
qed

lemma gauss_loop_correct:
  assumes "mat_dim M m n" and "m < 2 ^ 32" and "k \<le> m" and "gauss_form m n k c q (ent M)" and "c \<le> l1" and "l1 \<le> n"
  shows "\<exists>M' k' c' q'. gauss_loop M k l1 = (Inr M', k') \<and> mat_dim M' m n \<and> k' \<le> m \<and> gauss_form m n k' c' q' (ent M') \<and>
    (\<forall>i<k'. \<forall>j<n. ent M' i j = 0) \<and> (\<forall>x. row_kernel m n (ent M') x \<longleftrightarrow> row_kernel m n (ent M) x)"
  using assms
proof (induction k arbitrary: M c q l1)
  case 0
  then show ?case by (intro exI [of _ M] exI [of _ "0::nat"] exI [of _ c] exI [of _ q]) simp
next
  case (Suc row)
  note dim = Suc.prems(1) and m = Suc.prems(2) and gf = Suc.prems(4)
  have r: "row < m" using Suc.prems(3) by simp
  note D = gauss_formD [OF gf]
  have high: "ent M i j = 0" if "i \<le> row" "j < n" "l1 \<le> j" for i j
    using D(1) [of i j] that Suc.prems(5) by simp
  show ?case
  proof (cases "gauss_search (mat_row M) row l1")
    case None
    then have z: "ent M i j = 0" if "i < Suc row" "j < n" for i j
      using that high [of i j] by (cases "j < l1") (auto simp: gauss_search_None ent_def)
    show ?thesis
      by (intro exI [of _ M] exI [of _ "Suc row"] exI [of _ c] exI [of _ q]) (use None dim r gf z in auto)
  next
    case (Some lk)
    obtain l k where lk: "lk = (l, k)" by (cases lk)
    note S = gauss_search_Some [OF Some [unfolded lk]]
    have ln: "l < n" using S(1) Suc.prems(6) by simp
    have nz: "ent M k l \<noteq> 0" using S(3) by (simp add: ent_def)
    have z: "ent M i j = 0" if "i \<le> row" "j < n" "l < j" for i j
      using S(4) [of i j] high [of i j] that by (cases "j < l1") (auto simp: ent_def)
    have lc: "l < c" using D(1) [of k l] S(2) ln nz by (metis le_imp_less_Suc not_less)
    obtain M1 M2 where s1: "(if k \<noteq> row then isl_mat_swap_rows (Inr M) k row else Inr M) = Inr M1"
      and s2: "(if ent M1 row l < 0 then isl_mat_row_neg (Inr M1) (int row) else Inr M1) = Inr M2"
      and dim2: "mat_dim M2 m n" and pos: "0 < ent M2 row l" and gf2: "gauss_form m n (Suc row) c q (ent M2)"
      and z2: "\<And>i j. i \<le> row \<Longrightarrow> j < n \<Longrightarrow> l < j \<Longrightarrow> ent M2 i j = 0"
      and ker2: "\<And>x. row_kernel m n (ent M2) x \<longleftrightarrow> row_kernel m n (ent M) x"
      using gauss_pivot [OF dim m r S(2) ln nz gf z] by blast
    let ?E = "eliminate M2 row l"
    have E: "mat_dim ?E m n" "eliminated m n row l (ent M2) (ent ?E)"
      using eliminate_eliminated [OF dim2 r ln pos] by simp_all
    have gfE: "gauss_form m n row l (q(row := l)) (ent ?E)"
      by (rule gauss_form_eliminated [OF gf2 r lc ln pos z2 E(2)])
    have kerE: "row_kernel m n (ent ?E) x \<longleftrightarrow> row_kernel m n (ent M) x" for x
      using row_kernel_eliminated [OF E(2) r pos] ker2 by simp
    have step: "gauss_loop M (Suc row) l1 = gauss_loop ?E row (Suc l)"
      using Some s1 s2 by (simp add: lk)
    have "\<exists>M' k' c' q'. gauss_loop ?E row (Suc l) = (Inr M', k') \<and> mat_dim M' m n \<and> k' \<le> m \<and>
        gauss_form m n k' c' q' (ent M') \<and> (\<forall>i<k'. \<forall>j<n. ent M' i j = 0) \<and>
        (\<forall>x. row_kernel m n (ent M') x \<longleftrightarrow> row_kernel m n (ent ?E) x)"
      by (rule Suc.IH [OF E(1) m _ gfE]) (use r ln in auto)
    then show ?thesis unfolding step kerE .
  qed
qed

lemma isl_mat_reverse_gauss_run:
  assumes ok: "mat_ok M" and m: "n_row M < 2 ^ 32"
  shows "\<exists>R q. isl_mat_reverse_gauss (Inr M) = Inr R \<and> mat_ok R \<and> n_col R = n_col M \<and> n_row R \<le> n_row M \<and>
    (\<forall>i<n_row R. q i < n_col R \<and> 0 < ent R i (q i) \<and> (\<forall>j<n_col R. q i < j \<longrightarrow> ent R i j = 0) \<and>
       (\<forall>r<n_row R. r \<noteq> i \<longrightarrow> ent R r (q i) = 0)) \<and>
    (\<forall>i i'. i < i' \<and> i' < n_row R \<longrightarrow> q i < q i') \<and>
    (\<forall>x. row_kernel (n_row R) (n_col R) (ent R) x \<longleftrightarrow> row_kernel (n_row M) (n_col M) (ent M) x)"
proof -
  let ?m = "n_row M" and ?n = "n_col M"
  have init: "gauss_form ?m ?n ?m ?n (\<lambda>_. 0) (ent M)" by (simp add: gauss_form_def)
  obtain M' k c q where run: "gauss_loop M ?m ?n = (Inr M', k)" and dim: "mat_dim M' ?m ?n" and k: "k \<le> ?m"
    and gf: "gauss_form ?m ?n k c q (ent M')" and z: "\<And>i j. i < k \<Longrightarrow> j < ?n \<Longrightarrow> ent M' i j = 0"
    and ker: "\<And>x. row_kernel ?m ?n (ent M') x \<longleftrightarrow> row_kernel ?m ?n (ent M) x"
    using gauss_loop_correct [OF mat_dim_self [OF ok] m _ init, of ?n] by auto
  have M': "mat_ok M'" "n_row M' = ?m" "n_col M' = ?n" using dim by (simp_all add: mat_dim_def)
  have k0: "0 + k \<le> n_row M'" "n_row M' < 2 ^ 32" using k m M' by simp_all
  obtain R where R: "isl_mat_drop_rows (Inr M') 0 k = Inr R" "mat_ok R" "n_row R = ?m - k" "n_col R = ?n"
    "\<And>i c. i < ?m - k \<Longrightarrow> ent R i c = ent M' (i + k) c"
    using isl_mat_drop_rows_ent [OF M'(1) k0] M' by auto
  note D = gauss_formD [OF gf]
  have kerR: "row_kernel (?m - k) ?n (ent R) x \<longleftrightarrow> row_kernel ?m ?n (ent M') x" for x
  proof
    assume R': "row_kernel (?m - k) ?n (ent R) x"
    show "row_kernel ?m ?n (ent M') x"
      unfolding row_kernel_def
    proof (intro allI impI)
      fix r assume r: "r < ?m"
      show "(\<Sum>j<?n. ent M' r j * x j) = 0"
      proof (cases "r < k")
        case True
        with z show ?thesis by simp
      next
        case False
        then have rk: "r - k < ?m - k" "r - k + k = r" using r k by simp_all
        have "(\<Sum>j<?n. ent R (r - k) j * x j) = 0" using R' rk(1) unfolding row_kernel_def by blast
        with R(5) [OF rk(1)] rk(2) show ?thesis by simp
      qed
    qed
  next
    assume "row_kernel ?m ?n (ent M') x"
    then show "row_kernel (?m - k) ?n (ent R) x" using R(5) by (simp add: row_kernel_def)
  qed
  show ?thesis
  proof (intro exI [of _ R] exI [of _ "\<lambda>i. q (i + k)"] conjI allI impI)
    show "isl_mat_reverse_gauss (Inr M) = Inr R" using run R(1) by (simp add: isl_mat_reverse_gauss_def)
    fix i assume i: "i < n_row R"
    then have ik: "k \<le> i + k" "i + k < ?m" "i < ?m - k" using R(3) by simp_all
    show "q (i + k) < n_col R" using D(3) [OF ik(1,2)] R by simp
    show "0 < ent R i (q (i + k))" using D(4) [OF ik(1,2)] R(5) [OF ik(3)] by simp
    show "ent R i j = 0" if "j < n_col R" "q (i + k) < j" for j
      using D(5) [OF ik(1,2)] R(4) R(5) [OF ik(3)] that by simp
    show "ent R r (q (i + k)) = 0" if "r < n_row R" "r \<noteq> i" for r
      using D(6) [OF ik(1,2), of "r + k"] R(3) R(5) [of r] that by simp
  next
    show "q (i + k) < q (i' + k)" if "i < i' \<and> i' < n_row R" for i i'
    proof -
      have "i' + k < ?m" using that R(3) by linarith
      with that show ?thesis using D(7) [of "i + k" "i' + k"] by simp
    qed
  qed (use R ker kerR in simp_all)
qed

lemma isl_mat_lexnonneg_rows_run:
  assumes ok: "mat_ok M"
  shows "\<exists>R. isl_mat_lexnonneg_rows (Inr M) = Inr R \<and> mat_dim R (n_row M) (n_col M) \<and>
    (\<forall>i<n_row M. ((\<forall>j<n_col M. ent R i j = ent M i j) \<or> (\<forall>j<n_col M. ent R i j = - ent M i j)) \<and>
       (\<forall>j<n_col M. (\<forall>k<j. ent R i k = 0) \<longrightarrow> 0 \<le> ent R i j))"
proof -
  let ?m = "n_row M" and ?n = "n_col M"
  let ?body = "\<lambda>i mat. res_bind mat (\<lambda>mat. case isl_seq_first_non_zero (mat_row mat ! i) ?n of
    None \<Rightarrow> Inr mat | Some pos \<Rightarrow> if 0 \<le> ent mat i pos then Inr mat else isl_mat_row_neg (Inr mat) (int i))"
  let ?nn = "\<lambda>R i. ((\<forall>j<?n. ent R i j = ent M i j) \<or> (\<forall>j<?n. ent R i j = - ent M i j)) \<and>
    (\<forall>j<?n. (\<forall>k<j. ent R i k = 0) \<longrightarrow> 0 \<le> ent R i j)"
  let ?P = "\<lambda>i t. \<exists>R. t = Inr R \<and> mat_dim R ?m ?n \<and>
    (\<forall>k<?m. if k < i then ?nn R k else \<forall>j<?n. ent R k j = ent M k j)"
  have "?P ?m (for_range 0 ?m ?body (Inr M))"
  proof (rule for_range_induct [where P = ?P])
    fix i and t :: "isl_mat res" assume i: "0 \<le> i" "i < ?m" and "?P i t"
    then obtain R where t: "t = Inr R" and dim: "mat_dim R ?m ?n"
      and R: "\<And>k. k < ?m \<Longrightarrow> if k < i then ?nn R k else \<forall>j<?n. ent R k j = ent M k j" by blast
    have Ri: "\<And>j. j < ?n \<Longrightarrow> ent R i j = ent M i j" using R [OF i(2)] by simp
    have keep: "?P (Suc i) (Inr S)" if dS: "mat_dim S ?m ?n" and Si: "?nn S i"
      and S: "\<And>k j. k < ?m \<Longrightarrow> k \<noteq> i \<Longrightarrow> j < ?n \<Longrightarrow> ent S k j = ent R k j" for S
    proof (intro exI [of _ S] conjI allI impI)
      fix k assume k: "k < ?m"
      show "if k < Suc i then ?nn S k else \<forall>j<?n. ent S k j = ent M k j"
      proof (cases "k = i")
        case False
        then show ?thesis using R [OF k] S [OF k] by (cases "k < i") auto
      qed (use Si in simp)
    qed (use dS in simp_all)
    show "?P (Suc i) (?body i t)"
    proof (cases "isl_seq_first_non_zero (mat_row R ! i) ?n")
      case None
      then have "\<And>j. j < ?n \<Longrightarrow> ent R i j = 0" by (simp add: seq_simps ent_def)
      then have "?P (Suc i) (Inr R)" using Ri by (intro keep [OF dim]) auto
      then show ?thesis using None by (simp add: t)
    next
      case (Some pos)
      then have pos: "pos < ?n" "ent R i pos \<noteq> 0" "\<And>j. j < pos \<Longrightarrow> ent R i j = 0"
        by (auto simp: seq_simps ent_def)
      show ?thesis
      proof (cases "0 \<le> ent R i pos")
        case True
        have "0 \<le> ent R i j" if "\<forall>k<j. ent R i k = 0" for j
          using that pos True by (cases j pos rule: linorder_cases) auto
        then have "?nn R i" using Ri by blast
        then have "?P (Suc i) (Inr R)" by (rule keep [OF dim]) simp
        then show ?thesis using Some True by (simp add: t)
      next
        case False
        have h: "mat_ok R" "i < n_row R" using dim i by (simp_all add: mat_dim_def)
        obtain S where S: "isl_mat_row_neg (Inr R) (int i) = Inr S" "mat_dim S ?m ?n"
          "\<And>k j. k < ?m \<Longrightarrow> j < ?n \<Longrightarrow> ent S k j = (if k = i then - ent R k j else ent R k j)"
          using isl_mat_row_neg_ent [OF h] dim by (auto simp: mat_dim_def)
        have "0 \<le> ent S i j" if j: "j < ?n" and z: "\<forall>k<j. ent S i k = 0" for j
        proof (cases j pos rule: linorder_cases)
          case greater
          then show ?thesis using z pos S(3) [OF i(2) pos(1)] by auto
        qed (use S(3) [OF i(2) j] pos False in auto)
        then have "?P (Suc i) (Inr S)" using Ri S i by (intro keep) auto
        then show ?thesis using Some False S(1) by (simp add: t)
      qed
    qed
  qed (use ok in \<open>simp_all add: mat_dim_def\<close>)
  then show ?thesis by (simp add: isl_mat_lexnonneg_rows_def)
qed

subsection \<open>Properties\<close>

text \<open>
  C13: \<open>isl_mat_reverse_gauss\<close> returns a basis of the row space in reduced form: every row
  ends in a positive pivot that is the only entry of its column, the pivots move to the
  right from row to row (so the rows are independent), and the vectors orthogonal to all
  rows are the same as for the argument.
\<close>

theorem reverse_gauss_reduced_basis:
  assumes "mat_ok M" and "n_row M < 2 ^ 32"
  shows "\<exists>R q. isl_mat_reverse_gauss (Inr M) = Inr R \<and> mat_ok R \<and> n_col R = n_col M \<and> n_row R \<le> n_row M \<and>
    (\<forall>i<n_row R. q i < n_col R \<and> 0 < ent R i (q i) \<and> (\<forall>j<n_col R. q i < j \<longrightarrow> ent R i j = 0) \<and>
       (\<forall>r<n_row R. r \<noteq> i \<longrightarrow> ent R r (q i) = 0)) \<and>
    (\<forall>i i'. i < i' \<and> i' < n_row R \<longrightarrow> q i < q i') \<and>
    (\<forall>x. row_kernel (n_row R) (n_col R) (ent R) x \<longleftrightarrow> row_kernel (n_row M) (n_col M) (ent M) x)"
  using assms by (rule isl_mat_reverse_gauss_run)

theorem reverse_gauss_reduced_basis_witness:
  "\<exists>R q. isl_mat_reverse_gauss (Inr hermite_input) = Inr R \<and> mat_ok R \<and> n_col R = 3 \<and>
    (\<forall>i i'. i < i' \<and> i' < n_row R \<longrightarrow> (q i :: nat) < q i')"
  using reverse_gauss_reduced_basis [of hermite_input] by (fastforce simp: hermite_input_def)

text \<open>
  C34: \<open>isl_mat_lexnonneg_rows\<close> keeps or negates every row, and afterwards the first
  non-zero entry of each row is positive.
\<close>

theorem lexnonneg_rows_signs:
  assumes "mat_ok M"
  shows "\<exists>R. isl_mat_lexnonneg_rows (Inr M) = Inr R \<and> mat_dim R (n_row M) (n_col M) \<and>
    (\<forall>i<n_row M. ((\<forall>j<n_col M. ent R i j = ent M i j) \<or> (\<forall>j<n_col M. ent R i j = - ent M i j)) \<and>
       (\<forall>j<n_col M. (\<forall>k<j. ent R i k = 0) \<longrightarrow> 0 \<le> ent R i j))"
  using assms by (rule isl_mat_lexnonneg_rows_run)

theorem lexnonneg_rows_signs_witness:
  "\<exists>R. isl_mat_lexnonneg_rows (Inr hermite_input) = Inr R \<and> mat_dim R 2 3"
  using lexnonneg_rows_signs [of hermite_input] by (auto simp: hermite_input_def)

end
