(* ===== verification/Objects.thy ===== *)
theory Objects imports Mat_Gauss begin

text \<open>
  The objects of the library in memory: every value, vector and matrix carries the
  number of references to it, a function that takes an object to modify it first makes
  it its own (\<open>isl_vec_cow\<close>, \<open>isl_val_cow\<close>, \<open>isl_mat_cow\<close>), and the context counts its
  objects.  The other theories describe the operations on the value of an object; here
  it is shown that through these functions objects behave like values, that nothing
  released is touched and nothing is lost.

  A store maps addresses to the reference count and the value of the object there.  An
  operation that would touch released memory has no result (\<^const>\<open>None\<close>).
\<close>

record 'a store =
  cells :: "nat \<Rightarrow> (int \<times> 'a) option"
  next_addr :: nat
  ctx_ref :: int

definition empty_store :: "'a store" where
  "empty_store = \<lparr>cells = (\<lambda>_. None), next_addr = 0, ctx_ref = 0\<rparr>"

subsection \<open>The context\<close>

definition isl_ctx_ref :: "'a store \<Rightarrow> 'a store" where
  "isl_ctx_ref s = s\<lparr>ctx_ref := ctx_ref s + 1\<rparr>"

definition isl_ctx_deref :: "'a store \<Rightarrow> 'a store" where
  "isl_ctx_deref s = (if 0 < ctx_ref s then s\<lparr>ctx_ref := ctx_ref s - 1\<rparr> else s)"

definition isl_ctx_free :: "'a store \<Rightarrow> unit res" where
  "isl_ctx_free s = (if ctx_ref s \<noteq> 0 then isl_die isl_error_invalid else Inr ())"

subsection \<open>Objects\<close>

text \<open>Allocation of an object with one reference, and its release.\<close>

definition new_obj :: "'a store \<Rightarrow> 'a \<Rightarrow> 'a store \<times> nat" where
  "new_obj s v = (isl_ctx_ref (s\<lparr>cells := (cells s)(next_addr s \<mapsto> (1, v)), next_addr := next_addr s + 1\<rparr>), next_addr s)"

definition release :: "'a store \<Rightarrow> nat \<Rightarrow> 'a store" where
  "release s a = (isl_ctx_deref s)\<lparr>cells := (cells s)(a := None)\<rparr>"

definition set_obj :: "'a store \<Rightarrow> nat \<Rightarrow> int \<Rightarrow> 'a \<Rightarrow> 'a store" where
  "set_obj s a r v = s\<lparr>cells := (cells s)(a \<mapsto> (r, v))\<rparr>"

text \<open>Access through a pointer that may be \<open>NULL\<close>.\<close>

definition with_obj ::
  "'a store \<Rightarrow> nat option \<Rightarrow> (nat \<Rightarrow> int \<Rightarrow> 'a \<Rightarrow> ('a store \<times> nat option) option) \<Rightarrow> ('a store \<times> nat option) option"
where
  "with_obj s p k = (case p of
     None \<Rightarrow> Some (s, None)
   | Some a \<Rightarrow> (case cells s a of None \<Rightarrow> None | Some (r, v) \<Rightarrow> k a r v))"

subsection \<open>Vectors\<close>

definition isl_vec_copy :: "isl_vec store \<Rightarrow> nat option \<Rightarrow> (isl_vec store \<times> nat option) option" where
  "isl_vec_copy s vec = with_obj s vec (\<lambda>a r v. Some (set_obj s a (r + 1) v, Some a))"

definition isl_vec_free :: "isl_vec store \<Rightarrow> nat option \<Rightarrow> (isl_vec store \<times> nat option) option" where
  "isl_vec_free s vec = with_obj s vec (\<lambda>a r v.
     if 0 < r - 1 then Some (set_obj s a (r - 1) v, None) else Some (release s a, None))"

definition isl_vec_dup_obj ::
  "isl_int junk \<Rightarrow> isl_vec store \<Rightarrow> nat option \<Rightarrow> (isl_vec store \<times> nat option) option" where
  "isl_vec_dup_obj junk s vec = with_obj s vec (\<lambda>a r v. case isl_vec_dup junk (Inr v) of
     Inl _ \<Rightarrow> Some (s, None)
   | Inr v2 \<Rightarrow> (let (s, b) = new_obj s v2 in Some (s, Some b)))"

definition isl_vec_cow ::
  "isl_int junk \<Rightarrow> isl_vec store \<Rightarrow> nat option \<Rightarrow> (isl_vec store \<times> nat option) option" where
  "isl_vec_cow junk s vec = with_obj s vec (\<lambda>a r v.
     if r = 1 then Some (s, vec)
     else Option.bind (isl_vec_dup_obj junk s vec) (\<lambda>(s, vec2).
            Option.bind (isl_vec_free s vec) (\<lambda>(s, _). Some (s, vec2))))"

subsection \<open>Values\<close>

definition isl_val_copy :: "isl_val store \<Rightarrow> nat option \<Rightarrow> (isl_val store \<times> nat option) option" where
  "isl_val_copy s p = with_obj s p (\<lambda>a r v. Some (set_obj s a (r + 1) v, Some a))"

definition isl_val_free :: "isl_val store \<Rightarrow> nat option \<Rightarrow> (isl_val store \<times> nat option) option" where
  "isl_val_free s p = with_obj s p (\<lambda>a r v.
     if 0 < r - 1 then Some (set_obj s a (r - 1) v, None) else Some (release s a, None))"

definition isl_val_dup_obj :: "isl_val store \<Rightarrow> nat option \<Rightarrow> (isl_val store \<times> nat option) option" where
  "isl_val_dup_obj s p = with_obj s p (\<lambda>a r v. case isl_val_alloc of
     Inl _ \<Rightarrow> Some (s, None)
   | Inr d \<Rightarrow> (let (s, b) = new_obj s (d\<lparr>val_n := val_n v, val_d := val_d v\<rparr>) in Some (s, Some b)))"

definition isl_val_cow :: "isl_val store \<Rightarrow> nat option \<Rightarrow> (isl_val store \<times> nat option) option" where
  "isl_val_cow s p = with_obj s p (\<lambda>a r v.
     if r = 1 then Some (s, p) else isl_val_dup_obj (set_obj s a (r - 1) v) p)"

subsection \<open>Matrices\<close>

definition isl_mat_copy :: "isl_mat store \<Rightarrow> nat option \<Rightarrow> (isl_mat store \<times> nat option) option" where
  "isl_mat_copy s p = with_obj s p (\<lambda>a r v. Some (set_obj s a (r + 1) v, Some a))"

definition isl_mat_free :: "isl_mat store \<Rightarrow> nat option \<Rightarrow> (isl_mat store \<times> nat option) option" where
  "isl_mat_free s p = with_obj s p (\<lambda>a r v.
     if 0 < r - 1 then Some (set_obj s a (r - 1) v, None) else Some (release s a, None))"

definition isl_mat_dup_obj ::
  "isl_int junk \<Rightarrow> isl_mat store \<Rightarrow> nat option \<Rightarrow> (isl_mat store \<times> nat option) option" where
  "isl_mat_dup_obj junk s p = with_obj s p (\<lambda>a r v. case isl_mat_dup junk (Inr v) of
     Inl _ \<Rightarrow> Some (s, None)
   | Inr v2 \<Rightarrow> (let (s, b) = new_obj s v2 in Some (s, Some b)))"

text \<open>A matrix whose rows belong to another one is copied even if nobody else refers to it.\<close>

definition isl_mat_cow ::
  "isl_int junk \<Rightarrow> isl_mat store \<Rightarrow> nat option \<Rightarrow> (isl_mat store \<times> nat option) option" where
  "isl_mat_cow junk s p = with_obj s p (\<lambda>a r v.
     if r = 1 \<and> \<not> mat_borrowed v then Some (s, p)
     else Option.bind (isl_mat_dup_obj junk s p) (\<lambda>(s, mat2).
            Option.bind (isl_mat_free s p) (\<lambda>(s, _). Some (s, mat2))))"

subsection \<open>Functions that write to their argument without making it their own\<close>

definition isl_vec_normalize_obj :: "isl_vec store \<Rightarrow> nat option \<Rightarrow> (isl_vec store \<times> nat option) option" where
  "isl_vec_normalize_obj s p = with_obj s p (\<lambda>a r v. case isl_vec_normalize (Inr v) of
     Inl _ \<Rightarrow> Some (s, None) | Inr v \<Rightarrow> Some (set_obj s a r v, Some a))"

definition isl_vec_sort_obj :: "isl_vec store \<Rightarrow> nat option \<Rightarrow> (isl_vec store \<times> nat option) option" where
  "isl_vec_sort_obj s p = with_obj s p (\<lambda>a r v. case isl_vec_sort (Inr v) of
     Inl _ \<Rightarrow> Some (s, None) | Inr v \<Rightarrow> Some (set_obj s a r v, Some a))"

subsection \<open>Users of the objects\<close>

text \<open>
  A program holds references in variables: it creates an object, copies a reference,
  gives one up, or passes one to a function that modifies the object it makes its own.
\<close>

datatype 'a cmd = Create nat 'a | Copy nat nat | Free nat | Update nat "'a \<Rightarrow> 'a"

type_synonym 'a ptr_op = "'a store \<Rightarrow> nat option \<Rightarrow> ('a store \<times> nat option) option"

fun exec :: "'a ptr_op \<Rightarrow> 'a ptr_op \<Rightarrow> 'a ptr_op \<Rightarrow> 'a cmd \<Rightarrow> 'a store \<times> (nat \<Rightarrow> nat option) \<Rightarrow>
  ('a store \<times> (nat \<Rightarrow> nat option)) option" where
  "exec copy free cow (Create x v) (s, env) = (let (s, a) = new_obj s v in Some (s, env(x \<mapsto> a)))"
| "exec copy free cow (Copy y x) (s, env) = map_option (\<lambda>(s, p). (s, env(y := p))) (copy s (env x))"
| "exec copy free cow (Free x) (s, env) = map_option (\<lambda>(s, p). (s, env(x := p))) (free s (env x))"
| "exec copy free cow (Update x f) (s, env) =
     Option.bind (cow s (env x)) (\<lambda>(s, p).
       map_option (\<lambda>(s, p). (s, env(x := p))) (with_obj s p (\<lambda>a r v. Some (set_obj s a r (f v), Some a))))"

fun exec_all :: "'a ptr_op \<Rightarrow> 'a ptr_op \<Rightarrow> 'a ptr_op \<Rightarrow> 'a cmd list \<Rightarrow> 'a store \<times> (nat \<Rightarrow> nat option) \<Rightarrow>
  ('a store \<times> (nat \<Rightarrow> nat option)) option" where
  "exec_all copy free cow [] st = Some st"
| "exec_all copy free cow (c # cs) st = Option.bind (exec copy free cow c st) (exec_all copy free cow cs)"

text \<open>The same program on variables that hold values, and when it is sensible.\<close>

fun value_exec :: "'a cmd \<Rightarrow> (nat \<Rightarrow> 'a option) \<Rightarrow> nat \<Rightarrow> 'a option" where
  "value_exec (Create x v) A = A(x \<mapsto> v)"
| "value_exec (Copy y x) A = A(y := A x)"
| "value_exec (Free x) A = A(x := None)"
| "value_exec (Update x f) A = A(x := map_option f (A x))"

fun value_exec_all :: "'a cmd list \<Rightarrow> (nat \<Rightarrow> 'a option) \<Rightarrow> nat \<Rightarrow> 'a option" where
  "value_exec_all [] A = A"
| "value_exec_all (c # cs) A = value_exec_all cs (value_exec c A)"

text \<open>
  A variable that is assigned to holds no reference, one that is read holds one; the
  values satisfy \<open>ok\<close> and the functions respect the equivalence of values.
\<close>

fun sensible :: "('a \<Rightarrow> bool) \<Rightarrow> ('a \<Rightarrow> 'a \<Rightarrow> bool) \<Rightarrow> 'a cmd \<Rightarrow> (nat \<Rightarrow> 'b option) \<Rightarrow> bool" where
  "sensible ok eqv (Create x v) A = (A x = None \<and> ok v)"
| "sensible ok eqv (Copy y x) A = (A y = None \<and> A x \<noteq> None)"
| "sensible ok eqv (Free x) A = (A x \<noteq> None)"
| "sensible ok eqv (Update x f) A = (A x \<noteq> None \<and> (\<forall>v. ok v \<longrightarrow> ok (f v)) \<and>
     (\<forall>v w. ok v \<longrightarrow> ok w \<longrightarrow> eqv v w \<longrightarrow> eqv (f v) (f w)))"

fun sensible_all :: "('a \<Rightarrow> bool) \<Rightarrow> ('a \<Rightarrow> 'a \<Rightarrow> bool) \<Rightarrow> 'a cmd list \<Rightarrow> (nat \<Rightarrow> 'a option) \<Rightarrow> bool" where
  "sensible_all ok eqv [] A = True"
| "sensible_all ok eqv (c # cs) A = (sensible ok eqv c A \<and> sensible_all ok eqv cs (value_exec c A))"

subsection \<open>Counting references\<close>

definition refs :: "(nat \<Rightarrow> nat option) \<Rightarrow> nat \<Rightarrow> int" where
  "refs env a = int (card {x. env x = Some a})"

lemma refs_update:
  assumes "finite (dom env)"
  shows "refs (env(x := p)) a = refs env a - (if env x = Some a then 1 else 0) + (if p = Some a then 1 else 0)"
proof -
  let ?S = "{y. y \<noteq> x \<and> env y = Some a}"
  have fin: "finite ?S" by (rule finite_subset [OF _ assms]) auto
  have "int (card {y. e y = Some a}) = int (card ?S) + (if e x = Some a then 1 else 0)"
    if "\<And>y. y \<noteq> x \<Longrightarrow> e y = env y" for e
  proof (cases "e x = Some a")
    case True
    then have "{y. e y = Some a} = insert x ?S" using that by auto
    with fin True show ?thesis by simp
  next
    case False
    then have "{y. e y = Some a} = ?S" using that by (metis (mono_tags, lifting))
    with False show ?thesis by simp
  qed
  from this [of env] this [of "env(x := p)"] show ?thesis by (simp add: refs_def)
qed

lemma refs_pos: "finite (dom env) \<Longrightarrow> env x = Some a \<Longrightarrow> 0 < refs env a"
proof -
  assume f: "finite (dom env)" and x: "env x = Some a"
  have "finite {y. env y = Some a}" by (rule finite_subset [OF _ f]) auto
  with x show ?thesis by (auto simp: refs_def card_gt_0_iff)
qed

definition cell_ok :: "('a \<Rightarrow> bool) \<Rightarrow> (nat \<Rightarrow> nat option) \<Rightarrow> (nat \<Rightarrow> (int \<times> 'a) option) \<Rightarrow> nat \<Rightarrow> bool" where
  "cell_ok ok env c a = (case c a of None \<Rightarrow> refs env a = 0 | Some (r, v) \<Rightarrow> ok v \<and> 0 < r \<and> r = refs env a)"

lemma cell_ok_cong: "refs e a = refs e' a \<Longrightarrow> cell_ok ok e c a = cell_ok ok e' c a"
  by (cases "c a") (auto simp: cell_ok_def)

text \<open>
  The invariant of a store and the variables that refer to it: the objects are those
  that some variable refers to, each counts its references, and the context counts the
  objects.
\<close>

definition store_inv :: "('a \<Rightarrow> bool) \<Rightarrow> 'a store \<Rightarrow> (nat \<Rightarrow> nat option) \<Rightarrow> bool" where
  "store_inv ok s env = (finite (dom env) \<and> finite (dom (cells s)) \<and> ctx_ref s = int (card (dom (cells s))) \<and>
     (\<forall>a. next_addr s \<le> a \<longrightarrow> cells s a = None) \<and> (\<forall>a. cell_ok ok env (cells s) a))"

definition value_of :: "'a store \<Rightarrow> (nat \<Rightarrow> nat option) \<Rightarrow> nat \<Rightarrow> 'a option" where
  "value_of s env x = Option.bind (env x) (\<lambda>a. map_option snd (cells s a))"

lemma store_invD:
  assumes "store_inv ok s env"
  shows "finite (dom env)" and "finite (dom (cells s))" and "ctx_ref s = int (card (dom (cells s)))"
    and "next_addr s \<le> a \<Longrightarrow> cells s a = None" and "cell_ok ok env (cells s) a"
  using assms by (simp_all add: store_inv_def)

lemma store_inv_lookup:
  assumes inv: "store_inv ok s env" and x: "env x = Some a"
  obtains r v where "cells s a = Some (r, v)" "ok v" "0 < r" "r = refs env a" "a < next_addr s"
proof -
  have "0 < refs env a" using refs_pos [OF store_invD(1) [OF inv] x] .
  then obtain r v where c: "cells s a = Some (r, v)" "ok v" "0 < r" "r = refs env a"
    using store_invD(5) [OF inv, of a] by (auto simp: cell_ok_def split: option.splits)
  moreover from this have "a < next_addr s" using store_invD(4) [OF inv, of a] by (metis not_le option.distinct(1))
  ultimately show ?thesis by (rule that)
qed

text \<open>Giving up one reference.\<close>

definition unref :: "'a store \<Rightarrow> nat \<Rightarrow> 'a store" where
  "unref s a = (case cells s a of None \<Rightarrow> s
     | Some (r, v) \<Rightarrow> if 0 < r - 1 then set_obj s a (r - 1) v else release s a)"

lemma store_simps [simp]:
  "cells (fst (new_obj s v)) = (cells s)(next_addr s \<mapsto> (1, v))"
  "next_addr (fst (new_obj s v)) = next_addr s + 1"
  "ctx_ref (fst (new_obj s v)) = ctx_ref s + 1"
  "snd (new_obj s v) = next_addr s"
  "cells (set_obj s a r v) = (cells s)(a \<mapsto> (r, v))"
  "next_addr (set_obj s a r v) = next_addr s"
  "ctx_ref (set_obj s a r v) = ctx_ref s"
  "cells (release s a) = (cells s)(a := None)"
  "next_addr (release s a) = next_addr s"
  "ctx_ref (release s a) = (if 0 < ctx_ref s then ctx_ref s - 1 else ctx_ref s)"
  by (simp_all add: new_obj_def isl_ctx_ref_def set_obj_def release_def isl_ctx_deref_def)

lemma store_inv_new:
  assumes inv: "store_inv ok s env" and x: "env x = None" and v: "ok v"
  shows "store_inv ok (fst (new_obj s v)) (env(x \<mapsto> next_addr s))"
proof -
  note D = store_invD [OF inv]
  have n: "cells s (next_addr s) = None" by (rule D(4)) simp
  then have r0: "refs env (next_addr s) = 0" using D(5) [of "next_addr s"] by (simp add: cell_ok_def)
  have "next_addr s \<notin> dom (cells s)" using n by auto
  then have "card (dom ((cells s)(next_addr s \<mapsto> (1, v)))) = card (dom (cells s)) + 1"
    using D(2) by simp
  moreover have "cell_ok ok (env(x \<mapsto> next_addr s)) ((cells s)(next_addr s \<mapsto> (1, v))) a" for a
    using D(5) [of a] v x r0 refs_update [OF D(1), of x "Some (next_addr s)" a]
    by (cases "a = next_addr s") (auto simp: cell_ok_def split: option.splits)
  ultimately show ?thesis using D by (simp add: store_inv_def)
qed

lemma store_inv_copy:
  assumes inv: "store_inv ok s env" and y: "env y = None" and c: "cells s a = Some (r, v)"
  shows "store_inv ok (set_obj s a (r + 1) v) (env(y \<mapsto> a))"
proof -
  note D = store_invD [OF inv]
  have "dom ((cells s)(a \<mapsto> (r + 1, v))) = dom (cells s)" using c by auto
  moreover have "cell_ok ok (env(y \<mapsto> a)) ((cells s)(a \<mapsto> (r + 1, v))) b" for b
    using D(5) [of b] c y refs_update [OF D(1), of y "Some a" b]
    by (cases "b = a") (auto simp: cell_ok_def split: option.splits)
  moreover have "a < next_addr s" using D(4) [of a] c by (metis not_le option.distinct(1))
  ultimately show ?thesis using D by (simp add: store_inv_def)
qed

text \<open>A variable gives up its reference, and may take on one that is not counted yet.\<close>

lemma store_inv_unref:
  assumes inv: "store_inv ok s env" and x: "env x = Some a"
  shows "store_inv ok (unref s a) (env(x := None))"
proof -
  note D = store_invD [OF inv]
  obtain r v where c: "cells s a = Some (r, v)" "ok v" "0 < r" "r = refs env a"
    using inv x by (rule store_inv_lookup)
  have r: "refs (env(x := None)) b = refs env b - (if b = a then 1 else 0)" for b
    using refs_update [OF D(1), of x None b] x by auto
  show ?thesis
  proof (cases "0 < r - 1")
    case True
    have "dom ((cells s)(a \<mapsto> (r - 1, v))) = dom (cells s)" using c by auto
    moreover have "cell_ok ok (env(x := None)) ((cells s)(a \<mapsto> (r - 1, v))) b" for b
      using D(5) [of b] c True r [of b] by (cases "b = a") (auto simp: cell_ok_def split: option.splits)
    moreover have "a < next_addr s" using D(4) [of a] c(1) by (metis not_le option.distinct(1))
    ultimately show ?thesis using D True c(1) by (simp add: store_inv_def unref_def)
  next
    case False
    have "int (card (dom (cells s) - {a})) = int (card (dom (cells s))) - 1" and "0 < card (dom (cells s))"
    proof -
      have "Suc (card (dom (cells s) - {a})) = card (dom (cells s))"
        using c(1) by (intro card_Suc_Diff1 [OF D(2)]) auto
      then show "int (card (dom (cells s) - {a})) = int (card (dom (cells s))) - 1" "0 < card (dom (cells s))"
        by linarith+
    qed
    moreover have "cell_ok ok (env(x := None)) ((cells s)(a := None)) b" for b
      using D(5) [of b] c False r [of b] by (cases "b = a") (auto simp: cell_ok_def split: option.splits)
    ultimately show ?thesis using D False c(1) by (simp add: store_inv_def unref_def)
  qed
qed

lemma store_inv_move:
  assumes f: "finite (dom env)" and inv: "store_inv ok s (env(y \<mapsto> b, x := None))"
    and x: "env x \<noteq> None" and y: "env y = None"
  shows "store_inv ok s (env(x \<mapsto> b))"
proof -
  note D = store_invD [OF inv]
  have xy: "x \<noteq> y" using x y by auto
  have fy: "finite (dom (env(y \<mapsto> b)))" using f by simp
  have "refs (env(y \<mapsto> b, x := None)) c = refs (env(x \<mapsto> b)) c" for c
    using refs_update [OF fy, of x None c] refs_update [OF f, of y "Some b" c] refs_update [OF f, of x "Some b" c] xy y
    by simp
  from cell_ok_cong [OF this] have "cell_ok ok (env(x \<mapsto> b)) (cells s) c" for c
    using D(5) [of c] by blast
  with D f show ?thesis by (simp add: store_inv_def)
qed

text \<open>An object with one reference is overwritten.\<close>

lemma store_inv_set:
  assumes inv: "store_inv ok s env" and c: "cells s a = Some (r, v)" and w: "ok w"
  shows "store_inv ok (set_obj s a r w) env"
proof -
  note D = store_invD [OF inv]
  have "dom ((cells s)(a \<mapsto> (r, w))) = dom (cells s)" using c by auto
  moreover have "cell_ok ok env ((cells s)(a \<mapsto> (r, w))) b" for b
    using D(5) [of b] D(5) [of a] c w by (cases "b = a") (auto simp: cell_ok_def split: option.splits)
  moreover have "a < next_addr s" using D(4) [of a] c by (metis not_le option.distinct(1))
  ultimately show ?thesis using D by (simp add: store_inv_def)
qed

subsection \<open>The contract of a reference-counted object\<close>

text \<open>
  What the rest of the library relies on: a copy is one more reference to the same
  object, freeing gives one up, and making an object one's own either returns it, when
  it is not shared, or gives up the reference for one to a new object with an equivalent
  value.
\<close>

definition sim :: "('a \<Rightarrow> bool) \<Rightarrow> ('a \<Rightarrow> 'a \<Rightarrow> bool) \<Rightarrow> 'a store \<Rightarrow> (nat \<Rightarrow> nat option) \<Rightarrow> (nat \<Rightarrow> 'a option) \<Rightarrow> bool" where
  "sim ok eqv s env A = (store_inv ok s env \<and> (\<forall>x. rel_option eqv (value_of s env x) (A x)) \<and>
     (\<forall>x w. A x = Some w \<longrightarrow> ok w))"

locale cow_object =
  fixes copy free cow :: "'a ptr_op"
    and ok :: "'a \<Rightarrow> bool" and eqv :: "'a \<Rightarrow> 'a \<Rightarrow> bool"
  assumes eqv_refl: "eqv v v"
    and eqv_sym: "eqv v w \<Longrightarrow> eqv w v"
    and eqv_trans: "eqv u v \<Longrightarrow> eqv v w \<Longrightarrow> eqv u w"
    and copy_law: "cells s a = Some (r, v) \<Longrightarrow> copy s (Some a) = Some (set_obj s a (r + 1) v, Some a)"
    and free_law: "cells s a = Some (r, v) \<Longrightarrow> free s (Some a) = Some (unref s a, None)"
    and cow_law: "cells s a = Some (r, v) \<Longrightarrow> a < next_addr s \<Longrightarrow> ok v \<Longrightarrow> 0 < r \<Longrightarrow>
      r = 1 \<and> cow s (Some a) = Some (s, Some a) \<or>
      (\<exists>w. ok w \<and> eqv v w \<and> cow s (Some a) = Some (unref (fst (new_obj s w)) a, Some (next_addr s)))"
begin

lemma cow_correct:
  assumes inv: "store_inv ok s env" and x: "env x = Some a"
  shows "\<exists>s' b. cow s (Some a) = Some (s', Some b) \<and> store_inv ok s' (env(x \<mapsto> b)) \<and>
    (\<exists>w. cells s' b = Some (1, w) \<and> rel_option eqv (value_of s env x) (Some w)) \<and>
    (\<forall>y. y \<noteq> x \<longrightarrow> value_of s' (env(x \<mapsto> b)) y = value_of s env y \<and> env y \<noteq> Some b)"
proof -
  obtain r v where c: "cells s a = Some (r, v)" "ok v" "0 < r" "r = refs env a" "a < next_addr s"
    using inv x by (rule store_inv_lookup)
  note D = store_invD [OF inv]
  have vx: "value_of s env x = Some v" using x c by (simp add: value_of_def)
  from cow_law [OF c(1,5,2,3)] show ?thesis
  proof
    assume own: "r = 1 \<and> cow s (Some a) = Some (s, Some a)"
    have "env y \<noteq> Some a" if "y \<noteq> x" for y
    proof
      assume y: "env y = Some a"
      have "0 < refs (env(x := None)) a" using D(1) y that by (intro refs_pos [of _ y]) auto
      with refs_update [OF D(1), of x None a] x own c(4) show False by simp
    qed
    moreover have "env(x \<mapsto> a) = env" using x by auto
    ultimately show ?thesis using own inv c vx by (auto simp: eqv_refl)
  next
    assume "\<exists>w. ok w \<and> eqv v w \<and> cow s (Some a) = Some (unref (fst (new_obj s w)) a, Some (next_addr s))"
    then obtain w where w: "ok w" "eqv v w" "cow s (Some a) = Some (unref (fst (new_obj s w)) a, Some (next_addr s))"
      by blast
    obtain y where y: "env y = None" using ex_new_if_finite [OF infinite_UNIV_nat D(1)] by auto
    have xy: "y \<noteq> x" using x y by auto
    have "store_inv ok (unref (fst (new_obj s w)) a) ((env(y \<mapsto> next_addr s))(x := None))"
      by (rule store_inv_unref [OF store_inv_new [OF inv y w(1)]]) (use x xy in simp)
    from store_inv_move [OF D(1) this _ y] x
    have inv': "store_inv ok (unref (fst (new_obj s w)) a) (env(x \<mapsto> next_addr s))" by simp
    have a: "a \<noteq> next_addr s" using c(5) by simp
    have un: "cells (unref (fst (new_obj s w)) a) b =
        (if b = next_addr s then Some (1, w) else if b = a then if 0 < r - 1 then Some (r - 1, v) else None else cells s b)" for b
      using c(1) a by (auto simp: unref_def)
    have other: "value_of (unref (fst (new_obj s w)) a) (env(x \<mapsto> next_addr s)) z = value_of s env z"
      "env z \<noteq> Some (next_addr s)" if z: "z \<noteq> x" for z
    proof -
      have n: "cells s (next_addr s) = None" by (rule D(4)) simp
      show nz: "env z \<noteq> Some (next_addr s)"
      proof
        assume "env z = Some (next_addr s)"
        then obtain r v where "cells s (next_addr s) = Some (r, v)" using store_inv_lookup [OF inv] by blast
        with n show False by simp
      qed
      have "0 < r - 1" if "env z = Some a"
      proof -
        have "0 < refs (env(x := None)) a" using D(1) z that by (intro refs_pos [of _ z]) auto
        with refs_update [OF D(1), of x None a] x c(4) show ?thesis by simp
      qed
      then show "value_of (unref (fst (new_obj s w)) a) (env(x \<mapsto> next_addr s)) z = value_of s env z"
        using z nz c(1) by (cases "env z") (auto simp: value_of_def un)
    qed
    show ?thesis
      by (intro exI conjI, rule w(3), rule inv') (use other un w vx in auto)
  qed
qed

lemma value_of_None:
  assumes "store_inv ok s env"
  shows "value_of s env x = None \<longleftrightarrow> env x = None"
proof (cases "env x")
  case (Some a)
  with assms obtain r v where "cells s a = Some (r, v)" by (rule store_inv_lookup)
  with Some show ?thesis by (simp add: value_of_def)
qed (simp add: value_of_def)

lemma sim_None: "sim ok eqv s env A \<Longrightarrow> A x = None \<longleftrightarrow> env x = None"
  unfolding sim_def by (metis value_of_None option.rel_distinct option.rel_sel)

lemma sim_update:
  assumes sim: "sim ok eqv s env A" and inv: "store_inv ok s' (env(x := p))"
    and x: "rel_option eqv (value_of s' (env(x := p)) x) B" and B: "\<And>w. B = Some w \<Longrightarrow> ok w"
    and other: "\<And>y. y \<noteq> x \<Longrightarrow> value_of s' (env(x := p)) y = value_of s env y"
  shows "sim ok eqv s' (env(x := p)) (A(x := B))"
  unfolding sim_def
proof (intro conjI allI impI)
  show "rel_option eqv (value_of s' (env(x := p)) y) ((A(x := B)) y)" for y
    using sim x other [of y] by (cases "y = x") (auto simp: sim_def)
  show "ok w" if "(A(x := B)) y = Some w" for y w
    using that sim B by (cases "y = x") (auto simp: sim_def)
qed (rule inv)

lemma exec_correct:
  assumes sim: "sim ok eqv s env A" and c: "sensible ok eqv c A"
  shows "\<exists>s' env'. exec copy free cow c (s, env) = Some (s', env') \<and> sim ok eqv s' env' (value_exec c A)"
proof -
  have inv: "store_inv ok s env" using sim by (simp add: sim_def)
  note D = store_invD [OF inv]
  show ?thesis
  proof (cases c)
    case (Create x v)
    have x: "env x = None" and v: "ok v" using c Create sim_None [OF sim, of x] by simp_all
    have n: "cells s (next_addr s) = None" by (rule D(4)) simp
    have other: "value_of (fst (new_obj s v)) (env(x \<mapsto> next_addr s)) y = value_of s env y" if y: "y \<noteq> x" for y
    proof (cases "env y")
      case (Some a)
      with inv obtain r u where "cells s a = Some (r, u)" by (rule store_inv_lookup)
      with Some y n show ?thesis by (auto simp: value_of_def)
    qed (use y in \<open>simp add: value_of_def\<close>)
    have "sim ok eqv (fst (new_obj s v)) (env(x \<mapsto> next_addr s)) (A(x \<mapsto> v))"
      by (rule sim_update [OF sim store_inv_new [OF inv x v] _ _ other])
        (use v eqv_refl in \<open>auto simp: value_of_def\<close>)
    then show ?thesis by (simp add: Create case_prod_unfold)
  next
    case (Copy y x)
    have y: "env y = None" and "env x \<noteq> None" using c Copy sim_None [OF sim] by simp_all
    then obtain a where x: "env x = Some a" by auto
    obtain r v where a: "cells s a = Some (r, v)" "ok v" using inv x by (rule store_inv_lookup)
    have other: "value_of (set_obj s a (r + 1) v) (env(y \<mapsto> a)) z = value_of s env z" if "z \<noteq> y" for z
      using that a(1) by (cases "env z") (auto simp: value_of_def)
    have "value_of (set_obj s a (r + 1) v) (env(y \<mapsto> a)) y = value_of s env x"
      using x a(1) by (simp add: value_of_def)
    then have "sim ok eqv (set_obj s a (r + 1) v) (env(y \<mapsto> a)) (A(y := A x))"
      by (intro sim_update [OF sim store_inv_copy [OF inv y a(1)] _ _ other])
        (use sim in \<open>auto simp: sim_def\<close>)
    then show ?thesis using copy_law [OF a(1)] by (simp add: Copy x)
  next
    case (Free x)
    have "env x \<noteq> None" using c Free sim_None [OF sim] by simp
    then obtain a where x: "env x = Some a" by auto
    obtain r v where a: "cells s a = Some (r, v)" "r = refs env a" using inv x by (rule store_inv_lookup)
    have other: "value_of (unref s a) (env(x := None)) z = value_of s env z" if z: "z \<noteq> x" for z
    proof (cases "env z = Some a")
      case True
      have "0 < refs (env(x := None)) a" using D(1) z True by (intro refs_pos [of _ z]) auto
      with refs_update [OF D(1), of x None a] x a have "0 < r - 1" by simp
      with True a z show ?thesis by (simp add: value_of_def unref_def)
    next
      case False
      with z a(1) show ?thesis by (cases "env z") (auto simp: value_of_def unref_def)
    qed
    have "sim ok eqv (unref s a) (env(x := None)) (A(x := None))"
      by (rule sim_update [OF sim store_inv_unref [OF inv x] _ _ other]) (simp_all add: value_of_def)
    then show ?thesis using free_law [OF a(1)] by (simp add: Free x)
  next
    case (Update x f)
    have "env x \<noteq> None" and ok: "\<And>v. ok v \<Longrightarrow> ok (f v)"
      and resp: "\<And>v w. ok v \<Longrightarrow> ok w \<Longrightarrow> eqv v w \<Longrightarrow> eqv (f v) (f w)"
      using c Update sim_None [OF sim] by auto
    then obtain a where x: "env x = Some a" by auto
    from cow_correct [OF inv x] obtain s' b w where cow: "cow s (Some a) = Some (s', Some b)"
      and inv': "store_inv ok s' (env(x \<mapsto> b))" and b: "cells s' b = Some (1, w)"
      and w: "rel_option eqv (value_of s env x) (Some w)"
      and other: "\<And>y. y \<noteq> x \<Longrightarrow> value_of s' (env(x \<mapsto> b)) y = value_of s env y \<and> env y \<noteq> Some b"
      by blast
    have okw: "ok w" using store_invD(5) [OF inv', of b] b by (simp add: cell_ok_def)
    obtain u where u: "value_of s env x = Some u" "eqv u w" using w by (cases "value_of s env x") auto
    obtain A' where A': "A x = Some A'" "eqv u A'" "ok A'"
      using sim u by (auto simp: sim_def elim!: allE [of _ x] option.rel_cases)
    have "eqv w A'" using eqv_sym [OF u(2)] A'(2) by (rule eqv_trans)
    then have fw: "eqv (f w) (f A')" by (rule resp [OF okw A'(3)])
    have inv2: "store_inv ok (set_obj s' b 1 (f w)) (env(x \<mapsto> b))"
      by (rule store_inv_set [OF inv' b ok [OF okw]])
    have other2: "value_of (set_obj s' b 1 (f w)) (env(x \<mapsto> b)) y = value_of s env y" if y: "y \<noteq> x" for y
      using other [OF y] y by (cases "env y") (auto simp: value_of_def)
    have "sim ok eqv (set_obj s' b 1 (f w)) (env(x \<mapsto> b)) (A(x := Some (f A')))"
      by (rule sim_update [OF sim inv2 _ _ other2]) (use fw ok A'(3) in \<open>auto simp: value_of_def\<close>)
    then show ?thesis using cow b A'(1) by (simp add: Update x with_obj_def)
  qed
qed

lemma exec_all_correct:
  assumes "sim ok eqv s env A" and "sensible_all ok eqv cs A"
  shows "\<exists>s' env'. exec_all copy free cow cs (s, env) = Some (s', env') \<and> sim ok eqv s' env' (value_exec_all cs A)"
  using assms
proof (induction cs arbitrary: s env A)
  case (Cons c cs)
  from Cons.prems have sens: "sensible ok eqv c A" "sensible_all ok eqv cs (value_exec c A)" by simp_all
  from exec_correct [OF Cons.prems(1) sens(1)] obtain s1 env1 where
    e: "exec copy free cow c (s, env) = Some (s1, env1)" and sim: "sim ok eqv s1 env1 (value_exec c A)" by blast
  from Cons.IH [OF sim sens(2)] e show ?case by simp
qed simp

text \<open>
  From nothing, a sensible program runs without touching released memory, its variables
  hold the values they would hold if they were not shared, and when it has given up
  all its references no object is left and the context can be freed.
\<close>

lemma objects_are_values:
  assumes s: "sensible_all ok eqv cs (\<lambda>_. None)"
  shows "\<exists>s env. exec_all copy free cow cs (empty_store, \<lambda>_. None) = Some (s, env) \<and>
    (\<forall>x. rel_option eqv (value_of s env x) (value_exec_all cs (\<lambda>_. None) x)) \<and>
    ((\<forall>x. value_exec_all cs (\<lambda>_. None) x = None) \<longrightarrow> (\<forall>a. cells s a = None) \<and> isl_ctx_free s = Inr ())"
proof -
  have "store_inv ok empty_store (\<lambda>_. None)"
    by (simp add: store_inv_def empty_store_def cell_ok_def refs_def)
  then have "sim ok eqv empty_store (\<lambda>_. None) (\<lambda>_. None)" by (simp add: sim_def value_of_def)
  from exec_all_correct [OF this s] obtain s env where
    run: "exec_all copy free cow cs (empty_store, \<lambda>_. None) = Some (s, env)"
    and sim: "sim ok eqv s env (value_exec_all cs (\<lambda>_. None))" by blast
  have "(\<forall>a. cells s a = None) \<and> isl_ctx_free s = Inr ()"
    if "\<forall>x. value_exec_all cs (\<lambda>_. None) x = None"
  proof -
    have env: "env x = None" for x using sim_None [OF sim, of x] that by simp
    have inv: "store_inv ok s env" using sim by (simp add: sim_def)
    have "cells s a = None" for a
      using store_invD(5) [OF inv, of a] env by (auto simp: cell_ok_def refs_def split: option.splits)
    moreover from this have "dom (cells s) = {}" by auto
    then have "ctx_ref s = 0" using store_invD(3) [OF inv] by simp
    ultimately show ?thesis by (simp add: isl_ctx_free_def)
  qed
  with run sim show ?thesis by (auto simp: sim_def)
qed

end

subsection \<open>Vectors, values and matrices keep the contract\<close>

lemma isl_vec_dup_same: "vec_ok v \<Longrightarrow> isl_vec_dup junk (Inr v) = Inr v"
  using isl_vec_dup_mk [of junk "vec_el v"] by (cases v) (simp add: vec_ok_def mk_vec_def)

lemma isl_free_laws:
  "cells sv a = Some (r, v) \<Longrightarrow> isl_vec_free sv (Some a) = Some (unref sv a, None)"
  "cells sw a = Some (r, w) \<Longrightarrow> isl_val_free sw (Some a) = Some (unref sw a, None)"
  "cells sm a = Some (r, m) \<Longrightarrow> isl_mat_free sm (Some a) = Some (unref sm a, None)"
  by (simp_all add: isl_vec_free_def isl_val_free_def isl_mat_free_def with_obj_def unref_def)

lemma isl_vec_cow_law:
  assumes c: "cells s a = Some (r, v)" and a: "a < next_addr s" and v: "vec_ok v"
  shows "r = 1 \<and> isl_vec_cow junk s (Some a) = Some (s, Some a) \<or>
    isl_vec_cow junk s (Some a) = Some (unref (fst (new_obj s v)) a, Some (next_addr s))"
proof (cases "r = 1")
  case True
  with c show ?thesis by (simp add: isl_vec_cow_def with_obj_def)
next
  case False
  have c': "cells (fst (new_obj s v)) a = Some (r, v)" using c a by simp
  show ?thesis
    using False c isl_vec_dup_same [OF v] isl_free_laws(1) [OF c']
    by (simp add: isl_vec_cow_def isl_vec_dup_obj_def with_obj_def case_prod_unfold)
qed

lemma isl_mat_cow_law:
  assumes c: "cells s a = Some (r, v)" and a: "a < next_addr s" and v: "mat_ok v"
  shows "r = 1 \<and> isl_mat_cow junk s (Some a) = Some (s, Some a) \<or>
    (\<exists>w. mat_ok w \<and> mat_eqv v w \<and>
      isl_mat_cow junk s (Some a) = Some (unref (fst (new_obj s w)) a, Some (next_addr s)))"
proof (cases "r = 1 \<and> \<not> mat_borrowed v")
  case True
  with c show ?thesis by (simp add: isl_mat_cow_def with_obj_def)
next
  case False
  let ?w = "mk_mat (n_row v) (n_col v) (ent v)"
  have c': "cells (fst (new_obj s ?w)) a = Some (r, v)" using c a by simp
  have "isl_mat_cow junk s (Some a) = Some (unref (fst (new_obj s ?w)) a, Some (next_addr s))"
    unfolding isl_mat_cow_def with_obj_def option.case c prod.case if_not_P [OF False]
    using c isl_mat_dup_mk [OF v, of junk] isl_free_laws(3) [OF c']
    by (simp add: isl_mat_dup_obj_def with_obj_def case_prod_unfold)
  moreover have "mat_eqv v ?w" by (simp add: mat_eqv_def)
  ultimately show ?thesis by (intro disjI2 exI [of _ ?w]) simp
qed

lemma isl_val_cow_law:
  assumes c: "cells s a = Some (r, v)" and a: "a < next_addr s" and r: "0 < r"
  shows "r = 1 \<and> isl_val_cow s (Some a) = Some (s, Some a) \<or>
    isl_val_cow s (Some a) = Some (unref (fst (new_obj s v)) a, Some (next_addr s))"
proof (cases "r = 1")
  case True
  with c show ?thesis by (simp add: isl_val_cow_def with_obj_def)
next
  case False
  then have r1: "1 < r" using r by simp
  have "unref (fst (new_obj s v)) a = fst (new_obj (set_obj s a (r - 1) v) v)"
    using c a r1 by (simp add: unref_def new_obj_def set_obj_def isl_ctx_ref_def fun_upd_twist)
  then show ?thesis
    using False c by (simp add: isl_val_cow_def isl_val_dup_obj_def isl_val_alloc_def with_obj_def case_prod_unfold)
qed

interpretation vec_obj: cow_object isl_vec_copy isl_vec_free "isl_vec_cow junk" vec_ok "(=)" for junk
  by unfold_locales (use isl_vec_cow_law in \<open>auto simp: isl_vec_copy_def with_obj_def isl_free_laws\<close>)

interpretation val_obj: cow_object isl_val_copy isl_val_free isl_val_cow "\<lambda>_. True" "(=)"
  by unfold_locales (use isl_val_cow_law in \<open>auto simp: isl_val_copy_def with_obj_def isl_free_laws\<close>)

interpretation mat_obj: cow_object isl_mat_copy isl_mat_free "isl_mat_cow junk" mat_ok mat_eqv for junk
proof
  show "mat_eqv v v" for v by simp
  show "mat_eqv w v" if "mat_eqv v w" for v w using that by (simp add: mat_eqv_def)
  show "mat_eqv u w" if "mat_eqv u v" "mat_eqv v w" for u v w using that by (simp add: mat_eqv_def)
qed (use isl_mat_cow_law in \<open>auto simp: isl_mat_copy_def with_obj_def isl_free_laws\<close>)

text \<open>
  \<open>isl_vec_normalize\<close> and \<open>isl_vec_sort\<close> write to the vector they are given without making it their
  own: of two copies of a vector, both are changed.
\<close>

lemma writes_to_a_copy:
  "Option.bind (exec_all isl_vec_copy isl_vec_free (isl_vec_cow (\<lambda>_. 7)) [Create 0 (mk_vec [4, 2]), Copy 1 0] (empty_store, \<lambda>_. None))
    (\<lambda>(s, env). map_option (\<lambda>(s', p). (value_of s env 1, value_of s' env 1)) (isl_vec_normalize_obj s (env 0)))
   = Some (Some (mk_vec [4, 2]), Some (mk_vec [2, 1]))"
  "Option.bind (exec_all isl_vec_copy isl_vec_free (isl_vec_cow (\<lambda>_. 7)) [Create 0 (mk_vec [4, 2]), Copy 1 0] (empty_store, \<lambda>_. None))
    (\<lambda>(s, env). map_option (\<lambda>(s', p). (value_of s env 1, value_of s' env 1)) (isl_vec_sort_obj s (env 0)))
   = Some (Some (mk_vec [4, 2]), Some (mk_vec [2, 4]))"
  unfolding mk_vec_def by code_simp+

subsection \<open>Properties\<close>

text \<open>
  C11: matrices behave like values although they are shared: a program that creates them,
  copies and frees references and modifies what \<open>isl_mat_cow\<close> gives it never touches
  released memory, every variable holds the matrix it would hold without sharing, and
  after the last reference is given up no matrix is left and the context can be freed.
\<close>

theorem mat_objects_are_values:
  assumes "sensible_all mat_ok mat_eqv cs (\<lambda>_. None)"
  shows "\<exists>s env. exec_all isl_mat_copy isl_mat_free (isl_mat_cow junk) cs (empty_store, \<lambda>_. None) = Some (s, env) \<and>
    (\<forall>x. rel_option mat_eqv (value_of s env x) (value_exec_all cs (\<lambda>_. None) x)) \<and>
    ((\<forall>x. value_exec_all cs (\<lambda>_. None) x = None) \<longrightarrow> (\<forall>a. cells s a = None) \<and> isl_ctx_free s = Inr ())"
  using assms by (rule mat_obj.objects_are_values)

definition mat_program :: "isl_mat cmd list" where
  "mat_program = [Create 0 (mk_mat 1 1 (\<lambda>_ _. 5)\<lparr>mat_borrowed := True\<rparr>), Copy 1 0, Update 1 (\<lambda>M. M), Free 0, Free 1]"

theorem mat_objects_are_values_witness:
  "\<exists>s env. exec_all isl_mat_copy isl_mat_free (isl_mat_cow (\<lambda>_. 7)) mat_program (empty_store, \<lambda>_. None) = Some (s, env) \<and>
    (\<forall>a. cells s a = None) \<and> isl_ctx_free s = Inr ()"
proof -
  have "mat_ok (mk_mat 1 1 (\<lambda>_ _. 5)\<lparr>mat_borrowed := True\<rparr>)" by (simp add: mk_mat_def mat_ok_def)
  then have s: "sensible_all mat_ok mat_eqv mat_program (\<lambda>_. None)" by (simp add: mat_program_def)
  have "value_exec_all mat_program (\<lambda>_. None) x = None" for x by (simp add: mat_program_def)
  with mat_objects_are_values [OF s, of "\<lambda>_. 7"] show ?thesis by blast
qed

text \<open>
  C29: vectors behave like values in the same way, with the same values exactly.
\<close>

theorem vec_objects_are_values:
  assumes "sensible_all vec_ok (=) cs (\<lambda>_. None)"
  shows "\<exists>s env. exec_all isl_vec_copy isl_vec_free (isl_vec_cow junk) cs (empty_store, \<lambda>_. None) = Some (s, env) \<and>
    (\<forall>x. rel_option (=) (value_of s env x) (value_exec_all cs (\<lambda>_. None) x)) \<and>
    ((\<forall>x. value_exec_all cs (\<lambda>_. None) x = None) \<longrightarrow> (\<forall>a. cells s a = None) \<and> isl_ctx_free s = Inr ())"
  using assms by (rule vec_obj.objects_are_values)

definition vec_program :: "isl_vec cmd list" where
  "vec_program = [Create 0 (mk_vec [2, 4]), Copy 1 0, Update 1 (\<lambda>v. v\<lparr>vec_el := map uminus (vec_el v)\<rparr>)]"

theorem vec_objects_are_values_witness:
  "\<exists>s env. exec_all isl_vec_copy isl_vec_free (isl_vec_cow (\<lambda>_. 7)) vec_program (empty_store, \<lambda>_. None) = Some (s, env) \<and>
    value_of s env 0 = Some (mk_vec [2, 4]) \<and> value_of s env 1 = Some (mk_vec [-2, -4])"
proof -
  have s: "sensible_all vec_ok (=) vec_program (\<lambda>_. None)" by (simp add: vec_program_def vec_ok_def)
  have v: "value_exec_all vec_program (\<lambda>_. None) 0 = Some (mk_vec [2, 4])"
    "value_exec_all vec_program (\<lambda>_. None) 1 = Some (mk_vec [-2, -4])"
    by (simp_all add: vec_program_def mk_vec_def)
  from vec_objects_are_values [OF s, of "\<lambda>_. 7"] obtain st env where
    run: "exec_all isl_vec_copy isl_vec_free (isl_vec_cow (\<lambda>_. 7)) vec_program (empty_store, \<lambda>_. None) = Some (st, env)"
    and val: "\<And>x. rel_option (=) (value_of st env x) (value_exec_all vec_program (\<lambda>_. None) x)" by blast
  from val [of 0] val [of 1] have "value_of st env 0 = Some (mk_vec [2, 4])" "value_of st env 1 = Some (mk_vec [-2, -4])"
    unfolding v by (simp_all add: option.rel_eq)
  with run show ?thesis by blast
qed

text \<open>
  C30: rational values behave like values in the same way.
\<close>

theorem val_objects_are_values:
  assumes "sensible_all (\<lambda>_. True) (=) cs (\<lambda>_. None)"
  shows "\<exists>s env. exec_all isl_val_copy isl_val_free isl_val_cow cs (empty_store, \<lambda>_. None) = Some (s, env) \<and>
    (\<forall>x. rel_option (=) (value_of s env x) (value_exec_all cs (\<lambda>_. None) x)) \<and>
    ((\<forall>x. value_exec_all cs (\<lambda>_. None) x = None) \<longrightarrow> (\<forall>a. cells s a = None) \<and> isl_ctx_free s = Inr ())"
  using assms by (rule val_obj.objects_are_values)

definition val_program :: "isl_val cmd list" where
  "val_program = [Create 0 (mk_val 3 4), Copy 1 0, Update 0 (\<lambda>v. v\<lparr>val_n := 0\<rparr>), Free 0, Free 1]"

theorem val_objects_are_values_witness:
  "\<exists>s env. exec_all isl_val_copy isl_val_free isl_val_cow val_program (empty_store, \<lambda>_. None) = Some (s, env) \<and>
    (\<forall>a. cells s a = None)"
proof -
  have s: "sensible_all (\<lambda>_. True) (=) val_program (\<lambda>_. None)" by (simp add: val_program_def)
  have "value_exec_all val_program (\<lambda>_. None) x = None" for x by (simp add: val_program_def)
  with val_objects_are_values [OF s] show ?thesis by blast
qed

end
