(* ===== verification/Tab.thy ===== *)
theory Tab imports Objects begin

text \<open>
  The simplex tableau (isl_tab.h, isl_tab.c): its state, the selection of a pivot, the
  pivot itself, the detection of redundant rows and dead columns, and adding rows and
  variables.

  A variable of the tableau is named by its code: \<open>v \<ge> 0\<close> is \<open>tab->var[v]\<close>, and
  \<open>v < 0\<close> is \<open>tab->con[~v]\<close>, where \<open>~v = -1 - v\<close>; a pointer to a \<open>struct isl_tab_var\<close>
  is such a code.  Functions that return \<open>int\<close> or \<open>isl_stat\<close> return it with the changed
  tableau.
\<close>

subsection \<open>The state\<close>

record isl_tab_var =
  var_index :: int
  is_row :: bool
  is_nonneg :: bool
  is_zero :: bool
  is_redundant :: bool
  is_marked :: bool
  is_frozen :: bool
  is_negated :: bool

datatype isl_tab_undo_type =
    isl_tab_undo_bottom
  | isl_tab_undo_rational
  | isl_tab_undo_empty
  | isl_tab_undo_nonneg
  | isl_tab_undo_redundant
  | isl_tab_undo_freeze
  | isl_tab_undo_zero
  | isl_tab_undo_allocate
  | isl_tab_undo_relax
  | isl_tab_undo_unrestrict
  | isl_tab_undo_bmap_ineq
  | isl_tab_undo_bmap_eq
  | isl_tab_undo_bmap_div
  | isl_tab_undo_saved_basis
  | isl_tab_undo_drop_sample
  | isl_tab_undo_saved_samples
  | isl_tab_undo_callback
  | isl_tab_undo_ineq_to_eq

datatype isl_tab_undo_val =
    undo_none
  | undo_var_index int
  | undo_col_var "int list"
  | undo_n int
  | undo_callback nat

datatype isl_tab_row_sign =
    isl_tab_row_unknown
  | isl_tab_row_pos
  | isl_tab_row_neg
  | isl_tab_row_any

text \<open>
  \<open>struct isl_tab\<close> without the basic map and the samples; \<open>tab_undo\<close> is the undo stack from
  \<open>top\<close> down to its bottom element (empty if \<open>top\<close> is \<open>NULL\<close>).  \<open>operations\<close> is the counter of the
  context, and \<open>op_limit\<close> its \<open>max_operations\<close> and whether it is asked to \<open>abort\<close>.
\<close>

record isl_tab =
  tab_mat :: isl_mat
  t_row :: nat
  t_col :: nat
  n_dead :: nat
  n_redundant :: nat
  n_var :: nat
  n_param :: nat
  n_div :: nat
  max_var :: nat
  n_con :: nat
  n_eq :: nat
  max_con :: nat
  tab_var :: "isl_tab_var list"
  tab_con :: "isl_tab_var list"
  row_var :: "int list"
  col_var :: "int list"
  row_sign :: "isl_tab_row_sign list option"
  tab_undo :: "(isl_tab_undo_type \<times> isl_tab_undo_val) list"
  strict_redundant :: bool
  need_undo :: bool
  preserve :: bool
  tab_rational :: bool
  tab_empty :: bool
  in_undo :: bool
  tab_M :: bool
  tab_cone :: bool
  operations :: nat
  op_limit :: "nat \<times> bool"

definition tab_off :: "isl_tab \<Rightarrow> nat" where
  "tab_off tab = 2 + (if tab_M tab then 1 else 0)"

text \<open>\<open>tab->mat->row[r][c]\<close>, and an assignment to it.\<close>

abbreviation tent :: "isl_tab \<Rightarrow> nat \<Rightarrow> nat \<Rightarrow> isl_int" where
  "tent tab r c \<equiv> ent (tab_mat tab) r c"

definition upd_tab_rows :: "(isl_int list list \<Rightarrow> isl_int list list) \<Rightarrow> isl_tab \<Rightarrow> isl_tab" where
  "upd_tab_rows f tab = tab\<lparr>tab_mat := (tab_mat tab)\<lparr>mat_row := f (mat_row (tab_mat tab))\<rparr>\<rparr>"

definition fresh_tab_var :: "int \<Rightarrow> bool \<Rightarrow> isl_tab_var" where
  "fresh_tab_var i row = \<lparr>var_index = i, is_row = row, is_nonneg = False, is_zero = False,
     is_redundant = False, is_marked = False, is_frozen = False, is_negated = False\<rparr>"

definition isl_ctx_next_operation :: "isl_tab \<Rightarrow> int \<times> isl_tab" where
  "isl_ctx_next_operation tab =
     (if snd (op_limit tab) then (-1, tab)
      else if fst (op_limit tab) \<noteq> 0 \<and> fst (op_limit tab) \<le> operations tab then (-1, tab)
      else (0, tab\<lparr>operations := operations tab + 1\<rparr>))"

text \<open>\<open>ops\<close> is the state of the context after the allocations.\<close>

definition isl_tab_alloc :: "isl_int junk \<Rightarrow> isl_tab_var junk \<Rightarrow> int junk \<Rightarrow> nat \<times> nat \<times> bool \<Rightarrow> nat \<Rightarrow> nat \<Rightarrow> bool \<Rightarrow> isl_tab res" where
  "isl_tab_alloc junk vjunk cjunk ops nr nv M =
     (let off = 2 + (if M then 1 else 0)
      in take1 (isl_mat_alloc junk nr (off + nv)) (\<lambda>mat. Inr
        \<lparr>tab_mat = mat, t_row = 0, t_col = nv, n_dead = 0, n_redundant = 0,
         n_var = nv, n_param = 0, n_div = 0, max_var = nv, n_con = 0, n_eq = 0, max_con = nr,
         tab_var = map (\<lambda>i. fresh_tab_var (int i) False) [0..<nv],
         tab_con = fresh vjunk nr,
         row_var = fresh cjunk nr, col_var = map int [0..<nv], row_sign = None, tab_undo = [(isl_tab_undo_bottom, undo_none)],
         strict_redundant = False, need_undo = False, preserve = False, tab_rational = False,
         tab_empty = False, in_undo = False, tab_M = M, tab_cone = False,
         operations = fst ops, op_limit = snd ops\<rparr>))"

subsection \<open>Variables\<close>

definition var_from_index :: "isl_tab \<Rightarrow> int \<Rightarrow> isl_tab_var" where
  "var_from_index tab i = (if 0 \<le> i then tab_var tab ! nat i else tab_con tab ! nat (- 1 - i))"

definition upd_var :: "int \<Rightarrow> (isl_tab_var \<Rightarrow> isl_tab_var) \<Rightarrow> isl_tab \<Rightarrow> isl_tab" where
  "upd_var i f tab =
     (if 0 \<le> i then tab\<lparr>tab_var := (tab_var tab)[nat i := f (tab_var tab ! nat i)]\<rparr>
      else tab\<lparr>tab_con := (tab_con tab)[nat (- 1 - i) := f (tab_con tab ! nat (- 1 - i))]\<rparr>)"

definition isl_tab_var_from_row :: "isl_tab \<Rightarrow> nat \<Rightarrow> isl_tab_var" where
  "isl_tab_var_from_row tab i = var_from_index tab (row_var tab ! i)"

definition var_from_col :: "isl_tab \<Rightarrow> nat \<Rightarrow> isl_tab_var" where
  "var_from_col tab i = var_from_index tab (col_var tab ! i)"

text \<open>The row or column a variable is in.\<close>

abbreviation index_of :: "isl_tab \<Rightarrow> int \<Rightarrow> nat" where
  "index_of tab v \<equiv> nat (var_index (var_from_index tab v))"

subsection \<open>Choosing a pivot\<close>

definition max_is_manifestly_unbounded :: "isl_tab \<Rightarrow> int \<Rightarrow> bool" where
  "max_is_manifestly_unbounded tab v =
     (if is_row (var_from_index tab v) then False
      else List.find (\<lambda>i. tent tab i (tab_off tab + index_of tab v) < 0 \<and> is_nonneg (isl_tab_var_from_row tab i))
             [n_redundant tab..<t_row tab] = None)"

definition min_is_manifestly_unbounded :: "isl_tab \<Rightarrow> int \<Rightarrow> bool" where
  "min_is_manifestly_unbounded tab v =
     (if is_row (var_from_index tab v) then False
      else List.find (\<lambda>i. 0 < tent tab i (tab_off tab + index_of tab v) \<and> is_nonneg (isl_tab_var_from_row tab i))
             [n_redundant tab..<t_row tab] = None)"

definition row_cmp :: "isl_tab \<Rightarrow> nat \<Rightarrow> nat \<Rightarrow> nat \<Rightarrow> int" where
  "row_cmp tab r1 r2 c =
     (let off = tab_off tab;
          s = (if tab_M tab
               then sgn (tent tab r1 2 * tent tab r2 (off + c) - tent tab r2 2 * tent tab r1 (off + c)) else 0)
      in if s \<noteq> 0 then s
         else sgn (tent tab r1 1 * tent tab r2 (off + c) - tent tab r2 1 * tent tab r1 (off + c)))"

text \<open>\<open>var\<close> is the code of the variable whose row is left out, if any.\<close>

definition pivot_row :: "isl_tab \<Rightarrow> int option \<Rightarrow> int \<Rightarrow> nat \<Rightarrow> nat option" where
  "pivot_row tab var sg c =
     for_range (n_redundant tab) (t_row tab) (\<lambda>j r.
       if (\<exists>v. var = Some v \<and> int j = var_index (var_from_index tab v)) then r
       else if \<not> is_nonneg (isl_tab_var_from_row tab j) then r
       else if 0 \<le> sg * sgn (tent tab j (tab_off tab + c)) then r
       else case r of
              None \<Rightarrow> Some j
            | Some r' \<Rightarrow>
                let tsgn = sg * row_cmp tab r' j c
                in if tsgn < 0 \<or> (tsgn = 0 \<and> row_var tab ! j < row_var tab ! r') then Some j else r) None"

definition find_pivot_col :: "isl_tab \<Rightarrow> nat \<Rightarrow> int \<Rightarrow> nat option" where
  "find_pivot_col tab row sg =
     for_range (n_dead tab) (t_col tab) (\<lambda>j c.
       let trj = tent tab row (tab_off tab + j)
       in if trj = 0 then c
          else if sgn trj \<noteq> sg \<and> is_nonneg (var_from_col tab j) then c
          else case c of None \<Rightarrow> Some j
               | Some c' \<Rightarrow> if col_var tab ! j < col_var tab ! c' then Some j else c) None"

text \<open>The row and the column of the pivot; \<^const>\<open>None\<close> for \<open>*row = *col = -1\<close>.\<close>

definition find_pivot :: "isl_tab \<Rightarrow> int \<Rightarrow> int option \<Rightarrow> int \<Rightarrow> (nat \<times> nat) option" where
  "find_pivot tab var skip_var sg =
     (if \<not> is_row (var_from_index tab var) then None
      else let row = index_of tab var
           in case find_pivot_col tab row sg of
                None \<Rightarrow> None
              | Some c \<Rightarrow>
                  let sg = sg * sgn (tent tab row (tab_off tab + c))
                  in (case pivot_row tab skip_var sg c of None \<Rightarrow> Some (row, c) | Some r \<Rightarrow> Some (r, c)))"

subsection \<open>Undo records\<close>

text \<open>
  A record is allocated, which counts as an operation of the context; if the quota is used up,
  the stack becomes invalid.
\<close>

definition push_union :: "isl_tab \<Rightarrow> isl_tab_undo_type \<Rightarrow> isl_tab_undo_val \<Rightarrow> int \<times> isl_tab" where
  "push_union tab type u =
     (if \<not> need_undo tab then (0, tab)
      else let (ok, tab) = isl_ctx_next_operation tab
           in if ok < 0 then (-1, tab\<lparr>tab_undo := []\<rparr>)
              else (0, tab\<lparr>tab_undo := (type, u) # tab_undo tab\<rparr>))"

definition isl_tab_push_var :: "isl_tab \<Rightarrow> isl_tab_undo_type \<Rightarrow> int \<Rightarrow> int \<times> isl_tab" where
  "isl_tab_push_var tab type v =
     push_union tab type (undo_var_index
       (if is_row (var_from_index tab v) then row_var tab ! index_of tab v else col_var tab ! index_of tab v))"

definition isl_tab_push :: "isl_tab \<Rightarrow> isl_tab_undo_type \<Rightarrow> int \<times> isl_tab" where
  "isl_tab_push tab type = push_union tab type undo_none"

definition isl_tab_push_basis :: "isl_tab \<Rightarrow> int \<times> isl_tab" where
  "isl_tab_push_basis tab = push_union tab isl_tab_undo_saved_basis (undo_col_var (take (t_col tab) (col_var tab)))"

definition isl_tab_push_callback :: "isl_tab \<Rightarrow> nat \<Rightarrow> int \<times> isl_tab" where
  "isl_tab_push_callback tab callback = push_union tab isl_tab_undo_callback (undo_callback callback)"

definition isl_tab_mark_rational :: "isl_tab \<Rightarrow> int \<times> isl_tab" where
  "isl_tab_mark_rational tab =
     (let (r, tab) = (if \<not> tab_rational tab \<and> need_undo tab then isl_tab_push tab isl_tab_undo_rational else (0, tab))
      in if r < 0 then (-1, tab) else (0, tab\<lparr>tab_rational := True\<rparr>))"

definition isl_tab_mark_empty :: "isl_tab \<Rightarrow> int \<times> isl_tab" where
  "isl_tab_mark_empty tab =
     (let (r, tab) = (if \<not> tab_empty tab \<and> need_undo tab then isl_tab_push tab isl_tab_undo_empty else (0, tab))
      in if r < 0 then (-1, tab) else (0, tab\<lparr>tab_empty := True\<rparr>))"

definition isl_tab_freeze_constraint :: "isl_tab \<Rightarrow> nat \<Rightarrow> int \<times> isl_tab" where
  "isl_tab_freeze_constraint tab con =
     (let v = - 1 - int con; var = var_from_index tab v
      in if is_frozen var then (0, tab)
         else if var_index var < 0 then (0, tab)
         else let tab = upd_var v (\<lambda>var. var\<lparr>is_frozen := True\<rparr>) tab
              in if need_undo tab then isl_tab_push_var tab isl_tab_undo_freeze v else (0, tab))"

subsection \<open>Redundant rows\<close>

definition isl_tab_row_is_redundant :: "isl_tab \<Rightarrow> nat \<Rightarrow> bool" where
  "isl_tab_row_is_redundant tab row =
     (if row_var tab ! row < 0 \<and> \<not> is_nonneg (isl_tab_var_from_row tab row) then False
      else if tent tab row 1 < 0 then False
      else if strict_redundant tab \<and> tent tab row 1 = 0 then False
      else if tab_M tab \<and> tent tab row 2 < 0 then False
      else List.find (\<lambda>i. tent tab row (tab_off tab + i) \<noteq> 0 \<and>
                 (0 \<le> col_var tab ! i \<or> tent tab row (tab_off tab + i) < 0 \<or> \<not> is_nonneg (var_from_col tab i)))
             [n_dead tab..<t_col tab] = None)"

definition swap_row_vars :: "isl_tab \<Rightarrow> nat \<Rightarrow> nat \<Rightarrow> isl_tab" where
  "swap_row_vars tab row1 row2 =
     tab\<lparr>row_var := (row_var tab)[row1 := row_var tab ! row2, row2 := row_var tab ! row1]\<rparr>"

definition swap_mat_rows :: "isl_tab \<Rightarrow> nat \<Rightarrow> nat \<Rightarrow> isl_tab" where
  "swap_mat_rows tab row1 row2 =
     (case isl_mat_swap_rows (Inr (tab_mat tab)) row1 row2 of Inr mat \<Rightarrow> tab\<lparr>tab_mat := mat\<rparr> | Inl _ \<Rightarrow> tab)"

definition swap_row_signs :: "isl_tab \<Rightarrow> nat \<Rightarrow> nat \<Rightarrow> isl_tab" where
  "swap_row_signs tab row1 row2 =
     tab\<lparr>row_sign := map_option (\<lambda>s. s[row1 := s ! row2, row2 := s ! row1]) (row_sign tab)\<rparr>"

definition swap_rows :: "isl_tab \<Rightarrow> nat \<Rightarrow> nat \<Rightarrow> isl_tab" where
  "swap_rows tab row1 row2 =
     (let tab = swap_row_vars tab row1 row2;
          tab = upd_var (row_var tab ! row1) (\<lambda>var. var\<lparr>var_index := int row1\<rparr>) tab;
          tab = upd_var (row_var tab ! row2) (\<lambda>var. var\<lparr>var_index := int row2\<rparr>) tab
      in swap_row_signs (swap_mat_rows tab row1 row2) row1 row2)"

text \<open>
  A redundant row is kept among the first \<open>n_redundant\<close> rows if the marking may have to
  be undone or the row represents a variable; otherwise it is moved to the end and dropped.
\<close>

definition keep_redundant_row :: "isl_tab \<Rightarrow> nat \<Rightarrow> int \<Rightarrow> int \<times> isl_tab" where
  "keep_redundant_row tab row v =
     (let (r, tab) = (if 0 \<le> v \<and> \<not> is_nonneg (var_from_index tab v)
                      then isl_tab_push_var (upd_var v (\<lambda>var. var\<lparr>is_nonneg := True\<rparr>) tab) isl_tab_undo_nonneg v
                      else (0, tab))
      in if r < 0 then (-1, tab)
         else let tab = (if row \<noteq> n_redundant tab then swap_rows tab row (n_redundant tab) else tab)
              in isl_tab_push_var (tab\<lparr>n_redundant := n_redundant tab + 1\<rparr>) isl_tab_undo_redundant v)"

definition remove_redundant_row :: "isl_tab \<Rightarrow> nat \<Rightarrow> isl_tab" where
  "remove_redundant_row tab row =
     (let tab = (if row \<noteq> t_row tab - 1 then swap_rows tab row (t_row tab - 1) else tab);
          tab = upd_var (row_var tab ! (t_row tab - 1)) (\<lambda>var. var\<lparr>var_index := -1\<rparr>) tab
      in tab\<lparr>t_row := t_row tab - 1\<rparr>)"

definition isl_tab_mark_redundant :: "isl_tab \<Rightarrow> nat \<Rightarrow> int \<times> isl_tab" where
  "isl_tab_mark_redundant tab row =
     (let v = row_var tab ! row;
          tab = upd_var v (\<lambda>var. var\<lparr>is_redundant := True\<rparr>) tab
      in if \<not> n_redundant tab \<le> row then (-1, tab)
         else if preserve tab \<or> need_undo tab \<or> 0 \<le> v then keep_redundant_row tab row v
         else (1, remove_redundant_row tab row))"

subsection \<open>Pivoting\<close>

definition update_row_sign :: "isl_tab \<Rightarrow> nat \<Rightarrow> nat \<Rightarrow> int \<Rightarrow> isl_tab" where
  "update_row_sign tab row col row_sgn =
     (case row_sign tab of
        None \<Rightarrow> tab
      | Some s \<Rightarrow>
          if s ! row = isl_tab_row_unknown then tab
          else if \<not> 0 < row_sgn then tab
          else if s ! row \<noteq> isl_tab_row_neg then tab
          else tab\<lparr>row_sign := Some (for_range 0 (t_row tab) (\<lambda>i rs.
                 if i = row then rs
                 else let sg = sgn (tent tab i (tab_off tab + col))
                      in if sg = 0 then rs
                         else if rs ! i = isl_tab_row_unknown then rs
                         else if sg < 0 \<and> rs ! i = isl_tab_row_neg then rs
                         else if 0 < sg \<and> rs ! i = isl_tab_row_pos then rs
                         else rs[i := isl_tab_row_unknown]) (s[row := isl_tab_row_pos]))\<rparr>)"

text \<open>
  The pivot row solved for the variable of the column, on the sequence of the row:
  \<open>n\<close> columns behind \<open>off\<close> leading elements.
\<close>

definition solve_row :: "nat \<Rightarrow> nat \<Rightarrow> nat \<Rightarrow> isl_seq \<Rightarrow> isl_seq" where
  "solve_row off n col p =
     (let p = p[0 := p ! (off + col), off + col := p ! 0];
          p = (if p ! 0 < 0 then (p[0 := - (p ! 0)])[off + col := - (p ! (off + col))]
               else for_range 0 (off - 1 + n) (\<lambda>j p. if j = off - 1 + col then p else p[1 + j := - (p ! (1 + j))]) p)
      in if p ! 0 \<noteq> 1 then isl_seq_normalize p (off + n) else p)"

text \<open>The pivot row \<open>q\<close> substituted into another row.\<close>

definition substitute_row :: "nat \<Rightarrow> nat \<Rightarrow> nat \<Rightarrow> isl_seq \<Rightarrow> isl_seq \<Rightarrow> isl_seq" where
  "substitute_row off n col q p =
     (if p ! (off + col) = 0 then p
      else let p = p[0 := p ! 0 * q ! 0];
               p = for_range 0 (off - 1 + n) (\<lambda>j p.
                     if j = off - 1 + col then p
                     else let p = p[1 + j := p ! (1 + j) * q ! 0]
                          in p[1 + j := p ! (1 + j) + p ! (off + col) * q ! (1 + j)]) p;
               p = p[off + col := p ! (off + col) * q ! (off + col)]
           in if p ! 0 \<noteq> 1 then isl_seq_normalize p (off + n) else p)"

text \<open>The rows after the pivot, and the exchange of the two variables.\<close>

definition pivot_rows :: "isl_tab \<Rightarrow> nat \<Rightarrow> nat \<Rightarrow> isl_tab" where
  "pivot_rows tab row col =
     (let tab = upd_tab_rows (\<lambda>rs. upd_row rs row (solve_row (tab_off tab) (t_col tab) col)) tab
      in upd_tab_rows (\<lambda>rs. for_range 0 (t_row tab) (\<lambda>i rs.
           if i = row then rs else upd_row rs i (substitute_row (tab_off tab) (t_col tab) col (rs ! row))) rs) tab)"

definition pivot_vars :: "isl_tab \<Rightarrow> nat \<Rightarrow> nat \<Rightarrow> isl_tab" where
  "pivot_vars tab row col =
     (let t = row_var tab ! row;
          tab = tab\<lparr>row_var := (row_var tab)[row := col_var tab ! col]\<rparr>;
          tab = tab\<lparr>col_var := (col_var tab)[col := t]\<rparr>;
          tab = upd_var (row_var tab ! row) (\<lambda>var. var\<lparr>is_row := True, var_index := int row\<rparr>) tab
      in upd_var (col_var tab ! col) (\<lambda>var. var\<lparr>is_row := False, var_index := int col\<rparr>) tab)"

lemma upd_var_simps [simp]:
  "tab_mat (upd_var v f tab) = tab_mat tab" "t_row (upd_var v f tab) = t_row tab"
  "t_col (upd_var v f tab) = t_col tab" "n_dead (upd_var v f tab) = n_dead tab"
  "n_redundant (upd_var v f tab) = n_redundant tab" "n_var (upd_var v f tab) = n_var tab"
  "n_con (upd_var v f tab) = n_con tab" "row_var (upd_var v f tab) = row_var tab"
  "col_var (upd_var v f tab) = col_var tab" "row_sign (upd_var v f tab) = row_sign tab"
  "need_undo (upd_var v f tab) = need_undo tab" "preserve (upd_var v f tab) = preserve tab"
  "strict_redundant (upd_var v f tab) = strict_redundant tab" "in_undo (upd_var v f tab) = in_undo tab"
  "tab_M (upd_var v f tab) = tab_M tab" "tab_undo (upd_var v f tab) = tab_undo tab"
  "tab_off (upd_var v f tab) = tab_off tab"
  "length (tab_var (upd_var v f tab)) = length (tab_var tab)"
  "length (tab_con (upd_var v f tab)) = length (tab_con tab)"
  by (simp_all add: upd_var_def tab_off_def)

lemma swap_simps [simp]:
  "t_row (swap_row_vars tab i j) = t_row tab" "n_redundant (swap_row_vars tab i j) = n_redundant tab"
  "t_row (swap_row_signs tab i j) = t_row tab" "n_redundant (swap_row_signs tab i j) = n_redundant tab"
  "t_row (swap_mat_rows tab i j) = t_row tab" "n_redundant (swap_mat_rows tab i j) = n_redundant tab"
  by (simp_all add: swap_row_vars_def swap_row_signs_def swap_mat_rows_def split: sum.split)

lemma t_row_swap_rows [simp]:
  "t_row (swap_rows tab i j) = t_row tab" "n_redundant (swap_rows tab i j) = n_redundant tab"
  by (simp_all add: swap_rows_def Let_def)

lemma push_simps [simp]:
  "t_row (snd (isl_tab_push_var tab type v)) = t_row tab" "fst (isl_tab_push_var tab type v) \<le> 0"
  by (simp_all add: isl_tab_push_var_def push_union_def isl_ctx_next_operation_def Let_def)

lemma keep_redundant_row_rows [simp]:
  "fst (keep_redundant_row tab row v) \<le> 0" "t_row (snd (keep_redundant_row tab row v)) = t_row tab"
  by (simp_all add: keep_redundant_row_def Let_def case_prod_beta)

lemma remove_redundant_row_rows [simp]: "t_row (remove_redundant_row tab row) = t_row tab - 1"
  by (simp add: remove_redundant_row_def Let_def)

lemma mark_redundant_rows:
  "isl_tab_mark_redundant tab row = (r, tab') \<Longrightarrow>
     (r = 1 \<and> t_row tab' = t_row tab - 1) \<or> (r \<le> 0 \<and> t_row tab' = t_row tab)"
  unfolding isl_tab_mark_redundant_def Let_def
  by (auto split: if_splits)
    (metis keep_redundant_row_rows upd_var_simps(2) fst_conv snd_conv order_refl)+

text \<open>The loop that marks the rows that the pivot made redundant.\<close>

function mark_redundant_rows_from :: "isl_tab \<Rightarrow> nat \<Rightarrow> nat \<Rightarrow> int \<times> isl_tab" where
  "mark_redundant_rows_from tab col i =
     (if \<not> i < t_row tab then (0, tab)
      else if tent tab i (tab_off tab + col) = 0 then mark_redundant_rows_from tab col (i + 1)
      else if \<not> is_frozen (isl_tab_var_from_row tab i) \<and> isl_tab_row_is_redundant tab i then
        let (redo, tab) = isl_tab_mark_redundant tab i
        in if redo < 0 then (-1, tab)
           else if redo \<noteq> 0 then mark_redundant_rows_from tab col i
           else mark_redundant_rows_from tab col (i + 1)
      else mark_redundant_rows_from tab col (i + 1))"
  by pat_completeness auto
termination
  by (relation "measure (\<lambda>(tab, col, i). t_row tab - i)")
    (auto dest!: mark_redundant_rows [OF sym] simp del: mult_Suc_right)

declare mark_redundant_rows_from.simps [simp del]

definition isl_tab_pivot :: "isl_tab \<Rightarrow> nat \<Rightarrow> nat \<Rightarrow> int \<times> isl_tab" where
  "isl_tab_pivot tab row col =
     (let (ok, tab) = isl_ctx_next_operation tab
      in if ok < 0 then (-1, tab)
         else let sg = sgn (tent tab row (tab_off tab + col));
                  tab = pivot_rows tab row col;
                  tab = pivot_vars tab row col;
                  tab = update_row_sign tab row col sg
              in if in_undo tab then (0, tab) else mark_redundant_rows_from tab col (n_redundant tab))"

definition to_row :: "isl_tab \<Rightarrow> int \<Rightarrow> int \<Rightarrow> int \<times> isl_tab" where
  "to_row tab v sign =
     (let var = var_from_index tab v
      in if is_row var then (0, tab)
         else case (if sign = 0
                    then List.find (\<lambda>r. tent tab r (tab_off tab + index_of tab v) \<noteq> 0) [n_redundant tab..<t_row tab]
                    else pivot_row tab None sign (index_of tab v)) of
                None \<Rightarrow> (-1, tab)
              | Some r \<Rightarrow> isl_tab_pivot tab r (index_of tab v))"

subsection \<open>What a row says\<close>

text \<open>
  A row \<open>p\<close> says \<open>p ! 0 * z = \<Sum> p ! k * y k\<close> over the columns \<open>1 \<le> k < m\<close>: \<open>z\<close> is the value
  of the variable of the row, \<open>y k\<close> the value of column \<open>k\<close>, which is 1 for the constant
  term, the big parameter for its column, and the value of the variable of the column
  otherwise.
\<close>

definition row_sum :: "nat \<Rightarrow> isl_seq \<Rightarrow> (nat \<Rightarrow> rat) \<Rightarrow> rat" where
  "row_sum m p y = (\<Sum>k=1..<m. of_int (p ! k) * y k)"

definition row_eq :: "nat \<Rightarrow> isl_seq \<Rightarrow> rat \<Rightarrow> (nat \<Rightarrow> rat) \<Rightarrow> bool" where
  "row_eq m p z y \<longleftrightarrow> of_int (p ! 0) * z = row_sum m p y"

lemma row_eq_scale:
  assumes "g \<noteq> 0" and "0 < m" and "\<And>k. k < m \<Longrightarrow> p ! k = g * q ! k"
  shows "row_eq m p z y \<longleftrightarrow> row_eq m q z y"
proof -
  have "row_sum m p y = of_int g * row_sum m q y"
    unfolding row_sum_def sum_distrib_left by (rule sum.cong) (simp_all add: assms(3))
  moreover have "of_int (p ! 0) * z = of_int g * (of_int (q ! 0) * z)" using assms(2,3) by simp
  ultimately show ?thesis unfolding row_eq_def using assms(1) by (metis mult_left_cancel of_int_eq_0_iff)
qed

lemma normalize_scale:
  assumes "m \<le> length p" and "0 < m" and "p ! 0 \<noteq> 0"
  obtains g where "0 < g" and "\<And>k. k < m \<Longrightarrow> p ! k = g * isl_seq_normalize p m ! k"
    and "\<And>k. m \<le> k \<Longrightarrow> k < length p \<Longrightarrow> isl_seq_normalize p m ! k = p ! k"
proof
  show "0 < isl_seq_gcd p m"
    using assms isl_seq_gcd_ge_zero [of p m] isl_seq_gcd_zero_iff [of p m] by (metis order_le_less)
  show "p ! k = isl_seq_gcd p m * isl_seq_normalize p m ! k" if "k < m" for k
    using isl_seq_normalize_nth(1) [OF assms(1), of k] that assms(1) by simp
  show "isl_seq_normalize p m ! k = p ! k" if "m \<le> k" "k < length p" for k
    using isl_seq_normalize_nth(2) [OF assms(1), of k] that by simp
qed

text \<open>What \<open>solve_row\<close> does to the entries.\<close>

lemma length_solve_row [simp]: "length (solve_row off n col p) = length p"
proof -
  have l: "length (for_range 0 m (\<lambda>j p. if j = c then p else p[1 + j := - (p ! (1 + j))]) q) = length q"
    for m c and q :: "int list"
    by (rule for_range_induct [where P = "\<lambda>i t. length t = length q"]) (auto split: if_splits)
  show ?thesis by (simp add: solve_row_def Let_def l)
qed

lemma negate_others:
  fixes p :: "int list"
  assumes "1 + m \<le> length p"
  shows "k < length p \<Longrightarrow> for_range 0 m (\<lambda>j p. if j = c then p else p[1 + j := - (p ! (1 + j))]) p ! k =
    (if 1 \<le> k \<and> k < 1 + m \<and> k \<noteq> 1 + c then - (p ! k) else p ! k)"
proof -
  have "length (for_range 0 m (\<lambda>j p. if j = c then p else p[1 + j := - (p ! (1 + j))]) p) = length p \<and>
    (\<forall>k < length p. for_range 0 m (\<lambda>j p. if j = c then p else p[1 + j := - (p ! (1 + j))]) p ! k =
    (if 1 \<le> k \<and> k < 1 + m \<and> k \<noteq> 1 + c then - (p ! k) else p ! k))"
  proof (rule for_range_induct [where P = "\<lambda>i t. length t = length p \<and>
      (\<forall>k < length p. t ! k = (if 1 \<le> k \<and> k < 1 + i \<and> k \<noteq> 1 + c then - (p ! k) else p ! k))"])
    fix i and t :: "int list"
    assume "0 \<le> i" "i < m"
      "length t = length p \<and> (\<forall>k < length p. t ! k = (if 1 \<le> k \<and> k < 1 + i \<and> k \<noteq> 1 + c then - (p ! k) else p ! k))"
    then show "length (if i = c then t else t[1 + i := - (t ! (1 + i))]) = length p \<and>
      (\<forall>k < length p. (if i = c then t else t[1 + i := - (t ! (1 + i))]) ! k =
        (if 1 \<le> k \<and> k < 1 + Suc i \<and> k \<noteq> 1 + c then - (p ! k) else p ! k))"
      using assms by (auto simp: nth_list_update less_Suc_eq)
  qed auto
  then show "k < length p \<Longrightarrow> for_range 0 m (\<lambda>j p. if j = c then p else p[1 + j := - (p ! (1 + j))]) p ! k =
    (if 1 \<le> k \<and> k < 1 + m \<and> k \<noteq> 1 + c then - (p ! k) else p ! k)" by blast
qed

lemma solve_row_entries:
  assumes "off + n \<le> length p" and "0 < off" and "col < n" and "p ! (off + col) \<noteq> 0"
  defines "q \<equiv> solve_row off n col p" and "s \<equiv> sgn (p ! (off + col))"
  obtains g where "0 < g" and "g * q ! 0 = \<bar>p ! (off + col)\<bar>" and "g * q ! (off + col) = s * p ! 0"
    and "\<And>k. 1 \<le> k \<Longrightarrow> k < off + n \<Longrightarrow> k \<noteq> off + col \<Longrightarrow> g * q ! k = - s * p ! k"
    and "\<And>k. off + n \<le> k \<Longrightarrow> k < length p \<Longrightarrow> q ! k = p ! k"
proof -
  define p1 where "p1 = p[0 := p ! (off + col), off + col := p ! 0]"
  define p2 where "p2 = (if p1 ! 0 < 0 then (p1[0 := - (p1 ! 0)])[off + col := - (p1 ! (off + col))]
    else for_range 0 (off - 1 + n) (\<lambda>j p. if j = off - 1 + col then p else p[1 + j := - (p ! (1 + j))]) p1)"
  have q: "q = (if p2 ! 0 \<noteq> 1 then isl_seq_normalize p2 (off + n) else p2)"
    by (simp add: q_def solve_row_def Let_def p1_def p2_def)
  have len1: "length p1 = length p" by (simp add: p1_def)
  have c0: "off + col \<noteq> 0" "off + col < length p" using assms by auto
  have p1: "p1 ! k = (if k = 0 then p ! (off + col) else if k = off + col then p ! 0 else p ! k)"
    if "k < length p" for k
    using that c0 by (auto simp: p1_def nth_list_update)
  have "0 < length p" using c0(2) by linarith
  then have p10: "p1 ! 0 = p ! (off + col)" using p1 [of 0] by simp
  have off1: "1 + (off - 1 + n) = off + n" "1 + (off - 1 + col) = off + col" using assms(2) by auto
  have p2: "p2 ! k = (if k = 0 then \<bar>p ! (off + col)\<bar> else if k = off + col then s * p ! 0
      else if k < off + n then - s * p ! k else p ! k)"
    if "k < length p" for k
  proof (cases "p ! (off + col) < 0")
    case True
    then have "s = -1" by (simp add: s_def)
    moreover have "p2 = (p1[0 := - (p1 ! 0)])[off + col := - (p1 ! (off + col))]"
      using True p10 by (simp add: p2_def)
    ultimately show ?thesis using True that p1 [OF that] p1 [of 0] p1 [of "off + col"] c0 len1
      by (auto simp: nth_list_update)
  next
    case False
    then have s: "s = 1" and pos: "0 < p ! (off + col)" using assms(4) by (simp_all add: s_def)
    have "p2 = for_range 0 (off - 1 + n) (\<lambda>j p. if j = off - 1 + col then p else p[1 + j := - (p ! (1 + j))]) p1"
      using False p10 by (simp add: p2_def)
    then have "p2 ! k = (if 1 \<le> k \<and> k < off + n \<and> k \<noteq> off + col then - (p1 ! k) else p1 ! k)"
      using negate_others [of "off - 1 + n" p1 k "off - 1 + col"] that assms(1,2) len1 off1 by simp
    then show ?thesis using p1 [OF that] s pos c0 by auto
  qed
  have len2: "length p2 = length p"
    using length_solve_row [of off n col p] by (simp add: q q_def [symmetric] split: if_splits)
  have p20: "p2 ! 0 \<noteq> 0" using p2 [OF \<open>0 < length p\<close>] assms(4) by auto
  obtain g where g: "0 < g" "\<And>k. k < off + n \<Longrightarrow> p2 ! k = g * q ! k"
    "\<And>k. off + n \<le> k \<Longrightarrow> k < length p \<Longrightarrow> q ! k = p2 ! k"
  proof (cases "p2 ! 0 = 1")
    case True
    then show ?thesis using that [of 1] by (simp add: q)
  next
    case False
    have "off + n \<le> length p2" "0 < off + n" using assms len2 by auto
    from normalize_scale [OF this p20] obtain g where
      "0 < g" "\<And>k. k < off + n \<Longrightarrow> p2 ! k = g * isl_seq_normalize p2 (off + n) ! k"
      "\<And>k. off + n \<le> k \<Longrightarrow> k < length p2 \<Longrightarrow> isl_seq_normalize p2 (off + n) ! k = p2 ! k" by blast
    then show ?thesis using False that [of g] by (simp add: q len2)
  qed
  show thesis
  proof (rule that [OF g(1)])
    show "g * q ! 0 = \<bar>p ! (off + col)\<bar>" using g(2) [of 0] p2 [OF \<open>0 < length p\<close>] assms(2) by auto
    show "g * q ! (off + col) = s * p ! 0" using g(2) [of "off + col"] p2 [OF c0(2)] assms(2,3) by simp
    show "g * q ! k = - s * p ! k" if "1 \<le> k" "k < off + n" "k \<noteq> off + col" for k
      using g(2) [of k] p2 [of k] that assms(1) by simp
    show "q ! k = p ! k" if "off + n \<le> k" "k < length p" for k
      using g(3) [OF that] p2 [of k] that assms(2,3) by auto
  qed
qed

text \<open>The solved row says the same, with the two variables exchanged.\<close>

lemma row_sum_split:
  assumes "1 \<le> c" "c < m"
  shows "row_sum m p y = of_int (p ! c) * y c + (\<Sum>k\<in>{1..<m} - {c}. of_int (p ! k) * y k)"
  unfolding row_sum_def using assms by (subst sum.remove [of _ c]) auto

lemma solve_row_eq:
  assumes len: "off + n \<le> length p" "0 < off" "col < n" and a: "p ! (off + col) \<noteq> 0" and d: "0 < p ! 0"
  shows "0 < solve_row off n col p ! 0"
    and "row_eq (off + n) p z y \<longleftrightarrow> row_eq (off + n) (solve_row off n col p) (y (off + col)) (y(off + col := z))"
proof -
  let ?q = "solve_row off n col p" and ?c = "off + col" and ?s = "sgn (p ! (off + col))"
  obtain g where g: "0 < g" "g * ?q ! 0 = \<bar>p ! ?c\<bar>" "g * ?q ! ?c = ?s * p ! 0"
    and others: "\<And>k. 1 \<le> k \<Longrightarrow> k < off + n \<Longrightarrow> k \<noteq> ?c \<Longrightarrow> g * ?q ! k = - ?s * p ! k"
    using solve_row_entries [OF len a] by metis
  show "0 < ?q ! 0" using g(1,2) a by (metis zero_less_abs_iff zero_less_mult_pos)
  have c: "1 \<le> ?c" "?c < off + n" using len by auto
  let ?K = "{1..<off + n} - {?c}"
  define S where "S = (\<Sum>k\<in>?K. of_int (p ! k) * y k)"
  have "of_int g * (\<Sum>k\<in>?K. of_int (?q ! k) * (y(?c := z)) k) = (\<Sum>k\<in>?K. of_int (- ?s * p ! k) * y k)"
    unfolding sum_distrib_left
    by (rule sum.cong) (auto simp: others mult.assoc [symmetric] simp flip: of_int_mult)
  also have "\<dots> = - of_int ?s * S" unfolding S_def sum_distrib_left by (rule sum.cong) (simp_all add: mult.assoc)
  finally have rest: "of_int g * (\<Sum>k\<in>?K. of_int (?q ! k) * (y(?c := z)) k) = - of_int ?s * S" .
  have q0: "of_int g * of_int (?q ! 0) = (of_int ?s * of_int (p ! ?c) :: rat)"
    using g(2) by (simp add: sgn_mult_abs abs_sgn mult.commute flip: of_int_mult)
  have qc: "of_int g * of_int (?q ! ?c) = (of_int ?s * of_int (p ! 0) :: rat)" using g(3) by (simp flip: of_int_mult)
  have ne: "of_int g \<noteq> (0::rat)" "of_int ?s \<noteq> (0::rat)" using g(1) a by (simp_all add: sgn_if)
  have "row_eq (off + n) ?q (y ?c) (y(?c := z)) \<longleftrightarrow>
      of_int (?q ! 0) * y ?c = of_int (?q ! ?c) * z + (\<Sum>k\<in>?K. of_int (?q ! k) * (y(?c := z)) k)"
    by (simp add: row_eq_def row_sum_split [OF c])
  also have "\<dots> \<longleftrightarrow> of_int g * (of_int (?q ! 0) * y ?c) =
      of_int g * (of_int (?q ! ?c) * z + (\<Sum>k\<in>?K. of_int (?q ! k) * (y(?c := z)) k))"
    using ne(1) by (simp only: mult_cancel_left) simp
  also have "\<dots> \<longleftrightarrow> (of_int g * of_int (?q ! 0)) * y ?c =
      (of_int g * of_int (?q ! ?c)) * z + of_int g * (\<Sum>k\<in>?K. of_int (?q ! k) * (y(?c := z)) k)"
    by (simp only: distrib_left mult.assoc)
  also have "\<dots> \<longleftrightarrow> of_int ?s * (of_int (p ! ?c) * y ?c) = of_int ?s * (of_int (p ! 0) * z - S)"
    unfolding q0 qc rest by (simp add: algebra_simps)
  also have "\<dots> \<longleftrightarrow> of_int (p ! ?c) * y ?c = of_int (p ! 0) * z - S"
    using ne(2) by (simp only: mult_cancel_left) simp
  also have "\<dots> \<longleftrightarrow> row_eq (off + n) p z y"
    unfolding row_eq_def row_sum_split [OF c] S_def by auto
  finally show "row_eq (off + n) p z y \<longleftrightarrow> row_eq (off + n) ?q (y ?c) (y(?c := z))" by simp
qed

text \<open>The loop of \<open>substitute_row\<close>.\<close>

definition substitute_loop :: "nat \<Rightarrow> nat \<Rightarrow> nat \<Rightarrow> isl_seq \<Rightarrow> isl_seq \<Rightarrow> isl_seq" where
  "substitute_loop m c d q p = for_range 0 m (\<lambda>j p. if j = c then p
      else let p = p[1 + j := p ! (1 + j) * q ! 0] in p[1 + j := p ! (1 + j) + p ! d * q ! (1 + j)]) p"

lemma length_substitute_loop [simp]: "length (substitute_loop m c d q p) = length p"
  unfolding substitute_loop_def
  by (rule for_range_induct [where P = "\<lambda>i t. length t = length p"]) (auto simp: Let_def split: if_splits)

lemma substitute_row_loop:
  "substitute_row off n col q p =
     (if p ! (off + col) = 0 then p
      else let r = substitute_loop (off - 1 + n) (off - 1 + col) (off + col) q (p[0 := p ! 0 * q ! 0]);
               r = r[off + col := r ! (off + col) * q ! (off + col)]
           in if r ! 0 \<noteq> 1 then isl_seq_normalize r (off + n) else r)"
  by (simp only: substitute_row_def substitute_loop_def Let_def)

lemma length_substitute_row [simp]: "length (substitute_row off n col q p) = length p"
  by (simp add: substitute_row_loop Let_def)

lemma substitute_others:
  fixes p :: "int list"
  assumes "1 + m \<le> length p" and d: "d = 1 + c" "d < length p"
  shows "k < length p \<Longrightarrow> substitute_loop m c d q p ! k =
    (if 1 \<le> k \<and> k < 1 + m \<and> k \<noteq> d then p ! k * q ! 0 + p ! d * q ! k else p ! k)"
proof -
  let ?f = "\<lambda>j p. if j = c then p
      else let p = p[1 + j := p ! (1 + j) * q ! 0] in p[1 + j := p ! (1 + j) + p ! d * q ! (1 + j)]"
  let ?v = "\<lambda>i k. if 1 \<le> k \<and> k < 1 + i \<and> k \<noteq> d then p ! k * q ! 0 + p ! d * q ! k else p ! k"
  have "length (for_range 0 m ?f p) = length p \<and> (\<forall>k < length p. for_range 0 m ?f p ! k = ?v m k)"
  proof (rule for_range_induct [where P = "\<lambda>i t. length t = length p \<and> (\<forall>k < length p. t ! k = ?v i k)"])
    fix i and t :: "int list"
    assume i: "0 \<le> i" "i < m" and t: "length t = length p \<and> (\<forall>k < length p. t ! k = ?v i k)"
    show "length (?f i t) = length p \<and> (\<forall>k < length p. ?f i t ! k = ?v (Suc i) k)"
    proof (cases "i = c")
      case True
      then show ?thesis using t d by (auto simp: less_Suc_eq)
    next
      case False
      have "1 + i < length p" using i assms(1) by simp
      then have ti: "t ! (1 + i) = p ! (1 + i)" "t ! d = p ! d" using t d(2) by auto
      have "?f i t = t[1 + i := t ! (1 + i) * q ! 0 + t ! d * q ! (1 + i)]"
        using False d(1) \<open>1 + i < length p\<close> t by (simp add: Let_def)
      then show ?thesis using t ti False d \<open>1 + i < length p\<close>
        by (auto simp: nth_list_update less_Suc_eq)
    qed
  qed auto
  then show "k < length p \<Longrightarrow> substitute_loop m c d q p ! k = ?v m k" by (simp add: substitute_loop_def)
qed

lemma substitute_row_eq:
  assumes lp: "off + n \<le> length p" and off: "0 < off" "col < n" and d: "0 < p ! 0" and q0: "0 < q ! 0"
    and q: "row_eq (off + n) q (y (off + col)) (y(off + col := z))"
  shows "0 < substitute_row off n col q p ! 0"
    and "row_eq (off + n) p u y \<longleftrightarrow> row_eq (off + n) (substitute_row off n col q p) u (y(off + col := z))"
proof -
  let ?c = "off + col" and ?p' = "substitute_row off n col q p"
  have c: "1 \<le> ?c" "?c < off + n" "?c \<noteq> 0" using off by auto
  have "0 < ?p' ! 0 \<and> (row_eq (off + n) p u y \<longleftrightarrow> row_eq (off + n) ?p' u (y(?c := z)))"
  proof (cases "p ! ?c = 0")
    case True
    then have "row_sum (off + n) p (y(?c := z)) = row_sum (off + n) p y"
      unfolding row_sum_def by (intro sum.cong) auto
    with True d show ?thesis by (simp add: substitute_row_def row_eq_def)
  next
    case False
    define r where "r = substitute_loop (off - 1 + n) (off - 1 + col) ?c q (p[0 := p ! 0 * q ! 0])"
    define r' where "r' = r[?c := r ! ?c * q ! ?c]"
    have p': "?p' = (if r' ! 0 \<noteq> 1 then isl_seq_normalize r' (off + n) else r')"
      using False by (simp add: substitute_row_loop Let_def r_def r'_def)
    have len: "length r' = length p" by (simp add: r'_def r_def)
    have c_len: "?c < length p" "0 < length p" using lp c by linarith+
    have r: "r ! k = (if k = 0 then p ! 0 * q ! 0 else if k \<noteq> ?c then p ! k * q ! 0 + p ! ?c * q ! k else p ! k)"
      if "k < off + n" for k
      using substitute_others [of "off - 1 + n" "p[0 := p ! 0 * q ! 0]" ?c "off - 1 + col" k q] that lp off c_len
      unfolding r_def by (auto simp: nth_list_update)
    have r': "r' ! k = (if k = 0 then p ! 0 * q ! 0 else if k \<noteq> ?c then p ! k * q ! 0 + p ! ?c * q ! k else p ! ?c * q ! ?c)"
      if "k < off + n" for k
      using r [OF that] r [of ?c] that c c_len len unfolding r'_def by (auto simp: nth_list_update)
    have r'0: "0 < r' ! 0" using r' [of 0] c d q0 by simp
    have same: "0 < ?p' ! 0 \<and> (row_eq (off + n) r' u (y(?c := z)) \<longleftrightarrow> row_eq (off + n) ?p' u (y(?c := z)))"
    proof (cases "r' ! 0 = 1")
      case True
      with r'0 show ?thesis by (simp add: p')
    next
      case False
      have "off + n \<le> length r'" "0 < off + n" "r' ! 0 \<noteq> 0" using lp len off r'0 by auto
      from normalize_scale [OF this] obtain g where g: "0 < g"
        "\<And>k. k < off + n \<Longrightarrow> r' ! k = g * isl_seq_normalize r' (off + n) ! k" by blast
      have "0 < ?p' ! 0" using g(2) [of 0] g(1) r'0 False off by (simp add: p' zero_less_mult_iff)
      moreover have "row_eq (off + n) r' u (y(?c := z)) \<longleftrightarrow> row_eq (off + n) ?p' u (y(?c := z))"
        using row_eq_scale [of g "off + n" r' ?p'] g False off by (simp add: p')
      ultimately show ?thesis by blast
    qed
    let ?K = "{1..<off + n} - {?c}"
    define S T where "S = (\<Sum>k\<in>?K. of_int (p ! k) * y k)" and "T = (\<Sum>k\<in>?K. of_int (q ! k) * y k)"
    have "(\<Sum>k\<in>?K. of_int (r' ! k) * (y(?c := z)) k) =
        (\<Sum>k\<in>?K. of_int (q ! 0) * (of_int (p ! k) * y k) + of_int (p ! ?c) * (of_int (q ! k) * y k))"
      by (rule sum.cong) (auto simp: r' algebra_simps)
    also have "\<dots> = of_int (q ! 0) * S + of_int (p ! ?c) * T"
      by (simp add: sum.distrib sum_distrib_left S_def T_def)
    finally have sr: "row_sum (off + n) r' (y(?c := z)) =
        of_int (p ! ?c) * (of_int (q ! ?c) * z) + of_int (q ! 0) * S + of_int (p ! ?c) * T"
      using r' [OF c(2)] c by (simp add: row_sum_split [OF c(1,2)] mult.assoc)
    have sq: "of_int (q ! 0) * y ?c = of_int (q ! ?c) * z + T"
    proof -
      have "(\<Sum>k\<in>?K. of_int (q ! k) * (y(?c := z)) k) = T" unfolding T_def by (rule sum.cong) auto
      with q show ?thesis by (simp add: row_eq_def row_sum_split [OF c(1,2)])
    qed
    have sp: "row_sum (off + n) p y = of_int (p ! ?c) * y ?c + S"
      by (simp add: row_sum_split [OF c(1,2)] S_def)
    have "row_sum (off + n) r' (y(?c := z)) = of_int (p ! ?c) * (of_int (q ! ?c) * z + T) + of_int (q ! 0) * S"
      unfolding sr by (simp add: algebra_simps)
    also have "\<dots> = of_int (q ! 0) * (of_int (p ! ?c) * y ?c + S)"
      unfolding sq [symmetric] by (simp add: algebra_simps)
    finally have "row_sum (off + n) r' (y(?c := z)) = of_int (q ! 0) * row_sum (off + n) p y" by (simp only: sp)
    moreover have "of_int (r' ! 0) * u = of_int (q ! 0) * (of_int (p ! 0) * u)" using r' [of 0] c by simp
    moreover have "(of_int (q ! 0) :: rat) \<noteq> 0" using q0 by simp
    ultimately have "row_eq (off + n) r' u (y(?c := z)) \<longleftrightarrow> row_eq (off + n) p u y"
      unfolding row_eq_def by (simp only: mult_cancel_left) simp
    with same show ?thesis by blast
  qed
  then show "0 < ?p' ! 0" "row_eq (off + n) p u y \<longleftrightarrow> row_eq (off + n) ?p' u (y(?c := z))" by auto
qed

end
