(* ===== verification/Tab_Pivot.thy ===== *)
theory Tab_Pivot imports Tab begin

text \<open>
  The pivot of the simplex tableau (isl_tab.c): the well-formed tableaus, the points a
  tableau describes, and the proof that exchanging a row and a column keeps both.
\<close>

subsection \<open>Well-formed tableaus and their solutions\<close>

definition tab_code :: "isl_tab \<Rightarrow> int \<Rightarrow> bool" where
  "tab_code tab v \<longleftrightarrow> (if 0 \<le> v then nat v < n_var tab else nat (- 1 - v) < n_con tab)"

definition tab_shape :: "isl_tab \<Rightarrow> bool" where
  "tab_shape tab \<longleftrightarrow>
     mat_ok (tab_mat tab) \<and> t_row tab \<le> isl_mat.n_row (tab_mat tab) \<and>
     tab_off tab + t_col tab \<le> isl_mat.n_col (tab_mat tab) \<and>
     t_row tab \<le> length (row_var tab) \<and> t_col tab \<le> length (col_var tab) \<and>
     n_var tab \<le> length (tab_var tab) \<and> n_con tab \<le> length (tab_con tab) \<and>
     n_redundant tab \<le> t_row tab \<and> n_dead tab \<le> t_col tab \<and>
     isl_mat.n_row (tab_mat tab) < 2 ^ 32 \<and> isl_mat.n_col (tab_mat tab) < 2 ^ 32"

text \<open>The variables of the rows and columns know where they are; every denominator is positive.\<close>

definition at_row :: "isl_tab \<Rightarrow> int \<Rightarrow> nat \<Rightarrow> bool" where
  "at_row tab v r \<longleftrightarrow> is_row (var_from_index tab v) \<and> var_index (var_from_index tab v) = int r"

definition at_col :: "isl_tab \<Rightarrow> int \<Rightarrow> nat \<Rightarrow> bool" where
  "at_col tab v c \<longleftrightarrow> \<not> is_row (var_from_index tab v) \<and> var_index (var_from_index tab v) = int c"

definition tab_index :: "isl_tab \<Rightarrow> bool" where
  "tab_index tab \<longleftrightarrow>
     (\<forall>r < t_row tab. tab_code tab (row_var tab ! r) \<and> at_row tab (row_var tab ! r) r) \<and>
     (\<forall>c < t_col tab. tab_code tab (col_var tab ! c) \<and> at_col tab (col_var tab ! c) c) \<and>
     (\<forall>v. tab_code tab v \<longrightarrow> var_index (var_from_index tab v) = -1 \<or>
        (\<exists>r < t_row tab. row_var tab ! r = v) \<or> (\<exists>c < t_col tab. col_var tab ! c = v))"

definition tab_ok :: "isl_tab \<Rightarrow> bool" where
  "tab_ok tab \<longleftrightarrow> tab_shape tab \<and> tab_index tab \<and> (\<forall>r < t_row tab. 0 < tent tab r 0)"

definition colval :: "isl_tab \<Rightarrow> rat \<Rightarrow> (int \<Rightarrow> rat) \<Rightarrow> nat \<Rightarrow> rat" where
  "colval tab M x k =
     (if k \<le> 1 then 1 else if k < tab_off tab then M else x (col_var tab ! (k - tab_off tab)))"

definition row_holds :: "isl_tab \<Rightarrow> rat \<Rightarrow> (int \<Rightarrow> rat) \<Rightarrow> nat \<Rightarrow> bool" where
  "row_holds tab M x r \<longleftrightarrow>
     row_eq (tab_off tab + t_col tab) (mat_row (tab_mat tab) ! r) (x (row_var tab ! r)) (colval tab M x)"

text \<open>\<open>x\<close> gives a value to every variable and constraint, \<open>M\<close> is the big parameter.\<close>

definition sat :: "isl_tab \<Rightarrow> rat \<Rightarrow> (int \<Rightarrow> rat) \<Rightarrow> bool" where
  "sat tab M x \<longleftrightarrow> (\<forall>r < t_row tab. row_holds tab M x r)"

lemma tab_off_ge: "2 \<le> tab_off tab" "0 < tab_off tab" "tab_off tab \<le> 3"
  by (simp_all add: tab_off_def)

lemma tab_okD:
  assumes "tab_ok tab"
  shows "tab_shape tab" and "tab_index tab" and "r < t_row tab \<Longrightarrow> 0 < mat_row (tab_mat tab) ! r ! 0"
  using assms by (simp_all add: tab_ok_def ent_def)

lemma tab_shapeD:
  assumes "tab_shape tab"
  shows "t_row tab \<le> length (mat_row (tab_mat tab))"
    and "r < t_row tab \<Longrightarrow> tab_off tab + t_col tab \<le> length (mat_row (tab_mat tab) ! r)"
    and "t_row tab \<le> length (row_var tab)" and "t_col tab \<le> length (col_var tab)"
    and "n_redundant tab \<le> t_row tab" and "n_dead tab \<le> t_col tab"
proof -
  have m: "mat_ok (tab_mat tab)" "t_row tab \<le> isl_mat.n_row (tab_mat tab)"
    "tab_off tab + t_col tab \<le> isl_mat.n_col (tab_mat tab)"
    using assms by (simp_all add: tab_shape_def)
  then show "t_row tab \<le> length (mat_row (tab_mat tab))"
    "r < t_row tab \<Longrightarrow> tab_off tab + t_col tab \<le> length (mat_row (tab_mat tab) ! r)"
    unfolding mat_ok_def by (meson le_trans order_less_le_trans)+
qed (use assms in \<open>simp_all add: tab_shape_def\<close>)

lemma tab_indexD:
  assumes "tab_index tab"
  shows "r < t_row tab \<Longrightarrow> tab_code tab (row_var tab ! r)" and "r < t_row tab \<Longrightarrow> at_row tab (row_var tab ! r) r"
    and "c < t_col tab \<Longrightarrow> tab_code tab (col_var tab ! c)" and "c < t_col tab \<Longrightarrow> at_col tab (col_var tab ! c) c"
    and "tab_code tab v \<Longrightarrow> var_index (var_from_index tab v) \<noteq> -1 \<Longrightarrow>
      (\<exists>r < t_row tab. row_var tab ! r = v) \<or> (\<exists>c < t_col tab. col_var tab ! c = v)"
  using assms by (auto simp: tab_index_def)

lemma tab_index_inj:
  assumes "tab_index tab"
  shows "r < t_row tab \<Longrightarrow> s < t_row tab \<Longrightarrow> row_var tab ! r = row_var tab ! s \<Longrightarrow> r = s"
    and "c < t_col tab \<Longrightarrow> d < t_col tab \<Longrightarrow> col_var tab ! c = col_var tab ! d \<Longrightarrow> c = d"
    and "r < t_row tab \<Longrightarrow> c < t_col tab \<Longrightarrow> row_var tab ! r \<noteq> col_var tab ! c"
proof -
  show "r < t_row tab \<Longrightarrow> s < t_row tab \<Longrightarrow> row_var tab ! r = row_var tab ! s \<Longrightarrow> r = s"
    using tab_indexD(2) [OF assms, of r] tab_indexD(2) [OF assms, of s] by (auto simp: at_row_def)
  show "c < t_col tab \<Longrightarrow> d < t_col tab \<Longrightarrow> col_var tab ! c = col_var tab ! d \<Longrightarrow> c = d"
    using tab_indexD(4) [OF assms, of c] tab_indexD(4) [OF assms, of d] by (auto simp: at_col_def)
  show "r < t_row tab \<Longrightarrow> c < t_col tab \<Longrightarrow> row_var tab ! r \<noteq> col_var tab ! c"
    using tab_indexD(2) [OF assms, of r] tab_indexD(4) [OF assms, of c] by (auto simp: at_row_def at_col_def)
qed

subsection \<open>The pivot keeps the solutions\<close>

lemma var_upd_var:
  assumes "tab_shape tab" "tab_code tab w" "tab_code tab v"
  shows "var_from_index (upd_var v f tab) w =
    (if w = v then f (var_from_index tab v) else var_from_index tab w)"
  using assms by (auto simp: var_from_index_def upd_var_def tab_code_def tab_shape_def nth_list_update
      nat_eq_iff2 split: if_splits)

lemma tab_code_simps [simp]: "tab_code (upd_var v f tab) w = tab_code tab w"
  by (simp add: tab_code_def)

lemma tab_shape_upd_var [simp]: "tab_shape (upd_var v f tab) = tab_shape tab"
  by (simp add: tab_shape_def)

lemma upd_tab_rows_simps [simp]:
  "t_row (upd_tab_rows f tab) = t_row tab" "t_col (upd_tab_rows f tab) = t_col tab"
  "n_dead (upd_tab_rows f tab) = n_dead tab" "n_redundant (upd_tab_rows f tab) = n_redundant tab"
  "n_var (upd_tab_rows f tab) = n_var tab" "n_con (upd_tab_rows f tab) = n_con tab"
  "tab_var (upd_tab_rows f tab) = tab_var tab" "tab_con (upd_tab_rows f tab) = tab_con tab"
  "row_var (upd_tab_rows f tab) = row_var tab" "col_var (upd_tab_rows f tab) = col_var tab"
  "row_sign (upd_tab_rows f tab) = row_sign tab" "tab_M (upd_tab_rows f tab) = tab_M tab"
  "tab_off (upd_tab_rows f tab) = tab_off tab"
  "var_from_index (upd_tab_rows f tab) v = var_from_index tab v"
  "mat_row (tab_mat (upd_tab_rows f tab)) = f (mat_row (tab_mat tab))"
  "isl_mat.n_row (tab_mat (upd_tab_rows f tab)) = isl_mat.n_row (tab_mat tab)"
  "isl_mat.n_col (tab_mat (upd_tab_rows f tab)) = isl_mat.n_col (tab_mat tab)"
  by (simp_all add: upd_tab_rows_def tab_off_def var_from_index_def)

lemma pivot_rows_simps [simp]:
  "t_row (pivot_rows tab row col) = t_row tab" "t_col (pivot_rows tab row col) = t_col tab"
  "n_dead (pivot_rows tab row col) = n_dead tab" "n_redundant (pivot_rows tab row col) = n_redundant tab"
  "n_var (pivot_rows tab row col) = n_var tab" "n_con (pivot_rows tab row col) = n_con tab"
  "tab_var (pivot_rows tab row col) = tab_var tab" "tab_con (pivot_rows tab row col) = tab_con tab"
  "row_var (pivot_rows tab row col) = row_var tab" "col_var (pivot_rows tab row col) = col_var tab"
  "row_sign (pivot_rows tab row col) = row_sign tab" "tab_M (pivot_rows tab row col) = tab_M tab"
  "tab_off (pivot_rows tab row col) = tab_off tab"
  "var_from_index (pivot_rows tab row col) v = var_from_index tab v"
  "isl_mat.n_row (tab_mat (pivot_rows tab row col)) = isl_mat.n_row (tab_mat tab)"
  "isl_mat.n_col (tab_mat (pivot_rows tab row col)) = isl_mat.n_col (tab_mat tab)"
  by (simp_all add: pivot_rows_def Let_def)

lemma for_rows_except:
  assumes "m \<le> length rs" and row: "row < length rs"
  shows "for_range 0 m (\<lambda>i rs. if i = row then rs else upd_row rs i (F (rs ! row))) rs =
    map (\<lambda>i. if i < m \<and> i \<noteq> row then F (rs ! row) (rs ! i) else rs ! i) [0..<length rs]"
    (is "for_range 0 m ?f rs = ?map m")
proof (rule for_range_induct [where P = "\<lambda>n t. t = ?map n"])
  show "rs = ?map 0" by (simp add: map_nth)
next
  fix n t
  assume n: "0 \<le> n" "n < m" and t: "t = ?map n"
  show "?f n t = ?map (Suc n)"
  proof (cases "n = row")
    case True
    then show ?thesis unfolding t by (auto intro!: map_cong)
  next
    case False
    have "t ! row = rs ! row" using row by (simp add: t)
    then show ?thesis using False n assms
      by (intro nth_equalityI) (auto simp: t upd_row_def nth_list_update less_Suc_eq)
  qed
qed simp

lemma pivot_rows_nth:
  fixes col :: nat
  assumes "tab_shape tab" "row < t_row tab" "i < t_row tab"
  defines "q \<equiv> solve_row (tab_off tab) (t_col tab) col (mat_row (tab_mat tab) ! row)"
  shows "mat_row (tab_mat (pivot_rows tab row col)) ! i =
    (if i = row then q else substitute_row (tab_off tab) (t_col tab) col q (mat_row (tab_mat tab) ! i))"
proof -
  have len: "t_row tab \<le> length (mat_row (tab_mat tab))" using tab_shapeD(1) [OF assms(1)] .
  let ?rs = "upd_row (mat_row (tab_mat tab)) row (solve_row (tab_off tab) (t_col tab) col)"
  have "?rs ! row = q" using len assms(2) by (simp add: upd_row_def q_def)
  moreover have "mat_row (tab_mat (pivot_rows tab row col)) =
      map (\<lambda>i. if i < t_row tab \<and> i \<noteq> row then substitute_row (tab_off tab) (t_col tab) col (?rs ! row) (?rs ! i) else ?rs ! i) [0..<length ?rs]"
    unfolding pivot_rows_def Let_def using for_rows_except [of "t_row tab" ?rs row] len assms(2) by simp
  ultimately show ?thesis using len assms(2,3) by (simp add: upd_row_def)
qed

lemma pivot_rows_lengths:
  assumes "tab_shape tab" "row < t_row tab"
  shows "length (mat_row (tab_mat (pivot_rows tab row col))) = length (mat_row (tab_mat tab))"
    and "i < length (mat_row (tab_mat tab)) \<Longrightarrow>
      length (mat_row (tab_mat (pivot_rows tab row col)) ! i) = length (mat_row (tab_mat tab) ! i)"
proof -
  have len: "t_row tab \<le> length (mat_row (tab_mat tab))" using tab_shapeD(1) [OF assms(1)] .
  let ?rs = "upd_row (mat_row (tab_mat tab)) row (solve_row (tab_off tab) (t_col tab) col)"
  have *: "mat_row (tab_mat (pivot_rows tab row col)) =
      map (\<lambda>i. if i < t_row tab \<and> i \<noteq> row then substitute_row (tab_off tab) (t_col tab) col (?rs ! row) (?rs ! i) else ?rs ! i) [0..<length ?rs]"
    unfolding pivot_rows_def Let_def using for_rows_except [of "t_row tab" ?rs row] len assms(2) by simp
  have l: "length ?rs = length (mat_row (tab_mat tab))" by (simp add: upd_row_def)
  show "length (mat_row (tab_mat (pivot_rows tab row col))) = length (mat_row (tab_mat tab))"
    unfolding * by (simp add: l)
  show "i < length (mat_row (tab_mat tab)) \<Longrightarrow>
      length (mat_row (tab_mat (pivot_rows tab row col)) ! i) = length (mat_row (tab_mat tab) ! i)"
    unfolding * by (cases "i = row") (auto simp: upd_row_def nth_list_update)
qed

lemma pivot_rows_shape:
  assumes "tab_shape tab" "row < t_row tab"
  shows "tab_shape (pivot_rows tab row col)"
  using assms pivot_rows_lengths [OF assms] unfolding tab_shape_def mat_ok_def by simp

text \<open>What the exchange of the two variables changes.\<close>

lemma pivot_vars_simps [simp]:
  "tab_mat (pivot_vars tab row col) = tab_mat tab" "t_row (pivot_vars tab row col) = t_row tab"
  "t_col (pivot_vars tab row col) = t_col tab" "n_dead (pivot_vars tab row col) = n_dead tab"
  "n_redundant (pivot_vars tab row col) = n_redundant tab" "n_var (pivot_vars tab row col) = n_var tab"
  "n_con (pivot_vars tab row col) = n_con tab"
  "row_var (pivot_vars tab row col) = (row_var tab)[row := col_var tab ! col]"
  "col_var (pivot_vars tab row col) = (col_var tab)[col := row_var tab ! row]"
  "tab_M (pivot_vars tab row col) = tab_M tab" "tab_off (pivot_vars tab row col) = tab_off tab"
  "tab_code (pivot_vars tab row col) v = tab_code tab v"
  "tab_shape (pivot_vars tab row col) = tab_shape tab"
  by (simp_all add: pivot_vars_def Let_def tab_off_def tab_code_def tab_shape_def)

lemma pivot_vars_var:
  assumes "tab_shape tab" "tab_index tab" "row < t_row tab" "col < t_col tab" "tab_code tab v"
  shows "var_from_index (pivot_vars tab row col) v =
    (if v = col_var tab ! col then (var_from_index tab v)\<lparr>is_row := True, var_index := int row\<rparr>
     else if v = row_var tab ! row then (var_from_index tab v)\<lparr>is_row := False, var_index := int col\<rparr>
     else var_from_index tab v)"
proof -
  define tab' where "tab' = tab\<lparr>row_var := (row_var tab)[row := col_var tab ! col], col_var := (col_var tab)[col := row_var tab ! row]\<rparr>"
  have "row < length (row_var tab)" "col < length (col_var tab)" using tab_shapeD(3,4) [OF assms(1)] assms(3,4) by linarith+
  then have p: "pivot_vars tab row col = upd_var (row_var tab ! row) (\<lambda>var. var\<lparr>is_row := False, var_index := int col\<rparr>)
      (upd_var (col_var tab ! col) (\<lambda>var. var\<lparr>is_row := True, var_index := int row\<rparr>) tab')"
    by (simp add: pivot_vars_def Let_def tab'_def)
  have t': "tab_shape tab'" "\<And>v. tab_code tab' v = tab_code tab v" "\<And>v. var_from_index tab' v = var_from_index tab v"
    using assms(1) by (simp_all add: tab'_def tab_shape_def tab_code_def var_from_index_def tab_off_def)
  have codes: "tab_code tab (row_var tab ! row)" "tab_code tab (col_var tab ! col)"
    using tab_indexD(1,3) [OF assms(2)] assms(3,4) by simp_all
  have "row_var tab ! row \<noteq> col_var tab ! col" using tab_index_inj(3) [OF assms(2-4)] .
  then show ?thesis unfolding p using t' codes assms(5) by (simp add: var_upd_var)
qed

lemma pivot_vars_index:
  assumes sh: "tab_shape tab" and ix: "tab_index tab" and r: "row < t_row tab" and c: "col < t_col tab"
  shows "tab_index (pivot_vars tab row col)"
proof -
  let ?t = "pivot_vars tab row col" and ?v = "row_var tab ! row" and ?w = "col_var tab ! col"
  note var = pivot_vars_var [OF sh ix r c]
  have lr: "row < length (row_var tab)" and lc: "col < length (col_var tab)"
    using tab_shapeD(3,4) [OF sh] r c by linarith+
  have vw: "?v \<noteq> ?w" using tab_index_inj(3) [OF ix r c] .
  note codes = tab_indexD(1) [OF ix] tab_indexD(3) [OF ix]
  have rows: "tab_code tab (row_var ?t ! k) \<and> at_row ?t (row_var ?t ! k) k" if "k < t_row tab" for k
  proof (cases "k = row")
    case True
    then show ?thesis using codes(2) [OF c] lr by (simp add: at_row_def var)
  next
    case False
    then have "row_var tab ! k \<noteq> ?v" "row_var tab ! k \<noteq> ?w"
      using tab_index_inj(1) [OF ix that r] tab_index_inj(3) [OF ix that c] by auto
    then show ?thesis using False codes(1) [OF that] tab_indexD(2) [OF ix that] by (simp add: at_row_def var)
  qed
  have cols: "tab_code tab (col_var ?t ! k) \<and> at_col ?t (col_var ?t ! k) k" if "k < t_col tab" for k
  proof (cases "k = col")
    case True
    then show ?thesis using codes(1) [OF r] lc vw by (simp add: at_col_def var)
  next
    case False
    then have "col_var tab ! k \<noteq> ?w" "col_var tab ! k \<noteq> ?v"
      using tab_index_inj(2) [OF ix that c] tab_index_inj(3) [OF ix r that] by auto
    then show ?thesis using False codes(2) [OF that] tab_indexD(4) [OF ix that] by (simp add: at_col_def var)
  qed
  have all: "var_index (var_from_index ?t u) = -1 \<or> (\<exists>k < t_row tab. row_var ?t ! k = u) \<or> (\<exists>k < t_col tab. col_var ?t ! k = u)"
    if u: "tab_code tab u" for u
  proof (cases "u = ?v \<or> u = ?w")
    case True
    then show ?thesis
    proof
      assume "u = ?v" then have "col_var ?t ! col = u" using lc by simp
      with c show ?thesis by blast
    next
      assume "u = ?w" then have "row_var ?t ! row = u" using lr by simp
      with r show ?thesis by blast
    qed
  next
    case False
    then have "var_from_index ?t u = var_from_index tab u" by (simp add: var [OF u])
    moreover have "\<And>k. row_var tab ! k = u \<Longrightarrow> row_var ?t ! k = u" "\<And>k. col_var tab ! k = u \<Longrightarrow> col_var ?t ! k = u"
      using False by (simp_all, (metis nth_list_update_neq)+)
    ultimately show ?thesis using tab_indexD(5) [OF ix u] by auto
  qed
  show ?thesis unfolding tab_index_def using rows cols all by simp
qed

text \<open>The values of the columns after the exchange.\<close>

lemma colval_pivot_vars:
  assumes "col < length (col_var tab)"
  shows "colval (pivot_vars tab row col) M x = (colval tab M x)(tab_off tab + col := x (row_var tab ! row))"
  using assms tab_off_ge(1) [of tab] by (auto simp: colval_def fun_eq_iff nth_list_update)

lemma colval_at: "colval tab M x (tab_off tab + c) = x (col_var tab ! c)"
  by (simp add: colval_def tab_off_def)

lemma colval_pivot_rows [simp]: "colval (pivot_rows tab row col) = colval tab"
  by (simp add: colval_def fun_eq_iff)

lemma pivot_row_holds:
  assumes ok: "tab_ok tab" and r: "row < t_row tab" and c: "col < t_col tab"
    and ne: "tent tab row (tab_off tab + col) \<noteq> 0"
  defines "t \<equiv> pivot_vars (pivot_rows tab row col) row col"
  shows "row_holds t M x row \<longleftrightarrow> row_holds tab M x row"
    and "0 < mat_row (tab_mat t) ! row ! 0"
    and "i < t_row tab \<Longrightarrow> row_holds tab M x row \<Longrightarrow> row_holds t M x i \<longleftrightarrow> row_holds tab M x i"
    and "i < t_row tab \<Longrightarrow> 0 < mat_row (tab_mat t) ! i ! 0"
proof -
  note sh = tab_okD(1) [OF ok] and pos = tab_okD(3) [OF ok]
  let ?rs = "mat_row (tab_mat tab)" and ?off = "tab_off tab" and ?n = "t_col tab" and ?y = "colval tab M x"
  let ?q = "solve_row ?off ?n col (?rs ! row)" and ?z = "x (row_var tab ! row)"
  have lr: "row < length (row_var tab)" and lc: "col < length (col_var tab)"
    using tab_shapeD(3,4) [OF sh] r c by linarith+
  have len: "\<And>i. i < t_row tab \<Longrightarrow> ?off + ?n \<le> length (?rs ! i)" using tab_shapeD(2) [OF sh] .
  have ne': "?rs ! row ! (?off + col) \<noteq> 0" using ne by (simp add: ent_def)
  have rows: "mat_row (tab_mat t) ! i = (if i = row then ?q else substitute_row ?off ?n col ?q (?rs ! i))"
    if "i < t_row tab" for i
    using pivot_rows_nth [OF sh r that] by (simp add: t_def)
  have cv: "colval t M x = ?y(?off + col := ?z)" using colval_pivot_vars [of col "pivot_rows tab row col"] lc by (simp add: t_def)
  have yc: "?y (?off + col) = x (col_var tab ! col)" by (rule colval_at)
  have dims: "tab_off t = ?off" "t_col t = ?n" "row_var t = (row_var tab)[row := col_var tab ! col]" by (simp_all add: t_def)
  note sol = solve_row_eq [OF len [OF r] tab_off_ge(2) c ne' pos [OF r]]
  show row: "row_holds t M x row \<longleftrightarrow> row_holds tab M x row"
    using sol(2) [of ?z ?y] rows [OF r] lr by (simp add: row_holds_def cv dims yc)
  show "0 < mat_row (tab_mat t) ! row ! 0" using sol(1) rows [OF r] by simp
  show hold: "i < t_row tab \<Longrightarrow> row_holds tab M x row \<Longrightarrow> row_holds t M x i \<longleftrightarrow> row_holds tab M x i"
  proof (cases "i = row")
    case True
    then show ?thesis using row by simp
  next
    case False
    assume i: "i < t_row tab" and h: "row_holds tab M x row"
    have "row_eq (?off + ?n) ?q (?y (?off + col)) (?y(?off + col := ?z))"
      using sol(2) [of ?z ?y] h by (simp add: row_holds_def)
    from substitute_row_eq(2) [OF len [OF i] tab_off_ge(2) c pos [OF i] sol(1) this]
    show ?thesis using False rows [OF i] by (simp add: row_holds_def cv dims)
  qed
  show "i < t_row tab \<Longrightarrow> 0 < mat_row (tab_mat t) ! i ! 0"
  proof (cases "i = row")
    case True
    then show ?thesis using sol(1) rows [OF r] by simp
  next
    case False
    assume i: "i < t_row tab"
    define y :: "nat \<Rightarrow> rat" where "y = (\<lambda>k. 0)"
    have "row_eq (?off + ?n) ?q (y (?off + col)) (y(?off + col := 0))" by (simp add: row_eq_def row_sum_def y_def)
    from substitute_row_eq(1) [OF len [OF i] tab_off_ge(2) c pos [OF i] sol(1) this]
    show ?thesis using False rows [OF i] by simp
  qed
qed

text \<open>The exchange of a row and a column keeps the tableau well-formed and its solutions.\<close>

lemma pivot_step:
  assumes ok: "tab_ok tab" and r: "row < t_row tab" and c: "col < t_col tab"
    and ne: "tent tab row (tab_off tab + col) \<noteq> 0"
  defines "t \<equiv> pivot_vars (pivot_rows tab row col) row col"
  shows "tab_ok t" and "sat t M x \<longleftrightarrow> sat tab M x"
proof -
  note holds = pivot_row_holds [OF ok r c ne]
  have sh: "tab_shape (pivot_rows tab row col)" using pivot_rows_shape [OF tab_okD(1) [OF ok] r] .
  have ix: "tab_index (pivot_rows tab row col)"
    using tab_okD(2) [OF ok] by (simp add: tab_index_def tab_code_def at_row_def at_col_def)
  have "tab_index t" unfolding t_def by (rule pivot_vars_index [OF sh ix]) (use r c in simp_all)
  with sh holds(4) show "tab_ok t" by (simp add: tab_ok_def t_def ent_def)
  show "sat t M x \<longleftrightarrow> sat tab M x"
    using holds(1) [of M x] holds(3) [of _ M x] r unfolding sat_def t_def by simp blast
qed

end
