(* ===== verification/Tab_Points.thy ===== *)
theory Tab_Points imports Tab_Pivot begin

text \<open>
  The polyhedron that a simplex tableau describes (isl_tab.c), the marking of redundant rows
  (\<open>isl_tab_row_is_redundant\<close>, \<open>isl_tab_mark_redundant\<close>, \<open>swap_rows\<close>), and the proof that
  \<open>isl_tab_pivot\<close>, which exchanges a row and a column and then marks the rows that became
  redundant, keeps the polyhedron.
\<close>

subsection \<open>The points of a tableau\<close>

text \<open>
  The rows with their variables, those behind the redundant ones, and the variables that
  are in a row or column.
\<close>

definition tab_rows :: "isl_tab \<Rightarrow> (int \<times> isl_seq) set" where
  "tab_rows tab = (\<lambda>r. (row_var tab ! r, mat_row (tab_mat tab) ! r)) ` {0..<t_row tab}"

definition live_rows :: "isl_tab \<Rightarrow> (int \<times> isl_seq) set" where
  "live_rows tab = (\<lambda>r. (row_var tab ! r, mat_row (tab_mat tab) ! r)) ` {n_redundant tab..<t_row tab}"

definition col_vars :: "isl_tab \<Rightarrow> int set" where
  "col_vars tab = (\<lambda>c. col_var tab ! c) ` {0..<t_col tab}"

definition tab_vars :: "isl_tab \<Rightarrow> int set" where
  "tab_vars tab = fst ` tab_rows tab \<union> col_vars tab"

definition live_vars :: "isl_tab \<Rightarrow> int set" where
  "live_vars tab = fst ` live_rows tab \<union> col_vars tab"

definition nonneg :: "isl_tab \<Rightarrow> int \<Rightarrow> bool" where
  "nonneg tab v = is_nonneg (var_from_index tab v)"

text \<open>
  The feasible points: the rows hold, the non-negative variables outside the redundant rows
  are non-negative, the dead columns are zero.  What the redundant rows ask for follows.
\<close>

definition feasible :: "isl_tab \<Rightarrow> rat \<Rightarrow> (int \<Rightarrow> rat) \<Rightarrow> bool" where
  "feasible tab M x \<longleftrightarrow> sat tab M x \<and> (\<forall>v \<in> live_vars tab. nonneg tab v \<longrightarrow> 0 \<le> x v) \<and>
     (\<forall>c < n_dead tab. x (col_var tab ! c) = 0)"

definition implied :: "isl_tab \<Rightarrow> rat \<Rightarrow> bool" where
  "implied tab M \<longleftrightarrow> (\<forall>x. feasible tab M x \<longrightarrow> (\<forall>v \<in> tab_vars tab. nonneg tab v \<longrightarrow> 0 \<le> x v))"

text \<open>\<open>tab'\<close> has the points of \<open>tab\<close>, seen on the variables that it still has.\<close>

definition keeps_points :: "rat \<Rightarrow> isl_tab \<Rightarrow> isl_tab \<Rightarrow> bool" where
  "keeps_points M tab tab' \<longleftrightarrow> tab_vars tab' \<subseteq> tab_vars tab \<and> (\<forall>v \<in> tab_vars tab. 0 \<le> v \<longrightarrow> v \<in> tab_vars tab') \<and>
     (\<forall>x. feasible tab M x \<longrightarrow> feasible tab' M x) \<and>
     (\<forall>x. feasible tab' M x \<longrightarrow> (\<exists>y. feasible tab M y \<and> (\<forall>v \<in> tab_vars tab'. y v = x v)))"

lemma keeps_points_refl [simp]: "keeps_points M tab tab"
  by (auto simp: keeps_points_def)

lemma keeps_points_trans:
  assumes "keeps_points M a b" "keeps_points M b c"
  shows "keeps_points M a c"
  unfolding keeps_points_def
proof (intro conjI allI impI)
  show "tab_vars c \<subseteq> tab_vars a" using assms by (auto simp: keeps_points_def)
  show "\<forall>v \<in> tab_vars a. 0 \<le> v \<longrightarrow> v \<in> tab_vars c" using assms by (auto simp: keeps_points_def)
  show "feasible c M x" if "feasible a M x" for x using assms that by (auto simp: keeps_points_def)
  fix x assume "feasible c M x"
  then obtain y where y: "feasible b M y" "\<forall>v \<in> tab_vars c. y v = x v" using assms(2) by (auto simp: keeps_points_def)
  from y(1) obtain z where z: "feasible a M z" "\<forall>v \<in> tab_vars b. z v = y v" using assms(1) by (auto simp: keeps_points_def)
  have "tab_vars c \<subseteq> tab_vars b" using assms(2) by (auto simp: keeps_points_def)
  with y z have "feasible a M z \<and> (\<forall>v \<in> tab_vars c. z v = x v)" by auto
  then show "\<exists>y. feasible a M y \<and> (\<forall>v \<in> tab_vars c. y v = x v)" by blast
qed

lemma sat_rows:
  "sat tab M x \<longleftrightarrow> (\<forall>(v, p) \<in> tab_rows tab. row_eq (tab_off tab + t_col tab) p (x v) (colval tab M x))"
  by (auto simp: sat_def tab_rows_def row_holds_def)

lemma live_rows_sub: "live_rows tab \<subseteq> tab_rows tab" "live_vars tab \<subseteq> tab_vars tab"
  unfolding live_rows_def tab_rows_def live_vars_def tab_vars_def by auto

lemma tab_vars_code: "tab_ok tab \<Longrightarrow> v \<in> tab_vars tab \<Longrightarrow> tab_code tab v"
  using tab_okD(2) [of tab] by (auto simp: tab_vars_def tab_rows_def col_vars_def dest: tab_indexD(1,3))

text \<open>Fields that neither the rows nor the columns depend on.\<close>

lemma tab_frame:
  assumes "tab_mat t = tab_mat tab" "t_row t = t_row tab" "t_col t = t_col tab" "n_dead t = n_dead tab"
    "n_redundant t = n_redundant tab" "n_var t = n_var tab" "n_con t = n_con tab" "row_var t = row_var tab"
    "col_var t = col_var tab" "tab_M t = tab_M tab" "tab_var t = tab_var tab" "tab_con t = tab_con tab"
  shows "var_from_index t = var_from_index tab" "tab_ok t = tab_ok tab" "feasible t M = feasible tab M"
    "implied t M = implied tab M" "tab_vars t = tab_vars tab" "tab_rows t = tab_rows tab" "live_rows t = live_rows tab"
    "live_vars t = live_vars tab" "col_vars t = col_vars tab" "nonneg t = nonneg tab" "tab_off t = tab_off tab"
    "keeps_points M tab t" "tab_code t = tab_code tab" "colval t = colval tab"
proof -
  show v: "var_from_index t = var_from_index tab" by (simp add: var_from_index_def fun_eq_iff assms)
  show off: "tab_off t = tab_off tab" by (simp add: tab_off_def assms)
  show code: "tab_code t = tab_code tab" by (simp add: tab_code_def fun_eq_iff assms)
  show cv: "colval t = colval tab" by (simp add: colval_def fun_eq_iff assms off)
  show "tab_ok t = tab_ok tab"
    by (simp add: tab_ok_def tab_shape_def tab_index_def at_row_def at_col_def ent_def v off code assms)
  show r: "tab_rows t = tab_rows tab" "live_rows t = live_rows tab" "col_vars t = col_vars tab"
    by (simp_all add: tab_rows_def live_rows_def col_vars_def assms)
  then show w: "tab_vars t = tab_vars tab" "live_vars t = live_vars tab" by (simp_all add: tab_vars_def live_vars_def)
  show n: "nonneg t = nonneg tab" by (simp add: nonneg_def fun_eq_iff v)
  show f: "feasible t M = feasible tab M" for M by (simp add: feasible_def sat_rows fun_eq_iff r w n off assms cv)
  show "implied t M = implied tab M" by (simp add: implied_def f w n)
  show "keeps_points M tab t" by (auto simp: keeps_points_def f w)
qed

text \<open>Only the values of the variables of the tableau matter.\<close>

lemma feasible_cong:
  assumes "tab_ok tab" "\<And>v. v \<in> tab_vars tab \<Longrightarrow> x v = y v"
  shows "feasible tab M x \<longleftrightarrow> feasible tab M y"
proof -
  have cols: "x (col_var tab ! c) = y (col_var tab ! c)" if "c < t_col tab" for c
    using that assms(2) by (auto simp: tab_vars_def col_vars_def)
  have nd: "n_dead tab \<le> t_col tab" using tab_shapeD(6) [OF tab_okD(1) [OF assms(1)]] .
  have "row_sum (tab_off tab + t_col tab) p (colval tab M x) = row_sum (tab_off tab + t_col tab) p (colval tab M y)" for p
    unfolding row_sum_def by (rule sum.cong) (auto simp: colval_def cols)
  then have "sat tab M x \<longleftrightarrow> sat tab M y"
    using assms(2) by (fastforce simp: sat_rows row_eq_def tab_vars_def)
  moreover have "(\<forall>v \<in> live_vars tab. nonneg tab v \<longrightarrow> 0 \<le> x v) \<longleftrightarrow> (\<forall>v \<in> live_vars tab. nonneg tab v \<longrightarrow> 0 \<le> y v)"
    using assms(2) live_rows_sub(2) by (metis subsetD)
  moreover have "(\<forall>c < n_dead tab. x (col_var tab ! c) = 0) \<longleftrightarrow> (\<forall>c < n_dead tab. y (col_var tab ! c) = 0)"
    using cols nd by simp
  ultimately show ?thesis by (simp add: feasible_def)
qed

subsection \<open>A redundant row is implied by its columns\<close>

lemma find_None: "List.find P xs = None \<longleftrightarrow> (\<forall>x \<in> set xs. \<not> P x)"
  by (auto simp: find_None_iff)

lemma redundantD:
  assumes "isl_tab_row_is_redundant tab row"
  shows "row_var tab ! row < 0 \<Longrightarrow> is_nonneg (isl_tab_var_from_row tab row)"
    and "0 \<le> tent tab row 1" and "tab_M tab \<Longrightarrow> 0 \<le> tent tab row 2"
    and "n_dead tab \<le> i \<Longrightarrow> i < t_col tab \<Longrightarrow> tent tab row (tab_off tab + i) \<noteq> 0 \<Longrightarrow>
      0 < tent tab row (tab_off tab + i) \<and> is_nonneg (var_from_col tab i) \<and> col_var tab ! i < 0"
  using assms unfolding isl_tab_row_is_redundant_def by (auto simp: find_None not_le split: if_splits)

lemma redundant_row_value:
  assumes ok: "tab_ok tab" and r: "r < t_row tab" and red: "isl_tab_row_is_redundant tab r" and M: "0 \<le> M"
    and hold: "row_holds tab M x r" and dead: "\<forall>c < n_dead tab. x (col_var tab ! c) = 0"
    and cols: "\<forall>v \<in> col_vars tab. nonneg tab v \<longrightarrow> 0 \<le> x v"
  shows "0 \<le> x (row_var tab ! r)"
proof -
  let ?p = "mat_row (tab_mat tab) ! r" and ?off = "tab_off tab"
  have "0 \<le> of_int (?p ! k) * colval tab M x k" if k: "1 \<le> k" "k < ?off + t_col tab" for k
  proof (cases "k < ?off")
    case True
    then have "k = 1 \<or> (k = 2 \<and> tab_M tab)" using k by (auto simp: tab_off_def split: if_splits)
    then show ?thesis
    proof
      assume "k = 1"
      then show ?thesis using redundantD(2) [OF red] by (simp add: colval_def ent_def)
    next
      assume "k = 2 \<and> tab_M tab"
      then show ?thesis using redundantD(3) [OF red] M True by (simp add: colval_def ent_def)
    qed
  next
    case False
    define i where "i = k - ?off"
    then have i: "k = ?off + i" "i < t_col tab" using False k by auto
    show ?thesis
    proof (cases "i < n_dead tab \<or> ?p ! k = 0")
      case True
      then show ?thesis using dead by (auto simp: i(1) colval_at)
    next
      case False
      then have "0 < ?p ! k \<and> is_nonneg (var_from_col tab i)"
        using redundantD(4) [OF red, of i] i by (simp add: ent_def)
      moreover have "col_var tab ! i \<in> col_vars tab" using i(2) by (simp add: col_vars_def)
      ultimately show ?thesis using cols by (simp add: i(1) colval_at nonneg_def var_from_col_def)
    qed
  qed
  then have "0 \<le> row_sum (?off + t_col tab) ?p (colval tab M x)" unfolding row_sum_def by (intro sum_nonneg) auto
  moreover have "0 < ?p ! 0" using tab_okD(3) [OF ok r] .
  ultimately show ?thesis using hold by (simp add: row_holds_def row_eq_def) (metis of_int_0_less_iff zero_le_mult_iff not_le)
qed

subsection \<open>Moving rows\<close>

definition same_frame :: "isl_tab \<Rightarrow> isl_tab \<Rightarrow> bool" where
  "same_frame tab t \<longleftrightarrow> t_col t = t_col tab \<and> n_dead t = n_dead tab \<and> col_var t = col_var tab \<and>
     tab_M t = tab_M tab \<and> n_var t = n_var tab \<and> n_con t = n_con tab \<and> in_undo t = in_undo tab \<and>
     strict_redundant t = strict_redundant tab \<and> preserve t = preserve tab \<and> need_undo t = need_undo tab \<and>
     tab_rational t = tab_rational tab \<and> tab_empty t = tab_empty tab \<and> tab_cone t = tab_cone tab \<and>
     n_param t = n_param tab \<and> n_div t = n_div tab \<and> n_eq t = n_eq tab \<and>
     max_con t = max_con tab \<and> max_var t = max_var tab \<and>
     op_limit t = op_limit tab \<and>
     isl_mat.n_row (tab_mat t) = isl_mat.n_row (tab_mat tab) \<and> isl_mat.n_col (tab_mat t) = isl_mat.n_col (tab_mat tab) \<and>
     length (tab_con t) = length (tab_con tab) \<and> length (tab_var t) = length (tab_var tab) \<and>
     length (row_var t) = length (row_var tab)"

lemma same_frame_refl [simp]: "same_frame tab tab"
  by (simp add: same_frame_def)

lemma same_frame_trans: "same_frame a b \<Longrightarrow> same_frame b c \<Longrightarrow> same_frame a c"
  by (simp add: same_frame_def)

lemma same_frame_off: "same_frame tab t \<Longrightarrow> tab_off t = tab_off tab" "same_frame tab t \<Longrightarrow> tab_code t = tab_code tab"
    "same_frame tab t \<Longrightarrow> col_vars t = col_vars tab" "same_frame tab t \<Longrightarrow> colval t = colval tab"
  by (auto simp: same_frame_def tab_off_def tab_code_def col_vars_def colval_def fun_eq_iff)

lemma upd_var_frame [simp]: "same_frame tab (upd_var v f tab)"
  by (simp add: same_frame_def upd_var_def)

lemma push_frame [simp]: "same_frame tab (snd (isl_tab_push_var tab type v))"
  by (simp add: same_frame_def isl_tab_push_var_def push_union_def isl_ctx_next_operation_def)

text \<open>The context has no quota of operations, its default, and is not asked to abort.\<close>

definition unlimited :: "isl_tab \<Rightarrow> bool" where
  "unlimited tab \<longleftrightarrow> op_limit tab = (0, False)"

lemma unlimited_frame: "same_frame tab t \<Longrightarrow> unlimited t = unlimited tab"
  by (simp add: same_frame_def unlimited_def)

lemma push_unlimited [simp]: "unlimited tab \<Longrightarrow> fst (isl_tab_push_var tab type v) = 0"
  by (simp add: unlimited_def isl_tab_push_var_def push_union_def isl_ctx_next_operation_def)

lemma isl_mat_swap_rows_dims:
  assumes "isl_mat_swap_rows (Inr M) i j = Inr N"
  shows "isl_mat.n_row N = isl_mat.n_row M \<and> isl_mat.n_col N = isl_mat.n_col M"
  using assms by (auto simp: isl_mat_swap_rows_def take1_def checked_def res_simps split: sum.splits)

lemma swap_frame [simp]: "same_frame tab (swap_rows tab i j)"
proof -
  have "same_frame t (swap_row_vars t i j)" "same_frame t (swap_row_signs t i j)" for t
    by (simp_all add: same_frame_def swap_row_vars_def swap_row_signs_def)
  moreover have "same_frame t (swap_mat_rows t i j)" for t
  proof (cases "isl_mat_swap_rows (Inr (tab_mat t)) i j")
    case (Inr N)
    then show ?thesis using isl_mat_swap_rows_dims [OF Inr] by (simp add: same_frame_def swap_mat_rows_def)
  qed (simp add: swap_mat_rows_def)
  note fr = calculation this
  show ?thesis
    unfolding swap_rows_def Let_def
    by (rule same_frame_trans [OF same_frame_trans [OF same_frame_trans [OF same_frame_trans [OF fr(1) upd_var_frame] upd_var_frame] fr(3)] fr(2)])
qed

lemma swap_rows_row_var: "row_var (swap_rows tab i j) = (row_var tab)[i := row_var tab ! j, j := row_var tab ! i]"
  by (simp add: swap_rows_def Let_def swap_row_vars_def swap_row_signs_def swap_mat_rows_def split: sum.split)

lemma check_row_range_one: "i < isl_mat.n_row m \<Longrightarrow> isl_mat.n_row m < 2 ^ 32 \<Longrightarrow> check_row_range (Inr m) i (Suc 0) = Inr ()"
  by (simp add: check_row_range_def)

lemma swap_rows_mat:
  assumes "i < isl_mat.n_row (tab_mat tab)" "j < isl_mat.n_row (tab_mat tab)" "isl_mat.n_row (tab_mat tab) < 2 ^ 32"
  shows "tab_mat (swap_rows tab i j) = (tab_mat tab)\<lparr>mat_row := (mat_row (tab_mat tab))[i := mat_row (tab_mat tab) ! j, j := mat_row (tab_mat tab) ! i]\<rparr>"
proof -
  have "check_row_range (Inr (tab_mat tab)) i (Suc 0) = Inr ()" "check_row_range (Inr (tab_mat tab)) j (Suc 0) = Inr ()"
    using assms check_row_range_one by blast+
  then show ?thesis by (simp add: swap_rows_def Let_def swap_row_vars_def swap_row_signs_def swap_mat_rows_def
      isl_mat_swap_rows_def take1_def checked_def)
qed

lemma swap_rows_var:
  assumes ok: "tab_ok tab" and i: "i < t_row tab" and j: "j < t_row tab" and v: "tab_code tab v"
  shows "var_from_index (swap_rows tab i j) v =
    (if v = row_var tab ! i then (var_from_index tab v)\<lparr>var_index := int j\<rparr>
     else if v = row_var tab ! j then (var_from_index tab v)\<lparr>var_index := int i\<rparr>
     else var_from_index tab v)"
proof -
  let ?t = "swap_row_vars tab i j"
  have l: "i < length (row_var tab)" "j < length (row_var tab)"
    using tab_shapeD(3) [OF tab_okD(1) [OF ok]] i j by linarith+
  have t: "tab_shape ?t" "tab_code ?t = tab_code tab" "var_from_index ?t = var_from_index tab"
    using tab_okD(1) [OF ok] by (auto simp: swap_row_vars_def tab_shape_def tab_code_def var_from_index_def tab_off_def fun_eq_iff)
  have rv: "row_var ?t ! i = row_var tab ! j" "row_var ?t ! j = row_var tab ! i"
    using l by (auto simp: swap_row_vars_def nth_list_update)
  have codes: "tab_code tab (row_var tab ! i)" "tab_code tab (row_var tab ! j)"
    using tab_indexD(1) [OF tab_okD(2) [OF ok]] i j by auto
  have *: "var_from_index (swap_rows tab i j) v =
      var_from_index (upd_var (row_var ?t ! j) (\<lambda>var. var\<lparr>var_index := int j\<rparr>) (upd_var (row_var ?t ! i) (\<lambda>var. var\<lparr>var_index := int i\<rparr>) ?t)) v"
    by (simp add: swap_rows_def Let_def swap_row_signs_def swap_mat_rows_def var_from_index_def split: sum.split)
  show ?thesis unfolding * rv using t codes v by (auto simp: var_upd_var)
qed

text \<open>The row at \<open>r\<close> after exchanging \<open>i\<close> and \<open>j\<close>.\<close>

definition swapped :: "nat \<Rightarrow> nat \<Rightarrow> nat \<Rightarrow> nat" where
  "swapped i j r = (if r = i then j else if r = j then i else r)"

lemma nth_swapped: "i < length xs \<Longrightarrow> j < length xs \<Longrightarrow> xs[i := xs ! j, j := xs ! i] ! r = xs ! swapped i j r"
  by (auto simp: swapped_def nth_list_update)

lemma swapped_less: "i < n \<Longrightarrow> j < n \<Longrightarrow> swapped i j r < n \<longleftrightarrow> r < n"
  by (auto simp: swapped_def)

lemma swapped_ge: "m \<le> i \<Longrightarrow> m \<le> j \<Longrightarrow> m \<le> swapped i j r \<longleftrightarrow> m \<le> r"
  by (auto simp: swapped_def)

lemma swapped_swapped [simp]: "swapped i j (swapped i j r) = r"
  by (auto simp: swapped_def)

lemma image_swapped: "m \<le> i \<Longrightarrow> m \<le> j \<Longrightarrow> i < n \<Longrightarrow> j < n \<Longrightarrow> (\<lambda>r. f (swapped i j r)) ` {m..<n} = f ` {m..<n}"
  by (rule set_eqI) (force simp: image_iff swapped_less swapped_ge intro: bexI [of _ "swapped i j _"])

lemma swap_rows_ok:
  assumes ok: "tab_ok tab" and i: "i < t_row tab" and j: "j < t_row tab"
  shows "tab_ok (swap_rows tab i j)" and "tab_rows (swap_rows tab i j) = tab_rows tab"
    and "n_redundant tab \<le> i \<Longrightarrow> n_redundant tab \<le> j \<Longrightarrow> live_rows (swap_rows tab i j) = live_rows tab"
proof -
  let ?t = "swap_rows tab i j"
  note sh = tab_okD(1) [OF ok] and ix = tab_okD(2) [OF ok]
  have li: "i < length (row_var tab)" "j < length (row_var tab)" using tab_shapeD(3) [OF sh] i j by linarith+
  have lm: "i < length (mat_row (tab_mat tab))" "j < length (mat_row (tab_mat tab))" using tab_shapeD(1) [OF sh] i j by linarith+
  have nr: "i < isl_mat.n_row (tab_mat tab)" "j < isl_mat.n_row (tab_mat tab)" "isl_mat.n_row (tab_mat tab) < 2 ^ 32" using sh i j by (auto simp: tab_shape_def)
  have rv: "row_var ?t ! r = row_var tab ! swapped i j r" for r by (simp add: swap_rows_row_var nth_swapped li)
  have mr: "mat_row (tab_mat ?t) ! r = mat_row (tab_mat tab) ! swapped i j r" for r by (simp add: swap_rows_mat [OF nr] nth_swapped lm)
  note var = swap_rows_var [OF ok i j]
  note fr = swap_frame [of tab i j, unfolded same_frame_def]
  show rows: "tab_rows ?t = tab_rows tab"
    unfolding tab_rows_def t_row_swap_rows rv mr using i j
    by (rule image_swapped [where f = "\<lambda>r. (row_var tab ! r, mat_row (tab_mat tab) ! r)", OF le0 le0])
  show "n_redundant tab \<le> i \<Longrightarrow> n_redundant tab \<le> j \<Longrightarrow> live_rows ?t = live_rows tab"
    unfolding live_rows_def t_row_swap_rows rv mr
    using image_swapped [where f = "\<lambda>r. (row_var tab ! r, mat_row (tab_mat tab) ! r)", OF _ _ i j] by blast
  have off: "tab_off ?t = tab_off tab" "tab_code ?t = tab_code tab" using same_frame_off [OF swap_frame] by auto
  have lens: "length (tab_var ?t) = length (tab_var tab)" "length (tab_con ?t) = length (tab_con tab)"
    by (simp_all add: swap_rows_def Let_def swap_row_vars_def swap_row_signs_def swap_mat_rows_def split: sum.split)
  have "mat_ok (tab_mat ?t)"
    using sh lm nr(1,2) by (auto simp: mat_ok_def swap_rows_mat [OF nr] tab_shape_def nth_list_update)
  then have "tab_shape ?t" using sh fr by (simp add: tab_shape_def off lens swap_rows_row_var swap_rows_mat [OF nr])
  moreover have "tab_index ?t"
  proof -
    have inj: "\<And>r s. r < t_row tab \<Longrightarrow> s < t_row tab \<Longrightarrow> row_var tab ! r = row_var tab ! s \<longleftrightarrow> r = s"
      using tab_index_inj(1) [OF ix] by blast
    have "tab_code tab (row_var ?t ! r) \<and> at_row ?t (row_var ?t ! r) r" if r: "r < t_row tab" for r
    proof -
      have s: "swapped i j r < t_row tab" using swapped_less i j r by simp
      then show ?thesis using tab_indexD(1,2) [OF ix s] inj [OF s i] inj [OF s j]
        by (auto simp: rv at_row_def var) (auto simp: swapped_def split: if_splits)
    qed
    moreover have "tab_code tab (col_var tab ! c) \<and> at_col ?t (col_var tab ! c) c" if c: "c < t_col tab" for c
      using tab_indexD(3,4) [OF ix c] tab_index_inj(3) [OF ix i c] tab_index_inj(3) [OF ix j c] by (simp add: at_col_def var)
    moreover have "var_index (var_from_index ?t v) = -1 \<or> (\<exists>r < t_row tab. row_var ?t ! r = v) \<or> (\<exists>c < t_col tab. col_var tab ! c = v)"
      if v: "tab_code tab v" for v
    proof (cases "\<exists>r < t_row tab. row_var tab ! r = v")
      case True
      then obtain r where "r < t_row tab" "row_var tab ! r = v" by blast
      then have "row_var ?t ! swapped i j r = v" "swapped i j r < t_row tab" using i j by (simp_all add: rv swapped_less)
      then show ?thesis by blast
    next
      case False
      then have "var_from_index ?t v = var_from_index tab v" using i j var [OF v] by auto
      then show ?thesis using tab_indexD(5) [OF ix v] False by auto
    qed
    ultimately show ?thesis unfolding tab_index_def using fr by (simp add: off)
  qed
  moreover have "0 < tent ?t r 0" if "r < t_row tab" for r
    using tab_okD(3) [OF ok, of "swapped i j r"] swapped_less [OF i j] that by (simp add: ent_def mr)
  ultimately show "tab_ok ?t" by (simp add: tab_ok_def)
qed

lemma nonneg_swap_rows:
  assumes "tab_ok tab" "i < t_row tab" "j < t_row tab" "tab_code tab v"
  shows "is_nonneg (var_from_index (swap_rows tab i j) v) = is_nonneg (var_from_index tab v)"
    and "is_frozen (var_from_index (swap_rows tab i j) v) = is_frozen (var_from_index tab v)"
    and "is_row (var_from_index (swap_rows tab i j) v) = is_row (var_from_index tab v)"
    and "is_zero (var_from_index (swap_rows tab i j) v) = is_zero (var_from_index tab v)"
    and "is_redundant (var_from_index (swap_rows tab i j) v) = is_redundant (var_from_index tab v)"
  using assms by (simp_all add: swap_rows_var)

subsection \<open>Marking a row as redundant\<close>

text \<open>
  What marking the row of \<open>v\<close> does: the row leaves the live rows, and the tableau as well if
  \<open>v\<close> is a constraint that need not be kept.
\<close>

definition flags_kept :: "isl_tab \<Rightarrow> isl_tab \<Rightarrow> int \<Rightarrow> bool" where
  "flags_kept tab t w \<longleftrightarrow> is_nonneg (var_from_index t w) = is_nonneg (var_from_index tab w) \<and>
     is_frozen (var_from_index t w) = is_frozen (var_from_index tab w) \<and>
     is_row (var_from_index t w) = is_row (var_from_index tab w) \<and>
     is_zero (var_from_index t w) = is_zero (var_from_index tab w) \<and>
     is_redundant (var_from_index t w) = is_redundant (var_from_index tab w)"

definition marks :: "isl_tab \<Rightarrow> int \<Rightarrow> isl_tab \<Rightarrow> bool" where
  "marks tab v t \<longleftrightarrow> same_frame tab t \<and> live_rows t = {vp \<in> live_rows tab. fst vp \<noteq> v} \<and>
     tab_rows t \<subseteq> tab_rows tab \<and> {vp \<in> tab_rows tab. fst vp \<noteq> v \<or> 0 \<le> v} \<subseteq> tab_rows t \<and>
     (\<forall>w. tab_code tab w \<longrightarrow> w \<noteq> v \<longrightarrow> flags_kept tab t w) \<and>
     (is_redundant (var_from_index tab v) \<longrightarrow> is_redundant (var_from_index t v)) \<and>
     is_zero (var_from_index t v) = is_zero (var_from_index tab v)"

lemma marks_points:
  assumes ok: "tab_ok tab" and r: "r < t_row tab" and red: "isl_tab_row_is_redundant tab r" and M: "0 \<le> M"
    and mk: "marks tab (row_var tab ! r) t" and imp: "implied tab M"
  shows "implied t M" and "keeps_points M tab t"
proof -
  let ?v = "row_var tab ! r" and ?p = "mat_row (tab_mat tab) ! r"
  have fr: "same_frame tab t" and live: "live_rows t = {vp \<in> live_rows tab. fst vp \<noteq> ?v}" and sub: "tab_rows t \<subseteq> tab_rows tab"
    and sup: "{vp \<in> tab_rows tab. fst vp \<noteq> ?v \<or> 0 \<le> ?v} \<subseteq> tab_rows t"
    and fl: "\<And>w. tab_code tab w \<Longrightarrow> w \<noteq> ?v \<Longrightarrow> flags_kept tab t w"
    using mk by (auto simp: marks_def)
  note frame = same_frame_off [OF fr] and f = fr [unfolded same_frame_def]
  have ix: "tab_index tab" using tab_okD(2) [OF ok] .
  have vr: "(?v, ?p) \<in> tab_rows tab" using r by (auto simp: tab_rows_def)
  have only: "p = ?p" if "(?v, p) \<in> tab_rows tab" for p
    using that tab_index_inj(1) [OF ix _ r] by (auto simp: tab_rows_def)
  have vcol: "?v \<notin> col_vars tab" using tab_index_inj(3) [OF ix r] by (fastforce simp: col_vars_def)
  have vars: "tab_vars t \<subseteq> tab_vars tab" using sub by (auto simp: tab_vars_def frame)
  have lvars: "live_vars t = live_vars tab - {?v}" using vcol by (auto simp: live_vars_def live frame)
  have flag: "nonneg t w = nonneg tab w" if "w \<in> tab_vars tab" "w \<noteq> ?v" for w
    using fl [OF tab_vars_code [OF ok that(1)] that(2)] by (simp add: nonneg_def flags_kept_def)
  have val: "0 \<le> y ?v"
    if "row_holds tab M y r" "\<forall>w \<in> col_vars tab. nonneg tab w \<longrightarrow> 0 \<le> y w" "\<forall>c < n_dead tab. y (col_var tab ! c) = 0" for y
    using redundant_row_value [OF ok r red M that(1,3,2)] .
  have colsub: "col_vars tab \<subseteq> live_vars tab" "col_vars tab \<subseteq> tab_vars tab" by (auto simp: live_vars_def tab_vars_def)
  have fwd: "feasible t M y" if "feasible tab M y" for y
    unfolding feasible_def
  proof (intro conjI ballI allI impI)
    show "sat t M y" using that sub f by (auto simp: feasible_def sat_rows frame)
    show "0 \<le> y w" if w: "w \<in> live_vars t" "nonneg t w" for w
    proof -
      have "w \<in> live_vars tab" "w \<noteq> ?v" using w(1) lvars by auto
      moreover from this have "nonneg tab w" using flag [of w] w(2) live_rows_sub(2) by blast
      ultimately show ?thesis using \<open>feasible tab M y\<close> by (simp add: feasible_def)
    qed
    show "y (col_var t ! c) = 0" if "c < n_dead t" for c using that f \<open>feasible tab M y\<close> by (simp add: feasible_def)
  qed
  have bwd: "feasible tab M y" if y: "feasible t M y" "row_holds tab M y r" for y
  proof -
    have "row_eq (tab_off tab + t_col tab) p (y v) (colval tab M y)" if "(v, p) \<in> tab_rows tab" for v p
    proof (cases "v = ?v")
      case True
      then show ?thesis using only that y(2) by (simp add: row_holds_def)
    next
      case False
      then have "(v, p) \<in> tab_rows t" using sup that by auto
      then show ?thesis using y(1) f by (auto simp: feasible_def sat_rows frame)
    qed
    then have "sat tab M y" by (auto simp: sat_rows)
    moreover have dead: "\<forall>c < n_dead tab. y (col_var tab ! c) = 0" using y(1) f by (simp add: feasible_def)
    moreover have nn: "0 \<le> y w" if "w \<in> live_vars tab" "w \<noteq> ?v" "nonneg tab w" for w
      using y(1) that lvars flag [of w] live_rows_sub(2) [of tab] by (auto simp: feasible_def)
    moreover have "0 \<le> y ?v" using val [OF y(2) _ dead] nn colsub(1) vcol by blast
    ultimately show ?thesis unfolding feasible_def by metis
  qed
  have recon: "\<exists>z. feasible tab M z \<and> (\<forall>v \<in> tab_vars t. z v = y v)" if y: "feasible t M y" for y
  proof (cases "(?v, ?p) \<in> tab_rows t")
    case True
    then have "row_holds tab M y r" using y f by (auto simp: feasible_def sat_rows frame row_holds_def)
    with bwd y show ?thesis by blast
  next
    case False
    define z where "z = y(?v := row_sum (tab_off tab + t_col tab) ?p (colval tab M y) / of_int (?p ! 0))"
    have "?v \<notin> tab_vars t"
    proof
      assume "?v \<in> tab_vars t"
      then obtain p where "(?v, p) \<in> tab_rows t" using vcol by (auto simp: tab_vars_def frame)
      with False only sub show False by auto
    qed
    then have zy: "\<And>v. v \<in> tab_vars t \<Longrightarrow> z v = y v" by (auto simp: z_def)
    have "col_vars t \<subseteq> tab_vars t" by (auto simp: tab_vars_def)
    have zc: "z (col_var tab ! c) = y (col_var tab ! c)" if "c < t_col tab" for c
    proof -
      have "col_var tab ! c \<in> col_vars tab" using that by (simp add: col_vars_def)
      then show ?thesis using \<open>col_vars t \<subseteq> tab_vars t\<close> frame(3) zy by blast
    qed
    have cv: "colval tab M z k = colval tab M y k" if "k < tab_off tab + t_col tab" for k
      using zc that by (auto simp: colval_def)
    have "row_sum (tab_off tab + t_col tab) p (colval tab M z) = row_sum (tab_off tab + t_col tab) p (colval tab M y)" for p
      unfolding row_sum_def by (rule sum.cong) (auto simp: cv)
    note rs = this
    have "(of_int (?p ! 0) :: rat) \<noteq> 0" using tab_okD(3) [OF ok r] by simp
    then have hold: "row_holds tab M z r" by (simp add: row_holds_def row_eq_def rs) (simp add: z_def)
    have "feasible t M z"
      unfolding feasible_def
    proof (intro conjI ballI allI impI)
      show "sat t M z" unfolding sat_rows
      proof (safe)
        fix v p assume vp: "(v, p) \<in> tab_rows t"
        then have "z v = y v" by (intro zy) (force simp: tab_vars_def)
        then show "row_eq (tab_off t + t_col t) p (z v) (colval t M z)"
          using y vp by (auto simp: feasible_def sat_rows row_eq_def frame rs f)
      qed
      show "0 \<le> z v" if "v \<in> live_vars t" "nonneg t v" for v
        using y that zy [of v] live_rows_sub(2) [of t] by (auto simp: feasible_def)
      fix c assume c: "c < n_dead t"
      have "n_dead tab \<le> t_col tab" using tab_shapeD(6) [OF tab_okD(1) [OF ok]] .
      then have "col_var t ! c \<in> col_vars t" using c f by (auto simp: col_vars_def)
      then show "z (col_var t ! c) = 0" using y c zy \<open>col_vars t \<subseteq> tab_vars t\<close> by (auto simp: feasible_def)
    qed
    with bwd [OF this hold] zy show ?thesis by blast
  qed
  have stay: "v \<in> tab_vars t" if "v \<in> tab_vars tab" "0 \<le> v" for v
    using that sup by (force simp: tab_vars_def frame)
  show "keeps_points M tab t" unfolding keeps_points_def using vars stay fwd recon by blast
  show "implied t M" unfolding implied_def
  proof (intro allI impI ballI)
    fix y v assume y: "feasible t M y" and v: "v \<in> tab_vars t" and n: "nonneg t v"
    from recon [OF y] obtain z where z: "feasible tab M z" "\<forall>v \<in> tab_vars t. z v = y v" by blast
    have "0 \<le> z v"
    proof (cases "v = ?v")
      case True
      have "row_holds tab M z r" using z(1) r by (simp add: feasible_def sat_def)
      with val z(1) colsub(1) show ?thesis unfolding True feasible_def by blast
    next
      case False
      then show ?thesis using imp z(1) flag [OF _ False] v n vars unfolding implied_def by blast
    qed
    with z(2) v show "0 \<le> y v" by simp
  qed
qed

lemma upd_var_rows [simp]:
  "tab_rows (upd_var v f tab) = tab_rows tab" "live_rows (upd_var v f tab) = live_rows tab"
  by (simp_all add: tab_rows_def live_rows_def)

lemma upd_var_ok:
  assumes ok: "tab_ok tab" and v: "tab_code tab v"
    and f: "\<And>u. var_index (f u) = var_index u" "\<And>u. is_row (f u) = is_row u"
  shows "tab_ok (upd_var v f tab)"
proof -
  note sh = tab_okD(1) [OF ok] and ix = tab_okD(2) [OF ok]
  have var: "var_from_index (upd_var v f tab) w = (if w = v then f (var_from_index tab v) else var_from_index tab w)"
    if "tab_code tab w" for w using var_upd_var [OF sh that v] .
  have e: "is_row (var_from_index (upd_var v f tab) w) = is_row (var_from_index tab w)"
      "var_index (var_from_index (upd_var v f tab) w) = var_index (var_from_index tab w)" if "tab_code tab w" for w
    using var [OF that] by (simp_all add: f)
  have "tab_index (upd_var v f tab)"
    using ix unfolding tab_index_def by (simp add: at_row_def at_col_def e)
  with sh ok show ?thesis by (simp add: tab_ok_def ent_def)
qed

lemma push_tab [simp]:
  "tab_ok (snd (isl_tab_push_var tab type v)) = tab_ok tab"
  "tab_rows (snd (isl_tab_push_var tab type v)) = tab_rows tab"
  "live_rows (snd (isl_tab_push_var tab type v)) = live_rows tab"
  "var_from_index (snd (isl_tab_push_var tab type v)) = var_from_index tab"
  "n_redundant (snd (isl_tab_push_var tab type v)) = n_redundant tab"
  "row_var (snd (isl_tab_push_var tab type v)) = row_var tab"
  "tab_mat (snd (isl_tab_push_var tab type v)) = tab_mat tab"
  "tab_code (snd (isl_tab_push_var tab type v)) = tab_code tab"
  using tab_frame [of "snd (isl_tab_push_var tab type v)" tab] by (simp_all add: isl_tab_push_var_def push_union_def isl_ctx_next_operation_def)

lemma one_more_redundant:
  assumes ok: "tab_ok tab" and n: "n_redundant tab < t_row tab"
  defines "t \<equiv> tab\<lparr>n_redundant := n_redundant tab + 1\<rparr>" and "v \<equiv> row_var tab ! n_redundant tab"
  shows "tab_ok t" "tab_rows t = tab_rows tab" "live_rows t = {vp \<in> live_rows tab. fst vp \<noteq> v}"
    "var_from_index t = var_from_index tab" "same_frame tab t" "tab_code t = tab_code tab"
proof -
  have vf: "var_from_index t = var_from_index tab" "tab_off t = tab_off tab"
    by (simp_all add: t_def var_from_index_def tab_off_def fun_eq_iff)
  then show "var_from_index t = var_from_index tab" by simp
  show "tab_rows t = tab_rows tab" "same_frame tab t" "tab_code t = tab_code tab"
    by (simp_all add: t_def tab_rows_def same_frame_def tab_code_def fun_eq_iff)
  show "tab_ok t"
    using ok n by (simp add: tab_ok_def tab_shape_def tab_index_def at_row_def at_col_def vf) (simp add: t_def tab_code_def)
  have ne: "row_var tab ! r \<noteq> v" if "n_redundant tab < r" "r < t_row tab" for r
    using tab_index_inj(1) [OF tab_okD(2) [OF ok] _ n] that by (auto simp: v_def)
  have ivl: "{n_redundant tab..<t_row tab} = insert (n_redundant tab) {Suc (n_redundant tab)..<t_row tab}" using n by auto
  show "live_rows t = {vp \<in> live_rows tab. fst vp \<noteq> v}"
    unfolding live_rows_def ivl using ne by (auto simp: t_def v_def)
qed

lemma keep_redundant_row_marks:
  assumes ok: "tab_ok tab" and r: "n_redundant tab \<le> r" "r < t_row tab" and u: "unlimited tab"
  defines "v \<equiv> row_var tab ! r"
  defines "t \<equiv> snd (keep_redundant_row tab r v)"
  shows "tab_ok t" "marks tab v t" "n_redundant t = n_redundant tab + 1" "fst (keep_redundant_row tab r v) = 0"
proof -
  have code: "tab_code tab v" using tab_indexD(1) [OF tab_okD(2) [OF ok] r(2)] by (simp add: v_def)
  define t1 where "t1 = (if 0 \<le> v \<and> \<not> is_nonneg (var_from_index tab v)
    then snd (isl_tab_push_var (upd_var v (\<lambda>var. var\<lparr>is_nonneg := True\<rparr>) tab) isl_tab_undo_nonneg v) else tab)"
  define t2 where "t2 = (if r \<noteq> n_redundant t1 then swap_rows t1 r (n_redundant t1) else t1)"
  have "unlimited (upd_var v (\<lambda>var. var\<lparr>is_nonneg := True\<rparr>) tab)" using unlimited_frame [OF upd_var_frame] u by simp
  then have kept: "keep_redundant_row tab r v = isl_tab_push_var (t2\<lparr>n_redundant := n_redundant t2 + 1\<rparr>) isl_tab_undo_redundant v"
    by (simp add: keep_redundant_row_def Let_def t1_def t2_def case_prod_beta)
  then have t: "t = snd (isl_tab_push_var (t2\<lparr>n_redundant := n_redundant t2 + 1\<rparr>) isl_tab_undo_redundant v)"
    by (simp add: t_def)
  have "tab_ok (upd_var v (\<lambda>var. var\<lparr>is_nonneg := True\<rparr>) tab)" by (rule upd_var_ok [OF ok code]) simp_all
  then have t1: "tab_ok t1" "tab_rows t1 = tab_rows tab" "live_rows t1 = live_rows tab" "n_redundant t1 = n_redundant tab"
    "t_row t1 = t_row tab" "row_var t1 = row_var tab" "same_frame tab t1"
    using ok same_frame_trans [OF upd_var_frame push_frame] by (simp_all add: t1_def)
  have fl1: "flags_kept tab t1 w" if "tab_code tab w" "w \<noteq> v" for w
    using that var_upd_var [OF tab_okD(1) [OF ok] that(1) code] by (simp add: t1_def flags_kept_def)
  have rd1: "is_redundant (var_from_index t1 v) = is_redundant (var_from_index tab v)" "is_zero (var_from_index t1 v) = is_zero (var_from_index tab v)"
    using var_upd_var [OF tab_okD(1) [OF ok] code code] by (simp_all add: t1_def)
  have n: "n_redundant t1 < t_row t1" using r t1 by simp
  have r1: "r < t_row t1" "n_redundant t1 \<le> r" using r t1 by simp_all
  have t2: "tab_ok t2" "tab_rows t2 = tab_rows t1" "live_rows t2 = live_rows t1" "n_redundant t2 = n_redundant t1" "t_row t2 = t_row t1"
    "same_frame t1 t2"
    using swap_rows_ok [OF t1(1) r1(1) n] r1(2) t1(1) by (simp_all add: t2_def)
  have len: "r < length (row_var t1)" "n_redundant t1 < length (row_var t1)"
    using tab_shapeD(3) [OF tab_okD(1) [OF t1(1)]] r1(1) n by linarith+
  have v2: "row_var t2 ! n_redundant tab = v"
    using len by (auto simp: t2_def swap_rows_row_var v_def t1(4,6))
  have code1: "tab_code t1 = tab_code tab" using same_frame_off(2) [OF t1(7)] .
  have fl2: "flags_kept tab t2 w" if "tab_code tab w" "w \<noteq> v" for w
    using fl1 [OF that] nonneg_swap_rows [OF t1(1) r1(1) n, of w] that(1) by (simp add: t2_def flags_kept_def code1)
  have rd2: "is_redundant (var_from_index t2 v) = is_redundant (var_from_index tab v)" "is_zero (var_from_index t2 v) = is_zero (var_from_index tab v)"
    using rd1 nonneg_swap_rows(4,5) [OF t1(1) r1(1) n, of v] code by (simp_all add: t2_def code1)
  have n2: "n_redundant t2 < t_row t2" using n t2 by simp
  note t3 = one_more_redundant [OF t2(1) n2]
  show "tab_ok t" using t3(1) by (simp add: t)
  show "n_redundant t = n_redundant tab + 1" by (simp add: t t2 t1)
  have "unlimited (t2\<lparr>n_redundant := n_redundant t2 + 1\<rparr>)"
    using unlimited_frame [OF same_frame_trans [OF same_frame_trans [OF t1(7) t2(6)] t3(5)]] u by simp
  then show "fst (keep_redundant_row tab r v) = 0" by (simp add: kept)
  have "same_frame tab t"
    unfolding t by (rule same_frame_trans [OF same_frame_trans [OF same_frame_trans [OF t1(7) t2(6)] t3(5)] push_frame])
  then show "marks tab v t"
    unfolding marks_def using t3(2,3,4) fl2 rd2 by (auto simp: t t2 t1 v2 flags_kept_def)
qed

lemma remove_redundant_row_marks:
  assumes ok: "tab_ok tab" and r: "n_redundant tab \<le> r" "r < t_row tab" and v: "row_var tab ! r < 0"
  defines "t \<equiv> remove_redundant_row tab r"
  shows "tab_ok t" "marks tab (row_var tab ! r) t" "n_redundant t = n_redundant tab"
proof -
  let ?v = "row_var tab ! r" and ?l = "t_row tab - 1"
  have l: "?l < t_row tab" "n_redundant tab \<le> ?l" using r by linarith+
  define t2 where "t2 = (if r \<noteq> ?l then swap_rows tab r ?l else tab)"
  have t2: "tab_ok t2" "tab_rows t2 = tab_rows tab" "live_rows t2 = live_rows tab" "n_redundant t2 = n_redundant tab" "t_row t2 = t_row tab"
    "same_frame tab t2"
    using swap_rows_ok [OF ok r(2) l(1)] r(1) l ok by (simp_all add: t2_def)
  have len: "r < length (row_var tab)" "?l < length (row_var tab)" using tab_shapeD(3) [OF tab_okD(1) [OF ok]] r(2) l(1) by linarith+
  have v2: "row_var t2 ! ?l = ?v" using len by (auto simp: t2_def swap_rows_row_var)
  have code2: "tab_code t2 = tab_code tab" using same_frame_off(2) [OF t2(6)] .
  have fl2: "flags_kept tab t2 w" if "tab_code tab w" for w
    using nonneg_swap_rows [OF ok r(2) l(1) that] by (simp add: t2_def flags_kept_def)
  define t3 where "t3 = upd_var ?v (\<lambda>var. var\<lparr>var_index := -1\<rparr>) t2"
  have "t = (upd_var (row_var t2 ! (t_row t2 - 1)) (\<lambda>var. var\<lparr>var_index := -1\<rparr>) t2)\<lparr>t_row := t_row t2 - 1\<rparr>"
    by (simp add: t_def remove_redundant_row_def Let_def t2_def)
  then have t: "t = t3\<lparr>t_row := ?l\<rparr>" by (simp only: t2(5) v2 t3_def)
  have code: "tab_code t2 ?v" using tab_indexD(1) [OF tab_okD(2) [OF ok] r(2)] by (simp add: code2)
  have var: "var_from_index t w = (if w = ?v then (var_from_index t2 ?v)\<lparr>var_index := -1\<rparr> else var_from_index t2 w)"
    if "tab_code tab w" for w
  proof -
    have "var_from_index t w = var_from_index t3 w" by (simp add: t var_from_index_def)
    then show ?thesis using var_upd_var [OF tab_okD(1) [OF t2(1)] _ code] that by (simp add: t3_def code2)
  qed
  have "tab_code t = tab_code t2" by (simp add: t t3_def tab_code_def fun_eq_iff)
  then have off: "tab_off t = tab_off t2" "tab_code t = tab_code tab" by (simp_all add: t t3_def tab_off_def code2)
  have fields: "row_var t = row_var t2" "tab_mat t = tab_mat t2" "t_row t = ?l" "n_redundant t = n_redundant tab"
    "col_var t = col_var t2" "t_col t = t_col t2" "n_dead t = n_dead t2"
    by (simp_all add: t t3_def t2)
  then show "n_redundant t = n_redundant tab" by simp
  have ix: "tab_index t2" using tab_okD(2) [OF t2(1)] .
  have only: "row_var t2 ! s = ?v \<longleftrightarrow> s = ?l" if "s < t_row tab" for s
    using tab_index_inj(1) [OF ix, of s ?l] that l(1) v2 by (auto simp: t2)
  have notcol: "col_var t2 ! c \<noteq> ?v" if "c < t_col t2" for c
    using tab_index_inj(3) [OF ix _ that, of ?l] l(1) v2 by (auto simp: t2)
  have "tab_shape t" using tab_okD(1) [OF t2(1)] l(2) r
    by (auto simp: tab_shape_def fields off t2) (simp_all add: t t3_def)
  moreover have "tab_index t"
    unfolding tab_index_def fields off
  proof (intro conjI allI impI)
    fix s assume s: "s < ?l"
    then show "tab_code tab (row_var t2 ! s)" using tab_indexD(1) [OF ix, of s] by (simp add: t2 code2)
    then show "at_row t (row_var t2 ! s) s" using tab_indexD(2) [OF ix, of s] only [of s] s by (simp add: at_row_def var t2)
  next
    fix c assume c: "c < t_col t2"
    then show "tab_code tab (col_var t2 ! c)" using tab_indexD(3) [OF ix c] by (simp add: code2)
    then show "at_col t (col_var t2 ! c) c" using tab_indexD(4) [OF ix c] notcol [OF c] by (simp add: at_col_def var)
  next
    fix w assume w: "tab_code tab w"
    show "var_index (var_from_index t w) = -1 \<or> (\<exists>s < ?l. row_var t2 ! s = w) \<or> (\<exists>c < t_col t2. col_var t2 ! c = w)"
    proof (cases "w = ?v")
      case True
      then show ?thesis using w by (simp add: var)
    next
      case False
      have "s < ?l" if "s < t_row t2" "row_var t2 ! s = w" for s
        using False v2 that t2(5) by (metis Suc_pred' less_Suc_eq less_nat_zero_code not_less_zero gr0I Suc_diff_1)
      then show ?thesis using tab_indexD(5) [OF ix, of w] w False by (auto simp: var code2)
    qed
  qed
  moreover have "0 < tent t s 0" if "s < t_row t" for s
    using tab_okD(3) [OF t2(1), of s] that l(1) by (simp add: fields t2 ent_def)
  ultimately show "tab_ok t" by (simp add: tab_ok_def)
  have ivl: "{m..<t_row tab} = insert ?l {m..<?l}" if "m \<le> ?l" for m using l(1) that by auto
  have rows: "(\<lambda>s. (row_var t2 ! s, mat_row (tab_mat t2) ! s)) ` {m..<?l} =
      {vp \<in> (\<lambda>s. (row_var t2 ! s, mat_row (tab_mat t2) ! s)) ` {m..<t_row tab}. fst vp \<noteq> ?v}" if "m \<le> ?l" for m
    unfolding ivl [OF that] using v2 only l(1) by auto
  have "tab_rows t = {vp \<in> tab_rows tab. fst vp \<noteq> ?v}"
    using rows [of 0] unfolding t2(2) [symmetric] by (simp add: tab_rows_def fields t2)
  moreover have "live_rows t = {vp \<in> live_rows tab. fst vp \<noteq> ?v}"
    using rows [OF l(2)] unfolding t2(3) [symmetric] by (simp add: live_rows_def fields t2)
  moreover have "same_frame tab t"
  proof -
    have "same_frame tab t3" using same_frame_trans [OF t2(6) upd_var_frame] by (simp add: t3_def)
    then show ?thesis by (simp add: t same_frame_def)
  qed
  moreover have "flags_kept tab t w" if "tab_code tab w" "w \<noteq> ?v" for w
    using fl2 [OF that(1)] that by (simp add: flags_kept_def var)
  moreover have "is_redundant (var_from_index t ?v) = is_redundant (var_from_index tab ?v)"
    "is_zero (var_from_index t ?v) = is_zero (var_from_index tab ?v)"
    using fl2 [of ?v] code by (simp_all add: var flags_kept_def code2)
  ultimately show "marks tab ?v t" unfolding marks_def using v by auto
qed

lemma mark_redundant_marks:
  assumes ok: "tab_ok tab" and r: "n_redundant tab \<le> r" "r < t_row tab" and u: "unlimited tab"
    and m: "isl_tab_mark_redundant tab r = (c, t)"
  shows "tab_ok t" "marks tab (row_var tab ! r) t" "is_redundant (var_from_index t (row_var tab ! r))"
    "c = 0 \<and> n_redundant t = n_redundant tab + 1 \<or> c = 1 \<and> n_redundant t = n_redundant tab"
proof -
  let ?v = "row_var tab ! r"
  define t1 where "t1 = upd_var ?v (\<lambda>var. var\<lparr>is_redundant := True\<rparr>) tab"
  have code: "tab_code tab ?v" using tab_indexD(1) [OF tab_okD(2) [OF ok] r(2)] .
  have t1: "tab_ok t1" "tab_rows t1 = tab_rows tab" "live_rows t1 = live_rows tab" "n_redundant t1 = n_redundant tab"
    "t_row t1 = t_row tab" "row_var t1 = row_var tab" "same_frame tab t1" "tab_code t1 = tab_code tab"
    using upd_var_ok [OF ok code, of "\<lambda>var. var\<lparr>is_redundant := True\<rparr>"] by (simp_all add: t1_def fun_eq_iff)
  have fl: "flags_kept tab t1 w" if "tab_code tab w" "w \<noteq> ?v" for w
    using that var_upd_var [OF tab_okD(1) [OF ok] that(1) code] by (simp add: t1_def flags_kept_def)
  have rd: "is_redundant (var_from_index t1 ?v)" "is_zero (var_from_index t1 ?v) = is_zero (var_from_index tab ?v)"
    using var_upd_var [OF tab_okD(1) [OF ok] code code] by (simp_all add: t1_def)
  have r1: "n_redundant t1 \<le> r" "r < t_row t1" using r t1 by simp_all
  have u1: "unlimited t1" using unlimited_frame [OF t1(7)] u by simp
  have lift: "marks tab ?v t \<and> is_redundant (var_from_index t ?v)" if "marks t1 (row_var t1 ! r) t"
    using that fl rd same_frame_trans [OF t1(7)] by (auto simp: marks_def flags_kept_def t1)
  have "tab_ok t \<and> marks t1 (row_var t1 ! r) t \<and>
      (c = 0 \<and> n_redundant t = n_redundant tab + 1 \<or> c = 1 \<and> n_redundant t = n_redundant tab)"
  proof (cases "preserve t1 \<or> need_undo t1 \<or> 0 \<le> ?v")
    case True
    then have "(c, t) = keep_redundant_row t1 r ?v" using m r(1) by (simp add: isl_tab_mark_redundant_def Let_def t1_def)
    then have "t = snd (keep_redundant_row t1 r (row_var t1 ! r))" "c = fst (keep_redundant_row t1 r ?v)"
      by (simp_all add: t1 prod_eq_iff)
    then show ?thesis using keep_redundant_row_marks [OF t1(1) r1 u1] t1(4,6) by simp
  next
    case False
    then have "(c, t) = (1, remove_redundant_row t1 r)" using m r(1) by (simp add: isl_tab_mark_redundant_def Let_def t1_def)
    then show ?thesis using remove_redundant_row_marks [OF t1(1) r1] False t1 by simp
  qed
  with lift show "tab_ok t" "marks tab ?v t" "is_redundant (var_from_index t ?v)"
    "c = 0 \<and> n_redundant t = n_redundant tab + 1 \<or> c = 1 \<and> n_redundant t = n_redundant tab" by auto
qed

text \<open>What a run of markings does.\<close>

definition redundant_row :: "isl_tab \<Rightarrow> int \<times> isl_seq \<Rightarrow> bool" where
  "redundant_row tab vp \<longleftrightarrow> (\<exists>r < t_row tab. vp = (row_var tab ! r, mat_row (tab_mat tab) ! r) \<and>
     \<not> is_frozen (isl_tab_var_from_row tab r) \<and> isl_tab_row_is_redundant tab r)"

definition shrinks :: "rat \<Rightarrow> isl_tab \<Rightarrow> isl_tab \<Rightarrow> bool" where
  "shrinks M tab t \<longleftrightarrow> tab_ok t \<and> implied t M \<and> keeps_points M tab t \<and> same_frame tab t \<and>
     live_rows t \<subseteq> live_rows tab \<and> tab_rows t \<subseteq> tab_rows tab \<and>
     (\<forall>v \<in> live_vars t. flags_kept tab t v) \<and>
     (\<forall>w. tab_code tab w \<longrightarrow> is_redundant (var_from_index tab w) \<longrightarrow> is_redundant (var_from_index t w)) \<and>
     (\<forall>w. tab_code tab w \<longrightarrow> is_zero (var_from_index t w) = is_zero (var_from_index tab w)) \<and>
     (\<forall>vp \<in> live_rows tab - live_rows t. is_redundant (var_from_index t (fst vp)) \<and> redundant_row tab vp)"

lemma shrinks_refl: "tab_ok tab \<Longrightarrow> implied tab M \<Longrightarrow> shrinks M tab tab"
  by (simp add: shrinks_def flags_kept_def)

lemma is_redundant_cong:
  assumes fr: "same_frame tab t" and cols: "\<And>v. v \<in> col_vars tab \<Longrightarrow> flags_kept tab t v"
    and v: "row_var t ! r' = row_var tab ! r" and p: "mat_row (tab_mat t) ! r' = mat_row (tab_mat tab) ! r"
    and fl: "flags_kept tab t (row_var tab ! r)"
  shows "isl_tab_row_is_redundant t r' = isl_tab_row_is_redundant tab r"
    and "is_frozen (isl_tab_var_from_row t r') = is_frozen (isl_tab_var_from_row tab r)"
proof -
  have ent: "tent t r' k = tent tab r k" for k by (simp add: ent_def p)
  have nn: "is_nonneg (isl_tab_var_from_row t r') = is_nonneg (isl_tab_var_from_row tab r)"
    using fl by (simp add: isl_tab_var_from_row_def v flags_kept_def)
  show "is_frozen (isl_tab_var_from_row t r') = is_frozen (isl_tab_var_from_row tab r)"
    using fl by (simp add: isl_tab_var_from_row_def v flags_kept_def)
  have col: "is_nonneg (var_from_col t i) = is_nonneg (var_from_col tab i)" if "i < t_col tab" for i
    using cols [of "col_var tab ! i"] that fr by (simp add: var_from_col_def flags_kept_def same_frame_def col_vars_def)
  have f: "n_dead t = n_dead tab" "t_col t = t_col tab" "col_var t = col_var tab" "strict_redundant t = strict_redundant tab"
    "tab_M t = tab_M tab" "tab_off t = tab_off tab"
    using fr by (simp_all add: same_frame_def tab_off_def)
  let ?P = "\<lambda>t i. tent tab r (tab_off tab + i) \<noteq> 0 \<and>
      (0 \<le> col_var tab ! i \<or> tent tab r (tab_off tab + i) < 0 \<or> \<not> is_nonneg (var_from_col t i))"
  have "(\<forall>i \<in> set [n_dead tab..<t_col tab]. \<not> ?P t i) = (\<forall>i \<in> set [n_dead tab..<t_col tab]. \<not> ?P tab i)"
    by (rule ball_cong) (auto simp: col)
  then show "isl_tab_row_is_redundant t r' = isl_tab_row_is_redundant tab r"
    unfolding isl_tab_row_is_redundant_def find_None ent f v nn by (simp only:)
qed

lemma shrinks_trans:
  assumes ok: "tab_ok a" and ab: "shrinks M a b" and bc: "shrinks M b c"
  shows "shrinks M a c"
proof -
  have fr: "same_frame a b" "same_frame b c" and fl: "\<And>v. v \<in> live_vars b \<Longrightarrow> flags_kept a b v"
    "\<And>v. v \<in> live_vars c \<Longrightarrow> flags_kept b c v" and sub: "live_rows b \<subseteq> live_rows a" "live_rows c \<subseteq> live_rows b"
    using ab bc by (auto simp: shrinks_def)
  have lv: "live_vars c \<subseteq> live_vars b" using sub same_frame_off(3) [OF fr(2)] by (auto simp: live_vars_def)
  have code: "tab_code b = tab_code a" using same_frame_off(2) [OF fr(1)] .
  have red: "redundant_row a vp" if rb: "redundant_row b vp" and lb: "vp \<in> live_rows b" for vp
  proof -
    obtain r' where r': "vp = (row_var b ! r', mat_row (tab_mat b) ! r')"
      "\<not> is_frozen (isl_tab_var_from_row b r')" "isl_tab_row_is_redundant b r'"
      using \<open>redundant_row b vp\<close> by (auto simp: redundant_row_def)
    have "vp \<in> tab_rows a" using sub(1) lb live_rows_sub(1) by blast
    then obtain r where r: "r < t_row a" "vp = (row_var a ! r, mat_row (tab_mat a) ! r)" by (auto simp: tab_rows_def)
    have "row_var a ! r \<in> live_vars b" using lb r(2) by (force simp: live_vars_def)
    moreover have "\<And>v. v \<in> col_vars a \<Longrightarrow> flags_kept a b v"
      using fl(1) same_frame_off(3) [OF fr(1)] by (auto simp: live_vars_def)
    ultimately have "isl_tab_row_is_redundant b r' = isl_tab_row_is_redundant a r"
      "is_frozen (isl_tab_var_from_row b r') = is_frozen (isl_tab_var_from_row a r)"
      using is_redundant_cong [OF fr(1), of r' r] r'(1) r(2) fl(1) by auto
    then show ?thesis using r r' by (auto simp: redundant_row_def)
  qed
  have dropped: "is_redundant (var_from_index c (fst vp)) \<and> redundant_row a vp" if "vp \<in> live_rows a - live_rows c" for vp
  proof (cases "vp \<in> live_rows b")
    case True
    then show ?thesis using that bc red by (auto simp: shrinks_def)
  next
    case False
    have "fst vp \<in> tab_vars a" using that live_rows_sub(1) by (auto simp: tab_vars_def)
    then show ?thesis using False that ab bc tab_vars_code [OF ok] by (auto simp: shrinks_def code)
  qed
  have "flags_kept a c v" if "v \<in> live_vars c" for v
    using fl(2) [OF that] fl(1) that lv by (auto simp: flags_kept_def)
  moreover have "is_zero (var_from_index c w) = is_zero (var_from_index a w)" if "tab_code a w" for w
    using ab bc that by (simp add: shrinks_def code)
  ultimately show ?thesis
    using ab bc dropped keeps_points_trans [of M a b c] same_frame_trans [OF fr]
    unfolding shrinks_def code by blast
qed

lemma mark_redundant_shrinks:
  assumes ok: "tab_ok tab" and imp: "implied tab M" and M: "0 \<le> M" and r: "n_redundant tab \<le> r" "r < t_row tab"
    and red: "\<not> is_frozen (isl_tab_var_from_row tab r)" "isl_tab_row_is_redundant tab r" and u: "unlimited tab"
    and m: "isl_tab_mark_redundant tab r = (c, t)"
  shows "shrinks M tab t"
proof -
  note mk = mark_redundant_marks [OF ok r u m]
  note pts = marks_points [OF ok r(2) red(2) M mk(2) imp]
  let ?v = "row_var tab ! r"
  have mk': "same_frame tab t" "live_rows t = {vp \<in> live_rows tab. fst vp \<noteq> ?v}" "tab_rows t \<subseteq> tab_rows tab"
    "\<And>w. tab_code tab w \<Longrightarrow> w \<noteq> ?v \<Longrightarrow> flags_kept tab t w"
    using mk(2) by (auto simp: marks_def)
  have "?v \<notin> col_vars tab" using tab_index_inj(3) [OF tab_okD(2) [OF ok] r(2)] by (fastforce simp: col_vars_def)
  then have lv: "v \<noteq> ?v \<and> tab_code tab v" if "v \<in> live_vars t" for v
    using that mk'(2) same_frame_off(3) [OF mk'(1)] tab_vars_code [OF ok, of v] live_rows_sub(2) [of tab]
    by (auto simp: live_vars_def)
  have red': "redundant_row tab vp" if vp: "vp \<in> live_rows tab - live_rows t" for vp
  proof -
    obtain s where s: "s < t_row tab" "vp = (row_var tab ! s, mat_row (tab_mat tab) ! s)" using vp by (auto simp: live_rows_def)
    then have "row_var tab ! s = ?v" using vp mk'(2) by auto
    then have "s = r" using tab_index_inj(1) [OF tab_okD(2) [OF ok] s(1) r(2)] by simp
    then show ?thesis using s red by (auto simp: redundant_row_def)
  qed
  have "is_redundant (var_from_index t w)" if "tab_code tab w" "is_redundant (var_from_index tab w)" for w
    using mk(3) mk'(4) [OF that(1)] that(2) by (cases "w = ?v") (auto simp: flags_kept_def)
  moreover have "is_zero (var_from_index t w) = is_zero (var_from_index tab w)" if "tab_code tab w" for w
    using mk'(4) [OF that] mk(2) by (cases "w = ?v") (auto simp: flags_kept_def marks_def)
  ultimately show ?thesis
    unfolding shrinks_def using mk(1,3) pts mk' lv red' by auto
qed

lemma mark_rows_shrinks:
  "tab_ok tab \<Longrightarrow> implied tab M \<Longrightarrow> 0 \<le> M \<Longrightarrow> n_redundant tab \<le> i \<Longrightarrow> unlimited tab \<Longrightarrow>
   fst (mark_redundant_rows_from tab col i) = 0 \<and> shrinks M tab (snd (mark_redundant_rows_from tab col i))"
proof (induction tab col i rule: mark_redundant_rows_from.induct)
  case (1 tab col i)
  note hyp = "1.prems" and eq = mark_redundant_rows_from.simps [of tab col i]
  show ?case
  proof (cases "i < t_row tab \<and> tent tab i (tab_off tab + col) \<noteq> 0 \<and>
      \<not> is_frozen (isl_tab_var_from_row tab i) \<and> isl_tab_row_is_redundant tab i")
    case False
    then show ?thesis using "1.IH"(1,4) hyp shrinks_refl [OF hyp(1,2)] by (auto simp: eq)
  next
    case True
    obtain c t where m: "isl_tab_mark_redundant tab i = (c, t)" by fastforce
    note mk = mark_redundant_marks [OF hyp(1,4) _ hyp(5) m]
    have sh: "shrinks M tab t" using mark_redundant_shrinks [OF hyp(1-4) _ _ _ hyp(5) m] True by simp
    then have t: "tab_ok t" "implied t M" "unlimited t" using hyp(5) unlimited_frame by (auto simp: shrinks_def)
    let ?i = "if c = 0 then i + 1 else i"
    have "mark_redundant_rows_from tab col i = mark_redundant_rows_from t col ?i"
      using True mk(4) by (auto simp: eq m)
    moreover have "fst (mark_redundant_rows_from t col ?i) = 0 \<and> shrinks M t (snd (mark_redundant_rows_from t col ?i))"
    proof (cases "c = 0")
      case c: True
      then show ?thesis using "1.IH"(3) [OF _ _ _ m [symmetric] refl] True t hyp mk(4) by simp
    next
      case c: False
      then show ?thesis using "1.IH"(2) [OF _ _ _ m [symmetric] refl] True t hyp mk(4) by simp
    qed
    ultimately show ?thesis using shrinks_trans [OF hyp(1) sh] by simp
  qed
qed

subsection \<open>The pivot keeps the points\<close>

definition exchange_vars :: "isl_tab \<Rightarrow> nat \<Rightarrow> nat \<Rightarrow> isl_tab" where
  "exchange_vars tab row col = pivot_vars (pivot_rows tab row col) row col"

definition pivot_ok :: "isl_tab \<Rightarrow> nat \<Rightarrow> nat \<Rightarrow> bool" where
  "pivot_ok tab row col \<longleftrightarrow> n_redundant tab \<le> row \<and> row < t_row tab \<and> n_dead tab \<le> col \<and> col < t_col tab \<and>
     tent tab row (tab_off tab + col) \<noteq> 0"

lemma image_nth_update:
  "m \<le> i \<Longrightarrow> i < n \<Longrightarrow> n \<le> length xs \<Longrightarrow> (\<lambda>r. xs[i := v] ! r) ` {m..<n} = insert v ((\<lambda>r. xs ! r) ` ({m..<n} - {i}))"
proof -
  assume a: "m \<le> i" "i < n" "n \<le> length xs"
  then have "{m..<n} = insert i ({m..<n} - {i})" by auto
  then have "(\<lambda>r. xs[i := v] ! r) ` {m..<n} = insert (xs[i := v] ! i) ((\<lambda>r. xs[i := v] ! r) ` ({m..<n} - {i}))" by blast
  moreover have "(\<lambda>r. xs[i := v] ! r) ` ({m..<n} - {i}) = (\<lambda>r. xs ! r) ` ({m..<n} - {i})" by (rule image_cong) auto
  ultimately show ?thesis using a by simp
qed

lemma fst_rows: "fst ` tab_rows tab = (\<lambda>r. row_var tab ! r) ` {0..<t_row tab}"
    "fst ` live_rows tab = (\<lambda>r. row_var tab ! r) ` {n_redundant tab..<t_row tab}"
  by (simp_all add: tab_rows_def live_rows_def image_image)

text \<open>Which fields the exchange writes, and that it does not read the counters and signs.\<close>

lemma upd_var_only: "upd_var v f tab = tab\<lparr>tab_var := tab_var (upd_var v f tab), tab_con := tab_con (upd_var v f tab)\<rparr>"
  by (simp add: upd_var_def)

lemma upd_tab_rows_only: "upd_tab_rows f tab = tab\<lparr>tab_mat := tab_mat (upd_tab_rows f tab)\<rparr>"
  by (simp add: upd_tab_rows_def)

lemma upd_var_operations: "upd_var v f (tab\<lparr>operations := op\<rparr>) = upd_var v f tab \<lparr>operations := op\<rparr>"
  by (simp add: upd_var_def)

lemma upd_tab_rows_operations: "upd_tab_rows f (tab\<lparr>operations := op\<rparr>) = upd_tab_rows f tab \<lparr>operations := op\<rparr>"
  by (simp add: upd_tab_rows_def)

lemma exchange_operations: "exchange_vars (tab\<lparr>operations := op\<rparr>) row col = exchange_vars tab row col \<lparr>operations := op\<rparr>"
proof -
  have r: "pivot_rows (tab\<lparr>operations := op\<rparr>) row col = pivot_rows tab row col \<lparr>operations := op\<rparr>"
  proof -
    have f: "tab_off (t\<lparr>operations := op\<rparr>) = tab_off t" "t_col (t\<lparr>operations := op\<rparr>) = t_col t"
      "t_row (t\<lparr>operations := op\<rparr>) = t_row t" for t by (simp_all add: tab_off_def)
    show ?thesis unfolding pivot_rows_def Let_def f upd_tab_rows_operations by (rule refl)
  qed
  have "pivot_vars (t\<lparr>operations := op\<rparr>) row col = pivot_vars t row col \<lparr>operations := op\<rparr>" for t
  proof -
    have c: "t\<lparr>operations := op, row_var := R, col_var := C\<rparr> = t\<lparr>row_var := R, col_var := C\<rparr>\<lparr>operations := op\<rparr>" for R C by simp
    show ?thesis by (simp add: pivot_vars_def Let_def c upd_var_operations)
  qed
  with r show ?thesis by (simp add: exchange_vars_def)
qed

lemma exchange_var:
  assumes ok: "tab_ok tab" and p: "pivot_ok tab row col" and v: "tab_code tab v"
  shows "var_from_index (exchange_vars tab row col) v =
    (if v = col_var tab ! col then (var_from_index tab v)\<lparr>is_row := True, var_index := int row\<rparr>
     else if v = row_var tab ! row then (var_from_index tab v)\<lparr>is_row := False, var_index := int col\<rparr>
     else var_from_index tab v)"
proof -
  let ?t = "pivot_rows tab row col"
  have r: "row < t_row tab" "col < t_col tab" using p by (simp_all add: pivot_ok_def)
  have ix: "tab_index ?t"
    using tab_okD(2) [OF ok] by (simp add: tab_index_def tab_code_def at_row_def at_col_def)
  have "tab_code ?t v" using v by (simp add: tab_code_def)
  from pivot_vars_var [OF pivot_rows_shape [OF tab_okD(1) [OF ok] r(1)] ix _ _ this] r
  show ?thesis by (simp add: exchange_vars_def)
qed

lemma exchange_points:
  assumes ok: "tab_ok tab" and p: "pivot_ok tab row col"
  defines "t \<equiv> exchange_vars tab row col"
  shows "tab_ok t" "tab_vars t = tab_vars tab" "live_vars t = live_vars tab"
    "feasible t M x = feasible tab M x" "implied t M = implied tab M" "keeps_points M tab t" "tab_code t = tab_code tab"
    "tab_code tab v \<Longrightarrow> is_nonneg (var_from_index t v) = is_nonneg (var_from_index tab v)"
    "tab_code tab v \<Longrightarrow> is_frozen (var_from_index t v) = is_frozen (var_from_index tab v)"
    "tab_code tab v \<Longrightarrow> is_redundant (var_from_index t v) = is_redundant (var_from_index tab v)"
    "tab_code tab v \<Longrightarrow> is_zero (var_from_index t v) = is_zero (var_from_index tab v)"
proof -
  have r: "n_redundant tab \<le> row" "row < t_row tab" "n_dead tab \<le> col" "col < t_col tab" "tent tab row (tab_off tab + col) \<noteq> 0"
    using p by (simp_all add: pivot_ok_def)
  note st = pivot_step [OF ok r(2,4,5), folded exchange_vars_def, folded t_def]
  show "tab_ok t" by (rule st(1))
  have rv: "row_var t = (row_var tab)[row := col_var tab ! col]" and cv: "col_var t = (col_var tab)[col := row_var tab ! row]"
    and f: "t_row t = t_row tab" "t_col t = t_col tab" "n_redundant t = n_redundant tab" "n_dead t = n_dead tab"
    by (simp_all add: t_def exchange_vars_def)
  show code: "tab_code t = tab_code tab" by (simp add: t_def exchange_vars_def tab_code_def fun_eq_iff)
  have len: "t_row tab \<le> length (row_var tab)" "t_col tab \<le> length (col_var tab)" using tab_shapeD(3,4) [OF tab_okD(1) [OF ok]] by auto
  have ins: "f ` S = insert (f a) (f ` (S - {a}))" if "a \<in> S" for f :: "nat \<Rightarrow> int" and S a using that by blast
  have R: "(\<lambda>s. row_var tab ! s) ` {m..<t_row tab} = insert (row_var tab ! row) ((\<lambda>s. row_var tab ! s) ` ({m..<t_row tab} - {row}))"
    if "m \<le> row" for m by (rule ins) (use r that in simp)
  have C: "(\<lambda>s. col_var tab ! s) ` {0..<t_col tab} = insert (col_var tab ! col) ((\<lambda>s. col_var tab ! s) ` ({0..<t_col tab} - {col}))"
    by (rule ins) (use r in simp)
  show vars: "tab_vars t = tab_vars tab"
    unfolding tab_vars_def fst_rows col_vars_def rv cv f
    by (simp add: image_nth_update r len R C insert_commute)
  show lvars: "live_vars t = live_vars tab"
    unfolding live_vars_def fst_rows col_vars_def rv cv f
    by (simp add: image_nth_update r len R C insert_commute)
  show fl: "tab_code tab v \<Longrightarrow> is_nonneg (var_from_index t v) = is_nonneg (var_from_index tab v)"
    "tab_code tab v \<Longrightarrow> is_frozen (var_from_index t v) = is_frozen (var_from_index tab v)"
    "tab_code tab v \<Longrightarrow> is_redundant (var_from_index t v) = is_redundant (var_from_index tab v)"
    "tab_code tab v \<Longrightarrow> is_zero (var_from_index t v) = is_zero (var_from_index tab v)" for v
    by (simp_all add: exchange_var [OF ok p] t_def)
  have nn: "nonneg t v = nonneg tab v" if "v \<in> tab_vars tab" for v
    using fl(1) [OF tab_vars_code [OF ok that]] by (simp add: nonneg_def)
  have dead: "col_var t ! c = col_var tab ! c" if "c < n_dead tab" for c using that r by (simp add: cv)
  show feas: "feasible t M x = feasible tab M x" for x
    unfolding feasible_def st(2) lvars f using nn live_rows_sub(2) [of tab] dead by (auto simp: subset_iff)
  show "implied t M = implied tab M" unfolding implied_def feas vars using nn by auto
  show "keeps_points M tab t" unfolding keeps_points_def feas vars by auto
qed

text \<open>The pivot of the code: the exchange, followed by markings of redundant rows.\<close>

lemma update_row_sign_only: "update_row_sign tab row col sg = tab\<lparr>row_sign := row_sign (update_row_sign tab row col sg)\<rparr>"
proof -
  have "tab\<lparr>row_sign := row_sign tab\<rparr> = tab" by simp
  then show ?thesis unfolding update_row_sign_def by (simp split: option.split)
qed

lemma next_operation_only: "snd (isl_ctx_next_operation tab) = tab\<lparr>operations := operations (snd (isl_ctx_next_operation tab))\<rparr>"
  by (simp add: isl_ctx_next_operation_def)

definition pivoted :: "isl_tab \<Rightarrow> nat \<Rightarrow> nat \<Rightarrow> isl_tab" where
  "pivoted tab row col =
     (let tab' = snd (isl_ctx_next_operation tab)
      in update_row_sign (exchange_vars tab' row col) row col (sgn (tent tab' row (tab_off tab' + col))))"

lemma pivot_rows_only: "pivot_rows tab row col = tab\<lparr>tab_mat := tab_mat (pivot_rows tab row col)\<rparr>"
  by (simp add: pivot_rows_def Let_def upd_tab_rows_def)

text \<open>The pivot leaves everything else alone.\<close>

lemma pivoted_only: "\<exists>mat rv cv tv tc op s. pivoted tab row col = tab\<lparr>tab_mat := mat, row_var := rv, col_var := cv,
    tab_var := tv, tab_con := tc, operations := op, row_sign := s\<rparr> \<and>
    isl_mat.n_row mat = isl_mat.n_row (tab_mat tab) \<and> isl_mat.n_col mat = isl_mat.n_col (tab_mat tab) \<and>
    length rv = length (row_var tab) \<and> length tv = length (tab_var tab) \<and> length tc = length (tab_con tab)"
proof -
  define t0 where "t0 = snd (isl_ctx_next_operation tab)"
  define t1 where "t1 = pivot_rows t0 row col"
  define t2 where "t2 = t1\<lparr>row_var := (row_var t1)[row := col_var t1 ! col], col_var := (col_var t1)[col := row_var t1 ! row]\<rparr>"
  define t3 where "t3 = upd_var (row_var t2 ! row) (\<lambda>var. var\<lparr>is_row := True, var_index := int row\<rparr>) t2"
  define t4 where "t4 = upd_var (col_var t3 ! col) (\<lambda>var. var\<lparr>is_row := False, var_index := int col\<rparr>) t3"
  have "pivot_vars t1 row col = t4" by (simp add: pivot_vars_def Let_def t4_def t3_def t2_def)
  then have p: "pivoted tab row col = update_row_sign t4 row col (sgn (tent t0 row (tab_off t0 + col)))"
    by (simp add: pivoted_def Let_def exchange_vars_def t0_def t1_def)
  define s where "s = row_sign (pivoted tab row col)"
  have e5: "pivoted tab row col = t4\<lparr>row_sign := s\<rparr>" unfolding s_def p by (rule update_row_sign_only)
  have e4: "t4 = t3\<lparr>tab_var := tab_var t4, tab_con := tab_con t4\<rparr>" unfolding t4_def by (rule upd_var_only)
  have e3: "t3 = t2\<lparr>tab_var := tab_var t3, tab_con := tab_con t3\<rparr>" unfolding t3_def by (rule upd_var_only)
  define rv cv where "rv = (row_var t1)[row := col_var t1 ! col]" and "cv = (col_var t1)[col := row_var t1 ! row]"
  have e2: "t2 = t1\<lparr>row_var := rv, col_var := cv\<rparr>" by (simp add: t2_def rv_def cv_def)
  have e1: "t1 = t0\<lparr>tab_mat := tab_mat t1\<rparr>" unfolding t1_def by (rule pivot_rows_only)
  have e0: "t0 = tab\<lparr>operations := operations t0\<rparr>" unfolding t0_def by (rule next_operation_only)
  define a b c d m op where "a = tab_var t4" and "b = tab_con t4" and "c = tab_var t3" and "d = tab_con t3"
    and "m = tab_mat t1" and "op = operations t0"
  note e = e5 e4 [folded a_def b_def] e3 [folded c_def d_def] e2 e1 [folded m_def] e0 [folded op_def]
  have "pivoted tab row col = tab\<lparr>tab_mat := m, row_var := rv, col_var := cv, tab_var := a, tab_con := b,
      operations := op, row_sign := s\<rparr>"
    by (simp only: e) simp
  moreover have "isl_mat.n_row m = isl_mat.n_row (tab_mat tab)" "isl_mat.n_col m = isl_mat.n_col (tab_mat tab)"
    "length rv = length (row_var tab)" "length a = length (tab_var tab)" "length b = length (tab_con tab)"
    by (simp_all add: m_def rv_def a_def b_def t4_def t3_def t2_def t1_def t0_def isl_ctx_next_operation_def)
  ultimately show ?thesis by blast
qed

lemma pivoted_frame:
  "var_from_index (pivoted tab row col) = var_from_index (exchange_vars tab row col)"
  "tab_ok (pivoted tab row col) = tab_ok (exchange_vars tab row col)"
  "feasible (pivoted tab row col) M = feasible (exchange_vars tab row col) M"
  "implied (pivoted tab row col) M = implied (exchange_vars tab row col) M"
  "tab_vars (pivoted tab row col) = tab_vars (exchange_vars tab row col)"
  "tab_rows (pivoted tab row col) = tab_rows (exchange_vars tab row col)"
  "live_rows (pivoted tab row col) = live_rows (exchange_vars tab row col)"
  "live_vars (pivoted tab row col) = live_vars (exchange_vars tab row col)"
  "col_vars (pivoted tab row col) = col_vars (exchange_vars tab row col)"
  "nonneg (pivoted tab row col) = nonneg (exchange_vars tab row col)"
  "tab_off (pivoted tab row col) = tab_off (exchange_vars tab row col)"
  "tab_code (pivoted tab row col) = tab_code (exchange_vars tab row col)"
  "colval (pivoted tab row col) = colval (exchange_vars tab row col)"
  "tab_mat (pivoted tab row col) = tab_mat (exchange_vars tab row col)"
  "row_var (pivoted tab row col) = row_var (exchange_vars tab row col)"
  "col_var (pivoted tab row col) = col_var (exchange_vars tab row col)"
  "t_row (pivoted tab row col) = t_row tab" "t_col (pivoted tab row col) = t_col tab"
  "n_redundant (pivoted tab row col) = n_redundant tab" "n_dead (pivoted tab row col) = n_dead tab"
proof -
  define op where "op = operations (snd (isl_ctx_next_operation tab))"
  define s where "s = row_sign (pivoted tab row col)"
  have "pivoted tab row col = exchange_vars (tab\<lparr>operations := op\<rparr>) row col \<lparr>row_sign := s\<rparr>"
    unfolding s_def pivoted_def Let_def op_def next_operation_only [symmetric] by (rule update_row_sign_only)
  then have f: "pivoted tab row col = exchange_vars tab row col \<lparr>operations := op, row_sign := s\<rparr>"
    by (simp add: exchange_operations)
  note fr = tab_frame [of "pivoted tab row col" "exchange_vars tab row col"]
  show "var_from_index (pivoted tab row col) = var_from_index (exchange_vars tab row col)"
  "tab_ok (pivoted tab row col) = tab_ok (exchange_vars tab row col)"
  "feasible (pivoted tab row col) M = feasible (exchange_vars tab row col) M"
  "implied (pivoted tab row col) M = implied (exchange_vars tab row col) M"
  "tab_vars (pivoted tab row col) = tab_vars (exchange_vars tab row col)"
  "tab_rows (pivoted tab row col) = tab_rows (exchange_vars tab row col)"
  "live_rows (pivoted tab row col) = live_rows (exchange_vars tab row col)"
  "live_vars (pivoted tab row col) = live_vars (exchange_vars tab row col)"
  "col_vars (pivoted tab row col) = col_vars (exchange_vars tab row col)"
  "nonneg (pivoted tab row col) = nonneg (exchange_vars tab row col)"
  "tab_off (pivoted tab row col) = tab_off (exchange_vars tab row col)"
  "tab_code (pivoted tab row col) = tab_code (exchange_vars tab row col)"
  "colval (pivoted tab row col) = colval (exchange_vars tab row col)"
    by (rule fr; simp add: f)+
  show "tab_mat (pivoted tab row col) = tab_mat (exchange_vars tab row col)"
  "row_var (pivoted tab row col) = row_var (exchange_vars tab row col)"
  "col_var (pivoted tab row col) = col_var (exchange_vars tab row col)"
  "t_row (pivoted tab row col) = t_row tab" "t_col (pivoted tab row col) = t_col tab"
  "n_redundant (pivoted tab row col) = n_redundant tab" "n_dead (pivoted tab row col) = n_dead tab"
    by (simp_all add: f exchange_vars_def)
qed

lemma upd_var_counters: "operations (upd_var v f tab) = operations tab" "op_limit (upd_var v f tab) = op_limit tab"
  by (simp_all add: upd_var_def)

lemma upd_tab_rows_counters: "operations (upd_tab_rows f tab) = operations tab" "op_limit (upd_tab_rows f tab) = op_limit tab"
  by (simp_all add: upd_tab_rows_def)

lemma pivoted_unlimited: "unlimited (pivoted tab row col) = unlimited tab"
proof -
  have e: "pivoted tab row col = update_row_sign (exchange_vars (snd (isl_ctx_next_operation tab)) row col) row col
      (sgn (tent (snd (isl_ctx_next_operation tab)) row (tab_off (snd (isl_ctx_next_operation tab)) + col)))"
    by (simp add: pivoted_def Let_def)
  have u: "op_limit (update_row_sign t r c s) = op_limit t" for t r c s
    by (subst update_row_sign_only, simp)
  have v: "op_limit (exchange_vars t r c) = op_limit t" for t r c
    by (simp add: exchange_vars_def pivot_vars_def pivot_rows_def Let_def upd_var_counters upd_tab_rows_counters)
  show ?thesis unfolding e u v unlimited_def by (simp add: isl_ctx_next_operation_def)
qed

lemma tab_pivot_run:
  assumes ok: "tab_ok tab" and p: "pivot_ok tab row col" and imp: "implied tab M" and M: "0 \<le> M" and u: "unlimited tab"
  shows "fst (isl_tab_pivot tab row col) = 0" "shrinks M (pivoted tab row col) (snd (isl_tab_pivot tab row col))"
proof -
  let ?t = "pivoted tab row col"
  have t: "tab_ok ?t" "implied ?t M" "unlimited ?t" using exchange_points [OF ok p] imp u by (simp_all add: pivoted_frame pivoted_unlimited)
  have "isl_tab_pivot tab row col = (if in_undo ?t then (0, ?t) else mark_redundant_rows_from ?t col (n_redundant ?t))"
    using u by (simp add: isl_tab_pivot_def Let_def isl_ctx_next_operation_def unlimited_def pivoted_def exchange_vars_def)
  then show "fst (isl_tab_pivot tab row col) = 0" "shrinks M ?t (snd (isl_tab_pivot tab row col))"
    using shrinks_refl [OF t(1,2)] mark_rows_shrinks [OF t(1,2) M order_refl t(3), of col] by simp_all
qed

subsection \<open>Pivoting keeps the polyhedron\<close>

text \<open>
  The points of a tableau, as the list of the values of its variables; a variable whose
  column was removed is zero.
\<close>

definition points :: "rat \<Rightarrow> isl_tab \<Rightarrow> rat list set" where
  "points M tab = {map (\<lambda>i. if int i \<in> tab_vars tab then x (int i) else 0) [0..<n_var tab] | x. feasible tab M x}"

lemma keeps_points_points:
  assumes k: "keeps_points M tab t" and n: "n_var t = n_var tab"
  shows "points M t = points M tab"
proof -
  let ?p = "\<lambda>tab x. map (\<lambda>i. if int i \<in> tab_vars tab then x (int i) else 0) [0..<n_var tab]"
  have vars: "int i \<in> tab_vars t \<longleftrightarrow> int i \<in> tab_vars tab" for i using k by (auto simp: keeps_points_def)
  have same: "?p t x = ?p tab y" if "\<forall>v \<in> tab_vars t. y v = x v" for x y
    using that vars n by simp
  show ?thesis
  proof (rule set_eqI, rule iffI)
    fix l assume "l \<in> points M t"
    then obtain x where x: "feasible t M x" "l = ?p t x" by (auto simp: points_def)
    with k obtain y where "feasible tab M y" "\<forall>v \<in> tab_vars t. y v = x v" by (auto simp: keeps_points_def)
    with x(2) same [of y x] show "l \<in> points M tab" unfolding points_def by blast
  next
    fix l assume "l \<in> points M tab"
    then obtain x where "feasible tab M x" "l = ?p tab x" by (auto simp: points_def)
    then have "feasible t M x" "l = ?p t x" using k same [of x x] by (auto simp: keeps_points_def)
    then show "l \<in> points M t" unfolding points_def by blast
  qed
qed

lemma pivoted_counts: "n_var (pivoted tab row col) = n_var tab" "n_con (pivoted tab row col) = n_con tab"
  "tab_M (pivoted tab row col) = tab_M tab"
proof -
  have e: "pivoted tab row col = update_row_sign (exchange_vars (snd (isl_ctx_next_operation tab)) row col) row col
      (sgn (tent (snd (isl_ctx_next_operation tab)) row (tab_off (snd (isl_ctx_next_operation tab)) + col)))"
    by (simp add: pivoted_def Let_def)
  have u: "n_var (update_row_sign t r c s) = n_var t" "n_con (update_row_sign t r c s) = n_con t" "tab_M (update_row_sign t r c s) = tab_M t" for t r c s
    by (subst update_row_sign_only, simp)+
  have v: "n_var (exchange_vars t r c) = n_var t" "n_con (exchange_vars t r c) = n_con t" "tab_M (exchange_vars t r c) = tab_M t" for t r c
    by (simp_all add: exchange_vars_def)
  show "n_var (pivoted tab row col) = n_var tab" "n_con (pivoted tab row col) = n_con tab"
    "tab_M (pivoted tab row col) = tab_M tab"
    unfolding e u v by (simp_all add: isl_ctx_next_operation_def)
qed

lemma tab_pivot_keeps:
  assumes ok: "tab_ok tab" and p: "pivot_ok tab row col" and imp: "implied tab M" and M: "0 \<le> M"
    and q: "unlimited tab" and r: "isl_tab_pivot tab row col = (c, t)"
  shows "c = 0" "tab_ok t" "implied t M" "keeps_points M tab t" "n_var t = n_var tab" "points M t = points M tab"
proof -
  have *: "c = 0" "shrinks M (pivoted tab row col) t" using tab_pivot_run [OF ok p imp M q] r by simp_all
  have e: "keeps_points M tab (exchange_vars tab row col)" using exchange_points(6) [OF ok p] .
  then have "keeps_points M tab (pivoted tab row col)" by (simp add: keeps_points_def pivoted_frame)
  with * show k: "c = 0" "tab_ok t" "implied t M" "keeps_points M tab t"
    using keeps_points_trans by (auto simp: shrinks_def)
  show "n_var t = n_var tab" using *(2) by (simp add: shrinks_def same_frame_def pivoted_counts)
  with k(4) show "points M t = points M tab" by (rule keeps_points_points)
qed

text \<open>
  C2: pivoting.  In a well-formed tableau, where what the redundant rows ask for follows from
  the other constraints, \<open>isl_tab_pivot\<close> on a non-zero element outside the redundant rows and
  the dead columns succeeds, in a context without quota of operations and without abort; the tableau stays
  well-formed, what the redundant rows ask for (the old ones and the ones the pivot marked or
  dropped) follows from the rest, and the polyhedron of the variables is the same.
\<close>

theorem tab_pivot_keeps_polyhedron:
  assumes "tab_ok tab" and "pivot_ok tab row col" and "implied tab M" and "0 \<le> M" and "unlimited tab"
    and "isl_tab_pivot tab row col = (c, t)"
  shows "c = 0 \<and> tab_ok t \<and> implied t M \<and> points M t = points M tab"
  using tab_pivot_keeps [OF assms] by simp

lemma implied_no_redundant: "n_redundant tab = 0 \<Longrightarrow> implied tab M"
  by (auto simp: implied_def feasible_def live_vars_def tab_vars_def live_rows_def tab_rows_def)

text \<open>One variable \<open>x\<close> with \<open>3 - x \<ge> 0\<close> and \<open>5 - x \<ge> 0\<close>.\<close>

definition two_bounds :: isl_tab where
  "two_bounds = \<lparr>tab_mat = \<lparr>isl_mat.n_row = 2, n_col = 3, mat_row = [[1, 3, -1], [1, 5, -1]], max_col = 3, mat_borrowed = False\<rparr>,
     t_row = 2, t_col = 1, n_dead = 0, n_redundant = 0, n_var = 1, n_param = 0, n_div = 0, max_var = 1, n_con = 2, n_eq = 0, max_con = 2,
     tab_var = [fresh_tab_var 0 False],
     tab_con = [(fresh_tab_var 0 True)\<lparr>is_nonneg := True\<rparr>, (fresh_tab_var 1 True)\<lparr>is_nonneg := True\<rparr>],
     row_var = [-1, -2], col_var = [0], row_sign = None, tab_undo = [(isl_tab_undo_bottom, undo_none)],
     strict_redundant = False, need_undo = False, preserve = False, tab_rational = False,
     tab_empty = False, in_undo = False, tab_M = False, tab_cone = False, operations = 0, op_limit = (0, False)\<rparr>"

lemma all_less_2: "(\<forall>i < (2::nat). P i) \<longleftrightarrow> P 0 \<and> P 1"
  by (auto simp: less_Suc_eq numeral_2_eq_2)

lemma ex_less_2: "(\<exists>i < (2::nat). P i) \<longleftrightarrow> P 0 \<or> P 1"
  by (auto simp: less_Suc_eq numeral_2_eq_2)

lemma two_bounds_ok: "tab_ok two_bounds"
proof -
  have f: "t_row two_bounds = 2" "t_col two_bounds = 1" "row_var two_bounds = [-1, -2]" "col_var two_bounds = [0]"
    by (simp_all add: two_bounds_def)
  have v: "var_from_index two_bounds (-1) = (fresh_tab_var 0 True)\<lparr>is_nonneg := True\<rparr>"
    "var_from_index two_bounds (-2) = (fresh_tab_var 1 True)\<lparr>is_nonneg := True\<rparr>"
    "var_from_index two_bounds 0 = fresh_tab_var 0 False" by (simp_all add: var_from_index_def two_bounds_def)
  have code: "tab_code two_bounds v \<longleftrightarrow> v = -1 \<or> v = -2 \<or> v = 0" for v
    by (auto simp: tab_code_def two_bounds_def)
  have "tab_index two_bounds"
    unfolding tab_index_def f all_less_2 ex_less_2 by (auto simp: code at_row_def at_col_def v fresh_tab_var_def)
  moreover have "tab_shape two_bounds"
    by (simp add: tab_shape_def two_bounds_def mat_ok_def tab_off_def all_less_2)
  ultimately show ?thesis by (simp add: tab_ok_def f all_less_2) (simp add: ent_def two_bounds_def)
qed

theorem tab_pivot_keeps_polyhedron_witness:
  "fst (isl_tab_pivot two_bounds 0 0) = 0 \<and> tab_ok (snd (isl_tab_pivot two_bounds 0 0)) \<and>
   implied (snd (isl_tab_pivot two_bounds 0 0)) 0 \<and>
   points 0 (snd (isl_tab_pivot two_bounds 0 0)) = points 0 two_bounds \<and>
   t_row (snd (isl_tab_pivot two_bounds 0 0)) = 1"
proof -
  have p: "pivot_ok two_bounds 0 0" by (simp add: pivot_ok_def two_bounds_def ent_def tab_off_def)
  have i: "implied two_bounds 0" by (rule implied_no_redundant) (simp add: two_bounds_def)
  have q: "unlimited two_bounds" by (simp add: unlimited_def two_bounds_def)
  define T where "T = update_row_sign (pivot_vars (pivot_rows (two_bounds\<lparr>operations := 1\<rparr>) 0 0) 0 0) 0 0 (- 1)"
  define T' where "T' = snd (isl_tab_mark_redundant T 1)"
  have row0: "0 < t_row T" "\<not> isl_tab_row_is_redundant T 0" unfolding T_def by code_simp+
  have row1: "1 < t_row T" "tent T 1 (tab_off T + 0) \<noteq> 0" "\<not> is_frozen (isl_tab_var_from_row T 1)" "isl_tab_row_is_redundant T 1"
    "fst (isl_tab_mark_redundant T 1) = 1" unfolding T_def by code_simp+
  have row1': "t_row T' = 1" unfolding T_def T'_def by code_simp
  have "mark_redundant_rows_from T 0 0 = mark_redundant_rows_from T 0 1"
    using row0 by (subst mark_redundant_rows_from.simps) simp
  also have "\<dots> = mark_redundant_rows_from T' 0 1"
    using row1 by (subst mark_redundant_rows_from.simps) (simp add: T'_def case_prod_beta)
  also have "\<dots> = (0, T')"
    using row1' by (subst mark_redundant_rows_from.simps) simp
  finally have "mark_redundant_rows_from T 0 0 = (0, T')" .
  moreover have "isl_ctx_next_operation two_bounds = (0, two_bounds\<lparr>operations := 1\<rparr>)"
    "sgn (tent (two_bounds\<lparr>operations := 1\<rparr>) 0 (tab_off (two_bounds\<lparr>operations := 1\<rparr>) + 0)) = - 1"
    by code_simp+
  moreover have "in_undo T = False" "n_redundant T = 0" unfolding T_def by code_simp+
  ultimately have "isl_tab_pivot two_bounds 0 0 = (0, T')" by (simp add: isl_tab_pivot_def Let_def T_def)
  then have "t_row (snd (isl_tab_pivot two_bounds 0 0)) = 1" using row1' by simp
  then show ?thesis
    using tab_pivot_keeps_polyhedron [OF two_bounds_ok p i order_refl q prod.collapse [symmetric]] by simp
qed

end
