(* ===== verification/Tab_Bland.thy ===== *)
theory Tab_Bland imports Tab_Points begin

text \<open>
  The tableau as a dictionary over the rationals, what \<open>find_pivot\<close> (isl_tab.c) chooses, and
  the proof that its choice, the smallest column variable and among the tightest rows the
  one of the smallest row variable (Bland's rule), never leads back to the same columns.
\<close>

subsection \<open>The tableau as a dictionary\<close>

text \<open>
  Without big parameter, row \<open>r\<close> gives its variable as \<open>rval r + \<Sum> coef r c * x (col_var c)\<close>.
\<close>

definition rval :: "isl_tab \<Rightarrow> nat \<Rightarrow> rat" where
  "rval tab r = of_int (tent tab r 1) / of_int (tent tab r 0)"

definition coef :: "isl_tab \<Rightarrow> nat \<Rightarrow> nat \<Rightarrow> rat" where
  "coef tab r c = of_int (tent tab r (tab_off tab + c)) / of_int (tent tab r 0)"

definition plain :: "isl_tab \<Rightarrow> bool" where
  "plain tab \<longleftrightarrow> tab_ok tab \<and> \<not> tab_M tab"

lemma row_holds_dict:
  assumes "plain tab" and r: "r < t_row tab"
  shows "row_holds tab M x r \<longleftrightarrow> x (row_var tab ! r) = rval tab r + (\<Sum>c<t_col tab. coef tab r c * x (col_var tab ! c))"
proof -
  have ok: "tab_ok tab" and off: "tab_off tab = 2" using assms(1) by (simp_all add: plain_def tab_off_def)
  let ?p = "mat_row (tab_mat tab) ! r" and ?n = "t_col tab"
  have pos: "0 < ?p ! 0" using tab_okD(3) [OF ok r] .
  have "{1..<2 + ?n} = insert 1 {2..<2 + ?n}" by auto
  then have "row_sum (2 + ?n) ?p (colval tab M x) = of_int (?p ! 1) + (\<Sum>k = 2..<2 + ?n. of_int (?p ! k) * colval tab M x k)"
    by (simp add: row_sum_def colval_def)
  also have "(\<Sum>k = 2..<2 + ?n. of_int (?p ! k) * colval tab M x k) = (\<Sum>c<?n. of_int (?p ! (2 + c)) * x (col_var tab ! c))"
  proof (rule sum.reindex_bij_witness [of _ "\<lambda>c. 2 + c" "\<lambda>k. k - 2"])
    fix k assume k: "k \<in> {2..<2 + ?n}"
    then have e: "2 + (k - 2) = k" unfolding atLeastLessThan_iff by linarith
    show "of_int (?p ! (2 + (k - 2))) * x (col_var tab ! (k - 2)) = of_int (?p ! k) * colval tab M x k"
      unfolding e using k by (simp add: colval_def off)
  qed auto
  finally have s: "row_sum (2 + ?n) ?p (colval tab M x) = of_int (?p ! 1) + (\<Sum>c<?n. of_int (?p ! (2 + c)) * x (col_var tab ! c))" .
  have "rval tab r + (\<Sum>c<?n. coef tab r c * x (col_var tab ! c)) = row_sum (2 + ?n) ?p (colval tab M x) / of_int (?p ! 0)"
    unfolding s by (simp add: rval_def coef_def ent_def off add_divide_distrib sum_divide_distrib)
  note rhs = this
  have "(of_int (?p ! 0) :: rat) \<noteq> 0" using pos by simp
  then show ?thesis unfolding rhs row_holds_def row_eq_def off by (simp add: nonzero_eq_divide_eq mult.commute)
qed

lemma plainD: "plain tab \<Longrightarrow> tab_ok tab" "plain tab \<Longrightarrow> tab_off tab = 2" "plain tab \<Longrightarrow> \<not> tab_M tab"
  by (simp_all add: plain_def tab_off_def)

text \<open>The solution with given values of the columns.\<close>

definition sol :: "isl_tab \<Rightarrow> (nat \<Rightarrow> rat) \<Rightarrow> int \<Rightarrow> rat" where
  "sol tab y v = (if is_row (var_from_index tab v)
     then rval tab (index_of tab v) + (\<Sum>c<t_col tab. coef tab (index_of tab v) c * y c) else y (index_of tab v))"

lemma sol_col: "plain tab \<Longrightarrow> c < t_col tab \<Longrightarrow> sol tab y (col_var tab ! c) = y c"
  using tab_indexD(4) [OF tab_okD(2), of tab c] by (simp add: sol_def plain_def at_col_def)

lemma sol_row: "plain tab \<Longrightarrow> r < t_row tab \<Longrightarrow>
    sol tab y (row_var tab ! r) = rval tab r + (\<Sum>c<t_col tab. coef tab r c * y c)"
  using tab_indexD(2) [OF tab_okD(2), of tab r] by (simp add: sol_def plain_def at_row_def)

lemma sol_sat: "plain tab \<Longrightarrow> sat tab M (sol tab y)"
  by (simp add: sat_def row_holds_dict sol_row sol_col)

text \<open>The rows outside the redundant ones, which alone matter for the search.\<close>

definition live_sat :: "isl_tab \<Rightarrow> (int \<Rightarrow> rat) \<Rightarrow> bool" where
  "live_sat tab x \<longleftrightarrow> (\<forall>r. n_redundant tab \<le> r \<longrightarrow> r < t_row tab \<longrightarrow> row_holds tab 0 x r)"

lemma sat_live: "sat tab M x \<Longrightarrow> plain tab \<Longrightarrow> live_sat tab x"
  by (simp add: sat_def live_sat_def row_holds_dict)

lemma live_satD:
  "live_sat tab x \<Longrightarrow> plain tab \<Longrightarrow> n_redundant tab \<le> r \<Longrightarrow> r < t_row tab \<Longrightarrow>
     x (row_var tab ! r) = rval tab r + (\<Sum>c<t_col tab. coef tab r c * x (col_var tab ! c))"
  by (simp add: live_sat_def row_holds_dict)

lemma live_sat_rows: "plain tab \<Longrightarrow>
    live_sat tab x \<longleftrightarrow> (\<forall>(v, p) \<in> live_rows tab. row_eq (tab_off tab + t_col tab) p (x v) (colval tab 0 x))"
  by (auto simp: live_sat_def live_rows_def row_holds_def)

lemma sol_unique:
  assumes "plain tab" "live_sat tab x" "\<And>c. c < t_col tab \<Longrightarrow> x (col_var tab ! c) = y c" "v \<in> live_vars tab"
  shows "x v = sol tab y v"
  using assms(4) unfolding live_vars_def fst_rows
proof
  assume "v \<in> (\<lambda>r. row_var tab ! r) ` {n_redundant tab..<t_row tab}"
  then obtain r where "n_redundant tab \<le> r" "r < t_row tab" "v = row_var tab ! r" by auto
  then show ?thesis using assms(1-3) by (simp add: live_satD sol_row)
next
  assume "v \<in> col_vars tab"
  then show ?thesis using assms(1,3) by (auto simp: col_vars_def sol_col)
qed

text \<open>The sample value, with all columns zero, and the points reached by moving one column.\<close>

definition sample :: "isl_tab \<Rightarrow> int \<Rightarrow> rat" where
  "sample tab = sol tab (\<lambda>c. 0)"

definition line :: "isl_tab \<Rightarrow> nat \<Rightarrow> rat \<Rightarrow> int \<Rightarrow> rat" where
  "line tab c t = sol tab (\<lambda>k. if k = c then t else 0)"

lemma sample_row: "plain tab \<Longrightarrow> r < t_row tab \<Longrightarrow> sample tab (row_var tab ! r) = rval tab r"
  by (simp add: sample_def sol_row)

lemma sample_col: "plain tab \<Longrightarrow> c < t_col tab \<Longrightarrow> sample tab (col_var tab ! c) = 0"
  by (simp add: sample_def sol_col)

lemma line_row:
  assumes "plain tab" "r < t_row tab" "c < t_col tab"
  shows "line tab c t (row_var tab ! r) = rval tab r + coef tab r c * t"
proof -
  have "(\<Sum>k<t_col tab. coef tab r k * (if k = c then t else 0)) = coef tab r c * t"
    using assms(3) by (subst sum.mono_neutral_right [of _ "{c}"]) auto
  with assms show ?thesis by (simp add: line_def sol_row)
qed

lemma line_col: "plain tab \<Longrightarrow> k < t_col tab \<Longrightarrow> line tab c t (col_var tab ! k) = (if k = c then t else 0)"
  by (simp add: line_def sol_col)

lemma line_sat: "plain tab \<Longrightarrow> sat tab M (line tab c t)"
  by (simp add: line_def sol_sat)

lemma sample_line: "sample tab = line tab c 0"
  by (simp add: sample_def line_def)

lemma sample_sat: "plain tab \<Longrightarrow> sat tab M (sample tab)"
  by (simp add: sample_def sol_sat)

text \<open>Exchanging a row and a column moves the sample along the line of the column.\<close>

lemma exchange_live_sat:
  assumes "plain tab" and p: "pivot_ok tab row col"
  shows "live_sat (exchange_vars tab row col) x \<longleftrightarrow> live_sat tab x"
proof -
  have r: "n_redundant tab \<le> row" "row < t_row tab" "n_dead tab \<le> col" "col < t_col tab" "tent tab row (tab_off tab + col) \<noteq> 0"
    using p by (simp_all add: pivot_ok_def)
  note h = pivot_row_holds [OF plainD(1) [OF assms(1)] r(2,4,5), folded exchange_vars_def]
  have "t_row (exchange_vars tab row col) = t_row tab" "n_redundant (exchange_vars tab row col) = n_redundant tab"
    by (simp_all add: exchange_vars_def)
  then show ?thesis using h(1) [of 0 x] h(3) [of _ 0 x] r(1,2) unfolding live_sat_def by metis
qed

lemma exchange_plain: "plain tab \<Longrightarrow> pivot_ok tab row col \<Longrightarrow> plain (exchange_vars tab row col)"
  using exchange_points(1) [of tab row col] by (simp add: plain_def exchange_vars_def)

lemma exchange_cols:
  assumes "plain tab" and p: "pivot_ok tab row col" and "c < t_col tab"
  shows "col_var (exchange_vars tab row col) ! c = (if c = col then row_var tab ! row else col_var tab ! c)"
proof -
  have "c < length (col_var tab)" using tab_shapeD(4) [OF tab_okD(1) [OF plainD(1) [OF assms(1)]]] assms(3) by linarith
  then show ?thesis by (simp add: exchange_vars_def nth_list_update)
qed

lemma coef_zero: "coef tab r c = 0 \<longleftrightarrow> tent tab r (tab_off tab + c) = 0 \<or> tent tab r 0 = 0"
  by (simp add: coef_def)

lemma sgn_of_int_rat: "sgn (of_int z :: rat) = of_int (sgn z)"
  by (simp add: sgn_if)

lemma coef_sgn: "tab_ok tab \<Longrightarrow> r < t_row tab \<Longrightarrow> sgn (coef tab r c) = of_int (sgn (tent tab r (tab_off tab + c)))"
  using tab_okD(3) [of tab r] by (simp add: coef_def ent_def sgn_divide sgn_of_int_rat)

lemma rval_sgn: "tab_ok tab \<Longrightarrow> r < t_row tab \<Longrightarrow> sgn (rval tab r) = of_int (sgn (tent tab r 1))"
  using tab_okD(3) [of tab r] by (simp add: rval_def ent_def sgn_divide sgn_of_int_rat)

lemma pivot_coef: "tab_ok tab \<Longrightarrow> pivot_ok tab row col \<Longrightarrow> coef tab row col \<noteq> 0"
  using tab_okD(3) [of tab row] by (auto simp: coef_zero pivot_ok_def ent_def)

lemma exchange_sample:
  assumes pl: "plain tab" and p: "pivot_ok tab row col" and v: "v \<in> live_vars tab"
  shows "sample (exchange_vars tab row col) v = line tab col (- rval tab row / coef tab row col) v"
proof -
  let ?t = "exchange_vars tab row col" and ?x = "line tab col (- rval tab row / coef tab row col)"
  have pt: "plain ?t" using exchange_plain [OF pl p] .
  have r: "row < t_row tab" "col < t_col tab" using p by (simp_all add: pivot_ok_def)
  have "live_sat ?t ?x" using exchange_live_sat [OF pl p] sat_live [OF line_sat pl] pl by blast
  moreover have "?x (col_var ?t ! c) = 0" if "c < t_col ?t" for c
  proof -
    have "c < t_col tab" using that by (simp add: exchange_vars_def)
    then show ?thesis using r pl pivot_coef [OF plainD(1) [OF pl] p]
      by (simp add: exchange_cols [OF pl p] line_row line_col)
  qed
  moreover have "v \<in> live_vars ?t" using v exchange_points(3) [OF plainD(1) [OF pl] p] by simp
  ultimately show ?thesis using sol_unique [OF pt, of ?x "\<lambda>c. 0" v] by (simp add: sample_def)
qed

subsection \<open>The choice of the pivot\<close>

text \<open>
  The rows that limit the movement of column \<open>c\<close> in direction \<open>sg\<close>, and how far they let it go.
\<close>

definition limits :: "isl_tab \<Rightarrow> int option \<Rightarrow> int \<Rightarrow> nat \<Rightarrow> nat \<Rightarrow> bool" where
  "limits tab skip sg c j \<longleftrightarrow> n_redundant tab \<le> j \<and> j < t_row tab \<and>
     \<not> (\<exists>v. skip = Some v \<and> int j = var_index (var_from_index tab v)) \<and>
     is_nonneg (isl_tab_var_from_row tab j) \<and> sg * sgn (tent tab j (tab_off tab + c)) < 0"

definition ratio :: "isl_tab \<Rightarrow> nat \<Rightarrow> nat \<Rightarrow> rat" where
  "ratio tab c j = of_int (tent tab j 1) / of_int \<bar>tent tab j (tab_off tab + c)\<bar>"

definition limits_before :: "isl_tab \<Rightarrow> nat \<Rightarrow> nat \<Rightarrow> nat \<Rightarrow> bool" where
  "limits_before tab c j r \<longleftrightarrow> ratio tab c j < ratio tab c r \<or>
     (ratio tab c j = ratio tab c r \<and> row_var tab ! j < row_var tab ! r)"

lemma cmp_fractions:
  fixes a b a' b' s :: int
  assumes s: "s = 1 \<or> s = -1" and a: "s * sgn a < 0" and a': "s * sgn a' < 0"
  shows "s * sgn (b * a' - b' * a) < 0 \<longleftrightarrow> (of_int b' / of_int \<bar>a'\<bar> :: rat) < of_int b / of_int \<bar>a\<bar>"
    and "s * sgn (b * a' - b' * a) = 0 \<longleftrightarrow> (of_int b' / of_int \<bar>a'\<bar> :: rat) = of_int b / of_int \<bar>a\<bar>"
proof -
  have pos: "0 < \<bar>a\<bar>" "0 < \<bar>a'\<bar>" using a a' by auto
  have abs: "\<bar>a\<bar> = - s * a" "\<bar>a'\<bar> = - s * a'" using s a a' by (auto simp: sgn_if split: if_splits)
  have "s * sgn (b * a' - b' * a) = sgn (s * (b * a' - b' * a))" using s by (auto simp: sgn_mult)
  also have "s * (b * a' - b' * a) = b' * \<bar>a\<bar> - b * \<bar>a'\<bar>" unfolding abs by (simp add: algebra_simps)
  finally have e: "s * sgn (b * a' - b' * a) = sgn (b' * \<bar>a\<bar> - b * \<bar>a'\<bar>)" .
  have q: "(of_int b' / of_int \<bar>a'\<bar> :: rat) < of_int b / of_int \<bar>a\<bar> \<longleftrightarrow> (of_int b' * of_int \<bar>a\<bar> :: rat) < of_int b * of_int \<bar>a'\<bar>"
    "(of_int b' / of_int \<bar>a'\<bar> :: rat) = of_int b / of_int \<bar>a\<bar> \<longleftrightarrow> (of_int b' * of_int \<bar>a\<bar> :: rat) = of_int b * of_int \<bar>a'\<bar>"
    using pos by (simp_all add: divide_less_eq less_divide_eq frac_eq_eq field_simps)
  show "s * sgn (b * a' - b' * a) < 0 \<longleftrightarrow> (of_int b' / of_int \<bar>a'\<bar> :: rat) < of_int b / of_int \<bar>a\<bar>"
    unfolding e q(1) of_int_mult [symmetric] of_int_less_iff by (simp add: sgn_if)
  show "s * sgn (b * a' - b' * a) = 0 \<longleftrightarrow> (of_int b' / of_int \<bar>a'\<bar> :: rat) = of_int b / of_int \<bar>a\<bar>"
    unfolding e q(2) of_int_mult [symmetric] of_int_eq_iff by (simp add: sgn_if)
qed

lemma pivot_row_spec:
  assumes M: "\<not> tab_M tab" and sg: "sg = 1 \<or> sg = -1" and n: "n_redundant tab \<le> t_row tab"
  shows "case pivot_row tab skip sg c of None \<Rightarrow> (\<forall>j. \<not> limits tab skip sg c j)
    | Some r \<Rightarrow> limits tab skip sg c r \<and> (\<forall>j. limits tab skip sg c j \<longrightarrow> \<not> limits_before tab c j r)"
proof -
  let ?f = "\<lambda>j r. if (\<exists>v. skip = Some v \<and> int j = var_index (var_from_index tab v)) then r
       else if \<not> is_nonneg (isl_tab_var_from_row tab j) then r
       else if 0 \<le> sg * sgn (tent tab j (tab_off tab + c)) then r
       else case r of None \<Rightarrow> Some j
            | Some r' \<Rightarrow> let tsgn = sg * row_cmp tab r' j c
                in if tsgn < 0 \<or> (tsgn = 0 \<and> row_var tab ! j < row_var tab ! r') then Some j else r"
  let ?L = "limits tab skip sg c"
  let ?P = "\<lambda>i r. case r of None \<Rightarrow> (\<forall>j < i. \<not> ?L j)
    | Some r \<Rightarrow> r < i \<and> ?L r \<and> (\<forall>j < i. ?L j \<longrightarrow> \<not> limits_before tab c j r)"
  have "?P (t_row tab) (for_range (n_redundant tab) (t_row tab) ?f None)"
  proof (rule for_range_induct [where P = ?P, OF n])
    show "?P (n_redundant tab) None" by (simp add: limits_def)
    fix i r assume i: "n_redundant tab \<le> i" "i < t_row tab" and P: "?P i r"
    have Li: "?L i \<longleftrightarrow> \<not> ((\<exists>v. skip = Some v \<and> int i = var_index (var_from_index tab v)) \<or>
        \<not> is_nonneg (isl_tab_var_from_row tab i) \<or> 0 \<le> sg * sgn (tent tab i (tab_off tab + c)))"
      using i by (auto simp: limits_def)
    show "?P (Suc i) (?f i r)"
    proof (cases "?L i")
      case False
      then have "?f i r = r" unfolding Li by (auto simp del: split_paired_Ex)
      then show ?thesis using P False by (auto simp: less_Suc_eq split: option.splits)
    next
      case True
      show ?thesis
      proof (cases r)
        case None
        then have "?f i r = Some i" using True unfolding Li by simp
        then show ?thesis using P None True by (auto simp: less_Suc_eq limits_before_def)
      next
        case (Some q)
        have q: "?L q" "q < i" using P Some by auto
        have "sg * sgn (tent tab q (tab_off tab + c)) < 0" "sg * sgn (tent tab i (tab_off tab + c)) < 0"
          using q(1) True by (auto simp: limits_def)
        note fr = cmp_fractions [OF sg this, of "tent tab q 1" "tent tab i 1"]
        have rc: "row_cmp tab q i c = sgn (tent tab q 1 * tent tab i (tab_off tab + c) - tent tab i 1 * tent tab q (tab_off tab + c))"
          using M by (simp add: row_cmp_def Let_def)
        have cmp: "sg * row_cmp tab q i c < 0 \<longleftrightarrow> ratio tab c i < ratio tab c q"
          "sg * row_cmp tab q i c = 0 \<longleftrightarrow> ratio tab c i = ratio tab c q"
          unfolding rc ratio_def by (rule fr)+
        have nt: "(\<exists>v. skip = Some v \<and> int i = var_index (var_from_index tab v)) = False"
          "is_nonneg (isl_tab_var_from_row tab i) = True" "(0 \<le> sg * sgn (tent tab i (tab_off tab + c))) = False"
          using True unfolding Li by blast+
        have "?f i r = (if limits_before tab c i q then Some i else r)"
          by (simp only: nt Some Let_def cmp limits_before_def if_False if_True not_True_eq_False option.case)
        moreover have "\<not> limits_before tab c j i" if "limits_before tab c i q" "\<not> limits_before tab c j q" for j
          using that by (auto simp: limits_before_def)
        moreover have "\<not> limits_before tab c i i" by (simp add: limits_before_def)
        ultimately show ?thesis using P True q Some by (auto simp: less_Suc_eq)
      qed
    qed
  qed
  then have "?P (t_row tab) (pivot_row tab skip sg c)" by (simp only: pivot_row_def)
  then show ?thesis by (auto simp: limits_def split: option.splits)
qed

text \<open>The columns that move the row variable of \<open>row\<close> in direction \<open>sg\<close>.\<close>

definition improves :: "isl_tab \<Rightarrow> nat \<Rightarrow> int \<Rightarrow> nat \<Rightarrow> bool" where
  "improves tab row sg j \<longleftrightarrow> n_dead tab \<le> j \<and> j < t_col tab \<and> tent tab row (tab_off tab + j) \<noteq> 0 \<and>
     (sgn (tent tab row (tab_off tab + j)) = sg \<or> \<not> is_nonneg (var_from_col tab j))"

lemma find_pivot_col_spec:
  assumes n: "n_dead tab \<le> t_col tab"
  shows "case find_pivot_col tab row sg of None \<Rightarrow> (\<forall>j. \<not> improves tab row sg j)
    | Some c \<Rightarrow> improves tab row sg c \<and> (\<forall>j. improves tab row sg j \<longrightarrow> col_var tab ! c \<le> col_var tab ! j)"
proof -
  let ?f = "\<lambda>j c. let trj = tent tab row (tab_off tab + j)
       in if trj = 0 then c
          else if sgn trj \<noteq> sg \<and> is_nonneg (var_from_col tab j) then c
          else case c of None \<Rightarrow> Some j
               | Some c' \<Rightarrow> if col_var tab ! j < col_var tab ! c' then Some j else c"
  let ?I = "improves tab row sg"
  let ?P = "\<lambda>i c. case c of None \<Rightarrow> (\<forall>j < i. \<not> ?I j)
    | Some c \<Rightarrow> c < i \<and> ?I c \<and> (\<forall>j < i. ?I j \<longrightarrow> col_var tab ! c \<le> col_var tab ! j)"
  have "?P (t_col tab) (for_range (n_dead tab) (t_col tab) ?f None)"
  proof (rule for_range_induct [where P = ?P, OF n])
    show "?P (n_dead tab) None" by (simp add: improves_def)
    fix i c assume i: "n_dead tab \<le> i" "i < t_col tab" and P: "?P i c"
    then have "?f i c = (if \<not> ?I i then c else case c of None \<Rightarrow> Some i
               | Some c' \<Rightarrow> if col_var tab ! i < col_var tab ! c' then Some i else c)"
      by (auto simp: Let_def improves_def)
    then show "?P (Suc i) (?f i c)" using P by (auto simp: less_Suc_eq split: option.splits)
  qed
  then have "?P (t_col tab) (find_pivot_col tab row sg)" by (simp only: find_pivot_col_def)
  then show ?thesis by (auto simp: improves_def split: option.splits)
qed

subsection \<open>One step of the search\<close>

definition live_row :: "isl_tab \<Rightarrow> int \<Rightarrow> nat \<Rightarrow> bool" where
  "live_row tab v r \<longleftrightarrow> n_redundant tab \<le> r \<and> r < t_row tab \<and> row_var tab ! r = v"

lemma live_row_index: "plain tab \<Longrightarrow> live_row tab v r \<Longrightarrow> var_index (var_from_index tab v) = int r \<and> is_row (var_from_index tab v)"
  using tab_indexD(2) [OF tab_okD(2), of tab r] by (auto simp: plain_def live_row_def at_row_def)

lemma live_row_vars: "live_row tab v r \<Longrightarrow> v \<in> live_vars tab"
  by (auto simp: live_row_def live_vars_def fst_rows)

lemma live_vars_cases:
  assumes "v \<in> live_vars tab"
  obtains (row) r where "live_row tab v r" | (col) c where "c < t_col tab" "col_var tab ! c = v"
  using assms by (auto simp: live_row_def live_vars_def fst_rows col_vars_def)

text \<open>The direction in which column \<open>c\<close> moves so that the variable of \<open>row\<close> moves in direction \<open>sg\<close>.\<close>

definition dir :: "isl_tab \<Rightarrow> nat \<Rightarrow> int \<Rightarrow> nat \<Rightarrow> int" where
  "dir tab row sg c = sg * sgn (tent tab row (tab_off tab + c))"

lemma dir_cases: "sg = 1 \<or> sg = -1 \<Longrightarrow> improves tab row sg c \<Longrightarrow> dir tab row sg c = 1 \<or> dir tab row sg c = -1"
  by (auto simp: dir_def improves_def sgn_if)

lemma find_pivot_spec:
  assumes pl: "plain tab" and v: "live_row tab v row" and sg: "sg = 1 \<or> sg = -1"
  shows "case find_pivot tab v (Some v) sg of
      None \<Rightarrow> (\<forall>j. \<not> improves tab row sg j)
    | Some (r, c) \<Rightarrow> improves tab row sg c \<and> (\<forall>j. improves tab row sg j \<longrightarrow> col_var tab ! c \<le> col_var tab ! j) \<and>
        (if \<exists>j. limits tab (Some v) (dir tab row sg c) c j
         then limits tab (Some v) (dir tab row sg c) c r \<and>
           (\<forall>j. limits tab (Some v) (dir tab row sg c) c j \<longrightarrow> \<not> limits_before tab c j r)
         else r = row)"
proof -
  note sh = tab_shapeD [OF tab_okD(1) [OF plainD(1) [OF pl]]]
  note ix = live_row_index [OF pl v]
  then have row: "index_of tab v = row" by simp
  show ?thesis
  proof (cases "find_pivot_col tab row sg")
    case None
    then show ?thesis using find_pivot_col_spec [OF sh(6), of row sg] ix by (simp add: find_pivot_def Let_def)
  next
    case (Some c)
    have c: "improves tab row sg c" "\<forall>j. improves tab row sg j \<longrightarrow> col_var tab ! c \<le> col_var tab ! j"
      using find_pivot_col_spec [OF sh(6), of row sg] Some by simp_all
    have fp: "find_pivot tab v (Some v) sg =
        (case pivot_row tab (Some v) (dir tab row sg c) c of None \<Rightarrow> Some (row, c) | Some r \<Rightarrow> Some (r, c))"
      using ix Some by (simp add: find_pivot_def Let_def dir_def)
    note pr = pivot_row_spec [OF plainD(3) [OF pl] dir_cases [OF sg c(1)] sh(5), of "Some v" c]
    show ?thesis
    proof (cases "pivot_row tab (Some v) (dir tab row sg c) c")
      case None
      then show ?thesis using pr c fp by simp
    next
      case (Some r)
      then show ?thesis using pr c fp by auto
    qed
  qed
qed

lemma limitsD:
  assumes "plain tab" "limits tab (Some v) s c j"
  shows "live_row tab (row_var tab ! j) j" "nonneg tab (row_var tab ! j)" "of_int s * coef tab j c < 0" "row_var tab ! j \<noteq> v"
proof -
  have j: "n_redundant tab \<le> j" "j < t_row tab" "int j \<noteq> var_index (var_from_index tab v)" "is_nonneg (isl_tab_var_from_row tab j)"
    "s * sgn (tent tab j (tab_off tab + c)) < 0" using assms(2) by (auto simp: limits_def)
  show l: "live_row tab (row_var tab ! j) j" using j by (simp add: live_row_def)
  show "nonneg tab (row_var tab ! j)" using j(4) by (simp add: nonneg_def isl_tab_var_from_row_def)
  show "row_var tab ! j \<noteq> v" using live_row_index [OF assms(1) l] j(3) by auto
  have "sgn (of_int s * coef tab j c) = of_int (sgn (s * sgn (tent tab j (tab_off tab + c))))"
    by (simp add: sgn_mult coef_sgn [OF plainD(1) [OF assms(1)] j(2)] sgn_of_int_rat)
  also have "\<dots> = -1" using j(5) by simp
  finally show "of_int s * coef tab j c < 0" by (simp only: sgn_1_neg)
qed

lemma limitsI:
  assumes "plain tab" "live_row tab w j" "nonneg tab w" "of_int s * coef tab j c < 0" "w \<noteq> v" "live_row tab v row"
  shows "limits tab (Some v) s c j"
proof -
  have j: "n_redundant tab \<le> j" "j < t_row tab" "row_var tab ! j = w" using assms(2) by (simp_all add: live_row_def)
  have "sgn (of_int s * coef tab j c) = of_int (sgn (s * sgn (tent tab j (tab_off tab + c))))"
    by (simp add: sgn_mult coef_sgn [OF plainD(1) [OF assms(1)] j(2)] sgn_of_int_rat)
  moreover have "sgn (of_int s * coef tab j c) = -1" using assms(4) by (simp only: sgn_1_neg)
  ultimately have "sgn (s * sgn (tent tab j (tab_off tab + c))) = -1" by (simp only: of_int_eq_iff [where 'a = rat, symmetric] of_int_minus of_int_1)
  then have "s * sgn (tent tab j (tab_off tab + c)) < 0" by (simp only: sgn_1_neg)
  moreover have "int j \<noteq> var_index (var_from_index tab v)"
    using live_row_index [OF assms(1,6)] assms(2,5,6) by (auto simp: live_row_def)
  ultimately show ?thesis using j assms(3) by (auto simp: limits_def nonneg_def isl_tab_var_from_row_def)
qed

subsection \<open>Bland's rule does not cycle\<close>

lemma improvesD:
  assumes "plain tab" "improves tab row sg c" "row < t_row tab"
  shows "n_dead tab \<le> c" "c < t_col tab" "coef tab row c \<noteq> 0"
    and "nonneg tab (col_var tab ! c) \<Longrightarrow> sgn (coef tab row c) = of_int sg"
  using assms coef_sgn [OF plainD(1) [OF assms(1)] assms(3), of c] tab_okD(3) [OF plainD(1) [OF assms(1)] assms(3)]
  by (auto simp: improves_def nonneg_def var_from_col_def coef_zero ent_def)

lemma improvesI:
  assumes "plain tab" "row < t_row tab" "n_dead tab \<le> c" "c < t_col tab" "sgn (coef tab row c) = of_int sg" "sg \<noteq> 0"
  shows "improves tab row sg c"
  using assms coef_sgn [OF plainD(1) [OF assms(1)] assms(2), of c] by (auto simp: improves_def)

text \<open>
  A step from \<open>tab\<close> to \<open>t\<close> that moves the variable \<open>v\<close> of a row in direction \<open>sg\<close> by
  exchanging row \<open>r\<close> and column \<open>c\<close>, chosen by Bland's rule, and marks no row.
\<close>

definition turn :: "isl_tab \<Rightarrow> int \<Rightarrow> int \<Rightarrow> nat \<Rightarrow> nat \<Rightarrow> isl_tab \<Rightarrow> bool" where
  "turn tab v sg r c t \<longleftrightarrow> plain tab \<and> plain t \<and>
     (\<exists>row. live_row tab v row \<and> improves tab row sg c \<and>
        (\<forall>j. improves tab row sg j \<longrightarrow> col_var tab ! c \<le> col_var tab ! j) \<and>
        limits tab (Some v) (dir tab row sg c) c r \<and>
        (\<forall>j. limits tab (Some v) (dir tab row sg c) c j \<longrightarrow> \<not> limits_before tab c j r)) \<and>
     (\<exists>row. live_row t v row) \<and> live_vars t = live_vars tab \<and> (\<forall>x. live_sat t x = live_sat tab x) \<and>
     (\<forall>w \<in> live_vars tab. nonneg t w = nonneg tab w) \<and> n_dead t = n_dead tab \<and> t_col t = t_col tab \<and>
     (\<forall>k < t_col tab. col_var t ! k = (if k = c then row_var tab ! r else col_var tab ! k))"

lemma turn_move:
  assumes t: "turn tab v sg r c t" and sg: "sg = 1 \<or> sg = -1"
    and feas: "\<And>w. w \<in> live_vars tab \<Longrightarrow> w \<noteq> v \<Longrightarrow> nonneg tab w \<Longrightarrow> 0 \<le> sample tab w"
  obtains d where "0 \<le> of_int sg * d" "sample t v = sample tab v + d"
    "d = 0 \<Longrightarrow> \<forall>w \<in> live_vars tab. sample t w = sample tab w"
proof -
  obtain row where row: "live_row tab v row" "improves tab row sg c" "limits tab (Some v) (dir tab row sg c) c r"
    and pl: "plain tab" "plain t" and vars: "live_vars t = live_vars tab" and sat: "\<And>x. live_sat t x = live_sat tab x"
    and cols: "t_col t = t_col tab" "\<And>k. k < t_col tab \<Longrightarrow> col_var t ! k = (if k = c then row_var tab ! r else col_var tab ! k)"
    using t unfolding turn_def by blast
  note lim = limitsD [OF pl(1) row(3)]
  have r: "r < t_row tab" "row < t_row tab" using lim(1) row(1) by (simp_all add: live_row_def)
  note imp = improvesD [OF pl(1) row(2) r(2)]
  have rc: "coef tab r c \<noteq> 0" using lim(3) by auto
  define d where "d = - rval tab r / coef tab r c"
  have new: "sample t w = line tab c d w" if "w \<in> live_vars tab" for w
  proof -
    have "live_sat t (line tab c d)" using sat sat_live [OF line_sat pl(1)] pl(1) by blast
    moreover have "line tab c d (col_var t ! k) = 0" if "k < t_col t" for k
      using that pl(1) r imp(2) rc by (auto simp: cols line_row line_col d_def)
    ultimately show ?thesis using sol_unique [OF pl(2), of "line tab c d" "\<lambda>k. 0" w] \<open>w \<in> live_vars tab\<close> vars
      by (simp add: sample_def)
  qed
  have v: "row_var tab ! row = v" using row(1) by (simp add: live_row_def)
  show thesis
  proof (rule that [of "coef tab row c * d"])
    have "0 \<le> sample tab (row_var tab ! r)" using feas lim live_row_vars by blast
    then have rv: "0 \<le> rval tab r" using pl(1) r by (simp add: sample_row)
    have "of_int (dir tab row sg c) = of_int sg * sgn (coef tab row c)"
      using coef_sgn [OF plainD(1) [OF pl(1)] r(2), of c] by (simp add: dir_def)
    with lim(3) have neg: "of_int sg * sgn (coef tab row c) * coef tab r c < 0" by simp
    have "of_int sg * (coef tab row c * d) = \<bar>coef tab row c\<bar> * ((- rval tab r) * (of_int sg * sgn (coef tab row c) / coef tab r c))"
      by (simp add: d_def abs_sgn mult_ac)
    moreover have "of_int sg * sgn (coef tab row c) / coef tab r c \<le> 0" 
      unfolding divide_le_0_iff using neg unfolding mult_less_0_iff [of "of_int sg * sgn (coef tab row c)"] by linarith
    ultimately show "0 \<le> of_int sg * (coef tab row c * d)"
      using rv by (metis abs_ge_zero mult_nonneg_nonneg mult_nonpos_nonpos neg_le_0_iff_le)
    show "sample t v = sample tab v + coef tab row c * d"
      using new [OF live_row_vars [OF row(1)]] pl(1) r imp(2) v by (metis line_row sample_row)
    assume "coef tab row c * d = 0"
    then have "d = 0" using imp(3) by simp
    then show "\<forall>w \<in> live_vars tab. sample t w = sample tab w" using new sample_line [of tab c] by simp
  qed
qed

lemma switches:
  fixes P :: "nat \<Rightarrow> bool"
  assumes "i \<le> j" "P i" "\<not> P j"
  shows "\<exists>k. i \<le> k \<and> k < j \<and> P k \<and> \<not> P (Suc k)"
  using assms
proof (induction j)
  case 0
  then show ?case by simp
next
  case (Suc j)
  show ?case
  proof (cases "P j")
    case True
    then show ?thesis using Suc.prems by (metis le_SucE lessI)
  next
    case False
    then show ?thesis using Suc by (metis le_SucE less_SucI)
  qed
qed

lemma switches_both:
  fixes P :: "nat \<Rightarrow> bool"
  assumes "P n = P 0" "i \<le> n" "P i" "j \<le> n" "\<not> P j"
  shows "\<exists>k < n. P k \<and> \<not> P (Suc k)" and "\<exists>k < n. \<not> P k \<and> P (Suc k)"
proof -
  have "\<exists>k < n. Q k \<and> \<not> Q (Suc k)" if Q: "Q n = Q 0" "a \<le> n" "Q a" "b \<le> n" "\<not> Q b" for Q :: "nat \<Rightarrow> bool" and a b
  proof (cases "Q 0")
    case True
    then obtain k where "k < b" "Q k" "\<not> Q (Suc k)" using switches [of 0 b Q] Q by auto
    then show ?thesis using Q(4) by (metis order_less_le_trans)
  next
    case False
    then show ?thesis using switches [of a n Q] Q by auto
  qed
  from this [of P i j] this [of "\<lambda>k. \<not> P k" j i] assms
  show "\<exists>k < n. P k \<and> \<not> P (Suc k)" "\<exists>k < n. \<not> P k \<and> P (Suc k)" by auto
qed

lemma bland_no_cycle:
  assumes sg: "sg = 1 \<or> sg = -1" and n: "0 < n"
    and turns: "\<And>i. i < n \<Longrightarrow> turn (T i) v sg (r i) (c i) (T (Suc i))"
    and feas: "\<And>i w. i < n \<Longrightarrow> w \<in> live_vars (T i) \<Longrightarrow> w \<noteq> v \<Longrightarrow> nonneg (T i) w \<Longrightarrow> 0 \<le> sample (T i) w"
    and cyc: "col_vars (T n) = col_vars (T 0)"
  shows False
proof -
  define W where "W = live_vars (T 0)"
  define C where "C i = col_vars (T i)" for i
  define l where "l i = row_var (T i) ! r i" for i
  define e where "e i = col_var (T i) ! c i" for i
  have same: "live_vars (T i) = W \<and> (\<forall>x. live_sat (T i) x = live_sat (T 0) x) \<and> (\<forall>w \<in> W. nonneg (T i) w = nonneg (T 0) w) \<and>
      n_dead (T i) = n_dead (T 0) \<and> t_col (T i) = t_col (T 0) \<and> (\<forall>k < n_dead (T 0). col_var (T i) ! k = col_var (T 0) ! k)"
    if "i \<le> n" for i
    using that
  proof (induction i)
    case 0
    then show ?case by (simp add: W_def)
  next
    case (Suc i)
    then have i: "i < n" and IH: "live_vars (T i) = W" "\<And>x. live_sat (T i) x = live_sat (T 0) x" "\<And>w. w \<in> W \<Longrightarrow> nonneg (T i) w = nonneg (T 0) w"
      "n_dead (T i) = n_dead (T 0)" "t_col (T i) = t_col (T 0)" "\<And>k. k < n_dead (T 0) \<Longrightarrow> col_var (T i) ! k = col_var (T 0) ! k" by simp_all
    obtain row where row: "improves (T i) row sg (c i)" using turns [OF i] by (auto simp: turn_def)
    have le: "n_dead (T i) \<le> c i" "c i < t_col (T i)" using row by (auto simp: improves_def)
    have "col_var (T (Suc i)) ! k = col_var (T 0) ! k" if "k < n_dead (T 0)" for k
      using turns [OF i] that le IH by (auto simp: turn_def)
    then show ?case using turns [OF i] IH by (auto simp: turn_def)
  qed
  have plain: "plain (T i)" if "i \<le> n" for i
    using that turns [of i] turns [of "i - 1"] n by (cases "i = n") (auto simp: turn_def)
  have vrow: "\<exists>row. live_row (T i) v row" if "i \<le> n" for i
    using that turns [of i] turns [of "i - 1"] n by (cases "i = n") (auto simp: turn_def)
  have step: "\<exists>row. live_row (T i) v row \<and> improves (T i) row sg (c i) \<and>
        (\<forall>j. improves (T i) row sg j \<longrightarrow> e i \<le> col_var (T i) ! j) \<and>
        limits (T i) (Some v) (dir (T i) row sg (c i)) (c i) (r i) \<and>
        (\<forall>j. limits (T i) (Some v) (dir (T i) row sg (c i)) (c i) j \<longrightarrow> \<not> limits_before (T i) (c i) j (r i))"
    if "i < n" for i using turns [OF that] by (simp add: turn_def e_def)
  have ci: "c i < t_col (T i)" "n_dead (T i) \<le> c i" if "i < n" for i using step [OF that] by (auto simp: improves_def)
  have lrow: "live_row (T i) (l i) (r i) \<and> nonneg (T i) (l i) \<and> l i \<noteq> v" if "i < n" for i
  proof -
    obtain row where "limits (T i) (Some v) (dir (T i) row sg (c i)) (c i) (r i)" using step [OF \<open>i < n\<close>] by blast
    then show ?thesis using limitsD [OF plain [of i]] \<open>i < n\<close> unfolding l_def by fastforce
  qed
  have notC: "w \<notin> C i" if "live_row (T i) w j" "i \<le> n" for w i j
    using tab_index_inj(3) [OF tab_okD(2) [OF plainD(1) [OF plain [OF that(2)]]], of j] that(1)
    by (fastforce simp: C_def col_vars_def live_row_def)
  have CW: "C i \<subseteq> W" if "i \<le> n" for i using same [OF that] by (auto simp: C_def live_vars_def)
  have lC: "l i \<notin> C i" "e i \<in> C i" if "i < n" for i
    using notC [of i "l i" "r i"] lrow [OF that] ci [OF that] that by (auto simp: C_def e_def col_vars_def)
  have Cstep: "C (Suc i) = insert (l i) (C i - {e i})" if "i < n" for i
  proof -
    have cv: "t_col (T (Suc i)) = t_col (T i)" "\<And>k. k < t_col (T i) \<Longrightarrow> col_var (T (Suc i)) ! k = (if k = c i then l i else col_var (T i) ! k)"
      using turns [OF that] by (auto simp: turn_def l_def)
    have inj: "\<And>k. k < t_col (T i) \<Longrightarrow> col_var (T i) ! k = e i \<longleftrightarrow> k = c i"
      using tab_index_inj(2) [OF tab_okD(2) [OF plainD(1) [OF plain]], of i _ "c i"] ci [OF that] that by (auto simp: e_def)
    show ?thesis using cv inj ci(1) [OF that] unfolding C_def col_vars_def by auto
  qed
  have Ccyc: "C n = C 0" using cyc by (simp add: C_def)
  text \<open>All samples are the same.\<close>
  have sat0: "live_sat (T i) x = live_sat (T j) x" if "i \<le> n" "j \<le> n" for i j x using same [OF that(1)] same [OF that(2)] by simp
  have Czero: "sample (T i) w = 0" if "w \<in> C i" "i \<le> n" for i w
    using that plain by (auto simp: C_def col_vars_def sample_col)
  have last: "sample (T n) w = sample (T 0) w" if "w \<in> W" for w
  proof -
    have "live_sat (T 0) (sample (T n))" using sat_live [OF sample_sat [OF plain [of n]] plain [of n]] sat0 [of n 0] by simp
    moreover have "sample (T n) (col_var (T 0) ! k) = 0" if "k < t_col (T 0)" for k
    proof (rule Czero)
      show "col_var (T 0) ! k \<in> C n" using that by (simp add: Ccyc) (simp add: C_def col_vars_def)
    qed simp
    ultimately show ?thesis using sol_unique [OF plain [of 0], of "sample (T n)" "\<lambda>k. 0" w] that by (simp add: sample_def W_def)
  qed
  have move: "of_int sg * sample (T i) v \<le> of_int sg * sample (T (Suc i)) v \<and>
      (sample (T (Suc i)) v = sample (T i) v \<longrightarrow> (\<forall>w \<in> W. sample (T (Suc i)) w = sample (T i) w))" if "i < n" for i
  proof -
    have lv: "live_vars (T i) = W" using same [of i] that by simp
    from turn_move [OF turns [OF that] sg feas [OF that]] obtain d where
      "0 \<le> of_int sg * d" "sample (T (Suc i)) v = sample (T i) v + d"
      "d = 0 \<Longrightarrow> \<forall>w \<in> live_vars (T i). sample (T (Suc i)) w = sample (T i) w" by blast
    then show ?thesis by (simp add: lv distrib_left)
  qed
  have vW: "v \<in> W" using vrow [of 0] live_row_vars by (auto simp: W_def)
  have up: "of_int sg * sample (T 0) v \<le> of_int sg * sample (T i) v" if "i \<le> n" for i
    using that by (induction i) (use move in \<open>auto intro: order_trans\<close>)
  have down: "of_int sg * sample (T (n - i)) v \<le> of_int sg * sample (T n) v" if "i \<le> n" for i
    using that
  proof (induction i)
    case (Suc i)
    then have "Suc (n - Suc i) = n - i" "n - Suc i < n" by simp_all
    then show ?case using move [of "n - Suc i"] Suc by simp
  qed simp
  have const: "sample (T i) v = sample (T 0) v" if "i \<le> n" for i
  proof -
    have "of_int sg * sample (T i) v \<le> of_int sg * sample (T 0) v" using down [of "n - i"] that last [OF vW] by simp
    with up [OF that] sg show ?thesis by auto
  qed
  have samples: "sample (T i) w = sample (T 0) w" if "i \<le> n" "w \<in> W" for i w
    using that(1)
  proof (induction i)
    case (Suc i)
    have "sample (T (Suc i)) v = sample (T i) v" using const [of i] const [of "Suc i"] Suc.prems by simp
    then have "sample (T (Suc i)) w = sample (T i) w" using move [of i] Suc.prems that(2) by simp
    then show ?case using Suc by simp
  qed simp
  text \<open>The variables that move, and the largest of them.\<close>
  define F where "F = {w. (\<exists>i \<le> n. w \<in> C i) \<and> (\<exists>i \<le> n. w \<notin> C i)}"
  have "F \<subseteq> (\<Union>i \<le> n. C i)" by (auto simp: F_def)
  moreover have "finite (\<Union>i \<le> n. C i)" by (simp add: C_def col_vars_def)
  ultimately have fin: "finite F" by (rule finite_subset)
  have "l 0 \<in> F" using lC(1) [OF n] Cstep [OF n] n by (auto simp: F_def intro: exI [of _ "Suc 0"])
  then have ne: "F \<noteq> {}" by blast
  have leaves: "\<exists>k < n. w = l k" and enters: "\<exists>k < n. w = e k" if wF: "w \<in> F" for w
  proof -
    obtain i j where ij: "i \<le> n" "w \<in> C i" "j \<le> n" "w \<notin> C j" using wF by (auto simp: F_def)
    from switches_both [of "\<lambda>i. w \<in> C i", OF _ ij] Ccyc obtain a b where
      a: "a < n" "w \<in> C a" "w \<notin> C (Suc a)" and b: "b < n" "w \<notin> C b" "w \<in> C (Suc b)" by auto
    show "\<exists>k < n. w = l k" using b Cstep [OF b(1)] by blast
    show "\<exists>k < n. w = e k" using a Cstep [OF a(1)] by blast
  qed
  have FW: "w \<in> W \<and> nonneg (T i) w \<and> w \<noteq> v \<and> sample (T i) w = 0" if wF: "w \<in> F" and i: "i \<le> n" for w i
  proof -
    obtain k where k: "k < n" "w = l k" using leaves [OF wF] by blast
    then have W: "w \<in> W" "w \<noteq> v" "nonneg (T k) w"
      using lrow [OF k(1)] live_row_vars [of "T k" w] same [of k] by auto
    have nn: "nonneg (T i) w" using W same [of k] same [OF i] k(1) by simp
    obtain j where j: "j \<le> n" "w \<in> C j" using wF by (auto simp: F_def)
    then have "sample (T i) w = 0" using samples [OF i W(1)] samples [OF j(1) W(1)] Czero [OF j(2,1)] by simp
    with W nn show ?thesis by simp
  qed
  define t where "t = Max F"
  have tF: "t \<in> F" using fin ne by (simp add: t_def)
  have tmax: "w \<le> t" if "w \<in> F" for w using fin that by (simp add: t_def)
  obtain k where k: "k < n" "t = l k" using leaves [OF tF] by blast
  obtain k' where k': "k' < n" "t = e k'" using enters [OF tF] by blast
  text \<open>The step at which it leaves its row, and the column that it leaves for.\<close>
  obtain \<rho> where \<rho>: "live_row (T k) v \<rho>" "improves (T k) \<rho> sg (c k)"
    "limits (T k) (Some v) (dir (T k) \<rho> sg (c k)) (c k) (r k)"
    "\<And>j. limits (T k) (Some v) (dir (T k) \<rho> sg (c k)) (c k) j \<Longrightarrow> \<not> limits_before (T k) (c k) j (r k)"
    using step [OF k(1)] by blast
  obtain \<sigma> where \<sigma>: "live_row (T k') v \<sigma>" "improves (T k') \<sigma> sg (c k')"
    "\<And>j. improves (T k') \<sigma> sg j \<Longrightarrow> e k' \<le> col_var (T k') ! j"
    using step [OF k'(1)] by blast
  have pk: "plain (T k)" "plain (T k')" using plain [of k] plain [of k'] k(1) k'(1) by simp_all
  have \<rho>r: "\<rho> < t_row (T k)" "\<sigma> < t_row (T k')" "row_var (T k) ! \<rho> = v" "row_var (T k') ! \<sigma> = v"
    using \<rho>(1) \<sigma>(1) by (simp_all add: live_row_def)
  have eF: "e k \<in> F"
  proof -
    have "e k \<in> C k" "e k \<notin> C (Suc k)" using lC [OF k(1)] Cstep [OF k(1)] by auto
    then show ?thesis using k(1) unfolding F_def by (metis (mono_tags, lifting) Suc_leI less_imp_le_nat mem_Collect_eq)
  qed
  have et: "e k < t" using tmax [OF eF] lC [OF k(1)] k(2) by (metis order_le_less)
  have enn: "nonneg (T k) (e k)" using FW [OF eF, of k] k(1) by simp
  have sgn_up: "sgn (coef (T k) \<rho> (c k)) = of_int sg"
    using improvesD(4) [OF pk(1) \<rho>(2) \<rho>r(1)] enn by (simp add: e_def)
  have "dir (T k) \<rho> sg (c k) = 1"
  proof -
    have "sgn (tent (T k) \<rho> (tab_off (T k) + c k)) = sg"
      using sgn_up coef_sgn [OF plainD(1) [OF pk(1)] \<rho>r(1), of "c k"] by simp
    then show ?thesis using sg by (auto simp: dir_def)
  qed
  note dir1 = this
  define D where "D w = line (T k) (c k) 1 w - sample (T k) w" for w
  have Drow: "D (row_var (T k) ! j) = coef (T k) j (c k)" if "j < t_row (T k)" for j
    using that pk(1) ci(1) [OF k(1)] by (simp add: D_def line_row sample_row)
  have Dcol: "D (col_var (T k) ! j) = (if j = c k then 1 else 0)" if "j < t_col (T k)" for j
    using that pk(1) by (simp add: D_def line_col sample_col)
  have sats: "live_sat (T k') (line (T k) (c k) 1)" "live_sat (T k') (sample (T k))"
    using sat_live [OF line_sat pk(1)] sat_live [OF sample_sat pk(1)] pk(1) sat0 [of k' k] k(1) k'(1) by simp_all
  have "D v = (\<Sum>j<t_col (T k'). coef (T k') \<sigma> j * D (col_var (T k') ! j))"
    using live_satD [OF sats(1) pk(2), of \<sigma>] live_satD [OF sats(2) pk(2), of \<sigma>] \<sigma>(1)
    by (simp add: D_def live_row_def sum_subtractf right_diff_distrib)
  moreover have "0 < of_int sg * D v"
  proof -
    have "of_int sg * D v = \<bar>coef (T k) \<rho> (c k)\<bar>" using Drow [OF \<rho>r(1)] \<rho>r(3) sgn_up by (simp add: abs_sgn mult.commute)
    then show ?thesis using improvesD(3) [OF pk(1) \<rho>(2) \<rho>r(1)] by simp
  qed
  ultimately have pos: "0 < (\<Sum>j<t_col (T k'). of_int sg * coef (T k') \<sigma> j * D (col_var (T k') ! j))"
    by (simp add: sum_distrib_left mult.assoc)
  have "\<exists>j < t_col (T k'). 0 < of_int sg * coef (T k') \<sigma> j * D (col_var (T k') ! j)"
  proof (rule ccontr)
    assume "\<not> ?thesis"
    then have "(\<Sum>j<t_col (T k'). of_int sg * coef (T k') \<sigma> j * D (col_var (T k') ! j)) \<le> 0"
      by (intro sum_nonpos) (metis lessThan_iff not_less)
    with pos show False by simp
  qed
  then obtain j where j: "j < t_col (T k')" and gain: "0 < of_int sg * coef (T k') \<sigma> j * D (col_var (T k') ! j)" by blast
  define w where "w = col_var (T k') ! j"
  have wC: "w \<in> C k'" using j by (simp add: w_def C_def col_vars_def)
  have Dw: "D w \<noteq> 0" using gain by (auto simp: w_def)
  have j_dead: "n_dead (T k') \<le> j"
  proof (rule ccontr)
    assume "\<not> ?thesis"
    then have "j < n_dead (T 0)" using same [of k'] k'(1) by simp
    then have "w = col_var (T k) ! j" "j < c k" "j < t_col (T k)"
      using same [of k'] same [of k] k(1) k'(1) ci [OF k(1)] by (auto simp: w_def)
    then show False using Dw Dcol by simp
  qed
  have wt: "w \<noteq> t"
  proof
    assume "w = t"
    then have "j = c k'" using tab_index_inj(2) [OF tab_okD(2) [OF plainD(1) [OF pk(2)]] j ci(1) [OF k'(1)]] k'(2) by (simp add: w_def e_def)
    then have "sgn (coef (T k') \<sigma> j) = of_int sg"
      using improvesD(4) [OF pk(2) \<sigma>(2) \<rho>r(2)] FW [OF tF, of k'] k' by (simp add: e_def)
    moreover have "D w < 0" using \<open>w = t\<close> k(2) Drow [of "r k"] lrow [OF k(1)] limitsD(3) [OF pk(1) \<rho>(3)] dir1
      by (simp add: l_def live_row_def)
    moreover have "of_int sg * coef (T k') \<sigma> j = \<bar>coef (T k') \<sigma> j\<bar>" using calculation(1) by (simp add: abs_sgn mult.commute)
    ultimately show False using gain by (simp add: w_def zero_less_mult_iff)
  qed
  have wF: "w \<in> F"
  proof (cases "w \<in> C k")
    case True
    then obtain i where "i < t_col (T k)" "w = col_var (T k) ! i" by (auto simp: C_def col_vars_def)
    then have "w = e k" using Dcol [of i] Dw by (auto simp: e_def split: if_splits)
    with eF show ?thesis by simp
  next
    case False
    then show ?thesis using wC k(1) k'(1) unfolding F_def by (auto intro: less_imp_le)
  qed
  have w_less: "w < t" using tmax [OF wF] wt by simp
  have "\<not> 0 < of_int sg * coef (T k') \<sigma> j"
  proof
    assume "0 < of_int sg * coef (T k') \<sigma> j"
    then have "sgn (coef (T k') \<sigma> j) = of_int sg" using sg by (auto simp: sgn_if zero_less_mult_iff)
    then have "improves (T k') \<sigma> sg j" using improvesI [OF pk(2) \<rho>r(2) j_dead j] sg by auto
    then show False using \<sigma>(3) [of j] w_less k'(2) by (simp add: w_def)
  qed
  then have Dneg: "D w < 0" using gain by (auto simp: w_def zero_less_mult_iff not_less)
  have "w \<notin> C k"
  proof
    assume "w \<in> C k"
    then obtain i where "i < t_col (T k)" "w = col_var (T k) ! i" by (auto simp: C_def col_vars_def)
    then show False using Dcol [of i] Dneg by (auto split: if_splits)
  qed
  moreover have "w \<in> live_vars (T k)" using FW [OF wF, of k] same [of k] k(1) by simp
  ultimately obtain i where i: "live_row (T k) w i" using live_vars_cases [of w "T k"] by (force simp: C_def col_vars_def)
  have wn: "nonneg (T k) w" "w \<noteq> v" "sample (T k) w = 0" using FW [OF wF, of k] k(1) by simp_all
  have ir: "i < t_row (T k)" "row_var (T k) ! i = w" using i by (simp_all add: live_row_def)
  have "coef (T k) i (c k) < 0" using Drow [OF ir(1)] Dneg ir(2) by simp
  then have "limits (T k) (Some v) 1 (c k) i" using limitsI [OF pk(1) i wn(1) _ wn(2) \<rho>(1), of 1 "c k"] by simp
  then have nb: "\<not> limits_before (T k) (c k) i (r k)" using \<rho>(4) dir1 by simp
  have zero: "ratio (T k) (c k) i = 0" if "live_row (T k) u i" "sample (T k) u = 0" for u i
  proof -
    have "rval (T k) i = 0" using that pk(1) sample_row [of "T k" i] by (auto simp: live_row_def)
    then have "tent (T k) i 1 = 0"
      using tab_okD(3) [OF plainD(1) [OF pk(1)], of i] that(1) by (auto simp: rval_def live_row_def ent_def)
    then show ?thesis by (simp add: ratio_def)
  qed
  have "ratio (T k) (c k) (r k) = 0" using zero [of "l k" "r k"] lrow [OF k(1)] FW [OF tF, of k] k by simp
  then have "row_var (T k) ! r k \<le> w" using nb zero [OF i wn(3)] ir(2) by (simp add: limits_before_def)
  then show False using w_less k(2) by (simp add: l_def)
qed

end
