(* ===== verification/Tab_Search.thy ===== *)
theory Tab_Search imports Tab_Bland begin

text \<open>
  One step of the searches of isl_tab.c for the sign of the extreme value of a variable:
  what the pivot chosen by \<open>find_pivot\<close> does to the sample value, when the variable is at
  its extreme or unbounded, and that the steps cannot go on for ever.
\<close>

subsection \<open>Moving along the line of a column\<close>

lemma ratio_eq:
  assumes "plain tab" "j < t_row tab"
  shows "ratio tab c j = rval tab j / \<bar>coef tab j c\<bar>"
proof -
  have "0 < tent tab j 0" using tab_okD(3) [OF plainD(1) [OF assms(1)] assms(2)] by (simp add: ent_def)
  then show ?thesis by (simp add: ratio_def rval_def coef_def abs_divide)
qed

text \<open>The sample is feasible, apart from what \<open>v\<close> asks for.\<close>

definition ok_but :: "isl_tab \<Rightarrow> int \<Rightarrow> bool" where
  "ok_but tab v \<longleftrightarrow> (\<forall>w \<in> live_vars tab. w \<noteq> v \<longrightarrow> nonneg tab w \<longrightarrow> 0 \<le> sample tab w)"

lemma dir_coef:
  assumes "plain tab" "row < t_row tab"
  shows "of_int (dir tab row sg c) = of_int sg * sgn (coef tab row c)"
    and "of_int sg * (coef tab row c * d) = \<bar>coef tab row c\<bar> * (of_int (dir tab row sg c) * d)"
proof -
  show e: "of_int (dir tab row sg c) = of_int sg * sgn (coef tab row c)"
    using coef_sgn [OF plainD(1) [OF assms(1)] assms(2), of c] by (simp add: dir_def)
  show "of_int sg * (coef tab row c * d) = \<bar>coef tab row c\<bar> * (of_int (dir tab row sg c) * d)"
  proof -
    have "\<bar>coef tab row c\<bar> * (of_int sg * sgn (coef tab row c) * d) = of_int sg * ((sgn (coef tab row c) * \<bar>coef tab row c\<bar>) * d)"
      by (simp only: mult_ac)
    then show ?thesis unfolding e by (simp only: sgn_mult_abs)
  qed
qed

lemma line_row_nonneg:
  assumes pl: "plain tab" and j: "j < t_row tab" and b: "0 \<le> rval tab j" and s: "s = 1 \<or> s = -1" and d: "0 \<le> s * d"
    and lim: "s * coef tab j c < 0 \<Longrightarrow> s * d \<le> ratio tab c j"
  shows "0 \<le> rval tab j + coef tab j c * d"
proof -
  have ss: "s * s = 1" using s by auto
  have "(s * coef tab j c) * (s * d) = (s * s) * (coef tab j c * d)" by (simp only: mult_ac)
  then have val: "rval tab j + coef tab j c * d = rval tab j + (s * coef tab j c) * (s * d)" by (simp add: ss)
  show ?thesis
  proof (cases "s * coef tab j c < 0")
    case True
    define K S where "K = - (s * coef tab j c)" and "S = s * d"
    have K: "\<bar>coef tab j c\<bar> = K" "0 < K" using True s by (auto simp: abs_if K_def)
    have "S \<le> rval tab j / K" using lim [OF True] ratio_eq [OF pl j] by (simp add: K(1) S_def)
    then have "S * K \<le> rval tab j" using K(2) by (simp add: pos_le_divide_eq)
    moreover have "rval tab j + coef tab j c * d = rval tab j - S * K"
      unfolding val K_def S_def by (simp only: mult_minus_right diff_minus_eq_add mult_ac)
    ultimately show ?thesis by simp
  next
    case False
    then show ?thesis unfolding val using b d by (simp add: not_less)
  qed
qed

lemma line_nonneg:
  assumes pl: "plain tab" and v: "live_row tab v row" and imp: "improves tab row sg c" and sg: "sg = 1 \<or> sg = -1"
    and ok: "ok_but tab v" and d: "0 \<le> of_int (dir tab row sg c) * d"
    and lim: "\<And>j. limits tab (Some v) (dir tab row sg c) c j \<Longrightarrow> of_int (dir tab row sg c) * d \<le> ratio tab c j"
    and w: "w \<in> live_vars tab" "w \<noteq> v" "nonneg tab w"
  shows "0 \<le> line tab c d w"
  using w(1)
proof (cases rule: live_vars_cases)
  case (row j)
  have j: "j < t_row tab" "row_var tab ! j = w" using row by (simp_all add: live_row_def)
  have r: "row < t_row tab" using v by (simp add: live_row_def)
  have b: "0 \<le> rval tab j" using ok w pl j by (auto simp: ok_but_def sample_row)
  have "0 \<le> rval tab j + coef tab j c * d"
    by (rule line_row_nonneg [OF pl j(1) b _ d])
      (use dir_cases [OF sg imp] lim limitsI [OF pl row w(3) _ w(2) v] in auto)
  then show ?thesis using line_row [OF pl j(1) improvesD(2) [OF pl imp r], of d] j(2) by simp
next
  case (col k)
  have r: "row < t_row tab" using v by (simp add: live_row_def)
  show ?thesis
  proof (cases "k = c")
    case True
    then have "sgn (coef tab row c) = of_int sg" using improvesD(4) [OF pl imp r] col w(3) by simp
    then have "(of_int (dir tab row sg c) :: rat) = 1" using dir_coef(1) [OF pl r, of sg c] sg by auto
    then show ?thesis using d pl col True by (simp add: line_col [symmetric])
        (metis line_col pl)
  next
    case False
    then show ?thesis using pl col by (metis line_col order_refl)
  qed
qed

lemma line_dead: "plain tab \<Longrightarrow> n_dead tab \<le> c \<Longrightarrow> k < n_dead tab \<Longrightarrow> line tab c d (col_var tab ! k) = 0"
  using tab_shapeD(6) [OF tab_okD(1) [OF plainD(1), of tab]] by (simp add: line_col)

lemma line_feasible:
  assumes pl: "plain tab" and "n_dead tab \<le> c"
    and "\<And>w. w \<in> live_vars tab \<Longrightarrow> nonneg tab w \<Longrightarrow> 0 \<le> line tab c d w"
  shows "feasible tab M (line tab c d)"
  using assms line_sat [OF pl] line_dead [OF pl] by (simp add: feasible_def)

lemma sample_feasible:
  assumes pl: "plain tab" and "\<And>w. w \<in> live_vars tab \<Longrightarrow> nonneg tab w \<Longrightarrow> 0 \<le> sample tab w"
  shows "feasible tab M (sample tab)"
  using assms sample_sat [OF pl] tab_shapeD(6) [OF tab_okD(1) [OF plainD(1) [OF pl]]]
  by (simp add: feasible_def sample_col)

text \<open>Without column that improves it, the variable is at its extreme.\<close>

lemma no_improves_bound:
  assumes pl: "plain tab" and v: "live_row tab v row" and sg: "sg = 1 \<or> sg = -1"
    and none: "\<And>j. \<not> improves tab row sg j" and x: "feasible tab 0 x"
  shows "of_int sg * x v \<le> of_int sg * sample tab v"
proof -
  have r: "row < t_row tab" "row_var tab ! row = v" using v by (simp_all add: live_row_def)
  have "x v = rval tab row + (\<Sum>c<t_col tab. coef tab row c * x (col_var tab ! c))"
    using live_satD [OF sat_live pl, of 0 x row] x pl v by (simp add: feasible_def live_row_def)
  then have "of_int sg * x v - of_int sg * sample tab v = (\<Sum>c<t_col tab. of_int sg * coef tab row c * x (col_var tab ! c))"
    using sample_row [OF pl r(1)] r(2) by (simp add: distrib_left sum_distrib_left mult.assoc)
  also have "\<dots> \<le> 0"
  proof (rule sum_nonpos)
    fix c assume "c \<in> {..<t_col tab}"
    then have c: "c < t_col tab" by simp
    show "of_int sg * coef tab row c * x (col_var tab ! c) \<le> 0"
    proof (cases "c < n_dead tab \<or> coef tab row c = 0")
      case True
      then show ?thesis using x by (auto simp: feasible_def)
    next
      case False
      then have ne: "tent tab row (tab_off tab + c) \<noteq> 0" by (auto simp: coef_zero)
      then have nn: "is_nonneg (var_from_col tab c)" "sgn (tent tab row (tab_off tab + c)) \<noteq> sg"
        using none [of c] False c by (auto simp: improves_def)
      have "sgn (coef tab row c) = - of_int sg"
        using nn(2) ne sg coef_sgn [OF plainD(1) [OF pl] r(1), of c] by (auto simp: sgn_if split: if_splits)
      then have "of_int sg * coef tab row c \<le> 0" using sg by (auto simp: sgn_if split: if_splits)
      moreover have "0 \<le> x (col_var tab ! c)"
        using x nn(1) c by (auto simp: feasible_def live_vars_def col_vars_def nonneg_def var_from_col_def)
      ultimately show ?thesis by (simp add: mult_nonpos_nonneg)
    qed
  qed
  finally show ?thesis by simp
qed

text \<open>Without row that limits it, the variable is unbounded.\<close>

lemma unlimited_ray:
  assumes pl: "plain tab" and v: "live_row tab v row" and sg: "sg = 1 \<or> sg = -1" and imp: "improves tab row sg c"
    and ok: "ok_but tab v" and none: "\<And>j. \<not> limits tab (Some v) (dir tab row sg c) c j" and b: "sg = 1 \<or> \<not> nonneg tab v"
  shows "\<exists>x. feasible tab 0 x \<and> B \<le> of_int sg * x v"
proof -
  have r: "row < t_row tab" "row_var tab ! row = v" using v by (simp_all add: live_row_def)
  note c = improvesD [OF pl imp r(1)]
  let ?s = "of_int (dir tab row sg c) :: rat"
  define \<tau> where "\<tau> = max 0 (max (B - of_int sg * rval tab row) (- rval tab row) / \<bar>coef tab row c\<bar>)"
  define d where "d = ?s * \<tau>"
  have ss: "?s * ?s = 1" using dir_cases [OF sg imp] by auto
  then have sd: "?s * d = \<tau>" by (simp add: d_def mult.assoc [symmetric])
  have t0: "0 \<le> \<tau>" by (simp add: \<tau>_def)
  have lv: "line tab c d v = rval tab row + coef tab row c * d" using line_row [OF pl r(1) c(2)] r(2) by simp
  have sv: "of_int sg * line tab c d v = of_int sg * rval tab row + \<bar>coef tab row c\<bar> * \<tau>"
    unfolding lv distrib_left dir_coef(2) [OF pl r(1)] sd ..
  have big: "max (B - of_int sg * rval tab row) (- rval tab row) \<le> \<bar>coef tab row c\<bar> * \<tau>"
  proof -
    have "max (B - of_int sg * rval tab row) (- rval tab row) / \<bar>coef tab row c\<bar> \<le> \<tau>" by (simp add: \<tau>_def)
    then show ?thesis using c(3) by (simp add: pos_divide_le_eq mult.commute)
  qed
  have "0 \<le> line tab c d w" if w: "w \<in> live_vars tab" "nonneg tab w" for w
  proof (cases "w = v")
    case True
    then have "sg = 1" using b w by auto
    then show ?thesis using sv big True by simp
  next
    case False
    show ?thesis by (rule line_nonneg [OF pl v imp sg ok _ _ w(1) False w(2)]) (use sd t0 none in auto)
  qed
  then have "feasible tab 0 (line tab c d)" by (intro line_feasible [OF pl c(1)])
  moreover have "B \<le> of_int sg * line tab c d v" using sv big by simp
  ultimately show ?thesis by blast
qed

subsection \<open>One pivot of a search\<close>

definition sound :: "isl_tab \<Rightarrow> bool" where
  "sound tab \<longleftrightarrow> plain tab \<and> implied tab 0 \<and> unlimited tab"

lemma soundD: "sound tab \<Longrightarrow> plain tab" "sound tab \<Longrightarrow> implied tab 0" "sound tab \<Longrightarrow> unlimited tab" "sound tab \<Longrightarrow> tab_ok tab"
  by (simp_all add: sound_def plain_def)

definition pivot_frame :: "isl_tab \<Rightarrow> isl_tab \<Rightarrow> bool" where
  "pivot_frame tab t \<longleftrightarrow> same_frame (tab\<lparr>col_var := []\<rparr>) (t\<lparr>col_var := []\<rparr>)"

lemma pivot_frame_refl [simp]: "pivot_frame tab tab"
  by (simp add: pivot_frame_def)

lemma pivot_frame_trans: "pivot_frame a b \<Longrightarrow> pivot_frame b c \<Longrightarrow> pivot_frame a c"
  unfolding pivot_frame_def by (rule same_frame_trans)

lemma same_pivot_frame: "same_frame tab t \<Longrightarrow> pivot_frame tab t"
  by (simp add: same_frame_def pivot_frame_def)

lemma pivoted_pivot_frame: "pivot_frame tab (pivoted tab r c)"
proof -
  obtain mat rv cv tv tc op s where "pivoted tab r c = tab\<lparr>tab_mat := mat, row_var := rv, col_var := cv,
    tab_var := tv, tab_con := tc, operations := op, row_sign := s\<rparr>"
    "isl_mat.n_row mat = isl_mat.n_row (tab_mat tab)" "isl_mat.n_col mat = isl_mat.n_col (tab_mat tab)"
    "length rv = length (row_var tab)" "length tv = length (tab_var tab)" "length tc = length (tab_con tab)"
    using pivoted_only [of tab r c] by blast
  then show ?thesis by (simp add: pivot_frame_def same_frame_def)
qed

lemma pivoted_plain:
  assumes "plain tab" "pivot_ok tab r c"
  shows "plain (pivoted tab r c)" "sol (pivoted tab r c) = sol (exchange_vars tab r c)"
    "sample (pivoted tab r c) = sample (exchange_vars tab r c)"
    "live_sat (pivoted tab r c) x = live_sat tab x" "live_vars (pivoted tab r c) = live_vars tab"
    "nonneg (pivoted tab r c) w = nonneg tab w \<or> \<not> tab_code tab w"
    "coef (pivoted tab r c) = coef (exchange_vars tab r c)"
proof -
  have e: "plain (exchange_vars tab r c)" using exchange_plain [OF assms] .
  then show p: "plain (pivoted tab r c)" by (simp add: plain_def pivoted_frame pivoted_counts exchange_vars_def)
  have tc: "t_col (exchange_vars tab r c) = t_col tab" "t_row (exchange_vars tab r c) = t_row tab"
    "n_redundant (exchange_vars tab r c) = n_redundant tab" by (simp_all add: exchange_vars_def)
  show cf: "coef (pivoted tab r c) = coef (exchange_vars tab r c)" by (simp add: coef_def fun_eq_iff pivoted_frame)
  show s: "sol (pivoted tab r c) = sol (exchange_vars tab r c)"
    by (simp add: fun_eq_iff sol_def rval_def cf pivoted_frame tc)
  then show "sample (pivoted tab r c) = sample (exchange_vars tab r c)" by (simp add: sample_def)
  show "live_sat (pivoted tab r c) x = live_sat tab x"
    using exchange_live_sat [OF assms] by (simp add: live_sat_rows [OF p] live_sat_rows [OF e] pivoted_frame tc)
  show "live_vars (pivoted tab r c) = live_vars tab"
    using exchange_points(3) [OF plainD(1) [OF assms(1)] assms(2)] by (simp add: pivoted_frame)
  show "nonneg (pivoted tab r c) w = nonneg tab w \<or> \<not> tab_code tab w"
    using exchange_points(8) [OF plainD(1) [OF assms(1)] assms(2), of w] by (auto simp: pivoted_frame nonneg_def)
qed

lemma fewer_rows_sample:
  assumes "plain a" "plain b" "same_frame a b" "live_rows b \<subseteq> live_rows a" and w: "w \<in> live_vars b"
  shows "w \<in> live_vars a" "sample b w = sample a w"
proof -
  note fr = same_frame_off [OF assms(3)]
  have f: "t_col b = t_col a" "col_var b = col_var a" using assms(3) by (simp_all add: same_frame_def)
  show "w \<in> live_vars a" using w assms(4) fr(3) by (auto simp: live_vars_def)
  have "live_sat b (sample a)"
    using sat_live [OF sample_sat [OF assms(1)] assms(1)] assms(4)
    unfolding live_sat_rows [OF assms(2)] live_sat_rows [OF assms(1)] fr f by blast
  then show "sample b w = sample a w"
    using sol_unique [OF assms(2), of "sample a" "\<lambda>c. 0" w] w assms(1) by (simp add: f sample_col) (simp add: sample_def)
qed

lemma shrinks_plain:
  assumes "plain a" "shrinks M a b"
  shows "plain b" "w \<in> live_vars b \<Longrightarrow> w \<in> live_vars a \<and> sample b w = sample a w \<and> nonneg b w = nonneg a w"
proof -
  have b: "tab_ok b" "same_frame a b" "live_rows b \<subseteq> live_rows a" "\<And>v. v \<in> live_vars b \<Longrightarrow> flags_kept a b v"
    using assms(2) by (auto simp: shrinks_def)
  show pb: "plain b" using b(1,2) assms(1) by (simp add: plain_def same_frame_def)
  assume "w \<in> live_vars b"
  then show "w \<in> live_vars a \<and> sample b w = sample a w \<and> nonneg b w = nonneg a w"
    using fewer_rows_sample [OF assms(1) pb b(2,3)] b(4) by (auto simp: flags_kept_def nonneg_def)
qed

text \<open>The coefficient of the variable that left for the column.\<close>

lemma exchange_coef:
  assumes pl: "plain tab" and p: "pivot_ok tab row col" and i: "n_redundant tab \<le> i" "i < t_row tab" "i \<noteq> row"
  shows "coef (exchange_vars tab row col) i col = coef tab i col / coef tab row col"
proof -
  let ?t = "exchange_vars tab row col"
  have r: "n_redundant tab \<le> row" "row < t_row tab" "col < t_col tab" using p by (simp_all add: pivot_ok_def)
  have pt: "plain ?t" using exchange_plain [OF pl p] .
  have f: "t_row ?t = t_row tab" "t_col ?t = t_col tab" "row_var ?t = (row_var tab)[row := col_var tab ! col]"
    by (simp_all add: exchange_vars_def)
  have ri: "row_var ?t ! i = row_var tab ! i" using i(3) by (simp add: f)
  have cols: "col_var ?t ! c = (if c = col then row_var tab ! row else col_var tab ! c)" if "c < t_col tab" for c
    using exchange_cols [OF pl p that] .
  define x where "x t = line ?t col t" for t :: rat
  have ls: "live_sat tab (x t)" for t
    using exchange_live_sat [OF pl p] sat_live [OF line_sat [OF pt] pt] by (auto simp: x_def)
  have zero: "x t (col_var tab ! c) = 0" if "c < t_col tab" "c \<noteq> col" for c t
    using that line_col [OF pt, of c col t] by (simp add: x_def f cols)
  have rv: "x t (row_var tab ! row) = t" for t using line_col [OF pt, of col col t] r(3) by (simp add: x_def f cols)
  have val: "x t (row_var tab ! j) = rval tab j + coef tab j col * x t (col_var tab ! col)"
    if "n_redundant tab \<le> j" "j < t_row tab" for j t
  proof -
    have "(\<Sum>c<t_col tab. coef tab j c * x t (col_var tab ! c)) = coef tab j col * x t (col_var tab ! col)"
      using r(3) zero by (subst sum.mono_neutral_right [of _ "{col}"]) auto
    then show ?thesis using live_satD [OF ls pl that] by simp
  qed
  have ne: "coef tab row col \<noteq> 0" using pivot_coef [OF plainD(1) [OF pl] p] .
  have "1 = coef tab row col * (x 1 (col_var tab ! col) - x 0 (col_var tab ! col))"
    using val [OF r(1,2), of 1] val [OF r(1,2), of 0] rv [of 1] rv [of 0] by (simp add: right_diff_distrib)
  then have step: "x 1 (col_var tab ! col) - x 0 (col_var tab ! col) = 1 / coef tab row col" using ne by (simp add: field_simps)
  have "coef ?t i col = x 1 (row_var tab ! i) - x 0 (row_var tab ! i)"
    using line_row [OF pt, of i col 1] line_row [OF pt, of i col 0] i(2) r(3) ri by (simp add: x_def f(1,2))
  also have "\<dots> = coef tab i col * (x 1 (col_var tab ! col) - x 0 (col_var tab ! col))"
    using val [OF i(1,2), of 1] val [OF i(1,2), of 0] by (simp add: right_diff_distrib)
  finally show ?thesis by (simp add: step)
qed

lemma live_rows_card: "plain tab \<Longrightarrow> finite (live_rows tab) \<and> card (live_rows tab) = t_row tab - n_redundant tab"
proof -
  assume "plain tab"
  then have "inj_on (\<lambda>r. (row_var tab ! r, mat_row (tab_mat tab) ! r)) {n_redundant tab..<t_row tab}"
    using tab_index_inj(1) [OF tab_okD(2) [OF plainD(1)], of tab] by (auto simp: inj_on_def)
  then show ?thesis by (simp add: live_rows_def card_image)
qed

lemma search_pivot_ok:
  assumes pl: "plain tab" and v: "live_row tab v row" and sg: "sg = 1 \<or> sg = -1"
    and fp: "find_pivot tab v (Some v) sg = Some (r, c)"
  shows "pivot_ok tab r c" "improves tab row sg c"
    and "r \<noteq> row \<Longrightarrow> limits tab (Some v) (dir tab row sg c) c r"
    and "r \<noteq> row \<Longrightarrow> limits tab (Some v) (dir tab row sg c) c j \<Longrightarrow> \<not> limits_before tab c j r"
    and "r = row \<Longrightarrow> \<not> limits tab (Some v) (dir tab row sg c) c j"
    and "improves tab row sg j \<Longrightarrow> col_var tab ! c \<le> col_var tab ! j"
proof -
  note sp = find_pivot_spec [OF pl v sg, unfolded fp]
  show imp: "improves tab row sg c" "improves tab row sg j \<Longrightarrow> col_var tab ! c \<le> col_var tab ! j" using sp by auto
  have nl: "\<not> limits tab (Some v) (dir tab row sg c) c row"
    using live_row_index [OF pl v] by (auto simp: limits_def)
  show l: "r \<noteq> row \<Longrightarrow> limits tab (Some v) (dir tab row sg c) c r"
    "r \<noteq> row \<Longrightarrow> limits tab (Some v) (dir tab row sg c) c j \<Longrightarrow> \<not> limits_before tab c j r"
    "r = row \<Longrightarrow> \<not> limits tab (Some v) (dir tab row sg c) c j"
    using sp nl by (auto split: if_splits)
  show "pivot_ok tab r c"
  proof (cases "r = row")
    case True
    then show ?thesis using v imp by (simp add: pivot_ok_def live_row_def improves_def)
  next
    case False
    then show ?thesis using l(1) imp by (auto simp: pivot_ok_def limits_def improves_def)
  qed
qed

text \<open>How far the pivot moves: the variable of the row does not get worse, the others stay feasible.\<close>

lemma search_step_line:
  assumes pl: "plain tab" and v: "live_row tab v row" and sg: "sg = 1 \<or> sg = -1" and ok: "ok_but tab v"
    and fp: "find_pivot tab v (Some v) sg = Some (r, c)" and own: "r = row \<longrightarrow> of_int sg * sample tab v \<le> 0"
  defines "d \<equiv> - rval tab r / coef tab r c"
  shows "w \<in> live_vars tab \<Longrightarrow> w \<noteq> v \<Longrightarrow> nonneg tab w \<Longrightarrow> 0 \<le> line tab c d w"
    and "of_int sg * sample tab v \<le> of_int sg * line tab c d v"
    and "r = row \<Longrightarrow> line tab c d v = 0"
proof -
  note fps = search_pivot_ok [OF pl v sg fp]
  let ?s = "of_int (dir tab row sg c) :: rat"
  have rw: "row < t_row tab" "row_var tab ! row = v" using v by (simp_all add: live_row_def)
  note c = improvesD [OF pl fps(2) rw(1)]
  have r: "r < t_row tab" using fps(1) by (simp add: pivot_ok_def)
  have s_cases: "?s = 1 \<or> ?s = -1" using dir_cases [OF sg fps(2)] by auto
  have bound: "0 \<le> ?s * d \<and> (\<forall>j. limits tab (Some v) (dir tab row sg c) c j \<longrightarrow> ?s * d \<le> ratio tab c j)"
  proof (cases "r = row")
    case True
    have "\<bar>coef tab row c\<bar> * (?s * d) = of_int sg * (coef tab row c * d)" by (rule dir_coef(2) [OF pl rw(1), symmetric])
    also have "\<dots> = - (of_int sg * sample tab v)" using True c(3) sample_row [OF pl rw(1)] rw(2) by (simp add: d_def)
    finally have "0 \<le> \<bar>coef tab row c\<bar> * (?s * d)" using own True by simp
    then have "0 \<le> ?s * d" using c(3) by (simp add: zero_le_mult_iff)
    then show ?thesis using fps(5) [OF True] by simp
  next
    case False
    note l = limitsD [OF pl fps(3) [OF False]]
    have rc: "coef tab r c \<noteq> 0" using l(3) by auto
    have "\<bar>coef tab r c\<bar> = - (?s * coef tab r c)" using l(3) s_cases by (auto simp: abs_if)
    then have sd: "?s * d = ratio tab c r" using s_cases rc by (auto simp: ratio_eq [OF pl r] d_def)
    have "0 \<le> rval tab r" using ok l(1,2,4) live_row_vars [OF l(1)] sample_row [OF pl r] by (auto simp: ok_but_def)
    then have "0 \<le> ratio tab c r" by (simp add: ratio_eq [OF pl r])
    moreover have "ratio tab c r \<le> ratio tab c j" if "limits tab (Some v) (dir tab row sg c) c j" for j
      using fps(4) [OF False that] by (auto simp: limits_before_def)
    ultimately show ?thesis by (simp add: sd)
  qed
  then show "w \<in> live_vars tab \<Longrightarrow> w \<noteq> v \<Longrightarrow> nonneg tab w \<Longrightarrow> 0 \<le> line tab c d w"
    using line_nonneg [OF pl v fps(2) sg ok, of d w] by blast
  have lv: "line tab c d v = rval tab row + coef tab row c * d" using line_row [OF pl rw(1) c(2)] rw(2) by simp
  have "0 \<le> \<bar>coef tab row c\<bar> * (?s * d)" using bound by simp
  then have "0 \<le> of_int sg * (coef tab row c * d)" unfolding dir_coef(2) [OF pl rw(1), of sg c d] .
  then show "of_int sg * sample tab v \<le> of_int sg * line tab c d v"
    using sample_row [OF pl rw(1)] rw(2) by (simp add: lv distrib_left)
  show "r = row \<Longrightarrow> line tab c d v = 0" using c(3) unfolding lv by (simp add: d_def)
qed

definition search_rel :: "int \<Rightarrow> int \<Rightarrow> (isl_tab \<times> isl_tab) set" where
  "search_rel v sg = {(t, tab). sound tab \<and> sound t \<and> ok_but tab v \<and> ok_but t v \<and>
     (\<exists>row. live_row t v row) \<and>
     (card (live_rows t) < card (live_rows tab) \<or> (card (live_rows t) = card (live_rows tab) \<and> (\<exists>r c. turn tab v sg r c t)))}"

lemma search_pivot:
  assumes so: "sound tab" and v: "live_row tab v row" and sg: "sg = 1 \<or> sg = -1" and ok: "ok_but tab v"
    and fp: "find_pivot tab v (Some v) sg = Some (r, c)" and own: "r = row \<longrightarrow> of_int sg * sample tab v \<le> 0"
    and piv: "isl_tab_pivot tab r c = (k, t)"
  shows "k = 0" "sound t" "keeps_points 0 tab t" "pivot_frame tab t" "ok_but t v"
    and "w \<in> live_vars t \<Longrightarrow> w \<in> live_vars tab \<and> nonneg t w = nonneg tab w"
    and "v \<in> live_vars t \<Longrightarrow> of_int sg * sample tab v \<le> of_int sg * sample t v"
    and "tab_code tab w \<Longrightarrow> is_zero (var_from_index t w) = is_zero (var_from_index tab w)"
    and "r = row \<Longrightarrow> v \<in> col_vars t \<and> (\<forall>B. sg = 1 \<or> \<not> nonneg tab v \<longrightarrow> (\<exists>x. feasible tab 0 x \<and> B \<le> of_int sg * x v))"
    and "r \<noteq> row \<Longrightarrow> (\<exists>row'. live_row t v row') \<and> (t, tab) \<in> search_rel v sg \<or>
      (sg = -1 \<and> is_redundant (var_from_index t v))"
proof -
  note s = soundD [OF so]
  note pl = s(1)
  note fps = search_pivot_ok [OF pl v sg fp]
  note ln = search_step_line [OF pl v sg ok fp own]
  let ?p = "pivoted tab r c"
  note pp = pivoted_plain [OF pl fps(1)]
  note run = tab_pivot_run [OF s(4) fps(1) s(2) order_refl s(3), unfolded piv fst_conv snd_conv]
  show "k = 0" by (rule run(1))
  have sh: "shrinks 0 ?p t" by (rule run(2))
  then have sf: "same_frame ?p t" by (simp add: shrinks_def)
  note ts = shrinks_plain [OF pp(1) sh]
  show st: "sound t"
    using ts(1) sh s(3) unlimited_frame [OF sf] by (simp add: sound_def shrinks_def pivoted_unlimited)
  show "keeps_points 0 tab t" using tab_pivot_keeps(4) [OF s(4) fps(1) s(2) order_refl s(3) piv] .
  show "pivot_frame tab t" using pivot_frame_trans [OF pivoted_pivot_frame same_pivot_frame [OF sf]] .
  have code: "tab_code ?p = tab_code tab" using exchange_points(7) [OF s(4) fps(1)] by (simp add: pivoted_frame)
  have lt: "w \<in> live_vars tab \<and> nonneg t w = nonneg tab w \<and> sample t w = line tab c (- rval tab r / coef tab r c) w"
    if "w \<in> live_vars t" for w
  proof -
    have w: "w \<in> live_vars tab" using ts(2) [OF that] pp(5) by simp
    then have "tab_code tab w" using tab_vars_code [OF s(4)] live_rows_sub(2) by blast
    then show ?thesis using ts(2) [OF that] pp(6) [of w] w exchange_sample [OF pl fps(1) w] by (simp add: pp(3))
  qed
  show "w \<in> live_vars t \<Longrightarrow> w \<in> live_vars tab \<and> nonneg t w = nonneg tab w" using lt by blast
  show okt: "ok_but t v" unfolding ok_but_def using lt ln(1) by auto
  show "v \<in> live_vars t \<Longrightarrow> of_int sg * sample tab v \<le> of_int sg * sample t v" using lt ln(2) by simp
  show "tab_code tab w \<Longrightarrow> is_zero (var_from_index t w) = is_zero (var_from_index tab w)"
    using sh exchange_points(11) [OF s(4) fps(1), of w] by (simp add: shrinks_def code) (simp add: pivoted_frame)
  have rw: "row < t_row tab" "row_var tab ! row = v" "n_redundant tab \<le> row" using v by (simp_all add: live_row_def)
  have cc: "c < t_col tab" "n_dead tab \<le> c" using fps(1) by (simp_all add: pivot_ok_def)
  have rr: "r < t_row tab" "n_redundant tab \<le> r" using fps(1) by (simp_all add: pivot_ok_def)
  have cvt: "t_col t = t_col tab" "k < t_col tab \<Longrightarrow> col_var t ! k = (if k = c then row_var tab ! r else col_var tab ! k)"
    "n_dead t = n_dead tab" for k
    using sf exchange_cols [OF pl fps(1), of k] by (simp_all add: same_frame_def pivoted_frame)
  show "r = row \<Longrightarrow> v \<in> col_vars t \<and> (\<forall>B. sg = 1 \<or> \<not> nonneg tab v \<longrightarrow> (\<exists>x. feasible tab 0 x \<and> B \<le> of_int sg * x v))"
    using unlimited_ray [OF pl v sg fps(2) ok fps(5)] cvt(1) cvt(2) [OF cc(1)] cc(1) rw(2) by (auto simp: col_vars_def)
  assume ne: "r \<noteq> row"
  have rvx: "row_var ?p ! row = v" "t_row ?p = t_row tab" "n_redundant ?p = n_redundant tab"
    using ne rw(2) by (simp_all add: pivoted_frame exchange_vars_def)
  have vp: "(v, mat_row (tab_mat ?p) ! row) \<in> live_rows ?p" using rw rvx by (force simp: live_rows_def)
  have sub: "live_rows t \<subseteq> live_rows ?p" using sh by (simp add: shrinks_def)
  show "(\<exists>row'. live_row t v row') \<and> (t, tab) \<in> search_rel v sg \<or> (sg = -1 \<and> is_redundant (var_from_index t v))"
  proof (cases "(v, mat_row (tab_mat ?p) ! row) \<in> live_rows t")
    case False
    have "\<forall>vp \<in> live_rows ?p - live_rows t. is_redundant (var_from_index t (fst vp)) \<and> redundant_row ?p vp"
      using sh by (simp add: shrinks_def)
    from bspec [OF this, of "(v, mat_row (tab_mat ?p) ! row)"] False vp
    have gone: "is_redundant (var_from_index t v)" "redundant_row ?p (v, mat_row (tab_mat ?p) ! row)" by simp_all
    obtain i where i: "i < t_row ?p" "row_var ?p ! i = v" "isl_tab_row_is_redundant ?p i" using gone(2) by (auto simp: redundant_row_def)
    have "i = row" using tab_index_inj(1) [OF tab_okD(2) [OF plainD(1) [OF pp(1)]] i(1), of row] i(2) rvx rw(1) by simp
    then have red: "isl_tab_row_is_redundant ?p row" using i by simp
    have cf: "coef ?p row c = coef tab row c / coef tab r c" using exchange_coef [OF pl fps(1) rw(3,1)] ne pp(7) by simp
    have nz: "coef tab row c \<noteq> 0" using improvesD(3) [OF pl fps(2) rw(1)] .
    note l = limitsD [OF pl fps(3) [OF ne]]
    have "coef ?p row c \<noteq> 0" using cf nz l(3) by auto
    then have "tent ?p row (tab_off ?p + c) \<noteq> 0" by (auto simp: coef_zero)
    then have "0 < tent ?p row (tab_off ?p + c)" using redundantD(4) [OF red, of c] cc cvt(1) by (simp add: pivoted_frame exchange_vars_def)
    then have "sgn (coef ?p row c) = 1" using coef_sgn [OF plainD(1) [OF pp(1)], of row c] rvx rw(1) by simp
    then have "0 < coef tab row c / coef tab r c" using cf by (simp only: sgn_1_pos)
    moreover have "of_int sg * (sgn (coef tab row c) * coef tab r c) < 0"
      using l(3) dir_coef(1) [OF pl rw(1), of sg c] by (simp add: mult.assoc)
    ultimately have "sg = -1" using sg by (auto simp: zero_less_divide_iff mult_less_0_iff sgn_if split: if_splits)
    with gone(1) show ?thesis by blast
  next
    case True
    then obtain row' where row': "live_row t v row'" by (auto simp: live_rows_def live_row_def)
    have fin: "finite (live_rows ?p)" "card (live_rows ?p) = card (live_rows tab)"
      using live_rows_card [OF pp(1)] live_rows_card [OF pl] rvx by simp_all
    show ?thesis
    proof (cases "live_rows t = live_rows ?p")
      case eq: True
      have fr: "tab_off t = tab_off ?p" "col_vars t = col_vars ?p" "colval t = colval ?p" "t_col t = t_col ?p"
        using same_frame_off [OF sf] sf by (simp_all add: same_frame_def)
      have "live_vars t = live_vars tab" using eq fr pp(5) by (simp add: live_vars_def)
      moreover have "live_sat t x = live_sat tab x" for x
        using pp(4) eq by (simp add: live_sat_rows [OF ts(1)] live_sat_rows [OF pp(1)] fr)
      ultimately have "turn tab v sg r c t"
        unfolding turn_def using pl ts(1) v fps(2,6) fps(3,4) [OF ne] row' lt cvt by blast
      then show ?thesis using row' so st ok okt eq fin by (auto simp: search_rel_def)
    next
      case False
      then have "card (live_rows t) < card (live_rows tab)" using psubset_card_mono [of "live_rows ?p" "live_rows t"] sub fin by auto
      then show ?thesis using row' so st ok okt by (auto simp: search_rel_def)
    qed
  qed
qed

text \<open>The search ends.\<close>

lemma wf_search_rel:
  assumes sg: "sg = 1 \<or> sg = -1"
  shows "wf (search_rel v sg)"
proof (rule ccontr)
  assume "\<not> wf (search_rel v sg)"
  then obtain T where T: "\<And>i. (T (Suc i), T i) \<in> search_rel v sg" by (auto simp: wf_iff_no_infinite_down_chain)
  define f where "f i = card (live_rows (T i))" for i
  have le: "f (Suc i) \<le> f i" for i using T [of i] by (auto simp: search_rel_def f_def)
  obtain N where N: "\<And>i. N \<le> i \<Longrightarrow> f i = f N"
  proof -
    define m where "m = (LEAST k. k \<in> range f)"
    have "m \<in> range f" unfolding m_def by (rule LeastI) blast
    then obtain N where N: "f N = m" by auto
    have "f i = f N" if "N \<le> i" for i
    proof (rule antisym)
      show "f i \<le> f N" using that by (induction rule: dec_induct) (use le order_trans in blast)+
      show "f N \<le> f i" unfolding N m_def by (rule Least_le) blast
    qed
    then show ?thesis using that by blast
  qed
  define U where "U i = T (N + i)" for i
  have turns: "\<exists>r c. turn (U i) v sg r c (U (Suc i))" for i
    using T [of "N + i"] N [of "N + i"] N [of "Suc (N + i)"] by (auto simp: search_rel_def U_def f_def)
  then obtain r c where rc: "\<And>i. turn (U i) v sg (r i) (c i) (U (Suc i))" by metis
  have ok: "ok_but (U i) v" for i using T [of "N + i"] by (auto simp: search_rel_def U_def)
  have vars: "live_vars (U i) = live_vars (U 0)" for i by (induction i) (use rc in \<open>auto simp: turn_def\<close>)
  have sub: "col_vars (U i) \<subseteq> live_vars (U 0)" for i using vars [of i] by (auto simp: live_vars_def)
  have "finite (live_vars (U 0))" by (simp add: live_vars_def live_rows_def col_vars_def)
  then have "finite (range (\<lambda>i. col_vars (U i)))" using sub by (auto intro: finite_subset [of _ "Pow (live_vars (U 0))"])
  then have "\<not> inj (\<lambda>i. col_vars (U i))" using finite_imageD infinite_UNIV_nat by blast
  then obtain a b where ab: "a < b" "col_vars (U a) = col_vars (U b)" by (metis injI linorder_neqE_nat)
  show False
  proof (rule bland_no_cycle [OF sg, of "b - a" "\<lambda>i. U (a + i)" v "\<lambda>i. r (a + i)" "\<lambda>i. c (a + i)"])
    show "0 < b - a" using ab by simp
    show "turn (U (a + i)) v sg (r (a + i)) (c (a + i)) (U (a + Suc i))" for i using rc [of "a + i"] by simp
    show "0 \<le> sample (U (a + i)) w" if "w \<in> live_vars (U (a + i))" "w \<noteq> v" "nonneg (U (a + i)) w" for i w
      using ok [of "a + i"] that by (simp add: ok_but_def)
    show "col_vars (U (a + (b - a))) = col_vars (U (a + 0))" using ab by simp
  qed
qed

end
