(* ===== verification/Tab_Sign.thy ===== *)
theory Tab_Sign imports Tab_Search begin

text \<open>
  The searches of isl_tab.c for the sign of the extreme value of a variable
  (\<open>sign_of_max\<close>, \<open>restore_row\<close>, \<open>at_least_zero\<close>, \<open>at_least_one\<close>, \<open>sign_of_min\<close>, ...), and
  what the upward ones answer.
\<close>

subsection \<open>The searches\<close>

definition row_is_neg :: "isl_tab \<Rightarrow> nat \<Rightarrow> bool" where
  "row_is_neg tab row =
     (if \<not> tab_M tab then tent tab row 1 < 0
      else if 0 < tent tab row 2 then False
      else if tent tab row 2 < 0 then True
      else tent tab row 1 < 0)"

definition row_sgn :: "isl_tab \<Rightarrow> nat \<Rightarrow> int" where
  "row_sgn tab row =
     (if \<not> tab_M tab then sgn (tent tab row 1)
      else if tent tab row 2 \<noteq> 0 then sgn (tent tab row 2) else sgn (tent tab row 1))"

definition row_at_most_neg_one :: "isl_tab \<Rightarrow> nat \<Rightarrow> bool" where
  "row_at_most_neg_one tab row =
     (if tab_M tab \<and> 0 < tent tab row 2 then False
      else if tab_M tab \<and> tent tab row 2 < 0 then True
      else tent tab row 1 < 0 \<and> \<bar>tent tab row 0\<bar> \<le> \<bar>tent tab row 1\<bar>)"

text \<open>
  The loops.  A loop that does not end is \<^const>\<open>None\<close>; \<open>v\<close> is the variable that is moved.
\<close>

partial_function (option) sign_of_max_loop :: "isl_tab \<Rightarrow> int \<Rightarrow> (int \<times> isl_tab) option" where
  "sign_of_max_loop tab v =
     (if 0 < tent tab (index_of tab v) 1 then Some (1, tab)
      else case find_pivot tab v (Some v) 1 of
             None \<Rightarrow> Some (sgn (tent tab (index_of tab v) 1), tab)
           | Some (row, col) \<Rightarrow>
               let (ok, tab) = isl_tab_pivot tab row col
               in if ok < 0 then Some (-2, tab)
                  else if \<not> is_row (var_from_index tab v) then Some (1, tab)
                  else sign_of_max_loop tab v)"

definition sign_of_max :: "isl_tab \<Rightarrow> int \<Rightarrow> (int \<times> isl_tab) option" where
  "sign_of_max tab v =
     (if max_is_manifestly_unbounded tab v then Some (1, tab)
      else let (ok, tab) = to_row tab v 1
           in if ok < 0 then Some (-2, tab) else sign_of_max_loop tab v)"

definition isl_tab_sign_of_max :: "isl_tab \<Rightarrow> nat \<Rightarrow> (int \<times> isl_tab) option" where
  "isl_tab_sign_of_max tab con =
     (let v = - 1 - int con
      in if is_redundant (var_from_index tab v) then Some (-2, tab)
         else if is_zero (var_from_index tab v) then Some (-2, tab)
         else sign_of_max tab v)"

partial_function (option) restore_row :: "isl_tab \<Rightarrow> int \<Rightarrow> (int \<times> isl_tab) option" where
  "restore_row tab v =
     (if \<not> row_is_neg tab (index_of tab v) then Some (row_sgn tab (index_of tab v), tab)
      else case find_pivot tab v (Some v) 1 of
             None \<Rightarrow> Some (row_sgn tab (index_of tab v), tab)
           | Some (row, col) \<Rightarrow>
               let (ok, tab) = isl_tab_pivot tab row col
               in if ok < 0 then Some (-2, tab)
                  else if \<not> is_row (var_from_index tab v) then Some (1, tab)
                  else restore_row tab v)"

partial_function (option) at_least_zero :: "isl_tab \<Rightarrow> int \<Rightarrow> (int \<times> isl_tab) option" where
  "at_least_zero tab v =
     (if \<not> tent tab (index_of tab v) 1 < 0 then Some (1, tab)
      else case find_pivot tab v (Some v) 1 of
             None \<Rightarrow> Some (if tent tab (index_of tab v) 1 < 0 then 0 else 1, tab)
           | Some (row, col) \<Rightarrow>
               if int row = var_index (var_from_index tab v) then Some (1, tab)
               else let (ok, tab) = isl_tab_pivot tab row col
                    in if ok < 0 then Some (-1, tab) else at_least_zero tab v)"

partial_function (option) at_least_one_loop :: "isl_tab \<Rightarrow> int \<Rightarrow> (int \<times> isl_tab) option" where
  "at_least_one_loop tab v =
     (if \<not> tent tab (index_of tab v) 1 < tent tab (index_of tab v) 0 then Some (1, tab)
      else case find_pivot tab v (Some v) 1 of
             None \<Rightarrow> Some (if tent tab (index_of tab v) 0 \<le> tent tab (index_of tab v) 1 then 1 else 0, tab)
           | Some (row, col) \<Rightarrow>
               if int row = var_index (var_from_index tab v) then Some (1, tab)
               else let (ok, tab) = isl_tab_pivot tab row col
                    in if ok < 0 then Some (-1, tab) else at_least_one_loop tab v)"

definition at_least_one :: "isl_tab \<Rightarrow> int \<Rightarrow> (int \<times> isl_tab) option" where
  "at_least_one tab v =
     (if max_is_manifestly_unbounded tab v then Some (1, tab)
      else let (ok, tab) = to_row tab v 1
           in if ok < 0 then Some (-1, tab) else at_least_one_loop tab v)"

text \<open>
  Moving back to a non-negative value after a search downwards that pivoted row \<open>row\<close> and
  column \<open>col\<close> last: by the same pivot if the variable \<open>u\<close> that entered is still in that row.
\<close>

definition pivot_back :: "isl_tab \<Rightarrow> int \<Rightarrow> int \<Rightarrow> nat \<Rightarrow> nat \<Rightarrow> (int \<times> isl_tab) option" where
  "pivot_back tab v u row col =
     (if \<not> is_redundant (var_from_index tab u) \<and> var_index (var_from_index tab u) = int row
      then Some (isl_tab_pivot tab row col)
      else map_option (\<lambda>(r, tab). (if r < -1 then -1 else 0, tab)) (restore_row tab v))"

partial_function (option) sign_of_min_loop :: "isl_tab \<Rightarrow> int \<Rightarrow> (int \<times> nat \<times> nat) option \<Rightarrow> (int \<times> isl_tab) option" where
  "sign_of_min_loop tab v prev =
     (if tent tab (index_of tab v) 1 < 0
      then (case prev of
              Some (u, row, col) \<Rightarrow>
                if is_nonneg (var_from_index tab v)
                then map_option (\<lambda>(ok, tab). (if ok < 0 then -2 else -1, tab)) (pivot_back tab v u row col)
                else Some (-1, tab)
            | None \<Rightarrow> Some (-1, tab))
      else case find_pivot tab v (Some v) (-1) of
             None \<Rightarrow> Some (sgn (tent tab (index_of tab v) 1), tab)
           | Some (row, col) \<Rightarrow>
               if int row = var_index (var_from_index tab v) then Some (-1, tab)
               else let u = col_var tab ! col;
                        (ok, tab) = isl_tab_pivot tab row col
                    in if ok < 0 then Some (-2, tab)
                       else if is_redundant (var_from_index tab v) then Some (0, tab)
                       else sign_of_min_loop tab v (Some (u, row, col)))"

definition sign_of_min :: "isl_tab \<Rightarrow> int \<Rightarrow> (int \<times> isl_tab) option" where
  "sign_of_min tab v =
     (if min_is_manifestly_unbounded tab v then Some (-1, tab)
      else if \<not> is_row (var_from_index tab v) then
        let col = index_of tab v; row = the (pivot_row tab None (-1) col);
            (ok, tab) = isl_tab_pivot tab row col
        in if ok < 0 then Some (-2, tab)
           else if is_redundant (var_from_index tab v) then Some (0, tab)
           else if tent tab (index_of tab v) 1 < 0 then
             (if is_nonneg (var_from_index tab v)
              then map_option (\<lambda>(ok, tab). (if ok < 0 then -2 else -1, tab)) (pivot_back tab v v row col)
              else Some (-1, tab))
           else sign_of_min_loop tab v (Some (v, row, col))
      else if is_redundant (var_from_index tab v) then Some (0, tab)
      else sign_of_min_loop tab v None)"

partial_function (option) min_at_most_neg_one_loop :: "isl_tab \<Rightarrow> int \<Rightarrow> (int \<times> isl_tab) option" where
  "min_at_most_neg_one_loop tab v =
     (case find_pivot tab v (Some v) (-1) of
        None \<Rightarrow> Some (0, tab)
      | Some (row, col) \<Rightarrow>
          if int row = var_index (var_from_index tab v)
          then (if is_nonneg (var_from_index tab v)
                then map_option (\<lambda>(r, tab). (if r < -1 then -1 else 1, tab)) (restore_row tab v)
                else Some (1, tab))
          else let u = col_var tab ! col;
                   (ok, tab) = isl_tab_pivot tab row col
               in if ok < 0 then Some (-1, tab)
                  else if is_redundant (var_from_index tab v) then Some (0, tab)
                  else if \<not> row_at_most_neg_one tab (index_of tab v) then min_at_most_neg_one_loop tab v
                  else if is_nonneg (var_from_index tab v)
                  then let (ok, tab) = (if \<not> is_redundant (var_from_index tab u) \<and> var_index (var_from_index tab u) = int row
                                        then isl_tab_pivot tab row col else (0, tab))
                       in if ok < 0 then Some (-1, tab)
                          else map_option (\<lambda>(r, tab). (if r < -1 then -1 else 1, tab)) (restore_row tab v)
                  else Some (1, tab))"

definition isl_tab_min_at_most_neg_one :: "isl_tab \<Rightarrow> int \<Rightarrow> (int \<times> isl_tab) option" where
  "isl_tab_min_at_most_neg_one tab v =
     (if min_is_manifestly_unbounded tab v then Some (1, tab)
      else if \<not> is_row (var_from_index tab v) then
        let col = index_of tab v; row = the (pivot_row tab None (-1) col);
            (ok, tab) = isl_tab_pivot tab row col
        in if ok < 0 then Some (-1, tab)
           else if is_redundant (var_from_index tab v) then Some (0, tab)
           else if row_at_most_neg_one tab (index_of tab v) then
             (if is_nonneg (var_from_index tab v)
              then map_option (\<lambda>(ok, tab). (if ok < 0 then -1 else 1, tab)) (pivot_back tab v v row col)
              else Some (1, tab))
           else min_at_most_neg_one_loop tab v
      else if is_redundant (var_from_index tab v) then Some (0, tab)
      else min_at_most_neg_one_loop tab v)"

text \<open>Moving a non-negative variable down to zero and into a column.\<close>

definition pivot_to_col :: "isl_tab \<Rightarrow> int \<Rightarrow> int \<times> isl_tab" where
  "pivot_to_col tab v =
     (case List.find (\<lambda>i. tent tab (index_of tab v) (tab_off tab + i) \<noteq> 0) [n_dead tab..<t_col tab] of
        None \<Rightarrow> (-1, tab)
      | Some i \<Rightarrow> let (ok, tab) = isl_tab_pivot tab (index_of tab v) i in (if ok < 0 then -1 else 0, tab))"

partial_function (option) to_col_loop :: "isl_tab \<Rightarrow> int \<Rightarrow> (int \<times> isl_tab) option" where
  "to_col_loop tab v =
     (if \<not> 0 < tent tab (index_of tab v) 1 then Some (pivot_to_col tab v)
      else case find_pivot tab v None (-1) of
             None \<Rightarrow> Some (-1, tab)
           | Some (row, col) \<Rightarrow>
               let (ok, tab) = isl_tab_pivot tab row col
               in if ok < 0 then Some (-1, tab)
                  else if \<not> is_row (var_from_index tab v) then Some (0, tab)
                  else to_col_loop tab v)"

definition to_col :: "isl_tab \<Rightarrow> int \<Rightarrow> (int \<times> isl_tab) option" where
  "to_col tab v = (if \<not> is_row (var_from_index tab v) then Some (0, tab) else to_col_loop tab v)"

subsection \<open>What a search keeps\<close>

definition sample_ok :: "isl_tab \<Rightarrow> bool" where
  "sample_ok tab \<longleftrightarrow> (\<forall>w \<in> live_vars tab. nonneg tab w \<longrightarrow> 0 \<le> sample tab w)"

definition reach :: "isl_tab \<Rightarrow> isl_tab \<Rightarrow> bool" where
  "reach tab t \<longleftrightarrow> sound t \<and> keeps_points 0 tab t \<and> pivot_frame tab t \<and>
     (\<forall>w \<in> live_vars t. w \<in> live_vars tab \<and> nonneg t w = nonneg tab w) \<and>
     (\<forall>w. tab_code tab w \<longrightarrow> is_zero (var_from_index t w) = is_zero (var_from_index tab w))"

lemma pivot_frame_code: "pivot_frame tab t \<Longrightarrow> tab_code t = tab_code tab"
  by (auto simp: pivot_frame_def same_frame_def tab_code_def fun_eq_iff)

lemma reach_refl: "sound tab \<Longrightarrow> reach tab tab"
  by (simp add: reach_def)

lemma reach_trans: "reach a b \<Longrightarrow> reach b c \<Longrightarrow> reach a c"
  using keeps_points_trans [of 0 a b c] pivot_frame_trans [of a b c] pivot_frame_code [of a b]
  by (auto simp: reach_def)

lemma reach_feasible: "reach tab t \<Longrightarrow> feasible tab 0 x \<Longrightarrow> feasible t 0 x"
  by (simp add: reach_def keeps_points_def)

lemma reach_feasible_back:
  assumes "reach tab t" "feasible t 0 x" "v \<in> tab_vars t"
  obtains y where "feasible tab 0 y" "y v = x v"
  using assms unfolding reach_def keeps_points_def by blast

lemma search_reach:
  assumes "sound tab" "live_row tab v row" "sg = 1 \<or> sg = -1" "ok_but tab v"
    "find_pivot tab v (Some v) sg = Some (r, c)" "r = row \<longrightarrow> of_int sg * sample tab v \<le> 0"
    "isl_tab_pivot tab r c = (k, t)"
  shows "reach tab t"
  using search_pivot(2,3,4) [OF assms] search_pivot(6,8) [OF assms] by (simp add: reach_def)

lemma sample_ok_but: "sample_ok tab \<Longrightarrow> ok_but tab v"
  by (simp add: sample_ok_def ok_but_def)

lemma ok_but_sample: "ok_but tab v \<Longrightarrow> 0 \<le> sample tab v \<Longrightarrow> sample_ok tab"
  by (auto simp: sample_ok_def ok_but_def)

lemma row_sgn_plain: "plain tab \<Longrightarrow> live_row tab v row \<Longrightarrow>
    of_int (row_sgn tab row) = sgn (sample tab v) \<and> (row_is_neg tab row \<longleftrightarrow> sample tab v < 0)"
  using rval_sgn [of tab row] sample_row [of tab row]
  by (auto simp: plain_def row_sgn_def row_is_neg_def live_row_def sgn_if of_int_eq_iff split: if_splits)

lemma live_row_index_of: "plain tab \<Longrightarrow> live_row tab v row \<Longrightarrow> index_of tab v = row"
  using live_row_index [of tab v row] by simp

lemma col_not_row: "plain t \<Longrightarrow> v \<in> col_vars t \<Longrightarrow> \<not> is_row (var_from_index t v)"
  using tab_indexD(4) [OF tab_okD(2), of t] by (auto simp: col_vars_def plain_def at_col_def)

lemma sample_col_var: "plain t \<Longrightarrow> v \<in> col_vars t \<Longrightarrow> sample t v = 0"
  by (auto simp: col_vars_def sample_col)

subsection \<open>Restoring a row\<close>

lemma restore_row_run:
  assumes "sound tab" "live_row tab v row" "ok_but tab v"
  shows "\<exists>r t. restore_row tab v = Some (r, t) \<and> reach tab t \<and>
    (if r < 0 then r = -1 \<and> (\<forall>x. feasible tab 0 x \<longrightarrow> x v < 0)
     else sample_ok t \<and> v \<in> live_vars t \<and> (r = 0 \<or> r = 1))"
  using wf_search_rel [of 1 v, OF disjI1 [OF refl]] assms
proof (induction tab arbitrary: row rule: wf_induct_rule)
  case (less tab)
  note so = less.prems(1) and v = less.prems(2) and ok = less.prems(3)
  note pl = soundD(1) [OF so]
  note ix = live_row_index_of [OF pl v] and sg = row_sgn_plain [OF pl v]
  show ?case
  proof (cases "row_is_neg tab row")
    case False
    then have "restore_row tab v = Some (row_sgn tab row, tab)" by (simp add: restore_row.simps [of tab] ix)
    moreover have "0 \<le> sample tab v" using False sg by simp
    moreover from this sg have "row_sgn tab row = 0 \<or> row_sgn tab row = 1" by (auto simp: sgn_if split: if_splits)
    ultimately show ?thesis using reach_refl [OF so] ok_but_sample [OF ok] live_row_vars [OF v] by auto
  next
    case neg: True
    then have nv: "sample tab v < 0" using sg by simp
    show ?thesis
    proof (cases "find_pivot tab v (Some v) 1")
      case None
      then have "restore_row tab v = Some (row_sgn tab row, tab)" using neg by (simp add: restore_row.simps [of tab] ix)
      moreover have "row_sgn tab row = -1" using sg nv by (simp add: sgn_if)
      moreover have "x v < 0" if "feasible tab 0 x" for x
        using no_improves_bound [OF pl v, of 1 x] find_pivot_spec [OF pl v, of 1] None that nv by simp
      ultimately show ?thesis using reach_refl [OF so] by auto
    next
      case (Some rc)
      obtain r c where rc: "rc = (r, c)" by fastforce
      then have fp: "find_pivot tab v (Some v) 1 = Some (r, c)" using Some by simp
      obtain k t where piv: "isl_tab_pivot tab r c = (k, t)" by fastforce
      have own: "r = row \<longrightarrow> of_int 1 * sample tab v \<le> 0" using nv by simp
      note step = search_pivot [OF so v disjI1 [OF refl] ok fp own piv]
      have rt: "reach tab t" using search_reach [OF so v disjI1 [OF refl] ok fp own piv] by blast
      note pt = soundD(1) [OF step(2)]
      have un: "restore_row tab v = (if \<not> is_row (var_from_index t v) then Some (1, t) else restore_row t v)"
        using neg fp piv step(1) by (simp add: restore_row.simps [of tab] ix)
      show ?thesis
      proof (cases "r = row")
        case True
        then have vc: "v \<in> col_vars t" using step(9) by blast
        then have "restore_row tab v = Some (1, t)" using un col_not_row [OF pt] by simp
        moreover have "sample_ok t" using ok_but_sample [OF step(5)] sample_col_var [OF pt vc] by simp
        ultimately show ?thesis using rt vc by (auto simp: live_vars_def)
      next
        case False
        then obtain row' where row': "live_row t v row'" and rel: "(t, tab) \<in> search_rel v 1" using step(10) by auto
        have "restore_row tab v = restore_row t v" using un live_row_index [OF pt row'] by simp
        moreover obtain q u where q: "restore_row t v = Some (q, u)" "reach t u"
          "if q < 0 then q = -1 \<and> (\<forall>x. feasible t 0 x \<longrightarrow> x v < 0) else sample_ok u \<and> v \<in> live_vars u \<and> (q = 0 \<or> q = 1)"
          using less.IH [OF rel step(2) row' step(5)] by blast
        ultimately show ?thesis using reach_trans [OF rt q(2)] reach_feasible [OF rt] by auto
      qed
    qed
  qed
qed

subsection \<open>A variable in a column\<close>

text \<open>A variable that the searches accept: in a live row, or in a column that is not dead.\<close>

definition live_col :: "isl_tab \<Rightarrow> int \<Rightarrow> nat \<Rightarrow> bool" where
  "live_col tab v c \<longleftrightarrow> n_dead tab \<le> c \<and> c < t_col tab \<and> col_var tab ! c = v"

definition active :: "isl_tab \<Rightarrow> int \<Rightarrow> bool" where
  "active tab v \<longleftrightarrow> (\<exists>r. live_row tab v r) \<or> (\<exists>c. live_col tab v c)"

lemma live_col_index: "plain tab \<Longrightarrow> live_col tab v c \<Longrightarrow> var_index (var_from_index tab v) = int c \<and> \<not> is_row (var_from_index tab v)"
  using tab_indexD(4) [OF tab_okD(2), of tab c] by (auto simp: plain_def live_col_def at_col_def)

lemma limits_None: "plain tab \<Longrightarrow> s = 1 \<or> s = -1 \<Longrightarrow>
    limits tab None s c j \<longleftrightarrow> live_row tab (row_var tab ! j) j \<and> nonneg tab (row_var tab ! j) \<and> of_int s * coef tab j c < 0"
  using coef_sgn [OF plainD(1), of tab j c]
  by (auto simp: limits_def live_row_def nonneg_def isl_tab_var_from_row_def sgn_if split: if_splits)

lemma col_line_nonneg:
  assumes pl: "plain tab" and v: "live_col tab v c" and ok: "sample_ok tab" and s: "s = 1 \<or> s = -1" and d: "0 \<le> of_int s * d"
    and lim: "\<And>j. limits tab None s c j \<Longrightarrow> of_int s * d \<le> ratio tab c j"
    and w: "w \<in> live_vars tab" "w \<noteq> v" "nonneg tab w"
  shows "0 \<le> line tab c d w"
  using w(1)
proof (cases rule: live_vars_cases)
  case (row j)
  have j: "j < t_row tab" "row_var tab ! j = w" using row by (simp_all add: live_row_def)
  have c: "c < t_col tab" using v by (simp add: live_col_def)
  have b: "0 \<le> rval tab j" using ok w pl j by (auto simp: sample_ok_def sample_row)
  have "0 \<le> rval tab j + coef tab j c * d"
    by (rule line_row_nonneg [OF pl j(1) b _ d]) (use s lim limits_None [OF pl s] row w(3) j(2) in auto)
  then show ?thesis using line_row [OF pl j(1) c, of d] j(2) by simp
next
  case (col k)
  then show ?thesis using line_col [OF pl, of k c d] v w(2) by (auto simp: live_col_def)
qed

text \<open>Nothing limits the column: it is unbounded.\<close>

lemma col_unlimited_ray:
  assumes pl: "plain tab" and v: "live_col tab v c" and ok: "sample_ok tab" and s: "s = 1 \<or> s = -1"
    and none: "\<And>j. \<not> limits tab None s c j" and b: "s = 1 \<or> \<not> nonneg tab v"
  shows "\<exists>x. feasible tab 0 x \<and> B \<le> of_int s * x v"
proof -
  define d :: rat where "d = of_int s * max 0 B"
  have c: "c < t_col tab" "n_dead tab \<le> c" "col_var tab ! c = v" using v by (simp_all add: live_col_def)
  have sd: "of_int s * d = max 0 B" using s by (auto simp: d_def)
  have dv: "line tab c d v = d" using line_col [OF pl c(1), of c d] c(3) by simp
  have "0 \<le> line tab c d w" if w: "w \<in> live_vars tab" "nonneg tab w" for w
  proof (cases "w = v")
    case True
    then show ?thesis using b w s sd dv by auto
  next
    case False
    show ?thesis by (rule col_line_nonneg [OF pl v ok s _ _ w(1) False w(2)]) (use sd none in auto)
  qed
  then have "feasible tab 0 (line tab c d)" by (intro line_feasible [OF pl c(2)])
  then show ?thesis using sd dv by (metis max.cobounded2)
qed

lemma col_pivot:
  assumes so: "sound tab" and v: "live_col tab v c" and ok: "sample_ok tab" and s: "s = 1 \<or> s = -1"
    and pr: "pivot_row tab None s c = Some r" and piv: "isl_tab_pivot tab r c = (k, t)"
  shows "k = 0" "reach tab t" "ok_but t v" "v \<in> live_vars t \<Longrightarrow> 0 \<le> of_int s * sample t v"
    and "(\<exists>row. live_row t v row) \<or> s = -1 \<and> is_redundant (var_from_index t v)"
proof -
  note sn = soundD [OF so]
  note pl = sn(1)
  have c: "c < t_col tab" "n_dead tab \<le> c" "col_var tab ! c = v" using v by (simp_all add: live_col_def)
  note sp = pivot_row_spec [OF plainD(3) [OF pl] s tab_shapeD(5) [OF tab_okD(1) [OF sn(4)]], of None c, unfolded pr option.case]
  have l: "live_row tab (row_var tab ! r) r" "nonneg tab (row_var tab ! r)" "of_int s * coef tab r c < 0"
    using sp limits_None [OF pl s] by auto
  have r: "r < t_row tab" "n_redundant tab \<le> r" using l(1) by (simp_all add: live_row_def)
  have rc: "coef tab r c \<noteq> 0" using l(3) by auto
  have po: "pivot_ok tab r c" using r c rc by (auto simp: pivot_ok_def coef_zero)
  define d where "d = - rval tab r / coef tab r c"
  have abs: "\<bar>coef tab r c\<bar> = - (of_int s * coef tab r c)" using l(3) s by (auto simp: abs_if)
  then have sd: "of_int s * d = ratio tab c r" using s rc by (auto simp: ratio_eq [OF pl r(1)] d_def)
  have "0 \<le> rval tab r" using ok l(2) live_row_vars [OF l(1)] sample_row [OF pl r(1)] by (auto simp: sample_ok_def)
  then have d0: "0 \<le> of_int s * d" by (simp add: sd ratio_eq [OF pl r(1)])
  have lim: "of_int s * d \<le> ratio tab c j" if "limits tab None s c j" for j
    using sp that by (auto simp: sd limits_before_def)
  have ln: "0 \<le> line tab c d w" if "w \<in> live_vars tab" "w \<noteq> v" "nonneg tab w" for w
    by (rule col_line_nonneg [OF pl v ok s d0 lim that])
  let ?p = "pivoted tab r c"
  note pp = pivoted_plain [OF pl po]
  note run = tab_pivot_run [OF sn(4) po sn(2) order_refl sn(3), unfolded piv fst_conv snd_conv]
  show "k = 0" by (rule run(1))
  have sh: "shrinks 0 ?p t" by (rule run(2))
  then have sf: "same_frame ?p t" by (simp add: shrinks_def)
  note ts = shrinks_plain [OF pp(1) sh]
  have st: "sound t" using ts(1) sh sn(3) unlimited_frame [OF sf] by (simp add: sound_def shrinks_def pivoted_unlimited)
  have code: "tab_code ?p = tab_code tab" using exchange_points(7) [OF sn(4) po] by (simp add: pivoted_frame)
  have lt: "w \<in> live_vars tab \<and> nonneg t w = nonneg tab w \<and> sample t w = line tab c d w" if "w \<in> live_vars t" for w
  proof -
    have w: "w \<in> live_vars tab" using ts(2) [OF that] pp(5) by simp
    then have "tab_code tab w" using tab_vars_code [OF sn(4)] live_rows_sub(2) by blast
    then show ?thesis using ts(2) [OF that] pp(6) [of w] w exchange_sample [OF pl po w] by (simp add: pp(3) d_def)
  qed
  have z: "is_zero (var_from_index t w) = is_zero (var_from_index tab w)" if "tab_code tab w" for w
    using sh exchange_points(11) [OF sn(4) po that] that by (simp add: shrinks_def code) (simp add: pivoted_frame)
  show "reach tab t"
    using st tab_pivot_keeps(4) [OF sn(4) po sn(2) order_refl sn(3) piv] pivot_frame_trans [OF pivoted_pivot_frame same_pivot_frame [OF sf]] lt z
    by (simp add: reach_def)
  show "ok_but t v" unfolding ok_but_def using lt ln by auto
  show "v \<in> live_vars t \<Longrightarrow> 0 \<le> of_int s * sample t v" using lt [of v] line_col [OF pl c(1), of c d] c(3) d0 by simp
  have rvx: "row_var ?p ! r = v" "t_row ?p = t_row tab" "n_redundant ?p = n_redundant tab"
    using r c(3) tab_shapeD(3) [OF tab_okD(1) [OF sn(4)]] by (simp_all add: pivoted_frame exchange_vars_def)
  have vp: "(v, mat_row (tab_mat ?p) ! r) \<in> live_rows ?p" using r rvx by (force simp: live_rows_def)
  show "(\<exists>row. live_row t v row) \<or> s = -1 \<and> is_redundant (var_from_index t v)"
  proof (cases "(v, mat_row (tab_mat ?p) ! r) \<in> live_rows t")
    case True
    then show ?thesis by (auto simp: live_rows_def live_row_def)
  next
    case False
    have "\<forall>vp \<in> live_rows ?p - live_rows t. is_redundant (var_from_index t (fst vp)) \<and> redundant_row ?p vp"
      using sh by (simp add: shrinks_def)
    from bspec [OF this, of "(v, mat_row (tab_mat ?p) ! r)"] False vp
    have gone: "is_redundant (var_from_index t v)" "redundant_row ?p (v, mat_row (tab_mat ?p) ! r)" by simp_all
    obtain i where i: "i < t_row ?p" "row_var ?p ! i = v" "isl_tab_row_is_redundant ?p i" using gone(2) by (auto simp: redundant_row_def)
    have "i = r" using tab_index_inj(1) [OF tab_okD(2) [OF plainD(1) [OF pp(1)]] i(1), of r] i(2) rvx r(1) by simp
    then have red: "isl_tab_row_is_redundant ?p r" using i by simp
    have cv: "col_var (exchange_vars tab r c) ! c = row_var tab ! r" using exchange_cols [OF pl po c(1)] by simp
    have pe: "plain (exchange_vars tab r c)" using exchange_plain [OF pl po] .
    have tc: "t_col (exchange_vars tab r c) = t_col tab" "t_row (exchange_vars tab r c) = t_row tab" by (simp_all add: exchange_vars_def)
    have "coef ?p r c = 1 / coef tab r c"
    proof -
      define x where "x e = line (exchange_vars tab r c) c e" for e :: rat
      have ls: "live_sat tab (x e)" for e
        using exchange_live_sat [OF pl po] sat_live [OF line_sat [OF pe] pe] by (auto simp: x_def)
      have zero: "x e (col_var tab ! i) = 0" if "i < t_col tab" "i \<noteq> c" for i e
        using that line_col [OF pe, of i c e] exchange_cols [OF pl po that(1)] by (simp add: x_def tc)
      have xr: "x e (row_var tab ! r) = e" for e using line_col [OF pe, of c c e] c(1) cv by (simp add: x_def tc)
      have "(\<Sum>i<t_col tab. coef tab r i * x e (col_var tab ! i)) = coef tab r c * x e v" for e
        using c(1,3) zero by (subst sum.mono_neutral_right [of _ "{c}"]) auto
      then have "e = rval tab r + coef tab r c * x e v" for e using live_satD [OF ls pl r(2,1), of e] xr by simp
      from this [of 1] this [of 0] have "1 = coef tab r c * (x 1 v - x 0 v)" by (simp add: right_diff_distrib)
      moreover have "x e v = rval (exchange_vars tab r c) r + coef (exchange_vars tab r c) r c * e" for e
        using line_row [OF pe, of r c e] rvx(1) r(1) c(1) by (simp add: x_def tc pivoted_frame)
      ultimately show ?thesis using rc by (simp add: pp(7) field_simps)
    qed
    moreover from this have "coef ?p r c \<noteq> 0" using rc by simp
    then have "tent ?p r (tab_off ?p + c) \<noteq> 0" by (auto simp: coef_zero)
    then have "0 < tent ?p r (tab_off ?p + c)" using redundantD(4) [OF red, of c] c by (simp add: pivoted_frame exchange_vars_def)
    then have "sgn (coef ?p r c) = 1" using coef_sgn [OF plainD(1) [OF pp(1)], of r c] rvx r(1) by simp
    then have "0 < coef ?p r c" by (simp only: sgn_1_pos)
    ultimately have "0 < coef tab r c" by simp
    then have "s = -1" using l(3) s by auto
    with gone(1) show ?thesis by blast
  qed
qed

subsection \<open>The sign of the maximum\<close>

definition max_sign :: "isl_tab \<Rightarrow> int \<Rightarrow> int \<Rightarrow> bool" where
  "max_sign tab v r \<longleftrightarrow>
     (r = -1 \<and> (\<forall>x. feasible tab 0 x \<longrightarrow> x v < 0)) \<or>
     (r = 0 \<and> (\<exists>x. feasible tab 0 x \<and> x v = 0) \<and> (\<forall>x. feasible tab 0 x \<longrightarrow> x v \<le> 0)) \<or>
     (r = 1 \<and> (\<exists>x. feasible tab 0 x \<and> 0 < x v))"

lemma max_sign_reach:
  assumes "reach tab t" "v \<in> tab_vars t" "max_sign t v r"
  shows "max_sign tab v r"
  using assms(3) reach_feasible [OF assms(1)] reach_feasible_back [OF assms(1) _ assms(2)]
  unfolding max_sign_def by metis

lemma search_pivot_cases:
  assumes so: "sound tab" and v: "live_row tab v row" and ok: "ok_but tab v"
    and fp: "find_pivot tab v (Some v) 1 = Some (r, c)" and np: "sample tab v \<le> 0"
    and piv: "isl_tab_pivot tab r c = (k, t)"
  shows "k = 0" "reach tab t" "sound t" "ok_but t v"
    and "r = row \<Longrightarrow> \<not> is_row (var_from_index t v) \<and> sample_ok t \<and> v \<in> live_vars t \<and> max_sign tab v 1"
    and "r \<noteq> row \<Longrightarrow> \<exists>row'. live_row t v row' \<and> is_row (var_from_index t v) \<and> (t, tab) \<in> search_rel v 1"
proof -
  have own: "r = row \<longrightarrow> of_int 1 * sample tab v \<le> 0" using np by simp
  note step = search_pivot [OF so v disjI1 [OF refl] ok fp own piv]
  show "k = 0" by (rule step(1))
  show "sound t" by (rule step(2))
  show "ok_but t v" by (rule step(5))
  show "reach tab t" using search_reach [OF so v disjI1 [OF refl] ok fp own piv] by blast
  note pt = soundD(1) [OF step(2)]
  show "r = row \<Longrightarrow> \<not> is_row (var_from_index t v) \<and> sample_ok t \<and> v \<in> live_vars t \<and> max_sign tab v 1"
  proof -
    assume "r = row"
    note s9 = step(9) [OF this]
    then have vc: "v \<in> col_vars t" by blast
    obtain x where "feasible tab 0 x" "1 \<le> x v" using s9 by auto
    then have "max_sign tab v 1" by (auto simp: max_sign_def intro: exI [of _ x])
    then show ?thesis using col_not_row [OF pt vc] ok_but_sample [OF step(5)] sample_col_var [OF pt vc] vc
      by (simp add: live_vars_def)
  qed
  show "r \<noteq> row \<Longrightarrow> \<exists>row'. live_row t v row' \<and> is_row (var_from_index t v) \<and> (t, tab) \<in> search_rel v 1"
    using step(10) live_row_index [OF pt] by fastforce
qed

lemma tent_sample:
  assumes "plain tab" "live_row tab v row"
  shows "sgn (sample tab v) = of_int (sgn (tent tab row 1))" and "0 < tent tab row 1 \<longleftrightarrow> 0 < sample tab v"
    and "tent tab row 1 < 0 \<longleftrightarrow> sample tab v < 0" and "tent tab row 1 < tent tab row 0 \<longleftrightarrow> sample tab v < 1"
proof -
  have r: "row < t_row tab" "row_var tab ! row = v" using assms(2) by (simp_all add: live_row_def)
  have pos: "0 < tent tab row 0" using tab_okD(3) [OF plainD(1) [OF assms(1)] r(1)] by (simp add: ent_def)
  have s: "sample tab v = of_int (tent tab row 1) / of_int (tent tab row 0)"
    using sample_row [OF assms(1) r(1)] r(2) by (simp add: rval_def)
  show "sgn (sample tab v) = of_int (sgn (tent tab row 1))" using pos by (simp add: s sgn_divide sgn_of_int_rat)
  show "0 < tent tab row 1 \<longleftrightarrow> 0 < sample tab v" "tent tab row 1 < 0 \<longleftrightarrow> sample tab v < 0"
    using pos by (simp_all add: s zero_less_divide_iff divide_less_0_iff)
  show "tent tab row 1 < tent tab row 0 \<longleftrightarrow> sample tab v < 1" using pos by (simp add: s divide_less_eq)
qed

lemma none_bound:
  assumes "plain tab" "live_row tab v row" "find_pivot tab v (Some v) 1 = None" "feasible tab 0 x"
  shows "x v \<le> sample tab v"
  using no_improves_bound [OF assms(1,2), of 1 x] find_pivot_spec [OF assms(1,2), of 1] assms(3,4) by simp

lemma sign_of_max_loop_run:
  assumes "sound tab" "live_row tab v row" "ok_but tab v"
  shows "\<exists>r t. sign_of_max_loop tab v = Some (r, t) \<and> reach tab t \<and> max_sign tab v r \<and> (0 \<le> r \<longrightarrow> sample_ok t)"
  using wf_search_rel [of 1 v, OF disjI1 [OF refl]] assms
proof (induction tab arbitrary: row rule: wf_induct_rule)
  case (less tab)
  note so = less.prems(1) and v = less.prems(2) and ok = less.prems(3)
  note pl = soundD(1) [OF so]
  note ix = live_row_index_of [OF pl v] and ts = tent_sample [OF pl v]
  have fs: "feasible tab 0 (sample tab)" if "sample_ok tab" using sample_feasible [OF pl] that by (simp add: sample_ok_def)
  show ?case
  proof (cases "0 < tent tab row 1")
    case True
    then have "sign_of_max_loop tab v = Some (1, tab)" by (simp add: sign_of_max_loop.simps [of tab] ix)
    moreover have p: "0 < sample tab v" using True ts(2) by simp
    then have sk: "sample_ok tab" using ok_but_sample [OF ok] by simp
    then have "max_sign tab v 1" using p fs by (auto simp: max_sign_def)
    ultimately show ?thesis using reach_refl [OF so] sk by blast
  next
    case np: False
    then have nv: "sample tab v \<le> 0" using ts(2) by simp
    show ?thesis
    proof (cases "find_pivot tab v (Some v) 1")
      case None
      then have "sign_of_max_loop tab v = Some (sgn (tent tab row 1), tab)" using np by (simp add: sign_of_max_loop.simps [of tab] ix)
      moreover have "max_sign tab v (sgn (tent tab row 1)) \<and> (0 \<le> sgn (tent tab row 1) \<longrightarrow> sample_ok tab)"
      proof (cases "sample tab v < 0")
        case True
        then show ?thesis using ts(3) none_bound [OF pl v None] by (fastforce simp: max_sign_def)
      next
        case False
        then have z: "sample tab v = 0" using nv by simp
        then have "sample_ok tab" using ok_but_sample [OF ok] by simp
        then show ?thesis using z ts(2,3) none_bound [OF pl v None] fs np by (auto simp: max_sign_def intro: exI [of _ "sample tab"])
      qed
      ultimately show ?thesis using reach_refl [OF so] by blast
    next
      case (Some rc)
      obtain r c where rc: "rc = (r, c)" by fastforce
      then have fp: "find_pivot tab v (Some v) 1 = Some (r, c)" using Some by simp
      obtain k t where piv: "isl_tab_pivot tab r c = (k, t)" by fastforce
      note step = search_pivot_cases [OF so v ok fp nv piv]
      have un: "sign_of_max_loop tab v = (if \<not> is_row (var_from_index t v) then Some (1, t) else sign_of_max_loop t v)"
        using np fp piv step(1) by (simp add: sign_of_max_loop.simps [of tab] ix)
      show ?thesis
      proof (cases "r = row")
        case True
        then show ?thesis using un step(2) step(5) by simp
      next
        case False
        then obtain row' where row': "live_row t v row'" "is_row (var_from_index t v)" and rel: "(t, tab) \<in> search_rel v 1"
          using step(6) by blast
        obtain q u where q: "sign_of_max_loop t v = Some (q, u)" "reach t u" "max_sign t v q" "0 \<le> q \<longrightarrow> sample_ok u"
          using less.IH [OF rel step(3) row'(1) step(4)] by blast
        moreover have "v \<in> tab_vars t" using live_row_vars [OF row'(1)] live_rows_sub(2) by blast
        ultimately show ?thesis using un row'(2) reach_trans [OF step(2) q(2)] max_sign_reach [OF step(2) _ q(3)] by auto
      qed
    qed
  qed
qed

lemma manifestly_unbounded:
  assumes pl: "plain tab" and v: "live_col tab v c"
  shows "max_is_manifestly_unbounded tab v \<longleftrightarrow> (\<forall>j. \<not> limits tab None 1 c j)"
    and "min_is_manifestly_unbounded tab v \<longleftrightarrow> (\<forall>j. \<not> limits tab None (-1) c j)"
  using live_col_index [OF pl v]
  by (auto simp: max_is_manifestly_unbounded_def min_is_manifestly_unbounded_def find_None limits_def sgn_if split: if_splits)

lemma sign_of_max_run:
  assumes so: "sound tab" and v: "active tab v" and ok: "ok_but tab v"
  shows "\<exists>r t. sign_of_max tab v = Some (r, t) \<and> reach tab t \<and> max_sign tab v r \<and> (0 \<le> r \<longrightarrow> sample_ok t)"
  using v unfolding active_def
proof
  note pl = soundD(1) [OF so]
  assume "\<exists>row. live_row tab v row"
  then obtain row where row: "live_row tab v row" by blast
  have "sign_of_max tab v = sign_of_max_loop tab v"
    using live_row_index [OF pl row] by (simp add: sign_of_max_def max_is_manifestly_unbounded_def to_row_def Let_def)
  then show ?thesis using sign_of_max_loop_run [OF so row ok] by simp
next
  note pl = soundD(1) [OF so]
  assume "\<exists>c. live_col tab v c"
  then obtain c where c: "live_col tab v c" by blast
  have cv: "v \<in> col_vars tab" using c by (auto simp: live_col_def col_vars_def)
  have sok: "sample_ok tab" using ok_but_sample [OF ok] sample_col_var [OF pl cv] by simp
  show ?thesis
  proof (cases "max_is_manifestly_unbounded tab v")
    case True
    then obtain x where x: "feasible tab 0 x" "1 \<le> x v"
      using col_unlimited_ray [OF pl c sok, of 1 1] manifestly_unbounded(1) [OF pl c] by auto
    then have "max_sign tab v 1" by (auto simp: max_sign_def intro: exI [of _ x])
    then show ?thesis using True reach_refl [OF so] sok by (auto simp: sign_of_max_def)
  next
    case False
    note sp = pivot_row_spec [OF plainD(3) [OF pl] disjI1 [OF refl] tab_shapeD(5) [OF tab_okD(1) [OF soundD(4) [OF so]]], of None c]
    obtain r where pr: "pivot_row tab None 1 c = Some r"
      using False manifestly_unbounded(1) [OF pl c] sp by (cases "pivot_row tab None 1 c") auto
    obtain k t where piv: "isl_tab_pivot tab r c = (k, t)" by fastforce
    note cp = col_pivot [OF so c sok disjI1 [OF refl] pr piv]
    obtain row where row: "live_row t v row" using cp(5) by auto
    have st: "sound t" using cp(2) by (simp add: reach_def)
    have "sign_of_max tab v = sign_of_max_loop t v"
      using False cp(1) pr piv live_col_index [OF pl c] by (simp add: sign_of_max_def to_row_def Let_def)
    moreover obtain q u where q: "sign_of_max_loop t v = Some (q, u)" "reach t u" "max_sign t v q" "0 \<le> q \<longrightarrow> sample_ok u"
      using sign_of_max_loop_run [OF st row cp(3)] by blast
    moreover have "v \<in> tab_vars t" using live_row_vars [OF row] live_rows_sub(2) by blast
    ultimately show ?thesis using reach_trans [OF cp(2) q(2)] max_sign_reach [OF cp(2) _ q(3)] by auto
  qed
qed

subsection \<open>Reaching zero or one\<close>

lemma search_pivot_other:
  assumes so: "sound tab" and v: "live_row tab v row" and ok: "ok_but tab v"
    and fp: "find_pivot tab v (Some v) 1 = Some (r, c)" and ne: "r \<noteq> row" and piv: "isl_tab_pivot tab r c = (k, t)"
  shows "k = 0" "reach tab t" "sound t" "ok_but t v" "\<exists>row'. live_row t v row' \<and> (t, tab) \<in> search_rel v 1"
proof -
  have own: "r = row \<longrightarrow> of_int 1 * sample tab v \<le> 0" using ne by simp
  note step = search_pivot [OF so v disjI1 [OF refl] ok fp own piv]
  show "k = 0" by (rule step(1))
  show "sound t" by (rule step(2))
  show "ok_but t v" by (rule step(5))
  show "reach tab t" using search_reach [OF so v disjI1 [OF refl] ok fp own piv] by blast
  show "\<exists>row'. live_row t v row' \<and> (t, tab) \<in> search_rel v 1" using step(10) [OF ne] by auto
qed

lemma own_row_unbounded:
  assumes pl: "plain tab" and v: "live_row tab v row" and ok: "ok_but tab v"
    and fp: "find_pivot tab v (Some v) 1 = Some (row, c)"
  shows "\<exists>x. feasible tab 0 x \<and> B \<le> x v"
proof -
  note f = search_pivot_ok [OF pl v disjI1 [OF refl] fp]
  show ?thesis using unlimited_ray [OF pl v disjI1 [OF refl] f(2) ok f(5) [OF refl], of B] by simp
qed

text \<open>Whether \<open>v\<close> can attain \<open>B\<close>.\<close>

definition attains :: "isl_tab \<Rightarrow> int \<Rightarrow> rat \<Rightarrow> bool" where
  "attains tab v B \<longleftrightarrow> (\<exists>x. feasible tab 0 x \<and> B \<le> x v)"

lemma attains_reach: "reach tab t \<Longrightarrow> v \<in> tab_vars t \<Longrightarrow> attains t v B = attains tab v B"
  unfolding attains_def using reach_feasible reach_feasible_back by metis

lemma at_least_zero_run:
  assumes "sound tab" "live_row tab v row" "ok_but tab v"
  shows "\<exists>r t row'. at_least_zero tab v = Some (r, t) \<and> reach tab t \<and> live_row t v row' \<and> ok_but t v \<and>
    r = (if attains tab v 0 then 1 else 0)"
  using wf_search_rel [of 1 v, OF disjI1 [OF refl]] assms
proof (induction tab arbitrary: row rule: wf_induct_rule)
  case (less tab)
  note so = less.prems(1) and v = less.prems(2) and ok = less.prems(3)
  note pl = soundD(1) [OF so]
  note ix = live_row_index_of [OF pl v] and ts = tent_sample [OF pl v] and lix = live_row_index [OF pl v]
  show ?case
  proof (cases "tent tab row 1 < 0")
    case False
    then have "0 \<le> sample tab v" using ts(3) by simp
    then have "attains tab v 0" using sample_feasible [OF pl] ok_but_sample [OF ok] by (auto simp: attains_def sample_ok_def)
    then show ?thesis using False reach_refl [OF so] v ok by (simp add: at_least_zero.simps [of tab] ix) blast
  next
    case neg: True
    show ?thesis
    proof (cases "find_pivot tab v (Some v) 1")
      case None
      have "\<not> attains tab v 0" using none_bound [OF pl v None] neg ts(3) by (fastforce simp: attains_def)
      then show ?thesis using neg None reach_refl [OF so] v ok by (simp add: at_least_zero.simps [of tab] ix) blast
    next
      case (Some rc)
      obtain r c where rc: "rc = (r, c)" by fastforce
      then have fp: "find_pivot tab v (Some v) 1 = Some (r, c)" using Some by simp
      show ?thesis
      proof (cases "r = row")
        case True
        then have "attains tab v 0" using own_row_unbounded [OF pl v ok] fp by (simp add: attains_def)
        then show ?thesis using neg fp True lix reach_refl [OF so] v ok by (simp add: at_least_zero.simps [of tab] ix) blast
      next
        case False
        obtain k t where piv: "isl_tab_pivot tab r c = (k, t)" by fastforce
        note step = search_pivot_other [OF so v ok fp False piv]
        obtain row' where row': "live_row t v row'" and rel: "(t, tab) \<in> search_rel v 1" using step(5) by blast
        have "at_least_zero tab v = at_least_zero t v"
          using neg fp False piv step(1) lix by (simp add: at_least_zero.simps [of tab] ix)
        moreover obtain q u row2 where q: "at_least_zero t v = Some (q, u)" "reach t u" "live_row u v row2" "ok_but u v"
          "q = (if attains t v 0 then 1 else 0)" using less.IH [OF rel step(3) row' step(4)] by blast
        moreover have "v \<in> tab_vars t" using live_row_vars [OF row'] live_rows_sub(2) by blast
        ultimately show ?thesis using reach_trans [OF step(2) q(2)] attains_reach [OF step(2)] by auto
      qed
    qed
  qed
qed

lemma at_least_one_loop_run:
  assumes "sound tab" "live_row tab v row" "ok_but tab v"
  shows "\<exists>r t row'. at_least_one_loop tab v = Some (r, t) \<and> reach tab t \<and> live_row t v row' \<and> ok_but t v \<and>
    r = (if attains tab v 1 then 1 else 0)"
  using wf_search_rel [of 1 v, OF disjI1 [OF refl]] assms
proof (induction tab arbitrary: row rule: wf_induct_rule)
  case (less tab)
  note so = less.prems(1) and v = less.prems(2) and ok = less.prems(3)
  note pl = soundD(1) [OF so]
  note ix = live_row_index_of [OF pl v] and ts = tent_sample [OF pl v] and lix = live_row_index [OF pl v]
  show ?case
  proof (cases "tent tab row 1 < tent tab row 0")
    case False
    then have "1 \<le> sample tab v" using ts(4) by simp
    then have "attains tab v 1" using sample_feasible [OF pl] ok_but_sample [OF ok] by (auto simp: attains_def sample_ok_def)
    then show ?thesis using False reach_refl [OF so] v ok by (simp add: at_least_one_loop.simps [of tab] ix) blast
  next
    case neg: True
    show ?thesis
    proof (cases "find_pivot tab v (Some v) 1")
      case None
      have "\<not> attains tab v 1" using none_bound [OF pl v None] neg ts(4) by (fastforce simp: attains_def)
      then show ?thesis using neg None reach_refl [OF so] v ok by (simp add: at_least_one_loop.simps [of tab] ix) blast
    next
      case (Some rc)
      obtain r c where rc: "rc = (r, c)" by fastforce
      then have fp: "find_pivot tab v (Some v) 1 = Some (r, c)" using Some by simp
      show ?thesis
      proof (cases "r = row")
        case True
        then have "attains tab v 1" using own_row_unbounded [OF pl v ok] fp by (simp add: attains_def)
        then show ?thesis using neg fp True lix reach_refl [OF so] v ok by (simp add: at_least_one_loop.simps [of tab] ix) blast
      next
        case False
        obtain k t where piv: "isl_tab_pivot tab r c = (k, t)" by fastforce
        note step = search_pivot_other [OF so v ok fp False piv]
        obtain row' where row': "live_row t v row'" and rel: "(t, tab) \<in> search_rel v 1" using step(5) by blast
        have "at_least_one_loop tab v = at_least_one_loop t v"
          using neg fp False piv step(1) lix by (simp add: at_least_one_loop.simps [of tab] ix)
        moreover obtain q u row2 where q: "at_least_one_loop t v = Some (q, u)" "reach t u" "live_row u v row2" "ok_but u v"
          "q = (if attains t v 1 then 1 else 0)" using less.IH [OF rel step(3) row' step(4)] by blast
        moreover have "v \<in> tab_vars t" using live_row_vars [OF row'] live_rows_sub(2) by blast
        ultimately show ?thesis using reach_trans [OF step(2) q(2)] attains_reach [OF step(2)] by auto
      qed
    qed
  qed
qed

lemma at_least_one_run:
  assumes so: "sound tab" and v: "active tab v" and ok: "sample_ok tab"
  shows "\<exists>r t. at_least_one tab v = Some (r, t) \<and> reach tab t \<and> r = (if attains tab v 1 then 1 else 0)"
  using v unfolding active_def
proof
  note pl = soundD(1) [OF so]
  assume "\<exists>row. live_row tab v row"
  then obtain row where row: "live_row tab v row" by blast
  have "at_least_one tab v = at_least_one_loop tab v"
    using live_row_index [OF pl row] by (simp add: at_least_one_def max_is_manifestly_unbounded_def to_row_def Let_def)
  then show ?thesis using at_least_one_loop_run [OF so row sample_ok_but [OF ok]] by auto
next
  note pl = soundD(1) [OF so]
  assume "\<exists>c. live_col tab v c"
  then obtain c where c: "live_col tab v c" by blast
  show ?thesis
  proof (cases "max_is_manifestly_unbounded tab v")
    case True
    then have "attains tab v 1"
      using col_unlimited_ray [OF pl c ok, of 1 1] manifestly_unbounded(1) [OF pl c] by (auto simp: attains_def)
    then show ?thesis using True reach_refl [OF so] by (auto simp: at_least_one_def)
  next
    case False
    note sp = pivot_row_spec [OF plainD(3) [OF pl] disjI1 [OF refl] tab_shapeD(5) [OF tab_okD(1) [OF soundD(4) [OF so]]], of None c]
    obtain r where pr: "pivot_row tab None 1 c = Some r"
      using False manifestly_unbounded(1) [OF pl c] sp by (cases "pivot_row tab None 1 c") auto
    obtain k t where piv: "isl_tab_pivot tab r c = (k, t)" by fastforce
    note cp = col_pivot [OF so c ok disjI1 [OF refl] pr piv]
    obtain row where row: "live_row t v row" using cp(5) by auto
    have st: "sound t" using cp(2) by (simp add: reach_def)
    have "at_least_one tab v = at_least_one_loop t v"
      using False cp(1) pr piv live_col_index [OF pl c] by (simp add: at_least_one_def to_row_def Let_def)
    moreover obtain q u where q: "at_least_one_loop t v = Some (q, u)" "reach t u" "q = (if attains t v 1 then 1 else 0)"
      using at_least_one_loop_run [OF st row cp(3)] by blast
    moreover have "v \<in> tab_vars t" using live_row_vars [OF row] live_rows_sub(2) by blast
    ultimately show ?thesis using reach_trans [OF cp(2) q(2)] attains_reach [OF cp(2)] by auto
  qed
qed

subsection \<open>The search finds the sign of the maximum\<close>

lemma reach_points: "reach tab t \<Longrightarrow> points 0 t = points 0 tab"
  by (auto simp: reach_def pivot_frame_def same_frame_def intro!: keeps_points_points)

text \<open>
  C3: the sign of the maximum.  In a sound tableau (well-formed, no big parameter, the
  redundant rows implied, no quota of operations and no abort asked for) whose sample satisfies every live
  constraint other than \<open>v\<close>, \<open>sign_of_max\<close> of a variable in a live row or column ends, for
  whatever sequence of pivots Bland's rule takes it through: it answers -1 exactly if \<open>v\<close> is
  negative at every point, 0 if its largest value is 0, 1 if it is positive at some point,
  unbounded included; the polyhedron is unchanged, and unless the answer is -1 the new
  sample satisfies every live constraint.
\<close>

theorem tab_sign_of_max_decides:
  assumes "sound tab" and "active tab v" and "ok_but tab v"
  shows "\<exists>r t. sign_of_max tab v = Some (r, t) \<and> sound t \<and> points 0 t = points 0 tab \<and>
    (0 \<le> r \<longrightarrow> sample_ok t) \<and>
    (r = -1 \<longleftrightarrow> (\<forall>x. feasible tab 0 x \<longrightarrow> x v < 0)) \<and>
    (r = 0 \<longleftrightarrow> (\<exists>x. feasible tab 0 x \<and> x v = 0) \<and> (\<forall>x. feasible tab 0 x \<longrightarrow> x v \<le> 0)) \<and>
    (r = 1 \<longleftrightarrow> (\<exists>x. feasible tab 0 x \<and> 0 < x v))"
proof -
  obtain r t where r: "sign_of_max tab v = Some (r, t)" "reach tab t" "max_sign tab v r" "0 \<le> r \<longrightarrow> sample_ok t"
    using sign_of_max_run [OF assms] by blast
  moreover have "(r = -1 \<longleftrightarrow> (\<forall>x. feasible tab 0 x \<longrightarrow> x v < 0)) \<and>
    (r = 0 \<longleftrightarrow> (\<exists>x. feasible tab 0 x \<and> x v = 0) \<and> (\<forall>x. feasible tab 0 x \<longrightarrow> x v \<le> 0)) \<and>
    (r = 1 \<longleftrightarrow> (\<exists>x. feasible tab 0 x \<and> 0 < x v))"
    using r(3) unfolding max_sign_def by (elim disjE conjE exE) (auto simp: not_less[symmetric] dest: order.strict_trans2)
  ultimately show ?thesis using reach_points [OF r(2)] by (auto simp: reach_def)
qed

lemma two_bounds_vars: "live_vars two_bounds = {-1, -2, 0}"
proof -
  have "{0..<2::nat} = {0, 1}" "{0..<1::nat} = {0}" by auto
  then show ?thesis by (auto simp: live_vars_def fst_rows col_vars_def two_bounds_def)
qed

lemma two_bounds_sound: "sound two_bounds" "active two_bounds 0" "sample_ok two_bounds"
proof -
  have "tab_M two_bounds = False" "n_redundant two_bounds = 0" "unlimited two_bounds" by (simp_all add: two_bounds_def unlimited_def)
  then show s: "sound two_bounds" using two_bounds_ok implied_no_redundant by (simp add: sound_def plain_def)
  show "active two_bounds 0" unfolding active_def live_col_def by (rule disjI2, rule exI [of _ 0]) (simp add: two_bounds_def)
  note lv = two_bounds_vars
  have "sample two_bounds (-1) = 3" "sample two_bounds (-2) = 5" "sample two_bounds 0 = 0"
    using sample_row [OF soundD(1) [OF s], of 0] sample_row [OF soundD(1) [OF s], of 1] sample_col [OF soundD(1) [OF s], of 0]
    by (simp_all add: two_bounds_def rval_def ent_def)
  then show "sample_ok two_bounds" by (simp add: sample_ok_def lv)
qed

lemma two_bounds_point: "feasible two_bounds 0 (\<lambda>v. if v = 0 then 1 else if v = -1 then 2 else 4)"
proof -
  have f: "t_row two_bounds = 2" "t_col two_bounds = 1" "row_var two_bounds = [-1, -2]" "col_var two_bounds = [0]"
    "n_dead two_bounds = 0" by (simp_all add: two_bounds_def)
  have c: "coef two_bounds 0 0 = -1" "coef two_bounds (Suc 0) 0 = -1" "rval two_bounds 0 = 3" "rval two_bounds (Suc 0) = 5"
    by (simp_all add: coef_def rval_def ent_def tab_off_def two_bounds_def)
  show ?thesis using two_bounds_vars soundD(1) [OF two_bounds_sound(1)]
    by (simp add: feasible_def sat_def row_holds_dict f all_less_2 c)
qed

theorem tab_sign_of_max_decides_witness:
  "\<exists>t. sign_of_max two_bounds 0 = Some (1, t) \<and> sound t \<and> points 0 t = points 0 two_bounds \<and> sample_ok t"
  using tab_sign_of_max_decides [OF two_bounds_sound(1,2) sample_ok_but [OF two_bounds_sound(3)]] two_bounds_point
  by fastforce

end
