(* ===== verification/Tab_Con.thy ===== *)
theory Tab_Con imports Tab_Sign begin

text \<open>
  Adding a row to the tableau (\<open>isl_tab_allocate_con\<close>, \<open>isl_tab_add_row\<close> of isl_tab.c), and
  what the row says of the points of the tableau.
\<close>

subsection \<open>Allocating a constraint\<close>

definition isl_tab_allocate_con :: "isl_tab \<Rightarrow> int \<times> isl_tab" where
  "isl_tab_allocate_con tab =
     (if \<not> t_row tab < isl_mat.n_row (tab_mat tab) then (-1, tab)
      else if \<not> n_con tab < max_con tab then (-1, tab)
      else let r = n_con tab; v = - 1 - int r;
               tab = upd_var v (\<lambda>var. var\<lparr>var_index := int (t_row tab), is_row := True, is_nonneg := False,
                       is_zero := False, is_redundant := False, is_frozen := False, is_negated := False\<rparr>) tab;
               tab = tab\<lparr>row_var := (row_var tab)[t_row tab := v]\<rparr>;
               tab = tab\<lparr>t_row := t_row tab + 1, n_con := n_con tab + 1\<rparr>;
               (ok, tab) = isl_tab_push_var tab isl_tab_undo_allocate v
           in if ok < 0 then (-1, tab) else (int r, tab))"

subsection \<open>Adding a row\<close>

text \<open>
  The term of variable \<open>i\<close> of the affine expression \<open>lin\<close>, added to \<open>row\<close>.
\<close>

definition add_row_term :: "isl_tab \<Rightarrow> isl_seq \<Rightarrow> nat \<Rightarrow> isl_seq \<Rightarrow> isl_seq" where
  "add_row_term tab lin i row =
     (let var = tab_var tab ! i
      in if is_zero var then row
         else let row =
                (if is_row var then
                   let p = mat_row (tab_mat tab) ! nat (var_index var);
                       a = row ! 0;
                       row = row[0 := isl_int_lcm (row ! 0) (p ! 0)];
                       a = isl_int_divexact (row ! 0) a;
                       b = isl_int_divexact (row ! 0) (p ! 0);
                       b = b * lin ! (1 + i)
                   in at_off 1 (\<lambda>q. isl_seq_combine_inplace q a b (drop 1 p) (tab_off tab - 1 + t_col tab)) row
                 else row[tab_off tab + nat (var_index var) :=
                          row ! (tab_off tab + nat (var_index var)) + lin ! (1 + i) * row ! 0])
              in if tab_M tab \<and> n_param tab \<le> i \<and> i < n_var tab - n_div tab
                 then row[2 := row ! 2 - lin ! (1 + i) * row ! 0] else row)"

definition add_row_seq :: "isl_tab \<Rightarrow> isl_seq \<Rightarrow> isl_seq \<Rightarrow> isl_seq" where
  "add_row_seq tab lin row =
     (let row = row[0 := 1];
          row = row[1 := lin ! 0];
          row = at_off 2 (\<lambda>q. isl_seq_clr q (tab_off tab - 2 + t_col tab)) row;
          row = for_range 0 (n_var tab) (add_row_term tab lin) row
      in isl_seq_normalize row (tab_off tab + t_col tab))"

definition isl_tab_add_row :: "isl_tab \<Rightarrow> isl_seq \<Rightarrow> int \<times> isl_tab" where
  "isl_tab_add_row tab lin =
     (let (r, tab) = isl_tab_allocate_con tab
      in if r < 0 then (-1, tab)
         else let row = index_of tab (- 1 - r);
                  tab = upd_tab_rows (\<lambda>rs. upd_row rs row (add_row_seq tab lin)) tab;
                  tab = tab\<lparr>row_sign := map_option (\<lambda>s. s[row := isl_tab_row_unknown]) (row_sign tab)\<rparr>
              in (r, tab))"


subsection \<open>What the new row says\<close>

text \<open>The variables that are not zero have a row or a column.\<close>

definition located :: "isl_tab \<Rightarrow> bool" where
  "located tab \<longleftrightarrow> (\<forall>i < n_var tab. \<not> is_zero (var_from_index tab (int i)) \<longrightarrow> int i \<in> tab_vars tab)"

lemma var_from_index_var: "var_from_index tab (int i) = tab_var tab ! i"
  by (simp add: var_from_index_def)

lemma tab_vars_cases:
  assumes "tab_ok tab" "v \<in> tab_vars tab"
  obtains (row) r where "r < t_row tab" "row_var tab ! r = v" "at_row tab v r"
  | (col) c where "c < t_col tab" "col_var tab ! c = v" "at_col tab v c"
  using assms(2) tab_indexD(2,4) [OF tab_okD(2) [OF assms(1)]]
  unfolding tab_vars_def fst_rows col_vars_def by auto

lemma add_row_term_length [simp]: "length (add_row_term tab lin i row) = length row"
  by (simp add: add_row_term_def Let_def length_at_off seq_simps)

text \<open>The value of an affine expression at a point, a variable that is zero being left out.\<close>

definition line_value :: "isl_tab \<Rightarrow> isl_seq \<Rightarrow> (int \<Rightarrow> rat) \<Rightarrow> nat \<Rightarrow> rat" where
  "line_value tab lin x n = of_int (lin ! 0) +
     (\<Sum>i<n. of_int (lin ! (1 + i)) * (if is_zero (var_from_index tab (int i)) then 0 else x (int i)))"

lemma row_sum_upd:
  assumes "1 \<le> c" "c < m" "m \<le> length p"
  shows "row_sum m (p[c := p ! c + d]) y = row_sum m p y + of_int d * y c"
proof -
  have "(\<Sum>k\<in>{1..<m} - {c}. of_int (p[c := p ! c + d] ! k) * y k) = (\<Sum>k\<in>{1..<m} - {c}. of_int (p ! k) * y k)"
    by (rule sum.cong) auto
  then show ?thesis
    using assms by (simp add: row_sum_split [OF assms(1,2)] distrib_right)
qed

lemma row_sum_zeroth: "row_sum m (p[0 := d]) y = row_sum m p y"
  unfolding row_sum_def by (rule sum.cong) auto

lemma row_sum_combine:
  assumes m: "1 \<le> m" "m \<le> length p" "m \<le> length s"
  shows "row_sum m (at_off 1 (\<lambda>q. isl_seq_combine_inplace q a b (drop 1 s) (m - 1)) p) y =
    of_int a * row_sum m p y + of_int b * row_sum m s y"
proof -
  have "(\<Sum>k=1..<m. of_int (at_off 1 (\<lambda>q. isl_seq_combine_inplace q a b (drop 1 s) (m - 1)) p ! k) * y k) =
      (\<Sum>k=1..<m. of_int a * (of_int (p ! k) * y k) + of_int b * (of_int (s ! k) * y k))"
  proof (rule sum.cong [OF refl])
    fix k assume k: "k \<in> {1..<m}"
    then show "of_int (at_off 1 (\<lambda>q. isl_seq_combine_inplace q a b (drop 1 s) (m - 1)) p ! k) * y k =
        of_int a * (of_int (p ! k) * y k) + of_int b * (of_int (s ! k) * y k)"
      using m by (cases k) (auto simp: nth_at_off isl_seq_combine_inplace_nth algebra_simps)
  qed
  then show ?thesis by (simp add: row_sum_def sum.distrib sum_distrib_left)
qed


text \<open>One term, and the loop.\<close>

definition row_says :: "isl_tab \<Rightarrow> isl_seq \<Rightarrow> (int \<Rightarrow> rat) \<Rightarrow> rat \<Rightarrow> bool" where
  "row_says tab p x z \<longleftrightarrow> tab_off tab + t_col tab \<le> length p \<and> 0 < p ! 0 \<and>
     row_sum (tab_off tab + t_col tab) p (colval tab 0 x) = of_int (p ! 0) * z"

lemma add_row_term_says:
  assumes ok: "tab_ok tab" and M: "\<not> tab_M tab" and loc: "located tab" and i: "i < n_var tab" and x: "sat tab 0 x"
    and p: "row_says tab row x z"
  shows "row_says tab (add_row_term tab lin i row) x
    (z + of_int (lin ! (1 + i)) * (if is_zero (var_from_index tab (int i)) then 0 else x (int i)))"
proof (cases "is_zero (tab_var tab ! i)")
  case True
  then show ?thesis using p by (simp add: add_row_term_def var_from_index_var)
next
  case False
  let ?m = "tab_off tab + t_col tab" and ?v = "tab_var tab ! i" and ?y = "colval tab 0 x" and ?l = "lin ! (1 + i)"
  have p': "?m \<le> length row" "0 < row ! 0" "row_sum ?m row ?y = of_int (row ! 0) * z" using p by (simp_all add: row_says_def)
  have m: "1 \<le> ?m" "0 < length row" using tab_off_ge(2) [of tab] p'(1) by linarith+
  have "int i \<in> tab_vars tab" using loc i False by (simp add: located_def var_from_index_var)
  with ok show ?thesis
  proof (cases rule: tab_vars_cases)
    case (row r)
    let ?s = "mat_row (tab_mat tab) ! r"
    have v: "is_row ?v" "nat (var_index ?v) = r" using row(3) by (simp_all add: at_row_def var_from_index_var)
    have s0: "0 < ?s ! 0" using tab_okD(3) [OF ok row(1)] .
    have s: "row_sum ?m ?s ?y = of_int (?s ! 0) * x (int i)" "?m \<le> length ?s"
      using x row(1,2) tab_shapeD(2) [OF tab_okD(1) [OF ok] row(1)] by (auto simp: sat_def row_holds_def row_eq_def)
    define g where "g = isl_int_lcm (row ! 0) (?s ! 0)"
    define a b where "a = isl_int_divexact g (row ! 0)" and "b = isl_int_divexact g (?s ! 0)"
    have g: "0 < g" "row ! 0 * a = g" "?s ! 0 * b = g"
      using p'(2) s0 isl_int_divexact_eq [of "row ! 0" g] isl_int_divexact_eq [of "?s ! 0" g]
      by (auto simp: g_def a_def b_def isl_int_lcm_def lcm_pos_int)
    let ?p = "row[0 := g]"
    have t: "add_row_term tab lin i row = at_off 1 (\<lambda>q. isl_seq_combine_inplace q a (b * ?l) (drop 1 ?s) (?m - 1)) ?p"
      using False v M m(2) tab_off_ge(1) [of tab] by (simp add: add_row_term_def Let_def g_def a_def b_def)
    have "row_sum ?m (add_row_term tab lin i row) ?y = of_int a * row_sum ?m row ?y + of_int (b * ?l) * row_sum ?m ?s ?y"
      unfolding t using row_sum_combine [OF m(1), of ?p ?s a "b * ?l" ?y] p'(1) s(2) by (simp add: row_sum_zeroth)
    also have "\<dots> = of_int (row ! 0 * a) * z + of_int ?l * (of_int (?s ! 0 * b) * x (int i))"
      unfolding p'(3) s(1) by (simp add: mult_ac)
    also have "\<dots> = of_int g * (z + of_int ?l * x (int i))" unfolding g(2,3) by (simp add: algebra_simps)
    finally have "row_sum ?m (add_row_term tab lin i row) ?y = of_int g * (z + of_int ?l * x (int i))" .
    moreover have "add_row_term tab lin i row ! 0 = g"
      unfolding t using m(2) by (subst nth_at_off) (auto simp: Suc_le_eq)
    ultimately show ?thesis using False p'(1) g(1) by (simp add: row_says_def var_from_index_var)
  next
    case (col c)
    have v: "\<not> is_row ?v" "nat (var_index ?v) = c" using col(3) by (simp_all add: at_col_def var_from_index_var)
    have c: "1 \<le> tab_off tab + c" "tab_off tab + c < ?m" "0 \<noteq> tab_off tab + c" using col(1) tab_off_ge(2) [of tab] by linarith+
    have t: "add_row_term tab lin i row = row[tab_off tab + c := row ! (tab_off tab + c) + ?l * row ! 0]"
      using False v M by (simp add: add_row_term_def Let_def)
    have y: "?y (tab_off tab + c) = x (int i)" using col(2) colval_at [of tab 0 x c] by simp
    have "row_sum ?m (add_row_term tab lin i row) ?y = of_int (row ! 0) * z + of_int (?l * row ! 0) * x (int i)"
      unfolding t row_sum_upd [OF c(1,2) p'(1)] y p'(3) ..
    also have "\<dots> = of_int (row ! 0) * (z + of_int ?l * x (int i))" by (simp add: algebra_simps)
    finally have "row_sum ?m (add_row_term tab lin i row) ?y = of_int (row ! 0) * (z + of_int ?l * x (int i))" .
    moreover have "add_row_term tab lin i row ! 0 = row ! 0" using c(3) by (simp add: t)
    ultimately show ?thesis using False p'(1,2) by (simp add: row_says_def var_from_index_var)
  qed
qed

lemma add_row_seq_length [simp]: "length (add_row_seq tab lin row) = length row"
proof -
  have "length (for_range 0 n (add_row_term tab lin) q) = length q" for n q
    by (rule for_range_induct [where P = "\<lambda>i t. length t = length q"]) auto
  then show ?thesis by (simp add: add_row_seq_def Let_def length_at_off seq_simps)
qed

lemma add_row_seq_says:
  assumes ok: "tab_ok tab" and M: "\<not> tab_M tab" and loc: "located tab" and x: "sat tab 0 x"
    and len: "tab_off tab + t_col tab \<le> length row"
  shows "row_says tab (add_row_seq tab lin row) x (line_value tab lin x (n_var tab))"
proof -
  let ?m = "tab_off tab + t_col tab" and ?y = "colval tab 0 x"
  define p where "p = at_off 2 (\<lambda>q. isl_seq_clr q (tab_off tab - 2 + t_col tab)) ((row[0 := 1])[1 := lin ! 0])"
  define q where "q = for_range 0 (n_var tab) (add_row_term tab lin) p"
  have m: "2 \<le> ?m" using tab_off_ge(1) [of tab] by linarith
  have lr: "2 \<le> length row" "row \<noteq> []" using m len by (linarith, auto)
  have p: "p ! k = (if k = 0 then 1 else if k = 1 then lin ! 0 else 0)" if "k < ?m" for k
    using that lr len tab_off_ge(1) [of tab] by (auto simp: p_def nth_at_off seq_simps)
  have "0 < ?m" using m by linarith
  then have p0: "p ! 0 = 1" using p [of 0] by simp
  have "row_sum ?m p ?y = (\<Sum>k\<in>{1..<?m}. if k = 1 then of_int (lin ! 0) else 0)"
    unfolding row_sum_def by (rule sum.cong) (auto simp: p colval_def)
  also have "\<dots> = of_int (lin ! 0)" using m by (simp add: sum.delta)
  finally have "row_sum ?m p ?y = of_int (lin ! 0)" .
  moreover have "length p = length row" by (simp add: p_def length_at_off seq_simps)
  ultimately have start: "row_says tab p x (line_value tab lin x 0)"
    using p0 len by (simp add: row_says_def line_value_def)
  have "row_says tab q x (line_value tab lin x (n_var tab))"
    unfolding q_def
  proof (rule for_range_induct [where P = "\<lambda>i t. row_says tab t x (line_value tab lin x i)"])
    fix i t assume "i < n_var tab" "row_says tab t x (line_value tab lin x i)"
    from add_row_term_says [OF ok M loc this(1) x this(2)]
    show "row_says tab (add_row_term tab lin i t) x (line_value tab lin x (Suc i))"
      by (simp add: line_value_def add.assoc)
  qed (use start in auto)
  then have q: "?m \<le> length q" "0 < q ! 0" "row_sum ?m q ?y = of_int (q ! 0) * line_value tab lin x (n_var tab)"
    by (simp_all add: row_says_def)
  have "0 < ?m" "q ! 0 \<noteq> 0" using m q(2) by auto
  from normalize_scale [OF q(1) this] obtain g where
    g: "0 < g" "\<And>k. k < ?m \<Longrightarrow> q ! k = g * isl_seq_normalize q ?m ! k" by metis
  let ?r = "isl_seq_normalize q ?m"
  note q0 = g(2) [OF \<open>0 < ?m\<close>]
  have r0: "0 < ?r ! 0" using q0 g(1) q(2) by (simp add: zero_less_mult_iff)
  have "row_sum ?m q ?y = of_int g * row_sum ?m ?r ?y"
    unfolding row_sum_def sum_distrib_left by (rule sum.cong) (auto simp: g(2))
  then have "of_int g * row_sum ?m ?r ?y = of_int (g * ?r ! 0) * line_value tab lin x (n_var tab)"
    unfolding q0 [symmetric] q(3) [symmetric] by (rule sym)
  then have "of_int g * row_sum ?m ?r ?y = of_int g * (of_int (?r ! 0) * line_value tab lin x (n_var tab))"
    by (simp only: of_int_mult mult.assoc)
  then have "row_sum ?m ?r ?y = of_int (?r ! 0) * line_value tab lin x (n_var tab)" using g(1) by simp
  moreover have "add_row_seq tab lin row = ?r" by (simp add: add_row_seq_def Let_def q_def p_def)
  moreover have "length ?r = length q" by (simp add: seq_simps)
  ultimately show ?thesis using q(1) r0 by (simp add: row_says_def)
qed


subsection \<open>A tableau with one more row\<close>

definition grow :: "isl_tab \<Rightarrow> isl_seq \<Rightarrow> isl_tab_var \<Rightarrow> isl_tab" where
  "grow tab p u = tab\<lparr>tab_con := (tab_con tab)[n_con tab := u], row_var := (row_var tab)[t_row tab := - 1 - int (n_con tab)],
     t_row := t_row tab + 1, n_con := n_con tab + 1,
     tab_mat := (tab_mat tab)\<lparr>mat_row := (mat_row (tab_mat tab))[t_row tab := p]\<rparr>\<rparr>"

definition room :: "isl_tab \<Rightarrow> bool" where
  "room tab \<longleftrightarrow> t_row tab < isl_mat.n_row (tab_mat tab) \<and> n_con tab < max_con tab \<and>
     max_con tab \<le> length (tab_con tab) \<and> isl_mat.n_row (tab_mat tab) \<le> length (row_var tab)"

lemma grow_simps [simp]:
  "t_row (grow tab p u) = t_row tab + 1" "n_con (grow tab p u) = n_con tab + 1" "t_col (grow tab p u) = t_col tab"
  "n_dead (grow tab p u) = n_dead tab" "n_redundant (grow tab p u) = n_redundant tab" "col_var (grow tab p u) = col_var tab"
  "tab_M (grow tab p u) = tab_M tab" "n_var (grow tab p u) = n_var tab" "tab_off (grow tab p u) = tab_off tab"
  "row_var (grow tab p u) = (row_var tab)[t_row tab := - 1 - int (n_con tab)]"
  "mat_row (tab_mat (grow tab p u)) = (mat_row (tab_mat tab))[t_row tab := p]"
  "op_limit (grow tab p u) = op_limit tab" "col_vars (grow tab p u) = col_vars tab"
  "tab_var (grow tab p u) = tab_var tab" "colval (grow tab p u) = colval tab"
  by (simp_all add: grow_def tab_off_def col_vars_def colval_def fun_eq_iff)

text \<open>The code of the next constraint; \<open>p\<close> is its row, \<open>u\<close> its variable.\<close>

abbreviation new_con :: "isl_tab \<Rightarrow> int" where
  "new_con tab \<equiv> - 1 - int (n_con tab)"

definition new_row :: "isl_tab \<Rightarrow> isl_seq \<Rightarrow> isl_tab_var \<Rightarrow> bool" where
  "new_row tab p u \<longleftrightarrow> tab_ok tab \<and> room tab \<and> 0 < p ! 0 \<and> isl_mat.n_col (tab_mat tab) \<le> length p \<and>
     is_row u \<and> var_index u = int (t_row tab)"

lemma new_rowD:
  assumes "new_row tab p u"
  shows "tab_ok tab" "0 < p ! 0" "is_row u" "var_index u = int (t_row tab)"
    and "t_row tab < length (row_var tab)" "n_con tab < length (tab_con tab)" "t_row tab < length (mat_row (tab_mat tab))"
  using assms tab_okD(1) [of tab] by (auto simp: new_row_def room_def tab_shape_def mat_ok_def)

lemma grow_code: "tab_code (grow tab p u) w \<longleftrightarrow> tab_code tab w \<or> w = new_con tab"
  by (auto simp: tab_code_def)

lemma new_con_code: "\<not> tab_code tab (new_con tab)"
  by (simp add: tab_code_def)

lemma new_con_vars: "tab_ok tab \<Longrightarrow> new_con tab \<notin> tab_vars tab"
  using tab_vars_code new_con_code by blast

lemma grow_var:
  assumes "new_row tab p u"
  shows "tab_code tab w \<Longrightarrow> var_from_index (grow tab p u) w = var_from_index tab w"
    and "var_from_index (grow tab p u) (new_con tab) = u"
    and "w \<in> tab_vars tab \<Longrightarrow> nonneg (grow tab p u) w = nonneg tab w"
    and "nonneg (grow tab p u) (new_con tab) = is_nonneg u"
proof -
  show old: "tab_code tab w \<Longrightarrow> var_from_index (grow tab p u) w = var_from_index tab w" for w
    using new_rowD(6) [OF assms] by (auto simp: grow_def var_from_index_def tab_code_def nth_list_update split: if_splits)
  show new: "var_from_index (grow tab p u) (new_con tab) = u"
    using new_rowD(6) [OF assms] by (simp add: grow_def var_from_index_def)
  show "w \<in> tab_vars tab \<Longrightarrow> nonneg (grow tab p u) w = nonneg tab w"
    using old tab_vars_code [OF new_rowD(1) [OF assms]] by (simp add: nonneg_def)
  show "nonneg (grow tab p u) (new_con tab) = is_nonneg u" using new by (simp add: nonneg_def)
qed

lemma grow_rows:
  assumes "new_row tab p u"
  shows "tab_rows (grow tab p u) = insert (new_con tab, p) (tab_rows tab)"
    and "live_rows (grow tab p u) = insert (new_con tab, p) (live_rows tab)"
    and "tab_vars (grow tab p u) = insert (new_con tab) (tab_vars tab)"
    and "live_vars (grow tab p u) = insert (new_con tab) (live_vars tab)"
proof -
  note l = new_rowD [OF assms]
  have "{m..<Suc (t_row tab)} = insert (t_row tab) {m..<t_row tab}" if "m \<le> t_row tab" for m using that by auto
  note ivl = this [OF le0] this [OF tab_shapeD(5) [OF tab_okD(1) [OF l(1)]]]
  have same: "(\<lambda>r. ((row_var tab)[t_row tab := new_con tab] ! r, (mat_row (tab_mat tab))[t_row tab := p] ! r)) ` {m..<t_row tab}
      = (\<lambda>r. (row_var tab ! r, mat_row (tab_mat tab) ! r)) ` {m..<t_row tab}" for m
    by (rule image_cong) auto
  show r: "tab_rows (grow tab p u) = insert (new_con tab, p) (tab_rows tab)"
    "live_rows (grow tab p u) = insert (new_con tab, p) (live_rows tab)"
    unfolding tab_rows_def live_rows_def grow_simps Suc_eq_plus1 [symmetric] ivl image_insert same using l(5,7) by simp_all
  show "tab_vars (grow tab p u) = insert (new_con tab) (tab_vars tab)"
    "live_vars (grow tab p u) = insert (new_con tab) (live_vars tab)"
    by (simp_all add: tab_vars_def live_vars_def r)
qed

lemma grow_ok:
  assumes nr: "new_row tab p u"
  shows "tab_ok (grow tab p u)"
proof -
  note l = new_rowD [OF nr]
  note sh = tab_okD(1) [OF l(1)] and ix = tab_okD(2) [OF l(1)]
  have "tab_shape (grow tab p u)"
    using sh nr by (auto simp: new_row_def tab_shape_def room_def mat_ok_def nth_list_update grow_def tab_off_def)
  moreover have "tab_index (grow tab p u)"
    unfolding tab_index_def
  proof (intro conjI allI impI)
    fix r assume "r < t_row (grow tab p u)"
    then have r: "r < t_row tab \<or> r = t_row tab" by auto
    then show "tab_code (grow tab p u) (row_var (grow tab p u) ! r)" using tab_indexD(1) [OF ix] l(5) by (auto simp: grow_code)
    show "at_row (grow tab p u) (row_var (grow tab p u) ! r) r"
      using r tab_indexD(1,2) [OF ix, of r] l grow_var(1,2) [OF nr] by (auto simp: at_row_def)
  next
    fix c assume "c < t_col (grow tab p u)"
    then show "tab_code (grow tab p u) (col_var (grow tab p u) ! c)" "at_col (grow tab p u) (col_var (grow tab p u) ! c) c"
      using tab_indexD(3,4) [OF ix, of c] grow_var(1) [OF nr] by (auto simp: grow_code at_col_def)
  next
    fix w assume "tab_code (grow tab p u) w"
    then consider "w = new_con tab" | "tab_code tab w" by (auto simp: grow_code)
    then show "var_index (var_from_index (grow tab p u) w) = - 1 \<or> (\<exists>r<t_row (grow tab p u). row_var (grow tab p u) ! r = w) \<or>
        (\<exists>c<t_col (grow tab p u). col_var (grow tab p u) ! c = w)"
    proof cases
      case 1
      then show ?thesis using l(5) by (auto intro!: exI [of _ "t_row tab"])
    next
      case 2
      have "row_var (grow tab p u) ! r = row_var tab ! r" if "r < t_row tab" for r using that by simp
      then show ?thesis using tab_indexD(5) [OF ix 2] grow_var(1) [OF nr 2] by (fastforce intro: less_SucI simp del: grow_simps(10))
    qed
  qed
  moreover have "0 < tent (grow tab p u) r 0" if "r < t_row (grow tab p u)" for r
    using that l(2,7) tab_okD(3) [OF l(1), of r] by (auto simp: ent_def nth_list_update less_Suc_eq)
  ultimately show ?thesis by (simp add: tab_ok_def)
qed

lemma grow_feasible:
  assumes nr: "new_row tab p u"
  shows "feasible (grow tab p u) M x \<longleftrightarrow> feasible tab M x \<and>
     row_eq (tab_off tab + t_col tab) p (x (new_con tab)) (colval tab M x) \<and> (is_nonneg u \<longrightarrow> 0 \<le> x (new_con tab))"
proof -
  have "nonneg (grow tab p u) w = nonneg tab w" if "w \<in> live_vars tab" for w
    using grow_var(3) [OF nr] that live_rows_sub(2) by blast
  then show ?thesis by (auto simp: feasible_def sat_rows grow_rows [OF nr] grow_var(4) [OF nr])
qed

lemma grow_implied: "new_row tab p u \<Longrightarrow> implied tab M \<Longrightarrow> implied (grow tab p u) M"
  using grow_var(3,4) by (auto simp: implied_def grow_feasible grow_rows)

lemma grow_sample:
  assumes nr: "new_row tab p u" and "w \<in> tab_vars tab"
  shows "sample (grow tab p u) w = sample tab w"
  using new_rowD(1) [OF nr] assms(2)
proof (cases rule: tab_vars_cases)
  case (row r)
  then show ?thesis
    using grow_var(1) [OF nr, of w] tab_vars_code [OF new_rowD(1) [OF nr] assms(2)]
    by (simp add: sample_def sol_def at_row_def rval_def coef_def ent_def)
next
  case (col c)
  then show ?thesis
    using grow_var(1) [OF nr, of w] tab_vars_code [OF new_rowD(1) [OF nr] assms(2)]
    by (simp add: sample_def sol_def at_col_def)
qed


subsection \<open>What adding a row does\<close>

definition new_var :: "isl_tab \<Rightarrow> isl_tab_var" where
  "new_var tab = (tab_con tab ! n_con tab)\<lparr>var_index := int (t_row tab), is_row := True, is_nonneg := False,
     is_zero := False, is_redundant := False, is_frozen := False, is_negated := False\<rparr>"

text \<open>The counters, the undo stack and the signs of the rows, which do not matter for the points.\<close>

definition aside :: "isl_tab \<Rightarrow> isl_tab \<Rightarrow> isl_tab" where
  "aside t s = t\<lparr>operations := operations s, tab_undo := tab_undo s, row_sign := row_sign s\<rparr>"

lemma aside_frame:
  "var_from_index (aside t s) = var_from_index t" "tab_ok (aside t s) = tab_ok t" "feasible (aside t s) = feasible t"
  "implied (aside t s) = implied t" "tab_vars (aside t s) = tab_vars t" "tab_rows (aside t s) = tab_rows t"
  "live_rows (aside t s) = live_rows t" "live_vars (aside t s) = live_vars t" "col_vars (aside t s) = col_vars t"
  "nonneg (aside t s) = nonneg t" "tab_off (aside t s) = tab_off t" "tab_code (aside t s) = tab_code t"
  "sample (aside t s) = sample t" "same_frame t (aside t s)" "t_row (aside t s) = t_row t"
  "row_var (aside t s) = row_var t" "n_redundant (aside t s) = n_redundant t" "tab_mat (aside t s) = tab_mat t"
proof -
  have f: "tab_mat (aside t s) = tab_mat t" "t_row (aside t s) = t_row t" "t_col (aside t s) = t_col t" "n_dead (aside t s) = n_dead t"
    "n_redundant (aside t s) = n_redundant t" "n_var (aside t s) = n_var t" "n_con (aside t s) = n_con t" "row_var (aside t s) = row_var t"
    "col_var (aside t s) = col_var t" "tab_M (aside t s) = tab_M t" "tab_var (aside t s) = tab_var t" "tab_con (aside t s) = tab_con t"
    by (simp_all add: aside_def)
  note fr = tab_frame [OF f]
  show "var_from_index (aside t s) = var_from_index t" "tab_ok (aside t s) = tab_ok t" "feasible (aside t s) = feasible t"
    "implied (aside t s) = implied t" "tab_vars (aside t s) = tab_vars t" "tab_rows (aside t s) = tab_rows t"
    "live_rows (aside t s) = live_rows t" "live_vars (aside t s) = live_vars t" "col_vars (aside t s) = col_vars t"
    "nonneg (aside t s) = nonneg t" "tab_off (aside t s) = tab_off t" "tab_code (aside t s) = tab_code t"
    using fr by (auto simp: fun_eq_iff)
  show "same_frame t (aside t s)" by (simp add: aside_def same_frame_def)
  show "sample (aside t s) = sample t"
    by (simp add: sample_def sol_def rval_def coef_def fun_eq_iff fr(1,11) f(1,3) ent_def)
  show "t_row (aside t s) = t_row t" "row_var (aside t s) = row_var t" "n_redundant (aside t s) = n_redundant t"
    "tab_mat (aside t s) = tab_mat t" by (rule f)+
qed

lemma add_row_term_cong:
  assumes "tab_var t = tab_var tab" "tab_mat t = tab_mat tab" "tab_off t = tab_off tab" "t_col t = t_col tab"
    "tab_M t = tab_M tab" "n_param t = n_param tab" "n_var t = n_var tab" "n_div t = n_div tab"
  shows "add_row_term t = add_row_term tab" "add_row_seq t = add_row_seq tab"
proof -
  show *: "add_row_term t = add_row_term tab" by (intro ext) (simp only: add_row_term_def assms)
  show "add_row_seq t = add_row_seq tab" by (intro ext) (simp only: add_row_seq_def assms *)
qed

lemma allocate_con_run:
  assumes "room tab" "unlimited tab"
  shows "\<exists>s. isl_tab_allocate_con tab = (int (n_con tab),
    aside (tab\<lparr>tab_con := (tab_con tab)[n_con tab := new_var tab], row_var := (row_var tab)[t_row tab := new_con tab],
      t_row := t_row tab + 1, n_con := n_con tab + 1\<rparr>) s)"
proof -
  let ?t = "tab\<lparr>tab_con := (tab_con tab)[n_con tab := new_var tab], row_var := (row_var tab)[t_row tab := new_con tab],
      t_row := t_row tab + 1, n_con := n_con tab + 1\<rparr>"
  have u: "upd_var (new_con tab) (\<lambda>var. var\<lparr>var_index := int (t_row tab), is_row := True, is_nonneg := False,
      is_zero := False, is_redundant := False, is_frozen := False, is_negated := False\<rparr>) tab
    = tab\<lparr>tab_con := (tab_con tab)[n_con tab := new_var tab]\<rparr>"
    by (simp add: upd_var_def new_var_def)
  have "unlimited ?t" using assms(2) by (simp add: unlimited_def)
  then have ps: "fst (isl_tab_push_var ?t isl_tab_undo_allocate (new_con tab)) = 0" by (rule push_unlimited)
  have a: "snd (isl_tab_push_var ?t isl_tab_undo_allocate (new_con tab)) = aside ?t (snd (isl_tab_push_var ?t isl_tab_undo_allocate (new_con tab)))"
    by (simp add: aside_def isl_tab_push_var_def push_union_def isl_ctx_next_operation_def)
  have "isl_tab_allocate_con tab =
      (case isl_tab_push_var ?t isl_tab_undo_allocate (new_con tab) of (ok, t) \<Rightarrow> if ok < 0 then (-1, t) else (int (n_con tab), t))"
    using assms(1) by (simp add: isl_tab_allocate_con_def room_def Let_def u)
  also have "\<dots> = (int (n_con tab), snd (isl_tab_push_var ?t isl_tab_undo_allocate (new_con tab)))"
    using ps by (simp add: case_prod_beta)
  finally show ?thesis using a by metis
qed

lemma add_row_run:
  assumes ok: "tab_ok tab" and rm: "room tab" and un: "unlimited tab"
    and p: "p = add_row_seq tab lin (mat_row (tab_mat tab) ! t_row tab)"
  shows "\<exists>s. isl_tab_add_row tab lin = (int (n_con tab), aside (grow tab p (new_var tab)) s)"
proof -
  let ?t = "tab\<lparr>tab_con := (tab_con tab)[n_con tab := new_var tab], row_var := (row_var tab)[t_row tab := new_con tab],
      t_row := t_row tab + 1, n_con := n_con tab + 1\<rparr>"
  obtain s where s: "isl_tab_allocate_con tab = (int (n_con tab), aside ?t s)" using allocate_con_run [OF rm un] by blast
  have lc: "n_con tab < length (tab_con tab)" using rm by (simp add: room_def)
  have ix: "index_of (aside ?t s) (new_con tab) = t_row tab"
    using lc by (simp add: var_from_index_def aside_def new_var_def)
  have sq: "add_row_seq (aside ?t s) = add_row_seq tab"
    by (rule add_row_term_cong) (simp_all add: aside_def tab_off_def)
  let ?q = "upd_tab_rows (\<lambda>rs. upd_row rs (t_row tab) (add_row_seq tab lin)) (aside ?t s)"
  let ?r = "?q\<lparr>row_sign := map_option (\<lambda>s. s[t_row tab := isl_tab_row_unknown]) (row_sign ?q)\<rparr>"
  have "isl_tab_add_row tab lin = (int (n_con tab), ?r)"
    unfolding isl_tab_add_row_def s Let_def case_prod_conv ix sq by simp
  moreover have "?r = aside (grow tab p (new_var tab)) ?r"
    by (simp add: aside_def grow_def upd_tab_rows_def upd_row_def p)
  ultimately show ?thesis by metis
qed

end
