(* ===== verification/Tab_Ineq.thy ===== *)
theory Tab_Ineq imports Tab_Con begin

text \<open>
  Adding an inequality (\<open>isl_tab_add_ineq\<close> of isl_tab.c): the points it leaves, and that the
  tableau is marked empty exactly if there are none.
\<close>

subsection \<open>The operation\<close>

definition mark_redundant_con :: "isl_tab \<Rightarrow> int \<Rightarrow> int \<times> isl_tab" where
  "mark_redundant_con tab v =
     (let (redo, tab) = isl_tab_mark_redundant tab (index_of tab v) in (if redo < 0 then -1 else 0, tab))"

text \<open>The row of the inequality is \<open>v\<close>; what is left to do when it is non-negative.\<close>

definition check_ineq :: "isl_tab \<Rightarrow> int \<Rightarrow> (int \<times> isl_tab) option" where
  "check_ineq tab v =
     (if isl_tab_row_is_redundant tab (index_of tab v) then Some (mark_redundant_con tab v)
      else case restore_row tab v of
             None \<Rightarrow> None
           | Some (sg, tab) \<Rightarrow>
               if sg < -1 then Some (-1, tab)
               else if sg < 0 then Some (isl_tab_mark_empty tab)
               else if is_row (var_from_index tab v) \<and> isl_tab_row_is_redundant tab (index_of tab v)
               then Some (mark_redundant_con tab v)
               else Some (0, tab))"

text \<open>The function on a tableau that tracks no basic map (\<open>tab->bmap\<close> is \<open>NULL\<close>).\<close>

definition isl_tab_add_ineq :: "isl_tab \<Rightarrow> isl_seq \<Rightarrow> (int \<times> isl_tab) option" where
  "isl_tab_add_ineq tab ineq =
     (let (r, tab) = isl_tab_add_row tab (if tab_cone tab then ineq[0 := 0] else ineq)
      in if r < 0 then Some (-1, tab)
         else let v = - 1 - r;
                  tab = upd_var v (\<lambda>var. var\<lparr>is_nonneg := True\<rparr>) tab;
                  (ok, tab) = isl_tab_push_var tab isl_tab_undo_nonneg v
              in if ok < 0 then Some (-1, tab) else check_ineq tab v)"

subsection \<open>The points of an expression\<close>

definition affine :: "isl_seq \<Rightarrow> rat list \<Rightarrow> rat" where
  "affine lin p = of_int (lin ! 0) + (\<Sum>i<length p. of_int (lin ! (1 + i)) * p ! i)"

text \<open>The values of the variables.\<close>

definition point :: "isl_tab \<Rightarrow> (int \<Rightarrow> rat) \<Rightarrow> rat list" where
  "point tab x = map (\<lambda>i. if int i \<in> tab_vars tab then x (int i) else 0) [0..<n_var tab]"

lemma points_point: "points M tab = point tab ` {x. feasible tab M x}"
  by (auto simp: points_def point_def)

text \<open>What \<open>is_zero\<close> means for the variables.\<close>

definition zeros :: "isl_tab \<Rightarrow> bool" where
  "zeros tab \<longleftrightarrow> located tab \<and>
     (\<forall>x. feasible tab 0 x \<longrightarrow> (\<forall>i < n_var tab. is_zero (var_from_index tab (int i)) \<longrightarrow> int i \<in> tab_vars tab \<longrightarrow> x (int i) = 0))"

lemma line_value_affine:
  assumes "zeros tab" "feasible tab 0 x"
  shows "line_value tab lin x (n_var tab) = affine lin (point tab x)"
  unfolding line_value_def affine_def
proof (intro arg_cong2 [of _ _ _ _ "(+)"] refl)
  have "(\<Sum>i<n_var tab. of_int (lin ! (1 + i)) * (if is_zero (var_from_index tab (int i)) then 0 else x (int i))) =
      (\<Sum>i<n_var tab. of_int (lin ! (1 + i)) * (if int i \<in> tab_vars tab then x (int i) else 0))"
    using assms by (intro sum.cong) (auto simp: zeros_def located_def)
  also have "\<dots> = (\<Sum>i<length (point tab x). of_int (lin ! (1 + i)) * point tab x ! i)"
    by (rule sum.cong) (simp_all add: point_def)
  finally show "(\<Sum>i<n_var tab. of_int (lin ! (1 + i)) * (if is_zero (var_from_index tab (int i)) then 0 else x (int i))) =
      (\<Sum>i<length (point tab x). of_int (lin ! (1 + i)) * point tab x ! i)" .
qed

lemma reach_zeros:
  assumes z: "zeros tab" and r: "reach tab t"
  shows "zeros t"
proof -
  have n: "n_var t = n_var tab" using r by (simp add: reach_def pivot_frame_def same_frame_def)
  have k: "keeps_points 0 tab t" and iz: "\<And>w. tab_code tab w \<Longrightarrow> is_zero (var_from_index t w) = is_zero (var_from_index tab w)"
    using r by (simp_all add: reach_def)
  have iz': "is_zero (var_from_index t (int i)) = is_zero (var_from_index tab (int i))" if "i < n_var tab" for i
    using iz [of "int i"] that by (simp add: tab_code_def)
  have vars: "int i \<in> tab_vars t \<longleftrightarrow> int i \<in> tab_vars tab" for i using k by (auto simp: keeps_points_def)
  have "x (int i) = 0" if x: "feasible t 0 x" and i: "i < n_var t" "is_zero (var_from_index t (int i))" "int i \<in> tab_vars t" for x i
  proof -
    obtain y where "feasible tab 0 y" "y (int i) = x (int i)" using reach_feasible_back [OF r x i(3)] by blast
    with z i show ?thesis by (auto simp: zeros_def n iz' vars)
  qed
  then show ?thesis using z by (auto simp: zeros_def located_def n iz' vars)
qed

subsection \<open>Marking keeps what is reached\<close>

lemma mark_redundant_reach:
  assumes so: "sound tab" and r: "n_redundant tab \<le> r" "r < t_row tab" and red: "isl_tab_row_is_redundant tab r"
    and m: "isl_tab_mark_redundant tab r = (c, t)"
  shows "0 \<le> c" "reach tab t" "sample_ok tab \<Longrightarrow> sample_ok t"
proof -
  note pl = soundD(1) [OF so] and ok = soundD(4) [OF so]
  note mk = mark_redundant_marks [OF ok r soundD(3) [OF so] m]
  note pts = marks_points [OF ok r(2) red order_refl mk(2) soundD(2) [OF so]]
  let ?v = "row_var tab ! r"
  have b: "same_frame tab t" "live_rows t = {vp \<in> live_rows tab. fst vp \<noteq> ?v}"
    "\<And>w. tab_code tab w \<Longrightarrow> w \<noteq> ?v \<Longrightarrow> flags_kept tab t w" "is_zero (var_from_index t ?v) = is_zero (var_from_index tab ?v)"
    using mk(2) by (auto simp: marks_def)
  show "0 \<le> c" using mk(4) by auto
  have pt: "plain t" using mk(1) b(1) pl by (simp add: plain_def same_frame_def)
  have st: "sound t" using pt pts(1) soundD(3) [OF so] unlimited_frame [OF b(1)] by (simp add: sound_def)
  have vcol: "?v \<notin> col_vars tab" using tab_index_inj(3) [OF tab_okD(2) [OF ok] r(2)] by (fastforce simp: col_vars_def)
  have live: "w \<in> live_vars tab \<and> nonneg t w = nonneg tab w \<and> sample t w = sample tab w" if w: "w \<in> live_vars t" for w
  proof -
    have "live_rows t \<subseteq> live_rows tab" using b(2) by auto
    note f = fewer_rows_sample [OF pl pt b(1) this w]
    have "w \<noteq> ?v" using w b(2) vcol same_frame_off(3) [OF b(1)] by (auto simp: live_vars_def)
    moreover have "tab_code tab w" using f(1) live_rows_sub(2) tab_vars_code [OF ok] by blast
    ultimately have "flags_kept tab t w" using b(3) by simp
    with f show ?thesis by (simp add: flags_kept_def nonneg_def)
  qed
  have "is_zero (var_from_index t w) = is_zero (var_from_index tab w)" if "tab_code tab w" for w
    using b(3) [OF that] b(4) by (cases "w = ?v") (simp_all add: flags_kept_def)
  then show "reach tab t" using st pts(2) same_pivot_frame [OF b(1)] live by (simp add: reach_def)
  show "sample_ok t" if "sample_ok tab" using that live by (simp add: sample_ok_def)
qed

lemma tab_vars_card: "tab_ok tab \<Longrightarrow> card (tab_vars tab) = t_row tab + t_col tab \<and> finite (tab_vars tab)"
proof -
  assume ok: "tab_ok tab"
  note inj = tab_index_inj [OF tab_okD(2) [OF ok]]
  have "inj_on (\<lambda>r. row_var tab ! r) {0..<t_row tab}" "inj_on (\<lambda>c. col_var tab ! c) {0..<t_col tab}"
    using inj(1,2) by (auto simp: inj_on_def)
  moreover have "(\<lambda>r. row_var tab ! r) ` {0..<t_row tab} \<inter> (\<lambda>c. col_var tab ! c) ` {0..<t_col tab} = {}"
    using inj(3) by auto
  ultimately show ?thesis unfolding tab_vars_def fst_rows col_vars_def by (simp add: card_Un_disjoint card_image)
qed

lemma reach_rows: "tab_ok tab \<Longrightarrow> reach tab t \<Longrightarrow> t_row t \<le> t_row tab"
proof -
  assume ok: "tab_ok tab" and r: "reach tab t"
  then have t: "tab_ok t" "t_col t = t_col tab" "tab_vars t \<subseteq> tab_vars tab"
    using soundD(4) by (auto simp: reach_def pivot_frame_def same_frame_def keeps_points_def)
  show ?thesis using card_mono [OF _ t(3)] tab_vars_card [OF ok] tab_vars_card [OF t(1)] t(2) by simp
qed


subsection \<open>Adding an inequality\<close>

lemma add_row_new:
  assumes "sound tab" "room tab" "zeros tab" and p: "p = add_row_seq tab lin (mat_row (tab_mat tab) ! t_row tab)"
  shows "new_row tab p ((new_var tab)\<lparr>is_nonneg := b\<rparr>)"
    and "feasible tab 0 x \<Longrightarrow>
      row_eq (tab_off tab + t_col tab) p z (colval tab 0 x) \<longleftrightarrow> z = affine lin (point tab x)"
proof -
  note so = soundD [OF assms(1)]
  have M: "\<not> tab_M tab" using so(1) by (simp add: plain_def)
  have sh: "t_row tab < isl_mat.n_row (tab_mat tab)" "mat_ok (tab_mat tab)" "tab_off tab + t_col tab \<le> isl_mat.n_col (tab_mat tab)"
    using assms(2) tab_okD(1) [OF so(4)] by (simp_all add: room_def tab_shape_def)
  have len: "isl_mat.n_col (tab_mat tab) \<le> length (mat_row (tab_mat tab) ! t_row tab)" using sh by (simp add: mat_ok_def)
  have says: "row_says tab p x (line_value tab lin x (n_var tab))" if "sat tab 0 x" for x
    unfolding p using assms(3) len sh(3) by (intro add_row_seq_says [OF so(4) M _ that]) (auto simp: zeros_def)
  have "0 < p ! 0" using says [OF sample_sat [OF so(1)]] by (simp add: row_says_def)
  then show "new_row tab p ((new_var tab)\<lparr>is_nonneg := b\<rparr>)"
    using so(4) assms(2) len by (simp add: new_row_def new_var_def p)
  assume x: "feasible tab 0 x"
  then have "sat tab 0 x" by (simp add: feasible_def)
  from says [OF this] show "row_eq (tab_off tab + t_col tab) p z (colval tab 0 x) \<longleftrightarrow> z = affine lin (point tab x)"
    by (auto simp: row_says_def row_eq_def line_value_affine [OF assms(3) x])
qed

text \<open>Below the new row the tableau is as it was; the row says what the expression is.\<close>

lemma grown:
  assumes so: "sound tab" and rm: "room tab" and z: "zeros tab" and p: "p = add_row_seq tab lin (mat_row (tab_mat tab) ! t_row tab)"
    and t_def: "t = grow tab p ((new_var tab)\<lparr>is_nonneg := b\<rparr>)"
  shows "sound t" "zeros t" "live_row t (new_con tab) (t_row tab)"
    and "feasible t 0 x \<longleftrightarrow> feasible tab 0 x \<and> x (new_con tab) = affine lin (point tab x) \<and> (b \<longrightarrow> 0 \<le> x (new_con tab))"
    and "points 0 t = {q \<in> points 0 tab. b \<longrightarrow> 0 \<le> affine lin q}"
    and "sample_ok tab \<Longrightarrow> ok_but t (new_con tab)"
proof -
  note nr = add_row_new [OF so rm z p]
  note g = grow_rows [OF nr(1) [of b], folded t_def] and gv = grow_var [OF nr(1) [of b], folded t_def]
  note so' = soundD [OF so]
  show st: "sound t"
    using grow_ok [OF nr(1) [of b]] grow_implied [OF nr(1) [of b], of 0] so' by (simp add: t_def sound_def plain_def unlimited_def)
  show feas: "feasible t 0 x \<longleftrightarrow> feasible tab 0 x \<and> x (new_con tab) = affine lin (point tab x) \<and> (b \<longrightarrow> 0 \<le> x (new_con tab))" for x
    using grow_feasible [OF nr(1) [of b], of 0 x] nr(2) by (auto simp: t_def)
  have nv: "n_var t = n_var tab" by (simp add: t_def)
  have pt: "point t = point tab" by (simp add: point_def fun_eq_iff g(3) nv)
  have vars: "int i \<in> tab_vars t \<longleftrightarrow> int i \<in> tab_vars tab" for i by (simp add: g(3))
  have var: "var_from_index t (int i) = var_from_index tab (int i)" if "i < n_var tab" for i using that gv(1) by (simp add: tab_code_def)
  show "zeros t" using z by (auto simp: zeros_def located_def nv vars var feas)
  show "live_row t (new_con tab) (t_row tab)"
    using new_rowD(5) [OF nr(1)] tab_shapeD(5) [OF tab_okD(1) [OF so'(4)]] by (simp add: live_row_def t_def)
  show "points 0 t = {q \<in> points 0 tab. b \<longrightarrow> 0 \<le> affine lin q}"
  proof (rule set_eqI, rule iffI)
    fix q assume "q \<in> points 0 t"
    then show "q \<in> {q \<in> points 0 tab. b \<longrightarrow> 0 \<le> affine lin q}" by (auto simp: points_point pt feas)
  next
    fix q assume "q \<in> {q \<in> points 0 tab. b \<longrightarrow> 0 \<le> affine lin q}"
    then obtain x where x: "feasible tab 0 x" "q = point tab x" "b \<longrightarrow> 0 \<le> affine lin q" by (auto simp: points_point)
    define y where "y = x(new_con tab := affine lin q)"
    have new: "new_con tab \<notin> tab_vars tab" using new_con_vars [OF so'(4)] .
    have e: "y w = x w" if "w \<in> tab_vars tab" for w using that new by (auto simp: y_def)
    have "feasible tab 0 y" using feasible_cong [OF so'(4), of y x] e x(1) by simp
    moreover have "point tab y = q" using e by (simp add: x(2) point_def)
    ultimately have "feasible t 0 y" using x(3) by (simp add: feas) (simp add: y_def)
    with \<open>point tab y = q\<close> show "q \<in> points 0 t" by (auto simp: points_point pt)
  qed
  show "ok_but t (new_con tab)" if "sample_ok tab"
    unfolding ok_but_def
  proof (intro ballI impI)
    fix w assume w: "w \<in> live_vars t" "w \<noteq> new_con tab" "nonneg t w"
    then have l: "w \<in> live_vars tab" "w \<in> tab_vars tab" using g(4) live_rows_sub(2) by auto
    then have "nonneg tab w" using w(3) gv(3) by simp
    with l that show "0 \<le> sample t w" using grow_sample [OF nr(1) [of b]] by (simp add: sample_ok_def t_def)
  qed
qed


lemma aside_sound:
  "sound (aside t s) = sound t" "zeros (aside t s) = zeros t" "sample_ok (aside t s) = sample_ok t"
  "points M (aside t s) = points M t" "live_row (aside t s) v r = live_row t v r" "ok_but (aside t s) v = ok_but t v"
  "pivot_frame t (aside t s)"
proof -
  note f = aside_frame [of t s]
  have c: "n_var (aside t s) = n_var t" "tab_M (aside t s) = tab_M t" "op_limit (aside t s) = op_limit t"
    by (simp_all add: aside_def)
  show "sound (aside t s) = sound t" by (simp add: sound_def plain_def unlimited_def f c)
  show "zeros (aside t s) = zeros t" by (simp add: zeros_def located_def f c)
  show "sample_ok (aside t s) = sample_ok t" "ok_but (aside t s) v = ok_but t v" by (simp_all add: sample_ok_def ok_but_def f)
  show "points M (aside t s) = points M t" by (simp add: points_def f c)
  show "live_row (aside t s) v r = live_row t v r" by (simp add: live_row_def f)
  show "pivot_frame t (aside t s)" by (rule same_pivot_frame [OF f(14)])
qed

text \<open>What the emptiness mark says.\<close>

definition ready :: "isl_tab \<Rightarrow> bool" where
  "ready tab \<longleftrightarrow> sound tab \<and> zeros tab \<and> (if tab_empty tab then points 0 tab = {} else sample_ok tab)"

lemma ready_empty: "ready tab \<Longrightarrow> tab_empty tab \<longleftrightarrow> points 0 tab = {}"
proof -
  assume r: "ready tab"
  have "points 0 tab \<noteq> {}" if "\<not> tab_empty tab"
  proof -
    have "sample_ok tab" "plain tab" using r that soundD(1) by (auto simp: ready_def)
    then have "feasible tab 0 (sample tab)" by (intro sample_feasible) (auto simp: sample_ok_def)
    then show ?thesis by (auto simp: points_point)
  qed
  then show ?thesis using r by (auto simp: ready_def)
qed

definition one_more :: "isl_tab \<Rightarrow> isl_tab \<Rightarrow> bool" where
  "one_more tab t \<longleftrightarrow> t_row t \<le> t_row tab + 1 \<and>
     pivot_frame (tab\<lparr>n_con := n_con tab + 1\<rparr>) (t\<lparr>tab_empty := tab_empty tab\<rparr>)"

lemma mark_empty_run:
  assumes "unlimited tab"
  shows "\<exists>s. isl_tab_mark_empty tab = (0, aside tab s\<lparr>tab_empty := True\<rparr>)"
proof -
  have "isl_tab_mark_empty tab = (0, snd (isl_tab_mark_empty tab)) \<and> snd (isl_tab_mark_empty tab) =
      aside tab (snd (isl_tab_mark_empty tab))\<lparr>tab_empty := True\<rparr>"
    using assms by (simp add: isl_tab_mark_empty_def isl_tab_push_def push_union_def isl_ctx_next_operation_def unlimited_def
      aside_def Let_def)
  then show ?thesis by metis
qed

lemma set_empty_frame:
  "sound (t\<lparr>tab_empty := b\<rparr>) = sound t" "zeros (t\<lparr>tab_empty := b\<rparr>) = zeros t" "points M (t\<lparr>tab_empty := b\<rparr>) = points M t"
proof -
  have "t_row (t\<lparr>tab_empty := b\<rparr>) = t_row t" by simp
  note f = tab_frame [of "t\<lparr>tab_empty := b\<rparr>" t]
  show "sound (t\<lparr>tab_empty := b\<rparr>) = sound t" by (simp add: sound_def plain_def unlimited_def f)
  show "zeros (t\<lparr>tab_empty := b\<rparr>) = zeros t" by (simp add: zeros_def located_def f)
  show "points M (t\<lparr>tab_empty := b\<rparr>) = points M t" by (simp add: points_def f)
qed

lemma add_ineq_start:
  assumes so: "sound tab" and rm: "room tab" and p: "p = add_row_seq tab lin (mat_row (tab_mat tab) ! t_row tab)"
    and t: "t = grow tab p ((new_var tab)\<lparr>is_nonneg := True\<rparr>)" and z: "zeros tab" and nc: "\<not> tab_cone tab"
  obtains s where "isl_tab_add_ineq tab lin = check_ineq (aside t s) (new_con tab)"
proof -
  obtain s where s: "isl_tab_add_row tab lin = (int (n_con tab), aside (grow tab p (new_var tab)) s)"
    using add_row_run [OF soundD(4) [OF so] rm soundD(3) [OF so] p]
    by blast
  have lc: "n_con tab < length (tab_con tab)" using rm by (simp add: room_def)
  have u: "upd_var (new_con tab) (\<lambda>var. var\<lparr>is_nonneg := True\<rparr>) (aside (grow tab p (new_var tab)) s) = aside t s"
    using lc by (simp add: upd_var_def aside_def grow_def t)
  have "unlimited (aside t s)" using so by (simp add: t sound_def unlimited_def aside_def)
  then have ps: "fst (isl_tab_push_var (aside t s) isl_tab_undo_nonneg (new_con tab)) = 0" by (rule push_unlimited)
  let ?s = "snd (isl_tab_push_var (aside t s) isl_tab_undo_nonneg (new_con tab))"
  have a: "?s = aside t ?s"
    by (simp add: aside_def isl_tab_push_var_def push_union_def isl_ctx_next_operation_def)
  obtain s' where pv: "isl_tab_push_var (aside t s) isl_tab_undo_nonneg (new_con tab) = (0, aside t s')"
    using ps a by (metis prod.collapse)
  have "isl_tab_add_ineq tab lin = check_ineq (aside t s') (new_con tab)"
    by (simp add: isl_tab_add_ineq_def nc s u pv)
  then show thesis by (rule that)
qed

lemma check_ineq_run:
  assumes so: "sound t" and z: "zeros t" and ne: "\<not> tab_empty t" and v: "live_row t v row" and ok: "ok_but t v" and nn: "nonneg t v"
  shows "\<exists>t'. check_ineq t v = Some (0, t') \<and> ready t' \<and> points 0 t' = points 0 t \<and>
    t_row t' \<le> t_row t \<and> pivot_frame t (t'\<lparr>tab_empty := tab_empty t\<rparr>)"
proof -
  have fin: "ready t' \<and> points 0 t' = points 0 t \<and> t_row t' \<le> t_row t \<and> pivot_frame t (t'\<lparr>tab_empty := tab_empty t\<rparr>)"
    if "reach t t'" "sample_ok t'" for t'
  proof -
    have pf: "pivot_frame t t'" using that(1) by (simp add: reach_def)
    then have e: "tab_empty t' = tab_empty t" by (simp add: pivot_frame_def same_frame_def)
    have "pivot_frame t (t'\<lparr>tab_empty := tab_empty t\<rparr>)" using pf by (simp add: pivot_frame_def same_frame_def)
    moreover have "sound t'" using that(1) by (simp add: reach_def)
    ultimately show ?thesis
      using that ne e reach_zeros [OF z] reach_points reach_rows [OF soundD(4) [OF so]] by (simp add: ready_def)
  qed
  have mark: "\<exists>t''. mark_redundant_con t' v = (0, t'') \<and> reach t t'' \<and> sample_ok t''"
    if r: "reach t t'" and s: "sample_ok t'" and l: "live_row t' v row'" and red: "isl_tab_row_is_redundant t' (index_of t' v)" for t' row'
  proof -
    have st: "sound t'" using r by (simp add: reach_def)
    note ix = live_row_index_of [OF soundD(1) [OF st] l]
    obtain c t'' where m: "isl_tab_mark_redundant t' row' = (c, t'')" by fastforce
    have "n_redundant t' \<le> row'" "row' < t_row t'" using l by (simp_all add: live_row_def)
    note mk = mark_redundant_reach [OF st this red [unfolded ix] m]
    show ?thesis using mk s reach_trans [OF r mk(2)] by (simp add: mark_redundant_con_def ix m)
  qed
  note pl = soundD(1) [OF so]
  show ?thesis
  proof (cases "isl_tab_row_is_redundant t (index_of t v)")
    case True
    have "sample_ok t"
    proof -
      have r: "row < t_row t" "row_var t ! row = v" using v by (simp_all add: live_row_def)
      have "0 \<le> tent t row 1" using True live_row_index_of [OF pl v] by (auto simp: isl_tab_row_is_redundant_def split: if_splits)
      then have "0 \<le> sample t v" using tent_sample(3) [OF pl v] by simp
      then show ?thesis by (rule ok_but_sample [OF ok])
    qed
    from mark [OF reach_refl [OF so] this v True] obtain t' where
      t': "mark_redundant_con t v = (0, t')" "reach t t'" "sample_ok t'" by blast
    then show ?thesis using fin [OF t'(2,3)] True by (simp add: check_ineq_def)
  next
    case False
    from restore_row_run [OF so v ok] obtain sg t' where
      rr: "restore_row t v = Some (sg, t')" "reach t t'"
      "if sg < 0 then sg = -1 \<and> (\<forall>x. feasible t 0 x \<longrightarrow> x v < 0) else sample_ok t' \<and> v \<in> live_vars t' \<and> (sg = 0 \<or> sg = 1)"
      by blast
    have st: "sound t'" using rr(2) by (simp add: reach_def)
    show ?thesis
    proof (cases "sg < 0")
      case neg: True
      obtain s where s: "isl_tab_mark_empty t' = (0, aside t' s\<lparr>tab_empty := True\<rparr>)"
        using mark_empty_run [OF soundD(3) [OF st]] by blast
      have none: "\<not> feasible t 0 x" for x
        using rr(3) neg nn live_row_vars [OF v] by (force simp: feasible_def)
      have "points 0 t = {}" using none by (auto simp: points_point)
      moreover have "points 0 t' = points 0 t" by (rule reach_points [OF rr(2)])
      moreover have "pivot_frame t (aside t' s)"
        using rr(2) aside_sound(7) [of t' s] pivot_frame_trans by (auto simp: reach_def)
      moreover have "pivot_frame t (aside t' s\<lparr>tab_empty := True, tab_empty := tab_empty t\<rparr>)"
        using calculation(3) by (simp add: pivot_frame_def same_frame_def)
      ultimately show ?thesis
        using False rr(1,3) neg s st reach_zeros [OF z rr(2)] reach_rows [OF soundD(4) [OF so] rr(2)]
        by (simp add: check_ineq_def ready_def set_empty_frame aside_sound aside_frame)
    next
      case nneg: False
      then have so': "sample_ok t'" "v \<in> live_vars t'" using rr(3) by auto
      show ?thesis
      proof (cases "is_row (var_from_index t' v) \<and> isl_tab_row_is_redundant t' (index_of t' v)")
        case True
        have "v \<notin> col_vars t'" using col_not_row [OF soundD(1) [OF st]] True by blast
        then obtain row' where l: "live_row t' v row'" using so'(2) by (auto simp: live_vars_def live_rows_def live_row_def)
        from mark [OF rr(2) so'(1) l] True obtain t'' where
          t'': "mark_redundant_con t' v = (0, t'')" "reach t t''" "sample_ok t''" by blast
        then show ?thesis using fin [OF t''(2,3)] False rr(1) nneg True by (simp add: check_ineq_def)
      next
        case keep: False
        have "check_ineq t v = Some (0, t')" using False rr(1) nneg keep by (auto simp: check_ineq_def)
        then show ?thesis using fin [OF rr(2) so'(1)] by simp
      qed
    qed
  qed
qed

lemma add_ineq_run:
  assumes rd: "ready tab" and ne: "\<not> tab_empty tab" and rm: "room tab" and nc: "\<not> tab_cone tab"
  shows "\<exists>t. isl_tab_add_ineq tab lin = Some (0, t) \<and> ready t \<and> one_more tab t \<and>
    points 0 t = {q \<in> points 0 tab. 0 \<le> affine lin q}"
proof -
  have so: "sound tab" "zeros tab" "sample_ok tab" using rd ne by (simp_all add: ready_def)
  define p where "p = add_row_seq tab lin (mat_row (tab_mat tab) ! t_row tab)"
  define t where "t = grow tab p ((new_var tab)\<lparr>is_nonneg := True\<rparr>)"
  note g = grown [OF so(1) rm so(2) p_def, of t True, folded t_def]
  obtain s where s: "isl_tab_add_ineq tab lin = check_ineq (aside t s) (new_con tab)"
    using add_ineq_start [OF so(1) rm p_def t_def so(2) nc] by blast
  have nn: "nonneg t (new_con tab)" using grow_var(4) [OF add_row_new(1) [OF so(1) rm so(2) p_def]] by (simp add: t_def)
  have pf: "pivot_frame (tab\<lparr>n_con := n_con tab + 1\<rparr>) t" "t_row t = t_row tab + 1" "tab_empty t = tab_empty tab"
    by (simp_all add: t_def grow_def pivot_frame_def same_frame_def)
  have "\<exists>t'. check_ineq (aside t s) (new_con tab) = Some (0, t') \<and> ready t' \<and> points 0 t' = points 0 (aside t s) \<and>
      t_row t' \<le> t_row (aside t s) \<and> pivot_frame (aside t s) (t'\<lparr>tab_empty := tab_empty (aside t s)\<rparr>)"
    by (rule check_ineq_run [of _ _ "t_row tab"])
      (use g so ne nn pf(3) in \<open>simp_all add: aside_sound aside_frame, simp add: aside_def\<close>)
  then obtain t' where t': "check_ineq (aside t s) (new_con tab) = Some (0, t')" "ready t'" "points 0 t' = points 0 (aside t s)"
    "t_row t' \<le> t_row (aside t s)" "pivot_frame (aside t s) (t'\<lparr>tab_empty := tab_empty (aside t s)\<rparr>)" by blast
  have "pivot_frame t (t'\<lparr>tab_empty := tab_empty tab\<rparr>)"
    using pivot_frame_trans [OF aside_sound(7) [of t s] t'(5)] pf(3) by (simp add: aside_def)
  then have "one_more tab t'"
    using pivot_frame_trans [OF pf(1)] t'(4) pf(2) by (simp add: one_more_def aside_frame)
  then show ?thesis using s t'(1,2,3) g(5) by (simp add: aside_sound)
qed

end
