(* ===== verification/Tab_Kill.thy ===== *)
theory Tab_Kill imports Tab_Ineq begin

text \<open>
  Removing a column (\<open>swap_cols\<close>, \<open>isl_tab_kill_col\<close> of isl_tab.c): the variable of the
  column is zero from then on.
\<close>

subsection \<open>Exchanging two columns\<close>

definition swap_col_vars :: "isl_tab \<Rightarrow> nat \<Rightarrow> nat \<Rightarrow> isl_tab" where
  "swap_col_vars tab col1 col2 =
     tab\<lparr>col_var := (col_var tab)[col1 := col_var tab ! col2, col2 := col_var tab ! col1]\<rparr>"

definition swap_mat_cols :: "isl_tab \<Rightarrow> nat \<Rightarrow> nat \<Rightarrow> isl_tab" where
  "swap_mat_cols tab col1 col2 =
     (case isl_mat_swap_cols (Inr (tab_mat tab)) (tab_off tab + col1) (tab_off tab + col2) of
        Inr mat \<Rightarrow> tab\<lparr>tab_mat := mat\<rparr> | Inl _ \<Rightarrow> tab)"

definition swap_cols :: "isl_tab \<Rightarrow> nat \<Rightarrow> nat \<Rightarrow> isl_tab" where
  "swap_cols tab col1 col2 =
     (let tab = swap_col_vars tab col1 col2;
          tab = upd_var (col_var tab ! col1) (\<lambda>var. var\<lparr>var_index := int col1\<rparr>) tab;
          tab = upd_var (col_var tab ! col2) (\<lambda>var. var\<lparr>var_index := int col2\<rparr>) tab
      in swap_mat_cols tab col1 col2)"

text \<open>The result is 1 if another column was moved to \<open>col\<close>, 0 otherwise.\<close>

definition isl_tab_kill_col :: "isl_tab \<Rightarrow> nat \<Rightarrow> int \<times> isl_tab" where
  "isl_tab_kill_col tab col =
     (let tab = upd_var (col_var tab ! col) (\<lambda>var. var\<lparr>is_zero := True\<rparr>) tab
      in if need_undo tab then
           let (ok, tab) = isl_tab_push_var tab isl_tab_undo_zero (col_var tab ! col)
           in if ok < 0 then (-1, tab)
              else let tab = (if col \<noteq> n_dead tab then swap_cols tab col (n_dead tab) else tab)
                   in (0, tab\<lparr>n_dead := n_dead tab + 1\<rparr>)
         else let tab = (if col \<noteq> t_col tab - 1 then swap_cols tab col (t_col tab - 1) else tab);
                  tab = upd_var (col_var tab ! (t_col tab - 1)) (\<lambda>var. var\<lparr>var_index := -1\<rparr>) tab
              in (1, tab\<lparr>t_col := t_col tab - 1\<rparr>))"

subsection \<open>The exchange keeps everything\<close>

text \<open>What does not depend on the columns.\<close>

definition row_frame :: "isl_tab \<Rightarrow> isl_tab \<Rightarrow> bool" where
  "row_frame tab t \<longleftrightarrow> same_frame (tab\<lparr>col_var := []\<rparr>) (t\<lparr>col_var := []\<rparr>) \<and> t_row t = t_row tab \<and>
     row_var t = row_var tab \<and> n_redundant t = n_redundant tab \<and> length (col_var t) = length (col_var tab)"

lemma isl_mat_swap_cols_run:
  assumes ok: "mat_ok M" and i: "i < isl_mat.n_col M" and j: "j < isl_mat.n_col M" and n: "isl_mat.n_col M < 2 ^ 32"
  obtains N where "isl_mat_swap_cols (Inr M) i j = Inr N" "isl_mat.n_row N = isl_mat.n_row M" "isl_mat.n_col N = isl_mat.n_col M"
    "mat_ok N" "\<And>r. r < isl_mat.n_row M \<Longrightarrow> mat_row N ! r = (mat_row M ! r)[i := mat_row M ! r ! j, j := mat_row M ! r ! i]"
proof -
  let ?N = "M\<lparr>mat_row := for_range 0 (isl_mat.n_row M) (\<lambda>r rs. upd_row rs r (\<lambda>p. p[i := p ! j, j := p ! i])) (mat_row M)\<rparr>"
  have "check_col_range (Inr M) k 1 = Inr ()" if "k < isl_mat.n_col M" for k
    using that n check_range_iff(1) [of k 1 M] by simp
  then have "isl_mat_swap_cols (Inr M) i j = Inr ?N" using i j by (simp add: isl_mat_swap_cols_def res_simps)
  moreover have row: "mat_row ?N ! r = (mat_row M ! r)[i := mat_row M ! r ! j, j := mat_row M ! r ! i]" if "r < isl_mat.n_row M" for r
    using that ok by (simp add: nth_for_rows mat_ok_def)
  moreover have "mat_ok ?N" using ok row unfolding mat_ok_def by simp
  ultimately show thesis using that [of ?N] by simp
qed

lemma swap_cols_run:
  assumes ok: "tab_ok tab" and i: "i < t_col tab" and j: "j < t_col tab"
  defines "t \<equiv> swap_cols tab i j"
  shows "row_frame tab t" and "col_var t = (col_var tab)[i := col_var tab ! j, j := col_var tab ! i]"
    and "mat_ok (tab_mat t)"
    and "\<And>r. r < t_row tab \<Longrightarrow> mat_row (tab_mat t) ! r =
      (mat_row (tab_mat tab) ! r)[tab_off tab + i := mat_row (tab_mat tab) ! r ! (tab_off tab + j),
        tab_off tab + j := mat_row (tab_mat tab) ! r ! (tab_off tab + i)]"
    and "\<And>v. tab_code tab v \<Longrightarrow> var_from_index t v =
      (if v = col_var tab ! i then (var_from_index tab v)\<lparr>var_index := int j\<rparr>
       else if v = col_var tab ! j then (var_from_index tab v)\<lparr>var_index := int i\<rparr>
       else var_from_index tab v)"
proof -
  note sh = tab_okD(1) [OF ok]
  have l: "i < length (col_var tab)" "j < length (col_var tab)" using tab_shapeD(4) [OF sh] i j by linarith+
  let ?a = "swap_col_vars tab i j"
  let ?b = "upd_var (col_var ?a ! j) (\<lambda>var. var\<lparr>var_index := int j\<rparr>) (upd_var (col_var ?a ! i) (\<lambda>var. var\<lparr>var_index := int i\<rparr>) ?a)"
  have a: "tab_shape ?a" "tab_code ?a = tab_code tab" "var_from_index ?a = var_from_index tab" "tab_mat ?a = tab_mat tab" "tab_off ?a = tab_off tab"
    using sh by (auto simp: swap_col_vars_def tab_shape_def tab_code_def var_from_index_def tab_off_def fun_eq_iff)
  have n: "mat_ok (tab_mat tab)" "tab_off tab + i < isl_mat.n_col (tab_mat tab)" "tab_off tab + j < isl_mat.n_col (tab_mat tab)"
    "isl_mat.n_col (tab_mat tab) < 2 ^ 32" "t_row tab \<le> isl_mat.n_row (tab_mat tab)" using sh i j by (auto simp: tab_shape_def)
  obtain N where N: "isl_mat_swap_cols (Inr (tab_mat tab)) (tab_off tab + i) (tab_off tab + j) = Inr N"
    "isl_mat.n_row N = isl_mat.n_row (tab_mat tab)" "isl_mat.n_col N = isl_mat.n_col (tab_mat tab)" "mat_ok N"
    "\<And>r. r < isl_mat.n_row (tab_mat tab) \<Longrightarrow> mat_row N ! r = (mat_row (tab_mat tab) ! r)[tab_off tab + i := mat_row (tab_mat tab) ! r ! (tab_off tab + j),
      tab_off tab + j := mat_row (tab_mat tab) ! r ! (tab_off tab + i)]"
    using isl_mat_swap_cols_run [OF n(1-4)] by blast
  have b: "tab_mat ?b = tab_mat tab" "tab_off ?b = tab_off tab" by (simp_all add: a)
  have t: "t = ?b\<lparr>tab_mat := N\<rparr>" by (simp only: t_def swap_cols_def Let_def upd_var_simps swap_mat_cols_def b a(4,5) N(1) sum.case)
  have tv: "var_from_index t = var_from_index ?b" by (simp add: t var_from_index_def fun_eq_iff)
  show "col_var t = (col_var tab)[i := col_var tab ! j, j := col_var tab ! i]" by (simp add: t swap_col_vars_def)
  show "mat_ok (tab_mat t)" using N(4) by (simp add: t)
  show "mat_row (tab_mat t) ! r = (mat_row (tab_mat tab) ! r)[tab_off tab + i := mat_row (tab_mat tab) ! r ! (tab_off tab + j),
        tab_off tab + j := mat_row (tab_mat tab) ! r ! (tab_off tab + i)]" if "r < t_row tab" for r
    using that N(5) n(5) by (simp add: t)
  have "same_frame (tab\<lparr>col_var := []\<rparr>) (?a\<lparr>col_var := []\<rparr>)" by (simp add: same_frame_def swap_col_vars_def)
  moreover have "same_frame (s\<lparr>col_var := []\<rparr>) (upd_var v f s\<lparr>col_var := []\<rparr>)" for s v f
    using upd_var_frame [of s v f] by (simp add: same_frame_def)
  ultimately have "same_frame (tab\<lparr>col_var := []\<rparr>) (?b\<lparr>col_var := []\<rparr>)" using same_frame_trans by blast
  moreover have "same_frame (?b\<lparr>col_var := []\<rparr>) (t\<lparr>col_var := []\<rparr>)" using N(2,3) by (simp add: t same_frame_def a)
  ultimately show "row_frame tab t" using same_frame_trans by (auto simp: row_frame_def t swap_col_vars_def)
  have cv: "col_var ?a ! i = col_var tab ! j" "col_var ?a ! j = col_var tab ! i"
    using l by (auto simp: swap_col_vars_def nth_list_update)
  have codes: "tab_code tab (col_var tab ! i)" "tab_code tab (col_var tab ! j)"
    using tab_indexD(3) [OF tab_okD(2) [OF ok]] i j by auto
  show "var_from_index t v =
      (if v = col_var tab ! i then (var_from_index tab v)\<lparr>var_index := int j\<rparr>
       else if v = col_var tab ! j then (var_from_index tab v)\<lparr>var_index := int i\<rparr>
       else var_from_index tab v)" if v: "tab_code tab v" for v
    unfolding tv cv using a codes v by (auto simp: var_upd_var)
qed


lemma row_frameD:
  assumes "row_frame tab t"
  shows "t_row t = t_row tab" "row_var t = row_var tab" "n_redundant t = n_redundant tab" "t_col t = t_col tab"
    "n_dead t = n_dead tab" "tab_off t = tab_off tab" "tab_code t = tab_code tab" "n_var t = n_var tab" "tab_M t = tab_M tab"
    "op_limit t = op_limit tab" "pivot_frame tab t" "need_undo t = need_undo tab"
    and "fst ` tab_rows t = fst ` tab_rows tab" "fst ` live_rows t = fst ` live_rows tab"
proof -
  show e: "t_row t = t_row tab" "row_var t = row_var tab" "n_redundant t = n_redundant tab" "t_col t = t_col tab"
    "n_dead t = n_dead tab" "n_var t = n_var tab" "tab_M t = tab_M tab" "op_limit t = op_limit tab"
    "need_undo t = need_undo tab" "pivot_frame tab t"
    using assms by (simp_all add: row_frame_def same_frame_def pivot_frame_def)
  show "tab_off t = tab_off tab" using e by (simp add: tab_off_def)
  show "tab_code t = tab_code tab" using assms by (simp add: row_frame_def same_frame_def tab_code_def fun_eq_iff)
  show "fst ` tab_rows t = fst ` tab_rows tab" "fst ` live_rows t = fst ` live_rows tab" by (simp_all add: fst_rows e)
qed

lemma swapped_lists:
  assumes "i < n" "j < n" "n \<le> length xs"
  shows "(\<lambda>c. xs[i := xs ! j, j := xs ! i] ! c) ` {0..<n} = (\<lambda>c. xs ! c) ` {0..<n}"
proof -
  have "i < length xs" "j < length xs" using assms by auto
  then show ?thesis
    unfolding nth_swapped [OF \<open>i < length xs\<close> \<open>j < length xs\<close>] using assms by (intro image_swapped) auto
qed

lemma row_sum_swap:
  assumes i: "1 \<le> a" "a < m" and j: "1 \<le> b" "b < m" and l: "m \<le> length p"
  shows "row_sum m (p[a := p ! b, b := p ! a]) (\<lambda>k. y (swapped a b k)) = row_sum m p y"
proof -
  have bij: "bij_betw (swapped a b) {1..<m} {1..<m}"
    by (rule bij_betw_byWitness [where f' = "swapped a b"]) (use i j in \<open>auto simp: swapped_def\<close>)
  have len: "a < length p" "b < length p" using i j l by auto
  have "row_sum m (p[a := p ! b, b := p ! a]) (\<lambda>k. y (swapped a b k)) =
      (\<Sum>k=1..<m. of_int (p ! swapped a b k) * y (swapped a b k))"
    unfolding row_sum_def by (simp only: nth_swapped [OF len])
  also have "\<dots> = row_sum m p y" unfolding row_sum_def by (rule sum.reindex_bij_betw [OF bij])
  finally show ?thesis .
qed

lemma swap_cols_ok:
  assumes ok: "tab_ok tab" and i: "i < t_col tab" and j: "j < t_col tab"
  defines "t \<equiv> swap_cols tab i j"
  shows "tab_ok t" "col_vars t = col_vars tab" "sat t M x = sat tab M x" "tab_vars t = tab_vars tab" "live_vars t = live_vars tab"
    "w \<in> tab_vars tab \<Longrightarrow> sample t w = sample tab w"
    "n_dead tab \<le> i \<Longrightarrow> n_dead tab \<le> j \<Longrightarrow> feasible t M x = feasible tab M x"
    "tab_code tab v \<Longrightarrow> is_zero (var_from_index t v) = is_zero (var_from_index tab v)"
    "tab_code tab v \<Longrightarrow> nonneg t v = nonneg tab v"
proof -
  note sh = tab_okD(1) [OF ok] and ix = tab_okD(2) [OF ok]
  note run = swap_cols_run [OF ok i j, folded t_def]
  note f = row_frameD [OF run(1)]
  have lc: "i < length (col_var tab)" "j < length (col_var tab)" "t_col tab \<le> length (col_var tab)"
    using tab_shapeD(4) [OF sh] i j by linarith+
  have cv: "col_var t ! c = col_var tab ! swapped i j c" for c unfolding run(2) by (rule nth_swapped [OF lc(1,2)])
  have entry: "mat_row (tab_mat t) ! r ! k = mat_row (tab_mat tab) ! r ! swapped (tab_off tab + i) (tab_off tab + j) k" if "r < t_row tab" for r k
  proof -
    have "tab_off tab + i < length (mat_row (tab_mat tab) ! r)" "tab_off tab + j < length (mat_row (tab_mat tab) ! r)"
      using tab_shapeD(2) [OF sh that] i j by linarith+
    then show ?thesis unfolding run(4) [OF that] by (rule nth_swapped)
  qed
  show cols: "col_vars t = col_vars tab"
    unfolding col_vars_def run(2) f using swapped_lists [OF i j lc(3)] .
  then show "tab_vars t = tab_vars tab" "live_vars t = live_vars tab" by (simp_all add: tab_vars_def live_vars_def f)
  have low: "swapped (tab_off tab + i) (tab_off tab + j) k = k" if "k \<le> 1" for k
    using that tab_off_ge(1) [of tab] by (simp add: swapped_def)
  have flags: "is_row (var_from_index t v) = is_row (var_from_index tab v)" "is_zero (var_from_index t v) = is_zero (var_from_index tab v)"
    "nonneg t v = nonneg tab v" if "tab_code tab v" for v using run(5) [OF that] by (simp_all add: nonneg_def)
  then show "tab_code tab v \<Longrightarrow> is_zero (var_from_index t v) = is_zero (var_from_index tab v)"
    "tab_code tab v \<Longrightarrow> nonneg t v = nonneg tab v" by blast+
  have inj: "c < t_col tab \<Longrightarrow> d < t_col tab \<Longrightarrow> col_var tab ! c = col_var tab ! d \<longleftrightarrow> c = d" for c d
    using tab_index_inj(2) [OF ix] by blast
  have rows_var: "var_from_index t (row_var tab ! r) = var_from_index tab (row_var tab ! r)" if r: "r < t_row tab" for r
    using run(5) tab_indexD(1) [OF ix r] tab_index_inj(3) [OF ix r i] tab_index_inj(3) [OF ix r j] by simp
  show tok: "tab_ok t"
    unfolding tab_ok_def
  proof (intro conjI allI impI)
    have "row_frame tab t" by (rule run(1))
    then show "tab_shape t"
      using sh run(3) by (auto simp: tab_shape_def row_frame_def same_frame_def tab_off_def)
    show "tab_index t"
      unfolding tab_index_def f
    proof (intro conjI allI impI)
      fix r assume r: "r < t_row tab"
      show "tab_code tab (row_var tab ! r)" using tab_indexD(1) [OF ix r] .
      show "at_row t (row_var tab ! r) r" using tab_indexD(2) [OF ix r] rows_var [OF r] by (simp add: at_row_def)
    next
      fix c assume c: "c < t_col tab"
      then have s: "swapped i j c < t_col tab" using i j by (simp add: swapped_less)
      show "tab_code tab (col_var t ! c)" using tab_indexD(3) [OF ix s] by (simp add: cv)
      show "at_col t (col_var t ! c) c"
        using tab_indexD(3,4) [OF ix s] inj [OF s i] inj [OF s j] by (auto simp: cv at_col_def run(5)) (auto simp: swapped_def split: if_splits)
    next
      fix v assume v: "tab_code tab v"
      consider c where "c < t_col tab" "col_var tab ! c = v" | "\<not> (\<exists>c < t_col tab. col_var tab ! c = v)" by blast
      then show "var_index (var_from_index t v) = - 1 \<or> (\<exists>r<t_row tab. row_var tab ! r = v) \<or> (\<exists>c<t_col tab. col_var t ! c = v)"
      proof cases
        case 1
        then have "swapped i j c < t_col tab" "col_var t ! swapped i j c = v" using i j by (simp_all add: swapped_less cv)
        then show ?thesis by blast
      next
        case 2
        then have "var_from_index t v = var_from_index tab v" using run(5) [OF v] i j by auto
        then show ?thesis using tab_indexD(5) [OF ix v] 2 by auto
      qed
    qed
    show "0 < tent t r 0" if "r < t_row t" for r
      using that tab_okD(3) [OF ok, of r] low [of 0] by (simp add: f ent_def entry)
  qed
  have hold: "row_holds t M x r \<longleftrightarrow> row_holds tab M x r" if r: "r < t_row tab" for r x
  proof -
    have y: "colval t M x = (\<lambda>k. colval tab M x (swapped (tab_off tab + i) (tab_off tab + j) k))"
    proof
      fix k
      show "colval t M x k = colval tab M x (swapped (tab_off tab + i) (tab_off tab + j) k)"
        using tab_off_ge(1) [of tab] by (auto simp: colval_def f cv swapped_def)
    qed
    have "row_sum (tab_off tab + t_col tab) (mat_row (tab_mat t) ! r) (colval t M x) =
        row_sum (tab_off tab + t_col tab) (mat_row (tab_mat tab) ! r) (colval tab M x)"
      unfolding y run(4) [OF r]
      by (rule row_sum_swap) (use i j tab_off_ge(2) [of tab] tab_shapeD(2) [OF sh r] in auto)
    moreover have "mat_row (tab_mat t) ! r ! 0 = mat_row (tab_mat tab) ! r ! 0" using entry [OF r] low by simp
    ultimately show ?thesis by (simp add: row_holds_def row_eq_def f)
  qed
  then show "sat t M x = sat tab M x" for x by (simp add: sat_def f)
  then show "feasible t M x = feasible tab M x" if "n_dead tab \<le> i" "n_dead tab \<le> j"
  proof -
    have "col_var t ! c = col_var tab ! c" if "c < n_dead tab" for c
      using that \<open>n_dead tab \<le> i\<close> \<open>n_dead tab \<le> j\<close> by (simp add: cv swapped_def)
    moreover have "nonneg t v = nonneg tab v" if "v \<in> live_vars tab" for v
      using flags(3) tab_vars_code [OF ok] that live_rows_sub(2) by blast
    ultimately show ?thesis
      unfolding feasible_def \<open>\<And>x. sat t M x = sat tab M x\<close> \<open>live_vars t = live_vars tab\<close> f by auto
  qed
  assume "w \<in> tab_vars tab"
  with ok show "sample t w = sample tab w"
  proof (cases rule: tab_vars_cases)
    case (row r)
    then have "rval t r = rval tab r" using low entry by (simp add: rval_def ent_def)
    then show ?thesis using rows_var [OF row(1)] row(2,3) by (simp add: sample_def sol_def at_row_def)
  next
    case (col c)
    then show ?thesis using flags(1) [of w] tab_indexD(3) [OF ix col(1)] by (simp add: sample_def sol_def at_col_def)
  qed
qed


subsection \<open>Removing the column\<close>

definition col_frame :: "isl_tab \<Rightarrow> isl_tab \<Rightarrow> bool" where
  "col_frame tab t \<longleftrightarrow> t_row t = t_row tab \<and> pivot_frame (tab\<lparr>t_col := 0, n_dead := 0\<rparr>) (t\<lparr>t_col := 0, n_dead := 0\<rparr>)"

lemma col_frame_trans: "col_frame a b \<Longrightarrow> col_frame b c \<Longrightarrow> col_frame a c"
  unfolding col_frame_def
  using pivot_frame_trans [of "a\<lparr>t_col := 0, n_dead := 0\<rparr>" "b\<lparr>t_col := 0, n_dead := 0\<rparr>" "c\<lparr>t_col := 0, n_dead := 0\<rparr>"] by simp

text \<open>What is left when \<open>v\<close>, the variable of a column, becomes zero.\<close>

definition kills :: "isl_tab \<Rightarrow> int \<Rightarrow> isl_tab \<Rightarrow> bool" where
  "kills tab v t \<longleftrightarrow> sound t \<and> col_frame tab t \<and>
     (\<forall>x. feasible tab 0 x \<longrightarrow> x v = 0 \<longrightarrow> feasible t 0 x) \<and>
     (\<forall>x. feasible t 0 x \<longrightarrow> feasible tab 0 (x(v := 0)) \<and> (v \<in> tab_vars t \<longrightarrow> x v = 0)) \<and>
     tab_vars tab - {v} \<subseteq> tab_vars t \<and> tab_vars t \<subseteq> tab_vars tab \<and>
     (\<forall>w \<in> live_vars t. w \<in> live_vars tab \<and> nonneg t w = nonneg tab w \<and> sample t w = sample tab w) \<and>
     (\<forall>w. tab_code tab w \<longrightarrow> is_zero (var_from_index t w) = (w = v \<or> is_zero (var_from_index tab w)))"

text \<open>The column is the first one behind the dead columns, which becomes dead.\<close>

lemma dead_col:
  assumes so: "sound tab" and n: "n_dead tab < t_col tab" and v: "v = col_var tab ! n_dead tab"
    and t: "t = tab\<lparr>n_dead := n_dead tab + 1\<rparr>"
  shows "sound t" "feasible t 0 x \<longleftrightarrow> feasible tab 0 x \<and> x v = 0"
    "tab_vars t = tab_vars tab" "live_vars t = live_vars tab" "var_from_index t = var_from_index tab" "sample t = sample tab"
proof -
  have f: "tab_off t = tab_off tab" "tab_code t = tab_code tab" "colval t = colval tab"
    by (simp_all add: t tab_off_def tab_code_def colval_def fun_eq_iff)
  show var: "var_from_index t = var_from_index tab" by (simp add: t var_from_index_def fun_eq_iff)
  have r: "tab_rows t = tab_rows tab" "live_rows t = live_rows tab" "col_vars t = col_vars tab"
    by (simp_all add: t tab_rows_def live_rows_def col_vars_def)
  then show vars: "tab_vars t = tab_vars tab" "live_vars t = live_vars tab" by (simp_all add: tab_vars_def live_vars_def)
  show "sample t = sample tab" by (simp add: sample_def sol_def fun_eq_iff var rval_def coef_def f(1)) (simp add: t)
  have nn: "nonneg t = nonneg tab" by (simp add: nonneg_def fun_eq_iff var)
  have tf: "n_dead t = n_dead tab + 1" "col_var t = col_var tab" "t_col t = t_col tab" by (simp_all add: t)
  have "sat t 0 x = sat tab 0 x" for x by (simp add: sat_rows r f tf)
  then show feas: "feasible t 0 x \<longleftrightarrow> feasible tab 0 x \<and> x v = 0" for x
    by (auto simp: feasible_def vars nn v tf less_Suc_eq)
  have "tab_ok t"
    using soundD(4) [OF so] n
    by (simp add: tab_ok_def tab_shape_def tab_index_def at_row_def at_col_def var f(1,2)) (simp add: t)
  then show "sound t" using so by (auto simp: sound_def plain_def implied_def feas vars nn unlimited_def) (simp_all add: t)
qed

text \<open>The column is the last one, which is dropped.\<close>

lemma drop_last_col:
  assumes so: "sound tab" and n: "n_dead tab < t_col tab" and v: "v = col_var tab ! (t_col tab - 1)"
    and t: "t = upd_var v (\<lambda>var. var\<lparr>var_index := -1\<rparr>) tab\<lparr>t_col := t_col tab - 1\<rparr>"
  shows "sound t" "feasible t 0 x \<longleftrightarrow> feasible tab 0 (x(v := 0))"
    "tab_vars t = tab_vars tab - {v}" "live_vars t = live_vars tab - {v}"
    "w \<in> live_vars t \<Longrightarrow> sample t w = sample tab w" "tab_code tab w \<Longrightarrow> nonneg t w = nonneg tab w"
    "tab_code tab w \<Longrightarrow> is_zero (var_from_index t w) = is_zero (var_from_index tab w)"
proof -
  note ok = soundD(4) [OF so]
  note sh = tab_okD(1) [OF ok] and ix = tab_okD(2) [OF ok]
  define m where "m = t_col tab - 1"
  have m: "t_col tab = m + 1" "n_dead tab \<le> m" "v = col_var tab ! m" using n v by (auto simp: m_def)
  have f: "t_row t = t_row tab" "t_col t = m" "n_dead t = n_dead tab" "n_redundant t = n_redundant tab" "row_var t = row_var tab"
    "col_var t = col_var tab" "tab_mat t = tab_mat tab" "tab_off t = tab_off tab" "tab_code t = tab_code tab"
    "n_var t = n_var tab" "tab_M t = tab_M tab" "op_limit t = op_limit tab"
    by (simp_all add: t m tab_off_def tab_code_def fun_eq_iff upd_var_counters)
  have code: "tab_code tab v" using tab_indexD(3) [OF ix, of m] m by simp
  have var: "var_from_index t w = (if w = v then (var_from_index tab v)\<lparr>var_index := -1\<rparr> else var_from_index tab w)"
    if "tab_code tab w" for w
  proof -
    have "var_from_index t w = var_from_index (upd_var v (\<lambda>var. var\<lparr>var_index := -1\<rparr>) tab) w"
      by (simp add: t var_from_index_def)
    then show ?thesis using var_upd_var [OF sh that code] by simp
  qed
  then show nn: "tab_code tab w \<Longrightarrow> nonneg t w = nonneg tab w" for w by (simp add: nonneg_def)
  show "tab_code tab w \<Longrightarrow> is_zero (var_from_index t w) = is_zero (var_from_index tab w)" using var by simp
  have rv: "row_var tab ! r \<noteq> v" if "r < t_row tab" for r using tab_index_inj(3) [OF ix that, of m] m by simp
  have cv: "col_var tab ! c = v \<longleftrightarrow> c = m" if "c < t_col tab" for c using tab_index_inj(2) [OF ix that, of m] m by auto
  have rows: "tab_rows t = tab_rows tab" "live_rows t = live_rows tab" by (simp_all add: tab_rows_def live_rows_def f)
  have vrow: "v \<notin> fst ` tab_rows tab" "v \<notin> fst ` live_rows tab" unfolding fst_rows using rv by (metis (no_types, lifting) atLeastLessThan_iff imageE)+
  have "{0..<t_col tab} = insert m {0..<m}" using m(1) by auto
  then have cvs: "col_vars tab = insert v (col_vars t)" by (simp add: col_vars_def f m(3))
  have cne: "col_var tab ! c \<noteq> v" if "c < m" for c using cv [of c] that m(1) by simp
  then have "v \<notin> col_vars t" unfolding col_vars_def f by (metis (no_types, lifting) atLeastLessThan_iff imageE)
  with cvs vrow show vars: "tab_vars t = tab_vars tab - {v}" "live_vars t = live_vars tab - {v}"
    by (auto simp: tab_vars_def live_vars_def rows)
  have hold: "row_holds t 0 x r \<longleftrightarrow> row_holds tab 0 (x(v := 0)) r" if r: "r < t_row tab" for x r
  proof -
    let ?p = "mat_row (tab_mat tab) ! r"
    have split: "{1..<tab_off tab + t_col tab} = insert (tab_off tab + m) {1..<tab_off tab + m}"
      using m(1) tab_off_ge(1) [of tab] by auto
    have last0: "colval tab 0 (x(v := 0)) (tab_off tab + m) = 0" unfolding colval_at by (simp add: m(3))
    have "row_sum (tab_off tab + t_col tab) ?p (colval tab 0 (x(v := 0))) = row_sum (tab_off tab + m) ?p (colval tab 0 (x(v := 0)))"
      unfolding row_sum_def split by (subst sum.insert) (auto simp: last0)
    also have "\<dots> = row_sum (tab_off tab + m) ?p (colval t 0 x)"
    proof -
      have "colval tab 0 (x(v := 0)) k = colval t 0 x k" if "k < tab_off tab + m" for k
        using that cne [of "k - tab_off tab"] by (auto simp: colval_def f)
      then show ?thesis unfolding row_sum_def by (intro sum.cong) auto
    qed
    finally show ?thesis using rv [OF r] by (simp add: row_holds_def row_eq_def f)
  qed
  show feas: "feasible t 0 x \<longleftrightarrow> feasible tab 0 (x(v := 0))" for x
  proof -
    have "sat t 0 x \<longleftrightarrow> sat tab 0 (x(v := 0))" by (simp add: sat_def f hold)
    moreover have "(\<forall>w \<in> live_vars t. nonneg t w \<longrightarrow> 0 \<le> x w) \<longleftrightarrow> (\<forall>w \<in> live_vars tab. nonneg tab w \<longrightarrow> 0 \<le> (x(v := 0)) w)"
      using nn tab_vars_code [OF ok] live_rows_sub(2) [of tab] by (auto simp: vars subset_iff)
    moreover have "(\<forall>c < n_dead t. x (col_var t ! c) = 0) \<longleftrightarrow> (\<forall>c < n_dead tab. (x(v := 0)) (col_var tab ! c) = 0)"
      using cv m by (auto simp: f)
    ultimately show ?thesis by (simp add: feasible_def)
  qed
  have tok: "tab_ok t"
    unfolding tab_ok_def
  proof (intro conjI allI impI)
    have lens: "length (tab_var t) = length (tab_var tab)" "length (tab_con t) = length (tab_con tab)" "n_con t = n_con tab"
      by (simp_all add: t)
    show "tab_shape t" using sh m by (simp add: tab_shape_def f lens)
    show "tab_index t"
      unfolding tab_index_def f
    proof (intro conjI allI impI)
      fix r assume r: "r < t_row tab"
      show "tab_code tab (row_var tab ! r)" using tab_indexD(1) [OF ix r] .
      then show "at_row t (row_var tab ! r) r" using tab_indexD(2) [OF ix r] var rv [OF r] by (simp add: at_row_def)
    next
      fix c assume "c < m"
      then have c: "c < t_col tab" "c \<noteq> m" using m(1) by simp_all
      show "tab_code tab (col_var tab ! c)" using tab_indexD(3) [OF ix c(1)] .
      then show "at_col t (col_var tab ! c) c" using tab_indexD(4) [OF ix c(1)] var cv [OF c(1)] c(2) by (simp add: at_col_def)
    next
      fix w assume w: "tab_code tab w"
      show "var_index (var_from_index t w) = - 1 \<or> (\<exists>r<t_row tab. row_var tab ! r = w) \<or> (\<exists>c<m. col_var tab ! c = w)"
      proof (cases "w = v")
        case False
        then have "c \<noteq> m" if "col_var tab ! c = w" for c using that m(3) by auto
        then show ?thesis using tab_indexD(5) [OF ix w] var [OF w] False m(1) by (auto simp: less_Suc_eq)
      qed (use var code in simp)
    qed
    show "0 < tent t r 0" if "r < t_row t" for r using tab_okD(3) [OF ok] that by (simp add: f ent_def)
  qed
  have "implied t 0"
    using soundD(2) [OF so] nn tab_vars_code [OF ok] unfolding implied_def feas vars by fastforce
  then show st: "sound t" using so tok by (simp add: sound_def plain_def unlimited_def f)
  have rvl: "rval t = rval tab" by (simp add: rval_def fun_eq_iff f)
  show "sample t w = sample tab w" if "w \<in> live_vars t"
  proof -
    have "w \<noteq> v" "tab_code tab w" using that tab_vars_code [OF ok, of w] live_rows_sub(2) [of tab] by (auto simp: vars)
    then show ?thesis using var by (simp add: sample_def sol_def rvl)
  qed
qed


text \<open>Marking the variable as zero.\<close>

lemma mark_zero:
  assumes so: "sound tab" and v: "tab_code tab v" and t: "t = upd_var v (\<lambda>var. var\<lparr>is_zero := True\<rparr>) tab"
  shows "sound t" "feasible t 0 = feasible tab 0" "tab_vars t = tab_vars tab" "live_vars t = live_vars tab"
    "tab_code tab w \<Longrightarrow> nonneg t w = nonneg tab w" "w \<in> tab_vars tab \<Longrightarrow> sample t w = sample tab w"
    "tab_code tab w \<Longrightarrow> is_zero (var_from_index t w) = (w = v \<or> is_zero (var_from_index tab w))" "pivot_frame tab t"
proof -
  note ok = soundD(4) [OF so]
  have var: "var_from_index t w = (if w = v then (var_from_index tab v)\<lparr>is_zero := True\<rparr> else var_from_index tab w)" if "tab_code tab w" for w
    unfolding t using var_upd_var [OF tab_okD(1) [OF ok] that v] .
  then show nn: "tab_code tab w \<Longrightarrow> nonneg t w = nonneg tab w"
    "tab_code tab w \<Longrightarrow> is_zero (var_from_index t w) = (w = v \<or> is_zero (var_from_index tab w))" for w
    by (simp_all add: nonneg_def)
  have tok: "tab_ok t" unfolding t by (rule upd_var_ok [OF ok v]) simp_all
  have r: "tab_rows t = tab_rows tab" "live_rows t = live_rows tab" "col_vars t = col_vars tab" "colval t = colval tab"
    "tab_off t = tab_off tab" "t_col t = t_col tab" "n_dead t = n_dead tab" "col_var t = col_var tab" "rval t = rval tab" "coef t = coef tab"
    by (simp_all add: t col_vars_def colval_def rval_def coef_def fun_eq_iff)
  show vars: "tab_vars t = tab_vars tab" "live_vars t = live_vars tab" by (simp_all add: tab_vars_def live_vars_def r)
  have "nonneg t w = nonneg tab w" if "w \<in> tab_vars tab" for w using nn(1) tab_vars_code [OF ok that] by simp
  note nn' = this subsetD [OF live_rows_sub(2)]
  show feas: "feasible t 0 = feasible tab 0"
    by (auto simp: fun_eq_iff feasible_def sat_rows r vars nn')
  have "implied t 0 = implied tab 0" by (simp add: implied_def feas vars nn')
  then show "sound t" using so tok by (simp add: sound_def plain_def unlimited_def t upd_var_counters)
  show "sample t w = sample tab w" if "w \<in> tab_vars tab"
    using var [OF tab_vars_code [OF ok that]] by (simp add: sample_def sol_def r)
  show "pivot_frame tab t" unfolding t by (rule same_pivot_frame [OF upd_var_frame])
qed

lemma kill_col_run:
  assumes so: "sound tab" and c: "n_dead tab \<le> col" "col < t_col tab" and r: "isl_tab_kill_col tab col = (k, t)"
  shows "0 \<le> k" "kills tab (col_var tab ! col) t"
proof -
  let ?v = "col_var tab ! col"
  note ok = soundD(4) [OF so]
  define t0 where "t0 = upd_var ?v (\<lambda>var. var\<lparr>is_zero := True\<rparr>) tab"
  have code: "tab_code tab ?v" using tab_indexD(3) [OF tab_okD(2) [OF ok] c(2)] .
  note m = mark_zero [OF so code t0_def]
  define t1 where "t1 = (if need_undo tab then aside t0 (snd (isl_tab_push_var t0 isl_tab_undo_zero ?v)) else t0)"
  define j where "j = (if need_undo tab then n_dead tab else t_col tab - 1)"
  define t2 where "t2 = (if col \<noteq> j then swap_cols t1 col j else t1)"
  have f0: "t_col t0 = t_col tab" "n_dead t0 = n_dead tab" "col_var t0 = col_var tab" "tab_code t0 = tab_code tab" "need_undo t0 = need_undo tab"
    "t_row t0 = t_row tab"
    by (simp_all add: t0_def fun_eq_iff)
  have f1: "t_col t1 = t_col tab" "n_dead t1 = n_dead tab" "col_var t1 = col_var tab" "tab_code t1 = tab_code tab" "sound t1"
    "feasible t1 = feasible t0" "tab_vars t1 = tab_vars tab" "live_vars t1 = live_vars tab" "sample t1 = sample t0" "nonneg t1 = nonneg t0"
    "var_from_index t1 = var_from_index t0" "pivot_frame tab t1" "t_row t1 = t_row tab"
    using f0 m pivot_frame_trans [OF m(8) aside_sound(7)] by (simp_all add: t1_def aside_sound aside_frame) (simp_all add: aside_def)
  have j: "n_dead t1 \<le> j" "j < t_col t1" using c by (auto simp: j_def f1)
  have c1: "n_dead t1 \<le> col" "col < t_col t1" using c by (simp_all add: f1)
  note sw = swap_cols_ok [OF soundD(4) [OF f1(5)] c1(2) j(2)]
  note fr = row_frameD [OF swap_cols_run(1) [OF soundD(4) [OF f1(5)] c1(2) j(2)]]
  have lc: "col < length (col_var t1)" "j < length (col_var t1)"
    using tab_shapeD(4) [OF tab_okD(1) [OF soundD(4) [OF f1(5)]]] c1 j by linarith+
  have f2: "t_col t2 = t_col tab" "n_dead t2 = n_dead tab" "tab_code t2 = tab_code tab" "col_var t2 ! j = ?v" "sound t2"
    "feasible t2 0 = feasible t0 0" "tab_vars t2 = tab_vars tab" "live_vars t2 = live_vars tab" "pivot_frame tab t2" "t_row t2 = t_row tab"
    "w \<in> tab_vars tab \<Longrightarrow> sample t2 w = sample t0 w" "tab_code tab w \<Longrightarrow> nonneg t2 w = nonneg t0 w"
    "tab_code tab w \<Longrightarrow> is_zero (var_from_index t2 w) = is_zero (var_from_index t0 w)" for w
  proof -
    show "col_var t2 ! j = ?v"
      using swap_cols_run(2) [OF soundD(4) [OF f1(5)] c1(2) j(2)] lc by (auto simp: t2_def f1 nth_list_update)
    have "sound (swap_cols t1 col j)"
      using f1(5) sw c1 j tab_vars_code [OF soundD(4) [OF f1(5)]]
      by (simp add: sound_def plain_def unlimited_def fr implied_def)
    then show "sound t2" using f1(5) by (simp add: t2_def)
  qed (use sw fr f1 c1 j pivot_frame_trans in \<open>auto simp: t2_def\<close>)
  have live: "w \<in> live_vars tab \<and> nonneg t2 w = nonneg tab w \<and> sample t2 w = sample tab w" if "w \<in> live_vars tab" for w
    using that f2(11,12) m(5,6) live_rows_sub(2) [of tab] tab_vars_code [OF ok] by (metis subsetD)
  have iz: "is_zero (var_from_index t2 w) = (w = ?v \<or> is_zero (var_from_index tab w))" if "tab_code tab w" for w
    using f2(13) m(7) that by simp
  show "0 \<le> k" "kills tab ?v t"
  proof -
    have kc: "(k, t) = (if need_undo tab then (0, t2\<lparr>n_dead := n_dead t2 + 1\<rparr>)
        else (1, upd_var ?v (\<lambda>var. var\<lparr>var_index := -1\<rparr>) t2\<lparr>t_col := t_col t2 - 1\<rparr>))"
    proof (cases "need_undo tab")
      case True
      have "unlimited t0" using soundD(3) [OF m(1)] .
      then have "isl_tab_push_var t0 isl_tab_undo_zero ?v = (0, t1)"
        using True by (simp add: t1_def prod_eq_iff aside_def isl_tab_push_var_def push_union_def isl_ctx_next_operation_def unlimited_def)
      then show ?thesis
        using r True f0(2,3,5) f1(2) by (auto simp: isl_tab_kill_col_def Let_def t0_def [symmetric] t2_def j_def)
    next
      case False
      then have "col_var t2 ! (t_col t2 - 1) = ?v" using f2(1,4) by (simp add: j_def)
      moreover have "t_col t2 = t_col tab" by (rule f2(1))
      moreover have "t1 = t0" using False by (simp add: t1_def)
      ultimately show ?thesis
        using r False f0(1,5) f2(1) by (auto simp: isl_tab_kill_col_def Let_def t0_def [symmetric] t2_def j_def)
    qed
    show "0 \<le> k" using kc by (simp split: if_splits)
    show "kills tab ?v t"
    proof (cases "need_undo tab")
      case True
      then have t: "t = t2\<lparr>n_dead := n_dead t2 + 1\<rparr>" and jn: "j = n_dead t2" using kc f2(2) by (simp_all add: j_def)
      have "n_dead t2 < t_col t2" "?v = col_var t2 ! n_dead t2" using f2(1,2,4) c jn by auto
      note d = dead_col [OF f2(5) this t]
      have e: "x(?v := 0) = x" if "x ?v = 0" for x :: "int \<Rightarrow> rat" using that by auto
      have nn: "nonneg t = nonneg t2" by (simp add: nonneg_def fun_eq_iff d(5))
      have "col_frame tab t" using f2(9,10) by (simp add: col_frame_def pivot_frame_def same_frame_def t)
      then show ?thesis
        using d live iz f2(6,7,8) m(2) by (auto simp: kills_def nn e)
    next
      case False
      then have t: "t = upd_var ?v (\<lambda>var. var\<lparr>var_index := -1\<rparr>) t2\<lparr>t_col := t_col t2 - 1\<rparr>" and jn: "j = t_col t2 - 1"
        using kc f2(1) by (simp_all add: j_def)
      have "n_dead t2 < t_col t2" "?v = col_var t2 ! (t_col t2 - 1)" using f2(1,2,4) c jn by auto
      note d = drop_last_col [OF f2(5) this t]
      have e: "x(?v := 0) = x" if "x ?v = 0" for x :: "int \<Rightarrow> rat" using that by auto
      have "pivot_frame t2 (upd_var ?v (\<lambda>var. var\<lparr>var_index := -1\<rparr>) t2)" by (rule same_pivot_frame [OF upd_var_frame])
      then have "pivot_frame tab (upd_var ?v (\<lambda>var. var\<lparr>var_index := -1\<rparr>) t2)" using f2(9) pivot_frame_trans by blast
      then have "col_frame tab t" using f2(10) by (simp add: col_frame_def pivot_frame_def same_frame_def t)
      moreover have "w \<in> live_vars tab \<and> nonneg t w = nonneg tab w \<and> sample t w = sample tab w" if "w \<in> live_vars t" for w
      proof -
        have "w \<in> live_vars tab" "tab_code t2 w"
          using that d(4) f2(3,8) live_rows_sub(2) [of tab] tab_vars_code [OF ok] by auto
        then show ?thesis using live d(5) [OF that] d(6) by simp
      qed
      ultimately show ?thesis
        using d(1-3,7) iz f2(3,6,7) m(2) by (auto simp: kills_def e)
    qed
  qed
qed


lemma kills_code: "kills tab v t \<Longrightarrow> tab_code t = tab_code tab"
  by (auto simp: kills_def col_frame_def pivot_frame_def same_frame_def tab_code_def fun_eq_iff)

text \<open>What this means for the points.\<close>

lemma kills_points:
  assumes k: "kills tab v t"
  shows "points 0 t = point tab ` {x. feasible tab 0 x \<and> x v = 0}"
    and "zeros tab \<Longrightarrow> zeros t" and "sample_ok tab \<Longrightarrow> sample_ok t"
proof -
  have n: "n_var t = n_var tab"
    using k by (simp add: kills_def col_frame_def pivot_frame_def same_frame_def)
  have fwd: "\<And>x. feasible tab 0 x \<Longrightarrow> x v = 0 \<Longrightarrow> feasible t 0 x"
    and bwd: "\<And>x. feasible t 0 x \<Longrightarrow> feasible tab 0 (x(v := 0))" "\<And>x. feasible t 0 x \<Longrightarrow> v \<in> tab_vars t \<Longrightarrow> x v = 0"
    and vars: "w \<in> tab_vars t \<Longrightarrow> w \<in> tab_vars tab" "w \<in> tab_vars tab \<Longrightarrow> w \<noteq> v \<Longrightarrow> w \<in> tab_vars t"
    and live: "\<And>w. w \<in> live_vars t \<Longrightarrow> w \<in> live_vars tab \<and> nonneg t w = nonneg tab w \<and> sample t w = sample tab w"
    and iz: "\<And>w. tab_code tab w \<Longrightarrow> is_zero (var_from_index t w) = (w = v \<or> is_zero (var_from_index tab w))" for w
    using k by (auto simp: kills_def)
  have pt: "point t x = point tab x" if "x v = 0" for x
    using vars that by (auto simp: point_def n)
  have pt': "point t x = point t (x(v := 0))" if "feasible t 0 x" for x
    using bwd(2) [OF that] by (auto simp: point_def)
  show "points 0 t = point tab ` {x. feasible tab 0 x \<and> x v = 0}"
  proof (rule set_eqI, rule iffI)
    fix q assume "q \<in> points 0 t"
    then obtain x where x: "feasible t 0 x" "q = point t x" by (auto simp: points_point)
    then have "q = point tab (x(v := 0))" using pt [of "x(v := 0)"] pt' [OF x(1)] by simp
    then show "q \<in> point tab ` {x. feasible tab 0 x \<and> x v = 0}" using bwd(1) [OF x(1)] by auto
  next
    fix q assume "q \<in> point tab ` {x. feasible tab 0 x \<and> x v = 0}"
    then obtain x where x: "feasible tab 0 x" "x v = 0" "q = point tab x" by blast
    then have "q = point t x" using pt [of x] x(2) by simp
    then show "q \<in> points 0 t" using fwd [OF x(1,2)] by (auto simp: points_point)
  qed
  show "sample_ok t" if "sample_ok tab" using that live by (auto simp: sample_ok_def)
  assume z: "zeros tab"
  have iz': "is_zero (var_from_index t (int i)) = (int i = v \<or> is_zero (var_from_index tab (int i)))" if "i < n_var tab" for i
    using iz [of "int i"] that by (simp add: tab_code_def)
  have "x (int i) = 0" if x: "feasible t 0 x" and i: "i < n_var t" "is_zero (var_from_index t (int i))" "int i \<in> tab_vars t" for x i
  proof (cases "int i = v")
    case True
    then show ?thesis using bwd(2) [OF x] i(3) by simp
  next
    case False
    then have "is_zero (var_from_index tab (int i))" using iz' i n by simp
    then have "(x(v := 0)) (int i) = 0" using z bwd(1) [OF x] i(1,3) vars(1) n unfolding zeros_def by metis
    then show ?thesis using False by simp
  qed
  then show "zeros t" using z vars(2) iz' n by (auto simp: zeros_def located_def)
qed

end
