(* ===== verification/Tab_Build.thy ===== *)
theory Tab_Build imports Tab_Kill begin

text \<open>
  Building the tableau of a basic map (\<open>add_eq\<close>, \<open>isl_tab_from_basic_map\<close> of isl_tab.c):
  the tableau has the rational points of the constraints, and it is marked empty exactly if
  there are none.
\<close>

subsection \<open>Equalities\<close>

definition add_eq :: "isl_tab \<Rightarrow> isl_seq \<Rightarrow> isl_tab option" where
  "add_eq tab eq =
     (let (r, tab) = isl_tab_add_row tab eq
      in if r < 0 then None
         else let r = index_of tab (- 1 - r)
              in case isl_seq_first_non_zero (drop (tab_off tab + n_dead tab) (mat_row (tab_mat tab) ! r)) (t_col tab - n_dead tab) of
                   None \<Rightarrow> None
                 | Some i \<Rightarrow>
                     let i = i + n_dead tab;
                         (ok, tab) = isl_tab_pivot tab r i
                     in if ok < 0 then None
                        else let (ok, tab) = isl_tab_kill_col tab i
                             in if ok < 0 then None else Some (tab\<lparr>n_eq := n_eq tab + 1\<rparr>))"

subsection \<open>The tableau of a basic map\<close>

text \<open>
  What the function reads of \<open>struct isl_basic_map\<close>: the number of its variables, two flags
  and the constraints.
\<close>

record isl_basic_map =
  bmap_dim :: nat
  bmap_empty :: bool
  bmap_rational :: bool
  bmap_eq :: "isl_seq list"
  bmap_ineq :: "isl_seq list"

text \<open>
  Keeping the basic map in the tableau asks for the same number of constraints.  The status is
  modelled; the tableau has no field for the basic map.
\<close>

definition isl_tab_track_bmap :: "isl_tab \<Rightarrow> isl_basic_map \<Rightarrow> int" where
  "isl_tab_track_bmap tab bmap =
     (if tab_empty tab then 0
      else if n_eq tab \<noteq> length (bmap_eq bmap) then -1
      else if n_con tab \<noteq> length (bmap_eq bmap) + length (bmap_ineq bmap) then -1
      else 0)"

fun add_eqs :: "isl_tab \<Rightarrow> isl_seq list \<Rightarrow> isl_tab option" where
  "add_eqs tab [] = Some tab"
| "add_eqs tab (eq # eqs) = (case add_eq tab eq of None \<Rightarrow> None | Some tab \<Rightarrow> add_eqs tab eqs)"

fun add_ineqs :: "isl_tab \<Rightarrow> isl_seq list \<Rightarrow> (int \<times> isl_tab) option" where
  "add_ineqs tab [] = Some (0, tab)"
| "add_ineqs tab (ineq # ineqs) =
     (case isl_tab_add_ineq tab ineq of
        None \<Rightarrow> None
      | Some (ok, tab) \<Rightarrow>
          if ok < 0 then Some (-1, tab)
          else if tab_empty tab then Some (0, tab)
          else add_ineqs tab ineqs)"

text \<open>The outer option is \<^const>\<open>None\<close> if a search does not end, the inner one for \<open>NULL\<close>.\<close>

definition isl_tab_from_basic_map ::
    "isl_int junk \<Rightarrow> isl_tab_var junk \<Rightarrow> int junk \<Rightarrow> nat \<times> nat \<times> bool \<Rightarrow> isl_basic_map \<Rightarrow> bool \<Rightarrow> isl_tab option option" where
  "isl_tab_from_basic_map junk vjunk cjunk ops bmap track =
     (case isl_tab_alloc junk vjunk cjunk ops (bmap_dim bmap + length (bmap_ineq bmap) + 1) (bmap_dim bmap) False of
        Inl _ \<Rightarrow> Some None
      | Inr tab \<Rightarrow>
          let tab = tab\<lparr>preserve := track\<rparr>;
              tab = tab\<lparr>tab_rational := bmap_rational bmap\<rparr>;
              finish = (\<lambda>tab. if track \<and> isl_tab_track_bmap tab bmap < 0 then None else Some tab)
          in if bmap_empty bmap then
               let (ok, tab) = isl_tab_mark_empty tab in Some (if ok < 0 then None else finish tab)
             else case add_eqs tab (bmap_eq bmap) of
                    None \<Rightarrow> Some None
                  | Some tab \<Rightarrow>
                      map_option (\<lambda>(ok, tab). if ok < 0 then None else finish tab) (add_ineqs tab (bmap_ineq bmap)))"

subsection \<open>Adding an equality\<close>

text \<open>Before there are inequalities no variable outside the redundant rows is restricted.\<close>

definition free :: "isl_tab \<Rightarrow> bool" where
  "free tab \<longleftrightarrow> sound tab \<and> zeros tab \<and> (\<forall>w \<in> live_vars tab. \<not> nonneg tab w)"

lemma pivot_reach:
  assumes so: "sound tab" and p: "pivot_ok tab r c" and piv: "isl_tab_pivot tab r c = (k, t)"
  shows "k = 0" "reach tab t" "i < t_col tab \<Longrightarrow> col_var t ! i = (if i = c then row_var tab ! r else col_var tab ! i)"
proof -
  note s = soundD [OF so]
  let ?p = "pivoted tab r c"
  note pp = pivoted_plain [OF s(1) p]
  note run = tab_pivot_run [OF s(4) p s(2) order_refl s(3), unfolded piv fst_conv snd_conv]
  show "k = 0" by (rule run(1))
  have sf: "same_frame ?p t" using run(2) by (simp add: shrinks_def)
  note ts = shrinks_plain [OF pp(1) run(2)]
  have "sound t" using ts(1) run(2) s(3) unlimited_frame [OF sf] by (simp add: sound_def shrinks_def pivoted_unlimited)
  moreover have "keeps_points 0 tab t" using tab_pivot_keeps(4) [OF s(4) p s(2) order_refl s(3) piv] .
  moreover have "pivot_frame tab t" using pivot_frame_trans [OF pivoted_pivot_frame same_pivot_frame [OF sf]] .
  moreover have "w \<in> live_vars tab \<and> nonneg t w = nonneg tab w" if "w \<in> live_vars t" for w
    using ts(2) [OF that] pp(5,6) tab_vars_code [OF s(4)] live_rows_sub(2) [of tab] by blast
  moreover have "is_zero (var_from_index t w) = is_zero (var_from_index tab w)" if "tab_code tab w" for w
    using run(2) exchange_points(7,11) [OF s(4) p] that by (simp add: shrinks_def pivoted_frame)
  ultimately show "reach tab t" by (simp add: reach_def)
  show "i < t_col tab \<Longrightarrow> col_var t ! i = (if i = c then row_var tab ! r else col_var tab ! i)"
    using sf exchange_cols [OF s(1) p, of i] by (simp add: same_frame_def pivoted_frame)
qed

text \<open>A row without coefficient outside the dead columns has the same value at all points.\<close>

lemma constant_row:
  assumes so: "sound tab" and v: "live_row tab v r" and z: "\<And>c. n_dead tab \<le> c \<Longrightarrow> c < t_col tab \<Longrightarrow> tent tab r (tab_off tab + c) = 0"
    and x: "feasible tab 0 x"
  shows "x v = sample tab v"
proof -
  have "\<not> improves tab r s j" for s j using z by (auto simp: improves_def)
  then show ?thesis
    using no_improves_bound [OF soundD(1) [OF so] v, of 1 x] no_improves_bound [OF soundD(1) [OF so] v, of "-1" x] x by force
qed

lemma affine_upd:
  assumes "c < length q"
  shows "affine lin (q[c := q ! c + d]) = affine lin q + of_int (lin ! (1 + c)) * d"
proof -
  have "(\<Sum>i\<in>{..<length q} - {c}. of_int (lin ! (1 + i)) * q[c := q ! c + d] ! i) = (\<Sum>i\<in>{..<length q} - {c}. of_int (lin ! (1 + i)) * q ! i)"
    by (rule sum.cong) auto
  then show ?thesis using assms by (simp add: affine_def sum.remove [of _ c] distrib_left)
qed

text \<open>\<open>eq\<close> is not constant on the points of the tableau.\<close>

definition independent :: "isl_seq \<Rightarrow> rat list set \<Rightarrow> bool" where
  "independent eq S \<longleftrightarrow> (\<exists>p \<in> S. \<exists>q \<in> S. affine eq p \<noteq> affine eq q)"

lemma keeps_point: "keeps_points M a b \<Longrightarrow> n_var b = n_var a \<Longrightarrow> point b = point a"
  by (auto simp: point_def fun_eq_iff keeps_points_def)

lemma set_n_eq_frame:
  "sound (t\<lparr>n_eq := k\<rparr>) = sound t" "zeros (t\<lparr>n_eq := k\<rparr>) = zeros t" "points M (t\<lparr>n_eq := k\<rparr>) = points M t"
  "live_vars (t\<lparr>n_eq := k\<rparr>) = live_vars t" "nonneg (t\<lparr>n_eq := k\<rparr>) = nonneg t"
proof -
  note f = tab_frame [of "t\<lparr>n_eq := k\<rparr>" t]
  show "sound (t\<lparr>n_eq := k\<rparr>) = sound t" by (simp add: sound_def plain_def unlimited_def f)
  show "zeros (t\<lparr>n_eq := k\<rparr>) = zeros t" by (simp add: zeros_def located_def f)
  show "points M (t\<lparr>n_eq := k\<rparr>) = points M t" by (simp add: points_def f)
  show "live_vars (t\<lparr>n_eq := k\<rparr>) = live_vars t" "nonneg (t\<lparr>n_eq := k\<rparr>) = nonneg t" by (simp_all add: f)
qed

lemma kill_col_count:
  assumes "isl_tab_kill_col tab col = (k, t)" "\<not> need_undo tab"
  shows "t_col t = t_col tab - 1"
proof -
  have s: "t_col (swap_cols t i j) = t_col t" for t i j
    by (simp add: swap_cols_def Let_def swap_mat_cols_def swap_col_vars_def split: sum.split)
  show ?thesis using assms by (auto simp: isl_tab_kill_col_def Let_def s)
qed

text \<open>The tableau with the row of the equality: the row has an element to pivot on.\<close>

lemma add_eq_row:
  assumes fr: "free tab" and rm: "room tab" and ind: "independent eq (points 0 tab)"
  obtains t i where "isl_tab_add_row tab eq = (int (n_con tab), t)" "sound t" "zeros t"
    "live_row t (new_con tab) (t_row tab)" "\<forall>w \<in> live_vars t. \<not> nonneg t w"
    "\<forall>x. feasible t 0 x \<longleftrightarrow> feasible tab 0 x \<and> x (new_con tab) = affine eq (point tab x)" "point t = point tab"
    "isl_seq_first_non_zero (drop (tab_off t + n_dead t) (mat_row (tab_mat t) ! t_row tab)) (t_col t - n_dead t) = Some i"
    "pivot_ok t (t_row tab) (i + n_dead t)" "pivot_frame (tab\<lparr>n_con := n_con tab + 1\<rparr>) t" "t_row t = t_row tab + 1"
proof -
  have so: "sound tab" "zeros tab" "\<And>w. w \<in> live_vars tab \<Longrightarrow> \<not> nonneg tab w" using fr by (auto simp: free_def)
  define p where "p = add_row_seq tab eq (mat_row (tab_mat tab) ! t_row tab)"
  have nv: "new_var tab = (new_var tab)\<lparr>is_nonneg := False\<rparr>" by (simp add: new_var_def)
  define g where "g = grow tab p ((new_var tab)\<lparr>is_nonneg := False\<rparr>)"
  note gr = grown [OF so(1) rm so(2) p_def g_def]
  note nr = add_row_new(1) [OF so(1) rm so(2) p_def, of False]
  obtain s where s: "isl_tab_add_row tab eq = (int (n_con tab), aside g s)"
    using add_row_run [OF soundD(4) [OF so(1)] rm soundD(3) [OF so(1)] p_def] nv unfolding g_def by metis
  let ?t = "aside g s" and ?v = "new_con tab"
  have t: "sound ?t" "zeros ?t" "live_row ?t ?v (t_row tab)" "points 0 ?t = points 0 tab"
    using gr by (simp_all add: aside_sound)
  have feas: "\<forall>x. feasible ?t 0 x \<longleftrightarrow> feasible tab 0 x \<and> x ?v = affine eq (point tab x)"
    using gr(4) by (simp add: aside_frame)
  have gv: "tab_vars g = insert ?v (tab_vars tab)" "live_vars g = insert ?v (live_vars tab)"
    using grow_rows(3,4) [OF nr] by (simp_all add: g_def)
  have pt: "point ?t = point tab"
    by (simp add: point_def fun_eq_iff aside_frame gv) (simp add: aside_def g_def)
  have nn: "\<forall>w \<in> live_vars ?t. \<not> nonneg ?t w"
  proof
    fix w assume w: "w \<in> live_vars ?t"
    show "\<not> nonneg ?t w"
    proof (cases "w = ?v")
      case True
      then show ?thesis using grow_var(4) [OF nr] by (simp add: aside_frame g_def)
    next
      case False
      then have "w \<in> live_vars tab" using w by (simp add: aside_frame gv)
      then show ?thesis using so(3) grow_var(3) [OF nr] live_rows_sub(2) by (auto simp: aside_frame g_def)
    qed
  qed
  have pf: "pivot_frame (tab\<lparr>n_con := n_con tab + 1\<rparr>) ?t"
    using pivot_frame_trans [OF _ aside_sound(7) [of g s], of "tab\<lparr>n_con := n_con tab + 1\<rparr>"]
    by (simp add: g_def grow_def pivot_frame_def same_frame_def)
  have rows: "t_row ?t = t_row tab + 1" "n_redundant ?t = n_redundant tab" "t_row tab < t_row ?t"
    by (simp_all add: aside_frame g_def)
  let ?p = "mat_row (tab_mat ?t) ! t_row tab"
  have ln: "tab_off ?t + t_col ?t \<le> length ?p" "n_dead ?t \<le> t_col ?t"
    using tab_shapeD(2) [OF tab_okD(1) [OF soundD(4) [OF t(1)]] rows(3)] tab_shapeD(6) [OF tab_okD(1) [OF soundD(4) [OF t(1)]]] by auto
  have dr: "drop (tab_off ?t + n_dead ?t) ?p ! j = tent ?t (t_row tab) (tab_off ?t + (j + n_dead ?t))"
    if "j < t_col ?t - n_dead ?t" for j
    using that ln by (simp add: ent_def add_ac)
  show thesis
  proof (cases "isl_seq_first_non_zero (drop (tab_off ?t + n_dead ?t) ?p) (t_col ?t - n_dead ?t)")
    case None
    have "tent ?t (t_row tab) (tab_off ?t + c) = 0" if "n_dead ?t \<le> c" "c < t_col ?t" for c
      using None dr [of "c - n_dead ?t"] that by (auto simp: seq_simps)
    note const = constant_row [OF t(1,3) this]
    have "affine eq q = sample ?t ?v" if "q \<in> points 0 tab" for q
    proof -
      have "q \<in> points 0 ?t" using that t(4) by simp
      then obtain x where "feasible ?t 0 x" "q = point tab x" by (auto simp: points_point [of 0 ?t] pt)
      then show ?thesis using const [of x] feas by simp
    qed
    with ind show ?thesis by (auto simp: independent_def)
  next
    case (Some i)
    then have i: "i < t_col ?t - n_dead ?t" "drop (tab_off ?t + n_dead ?t) ?p ! i \<noteq> 0" by (simp_all add: seq_simps)
    have "pivot_ok ?t (t_row tab) (i + n_dead ?t)"
      using t(3) i dr [OF i(1)] by (simp add: pivot_ok_def live_row_def)
    from that [OF s t(1-3) nn feas pt Some this pf rows(1)] show ?thesis .
  qed
qed

lemma add_eq_run:
  assumes fr: "free tab" and rm: "room tab" and ind: "independent eq (points 0 tab)"
  shows "\<exists>t. add_eq tab eq = Some t \<and> free t \<and> points 0 t = {q \<in> points 0 tab. affine eq q = 0} \<and>
    t_row t \<le> t_row tab + 1 \<and> n_eq t = n_eq tab + 1 \<and>
    col_frame (tab\<lparr>n_con := n_con tab + 1\<rparr>) (t\<lparr>n_eq := n_eq tab, t_row := t_row tab\<rparr>) \<and>
    (\<not> need_undo tab \<longrightarrow> t_col tab = t_col t + 1)"
proof -
  let ?v = "new_con tab"
  obtain t1 i where a: "isl_tab_add_row tab eq = (int (n_con tab), t1)" "sound t1" "zeros t1" "live_row t1 ?v (t_row tab)"
    "\<forall>w \<in> live_vars t1. \<not> nonneg t1 w"
    "\<forall>x. feasible t1 0 x \<longleftrightarrow> feasible tab 0 x \<and> x ?v = affine eq (point tab x)" "point t1 = point tab"
    "isl_seq_first_non_zero (drop (tab_off t1 + n_dead t1) (mat_row (tab_mat t1) ! t_row tab)) (t_col t1 - n_dead t1) = Some i"
    "pivot_ok t1 (t_row tab) (i + n_dead t1)" "pivot_frame (tab\<lparr>n_con := n_con tab + 1\<rparr>) t1" "t_row t1 = t_row tab + 1"
    using add_eq_row [OF fr rm ind] by blast
  have ix: "index_of t1 ?v = t_row tab" using live_row_index_of [OF soundD(1) [OF a(2)] a(4)] .
  define c where "c = i + n_dead t1"
  obtain k t2 where pv: "isl_tab_pivot t1 (t_row tab) c = (k, t2)" by fastforce
  note pr = pivot_reach [OF a(2) a(9) [folded c_def] pv]
  have st2: "sound t2" using pr(2) by (simp add: reach_def)
  have c: "n_dead t1 \<le> c" "c < t_col t1" using a(9) by (simp_all add: pivot_ok_def c_def)
  have f2: "t_col t2 = t_col t1" "n_dead t2 = n_dead t1" "n_var t2 = n_var t1"
    using pr(2) by (simp_all add: reach_def pivot_frame_def same_frame_def)
  have cv: "col_var t2 ! c = ?v" using pr(3) [OF c(2)] a(4) by (simp add: live_row_def)
  have v2: "?v \<in> tab_vars t2" using imageI [of c "{0..<t_col t2}" "(!) (col_var t2)"] c f2 cv by (simp add: tab_vars_def col_vars_def)
  obtain k' t3 where kc: "isl_tab_kill_col t2 c = (k', t3)" by fastforce
  have "n_dead t2 \<le> c" "c < t_col t2" using c f2 by simp_all
  note kl = kill_col_run [OF st2 this kc, unfolded cv]
  note kp = kills_points [OF kl(2)]
  have run: "add_eq tab eq = Some (t3\<lparr>n_eq := n_eq t3 + 1\<rparr>)"
    using a(1,8) pr(1) kl(1) by (simp add: add_eq_def Let_def ix pv kc flip: c_def)
  have pt: "point t2 = point tab" using keeps_point [of 0 t1 t2] pr(2) f2(3) a(7) by (simp add: reach_def)
  have pts: "points 0 t3 = {q \<in> points 0 tab. affine eq q = 0}"
  proof (rule set_eqI, rule iffI)
    fix q assume "q \<in> points 0 t3"
    then obtain x where x: "feasible t2 0 x" "x ?v = 0" "q = point tab x" by (auto simp: kp(1) pt)
    have "keeps_points 0 t1 t2" using pr(2) by (simp add: reach_def)
    then obtain y where y: "feasible t1 0 y" "\<forall>w \<in> tab_vars t2. y w = x w" using x(1) unfolding keeps_points_def by blast
    have "point t2 y = point t2 x" using y(2) by (simp add: point_def)
    then have "q = point tab y" using x(3) by (simp add: pt)
    moreover have "feasible tab 0 y" "affine eq (point tab y) = 0" using a(6) y v2 x(2) by auto
    ultimately show "q \<in> {q \<in> points 0 tab. affine eq q = 0}" by (auto simp: points_point)
  next
    fix q assume "q \<in> {q \<in> points 0 tab. affine eq q = 0}"
    then obtain x where x: "feasible tab 0 x" "q = point tab x" "affine eq q = 0" by (auto simp: points_point)
    have ok: "tab_ok tab" using fr soundD(4) by (simp add: free_def)
    define y where "y = x(?v := 0)"
    have e: "y w = x w" if "w \<in> tab_vars tab" for w using that new_con_vars [OF ok] by (auto simp: y_def)
    have "feasible tab 0 y" using feasible_cong [OF ok, of y x] e x(1) by simp
    moreover have "point tab y = q" using e by (simp add: x(2) point_def)
    ultimately have "feasible t1 0 y" using x(3) by (simp add: a(6)) (simp add: y_def)
    then have "feasible t2 0 y" using pr(2) reach_feasible by blast
    then show "q \<in> points 0 t3" using \<open>point tab y = q\<close> by (auto simp: kp(1) pt y_def)
  qed
  have "free t3"
    unfolding free_def
  proof (intro conjI ballI)
    show "sound t3" using kl(2) by (simp add: kills_def)
    show "zeros t3" using kp(2) reach_zeros [OF a(3) pr(2)] by simp
    fix w assume "w \<in> live_vars t3"
    then have "w \<in> live_vars t2" "nonneg t3 w = nonneg t2 w" using kl(2) by (auto simp: kills_def)
    then show "\<not> nonneg t3 w" using pr(2) a(5) by (simp add: reach_def)
  qed
  moreover have "t_row t3 \<le> t_row tab + 1"
    using kl(2) reach_rows [OF soundD(4) [OF a(2)] pr(2)] a(11) by (simp add: kills_def col_frame_def)
  moreover have fr3: "pivot_frame (tab\<lparr>n_con := n_con tab + 1\<rparr>\<lparr>t_col := 0, n_dead := 0\<rparr>) (t3\<lparr>t_col := 0, n_dead := 0\<rparr>)"
  proof -
    have "pivot_frame (tab\<lparr>n_con := n_con tab + 1\<rparr>) t2" using pivot_frame_trans [OF a(10)] pr(2) by (simp add: reach_def)
    then have "pivot_frame (tab\<lparr>n_con := n_con tab + 1\<rparr>\<lparr>t_col := 0, n_dead := 0\<rparr>) (t2\<lparr>t_col := 0, n_dead := 0\<rparr>)"
      by (simp add: pivot_frame_def same_frame_def)
    moreover have "pivot_frame (t2\<lparr>t_col := 0, n_dead := 0\<rparr>) (t3\<lparr>t_col := 0, n_dead := 0\<rparr>)"
      using kl(2) by (simp add: kills_def col_frame_def)
    ultimately show ?thesis by (rule pivot_frame_trans)
  qed
  moreover have "n_eq t3 = n_eq tab" using fr3 by (simp add: pivot_frame_def same_frame_def)
  moreover have "t_col tab = t_col t3 + 1" if "\<not> need_undo tab"
  proof -
    have "\<not> need_undo t2" "t_col t1 = t_col tab"
      using that a(10) pr(2) by (simp_all add: reach_def pivot_frame_def same_frame_def)
    then show ?thesis using kill_col_count [OF kc] c f2 by simp
  qed
  ultimately show ?thesis
    using run pts by (simp add: free_def set_n_eq_frame col_frame_def pivot_frame_def same_frame_def)
qed


subsection \<open>The loops over the constraints\<close>

definition space :: "isl_tab \<Rightarrow> nat \<Rightarrow> bool" where
  "space tab k \<longleftrightarrow> t_row tab + k \<le> isl_mat.n_row (tab_mat tab) \<and> n_con tab + k \<le> max_con tab \<and>
     max_con tab \<le> length (tab_con tab) \<and> isl_mat.n_row (tab_mat tab) \<le> length (row_var tab)"

lemma space_room: "space tab (Suc k) \<Longrightarrow> room tab"
  by (simp add: space_def room_def)

lemma add_ineqs_run:
  "ready tab \<Longrightarrow> \<not> tab_empty tab \<Longrightarrow> \<not> tab_cone tab \<Longrightarrow> space tab (length ineqs) \<Longrightarrow>
   \<exists>t. add_ineqs tab ineqs = Some (0, t) \<and> ready t \<and> points 0 t = {q \<in> points 0 tab. \<forall>lin \<in> set ineqs. 0 \<le> affine lin q} \<and>
     n_eq t = n_eq tab \<and> (\<not> tab_empty t \<longrightarrow> n_con t = n_con tab + length ineqs)"
proof (induction ineqs arbitrary: tab)
  case (Cons lin ineqs)
  have rm: "room tab" using Cons.prems(4) space_room by simp
  from add_ineq_run [OF Cons.prems(1,2) rm Cons.prems(3)] obtain t where
    t: "isl_tab_add_ineq tab lin = Some (0, t)" "ready t" "one_more tab t" "points 0 t = {q \<in> points 0 tab. 0 \<le> affine lin q}"
    by blast
  have f: "n_eq t = n_eq tab" "n_con t = n_con tab + 1" "tab_cone t = tab_cone tab"
    using t(3) by (simp_all add: one_more_def pivot_frame_def same_frame_def)
  show ?case
  proof (cases "tab_empty t")
    case True
    then have e: "points 0 t = {}" using ready_empty [OF t(2)] by simp
    then have "{q \<in> points 0 tab. \<forall>l \<in> set (lin # ineqs). 0 \<le> affine l q} = {}" using t(4) by auto
    then show ?thesis using t(1,2) True f e by simp
  next
    case False
    have "space t (length ineqs)"
      using t(3) Cons.prems(4) by (simp add: one_more_def space_def pivot_frame_def same_frame_def)
    from Cons.IH [OF t(2) False _ this] Cons.prems(3) f(3) obtain t' where
      "add_ineqs t ineqs = Some (0, t')" "ready t'" "points 0 t' = {q \<in> points 0 t. \<forall>l \<in> set ineqs. 0 \<le> affine l q}"
      "n_eq t' = n_eq t" "\<not> tab_empty t' \<longrightarrow> n_con t' = n_con t + length ineqs" by auto
    then show ?thesis using t(1,4) False f by auto
  qed
qed (auto simp: ready_def)

definition solutions :: "nat \<Rightarrow> isl_seq list \<Rightarrow> rat list set" where
  "solutions n eqs = {q. length q = n \<and> (\<forall>lin \<in> set eqs. affine lin q = 0)}"

text \<open>Each equality has a variable that the equalities before it do not have, as after Gaussian elimination.\<close>

definition in_echelon :: "nat \<Rightarrow> isl_seq list \<Rightarrow> bool" where
  "in_echelon n eqs \<longleftrightarrow> (\<forall>i < length eqs. \<exists>c < n. eqs ! i ! (1 + c) \<noteq> 0 \<and> (\<forall>j < i. eqs ! j ! (1 + c) = 0))"

lemma in_echelon_independent:
  assumes "in_echelon n (ps @ lin # eqs)" "p \<in> solutions n ps"
  shows "independent lin (solutions n ps)"
proof -
  have "length ps < length (ps @ lin # eqs)" by simp
  with assms(1) obtain c where c: "c < n" "(ps @ lin # eqs) ! length ps ! (1 + c) \<noteq> 0"
    "\<forall>j < length ps. (ps @ lin # eqs) ! j ! (1 + c) = 0" unfolding in_echelon_def by blast
  have len: "length p = n" using assms(2) by (simp add: solutions_def)
  have "l ! (1 + c) = 0" if "l \<in> set ps" for l
    using that c(3) by (auto simp: in_set_conv_nth nth_append)
  then have "p[c := p ! c + 1] \<in> solutions n ps"
    using assms(2) c(1) by (auto simp: solutions_def affine_upd)
  moreover have "affine lin (p[c := p ! c + 1]) \<noteq> affine lin p" using c len by (simp add: affine_upd)
  ultimately show ?thesis using assms(2) by (auto simp: independent_def)
qed

lemma free_points: "free tab \<Longrightarrow> points 0 tab \<noteq> {}"
proof -
  assume f: "free tab"
  then have "feasible tab 0 (sample tab)" using sample_feasible [OF soundD(1)] by (auto simp: free_def)
  then show ?thesis by (auto simp: points_point)
qed

lemma add_eqs_run:
  "free tab \<Longrightarrow> points 0 tab = solutions n ps \<Longrightarrow> in_echelon n (ps @ eqs) \<Longrightarrow> \<not> need_undo tab \<Longrightarrow>
   space tab (t_col tab + Suc k) \<Longrightarrow>
   \<exists>t. add_eqs tab eqs = Some t \<and> free t \<and> points 0 t = solutions n (ps @ eqs) \<and> space t (t_col t + Suc k) \<and>
     n_eq t = n_eq tab + length eqs \<and> n_con t = n_con tab + length eqs \<and>
     tab_empty t = tab_empty tab \<and> tab_cone t = tab_cone tab"
proof (induction eqs arbitrary: tab ps)
  case (Cons lin eqs)
  have rm: "room tab" using Cons.prems(5) space_room by simp
  obtain p where "p \<in> solutions n ps" using free_points [OF Cons.prems(1)] Cons.prems(2) by auto
  from in_echelon_independent [OF Cons.prems(3) this] have ind: "independent lin (points 0 tab)"
    unfolding Cons.prems(2) .
  from add_eq_run [OF Cons.prems(1) rm ind] obtain t where
    t: "add_eq tab lin = Some t" "free t" "points 0 t = {q \<in> points 0 tab. affine lin q = 0}"
    "t_row t \<le> t_row tab + 1" "n_eq t = n_eq tab + 1"
    "col_frame (tab\<lparr>n_con := n_con tab + 1\<rparr>) (t\<lparr>n_eq := n_eq tab, t_row := t_row tab\<rparr>)"
    "t_col tab = t_col t + 1" using Cons.prems(4) by blast
  have f: "n_con t = n_con tab + 1" "tab_empty t = tab_empty tab" "tab_cone t = tab_cone tab" "need_undo t = need_undo tab"
    "space t (t_col t + Suc k)"
    using t(4,6,7) Cons.prems(5) by (simp_all add: col_frame_def pivot_frame_def same_frame_def space_def)
  have "points 0 t = solutions n (ps @ [lin])" using t(3) Cons.prems(2) by (auto simp: solutions_def)
  with Cons.IH [OF t(2), of "ps @ [lin]"] Cons.prems(3,4) f(4,5) obtain t' where
    "add_eqs t eqs = Some t'" "free t'" "points 0 t' = solutions n (ps @ lin # eqs)" "space t' (t_col t' + Suc k)"
     "n_eq t' = n_eq t + length eqs" "n_con t' = n_con t + length eqs" "tab_empty t' = tab_empty t" "tab_cone t' = tab_cone t"
    by auto
  then show ?case using t(1,5) f by simp
qed simp

subsection \<open>The whole function\<close>

lemma tab_alloc_run:
  assumes nr: "nr < 2 ^ 32" and nv: "2 + nv < 2 ^ 32" and ops: "snd ops = (0, False)"
  obtains tab where "isl_tab_alloc junk vjunk cjunk ops nr nv False = Inr tab" "free tab" "points 0 tab = solutions nv []"
    "space tab nr" "t_col tab = nv" "\<not> need_undo tab" "\<not> tab_empty tab" "\<not> tab_cone tab" "n_con tab = 0" "n_eq tab = 0"
proof -
  obtain M where M: "isl_mat_alloc junk nr (2 + nv) = Inr M" "isl_mat.n_row M = nr" "isl_mat.n_col M = 2 + nv" "mat_ok M"
    by (simp add: isl_mat_alloc_mk)
  obtain tab where al: "isl_tab_alloc junk vjunk cjunk ops nr nv False = Inr tab"
    and f: "tab_mat tab = M" "t_row tab = 0" "t_col tab = nv" "n_dead tab = 0" "n_redundant tab = 0" "n_var tab = nv" "n_con tab = 0"
      "n_eq tab = 0" "max_con tab = nr" "tab_var tab = map (\<lambda>i. fresh_tab_var (int i) False) [0..<nv]" "length (tab_con tab) = nr"
      "length (row_var tab) = nr" "col_var tab = map int [0..<nv]" "\<not> need_undo tab" "\<not> tab_empty tab" "\<not> tab_cone tab"
      "\<not> tab_M tab" "op_limit tab = (0, False)" "tab_off tab = 2"
    using M(1) ops by (simp add: isl_tab_alloc_def take1_def tab_off_def)
  have code: "tab_code tab v \<longleftrightarrow> 0 \<le> v \<and> nat v < nv" for v by (auto simp: tab_code_def f)
  have var: "var_from_index tab v = fresh_tab_var v False" if "tab_code tab v" for v
    using that by (auto simp: code var_from_index_def f)
  have vars: "tab_vars tab = int ` {0..<nv}" "live_vars tab = int ` {0..<nv}" "tab_rows tab = {}"
    by (auto simp: tab_vars_def live_vars_def tab_rows_def live_rows_def col_vars_def f image_iff)
  have nn: "\<not> nonneg tab v" if "v \<in> int ` {0..<nv}" for v
    using that var [of v] by (auto simp: nonneg_def code fresh_tab_var_def)
  have feas: "feasible tab 0 x" for x using nn by (simp add: feasible_def sat_rows vars f)
  have "tab_index tab"
    unfolding tab_index_def
  proof (intro conjI allI impI)
    fix c assume "c < t_col tab"
    then show "tab_code tab (col_var tab ! c)" "at_col tab (col_var tab ! c) c"
      using var [of "int c"] by (simp_all add: f code at_col_def fresh_tab_var_def)
  next
    fix v assume "tab_code tab v"
    then have "nat v < t_col tab" "col_var tab ! nat v = v" by (auto simp: code f)
    then show "var_index (var_from_index tab v) = - 1 \<or> (\<exists>r<t_row tab. row_var tab ! r = v) \<or> (\<exists>c<t_col tab. col_var tab ! c = v)"
      by blast
  qed (simp_all add: f)
  moreover have "tab_shape tab" using M nr nv by (simp add: tab_shape_def f)
  ultimately have "sound tab" using nn f by (simp add: sound_def plain_def unlimited_def tab_ok_def implied_def vars)
  moreover have "zeros tab"
    using var by (auto simp: zeros_def located_def vars f code fresh_tab_var_def)
  ultimately have fr: "free tab" using nn by (auto simp: free_def vars)
  have pt: "point tab x = map (\<lambda>i. x (int i)) [0..<nv]" for x by (simp add: point_def vars f)
  have "q \<in> points 0 tab" if "length q = nv" for q
  proof -
    have "point tab (\<lambda>v. q ! nat v) = q" unfolding pt using that by (intro nth_equalityI) simp_all
    then show ?thesis using feas by (metis (mono_tags, lifting) points_point image_eqI mem_Collect_eq)
  qed
  then have "points 0 tab = solutions nv []" by (auto simp: points_point pt solutions_def)
  from that [OF al fr this] show thesis using f M(2) by (simp add: space_def)
qed

text \<open>The rational points of a basic map.\<close>

definition bmap_points :: "isl_basic_map \<Rightarrow> rat list set" where
  "bmap_points bmap = (if bmap_empty bmap then {}
     else {q. length q = bmap_dim bmap \<and> (\<forall>eq \<in> set (bmap_eq bmap). affine eq q = 0) \<and>
              (\<forall>ineq \<in> set (bmap_ineq bmap). 0 \<le> affine ineq q)})"

lemma set_flags_frame:
  assumes "t = tab\<lparr>preserve := b, tab_rational := c\<rparr>"
  shows "free t = free tab" "points M t = points M tab" "space t k = space tab k"
proof -
  have e: "tab_mat t = tab_mat tab" "t_row t = t_row tab" "t_col t = t_col tab" "n_dead t = n_dead tab"
    "n_redundant t = n_redundant tab" "n_var t = n_var tab" "n_con t = n_con tab" "row_var t = row_var tab"
    "col_var t = col_var tab" "tab_M t = tab_M tab" "tab_var t = tab_var tab" "tab_con t = tab_con tab"
    "op_limit t = op_limit tab" "max_con t = max_con tab"
    by (simp_all add: assms)
  note f = tab_frame [OF e(1-12)]
  show "free t = free tab" by (simp add: free_def sound_def plain_def unlimited_def zeros_def located_def f e)
  show "points M t = points M tab" by (simp add: points_def f e)
  show "space t k = space tab k" by (simp add: space_def e)
qed

lemma from_basic_map_run:
  assumes el: "in_echelon (bmap_dim bmap) (bmap_eq bmap)" and n: "bmap_dim bmap + length (bmap_ineq bmap) + 2 < 2 ^ 32"
    and ops: "snd ops = (0, False)"
  shows "\<exists>t. isl_tab_from_basic_map junk vjunk cjunk ops bmap track = Some (Some t) \<and>
    (tab_empty t \<longleftrightarrow> bmap_points bmap = {}) \<and> (\<not> tab_empty t \<longrightarrow> ready t \<and> points 0 t = bmap_points bmap)"
proof -
  let ?n = "bmap_dim bmap" and ?nr = "bmap_dim bmap + length (bmap_ineq bmap) + 1"
  have sz: "?nr < 2 ^ 32" "2 + ?n < 2 ^ 32" using n by linarith+
  obtain t0 where t0: "isl_tab_alloc junk vjunk cjunk ops ?nr ?n False = Inr t0" "free t0" "points 0 t0 = solutions ?n []"
    "space t0 ?nr" "t_col t0 = ?n" "\<not> need_undo t0" "\<not> tab_empty t0" "\<not> tab_cone t0" "n_con t0 = 0" "n_eq t0 = 0"
    using tab_alloc_run [OF sz ops] by blast
  define t1 where "t1 = t0\<lparr>preserve := track, tab_rational := bmap_rational bmap\<rparr>"
  note fl = set_flags_frame [OF t1_def]
  have t1: "free t1" "points 0 t1 = solutions ?n []" "space t1 (t_col t1 + Suc (length (bmap_ineq bmap)))" "\<not> need_undo t1"
    "\<not> tab_empty t1" "\<not> tab_cone t1" "n_con t1 = 0" "n_eq t1 = 0"
    using t0 by (simp_all add: fl) (simp_all add: t1_def)
  have t1': "t0\<lparr>preserve := track\<rparr>\<lparr>tab_rational := bmap_rational bmap\<rparr> = t1" by (simp add: t1_def)
  show ?thesis
  proof (cases "bmap_empty bmap")
    case True
    have "unlimited t1" using t1(1) soundD(3) by (simp add: free_def)
    then obtain s where s: "isl_tab_mark_empty t1 = (0, aside t1 s\<lparr>tab_empty := True\<rparr>)" using mark_empty_run by blast
    then show ?thesis
      unfolding isl_tab_from_basic_map_def t0(1) sum.case Let_def t1'
      using True by (simp add: isl_tab_track_bmap_def bmap_points_def)
  next
    case False
    from add_eqs_run [OF t1(1,2) _ t1(4,3), of "bmap_eq bmap"] el t1(5-8) obtain t2 where
      t2: "add_eqs t1 (bmap_eq bmap) = Some t2" "free t2" "points 0 t2 = solutions ?n (bmap_eq bmap)"
      "space t2 (t_col t2 + Suc (length (bmap_ineq bmap)))" "n_eq t2 = length (bmap_eq bmap)" "n_con t2 = length (bmap_eq bmap)"
      "\<not> tab_empty t2" "\<not> tab_cone t2" by auto
    have r2: "ready t2" using t2(2,7) by (simp add: ready_def free_def sample_ok_def)
    have s2: "space t2 (length (bmap_ineq bmap))" using t2(4) by (simp add: space_def)
    from add_ineqs_run [OF r2 t2(7,8) s2] obtain t3 where
      t3: "add_ineqs t2 (bmap_ineq bmap) = Some (0, t3)" "ready t3"
      "points 0 t3 = {q \<in> points 0 t2. \<forall>lin \<in> set (bmap_ineq bmap). 0 \<le> affine lin q}"
      "n_eq t3 = n_eq t2" "\<not> tab_empty t3 \<longrightarrow> n_con t3 = n_con t2 + length (bmap_ineq bmap)" by blast
    have pts: "points 0 t3 = bmap_points bmap"
      using t3(3) t2(3) False by (auto simp: bmap_points_def solutions_def)
    have "\<not> isl_tab_track_bmap t3 bmap < 0" using t3(4,5) t2(5,6) by (simp add: isl_tab_track_bmap_def)
    then have "isl_tab_from_basic_map junk vjunk cjunk ops bmap track = Some (Some t3)"
      unfolding isl_tab_from_basic_map_def t0(1) sum.case Let_def t1' using False by (simp add: t2(1) t3(1))
    then show ?thesis using ready_empty [OF t3(2)] t3(2) pts by blast
  qed
qed


text \<open>
  C1: building a tableau.  For a basic map whose equalities have been through Gaussian
  elimination, in a context without quota of operations that is not asked to abort, \<open>isl_tab_from_basic_map\<close> ends and
  returns a tableau.  The tableau is marked empty exactly if no rational point satisfies the
  constraints (or the basic map carries the flag of the empty set); otherwise its points are
  the rational points of the basic map, whatever the new memory contained and whether the
  basic map is tracked or not.
\<close>

theorem from_basic_map_decides:
  assumes "in_echelon (bmap_dim bmap) (bmap_eq bmap)" and "bmap_dim bmap + length (bmap_ineq bmap) + 2 < 2 ^ 32"
    and "snd ops = (0, False)"
  shows "\<exists>t. isl_tab_from_basic_map junk vjunk cjunk ops bmap track = Some (Some t) \<and>
    (tab_empty t \<longleftrightarrow> bmap_points bmap = {}) \<and> (\<not> tab_empty t \<longrightarrow> ready t \<and> points 0 t = bmap_points bmap)"
  using assms by (rule from_basic_map_run)

text \<open>\<open>x = 2 y\<close> with \<open>1 \<le> x\<close> and \<open>x \<le> 3\<close>, or with \<open>1 \<le> x\<close> and \<open>y \<le> 0\<close>.\<close>

theorem from_basic_map_decides_witness:
  "(\<exists>t. isl_tab_from_basic_map (\<lambda>_. 7) (\<lambda>_. fresh_tab_var 9 True) (\<lambda>_. 5) (0, 0, False)
      \<lparr>bmap_dim = 2, bmap_empty = False, bmap_rational = True, bmap_eq = [[0, 1, -2]],
       bmap_ineq = [[-1, 1, 0], [3, -1, 0]]\<rparr> True = Some (Some t) \<and> \<not> tab_empty t \<and> [2, 1] \<in> points 0 t) \<and>
   (\<exists>t. isl_tab_from_basic_map (\<lambda>_. 7) (\<lambda>_. fresh_tab_var 9 True) (\<lambda>_. 5) (0, 0, False)
      \<lparr>bmap_dim = 2, bmap_empty = False, bmap_rational = True, bmap_eq = [[0, 1, -2]],
       bmap_ineq = [[-1, 1, 0], [0, 0, -1]]\<rparr> False = Some (Some t) \<and> tab_empty t)"
proof -
  let ?b = "\<lambda>ineqs. \<lparr>bmap_dim = 2, bmap_empty = False, bmap_rational = True, bmap_eq = [[0, 1, -2]], bmap_ineq = ineqs\<rparr>"
  have el: "in_echelon (bmap_dim (?b ineqs)) (bmap_eq (?b ineqs))" for ineqs
    by (auto simp: in_echelon_def intro: exI [of _ 0])
  have sz: "bmap_dim (?b [a, c]) + length (bmap_ineq (?b [a, c])) + 2 < 2 ^ 32" for a c by simp
  have in1: "[2, 1] \<in> bmap_points (?b [[-1, 1, 0], [3, -1, 0]])"
    by (simp add: bmap_points_def affine_def numeral_2_eq_2)
  have "\<not> (affine [0, 1, -2] q = 0 \<and> 0 \<le> affine [-1, 1, 0] q \<and> 0 \<le> affine [0, 0, -1] q)" if "length q = 2" for q
    using that by (auto simp: affine_def numeral_2_eq_2)
  then have in2: "bmap_points (?b [[-1, 1, 0], [0, 0, -1]]) = {}" by (auto simp: bmap_points_def)
  have ops: "snd (0 :: nat, 0, False) = (0 :: nat, False)" by simp
  show ?thesis
    using from_basic_map_decides [of "?b [[-1, 1, 0], [3, -1, 0]]" "(0, 0, False)" "\<lambda>_. 7" "\<lambda>_. fresh_tab_var 9 True" "\<lambda>_. 5" True, OF el sz ops] in1
      from_basic_map_decides [of "?b [[-1, 1, 0], [0, 0, -1]]" "(0, 0, False)" "\<lambda>_. 7" "\<lambda>_. fresh_tab_var 9 True" "\<lambda>_. 5" False, OF el sz ops] in2
    by auto
qed

end
