(* ===== verification/Isl_Sort.thy ===== *)
theory Isl_Sort imports Prelude "HOL-Library.Multiset" begin

text \<open>
  The merge sort of isl_sort.c.  Positions are counted in elements; \<open>compare\<close> with its user
  argument is the parameter \<open>cmp\<close>; the buffer is memory with unknown contents that is
  shared by all levels of the recursion.
\<close>

subsection \<open>The code\<close>

definition memcpy :: "'a list \<Rightarrow> nat \<Rightarrow> 'a list \<Rightarrow> nat \<Rightarrow> nat \<Rightarrow> 'a list" where
  "memcpy dst d src s n = map (\<lambda>i. if d \<le> i \<and> i < d + n then src ! (s + (i - d)) else dst ! i) [0..<length dst]"

text \<open>The two inner loops.\<close>

function skip_le :: "('a \<Rightarrow> 'a \<Rightarrow> int) \<Rightarrow> 'a list \<Rightarrow> nat \<Rightarrow> nat \<Rightarrow> nat \<Rightarrow> nat" where
  "skip_le cmp array am hi lo =
     (if lo < am \<and> cmp (array ! lo) (array ! hi) \<le> 0 then skip_le cmp array am hi (lo + 1) else lo)"
  by pat_completeness auto
termination by (relation "measure (\<lambda>(cmp, array, am, hi, lo). am - lo)") auto

function skip_lt :: "('a \<Rightarrow> 'a \<Rightarrow> int) \<Rightarrow> 'a list \<Rightarrow> nat \<Rightarrow> nat \<Rightarrow> nat \<Rightarrow> nat" where
  "skip_lt cmp array ah lo hi =
     (if hi < ah \<and> cmp (array ! hi) (array ! lo) < 0 then skip_lt cmp array ah lo (hi + 1) else hi)"
  by pat_completeness auto
termination by (relation "measure (\<lambda>(cmp, array, ah, lo, hi). ah - hi)") auto

declare skip_le.simps [simp del] skip_lt.simps [simp del]

lemma skip_lt_ge: "hi \<le> skip_lt cmp array ah lo hi"
  by (induction cmp array ah lo hi rule: skip_lt.induct) (subst skip_lt.simps, force)

text \<open>The merge of \<open>al..am\<close> with \<open>am..ah\<close>; the result is the array and the buffer.\<close>

function merge_loop :: "('a \<Rightarrow> 'a \<Rightarrow> int) \<Rightarrow> 'a list \<Rightarrow> nat \<Rightarrow> nat \<Rightarrow> nat \<Rightarrow> nat \<Rightarrow> nat \<Rightarrow> nat \<Rightarrow> nat \<Rightarrow> 'a list \<Rightarrow> 'a list \<times> 'a list" where
  "merge_loop cmp array al am ah lo hi copied a1 buf =
     (let ls = lo; hs = hi;
          lo = (if al < lo \<or> am < hi then lo + 1 else lo);
          lo = skip_le cmp array am hi lo
      in if lo < am then
           let (a1, ls) = (if copied = 0 then (lo, lo) else (a1, ls));
               hi = hi + 1;
               hi = skip_lt cmp array ah lo hi;
               (buf, copied) = (if ls < lo then (memcpy buf copied array ls (lo - ls), copied + (lo - ls)) else (buf, copied));
               buf = memcpy buf copied array hs (hi - hs);
               copied = copied + (hi - hs)
           in if hi < ah then merge_loop cmp array al am ah lo hi copied a1 buf
              else let (buf, copied) = (if lo < am then (memcpy buf copied array lo (am - lo), copied + (am - lo)) else (buf, copied))
                   in (memcpy array a1 buf 0 copied, buf)
         else if copied \<noteq> 0 then
           let buf = memcpy buf copied array ls (lo - ls);
               copied = copied + (lo - ls)
           in (memcpy array a1 buf 0 copied, buf)
         else (array, buf))"
  by pat_completeness auto
termination
proof (relation "measure (\<lambda>(cmp, array, al, am, ah, lo, hi, copied, a1, buf). ah - hi)", goal_cases)
  case (2 cmp array al am ah lo hi copied a1 buf ls hs lo1 lo2 p a1' ls' hi1 hi2 q buf1 copied1 buf2 copied2)
  then have "hi < hi2" using skip_lt_ge [of hi1] by (metis less_add_one order_less_le_trans)
  with 2 show ?case by simp
qed simp

declare merge_loop.simps [simp del]

definition MID :: "nat \<Rightarrow> nat \<Rightarrow> nat" where
  "MID lo hi = lo + ((hi - lo) div 2)"

function msort :: "('a \<Rightarrow> 'a \<Rightarrow> int) \<Rightarrow> 'a list \<Rightarrow> 'a list \<Rightarrow> nat \<Rightarrow> nat \<Rightarrow> 'a list \<times> 'a list" where
  "msort cmp array buf low high =
     (let mid = MID low high;
          (array, buf) = (if mid + 1 < high then msort cmp array buf (mid + 1) high else (array, buf));
          (array, buf) = (if low < mid then msort cmp array buf low mid else (array, buf));
          al = low; am = mid + 1; ah = high + 1
      in merge_loop cmp array al am ah al am 0 al buf)"
  by pat_completeness auto
termination
  by (relation "measure (\<lambda>(cmp, array, buf, low, high). high - low)") (auto simp: MID_def)

declare msort.simps [simp del]

text \<open>\<open>malloc\<close> is the memory that is allocated, if there is any.\<close>

definition MergeSort :: "'a junk option \<Rightarrow> 'a list \<Rightarrow> nat \<Rightarrow> ('a \<Rightarrow> 'a \<Rightarrow> int) \<Rightarrow> int \<times> 'a list" where
  "MergeSort malloc base nmemb cmp =
     (if nmemb < 2 then (0, base)
      else case malloc of
             None \<Rightarrow> (-1, base)
           | Some junk \<Rightarrow> (0, fst (msort cmp base (fresh junk nmemb) 0 (nmemb - 1))))"

definition isl_sort :: "'a junk option \<Rightarrow> 'a list \<Rightarrow> nat \<Rightarrow> ('a \<Rightarrow> 'a \<Rightarrow> int) \<Rightarrow> int \<times> 'a list" where
  "isl_sort malloc pbase total_elems cmp = MergeSort malloc pbase total_elems cmp"


subsection \<open>The reference\<close>

text \<open>A comparison function: a total preorder, the sign of which tells less from greater.\<close>

definition comparator :: "('a \<Rightarrow> 'a \<Rightarrow> int) \<Rightarrow> bool" where
  "comparator cmp \<longleftrightarrow> (\<forall>a b. cmp a b < 0 \<longleftrightarrow> 0 < cmp b a) \<and> (\<forall>a b c. cmp a b \<le> 0 \<longrightarrow> cmp b c \<le> 0 \<longrightarrow> cmp a c \<le> 0)"

lemma comparatorD:
  assumes "comparator cmp"
  shows "cmp a b \<le> 0 \<longleftrightarrow> \<not> cmp b a < 0" and "cmp a b \<le> 0 \<Longrightarrow> cmp b c \<le> 0 \<Longrightarrow> cmp a c \<le> 0"
    and "cmp a b = 0 \<longleftrightarrow> cmp a b \<le> 0 \<and> cmp b a \<le> 0"
proof -
  have s: "\<And>a b. cmp a b < 0 \<longleftrightarrow> 0 < cmp b a" using assms by (simp add: comparator_def)
  show "cmp a b \<le> 0 \<longleftrightarrow> \<not> cmp b a < 0" using s [of b a] by linarith
  show "cmp a b = 0 \<longleftrightarrow> cmp a b \<le> 0 \<and> cmp b a \<le> 0" using s [of a b] s [of b a] by linarith
  show "cmp a b \<le> 0 \<Longrightarrow> cmp b c \<le> 0 \<Longrightarrow> cmp a c \<le> 0" using assms unfolding comparator_def by blast
qed

fun merged :: "('a \<Rightarrow> 'a \<Rightarrow> int) \<Rightarrow> 'a list \<Rightarrow> 'a list \<Rightarrow> 'a list" where
  "merged cmp (x # xs) (y # ys) =
     (if cmp x y \<le> 0 then x # merged cmp xs (y # ys) else y # merged cmp (x # xs) ys)"
| "merged cmp [] ys = ys"
| "merged cmp xs [] = xs"

lemma merged_Nil [simp]: "merged cmp xs [] = xs"
  by (cases xs) simp_all

lemma mset_merged [simp]: "mset (merged cmp xs ys) = mset xs + mset ys"
  by (induction cmp xs ys rule: merged.induct) simp_all

lemma set_merged [simp]: "set (merged cmp xs ys) = set xs \<union> set ys"
  by (simp flip: set_mset_mset)

lemma length_merged [simp]: "length (merged cmp xs ys) = length xs + length ys"
  by (induction cmp xs ys rule: merged.induct) simp_all

definition ascending :: "('a \<Rightarrow> 'a \<Rightarrow> int) \<Rightarrow> 'a list \<Rightarrow> bool" where
  "ascending cmp = sorted_wrt (\<lambda>x y. cmp x y \<le> 0)"

lemma ascending_merged:
  assumes c: "comparator cmp" and "ascending cmp xs" and "ascending cmp ys"
  shows "ascending cmp (merged cmp xs ys)"
  using assms(2,3)
proof (induction xs arbitrary: ys)
  case Nil
  then show ?case by (simp add: ascending_def)
next
  case (Cons x xs)
  note outer = Cons
  from Cons.prems(2) show ?case
  proof (induction ys)
    case Nil
    then show ?case using outer by simp
  next
    case (Cons y ys)
    have rest: "\<forall>z\<in>set xs. cmp x z \<le> 0" "\<forall>z\<in>set ys. cmp y z \<le> 0"
      using Cons.prems outer(2) by (simp_all add: ascending_def)
    show ?case
    proof (cases "cmp x y \<le> 0")
      case True
      then have "\<forall>z\<in>set ys. cmp x z \<le> 0" using rest comparatorD(2) [OF c, of x y] by blast
      then show ?thesis using True rest outer Cons.prems by (simp add: ascending_def ball_Un)
    next
      case False
      then have le: "cmp y x \<le> 0" using comparatorD(1) [OF c, of y x] by simp
      then have "\<forall>z\<in>set xs. cmp y z \<le> 0" using rest comparatorD(2) [OF c, of y x] by blast
      then show ?thesis using False le rest outer Cons by (simp add: ascending_def ball_Un)
    qed
  qed
qed

text \<open>Two elements that compare equal keep their order: the elements of a class come in the order
  they had.\<close>

lemma class_merged:
  assumes c: "comparator cmp" and "ascending cmp xs" and "ascending cmp ys"
  shows "filter (\<lambda>y. cmp x y = 0) (merged cmp xs ys) = filter (\<lambda>y. cmp x y = 0) xs @ filter (\<lambda>y. cmp x y = 0) ys"
  using assms(2,3)
proof (induction xs arbitrary: ys)
  case (Cons a xs)
  note outer = Cons
  from Cons.prems(2) show ?case
  proof (induction ys)
    case (Cons b ys)
    show ?case
    proof (cases "cmp a b \<le> 0")
      case True
      then show ?thesis using outer Cons.prems by (simp add: ascending_def)
    next
      case False
      have none: "filter (\<lambda>y. cmp x y = 0) (a # xs) = []" if "cmp x b = 0"
      proof -
        have "cmp x z \<noteq> 0" if z: "z \<in> set (a # xs)" for z
        proof
          assume "cmp x z = 0"
          then have "cmp z x \<le> 0" "cmp x b \<le> 0" using comparatorD(3) [OF c, of x z] \<open>cmp x b = 0\<close> by simp_all
          then have "cmp z b \<le> 0" using comparatorD(2) [OF c] by blast
          moreover have "cmp a z \<le> 0"
            using z outer(2) comparatorD(1) [OF c, of a a] by (auto simp: ascending_def)
          ultimately show False using False comparatorD(2) [OF c, of a z b] by blast
        qed
        then show ?thesis by (simp add: filter_empty_conv)
      qed
      have "filter (\<lambda>y. cmp x y = 0) (merged cmp (a # xs) ys)
          = filter (\<lambda>y. cmp x y = 0) (a # xs) @ filter (\<lambda>y. cmp x y = 0) ys"
        using Cons by (simp add: ascending_def)
      then show ?thesis using False none by (cases "cmp x b = 0") simp_all
    qed
  qed simp
qed simp


subsection \<open>Segments of the array\<close>

definition seg :: "'a list \<Rightarrow> nat \<Rightarrow> nat \<Rightarrow> 'a list" where
  "seg a i j = take (j - i) (drop i a)"

lemma seg_same [simp]: "seg a i i = []"
  by (simp add: seg_def)

lemma length_seg [simp]: "j \<le> length a \<Longrightarrow> length (seg a i j) = j - i"
  by (simp add: seg_def)

lemma seg_Cons: "i < j \<Longrightarrow> j \<le> length a \<Longrightarrow> seg a i j = a ! i # seg a (Suc i) j"
  by (simp add: seg_def Cons_nth_drop_Suc [symmetric] take_Cons' diff_Suc_less)

lemma seg_append:
  assumes "i \<le> j" "j \<le> k"
  shows "seg a i j @ seg a j k = seg a i k"
proof -
  have "take (k - i) (drop i a) = take (j - i) (drop i a) @ take (k - j) (drop (j - i) (drop i a))"
    using assms take_add [of "j - i" "k - j" "drop i a"] by simp
  then show ?thesis using assms by (simp add: seg_def)
qed

lemma take_seg: "i \<le> j \<Longrightarrow> take i a @ seg a i j = take j a"
  by (simp add: seg_def) (metis le_add_diff_inverse take_add)

lemma seg_drop: "i \<le> j \<Longrightarrow> seg a i j @ drop j a = drop i a"
  by (simp add: seg_def) (metis append_take_drop_id drop_drop le_add_diff_inverse2)

lemma seg_cong: "drop i a = drop i b \<Longrightarrow> seg a i j = seg b i j"
  by (simp add: seg_def)

lemma length_memcpy [simp]: "length (memcpy dst d src s n) = length dst"
  by (simp add: memcpy_def)

lemma memcpy_0 [simp]: "memcpy dst d src s 0 = dst"
  by (rule nth_equalityI) (auto simp: memcpy_def)

lemma memcpy_run:
  assumes "d + n \<le> length dst" and "s + n \<le> length src"
  shows "memcpy dst d src s n = take d dst @ seg src s (s + n) @ drop (d + n) dst"
proof (rule nth_equalityI)
  fix i
  assume "i < length (memcpy dst d src s n)"
  then show "memcpy dst d src s n ! i = (take d dst @ seg src s (s + n) @ drop (d + n) dst) ! i"
    using assms by (cases "i < d"; cases "i < d + n") (auto simp: memcpy_def seg_def nth_append)
qed (use assms in \<open>simp add: memcpy_def\<close>)

text \<open>The buffer is filled from the front.\<close>

lemma take_memcpy:
  assumes "c + (j - i) \<le> length buf" and "i \<le> j" and "j \<le> length a"
  shows "take (c + (j - i)) (memcpy buf c a i (j - i)) = take c buf @ seg a i j"
  using assms by (simp add: memcpy_run)

lemma batch:
  "(if i < j then (memcpy buf c a i (j - i), c + (j - i)) else (buf, c)) = (memcpy buf c a i (j - i), c + (j - i))"
  by simp


subsection \<open>The merge\<close>

lemma skip_le_run:
  "lo \<le> am \<Longrightarrow> am \<le> length a \<Longrightarrow> hi < ah \<Longrightarrow> ah \<le> length a \<Longrightarrow>
   lo \<le> skip_le cmp a am hi lo \<and> skip_le cmp a am hi lo \<le> am \<and>
   merged cmp (seg a lo am) (seg a hi ah)
     = seg a lo (skip_le cmp a am hi lo) @ merged cmp (seg a (skip_le cmp a am hi lo) am) (seg a hi ah)"
proof (induction cmp a am hi lo rule: skip_le.induct)
  case (1 cmp a am hi lo)
  show ?case
  proof (cases "lo < am \<and> cmp (a ! lo) (a ! hi) \<le> 0")
    case True
    have eq: "skip_le cmp a am hi lo = skip_le cmp a am hi (lo + 1)"
      using True by (subst skip_le.simps) simp
    have IH: "Suc lo \<le> skip_le cmp a am hi (lo + 1)" "skip_le cmp a am hi (lo + 1) \<le> am"
      "merged cmp (seg a (Suc lo) am) (seg a hi ah) = seg a (Suc lo) (skip_le cmp a am hi (lo + 1))
         @ merged cmp (seg a (skip_le cmp a am hi (lo + 1)) am) (seg a hi ah)"
      using "1.IH" [OF True] True "1.prems" by simp_all
    have "merged cmp (seg a lo am) (seg a hi ah) = a ! lo # merged cmp (seg a (Suc lo) am) (seg a hi ah)"
      using True "1.prems" by (simp add: seg_Cons)
    then show ?thesis
      using IH(1,2) "1.prems" unfolding eq IH(3) by (simp add: seg_Cons)
  next
    case False
    then have "skip_le cmp a am hi lo = lo" by (subst skip_le.simps) auto
    then show ?thesis using "1.prems" by simp
  qed
qed

lemma skip_le_stops: "skip_le cmp a am hi lo < am \<Longrightarrow> \<not> cmp (a ! skip_le cmp a am hi lo) (a ! hi) \<le> 0"
proof (induction cmp a am hi lo rule: skip_le.induct)
  case (1 cmp a am hi lo)
  show ?case
  proof (cases "lo < am \<and> cmp (a ! lo) (a ! hi) \<le> 0")
    case True
    then have eq: "skip_le cmp a am hi lo = skip_le cmp a am hi (lo + 1)" by (subst skip_le.simps) simp
    show ?thesis using "1.IH" [OF True] "1.prems" unfolding eq .
  next
    case False
    then have "skip_le cmp a am hi lo = lo" by (subst skip_le.simps) auto
    then show ?thesis using False "1.prems" by simp
  qed
qed

lemma skip_lt_run:
  "comparator cmp \<Longrightarrow> lo < am \<Longrightarrow> am \<le> length a \<Longrightarrow> hi \<le> ah \<Longrightarrow> ah \<le> length a \<Longrightarrow>
   skip_lt cmp a ah lo hi \<le> ah \<and>
   merged cmp (seg a lo am) (seg a hi ah)
     = seg a hi (skip_lt cmp a ah lo hi) @ merged cmp (seg a lo am) (seg a (skip_lt cmp a ah lo hi) ah)"
proof (induction cmp a ah lo hi rule: skip_lt.induct)
  case (1 cmp a ah lo hi)
  show ?case
  proof (cases "hi < ah \<and> cmp (a ! hi) (a ! lo) < 0")
    case True
    have eq: "skip_lt cmp a ah lo hi = skip_lt cmp a ah lo (hi + 1)"
      using True by (subst skip_lt.simps) simp
    have IH: "skip_lt cmp a ah lo (hi + 1) \<le> ah"
      "merged cmp (seg a lo am) (seg a (Suc hi) ah) = seg a (Suc hi) (skip_lt cmp a ah lo (hi + 1))
         @ merged cmp (seg a lo am) (seg a (skip_lt cmp a ah lo (hi + 1)) ah)"
      using "1.IH" [OF True] True "1.prems" by simp_all
    have ge: "Suc hi \<le> skip_lt cmp a ah lo (hi + 1)" using skip_lt_ge [of "hi + 1"] by simp
    have "\<not> cmp (a ! lo) (a ! hi) \<le> 0" using True comparatorD(1) [OF "1.prems"(1)] by blast
    then have "merged cmp (seg a lo am) (seg a hi ah) = a ! hi # merged cmp (seg a lo am) (seg a (Suc hi) ah)"
      using True "1.prems" by (simp add: seg_Cons)
    then show ?thesis
      using IH(1) ge "1.prems" unfolding eq IH(2) by (simp add: seg_Cons)
  next
    case False
    then have "skip_lt cmp a ah lo hi = hi" by (subst skip_lt.simps) auto
    then show ?thesis using "1.prems" by simp
  qed
qed

lemma skip_lt_stops:
  "skip_lt cmp a ah lo hi < ah \<Longrightarrow> \<not> cmp (a ! skip_lt cmp a ah lo hi) (a ! lo) < 0"
proof (induction cmp a ah lo hi rule: skip_lt.induct)
  case (1 cmp a ah lo hi)
  show ?case
  proof (cases "hi < ah \<and> cmp (a ! hi) (a ! lo) < 0")
    case True
    then have eq: "skip_lt cmp a ah lo hi = skip_lt cmp a ah lo (hi + 1)" by (subst skip_lt.simps) simp
    show ?thesis using "1.IH" [OF True] "1.prems" unfolding eq .
  next
    case False
    then have "skip_lt cmp a ah lo hi = hi" by (subst skip_lt.simps) auto
    then show ?thesis using False "1.prems" by simp
  qed
qed

text \<open>The loop without the tests that only save a copy of nothing.\<close>

lemma merge_loop_step:
  assumes "lo2 = skip_le cmp a am hi (if al < lo \<or> am < hi then lo + 1 else lo)"
    and "hi2 = skip_lt cmp a ah lo2 (hi + 1)" and "ls1 = (if copied = 0 then lo2 else lo)" and "ls1 \<le> lo2" "lo \<le> lo2" "lo2 \<le> am"
    and "copied1 = copied + (lo2 - ls1)" and "buf1 = memcpy buf copied a ls1 (lo2 - ls1)"
    and "copied2 = copied1 + (hi2 - hi)" and "buf2 = memcpy buf1 copied1 a hi (hi2 - hi)"
  shows "merge_loop cmp a al am ah lo hi copied a1 buf =
    (if lo2 < am then
       if hi2 < ah then merge_loop cmp a al am ah lo2 hi2 copied2 (if copied = 0 then lo2 else a1) buf2
       else let buf3 = memcpy buf2 copied2 a lo2 (am - lo2)
            in (memcpy a (if copied = 0 then lo2 else a1) buf3 0 (copied2 + (am - lo2)), buf3)
     else if copied \<noteq> 0 then let buf3 = memcpy buf copied a lo (lo2 - lo)
            in (memcpy a a1 buf3 0 (copied + (lo2 - lo)), buf3)
     else (a, buf))"
proof (cases "copied = 0")
  case True
  show ?thesis
    by (subst merge_loop.simps) (simp add: Let_def True assms(1-3,7-10) batch)
next
  case False
  show ?thesis
    by (subst merge_loop.simps) (simp add: Let_def False assms(1-3,7-10) batch)
qed


lemma skip_le_started:
  assumes "lo < am" "am \<le> length a" "hi < ah" "ah \<le> length a" and b: "b \<longrightarrow> cmp (a ! lo) (a ! hi) \<le> 0"
    and l: "l = skip_le cmp a am hi (if b then lo + 1 else lo)"
  shows "lo \<le> l \<and> l \<le> am \<and>
    merged cmp (seg a lo am) (seg a hi ah) = seg a lo l @ merged cmp (seg a l am) (seg a hi ah)"
proof (cases b)
  case True
  have "Suc lo \<le> l \<and> l \<le> am \<and>
    merged cmp (seg a (Suc lo) am) (seg a hi ah) = seg a (Suc lo) l @ merged cmp (seg a l am) (seg a hi ah)"
    using skip_le_run [of "lo + 1" am a hi ah cmp] assms True by simp
  then show ?thesis using True assms by (simp add: seg_Cons)
next
  case False
  then show ?thesis using skip_le_run [of lo am a hi ah cmp] assms by simp
qed

text \<open>What is between the loop's rounds: the prefix \<open>al..a1\<close> of the array and the buffer hold what is
  merged so far.\<close>

definition copying :: "('a \<Rightarrow> 'a \<Rightarrow> int) \<Rightarrow> 'a list \<Rightarrow> nat \<Rightarrow> nat \<Rightarrow> nat \<Rightarrow> nat \<Rightarrow> nat \<Rightarrow> nat \<Rightarrow> nat \<Rightarrow> 'a list \<Rightarrow> bool" where
  "copying cmp a al am ah lo hi copied a1 buf \<longleftrightarrow>
     al \<le> a1 \<and> a1 \<le> lo \<and> lo < am \<and> am \<le> hi \<and> hi < ah \<and> ah \<le> length a \<and> ah - al \<le> length buf \<and>
     copied = (lo - a1) + (hi - am) \<and>
     (copied = 0 \<longrightarrow> hi = am \<and> lo = al \<and> a1 = al) \<and> (copied \<noteq> 0 \<longrightarrow> am < hi \<and> cmp (a ! lo) (a ! hi) \<le> 0)"

lemma merge_loop_run:
  assumes c: "comparator cmp"
  shows "copying cmp a al am ah lo hi copied a1 buf \<Longrightarrow>
    fst (merge_loop cmp a al am ah lo hi copied a1 buf)
      = take a1 a @ take copied buf @ merged cmp (seg a lo am) (seg a hi ah) @ drop ah a \<and>
    length (snd (merge_loop cmp a al am ah lo hi copied a1 buf)) = length buf"
proof (induction "ah - hi" arbitrary: lo hi copied a1 buf rule: less_induct)
  case less
  have al: "al \<le> a1" "a1 \<le> lo" "lo < am" "am \<le> hi" "hi < ah" "ah \<le> length a" "ah - al \<le> length buf"
    and cp: "copied = (lo - a1) + (hi - am)" and c0: "copied = 0 \<Longrightarrow> hi = am \<and> lo = al \<and> a1 = al"
    and c1: "copied \<noteq> 0 \<Longrightarrow> am < hi \<and> cmp (a ! lo) (a ! hi) \<le> 0"
    using less.prems unfolding copying_def by blast+
  define lo2 where lo2_def: "lo2 = skip_le cmp a am hi (if al < lo \<or> am < hi then lo + 1 else lo)"
  have "al < lo \<or> am < hi \<longrightarrow> cmp (a ! lo) (a ! hi) \<le> 0" using c0 c1 by fastforce
  then have l: "lo \<le> lo2" "lo2 \<le> am"
      "merged cmp (seg a lo am) (seg a hi ah) = seg a lo lo2 @ merged cmp (seg a lo2 am) (seg a hi ah)"
    using skip_le_started [OF al(3) _ al(5,6) _ lo2_def] al by simp_all
  define hi2 where hi2: "hi2 = skip_lt cmp a ah lo2 (hi + 1)"
  define ls1 where ls1: "ls1 = (if copied = 0 then lo2 else lo)"
  define copied1 where copied1: "copied1 = copied + (lo2 - ls1)"
  define buf1 where buf1: "buf1 = memcpy buf copied a ls1 (lo2 - ls1)"
  define copied2 where copied2: "copied2 = copied1 + (hi2 - hi)"
  define buf2 where buf2: "buf2 = memcpy buf1 copied1 a hi (hi2 - hi)"
  define a1' where a1': "a1' = (if copied = 0 then lo2 else a1)"
  have ls: "ls1 \<le> lo2" using l(1) by (simp add: ls1)
  note step = merge_loop_step [OF lo2_def hi2 ls1 ls l(1,2) copied1 buf1 copied2 buf2, of a1, folded a1']
  show ?case
  proof (cases "lo2 < am")
    case False
    then have lo2am: "lo2 = am" using l(2) by simp
    then have m: "merged cmp (seg a lo am) (seg a hi ah) = seg a lo am @ seg a hi ah" using l(3) by simp
    show ?thesis
    proof (cases "copied = 0")
      case True
      then have "take a1 a @ merged cmp (seg a lo am) (seg a hi ah) @ drop ah a = a"
        using c0 al unfolding m by (simp add: take_seg seg_drop flip: append_assoc)
      then show ?thesis unfolding step using True lo2am by simp
    next
      case copied: False
      define buf3 where "buf3 = memcpy buf copied a lo (am - lo)"
      have sz: "copied + (am - lo) \<le> length buf" "a1 + (copied + (am - lo)) = hi" using al cp by linarith+
      have "take (copied + (am - lo)) buf3 = take copied buf @ seg a lo am"
        unfolding buf3_def using al sz by (intro take_memcpy) simp_all
      moreover have "memcpy a a1 buf3 0 (copied + (am - lo)) = take a1 a @ take (copied + (am - lo)) buf3 @ drop hi a"
        using memcpy_run [of a1 "copied + (am - lo)" a 0 buf3] sz al by (simp add: buf3_def seg_def)
      moreover have "drop hi a = seg a hi ah @ drop ah a" using al by (simp add: seg_drop)
      ultimately have "memcpy a a1 buf3 0 (copied + (am - lo)) = take a1 a @ take copied buf @ seg a lo am @ seg a hi ah @ drop ah a"
        by simp
      then show ?thesis unfolding step m using copied lo2am by (simp add: buf3_def)
    qed
  next
    case lo2: True
    have h: "hi2 \<le> ah" "merged cmp (seg a lo2 am) (seg a (Suc hi) ah) = seg a (Suc hi) hi2 @ merged cmp (seg a lo2 am) (seg a hi2 ah)"
      using skip_lt_run [OF c lo2, of a "hi + 1" ah] al by (simp_all add: hi2)
    have gt: "hi < hi2" using skip_lt_ge [of "hi + 1" cmp a ah lo2] by (simp add: hi2)
    have "\<not> cmp (a ! lo2) (a ! hi) \<le> 0"
      using skip_le_stops [of cmp a am hi "if al < lo \<or> am < hi then lo + 1 else lo", folded lo2_def] lo2 by blast
    then have "merged cmp (seg a lo2 am) (seg a hi ah) = a ! hi # merged cmp (seg a lo2 am) (seg a (Suc hi) ah)"
      using lo2 al by (simp add: seg_Cons)
    then have h2: "merged cmp (seg a lo2 am) (seg a hi ah) = seg a hi hi2 @ merged cmp (seg a lo2 am) (seg a hi2 ah)"
      using h gt al by (simp add: seg_Cons)
    have sz: "a1' \<le> lo2" "al \<le> a1'" "copied1 + (hi2 - hi) \<le> length buf" "copied2 = (lo2 - a1') + (hi2 - am)"
    proof -
      have "a1' \<le> lo2 \<and> al \<le> a1' \<and> copied1 = (lo2 - a1') + (hi - am)"
      proof (cases "copied = 0")
        case True
        then show ?thesis using c0 al l by (simp add: a1' ls1 copied1)
      next
        case False
        then show ?thesis using cp al l by (simp add: a1' ls1 copied1)
      qed
      moreover have "hi2 - am = (hi - am) + (hi2 - hi)" using gt al by linarith
      ultimately show "a1' \<le> lo2" "al \<le> a1'" "copied1 + (hi2 - hi) \<le> length buf" "copied2 = (lo2 - a1') + (hi2 - am)"
        using al lo2 gt h unfolding copied2 by linarith+
    qed
    have t1: "take copied1 buf1 = take copied buf @ seg a ls1 lo2"
      unfolding copied1 buf1 using sz ls l al by (intro take_memcpy) (simp_all add: copied1)
    have "take copied2 buf2 = take copied1 buf1 @ seg a hi hi2"
      unfolding copied2 buf2 using sz h gt al by (intro take_memcpy) (simp_all add: buf1)
    then have t2: "take copied2 buf2 = take copied buf @ seg a ls1 lo2 @ seg a hi hi2" using t1 by simp
    have so_far: "take a1' a @ take copied2 buf2 = take a1 a @ take copied buf @ seg a lo lo2 @ seg a hi hi2"
    proof (cases "copied = 0")
      case True
      then show ?thesis using c0 l(1) unfolding t2 by (simp add: a1' ls1 take_seg flip: append_assoc)
    next
      case False
      then show ?thesis unfolding t2 by (simp add: a1' ls1)
    qed
    have lb: "length buf2 = length buf" by (simp add: buf2 buf1)
    show ?thesis
    proof (cases "hi2 < ah")
      case True
      have "\<not> cmp (a ! hi2) (a ! lo2) < 0" using skip_lt_stops [of cmp a ah lo2 "hi + 1"] True by (simp add: hi2)
      then have "cmp (a ! lo2) (a ! hi2) \<le> 0" using comparatorD(1) [OF c] by blast
      then have "copying cmp a al am ah lo2 hi2 copied2 a1' buf2"
        using True lo2 sz al gt lb unfolding copying_def by auto
      note IH = less.hyps [OF _ this]
      have eq: "merge_loop cmp a al am ah lo hi copied a1 buf = merge_loop cmp a al am ah lo2 hi2 copied2 a1' buf2"
        unfolding step using lo2 True by simp
      have "ah - hi2 < ah - hi" using gt al by linarith
      from IH [OF this] show ?thesis unfolding eq l(3) h2 using so_far lb by (simp flip: append_assoc)
    next
      case False
      then have hi2ah: "hi2 = ah" using h by simp
      define buf3 where "buf3 = memcpy buf2 copied2 a lo2 (am - lo2)"
      have sz3: "copied2 + (am - lo2) \<le> length buf2" "a1' + (copied2 + (am - lo2)) = ah"
        using sz lo2 al gt lb hi2ah by linarith+
      have "take (copied2 + (am - lo2)) buf3 = take copied2 buf2 @ seg a lo2 am"
        unfolding buf3_def using al sz3 lo2 by (intro take_memcpy) simp_all
      moreover have "memcpy a a1' buf3 0 (copied2 + (am - lo2)) = take a1' a @ take (copied2 + (am - lo2)) buf3 @ drop ah a"
        using memcpy_run [of a1' "copied2 + (am - lo2)" a 0 buf3] sz3 al by (simp add: buf3_def seg_def)
      ultimately have "memcpy a a1' buf3 0 (copied2 + (am - lo2)) = (take a1' a @ take copied2 buf2) @ seg a lo2 am @ drop ah a"
        by simp
      then show ?thesis unfolding step l(3) h2 so_far using lo2 hi2ah lb by (simp add: buf3_def Let_def)
    qed
  qed
qed


subsection \<open>The sort\<close>

definition sorts :: "('a \<Rightarrow> 'a \<Rightarrow> int) \<Rightarrow> 'a list \<Rightarrow> 'a list \<Rightarrow> bool" where
  "sorts cmp xs ys \<longleftrightarrow> ascending cmp ys \<and> mset ys = mset xs \<and>
     (\<forall>x. filter (\<lambda>y. cmp x y = 0) ys = filter (\<lambda>y. cmp x y = 0) xs)"

lemma sorts_single: "length xs \<le> 1 \<Longrightarrow> sorts cmp xs xs"
  by (cases xs) (simp_all add: sorts_def ascending_def)

lemma sorts_merged:
  assumes "comparator cmp" and "sorts cmp xs1 ys1" and "sorts cmp xs2 ys2"
  shows "sorts cmp (xs1 @ xs2) (merged cmp ys1 ys2)"
  using assms by (simp add: sorts_def ascending_merged class_merged)

lemma sorts_length: "sorts cmp xs ys \<Longrightarrow> length ys = length xs"
  unfolding sorts_def by (metis size_mset)

text \<open>The part \<open>i..j\<close> of the array is sorted, the rest is as it was.\<close>

definition part_sorted :: "('a \<Rightarrow> 'a \<Rightarrow> int) \<Rightarrow> nat \<Rightarrow> nat \<Rightarrow> 'a list \<Rightarrow> 'a list \<Rightarrow> bool" where
  "part_sorted cmp i j a a' \<longleftrightarrow> take i a' = take i a \<and> drop j a' = drop j a \<and> length a' = length a \<and>
     sorts cmp (seg a i j) (seg a' i j)"

lemma part_sorted_single: "i < j \<Longrightarrow> j \<le> i + 1 \<Longrightarrow> j \<le> length a \<Longrightarrow> part_sorted cmp i j a a"
  by (simp add: part_sorted_def sorts_single)

lemma seg_take: "j \<le> k \<Longrightarrow> seg (take k a) i j = seg a i j"
  by (cases "i \<le> j") (simp_all add: seg_def take_drop min_def)

text \<open>Two parts sorted one after the other, and merged.\<close>

lemma part_sorted_merge:
  assumes c: "comparator cmp" and ij: "i \<le> m" "m \<le> j" "j \<le> length a"
    and hi: "part_sorted cmp m j a a1" and lo: "part_sorted cmp i m a1 a2"
    and a3: "a3 = take i a2 @ merged cmp (seg a2 i m) (seg a2 m j) @ drop j a2"
  shows "part_sorted cmp i j a a3"
proof -
  have len: "length a1 = length a" "length a2 = length a" using hi lo by (simp_all add: part_sorted_def)
  have lo_seg: "seg a1 i m = seg a i m"
    using hi seg_take [of m m a1 i] seg_take [of m m a i] by (simp add: part_sorted_def)
  have drops: "drop m a2 = drop m a1" using lo by (simp add: part_sorted_def)
  then have hi_seg: "seg a2 m j = seg a1 m j" by (rule seg_cong)
  have "sorts cmp (seg a i m @ seg a m j) (merged cmp (seg a2 i m) (seg a2 m j))"
    using sorts_merged [OF c] hi lo lo_seg hi_seg by (simp add: part_sorted_def)
  then have s: "sorts cmp (seg a i j) (merged cmp (seg a2 i m) (seg a2 m j))" using ij by (simp add: seg_append)
  have "take i a2 = take i a" using lo hi ij unfolding part_sorted_def by (metis min.absorb1 take_take)
  moreover have "drop j a2 = drop j a"
    using drops hi ij unfolding part_sorted_def by (metis drop_drop le_add_diff_inverse2)
  ultimately show ?thesis
    using s ij len unfolding part_sorted_def a3 by (simp add: seg_def)
qed

lemma msort_run:
  assumes c: "comparator cmp"
  shows "low < high \<Longrightarrow> high < length a \<Longrightarrow> high - low < length buf \<Longrightarrow>
    part_sorted cmp low (high + 1) a (fst (msort cmp a buf low high)) \<and>
    length (snd (msort cmp a buf low high)) = length buf"
proof (induction "high - low" arbitrary: low high a buf rule: less_induct)
  case less
  obtain mid where mid_def: "mid = MID low high" by blast
  have mid: "low \<le> mid" "mid < high" using less.prems by (auto simp: mid_def MID_def)
  obtain a1 b1 where 1: "(a1, b1) = (if mid + 1 < high then msort cmp a buf (mid + 1) high else (a, buf))"
    by (metis surj_pair)
  have s1: "part_sorted cmp (mid + 1) (high + 1) a a1 \<and> length b1 = length buf"
  proof (cases "mid + 1 < high")
    case True
    then show ?thesis
      using less.hyps [of high "mid + 1" a buf] less.prems mid 1 by (metis (no_types, lifting) One_nat_def
          add.commute diff_less_mono2 fst_conv le_imp_less_Suc less_imp_diff_less less_trans plus_1_eq_Suc snd_conv
          diff_le_mono2 le_less_trans nat_less_le)
  next
    case False
    then show ?thesis using 1 mid less.prems part_sorted_single [of "mid + 1" "high + 1" a] by simp
  qed
  then have len1: "length a1 = length a" by (simp add: part_sorted_def)
  obtain a2 b2 where 2: "(a2, b2) = (if low < mid then msort cmp a1 b1 low mid else (a1, b1))"
    by (metis surj_pair)
  have s2: "part_sorted cmp low (mid + 1) a1 a2 \<and> length b2 = length buf"
  proof (cases "low < mid")
    case True
    then have "mid - low < high - low" "mid < length a1" "mid - low < length b1" using mid less.prems s1 len1 by linarith+
    then show ?thesis using less.hyps [of mid low a1 b1] True 2 s1 by (metis fst_conv snd_conv)
  next
    case False
    then show ?thesis using 2 s1 mid len1 less.prems part_sorted_single [of low "mid + 1" a1] by simp
  qed
  then have len2: "length a2 = length a" using len1 by (simp add: part_sorted_def)
  have eq: "msort cmp a buf low high = merge_loop cmp a2 low (mid + 1) (high + 1) low (mid + 1) 0 low b2"
    by (subst msort.simps) (simp only: Let_def prod.case mid_def [symmetric] 1 [symmetric] 2 [symmetric])
  have "copying cmp a2 low (mid + 1) (high + 1) low (mid + 1) 0 low b2"
    using mid less.prems s2 len2 by (simp add: copying_def)
  note m = merge_loop_run [OF c this]
  have res: "fst (msort cmp a buf low high)
      = take low a2 @ merged cmp (seg a2 low (mid + 1)) (seg a2 (mid + 1) (high + 1)) @ drop (high + 1) a2"
    using conjunct1 [OF m] unfolding eq by (simp only: take_0 append_Nil)
  have ord: "low \<le> mid + 1" "mid + 1 \<le> high + 1" "high + 1 \<le> length a" using mid less.prems by linarith+
  from part_sorted_merge [OF c ord conjunct1 [OF s1] conjunct1 [OF s2] res]
  show ?case using conjunct2 [OF m] s2 unfolding eq by (simp only: simp_thms)
qed

lemma isl_sort_run:
  assumes c: "comparator cmp" and n: "length base < 2 \<or> malloc \<noteq> None"
  shows "\<exists>base'. isl_sort malloc base (length base) cmp = (0, base') \<and> sorts cmp base base'"
proof (cases "length base < 2")
  case True
  then show ?thesis by (simp add: isl_sort_def MergeSort_def sorts_single)
next
  case False
  then obtain junk where m: "malloc = Some junk" using n by auto
  have "part_sorted cmp 0 (length base) base (fst (msort cmp base (fresh junk (length base)) 0 (length base - 1)))"
  proof -
    have n: "length base - 1 + 1 = length base" "0 < length base - 1" "length base - 1 < length base"
        "length base - 1 - 0 < length (fresh junk (length base))"
      using False by simp_all
    show ?thesis using conjunct1 [OF msort_run [OF c n(2-4)]] unfolding n(1) .
  qed
  moreover have "seg base 0 (length base) = base" "length a = length base \<Longrightarrow> seg a 0 (length base) = a" for a
    by (simp_all add: seg_def)
  moreover have "isl_sort malloc base (length base) cmp
      = (0, fst (msort cmp base (fresh junk (length base)) 0 (length base - 1)))"
    using False m by (simp add: isl_sort_def MergeSort_def)
  ultimately show ?thesis unfolding part_sorted_def by metis
qed


subsection \<open>The property\<close>

text \<open>
  C16: \<open>isl_sort\<close> sorts, and its sort is stable: with a comparison function that is a total
  preorder, it returns \<open>0\<close> and an array that is ascending, holds the same elements as
  often, and has the elements of every class of equal ones in the order they had; or it returns
  \<open>-1\<close>, only when there are two elements or more and the allocation of the buffer fails,
  and the array is as it was.
\<close>

theorem isl_sort_stable:
  assumes "comparator cmp"
  shows "\<exists>r base'. isl_sort malloc base (length base) cmp = (r, base') \<and>
    (r = 0 \<longrightarrow> sorted_wrt (\<lambda>x y. cmp x y \<le> 0) base' \<and> mset base' = mset base \<and>
       (\<forall>x. filter (\<lambda>y. cmp x y = 0) base' = filter (\<lambda>y. cmp x y = 0) base)) \<and>
    (r \<noteq> 0 \<longrightarrow> r = -1 \<and> malloc = None \<and> 2 \<le> length base \<and> base' = base)"
proof (cases "length base < 2 \<or> malloc \<noteq> None")
  case True
  from isl_sort_run [OF assms this] show ?thesis by (fastforce simp: sorts_def ascending_def)
next
  case False
  then show ?thesis by (simp add: isl_sort_def MergeSort_def)
qed

theorem isl_sort_stable_witness:
  "isl_sort (Some (\<lambda>_. (9, 9))) [(2, 0), (1, 1), (2, 2), (0, 3), (1, 4)] 5 (\<lambda>x y. fst x - fst y)
     = (0, [(0, 3), (1, 1), (1, 4), (2, 0), (2, 2 :: int)]) \<and>
   sorted_wrt (\<lambda>x y. fst x - fst y \<le> 0) [(0, 3), (1, 1), (1, 4), (2, 0), (2 :: int, 2 :: int)]"
proof -
  let ?cmp = "\<lambda>x y :: int \<times> int. fst x - fst y"
  let ?base = "[(2, 0), (1, 1), (2, 2), (0, 3), (1, 4)] :: (int \<times> int) list"
  have run: "isl_sort (Some (\<lambda>_. (9, 9))) ?base 5 ?cmp = (0, [(0, 3), (1, 1), (1, 4), (2, 0), (2, 2)])"
    by code_simp
  have n: "length ?base = 5" by simp
  have "comparator ?cmp" by (auto simp: comparator_def)
  from isl_sort_stable [OF this, of "Some (\<lambda>_. (9, 9))" ?base, unfolded n run] run
  show ?thesis by blast
qed

end
