(* ===== verification/Isl_Tarjan.thy ===== *)
theory Isl_Tarjan imports Prelude begin

text \<open>
  Tarjan's algorithm for strongly connected components (isl_tarjan.c).  The graph is given by
  the callback \<open>follows\<close>, a parameter: positive when there is an edge, zero when there is none,
  negative when it fails.  The arrays come from \<open>malloc\<close> with unknown contents.
\<close>

subsection \<open>The code\<close>

record isl_tarjan_node =
  nd_index :: int
  nd_min_index :: int
  nd_on_stack :: bool

record isl_tarjan_graph =
  g_len :: nat
  g_node :: "isl_tarjan_node list"
  g_stack :: "nat list"
  g_sp :: nat
  g_index :: int
  g_order :: "int list"
  g_op :: nat

definition upd_node :: "isl_tarjan_graph \<Rightarrow> nat \<Rightarrow> (isl_tarjan_node \<Rightarrow> isl_tarjan_node) \<Rightarrow> isl_tarjan_graph" where
  "upd_node g i f = g\<lparr>g_node := (g_node g)[i := f (g_node g ! i)]\<rparr>"

text \<open>What the allocations give: \<open>None\<close> is \<open>NULL\<close>; the first one clears its memory.\<close>

record tarjan_memory =
  mem_graph :: bool
  mem_node :: "isl_tarjan_node junk option"
  mem_stack :: "nat junk option"
  mem_order :: "int junk option"

definition array_of :: "'a junk option \<Rightarrow> nat \<Rightarrow> 'a list" where
  "array_of m n = (case m of None \<Rightarrow> [] | Some junk \<Rightarrow> fresh junk n)"

definition isl_tarjan_graph_alloc :: "tarjan_memory \<Rightarrow> nat \<Rightarrow> isl_tarjan_graph option" where
  "isl_tarjan_graph_alloc mem len =
     (if \<not> mem_graph mem then None
      else if len \<noteq> 0 \<and> mem_node mem = None then None
      else let nodes = map (\<lambda>n. n\<lparr>nd_index := -1\<rparr>) (array_of (mem_node mem) len) in
        if len \<noteq> 0 \<and> mem_stack mem = None then None
        else if len \<noteq> 0 \<and> mem_order mem = None then None
        else Some \<lparr>g_len = len, g_node = nodes, g_stack = array_of (mem_stack mem) len, g_sp = 0, g_index = 0,
                   g_order = array_of (mem_order mem) (2 * len), g_op = 0\<rparr>)"

definition enter_node :: "isl_tarjan_graph \<Rightarrow> nat \<Rightarrow> isl_tarjan_graph" where
  "enter_node g i =
     (let g = upd_node g i (\<lambda>n. n\<lparr>nd_index := g_index g, nd_min_index := g_index g, nd_on_stack := True\<rparr>);
          g = g\<lparr>g_index := g_index g + 1\<rparr>
      in g\<lparr>g_stack := (g_stack g)[g_sp g := i], g_sp := g_sp g + 1\<rparr>)"

text \<open>The loop over the other nodes, from the last one down; \<open>rec\<close> is the recursive call, the status
  of which is not looked at.\<close>

primrec edges_loop :: "(isl_tarjan_graph \<Rightarrow> nat \<Rightarrow> (int \<times> isl_tarjan_graph) option) \<Rightarrow> (nat \<Rightarrow> nat \<Rightarrow> int) \<Rightarrow>
    nat \<Rightarrow> nat \<Rightarrow> isl_tarjan_graph \<Rightarrow> (int \<times> isl_tarjan_graph) option" where
  "edges_loop rec follows i 0 g = Some (0, g)"
| "edges_loop rec follows i (Suc j) g =
     (if j = i then edges_loop rec follows i j g
      else if 0 \<le> nd_index (g_node g ! j) \<and>
          (\<not> nd_on_stack (g_node g ! j) \<or> nd_min_index (g_node g ! i) < nd_index (g_node g ! j))
        then edges_loop rec follows i j g
      else let f = follows i j in
        if f < 0 then Some (-1, g)
        else if f = 0 then edges_loop rec follows i j g
        else if nd_index (g_node g ! j) < 0 then
          Option.bind (rec g j) (\<lambda>(stat, g).
            edges_loop rec follows i j
              (if nd_min_index (g_node g ! j) < nd_min_index (g_node g ! i)
               then upd_node g i (\<lambda>n. n\<lparr>nd_min_index := nd_min_index (g_node g ! j)\<rparr>) else g))
        else edges_loop rec follows i j
              (if nd_index (g_node g ! j) < nd_min_index (g_node g ! i)
               then upd_node g i (\<lambda>n. n\<lparr>nd_min_index := nd_index (g_node g ! j)\<rparr>) else g))"

text \<open>The last loop, with \<open>g->sp\<close> as argument: it would read before the stack when it does not find
  \<open>i\<close>.\<close>

primrec pop_nodes :: "nat \<Rightarrow> nat \<Rightarrow> isl_tarjan_graph \<Rightarrow> isl_tarjan_graph option" where
  "pop_nodes i 0 g = None"
| "pop_nodes i (Suc sp) g =
     (let g = g\<lparr>g_sp := sp\<rparr>;
          j = g_stack g ! sp;
          g = upd_node g j (\<lambda>n. n\<lparr>nd_on_stack := False\<rparr>);
          g = g\<lparr>g_order := (g_order g)[g_op g := int j], g_op := g_op g + 1\<rparr>
      in if j \<noteq> i then pop_nodes i sp g else Some g)"

definition leave_node :: "isl_tarjan_graph \<Rightarrow> nat \<Rightarrow> isl_tarjan_graph option" where
  "leave_node g i =
     (if nd_index (g_node g ! i) \<noteq> nd_min_index (g_node g ! i) then Some g
      else Option.bind (pop_nodes i (g_sp g) g) (\<lambda>g. Some (g\<lparr>g_order := (g_order g)[g_op g := -1], g_op := g_op g + 1\<rparr>)))"

lemma edges_loop_mono [partial_function_mono]:
  assumes "\<And>g j. monotone (fun_ord option_ord) option_ord (\<lambda>f. rec f g j)"
  shows "monotone (fun_ord option_ord) option_ord (\<lambda>f. edges_loop (rec f) follows i n g)"
proof (induction n arbitrary: g)
  case 0
  then show ?case by (simp add: monotone_def option.leq_refl)
next
  case (Suc n)
  show ?case
    unfolding edges_loop.simps Let_def
    by (intro partial_function_mono assms Suc) (auto intro: partial_function_mono Suc split: prod.split)
qed

partial_function (option) isl_tarjan_components :: "(nat \<Rightarrow> nat \<Rightarrow> int) \<Rightarrow> isl_tarjan_graph \<Rightarrow> nat \<Rightarrow> (int \<times> isl_tarjan_graph) option" where
  "isl_tarjan_components follows g i =
     Option.bind (edges_loop (\<lambda>g j. isl_tarjan_components follows g j) follows i (g_len g) (enter_node g i)) (\<lambda>(stat, g).
       if stat < 0 then Some (-1, g)
       else Option.bind (leave_node g i) (\<lambda>g. Some (0, g)))"

declare isl_tarjan_components.simps [code]

primrec init_loop :: "(nat \<Rightarrow> nat \<Rightarrow> int) \<Rightarrow> nat \<Rightarrow> isl_tarjan_graph \<Rightarrow> isl_tarjan_graph option option" where
  "init_loop follows 0 g = Some (Some g)"
| "init_loop follows (Suc i) g =
     (if 0 \<le> nd_index (g_node g ! i) then init_loop follows i g
      else Option.bind (isl_tarjan_components follows g i) (\<lambda>(stat, g).
        if stat < 0 then Some None else init_loop follows i g))"

text \<open>The result is the graph, or \<open>NULL\<close> (\<open>Some None\<close>); \<open>None\<close> is a call that does not return.\<close>

definition isl_tarjan_graph_init :: "tarjan_memory \<Rightarrow> nat \<Rightarrow> (nat \<Rightarrow> nat \<Rightarrow> int) \<Rightarrow> isl_tarjan_graph option option" where
  "isl_tarjan_graph_init mem len follows =
     (case isl_tarjan_graph_alloc mem len of
        None \<Rightarrow> Some None
      | Some g \<Rightarrow> init_loop follows len g)"

definition isl_tarjan_graph_component :: "tarjan_memory \<Rightarrow> nat \<Rightarrow> nat \<Rightarrow> (nat \<Rightarrow> nat \<Rightarrow> int) \<Rightarrow> isl_tarjan_graph option option" where
  "isl_tarjan_graph_component mem len node follows =
     (case isl_tarjan_graph_alloc mem len of
        None \<Rightarrow> Some None
      | Some g \<Rightarrow> Option.bind (isl_tarjan_components follows g node) (\<lambda>(stat, g).
          if stat < 0 then Some None else Some (Some g)))"


subsection \<open>The graph and the order of its components\<close>

definition edges :: "(nat \<Rightarrow> nat \<Rightarrow> int) \<Rightarrow> nat \<Rightarrow> (nat \<times> nat) set" where
  "edges follows len = {(i, j). i < len \<and> j < len \<and> follows i j \<noteq> 0}"

text \<open>A list of components as the code stores it.\<close>

definition flatten :: "nat list list \<Rightarrow> int list" where
  "flatten comps = concat (map (\<lambda>c. map int c @ [-1]) comps)"

lemma flatten_Nil [simp]: "flatten [] = []"
  by (simp add: flatten_def)

lemma flatten_snoc [simp]: "flatten (comps @ [c]) = flatten comps @ map int c @ [-1]"
  by (simp add: flatten_def)

lemma length_flatten: "length (flatten comps) = length (concat comps) + length comps"
  by (induction comps) (simp_all add: flatten_def)

text \<open>Each is a strongly connected component, none has an edge to a later one, and there is no
  edge out of them.\<close>

definition components_of :: "(nat \<times> nat) set \<Rightarrow> nat list list \<Rightarrow> bool" where
  "components_of E comps \<longleftrightarrow> distinct (concat comps) \<and>
     (\<forall>c \<in> set comps. c \<noteq> [] \<and> (\<forall>x \<in> set c. set c = {y. (x, y) \<in> E\<^sup>* \<and> (y, x) \<in> E\<^sup>*})) \<and>
     (\<forall>a < length comps. \<forall>x \<in> set (comps ! a). \<forall>y. (x, y) \<in> E \<longrightarrow> (\<exists>b \<le> a. y \<in> set (comps ! b)))"

lemma in_concat: "y \<in> set (concat comps) \<longleftrightarrow> (\<exists>a < length comps. y \<in> set (comps ! a))"
  by (simp, metis in_set_conv_nth)

lemma components_of_Nil [simp]: "components_of E []"
  by (simp add: components_of_def)

lemma components_closed:
  assumes c: "components_of E comps" and x: "x \<in> set (concat comps)" and xy: "(x, y) \<in> E\<^sup>*"
  shows "y \<in> set (concat comps)"
  using xy
proof (induction rule: rtrancl_induct)
  case base
  then show ?case by (rule x)
next
  case (step y z)
  then obtain a where "a < length comps" "y \<in> set (comps ! a)" unfolding in_concat by blast
  then obtain b where "b \<le> a" "z \<in> set (comps ! b)" using c step(2) unfolding components_of_def by blast
  then show ?case using \<open>a < length comps\<close> by auto
qed

lemma components_of_snoc:
  assumes c: "components_of E comps" and d: "distinct c" "set c \<inter> set (concat comps) = {}" and r: "r \<in> set c"
    and con: "\<And>x. x \<in> set c \<Longrightarrow> (r, x) \<in> E\<^sup>* \<and> (x, r) \<in> E\<^sup>*"
    and closed: "\<And>x y. x \<in> set c \<Longrightarrow> (x, y) \<in> E \<Longrightarrow> y \<in> set c \<union> set (concat comps)"
  shows "components_of E (comps @ [c])"
proof -
  have out: "y \<in> set c \<or> y \<in> set (concat comps)" if "x \<in> set c" "(x, y) \<in> E\<^sup>*" for x y
    using that(2)
  proof (induction rule: rtrancl_induct)
    case (step y z)
    then show ?case using closed components_closed [OF c] by blast
  qed (use that in simp)
  have scc: "set c = {y. (x, y) \<in> E\<^sup>* \<and> (y, x) \<in> E\<^sup>*}" if x: "x \<in> set c" for x
  proof (intro set_eqI iffI)
    fix y assume "y \<in> set c"
    then show "y \<in> {y. (x, y) \<in> E\<^sup>* \<and> (y, x) \<in> E\<^sup>*}" using con x by (metis (no_types, lifting) mem_Collect_eq rtrancl_trans)
  next
    fix y assume y: "y \<in> {y. (x, y) \<in> E\<^sup>* \<and> (y, x) \<in> E\<^sup>*}"
    show "y \<in> set c"
    proof (rule ccontr)
      assume "y \<notin> set c"
      then have "y \<in> set (concat comps)" using out x y by blast
      then have "x \<in> set (concat comps)" using components_closed [OF c] y by blast
      then show False using d x by blast
    qed
  qed
  have "\<exists>b \<le> a. y \<in> set ((comps @ [c]) ! b)"
    if a: "a < length (comps @ [c])" "x \<in> set ((comps @ [c]) ! a)" "(x, y) \<in> E" for a x y
  proof (cases "a < length comps")
    case True
    then obtain b where "b \<le> a" "y \<in> set (comps ! b)" using c a unfolding components_of_def by (metis nth_append)
    then show ?thesis using True by (metis le_less_trans nth_append)
  next
    case False
    then have a': "a = length comps" using a by simp
    then have "y \<in> set c \<or> y \<in> set (concat comps)" using closed a by auto
    then obtain b where "b \<le> length comps" "y \<in> set ((comps @ [c]) ! b)"
    proof
      assume "y \<in> set (concat comps)"
      then obtain b where "b < length comps" "y \<in> set (comps ! b)" unfolding in_concat by blast
      then show thesis using that [of b] by (simp add: nth_append)
    qed (use that [of "length comps"] in simp)
    then show ?thesis using a' by blast
  qed
  then show ?thesis
    using c d r scc unfolding components_of_def by auto
qed


subsection \<open>The invariant\<close>

abbreviation idx :: "isl_tarjan_graph \<Rightarrow> nat \<Rightarrow> int" where "idx g v \<equiv> nd_index (g_node g ! v)"
abbreviation low :: "isl_tarjan_graph \<Rightarrow> nat \<Rightarrow> int" where "low g v \<equiv> nd_min_index (g_node g ! v)"
abbreviation on_stack :: "isl_tarjan_graph \<Rightarrow> nat \<Rightarrow> bool" where "on_stack g v \<equiv> nd_on_stack (g_node g ! v)"

definition visited :: "isl_tarjan_graph \<Rightarrow> nat set" where
  "visited g = {v. v < g_len g \<and> 0 \<le> idx g v}"

definition stk :: "isl_tarjan_graph \<Rightarrow> nat list" where
  "stk g = take (g_sp g) (g_stack g)"

text \<open>The arrays, and what is in them.\<close>

definition tarjan_ok :: "nat list list \<Rightarrow> isl_tarjan_graph \<Rightarrow> bool" where
  "tarjan_ok comps g \<longleftrightarrow>
     length (g_node g) = g_len g \<and> length (g_stack g) = g_len g \<and> length (g_order g) = 2 * g_len g \<and>
     g_sp g \<le> g_len g \<and> distinct (stk g) \<and> set (stk g) = {v \<in> visited g. on_stack g v} \<and>
     sorted_wrt (\<lambda>x y. idx g x < idx g y) (stk g) \<and> 0 \<le> g_index g \<and> (\<forall>v \<in> visited g. idx g v < g_index g) \<and>
     take (g_op g) (g_order g) = flatten comps \<and> g_op g = length (flatten comps) \<and>
     set (concat comps) = visited g - set (stk g)"

text \<open>\<open>path\<close> holds the nodes that are being visited: every node on the stack is reached from those
  below it among them, and reaches one.\<close>

definition searching :: "(nat \<times> nat) set \<Rightarrow> nat list \<Rightarrow> isl_tarjan_graph \<Rightarrow> bool" where
  "searching E path g \<longleftrightarrow> set path \<subseteq> set (stk g) \<and>
     (\<forall>x \<in> set path. \<forall>y \<in> set (stk g). idx g x \<le> idx g y \<longrightarrow> (x, y) \<in> E\<^sup>*) \<and>
     (\<forall>y \<in> set (stk g). \<exists>x \<in> set path. idx g x \<le> idx g y \<and> (y, x) \<in> E\<^sup>*) \<and>
     (\<forall>x \<in> visited g - set path. \<forall>y. (x, y) \<in> E \<longrightarrow> y \<in> visited g)"

text \<open>What a call leaves as it was.\<close>

definition older :: "isl_tarjan_graph \<Rightarrow> isl_tarjan_graph \<Rightarrow> bool" where
  "older g g' \<longleftrightarrow> g_len g' = g_len g \<and> g_index g \<le> g_index g' \<and> (\<forall>v \<in> visited g. g_node g' ! v = g_node g ! v)"

lemma older_visited: "older g g' \<Longrightarrow> visited g \<subseteq> visited g'"
  by (auto simp: older_def visited_def)

lemma older_refl [simp]: "older g g"
  by (simp add: older_def)

lemma older_trans: "older g g' \<Longrightarrow> older g' g'' \<Longrightarrow> older g g''"
  using older_visited [of g g'] by (auto simp: older_def)

lemma visited_less: "v \<in> visited g \<Longrightarrow> v < g_len g"
  by (simp add: visited_def)

lemma stk_visited: "tarjan_ok comps g \<Longrightarrow> v \<in> set (stk g) \<Longrightarrow> v \<in> visited g \<and> v < g_len g \<and> 0 \<le> idx g v \<and> idx g v < g_index g"
  unfolding tarjan_ok_def visited_def by auto


subsection \<open>The steps\<close>

lemma upd_node_sel [simp]:
  "g_len (upd_node g i f) = g_len g" "g_stack (upd_node g i f) = g_stack g" "g_sp (upd_node g i f) = g_sp g"
  "g_index (upd_node g i f) = g_index g" "g_order (upd_node g i f) = g_order g" "g_op (upd_node g i f) = g_op g"
  "length (g_node (upd_node g i f)) = length (g_node g)"
  by (simp_all add: upd_node_def)

lemma upd_node_nth:
  "i < length (g_node g) \<Longrightarrow> g_node (upd_node g i f) ! v = (if v = i then f (g_node g ! v) else g_node g ! v)"
  by (simp add: upd_node_def)

lemma length_stk: "tarjan_ok comps g \<Longrightarrow> length (stk g) = g_sp g"
  by (simp add: tarjan_ok_def stk_def)

lemma room_on_stack:
  assumes "tarjan_ok comps g" "i < g_len g" "i \<notin> set (stk g)"
  shows "g_sp g < g_len g"
proof -
  have "set (stk g) \<subset> {..<g_len g}" using assms stk_visited [OF assms(1)] by auto
  then have "card (set (stk g)) < g_len g" using psubset_card_mono [of "{..<g_len g}"] by simp
  moreover have "distinct (stk g)" using assms(1) by (simp add: tarjan_ok_def)
  ultimately show ?thesis using length_stk [OF assms(1)] by (metis distinct_card)
qed

lemma enter_run:
  assumes ok: "tarjan_ok comps g" and i: "i < g_len g" "i \<notin> visited g"
  defines "g' \<equiv> enter_node g i"
  shows "visited g' = insert i (visited g)" "stk g' = stk g @ [i]" "older g g'" "idx g' i = g_index g" "low g' i = g_index g"
    "\<forall>v. v \<noteq> i \<longrightarrow> g_node g' ! v = g_node g ! v" "tarjan_ok comps g'"
proof -
  have len: "i < length (g_node g)" using ok i by (simp add: tarjan_ok_def)
  have ns: "i \<notin> set (stk g)" using stk_visited [OF ok] i by blast
  have sp: "g_sp g < length (g_stack g)" using room_on_stack [OF ok i(1) ns] ok by (simp add: tarjan_ok_def)
  have gi: "0 \<le> g_index g" using ok by (simp add: tarjan_ok_def)
  have nd: "g_node g' ! v = (if v = i then (g_node g ! v)\<lparr>nd_index := g_index g, nd_min_index := g_index g, nd_on_stack := True\<rparr> else g_node g ! v)" for v
    using len by (simp add: g'_def enter_node_def Let_def upd_node_nth)
  have oth: "g_len g' = g_len g" "g_index g' = g_index g + 1" "g_sp g' = g_sp g + 1" "g_order g' = g_order g" "g_op g' = g_op g"
      "g_stack g' = (g_stack g)[g_sp g := i]" "length (g_node g') = length (g_node g)"
    by (simp_all add: g'_def enter_node_def Let_def)
  show v: "visited g' = insert i (visited g)" using i gi by (auto simp: visited_def nd oth)
  show st: "stk g' = stk g @ [i]" using sp by (simp add: stk_def oth take_Suc_conv_app_nth)
  show "older g g'" using i by (auto simp: older_def oth nd)
  show "idx g' i = g_index g" "low g' i = g_index g" "\<forall>v. v \<noteq> i \<longrightarrow> g_node g' ! v = g_node g ! v" by (simp_all add: nd)
  have "distinct (stk g')" using ok ns by (simp add: st tarjan_ok_def)
  moreover have "set (stk g') = {w \<in> visited g'. on_stack g' w}" using ok i unfolding v by (auto simp: st nd tarjan_ok_def)
  moreover have "sorted_wrt (\<lambda>x y. idx g' x < idx g' y) (stk g')"
  proof -
    have "sorted_wrt (\<lambda>x y. idx g x < idx g y) (stk g)" using ok by (simp add: tarjan_ok_def)
    then have "sorted_wrt (\<lambda>x y. idx g' x < idx g' y) (stk g)"
      by (rule sorted_wrt_mono_rel [rotated]) (use ns in \<open>auto simp: nd\<close>)
    moreover have "\<forall>w \<in> set (stk g). idx g' w < idx g' i"
    proof
      fix w assume w: "w \<in> set (stk g)"
      then show "idx g' w < idx g' i" using stk_visited [OF ok w] ns by (cases "w = i") (simp_all add: nd)
    qed
    ultimately show ?thesis by (simp add: st sorted_wrt_append)
  qed
  moreover have "\<forall>w \<in> visited g'. idx g' w < g_index g'" using ok unfolding v by (auto simp: nd oth tarjan_ok_def)
  moreover have "set (concat comps) = visited g' - set (stk g')" using ok i unfolding v st by (auto simp: tarjan_ok_def)
  moreover have "length (g_node g) = g_len g" "length (g_stack g) = g_len g" "length (g_order g) = 2 * g_len g"
      "take (g_op g) (g_order g) = flatten comps" "g_op g = length (flatten comps)"
    using ok unfolding tarjan_ok_def by blast+
  ultimately show "tarjan_ok comps g'" using sp gi unfolding tarjan_ok_def oth length_list_update by (intro conjI) simp_all
qed

lemma enter_searching:
  assumes ok: "tarjan_ok comps g" and i: "i < g_len g" "i \<notin> visited g" and s: "searching E path g"
    and reach: "\<forall>x \<in> set path. (x, i) \<in> E\<^sup>*"
  shows "searching E (path @ [i]) (enter_node g i)"
proof -
  let ?g = "enter_node g i"
  note e = enter_run [OF ok i]
  have ns: "i \<notin> set (stk g)" using stk_visited [OF ok] i by blast
  have same: "idx ?g x = idx g x" if "x \<in> set (stk g)" for x using e(6) that ns by metis
  have below: "idx ?g x < idx ?g i" if "x \<in> set (stk g)" for x
    using stk_visited [OF ok that] same [OF that] e(4) by simp
  have p: "set path \<subseteq> set (stk g)" using s by (simp add: searching_def)
  have "(x, y) \<in> E\<^sup>*" if "x \<in> set (path @ [i])" "y \<in> set (stk g @ [i])" "idx ?g x \<le> idx ?g y" for x y
  proof (cases "x = i")
    case True
    then show ?thesis using that below [of y] by auto
  next
    case False
    then have x: "x \<in> set path" using that by simp
    then show ?thesis
      using that s reach p same [of x] same [of y] unfolding searching_def by (cases "y = i") auto
  qed
  moreover have "\<exists>x \<in> set (path @ [i]). idx ?g x \<le> idx ?g y \<and> (y, x) \<in> E\<^sup>*" if y: "y \<in> set (stk g @ [i])" for y
  proof (cases "y = i")
    case False
    then have "y \<in> set (stk g)" using y by simp
    then obtain x where "x \<in> set path" "idx g x \<le> idx g y" "(y, x) \<in> E\<^sup>*" using s unfolding searching_def by blast
    then show ?thesis using p same \<open>y \<in> set (stk g)\<close> by (intro bexI [of _ x]) auto
  qed auto
  ultimately show ?thesis using s p unfolding searching_def e(1,2) by auto
qed

text \<open>A new minimal index is not seen by the invariant.\<close>

definition set_low :: "isl_tarjan_graph \<Rightarrow> nat \<Rightarrow> int \<Rightarrow> isl_tarjan_graph" where
  "set_low g i m = upd_node g i (\<lambda>n. n\<lparr>nd_min_index := m\<rparr>)"

lemma set_low_sel [simp]:
  "idx (set_low g i m) v = idx g v" "on_stack (set_low g i m) v = on_stack g v" "g_len (set_low g i m) = g_len g"
  "g_index (set_low g i m) = g_index g" "stk (set_low g i m) = stk g" "visited (set_low g i m) = visited g"
  "tarjan_ok comps (set_low g i m) = tarjan_ok comps g" "searching E path (set_low g i m) = searching E path g"
proof -
  have nd: "g_node (set_low g i m) ! v = (if v = i \<and> i < length (g_node g) then (g_node g ! v)\<lparr>nd_min_index := m\<rparr> else g_node g ! v)" for v
  proof (cases "i < length (g_node g)")
    case True
    then show ?thesis by (simp add: set_low_def upd_node_nth)
  next
    case False
    then show ?thesis by (simp add: set_low_def upd_node_def list_update_beyond)
  qed
  show 1: "idx (set_low g i m) v = idx g v" "on_stack (set_low g i m) v = on_stack g v" for v
    unfolding nd by simp_all
  show 2: "g_len (set_low g i m) = g_len g" "g_index (set_low g i m) = g_index g" "stk (set_low g i m) = stk g"
    by (simp_all add: set_low_def stk_def)
  show 3: "visited (set_low g i m) = visited g" by (simp add: visited_def 1 2)
  show "tarjan_ok comps (set_low g i m) = tarjan_ok comps g"
    unfolding tarjan_ok_def 1 2 3 by (simp add: set_low_def)
  show "searching E path (set_low g i m) = searching E path g" unfolding searching_def 1 2 3 ..
qed

lemma set_low_nth: "v \<noteq> i \<Longrightarrow> g_node (set_low g i m) ! v = g_node g ! v"
  by (simp add: set_low_def upd_node_def)

lemma low_set_low: "i < length (g_node g) \<Longrightarrow> low (set_low g i m) i = m"
  by (simp add: set_low_def upd_node_def)

text \<open>Popping.\<close>

lemma pop_run:
  "g_sp g = length S + Suc (length T) \<Longrightarrow> take (g_sp g) (g_stack g) = S @ i # T \<Longrightarrow> g_sp g \<le> length (g_stack g) \<Longrightarrow>
   i \<notin> set T \<Longrightarrow> set (i # T) \<subseteq> {..<length (g_node g)} \<Longrightarrow> g_op g + Suc (length T) < length (g_order g) \<Longrightarrow>
   \<exists>g'. pop_nodes i (g_sp g) g = Some g' \<and> g_sp g' = length S \<and> g_stack g' = g_stack g \<and> g_len g' = g_len g \<and> g_index g' = g_index g \<and>
     length (g_node g') = length (g_node g) \<and> length (g_order g') = length (g_order g) \<and>
     g_op g' = g_op g + Suc (length T) \<and> take (g_op g') (g_order g') = take (g_op g) (g_order g) @ map int (rev T @ [i]) \<and>
     (\<forall>v. g_node g' ! v = (if v \<in> set (i # T) then (g_node g ! v)\<lparr>nd_on_stack := False\<rparr> else g_node g ! v))"
proof (induction T arbitrary: g rule: rev_induct)
  case Nil
  have top: "g_stack g ! length S = i" using Nil.prems by (metis append_Nil2 length_Cons length_append lessI list.size(3)
        nth_append_length nth_take add_Suc_right add_0_right)
  define g' where "g' = (upd_node (g\<lparr>g_sp := length S\<rparr>) i (\<lambda>n. n\<lparr>nd_on_stack := False\<rparr>))
      \<lparr>g_order := (g_order g)[g_op g := int i], g_op := g_op g + 1\<rparr>"
  have "pop_nodes i (g_sp g) g = Some g'"
    using Nil.prems(1) top by (simp add: g'_def Let_def)
  moreover have "take (g_op g + 1) ((g_order g)[g_op g := int i]) = take (g_op g) (g_order g) @ [int i]"
    using Nil.prems by (simp add: take_Suc_conv_app_nth)
  ultimately show ?case
    using Nil.prems by (intro exI [of _ g']) (simp add: g'_def upd_node_def nth_list_update)
next
  case (snoc t T)
  have sp: "g_sp g = Suc (length S + Suc (length T))" using snoc.prems(1) by simp
  have "(S @ i # T @ [t]) ! (length S + Suc (length T)) = t" by (simp add: nth_append)
  then have top: "g_stack g ! (length S + Suc (length T)) = t" using snoc.prems(2) sp by (metis lessI nth_take)
  define g1 where "g1 = (upd_node (g\<lparr>g_sp := length S + Suc (length T)\<rparr>) t (\<lambda>n. n\<lparr>nd_on_stack := False\<rparr>))
      \<lparr>g_order := (g_order g)[g_op g := int t], g_op := g_op g + 1\<rparr>"
  have step: "pop_nodes i (g_sp g) g = pop_nodes i (g_sp g1) g1"
    unfolding sp using top snoc.prems(4) by (auto simp: g1_def Let_def)
  have "take (length S + Suc (length T)) (g_stack g) = S @ i # T"
  proof -
    have "take (length S + Suc (length T)) (take (g_sp g) (g_stack g)) = take (length S + Suc (length T)) ((S @ i # T) @ [t])"
      using snoc.prems(2) by simp
    then show ?thesis using sp by simp
  qed
  then have "\<exists>g'. pop_nodes i (g_sp g1) g1 = Some g' \<and> g_sp g' = length S \<and> g_stack g' = g_stack g1 \<and> g_len g' = g_len g1 \<and> g_index g' = g_index g1 \<and>
     length (g_node g') = length (g_node g1) \<and> length (g_order g') = length (g_order g1) \<and>
     g_op g' = g_op g1 + Suc (length T) \<and> take (g_op g') (g_order g') = take (g_op g1) (g_order g1) @ map int (rev T @ [i]) \<and>
     (\<forall>v. g_node g' ! v = (if v \<in> set (i # T) then (g_node g1 ! v)\<lparr>nd_on_stack := False\<rparr> else g_node g1 ! v))"
    using snoc.prems by (intro snoc.IH) (auto simp: g1_def)
  then obtain g' where g': "pop_nodes i (g_sp g1) g1 = Some g'" "g_sp g' = length S" "g_stack g' = g_stack g1" "g_len g' = g_len g1"
     "g_index g' = g_index g1" "length (g_node g') = length (g_node g1)" "length (g_order g') = length (g_order g1)"
     "g_op g' = g_op g1 + Suc (length T)" "take (g_op g') (g_order g') = take (g_op g1) (g_order g1) @ map int (rev T @ [i])"
     "\<And>v. g_node g' ! v = (if v \<in> set (i # T) then (g_node g1 ! v)\<lparr>nd_on_stack := False\<rparr> else g_node g1 ! v)" by blast
  have "take (g_op g1) (g_order g1) = take (g_op g) (g_order g) @ [int t]"
    using snoc.prems(6) by (simp add: g1_def take_Suc_conv_app_nth)
  moreover have "g_node g1 ! v = (if v = t then (g_node g ! v)\<lparr>nd_on_stack := False\<rparr> else g_node g ! v)" for v
    using snoc.prems(5) by (auto simp: g1_def upd_node_def nth_list_update)
  ultimately show ?case
    using g' by (intro exI [of _ g']) (simp add: step, simp add: g1_def)
qed


subsection \<open>A call\<close>

definition visit_pre :: "(nat \<times> nat) set \<Rightarrow> nat list \<Rightarrow> nat list list \<Rightarrow> isl_tarjan_graph \<Rightarrow> nat \<Rightarrow> bool" where
  "visit_pre E path comps g i \<longleftrightarrow> tarjan_ok comps g \<and> components_of E comps \<and> searching E path g \<and>
     i < g_len g \<and> i \<notin> visited g \<and> (\<forall>x \<in> set path. (x, i) \<in> E\<^sup>*)"

definition visit_post :: "(nat \<times> nat) set \<Rightarrow> nat list \<Rightarrow> nat list list \<Rightarrow> isl_tarjan_graph \<Rightarrow> nat \<Rightarrow> isl_tarjan_graph \<Rightarrow>
    nat list list \<Rightarrow> nat list \<Rightarrow> bool" where
  "visit_post E path comps g i g' new T \<longleftrightarrow>
     tarjan_ok (comps @ new) g' \<and> components_of E (comps @ new) \<and> searching E path g' \<and> older g g' \<and>
     i \<in> visited g' \<and> stk g' = stk g @ T \<and>
     (low g' i = idx g' i \<and> g_index g \<le> low g' i \<or> (\<exists>z \<in> set (stk g). low g' i = idx g z \<and> (i, z) \<in> E\<^sup>*)) \<and>
     (\<forall>x \<in> set T. \<forall>y \<in> set (stk g). (x, y) \<in> E \<longrightarrow> low g' i \<le> idx g y) \<and>
     (\<forall>v \<in> visited g' - visited g. (i, v) \<in> E\<^sup>*) \<and> (T = [] \<longrightarrow> new \<noteq> [] \<and> i \<in> set (last new))"

text \<open>In the loop of node \<open>i\<close>, entered in state \<open>g0\<close>: \<open>T\<close> are the nodes above \<open>i\<close> on the stack.\<close>

definition visiting :: "(nat \<times> nat) set \<Rightarrow> nat list \<Rightarrow> nat list list \<Rightarrow> isl_tarjan_graph \<Rightarrow> nat \<Rightarrow> isl_tarjan_graph \<Rightarrow>
    nat list list \<Rightarrow> nat list \<Rightarrow> bool" where
  "visiting E path comps g0 i g new T \<longleftrightarrow>
     tarjan_ok (comps @ new) g \<and> components_of E (comps @ new) \<and> searching E (path @ [i]) g \<and> older g0 g \<and>
     i \<in> visited g \<and> stk g = stk g0 @ i # T \<and> idx g i = g_index g0 \<and> (\<forall>v \<in> visited g - visited g0. (i, v) \<in> E\<^sup>*)"

text \<open>\<open>l\<close> is the minimal index of \<open>i\<close> when the nodes from \<open>k\<close> on have been looked at.\<close>

definition lowest :: "(nat \<times> nat) set \<Rightarrow> isl_tarjan_graph \<Rightarrow> nat \<Rightarrow> isl_tarjan_graph \<Rightarrow> nat list \<Rightarrow> nat \<Rightarrow> int \<Rightarrow> bool" where
  "lowest E g0 i g T k l \<longleftrightarrow> (l = idx g i \<or> (\<exists>z \<in> set (stk g0). l = idx g0 z \<and> (i, z) \<in> E\<^sup>*)) \<and>
     (\<forall>x \<in> set T. \<forall>y \<in> set (stk g0). (x, y) \<in> E \<longrightarrow> l \<le> idx g0 y) \<and>
     (\<forall>j. k \<le> j \<longrightarrow> (i, j) \<in> E \<longrightarrow> j \<in> visited g \<and> (j \<in> set (stk g0) \<longrightarrow> l \<le> idx g0 j))"

definition lowered :: "isl_tarjan_graph \<Rightarrow> nat \<Rightarrow> int \<Rightarrow> isl_tarjan_graph" where
  "lowered g i m = (if m < low g i then set_low g i m else g)"

lemma lowered_nth: "v \<noteq> i \<Longrightarrow> g_node (lowered g i m) ! v = g_node g ! v"
  by (simp add: lowered_def set_low_nth)

lemma lowered_sel [simp]:
  "idx (lowered g i m) v = idx g v" "on_stack (lowered g i m) v = on_stack g v" "g_len (lowered g i m) = g_len g"
  "g_index (lowered g i m) = g_index g" "stk (lowered g i m) = stk g" "visited (lowered g i m) = visited g"
  "tarjan_ok comps (lowered g i m) = tarjan_ok comps g" "searching E path (lowered g i m) = searching E path g"
  by (simp_all add: lowered_def)

lemma low_lowered: "tarjan_ok comps g \<Longrightarrow> i < g_len g \<Longrightarrow> low (lowered g i m) i = min m (low g i)"
  by (simp add: lowered_def low_set_low tarjan_ok_def)

lemma older_same: "older g g' \<Longrightarrow> v \<in> visited g \<Longrightarrow> idx g' v = idx g v \<and> low g' v = low g v \<and> on_stack g' v = on_stack g v"
  by (simp add: older_def)

lemma older_lowered: "older g0 g \<Longrightarrow> i \<notin> visited g0 \<Longrightarrow> older g0 (lowered g i m)"
  unfolding older_def by (metis lowered_nth lowered_sel(3,4))

lemma visiting_lowered:
  "visiting E path comps g0 i g new T \<Longrightarrow> i \<notin> visited g0 \<Longrightarrow> visiting E path comps g0 i (lowered g i m) new T"
  by (simp add: visiting_def older_lowered)

text \<open>The nodes with an index below that of \<open>i\<close> are those that were on the stack before it.\<close>

lemma below_on_stack:
  assumes ok: "tarjan_ok comps g" and st: "stk g = S @ i # T" and j: "j \<in> set (stk g)"
  shows "j \<in> set S \<longleftrightarrow> idx g j < idx g i"
proof -
  have "\<forall>x \<in> set S. idx g x < idx g i" "\<forall>x \<in> set T. idx g i < idx g x"
    using ok unfolding tarjan_ok_def st by (auto simp: sorted_wrt_append)
  then show ?thesis using j st by force
qed

lemma visiting_start:
  assumes pre: "visit_pre E path comps g i" and E: "E \<subseteq> {..<g_len g} \<times> {..<g_len g}"
  shows "visiting E path comps g i (enter_node g i) [] [] \<and>
    lowest E g i (enter_node g i) [] (g_len g) (low (enter_node g i) i)"
proof -
  have p: "tarjan_ok comps g" "i < g_len g" "i \<notin> visited g" "searching E path g" "\<forall>x \<in> set path. (x, i) \<in> E\<^sup>*" "components_of E comps"
    using pre by (simp_all add: visit_pre_def)
  note e = enter_run [OF p(1-3)]
  have "visiting E path comps g i (enter_node g i) [] []"
    using p(6) e enter_searching [OF p(1-5)] by (auto simp: visiting_def)
  moreover have "lowest E g i (enter_node g i) [] (g_len g) (low (enter_node g i) i)"
    using e(4,5) E by (auto simp: lowest_def)
  ultimately show ?thesis ..
qed

text \<open>A node that is passed over.\<close>

lemma lowest_pass:
  assumes l: "lowest E g0 i g T (Suc j) l"
    and j: "(i, j) \<in> E \<longrightarrow> j \<in> visited g \<and> (j \<in> set (stk g0) \<longrightarrow> l \<le> idx g0 j)"
  shows "lowest E g0 i g T j l"
proof -
  have "k \<in> visited g \<and> (k \<in> set (stk g0) \<longrightarrow> l \<le> idx g0 k)" if "j \<le> k" "(i, k) \<in> E" for k
    using l j that unfolding lowest_def by (cases "k = j") simp_all
  then show ?thesis using l unfolding lowest_def by blast
qed

text \<open>A node on the stack, and a node that is visited by a call.\<close>

lemma lowest_seen:
  assumes v: "visiting E path comps g0 i g new T" and g0: "tarjan_ok comps g0" and l: "lowest E g0 i g T (Suc j) (low g i)"
    and j: "j \<in> set (stk g)" "(i, j) \<in> E"
  shows "lowest E g0 i g T j (min (idx g j) (low g i))"
proof -
  have ok: "tarjan_ok (comps @ new) g" and st: "stk g = stk g0 @ i # T" and old: "older g0 g" using v by (simp_all add: visiting_def)
  have le: "low g i \<le> idx g i"
    using l below_on_stack [OF ok st] older_same [OF old] stk_visited [OF g0] st unfolding lowest_def
    by (metis Un_iff less_imp_le order_refl set_append)
  have same: "idx g y = idx g0 y" if "y \<in> set (stk g0)" for y using older_same [OF old] stk_visited [OF g0 that] by blast
  have "min (idx g j) (low g i) = idx g i \<or> (\<exists>z \<in> set (stk g0). min (idx g j) (low g i) = idx g0 z \<and> (i, z) \<in> E\<^sup>*)"
  proof (cases "idx g j < low g i")
    case True
    then have "j \<in> set (stk g0)" using below_on_stack [OF ok st j(1)] le by simp
    then show ?thesis using True same j(2) by (intro disjI2 bexI [of _ j]) auto
  next
    case False
    then have "min (idx g j) (low g i) = low g i" by simp
    then show ?thesis using l unfolding lowest_def by simp
  qed
  note new_low = this
  have "j \<in> visited g" using stk_visited [OF ok j(1)] by simp
  then show ?thesis
  proof -
    let ?l = "min (idx g j) (low g i)"
    have cross: "?l \<le> idx g0 y" if "x \<in> set T" "y \<in> set (stk g0)" "(x, y) \<in> E" for x y
      using l that unfolding lowest_def by (simp add: min.coboundedI2)
    have rest: "k \<in> visited g \<and> (k \<in> set (stk g0) \<longrightarrow> ?l \<le> idx g0 k)" if k: "j \<le> k" "(i, k) \<in> E" for k
    proof (cases "k = j")
      case True
      then show ?thesis using \<open>j \<in> visited g\<close> same by (auto simp: min.coboundedI1)
    next
      case False
      then have "Suc j \<le> k" using k by simp
      then show ?thesis using l k unfolding lowest_def by (simp add: min.coboundedI2)
    qed
    show ?thesis using new_low cross rest unfolding lowest_def by blast
  qed
qed

lemma lowest_called:
  assumes v: "visiting E path comps g0 i g new T" and g0: "tarjan_ok comps g0" and l: "lowest E g0 i g T (Suc j) (low g i)"
    and j: "(i, j) \<in> E" and nv: "j \<notin> visited g" and post: "visit_post E (path @ [i]) (comps @ new) g j g1 new1 T1"
  shows "visiting E path comps g0 i g1 (new @ new1) (T @ T1)" and "low g1 i = low g i"
    and "lowest E g0 i g1 (T @ T1) j (min (low g1 j) (low g1 i))"
proof -
  have ok: "tarjan_ok (comps @ new) g" and st: "stk g = stk g0 @ i # T" and old: "older g0 g" and iv: "i \<in> visited g"
      and ii: "idx g i = g_index g0" and to: "\<And>v. v \<in> visited g \<Longrightarrow> v \<notin> visited g0 \<Longrightarrow> (i, v) \<in> E\<^sup>*"
    using v by (simp_all add: visiting_def)
  have ok1: "tarjan_ok (comps @ new @ new1) g1" and old1: "older g g1" and jv: "j \<in> visited g1" and st1: "stk g1 = stk g @ T1"
      and l1: "low g1 j = idx g1 j \<and> g_index g \<le> low g1 j \<or> (\<exists>z \<in> set (stk g). low g1 j = idx g z \<and> (j, z) \<in> E\<^sup>*)"
      and cross: "\<And>x y. x \<in> set T1 \<Longrightarrow> y \<in> set (stk g) \<Longrightarrow> (x, y) \<in> E \<Longrightarrow> low g1 j \<le> idx g y"
      and rest: "components_of E (comps @ new @ new1)" "searching E (path @ [i]) g1"
      and to1: "\<And>v. v \<in> visited g1 \<Longrightarrow> v \<notin> visited g \<Longrightarrow> (j, v) \<in> E\<^sup>*"
    using post by (simp_all add: visit_post_def)
  show low: "low g1 i = low g i" using older_same [OF old1 iv] by simp
  have idx: "idx g1 i = idx g i" using older_same [OF old1 iv] by simp
  show "visiting E path comps g0 i g1 (new @ new1) (T @ T1)"
  proof -
    have "(i, v) \<in> E\<^sup>*" if "v \<in> visited g1" "v \<notin> visited g0" for v
      using to [of v] to1 [of v] that j by (cases "v \<in> visited g") (auto intro: converse_rtrancl_into_rtrancl)
    then show ?thesis
      using ok1 rest st1 st older_trans [OF old old1] older_visited [OF old1] iv idx ii by (auto simp: visiting_def)
  qed
  have same: "idx g y = idx g0 y" if "y \<in> set (stk g0)" for y using older_same [OF old] stk_visited [OF g0 that] by blast
  have le: "low g i \<le> idx g i"
    using l below_on_stack [OF ok st] same st unfolding lowest_def by (metis Un_iff less_imp_le order_refl set_append)
  let ?l = "min (low g1 j) (low g1 i)"
  have "?l = idx g1 i \<or> (\<exists>z \<in> set (stk g0). ?l = idx g0 z \<and> (i, z) \<in> E\<^sup>*)"
  proof (cases "low g1 j < low g i")
    case True
    have "idx g i < g_index g" using stk_visited [OF ok] st by simp
    then have "\<not> g_index g \<le> low g1 j" using True le by linarith
    then obtain z where z: "z \<in> set (stk g)" "low g1 j = idx g z" "(j, z) \<in> E\<^sup>*" using l1 by blast
    then have "z \<in> set (stk g0)" using below_on_stack [OF ok st z(1)] True le by simp
    then show ?thesis using True z same low j by (intro disjI2 bexI [of _ z]) (auto intro: converse_rtrancl_into_rtrancl)
  next
    case False
    then have "?l = low g i" using low by simp
    then show ?thesis using l idx unfolding lowest_def by simp
  qed
  moreover have "?l \<le> idx g0 y" if "x \<in> set (T @ T1)" "y \<in> set (stk g0)" "(x, y) \<in> E" for x y
  proof (cases "x \<in> set T")
    case True
    then show ?thesis using l that low unfolding lowest_def by (simp add: min.coboundedI2)
  next
    case False
    then have "low g1 j \<le> idx g y" using cross that st by simp
    then show ?thesis using same that by (simp add: min.coboundedI1)
  qed
  moreover have "k \<in> visited g1 \<and> (k \<in> set (stk g0) \<longrightarrow> ?l \<le> idx g0 k)" if k: "j \<le> k" "(i, k) \<in> E" for k
  proof (cases "k = j")
    case True
    have "j \<notin> set (stk g0)" using nv stk_visited [OF g0] older_visited [OF old] by blast
    then show ?thesis using True jv by simp
  next
    case False
    then show ?thesis using l k low older_visited [OF old1] unfolding lowest_def
      by (metis Suc_leI le_neq_implies_less min.coboundedI2 subsetD)
  qed
  ultimately show "lowest E g0 i g1 (T @ T1) j ?l" unfolding lowest_def by blast
qed


text \<open>The end of a call: the successors of \<open>i\<close> and of the nodes that are done are visited.\<close>

lemma done_closed:
  assumes v: "visiting E path comps g0 i g new T" and l: "lowest E g0 i g T 0 (low g i)"
    and w: "w \<in> visited g" "w \<notin> set path" "(w, y) \<in> E"
  shows "y \<in> visited g"
proof (cases "w = i")
  case True
  then show ?thesis using l w unfolding lowest_def by blast
next
  case False
  then have "w \<in> visited g - set (path @ [i])" using w by simp
  moreover have "\<forall>x \<in> visited g - set (path @ [i]). \<forall>y. (x, y) \<in> E \<longrightarrow> y \<in> visited g"
    using v unfolding visiting_def searching_def by blast
  ultimately show ?thesis using w(3) by blast
qed

lemma leave_early:
  assumes pre: "visit_pre E path comps g0 i" and v: "visiting E path comps g0 i g new T" and l: "lowest E g0 i g T 0 (low g i)"
    and ne: "idx g i \<noteq> low g i"
  shows "visit_post E path comps g0 i g new (i # T)"
proof -
  have ok0: "tarjan_ok comps g0" "searching E path g0" "i \<notin> visited g0" using pre by (simp_all add: visit_pre_def)
  have ok: "tarjan_ok (comps @ new) g" and c: "components_of E (comps @ new)" and s: "searching E (path @ [i]) g"
      and old: "older g0 g" and iv: "i \<in> visited g" and st: "stk g = stk g0 @ i # T"
    using v by (simp_all add: visiting_def)
  have same: "idx g y = idx g0 y" if "y \<in> set (stk g0)" for y using older_same [OF old] stk_visited [OF ok0(1) that] by blast
  have path: "set path \<subseteq> set (stk g0)" using ok0(2) by (simp add: searching_def)
  obtain z where z: "z \<in> set (stk g0)" "low g i = idx g0 z" "(i, z) \<in> E\<^sup>*" using l ne unfolding lowest_def by metis
  then obtain x where x: "x \<in> set path" "idx g0 x \<le> idx g0 z" "(z, x) \<in> E\<^sup>*" using ok0(2) unfolding searching_def by blast
  have ix: "(i, x) \<in> E\<^sup>*" using z x by (meson rtrancl_trans)
  have x0: "x \<in> set (stk g0)" using x path by blast
  then have "idx g x < idx g i" using below_on_stack [OF ok st, of x] st by simp
  then have "\<exists>w \<in> set path. idx g w \<le> idx g y \<and> (y, w) \<in> E\<^sup>*" if y: "y \<in> set (stk g)" for y
  proof -
    obtain w where w: "w \<in> set (path @ [i])" "idx g w \<le> idx g y" "(y, w) \<in> E\<^sup>*" using s y unfolding searching_def by blast
    show ?thesis
    proof (cases "w \<in> set path")
      case False
      then have "w = i" using w by simp
      then show ?thesis using w x ix \<open>idx g x < idx g i\<close> by (intro bexI [of _ x]) (auto intro: rtrancl_trans)
    qed (use w in blast)
  qed
  moreover have "\<forall>w \<in> visited g - set path. \<forall>y. (w, y) \<in> E \<longrightarrow> y \<in> visited g"
    using done_closed [OF v l] by blast
  moreover have "\<forall>x \<in> set path. \<forall>y \<in> set (stk g). idx g x \<le> idx g y \<longrightarrow> (x, y) \<in> E\<^sup>*"
    using s unfolding searching_def by simp
  moreover have "set path \<subseteq> set (stk g)" using path st by auto
  ultimately have "searching E path g" unfolding searching_def by blast
  moreover have "low g i \<le> idx g0 y" if "w \<in> set (i # T)" "y \<in> set (stk g0)" "(w, y) \<in> E" for w y
    using that l unfolding lowest_def by auto
  ultimately show ?thesis
    using ok c old iv st same z v unfolding visit_post_def visiting_def
    by (intro conjI) (blast, blast, blast, blast, blast, blast, metis, blast, blast, blast)
qed


lemma leave_component:
  assumes pre: "visit_pre E path comps g0 i" and v: "visiting E path comps g0 i g new T" and l: "lowest E g0 i g T 0 (low g i)"
    and eq: "idx g i = low g i" and E: "E \<subseteq> {..<g_len g0} \<times> {..<g_len g0}"
  shows "components_of E ((comps @ new) @ [rev (i # T)])"
    and "\<forall>w \<in> set (i # T). \<forall>y. (w, y) \<in> E \<longrightarrow> y \<in> set (i # T) \<union> set (concat (comps @ new))"
proof -
  have ok0: "tarjan_ok comps g0" "searching E path g0" "i \<notin> visited g0" "\<forall>x \<in> set path. (x, i) \<in> E\<^sup>*"
    using pre by (simp_all add: visit_pre_def)
  have ok: "tarjan_ok (comps @ new) g" and c: "components_of E (comps @ new)" and s: "searching E (path @ [i]) g"
      and old: "older g0 g" and iv: "i \<in> visited g" and st: "stk g = stk g0 @ i # T"
    using v by (simp_all add: visiting_def)
  have same: "idx g y = idx g0 y" if "y \<in> set (stk g0)" for y using older_same [OF old] stk_visited [OF ok0(1) that] by blast
  have path: "set path \<subseteq> set (stk g0)" using ok0(2) by (simp add: searching_def)
  have dist: "distinct (stk g0 @ i # T)" and off: "set (concat (comps @ new)) = visited g - set (stk g)"
    using ok st unfolding tarjan_ok_def by metis+
  have con: "(i, w) \<in> E\<^sup>* \<and> (w, i) \<in> E\<^sup>*" if w: "w \<in> set (i # T)" for w
  proof -
    have w': "w \<in> set (stk g)" "idx g i \<le> idx g w" using w st dist below_on_stack [OF ok st, of w] by auto
    then have "(i, w) \<in> E\<^sup>*" using s unfolding searching_def by simp
    moreover obtain x where x: "x \<in> set (path @ [i])" "(w, x) \<in> E\<^sup>*" using s w' unfolding searching_def by blast
    then have "(x, i) \<in> E\<^sup>*" using ok0(4) by auto
    ultimately show ?thesis using x by (meson rtrancl_trans)
  qed
  show closed: "\<forall>w \<in> set (i # T). \<forall>y. (w, y) \<in> E \<longrightarrow> y \<in> set (i # T) \<union> set (concat (comps @ new))"
  proof (intro ballI allI impI)
    fix w y assume w: "w \<in> set (i # T)" and wy: "(w, y) \<in> E"
    have "w \<in> visited g" "w \<notin> set path" using w st stk_visited [OF ok, of w] path dist by auto
    from done_closed [OF v l this wy] have "y \<in> visited g" .
    moreover have "y \<notin> set (stk g0)"
    proof
      assume y: "y \<in> set (stk g0)"
      then have "low g i \<le> idx g0 y" using w wy l unfolding lowest_def by (cases "w = i") auto
      then show False using eq same [OF y] y below_on_stack [OF ok st, of y] st by simp
    qed
    ultimately show "y \<in> set (i # T) \<union> set (concat (comps @ new))" unfolding off st by auto
  qed
  show "components_of E ((comps @ new) @ [rev (i # T)])"
  proof (rule components_of_snoc [OF c, of _ i])
    show "distinct (rev (i # T))" using dist by simp
    show "set (rev (i # T)) \<inter> set (concat (comps @ new)) = {}" using off st by auto
    show "(i, x) \<in> E\<^sup>* \<and> (x, i) \<in> E\<^sup>*" if "x \<in> set (rev (i # T))" for x using con that by simp
    show "y \<in> set (rev (i # T)) \<union> set (concat (comps @ new))" if "x \<in> set (rev (i # T))" "(x, y) \<in> E" for x y
      using closed that by auto
  qed simp
qed

lemma flatten_room:
  assumes c: "components_of E comps" and len: "set (concat comps) \<subseteq> {..<len}"
  shows "length (flatten comps) \<le> 2 * len"
proof -
  have "length (concat comps) = card (set (concat comps))" using c by (intro distinct_card [symmetric]) (simp only: components_of_def)
  also have "\<dots> \<le> len" using card_mono [OF _ len] by simp
  finally have a: "length (concat comps) \<le> len" .
  have "\<forall>c \<in> set comps. 1 \<le> length c" using c by (auto simp: components_of_def Suc_le_eq)
  then have "length comps \<le> length (concat comps)" by (induction comps) auto
  then show ?thesis using a by (simp add: length_flatten)
qed

lemma leave_run:
  assumes pre: "visit_pre E path comps g0 i" and v: "visiting E path comps g0 i g new T" and l: "lowest E g0 i g T 0 (low g i)"
    and eq: "idx g i = low g i" and E: "E \<subseteq> {..<g_len g0} \<times> {..<g_len g0}"
  shows "\<exists>g'. leave_node g i = Some g' \<and> visit_post E path comps g0 i g' (new @ [rev (i # T)]) []"
proof -
  have ok0: "tarjan_ok comps g0" "searching E path g0" "i \<notin> visited g0" using pre by (simp_all add: visit_pre_def)
  have ok: "tarjan_ok (comps @ new) g" and s: "searching E (path @ [i]) g"
      and old: "older g0 g" and iv: "i \<in> visited g" and st: "stk g = stk g0 @ i # T" and ii: "idx g i = g_index g0"
    using v by (simp_all add: visiting_def)
  note comp = leave_component [OF pre v l eq E]
  have shape: "length (g_node g) = g_len g" "length (g_stack g) = g_len g" "length (g_order g) = 2 * g_len g" "g_sp g \<le> g_len g"
      "distinct (stk g0 @ i # T)" "set (stk g) = {w \<in> visited g. on_stack g w}" "sorted_wrt (\<lambda>x y. idx g x < idx g y) (stk g0 @ i # T)"
      "0 \<le> g_index g" "\<forall>w \<in> visited g. idx g w < g_index g" "take (g_op g) (g_order g) = flatten (comps @ new)"
      "g_op g = length (flatten (comps @ new))" "set (concat (comps @ new)) = visited g - set (stk g)"
    using ok st unfolding tarjan_ok_def by metis+
  have all: "set (concat ((comps @ new) @ [rev (i # T)])) = visited g - set (stk g0)"
    using shape(5,12) st stk_visited [OF ok] by auto
  have "set (concat ((comps @ new) @ [rev (i # T)])) \<subseteq> {..<g_len g}" unfolding all by (auto dest: visited_less)
  from flatten_room [OF comp(1) this]
  have room: "g_op g + Suc (length T) < length (g_order g)" unfolding flatten_snoc using shape(3,11) by simp
  have sp: "g_sp g = length (stk g0) + Suc (length T)" using length_stk [OF ok] st by simp
  have "set (i # T) \<subseteq> {..<length (g_node g)}" using st stk_visited [OF ok] shape(1) by auto
  then obtain g1 where g1: "pop_nodes i (g_sp g) g = Some g1" "g_sp g1 = length (stk g0)" "g_stack g1 = g_stack g" "g_len g1 = g_len g"
     "g_index g1 = g_index g" "length (g_node g1) = length (g_node g)" "length (g_order g1) = length (g_order g)"
     "g_op g1 = g_op g + Suc (length T)" "take (g_op g1) (g_order g1) = take (g_op g) (g_order g) @ map int (rev T @ [i])"
     "\<And>w. g_node g1 ! w = (if w \<in> set (i # T) then (g_node g ! w)\<lparr>nd_on_stack := False\<rparr> else g_node g ! w)"
    using pop_run [OF sp st [unfolded stk_def [of g]] _ _ _ room] shape(2,4,5) by auto
  define g' where "g' = g1\<lparr>g_order := (g_order g1)[g_op g1 := -1], g_op := g_op g1 + 1\<rparr>"
  have run: "leave_node g i = Some g'" using eq g1(1) by (simp add: leave_node_def g'_def)
  have sel: "g_sp g' = length (stk g0)" "g_stack g' = g_stack g" "g_len g' = g_len g" "g_index g' = g_index g" "g_node g' = g_node g1"
      "length (g_order g') = length (g_order g)" "g_op g' = g_op g1 + 1"
    using g1 by (simp_all add: g'_def)
  have idx: "idx g' w = idx g w" "low g' w = low g w" for w by (simp_all add: sel g1(10))
  have vis: "visited g' = visited g" by (simp only: visited_def idx sel(3))
  have stk: "stk g' = stk g0"
  proof -
    have "take (length (stk g0)) (take (g_sp g) (g_stack g)) = stk g0" using st by (simp add: stk_def [of g, symmetric])
    then show ?thesis using sp by (simp add: stk_def [of g'] sel)
  qed
  have same: "g_node g' ! w = g_node g0 ! w" if w: "w \<in> visited g0" for w
  proof -
    have "w \<notin> set (i # T)"
    proof
      assume a: "w \<in> set (i # T)"
      then have ws: "w \<in> set (stk g)" "w \<notin> set (stk g0)" using st shape(5) by auto
      then have "idx g i \<le> idx g w" using below_on_stack [OF ok st] by force
      moreover have "idx g w = idx g0 w" using older_same [OF old w] by simp
      moreover have "idx g0 w < g_index g0" using ok0(1) w unfolding tarjan_ok_def by blast
      ultimately show False using ii by simp
    qed
    then show ?thesis using old w by (simp add: sel g1(10) older_def)
  qed
  have order: "take (g_op g') (g_order g') = flatten ((comps @ new) @ [rev (i # T)])"
  proof -
    have "take (Suc (g_op g1)) ((g_order g1)[g_op g1 := -1]) = take (g_op g1) (g_order g1) @ [-1]"
      using room g1(7,8) by (simp add: take_Suc_conv_app_nth)
    then show ?thesis unfolding flatten_snoc using g1(9) shape(10) by (simp add: g'_def)
  qed
  have on: "set (stk g') = {w \<in> visited g'. on_stack g' w}"
    using shape(5,6) st stk_visited [OF ok] unfolding stk vis by (auto simp: sel g1(10))
  have sorted: "sorted_wrt (\<lambda>x y. idx g' x < idx g' y) (stk g')"
    using shape(7) unfolding stk idx by (simp add: sorted_wrt_append)
  have ok': "tarjan_ok ((comps @ new) @ [rev (i # T)]) g'"
    unfolding tarjan_ok_def
  proof (intro conjI)
    show "g_op g' = length (flatten ((comps @ new) @ [rev (i # T)]))"
      unfolding flatten_snoc using shape(11) by (simp add: sel g1(8))
    show "distinct (stk g')" using shape(5) by (simp add: stk)
    show "set (concat ((comps @ new) @ [rev (i # T)])) = visited g' - set (stk g')" unfolding all vis stk ..
    show "\<forall>w \<in> visited g'. idx g' w < g_index g'" using shape(9) by (simp only: vis idx sel(4))
  qed (use shape on sorted order sel g1(6) sp in simp_all)
  have old': "older g0 g'" using old same by (simp add: older_def sel)
  have path: "set path \<subseteq> set (stk g0)" using ok0(2) by (simp add: searching_def)
  have idx0: "idx g' y = idx g0 y" if "y \<in> set (stk g0)" for y using same stk_visited [OF ok0(1) that] by simp
  have "\<forall>w \<in> visited g - set path. \<forall>y. (w, y) \<in> E \<longrightarrow> y \<in> visited g"
    using done_closed [OF v l] by blast
  moreover have "\<forall>x \<in> set path. \<forall>y \<in> set (stk g0). idx g' x \<le> idx g' y \<longrightarrow> (x, y) \<in> E\<^sup>*"
    using ok0(2) path idx0 unfolding searching_def by auto
  moreover have "\<exists>x \<in> set path. idx g' x \<le> idx g' y \<and> (y, x) \<in> E\<^sup>*" if y: "y \<in> set (stk g0)" for y
  proof -
    obtain x where "x \<in> set path" "idx g0 x \<le> idx g0 y" "(y, x) \<in> E\<^sup>*" using ok0(2) y unfolding searching_def by blast
    then show ?thesis using idx0 path y by (intro bexI [of _ x]) auto
  qed
  ultimately have s': "searching E path g'" using path unfolding searching_def vis stk by blast
  have "g_index g0 \<le> low g' i" using eq ii by (simp add: idx)
  moreover have "\<forall>w \<in> visited g - visited g0. (i, w) \<in> E\<^sup>*" using v by (simp add: visiting_def)
  ultimately have "visit_post E path comps g0 i g' (new @ [rev (i # T)]) []"
    using ok' comp(1) s' old' iv eq unfolding visit_post_def by (simp add: vis stk idx)
  then show ?thesis using run by blast
qed


text \<open>The loop, when the recursive calls on fewer unvisited nodes keep the contract.\<close>

definition unvisited :: "isl_tarjan_graph \<Rightarrow> nat" where
  "unvisited g = card ({..<g_len g} - visited g)"

lemma unvisited_less:
  assumes "visited g \<subset> visited g'" "g_len g' = g_len g"
  shows "unvisited g' < unvisited g"
  unfolding unvisited_def
proof (rule psubset_card_mono)
  obtain v where v: "v \<in> visited g'" "v \<notin> visited g" using assms(1) by blast
  then have "v < g_len g" using visited_less [of v g'] assms(2) by simp
  then show "{..<g_len g'} - visited g' \<subset> {..<g_len g} - visited g" using assms v by auto
qed simp

lemma edges_loop_run:
  assumes pre: "visit_pre E path comps g0 i" and E: "E = edges follows (g_len g0)"
    and noerr: "\<forall>a < g_len g0. \<forall>b < g_len g0. 0 \<le> follows a b"
    and rec: "\<forall>path comps g j. visit_pre E path comps g j \<longrightarrow> g_len g = g_len g0 \<longrightarrow> unvisited g < unvisited g0 \<longrightarrow>
      (\<exists>g' new T. rec g j = Some (0, g') \<and> visit_post E path comps g j g' new T)"
  shows "visiting E path comps g0 i g new T \<Longrightarrow> lowest E g0 i g T n (low g i) \<Longrightarrow> n \<le> g_len g0 \<Longrightarrow>
    \<exists>g' new T. edges_loop rec follows i n g = Some (0, g') \<and> visiting E path comps g0 i g' new T \<and> lowest E g0 i g' T 0 (low g' i)"
proof (induction n arbitrary: g new T)
  case 0
  then show ?case by auto
next
  case (Suc j)
  have p: "tarjan_ok comps g0" "i < g_len g0" "i \<notin> visited g0" "\<forall>x \<in> set path. (x, i) \<in> E\<^sup>*" using pre by (simp_all add: visit_pre_def)
  note v = Suc.prems(1) and l = Suc.prems(2)
  have ok: "tarjan_ok (comps @ new) g" and s: "searching E (path @ [i]) g" and c: "components_of E (comps @ new)"
      and old: "older g0 g" and iv: "i \<in> visited g" and st: "stk g = stk g0 @ i # T"
    using v by (simp_all add: visiting_def)
  have len: "g_len g = g_len g0" using old by (simp add: older_def)
  have j: "j < g_len g0" using Suc.prems(3) by simp
  have jE: "(i, j) \<in> E \<longleftrightarrow> follows i j \<noteq> 0" using j p(2) E by (simp add: edges_def)
  have jv: "j \<in> visited g \<longleftrightarrow> 0 \<le> idx g j" using j len by (simp add: visited_def)
  have js: "j \<in> set (stk g) \<longleftrightarrow> j \<in> visited g \<and> on_stack g j" using ok by (simp add: tarjan_ok_def)
  have le: "\<And>y. y \<in> set (stk g0) \<Longrightarrow> y \<in> set (stk g) \<and> idx g y = idx g0 y"
    using st older_same [OF old] stk_visited [OF p(1)] by simp
  have pass: ?case if "(i, j) \<in> E \<longrightarrow> j \<in> visited g \<and> (j \<in> set (stk g0) \<longrightarrow> low g i \<le> idx g0 j)"
      "edges_loop rec follows i (Suc j) g = edges_loop rec follows i j g"
    unfolding that(2) using Suc.IH [OF v lowest_pass [OF l that(1)]] j by simp
  have again: "\<exists>g' new T. edges_loop rec follows i j (lowered g1 i m) = Some (0, g') \<and>
        visiting E path comps g0 i g' new T \<and> lowest E g0 i g' T 0 (low g' i)"
    if g1: "visiting E path comps g0 i g1 new1 T1" "lowest E g0 i g1 T1 j (min m (low g1 i))" for g1 new1 T1 m
  proof -
    have "tarjan_ok (comps @ new1) g1" "i < g_len g1" using g1(1) p(2) by (auto simp: visiting_def older_def)
    then have "low (lowered g1 i m) i = min m (low g1 i)" by (rule low_lowered)
    moreover have "lowest E g0 i (lowered g1 i m) T1 j l' = lowest E g0 i g1 T1 j l'" for l' by (simp add: lowest_def)
    ultimately show ?thesis using Suc.IH [OF visiting_lowered [OF g1(1) p(3)]] g1(2) j by simp
  qed
  show ?case
  proof (cases "j = i \<or> 0 \<le> idx g j \<and> (\<not> on_stack g j \<or> low g i < idx g j)")
    case True
    show ?thesis
    proof (rule pass)
      show "edges_loop rec follows i (Suc j) g = edges_loop rec follows i j g" using True by auto
      show "(i, j) \<in> E \<longrightarrow> j \<in> visited g \<and> (j \<in> set (stk g0) \<longrightarrow> low g i \<le> idx g0 j)"
      proof (intro impI conjI)
        show "j \<in> visited g" using True jv iv by auto
        assume a: "j \<in> set (stk g0)"
        then have "j \<noteq> i" using p(3) stk_visited [OF p(1)] by blast
        then show "low g i \<le> idx g0 j" using True le [OF a] js by auto
      qed
    qed
  next
    case go: False
    have f: "0 \<le> follows i j" using noerr p(2) j by blast
    show ?thesis
    proof (cases "follows i j = 0")
      case True
      then show ?thesis using go jE by (intro pass) auto
    next
      case False
      then have e: "(i, j) \<in> E" using jE by simp
      show ?thesis
      proof (cases "j \<in> visited g")
        case True
        then have "edges_loop rec follows i (Suc j) g = edges_loop rec follows i j (lowered g i (idx g j))"
          using go f False jv by (auto simp: lowered_def set_low_def Let_def)
        moreover have "j \<in> set (stk g)" using go jv True js by blast
        ultimately show ?thesis using again [OF v lowest_seen [OF v p(1) l _ e]] by simp
      next
        case unv: False
        have "visit_pre E (path @ [i]) (comps @ new) g j"
          using ok c s j len unv p(4) e unfolding visit_pre_def by (auto intro: rtrancl_into_rtrancl)
        moreover have "unvisited g < unvisited g0"
          using older_visited [OF old] iv p(3) len by (intro unvisited_less) auto
        ultimately obtain g1 new1 T1 where g1: "rec g j = Some (0, g1)" "visit_post E (path @ [i]) (comps @ new) g j g1 new1 T1"
          using rec len by blast
        note called = lowest_called [OF v p(1) l e unv g1(2)]
        have "edges_loop rec follows i (Suc j) g = edges_loop rec follows i j (lowered g1 i (low g1 j))"
          using go f False jv unv g1(1) by (auto simp: lowered_def set_low_def Let_def)
        then show ?thesis using again [OF called(1,3)] by simp
      qed
    qed
  qed
qed

lemma components_run:
  assumes noerr: "\<forall>a < len. \<forall>b < len. 0 \<le> follows a b"
  shows "visit_pre (edges follows len) path comps g i \<Longrightarrow> g_len g = len \<Longrightarrow>
    \<exists>g' new T. isl_tarjan_components follows g i = Some (0, g') \<and> visit_post (edges follows len) path comps g i g' new T"
proof (induction "unvisited g" arbitrary: path comps g i rule: less_induct)
  case less
  let ?E = "edges follows len"
  note pre = less.prems(1)
  have E: "?E = edges follows (g_len g)" "?E \<subseteq> {..<g_len g} \<times> {..<g_len g}" using less.prems(2) by (auto simp: edges_def)
  have ne: "\<forall>a < g_len g. \<forall>b < g_len g. 0 \<le> follows a b" using noerr less.prems(2) by simp
  have rec: "\<forall>path comps h j. visit_pre ?E path comps h j \<longrightarrow> g_len h = g_len g \<longrightarrow> unvisited h < unvisited g \<longrightarrow>
      (\<exists>g' new T. isl_tarjan_components follows h j = Some (0, g') \<and> visit_post ?E path comps h j g' new T)"
    using less.hyps less.prems(2) by blast
  note start = visiting_start [OF pre E(2)]
  obtain g1 new T where g1: "edges_loop (isl_tarjan_components follows) follows i (g_len g) (enter_node g i) = Some (0, g1)"
      "visiting ?E path comps g i g1 new T" "lowest ?E g i g1 T 0 (low g1 i)"
    using edges_loop_run [where rec = "isl_tarjan_components follows", OF pre E(1) ne rec conjunct1 [OF start] conjunct2 [OF start]] by auto
  show ?case
  proof (cases "idx g1 i = low g1 i")
    case True
    from leave_run [OF pre g1(2,3) this E(2)]
    obtain g2 where g2: "leave_node g1 i = Some g2" "visit_post ?E path comps g i g2 (new @ [rev (i # T)]) []" by blast
    then have "isl_tarjan_components follows g i = Some (0, g2)" using g1(1) by (subst isl_tarjan_components.simps) simp
    then show ?thesis using g2(2) by blast
  next
    case False
    then have "leave_node g1 i = Some g1" by (simp add: leave_node_def)
    then have "isl_tarjan_components follows g i = Some (0, g1)" using g1(1) by (subst isl_tarjan_components.simps) simp
    then show ?thesis using leave_early [OF pre g1(2,3) False] by blast
  qed
qed


subsection \<open>The decompositions\<close>

definition enough_memory :: "tarjan_memory \<Rightarrow> nat \<Rightarrow> bool" where
  "enough_memory mem len \<longleftrightarrow> mem_graph mem \<and>
     (len \<noteq> 0 \<longrightarrow> mem_node mem \<noteq> None \<and> mem_stack mem \<noteq> None \<and> mem_order mem \<noteq> None)"

lemma alloc_fails: "isl_tarjan_graph_alloc mem len = None \<longleftrightarrow> \<not> enough_memory mem len"
  by (auto simp: isl_tarjan_graph_alloc_def enough_memory_def Let_def)

lemma alloc_run:
  assumes "isl_tarjan_graph_alloc mem len = Some g"
  shows "tarjan_ok [] g" "searching E [] g" "g_len g = len" "visited g = {}"
proof -
  have len: "length (array_of m len) = len" if "len \<noteq> 0 \<longrightarrow> m \<noteq> None" for m :: "'x junk option"
    using that by (auto simp: array_of_def split: option.split)
  have len2: "length (array_of m (2 * len)) = 2 * len" if "len \<noteq> 0 \<longrightarrow> m \<noteq> None" for m :: "int junk option"
    using that by (auto simp: array_of_def split: option.split)
  have mem: "len \<noteq> 0 \<longrightarrow> mem_node mem \<noteq> None" "len \<noteq> 0 \<longrightarrow> mem_stack mem \<noteq> None" "len \<noteq> 0 \<longrightarrow> mem_order mem \<noteq> None"
      and g: "g = \<lparr>g_len = len, g_node = map (\<lambda>n. n\<lparr>nd_index := -1\<rparr>) (array_of (mem_node mem) len),
        g_stack = array_of (mem_stack mem) len, g_sp = 0, g_index = 0, g_order = array_of (mem_order mem) (2 * len), g_op = 0\<rparr>"
    using assms by (auto simp: isl_tarjan_graph_alloc_def Let_def split: if_splits)
  show v: "visited g = {}" using len [OF mem(1)] by (auto simp: visited_def g)
  show "g_len g = len" by (simp add: g)
  have stk: "stk g = []" by (simp add: stk_def g)
  show "tarjan_ok [] g" unfolding tarjan_ok_def v stk using len [OF mem(1)] len [OF mem(2)] len2 [OF mem(3)] by (simp add: g)
  show "searching E [] g" by (simp add: searching_def stk v)
qed

lemma path_empty: "searching E [] g \<Longrightarrow> stk g = []"
  unfolding searching_def by (cases "stk g") auto

lemma init_loop_run:
  assumes noerr: "\<forall>a < len. \<forall>b < len. 0 \<le> follows a b"
  shows "tarjan_ok comps g \<Longrightarrow> components_of (edges follows len) comps \<Longrightarrow> searching (edges follows len) [] g \<Longrightarrow> g_len g = len \<Longrightarrow>
    n \<le> len \<Longrightarrow> \<forall>v. n \<le> v \<longrightarrow> v < len \<longrightarrow> v \<in> visited g \<Longrightarrow>
    \<exists>g' comps'. init_loop follows n g = Some (Some g') \<and> tarjan_ok comps' g' \<and> components_of (edges follows len) comps' \<and>
      searching (edges follows len) [] g' \<and> g_len g' = len \<and> visited g' = {..<len}"
proof (induction n arbitrary: comps g)
  case 0
  then have "visited g = {..<len}" by (auto dest: visited_less)
  then show ?case using 0 by auto
next
  case (Suc i)
  show ?case
  proof (cases "i \<in> visited g")
    case True
    then have "\<forall>v. i \<le> v \<longrightarrow> v < len \<longrightarrow> v \<in> visited g" using Suc.prems(6) by (metis not_less_eq_eq le_antisym)
    moreover have "init_loop follows (Suc i) g = init_loop follows i g" using True by (simp add: visited_def)
    ultimately show ?thesis using Suc.IH [OF Suc.prems(1-4)] Suc.prems(5) by simp
  next
    case False
    then have pre: "visit_pre (edges follows len) [] comps g i" using Suc.prems by (simp add: visit_pre_def)
    from components_run [OF noerr this Suc.prems(4)] obtain g1 new T
      where g1: "isl_tarjan_components follows g i = Some (0, g1)" and post: "visit_post (edges follows len) [] comps g i g1 new T" by blast
    have p: "tarjan_ok (comps @ new) g1" "components_of (edges follows len) (comps @ new)" "searching (edges follows len) [] g1"
        "older g g1" "i \<in> visited g1"
      using post by (simp_all add: visit_post_def)
    then have len: "g_len g1 = len" using Suc.prems(4) by (simp add: older_def)
    have "\<forall>v. i \<le> v \<longrightarrow> v < len \<longrightarrow> v \<in> visited g1"
      using Suc.prems(6) p(5) older_visited [OF p(4)] by (metis not_less_eq_eq le_antisym subsetD)
    moreover have "init_loop follows (Suc i) g = init_loop follows i g1"
      using False g1 Suc.prems(4,5) by (simp add: visited_def)
    ultimately show ?thesis using Suc.IH [OF p(1-3) len] Suc.prems(5) by simp
  qed
qed

text \<open>What a graph holds in the end.\<close>

definition holds_components :: "(nat \<Rightarrow> nat \<Rightarrow> int) \<Rightarrow> nat \<Rightarrow> isl_tarjan_graph \<Rightarrow> nat list list \<Rightarrow> bool" where
  "holds_components follows len g comps \<longleftrightarrow> take (g_op g) (g_order g) = flatten comps \<and> components_of (edges follows len) comps"

lemma ok_holds: "tarjan_ok comps g \<Longrightarrow> components_of (edges follows len) comps \<Longrightarrow> holds_components follows len g comps"
  unfolding holds_components_def tarjan_ok_def by blast

lemma graph_init_run:
  assumes noerr: "\<forall>a < len. \<forall>b < len. 0 \<le> follows a b" and mem: "enough_memory mem len"
  shows "\<exists>g comps. isl_tarjan_graph_init mem len follows = Some (Some g) \<and> holds_components follows len g comps \<and>
    set (concat comps) = {..<len}"
proof -
  obtain g0 where g0: "isl_tarjan_graph_alloc mem len = Some g0" using mem alloc_fails [of mem len] by auto
  obtain g comps where g: "init_loop follows len g0 = Some (Some g)" "tarjan_ok comps g" "components_of (edges follows len) comps"
      "searching (edges follows len) [] g" "visited g = {..<len}"
    using init_loop_run [OF noerr alloc_run(1) [OF g0] components_of_Nil alloc_run(2) [OF g0] alloc_run(3) [OF g0], of len] by auto
  have "set (concat comps) = {..<len}" using g(2,5) path_empty [OF g(4)] unfolding tarjan_ok_def by simp
  then show ?thesis using g(1) g0 ok_holds [OF g(2,3)] by (auto simp: isl_tarjan_graph_init_def)
qed


lemma graph_component_run:
  assumes noerr: "\<forall>a < len. \<forall>b < len. 0 \<le> follows a b" and mem: "enough_memory mem len" and node: "node < len"
  shows "\<exists>g comps. isl_tarjan_graph_component mem len node follows = Some (Some g) \<and> holds_components follows len g comps \<and>
    set (concat comps) = {v. (node, v) \<in> (edges follows len)\<^sup>*} \<and> comps \<noteq> [] \<and> node \<in> set (last comps)"
proof -
  let ?E = "edges follows len"
  obtain g0 where g0: "isl_tarjan_graph_alloc mem len = Some g0" using mem alloc_fails [of mem len] by auto
  note a = alloc_run [OF g0]
  have "visit_pre ?E [] [] g0 node" using a node by (simp add: visit_pre_def)
  from components_run [OF noerr this a(3)] obtain g comps T
    where g: "isl_tarjan_components follows g0 node = Some (0, g)" and post: "visit_post ?E [] [] g0 node g comps T" by blast
  have p: "tarjan_ok comps g" "components_of ?E comps" "searching ?E [] g" "node \<in> visited g" "stk g = stk g0 @ T"
      "\<forall>v \<in> visited g. (node, v) \<in> ?E\<^sup>*" "T = [] \<longrightarrow> comps \<noteq> [] \<and> node \<in> set (last comps)"
    using post a(4) by (simp_all add: visit_post_def)
  have "T = []" using path_empty [OF p(3)] p(5) by simp
  have vis: "set (concat comps) = visited g" using p(1) path_empty [OF p(3)] unfolding tarjan_ok_def by simp
  have "{v. (node, v) \<in> ?E\<^sup>*} \<subseteq> visited g" using components_closed [OF p(2)] p(4) unfolding vis by blast
  then have "set (concat comps) = {v. (node, v) \<in> ?E\<^sup>*}" using p(6) unfolding vis by blast
  then show ?thesis
    using g g0 ok_holds [OF p(1,2)] p(7) \<open>T = []\<close> by (auto simp: isl_tarjan_graph_component_def)
qed


subsection \<open>The property\<close>

text \<open>
  C15: When the callback does not fail, both decompositions return.  If an allocation fails they
  return \<open>NULL\<close>; otherwise \<open>g->order\<close> holds, each followed by \<open>-1\<close>, the strongly connected
  components, such that no node follows a node of a later one.  \<open>isl_tarjan_graph_init\<close>
  covers all nodes; \<open>isl_tarjan_graph_component\<close> covers the nodes that are reached from
  \<open>node\<close>, the component of which comes last.
\<close>

theorem tarjan_graph_decomposes:
  assumes "\<forall>a < len. \<forall>b < len. 0 \<le> follows a b" and "node < len"
  shows "if enough_memory mem len
    then (\<exists>g comps. isl_tarjan_graph_init mem len follows = Some (Some g) \<and>
            take (g_op g) (g_order g) = flatten comps \<and> components_of (edges follows len) comps \<and>
            set (concat comps) = {..<len}) \<and>
         (\<exists>g comps. isl_tarjan_graph_component mem len node follows = Some (Some g) \<and>
            take (g_op g) (g_order g) = flatten comps \<and> components_of (edges follows len) comps \<and>
            set (concat comps) = {v. (node, v) \<in> (edges follows len)\<^sup>*} \<and> comps \<noteq> [] \<and> node \<in> set (last comps))
    else isl_tarjan_graph_init mem len follows = Some None \<and> isl_tarjan_graph_component mem len node follows = Some None"
proof (cases "enough_memory mem len")
  case True
  from graph_init_run [OF assms(1) this] graph_component_run [OF assms(1) this assms(2)]
  show ?thesis using True unfolding holds_components_def by simp
next
  case False
  then have "isl_tarjan_graph_alloc mem len = None" using alloc_fails by blast
  then show ?thesis using False by (simp add: isl_tarjan_graph_init_def isl_tarjan_graph_component_def)
qed

text \<open>The cycle \<open>0, 1\<close>, followed by \<open>2\<close>, and \<open>3\<close> that follows nothing.\<close>

definition sample_memory :: tarjan_memory where
  "sample_memory = \<lparr>mem_graph = True, mem_node = Some (\<lambda>_. \<lparr>nd_index = 5, nd_min_index = 6, nd_on_stack = True\<rparr>),
     mem_stack = Some (\<lambda>_. 7), mem_order = Some (\<lambda>_. 8)\<rparr>"

definition sample_follows :: "nat \<Rightarrow> nat \<Rightarrow> int" where
  "sample_follows i j = (if (i, j) = (0, 1) \<or> (i, j) = (1, 0) \<or> (i, j) = (2, 1) then 1 else 0)"

theorem tarjan_graph_decomposes_witness:
  "map_option (map_option (\<lambda>g. take (g_op g) (g_order g))) (isl_tarjan_graph_init sample_memory 4 sample_follows)
     = Some (Some [3, -1, 0, 1, -1, 2, -1]) \<and>
   (\<exists>comps. flatten comps = [3, -1, 0, 1, -1, 2, -1] \<and> components_of (edges sample_follows 4) comps)"
proof -
  have run: "map_option (map_option (\<lambda>g. take (g_op g) (g_order g))) (isl_tarjan_graph_init sample_memory 4 sample_follows)
     = Some (Some [3, -1, 0, 1, -1, 2, -1])"
    by code_simp
  have "\<forall>a < 4. \<forall>b < 4. 0 \<le> sample_follows a b" by (simp add: sample_follows_def)
  from tarjan_graph_decomposes [OF this, of 2 sample_memory]
  obtain g comps where "isl_tarjan_graph_init sample_memory 4 sample_follows = Some (Some g)"
      "take (g_op g) (g_order g) = flatten comps" "components_of (edges sample_follows 4) comps"
    by (auto simp: enough_memory_def sample_memory_def)
  then show ?thesis using run by (intro conjI) (rule run, rule exI [of _ comps], simp)
qed

text \<open>The status of the recursive call is not looked at: a callback that fails there does not fail the
  decomposition.  Here \<open>1\<close> follows \<open>0\<close>, and whether \<open>0\<close> follows \<open>1\<close> cannot be told; they are reported
  as one component.\<close>

lemma nested_error_is_lost:
  "map_option (map_option (\<lambda>g. take (g_op g) (g_order g)))
     (isl_tarjan_graph_init sample_memory 2 (\<lambda>i j. if (i, j) = (0, 1) then -1 else if (i, j) = (1, 0) then 1 else 0))
   = Some (Some [0, 1, -1])"
  by code_simp

end
