(* ===== verification/Isl_List.thy ===== *)
theory Isl_List imports Objects Isl_Sort Isl_Tarjan "HOL-Library.Monad_Syntax" begin

text \<open>
  The generic lists (isl_list_templ.h, isl_list_templ.c).  The file is a template over the type of
  the elements, given by its functions for copying and freeing: here these are the parameters
  \<open>copy\<close> and \<open>free\<close>.  The heap holds the elements, a store as in theory Objects, and the list
  objects; an access to memory that is released, or outside of an array, has no result.
\<close>

subsection \<open>The heap\<close>

record isl_list =
  l_ref :: int
  l_n :: nat
  l_size :: nat
  l_p :: "nat option list"

text \<open>\<open>unset\<close> is what memory holds before it is written.\<close>

record 'a heap =
  objs :: "'a store"
  lists :: "nat \<Rightarrow> isl_list option"
  next_list :: nat
  unset :: "nat option junk"

definition el_op :: "'a ptr_op \<Rightarrow> 'a heap \<Rightarrow> nat option \<Rightarrow> ('a heap \<times> nat option) option" where
  "el_op f h q = map_option (\<lambda>(s, q). (h\<lparr>objs := s\<rparr>, q)) (f (objs h) q)"

definition el_value :: "'a heap \<Rightarrow> nat option \<Rightarrow> 'a option" where
  "el_value h q = Option.bind q (\<lambda>e. map_option snd (cells (objs h) e))"

definition set_list :: "'a heap \<Rightarrow> nat \<Rightarrow> isl_list \<Rightarrow> 'a heap" where
  "set_list h a l = h\<lparr>lists := (lists h)(a \<mapsto> l)\<rparr>"

definition list_read :: "'a heap \<Rightarrow> nat \<Rightarrow> nat \<Rightarrow> nat option option" where
  "list_read h a i = do { l \<leftarrow> lists h a; if i < length (l_p l) then Some (l_p l ! i) else None }"

definition list_write :: "'a heap \<Rightarrow> nat \<Rightarrow> nat \<Rightarrow> nat option \<Rightarrow> 'a heap option" where
  "list_write h a i q = do { l \<leftarrow> lists h a; if i < length (l_p l) then Some (set_list h a (l\<lparr>l_p := (l_p l)[i := q]\<rparr>)) else None }"

definition new_list :: "'a heap \<Rightarrow> isl_list \<Rightarrow> 'a heap \<times> nat option" where
  "new_list h l = (h\<lparr>lists := (lists h)(next_list h \<mapsto> l), next_list := next_list h + 1\<rparr>, Some (next_list h))"

text \<open>The loop \<open>for (i = hi; i > lo; --i)\<close>, the body of which is given \<open>i - 1\<close>.\<close>

primrec down_loop :: "nat \<Rightarrow> nat \<Rightarrow> (nat \<Rightarrow> 's \<Rightarrow> 's option) \<Rightarrow> 's \<Rightarrow> 's option" where
  "down_loop 0 lo f s = Some s"
| "down_loop (Suc n) lo f s = do { s \<leftarrow> f (lo + n) s; down_loop n lo f s }"

definition for_down_opt :: "nat \<Rightarrow> nat \<Rightarrow> (nat \<Rightarrow> 's \<Rightarrow> 's option) \<Rightarrow> 's \<Rightarrow> 's option" where
  "for_down_opt lo hi f s = down_loop (hi - lo) lo f s"

type_synonym 'a list_result = "('a heap \<times> nat option) option"

subsection \<open>Allocation, copies and release\<close>

definition isl_list_alloc :: "'a heap \<Rightarrow> int \<Rightarrow> 'a heap \<times> nat option" where
  "isl_list_alloc h n =
     (if n < 0 then (h, None)
      else let h = h\<lparr>objs := isl_ctx_ref (objs h)\<rparr>
           in new_list h \<lparr>l_ref = 1, l_n = 0, l_size = nat n, l_p = fresh (unset h) (nat n)\<rparr>)"

definition isl_list_copy :: "'a heap \<Rightarrow> nat option \<Rightarrow> 'a list_result" where
  "isl_list_copy h list = (case list of None \<Rightarrow> Some (h, None)
     | Some a \<Rightarrow> do { l \<leftarrow> lists h a; Some (set_list h a (l\<lparr>l_ref := l_ref l + 1\<rparr>), list) })"

definition isl_list_free :: "'a ptr_op \<Rightarrow> 'a heap \<Rightarrow> nat option \<Rightarrow> 'a list_result" where
  "isl_list_free free h list = (case list of None \<Rightarrow> Some (h, None)
     | Some a \<Rightarrow> do {
         l \<leftarrow> lists h a;
         let h = set_list h a (l\<lparr>l_ref := l_ref l - 1\<rparr>);
         if 0 < l_ref l - 1 then Some (h, None)
         else do {
           let h = h\<lparr>objs := isl_ctx_deref (objs h)\<rparr>;
           h \<leftarrow> for_range_opt 0 (l_n l) (\<lambda>i h. do { q \<leftarrow> list_read h a i; (h, _) \<leftarrow> el_op free h q; Some h }) h;
           Some (h\<lparr>lists := (lists h)(a := None)\<rparr>, None)
         }
       })"

subsection \<open>Adding elements\<close>

text \<open>The body of \<open>add\<close>, given \<open>grow\<close>, and the loop that adds copies of the elements \<open>lo..hi\<close> of
  \<open>list\<close>.\<close>

definition list_add_with :: "('a heap \<Rightarrow> nat option \<Rightarrow> nat \<Rightarrow> 'a list_result) \<Rightarrow> 'a ptr_op \<Rightarrow>
    'a heap \<Rightarrow> nat option \<Rightarrow> nat option \<Rightarrow> 'a list_result" where
  "list_add_with grow free h list el = do {
     (h, list) \<leftarrow> grow h list 1;
     (case (list, el) of
        (Some a, Some e) \<Rightarrow> do {
          l \<leftarrow> lists h a;
          h \<leftarrow> list_write h a (l_n l) el;
          l \<leftarrow> lists h a;
          Some (set_list h a (l\<lparr>l_n := l_n l + 1\<rparr>), list)
        }
      | _ \<Rightarrow> do { (h, _) \<leftarrow> el_op free h el; isl_list_free free h list })
   }"

definition add_copies :: "('a heap \<Rightarrow> nat option \<Rightarrow> nat option \<Rightarrow> 'a list_result) \<Rightarrow> 'a ptr_op \<Rightarrow> nat \<Rightarrow> nat \<Rightarrow> nat \<Rightarrow>
    'a heap \<Rightarrow> nat option \<Rightarrow> 'a list_result" where
  "add_copies add copy list lo hi h res = for_range_opt lo hi (\<lambda>i (h, res). do {
     q \<leftarrow> list_read h list i; (h, el) \<leftarrow> el_op copy h q; add h res el }) (h, res)"

text \<open>\<open>grow\<close> and \<open>add\<close> call each other; the first argument is the depth of these calls.  Memory that is
  reallocated moves.\<close>

primrec list_grow :: "nat \<Rightarrow> 'a ptr_op \<Rightarrow> 'a ptr_op \<Rightarrow> 'a heap \<Rightarrow> nat option \<Rightarrow> nat \<Rightarrow> 'a list_result" where
  "list_grow 0 copy free h list n = None"
| "list_grow (Suc depth) copy free h list n = (case list of None \<Rightarrow> Some (h, None)
     | Some a \<Rightarrow> do {
         l \<leftarrow> lists h a;
         if l_ref l = 1 \<and> l_n l + n \<le> l_size l then Some (h, list)
         else do {
           let new_size = ((l_n l + n + 1) * 3) div 2;
           if l_ref l = 1 then
             Some (new_list (h\<lparr>lists := (lists h)(a := None)\<rparr>)
               (l\<lparr>l_size := new_size, l_p := take new_size (l_p l) @ fresh (unset h) (new_size - l_size l)\<rparr>))
           else do {
             let new_size = (if l_n l + n \<le> l_size l \<and> l_size l < new_size then l_size l else new_size);
             let (h, res) = isl_list_alloc h (int new_size);
             if res = None then isl_list_free free h list
             else do {
               (h, res) \<leftarrow> add_copies (list_add_with (list_grow depth copy free) free) copy a 0 (l_n l) h res;
               (h, _) \<leftarrow> isl_list_free free h list;
               Some (h, res)
             }
           }
         }
       })"

definition isl_list_grow :: "'a ptr_op \<Rightarrow> 'a ptr_op \<Rightarrow> 'a heap \<Rightarrow> nat option \<Rightarrow> nat \<Rightarrow> 'a list_result" where
  "isl_list_grow = list_grow 2"

definition isl_list_add :: "'a ptr_op \<Rightarrow> 'a ptr_op \<Rightarrow> 'a heap \<Rightarrow> nat option \<Rightarrow> nat option \<Rightarrow> 'a list_result" where
  "isl_list_add copy free = list_add_with (isl_list_grow copy free) free"

definition isl_list_dup :: "'a ptr_op \<Rightarrow> 'a ptr_op \<Rightarrow> 'a heap \<Rightarrow> nat option \<Rightarrow> 'a list_result" where
  "isl_list_dup copy free h list = (case list of None \<Rightarrow> Some (h, None)
     | Some a \<Rightarrow> do {
         l \<leftarrow> lists h a;
         let (h, dup) = isl_list_alloc h (int (l_n l));
         if dup = None then Some (h, None)
         else add_copies (isl_list_add copy free) copy a 0 (l_n l) h dup
       })"

definition isl_list_cow :: "'a ptr_op \<Rightarrow> 'a ptr_op \<Rightarrow> 'a heap \<Rightarrow> nat option \<Rightarrow> 'a list_result" where
  "isl_list_cow copy free h list = (case list of None \<Rightarrow> Some (h, None)
     | Some a \<Rightarrow> do {
         l \<leftarrow> lists h a;
         if l_ref l = 1 then Some (h, list)
         else isl_list_dup copy free (set_list h a (l\<lparr>l_ref := l_ref l - 1\<rparr>)) list
       })"

subsection \<open>Access by position\<close>

definition isl_list_check_index :: "'a heap \<Rightarrow> nat option \<Rightarrow> int \<Rightarrow> bool option" where
  "isl_list_check_index h list index = (case list of None \<Rightarrow> Some False
     | Some a \<Rightarrow> do { l \<leftarrow> lists h a; Some (\<not> (index < 0 \<or> int (l_n l) \<le> index)) })"

definition isl_list_size :: "'a heap \<Rightarrow> nat option \<Rightarrow> int option" where
  "isl_list_size h list = (case list of None \<Rightarrow> Some (-1) | Some a \<Rightarrow> do { l \<leftarrow> lists h a; Some (int (l_n l)) })"

definition isl_list_peek :: "'a heap \<Rightarrow> nat option \<Rightarrow> int \<Rightarrow> nat option option" where
  "isl_list_peek h list index = do {
     ok \<leftarrow> isl_list_check_index h list index;
     (if \<not> ok then Some None else do { a \<leftarrow> list; list_read h a (nat index) }) }"

definition isl_list_get_at :: "'a ptr_op \<Rightarrow> 'a heap \<Rightarrow> nat option \<Rightarrow> int \<Rightarrow> 'a list_result" where
  "isl_list_get_at copy h list index = do { q \<leftarrow> isl_list_peek h list index; el_op copy h q }"

text \<open>Releasing an element and a list, where a function fails.\<close>

definition fail_free :: "'a ptr_op \<Rightarrow> 'a heap \<Rightarrow> nat option \<Rightarrow> nat option \<Rightarrow> 'a list_result" where
  "fail_free free h el list = do { (h, _) \<leftarrow> el_op free h el; isl_list_free free h list }"

definition isl_list_set_at :: "'a ptr_op \<Rightarrow> 'a ptr_op \<Rightarrow> 'a heap \<Rightarrow> nat option \<Rightarrow> int \<Rightarrow> nat option \<Rightarrow> 'a list_result" where
  "isl_list_set_at copy free h list index el =
     (case (list, el) of
        (Some a, Some e) \<Rightarrow> do {
          ok \<leftarrow> isl_list_check_index h list index;
          if \<not> ok then fail_free free h el list
          else do {
            q \<leftarrow> list_read h a (nat index);
            if q = el then do { (h, _) \<leftarrow> el_op free h el; Some (h, list) }
            else do {
              (h, list) \<leftarrow> isl_list_cow copy free h list;
              (case list of
                 None \<Rightarrow> fail_free free h el list
               | Some a \<Rightarrow> do {
                   q \<leftarrow> list_read h a (nat index);
                   (h, _) \<leftarrow> el_op free h q;
                   h \<leftarrow> list_write h a (nat index) el;
                   Some (h, list)
                 })
            }
          }
        }
      | _ \<Rightarrow> fail_free free h el list)"

text \<open>The functions \<open>take\<close> and \<open>restore\<close>; the first returns the element.\<close>

definition isl_list_take :: "'a ptr_op \<Rightarrow> 'a heap \<Rightarrow> nat option \<Rightarrow> int \<Rightarrow> 'a list_result" where
  "isl_list_take copy h list index = do {
     ok \<leftarrow> isl_list_check_index h list index;
     if \<not> ok then Some (h, None)
     else do {
       a \<leftarrow> list;
       l \<leftarrow> lists h a;
       if l_ref l \<noteq> 1 then isl_list_get_at copy h list index
       else do {
         el \<leftarrow> list_read h a (nat index);
         h \<leftarrow> list_write h a (nat index) None;
         Some (h, el)
       }
     }
   }"

definition isl_list_restore :: "'a ptr_op \<Rightarrow> 'a ptr_op \<Rightarrow> 'a heap \<Rightarrow> nat option \<Rightarrow> int \<Rightarrow> nat option \<Rightarrow> 'a list_result" where
  "isl_list_restore copy free h list index el = isl_list_set_at copy free h list index el"

definition isl_list_swap :: "'a ptr_op \<Rightarrow> 'a ptr_op \<Rightarrow> 'a heap \<Rightarrow> nat option \<Rightarrow> nat \<Rightarrow> nat \<Rightarrow> 'a list_result" where
  "isl_list_swap copy free h list pos1 pos2 =
     (if pos1 = pos2 then Some (h, list)
      else do {
        (h, el1) \<leftarrow> isl_list_take copy h list (int pos1);
        (h, el2) \<leftarrow> isl_list_take copy h list (int pos2);
        (h, list) \<leftarrow> isl_list_restore copy free h list (int pos1) el2;
        isl_list_restore copy free h list (int pos2) el1
      })"

function reverse_loop :: "'a ptr_op \<Rightarrow> 'a ptr_op \<Rightarrow> int \<Rightarrow> nat \<Rightarrow> 'a heap \<Rightarrow> nat option \<Rightarrow> 'a list_result" where
  "reverse_loop copy free n i h list =
     (if int i < n - 1 - int i then do {
        (h, list) \<leftarrow> isl_list_swap copy free h list i (nat (n - 1 - int i));
        reverse_loop copy free n (i + 1) h list
      }
      else Some (h, list))"
  by pat_completeness auto
termination by (relation "measure (\<lambda>(copy, free, n, i, h, list). nat (n - int i))") auto

declare reverse_loop.simps [simp del]

definition isl_list_reverse :: "'a ptr_op \<Rightarrow> 'a ptr_op \<Rightarrow> 'a heap \<Rightarrow> nat option \<Rightarrow> 'a list_result" where
  "isl_list_reverse copy free h list = do { n \<leftarrow> isl_list_size h list; reverse_loop copy free n 0 h list }"

subsection \<open>Removing and inserting\<close>

definition isl_list_drop :: "'a ptr_op \<Rightarrow> 'a ptr_op \<Rightarrow> 'a heap \<Rightarrow> nat option \<Rightarrow> nat \<Rightarrow> nat \<Rightarrow> 'a list_result" where
  "isl_list_drop copy free h list first n = (case list of None \<Rightarrow> Some (h, None)
     | Some a \<Rightarrow> do {
         l \<leftarrow> lists h a;
         if l_n l < u32_add first n \<or> u32_add first n < first then isl_list_free free h list
         else if n = 0 then Some (h, list)
         else do {
           (h, list) \<leftarrow> isl_list_cow copy free h list;
           (case list of
              None \<Rightarrow> Some (h, None)
            | Some a \<Rightarrow> do {
                h \<leftarrow> for_range_opt 0 n (\<lambda>i h. do { q \<leftarrow> list_read h a (first + i); (h, _) \<leftarrow> el_op free h q; Some h }) h;
                l \<leftarrow> lists h a;
                h \<leftarrow> for_range_opt first (l_n l - n) (\<lambda>i h. do { q \<leftarrow> list_read h a (i + n); list_write h a i q }) h;
                l \<leftarrow> lists h a;
                Some (set_list h a (l\<lparr>l_n := l_n l - n\<rparr>), list)
              })
         }
       })"

definition isl_list_clear :: "'a ptr_op \<Rightarrow> 'a ptr_op \<Rightarrow> 'a heap \<Rightarrow> nat option \<Rightarrow> 'a list_result" where
  "isl_list_clear copy free h list = (case list of None \<Rightarrow> Some (h, None)
     | Some a \<Rightarrow> do { l \<leftarrow> lists h a; isl_list_drop copy free h list 0 (l_n l) })"

definition isl_list_insert :: "'a ptr_op \<Rightarrow> 'a ptr_op \<Rightarrow> 'a heap \<Rightarrow> nat option \<Rightarrow> nat \<Rightarrow> nat option \<Rightarrow> 'a list_result" where
  "isl_list_insert copy free h list pos el =
     (case (list, el) of
        (Some a, Some e) \<Rightarrow> do {
          l \<leftarrow> lists h a;
          if l_n l < pos then fail_free free h el list
          else if l_ref l = 1 \<and> l_n l < l_size l then do {
            h \<leftarrow> for_down_opt pos (l_n l) (\<lambda>i h. do { q \<leftarrow> list_read h a i; list_write h a (i + 1) q }) h;
            l \<leftarrow> lists h a;
            let h = set_list h a (l\<lparr>l_n := l_n l + 1\<rparr>);
            h \<leftarrow> list_write h a pos el;
            Some (h, list)
          }
          else do {
            let (h, res) = isl_list_alloc h (int (l_n l + 1));
            (h, res) \<leftarrow> add_copies (isl_list_add copy free) copy a 0 pos h res;
            (h, res) \<leftarrow> isl_list_add copy free h res el;
            (h, res) \<leftarrow> add_copies (isl_list_add copy free) copy a pos (l_n l) h res;
            (h, _) \<leftarrow> isl_list_free free h list;
            Some (h, res)
          }
        }
      | _ \<Rightarrow> fail_free free h el list)"

definition isl_list_from :: "'a ptr_op \<Rightarrow> 'a ptr_op \<Rightarrow> 'a heap \<Rightarrow> nat option \<Rightarrow> 'a list_result" where
  "isl_list_from copy free h el = (case el of None \<Rightarrow> Some (h, None)
     | Some e \<Rightarrow> (let (h, list) = isl_list_alloc h 1 in
         if list = None then do { (h, _) \<leftarrow> el_op free h el; Some (h, None) }
         else isl_list_add copy free h list el))"

definition isl_list_concat_inplace :: "'a ptr_op \<Rightarrow> 'a ptr_op \<Rightarrow> 'a heap \<Rightarrow> nat option \<Rightarrow> nat \<Rightarrow> 'a list_result" where
  "isl_list_concat_inplace copy free h list1 a2 = do {
     l2 \<leftarrow> lists h a2;
     (h, list1) \<leftarrow> add_copies (isl_list_add copy free) copy a2 0 (l_n l2) h list1;
     (h, _) \<leftarrow> isl_list_free free h (Some a2);
     Some (h, list1)
   }"

definition isl_list_concat :: "'a ptr_op \<Rightarrow> 'a ptr_op \<Rightarrow> 'a heap \<Rightarrow> nat option \<Rightarrow> nat option \<Rightarrow> 'a list_result" where
  "isl_list_concat copy free h list1 list2 =
     (case (list1, list2) of
        (Some a1, Some a2) \<Rightarrow> do {
          l1 \<leftarrow> lists h a1;
          l2 \<leftarrow> lists h a2;
          if l_ref l1 = 1 \<and> l_n l1 + l_n l2 \<le> l_size l1 then isl_list_concat_inplace copy free h list1 a2
          else do {
            let (h, res) = isl_list_alloc h (int (l_n l1 + l_n l2));
            (h, res) \<leftarrow> add_copies (isl_list_add copy free) copy a1 0 (l_n l1) h res;
            (h, res) \<leftarrow> add_copies (isl_list_add copy free) copy a2 0 (l_n l2) h res;
            (h, _) \<leftarrow> isl_list_free free h list1;
            (h, _) \<leftarrow> isl_list_free free h list2;
            Some (h, res)
          }
        }
      | _ \<Rightarrow> do { (h, _) \<leftarrow> isl_list_free free h list1; isl_list_free free h list2 })"

subsection \<open>Callbacks\<close>

text \<open>A callback that takes an element or a list has the state \<open>'u\<close> of its user pointer; a status below
  zero is an error.\<close>

type_synonym ('a, 'u) callback = "'a heap \<Rightarrow> nat option \<Rightarrow> 'u \<Rightarrow> (int \<times> 'a heap \<times> 'u) option"

function list_foreach_loop :: "'a ptr_op \<Rightarrow> ('a, 'u) callback \<Rightarrow> nat \<Rightarrow> nat \<Rightarrow> nat \<Rightarrow> 'a heap \<Rightarrow> 'u \<Rightarrow> (int \<times> 'a heap \<times> 'u) option" where
  "list_foreach_loop copy fn a n i h u =
     (if i < n then do {
        q \<leftarrow> list_read h a i;
        (h, el) \<leftarrow> el_op copy h q;
        if el = None then Some (-1, h, u)
        else do {
          (stat, h, u) \<leftarrow> fn h el u;
          if stat < 0 then Some (-1, h, u) else list_foreach_loop copy fn a n (i + 1) h u
        }
      }
      else Some (0, h, u))"
  by pat_completeness auto
termination by (relation "measure (\<lambda>(copy, fn, a, n, i, h, u). n - i)") auto

declare list_foreach_loop.simps [simp del]

definition isl_list_foreach :: "'a ptr_op \<Rightarrow> 'a heap \<Rightarrow> nat option \<Rightarrow> ('a, 'u) callback \<Rightarrow> 'u \<Rightarrow> (int \<times> 'a heap \<times> 'u) option" where
  "isl_list_foreach copy h list fn u = (case list of None \<Rightarrow> Some (-1, h, u)
     | Some a \<Rightarrow> do { l \<leftarrow> lists h a; list_foreach_loop copy fn a (l_n l) 0 h u })"

function list_every_loop :: "('a option \<Rightarrow> int) \<Rightarrow> 'a heap \<Rightarrow> nat \<Rightarrow> nat \<Rightarrow> nat \<Rightarrow> int option" where
  "list_every_loop test h a n i =
     (if i < n then do {
        q \<leftarrow> list_read h a i;
        let r = test (el_value h q);
        if r < 0 \<or> r = 0 then Some r else list_every_loop test h a n (i + 1)
      }
      else Some 1)"
  by pat_completeness auto
termination by (relation "measure (\<lambda>(test, h, a, n, i). n - i)") auto

declare list_every_loop.simps [simp del]

definition isl_list_every :: "'a heap \<Rightarrow> nat option \<Rightarrow> ('a option \<Rightarrow> int) \<Rightarrow> int option" where
  "isl_list_every h list test = (case list of None \<Rightarrow> Some (-1)
     | Some a \<Rightarrow> do { l \<leftarrow> lists h a; list_every_loop test h a (l_n l) 0 })"

function list_map_loop :: "'a ptr_op \<Rightarrow> 'a ptr_op \<Rightarrow> 'a ptr_op \<Rightarrow> nat \<Rightarrow> nat \<Rightarrow> 'a heap \<Rightarrow> nat option \<Rightarrow> 'a list_result" where
  "list_map_loop copy free fn n i h list =
     (if i < n then do {
        (h, el) \<leftarrow> isl_list_take copy h list (int i);
        if el = None then isl_list_free free h list
        else do {
          (h, el) \<leftarrow> el_op fn h el;
          (h, list) \<leftarrow> isl_list_restore copy free h list (int i) el;
          list_map_loop copy free fn n (i + 1) h list
        }
      }
      else Some (h, list))"
  by pat_completeness auto
termination by (relation "measure (\<lambda>(copy, free, fn, n, i, h, list). n - i)") auto

declare list_map_loop.simps [simp del]

definition isl_list_map :: "'a ptr_op \<Rightarrow> 'a ptr_op \<Rightarrow> 'a heap \<Rightarrow> nat option \<Rightarrow> 'a ptr_op \<Rightarrow> 'a list_result" where
  "isl_list_map copy free h list fn = (case list of None \<Rightarrow> Some (h, None)
     | Some a \<Rightarrow> do { l \<leftarrow> lists h a; list_map_loop copy free fn (l_n l) 0 h list })"

text \<open>\<open>malloc\<close> is the buffer of \<open>isl_sort\<close>.\<close>

definition isl_list_sort :: "'a ptr_op \<Rightarrow> 'a ptr_op \<Rightarrow> nat option junk option \<Rightarrow> 'a heap \<Rightarrow> nat option \<Rightarrow>
    ('a option \<Rightarrow> 'a option \<Rightarrow> int) \<Rightarrow> 'a list_result" where
  "isl_list_sort copy free malloc h list cmp = (case list of None \<Rightarrow> Some (h, None)
     | Some a \<Rightarrow> do {
         l \<leftarrow> lists h a;
         if l_n l \<le> 1 then Some (h, list)
         else do {
           (h, list) \<leftarrow> isl_list_cow copy free h list;
           (case list of
              None \<Rightarrow> Some (h, None)
            | Some a \<Rightarrow> do {
                l \<leftarrow> lists h a;
                let (stat, p) = isl_sort malloc (take (l_n l) (l_p l)) (l_n l) (\<lambda>q1 q2. cmp (el_value h q1) (el_value h q2));
                let h = set_list h a (l\<lparr>l_p := p @ drop (l_n l) (l_p l)\<rparr>);
                if stat < 0 then isl_list_free free h list else Some (h, list)
              })
         }
       })"

text \<open>\<open>call_on_scc\<close>: the positions come from the order of the components.\<close>

definition call_on_scc :: "'a ptr_op \<Rightarrow> 'a ptr_op \<Rightarrow> 'a heap \<Rightarrow> nat \<Rightarrow> int list \<Rightarrow> nat \<Rightarrow> nat \<Rightarrow> ('a, 'u) callback \<Rightarrow> 'u \<Rightarrow>
    (int \<times> 'a heap \<times> 'u) option" where
  "call_on_scc copy free h list order first n fn u = do {
     let (h, slice) = isl_list_alloc h (int n);
     (h, slice) \<leftarrow> for_range_opt 0 n (\<lambda>i (h, slice). do {
         q \<leftarrow> list_read h list (nat (order ! (first + i)));
         (h, el) \<leftarrow> el_op copy h q;
         isl_list_add copy free h slice el }) (h, slice);
     fn h slice u
   }"

text \<open>The inner loop; \<open>n\<close> counts the elements that are not yet seen.\<close>

function scan_scc :: "int list \<Rightarrow> nat \<Rightarrow> int \<Rightarrow> (nat \<times> int) option" where
  "scan_scc order i n =
     (if i < length order then if order ! i \<noteq> -1 then scan_scc order (i + 1) (n - 1) else Some (i, n) else None)"
  by pat_completeness auto
termination by (relation "measure (\<lambda>(order, i, n). length order - i)") auto

declare scan_scc.simps [simp del]

lemma scan_scc_ge: "scan_scc order i n = Some (j, m) \<Longrightarrow> i \<le> j \<and> j < length order"
proof (induction order i n rule: scan_scc.induct)
  case (1 order i n)
  then show ?case by (subst (asm) scan_scc.simps) (auto split: if_splits)
qed

function scc_loop :: "'a ptr_op \<Rightarrow> 'a ptr_op \<Rightarrow> ('a, 'u) callback \<Rightarrow> nat \<Rightarrow> int list \<Rightarrow> nat \<Rightarrow> int \<Rightarrow> 'a heap \<Rightarrow> 'u \<Rightarrow>
    (int \<times> 'a heap \<times> 'u) option" where
  "scc_loop copy free fn list order i n h u =
     (if length order \<le> i then None
      else if order ! i = -1 then Some (if 0 < n then -1 else 0, h, u)
      else case scan_scc order i n of None \<Rightarrow> None
      | Some (j, n) \<Rightarrow>
          if i = 0 \<and> n = 0 then do { (h, copied) \<leftarrow> isl_list_copy h (Some list); fn h copied u }
          else Option.bind (call_on_scc copy free h list order i (j - i) fn u) (\<lambda>(stat, h, u).
            if stat < 0 then Some (if 0 < n then -1 else 0, h, u)
            else if n \<noteq> 0 then scc_loop copy free fn list order (j + 1) n h u
            else Some (if 0 < n then -1 else 0, h, u)))"
  by pat_completeness auto
termination
  by (relation "measure (\<lambda>(copy, free, fn, list, order, i, n, h, u). length order - i)") (auto dest!: scan_scc_ge)

declare scc_loop.simps [simp del]

definition isl_list_foreach_scc :: "'a ptr_op \<Rightarrow> 'a ptr_op \<Rightarrow> tarjan_memory \<Rightarrow> 'a heap \<Rightarrow> nat option \<Rightarrow>
    ('a option \<Rightarrow> 'a option \<Rightarrow> int) \<Rightarrow> ('a, 'u) callback \<Rightarrow> 'u \<Rightarrow> (int \<times> 'a heap \<times> 'u) option" where
  "isl_list_foreach_scc copy free mem h list follows fn u = (case list of None \<Rightarrow> Some (-1, h, u)
     | Some a \<Rightarrow> do {
         l \<leftarrow> lists h a;
         if l_n l = 0 then Some (0, h, u)
         else if l_n l = 1 then do { (h, copied) \<leftarrow> isl_list_copy h list; fn h copied u }
         else do {
           res \<leftarrow> isl_tarjan_graph_init mem (l_n l) (\<lambda>i j. follows (el_value h (l_p l ! i)) (el_value h (l_p l ! j)));
           (case res of
              None \<Rightarrow> Some (-1, h, u)
            | Some g \<Rightarrow> scc_loop copy free fn a (g_order g) 0 (int (l_n l)) h u)
         }
       })"


subsection \<open>Ownership\<close>

text \<open>
  The elements a list refers to, and those that all lists refer to, with their multiplicity.  \<open>E\<close>
  and \<open>L\<close> are the references to elements and to lists that the program holds; an element counts
  the references from both, and \<open>V\<close> tells the values of the elements.
\<close>

definition entries :: "isl_list \<Rightarrow> nat option list" where
  "entries l = take (l_n l) (l_p l)"

definition ents :: "'a heap \<Rightarrow> nat \<Rightarrow> nat option list" where
  "ents h a = (case lists h a of None \<Rightarrow> [] | Some l \<Rightarrow> entries l)"

definition somes :: "nat option list \<Rightarrow> nat multiset" where
  "somes qs = image_mset the (filter_mset (\<lambda>q. q \<noteq> None) (mset qs))"

lemma somes_simps [simp]:
  "somes [] = {#}" "somes (None # qs) = somes qs" "somes (Some e # qs) = add_mset e (somes qs)"
  "somes (qs @ qs') = somes qs + somes qs'"
  by (simp_all add: somes_def)

lemma in_somes [simp]: "e \<in># somes qs \<longleftrightarrow> Some e \<in> set qs"
  by (force simp: somes_def)

definition list_owned :: "'a heap \<Rightarrow> nat multiset" where
  "list_owned h = (\<Sum>a \<in> dom (lists h). somes (ents h a))"

definition list_ok :: "isl_list \<Rightarrow> bool" where
  "list_ok l \<longleftrightarrow> l_n l \<le> l_size l \<and> length (l_p l) = l_size l"

definition heap_ok :: "(nat \<Rightarrow> 'a) \<Rightarrow> 'a heap \<Rightarrow> nat multiset \<Rightarrow> nat multiset \<Rightarrow> bool" where
  "heap_ok V h E L \<longleftrightarrow>
     finite (dom (cells (objs h))) \<and> finite (dom (lists h)) \<and>
     ctx_ref (objs h) = int (card (dom (cells (objs h)))) + int (card (dom (lists h))) \<and>
     (\<forall>e. next_addr (objs h) \<le> e \<longrightarrow> cells (objs h) e = None) \<and> (\<forall>a. next_list h \<le> a \<longrightarrow> lists h a = None) \<and>
     (\<forall>e. case cells (objs h) e of None \<Rightarrow> e \<notin># E + list_owned h
        | Some (r, v) \<Rightarrow> r = int (count (E + list_owned h) e) \<and> 0 < r \<and> v = V e) \<and>
     (\<forall>a. case lists h a of None \<Rightarrow> a \<notin># L
        | Some l \<Rightarrow> l_ref l = int (count L a) \<and> 0 < l_ref l \<and> list_ok l)"

lemma heap_okD:
  assumes "heap_ok V h E L"
  shows "finite (dom (cells (objs h)))" "finite (dom (lists h))"
    "ctx_ref (objs h) = int (card (dom (cells (objs h)))) + int (card (dom (lists h)))"
    "next_addr (objs h) \<le> e \<Longrightarrow> cells (objs h) e = None" "next_list h \<le> a \<Longrightarrow> lists h a = None"
    "case cells (objs h) e of None \<Rightarrow> e \<notin># E + list_owned h
        | Some (r, v) \<Rightarrow> r = int (count (E + list_owned h) e) \<and> 0 < r \<and> v = V e"
    "case lists h a of None \<Rightarrow> a \<notin># L | Some l \<Rightarrow> l_ref l = int (count L a) \<and> 0 < l_ref l \<and> list_ok l"
  using assms unfolding heap_ok_def by blast+

lemma heap_ok_list:
  assumes "heap_ok V h E L" "a \<in># L"
  obtains l where "lists h a = Some l" "l_ref l = int (count L a)" "list_ok l" "ents h a = entries l" "a < next_list h"
proof -
  have "lists h a \<noteq> None" using heap_okD(7) [OF assms(1), of a] assms(2) by (cases "lists h a") simp_all
  then obtain l where l: "lists h a = Some l" "l_ref l = int (count L a)" "list_ok l"
    using heap_okD(7) [OF assms(1), of a] by auto
  moreover have "a < next_list h" using heap_okD(5) [OF assms(1), of a] l by (metis not_le option.distinct(1))
  ultimately show ?thesis using that by (simp add: ents_def)
qed

lemma heap_ok_element:
  assumes "heap_ok V h E L" "e \<in># E + list_owned h"
  obtains r where "cells (objs h) e = Some (r, V e)" "r = int (count (E + list_owned h) e)" "e < next_addr (objs h)"
proof -
  have "cells (objs h) e \<noteq> None"
    using heap_okD(6) [OF assms(1), of e] assms(2) by (cases "cells (objs h) e") simp_all
  then obtain r where r: "cells (objs h) e = Some (r, V e)" "r = int (count (E + list_owned h) e)"
    using heap_okD(6) [OF assms(1), of e] by auto
  moreover have "e < next_addr (objs h)" using heap_okD(4) [OF assms(1), of e] r by (metis not_le option.distinct(1))
  ultimately show ?thesis using that by simp
qed

lemma entries_nth: "list_ok l \<Longrightarrow> i < l_n l \<Longrightarrow> entries l ! i = l_p l ! i"
  by (simp add: entries_def list_ok_def)

lemma length_entries: "list_ok l \<Longrightarrow> length (entries l) = l_n l"
  by (simp add: entries_def list_ok_def)

lemma set_ref_simps [simp]:
  "entries (l\<lparr>l_ref := r\<rparr>) = entries l" "list_ok (l\<lparr>l_ref := r\<rparr>) = list_ok l"
  by (simp_all add: entries_def list_ok_def)

lemma set_list_sel [simp]:
  "lists (set_list h a l) = (lists h)(a \<mapsto> l)" "objs (set_list h a l) = objs h" "next_list (set_list h a l) = next_list h"
  "unset (set_list h a l) = unset h"
  by (simp_all add: set_list_def)

lemma ents_set_list: "ents (set_list h a l) b = (if b = a then entries l else ents h b)"
  by (simp add: ents_def)

lemma ents_cong: "lists h b = lists h' b \<Longrightarrow> ents h b = ents h' b"
  by (simp add: ents_def)

lemma list_owned_cong: "lists h = lists h' \<Longrightarrow> list_owned h = list_owned h'"
  by (simp add: list_owned_def ents_def)

text \<open>Changing one list.\<close>

lemma list_owned_split:
  assumes "finite (dom (lists h))"
  shows "list_owned h = somes (ents h a) + list_owned (h\<lparr>lists := (lists h)(a := None)\<rparr>)"
proof -
  have e: "ents (h\<lparr>lists := (lists h)(a := None)\<rparr>) b = ents h b" if "b \<noteq> a" for b using that by (simp add: ents_def)
  have "dom (lists (h\<lparr>lists := (lists h)(a := None)\<rparr>)) = dom (lists h) - {a}" by auto
  then have d: "list_owned (h\<lparr>lists := (lists h)(a := None)\<rparr>) = (\<Sum>b \<in> dom (lists h) - {a}. somes (ents h b))"
    unfolding list_owned_def by (intro sum.cong) (auto simp: e)
  show ?thesis
  proof (cases "lists h a")
    case None
    then have "dom (lists h) - {a} = dom (lists h)" by auto
    then show ?thesis using d None by (simp add: list_owned_def ents_def)
  next
    case (Some l)
    then have "a \<in> dom (lists h)" by auto
    then show ?thesis unfolding d unfolding list_owned_def by (rule sum.remove [OF assms])
  qed
qed

lemma list_owned_set:
  assumes "finite (dom (lists h))"
  shows "list_owned (set_list h a l) + somes (ents h a) = list_owned h + somes (entries l)"
proof -
  have "(set_list h a l)\<lparr>lists := (lists (set_list h a l))(a := None)\<rparr> = h\<lparr>lists := (lists h)(a := None)\<rparr>"
    by (simp add: set_list_def)
  then have "list_owned (set_list h a l) = somes (entries l) + list_owned (h\<lparr>lists := (lists h)(a := None)\<rparr>)"
    using list_owned_split [of "set_list h a l" a] assms by (simp only: ents_set_list set_list_sel dom_fun_upd option.distinct finite_insert if_False if_True simp_thms)
  then show ?thesis using list_owned_split [OF assms, of a] by (simp add: ac_simps)
qed

lemma heap_ok_set:
  assumes ok: "heap_ok V h E L" and a: "lists h a = Some l" and E: "E' + somes (entries l') = E + somes (entries l)"
    and l': "list_ok l'" "l_ref l' = int (count L' a)" "0 < l_ref l'" and L: "\<And>b. b \<noteq> a \<Longrightarrow> count L' b = count L b"
  shows "heap_ok V (set_list h a l') E' L'"
proof -
  note D = heap_okD [OF ok]
  have own: "E' + list_owned (set_list h a l') = E + list_owned h"
  proof -
    have "E' + list_owned (set_list h a l') + somes (entries l) = E' + somes (entries l') + list_owned h"
      using list_owned_set [OF D(2), of a l'] a by (simp add: ents_def ac_simps)
    also have "\<dots> = E + list_owned h + somes (entries l)" unfolding E by (simp add: ac_simps)
    finally show ?thesis by simp
  qed
  have "dom (lists (set_list h a l')) = dom (lists h)" using a by auto
  moreover have "\<forall>b. next_list h \<le> b \<longrightarrow> b \<noteq> a" using D(5) a by (metis option.distinct(1))
  moreover have "case lists (set_list h a l') b of None \<Rightarrow> b \<notin># L'
      | Some l \<Rightarrow> l_ref l = int (count L' b) \<and> 0 < l_ref l \<and> list_ok l" for b
  proof (cases "b = a")
    case False
    then have c: "count L' b = count L b" by (rule L)
    then have "b \<in># L' \<longleftrightarrow> b \<in># L" by (metis count_greater_zero_iff)
    note c = c this
    then show ?thesis using c D(7) [of b] False by (cases "lists h b") (auto simp: not_in_iff)
  qed (use l' in simp)
  ultimately show ?thesis using D(1-6) unfolding heap_ok_def own by auto
qed

lemma heap_ok_new:
  assumes ok: "heap_ok V h E L" and l: "list_ok l" "l_ref l = 1" and E: "E' + somes (entries l) = E"
  shows "heap_ok V (h\<lparr>objs := isl_ctx_ref (objs h), lists := (lists h)(next_list h \<mapsto> l), next_list := next_list h + 1\<rparr>)
    E' (add_mset (next_list h) L)"
proof -
  let ?h = "h\<lparr>objs := isl_ctx_ref (objs h), lists := (lists h)(next_list h \<mapsto> l), next_list := next_list h + 1\<rparr>"
  note D = heap_okD [OF ok]
  have n: "lists h (next_list h) = None" using D(5) by simp
  have c0: "next_list h \<notin># L" using D(7) [of "next_list h"] n by simp
  have own: "E' + list_owned ?h = E + list_owned h"
  proof -
    have "list_owned ?h = list_owned (set_list h (next_list h) l)" by (rule list_owned_cong) simp
    then have "list_owned ?h = list_owned h + somes (entries l)"
      using list_owned_set [OF D(2), of "next_list h" l] n by (simp add: ents_def)
    then show ?thesis unfolding E [symmetric] by (simp add: ac_simps)
  qed
  have obj: "cells (objs ?h) = cells (objs h)" "next_addr (objs ?h) = next_addr (objs h)" "ctx_ref (objs ?h) = ctx_ref (objs h) + 1"
    by (simp_all add: isl_ctx_ref_def)
  have "dom (lists ?h) = insert (next_list h) (dom (lists h))" by auto
  moreover have "next_list h \<notin> dom (lists h)" using n by auto
  ultimately have card: "int (card (dom (lists ?h))) = int (card (dom (lists h))) + 1" "finite (dom (lists ?h))" using D(2) by simp_all
  have "case lists ?h b of None \<Rightarrow> b \<notin># add_mset (next_list h) L
      | Some l \<Rightarrow> l_ref l = int (count (add_mset (next_list h) L) b) \<and> 0 < l_ref l \<and> list_ok l" for b
    using D(7) [of b] l c0 by (cases "b = next_list h") (auto split: option.splits simp: not_in_iff)
  then show ?thesis using D(1,3-6) card unfolding heap_ok_def own obj by auto
qed


text \<open>A list that moves.\<close>

lemma heap_ok_move:
  assumes ok: "heap_ok V h E (add_mset b L)" and b: "lists h b = Some l" "l_ref l = 1"
    and l': "list_ok l'" "l_ref l' = 1" "entries l' = entries l"
  shows "heap_ok V (h\<lparr>lists := (lists h)(b := None, next_list h \<mapsto> l'), next_list := next_list h + 1\<rparr>) E (add_mset (next_list h) L)"
proof -
  let ?h = "h\<lparr>lists := (lists h)(b := None, next_list h \<mapsto> l'), next_list := next_list h + 1\<rparr>"
  note D = heap_okD [OF ok]
  have n: "lists h (next_list h) = None" using D(5) by simp
  then have nb: "next_list h \<noteq> b" using b by auto
  have cb: "b \<notin># L" using D(7) [of b] b by (simp add: not_in_iff)
  have cn: "next_list h \<notin># L" using D(7) [of "next_list h"] n by simp
  have fin: "finite (dom (lists ?h))" using D(2) by simp
  have own: "E + list_owned ?h = E + list_owned h"
  proof -
    have "list_owned (?h\<lparr>lists := (lists ?h)(next_list h := None)\<rparr>) = list_owned (h\<lparr>lists := (lists h)(b := None)\<rparr>)"
      by (rule list_owned_cong) (use n nb in \<open>auto simp: fun_eq_iff\<close>)
    moreover have "ents ?h (next_list h) = entries l'" "ents h b = entries l" using b by (simp_all add: ents_def)
    ultimately show ?thesis
      using list_owned_split [OF fin, of "next_list h"] list_owned_split [OF D(2), of b] l'(3) by simp
  qed
  have dom: "dom (lists ?h) = insert (next_list h) (dom (lists h) - {b})" using nb by auto
  have bn: "b \<in> dom (lists h)" "next_list h \<notin> dom (lists h) - {b}" using b n by auto
  then have "card (dom (lists ?h)) = Suc (card (dom (lists h) - {b}))" unfolding dom using D(2) by simp
  then have card: "card (dom (lists ?h)) = card (dom (lists h))" using card_Suc_Diff1 [OF D(2) bn(1)] by simp
  have "case lists ?h c of None \<Rightarrow> c \<notin># add_mset (next_list h) L
      | Some l \<Rightarrow> l_ref l = int (count (add_mset (next_list h) L) c) \<and> 0 < l_ref l \<and> list_ok l" for c
    using D(7) [of c] l' nb cb cn by (cases "c = next_list h"; cases "c = b") (auto split: option.splits simp: not_in_iff)
  moreover have "\<forall>c. next_list ?h \<le> c \<longrightarrow> lists ?h c = None" using D(5) nb by auto
  ultimately show ?thesis using D(1,3,4,6) fin unfolding heap_ok_def own card by auto
qed

text \<open>What an operation may do to the lists of the program.\<close>

definition same_lists :: "'a heap \<Rightarrow> 'a heap \<Rightarrow> bool" where
  "same_lists h h' \<longleftrightarrow> lists h' = lists h \<and> next_list h' = next_list h \<and> unset h' = unset h"

lemma el_op_lists: "el_op f h q = Some (h', q') \<Longrightarrow> same_lists h h'"
  by (auto simp: el_op_def same_lists_def)

lemma same_lists_ents: "same_lists h h' \<Longrightarrow> ents h' = ents h \<and> lists h' = lists h \<and> next_list h' = next_list h \<and> unset h' = unset h"
  by (auto simp: same_lists_def ents_def fun_eq_iff)

definition keeps :: "nat multiset \<Rightarrow> 'a heap \<Rightarrow> 'a heap \<Rightarrow> bool" where
  "keeps L h h' \<longleftrightarrow> next_list h \<le> next_list h' \<and> (\<forall>b \<in># L. ents h' b = ents h b)"

lemma keeps_refl [simp]: "keeps L h h"
  by (simp add: keeps_def)

lemma keeps_trans: "keeps L h h' \<Longrightarrow> keeps L h' h'' \<Longrightarrow> keeps L h h''"
  by (simp add: keeps_def)

lemma keeps_sub: "keeps L h h' \<Longrightarrow> set_mset L' \<subseteq> set_mset L \<Longrightarrow> keeps L' h h'"
  by (auto simp: keeps_def)

text \<open>The result is a list with the given entries, which the program owns.\<close>

definition gives :: "(nat \<Rightarrow> 'a) \<Rightarrow> nat multiset \<Rightarrow> nat multiset \<Rightarrow> 'a heap \<Rightarrow> ('a heap \<times> nat option) option \<Rightarrow> nat option list \<Rightarrow> bool" where
  "gives V E L h r qs \<longleftrightarrow> (\<exists>h' a. r = Some (h', Some a) \<and> heap_ok V h' E (add_mset a L) \<and> ents h' a = qs \<and> keeps L h h')"

lemma givesI: "r = Some (h', Some a) \<Longrightarrow> heap_ok V h' E (add_mset a L) \<Longrightarrow> ents h' a = qs \<Longrightarrow> keeps L h h' \<Longrightarrow> gives V E L h r qs"
  unfolding gives_def by blast

lemma givesE:
  assumes "gives V E L h r qs"
  obtains h' a where "r = Some (h', Some a)" "heap_ok V h' E (add_mset a L)" "ents h' a = qs" "keeps L h h'"
  using assms unfolding gives_def by blast

lemma list_read_run:
  assumes "heap_ok V h E L" "a \<in># L" "i < length (ents h a)"
  shows "list_read h a i = Some (ents h a ! i)"
proof -
  obtain l where "lists h a = Some l" "list_ok l" "ents h a = entries l" using heap_ok_list [OF assms(1,2)] by metis
  then show ?thesis using assms(3) length_entries entries_nth by (auto simp: list_read_def list_ok_def)
qed

lemma heap_ok_objs:
  assumes ok: "heap_ok V h E L" and fin: "finite (dom (cells s))" and ref: "ctx_ref s = int (card (dom (cells s))) + int (card (dom (lists h)))"
    and new: "\<And>e. next_addr s \<le> e \<Longrightarrow> cells s e = None"
    and cells: "\<And>e. case cells s e of None \<Rightarrow> e \<notin># E' + list_owned h
        | Some (r, v) \<Rightarrow> r = int (count (E' + list_owned h) e) \<and> 0 < r \<and> v = V e"
  shows "heap_ok V (h\<lparr>objs := s\<rparr>) E' L"
proof -
  have o: "list_owned (h\<lparr>objs := s\<rparr>) = list_owned h" by (rule list_owned_cong) simp
  show ?thesis using heap_okD [OF ok] fin ref new cells unfolding heap_ok_def o by simp
qed

subsection \<open>Elements\<close>

locale list_element =
  fixes copy free :: "'a store \<Rightarrow> nat option \<Rightarrow> ('a store \<times> nat option) option"
  assumes copy_law: "cells s e = Some (r, v) \<Longrightarrow> copy s (Some e) = Some (set_obj s e (r + 1) v, Some e)"
    and copy_null: "copy s None = Some (s, None)"
    and free_law: "cells s e = Some (r, v) \<Longrightarrow> free s (Some e) = Some (unref s e, None)"
    and free_null: "free s None = Some (s, None)"
begin

lemma el_copy_run:
  assumes ok: "heap_ok V h E L" and e: "e \<in># E + list_owned h"
  shows "\<exists>h'. el_op copy h (Some e) = Some (h', Some e) \<and> heap_ok V h' (add_mset e E) L \<and> same_lists h h'"
proof -
  note D = heap_okD [OF ok]
  obtain r where r: "cells (objs h) e = Some (r, V e)" "r = int (count (E + list_owned h) e)" "e < next_addr (objs h)"
    using heap_ok_element [OF ok e] by blast
  let ?s = "set_obj (objs h) e (r + 1) (V e)"
  have run: "el_op copy h (Some e) = Some (h\<lparr>objs := ?s\<rparr>, Some e)" using copy_law [OF r(1)] by (simp add: el_op_def)
  have dom: "dom (cells ?s) = dom (cells (objs h))" using r by auto
  have "heap_ok V (h\<lparr>objs := ?s\<rparr>) (add_mset e E) L"
  proof (rule heap_ok_objs [OF ok])
    show "finite (dom (cells ?s))" unfolding dom by (rule D(1))
    show "ctx_ref ?s = int (card (dom (cells ?s))) + int (card (dom (lists h)))" unfolding dom using D(3) by simp
    show "cells ?s x = None" if "next_addr ?s \<le> x" for x using that D(4) r(3) by auto
    show "case cells ?s x of None \<Rightarrow> x \<notin># add_mset e E + list_owned h
        | Some (r, v) \<Rightarrow> r = int (count (add_mset e E + list_owned h) x) \<and> 0 < r \<and> v = V x" for x
      using D(6) [of x] r by (cases "x = e") (auto split: option.splits)
  qed
  then show ?thesis using run el_op_lists [OF run] by blast
qed

lemma el_free_run:
  assumes ok: "heap_ok V h (add_mset e E) L"
  shows "\<exists>h'. el_op free h (Some e) = Some (h', None) \<and> heap_ok V h' E L \<and> same_lists h h'"
proof -
  note D = heap_okD [OF ok]
  obtain r where r: "cells (objs h) e = Some (r, V e)" "r = int (count (add_mset e E + list_owned h) e)" "e < next_addr (objs h)"
    using heap_ok_element [OF ok, of e] by auto
  let ?s = "unref (objs h) e"
  have run: "el_op free h (Some e) = Some (h\<lparr>objs := ?s\<rparr>, None)" using free_law [OF r(1)] by (simp add: el_op_def)
  have "heap_ok V (h\<lparr>objs := ?s\<rparr>) E L"
  proof (cases "0 < r - 1")
    case True
    then have s: "?s = set_obj (objs h) e (r - 1) (V e)" using r by (simp add: unref_def)
    have dom: "dom (cells ?s) = dom (cells (objs h))" using r s by auto
    show ?thesis
    proof (rule heap_ok_objs [OF ok])
      show "finite (dom (cells ?s))" unfolding dom by (rule D(1))
      show "ctx_ref ?s = int (card (dom (cells ?s))) + int (card (dom (lists h)))" unfolding dom using D(3) s by simp
      show "cells ?s x = None" if "next_addr ?s \<le> x" for x using that D(4) r(3) s by auto
      show "case cells ?s x of None \<Rightarrow> x \<notin># E + list_owned h
          | Some (r, v) \<Rightarrow> r = int (count (E + list_owned h) x) \<and> 0 < r \<and> v = V x" for x
        using D(6) [of x] r True s by (cases "x = e") (auto split: option.splits)
    qed
  next
    case False
    then have s: "?s = release (objs h) e" using r by (simp add: unref_def)
    have "e \<in> dom (cells (objs h))" using r by auto
    then have "Suc (card (dom (cells (objs h)) - {e})) = card (dom (cells (objs h)))" by (rule card_Suc_Diff1 [OF D(1)])
    then have card: "int (card (dom (cells (objs h)) - {e})) = int (card (dom (cells (objs h)))) - 1" "0 < card (dom (cells (objs h)))"
      by linarith+
    have dom: "dom (cells ?s) = dom (cells (objs h)) - {e}" using s by auto
    show ?thesis
    proof (rule heap_ok_objs [OF ok])
      show "finite (dom (cells ?s))" unfolding dom using D(1) by simp
      show "ctx_ref ?s = int (card (dom (cells ?s))) + int (card (dom (lists h)))" unfolding dom using D(3) s card by simp
      show "cells ?s x = None" if "next_addr ?s \<le> x" for x using that D(4) s by auto
      show "case cells ?s x of None \<Rightarrow> x \<notin># E + list_owned h
          | Some (r, v) \<Rightarrow> r = int (count (E + list_owned h) x) \<and> 0 < r \<and> v = V x" for x
      proof (cases "x = e")
        case True
        have "count (E + list_owned h) e = 0" using False r by simp
        then show ?thesis using True s by (simp add: not_in_iff)
      next
        case xe: False
        then show ?thesis using D(6) [of x] s by (auto split: option.splits)
      qed
    qed
  qed
  then show ?thesis using run el_op_lists [OF run] by blast
qed

lemma el_null [simp]: "el_op copy h None = Some (h, None)" "el_op free h None = Some (h, None)"
  by (simp_all add: el_op_def copy_null free_null)

subsection \<open>The operations\<close>

lemma alloc_list_run:
  assumes ok: "heap_ok V h E L"
  shows "\<exists>h'. isl_list_alloc h (int n) = (h', Some (next_list h)) \<and> heap_ok V h' E (add_mset (next_list h) L) \<and>
    lists h' = (lists h)(next_list h \<mapsto> \<lparr>l_ref = 1, l_n = 0, l_size = n, l_p = fresh (unset h) n\<rparr>) \<and>
    next_list h' = next_list h + 1 \<and> lists h (next_list h) = None \<and> next_list h \<notin># L"
proof -
  let ?l = "\<lparr>l_ref = 1, l_n = 0, l_size = n, l_p = fresh (unset h) n\<rparr>"
  have "heap_ok V (h\<lparr>objs := isl_ctx_ref (objs h), lists := (lists h)(next_list h \<mapsto> ?l), next_list := next_list h + 1\<rparr>)
      E (add_mset (next_list h) L)"
    by (rule heap_ok_new [OF ok]) (simp_all add: list_ok_def entries_def)
  moreover have "lists h (next_list h) = None" using heap_okD(5) [OF ok] by simp
  moreover from this have "next_list h \<notin># L" using heap_ok_list [OF ok] by (metis option.distinct(1))
  moreover have "isl_list_alloc h (int n) = (h\<lparr>objs := isl_ctx_ref (objs h), lists := (lists h)(next_list h \<mapsto> ?l),
      next_list := next_list h + 1\<rparr>, Some (next_list h))"
    by (simp add: isl_list_alloc_def new_list_def Let_def)
  ultimately show ?thesis by auto
qed

text \<open>Releasing the elements \<open>first..first + n\<close> of a list; \<open>g\<close> is the heap without them.\<close>

lemma free_loop_run:
  assumes g: "\<And>t s. g (t\<lparr>objs := s\<rparr>) = (g t)\<lparr>objs := s\<rparr>" "\<And>t. objs (g t) = objs t"
    and ok: "heap_ok V (g h) (E + somes (take n (drop first (l_p l)))) L"
    and l: "lists h a = Some l" "first + n \<le> length (l_p l)"
  shows "\<exists>s. for_range_opt 0 n (\<lambda>i h. do { q \<leftarrow> list_read h a (first + i); (h, _) \<leftarrow> el_op free h q; Some h }) h = Some (h\<lparr>objs := s\<rparr>) \<and>
    heap_ok V (g (h\<lparr>objs := s\<rparr>)) E L"
proof -
  let ?q = "take n (drop first (l_p l))"
  let ?f = "\<lambda>i h. do { q \<leftarrow> list_read h a (first + i); (h, _) \<leftarrow> el_op free h q; Some h }"
  let ?P = "\<lambda>i t. heap_ok V (g t) (E + somes (drop i ?q)) L \<and> (\<exists>s. t = h\<lparr>objs := s\<rparr>)"
  have "\<exists>t. for_range_opt 0 n ?f h = Some t \<and> ?P n t"
  proof (rule for_range_opt_induct [where P = ?P])
    show "?P 0 h" using ok by (intro conjI exI [of _ "objs h"]) simp_all
    fix i t
    assume i: "i < n" and t: "?P i t"
    have len: "i < length ?q" using i l(2) by simp
    then have dr: "drop i ?q = ?q ! i # drop (Suc i) ?q" by (rule Cons_nth_drop_Suc [symmetric])
    have rd: "list_read t a (first + i) = Some (?q ! i)" using t l i by (auto simp: list_read_def)
    show "\<exists>t'. ?f i t = Some t' \<and> ?P (Suc i) t'"
    proof (cases "?q ! i")
      case None
      then show ?thesis using rd t dr by simp
    next
      case (Some e)
      then have "heap_ok V (g t) (add_mset e (E + somes (drop (Suc i) ?q))) L" using t dr by simp
      from el_free_run [OF this] obtain u where u: "el_op free (g t) (Some e) = Some (u, None)"
          "heap_ok V u (E + somes (drop (Suc i) ?q)) L" by blast
      then obtain s where s: "free (objs t) (Some e) = Some (s, None)" "u = (g t)\<lparr>objs := s\<rparr>"
        by (auto simp: el_op_def g(2))
      have "el_op free t (Some e) = Some (t\<lparr>objs := s\<rparr>, None)" using s(1) by (simp add: el_op_def)
      moreover have "heap_ok V (g (t\<lparr>objs := s\<rparr>)) (E + somes (drop (Suc i) ?q)) L" using u(2) s(2) by (simp add: g(1))
      ultimately show ?thesis using rd Some t by auto
    qed
  qed simp
  then show ?thesis by auto
qed

lemma list_free_run:
  assumes ok: "heap_ok V h E (add_mset a L)"
  shows "\<exists>h'. isl_list_free free h (Some a) = Some (h', None) \<and> heap_ok V h' E L \<and> keeps L h h'"
proof -
  note D = heap_okD [OF ok]
  obtain l where l: "lists h a = Some l" "l_ref l = int (count (add_mset a L) a)" "list_ok l" "ents h a = entries l"
    using heap_ok_list [OF ok, of a] by (metis union_single_eq_member)
  let ?l = "l\<lparr>l_ref := l_ref l - 1\<rparr>"
  have el: "entries ?l = entries l" "list_ok ?l" using l(3) by simp_all
  show ?thesis
  proof (cases "0 < l_ref l - 1")
    case True
    then have run: "isl_list_free free h (Some a) = Some (set_list h a ?l, None)" using l by (simp add: isl_list_free_def)
    have "heap_ok V (set_list h a ?l) E L"
      using l True by (intro heap_ok_set [OF ok l(1)]) (simp_all add: el)
    moreover have "keeps L h (set_list h a ?l)" using l(4) el by (simp add: keeps_def ents_set_list)
    ultimately show ?thesis using run by blast
  next
    case False
    then have aL: "a \<notin># L" using l(2) by (simp add: not_in_iff)
    define g where "g x = x\<lparr>lists := (lists x)(a := None)\<rparr>" for x :: "'a heap"
    define h1 where "h1 = (set_list h a ?l)\<lparr>objs := isl_ctx_deref (objs h)\<rparr>"
    have "a \<in> dom (lists h)" using l by auto
    then have "Suc (card (dom (lists h) - {a})) = card (dom (lists h))" by (rule card_Suc_Diff1 [OF D(2)])
    then have card: "int (card (dom (lists h) - {a})) = int (card (dom (lists h))) - 1" "0 < card (dom (lists h))" by linarith+
    have start: "heap_ok V (g h1) (E + somes (entries l)) L"
    proof -
      have "list_owned (g h1) = list_owned (h\<lparr>lists := (lists h)(a := None)\<rparr>)" by (rule list_owned_cong) (simp add: g_def h1_def)
      then have own: "(E + somes (entries l)) + list_owned (g h1) = E + list_owned h"
        using list_owned_split [OF D(2), of a] l(4) by (simp add: ac_simps)
      have obj: "cells (objs (g h1)) = cells (objs h)" "next_addr (objs (g h1)) = next_addr (objs h)"
          "ctx_ref (objs (g h1)) = ctx_ref (objs h) - 1"
        using D(3) card by (simp_all add: g_def h1_def isl_ctx_deref_def)
      have li: "lists (g h1) = (lists h)(a := None)" "next_list (g h1) = next_list h" by (simp_all add: g_def h1_def)
      have "dom ((lists h)(a := None)) = dom (lists h) - {a}" by auto
      then have "int (card (dom ((lists h)(a := None)))) = int (card (dom (lists h))) - 1" "finite (dom ((lists h)(a := None)))"
        using card D(2) by simp_all
      moreover have "case ((lists h)(a := None)) b of None \<Rightarrow> b \<notin># L
          | Some l \<Rightarrow> l_ref l = int (count L b) \<and> 0 < l_ref l \<and> list_ok l" for b
        using D(7) [of b] aL by (cases "b = a") (auto split: option.splits)
      ultimately show ?thesis using D(1,3-6) unfolding heap_ok_def own obj li by auto
    qed
    have "l_n l \<le> length (l_p l)" using l(3) by (simp add: list_ok_def)
    then have pre: "0 + l_n l \<le> length (l_p ?l)" "lists h1 a = Some ?l" by (simp_all add: h1_def)
    have "heap_ok V (g h1) (E + somes (take (l_n l) (drop 0 (l_p ?l)))) L" using start by (simp add: entries_def)
    from free_loop_run [where g = g, OF _ _ this pre(2,1)]
    obtain s where t: "for_range_opt 0 (l_n l) (\<lambda>i h. do { q \<leftarrow> list_read h a i; (h, _) \<leftarrow> el_op free h q; Some h }) h1 = Some (h1\<lparr>objs := s\<rparr>)"
        "heap_ok V (g (h1\<lparr>objs := s\<rparr>)) E L"
      by (auto simp: g_def)
    have "isl_list_free free h (Some a) = Some (g (h1\<lparr>objs := s\<rparr>), None)"
      using False l(1) t(1) by (simp add: isl_list_free_def g_def h1_def)
    moreover have "keeps L h (g (h1\<lparr>objs := s\<rparr>))"
      using aL by (auto simp: keeps_def g_def h1_def ents_def)
    ultimately show ?thesis using t(2) by blast
  qed
qed

text \<open>Other lists are not looked at.\<close>

lemma list_free_other: "isl_list_free free h (Some a) = Some (h', q) \<Longrightarrow> c \<noteq> a \<Longrightarrow> lists h' c = lists h c"
proof -
  assume run: "isl_list_free free h (Some a) = Some (h', q)" and c: "c \<noteq> a"
  have loop: "for_range_opt lo hi (\<lambda>i h. do { q \<leftarrow> list_read h a i; (h, _) \<leftarrow> el_op free h q; Some h }) x = Some y \<Longrightarrow>
      lists y c = lists x c" for lo hi and x y :: "'a heap"
  proof (induction hi arbitrary: y)
    case (Suc hi)
    show ?case
    proof (cases "lo \<le> hi")
      case True
      with Suc.prems obtain z q w r where "for_range_opt lo hi (\<lambda>i h. do { q \<leftarrow> list_read h a i; (h, _) \<leftarrow> el_op free h q; Some h }) x = Some z"
          "el_op free z q = Some (y, r)"
        by (auto simp: for_range_opt_Suc bind_eq_Some_conv)
      then show ?thesis using Suc.IH el_op_lists by (metis same_lists_def)
    qed (use Suc.prems in simp)
  qed simp
  obtain l where l: "lists h a = Some l" using run by (auto simp: isl_list_free_def bind_eq_Some_conv)
  show ?thesis
  proof (cases "0 < l_ref l - 1")
    case True
    then show ?thesis using run c l by (auto simp: isl_list_free_def)
  next
    case False
    let ?h = "(set_list h a (l\<lparr>l_ref := l_ref l - 1\<rparr>))\<lparr>objs := isl_ctx_deref (objs h)\<rparr>"
    from False obtain y where y: "for_range_opt 0 (l_n l) (\<lambda>i h. do { q \<leftarrow> list_read h a i; (h, _) \<leftarrow> el_op free h q; Some h }) ?h = Some y"
        "h' = y\<lparr>lists := (lists y)(a := None)\<rparr>"
      using run l by (auto simp: isl_list_free_def Let_def bind_eq_Some_conv)
    then show ?thesis using loop [OF y(1)] c by simp
  qed
qed

text \<open>Adding to a list that has room.\<close>

lemma append_run:
  assumes ok: "heap_ok V h (add_mset e E) (add_mset b L)" and b: "lists h b = Some l" "l_ref l = 1" "l_n l < l_size l"
  shows "\<exists>h' l'. do { l \<leftarrow> lists h b; h \<leftarrow> list_write h b (l_n l) (Some e); l \<leftarrow> lists h b;
      Some (set_list h b (l\<lparr>l_n := l_n l + 1\<rparr>), Some b) } = Some (h', Some b) \<and>
    heap_ok V h' E (add_mset b L) \<and> lists h' = (lists h)(b \<mapsto> l') \<and> next_list h' = next_list h \<and>
    entries l' = entries l @ [Some e] \<and> l_ref l' = 1 \<and> l_size l' = l_size l \<and> l_n l' = l_n l + 1"
proof -
  obtain l0 where "lists h b = Some l0" "l_ref l0 = int (count (add_mset b L) b)" "list_ok l0"
    using heap_ok_list [OF ok, of b] by (metis union_single_eq_member)
  then have lok: "list_ok l" and ref: "l_ref l = int (count (add_mset b L) b)" using b by simp_all
  let ?l = "l\<lparr>l_p := (l_p l)[l_n l := Some e], l_n := l_n l + 1\<rparr>"
  have en: "entries ?l = entries l @ [Some e]"
    using lok b(3) by (simp add: entries_def list_ok_def take_Suc_conv_app_nth)
  have run: "do { l \<leftarrow> lists h b; h \<leftarrow> list_write h b (l_n l) (Some e); l \<leftarrow> lists h b;
      Some (set_list h b (l\<lparr>l_n := l_n l + 1\<rparr>), Some b) } = Some (set_list h b ?l, Some b)"
    using b lok by (simp add: list_write_def list_ok_def set_list_def)
  have "heap_ok V (set_list h b ?l) E (add_mset b L)"
  proof (rule heap_ok_set [OF ok b(1)])
    show "E + somes (entries ?l) = add_mset e E + somes (entries l)" unfolding en by simp
  qed (use lok ref b in \<open>simp_all add: list_ok_def\<close>)
  then show ?thesis using run en b by (intro exI [of _ "set_list h b ?l"] exI [of _ ?l]) simp
qed

lemma add_room_run:
  assumes ok: "heap_ok V h (add_mset e E) (add_mset b L)" and b: "lists h b = Some l" "l_ref l = 1" "l_n l < l_size l"
  shows "\<exists>h' l'. list_add_with (list_grow (Suc d) copy free) free h (Some b) (Some e) = Some (h', Some b) \<and>
    heap_ok V h' E (add_mset b L) \<and> lists h' = (lists h)(b \<mapsto> l') \<and> next_list h' = next_list h \<and>
    entries l' = entries l @ [Some e] \<and> l_ref l' = 1 \<and> l_size l' = l_size l \<and> l_n l' = l_n l + 1"
  using append_run [OF assms] b by (simp add: list_add_with_def)

lemma add_picked_run:
  assumes ok: "heap_ok V h E (add_mset b L)" and b: "lists h b = Some l" "l_ref l = 1" "l_n l + (hi - lo) \<le> l_size l"
    and a: "a \<in># L" "None \<notin> set (ents h a)" "lo \<le> hi" and pos: "\<And>i. lo \<le> i \<Longrightarrow> i < hi \<Longrightarrow> pos i < length (ents h a)"
  shows "\<exists>h' l'. for_range_opt lo hi (\<lambda>i (h, res). do { q \<leftarrow> list_read h a (pos i); (h, el) \<leftarrow> el_op copy h q;
        list_add_with (list_grow (Suc d) copy free) free h res el }) (h, Some b) = Some (h', Some b) \<and>
    heap_ok V h' E (add_mset b L) \<and> lists h' = (lists h)(b \<mapsto> l') \<and> next_list h' = next_list h \<and>
    entries l' = entries l @ map (\<lambda>i. ents h a ! pos i) [lo..<hi] \<and> l_ref l' = 1 \<and> l_size l' = l_size l \<and> l_n l' = l_n l + (hi - lo)"
proof -
  let ?add = "list_add_with (list_grow (Suc d) copy free) free"
  let ?f = "\<lambda>i (h, res). do { q \<leftarrow> list_read h a (pos i); (h, el) \<leftarrow> el_op copy h q; ?add h res el }"
  let ?P = "\<lambda>i (t, res). res = Some b \<and> heap_ok V t E (add_mset b L) \<and> next_list t = next_list h \<and>
    (\<exists>l'. lists t = (lists h)(b \<mapsto> l') \<and> entries l' = entries l @ map (\<lambda>i. ents h a ! pos i) [lo..<i] \<and>
      l_ref l' = 1 \<and> l_size l' = l_size l \<and> l_n l' = l_n l + (i - lo))"
  have "l_ref l = int (count (add_mset b L) b)" using heap_okD(7) [OF ok, of b] b by simp
  then have "b \<notin># L" using b by (simp add: not_in_iff)
  then have ab: "a \<noteq> b" using a by blast
  have "\<exists>t. for_range_opt lo hi ?f (h, Some b) = Some t \<and> ?P hi t"
  proof (rule for_range_opt_induct [OF a(3)])
    show "?P lo (h, Some b)" using ok b by (auto simp: fun_upd_idem intro!: exI [of _ l])
    fix i t
    assume i: "lo \<le> i" "i < hi" and P: "?P i t"
    obtain t1 l' where t: "t = (t1, Some b)" "heap_ok V t1 E (add_mset b L)" "next_list t1 = next_list h" "lists t1 = (lists h)(b \<mapsto> l')"
        "entries l' = entries l @ map (\<lambda>i. ents h a ! pos i) [lo..<i]" "l_ref l' = 1" "l_size l' = l_size l" "l_n l' = l_n l + (i - lo)"
      using P by (cases t) auto
    have ea: "ents t1 a = ents h a" using ab t(4) by (simp add: ents_def)
    have rd: "list_read t1 a (pos i) = Some (ents h a ! pos i)"
      using list_read_run [OF t(2), of a "pos i"] a pos [OF i] by (simp add: ea)
    have "ents h a ! pos i \<in> set (ents h a)" using pos [OF i] by simp
    then obtain e where e: "ents h a ! pos i = Some e" using a(2) by (metis not_None_eq)
    have "e \<in># E + list_owned t1"
    proof -
      have "e \<in># somes (ents t1 a)" using e ea \<open>ents h a ! pos i \<in> set (ents h a)\<close> by simp
      then show ?thesis using list_owned_split [OF heap_okD(2) [OF t(2)], of a] by (metis Un_iff set_mset_union)
    qed
    from el_copy_run [OF t(2) this] obtain t2 where t2: "el_op copy t1 (Some e) = Some (t2, Some e)"
      "heap_ok V t2 (add_mset e E) (add_mset b L)" "same_lists t1 t2" by blast
    have l2: "lists t2 b = Some l'" "l_n l' < l_size l'" using t2(3) t b(3) i by (simp_all add: same_lists_def)
    from add_room_run [OF t2(2) l2(1) t(6) l2(2), of d] obtain t3 l3 where t3: "?add t2 (Some b) (Some e) = Some (t3, Some b)"
      "heap_ok V t3 E (add_mset b L)" "lists t3 = (lists t2)(b \<mapsto> l3)" "next_list t3 = next_list t2"
      "entries l3 = entries l' @ [Some e]" "l_ref l3 = 1" "l_size l3 = l_size l'" "l_n l3 = l_n l' + 1" by blast
    have "map (\<lambda>i. ents h a ! pos i) [lo..<Suc i] = map (\<lambda>i. ents h a ! pos i) [lo..<i] @ [Some e]" using i e by simp
    then have "?P (Suc i) (t3, Some b)"
      using t t2(3) t3 i by (auto simp: same_lists_def Suc_diff_le)
    moreover have "?f i t = Some (t3, Some b)" using t(1) rd e t2(1) t3(1) by simp
    ultimately show "\<exists>t'. ?f i t = Some t' \<and> ?P (Suc i) t'" by blast
  qed
  then show ?thesis by auto
qed

lemma add_copies_run:
  assumes ok: "heap_ok V h E (add_mset b L)" and b: "lists h b = Some l" "l_ref l = 1" "l_n l + (hi - lo) \<le> l_size l"
    and a: "a \<in># L" "None \<notin> set (ents h a)" "lo \<le> hi" "hi \<le> length (ents h a)"
  shows "\<exists>h' l'. add_copies (list_add_with (list_grow (Suc d) copy free) free) copy a lo hi h (Some b) = Some (h', Some b) \<and>
    heap_ok V h' E (add_mset b L) \<and> lists h' = (lists h)(b \<mapsto> l') \<and> next_list h' = next_list h \<and>
    entries l' = entries l @ take (hi - lo) (drop lo (ents h a)) \<and> l_ref l' = 1 \<and> l_size l' = l_size l \<and> l_n l' = l_n l + (hi - lo)"
proof -
  have "map (\<lambda>i. ents h a ! i) [lo..<hi] = take (hi - lo) (drop lo (ents h a))"
    using a(4) by (intro nth_equalityI) simp_all
  then show ?thesis using add_picked_run [OF ok b a(1-3), of "\<lambda>i. i" d] a(4) unfolding add_copies_def by simp
qed

text \<open>Making room.\<close>

lemma grow_run:
  assumes ok: "heap_ok V h E (add_mset b L)" and full: "None \<notin> set (ents h b)"
  shows "\<exists>h' a l. list_grow (Suc (Suc d)) copy free h (Some b) n = Some (h', Some a) \<and> heap_ok V h' E (add_mset a L) \<and>
    lists h' a = Some l \<and> l_ref l = 1 \<and> l_n l + n \<le> l_size l \<and> entries l = ents h b \<and> keeps L h h'"
proof -
  obtain l where l: "lists h b = Some l" "l_ref l = int (count (add_mset b L) b)" "list_ok l" "ents h b = entries l" "b < next_list h"
    using heap_ok_list [OF ok, of b] by (metis union_single_eq_member)
  let ?new = "((l_n l + n + 1) * 3) div 2"
  show ?thesis
  proof (cases "l_ref l = 1")
    case True
    then have bL: "b \<notin># L" using l(2) by (simp add: not_in_iff)
    show ?thesis
    proof (cases "l_n l + n \<le> l_size l")
      case fits: True
      then show ?thesis using True l ok by (intro exI [of _ h] exI [of _ b] exI [of _ l]) simp
    next
      case False
      let ?l = "l\<lparr>l_size := ?new, l_p := take ?new (l_p l) @ fresh (unset h) (?new - l_size l)\<rparr>"
      have room: "l_n l + n \<le> ?new" "l_size l \<le> ?new" using False by simp_all
      have l': "list_ok ?l" "entries ?l = entries l" using l(3) room by (simp_all add: list_ok_def entries_def)
      let ?h = "h\<lparr>lists := (lists h)(b := None, next_list h \<mapsto> ?l), next_list := next_list h + 1\<rparr>"
      have "heap_ok V ?h E (add_mset (next_list h) L)" using True l' by (intro heap_ok_move [OF ok l(1)]) simp_all
      moreover have "list_grow (Suc (Suc d)) copy free h (Some b) n = Some (?h, Some (next_list h))"
        using True False l(1) by (simp add: new_list_def Let_def)
      moreover have "next_list h \<notin># L" using heap_okD(5,7) [OF ok, of "next_list h"] by (metis (no_types, lifting) order_refl option.simps(4) union_iff add_mset_add_single)
      then have "keeps L h ?h" using bL by (auto simp: keeps_def ents_def)
      ultimately show ?thesis using True room l l' by (intro exI [of _ ?h] exI [of _ "next_list h"] exI [of _ ?l]) simp
    qed
  next
    case False
    define sz where "sz = (if l_n l + n \<le> l_size l \<and> l_size l < ?new then l_size l else ?new)"
    have room: "l_n l + n \<le> sz" by (auto simp: sz_def)
    let ?c = "next_list h"
    obtain h1 where h1: "isl_list_alloc h (int sz) = (h1, Some ?c)" "heap_ok V h1 E (add_mset ?c (add_mset b L))"
        "lists h1 = (lists h)(?c \<mapsto> \<lparr>l_ref = 1, l_n = 0, l_size = sz, l_p = fresh (unset h) sz\<rparr>)"
        "next_list h1 = ?c + 1" "?c \<notin># add_mset b L"
      using alloc_list_run [OF ok, of sz] by blast
    have e1: "ents h1 b = ents h b" using h1(3) l(5) by (simp add: ents_def)
    obtain h2 l2 where h2: "add_copies (list_add_with (list_grow (Suc d) copy free) free) copy b 0 (l_n l) h1 (Some ?c) = Some (h2, Some ?c)"
        "heap_ok V h2 E (add_mset ?c (add_mset b L))" "lists h2 = (lists h1)(?c \<mapsto> l2)" "next_list h2 = next_list h1"
        "entries l2 = take (l_n l) (ents h b)" "l_ref l2 = 1" "l_size l2 = sz" "l_n l2 = l_n l"
    proof -
      let ?e = "\<lparr>l_ref = 1, l_n = 0, l_size = sz, l_p = fresh (unset h) sz\<rparr>"
      have lk: "lists h1 ?c = Some ?e" using h1(3) by simp
      have e0: "entries ?e = []" by (simp add: entries_def)
      have pre: "l_ref ?e = 1" "l_n ?e + (l_n l - 0) \<le> l_size ?e" "b \<in># add_mset b L" "None \<notin> set (ents h1 b)" "0 \<le> l_n l"
          "l_n l \<le> length (ents h1 b)"
        using room full e1 length_entries [OF l(3)] l(4) by simp_all
      from add_copies_run [OF h1(2) lk pre, of d] show thesis using that e1 by (auto simp: e0)
    qed
    have "heap_ok V h2 E (add_mset b (add_mset ?c L))" using h2(2) by (simp add: add_mset_commute)
    from list_free_run [OF this] obtain h3 where h3: "isl_list_free free h2 (Some b) = Some (h3, None)"
        "heap_ok V h3 E (add_mset ?c L)" "keeps (add_mset ?c L) h2 h3" by blast
    have "list_grow (Suc (Suc d)) copy free h (Some b) n = Some (h3, Some ?c)"
      unfolding list_grow.simps(2) [of "Suc d"] option.case l(1) Option.bind.simps Let_def sz_def [symmetric] h1(1) prod.case
      using False h2(1) h3(1) by simp
    moreover have "ents h3 ?c = ents h b"
      using h3(3) h2(3,5) length_entries [OF l(3)] l(4) by (simp add: keeps_def ents_def)
    moreover obtain l3 where l3: "lists h3 ?c = Some l3" "l_ref l3 = 1" "l_size l3 = sz" "l_n l3 = l_n l"
      using list_free_other [OF h3(1), of ?c] h2 l(5) by (metis fun_upd_same nat_neq_iff)
    moreover have "keeps L h h3"
    proof -
      have "?c \<notin># L" "b < ?c" using h1(5) l(5) by simp_all
      then have "keeps L h h2" using h1(3,4) h2(3,4) by (auto simp: keeps_def ents_def)
      then show ?thesis using keeps_sub [OF h3(3), of L] by (auto intro: keeps_trans)
    qed
    ultimately show ?thesis
      using h3(2) room by (intro exI [of _ h3] exI [of _ ?c] exI [of _ l3]) (simp add: ents_def)
  qed
qed

lemma add_is: "isl_list_add copy free = list_add_with (list_grow (Suc (Suc 0)) copy free) free"
  by (simp add: isl_list_add_def isl_list_grow_def numeral_2_eq_2 fun_eq_iff)

lemma add_run:
  assumes ok: "heap_ok V h (add_mset e E) (add_mset b L)" and full: "None \<notin> set (ents h b)"
  shows "gives V E L h (isl_list_add copy free h (Some b) (Some e)) (ents h b @ [Some e])"
proof -
  obtain h1 a l where g: "list_grow (Suc (Suc 0)) copy free h (Some b) 1 = Some (h1, Some a)" "heap_ok V h1 (add_mset e E) (add_mset a L)"
      "lists h1 a = Some l" "l_ref l = 1" "l_n l + 1 \<le> l_size l" "entries l = ents h b" "keeps L h h1"
    using grow_run [OF ok full, of 0 1] by blast
  obtain h2 l' where a: "do { l \<leftarrow> lists h1 a; h \<leftarrow> list_write h1 a (l_n l) (Some e); l \<leftarrow> lists h a;
      Some (set_list h a (l\<lparr>l_n := l_n l + 1\<rparr>), Some a) } = Some (h2, Some a)"
    "heap_ok V h2 E (add_mset a L)" "lists h2 = (lists h1)(a \<mapsto> l')" "next_list h2 = next_list h1" "entries l' = entries l @ [Some e]"
    using append_run [OF g(2-4)] g(5) by auto
  have "a \<notin># L" using heap_okD(7) [OF g(2), of a] g(3,4) by (simp add: not_in_iff)
  then have "keeps L h1 h2" using a(3,4) by (auto simp: keeps_def ents_def)
  then have "keeps L h h2" using g(7) keeps_trans by blast
  moreover have "isl_list_add copy free h (Some b) (Some e) = Some (h2, Some a)"
    using g(1) a(1) by (simp add: add_is list_add_with_def)
  moreover have "ents h2 a = ents h b @ [Some e]" using a(3,5) g(6) by (simp add: ents_def)
  ultimately show ?thesis using a(2) by (intro givesI)
qed

text \<open>A new list with some of the elements of another one.\<close>

lemma fresh_copies_run:
  assumes ok: "heap_ok V h E L" and a: "a \<in># L" "None \<notin> set (ents h a)" "lo \<le> hi" "hi \<le> length (ents h a)" and n: "hi - lo \<le> n"
  shows "\<exists>h1 h' l'. isl_list_alloc h (int n) = (h1, Some (next_list h)) \<and>
    add_copies (isl_list_add copy free) copy a lo hi h1 (Some (next_list h)) = Some (h', Some (next_list h)) \<and>
    heap_ok V h' E (add_mset (next_list h) L) \<and> lists h' = (lists h)(next_list h \<mapsto> l') \<and> next_list h' = next_list h + 1 \<and>
    entries l' = take (hi - lo) (drop lo (ents h a)) \<and> l_ref l' = 1 \<and> l_size l' = n \<and> l_n l' = hi - lo \<and> next_list h \<notin># L"
proof -
  let ?e = "\<lparr>l_ref = 1, l_n = 0, l_size = n, l_p = fresh (unset h) n\<rparr>"
  obtain h1 where h1: "isl_list_alloc h (int n) = (h1, Some (next_list h))" "heap_ok V h1 E (add_mset (next_list h) L)"
      "lists h1 = (lists h)(next_list h \<mapsto> ?e)" "next_list h1 = next_list h + 1" "next_list h \<notin># L" "lists h (next_list h) = None"
    using alloc_list_run [OF ok, of n] by blast
  have "a \<noteq> next_list h" using a(1) h1(5) by blast
  then have ea: "ents h1 a = ents h a" using h1(3) by (simp add: ents_def)
  have lk: "lists h1 (next_list h) = Some ?e" using h1(3) by simp
  have pre: "l_ref ?e = 1" "l_n ?e + (hi - lo) \<le> l_size ?e" "None \<notin> set (ents h1 a)" "hi \<le> length (ents h1 a)" using n a ea by simp_all
  have e0: "entries ?e = []" by (simp add: entries_def)
  from add_copies_run [OF h1(2) lk pre(1,2) a(1) pre(3) a(3) pre(4), of "Suc 0", folded add_is] show ?thesis
    using h1 e0 ea by auto
qed

lemma dup_run:
  assumes ok: "heap_ok V h E L" and a: "a \<in># L" "None \<notin> set (ents h a)"
  shows "\<exists>h' b l. isl_list_dup copy free h (Some a) = Some (h', Some b) \<and> heap_ok V h' E (add_mset b L) \<and>
    lists h' b = Some l \<and> l_ref l = 1 \<and> entries l = ents h a \<and> keeps L h h'"
proof -
  obtain l where l: "lists h a = Some l" "list_ok l" "ents h a = entries l" using heap_ok_list [OF ok a(1)] by metis
  have len: "length (ents h a) = l_n l" using l length_entries by simp
  obtain h1 h' l' where r: "isl_list_alloc h (int (l_n l)) = (h1, Some (next_list h))"
    "add_copies (isl_list_add copy free) copy a 0 (l_n l) h1 (Some (next_list h)) = Some (h', Some (next_list h))"
    "heap_ok V h' E (add_mset (next_list h) L)" "lists h' = (lists h)(next_list h \<mapsto> l')" "next_list h' = next_list h + 1"
    "entries l' = ents h a" "l_ref l' = 1" "next_list h \<notin># L"
    using fresh_copies_run [OF ok a, of 0 "l_n l" "l_n l"] len by auto
  have "isl_list_dup copy free h (Some a) = Some (h', Some (next_list h))" using l(1) r(1,2) by (simp add: isl_list_dup_def)
  moreover have "keeps L h h'" using r(4,5,8) by (auto simp: keeps_def ents_def)
  ultimately show ?thesis using r(3,4,6,7) by auto
qed

lemma cow_run:
  assumes ok: "heap_ok V h E (add_mset b L)" and full: "None \<notin> set (ents h b) \<or> b \<notin># L"
  shows "\<exists>h' a l. isl_list_cow copy free h (Some b) = Some (h', Some a) \<and> heap_ok V h' E (add_mset a L) \<and>
    lists h' a = Some l \<and> l_ref l = 1 \<and> entries l = ents h b \<and> keeps L h h' \<and> a \<notin># L"
proof -
  obtain l where l: "lists h b = Some l" "l_ref l = int (count (add_mset b L) b)" "list_ok l" "ents h b = entries l"
    using heap_ok_list [OF ok, of b] by (metis union_single_eq_member)
  show ?thesis
  proof (cases "b \<in># L")
    case False
    then have r1: "l_ref l = 1" using l(2) by (simp add: not_in_iff)
    then have "isl_list_cow copy free h (Some b) = Some (h, Some b)" using l by (simp add: isl_list_cow_def)
    then show ?thesis using ok l r1 False by (intro exI [of _ h] exI [of _ b] exI [of _ l]) simp
  next
    case True
    let ?h = "set_list h b (l\<lparr>l_ref := l_ref l - 1\<rparr>)"
    have "count L b \<noteq> 0" using True by (simp add: not_in_iff)
    then have r1: "l_ref l \<noteq> 1" "0 < l_ref l - 1" using l(2) by simp_all
    have ok1: "heap_ok V ?h E L" using l r1 by (intro heap_ok_set [OF ok l(1)]) simp_all
    have e: "ents ?h c = ents h c" for c using l by (simp add: ents_set_list)
    have "None \<notin> set (ents ?h b)" using full True e by simp
    from dup_run [OF ok1 True this] obtain h' a l' where d: "isl_list_dup copy free ?h (Some b) = Some (h', Some a)"
      "heap_ok V h' E (add_mset a L)" "lists h' a = Some l'" "l_ref l' = 1" "entries l' = ents h b" "keeps L ?h h'"
      by (auto simp: e)
    have "keeps L h h'" using d(6) e by (simp add: keeps_def)
    moreover have "isl_list_cow copy free h (Some b) = Some (h', Some a)" using l(1) r1 d(1) by (simp add: isl_list_cow_def)
    moreover have "a \<notin># L" using heap_okD(7) [OF d(2), of a] d(3,4) by (simp add: not_in_iff)
    ultimately show ?thesis using d(2-5) by auto
  qed
qed

end

end
