(* ===== verification/List_Ops.thy ===== *)
theory List_Ops imports Isl_List begin

text \<open>
  What the operations on lists do, under the ownership invariant of theory Isl_List: the entries
  of the list they return, and that the other lists of the program stay as they are.
\<close>

lemma list_entry_owned:
  assumes "heap_ok V h E L" "a \<in># L" "Some e \<in> set (ents h a)"
  shows "e \<in># E + list_owned h"
proof -
  have "e \<in># somes (ents h a)" using assms by simp
  then show ?thesis using list_owned_split [OF heap_okD(2) [OF assms(1)], of a] by (metis Un_iff set_mset_union)
qed

lemma somes_update:
  "i < length qs \<Longrightarrow> somes (qs[i := Some e]) + somes [qs ! i] = add_mset e (somes qs)"
  "i < length qs \<Longrightarrow> somes (qs[i := None]) + somes [qs ! i] = somes qs"
proof -
  assume i: "i < length qs"
  have 1: "somes (qs[i := q]) = somes (take i qs) + somes [q] + somes (drop (Suc i) qs)" for q
  proof -
    have "somes (take i qs @ q # drop (Suc i) qs) = somes (take i qs) + somes [q] + somes (drop (Suc i) qs)" by (cases q) simp_all
    then show ?thesis using i by (simp add: upd_conv_take_nth_drop)
  qed
  have 2: "somes qs = somes (take i qs) + somes [qs ! i] + somes (drop (Suc i) qs)"
    using 1 [of "qs ! i"] i by simp
  show "somes (qs[i := Some e]) + somes [qs ! i] = add_mset e (somes qs)" unfolding 1 2 by simp
  show "somes (qs[i := None]) + somes [qs ! i] = somes qs" unfolding 1 using 2 by simp
qed

lemma entries_update: "entries (l\<lparr>l_p := (l_p l)[i := q]\<rparr>) = (entries l)[i := q]"
  by (simp add: entries_def take_update_swap)

lemma list_ok_update [simp]: "list_ok (l\<lparr>l_p := (l_p l)[i := q]\<rparr>) = list_ok l"
  by (simp add: list_ok_def)

lemma check_index_run:
  assumes "heap_ok V h E L" "a \<in># L"
  shows "isl_list_check_index h (Some a) i = Some (0 \<le> i \<and> i < int (length (ents h a)))"
proof -
  obtain l where "lists h a = Some l" "list_ok l" "ents h a = entries l" using heap_ok_list [OF assms] by metis
  then show ?thesis using length_entries by (auto simp: isl_list_check_index_def)
qed

lemma size_run:
  assumes "heap_ok V h E L" "a \<in># L"
  shows "isl_list_size h (Some a) = Some (int (length (ents h a)))"
proof -
  obtain l where "lists h a = Some l" "list_ok l" "ents h a = entries l" using heap_ok_list [OF assms] by metis
  then show ?thesis using length_entries by (simp add: isl_list_size_def)
qed

lemma copy_list_run:
  assumes ok: "heap_ok V h E L" and a: "a \<in># L"
  shows "gives V E L h (isl_list_copy h (Some a)) (ents h a)"
proof -
  obtain l where l: "lists h a = Some l" "l_ref l = int (count L a)" "list_ok l" "ents h a = entries l" using heap_ok_list [OF ok a] by metis
  let ?h = "set_list h a (l\<lparr>l_ref := l_ref l + 1\<rparr>)"
  have "heap_ok V ?h E (add_mset a L)" using l by (intro heap_ok_set [OF ok l(1)]) simp_all
  moreover have "ents ?h b = ents h b" for b using l by (simp add: ents_set_list)
  ultimately show ?thesis using l(1) by (intro givesI [of _ ?h a]) (simp_all add: isl_list_copy_def keeps_def)
qed

text \<open>The multiset of the owners of a list that is not shared.\<close>

lemma unshared_ref:
  assumes "heap_ok V h E (add_mset a L)" "lists h a = Some l"
  shows "l_ref l = 1 \<longleftrightarrow> a \<notin># L" "list_ok l" "l_ref l = int (count L a) + 1" "ents h a = entries l"
  using heap_okD(7) [OF assms(1), of a] assms(2) by (auto simp: not_in_iff ents_def)

lemma keeps_other: "a \<notin># L \<Longrightarrow> keeps L h (set_list h a l)"
  by (auto simp: keeps_def ents_set_list)

context list_element begin

lemma get_at_run:
  assumes ok: "heap_ok V h E L" and a: "a \<in># L" "i < length (ents h a)" "ents h a ! i = Some e"
  shows "\<exists>h'. isl_list_get_at copy h (Some a) (int i) = Some (h', Some e) \<and> heap_ok V h' (add_mset e E) L \<and> same_lists h h'"
proof -
  have "e \<in># E + list_owned h" using list_entry_owned [OF ok a(1)] a(2,3) by (metis nth_mem)
  from el_copy_run [OF ok this] show ?thesis
    using check_index_run [OF ok a(1), of "int i"] list_read_run [OF ok a(1,2)] a by (simp add: isl_list_get_at_def isl_list_peek_def)
qed

lemma fail_free_run:
  assumes "heap_ok V h (add_mset e E) (add_mset a L)"
  shows "\<exists>h'. fail_free free h (Some e) (Some a) = Some (h', None) \<and> heap_ok V h' E L \<and> keeps L h h'"
proof -
  obtain h1 where h1: "el_op free h (Some e) = Some (h1, None)" "heap_ok V h1 E (add_mset a L)" "same_lists h h1"
    using el_free_run [OF assms] by blast
  obtain h2 where "isl_list_free free h1 (Some a) = Some (h2, None)" "heap_ok V h2 E L" "keeps L h1 h2"
    using list_free_run [OF h1(2)] by blast
  then show ?thesis using h1 same_lists_ents [OF h1(3)] by (simp add: fail_free_def keeps_def)
qed

text \<open>Replacing an entry of a list that is not shared.\<close>

lemma replace_run:
  assumes ok: "heap_ok V h (add_mset e E) (add_mset a L)" and l: "lists h a = Some l" "l_ref l = 1" and i: "i < length (entries l)"
  shows "\<exists>h'. do { q \<leftarrow> list_read h a i; (h, _) \<leftarrow> el_op free h q; h \<leftarrow> list_write h a i (Some e); Some (h, Some a) } = Some (h', Some a) \<and>
    heap_ok V h' E (add_mset a L) \<and> ents h' a = (entries l)[i := Some e] \<and> keeps L h h'"
proof -
  note u = unshared_ref [OF ok l(1)]
  have aL: "a \<notin># L" using u l by blast
  have i': "i < l_n l" "i < length (l_p l)" using i u(2) length_entries [of l] by (auto simp: list_ok_def)
  have rd: "list_read h a i = Some (entries l ! i)" using l i' entries_nth [OF u(2) i'(1)] by (simp add: list_read_def)
  let ?g = "\<lambda>q. l\<lparr>l_p := (l_p l)[i := q]\<rparr>"
  define E1 where "E1 = E + somes [entries l ! i]"
  have ok1: "heap_ok V (set_list h a (?g (Some e))) E1 (add_mset a L)"
  proof (rule heap_ok_set [OF ok l(1)])
    show "E1 + somes (entries (?g (Some e))) = add_mset e E + somes (entries l)"
      unfolding entries_update E1_def using somes_update(1) [OF i, of e] by (simp add: ac_simps)
  qed (use u l in simp_all)
  have ents1: "entries (?g (Some e)) = (entries l)[i := Some e]" by (rule entries_update)
  show ?thesis
  proof (cases "entries l ! i")
    case None
    then have "heap_ok V (set_list h a (?g (Some e))) E (add_mset a L)" using ok1 by (simp add: E1_def)
    moreover have "keeps L h (set_list h a (?g (Some e)))" using aL by (rule keeps_other)
    ultimately show ?thesis using rd None l i' ents1 by (simp add: list_write_def ents_set_list)
  next
    case (Some e')
    then have "heap_ok V (set_list h a (?g (Some e))) (add_mset e' E) (add_mset a L)" using ok1 by (simp add: E1_def)
    from el_free_run [OF this] obtain h2 where h2: "el_op free (set_list h a (?g (Some e))) (Some e') = Some (h2, None)"
      "heap_ok V h2 E (add_mset a L)" "same_lists (set_list h a (?g (Some e))) h2" by blast
    then obtain s where s: "free (objs h) (Some e') = Some (s, None)" "h2 = (set_list h a (?g (Some e)))\<lparr>objs := s\<rparr>"
      by (auto simp: el_op_def)
    have "list_write (h\<lparr>objs := s\<rparr>) a i (Some e) = Some h2" using l i' s(2) by (simp add: list_write_def set_list_def)
    moreover have "el_op free h (Some e') = Some (h\<lparr>objs := s\<rparr>, None)" using s(1) by (simp add: el_op_def)
    moreover have "keeps L h h2" "ents h2 a = (entries l)[i := Some e]"
      using aL h2(3) ents1 by (auto simp: keeps_def same_lists_def ents_def)
    ultimately show ?thesis using rd Some h2(2) by simp
  qed
qed

lemma set_at_run:
  assumes ok: "heap_ok V h (add_mset e E) (add_mset a L)" and full: "None \<notin> set (ents h a) \<or> a \<notin># L" and i: "i < length (ents h a)"
  shows "\<exists>h' a'. isl_list_set_at copy free h (Some a) (int i) (Some e) = Some (h', Some a') \<and> heap_ok V h' E (add_mset a' L) \<and>
    ents h' a' = (ents h a)[i := Some e] \<and> keeps L h h' \<and> (a \<notin># L \<longrightarrow> a' \<notin># L)"
proof -
  have a: "a \<in># add_mset a L" by simp
  note chk = check_index_run [OF ok a, of "int i"] and rd = list_read_run [OF ok a i]
  show ?thesis
  proof (cases "ents h a ! i = Some e")
    case True
    obtain h1 where h1: "el_op free h (Some e) = Some (h1, None)" "heap_ok V h1 E (add_mset a L)" "same_lists h h1"
      using el_free_run [OF ok] by blast
    have "(ents h a)[i := Some e] = ents h a" using True by (metis list_update_id)
    then show ?thesis
      using h1 chk rd i True same_lists_ents [OF h1(3)] by (simp add: isl_list_set_at_def keeps_def)
  next
    case False
    obtain h1 b l where c: "isl_list_cow copy free h (Some a) = Some (h1, Some b)" "heap_ok V h1 (add_mset e E) (add_mset b L)"
      "lists h1 b = Some l" "l_ref l = 1" "entries l = ents h a" "keeps L h h1" "b \<notin># L"
      using cow_run [OF ok full] by blast
    from replace_run [OF c(2-4), of i] obtain h2 where r: "do { q \<leftarrow> list_read h1 b i; (h, _) \<leftarrow> el_op free h1 q; h \<leftarrow> list_write h b i (Some e);
        Some (h, Some b) } = Some (h2, Some b)" "heap_ok V h2 E (add_mset b L)" "ents h2 b = (ents h a)[i := Some e]" "keeps L h1 h2"
      using i c(5) by auto
    have "isl_list_set_at copy free h (Some a) (int i) (Some e) = Some (h2, Some b)"
      using chk rd i False c(1) r(1) by (simp add: isl_list_set_at_def)
    moreover have "keeps L h h2" using c(6) r(4) keeps_trans by blast
    ultimately show ?thesis using r(2,3) c(7) by blast
  qed
qed

lemma set_at_fails:
  assumes ok: "heap_ok V h (add_mset e E) (add_mset a L)" and i: "i < 0 \<or> int (length (ents h a)) \<le> i"
  shows "\<exists>h'. isl_list_set_at copy free h (Some a) i (Some e) = Some (h', None) \<and> heap_ok V h' E L \<and> keeps L h h'"
  using fail_free_run [OF ok] check_index_run [OF ok, of a i] i by (auto simp: isl_list_set_at_def)

lemma take_run:
  assumes ok: "heap_ok V h E (add_mset a L)" and i: "i < length (ents h a)" "ents h a ! i = Some e"
  shows "\<exists>h'. isl_list_take copy h (Some a) (int i) = Some (h', Some e) \<and> heap_ok V h' (add_mset e E) (add_mset a L) \<and>
    ents h' a = (if a \<in># L then ents h a else (ents h a)[i := None]) \<and> keeps L h h'"
proof -
  obtain l where l: "lists h a = Some l" using heap_ok_list [OF ok, of a] by auto
  note u = unshared_ref [OF ok l]
  have a: "a \<in># add_mset a L" by simp
  note chk = check_index_run [OF ok a, of "int i"] and rd = list_read_run [OF ok a i(1)]
  show ?thesis
  proof (cases "a \<in># L")
    case True
    then have "l_ref l \<noteq> 1" using u by blast
    then have "isl_list_take copy h (Some a) (int i) = isl_list_get_at copy h (Some a) (int i)"
      using chk i l by (simp add: isl_list_take_def)
    with get_at_run [OF ok a i] same_lists_ents show ?thesis using True by (fastforce simp: keeps_def)
  next
    case False
    then have r: "l_ref l = 1" using u by blast
    let ?l = "l\<lparr>l_p := (l_p l)[i := None]\<rparr>"
    have "heap_ok V (set_list h a ?l) (add_mset e E) (add_mset a L)"
    proof (rule heap_ok_set [OF ok l])
      show "add_mset e E + somes (entries ?l) = E + somes (entries l)"
        unfolding entries_update using somes_update(2) [of i "entries l"] i u(4) by (simp add: ac_simps)
    qed (use u r in simp_all)
    moreover have "i < length (l_p l)" using i u(2,4) length_entries [of l] by (auto simp: list_ok_def)
    then have "isl_list_take copy h (Some a) (int i) = Some (set_list h a ?l, Some e)"
      using chk rd i l r by (simp add: isl_list_take_def list_write_def)
    ultimately show ?thesis using False u(4) by (simp add: keeps_other ents_set_list entries_update)
  qed
qed

text \<open>Exchange.\<close>

lemma swap_run:
  assumes ok: "heap_ok V h E (add_mset a L)" and full: "None \<notin> set (ents h a)"
    and ij: "i < length (ents h a)" "j < length (ents h a)"
  shows "gives V E L h (isl_list_swap copy free h (Some a) i j) ((ents h a)[i := ents h a ! j, j := ents h a ! i])"
proof (cases "i = j")
  case True
  then show ?thesis using ok by (intro givesI [of _ h a]) (simp_all add: isl_list_swap_def)
next
  case False
  have "ents h a ! i \<in> set (ents h a)" "ents h a ! j \<in> set (ents h a)" using ij by simp_all
  then obtain e1 e2 where e: "ents h a ! i = Some e1" "ents h a ! j = Some e2" using full by (metis not_None_eq)
  obtain h1 where h1: "isl_list_take copy h (Some a) (int i) = Some (h1, Some e1)" "heap_ok V h1 (add_mset e1 E) (add_mset a L)"
      "ents h1 a = (if a \<in># L then ents h a else (ents h a)[i := None])" "keeps L h h1"
    using take_run [OF ok ij(1) e(1)] by blast
  have j1: "j < length (ents h1 a)" "ents h1 a ! j = Some e2" using h1(3) ij e False by simp_all
  obtain h2 where h2: "isl_list_take copy h1 (Some a) (int j) = Some (h2, Some e2)" "heap_ok V h2 (add_mset e2 (add_mset e1 E)) (add_mset a L)"
      "ents h2 a = (if a \<in># L then ents h1 a else (ents h1 a)[j := None])" "keeps L h1 h2"
    using take_run [OF h1(2) j1] by blast
  have i2: "i < length (ents h2 a)" "None \<notin> set (ents h2 a) \<or> a \<notin># L" using h1(3) h2(3) ij full by simp_all
  obtain h3 b where h3: "isl_list_set_at copy free h2 (Some a) (int i) (Some e2) = Some (h3, Some b)" "heap_ok V h3 (add_mset e1 E) (add_mset b L)"
      "ents h3 b = (ents h2 a)[i := Some e2]" "keeps L h2 h3" "a \<notin># L \<longrightarrow> b \<notin># L"
    using set_at_run [OF h2(2) i2(2,1)] by blast
  have full3: "None \<notin> set (ents h3 b) \<or> b \<notin># L"
  proof (cases "a \<in># L")
    case True
    then have "ents h3 b = (ents h a)[i := Some e2]" using h1(3) h2(3) h3(3) by simp
    then have "set (ents h3 b) \<subseteq> insert (Some e2) (set (ents h a))" by (simp add: set_update_subset_insert)
    then show ?thesis using full by auto
  qed (use h3(5) in simp)
  have j3: "j < length (ents h3 b)" using h1(3) h2(3) h3(3) ij by simp
  obtain h4 c where h4: "isl_list_set_at copy free h3 (Some b) (int j) (Some e1) = Some (h4, Some c)" "heap_ok V h4 E (add_mset c L)"
      "ents h4 c = (ents h3 b)[j := Some e1]" "keeps L h3 h4"
    using set_at_run [OF h3(2) full3 j3] by blast
  have "ents h4 c = (ents h a)[i := ents h a ! j, j := ents h a ! i]"
    using h1(3) h2(3) h3(3) h4(3) e False ij by (auto intro!: nth_equalityI simp: nth_list_update)
  moreover have "keeps L h h4" using h1(4) h2(4) h3(4) h4(4) keeps_trans by blast
  moreover have "isl_list_swap copy free h (Some a) i j = Some (h4, Some c)"
    using False h1(1) h2(1) h3(1) h4(1) by (simp add: isl_list_swap_def isl_list_restore_def)
  ultimately show ?thesis using h4(2) by (intro givesI)
qed

text \<open>Reversal: the first \<open>i\<close> and the last \<open>i\<close> entries are exchanged.\<close>

lemma reverse_loop_run:
  "heap_ok V h E (add_mset a L) \<Longrightarrow> None \<notin> set (ents h a) \<Longrightarrow> length (ents h a) = n \<Longrightarrow> i \<le> n - i \<Longrightarrow>
   (\<forall>k < n. ents h a ! k = (if k < i \<or> n - i \<le> k then qs ! (n - 1 - k) else qs ! k)) \<Longrightarrow> length qs = n \<Longrightarrow>
   gives V E L h (reverse_loop copy free (int n) i h (Some a)) (rev qs)"
proof (induction "n - i" arbitrary: i h a rule: less_induct)
  case less
  note ok = less.prems(1) and full = less.prems(2) and len = less.prems(3) and at = less.prems(5)
  show ?case
  proof (cases "int i < int n - 1 - int i")
    case False
    then have "reverse_loop copy free (int n) i h (Some a) = Some (h, Some a)" by (subst reverse_loop.simps) simp
    moreover have "ents h a = rev qs"
    proof (rule nth_equalityI)
      show "length (ents h a) = length (rev qs)" using len less.prems(6) by simp
      fix k assume k: "k < length (ents h a)"
      have "n - 1 - k = k" if "\<not> (k < i \<or> n - i \<le> k)" using that False k len by linarith
      then show "ents h a ! k = rev qs ! k" using at k len less.prems(6) by (auto simp: rev_nth)
    qed
    ultimately show ?thesis using ok by (intro givesI [of _ h a]) simp_all
  next
    case True
    let ?j = "n - 1 - i"
    have ij: "i < length (ents h a)" "?j < length (ents h a)" "i < ?j" using True len by linarith+
    from swap_run [OF ok full ij(1,2)] obtain h1 b where h1: "isl_list_swap copy free h (Some a) i ?j = Some (h1, Some b)"
      "heap_ok V h1 E (add_mset b L)" "ents h1 b = (ents h a)[i := ents h a ! ?j, ?j := ents h a ! i]" "keeps L h h1"
      by (rule givesE)
    have "set (ents h1 b) \<subseteq> set (ents h a)" unfolding h1(3) using ij by (auto intro!: subsetD [OF set_update_subset_insert] simp: set_update_subsetI)
    then have full1: "None \<notin> set (ents h1 b)" using full by blast
    have at1: "\<forall>k < n. ents h1 b ! k = (if k < i + 1 \<or> n - (i + 1) \<le> k then qs ! (n - 1 - k) else qs ! k)"
    proof (intro allI impI)
      fix k assume k: "k < n"
      consider "k = i" | "k = ?j" | "k \<noteq> i" "k \<noteq> ?j" by blast
      then show "ents h1 b ! k = (if k < i + 1 \<or> n - (i + 1) \<le> k then qs ! (n - 1 - k) else qs ! k)"
      proof cases
        case 1
        then show ?thesis using at ij k len h1(3) by auto
      next
        case 2
        have "n - 1 - ?j = i" using ij len by linarith
        then show ?thesis using 2 at ij k len h1(3) by auto
      next
        case 3
        then have "k < i + 1 \<or> n - (i + 1) \<le> k \<longleftrightarrow> k < i \<or> n - i \<le> k" using k by linarith
        then show ?thesis using 3 at k len h1(3) by simp
      qed
    qed
    have "gives V E L h1 (reverse_loop copy free (int n) (i + 1) h1 (Some b)) (rev qs)"
      by (rule less.hyps) (use True full1 h1(2,3) len at1 less.prems(6) in auto)
    moreover have "nat (int n - 1 - int i) = ?j" using True by linarith
    then have "reverse_loop copy free (int n) i h (Some a) = reverse_loop copy free (int n) (i + 1) h1 (Some b)"
      using True h1(1) by (subst reverse_loop.simps) simp
    ultimately show ?thesis using h1(4) keeps_trans unfolding gives_def by metis
  qed
qed

lemma reverse_run:
  assumes ok: "heap_ok V h E (add_mset a L)" and full: "None \<notin> set (ents h a)"
  shows "gives V E L h (isl_list_reverse copy free h (Some a)) (rev (ents h a))"
  using reverse_loop_run [OF ok full refl, of 0 "ents h a"] size_run [OF ok, of a] by (simp add: isl_list_reverse_def)

text \<open>Dropping.\<close>

lemma drop_fails:
  assumes ok: "heap_ok V h E (add_mset a L)" and bounds: "first < 2 ^ 32" "n < 2 ^ 32" "length (ents h a) < first + n"
  shows "\<exists>h'. isl_list_drop copy free h (Some a) first n = Some (h', None) \<and> heap_ok V h' E L \<and> keeps L h h'"
proof -
  obtain l where l: "lists h a = Some l" "list_ok l" "ents h a = entries l" using heap_ok_list [OF ok, of a] by (metis union_single_eq_member)
  have "l_n l < u32_add first n \<or> u32_add first n < first"
  proof (cases "first + n < 2 ^ 32")
    case True
    then show ?thesis using bounds(3) l length_entries by simp
  next
    case False
    then have "u32_add first n = first + n - 2 ^ 32" using bounds(1,2) by (simp add: u32_add_def mod_if)
    then show ?thesis using bounds(1,2) False by linarith
  qed
  then show ?thesis using list_free_run [OF ok] l(1) by (simp add: isl_list_drop_def)
qed

lemma drop_run:
  assumes ok: "heap_ok V h E (add_mset a L)" and full: "None \<notin> set (ents h a)" and n: "first + n \<le> length (ents h a)" "first + n < 2 ^ 32"
  shows "gives V E L h (isl_list_drop copy free h (Some a) first n) (take first (ents h a) @ drop (first + n) (ents h a))"
proof -
  obtain l0 where l0: "lists h a = Some l0" "list_ok l0" "ents h a = entries l0" using heap_ok_list [OF ok, of a] by (metis union_single_eq_member)
  have chk: "\<not> (l_n l0 < u32_add first n \<or> u32_add first n < first)" using n l0 length_entries by simp
  show ?thesis
  proof (cases "n = 0")
    case True
    then show ?thesis using ok l0 chk by (intro givesI [of _ h a]) (simp_all add: isl_list_drop_def)
  next
    case n0: False
    obtain h1 b l where c: "isl_list_cow copy free h (Some a) = Some (h1, Some b)" "heap_ok V h1 E (add_mset b L)"
      "lists h1 b = Some l" "l_ref l = 1" "entries l = ents h a" "keeps L h h1" "b \<notin># L"
      using cow_run [OF ok] full by blast
    note u = unshared_ref [OF c(2,3)]
    let ?N = "length (ents h a)"
    have ln: "l_n l = ?N" using length_entries [OF u(2)] c(5) by simp
    have lp: "take ?N (l_p l) = ents h a" using c(5) ln by (simp add: entries_def)
    have pl: "?N \<le> length (l_p l)" using u(2) ln by (simp add: list_ok_def)
    define tail where "tail = drop (first + n) (ents h a)"
    define p1 where "p1 = (l_p l)"
    \<comment> \<open>the list without the elements that are released\<close>
    let ?lg = "l\<lparr>l_n := ?N - n, l_p := take first (l_p l) @ tail @ drop (?N - n) (l_p l)\<rparr>"
    have eg: "entries ?lg = take first (ents h a) @ tail"
    proof -
      have "take first (l_p l) = take first (ents h a)" using lp n by (metis min.absorb1 take_take le_trans le_add1)
      then show ?thesis using n by (simp add: entries_def tail_def)
    qed
    have okg: "list_ok ?lg" using u(2) n pl ln by (auto simp: list_ok_def tail_def intro: le_trans [OF diff_le_self])
    let ?g = "\<lambda>x. set_list x b ?lg"
    have split: "ents h a = take first (ents h a) @ take n (drop first (ents h a)) @ tail"
      by (simp add: tail_def add.commute [of first] flip: drop_drop)
    have "heap_ok V (?g h1) (E + somes (take n (drop first (ents h a)))) (add_mset b L)"
    proof (rule heap_ok_set [OF c(2,3)])
      have 1: "somes (ents h a) = somes (take first (ents h a)) + (somes (take n (drop first (ents h a))) + somes tail)"
      proof -
        have "somes (ents h a) = somes (take first (ents h a) @ take n (drop first (ents h a)) @ tail)"
          using split by (rule arg_cong)
        then show ?thesis by (simp only: somes_simps)
      qed
      show "E + somes (take n (drop first (ents h a))) + somes (entries ?lg) = E + somes (entries l)"
        unfolding eg c(5) 1 somes_simps by (simp only: ac_simps)
    qed (use okg u c(4) in simp_all)
    moreover have "take n (drop first (take ?N (l_p l))) = take n (drop first (l_p l))"
      using n by (simp add: drop_take min_def)
    then have "take n (drop first (l_p l)) = take n (drop first (ents h a))" unfolding lp by simp
    ultimately have "heap_ok V (?g h1) (E + somes (take n (drop first (l_p l)))) (add_mset b L)" by simp
    from free_loop_run [where g = ?g, OF _ _ this c(3)]
    obtain s where f: "for_range_opt 0 n (\<lambda>i h. do { q \<leftarrow> list_read h b (first + i); (h, _) \<leftarrow> el_op free h q; Some h }) h1 = Some (h1\<lparr>objs := s\<rparr>)"
        "heap_ok V (?g (h1\<lparr>objs := s\<rparr>)) E (add_mset b L)"
      using n pl by (auto simp: set_list_def)
    let ?h2 = "h1\<lparr>objs := s\<rparr>"
    let ?shift = "\<lambda>i h. do { q \<leftarrow> list_read h b (i + n); list_write h b i q }"
    let ?P = "\<lambda>i t. \<exists>p. t = set_list ?h2 b (l\<lparr>l_p := p\<rparr>) \<and> length p = length (l_p l) \<and>
      (\<forall>k < length p. p ! k = (if first \<le> k \<and> k < i then l_p l ! (k + n) else l_p l ! k))"
    have "\<exists>t. for_range_opt first (?N - n) ?shift ?h2 = Some t \<and> ?P (?N - n) t"
    proof (rule for_range_opt_induct [where P = ?P])
      show "first \<le> ?N - n" using n by simp
      have "?h2 = set_list ?h2 b (l\<lparr>l_p := l_p l\<rparr>)" using c(3) by (simp add: set_list_def fun_upd_idem)
      then show "?P first ?h2" by (intro exI [of _ "l_p l"]) auto
      fix i t
      assume i: "first \<le> i" "i < ?N - n" and "?P i t"
      then obtain p where p: "t = set_list ?h2 b (l\<lparr>l_p := p\<rparr>)" "length p = length (l_p l)"
        "\<forall>k < length p. p ! k = (if first \<le> k \<and> k < i then l_p l ! (k + n) else l_p l ! k)" by blast
      have b: "i + n < length p" using i pl p(2) by simp
      have "p ! (i + n) = l_p l ! (i + n)" using p(3) b by simp
      then have "?shift i t = Some (set_list ?h2 b (l\<lparr>l_p := p[i := l_p l ! (i + n)]\<rparr>))"
        using p(1) b by (simp add: list_read_def list_write_def set_list_def)
      moreover have "\<forall>k < length p. p[i := l_p l ! (i + n)] ! k = (if first \<le> k \<and> k < Suc i then l_p l ! (k + n) else l_p l ! k)"
        using p(3) b i by (auto simp: nth_list_update less_Suc_eq)
      ultimately show "\<exists>t'. ?shift i t = Some t' \<and> ?P (Suc i) t'"
        using p(2) by (intro exI [of _ "set_list ?h2 b (l\<lparr>l_p := p[i := l_p l ! (i + n)]\<rparr>)"] conjI exI [of _ "p[i := l_p l ! (i + n)]"]) simp_all
    qed
    then obtain p where p: "for_range_opt first (?N - n) ?shift ?h2 = Some (set_list ?h2 b (l\<lparr>l_p := p\<rparr>))" "length p = length (l_p l)"
        "\<forall>k < length p. p ! k = (if first \<le> k \<and> k < ?N - n then l_p l ! (k + n) else l_p l ! k)" by blast
    have "p = take first (l_p l) @ tail @ drop (?N - n) (l_p l)"
    proof (rule nth_equalityI)
      show "length p = length (take first (l_p l) @ tail @ drop (?N - n) (l_p l))" using p(2) n pl by (simp add: tail_def)
      fix k assume k: "k < length p"
      have "tail ! (k - first) = l_p l ! (k + n)" if "first \<le> k" "k < ?N - n"
      proof -
        have "k + n < ?N" using that by linarith
        then have "ents h a ! (k + n) = l_p l ! (k + n)" using nth_take [of "k + n" ?N "l_p l"] lp by simp
        then show ?thesis using that n by (simp add: tail_def add.commute)
      qed
      moreover have lt: "length tail = ?N - n - first" "length (take first (l_p l)) = first" using n pl by (simp_all add: tail_def)
      moreover have "(take first (l_p l) @ tail @ drop (?N - n) (l_p l)) ! k = l_p l ! k" if "?N - n \<le> k"
      proof -
        have "length (take first (l_p l) @ tail) = ?N - n" using lt n by simp
        then have "((take first (l_p l) @ tail) @ drop (?N - n) (l_p l)) ! k = drop (?N - n) (l_p l) ! (k - (?N - n))"
          using that by (simp only: nth_append not_less [symmetric] if_False simp_thms)
        then show ?thesis using that k p(2) pl by simp
      qed
      ultimately show "p ! k = (take first (l_p l) @ tail @ drop (?N - n) (l_p l)) ! k"
        using p k by (cases "k < ?N - n") (auto simp: nth_append)
    qed
    then have res: "set_list (set_list ?h2 b (l\<lparr>l_p := p\<rparr>)) b (l\<lparr>l_p := p, l_n := ?N - n\<rparr>) = ?g ?h2" by (cases l) (simp add: set_list_def)
    have "isl_list_drop copy free h (Some a) first n = Some (?g ?h2, Some b)"
      using l0(1) chk n0 c(1,3) f(1) p(1) res ln by (simp add: isl_list_drop_def)
    moreover have "keeps L h (?g ?h2)" using c(6,7) by (auto simp: keeps_def ents_def)
    moreover have "ents (?g ?h2) b = take first (ents h a) @ tail" using eg by (simp add: ents_set_list)
    ultimately show ?thesis using f(2) unfolding tail_def by (intro givesI)
  qed
qed

lemma clear_run:
  assumes ok: "heap_ok V h E (add_mset a L)" and full: "None \<notin> set (ents h a)" and n: "length (ents h a) < 2 ^ 32"
  shows "gives V E L h (isl_list_clear copy free h (Some a)) []"
proof -
  obtain l where l: "lists h a = Some l" "list_ok l" "ents h a = entries l" using heap_ok_list [OF ok, of a] by (metis union_single_eq_member)
  show ?thesis
    using drop_run [OF ok full, of 0 "l_n l"] n l length_entries by (simp add: isl_list_clear_def)
qed

text \<open>Inserting, and lists made of others.\<close>

lemma add_room_ents:
  assumes ok: "heap_ok V h (add_mset e E) (add_mset b L)" and b: "lists h b = Some l" "l_ref l = 1" "l_n l < l_size l"
  shows "\<exists>h' l'. isl_list_add copy free h (Some b) (Some e) = Some (h', Some b) \<and>
    heap_ok V h' E (add_mset b L) \<and> lists h' = (lists h)(b \<mapsto> l') \<and> next_list h' = next_list h \<and>
    entries l' = entries l @ [Some e] \<and> l_ref l' = 1 \<and> l_size l' = l_size l \<and> l_n l' = l_n l + 1"
  using add_room_run [OF assms, of "Suc 0", folded add_is] .

lemma more_copies_run:
  assumes ok: "heap_ok V h E (add_mset b L)" and b: "lists h b = Some l" "l_ref l = 1" "l_n l + (hi - lo) \<le> l_size l"
    and a: "a \<in># L" "None \<notin> set (ents h a)" "lo \<le> hi" "hi \<le> length (ents h a)"
  shows "\<exists>h' l'. add_copies (isl_list_add copy free) copy a lo hi h (Some b) = Some (h', Some b) \<and>
    heap_ok V h' E (add_mset b L) \<and> lists h' = (lists h)(b \<mapsto> l') \<and> next_list h' = next_list h \<and>
    entries l' = entries l @ take (hi - lo) (drop lo (ents h a)) \<and> l_ref l' = 1 \<and> l_size l' = l_size l \<and> l_n l' = l_n l + (hi - lo)"
  using add_copies_run [OF assms, of "Suc 0", folded add_is] .

lemma from_run:
  assumes ok: "heap_ok V h (add_mset e E) L"
  shows "gives V E L h (isl_list_from copy free h (Some e)) [Some e]"
proof -
  let ?b = "next_list h"
  let ?e = "\<lparr>l_ref = 1, l_n = 0, l_size = 1, l_p = fresh (unset h) 1\<rparr>"
  obtain h1 where h1: "isl_list_alloc h 1 = (h1, Some ?b)" "heap_ok V h1 (add_mset e E) (add_mset ?b L)"
      "lists h1 = (lists h)(?b \<mapsto> ?e)" "next_list h1 = ?b + 1" "?b \<notin># L"
    using alloc_list_run [OF ok, of 1] by auto
  have e0: "entries ?e = []" by (simp add: entries_def)
  obtain h2 l' where h2: "isl_list_add copy free h1 (Some ?b) (Some e) = Some (h2, Some ?b)" "heap_ok V h2 E (add_mset ?b L)"
      "lists h2 = (lists h1)(?b \<mapsto> l')" "next_list h2 = next_list h1" "entries l' = [Some e]"
    using add_room_ents [OF h1(2), of ?e] h1(3) e0 by auto
  have "keeps L h h2" using h1(3,4,5) h2(3,4) by (auto simp: keeps_def ents_def)
  moreover have "isl_list_from copy free h (Some e) = Some (h2, Some ?b)" using h1(1) h2(1) by (simp add: isl_list_from_def)
  moreover have "ents h2 ?b = [Some e]" using h2(3,5) by (simp add: ents_def)
  ultimately show ?thesis using h2(2) by (intro givesI)
qed

lemma insert_fails:
  assumes ok: "heap_ok V h (add_mset e E) (add_mset a L)" and pos: "length (ents h a) < pos"
  shows "\<exists>h'. isl_list_insert copy free h (Some a) pos (Some e) = Some (h', None) \<and> heap_ok V h' E L \<and> keeps L h h'"
proof -
  obtain l where l: "lists h a = Some l" "list_ok l" "ents h a = entries l" using heap_ok_list [OF ok, of a] by (metis union_single_eq_member)
  then have "l_n l < pos" using pos length_entries by simp
  then show ?thesis using fail_free_run [OF ok] l(1) by (simp add: isl_list_insert_def)
qed

lemma down_loop_step:
  "(\<And>k t. k < n \<Longrightarrow> P (Suc k) t \<Longrightarrow> \<exists>t'. f (lo + k) t = Some t' \<and> P k t') \<Longrightarrow> P n s \<Longrightarrow>
   \<exists>t. down_loop n lo f s = Some t \<and> P 0 t"
proof (induction n arbitrary: s)
  case (Suc n)
  obtain t where "f (lo + n) s = Some t" "P n t" using Suc.prems by blast
  then show ?case using Suc.IH [of t] Suc.prems(1) by simp
qed simp

lemma insert_run:
  assumes ok: "heap_ok V h (add_mset e E) (add_mset a L)" and full: "None \<notin> set (ents h a)" and pos: "pos \<le> length (ents h a)"
  shows "gives V E L h (isl_list_insert copy free h (Some a) pos (Some e)) (take pos (ents h a) @ Some e # drop pos (ents h a))"
proof -
  obtain l where l: "lists h a = Some l" "list_ok l" "ents h a = entries l" using heap_ok_list [OF ok, of a] by (metis union_single_eq_member)
  note u = unshared_ref [OF ok l(1)]
  have ln: "l_n l = length (ents h a)" using l length_entries by simp
  show ?thesis
  proof (cases "l_ref l = 1 \<and> l_n l < l_size l")
    case True
    then have aL: "a \<notin># L" using u by blast
    have pl: "l_n l < length (l_p l)" using True l(2) by (simp add: list_ok_def)
    let ?shift = "\<lambda>i h. do { q \<leftarrow> list_read h a i; list_write h a (i + 1) q }"
    let ?P = "\<lambda>k t. \<exists>p. t = set_list h a (l\<lparr>l_p := p\<rparr>) \<and> length p = length (l_p l) \<and>
      (\<forall>i < length p. p ! i = (if pos + k < i \<and> i \<le> l_n l then l_p l ! (i - 1) else l_p l ! i))"
    have "\<exists>t. down_loop (l_n l - pos) pos ?shift h = Some t \<and> ?P 0 t"
    proof (rule down_loop_step [where P = ?P])
      have "h = set_list h a (l\<lparr>l_p := l_p l\<rparr>)" using l(1) by (simp add: set_list_def fun_upd_idem)
      then show "?P (l_n l - pos) h" using pos ln by (intro exI [of _ "l_p l"]) auto
      fix k t
      assume k: "k < l_n l - pos" and "?P (Suc k) t"
      then obtain p where p: "t = set_list h a (l\<lparr>l_p := p\<rparr>)" "length p = length (l_p l)"
        "\<forall>i < length p. p ! i = (if pos + Suc k < i \<and> i \<le> l_n l then l_p l ! (i - 1) else l_p l ! i)" by blast
      have b: "pos + k + 1 < length p" using k pl p(2) by linarith
      then have "p ! (pos + k) = l_p l ! (pos + k)" using p(3) by simp
      then have "?shift (pos + k) t = Some (set_list h a (l\<lparr>l_p := p[pos + k + 1 := l_p l ! (pos + k)]\<rparr>))"
        using p(1) b by (simp add: list_read_def list_write_def set_list_def)
      moreover have "\<forall>i < length p. p[pos + k + 1 := l_p l ! (pos + k)] ! i =
          (if pos + k < i \<and> i \<le> l_n l then l_p l ! (i - 1) else l_p l ! i)"
      proof (intro allI impI)
        fix i assume i: "i < length p"
        show "p[pos + k + 1 := l_p l ! (pos + k)] ! i = (if pos + k < i \<and> i \<le> l_n l then l_p l ! (i - 1) else l_p l ! i)"
          using p(3) i b k by (cases "i = pos + k + 1") auto
      qed
      ultimately show "\<exists>t'. ?shift (pos + k) t = Some t' \<and> ?P k t'"
        using p(2) by (intro exI [of _ "set_list h a (l\<lparr>l_p := p[pos + k + 1 := l_p l ! (pos + k)]\<rparr>)"] conjI
            exI [of _ "p[pos + k + 1 := l_p l ! (pos + k)]"]) simp_all
    qed
    then obtain p where p: "down_loop (l_n l - pos) pos ?shift h = Some (set_list h a (l\<lparr>l_p := p\<rparr>))" "length p = length (l_p l)"
        "\<forall>i < length p. p ! i = (if pos < i \<and> i \<le> l_n l then l_p l ! (i - 1) else l_p l ! i)" by auto
    let ?l = "l\<lparr>l_p := p[pos := Some e], l_n := l_n l + 1\<rparr>"
    have el: "entries ?l = take pos (ents h a) @ Some e # drop pos (ents h a)"
    proof (rule nth_equalityI)
      show "length (entries ?l) = length (take pos (ents h a) @ Some e # drop pos (ents h a))"
        using p(2) pl pos ln by (simp add: entries_def)
      fix i assume "i < length (entries ?l)"
      then have i: "i \<le> l_n l" using p(2) pl by (simp add: entries_def)
      have en: "ents h a ! k = l_p l ! k" if "k < l_n l" for k using that l(3) entries_nth [OF l(2)] by simp
      consider "i < pos" | "i = pos" | "pos < i" by linarith
      then show "entries ?l ! i = (take pos (ents h a) @ Some e # drop pos (ents h a)) ! i"
      proof cases
        case 1
        then show ?thesis using i p(2,3) pl pos ln en by (simp add: entries_def nth_append)
      next
        case 2
        then show ?thesis using i p(2) pl pos ln by (simp add: entries_def nth_append)
      next
        case 3
        then have "(take pos (ents h a) @ Some e # drop pos (ents h a)) ! i = ents h a ! (i - 1)"
          using i ln pos by (simp add: nth_append nth_Cons')
        then show ?thesis using 3 i p(2,3) pl en [of "i - 1"] by (simp add: entries_def)
      qed
    qed
    have "heap_ok V (set_list h a ?l) E (add_mset a L)"
    proof (rule heap_ok_set [OF ok l(1)])
      have "somes (ents h a) = somes (take pos (ents h a) @ drop pos (ents h a))" by (simp del: somes_simps)
      then have "somes (ents h a) = somes (take pos (ents h a)) + somes (drop pos (ents h a))" by (simp only: somes_simps)
      then show "E + somes (entries ?l) = add_mset e E + somes (entries l)" unfolding el l(3) by simp
    qed (use u True p(2) pl l(2) in \<open>auto simp: list_ok_def\<close>)
    moreover have "isl_list_insert copy free h (Some a) pos (Some e) = Some (set_list h a ?l, Some a)"
    proof -
      let ?h = "set_list h a (l\<lparr>l_p := p\<rparr>)"
      have "list_write (set_list ?h a (l\<lparr>l_p := p, l_n := l_n l + 1\<rparr>)) a pos (Some e) = Some (set_list h a ?l)"
        using p(2) pl pos ln by (cases l) (simp add: list_write_def set_list_def)
      then show ?thesis using l(1) True p(1) pos ln by (simp add: isl_list_insert_def for_down_opt_def)
    qed
    ultimately show ?thesis using el aL by (intro givesI [of _ "set_list h a ?l" a]) (simp_all add: keeps_other ents_set_list)
  next
    case False
    let ?b = "next_list h"
    have am: "a \<in># add_mset a L" by simp
    obtain h1 h2 l2 where h2: "isl_list_alloc h (int (l_n l + 1)) = (h1, Some ?b)"
      "add_copies (isl_list_add copy free) copy a 0 pos h1 (Some ?b) = Some (h2, Some ?b)"
      "heap_ok V h2 (add_mset e E) (add_mset ?b (add_mset a L))" "lists h2 = (lists h)(?b \<mapsto> l2)" "next_list h2 = ?b + 1"
      "entries l2 = take pos (ents h a)" "l_ref l2 = 1" "l_size l2 = l_n l + 1" "l_n l2 = pos" "?b \<notin># add_mset a L"
      using fresh_copies_run [OF ok am full, of 0 pos "l_n l + 1"] pos ln by auto
    have lk2: "lists h2 ?b = Some l2" "l_n l2 < l_size l2" using h2(4,8,9) pos ln by simp_all
    obtain h3 l3 where h3: "isl_list_add copy free h2 (Some ?b) (Some e) = Some (h3, Some ?b)" "heap_ok V h3 E (add_mset ?b (add_mset a L))"
      "lists h3 = (lists h2)(?b \<mapsto> l3)" "next_list h3 = next_list h2" "entries l3 = take pos (ents h a) @ [Some e]" "l_ref l3 = 1"
      "l_size l3 = l_n l + 1" "l_n l3 = pos + 1"
      using add_room_ents [OF h2(3) lk2(1) h2(7) lk2(2)] h2(6,8,9) by auto
    have ba: "?b \<noteq> a" using h2(10) by auto
    have e3: "ents h3 a = ents h a" using h2(4) h3(3) ba by (simp add: ents_def)
    have pre: "lists h3 ?b = Some l3" "l_ref l3 = 1" "l_n l3 + (l_n l - pos) \<le> l_size l3" "None \<notin> set (ents h3 a)" "pos \<le> l_n l"
        "l_n l \<le> length (ents h3 a)"
      using h3(3,6,7,8) pos ln full e3 by simp_all
    obtain h4 l4 where h4: "add_copies (isl_list_add copy free) copy a pos (l_n l) h3 (Some ?b) = Some (h4, Some ?b)"
      "heap_ok V h4 E (add_mset ?b (add_mset a L))" "lists h4 = (lists h3)(?b \<mapsto> l4)" "next_list h4 = next_list h3"
      "entries l4 = take pos (ents h a) @ Some e # drop pos (ents h a)"
      using more_copies_run [OF h3(2) pre(1-3) am pre(4-6)] e3 h3(5) ln by auto
    have "heap_ok V h4 E (add_mset a (add_mset ?b L))" using h4(2) by (simp add: add_mset_commute)
    from list_free_run [OF this] obtain h5 where h5: "isl_list_free free h4 (Some a) = Some (h5, None)" "heap_ok V h5 E (add_mset ?b L)"
      "keeps (add_mset ?b L) h4 h5" by blast
    have "isl_list_insert copy free h (Some a) pos (Some e) = Some (h5, Some ?b)"
      using l(1) False pos ln h2(1,2) h3(1) h4(1) h5(1) by (auto simp: isl_list_insert_def)
    moreover have "keeps L h h4" using h2(4,5,10) h3(3,4) h4(3,4) by (auto simp: keeps_def ents_def)
    then have "keeps L h h5" using keeps_sub [OF h5(3), of L] keeps_trans by auto
    moreover have "ents h5 ?b = take pos (ents h a) @ Some e # drop pos (ents h a)" using h5(3) h4(3,5) by (simp add: keeps_def ents_def)
    ultimately show ?thesis using h5(2) by (intro givesI)
  qed
qed

lemma concat_run:
  assumes ok: "heap_ok V h E (add_mset a1 (add_mset a2 L))" and full: "None \<notin> set (ents h a1)" "None \<notin> set (ents h a2)"
  shows "gives V E L h (isl_list_concat copy free h (Some a1) (Some a2)) (ents h a1 @ ents h a2)"
proof -
  obtain l1 where l1: "lists h a1 = Some l1" "list_ok l1" "ents h a1 = entries l1" using heap_ok_list [OF ok, of a1] by (metis union_single_eq_member)
  have a2: "a2 \<in># add_mset a1 (add_mset a2 L)" "a2 \<in># add_mset a2 L" by simp_all
  obtain l2 where l2: "lists h a2 = Some l2" "list_ok l2" "ents h a2 = entries l2" using heap_ok_list [OF ok a2(1)] by metis
  have n1: "l_n l1 = length (ents h a1)" and n2: "l_n l2 = length (ents h a2)" using l1 l2 length_entries by simp_all
  show ?thesis
  proof (cases "l_ref l1 = 1 \<and> l_n l1 + l_n l2 \<le> l_size l1")
    case True
    then have aL: "a1 \<notin># add_mset a2 L" using unshared_ref(1) [OF ok l1(1)] by blast
    obtain h1 l' where h1: "add_copies (isl_list_add copy free) copy a2 0 (l_n l2) h (Some a1) = Some (h1, Some a1)"
      "heap_ok V h1 E (add_mset a1 (add_mset a2 L))" "lists h1 = (lists h)(a1 \<mapsto> l')" "next_list h1 = next_list h"
      "entries l' = ents h a1 @ ents h a2"
      using more_copies_run [OF ok l1(1), of "l_n l2" 0 a2] True a2 full n2 l1(3) by auto
    have "heap_ok V h1 E (add_mset a2 (add_mset a1 L))" using h1(2) by (simp add: add_mset_commute)
    from list_free_run [OF this] obtain h2 where h2: "isl_list_free free h1 (Some a2) = Some (h2, None)" "heap_ok V h2 E (add_mset a1 L)"
      "keeps (add_mset a1 L) h1 h2" by blast
    have "isl_list_concat copy free h (Some a1) (Some a2) = Some (h2, Some a1)"
      using True l1(1) l2(1) h1(1) h2(1) by (auto simp: isl_list_concat_def isl_list_concat_inplace_def)
    moreover have "keeps L h h1" using aL h1(3,4) by (auto simp: keeps_def ents_def)
    then have "keeps L h h2" using keeps_sub [OF h2(3), of L] keeps_trans by auto
    moreover have "ents h2 a1 = ents h a1 @ ents h a2" using h2(3) h1(3,5) by (simp add: keeps_def ents_def)
    ultimately show ?thesis using h2(2) by (intro givesI)
  next
    case False
    let ?b = "next_list h"
    have am: "a1 \<in># add_mset a1 (add_mset a2 L)" by simp
    obtain h1 h2 m where h2: "isl_list_alloc h (int (l_n l1 + l_n l2)) = (h1, Some ?b)"
      "add_copies (isl_list_add copy free) copy a1 0 (l_n l1) h1 (Some ?b) = Some (h2, Some ?b)"
      "heap_ok V h2 E (add_mset ?b (add_mset a1 (add_mset a2 L)))" "lists h2 = (lists h)(?b \<mapsto> m)" "next_list h2 = ?b + 1"
      "entries m = ents h a1" "l_ref m = 1" "l_size m = l_n l1 + l_n l2" "l_n m = l_n l1" "?b \<notin># add_mset a1 (add_mset a2 L)"
      using fresh_copies_run [OF ok am full(1), of 0 "l_n l1" "l_n l1 + l_n l2"] n1 by auto
    have ba: "?b \<noteq> a1" "?b \<noteq> a2" using h2(10) by auto
    have e2: "ents h2 a2 = ents h a2" using h2(4) ba by (simp add: ents_def)
    have pre: "lists h2 ?b = Some m" "l_n m + (l_n l2 - 0) \<le> l_size m" "None \<notin> set (ents h2 a2)" "0 \<le> l_n l2" "l_n l2 \<le> length (ents h2 a2)"
      using h2(4,8,9) n2 full(2) e2 by simp_all
    obtain h3 m' where h3: "add_copies (isl_list_add copy free) copy a2 0 (l_n l2) h2 (Some ?b) = Some (h3, Some ?b)"
      "heap_ok V h3 E (add_mset ?b (add_mset a1 (add_mset a2 L)))" "lists h3 = (lists h2)(?b \<mapsto> m')" "next_list h3 = next_list h2"
      "entries m' = ents h a1 @ ents h a2"
      using more_copies_run [OF h2(3) pre(1) h2(7) pre(2) a2(1) pre(3-5)] e2 h2(6) n2 by auto
    have "heap_ok V h3 E (add_mset a1 (add_mset a2 (add_mset ?b L)))" using h3(2) by (simp add: add_mset_commute)
    from list_free_run [OF this] obtain h4 where h4: "isl_list_free free h3 (Some a1) = Some (h4, None)"
      "heap_ok V h4 E (add_mset a2 (add_mset ?b L))" "keeps (add_mset a2 (add_mset ?b L)) h3 h4" by blast
    from list_free_run [OF h4(2)] obtain h5 where h5: "isl_list_free free h4 (Some a2) = Some (h5, None)"
      "heap_ok V h5 E (add_mset ?b L)" "keeps (add_mset ?b L) h4 h5" by blast
    have run: "isl_list_concat copy free h (Some a1) (Some a2) = Some (h5, Some ?b)"
      using False l1(1) l2(1) h2(1,2) h3(1) h4(1) h5(1) by (auto simp: isl_list_concat_def)
    have "keeps L h h3" using h2(4,5,10) h3(3,4) by (auto simp: keeps_def ents_def)
    moreover have "keeps L h3 h4" "keeps L h4 h5" using keeps_sub [OF h4(3), of L] keeps_sub [OF h5(3), of L] by auto
    ultimately have "keeps L h h5" using keeps_trans by blast
    moreover have "ents h5 ?b = ents h a1 @ ents h a2" using h4(3) h5(3) h3(3,5) by (simp add: keeps_def ents_def)
    ultimately show ?thesis using run h5(2) by (intro givesI)
  qed
qed

text \<open>Sorting: with a buffer the entries are sorted, stably; without one the list is released.\<close>

lemma sorts_cong_set:
  assumes c: "comparator cmp" and m: "mset ys = mset xs" and fg: "\<And>x. x \<in> set xs \<Longrightarrow> f x = g x"
    and s: "sorts (\<lambda>p q. cmp (f p) (f q)) xs ys"
  shows "sorts (\<lambda>p q. cmp (g p) (g q)) xs ys"
proof -
  have set: "set ys = set xs" using m by (metis set_mset_mset)
  have "sorted_wrt (\<lambda>p q. cmp (f p) (f q) \<le> 0) ys" using s by (simp add: sorts_def ascending_def)
  then have "sorted_wrt (\<lambda>p q. cmp (g p) (g q) \<le> 0) ys"
    by (rule sorted_wrt_mono_rel [rotated]) (use fg set in simp)
  moreover have "filter (\<lambda>y. cmp v (g y) = 0) ys = filter (\<lambda>y. cmp v (g y) = 0) xs" for v
  proof (cases "\<exists>y \<in> set xs. cmp v (g y) = 0")
    case True
    then obtain y where y: "y \<in> set xs" "cmp v (g y) = 0" by blast
    have "cmp v (g z) = 0 \<longleftrightarrow> cmp (f y) (f z) = 0" if "z \<in> set xs" for z
    proof -
      have "f y = g y" "f z = g z" using fg y that by simp_all
      moreover have "cmp v (g y) \<le> 0" "cmp (g y) v \<le> 0" using y comparatorD(3) [OF c] by blast+
      ultimately show ?thesis using comparatorD(3) [OF c] comparatorD(2) [OF c] by metis
    qed
    then have "filter (\<lambda>z. cmp v (g z) = 0) zs = filter (\<lambda>z. cmp (f y) (f z) = 0) zs" if "set zs = set xs" for zs
      using that by (intro filter_cong) auto
    then show ?thesis using s set by (simp add: sorts_def)
  next
    case False
    then show ?thesis using set by (simp add: filter_empty_conv [THEN iffD2])
  qed
  ultimately show ?thesis using m by (simp add: sorts_def ascending_def)
qed

lemma comparator_image: "comparator cmp \<Longrightarrow> comparator (\<lambda>x y. cmp (f x) (f y))"
  unfolding comparator_def by blast

lemma mset_somes: "mset qs = mset qs' \<Longrightarrow> somes qs = somes qs'"
  by (simp add: somes_def)

lemma sort_run:
  assumes ok: "heap_ok V h E (add_mset a L)" and full: "None \<notin> set (ents h a)" and cmp: "comparator cmp"
    and mem: "length (ents h a) < 2 \<or> malloc \<noteq> None"
  shows "\<exists>qs. gives V E L h (isl_list_sort copy free malloc h (Some a) cmp) qs \<and>
    sorts (\<lambda>p q. cmp (map_option V p) (map_option V q)) (ents h a) qs"
proof -
  obtain l0 where l0: "lists h a = Some l0" "list_ok l0" "ents h a = entries l0" using heap_ok_list [OF ok, of a] by (metis union_single_eq_member)
  have n0: "l_n l0 = length (ents h a)" using l0 length_entries by simp
  show ?thesis
  proof (cases "l_n l0 \<le> 1")
    case True
    then have "gives V E L h (isl_list_sort copy free malloc h (Some a) cmp) (ents h a)"
      using ok l0 by (intro givesI [of _ h a]) (simp_all add: isl_list_sort_def)
    moreover have "sorts (\<lambda>p q. cmp (map_option V p) (map_option V q)) (ents h a) (ents h a)" using True n0 by (intro sorts_single) simp
    ultimately show ?thesis by blast
  next
    case False
    obtain h1 b l where c: "isl_list_cow copy free h (Some a) = Some (h1, Some b)" "heap_ok V h1 E (add_mset b L)"
      "lists h1 b = Some l" "l_ref l = 1" "entries l = ents h a" "keeps L h h1" "b \<notin># L"
      using cow_run [OF ok] full by blast
    note u = unshared_ref [OF c(2,3)]
    have ln: "l_n l = length (ents h a)" using length_entries [OF u(2)] c(5) by simp
    let ?cmp = "\<lambda>q1 q2. cmp (el_value h1 q1) (el_value h1 q2)"
    obtain p where p: "isl_sort malloc (ents h a) (length (ents h a)) ?cmp = (0, p)" "sorts ?cmp (ents h a) p"
      using isl_sort_run [OF comparator_image [OF cmp, of "el_value h1"] mem] by blast
    have mp: "mset p = mset (ents h a)" using p(2) by (simp add: sorts_def)
    let ?l = "l\<lparr>l_p := p @ drop (l_n l) (l_p l)\<rparr>"
    have lenp: "length p = l_n l" using mp ln by (metis size_mset)
    have el: "entries ?l = p" using lenp by (simp add: entries_def)
    have ok2: "heap_ok V (set_list h1 b ?l) E (add_mset b L)"
    proof (rule heap_ok_set [OF c(2,3)])
      show "E + somes (entries ?l) = E + somes (entries l)" unfolding el c(5) using mset_somes [OF mp] by simp
    qed (use u c(4) lenp in \<open>auto simp: list_ok_def\<close>)
    have "isl_list_sort copy free malloc h (Some a) cmp = Some (set_list h1 b ?l, Some b)"
      using l0(1) False c(1,3) p(1) ln c(5) [unfolded entries_def] by (simp add: isl_list_sort_def)
    moreover have "keeps L h (set_list h1 b ?l)" using c(6) keeps_other [OF c(7), of h1 ?l] by (rule keeps_trans)
    ultimately have "gives V E L h (isl_list_sort copy free malloc h (Some a) cmp) p"
      using ok2 el by (intro givesI [of _ "set_list h1 b ?l" b]) (simp_all add: ents_set_list)
    moreover have "sorts (\<lambda>p q. cmp (map_option V p) (map_option V q)) (ents h a) p"
    proof -
      have "el_value h1 q = map_option V q" if "q \<in> set (ents h a)" for q
      proof (cases q)
        case (Some e)
        have "b \<in># add_mset b L" "Some e \<in> set (ents h1 b)" using that Some u(4) c(5) by simp_all
        from heap_ok_element [OF c(2) list_entry_owned [OF c(2) this]] obtain r where "cells (objs h1) e = Some (r, V e)" by blast
        then show ?thesis using Some by (simp add: el_value_def)
      qed (simp add: el_value_def)
      then show ?thesis using p(2) sorts_cong_set [OF cmp mp] by blast
    qed
    ultimately show ?thesis by blast
  qed
qed

lemma sort_fails:
  assumes ok: "heap_ok V h E (add_mset a L)" and full: "None \<notin> set (ents h a)" and n: "2 \<le> length (ents h a)"
  shows "\<exists>h'. isl_list_sort copy free None h (Some a) cmp = Some (h', None) \<and> heap_ok V h' E L \<and> keeps L h h'"
proof -
  obtain l0 where l0: "lists h a = Some l0" "list_ok l0" "ents h a = entries l0" using heap_ok_list [OF ok, of a] by (metis union_single_eq_member)
  have n0: "\<not> l_n l0 \<le> 1" using l0 length_entries n by simp
  obtain h1 b l where c: "isl_list_cow copy free h (Some a) = Some (h1, Some b)" "heap_ok V h1 E (add_mset b L)"
    "lists h1 b = Some l" "l_ref l = 1" "entries l = ents h a" "keeps L h h1" "b \<notin># L"
    using cow_run [OF ok] full by blast
  note u = unshared_ref [OF c(2,3)]
  have ln: "2 \<le> l_n l" using length_entries [OF u(2)] c(5) n by simp
  have "set_list h1 b (l\<lparr>l_p := take (l_n l) (l_p l) @ drop (l_n l) (l_p l)\<rparr>) = h1" using c(3) by (simp add: set_list_def fun_upd_idem)
  then have "isl_list_sort copy free None h (Some a) cmp = isl_list_free free h1 (Some b)"
    using l0(1) n0 c(1,3) ln by (simp add: isl_list_sort_def isl_sort_def MergeSort_def Let_def)
  then show ?thesis using list_free_run [OF c(2)] c(6) keeps_trans by metis
qed

end

end
