(* ===== verification/List_Prog.thy ===== *)
theory List_Prog imports List_Ops begin

text \<open>
  Programs that use lists: in variables they hold references to elements and to lists, and call the
  functions of theory Isl_List on them.  They behave like programs on values: a variable holds
  an element's value, or the list of the values of the elements.
\<close>

subsection \<open>Programs\<close>

datatype 'a list_cmd =
    NewEl nat 'a | CopyEl nat nat | FreeEl nat
  | AllocList nat nat | FromEl nat nat | CopyList nat nat | FreeList nat
  | AddEl nat nat | InsertEl nat nat nat | DropEls nat nat nat | ClearList nat
  | GetEl nat nat nat | SetEl nat nat nat | ConcatLists nat nat
  | SwapEls nat nat nat | ReverseList nat | SortList nat "nat option junk option" "'a option \<Rightarrow> 'a option \<Rightarrow> int"

type_synonym env = "nat \<Rightarrow> nat option"

text \<open>The variables of a list function: the list argument is \<open>x\<close> and takes the result.\<close>

definition assign :: "env \<Rightarrow> nat \<Rightarrow> env \<Rightarrow> 'a list_result \<Rightarrow> ('a heap \<times> env \<times> env) option" where
  "assign e x l r = map_option (\<lambda>(h, p). (h, e, l(x := p))) r"

fun list_exec :: "'a ptr_op \<Rightarrow> 'a ptr_op \<Rightarrow> 'a list_cmd \<Rightarrow> 'a heap \<times> env \<times> env \<Rightarrow> ('a heap \<times> env \<times> env) option" where
  "list_exec copy free (NewEl y v) (h, e, l) = (let (s, a) = new_obj (objs h) v in Some (h\<lparr>objs := s\<rparr>, e(y \<mapsto> a), l))"
| "list_exec copy free (CopyEl z y) (h, e, l) = map_option (\<lambda>(h, p). (h, e(z := p), l)) (el_op copy h (e y))"
| "list_exec copy free (FreeEl y) (h, e, l) = map_option (\<lambda>(h, p). (h, e(y := p), l)) (el_op free h (e y))"
| "list_exec copy free (AllocList x n) (h, e, l) = assign e x l (Some (isl_list_alloc h (int n)))"
| "list_exec copy free (FromEl x y) (h, e, l) = assign (e(y := None)) x l (isl_list_from copy free h (e y))"
| "list_exec copy free (CopyList z x) (h, e, l) = assign e z l (isl_list_copy h (l x))"
| "list_exec copy free (FreeList x) (h, e, l) = assign e x l (isl_list_free free h (l x))"
| "list_exec copy free (AddEl x y) (h, e, l) = assign (e(y := None)) x l (isl_list_add copy free h (l x) (e y))"
| "list_exec copy free (InsertEl x i y) (h, e, l) = assign (e(y := None)) x l (isl_list_insert copy free h (l x) i (e y))"
| "list_exec copy free (DropEls x i n) (h, e, l) = assign e x l (isl_list_drop copy free h (l x) i n)"
| "list_exec copy free (ClearList x) (h, e, l) = assign e x l (isl_list_clear copy free h (l x))"
| "list_exec copy free (GetEl y x i) (h, e, l) = map_option (\<lambda>(h, p). (h, e(y := p), l)) (isl_list_get_at copy h (l x) (int i))"
| "list_exec copy free (SetEl x i y) (h, e, l) = assign (e(y := None)) x l (isl_list_set_at copy free h (l x) (int i) (e y))"
| "list_exec copy free (ConcatLists x z) (h, e, l) = assign e x (l(z := None)) (isl_list_concat copy free h (l x) (l z))"
| "list_exec copy free (SwapEls x i j) (h, e, l) = assign e x l (isl_list_swap copy free h (l x) i j)"
| "list_exec copy free (ReverseList x) (h, e, l) = assign e x l (isl_list_reverse copy free h (l x))"
| "list_exec copy free (SortList x malloc cmp) (h, e, l) = assign e x l (isl_list_sort copy free malloc h (l x) cmp)"

fun list_exec_all :: "'a ptr_op \<Rightarrow> 'a ptr_op \<Rightarrow> 'a list_cmd list \<Rightarrow> 'a heap \<times> env \<times> env \<Rightarrow> ('a heap \<times> env \<times> env) option" where
  "list_exec_all copy free [] st = Some st"
| "list_exec_all copy free (c # cs) st = Option.bind (list_exec copy free c st) (list_exec_all copy free cs)"

subsection \<open>The same programs on values\<close>

definition stable_sort :: "('a \<Rightarrow> 'a \<Rightarrow> int) \<Rightarrow> 'a list \<Rightarrow> 'a list" where
  "stable_sort cmp xs = foldr (\<lambda>x ys. merged cmp [x] ys) xs []"

type_synonym 'a var_values = "(nat \<Rightarrow> 'a option) \<times> (nat \<Rightarrow> 'a list option)"

text \<open>The values of the two variables that are given are used up; no result is \<open>NULL\<close>.\<close>

fun list_value :: "'a list_cmd \<Rightarrow> 'a var_values \<Rightarrow> 'a var_values" where
  "list_value (NewEl y v) (A, B) = (A(y \<mapsto> v), B)"
| "list_value (CopyEl z y) (A, B) = (A(z := A y), B)"
| "list_value (FreeEl y) (A, B) = (A(y := None), B)"
| "list_value (AllocList x n) (A, B) = (A, B(x \<mapsto> []))"
| "list_value (FromEl x y) (A, B) = (A(y := None), B(x \<mapsto> [the (A y)]))"
| "list_value (CopyList z x) (A, B) = (A, B(z := B x))"
| "list_value (FreeList x) (A, B) = (A, B(x := None))"
| "list_value (AddEl x y) (A, B) = (A(y := None), B(x \<mapsto> the (B x) @ [the (A y)]))"
| "list_value (InsertEl x i y) (A, B) = (A(y := None),
     B(x := if i \<le> length (the (B x)) then Some (take i (the (B x)) @ the (A y) # drop i (the (B x))) else None))"
| "list_value (DropEls x i n) (A, B) = (A,
     B(x := if i + n \<le> length (the (B x)) then Some (take i (the (B x)) @ drop (i + n) (the (B x))) else None))"
| "list_value (ClearList x) (A, B) = (A, B(x \<mapsto> []))"
| "list_value (GetEl y x i) (A, B) = (A(y := if i < length (the (B x)) then Some (the (B x) ! i) else None), B)"
| "list_value (SetEl x i y) (A, B) = (A(y := None),
     B(x := if i < length (the (B x)) then Some ((the (B x))[i := the (A y)]) else None))"
| "list_value (ConcatLists x z) (A, B) = (A, B(z := None, x \<mapsto> the (B x) @ the (B z)))"
| "list_value (SwapEls x i j) (A, B) = (A, B(x \<mapsto> (the (B x))[i := the (B x) ! j, j := the (B x) ! i]))"
| "list_value (ReverseList x) (A, B) = (A, B(x \<mapsto> rev (the (B x))))"
| "list_value (SortList x malloc cmp) (A, B) = (A,
     B(x := if length (the (B x)) < 2 \<or> malloc \<noteq> None then Some (stable_sort (\<lambda>a b. cmp (Some a) (Some b)) (the (B x))) else None))"

fun list_value_all :: "'a list_cmd list \<Rightarrow> 'a var_values \<Rightarrow> 'a var_values" where
  "list_value_all [] AB = AB"
| "list_value_all (c # cs) AB = list_value_all cs (list_value c AB)"

text \<open>A variable that is read holds a value, one that is assigned to for the first time holds none;
  positions are unsigned, those of a swap in range, and a comparison is a total preorder.\<close>

fun list_sensible :: "'a list_cmd \<Rightarrow> 'a var_values \<Rightarrow> bool" where
  "list_sensible (NewEl y v) (A, B) = (A y = None)"
| "list_sensible (CopyEl z y) (A, B) = (A z = None \<and> A y \<noteq> None)"
| "list_sensible (FreeEl y) (A, B) = (A y \<noteq> None)"
| "list_sensible (AllocList x n) (A, B) = (B x = None)"
| "list_sensible (FromEl x y) (A, B) = (B x = None \<and> A y \<noteq> None)"
| "list_sensible (CopyList z x) (A, B) = (B z = None \<and> B x \<noteq> None)"
| "list_sensible (FreeList x) (A, B) = (B x \<noteq> None)"
| "list_sensible (AddEl x y) (A, B) = (B x \<noteq> None \<and> A y \<noteq> None)"
| "list_sensible (InsertEl x i y) (A, B) = (B x \<noteq> None \<and> A y \<noteq> None)"
| "list_sensible (DropEls x i n) (A, B) = (B x \<noteq> None \<and> i < 2 ^ 32 \<and> n < 2 ^ 32 \<and> length (the (B x)) < 2 ^ 31)"
| "list_sensible (ClearList x) (A, B) = (B x \<noteq> None \<and> length (the (B x)) < 2 ^ 31)"
| "list_sensible (GetEl y x i) (A, B) = (A y = None \<and> B x \<noteq> None)"
| "list_sensible (SetEl x i y) (A, B) = (B x \<noteq> None \<and> A y \<noteq> None)"
| "list_sensible (ConcatLists x z) (A, B) = (x \<noteq> z \<and> B x \<noteq> None \<and> B z \<noteq> None)"
| "list_sensible (SwapEls x i j) (A, B) = (B x \<noteq> None \<and> i < length (the (B x)) \<and> j < length (the (B x)))"
| "list_sensible (ReverseList x) (A, B) = (B x \<noteq> None)"
| "list_sensible (SortList x malloc cmp) (A, B) = (B x \<noteq> None \<and> comparator cmp)"

fun list_sensible_all :: "'a list_cmd list \<Rightarrow> 'a var_values \<Rightarrow> bool" where
  "list_sensible_all [] AB = True"
| "list_sensible_all (c # cs) AB = (list_sensible c AB \<and> list_sensible_all cs (list_value c AB))"

subsection \<open>Stable sorting has one result\<close>

lemma stable_sort_sorts: "comparator cmp \<Longrightarrow> sorts cmp xs (stable_sort cmp xs)"
proof (induction xs)
  case Nil
  then show ?case by (simp add: stable_sort_def sorts_def ascending_def)
next
  case (Cons x xs)
  have "sorts cmp ([x] @ xs) (merged cmp [x] (stable_sort cmp xs))"
    by (rule sorts_merged [OF Cons.prems sorts_single Cons.IH [OF Cons.prems]]) simp
  then show ?case by (simp add: stable_sort_def)
qed

lemma ascending_unique:
  assumes c: "comparator cmp"
  shows "ascending cmp ys \<Longrightarrow> ascending cmp zs \<Longrightarrow> mset ys = mset zs \<Longrightarrow>
    \<forall>x. filter (\<lambda>y. cmp x y = 0) ys = filter (\<lambda>y. cmp x y = 0) zs \<Longrightarrow> ys = zs"
proof (induction ys arbitrary: zs)
  case (Cons y ys)
  then obtain z zs' where z: "zs = z # zs'" by (cases zs) auto
  have refl: "cmp a a = 0" for a using comparatorD(1,3) [OF c, of a a] by auto
  have set: "set (y # ys) = set (z # zs')" using Cons.prems(3) z by (metis set_mset_mset)
  have "cmp y z \<le> 0"
    using set Cons.prems(1) refl [of y] unfolding ascending_def by (metis list.set_intros(1) order_refl set_ConsD sorted_wrt.simps(2))
  moreover have "cmp z y \<le> 0"
    using set Cons.prems(2) refl [of z] z unfolding ascending_def by (metis list.set_intros(1) order_refl set_ConsD sorted_wrt.simps(2))
  ultimately have yz: "cmp y z = 0" using comparatorD(3) [OF c] by blast
  have "filter (\<lambda>w. cmp y w = 0) (y # ys) = filter (\<lambda>w. cmp y w = 0) (z # zs')" using Cons.prems(4) z by blast
  then have eq: "y = z" using yz refl by simp
  have "filter (\<lambda>w. cmp x w = 0) ys = filter (\<lambda>w. cmp x w = 0) zs'" for x
  proof -
    have "filter (\<lambda>w. cmp x w = 0) (y # ys) = filter (\<lambda>w. cmp x w = 0) (y # zs')" using Cons.prems(4) z eq by blast
    then show ?thesis by (cases "cmp x y = 0") simp_all
  qed
  then have "ys = zs'" using Cons.prems(1-3) z eq by (intro Cons.IH) (simp_all add: ascending_def)
  then show ?case using z eq by simp
qed simp

lemma sorts_unique: "comparator cmp \<Longrightarrow> sorts cmp xs ys \<Longrightarrow> sorts cmp xs zs \<Longrightarrow> ys = zs"
  unfolding sorts_def by (metis ascending_unique)

lemma sorts_map:
  assumes c: "comparator cmp" and s: "sorts (\<lambda>p q. cmp (f p) (f q)) xs ys"
  shows "sorts cmp (map f xs) (map f ys)"
proof -
  have set: "set ys = set xs" using s unfolding sorts_def by (metis set_mset_mset)
  have "filter (\<lambda>y. cmp v y = 0) (map f ys) = filter (\<lambda>y. cmp v y = 0) (map f xs)" for v
  proof (cases "\<exists>x \<in> set xs. cmp v (f x) = 0")
    case True
    then obtain x where x: "x \<in> set xs" "cmp v (f x) = 0" by blast
    then have le: "cmp v (f x) \<le> 0" "cmp (f x) v \<le> 0" using comparatorD(3) [OF c] by blast+
    have "cmp v (f z) = 0 \<longleftrightarrow> cmp (f x) (f z) = 0" for z
      using le comparatorD(3) [OF c] comparatorD(2) [OF c] by metis
    then have "filter (\<lambda>z. cmp v (f z) = 0) zs = filter (\<lambda>z. cmp (f x) (f z) = 0) zs" for zs by simp
    then have "filter (\<lambda>z. cmp v (f z) = 0) ys = filter (\<lambda>z. cmp v (f z) = 0) xs" using s by (simp add: sorts_def)
    then show ?thesis by (simp add: filter_map o_def)
  next
    case False
    then show ?thesis using set by (simp add: filter_map o_def filter_empty_conv [THEN iffD2])
  qed
  moreover have "mset (map f ys) = mset (map f xs)" using s by (simp add: sorts_def)
  moreover have "ascending cmp (map f ys)" using s by (simp add: sorts_def ascending_def sorted_wrt_map)
  ultimately show ?thesis unfolding sorts_def by blast
qed


subsection \<open>The variables and the heap\<close>

definition held :: "env \<Rightarrow> nat multiset" where
  "held e = image_mset (\<lambda>x. the (e x)) (mset_set (dom e))"

lemma in_held: "finite (dom e) \<Longrightarrow> a \<in># held e \<longleftrightarrow> (\<exists>x. e x = Some a)"
  by (force simp: held_def)

lemma held_add:
  assumes "finite (dom e)" "e x = None"
  shows "held (e(x \<mapsto> a)) = add_mset a (held e)"
proof -
  have "x \<notin> dom e" using assms(2) by auto
  then have "mset_set (dom (e(x \<mapsto> a))) = add_mset x (mset_set (dom e))" using assms(1) by simp
  moreover have "image_mset (\<lambda>y. the ((e(x \<mapsto> a)) y)) (mset_set (dom e)) = held e"
    unfolding held_def using \<open>x \<notin> dom e\<close> assms(1) by (intro image_mset_cong) auto
  ultimately show ?thesis by (simp add: held_def)
qed

lemma held_remove:
  assumes "finite (dom e)" "e x = Some a"
  shows "held e = add_mset a (held (e(x := None)))"
proof -
  have "e = (e(x := None))(x \<mapsto> a)" using assms(2) by auto
  moreover have "held ((e(x := None))(x \<mapsto> a)) = add_mset a (held (e(x := None)))" by (rule held_add) (use assms in simp_all)
  ultimately show ?thesis by simp
qed

lemma held_none [simp]: "held (\<lambda>_. None) = {#}"
  by (simp add: held_def)

definition list_sim :: "(nat \<Rightarrow> 'a) \<Rightarrow> 'a heap \<Rightarrow> env \<Rightarrow> env \<Rightarrow> 'a var_values \<Rightarrow> bool" where
  "list_sim V h e l AB \<longleftrightarrow> heap_ok V h (held e) (held l) \<and> finite (dom e) \<and> finite (dom l) \<and>
     (\<forall>y. fst AB y = map_option V (e y)) \<and>
     (\<forall>x. snd AB x = map_option (\<lambda>a. map (\<lambda>q. V (the q)) (ents h a)) (l x)) \<and>
     (\<forall>x a. l x = Some a \<longrightarrow> None \<notin> set (ents h a))"

text \<open>A list function returned \<open>p\<close>, which goes to variable \<open>x\<close>; \<open>l\<close> are the variables it did not use.\<close>

lemma list_sim_result:
  assumes sim: "list_sim V h e0 l0 (A0, B0)" and sub: "\<And>y. l y = l0 y \<or> l y = None" "l x = None"
    and e: "finite (dom e)" "\<And>y. A y = map_option V (e y)"
    and ok: "heap_ok V h' (held e) (held (l(x := p)))" and k: "keeps (held l) h h'"
    and full: "\<And>a. p = Some a \<Longrightarrow> None \<notin> set (ents h' a)"
    and B: "\<And>y. B y = (if y = x then map_option (\<lambda>a. map (\<lambda>q. V (the q)) (ents h' a)) p else if l y = None then None else B0 y)"
  shows "list_sim V h' e (l(x := p)) (A, B)"
proof -
  have fin0: "finite (dom l0)" using sim by (simp add: list_sim_def)
  have "dom l \<subseteq> dom l0" using sub(1) by (metis (no_types, opaque_lifting) domIff subsetI)
  then have fin: "finite (dom l)" using fin0 finite_subset by blast
  have same: "ents h' a = ents h a" if "l y = Some a" for y a
    using k in_held [OF fin] that unfolding keeps_def by blast
  have old: "l0 y = Some a" if "l y = Some a" for y a using sub(1) [of y] that by auto
  have "B y = map_option (\<lambda>a. map (\<lambda>q. V (the q)) (ents h' a)) ((l(x := p)) y)" for y
  proof (cases "y = x")
    case False
    show ?thesis
    proof (cases "l y")
      case (Some a)
      then have "B y = B0 y" using B [of y] False by simp
      also have "\<dots> = Some (map (\<lambda>q. V (the q)) (ents h a))" using sim old [OF Some] by (simp add: list_sim_def)
      finally show ?thesis using False Some same by simp
    qed (use B [of y] False in simp)
  qed (use B [of x] in simp)
  moreover have "None \<notin> set (ents h' a)" if "(l(x := p)) y = Some a" for y a
  proof (cases "y = x")
    case False
    then have "l y = Some a" using that by simp
    then show ?thesis using same old sim unfolding list_sim_def by metis
  qed (use that full in simp)
  ultimately show ?thesis using ok e fin unfolding list_sim_def by simp
qed

lemma list_sim_gives:
  assumes sim: "list_sim V h e0 l0 (A0, B0)" and sub: "\<And>y. l y = l0 y \<or> l y = None" "l x = None"
    and e: "finite (dom e)" "\<And>y. A y = map_option V (e y)"
    and r: "gives V (held e) (held l) h r qs" "None \<notin> set qs"
    and B: "\<And>y. B y = (if y = x then Some (map (\<lambda>q. V (the q)) qs) else if l y = None then None else B0 y)"
    and l': "\<And>p. l'(x := p) = l(x := p)"
  shows "\<exists>h' l2. assign e x l' r = Some (h', e, l2) \<and> list_sim V h' e l2 (A, B)"
proof -
  obtain h' a where r': "r = Some (h', Some a)" "heap_ok V h' (held e) (add_mset a (held l))" "ents h' a = qs" "keeps (held l) h h'"
    using r(1) by (rule givesE)
  have "finite (dom l0)" using sim by (simp add: list_sim_def)
  moreover have "dom l \<subseteq> dom l0" using sub(1) by (metis (no_types, opaque_lifting) domIff subsetI)
  ultimately have "finite (dom l)" using finite_subset by blast
  then have "heap_ok V h' (held e) (held (l(x \<mapsto> a)))" using r'(2) held_add sub(2) by simp
  from list_sim_result [OF sim sub e this r'(4), of B] r'(3) r(2) B
  have "list_sim V h' e (l(x \<mapsto> a)) (A, B)" by simp
  then show ?thesis using r'(1) l' by (simp add: assign_def)
qed

lemma list_sim_null:
  assumes sim: "list_sim V h e0 l0 (A0, B0)" and sub: "\<And>y. l y = l0 y \<or> l y = None" "l x = None"
    and e: "finite (dom e)" "\<And>y. A y = map_option V (e y)"
    and r: "\<exists>h'. r = Some (h', None) \<and> heap_ok V h' (held e) (held l) \<and> keeps (held l) h h'"
    and B: "\<And>y. B y = (if l y = None then None else B0 y)"
    and l': "\<And>p. l'(x := p) = l(x := p)"
  shows "\<exists>h' l2. assign e x l' r = Some (h', e, l2) \<and> list_sim V h' e l2 (A, B)"
proof -
  obtain h' where r': "r = Some (h', None)" "heap_ok V h' (held e) (held l)" "keeps (held l) h h'" using r by blast
  have "l(x := None) = l" using sub(2) by auto
  then have "heap_ok V h' (held e) (held (l(x := None)))" using r'(2) by simp
  from list_sim_result [OF sim sub e this r'(3), of B] B sub(2)
  have "list_sim V h' e (l(x := None)) (A, B)" by simp
  then show ?thesis using r'(1) l' by (simp add: assign_def)
qed

lemma list_sim_var:
  assumes "list_sim V h e l (A, B)" "B x = Some xs"
  obtains a where "l x = Some a" "xs = map (\<lambda>q. V (the q)) (ents h a)" "None \<notin> set (ents h a)" "length (ents h a) = length xs"
    "held l = add_mset a (held (l(x := None)))"
proof -
  obtain a where "l x = Some a" "xs = map (\<lambda>q. V (the q)) (ents h a)" using assms unfolding list_sim_def by (cases "l x") auto
  moreover from this have "None \<notin> set (ents h a)" "held l = add_mset a (held (l(x := None)))"
    using assms(1) held_remove unfolding list_sim_def by blast+
  ultimately show ?thesis using that by simp
qed

lemma list_sim_el:
  assumes "list_sim V h e l (A, B)" "A y = Some v"
  obtains q where "e y = Some q" "v = V q" "held e = add_mset q (held (e(y := None)))"
proof -
  obtain q where "e y = Some q" "v = V q" using assms unfolding list_sim_def by (cases "e y") auto
  then show ?thesis using that assms(1) held_remove unfolding list_sim_def by blast
qed

lemma list_sim_None:
  assumes "list_sim V h e l (A, B)"
  shows "A y = None \<longleftrightarrow> e y = None" "B x = None \<longleftrightarrow> l x = None"
  using assms unfolding list_sim_def by simp_all


subsection \<open>Every command\<close>

lemma list_sim_fin: "list_sim V h e l AB \<Longrightarrow> finite (dom e) \<and> finite (dom l) \<and> heap_ok V h (held e) (held l)"
  by (simp add: list_sim_def)

lemma list_sim_fst: "list_sim V h e l (A, B) \<Longrightarrow> A y = map_option V (e y)"
  by (simp add: list_sim_def)

lemma new_el_sim:
  assumes sim: "list_sim V h e l (A, B)" and y: "A y = None"
  shows "\<exists>V'. list_sim V' (h\<lparr>objs := fst (new_obj (objs h) v)\<rparr>) (e(y \<mapsto> next_addr (objs h))) l (A(y \<mapsto> v), B)"
proof -
  let ?a = "next_addr (objs h)"
  let ?V = "V(?a := v)"
  let ?h = "h\<lparr>objs := fst (new_obj (objs h) v)\<rparr>"
  have ok: "heap_ok V h (held e) (held l)" and fin: "finite (dom e)" "finite (dom l)" using list_sim_fin [OF sim] by simp_all
  note D = heap_okD [OF ok]
  have ey: "e y = None" using y list_sim_None(1) [OF sim] by simp
  have n: "cells (objs h) ?a = None" using D(4) by simp
  have no: "?a \<notin># held e + list_owned h" using heap_ok_element [OF ok] by blast
  have lo: "list_owned ?h = list_owned h" by (rule list_owned_cong) simp
  have held: "held (e(y \<mapsto> ?a)) = add_mset ?a (held e)" using held_add [OF fin(1) ey] .
  have dom: "dom (cells (objs ?h)) = insert ?a (dom (cells (objs h)))" by auto
  have card: "int (card (dom (cells (objs ?h)))) = int (card (dom (cells (objs h)))) + 1"
    unfolding dom using D(1) n by (subst card_insert_disjoint) auto
  have cells: "case cells (objs ?h) x of None \<Rightarrow> x \<notin># held (e(y \<mapsto> ?a)) + list_owned ?h
      | Some (r, w) \<Rightarrow> r = int (count (held (e(y \<mapsto> ?a)) + list_owned ?h) x) \<and> 0 < r \<and> w = ?V x" for x
  proof (cases "x = ?a")
    case True
    have "count (held e + list_owned h) ?a = 0" using no by (simp add: not_in_iff)
    then show ?thesis using True unfolding held lo by simp
  next
    case False
    then show ?thesis using D(6) [of x] unfolding held lo by (auto split: option.splits)
  qed
  have okV: "heap_ok ?V ?h (held (e(y \<mapsto> ?a))) (held l)"
    using D(2,3,4,5,7) card cells dom D(1) unfolding heap_ok_def by auto
  have A: "(A(y \<mapsto> v)) z = map_option ?V ((e(y \<mapsto> ?a)) z)" for z
  proof (cases "z = y")
    case False
    have "e z \<noteq> Some ?a" using no in_held [OF fin(1)] by (metis union_iff)
    then show ?thesis using False list_sim_fst [OF sim, of z] by (cases "e z") auto
  qed simp
  have same: "map (\<lambda>q. ?V (the q)) (ents ?h a) = map (\<lambda>q. V (the q)) (ents h a)" and ents: "ents ?h a = ents h a"
    if "l x = Some a" for x a
  proof -
    show e: "ents ?h a = ents h a" by (simp add: ents_def)
    have "the q \<noteq> ?a" if q: "q \<in> set (ents h a)" for q
    proof -
      have "q \<noteq> None" using q sim \<open>l x = Some a\<close> unfolding list_sim_def by metis
      then obtain w where w: "q = Some w" by blast
      have "a \<in># held l" using in_held [OF fin(2)] \<open>l x = Some a\<close> by blast
      from list_entry_owned [OF ok this] q w no show ?thesis by auto
    qed
    then show "map (\<lambda>q. ?V (the q)) (ents ?h a) = map (\<lambda>q. V (the q)) (ents h a)" unfolding e by auto
  qed
  have B: "B x = map_option (\<lambda>a. map (\<lambda>q. ?V (the q)) (ents ?h a)) (l x)" for x
  proof (cases "l x")
    case (Some a)
    then have "B x = Some (map (\<lambda>q. V (the q)) (ents h a))" using sim unfolding list_sim_def by simp
    then show ?thesis using Some same [OF Some] by simp
  qed (use list_sim_None(2) [OF sim] in simp)
  have full: "\<forall>x a. l x = Some a \<longrightarrow> None \<notin> set (ents ?h a)" using sim ents unfolding list_sim_def by simp
  have "finite (dom (e(y \<mapsto> ?a)))" using fin by simp
  then have "list_sim ?V ?h (e(y \<mapsto> ?a)) l (A(y \<mapsto> v), B)"
    unfolding list_sim_def fst_conv snd_conv using okV fin(2) A B full by blast
  then show ?thesis by blast
qed


context list_element begin

lemma el_cmd_sim:
  assumes sim: "list_sim V h e l (A, B)" and c: "c = CopyEl z y \<or> c = FreeEl y \<or> c = GetEl z x i" and sens: "list_sensible c (A, B)"
  shows "\<exists>h' e'. list_exec copy free c (h, e, l) = Some (h', e', l) \<and> list_sim V h' e' l (list_value c (A, B))"
proof -
  note fin = list_sim_fin [OF sim]
  have result: "list_sim V h' e' l (A', B)"
    if "heap_ok V h' (held e') (held l)" "same_lists h h'" "finite (dom e')" "\<And>y. A' y = map_option V (e' y)" for h' e' A'
    using sim that same_lists_ents [OF that(2)] unfolding list_sim_def by simp
  have copied: "list_sim V h' (e(z \<mapsto> q)) l (A(z \<mapsto> V q), B)"
    if "heap_ok V h' (add_mset q (held e)) (held l)" "same_lists h h'" "e z = None" for h' q z
  proof (rule result)
    show "heap_ok V h' (held (e(z \<mapsto> q))) (held l)" using that held_add fin by simp
    show "(A(z \<mapsto> V q)) w = map_option V ((e(z \<mapsto> q)) w)" for w using list_sim_fst [OF sim, of w] by simp
  qed (use fin that in simp_all)
  from c show ?thesis
  proof (elim disjE)
    assume c: "c = CopyEl z y"
    then have "A z = None" "A y \<noteq> None" using sens by simp_all
    then obtain v where v: "A y = Some v" by blast
    obtain q where q: "e y = Some q" "v = V q" "held e = add_mset q (held (e(y := None)))" using list_sim_el [OF sim v] by blast
    have "q \<in># held e + list_owned h" using q by simp
    from el_copy_run [OF conjunct2 [OF conjunct2 [OF fin]] this] obtain h' where h': "el_op copy h (Some q) = Some (h', Some q)"
      "heap_ok V h' (add_mset q (held e)) (held l)" "same_lists h h'" by blast
    have "e z = None" using \<open>A z = None\<close> list_sim_None(1) [OF sim] by blast
    from copied [OF h'(2,3) this] show ?thesis using h'(1) c q v by simp
  next
    assume c: "c = FreeEl y"
    then obtain v where v: "A y = Some v" using sens by auto
    obtain q where q: "e y = Some q" "v = V q" "held e = add_mset q (held (e(y := None)))" using list_sim_el [OF sim v] by blast
    have "heap_ok V h (add_mset q (held (e(y := None)))) (held l)" using fin q(3) by simp
    from el_free_run [OF this] obtain h' where h': "el_op free h (Some q) = Some (h', None)"
      "heap_ok V h' (held (e(y := None))) (held l)" "same_lists h h'" by blast
    have "list_sim V h' (e(y := None)) l (A(y := None), B)"
      by (rule result [OF h'(2,3)]) (use fin list_sim_fst [OF sim] in simp_all)
    then show ?thesis using h'(1) c q by simp
  next
    assume c: "c = GetEl z x i"
    then have az: "A z = None" and "B x \<noteq> None" using sens by simp_all
    then obtain xs where xs: "B x = Some xs" by blast
    obtain a where a: "l x = Some a" "xs = map (\<lambda>q. V (the q)) (ents h a)" "None \<notin> set (ents h a)" "length (ents h a) = length xs"
      using list_sim_var [OF sim xs] by blast
    have al: "a \<in># held l" using in_held a(1) fin by blast
    have ok: "heap_ok V h (held e) (held l)" using fin by simp
    have ez: "e z = None" using az list_sim_None(1) [OF sim] by blast
    show ?thesis
    proof (cases "i < length xs")
      case True
      then have "ents h a ! i \<in> set (ents h a)" using a(4) by simp
      then obtain q where q: "ents h a ! i = Some q" using a(3) by (metis not_None_eq)
      have il: "i < length (ents h a)" using True a(4) by simp
      from get_at_run [OF ok al il q] obtain h' where h': "isl_list_get_at copy h (Some a) (int i) = Some (h', Some q)"
        "heap_ok V h' (add_mset q (held e)) (held l)" "same_lists h h'" by blast
      have "xs ! i = V q" unfolding a(2) using il q by simp
      then have "list_value c (A, B) = (A(z \<mapsto> V q), B)" using c xs True by (simp only: list_value.simps option.sel if_True)
      moreover have "list_exec copy free c (h, e, l) = Some (h', e(z \<mapsto> q), l)" using h'(1) c a(1) by simp
      ultimately show ?thesis using copied [OF h'(2,3) ez] by metis
    next
      case False
      then have "isl_list_get_at copy h (Some a) (int i) = Some (h, None)"
        using check_index_run [OF ok al, of "int i"] a(4) by (simp add: isl_list_get_at_def isl_list_peek_def)
      moreover have "e(z := None) = e" "A(z := None) = A" using ez az by auto
      ultimately show ?thesis using sim c a(1) xs False by simp
    qed
  qed
qed

text \<open>The commands that use a list and no element, and those that use an element as well.\<close>

lemma list_cmd_sim:
  assumes sim: "list_sim V h e l (A, B)" and sens: "list_sensible c (A, B)"
    and c: "c = AllocList x n \<or> c = CopyList z x \<or> c = FreeList x \<or> c = DropEls x i n \<or> c = ClearList x \<or>
      c = SwapEls x i j \<or> c = ReverseList x \<or> c = ConcatLists x z"
  shows "\<exists>h' l'. list_exec copy free c (h, e, l) = Some (h', e, l') \<and> list_sim V h' e l' (list_value c (A, B))"
proof (cases "c = AllocList x n")
  case True
  note fin = list_sim_fin [OF sim]
  have bx: "l x = None" using sens True list_sim_None(2) [OF sim] by simp
  have ok: "heap_ok V h (held e) (held l)" using fin by simp
  obtain h' where h': "isl_list_alloc h (int n) = (h', Some (next_list h))" "heap_ok V h' (held e) (add_mset (next_list h) (held l))"
    "lists h' = (lists h)(next_list h \<mapsto> \<lparr>l_ref = 1, l_n = 0, l_size = n, l_p = fresh (unset h) n\<rparr>)" "next_list h' = next_list h + 1"
    "next_list h \<notin># held l"
    using alloc_list_run [OF ok, of n] by blast
  have "gives V (held e) (held l) h (Some (isl_list_alloc h (int n))) []"
    by (rule givesI [of _ h' "next_list h"]) (use h' in \<open>auto simp: ents_def entries_def keeps_def\<close>)
  from list_sim_gives [OF sim _ bx _ _ this, of A "B(x \<mapsto> [])" l] show ?thesis
    using fin list_sim_fst [OF sim] True list_sim_None(2) [OF sim] by auto
next
  case False
  note fin = list_sim_fin [OF sim]
  have "B x \<noteq> None" using c False sens by auto
  then obtain xs where xs: "B x = Some xs" by blast
  obtain a where a: "l x = Some a" "xs = map (\<lambda>q. V (the q)) (ents h a)" "None \<notin> set (ents h a)" "length (ents h a) = length xs"
    "held l = add_mset a (held (l(x := None)))"
    using list_sim_var [OF sim xs] by blast
  let ?l = "l(x := None)"
  have ok: "heap_ok V h (held e) (add_mset a (held ?l))" using fin a(5) by simp
  have sub: "?l y = l y \<or> ?l y = None" "?l x = None" for y by simp_all
  have bn: "B y = None \<longleftrightarrow> l y = None" for y using list_sim_None(2) [OF sim] by blast
  have gives_x: "\<exists>h' l'. assign e x l r = Some (h', e, l') \<and> list_sim V h' e l' (A, B(x \<mapsto> ys))"
    if "gives V (held e) (held ?l) h r qs" "None \<notin> set qs" "ys = map (\<lambda>q. V (the q)) qs" for r qs ys
    by (rule list_sim_gives [OF sim sub _ _ that(1,2)]) (use fin list_sim_fst [OF sim] that(3) bn in auto)
  have null_x: "\<exists>h' l'. assign e x l r = Some (h', e, l') \<and> list_sim V h' e l' (A, B(x := None))"
    if "\<exists>h'. r = Some (h', None) \<and> heap_ok V h' (held e) (held ?l) \<and> keeps (held ?l) h h'" for r
    by (rule list_sim_null [OF sim sub _ _ that]) (use fin list_sim_fst [OF sim] bn in auto)
  from c False show ?thesis
  proof (elim disjE)
    assume c: "c = CopyList z x"
    then have lz: "l z = None" using sens list_sim_None(2) [OF sim] by simp
    have al: "a \<in># held l" using in_held a(1) fin by blast
    have "gives V (held e) (held l) h (isl_list_copy h (Some a)) (ents h a)" using copy_list_run [OF conjunct2 [OF conjunct2 [OF fin]] al] .
    from list_sim_gives [OF sim _ lz _ _ this, of A "B(z := B x)" l] show ?thesis
      using fin list_sim_fst [OF sim] c a(1,2,3) bn xs by auto
  next
    assume "c = FreeList x"
    then show ?thesis using null_x [OF list_free_run [OF ok]] a(1) by simp
  next
    assume c: "c = DropEls x i n"
    then have b: "i < 2 ^ 32" "n < 2 ^ 32" "length xs < 2 ^ 31" using sens xs by simp_all
    show ?thesis
    proof (cases "i + n \<le> length xs")
      case True
      have "i + n \<le> length (ents h a)" "i + n < 2 ^ 32" using True a(4) b by simp_all
      from gives_x [OF drop_run [OF ok a(3) this] _ refl] have "\<exists>h' l'. assign e x l (isl_list_drop copy free h (Some a) i n) = Some (h', e, l') \<and>
          list_sim V h' e l' (A, B(x \<mapsto> map (\<lambda>q. V (the q)) (take i (ents h a) @ drop (i + n) (ents h a))))"
        using a(3) by (auto dest: in_set_takeD in_set_dropD)
      moreover have "map (\<lambda>q. V (the q)) (take i (ents h a) @ drop (i + n) (ents h a)) = take i xs @ drop (i + n) xs"
        unfolding a(2) by (simp add: take_map drop_map)
      moreover have "list_value c (A, B) = (A, B(x \<mapsto> take i xs @ drop (i + n) xs))" using c xs True by simp
      ultimately show ?thesis using c a(1) by (metis list_exec.simps(10))
    next
      case False
      then have "length (ents h a) < i + n" using a(4) by simp
      from null_x [OF drop_fails [OF ok b(1,2) this]] show ?thesis using c a(1) xs False by simp
    qed
  next
    assume c: "c = ClearList x"
    then have "length (ents h a) < 2 ^ 32" using sens xs a(4) by simp
    from gives_x [OF clear_run [OF ok a(3) this] _ refl] show ?thesis using c a(1) by simp
  next
    assume c: "c = SwapEls x i j"
    then have ij: "i < length (ents h a)" "j < length (ents h a)" using sens xs a(4) by simp_all
    let ?q = "(ents h a)[i := ents h a ! j, j := ents h a ! i]"
    have "set ?q = set (ents h a)" using ij by (rule set_swap)
    then have "None \<notin> set ?q" using a(3) by simp
    from gives_x [OF swap_run [OF ok a(3) ij] this refl]
    have "\<exists>h' l'. assign e x l (isl_list_swap copy free h (Some a) i j) = Some (h', e, l') \<and>
        list_sim V h' e l' (A, B(x \<mapsto> map (\<lambda>q. V (the q)) ?q))" .
    moreover have "map (\<lambda>q. V (the q)) ?q = xs[i := xs ! j, j := xs ! i]" unfolding a(2) using ij by (simp add: map_update)
    moreover have "list_value c (A, B) = (A, B(x \<mapsto> xs[i := xs ! j, j := xs ! i]))" using c xs by simp
    ultimately show ?thesis using c a(1) by (metis list_exec.simps(15))
  next
    assume c: "c = ReverseList x"
    from gives_x [OF reverse_run [OF ok a(3)] _ refl]
    have "\<exists>h' l'. assign e x l (isl_list_reverse copy free h (Some a)) = Some (h', e, l') \<and>
        list_sim V h' e l' (A, B(x \<mapsto> map (\<lambda>q. V (the q)) (rev (ents h a))))" using a(3) by simp
    moreover have "map (\<lambda>q. V (the q)) (rev (ents h a)) = rev xs" unfolding a(2) by (simp add: rev_map)
    moreover have "list_value c (A, B) = (A, B(x \<mapsto> rev xs))" using c xs by simp
    ultimately show ?thesis using c a(1) by (metis list_exec.simps(16))
  next
    assume c: "c = ConcatLists x z"
    then have xz: "x \<noteq> z" and "B z \<noteq> None" using sens by simp_all
    then obtain zs where zs: "B z = Some zs" by blast
    obtain b where b: "l z = Some b" "zs = map (\<lambda>q. V (the q)) (ents h b)" "None \<notin> set (ents h b)" using list_sim_var [OF sim zs] by metis
    let ?l2 = "l(x := None, z := None)"
    have "held ?l = add_mset b (held ?l2)" using held_remove [of ?l z b] fin b(1) xz by simp
    then have "heap_ok V h (held e) (add_mset a (add_mset b (held ?l2)))" using ok by simp
    note r = concat_run [OF this a(3) b(3)]
    have "\<exists>h' l'. assign e x (l(z := None)) (isl_list_concat copy free h (Some a) (Some b)) = Some (h', e, l') \<and>
        list_sim V h' e l' (A, B(z := None, x \<mapsto> xs @ zs))"
      by (rule list_sim_gives [OF sim _ _ _ _ r]) (use a b fin list_sim_fst [OF sim] bn xz in \<open>auto simp: fun_upd_twist\<close>)
    then show ?thesis using c a(1) b(1) xs zs by simp
  qed simp
qed

lemma el_list_cmd_sim:
  assumes sim: "list_sim V h e l (A, B)" and sens: "list_sensible c (A, B)"
    and c: "c = FromEl x y \<or> c = AddEl x y \<or> c = InsertEl x i y \<or> c = SetEl x i y"
  shows "\<exists>h' e' l'. list_exec copy free c (h, e, l) = Some (h', e', l') \<and> list_sim V h' e' l' (list_value c (A, B))"
proof -
  note fin = list_sim_fin [OF sim]
  have "A y \<noteq> None" using c sens by auto
  then obtain v where v: "A y = Some v" by blast
  obtain q where q: "e y = Some q" "v = V q" "held e = add_mset q (held (e(y := None)))" using list_sim_el [OF sim v] by blast
  let ?e = "e(y := None)" and ?A = "A(y := None)"
  have e: "finite (dom ?e)" "?A w = map_option V (?e w)" for w using fin list_sim_fst [OF sim] by simp_all
  have bn: "B y = None \<longleftrightarrow> l y = None" for y using list_sim_None(2) [OF sim] by blast
  show ?thesis
  proof (cases "c = FromEl x y")
    case True
    then have lx: "l x = None" using sens bn by simp
    have okq: "heap_ok V h (add_mset q (held ?e)) (held l)" using fin q(3) by simp
    have "\<exists>h' l2. assign ?e x l (isl_list_from copy free h (Some q)) = Some (h', ?e, l2) \<and> list_sim V h' ?e l2 (?A, B(x \<mapsto> [v]))"
      by (rule list_sim_gives [OF sim _ lx e from_run [OF okq]]) (use q bn in auto)
    then show ?thesis using True q(1) v by auto
  next
    case False
    then have "B x \<noteq> None" using c sens by auto
    then obtain xs where xs: "B x = Some xs" by blast
    obtain a where a: "l x = Some a" "xs = map (\<lambda>q. V (the q)) (ents h a)" "None \<notin> set (ents h a)" "length (ents h a) = length xs"
      "held l = add_mset a (held (l(x := None)))"
      using list_sim_var [OF sim xs] by blast
    let ?l = "l(x := None)"
    have ok: "heap_ok V h (add_mset q (held ?e)) (add_mset a (held ?l))" using fin a(5) q(3) by simp
    have sub: "?l y = l y \<or> ?l y = None" "?l x = None" for y by simp_all
    have gives_x: "\<exists>h' l'. assign ?e x l r = Some (h', ?e, l') \<and> list_sim V h' ?e l' (?A, B(x \<mapsto> ys))"
      if "gives V (held ?e) (held ?l) h r qs" "None \<notin> set qs" "ys = map (\<lambda>q. V (the q)) qs" for r qs ys
      by (rule list_sim_gives [OF sim sub e that(1,2)]) (use that(3) bn in auto)
    have null_x: "\<exists>h' l'. assign ?e x l r = Some (h', ?e, l') \<and> list_sim V h' ?e l' (?A, B(x := None))"
      if "\<exists>h'. r = Some (h', None) \<and> heap_ok V h' (held ?e) (held ?l) \<and> keeps (held ?l) h h'" for r
      by (rule list_sim_null [OF sim sub e that]) (use bn in auto)
    from c False show ?thesis
    proof (elim disjE)
      assume c: "c = AddEl x y"
      have "list_value c (A, B) = (?A, B(x \<mapsto> xs @ [v]))" using c xs v by simp
      moreover have "xs @ [v] = map (\<lambda>q. V (the q)) (ents h a @ [Some q])" unfolding a(2) q(2) by simp
      ultimately show ?thesis using gives_x [OF add_run [OF ok a(3)]] a(3) c a(1) q(1) by fastforce
    next
      assume c: "c = InsertEl x i y"
      show ?thesis
      proof (cases "i \<le> length xs")
        case True
        have "i \<le> length (ents h a)" using True a(4) by simp
        note r = insert_run [OF ok a(3) this]
        have "take i xs @ v # drop i xs = map (\<lambda>q. V (the q)) (take i (ents h a) @ Some q # drop i (ents h a))"
          unfolding a(2) q(2) by (simp add: take_map drop_map)
        moreover have "None \<notin> set (take i (ents h a) @ Some q # drop i (ents h a))" using a(3) by (auto dest: in_set_takeD in_set_dropD)
        moreover have "list_value c (A, B) = (?A, B(x \<mapsto> take i xs @ v # drop i xs))" using c xs v True by simp
        ultimately show ?thesis using gives_x [OF r] c a(1) q(1) by fastforce
      next
        case False
        then have "length (ents h a) < i" using a(4) by simp
        from null_x [OF insert_fails [OF ok this]] show ?thesis using c a(1) q(1) xs False by fastforce
      qed
    next
      assume c: "c = SetEl x i y"
      show ?thesis
      proof (cases "i < length xs")
        case True
        have il: "i < length (ents h a)" using True a(4) by simp
        obtain h' a' where r: "isl_list_set_at copy free h (Some a) (int i) (Some q) = Some (h', Some a')"
          "heap_ok V h' (held ?e) (add_mset a' (held ?l))" "ents h' a' = (ents h a)[i := Some q]" "keeps (held ?l) h h'"
          using set_at_run [OF ok disjI1 [OF a(3)] il] by blast
        have g: "gives V (held ?e) (held ?l) h (isl_list_set_at copy free h (Some a) (int i) (Some q)) ((ents h a)[i := Some q])"
          using r by (rule givesI)
        have "xs[i := v] = map (\<lambda>q. V (the q)) ((ents h a)[i := Some q])" unfolding a(2) q(2) by (simp add: map_update)
        moreover have "None \<notin> set ((ents h a)[i := Some q])"
          using a(3) set_update_subset_insert [of "ents h a" i "Some q"] by auto
        moreover have "list_value c (A, B) = (?A, B(x \<mapsto> xs[i := v]))" using c xs v True by simp
        ultimately show ?thesis using gives_x [OF g] c a(1) q(1) by fastforce
      next
        case False
        then have "int i < 0 \<or> int (length (ents h a)) \<le> int i" using a(4) by simp
        from null_x [OF set_at_fails [OF ok this]] show ?thesis using c a(1) q(1) xs False by fastforce
      qed
    qed simp
  qed
qed

lemma sort_cmd_sim:
  assumes sim: "list_sim V h e l (A, B)" and sens: "list_sensible (SortList x malloc cmp) (A, B)"
  shows "\<exists>h' l'. list_exec copy free (SortList x malloc cmp) (h, e, l) = Some (h', e, l') \<and>
    list_sim V h' e l' (list_value (SortList x malloc cmp) (A, B))"
proof -
  note fin = list_sim_fin [OF sim]
  have cmp: "comparator cmp" using sens by simp
  obtain xs where xs: "B x = Some xs" using sens by auto
  obtain a where a: "l x = Some a" "xs = map (\<lambda>q. V (the q)) (ents h a)" "None \<notin> set (ents h a)" "length (ents h a) = length xs"
    "held l = add_mset a (held (l(x := None)))"
    using list_sim_var [OF sim xs] by blast
  let ?l = "l(x := None)"
  have ok: "heap_ok V h (held e) (add_mset a (held ?l))" using fin a(5) by simp
  have sub: "?l y = l y \<or> ?l y = None" "?l x = None" for y by simp_all
  have bn: "B y = None \<longleftrightarrow> l y = None" for y using list_sim_None(2) [OF sim] by blast
  show ?thesis
  proof (cases "length xs < 2 \<or> malloc \<noteq> None")
    case True
    then have "length (ents h a) < 2 \<or> malloc \<noteq> None" using a(4) by simp
    from sort_run [OF ok a(3) cmp this] obtain qs where g: "gives V (held e) (held ?l) h (isl_list_sort copy free malloc h (Some a) cmp) qs"
      and s: "sorts (\<lambda>p q. cmp (map_option V p) (map_option V q)) (ents h a) qs" by blast
    have set: "set qs = set (ents h a)" using s unfolding sorts_def by (metis set_mset_mset)
    have n: "None \<notin> set qs" using set a(3) by simp
    let ?cmp = "\<lambda>a b. cmp (Some a) (Some b)"
    have c: "comparator ?cmp" using cmp unfolding comparator_def by blast
    have "sorts (\<lambda>p q. cmp (Some (V (the p))) (Some (V (the q)))) (ents h a) qs"
    proof (rule sorts_cong_set [OF cmp _ _ s])
      show "mset qs = mset (ents h a)" using s by (simp add: sorts_def)
      show "map_option V p = Some (V (the p))" if "p \<in> set (ents h a)" for p
      proof -
        have "p \<noteq> None" using that a(3) by metis
        then show ?thesis by auto
      qed
    qed
    then have "sorts ?cmp xs (map (\<lambda>q. V (the q)) qs)" unfolding a(2) using sorts_map [OF c, of "\<lambda>q. V (the q)"] by simp
    then have eq: "stable_sort ?cmp xs = map (\<lambda>q. V (the q)) qs" using stable_sort_sorts [OF c] sorts_unique [OF c] by blast
    have "\<exists>h' l'. assign e x l (isl_list_sort copy free malloc h (Some a) cmp) = Some (h', e, l') \<and>
        list_sim V h' e l' (A, B(x \<mapsto> stable_sort ?cmp xs))"
      by (rule list_sim_gives [OF sim sub _ _ g n]) (use fin list_sim_fst [OF sim] eq bn in auto)
    then show ?thesis using a(1) xs True by simp
  next
    case False
    then have m: "malloc = None" and "2 \<le> length (ents h a)" using a(4) by auto
    note f = sort_fails [OF ok a(3) this(2), of cmp]
    have "\<exists>h' l'. assign e x l (isl_list_sort copy free malloc h (Some a) cmp) = Some (h', e, l') \<and>
        list_sim V h' e l' (A, B(x := None))"
      unfolding m by (rule list_sim_null [OF sim sub _ _ f]) (use fin list_sim_fst [OF sim] bn in auto)
    then show ?thesis using a(1) xs False by simp
  qed
qed

lemma list_exec_run:
  assumes sim: "list_sim V h e l AB" and sens: "list_sensible c AB"
  shows "\<exists>V' h' e' l'. list_exec copy free c (h, e, l) = Some (h', e', l') \<and> list_sim V' h' e' l' (list_value c AB)"
proof -
  obtain A B where AB: "AB = (A, B)" by (cases AB)
  note el = el_cmd_sim [OF sim [unfolded AB] _ sens [unfolded AB]]
    and li = list_cmd_sim [OF sim [unfolded AB] sens [unfolded AB]]
    and ell = el_list_cmd_sim [OF sim [unfolded AB] sens [unfolded AB]]
  show ?thesis
  proof (cases c)
    case (NewEl y v)
    then have "A y = None" using sens AB by simp
    from new_el_sim [OF sim [unfolded AB] this, of v] show ?thesis using NewEl AB by (simp add: case_prod_unfold)
  next
    case (SortList x malloc cmp)
    then show ?thesis using sort_cmd_sim [OF sim [unfolded AB], of x malloc cmp] sens AB by blast
  next
    case (CopyEl z y)
    then show ?thesis using el [of z y] AB by blast
  next
    case (FreeEl y)
    then show ?thesis using el [of _ y] AB by blast
  next
    case (GetEl z x i)
    then show ?thesis using el [of z _ x i] AB by blast
  next
    case (AllocList x n)
    then show ?thesis using li [of x n] AB by blast
  next
    case (CopyList z x)
    then show ?thesis using li [of x _ z] AB by blast
  next
    case (FreeList x)
    then show ?thesis using li [of x] AB by blast
  next
    case (DropEls x i n)
    then show ?thesis using li [of x n _ i] AB by blast
  next
    case (ClearList x)
    then show ?thesis using li [of x] AB by blast
  next
    case (SwapEls x i j)
    then show ?thesis using li [of x _ _ i j] AB by blast
  next
    case (ReverseList x)
    then show ?thesis using li [of x] AB by blast
  next
    case (ConcatLists x z)
    then show ?thesis using li [of x _ z] AB by blast
  next
    case (FromEl x y)
    then show ?thesis using ell [of x y] AB by blast
  next
    case (AddEl x y)
    then show ?thesis using ell [of x y] AB by blast
  next
    case (InsertEl x i y)
    then show ?thesis using ell [of x y i] AB by blast
  next
    case (SetEl x i y)
    then show ?thesis using ell [of x y i] AB by blast
  qed
qed

lemma list_exec_all_run:
  assumes "list_sim V h e l AB" and "list_sensible_all cs AB"
  shows "\<exists>V' h' e' l'. list_exec_all copy free cs (h, e, l) = Some (h', e', l') \<and> list_sim V' h' e' l' (list_value_all cs AB)"
  using assms
proof (induction cs arbitrary: V h e l AB)
  case (Cons c cs)
  obtain V1 h1 e1 l1 where 1: "list_exec copy free c (h, e, l) = Some (h1, e1, l1)" "list_sim V1 h1 e1 l1 (list_value c AB)"
    using list_exec_run [OF Cons.prems(1), of c] Cons.prems(2) by auto
  from Cons.IH [OF 1(2)] Cons.prems(2) 1(1) show ?case by simp
qed auto

end


subsection \<open>Lists of values\<close>

interpretation val_list: list_element isl_val_copy isl_val_free
  by unfold_locales (auto simp: isl_val_copy_def isl_val_free_def with_obj_def unref_def)

definition empty_heap :: "nat option junk \<Rightarrow> 'a heap" where
  "empty_heap junk = \<lparr>objs = empty_store, lists = (\<lambda>_. None), next_list = 0, unset = junk\<rparr>"

lemma empty_heap_sim: "list_sim V (empty_heap junk) (\<lambda>_. None) (\<lambda>_. None) (\<lambda>_. None, \<lambda>_. None)"
  by (simp add: list_sim_def heap_ok_def empty_heap_def empty_store_def list_owned_def ents_def)

lemma list_sim_values:
  assumes sim: "list_sim V h e l (A, B)"
  shows "A y = el_value h (e y)" "B x = map_option (\<lambda>a. map (\<lambda>q. the (el_value h q)) (ents h a)) (l x)"
proof -
  have ok: "heap_ok V h (held e) (held l)" and fin: "finite (dom e)" "finite (dom l)" using list_sim_fin [OF sim] by simp_all
  have live: "el_value h (Some q) = Some (V q)" if "q \<in># held e + list_owned h" for q
    using heap_ok_element [OF ok that] by (auto simp: el_value_def)
  show "A y = el_value h (e y)"
  proof (cases "e y")
    case None
    then show ?thesis using list_sim_fst [OF sim, of y] by (simp add: el_value_def)
  next
    case (Some q)
    then have "q \<in># held e + list_owned h" using in_held [OF fin(1)] by auto
    then show ?thesis using live Some list_sim_fst [OF sim, of y] by simp
  qed
  show "B x = map_option (\<lambda>a. map (\<lambda>q. the (el_value h q)) (ents h a)) (l x)"
  proof (cases "l x")
    case (Some a)
    then have al: "a \<in># held l" using in_held [OF fin(2)] by blast
    have "V (the q) = the (el_value h q)" if q: "q \<in> set (ents h a)" for q
    proof -
      have "q \<noteq> None" using q Some sim unfolding list_sim_def by metis
      then obtain w where w: "q = Some w" by blast
      then show ?thesis using live [OF list_entry_owned [OF ok al]] q by simp
    qed
    then show ?thesis using sim Some unfolding list_sim_def by simp
  qed (use list_sim_None(2) [OF sim] in simp)
qed

lemma list_sim_empty:
  assumes sim: "list_sim V h (\<lambda>_. None) (\<lambda>_. None) AB"
  shows "lists h = (\<lambda>_. None)" "cells (objs h) = (\<lambda>_. None)" "isl_ctx_free (objs h) = Inr ()"
proof -
  have ok: "heap_ok V h {#} {#}" using list_sim_fin [OF sim] by simp
  note D = heap_okD [OF ok]
  have "lists h a = None" for a using D(7) [of a] by (auto split: option.splits)
  then show l: "lists h = (\<lambda>_. None)" by auto
  then have "list_owned h = {#}" by (simp add: list_owned_def)
  then have "cells (objs h) q = None" for q using D(6) [of q] by (auto split: option.splits)
  then show c: "cells (objs h) = (\<lambda>_. None)" by auto
  show "isl_ctx_free (objs h) = Inr ()" using D(3) by (simp add: isl_ctx_free_def l c)
qed

lemma val_lists_run:
  assumes "list_sensible_all cs (\<lambda>_. None, \<lambda>_. None)"
  shows "\<exists>h e l. list_exec_all isl_val_copy isl_val_free cs (empty_heap junk, \<lambda>_. None, \<lambda>_. None) = Some (h, e, l) \<and>
    (\<forall>y. fst (list_value_all cs (\<lambda>_. None, \<lambda>_. None)) y = el_value h (e y)) \<and>
    (\<forall>x. snd (list_value_all cs (\<lambda>_. None, \<lambda>_. None)) x =
      map_option (\<lambda>a. map (\<lambda>q. the (el_value h q)) (ents h a)) (l x)) \<and>
    (list_value_all cs (\<lambda>_. None, \<lambda>_. None) = (\<lambda>_. None, \<lambda>_. None) \<longrightarrow>
      cells (objs h) = (\<lambda>_. None) \<and> lists h = (\<lambda>_. None) \<and> isl_ctx_free (objs h) = Inr ())"
proof -
  obtain V h e l where run: "list_exec_all isl_val_copy isl_val_free cs (empty_heap junk, \<lambda>_. None, \<lambda>_. None) = Some (h, e, l)"
    and sim: "list_sim V h e l (list_value_all cs (\<lambda>_. None, \<lambda>_. None))"
    using val_list.list_exec_all_run [OF empty_heap_sim assms, of junk] by blast
  obtain A B where AB: "list_value_all cs (\<lambda>_. None, \<lambda>_. None) = (A, B)" by fastforce
  have sim': "list_sim V h e l (A, B)" using sim AB by simp
  have "cells (objs h) = (\<lambda>_. None) \<and> lists h = (\<lambda>_. None) \<and> isl_ctx_free (objs h) = Inr ()"
    if "A = (\<lambda>_. None)" "B = (\<lambda>_. None)"
  proof -
    have "e = (\<lambda>_. None)" "l = (\<lambda>_. None)" using list_sim_None [OF sim'] that by auto
    then show ?thesis using list_sim_empty sim' by blast
  qed
  then show ?thesis using run list_sim_values [OF sim'] by (simp add: AB)
qed

subsection \<open>The property\<close>

text \<open>
  C7: Lists of values are values.  A program that copies, frees, builds, changes and sorts lists, and
  that uses them sensibly (\<open>list_sensible\<close>: it reads only variables that hold something and fills
  only those that hold nothing, swaps only positions in range, concatenates two different lists,
  drops from lists of less than \<open>2 ^ 31\<close> elements and sorts by an order), runs to its end, without touching memory that is released or outside of an array; every variable then
  holds what the same program on values computes, where copies are independent of each other,
  positions out of range and a sort without memory give no list, and the sort is stable; and when
  all references are given up, no element and no list is left and the context can be freed.
\<close>

theorem val_lists_are_values:
  assumes "list_sensible_all cs (\<lambda>_. None, \<lambda>_. None)"
  shows "\<exists>h e l. list_exec_all isl_val_copy isl_val_free cs (empty_heap junk, \<lambda>_. None, \<lambda>_. None) = Some (h, e, l) \<and>
    (\<forall>y. fst (list_value_all cs (\<lambda>_. None, \<lambda>_. None)) y = el_value h (e y)) \<and>
    (\<forall>x. snd (list_value_all cs (\<lambda>_. None, \<lambda>_. None)) x =
      map_option (\<lambda>a. map (\<lambda>q. the (el_value h q)) (ents h a)) (l x)) \<and>
    (list_value_all cs (\<lambda>_. None, \<lambda>_. None) = (\<lambda>_. None, \<lambda>_. None) \<longrightarrow>
      cells (objs h) = (\<lambda>_. None) \<and> lists h = (\<lambda>_. None) \<and> isl_ctx_free (objs h) = Inr ())"
  using assms by (rule val_lists_run)

text \<open>The list \<open>[1, 2]\<close> is copied, the copy is reversed and \<open>1\<close> is inserted: the list stays as it was.\<close>

theorem val_lists_are_values_witness:
  "\<exists>h e l. list_exec_all isl_val_copy isl_val_free
      [NewEl 0 \<lparr>val_n = 1, val_d = 1\<rparr>, NewEl 1 \<lparr>val_n = 2, val_d = 1\<rparr>, FromEl 0 0, AddEl 0 1, CopyList 1 0,
       ReverseList 1, GetEl 2 0 0, InsertEl 1 1 2, DropEls 0 7 1]
      (empty_heap (\<lambda>_. Some 9), \<lambda>_. None, \<lambda>_. None) = Some (h, e, l) \<and>
    l 0 = None \<and>
    map_option (\<lambda>a. map (\<lambda>q. the (el_value h q)) (ents h a)) (l 1)
      = Some [\<lparr>val_n = 2, val_d = 1\<rparr>, \<lparr>val_n = 1, val_d = 1\<rparr>, \<lparr>val_n = 1, val_d = 1\<rparr>]"
proof -
  let ?cs = "[NewEl 0 \<lparr>val_n = 1, val_d = 1\<rparr>, NewEl 1 \<lparr>val_n = 2, val_d = 1\<rparr>, FromEl 0 0, AddEl 0 1, CopyList 1 0,
       ReverseList 1, GetEl 2 0 0, InsertEl 1 1 2, DropEls 0 7 1]"
  have sens: "list_sensible_all ?cs (\<lambda>_. None, \<lambda>_. None)" by simp
  have "snd (list_value_all ?cs (\<lambda>_. None, \<lambda>_. None)) 0 = None"
    "snd (list_value_all ?cs (\<lambda>_. None, \<lambda>_. None)) 1 = Some [\<lparr>val_n = 2, val_d = 1\<rparr>, \<lparr>val_n = 1, val_d = 1\<rparr>, \<lparr>val_n = 1, val_d = 1\<rparr>]"
    by simp_all
  then show ?thesis using val_lists_are_values [OF sens, of "\<lambda>_. Some 9"] by (metis map_option_is_None)
qed

end
