(* ===== verification/List_Scc.thy ===== *)
theory List_Scc imports List_Prog begin

text \<open>
  Callbacks on lists: \<open>foreach\<close> and \<open>every\<close>, and \<open>foreach_scc\<close>, which calls its callback on the
  lists of the elements of each strongly connected component, in the order of theory Isl_Tarjan.
\<close>

subsection \<open>A callback that takes an element or a list\<close>

text \<open>The state \<open>u\<close> of the callback is changed by \<open>step\<close>, given the value.\<close>

definition takes_element :: "(nat \<Rightarrow> 'a) \<Rightarrow> ('a, 'u) callback \<Rightarrow> ('u \<Rightarrow> 'a \<Rightarrow> 'u) \<Rightarrow> bool" where
  "takes_element V fn step \<longleftrightarrow> (\<forall>h E L q u. heap_ok V h (add_mset q E) L \<longrightarrow>
     (\<exists>h'. fn h (Some q) u = Some (0, h', step u (V q)) \<and> heap_ok V h' E L \<and> keeps L h h'))"

text \<open>
  A callback on lists takes the list it is given: it releases it, leaves the other lists as they
  are, and returns the status \<open>st\<close>, below zero when it fails.
\<close>

definition takes_list :: "(nat \<Rightarrow> 'a) \<Rightarrow> ('a, 'u) callback \<Rightarrow> ('u \<Rightarrow> 'a list \<Rightarrow> int) \<Rightarrow> ('u \<Rightarrow> 'a list \<Rightarrow> 'u) \<Rightarrow> bool" where
  "takes_list V fn st step \<longleftrightarrow> (\<forall>h E L a u. heap_ok V h E (add_mset a L) \<longrightarrow> None \<notin> set (ents h a) \<longrightarrow>
     (let xs = map (\<lambda>q. V (the q)) (ents h a) in
       \<exists>h'. fn h (Some a) u = Some (st u xs, h', step u xs) \<and> heap_ok V h' E L \<and> keeps L h h'))"

definition list_callback :: "('a, 'u) callback \<Rightarrow> ('u \<Rightarrow> 'a list \<Rightarrow> int) \<Rightarrow> ('u \<Rightarrow> 'a list \<Rightarrow> 'u) \<Rightarrow> bool" where
  "list_callback fn st step \<longleftrightarrow> (\<forall>V. takes_list V fn st step)"

text \<open>
  What \<open>foreach_scc\<close> returns: it stops at the first list on which the callback fails, which is
  reported when a list is left.  The status on an only list is that of the callback.
\<close>

fun visit :: "('u \<Rightarrow> 'b \<Rightarrow> int) \<Rightarrow> ('u \<Rightarrow> 'b \<Rightarrow> 'u) \<Rightarrow> 'u \<Rightarrow> 'b list \<Rightarrow> int \<times> 'u" where
  "visit st step u [] = (0, u)"
| "visit st step u (x # xs) =
     (if st u x < 0 then (if xs = [] then 0 else -1, step u x) else visit st step (step u x) xs)"

definition scc_outcome :: "('u \<Rightarrow> 'b \<Rightarrow> int) \<Rightarrow> ('u \<Rightarrow> 'b \<Rightarrow> 'u) \<Rightarrow> 'u \<Rightarrow> 'b list \<Rightarrow> int \<times> 'u" where
  "scc_outcome st step u xs = (if length xs = 1 then (st u (hd xs), step u (hd xs)) else visit st step u xs)"

lemma visit_succeeds:
  "\<forall>u. \<forall>x \<in> set xs. 0 \<le> st u x \<Longrightarrow> visit st step u xs = (0, foldl step u xs)"
  by (induction xs arbitrary: u) (simp_all add: not_less [symmetric])

subsection \<open>The lists of the components\<close>

lemma scan_scc_run:
  "order = pre @ map int c @ -1 # rest \<Longrightarrow> scan_scc order (length pre) n = Some (length pre + length c, n - int (length c))"
proof (induction c arbitrary: pre n)
  case Nil
  then show ?case by (subst scan_scc.simps) (simp add: nth_append)
next
  case (Cons x c)
  have at: "length pre < length order" "order ! length pre = int x" using Cons.prems by (simp_all add: nth_append)
  have "scan_scc order (length (pre @ [int x])) (n - 1) = Some (length (pre @ [int x]) + length c, (n - 1) - int (length c))"
    by (rule Cons.IH) (simp add: Cons.prems)
  then show ?case using at by (subst scan_scc.simps) simp
qed

context list_element begin

lemma call_on_scc_run:
  assumes ok: "heap_ok V h E L" and a: "a \<in># L" "None \<notin> set (ents h a)"
    and order: "\<And>i. i < length c \<Longrightarrow> order ! (first + i) = int (c ! i)" and c: "set c \<subseteq> {..<length (ents h a)}"
    and fn: "takes_list V fn st step" and xs: "xs = map (\<lambda>i. V (the (ents h a ! i))) c"
  shows "\<exists>h'. call_on_scc copy free h a order first (length c) fn u = Some (st u xs, h', step u xs) \<and>
    heap_ok V h' E L \<and> keeps L h h'"
proof -
  let ?e = "\<lparr>l_ref = 1, l_n = 0, l_size = length c, l_p = fresh (unset h) (length c)\<rparr>" and ?b = "next_list h"
  obtain h1 where h1: "isl_list_alloc h (int (length c)) = (h1, Some ?b)" "heap_ok V h1 E (add_mset ?b L)"
      "lists h1 = (lists h)(?b \<mapsto> ?e)" "next_list h1 = ?b + 1" "?b \<notin># L"
    using alloc_list_run [OF ok, of "length c"] by blast
  have "a \<noteq> ?b" using a(1) h1(5) by blast
  then have ea: "ents h1 a = ents h a" using h1(3) by (simp add: ents_def)
  have lk: "lists h1 ?b = Some ?e" "l_ref ?e = 1" "l_n ?e + (length c - 0) \<le> l_size ?e" using h1(3) by simp_all
  have pos: "nat (order ! (first + i)) < length (ents h1 a)" if "0 \<le> i" "i < length c" for i
    using order [OF that(2)] c that(2) by (simp add: ea) (meson lessThan_iff nth_mem subsetD)
  have e0: "entries ?e = []" by (simp add: entries_def)
  obtain h2 l2 where h2: "for_range_opt 0 (length c) (\<lambda>i (h, res). do { q \<leftarrow> list_read h a (nat (order ! (first + i)));
        (h, el) \<leftarrow> el_op copy h q; isl_list_add copy free h res el }) (h1, Some ?b) = Some (h2, Some ?b)"
      "heap_ok V h2 E (add_mset ?b L)" "lists h2 = (lists h1)(?b \<mapsto> l2)" "next_list h2 = next_list h1"
      "entries l2 = map (\<lambda>i. ents h a ! nat (order ! (first + i))) [0..<length c]"
    using add_picked_run [OF h1(2) lk a(1), where pos = "\<lambda>i. nat (order ! (first + i))" and d = "Suc 0", folded add_is] a(2) pos ea e0 by auto
  have "map (\<lambda>i. ents h a ! nat (order ! (first + i))) [0..<length c] = map (\<lambda>i. ents h a ! i) c"
    using order by (intro nth_equalityI) simp_all
  then have e2: "ents h2 ?b = map (\<lambda>i. ents h a ! i) c" using h2(3,5) by (simp add: ents_def)
  have "ents h a ! i \<in> set (ents h a)" if "i \<in> set c" for i using c that by auto
  then have "None \<notin> set (ents h2 ?b)" unfolding e2 using a(2) by force
  moreover have "map (\<lambda>q. V (the q)) (ents h2 ?b) = xs" unfolding e2 xs by simp
  ultimately obtain h3 where h3: "fn h2 (Some ?b) u = Some (st u xs, h3, step u xs)" "heap_ok V h3 E L" "keeps L h2 h3"
    using fn h2(2) unfolding takes_list_def Let_def by metis
  have "keeps L h h2" using h1(3,4,5) h2(3,4) by (auto simp: keeps_def ents_def)
  then have "keeps L h h3" using h3(3) keeps_trans by blast
  then show ?thesis using h1(1) h2(1) h3(1,2) by (auto simp: call_on_scc_def)
qed

lemma scc_loop_run:
  assumes fn: "takes_list V fn st step"
  shows "heap_ok V h E L \<Longrightarrow> a \<in># L \<Longrightarrow> None \<notin> set (ents h a) \<Longrightarrow> order = pre @ flatten cs @ rest \<Longrightarrow> cs \<noteq> [] \<Longrightarrow> [] \<notin> set cs \<Longrightarrow>
    pre \<noteq> [] \<or> length cs \<noteq> 1 \<Longrightarrow> set (concat cs) \<subseteq> {..<length (ents h a)} \<Longrightarrow> n = int (length (concat cs)) \<Longrightarrow>
    \<exists>h' s u'. scc_loop copy free fn a order (length pre) n h u = Some (s, h', u') \<and>
      (s, u') = visit st step u (map (map (\<lambda>i. V (the (ents h a ! i)))) cs) \<and> heap_ok V h' E L \<and> keeps L h h'"
proof (induction cs arbitrary: pre n h u)
  case (Cons c cs)
  have order: "order = pre @ map int c @ -1 # (flatten cs @ rest)" using Cons.prems(4) by (simp add: flatten_def)
  have c: "c \<noteq> []" "set c \<subseteq> {..<length (ents h a)}" using Cons.prems(6,8) by auto
  have "order ! length pre = int (hd c)" "length pre < length order"
    using c(1) by (auto simp: order nth_append hd_conv_nth neq_Nil_conv)
  then have first: "\<not> length order \<le> length pre" "order ! length pre \<noteq> -1" by simp_all
  have scan: "scan_scc order (length pre) n = Some (length pre + length c, n - int (length c))" by (rule scan_scc_run [OF order])
  have n: "n - int (length c) = int (length (concat cs))" using Cons.prems(9) by simp
  have zero: "n - int (length c) = 0 \<longleftrightarrow> cs = []"
  proof -
    have "concat cs = [] \<longleftrightarrow> cs = []" using Cons.prems(6) by (cases cs) auto
    then show ?thesis unfolding n by simp
  qed
  have single: "\<not> (length pre = 0 \<and> n - int (length c) = 0)" using Cons.prems(7) zero by auto
  have "order ! (length pre + i) = int (c ! i)" if "i < length c" for i using that by (simp add: order nth_append)
  from call_on_scc_run [OF Cons.prems(1-3) this c(2) fn refl, of u]
  obtain h1 where h1: "call_on_scc copy free h a order (length pre) (length c) fn u
      = Some (st u (map (\<lambda>i. V (the (ents h a ! i))) c), h1, step u (map (\<lambda>i. V (the (ents h a ! i))) c))" "heap_ok V h1 E L" "keeps L h h1" by auto
  have ea: "ents h1 a = ents h a" using h1(3) Cons.prems(2) by (simp add: keeps_def)
  let ?x = "map (\<lambda>i. V (the (ents h a ! i))) c"
  let ?u = "step u ?x"
  show ?case
  proof (cases "cs = [] \<or> st u ?x < 0")
    case True
    have "0 < n - int (length c) \<longleftrightarrow> cs \<noteq> []" using zero n by linarith
    then have "scc_loop copy free fn a order (length pre) n h u = Some (if st u ?x < 0 \<and> cs \<noteq> [] then -1 else 0, h1, ?u)"
      using True first scan single h1(1) zero by (subst scc_loop.simps) auto
    then show ?thesis using True h1(2,3) by auto
  next
    case False
    let ?pre = "pre @ map int c @ [-1]"
    have more: "cs \<noteq> []" using False by simp
    have "order = ?pre @ flatten cs @ rest" by (simp add: order)
    moreover have "None \<notin> set (ents h1 a)" unfolding ea by (rule Cons.prems(3))
    moreover have "[] \<notin> set cs" "set (concat cs) \<subseteq> {..<length (ents h1 a)}" unfolding ea using Cons.prems(6,8) by simp_all
    moreover have "?pre \<noteq> [] \<or> length cs \<noteq> 1" by simp
    ultimately have "\<exists>h' s u'. scc_loop copy free fn a order (length ?pre) (n - int (length c)) h1 ?u = Some (s, h', u') \<and>
        (s, u') = visit st step ?u (map (map (\<lambda>i. V (the (ents h1 a ! i)))) cs) \<and> heap_ok V h' E L \<and> keeps L h1 h'"
      using Cons.IH [OF h1(2) Cons.prems(2) _ _ more _ _ _ n] by blast
    then obtain h2 s u' where h2: "scc_loop copy free fn a order (length ?pre) (n - int (length c)) h1 ?u = Some (s, h2, u')"
      "(s, u') = visit st step ?u (map (map (\<lambda>i. V (the (ents h a ! i)))) cs)" "heap_ok V h2 E L" "keeps L h1 h2" unfolding ea by blast
    have "scc_loop copy free fn a order (length pre) n h u = scc_loop copy free fn a order (length pre + length c + 1) (n - int (length c)) h1 ?u"
      using first scan single h1(1) zero False by (subst scc_loop.simps) simp
    then show ?thesis using h2 False keeps_trans [OF h1(3) h2(4)] by simp
  qed
qed simp

lemma single_component:
  assumes "components_of E [c]" and "set d = set c" and "distinct d"
  shows "components_of E [d]"
proof -
  have "\<forall>x \<in> set c. set c = {y. (x, y) \<in> E\<^sup>* \<and> (y, x) \<in> E\<^sup>*}" "c \<noteq> []" using assms(1) by (simp_all add: components_of_def)
  moreover have "d \<noteq> []" using \<open>c \<noteq> []\<close> assms(2) by auto
  ultimately have "\<forall>c \<in> set [d]. c \<noteq> [] \<and> (\<forall>x \<in> set c. set c = {y. (x, y) \<in> E\<^sup>* \<and> (y, x) \<in> E\<^sup>*})" unfolding assms(2) [symmetric] by force
  then show ?thesis using assms(1,3) unfolding components_of_def by (simp add: assms(2))
qed

lemma foreach_scc_run:
  assumes ok: "heap_ok V h E L" and a: "a \<in># L" "None \<notin> set (ents h a)" and fn: "takes_list V fn st step"
    and noerr: "\<forall>v w. 0 \<le> follows (Some v) (Some w)" and mem: "enough_memory mem (length (ents h a))"
    and xs: "xs = map (\<lambda>q. V (the q)) (ents h a)"
  shows "\<exists>h' comps s u'. isl_list_foreach_scc copy free mem h (Some a) follows fn u = Some (s, h', u') \<and>
    (s, u') = scc_outcome st step u (map (map ((!) xs)) comps) \<and> heap_ok V h' E L \<and> keeps L h h' \<and>
    components_of (edges (\<lambda>i j. follows (Some (xs ! i)) (Some (xs ! j))) (length xs)) comps \<and> set (concat comps) = {..<length xs}"
proof -
  obtain l where l: "lists h a = Some l" "list_ok l" "ents h a = entries l" using heap_ok_list [OF ok a(1)] by metis
  have n: "l_n l = length xs" "length (ents h a) = length xs" using l length_entries xs by simp_all
  let ?E = "edges (\<lambda>i j. follows (Some (xs ! i)) (Some (xs ! j))) (length xs)"
  obtain h1 b where h1: "isl_list_copy h (Some a) = Some (h1, Some b)" "heap_ok V h1 E (add_mset b L)" "ents h1 b = ents h a" "keeps L h h1"
    using copy_list_run [OF ok a(1)] by (rule givesE)
  obtain h2 where h2: "fn h1 (Some b) u = Some (st u xs, h2, step u xs)" "heap_ok V h2 E L" "keeps L h1 h2"
    using fn h1(2,3) a(2) unfolding takes_list_def Let_def xs by metis
  have k2: "keeps L h h2" using h1(4) h2(3) keeps_trans by blast
  have whole: "map (map ((!) xs)) [[0..<length xs]] = [xs]" by (simp add: map_nth)
  consider "length xs = 0" | "length xs = 1" | "2 \<le> length xs" by linarith
  then show ?thesis
  proof cases
    case 1
    then have "isl_list_foreach_scc copy free mem h (Some a) follows fn u = Some (0, h, u)"
      using l(1) n by (simp add: isl_list_foreach_scc_def)
    then show ?thesis using ok 1 by (intro exI [of _ h] exI [of _ "[]"]) (simp add: scc_outcome_def)
  next
    case 2
    have "components_of ?E [[0]]"
    proof -
      have "?E \<subseteq> {(0, 0)}" using 2 by (auto simp: edges_def)
      have "x = y" if "(x, y) \<in> ?E\<^sup>*" for x y using that by (induction rule: rtrancl_induct) (use \<open>?E \<subseteq> {(0, 0)}\<close> in auto)
      then have "set [0] = {y. (x, y) \<in> ?E\<^sup>* \<and> (y, x) \<in> ?E\<^sup>*}" if "x = 0" for x using that by auto
      then show ?thesis using \<open>?E \<subseteq> {(0, 0)}\<close> by (auto simp: components_of_def)
    qed
    moreover have "isl_list_foreach_scc copy free mem h (Some a) follows fn u = Some (st u xs, h2, step u xs)"
      using l(1) n 2 h1(1) h2(1) by (simp add: isl_list_foreach_scc_def)
    moreover have "scc_outcome st step u (map (map ((!) xs)) [[0]]) = (st u xs, step u xs)" using whole 2 by (simp add: scc_outcome_def)
    ultimately show ?thesis using h2(2) k2 2 by (intro exI [of _ h2] exI [of _ "[[0]]"]) (auto simp: lessThan_Suc)
  next
    case 3
    let ?f = "\<lambda>i j. follows (el_value h (l_p l ! i)) (el_value h (l_p l ! j))"
    have val: "el_value h (l_p l ! i) = Some (xs ! i)" if "i < length xs" for i
    proof -
      have i: "ents h a ! i \<in> set (ents h a)" using that n by simp
      then obtain q where q: "ents h a ! i = Some q" using a(2) by (metis not_None_eq)
      then have "Some q \<in> set (ents h a)" using i by simp
      from heap_ok_element [OF ok list_entry_owned [OF ok a(1) this]] obtain r where "cells (objs h) q = Some (r, V q)" by blast
      moreover have "l_p l ! i = Some q" using q l(3) entries_nth [OF l(2), of i] that n by simp
      moreover have "xs ! i = V q" using q that unfolding xs by simp
      ultimately show ?thesis by (simp add: el_value_def)
    qed
    have E: "edges ?f (length xs) = ?E" using val by (auto simp: edges_def)
    have "\<forall>i < length xs. \<forall>j < length xs. 0 \<le> ?f i j" using val noerr by simp
    from graph_init_run [OF this mem [unfolded n(2)]] obtain g comps where g: "isl_tarjan_graph_init mem (length xs) ?f = Some (Some g)"
      "holds_components ?f (length xs) g comps" "set (concat comps) = {..<length xs}" by blast
    have order: "g_order g = [] @ flatten comps @ drop (g_op g) (g_order g)" and comps: "components_of ?E comps"
      using g(2) unfolding holds_components_def E by (metis append_Nil append_take_drop_id, blast)
    have ne: "[] \<notin> set comps" "distinct (concat comps)" using comps by (auto simp: components_of_def)
    have "0 \<in> set (concat comps)" unfolding g(3) using 3 by (simp del: length_greater_0_conv)
    then have cn: "comps \<noteq> []" by auto
    have len: "int (length (concat comps)) = int (length xs)" using distinct_card [OF ne(2)] g(3) by simp
    have ln: "l_n l \<noteq> 0" "l_n l \<noteq> 1" using n(1) 3 by linarith+
    have run: "isl_list_foreach_scc copy free mem h (Some a) follows fn u = scc_loop copy free fn a (g_order g) 0 (int (length xs)) h u"
      using l(1) ln g(1) n(1) [symmetric] by (simp add: isl_list_foreach_scc_def)
    show ?thesis
    proof (cases "length comps = 1")
      case False
      have sub: "set (concat comps) \<subseteq> {..<length (ents h a)}" unfolding g(3) n(2) by simp
      have one: "[] \<noteq> [] \<or> length comps \<noteq> 1" using False by simp
      from scc_loop_run [OF fn ok a order cn ne(1) one sub len [symmetric], of u] obtain h' s u' where
        h': "scc_loop copy free fn a (g_order g) 0 (int (length xs)) h u = Some (s, h', u')"
          "(s, u') = visit st step u (map (map (\<lambda>i. V (the (ents h a ! i)))) comps)" "heap_ok V h' E L" "keeps L h h'" by auto
      have "V (the (ents h a ! i)) = xs ! i" if "c \<in> set comps" "i \<in> set c" for c i
      proof -
        have "i \<in> set (concat comps)" using that by auto
        then have "i < length (ents h a)" using sub by blast
        then show ?thesis by (simp add: xs)
      qed
      then have "map (map (\<lambda>i. V (the (ents h a ! i)))) comps = map (map ((!) xs)) comps" by (auto intro!: map_cong)
      moreover have "visit st step u (map (map ((!) xs)) comps) = scc_outcome st step u (map (map ((!) xs)) comps)"
        using False by (simp add: scc_outcome_def)
      ultimately show ?thesis using run comps g(3) h' by metis
    next
      case True
      then obtain c where c: "comps = [c]" by (cases comps) auto
      have o: "g_order g = [] @ map int c @ -1 # drop (g_op g) (g_order g)" using order c by (simp add: flatten_def)
      have "c \<noteq> []" "length c = length xs" using ne(1) len c by simp_all
      then obtain y ys where "c = y # ys" by (cases c) auto
      then obtain r where "g_order g = int y # r" using o by simp
      then have first: "\<not> length (g_order g) \<le> 0" "g_order g ! 0 \<noteq> -1" by simp_all
      have "scan_scc (g_order g) 0 (int (length xs)) = Some (length xs, 0)"
        using scan_scc_run [OF o, of "int (length xs)"] \<open>length c = length xs\<close> by simp
      then have run2: "scc_loop copy free fn a (g_order g) 0 (int (length xs)) h u = Some (st u xs, h2, step u xs)"
        using first h1(1) h2(1) by (subst scc_loop.simps) simp
      have "set [0..<length xs] = set c" using g(3) c by (simp only: set_upt lessThan_atLeast0 concat.simps append_Nil2)
      then have "components_of ?E [[0..<length xs]]" by (rule single_component [OF comps [unfolded c]]) simp
      moreover have "set (concat [[0..<length xs]]) = {..<length xs}" by (simp add: lessThan_atLeast0)
      ultimately show ?thesis using run run2 h2(2) k2 whole by (intro exI [of _ h2] exI [of _ "[[0..<length xs]]"]) (simp add: scc_outcome_def)
    qed
  qed
qed

text \<open>\<open>foreach\<close> and \<open>every\<close>.\<close>

lemma foreach_run:
  assumes fn: "takes_element V fn step" and a: "a \<in># L" "None \<notin> set (ents h a)"
  shows "heap_ok V h E L \<Longrightarrow> \<exists>h'. isl_list_foreach copy h (Some a) fn u
    = Some (0, h', foldl step u (map (\<lambda>q. V (the q)) (ents h a))) \<and> heap_ok V h' E L \<and> keeps L h h'"
proof -
  assume ok: "heap_ok V h E L"
  obtain l where l: "lists h a = Some l" "list_ok l" "ents h a = entries l" using heap_ok_list [OF ok a(1)] by metis
  let ?n = "length (ents h a)"
  have loop: "\<exists>h'. list_foreach_loop copy fn a ?n i t u = Some (0, h', foldl step u (map (\<lambda>q. V (the q)) (drop i (ents h a)))) \<and>
      heap_ok V h' E L \<and> keeps L t h'" if "heap_ok V t E L" "ents t a = ents h a" for i t u
    using that
  proof (induction "?n - i" arbitrary: i t u rule: less_induct)
    case less
    show ?case
    proof (cases "i < ?n")
      case True
      then have "ents h a ! i \<in> set (ents h a)" by simp
      then obtain q where q: "ents h a ! i = Some q" using a(2) by (metis not_None_eq)
      have rd: "list_read t a i = Some (Some q)" using list_read_run [OF less.prems(1) a(1), of i] True q less.prems(2) by simp
      have "Some q \<in> set (ents t a)" using q True less.prems(2) by (metis nth_mem)
      from el_copy_run [OF less.prems(1) list_entry_owned [OF less.prems(1) a(1) this]]
      obtain t1 where t1: "el_op copy t (Some q) = Some (t1, Some q)" "heap_ok V t1 (add_mset q E) L" "same_lists t t1" by blast
      obtain t2 where t2: "fn t1 (Some q) u = Some (0, t2, step u (V q))" "heap_ok V t2 E L" "keeps L t1 t2"
        using fn t1(2) unfolding takes_element_def by blast
      have k: "keeps L t t2" using t2(3) same_lists_ents [OF t1(3)] by (simp add: keeps_def)
      have "ents t2 a = ents h a" using k a(1) less.prems(2) by (simp add: keeps_def)
      have "?n - (i + 1) < ?n - i" using True by simp
      from less.hyps [OF this t2(2) \<open>ents t2 a = ents h a\<close>, of "step u (V q)"] obtain h' where
        "list_foreach_loop copy fn a ?n (i + 1) t2 (step u (V q))
          = Some (0, h', foldl step (step u (V q)) (map (\<lambda>q. V (the q)) (drop (i + 1) (ents h a))))" "heap_ok V h' E L" "keeps L t2 h'" by blast
      moreover have "list_foreach_loop copy fn a ?n i t u = list_foreach_loop copy fn a ?n (i + 1) t2 (step u (V q))"
        using True rd t1(1) t2(1) by (subst list_foreach_loop.simps) simp
      moreover have "drop i (ents h a) = Some q # drop (i + 1) (ents h a)" using True q by (metis Cons_nth_drop_Suc Suc_eq_plus1)
      ultimately show ?thesis using k keeps_trans by auto
    next
      case False
      then show ?thesis using less.prems by (subst list_foreach_loop.simps) simp
    qed
  qed
  have "isl_list_foreach copy h (Some a) fn u = list_foreach_loop copy fn a ?n 0 h u"
    using l length_entries by (simp add: isl_list_foreach_def)
  then show ?thesis using loop [OF ok refl, of 0 u] by simp
qed

end

lemma every_run:
  assumes ok: "heap_ok V h E L" and a: "a \<in># L" "None \<notin> set (ents h a)" and t: "\<forall>v. test (Some v) = (if P v then 1 else 0)"
  shows "isl_list_every h (Some a) test = Some (if \<forall>q \<in> set (ents h a). P (V (the q)) then 1 else 0)"
proof -
  obtain l where l: "lists h a = Some l" "list_ok l" "ents h a = entries l" using heap_ok_list [OF ok a(1)] by metis
  let ?n = "length (ents h a)"
  have "list_every_loop test h a ?n i = Some (if \<forall>q \<in> set (drop i (ents h a)). P (V (the q)) then 1 else 0)" for i
  proof (induction "?n - i" arbitrary: i rule: less_induct)
    case less
    show ?case
    proof (cases "i < ?n")
      case True
      then have i: "ents h a ! i \<in> set (ents h a)" by simp
      then obtain q where q: "ents h a ! i = Some q" using a(2) by (metis not_None_eq)
      then have "Some q \<in> set (ents h a)" using i by simp
      from heap_ok_element [OF ok list_entry_owned [OF ok a(1) this]] obtain r where "cells (objs h) q = Some (r, V q)" by blast
      then have v: "el_value h (Some q) = Some (V q)" by (simp add: el_value_def)
      have rd: "list_read h a i = Some (Some q)" using list_read_run [OF ok a(1) True] q by simp
      have d: "drop i (ents h a) = Some q # drop (i + 1) (ents h a)" using True q by (metis Cons_nth_drop_Suc Suc_eq_plus1)
      have "list_every_loop test h a ?n (i + 1) = Some (if \<forall>q \<in> set (drop (i + 1) (ents h a)). P (V (the q)) then 1 else 0)"
        using True by (intro less.hyps) simp
      then show ?thesis unfolding d using True rd v t by (subst list_every_loop.simps) simp
    next
      case False
      then show ?thesis by (subst list_every_loop.simps) simp
    qed
  qed
  from this [of 0] show ?thesis using l length_entries by (simp add: isl_list_every_def)
qed

subsection \<open>The components of a list of values\<close>

text \<open>
  A callback that takes down the values of the list it is given, releases the list, and fails on the
  lists of a given length.
\<close>

definition collect_unless :: "nat \<Rightarrow> (isl_val, isl_val list list) callback" where
  "collect_unless n h list u = (case list of None \<Rightarrow> Some (-1, h, u)
     | Some a \<Rightarrow> do {
         l \<leftarrow> lists h a;
         (h', _) \<leftarrow> isl_list_free isl_val_free h list;
         Some (if l_n l = n then -1 else 0, h', u @ [map (\<lambda>q. the (el_value h q)) (entries l)])
       })"

lemma collect_unless_callback:
  "list_callback (collect_unless n) (\<lambda>_ xs. if length xs = n then -1 else 0) (\<lambda>u xs. u @ [xs])"
proof (unfold list_callback_def takes_list_def Let_def, intro allI impI)
  fix V and h :: "isl_val heap" and E L a and u :: "isl_val list list"
  assume ok: "heap_ok V h E (add_mset a L)" and ne: "None \<notin> set (ents h a)"
  obtain l where l: "lists h a = Some l" "list_ok l" "ents h a = entries l"
    using heap_ok_list [OF ok, of a] by (metis union_single_eq_member)
  obtain h' where h': "isl_list_free isl_val_free h (Some a) = Some (h', None)" "heap_ok V h' E L" "keeps L h h'"
    using val_list.list_free_run [OF ok] by blast
  have "the (el_value h q) = V (the q)" if q: "q \<in> set (entries l)" for q
  proof -
    have "q \<noteq> None" using q ne l(3) by metis
    then obtain w where w: "q = Some w" by blast
    have "a \<in># add_mset a L" by simp
    from heap_ok_element [OF ok list_entry_owned [OF ok this, of w]] obtain r where "cells (objs h) w = Some (r, V w)"
      using q w l(3) by auto
    then show ?thesis by (simp add: el_value_def w)
  qed
  then have "map (\<lambda>q. the (el_value h q)) (entries l) = map (\<lambda>q. V (the q)) (entries l)" by simp
  then show "\<exists>h'. collect_unless n h (Some a) u =
      Some (if length (map (\<lambda>q. V (the q)) (ents h a)) = n then -1 else 0, h', u @ [map (\<lambda>q. V (the q)) (ents h a)]) \<and>
      heap_ok V h' E L \<and> keeps L h h'"
    using l h' length_entries [OF l(2)] by (auto simp: collect_unless_def)
qed

lemma list_sim_keeps:
  assumes sim: "list_sim V h e l AB" and ok: "heap_ok V h' (held e) (held l)" and k: "keeps (held l) h h'"
  shows "list_sim V h' e l AB"
proof -
  have "ents h' a = ents h a" if "l x = Some a" for x a
    using k that in_held [of l a] list_sim_fin [OF sim] unfolding keeps_def by auto
  then show ?thesis using sim ok unfolding list_sim_def by (auto simp: option.map_comp split: option.splits intro!: map_option_cong)
qed

lemma val_list_scc_run:
  assumes sens: "list_sensible_all cs (\<lambda>_. None, \<lambda>_. None)" and x: "snd (list_value_all cs (\<lambda>_. None, \<lambda>_. None)) x = Some xs"
    and noerr: "\<forall>v w. 0 \<le> follows (Some v) (Some w)" and mem: "enough_memory mem (length xs)" and fn: "list_callback fn st step"
  shows "\<exists>h e l h' comps s u'. list_exec_all isl_val_copy isl_val_free cs (empty_heap junk, \<lambda>_. None, \<lambda>_. None) = Some (h, e, l) \<and>
    isl_list_foreach_scc isl_val_copy isl_val_free mem h (l x) follows fn u = Some (s, h', u') \<and>
    (s, u') = scc_outcome st step u (map (map ((!) xs)) comps) \<and>
    components_of (edges (\<lambda>i j. follows (Some (xs ! i)) (Some (xs ! j))) (length xs)) comps \<and>
    set (concat comps) = {..<length xs} \<and>
    (\<forall>y. snd (list_value_all cs (\<lambda>_. None, \<lambda>_. None)) y =
      map_option (\<lambda>a. map (\<lambda>q. the (el_value h' q)) (ents h' a)) (l y))"
proof -
  obtain V h e l where run: "list_exec_all isl_val_copy isl_val_free cs (empty_heap junk, \<lambda>_. None, \<lambda>_. None) = Some (h, e, l)"
    and sim: "list_sim V h e l (list_value_all cs (\<lambda>_. None, \<lambda>_. None))"
    using val_list.list_exec_all_run [OF empty_heap_sim sens, of junk] by blast
  obtain A B where AB: "list_value_all cs (\<lambda>_. None, \<lambda>_. None) = (A, B)" by fastforce
  have "list_sim V h e l (A, B)" "B x = Some xs" using sim AB x by simp_all
  then obtain a where a: "l x = Some a" "xs = map (\<lambda>q. V (the q)) (ents h a)" "None \<notin> set (ents h a)" "length (ents h a) = length xs"
    "held l = add_mset a (held (l(x := None)))" by (rule list_sim_var)
  have ok: "heap_ok V h (held e) (held l)" using list_sim_fin [OF sim] by simp
  have "a \<in># held l" using a(5) by simp
  have fnV: "takes_list V fn st step" using fn by (simp add: list_callback_def)
  from val_list.foreach_scc_run [OF ok \<open>a \<in># held l\<close> a(3) fnV noerr mem [folded a(4)] a(2), of u]
  obtain h' comps s u' where s: "isl_list_foreach_scc isl_val_copy isl_val_free mem h (l x) follows fn u = Some (s, h', u')"
      "(s, u') = scc_outcome st step u (map (map ((!) xs)) comps)"
      "heap_ok V h' (held e) (held l)" "keeps (held l) h h'"
      "components_of (edges (\<lambda>i j. follows (Some (xs ! i)) (Some (xs ! j))) (length xs)) comps" "set (concat comps) = {..<length xs}"
    unfolding a(1) by blast
  have "list_sim V h' e l (A, B)" using list_sim_keeps [OF sim s(3,4)] by (simp add: AB)
  note v = list_sim_values(2) [OF this]
  have "\<forall>y. snd (list_value_all cs (\<lambda>_. None, \<lambda>_. None)) y =
      map_option (\<lambda>a. map (\<lambda>q. the (el_value h' q)) (ents h' a)) (l y)" using v by (simp add: AB)
  then show ?thesis using run s(1,2,5,6) by blast
qed

text \<open>
  C17: \<open>isl_list_foreach_scc\<close> on a list that any program has built, with a callback \<open>follows\<close> that does
  not fail, enough memory, and any callback \<open>fn\<close> that releases the list it is given and leaves the
  other lists as they are, whatever status it returns, calls \<open>fn\<close> on the strongly connected
  components of the elements, each on a list of its elements and never before those that it follows,
  once for each component until \<open>fn\<close> fails; every list variable is as it was.  The result is 0 when
  \<open>fn\<close> does not fail, -1 when it fails on a component other than the last and 0, not -1, when it
  fails on the last of several; with a single component it is the status of \<open>fn\<close>.
\<close>

theorem val_list_foreach_scc:
  assumes "list_sensible_all cs (\<lambda>_. None, \<lambda>_. None)" and "snd (list_value_all cs (\<lambda>_. None, \<lambda>_. None)) x = Some xs"
    and "\<forall>v w. 0 \<le> follows (Some v) (Some w)" and "enough_memory mem (length xs)" and "list_callback fn st step"
  shows "\<exists>h e l h' comps s u'. list_exec_all isl_val_copy isl_val_free cs (empty_heap junk, \<lambda>_. None, \<lambda>_. None) = Some (h, e, l) \<and>
    isl_list_foreach_scc isl_val_copy isl_val_free mem h (l x) follows fn u = Some (s, h', u') \<and>
    (s, u') = scc_outcome st step u (map (map ((!) xs)) comps) \<and>
    components_of (edges (\<lambda>i j. follows (Some (xs ! i)) (Some (xs ! j))) (length xs)) comps \<and>
    set (concat comps) = {..<length xs} \<and>
    (\<forall>y. snd (list_value_all cs (\<lambda>_. None, \<lambda>_. None)) y =
      map_option (\<lambda>a. map (\<lambda>q. the (el_value h' q)) (ents h' a)) (l y))"
  using assms by (rule val_list_scc_run)

text \<open>
  The values \<open>1, 2, 3\<close>, where \<open>1\<close> follows all and \<open>2\<close> and \<open>3\<close> follow each other: a failure on the
  first component, of two values, stops with -1, and a failure on the last, of one value, is lost.
\<close>

definition after_one :: "isl_val option \<Rightarrow> isl_val option \<Rightarrow> int" where
  "after_one v w = (if val_n (the v) = 1 \<or> val_n (the w) \<noteq> 1 then 1 else 0)"

definition one_two_three :: "isl_val list_cmd list" where
  "one_two_three = [NewEl 0 \<lparr>val_n = 1, val_d = 1\<rparr>, NewEl 1 \<lparr>val_n = 2, val_d = 1\<rparr>, NewEl 2 \<lparr>val_n = 3, val_d = 1\<rparr>,
     FromEl 0 0, AddEl 0 1, AddEl 0 2]"

lemma one_two_three_run:
  "map_option (\<lambda>(h, e, l). map_option (\<lambda>(s, h', u). (s, u))
      (isl_list_foreach_scc isl_val_copy isl_val_free sample_memory h (l 0) after_one (collect_unless 2) []))
      (list_exec_all isl_val_copy isl_val_free one_two_three (empty_heap (\<lambda>_. Some 9), \<lambda>_. None, \<lambda>_. None))
    = Some (Some (-1, [[\<lparr>val_n = 2, val_d = 1\<rparr>, \<lparr>val_n = 3, val_d = 1\<rparr>]]))"
  by code_simp

lemma last_failure_is_lost:
  "map_option (\<lambda>(h, e, l). map_option (\<lambda>(s, h', u). (s, u))
      (isl_list_foreach_scc isl_val_copy isl_val_free sample_memory h (l 0) after_one (collect_unless 1) []))
      (list_exec_all isl_val_copy isl_val_free one_two_three (empty_heap (\<lambda>_. Some 9), \<lambda>_. None, \<lambda>_. None))
    = Some (Some (0, [[\<lparr>val_n = 2, val_d = 1\<rparr>, \<lparr>val_n = 3, val_d = 1\<rparr>], [\<lparr>val_n = 1, val_d = 1\<rparr>]]))"
  by code_simp

theorem val_list_foreach_scc_witness:
  "\<exists>h e l h' comps. list_exec_all isl_val_copy isl_val_free one_two_three (empty_heap (\<lambda>_. Some 9), \<lambda>_. None, \<lambda>_. None)
      = Some (h, e, l) \<and>
    isl_list_foreach_scc isl_val_copy isl_val_free sample_memory h (l 0) after_one (collect_unless 2) []
      = Some (-1, h', [[\<lparr>val_n = 2, val_d = 1\<rparr>, \<lparr>val_n = 3, val_d = 1\<rparr>]]) \<and>
    set (concat comps) = {..<3 :: nat} \<and> (\<forall>y. (case l y of None \<Rightarrow> True | Some a \<Rightarrow> y = 0 \<and> length (ents h' a) = 3))"
proof -
  let ?xs = "[\<lparr>val_n = 1, val_d = 1\<rparr>, \<lparr>val_n = 2, val_d = 1\<rparr>, \<lparr>val_n = 3, val_d = 1\<rparr>]"
  have sens: "list_sensible_all one_two_three (\<lambda>_. None, \<lambda>_. None)" "snd (list_value_all one_two_three (\<lambda>_. None, \<lambda>_. None)) = [0 \<mapsto> ?xs]"
    by (simp_all add: one_two_three_def)
  then have x: "snd (list_value_all one_two_three (\<lambda>_. None, \<lambda>_. None)) 0 = Some ?xs" by simp
  have "\<forall>v w. 0 \<le> after_one (Some v) (Some w)" "enough_memory sample_memory (length ?xs)"
    by (simp_all add: after_one_def enough_memory_def sample_memory_def)
  from val_list_foreach_scc [OF sens(1) x this collect_unless_callback [of 2], of "\<lambda>_. Some 9" "[]"]
  obtain h e l h' comps s u' where r: "list_exec_all isl_val_copy isl_val_free one_two_three (empty_heap (\<lambda>_. Some 9), \<lambda>_. None, \<lambda>_. None)
        = Some (h, e, l)"
      "isl_list_foreach_scc isl_val_copy isl_val_free sample_memory h (l 0) after_one (collect_unless 2) [] = Some (s, h', u')"
      "set (concat comps) = {..<length ?xs}"
      and v: "\<forall>y. snd (list_value_all one_two_three (\<lambda>_. None, \<lambda>_. None)) y =
        map_option (\<lambda>a. map (\<lambda>q. the (el_value h' q)) (ents h' a)) (l y)" by blast
  have "s = -1" "u' = [[\<lparr>val_n = 2, val_d = 1\<rparr>, \<lparr>val_n = 3, val_d = 1\<rparr>]]"
    using one_two_three_run unfolding r(1) by (simp_all add: r(2))
  moreover have "case l y of None \<Rightarrow> True | Some a \<Rightarrow> y = 0 \<and> length (ents h' a) = 3" for y
    using v [rule_format, of y] unfolding sens(2) by (auto split: option.splits if_splits dest: arg_cong [where f = length])
  moreover have "set (concat comps) = {..<3 :: nat}" using r(3) by (simp add: numeral_3_eq_3)
  ultimately show ?thesis using r(1,2) by blast
qed

end
