(* ===== verification/Hash_Table.thy ===== *)
theory Hash_Table imports Hashing "HOL-Library.While_Combinator" "HOL-Library.Multiset" begin

text \<open>
  The hash table of isl_hash.c: open addressing with linear probing, growth by
  rehashing into an array of twice the size, and removal by moving the following
  entries back.  Every entry stays reachable from the slot its hash code names,
  which makes the searches end and find what is stored.
\<close>

unbundle bit_operations_syntax

subsection \<open>The table\<close>

text \<open>
  \<open>struct isl_hash_table_entry\<close> and \<open>struct isl_hash_table\<close>.  A slot holds a hash
  code and a pointer; \<open>None\<close> is the null pointer of an empty slot.  The array of
  \<open>entries\<close> may be null itself (\<open>None\<close>) when its allocation failed.
\<close>

record 'a isl_hash_table_entry =
  entry_hash :: u32
  entry_data :: "'a option"

record 'a isl_hash_table =
  table_bits :: nat
  table_n :: nat
  table_entries :: "'a isl_hash_table_entry list option"

definition empty_slot :: "'a isl_hash_table_entry" where
  "empty_slot = \<lparr>entry_hash = 0, entry_data = None\<rparr>"

text \<open>The entries of a table whose array exists.\<close>

abbreviation slots :: "'a isl_hash_table \<Rightarrow> 'a isl_hash_table_entry list" where
  "slots table \<equiv> the (table_entries table)"

text \<open>
  \<open>round_up\<close> clears the lowest set bit until one bit is left and shifts that to
  the left: the smallest power of two above \<open>v\<close>.
\<close>

lemma clear_lowest: "v XOR (v AND - v) = v AND (v - 1)" for v :: u32
proof -
  have "- v = NOT (v - 1)" by (simp add: not_eq_complement)
  then show ?thesis by (simp add: bit_eq_iff bit_simps) blast
qed

lemma clear_lowest_less:
  fixes v :: u32
  assumes "v \<noteq> 0"
  shows "unat (v XOR (v AND - v)) < unat v"
proof -
  have "v AND (v - 1) \<le> v - 1" using word_and_le1 by blast
  moreover have "unat (v - 1) < unat v" using assms by (rule measure_unat)
  ultimately show ?thesis by (simp add: clear_lowest word_le_nat_alt)
qed

function round_up_loop :: "u32 \<Rightarrow> u32 \<Rightarrow> u32" where
  "round_up_loop old_v v = (if v = 0 then old_v else round_up_loop v (v XOR (v AND - v)))"
  by pat_completeness auto
termination by (relation "measure (\<lambda>(old_v, v). unat v)") (simp_all add: clear_lowest_less)

declare round_up_loop.simps [simp del]

definition round_up :: "u32 \<Rightarrow> u32" where
  "round_up v = push_bit 1 (round_up_loop v v)"

text \<open>\<open>__builtin_ffs\<close>: one plus the position of the lowest set bit, 0 if there is none.\<close>

definition ffs :: "u32 \<Rightarrow> nat" where
  "ffs v = (case List.find (bit v) [0..<32] of None \<Rightarrow> 0 | Some i \<Rightarrow> Suc i)"

text \<open>
  \<open>calloc_ok sz\<close> says whether the allocation of an array of \<open>sz\<close> entries succeeds.
\<close>

definition isl_calloc_entries :: "(nat \<Rightarrow> bool) \<Rightarrow> nat \<Rightarrow> 'a isl_hash_table_entry list option" where
  "isl_calloc_entries calloc_ok sz = (if calloc_ok sz then Some (replicate sz empty_slot) else None)"

definition isl_hash_table_init :: "(nat \<Rightarrow> bool) \<Rightarrow> int \<Rightarrow> unit res \<times> 'a isl_hash_table" where
  "isl_hash_table_init calloc_ok min_size =
     (let min_size = (if min_size < 2 then 2 else min_size);
          bits = ffs (round_up (word_of_int (4 * (min_size + 1) div 3 - 1))) - 1;
          entries = isl_calloc_entries calloc_ok (2 ^ bits);
          table = \<lparr>table_bits = bits, table_n = 0, table_entries = entries\<rparr>
      in if entries = None then (Inl isl_error_alloc, table) else (Inr (), table))"

definition isl_hash_table_alloc :: "bool \<Rightarrow> (nat \<Rightarrow> bool) \<Rightarrow> int \<Rightarrow> 'a isl_hash_table res" where
  "isl_hash_table_alloc malloc_ok calloc_ok min_size =
     (if \<not> malloc_ok then Inl isl_error_alloc
      else case isl_hash_table_init calloc_ok min_size of
             (Inl e, _) \<Rightarrow> Inl e
           | (Inr _, table) \<Rightarrow> Inr table)"

subsection \<open>Lookup and reservation\<close>

text \<open>\<open>for (h = start; p(h); h = (h+1) % size);\<close>\<close>

definition probe :: "(nat \<Rightarrow> bool) \<Rightarrow> nat \<Rightarrow> nat \<Rightarrow> nat option" where
  "probe p sz start = while_option p (\<lambda>h. Suc h mod sz) start"

text \<open>
  The comparison is skipped when the hash codes differ; it may fail.  The search
  stops at an empty slot, at an error and at a match.
\<close>

definition skip_entry :: "'a isl_hash_table_entry \<Rightarrow> u32 \<Rightarrow> ('a \<Rightarrow> bool res) \<Rightarrow> bool" where
  "skip_entry entry key_hash eq =
     (case entry_data entry of
        None \<Rightarrow> False
      | Some data \<Rightarrow> entry_hash entry \<noteq> key_hash \<or> eq data = Inr False)"

definition no :: "'a \<Rightarrow> bool res" where
  "no entry = Inr False"

text \<open>
  The result of \<open>isl_hash_table_find\<close>: \<open>Inl e\<close> is \<open>NULL\<close>, \<open>Inr None\<close> the address of
  \<open>none\<close>, \<open>Inr (Some h)\<close> the address of slot \<open>h\<close>.  The table may have grown.  The
  outer option is \<open>None\<close> when the search does not end.
\<close>

type_synonym 'a find_result = "(nat option res \<times> 'a isl_hash_table) option"

text \<open>
  The loop of \<open>grow_table\<close> over the old array: each datum gets a slot in the new
  table from \<open>lookup\<close>, which is \<open>isl_hash_table_find\<close> itself.
\<close>

fun rehash ::
  "('a isl_hash_table \<Rightarrow> u32 \<Rightarrow> ('a \<Rightarrow> bool res) \<Rightarrow> bool \<Rightarrow> 'a find_result) \<Rightarrow>
   'a isl_hash_table_entry list \<Rightarrow> 'a isl_hash_table \<Rightarrow> 'a isl_hash_table res option" where
  "rehash lookup [] table = Some (Inr table)"
| "rehash lookup (e # es) table =
     (case entry_data e of
        None \<Rightarrow> rehash lookup es table
      | Some _ \<Rightarrow> (case lookup table (entry_hash e) no True of
            None \<Rightarrow> None
          | Some (Inl err, _) \<Rightarrow> Some (Inl err)
          | Some (Inr None, _) \<Rightarrow> None
          | Some (Inr (Some h), table) \<Rightarrow>
              rehash lookup es (table\<lparr>table_entries := Some ((slots table)[h := e])\<rparr>)))"

definition grow_table ::
  "(nat \<Rightarrow> bool) \<Rightarrow>
   ('a isl_hash_table \<Rightarrow> u32 \<Rightarrow> ('a \<Rightarrow> bool res) \<Rightarrow> bool \<Rightarrow> 'a find_result) \<Rightarrow>
   'a isl_hash_table \<Rightarrow> (unit res \<times> 'a isl_hash_table) option" where
  "grow_table calloc_ok lookup table =
     (let old_size = 2 ^ table_bits table; size = 2 * old_size
      in case isl_calloc_entries calloc_ok size of
           None \<Rightarrow> Some (Inl isl_error_alloc, table)
         | Some entries \<Rightarrow>
             (case rehash lookup (slots table)
                     \<lparr>table_bits = Suc (table_bits table), table_n = 0, table_entries = Some entries\<rparr> of
                None \<Rightarrow> None
              | Some (Inl err) \<Rightarrow> Some (Inl err, table)
              | Some (Inr table') \<Rightarrow> Some (Inr (), table')))"

text \<open>
  \<open>isl_hash_table_find\<close> and \<open>grow_table\<close> call each other; the first argument bounds
  the depth of these calls.
\<close>

fun isl_hash_table_find ::
  "nat \<Rightarrow> (nat \<Rightarrow> bool) \<Rightarrow> 'a isl_hash_table \<Rightarrow> u32 \<Rightarrow> ('a \<Rightarrow> bool res) \<Rightarrow> bool \<Rightarrow> 'a find_result" where
  "isl_hash_table_find 0 calloc_ok table key_hash eq reserve = None"
| "isl_hash_table_find (Suc depth) calloc_ok table key_hash eq reserve =
     (let key_bits = unat (isl_hash_bits key_hash (table_bits table));
          size = 2 ^ table_bits table
      in case probe (\<lambda>h. skip_entry (slots table ! h) key_hash eq) size key_bits of
           None \<Rightarrow> None
         | Some h \<Rightarrow>
             (case entry_data (slots table ! h) of
                Some data \<Rightarrow> (case eq data of Inl err \<Rightarrow> Some (Inl err, table)
                                           | Inr _ \<Rightarrow> Some (Inr (Some h), table))
              | None \<Rightarrow>
                  if \<not> reserve then Some (Inr None, table)
                  else if 3 * size \<le> 4 * table_n table then
                    (case grow_table calloc_ok (isl_hash_table_find depth calloc_ok) table of
                       None \<Rightarrow> None
                     | Some (Inl err, table) \<Rightarrow> Some (Inl err, table)
                     | Some (Inr _, table) \<Rightarrow> isl_hash_table_find depth calloc_ok table key_hash eq True)
                  else
                    Some (Inr (Some h),
                      table\<lparr>table_n := Suc (table_n table),
                            table_entries := Some ((slots table)[h := (slots table ! h)\<lparr>entry_hash := key_hash\<rparr>])\<rparr>)))"

subsection \<open>Traversal\<close>

definition isl_hash_table_first :: "'a isl_hash_table \<Rightarrow> nat option res" where
  "isl_hash_table_first table =
     (case table_entries table of
        None \<Rightarrow> Inl isl_error_none
      | Some entries \<Rightarrow> Inr (List.find (\<lambda>h. entry_data (entries ! h) \<noteq> None) [0..<2 ^ table_bits table]))"

text \<open>The callback gets the address of the datum, which it may change.\<close>

fun foreach_loop ::
  "('a option \<Rightarrow> 's \<Rightarrow> unit res \<times> 'a option \<times> 's) \<Rightarrow> 'a isl_hash_table_entry list \<Rightarrow> 's \<Rightarrow>
   unit res \<times> 'a isl_hash_table_entry list \<times> 's" where
  "foreach_loop fn [] user = (Inr (), [], user)"
| "foreach_loop fn (e # es) user =
     (if entry_data e = None then
        let (r, es, user) = foreach_loop fn es user in (r, e # es, user)
      else case fn (entry_data e) user of
             (Inl err, d, user) \<Rightarrow> (Inl err, e\<lparr>entry_data := d\<rparr> # es, user)
           | (Inr _, d, user) \<Rightarrow>
               let (r, es, user) = foreach_loop fn es user in (r, e\<lparr>entry_data := d\<rparr> # es, user))"

definition isl_hash_table_foreach ::
  "'a isl_hash_table \<Rightarrow> ('a option \<Rightarrow> 's \<Rightarrow> unit res \<times> 'a option \<times> 's) \<Rightarrow> 's \<Rightarrow>
   unit res \<times> 'a isl_hash_table \<times> 's" where
  "isl_hash_table_foreach table fn user =
     (case table_entries table of
        None \<Rightarrow> (Inl isl_error_none, table, user)
      | Some entries \<Rightarrow>
          let (r, es, user) = foreach_loop fn entries user in (r, table\<lparr>table_entries := Some es\<rparr>, user))"

fun every_loop :: "('a \<Rightarrow> bool res) \<Rightarrow> 'a isl_hash_table_entry list \<Rightarrow> bool res" where
  "every_loop test [] = Inr True"
| "every_loop test (e # es) =
     (case entry_data e of
        None \<Rightarrow> every_loop test es
      | Some data \<Rightarrow> (case test data of Inr True \<Rightarrow> every_loop test es | r \<Rightarrow> r))"

definition isl_hash_table_every :: "'a isl_hash_table \<Rightarrow> ('a \<Rightarrow> bool res) \<Rightarrow> bool res" where
  "isl_hash_table_every table test =
     (case table_entries table of None \<Rightarrow> Inl isl_error_none | Some entries \<Rightarrow> every_loop test entries)"

subsection \<open>Removal\<close>

text \<open>
  The loop of \<open>isl_hash_table_remove\<close>: \<open>h\<close> is the slot to be vacated, \<open>h2\<close> runs over
  the slots that follow it; both count on past the end of the array.  \<open>offset\<close> is
  how far the slot in which the entry at \<open>h2\<close> would like to be lies behind \<open>h+1\<close>;
  its subtraction is done on a \<open>size_t\<close> of 64 bits.
\<close>

type_synonym 'a remove_state = "nat \<times> nat \<times> 'a isl_hash_table_entry list"

definition remove_cond :: "nat \<Rightarrow> 'a remove_state \<Rightarrow> bool" where
  "remove_cond sz = (\<lambda>(h, h2, es). entry_data (es ! (h2 mod sz)) \<noteq> None)"

definition remove_step :: "nat \<Rightarrow> nat \<Rightarrow> 'a remove_state \<Rightarrow> 'a remove_state" where
  "remove_step tbits sz = (\<lambda>(h, h2, es).
     let bits = unat (isl_hash_bits (entry_hash (es ! (h2 mod sz))) tbits);
         offset = ((2 ^ 64 + sz + bits - (h + 1)) mod 2 ^ 64) mod sz
     in if offset \<le> h2 - (h + 1) then (h, h2 + 1, es)
        else (h2, h2 + 1, es[h mod sz := es ! (h2 mod sz)]))"

definition isl_hash_table_remove :: "'a isl_hash_table \<Rightarrow> nat \<Rightarrow> 'a isl_hash_table res option" where
  "isl_hash_table_remove table entry =
     (let size = 2 ^ table_bits table
      in if \<not> entry < size then Some (isl_die isl_error_unknown)
         else map_option
           (\<lambda>(h, h2, es). Inr (table\<lparr>table_n := table_n table - 1,
                                     table_entries := Some (es[h mod size := empty_slot])\<rparr>))
           (while_option (remove_cond size) (remove_step (table_bits table) size)
              (entry, entry + 1, slots table)))"


subsection \<open>Distances on the ring\<close>

text \<open>How far slot \<open>p\<close> lies behind slot \<open>b\<close> on a ring of \<open>s\<close> slots.\<close>

definition dist :: "nat \<Rightarrow> nat \<Rightarrow> nat \<Rightarrow> nat" where
  "dist s b p = (if b \<le> p then p - b else p + s - b)"

lemma dist_simps [simp]: "dist s b b = 0" "b < s \<Longrightarrow> p < s \<Longrightarrow> dist s b p = 0 \<longleftrightarrow> b = p"
  by (auto simp: dist_def)

lemma dist_less: "b < s \<Longrightarrow> p < s \<Longrightarrow> dist s b p < s"
  by (auto simp: dist_def)

lemma dist_inj:
  assumes "b < s" "p < s" "q < s" "dist s b p = dist s b q"
  shows "p = q"
  using assms by (simp add: dist_def split: if_split_asm)

lemma dist_Suc_left:
  assumes "h < s" "e < s" "h \<noteq> e"
  shows "Suc (dist s (Suc h mod s) e) = dist s h e"
proof (cases "Suc h = s")
  case True
  with assms show ?thesis by (simp add: dist_def)
next
  case False
  with assms have "Suc h < s" by simp
  with assms show ?thesis by (auto simp: dist_def)
qed

lemma dist_Suc_right:
  assumes "b < s" "h < s" "Suc (dist s b h) < s"
  shows "dist s b (Suc h mod s) = Suc (dist s b h)"
proof (cases "Suc h = s")
  case True
  with assms show ?thesis by (auto simp: dist_def split: if_split_asm)
next
  case False
  with assms have "Suc h < s" by simp
  with assms show ?thesis by (auto simp: dist_def split: if_split_asm)
qed

lemma probe_stops:
  assumes "b < s" and "e < s" and "\<not> P e"
  obtains h where "probe P s b = Some h" and "h < s" and "\<not> P h"
    and "\<And>p. p < s \<Longrightarrow> dist s b p < dist s b h \<Longrightarrow> P p"
proof -
  define I where "I h \<longleftrightarrow> h < s \<and> (\<forall>p < s. dist s b p < dist s b h \<longrightarrow> P p)" for h
  have step: "I (Suc h mod s) \<and> dist s (Suc h mod s) e < dist s h e" if I: "I h" and P: "P h" for h
  proof -
    have h: "h < s" "h \<noteq> e" using that assms(3) by (auto simp: I_def)
    have "\<not> dist s b e < dist s b h" using I assms(2,3) by (auto simp: I_def)
    moreover have "dist s b e \<noteq> dist s b h" using dist_inj [OF assms(1,2) h(1)] h(2) by auto
    ultimately have le: "dist s b h < dist s b e" by simp
    then have nxt: "dist s b (Suc h mod s) = Suc (dist s b h)"
      using dist_less [OF assms(1,2)] by (intro dist_Suc_right) (use assms(1) h in auto)
    have "P p" if p: "p < s" "dist s b p < Suc (dist s b h)" for p
    proof (cases "dist s b p = dist s b h")
      case True
      then have "p = h" using dist_inj assms(1) p(1) h(1) by blast
      with P show ?thesis by simp
    next
      case False
      with I p show ?thesis by (auto simp: I_def)
    qed
    moreover have "Suc h mod s < s" using h(1) by simp
    ultimately show ?thesis
      using dist_Suc_left [OF h(1) assms(2) h(2)] by (simp add: I_def nxt)
  qed
  have I0: "I b" using assms(1) by (simp add: I_def)
  obtain h where h: "while_option P (\<lambda>h. Suc h mod s) b = Some h"
    using measure_while_option_Some [where P = I and b = P and c = "\<lambda>h. Suc h mod s" and f = "\<lambda>h. dist s h e"]
      step I0 by blast
  have "I h \<and> \<not> P h"
    using while_option_rule [where P = I, OF _ h I0] step while_option_stop [OF h] by blast
  with h that show ?thesis by (auto simp: probe_def I_def)
qed

subsection \<open>The invariant and the contents of a table\<close>

definition occupied :: "'a isl_hash_table_entry list \<Rightarrow> nat \<Rightarrow> bool" where
  "occupied es i \<longleftrightarrow> entry_data (es ! i) \<noteq> None"

definition home :: "nat \<Rightarrow> 'a isl_hash_table_entry \<Rightarrow> nat" where
  "home bits e = unat (isl_hash_bits (entry_hash e) bits)"

text \<open>
  Every entry can be reached from the slot its hash code names without crossing an
  empty slot.
\<close>

definition chained :: "nat \<Rightarrow> 'a isl_hash_table_entry list \<Rightarrow> bool" where
  "chained bits es \<longleftrightarrow>
     (\<forall>i < length es. occupied es i \<longrightarrow>
        (\<forall>p < length es. dist (length es) (home bits (es ! i)) p < dist (length es) (home bits (es ! i)) i
           \<longrightarrow> occupied es p))"

text \<open>The hash codes and data of the occupied slots.\<close>

definition entries_mset :: "'a isl_hash_table_entry list \<Rightarrow> (u32 \<times> 'a) multiset" where
  "entries_mset es = mset (List.map_filter (\<lambda>e. map_option (Pair (entry_hash e)) (entry_data e)) es)"

definition contents :: "'a isl_hash_table \<Rightarrow> (u32 \<times> 'a) multiset" where
  "contents table = entries_mset (slots table)"

text \<open>
  Tables of up to \<open>2 ^ 29\<close> entries: beyond that \<open>4 * table->n\<close> overflows an \<open>int\<close>.
\<close>

definition table_ok :: "'a isl_hash_table \<Rightarrow> bool" where
  "table_ok table \<longleftrightarrow>
     2 \<le> table_bits table \<and> table_bits table \<le> 29 \<and> table_entries table \<noteq> None \<and>
     length (slots table) = 2 ^ table_bits table \<and>
     table_n table = size (contents table) \<and> table_n table < 2 ^ table_bits table \<and>
     chained (table_bits table) (slots table)"

lemma home_less: "2 \<le> bits \<Longrightarrow> bits \<le> 29 \<Longrightarrow> home bits e < 2 ^ bits"
  unfolding home_def by (rule isl_hash_bits_less) simp_all

lemma entries_mset_simps [simp]:
  "entries_mset [] = {#}"
  "entries_mset (e # es) =
     (case entry_data e of None \<Rightarrow> entries_mset es | Some d \<Rightarrow> add_mset (entry_hash e, d) (entries_mset es))"
  "entries_mset (es @ fs) = entries_mset es + entries_mset fs"
  "entries_mset (replicate k empty_slot) = {#}"
proof -
  show "entries_mset (replicate k empty_slot) = {#}"
    by (induction k) (simp_all add: entries_mset_def List.map_filter_simps empty_slot_def)
  show "entries_mset (es @ fs) = entries_mset es + entries_mset fs"
    by (induction es) (simp_all add: entries_mset_def List.map_filter_simps split: option.split)
qed (simp_all add: entries_mset_def List.map_filter_simps split: option.split)

lemma size_entries_mset: "size (entries_mset es) \<le> length es"
  by (induction es) (auto split: option.split)

lemma size_entries_mset_full:
  "size (entries_mset es) = length es \<longleftrightarrow> (\<forall>i < length es. occupied es i)"
proof (induction es)
  case (Cons e es)
  have "Suc (length es) \<noteq> size (entries_mset es)" using size_entries_mset [of es] by simp
  with Cons show ?case
    by (auto simp: occupied_def All_less_Suc2 split: option.split)
qed simp

lemma empty_slot_exists:
  assumes "table_ok table"
  obtains e where "e < length (slots table)" and "\<not> occupied (slots table) e"
  using assms size_entries_mset_full [of "slots table"] by (auto simp: table_ok_def contents_def)

text \<open>Slot \<open>i\<close> on its own and the others.\<close>

definition others :: "'a isl_hash_table_entry list \<Rightarrow> nat \<Rightarrow> (u32 \<times> 'a) multiset" where
  "others es i = entries_mset (take i es) + entries_mset (drop (Suc i) es)"

lemma entries_mset_split:
  assumes "i < length es"
  shows "entries_mset es =
    (case entry_data (es ! i) of None \<Rightarrow> others es i | Some d \<Rightarrow> add_mset (entry_hash (es ! i), d) (others es i))"
  by (subst id_take_nth_drop [OF assms]) (simp add: others_def split: option.split del: append_take_drop_id)

lemma others_update [simp]: "others (es[i := e]) i = others es i"
  by (simp add: others_def)

lemma entries_mset_update:
  "i < length es \<Longrightarrow> entries_mset (es[i := e]) =
    (case entry_data e of None \<Rightarrow> others es i | Some d \<Rightarrow> add_mset (entry_hash e, d) (others es i))"
  using entries_mset_split [of i "es[i := e]"] by (simp split: option.split_asm option.split)

lemma in_entries_mset:
  "(hs, d) \<in># entries_mset es \<longleftrightarrow> (\<exists>i < length es. entry_hash (es ! i) = hs \<and> entry_data (es ! i) = Some d)"
  by (induction es) (auto simp: nth_Cons Ex_less_Suc2 split: option.split)

lemma entries_mset_fill:
  assumes "h < length es" and "\<not> occupied es h" and "entry_data e = Some d"
  shows "entries_mset (es[h := e]) = add_mset (entry_hash e, d) (entries_mset es)"
  using assms entries_mset_split [of h es] by (simp add: entries_mset_update occupied_def)

lemma chainedD:
  assumes "chained bits es" "i < length es" "occupied es i" "p < length es"
    and "dist (length es) (home bits (es ! i)) p < dist (length es) (home bits (es ! i)) i"
  shows "occupied es p"
  using assms unfolding chained_def by blast

lemma chained_fill:
  assumes ch: "chained bits es" and h: "h < length es" "\<not> occupied es h" and e: "entry_data e \<noteq> None"
    and path: "\<And>p. p < length es \<Longrightarrow> dist (length es) (home bits e) p < dist (length es) (home bits e) h \<Longrightarrow> occupied es p"
  shows "chained bits (es[h := e])"
proof -
  have mono: "occupied es p \<Longrightarrow> occupied (es[h := e]) p" for p
    using h e by (auto simp: occupied_def nth_list_update)
  show ?thesis
    unfolding chained_def length_list_update
  proof (intro allI impI)
    fix i p
    assume i: "i < length es" "occupied (es[h := e]) i" and p: "p < length es"
      "dist (length es) (home bits (es[h := e] ! i)) p < dist (length es) (home bits (es[h := e] ! i)) i"
    show "occupied (es[h := e]) p"
    proof (cases "i = h")
      case True
      with p h path show ?thesis by (intro mono) simp
    next
      case False
      then have eq: "es[h := e] ! i = es ! i" by simp
      with i have "occupied es i" by (simp add: occupied_def)
      with chainedD [OF ch i(1) _ p(1)] p(2) eq have "occupied es p" by simp
      then show ?thesis by (rule mono)
    qed
  qed
qed

text \<open>The caller stores its datum in the slot it reserved.\<close>

definition set_data :: "'a isl_hash_table \<Rightarrow> nat \<Rightarrow> 'a \<Rightarrow> 'a isl_hash_table" where
  "set_data table h d =
     table\<lparr>table_entries := Some ((slots table)[h := (slots table ! h)\<lparr>entry_data := Some d\<rparr>])\<rparr>"

text \<open>
  Slot \<open>h\<close> of \<open>table'\<close> is reserved for hash code \<open>key_hash\<close>: once its datum is stored
  there, the table holds what \<open>table\<close> held and that datum; a caller that has no
  datum to store takes the reservation back by decrementing \<open>n\<close>.
\<close>

definition reserved :: "'a isl_hash_table \<Rightarrow> u32 \<Rightarrow> 'a isl_hash_table \<Rightarrow> nat \<Rightarrow> bool" where
  "reserved table key_hash table' h \<longleftrightarrow>
     h < 2 ^ table_bits table' \<and> slots table' ! h = \<lparr>entry_hash = key_hash, entry_data = None\<rparr> \<and>
     (\<forall>d. table_ok (set_data table' h d) \<and>
          contents (set_data table' h d) = add_mset (key_hash, d) (contents table)) \<and>
     table_ok (table'\<lparr>table_n := table_n table' - 1\<rparr>) \<and> contents table' = contents table"

definition absent :: "'a isl_hash_table \<Rightarrow> u32 \<Rightarrow> ('a \<Rightarrow> bool res) \<Rightarrow> bool" where
  "absent table key_hash eq \<longleftrightarrow> (\<forall>d. (key_hash, d) \<in># contents table \<longrightarrow> eq d = Inr False)"

text \<open>What the search for a slot finds.\<close>

lemma search:
  assumes t: "table_ok t"
  defines "s \<equiv> 2 ^ table_bits t"
  obtains h where
    "probe (\<lambda>h. skip_entry (slots t ! h) kh eq) s (unat (isl_hash_bits kh (table_bits t))) = Some h"
    "h < s"
    "\<not> occupied (slots t) h \<Longrightarrow> absent t kh eq"
    "\<And>d. entry_data (slots t ! h) = Some d \<Longrightarrow> entry_hash (slots t ! h) = kh \<and> eq d \<noteq> Inr False"
    "\<And>p. p < s \<Longrightarrow> dist s (unat (isl_hash_bits kh (table_bits t))) p
        < dist s (unat (isl_hash_bits kh (table_bits t))) h \<Longrightarrow> occupied (slots t) p"
proof -
  let ?es = "slots t" and ?b = "unat (isl_hash_bits kh (table_bits t))"
  let ?skip = "\<lambda>h. skip_entry (?es ! h) kh eq"
  have len: "length ?es = s" using t by (simp add: table_ok_def s_def)
  have b: "?b < s" unfolding s_def using t by (intro isl_hash_bits_less) (auto simp: table_ok_def)
  obtain e where "e < s" "\<not> occupied ?es e" using empty_slot_exists [OF t] len by auto
  then have "\<not> ?skip e" by (simp add: occupied_def skip_entry_def)
  with b \<open>e < s\<close> obtain h where h: "probe ?skip s ?b = Some h" "h < s" "\<not> ?skip h"
    and before: "\<And>p. p < s \<Longrightarrow> dist s ?b p < dist s ?b h \<Longrightarrow> ?skip p"
    by (rule probe_stops) auto
  have occ: "occupied ?es p" if "?skip p" for p
    using that by (auto simp: skip_entry_def occupied_def split: option.splits)
  show thesis
  proof (rule that [OF h(1,2)])
    show "entry_hash (?es ! h) = kh \<and> eq d \<noteq> Inr False" if "entry_data (?es ! h) = Some d" for d
      using h(3) that by (simp add: skip_entry_def)
    show "occupied ?es p" if "p < s" "dist s ?b p < dist s ?b h" for p
      using before that occ by blast
    show "absent t kh eq" if h0: "\<not> occupied ?es h"
      unfolding absent_def
    proof (intro allI impI)
      fix d assume "(kh, d) \<in># contents t"
      then obtain i where i: "i < s" "entry_hash (?es ! i) = kh" "entry_data (?es ! i) = Some d"
        by (auto simp: contents_def in_entries_mset len)
      then have oi: "occupied ?es i" by (simp add: occupied_def)
      have hm: "home (table_bits t) (?es ! i) = ?b" using i(2) by (simp add: home_def)
      have ch: "chained (table_bits t) ?es" using t by (simp add: table_ok_def)
      have "\<not> dist s ?b h < dist s ?b i"
        using chainedD [OF ch, of i h] i(1) oi h(2) h0 hm len by auto
      moreover have "dist s ?b h \<noteq> dist s ?b i"
        using dist_inj [OF b h(2) i(1)] oi h0 by auto
      ultimately have "?skip i" using before i(1) by simp
      with i show "eq d = Inr False" by (simp add: skip_entry_def)
    qed
  qed
qed

lemma reserve_ok:
  fixes t :: "'a isl_hash_table"
  assumes t: "table_ok t" and room: "4 * table_n t < 3 * 2 ^ table_bits t"
    and h: "h < 2 ^ table_bits t" "\<not> occupied (slots t) h"
    and path: "\<And>p. p < 2 ^ table_bits t \<Longrightarrow>
        dist (2 ^ table_bits t) (unat (isl_hash_bits kh (table_bits t))) p
        < dist (2 ^ table_bits t) (unat (isl_hash_bits kh (table_bits t))) h \<Longrightarrow> occupied (slots t) p"
  shows "reserved t kh
    (t\<lparr>table_n := Suc (table_n t),
       table_entries := Some ((slots t)[h := (slots t ! h)\<lparr>entry_hash := kh\<rparr>])\<rparr>) h"
    (is "reserved t kh ?t' h")
proof -
  let ?es = "slots t"
  have len: "length ?es = 2 ^ table_bits t" using t by (simp add: table_ok_def)
  have "(4::nat) \<le> 2 ^ table_bits t"
    using t power_increasing [of 2 "table_bits t" "2::nat"] by (simp add: table_ok_def)
  then have n: "Suc (table_n t) < 2 ^ table_bits t" using room by linarith
  have none: "entry_data (?es ! h) = None" using h(2) by (simp add: occupied_def)
  define e where "e d = \<lparr>entry_hash = kh, entry_data = Some d\<rparr>" for d :: 'a
  define t' where "t' = ?t'"
  have upd: "set_data t' h d = t\<lparr>table_n := Suc (table_n t), table_entries := Some (?es[h := e d])\<rparr>" for d
    using h(1) len by (cases "?es ! h") (simp add: set_data_def e_def t'_def)
  have cont: "entries_mset (?es[h := e d]) = add_mset (kh, d) (entries_mset ?es)" for d
    using entries_mset_fill [of h ?es "e d" d] h len by (simp add: e_def)
  have "chained (table_bits t) (?es[h := e d])" for d
    by (rule chained_fill) (use t h len path in \<open>auto simp: table_ok_def e_def home_def\<close>)
  with t n cont have "table_ok (set_data t' h d)" for d
    by (simp add: table_ok_def upd contents_def)
  moreover have "slots t' ! h = \<lparr>entry_hash = kh, entry_data = None\<rparr>"
    using h(1) len none by (cases "?es ! h") (simp add: t'_def)
  moreover have undo: "entries_mset (slots t') = entries_mset ?es" "chained (table_bits t) (slots t')"
  proof -
    let ?es' = "?es[h := (?es ! h)\<lparr>entry_hash := kh\<rparr>]"
    show "entries_mset (slots t') = entries_mset ?es"
      using h len none entries_mset_split [of h ?es] by (simp add: t'_def entries_mset_update)
    have occ: "occupied ?es' p = occupied ?es p" for p
      using h(1) len none by (cases "p = h") (simp_all add: occupied_def)
    have "?es' ! i = ?es ! i" if "occupied ?es i" for i
      using that h(2) by (cases "i = h") simp_all
    then have "chained (table_bits t) ?es'"
      using t occ unfolding table_ok_def chained_def by simp
    then show "chained (table_bits t) (slots t')" by (simp add: t'_def)
  qed
  moreover have "table_ok (t'\<lparr>table_n := table_n t' - 1\<rparr>)" "contents t' = contents t"
    using t undo by (simp_all add: table_ok_def contents_def) (simp_all add: t'_def)
  ultimately have "reserved t kh t' h"
    using h(1) cont by (simp add: reserved_def upd contents_def) (simp add: t'_def)
  then show ?thesis by (simp add: t'_def)
qed

text \<open>
  The contract of \<open>isl_hash_table_find\<close> on the contents of the table: the result is
  a stored datum with the given hash code that \<open>eq\<close> accepts, or the error of \<open>eq\<close> on
  such a datum, or there is none that \<open>eq\<close> does not reject, and then a slot is
  reserved, when asked for, unless no memory is left for the larger table.
\<close>

fun find_post ::
  "(nat \<Rightarrow> bool) \<Rightarrow> 'a isl_hash_table \<Rightarrow> u32 \<Rightarrow> ('a \<Rightarrow> bool res) \<Rightarrow> bool \<Rightarrow>
   nat option res \<times> 'a isl_hash_table \<Rightarrow> bool" where
  "find_post calloc_ok table key_hash eq reserve (Inl err, table') =
     (table' = table \<and>
      ((\<exists>d. (key_hash, d) \<in># contents table \<and> eq d = Inl err) \<or>
       (absent table key_hash eq \<and> reserve \<and> err = isl_error_alloc \<and>
        3 * 2 ^ table_bits table \<le> 4 * table_n table \<and> \<not> calloc_ok (2 * 2 ^ table_bits table))))"
| "find_post calloc_ok table key_hash eq reserve (Inr None, table') =
     (table' = table \<and> \<not> reserve \<and> absent table key_hash eq)"
| "find_post calloc_ok table key_hash eq reserve (Inr (Some h), table') =
     ((table' = table \<and> h < 2 ^ table_bits table \<and>
       (\<exists>d. slots table ! h = \<lparr>entry_hash = key_hash, entry_data = Some d\<rparr> \<and> eq d = Inr True)) \<or>
      (reserve \<and> absent table key_hash eq \<and> reserved table key_hash table' h \<and>
       table_bits table' =
         (if 3 * 2 ^ table_bits table \<le> 4 * table_n table then Suc (table_bits table) else table_bits table)))"

declare isl_hash_table_find.simps(2) [simp del]

lemma find_Suc:
  assumes t: "table_ok t"
  shows "(\<exists>r. isl_hash_table_find (Suc depth) c t kh eq reserve = Some r \<and> find_post c t kh eq reserve r) \<or>
         (reserve \<and> 3 * 2 ^ table_bits t \<le> 4 * table_n t \<and> absent t kh eq \<and>
          isl_hash_table_find (Suc depth) c t kh eq reserve =
            (case grow_table c (isl_hash_table_find depth c) t of
               None \<Rightarrow> None
             | Some (Inl err, table) \<Rightarrow> Some (Inl err, table)
             | Some (Inr _, table) \<Rightarrow> isl_hash_table_find depth c table kh eq True))"
proof -
  obtain h where h:
    "probe (\<lambda>h. skip_entry (slots t ! h) kh eq) (2 ^ table_bits t) (unat (isl_hash_bits kh (table_bits t))) = Some h"
    "h < 2 ^ table_bits t"
    and free: "\<not> occupied (slots t) h \<Longrightarrow> absent t kh eq"
    and hit: "\<And>d. entry_data (slots t ! h) = Some d \<Longrightarrow> entry_hash (slots t ! h) = kh \<and> eq d \<noteq> Inr False"
    and path: "\<And>p. p < 2 ^ table_bits t \<Longrightarrow> dist (2 ^ table_bits t) (unat (isl_hash_bits kh (table_bits t))) p
        < dist (2 ^ table_bits t) (unat (isl_hash_bits kh (table_bits t))) h \<Longrightarrow> occupied (slots t) p"
    using search [OF t, of kh eq] by blast
  note step = isl_hash_table_find.simps(2) [of depth c t kh eq reserve, unfolded Let_def h(1) option.case]
  have len: "length (slots t) = 2 ^ table_bits t" using t by (simp add: table_ok_def)
  show ?thesis
  proof (cases "entry_data (slots t ! h)")
    case (Some d)
    have hd: "entry_hash (slots t ! h) = kh" "eq d \<noteq> Inr False" using hit [OF Some] by auto
    have "(kh, d) \<in># contents t"
      using h(2) len hd Some by (auto simp: contents_def in_entries_mset)
    moreover have "slots t ! h = \<lparr>entry_hash = kh, entry_data = Some d\<rparr>"
      using hd Some by (cases "slots t ! h") simp
    ultimately show ?thesis
      using hd h(2) unfolding step Some by (cases "eq d") auto
  next
    case None
    then have free_h: "\<not> occupied (slots t) h" by (simp add: occupied_def)
    show ?thesis
    proof (cases "reserve \<and> 3 * 2 ^ table_bits t \<le> 4 * table_n t")
      case True
      then show ?thesis unfolding step None using free free_h by auto
    next
      case False
      have "reserve \<Longrightarrow> reserved t kh
        (t\<lparr>table_n := Suc (table_n t),
           table_entries := Some ((slots t)[h := (slots t ! h)\<lparr>entry_hash := kh\<rparr>])\<rparr>) h"
        using reserve_ok [OF t _ h(2) free_h path] False by simp
      then show ?thesis unfolding step None using free free_h False by auto
    qed
  qed
qed

text \<open>Growing keeps the contents and makes room.\<close>

lemma rehash_ok:
  assumes "table_ok t" and "size (contents t) + size (entries_mset es) < 2 ^ b" and "table_bits t = Suc b"
  shows "\<exists>t'. rehash (isl_hash_table_find (Suc depth) c) es t = Some (Inr t') \<and> table_ok t' \<and>
    table_bits t' = Suc b \<and> contents t' = contents t + entries_mset es"
  using assms
proof (induction es arbitrary: t)
  case (Cons e es)
  show ?case
  proof (cases "entry_data e")
    case None
    then show ?thesis using Cons by simp
  next
    case (Some d)
    have room: "\<not> 3 * 2 ^ table_bits t \<le> 4 * table_n t"
      using Cons.prems Some by (simp add: table_ok_def)
    obtain r where r: "isl_hash_table_find (Suc depth) c t (entry_hash e) no True = Some r"
      "find_post c t (entry_hash e) no True r"
      using find_Suc [OF Cons.prems(1), of depth c "entry_hash e" no True] room by blast
    obtain h t1 where ht: "r = (Inr (Some h), t1)" "reserved t (entry_hash e) t1 h"
      and bits: "table_bits t1 = table_bits t"
      using r(2) room by (cases "(c, t, entry_hash e, no :: 'a \<Rightarrow> bool res, True, r)" rule: find_post.cases)
        (auto simp: no_def)
    have eq: "(slots t1)[h := e] = (slots t1)[h := (slots t1 ! h)\<lparr>entry_data := Some d\<rparr>]"
      using ht(2) Some by (cases e) (simp add: reserved_def)
    define t2 where "t2 = set_data t1 h d"
    have t2: "table_ok t2" "contents t2 = add_mset (entry_hash e, d) (contents t)" "table_bits t2 = table_bits t1"
      using ht(2) by (auto simp: reserved_def t2_def set_data_def)
    obtain t' where t': "rehash (isl_hash_table_find (Suc depth) c) es t2 = Some (Inr t')" "table_ok t'"
      "table_bits t' = Suc b" "contents t' = contents t2 + entries_mset es"
      using Cons.IH [of t2] Cons.prems(2,3) t2 bits Some by auto
    have "rehash (isl_hash_table_find (Suc depth) c) (e # es) t = Some (Inr t')"
      using t'(1) r(1) ht(1) Some eq by (simp add: t2_def set_data_def)
    with t' t2(2) Some show ?thesis by simp
  qed
qed simp

definition calloc_bounded :: "(nat \<Rightarrow> bool) \<Rightarrow> bool" where
  "calloc_bounded calloc_ok \<longleftrightarrow> (\<forall>sz. calloc_ok sz \<longrightarrow> sz \<le> 2 ^ 29)"

lemma fresh_table_ok:
  assumes "2 \<le> b" "b \<le> 29"
  shows "table_ok \<lparr>table_bits = b, table_n = 0, table_entries = Some (replicate (2 ^ b) empty_slot)\<rparr>"
proof -
  have "\<not> occupied (replicate (2 ^ b) empty_slot) i" if "i < 2 ^ b" for i
    using that by (simp add: occupied_def empty_slot_def)
  then show ?thesis using assms by (auto simp: table_ok_def contents_def chained_def)
qed

lemma grow_table_ok:
  assumes t: "table_ok t" and c: "calloc_bounded c"
  shows "(\<not> c (2 * 2 ^ table_bits t) \<and>
      grow_table c (isl_hash_table_find (Suc depth) c) t = Some (Inl isl_error_alloc, t)) \<or>
    (\<exists>t'. grow_table c (isl_hash_table_find (Suc depth) c) t = Some (Inr (), t') \<and> table_ok t' \<and>
      table_bits t' = Suc (table_bits t) \<and> contents t' = contents t)"
proof (cases "c (2 * 2 ^ table_bits t)")
  case True
  define b where "b = table_bits t"
  define t0 :: "'a isl_hash_table" where
    "t0 = \<lparr>table_bits = Suc b, table_n = 0, table_entries = Some (replicate (2 * 2 ^ b) empty_slot)\<rparr>"
  have "(2::nat) ^ Suc b \<le> 2 ^ 29" using True c by (auto simp: calloc_bounded_def b_def)
  then have "Suc b \<le> 29" by (rule power_le_imp_le_exp [rotated]) simp
  then have ok: "table_ok t0"
    using fresh_table_ok [of "Suc b"] t by (simp add: t0_def b_def table_ok_def)
  obtain t' where "rehash (isl_hash_table_find (Suc depth) c) (slots t) t0 = Some (Inr t')" "table_ok t'"
    "table_bits t' = Suc b" "contents t' = contents t0 + entries_mset (slots t)"
    using rehash_ok [OF ok, of "slots t" b depth c] t
    by (auto simp: t0_def b_def contents_def table_ok_def)
  with True show ?thesis
    by (simp add: grow_table_def isl_calloc_entries_def t0_def b_def contents_def)
qed (simp add: grow_table_def isl_calloc_entries_def)

lemma isl_hash_table_find_run:
  assumes t: "table_ok t" and c: "calloc_bounded c"
  shows "\<exists>r. isl_hash_table_find (Suc (Suc depth)) c t kh eq reserve = Some r \<and> find_post c t kh eq reserve r"
proof -
  let ?find = "isl_hash_table_find (Suc depth) c"
  consider (direct) "\<exists>r. isl_hash_table_find (Suc (Suc depth)) c t kh eq reserve = Some r \<and> find_post c t kh eq reserve r"
    | (grow) "reserve" "3 * 2 ^ table_bits t \<le> 4 * table_n t" "absent t kh eq"
      "isl_hash_table_find (Suc (Suc depth)) c t kh eq reserve =
            (case grow_table c ?find t of
               None \<Rightarrow> None
             | Some (Inl err, table) \<Rightarrow> Some (Inl err, table)
             | Some (Inr _, table) \<Rightarrow> ?find table kh eq True)"
    using find_Suc [OF t, of "Suc depth" c kh eq reserve] by blast
  then show ?thesis
  proof cases
    case grow
    from grow_table_ok [OF t c, of depth] show ?thesis
    proof (elim disjE exE conjE)
      assume "\<not> c (2 * 2 ^ table_bits t)" "grow_table c ?find t = Some (Inl isl_error_alloc, t)"
      then show ?thesis using grow by simp
    next
      fix t' assume t': "grow_table c ?find t = Some (Inr (), t')" "table_ok t'"
        "table_bits t' = Suc (table_bits t)" "contents t' = contents t"
      have room: "\<not> 3 * 2 ^ table_bits t' \<le> 4 * table_n t'"
        using t t' by (simp add: table_ok_def)
      obtain r where r: "?find t' kh eq True = Some r" "find_post c t' kh eq True r"
        using find_Suc [OF t'(2), of depth c kh eq True] room by blast
      have abs: "absent t' kh eq" using grow(3) t'(4) by (simp add: absent_def)
      have no_hit: "eq d = Inr False" if "h < 2 ^ table_bits t'"
        "slots t' ! h = \<lparr>entry_hash = kh, entry_data = Some d\<rparr>" for h d
      proof -
        have "(kh, d) \<in># contents t'"
          unfolding contents_def in_entries_mset
          by (rule exI [of _ h]) (use that t'(2) in \<open>simp add: table_ok_def\<close>)
        with abs show ?thesis by (simp add: absent_def)
      qed
      have "find_post c t kh eq reserve r"
        using r(2) abs grow(1,2,3) room t'(3,4) no_hit
        by (cases "(c, t', kh, eq, True, r)" rule: find_post.cases)
          (auto simp: absent_def reserved_def)
      with r(1) t'(1) grow(4) show ?thesis by simp
    qed
  qed
qed

subsection \<open>Removal keeps the entries reachable\<close>

lemma dist_int:
  assumes "b < s" "p < s"
  shows "int (dist s b p) = (int p - int b) mod int s"
proof (cases "b \<le> p")
  case True
  with assms show ?thesis by (simp add: dist_def of_nat_diff)
next
  case False
  then have "int (dist s b p) = (int p - int b) + int s" using assms by (simp add: dist_def of_nat_diff)
  moreover have "(int p - int b) mod int s = (int p - int b + int s) mod int s" by simp
  moreover have "(int p - int b + int s) mod int s = int p - int b + int s"
    using False assms by (intro mod_pos_pos_trivial) auto
  ultimately show ?thesis by simp
qed

text \<open>Distances do not depend on where the ring starts.\<close>

lemma dist_shift:
  assumes "p < s" "q < s"
  shows "dist s ((x + p) mod s) ((x + q) mod s) = dist s p q"
proof -
  have s: "0 < s" using assms(1) by simp
  have "int (dist s ((x + p) mod s) ((x + q) mod s)) = (int ((x + q) mod s) - int ((x + p) mod s)) mod int s"
    using s by (intro dist_int) simp_all
  also have "\<dots> = (int (x + q) - int (x + p)) mod int s"
    by (simp add: zmod_int mod_diff_eq)
  also have "\<dots> = int (dist s p q)" using assms by (simp add: dist_int)
  finally show ?thesis by simp
qed

lemma dist_back: "b < s \<Longrightarrow> p < s \<Longrightarrow> (b + dist s b p) mod s = p"
  by (cases "b \<le> p") (simp_all add: dist_def)

lemma dist_add:
  assumes "b < s" "h < s" "p < s" "dist s b h + dist s h p < s"
  shows "dist s b p = dist s b h + dist s h p"
proof -
  have "dist s b ((b + (dist s b h + dist s h p)) mod s) = dist s 0 (dist s b h + dist s h p)"
    using dist_shift [of 0 s "dist s b h + dist s h p" b] assms by simp
  moreover have "(b + (dist s b h + dist s h p)) mod s = p"
    using dist_back [OF assms(1,2)] dist_back [OF assms(2,3)]
    by (metis add.assoc mod_add_left_eq)
  moreover have "dist s 0 (dist s b h + dist s h p) = dist s b h + dist s h p" by (simp add: dist_def)
  ultimately show ?thesis by simp
qed

text \<open>The offset the code computes is a distance, the wrap of \<open>size_t\<close> included.\<close>

lemma offset_eq:
  assumes s: "s = 2 ^ bits" "bits \<le> 29" and "b < s" "x \<le> 2 * s"
  shows "((2 ^ 64 + s + b - x) mod 2 ^ 64) mod s = dist s (x mod s) b"
proof -
  have "(2::nat) ^ bits \<le> 2 ^ 29" using s(2) by (rule power_increasing) simp
  then have big: "x \<le> 2 ^ 64" using assms(4) s(1) by simp
  have dv: "s dvd 2 ^ 64" unfolding s(1) by (rule le_imp_power_dvd) (use s(2) in simp)
  have "((2 ^ 64 + s + b - x) mod 2 ^ 64) mod s = (2 ^ 64 + s + b - x) mod s"
    using dv by (rule mod_mod_cancel)
  then have "int (((2 ^ 64 + s + b - x) mod 2 ^ 64) mod s) = int (2 ^ 64 + s + b - x) mod int s"
    by (simp add: zmod_int)
  also have "int (2 ^ 64 + s + b - x) = int (2 ^ 64) + (int s + (int b - int x))"
    using big by (simp add: of_nat_diff)
  also have "(int (2 ^ 64) + (int s + (int b - int x))) mod int s = (int b - int x) mod int s"
  proof -
    obtain k where k: "(2::nat) ^ 64 = s * k" using dv by (rule dvdE)
    have "int (2 ^ 64) = int s * int k" by (simp only: k of_nat_mult)
    then have "int (2 ^ 64) + (int s + (int b - int x)) = int b - int x + int s * (int k + 1)"
      by (simp add: algebra_simps)
    then show ?thesis by (simp only: mod_mult_self2)
  qed
  also have "\<dots> = (int b - int (x mod s)) mod int s" by (simp add: zmod_int mod_diff_right_eq)
  also have "\<dots> = int (dist s (x mod s) b)" using assms(3) by (simp add: dist_int)
  finally show ?thesis by simp
qed

text \<open>
  The loop is at \<open>h2\<close> and slot \<open>h\<close> is to be vacated: the entries between do not need
  that slot to be reached, and everything but its content is still there.
\<close>

definition remove_inv ::
  "nat \<Rightarrow> 'a isl_hash_table_entry list \<Rightarrow> nat \<Rightarrow> nat \<Rightarrow> 'a remove_state \<Rightarrow> bool" where
  "remove_inv bits es0 e0 D = (\<lambda>(h, h2, es).
     length es = length es0 \<and> e0 \<le> h \<and> h < h2 \<and> h2 \<le> e0 + D \<and>
     (\<forall>p < length es0. occupied es p = occupied es0 p) \<and>
     others es (h mod length es0) = others es0 e0 \<and>
     chained bits es \<and>
     (\<forall>k. h < k \<and> k < h2 \<longrightarrow>
        \<not> dist (length es0) (home bits (es ! (k mod length es0))) (h mod length es0)
          < dist (length es0) (home bits (es ! (k mod length es0))) (k mod length es0)))"

lemma remove_stay:
  assumes "h < h2" "h2 \<le> h + s - 1" "offset \<le> h2 - (h + 1)" "b = (h + 1 + offset) mod s"
  shows "\<not> dist s b (h mod s) < dist s b (h2 mod s)"
proof -
  define m where "m = h2 - (h + 1)"
  have m: "offset \<le> m" "m < s" using assms by (simp_all add: m_def)
  have "h2 mod s = (h + 1 + m) mod s" using assms(1) by (simp add: m_def)
  then have 1: "dist s b (h2 mod s) = m - offset"
    using dist_shift [of offset s m "h + 1"] m assms(4) by (simp add: dist_def)
  have "h mod s = (h + s) mod s" by simp
  then have "h mod s = (h + 1 + (s - 1)) mod s" using m by simp
  then have "dist s b (h mod s) = s - 1 - offset"
    using dist_shift [of offset s "s - 1" "h + 1"] m assms(4) by (simp add: dist_def)
  with 1 m show ?thesis by simp
qed

lemma remove_move:
  assumes "h < h2" "h2 \<le> h + s - 1" "\<not> offset \<le> h2 - (h + 1)" "offset < s" "b = (h + 1 + offset) mod s"
  shows "dist s b (h mod s) < dist s b (h2 mod s)"
proof -
  define m where "m = h2 - (h + 1)"
  have m: "m < offset" "m < s" using assms by (simp_all add: m_def)
  have "h2 mod s = (h + 1 + m) mod s" using assms(1) by (simp add: m_def)
  then have 1: "dist s b (h2 mod s) = m + s - offset"
    using dist_shift [of offset s m "h + 1"] m assms(4,5) by (simp add: dist_def)
  have "h mod s = (h + s) mod s" by simp
  then have "h mod s = (h + 1 + (s - 1)) mod s" using m by simp
  then have "dist s b (h mod s) = s - 1 - offset"
    using dist_shift [of offset s "s - 1" "h + 1"] m assms(4,5) by (simp add: dist_def)
  with 1 m assms(4) show ?thesis by simp
qed

lemma remove_step_inv:
  assumes bits: "2 \<le> bits" "bits \<le> 29" and s: "s = 2 ^ bits" "length es0 = s"
    and e0: "e0 < s" and D: "D < s" and E: "\<not> occupied es0 ((e0 + D) mod s)"
    and inv: "remove_inv bits es0 e0 D st" and c: "remove_cond s st"
  shows "remove_inv bits es0 e0 D (remove_step bits s st)"
proof -
  obtain h h2 es where st: "st = (h, h2, es)" by (cases st)
  have len: "length es = s" and h: "e0 \<le> h" "h < h2" "h2 \<le> e0 + D"
    and occ: "\<And>p. p < s \<Longrightarrow> occupied es p = occupied es0 p"
    and oth: "others es (h mod s) = others es0 e0" and ch: "chained bits es"
    and exam: "\<And>k. h < k \<Longrightarrow> k < h2 \<Longrightarrow> \<not> dist s (home bits (es ! (k mod s))) (h mod s)
          < dist s (home bits (es ! (k mod s))) (k mod s)"
    using inv unfolding remove_inv_def st s(2) by auto
  have sp: "0 < s" using e0 by simp
  define j where "j = h2 mod s"
  define b where "b = home bits (es ! j)"
  define offset where "offset = ((2 ^ 64 + s + b - (h + 1)) mod 2 ^ 64) mod s"
  have j: "j < s" using sp by (simp add: j_def)
  have oj: "occupied es j" using c by (simp add: remove_cond_def st j_def occupied_def)
  have "h2 \<noteq> e0 + D" using oj occ [OF j] E by (auto simp: j_def)
  with h have h2: "h2 < e0 + D" by simp
  have b: "b < s" unfolding b_def s(1) using bits by (rule home_less)
  have off: "offset = dist s ((h + 1) mod s) b"
    unfolding offset_def by (rule offset_eq [OF s(1) bits(2) b]) (use h h2 e0 D in simp)
  have b_eq: "b = (h + 1 + offset) mod s"
    using dist_back [of "(h + 1) mod s" s b] b sp by (simp add: off mod_add_left_eq)
  have near: "h2 \<le> h + s - 1" using h h2 D by simp
  have step: "remove_step bits s st =
      (if offset \<le> h2 - (h + 1) then (h, h2 + 1, es) else (h2, h2 + 1, es[h mod s := es ! j]))"
    by (simp add: remove_step_def st offset_def b_def j_def home_def Let_def)
  show ?thesis
  proof (cases "offset \<le> h2 - (h + 1)")
    case True
    have "\<not> dist s b (h mod s) < dist s b (h2 mod s)"
      by (rule remove_stay [OF h(2) near True b_eq])
    then have "\<not> dist s (home bits (es ! (k mod s))) (h mod s) < dist s (home bits (es ! (k mod s))) (k mod s)"
      if "h < k" "k < h2 + 1" for k
      using that exam [of k] by (cases "k = h2") (simp_all add: b_def j_def)
    then show ?thesis
      using True len h h2 occ oth ch unfolding step by (simp add: remove_inv_def s(2))
  next
    case False
    have "offset < s" unfolding offset_def using sp by simp
    then have closer: "dist s b (h mod s) < dist s b j"
      unfolding j_def by (intro remove_move [OF h(2) near False _ b_eq])
    define es1 where "es1 = es[h mod s := es ! j]"
    have hm: "h mod s < s" using sp by simp
    have len1: "length es1 = s" by (simp add: es1_def len)
    have hm_ne: "h mod s \<noteq> j" using closer by auto
    have "occupied es (h mod s)"
    proof -
      show ?thesis
      proof (rule chainedD [OF ch _ oj])
        show "dist (length es) (home bits (es ! j)) (h mod s) < dist (length es) (home bits (es ! j)) j"
          using closer by (simp add: len b_def)
      qed (simp_all add: len j hm)
    qed
    then have occ1: "occupied es1 p = occupied es p" if "p < s" for p
      using oj hm that len by (auto simp: es1_def occupied_def nth_list_update)
    have ch1: "chained bits es1"
      unfolding chained_def len1
    proof (intro allI impI)
      fix i p
      assume i: "i < s" "occupied es1 i" and p: "p < s" "dist s (home bits (es1 ! i)) p < dist s (home bits (es1 ! i)) i"
      show "occupied es1 p"
      proof (cases "i = h mod s")
        case True
        then have "dist s b p < dist s b j" using p(2) closer hm len by (simp add: es1_def b_def)
        then have "occupied es p"
          using chainedD [OF ch _ oj, of p] j p(1) by (simp add: len b_def)
        then show ?thesis using occ1 p by simp
      next
        case False
        then have "es1 ! i = es ! i" by (simp add: es1_def)
        then have "occupied es p"
          using chainedD [OF ch, of i p] i p occ1 by (simp add: len)
        then show ?thesis using occ1 p by simp
      qed
    qed
    have "others es1 j = others es (h mod s)"
    proof -
      obtain d where d: "entry_data (es ! j) = Some d" using oj by (auto simp: occupied_def)
      have "es1 ! j = es ! j" using hm_ne by (simp add: es1_def)
      then have "entries_mset es1 = add_mset (entry_hash (es ! j), d) (others es1 j)"
        using entries_mset_split [of j es1] j len1 d by simp
      moreover have "entries_mset es1 = add_mset (entry_hash (es ! j), d) (others es (h mod s))"
        using entries_mset_update [of "h mod s" es "es ! j"] hm len d by (simp add: es1_def)
      ultimately show ?thesis by simp
    qed
    then show ?thesis
      using False len1 h h2 occ occ1 oth ch1 unfolding step es1_def [symmetric]
      by (simp add: remove_inv_def s(2) j_def)
  qed
qed

text \<open>When the loop stops, the slot can be vacated.\<close>

lemma remove_done:
  assumes bits: "2 \<le> bits" "bits \<le> 29" and s: "s = 2 ^ bits" "length es0 = s"
    and e0: "e0 < s" and D: "D < s" and before: "\<And>q. q < D \<Longrightarrow> occupied es0 ((e0 + q) mod s)"
    and inv: "remove_inv bits es0 e0 D (h, h2, es)" and c: "\<not> remove_cond s (h, h2, es)"
  shows "chained bits (es[h mod s := empty_slot])"
proof -
  have len: "length es = s" and h: "e0 \<le> h" "h < h2" "h2 \<le> e0 + D"
    and occ: "\<And>p. p < s \<Longrightarrow> occupied es p = occupied es0 p"
    and ch: "chained bits es"
    and exam: "\<And>k. h < k \<Longrightarrow> k < h2 \<Longrightarrow> \<not> dist s (home bits (es ! (k mod s))) (h mod s)
          < dist s (home bits (es ! (k mod s))) (k mod s)"
    using inv unfolding remove_inv_def s(2) by auto
  have sp: "0 < s" using e0 by simp
  have free: "\<not> occupied es (h2 mod s)" using c by (simp add: remove_cond_def occupied_def)
  have h2: "h2 = e0 + D"
  proof (rule ccontr)
    assume "h2 \<noteq> e0 + D"
    with h have "h2 - e0 < D" "e0 + (h2 - e0) = h2" by simp_all
    then have "occupied es0 (h2 mod s)" using before [of "h2 - e0"] by simp
    with free occ sp show False by simp
  qed
  define H E where "H = h mod s" and "E = h2 mod s"
  have HE: "H < s" "E < s" using sp by (simp_all add: H_def E_def)
  have "h2 - h < s" using h h2 D by simp
  have distHE: "dist s H E = h2 - h"
  proof -
    have "dist s ((h + 0) mod s) ((h + (h2 - h)) mod s) = dist s 0 (h2 - h)"
      by (rule dist_shift) (use sp \<open>h2 - h < s\<close> in simp_all)
    then show ?thesis using h by (simp add: H_def E_def dist_def)
  qed
  have len1: "length (es[H := empty_slot]) = s" using len by simp
  show ?thesis
    unfolding chained_def H_def [symmetric] len1
  proof (intro allI impI)
    fix i p
    assume i: "i < s" "occupied (es[H := empty_slot]) i"
      and p: "p < s" "dist s (home bits (es[H := empty_slot] ! i)) p < dist s (home bits (es[H := empty_slot] ! i)) i"
    have iH: "i \<noteq> H" using i len HE by (auto simp: occupied_def empty_slot_def)
    then have ei: "es[H := empty_slot] ! i = es ! i" by simp
    with i have oi: "occupied es i" by (simp add: occupied_def)
    define b where "b = home bits (es ! i)"
    have b: "b < s" unfolding b_def s(1) using bits by (rule home_less)
    have on_path: "occupied es q" if "q < s" "dist s b q < dist s b i" for q
      using chainedD [OF ch, of i q] that i oi by (simp add: len b_def)
    have op: "occupied es p" using on_path p by (simp add: ei b_def)
    have "p \<noteq> H"
    proof
      assume "p = H"
      then have Hi: "dist s b H < dist s b i" using p by (simp add: ei b_def)
      have i_eq: "dist s b i = dist s b H + dist s H i"
      proof -
        have "dist s ((b + dist s b H) mod s) ((b + dist s b i) mod s) = dist s (dist s b H) (dist s b i)"
          by (rule dist_shift) (use dist_less b HE i in auto)
        then have "dist s H i = dist s (dist s b H) (dist s b i)" using b HE i by (simp add: dist_back)
        moreover have "dist s (dist s b H) (dist s b i) = dist s b i - dist s b H"
          using Hi unfolding dist_def [of s "dist s b H"] by simp
        ultimately show ?thesis using Hi by simp
      qed
      have "dist s H i < h2 - h"
      proof (rule ccontr)
        assume "\<not> dist s H i < h2 - h"
        then have le: "dist s H E \<le> dist s H i" using distHE by simp
        have "i \<noteq> E" using free oi by (auto simp: E_def)
        then have "dist s H E \<noteq> dist s H i" using dist_inj HE i by blast
        with le have lt: "dist s H E < dist s H i" by simp
        have "dist s b E = dist s b H + dist s H E"
          by (rule dist_add) (use b HE lt i_eq dist_less [OF b i(1)] in simp_all)
        with lt i_eq have "occupied es E" by (intro on_path HE) simp
        with free show False by (simp add: E_def)
      qed
      moreover have "0 < dist s H i"
        using iH HE i by (metis dist_simps(2) gr0I)
      moreover have "(h + dist s H i) mod s = i"
        using dist_back [OF HE(1) i(1)] by (simp add: H_def mod_add_left_eq)
      ultimately have "\<not> dist s b H < dist s b i"
        using exam [of "h + dist s H i"] by (simp add: b_def H_def)
      with Hi show False by simp
    qed
    with op show "occupied (es[H := empty_slot]) p" by (simp add: occupied_def)
  qed
qed

lemma isl_hash_table_remove_run:
  assumes t: "table_ok t" and e: "entry < 2 ^ table_bits t"
    and data: "slots t ! entry = \<lparr>entry_hash = hs, entry_data = Some d\<rparr>"
  shows "\<exists>t'. isl_hash_table_remove t entry = Some (Inr t') \<and> table_ok t' \<and>
    table_bits t' = table_bits t \<and> contents t = add_mset (hs, d) (contents t')"
proof -
  define s bits es0 where "s = (2::nat) ^ table_bits t" and "bits = table_bits t" and "es0 = slots t"
  have bits: "2 \<le> bits" "bits \<le> 29" "s = 2 ^ bits" and len: "length es0 = s" and ch: "chained bits es0"
    using t by (auto simp: table_ok_def s_def bits_def es0_def)
  have e0: "entry < s" using e by (simp add: s_def)
  obtain E0 where "E0 < s" "\<not> occupied es0 E0"
    using empty_slot_exists [OF t] len by (auto simp: es0_def)
  with e0 obtain E where E: "E < s" "\<not> occupied es0 E"
    and first: "\<And>p. p < s \<Longrightarrow> dist s entry p < dist s entry E \<Longrightarrow> occupied es0 p"
    by (rule probe_stops) auto
  define D where "D = dist s entry E"
  have D: "D < s" using e0 E by (simp add: D_def dist_less)
  have at_D: "(entry + D) mod s = E" using e0 E by (simp add: D_def dist_back)
  have oe: "occupied es0 entry" using data by (simp add: occupied_def es0_def)
  have before: "occupied es0 ((entry + q) mod s)" if "q < D" for q
  proof (rule first)
    show "(entry + q) mod s < s" using e0 by simp
    have "dist s ((entry + 0) mod s) ((entry + q) mod s) = dist s 0 q"
      by (rule dist_shift) (use that D in simp_all)
    then show "dist s entry ((entry + q) mod s) < dist s entry E"
      using that e0 by (simp add: D_def dist_def)
  qed
  have "D \<noteq> 0" using oe E e0 by (auto simp: D_def)
  let ?I = "remove_inv bits es0 entry D" and ?c = "remove_cond s" and ?f = "remove_step bits s"
  have I0: "?I (entry, entry + 1, es0)"
    using \<open>D \<noteq> 0\<close> e0 ch len by (simp add: remove_inv_def)
  have step: "?I (?f st)" if "?I st" "?c st" for st
    by (rule remove_step_inv [OF bits len e0 D]) (use that E at_D in auto)
  have "\<exists>st. while_option ?c ?f (entry, entry + 1, es0) = Some st"
  proof (rule measure_while_option_Some [where P = ?I and f = "\<lambda>(h, h2, es). entry + D + 1 - h2"])
    show "?I (?f st) \<and> (case ?f st of (h, h2, es) \<Rightarrow> entry + D + 1 - h2) < (case st of (h, h2, es) \<Rightarrow> entry + D + 1 - h2)"
      if "?I st" "?c st" for st
      using step [OF that] that by (cases st) (auto simp: remove_step_def remove_inv_def Let_def)
  qed (rule I0)
  then obtain h h2 es where run: "while_option ?c ?f (entry, entry + 1, es0) = Some (h, h2, es)" by auto
  have inv: "?I (h, h2, es)" using while_option_rule [where P = ?I, OF step run I0] .
  have stop: "\<not> ?c (h, h2, es)" using while_option_stop [OF run] .
  define es1 where "es1 = es[h mod s := empty_slot]"
  have hm: "h mod s < s" using e0 by simp
  have les: "length es = s" and oth: "others es (h mod s) = others es0 entry"
    using inv len by (auto simp: remove_inv_def)
  have ch1: "chained bits es1"
    unfolding es1_def by (rule remove_done [OF bits len e0 D before inv stop])
  have c1: "entries_mset es1 = others es0 entry"
    using entries_mset_update [of "h mod s" es empty_slot] hm les oth by (simp add: es1_def empty_slot_def)
  have c0: "entries_mset es0 = add_mset (hs, d) (others es0 entry)"
    using entries_mset_split [of entry es0] e0 len data by (simp add: es0_def)
  define t' where "t' = t\<lparr>table_n := table_n t - 1, table_entries := Some es1\<rparr>"
  have "isl_hash_table_remove t entry = Some (Inr t')"
    using run e by (simp add: isl_hash_table_remove_def t'_def s_def bits_def es0_def es1_def)
  moreover have "table_ok t'"
    using t ch1 c0 c1 les by (simp add: table_ok_def t'_def contents_def es0_def [symmetric] es1_def bits_def s_def)
  moreover have "contents t = add_mset (hs, d) (contents t')" "table_bits t' = table_bits t"
    using c0 c1 by (simp_all add: t'_def contents_def es0_def)
  ultimately show ?thesis by blast
qed

subsection \<open>The size of a new table\<close>

lemma top_bit:
  fixes v :: u32
  assumes "2 ^ k \<le> unat v" "unat v < 2 ^ Suc k"
  shows "bit v k"
proof -
  have "unat v div 2 ^ k = 1"
    by (rule div_nat_eqI) (use assms in simp_all)
  then have "bit (unat v) k" by (simp add: bit_iff_odd)
  then show ?thesis by (simp add: bit_unsigned_iff)
qed

lemma round_up_loop_top:
  assumes "2 ^ k \<le> unat v" "unat v < 2 ^ Suc k"
  shows "unat (round_up_loop old_v v) = 2 ^ k"
  using assms
proof (induction old_v v rule: round_up_loop.induct)
  case (1 old_v v)
  have v0: "v \<noteq> 0" using "1.prems" by auto
  define w where "w = v XOR (v AND - v)"
  have w: "w = v AND (v - 1)" unfolding w_def by (rule clear_lowest)
  have wv: "unat w < unat v" unfolding w_def using v0 by (rule clear_lowest_less)
  have pred: "unat (v - 1) = unat v - 1" using v0 by (simp add: unat_minus_one)
  have step: "round_up_loop old_v v = round_up_loop v w"
    using v0 by (simp add: round_up_loop.simps [of old_v v] w_def)
  show ?case
  proof (cases "unat v = 2 ^ k")
    case True
    have "w = 0"
    proof (rule ccontr)
      assume "w \<noteq> 0"
      then obtain n where n: "bit w n" by (auto simp: bit_eq_iff)
      then have "bit (unat v) n" "bit (unat (v - 1)) n" by (auto simp: w bit_and_iff bit_unsigned_iff dest: bit_imp_le_length)
      then have "bit (2 ^ k :: nat) n" "bit (mask k :: nat) n" by (simp_all add: pred True mask_eq_exp_minus_1)
      then show False by (auto simp: bit_exp_iff bit_mask_iff)
    qed
    with True step show ?thesis by (simp add: round_up_loop.simps)
  next
    case False
    have "bit v k" using "1.prems" by (rule top_bit)
    moreover have "bit (v - 1) k"
      by (rule top_bit) (use False "1.prems" in \<open>simp_all add: pred\<close>)
    ultimately have "bit w k" by (simp add: w bit_and_iff)
    then have "bit (unat w) k" by (simp add: bit_unsigned_iff bit_imp_le_length)
    then have "odd (unat w div 2 ^ k)" by (simp add: bit_iff_odd)
    then have "2 ^ k \<le> unat w" by (metis div_less even_zero not_le)
    with wv "1.prems" have "unat (round_up_loop v w) = 2 ^ k"
      using "1.IH" v0 by (simp add: w_def)
    with step show ?thesis by simp
  qed
qed

lemma ffs_power: "m < 32 \<Longrightarrow> ffs (push_bit m 1) = Suc m"
proof -
  assume m: "m < 32"
  have "List.find (bit (push_bit m 1 :: u32)) [0..<32] = Some m"
    unfolding find_upt_Some_iff using m by (auto simp: bit_exp_iff)
  then show ?thesis by (simp add: ffs_def)
qed

lemma ffs_round_up:
  assumes "2 ^ k \<le> unat v" "unat v < 2 ^ Suc k" "k < 31"
  shows "ffs (round_up v) - 1 = Suc k"
proof -
  have "unat (round_up_loop v v) = 2 ^ k" using assms(1,2) by (rule round_up_loop_top)
  then have "round_up_loop v v = push_bit k 1"
  proof -
    have "(2::nat) ^ k < 2 ^ 32" using assms(3) by (intro power_strict_increasing) simp_all
    then have "unat (push_bit k 1 :: u32) = 2 ^ k"
      using assms(3) unfolding unsigned_push_bit_eq by (simp add: push_bit_nat_def take_bit_nat_eq_self)
    with \<open>unat (round_up_loop v v) = 2 ^ k\<close> show ?thesis by (simp only: word_unat_eq_iff)
  qed
  then have "round_up v = push_bit (Suc k) 1" by (simp add: round_up_def)
  then show ?thesis using ffs_power [of "Suc k"] assms(3) by simp
qed

lemma isl_hash_table_init_run:
  assumes "min_size + 1 < 2 ^ 29" and c: "calloc_bounded c"
  obtains bits where "2 \<le> bits" "4 * min_size < 3 * 2 ^ bits" "3 * 2 ^ bits \<le> 8 * (max 2 min_size + 1)"
    "isl_hash_table_init c min_size =
       (if c (2 ^ bits)
        then (Inr (), \<lparr>table_bits = bits, table_n = 0, table_entries = Some (replicate (2 ^ bits) empty_slot)\<rparr>)
        else (Inl isl_error_alloc, \<lparr>table_bits = bits, table_n = 0, table_entries = None\<rparr>))"
proof -
  define m where "m = max 2 min_size"
  define v where "v = nat (4 * (m + 1) div 3 - 1)"
  have m: "2 \<le> m" "m + 1 < 2 ^ 29" "min_size \<le> m" using assms(1) by (auto simp: m_def)
  have vi: "int v = 4 * (m + 1) div 3 - 1" using m by (simp add: v_def)
  have "int v < 2 ^ 31" "3 \<le> int v" using vi m by simp_all
  then have v: "3 \<le> v" "v < 2 ^ 31" by simp_all
  obtain k where k: "2 ^ k \<le> v" "v < 2 ^ Suc k"
    using ex_power_ivl1 [of 2 v] v by auto
  have k31: "k < 31"
  proof -
    have "(2::nat) ^ k < 2 ^ 31" using k(1) v(2) by simp
    then show ?thesis by (rule power_less_imp_less_exp [rotated]) simp
  qed
  have "k \<noteq> 0" using k(2) v(1) by (cases k) auto
  have w: "(word_of_int (4 * (m + 1) div 3 - 1) :: u32) = of_nat v" using vi by (metis of_int_of_nat_eq)
  have "unat (of_nat v :: u32) = v" using v(2) by (simp add: unsigned_of_nat take_bit_nat_eq_self)
  then have f: "ffs (round_up (word_of_int (4 * (m + 1) div 3 - 1))) - 1 = Suc k"
    using ffs_round_up [of k "of_nat v"] k k31 by (simp only: w)
  have pow: "int v < 2 ^ Suc k" "2 ^ Suc k \<le> 2 * int v"
  proof -
    from k(2) have "int v < int (2 ^ Suc k)" by (simp only: of_nat_less_iff)
    then show "int v < 2 ^ Suc k" by simp
    from k(1) have "int (2 ^ k) \<le> int v" by (simp only: of_nat_le_iff)
    then show "2 ^ Suc k \<le> 2 * int v" by simp
  qed
  have third: "3 * (int v + 1) \<le> 4 * (m + 1)" "4 * (m + 1) < 3 * (int v + 1) + 3" using vi by simp_all
  show thesis
  proof (rule that [of "Suc k"])
    show "2 \<le> Suc k" using \<open>k \<noteq> 0\<close> by simp
    show "4 * min_size < 3 * 2 ^ Suc k" using pow(1) third m(3) by simp
    define P :: int where "P = 2 ^ Suc k"
    have "P \<le> 2 * int v" using pow(2) by (simp only: P_def)
    then have "3 * P \<le> 8 * (m + 1)" using third(1) by (simp add: algebra_simps)
    then show "3 * 2 ^ Suc k \<le> 8 * (max 2 min_size + 1)" by (simp only: P_def m_def)
    have mm: "(if min_size < 2 then 2 else min_size) = m" by (simp add: m_def)
    show "isl_hash_table_init c min_size =
       (if c (2 ^ Suc k)
        then (Inr (), \<lparr>table_bits = Suc k, table_n = 0, table_entries = Some (replicate (2 ^ Suc k) empty_slot)\<rparr>)
        else (Inl isl_error_alloc, \<lparr>table_bits = Suc k, table_n = 0, table_entries = None\<rparr>))"
      unfolding isl_hash_table_init_def Let_def mm f by (simp add: isl_calloc_entries_def)
  qed
qed

subsection \<open>The interface for the clients of the table\<close>

text \<open>
  What the clients of the table rely on: they look a datum up by its hash code and
  a comparison, put a new datum in the place they were given or give that place
  back, and delete a datum they found.  \<open>items\<close> are the stored data with their hash
  codes, and \<open>full\<close> says that no memory is left for another one.
\<close>

locale slot_table =
  fixes lookup :: "'t \<Rightarrow> u32 \<Rightarrow> ('a \<Rightarrow> bool res) \<Rightarrow> bool \<Rightarrow> ('p option res \<times> 't) option"
    and get :: "'t \<Rightarrow> 'p \<Rightarrow> 'a option"
    and put :: "'t \<Rightarrow> 'p \<Rightarrow> 'a \<Rightarrow> 't"
    and cancel :: "'t \<Rightarrow> 't"
    and delete :: "'t \<Rightarrow> 'p \<Rightarrow> 't res option"
    and ok :: "'t \<Rightarrow> bool"
    and full :: "'t \<Rightarrow> bool"
    and items :: "'t \<Rightarrow> (u32 \<times> 'a) multiset"
  assumes lookup_ends: "ok t \<Longrightarrow> lookup t kh eq reserve \<noteq> None"
    and lookup_error: "ok t \<Longrightarrow> lookup t kh eq reserve = Some (Inl err, t') \<Longrightarrow>
      t' = t \<and> (reserve \<and> err = isl_error_alloc \<and> full t \<or> (\<exists>d. (kh, d) \<in># items t \<and> eq d = Inl err))"
    and lookup_none: "ok t \<Longrightarrow> lookup t kh eq reserve = Some (Inr None, t') \<Longrightarrow>
      t' = t \<and> \<not> reserve \<and> (\<forall>d. (kh, d) \<in># items t \<longrightarrow> eq d = Inr False)"
    and lookup_hit: "ok t \<Longrightarrow> lookup t kh eq reserve = Some (Inr (Some p), t') \<Longrightarrow> get t' p = Some d \<Longrightarrow>
      t' = t \<and> (kh, d) \<in># items t \<and> eq d = Inr True"
    and lookup_new: "ok t \<Longrightarrow> lookup t kh eq reserve = Some (Inr (Some p), t') \<Longrightarrow> get t' p = None \<Longrightarrow>
      reserve \<and> (\<forall>d. (kh, d) \<in># items t \<longrightarrow> eq d = Inr False) \<and>
      (\<forall>d. ok (put t' p d) \<and> items (put t' p d) = add_mset (kh, d) (items t)) \<and>
      ok (cancel t') \<and> items (cancel t') = items t"
    and delete_hit: "ok t \<Longrightarrow> lookup t kh eq False = Some (Inr (Some p), t) \<Longrightarrow> get t p = Some d \<Longrightarrow>
      \<exists>t'. delete t p = Some (Inr t') \<and> ok t' \<and> items t = add_mset (kh, d) (items t')"
begin

text \<open>A stored datum is found when the comparison accepts it and nothing else.\<close>

lemma lookup_stored:
  assumes t: "ok t" and d: "(kh, d) \<in># items t"
    and eq: "\<And>e. (kh, e) \<in># items t \<Longrightarrow> eq e = Inr (e = d)"
  obtains p where "lookup t kh eq False = Some (Inr (Some p), t)" and "get t p = Some d"
proof -
  obtain r t' where r: "lookup t kh eq False = Some (r, t')"
    using lookup_ends [OF t, of kh eq False] by auto
  show thesis
  proof (cases r)
    case (Inl err)
    then show ?thesis using lookup_error [OF t, of kh eq False err t'] r eq by auto
  next
    case (Inr po)
    show ?thesis
    proof (cases po)
      case None
      then show ?thesis using lookup_none [OF t, of kh eq False t'] r Inr d eq [OF d] by auto
    next
      case (Some p)
      note r = r [unfolded Inr Some]
      obtain e where e: "get t' p = Some e"
        using lookup_new [OF t r] by (cases "get t' p") auto
      then have "t' = t" "(kh, e) \<in># items t" "eq e = Inr True" using lookup_hit [OF t r] by auto
      with eq e r that show ?thesis by auto
    qed
  qed
qed

text \<open>A stored datum can be deleted, and only it goes.\<close>

lemma delete_stored:
  assumes t: "ok t" and d: "(kh, d) \<in># items t"
    and eq: "\<And>e. (kh, e) \<in># items t \<Longrightarrow> eq e = Inr (e = d)"
  obtains p t' where "lookup t kh eq False = Some (Inr (Some p), t)" and "delete t p = Some (Inr t')"
    and "ok t'" and "items t = add_mset (kh, d) (items t')"
proof -
  obtain p where p: "lookup t kh eq False = Some (Inr (Some p), t)" "get t p = Some d"
    using lookup_stored [OF t d eq] by blast
  with delete_hit [OF t p] that show thesis by blast
qed

text \<open>
  Looking up with a reservation: the datum that is stored already, a place for a new
  one, or no memory.
\<close>

lemma lookup_or_reserve:
  assumes t: "ok t" and eq: "\<And>e. (kh, e) \<in># items t \<Longrightarrow> eq e \<in> range Inr"
  obtains (found) p d where "lookup t kh eq True = Some (Inr (Some p), t)" "get t p = Some d"
      "(kh, d) \<in># items t" "eq d = Inr True"
    | (fresh) p t' where "lookup t kh eq True = Some (Inr (Some p), t')" "get t' p = None"
      "\<And>d. (kh, d) \<in># items t \<Longrightarrow> eq d = Inr False"
      "\<And>d. ok (put t' p d)" "\<And>d. items (put t' p d) = add_mset (kh, d) (items t)"
      "ok (cancel t')" "items (cancel t') = items t"
    | (no_memory) "lookup t kh eq True = Some (Inl isl_error_alloc, t)" "full t"
proof -
  obtain r t' where r: "lookup t kh eq True = Some (r, t')"
    using lookup_ends [OF t, of kh eq True] by auto
  show thesis
  proof (cases r)
    case (Inl err)
    then have "t' = t" "err = isl_error_alloc \<and> full t \<or> (\<exists>d. (kh, d) \<in># items t \<and> eq d = Inl err)"
      using lookup_error [OF t, of kh eq True err t'] r by auto
    with eq Inl r show ?thesis by (force intro: no_memory)
  next
    case (Inr po)
    then obtain p where p: "lookup t kh eq True = Some (Inr (Some p), t')"
      using r lookup_none [OF t, of kh eq True t'] by (cases po) auto
    show ?thesis
    proof (cases "get t' p")
      case None
      from lookup_new [OF t p None] show ?thesis by (intro fresh [OF p None]) auto
    next
      case (Some d)
      from lookup_hit [OF t p Some] p Some show ?thesis by (intro found [of p d]) auto
    qed
  qed
qed

end

text \<open>
  The memory holds no array of more than \<open>2 ^ 29\<close> entries; \<open>c\<close> says which smaller
  ones can be had.
\<close>

definition memory_limit :: "(nat \<Rightarrow> bool) \<Rightarrow> nat \<Rightarrow> bool" where
  "memory_limit c = (\<lambda>sz. c sz \<and> sz \<le> 2 ^ 29)"

lemma calloc_bounded_memory_limit: "calloc_bounded (memory_limit c)"
  by (simp add: calloc_bounded_def memory_limit_def)

lemma memory_limit_bounded: "calloc_bounded c \<Longrightarrow> memory_limit c = c"
  by (auto simp: calloc_bounded_def memory_limit_def fun_eq_iff)

text \<open>\<open>entry->data\<close> of the slot the caller was given, and the undone reservation.\<close>

definition get_data :: "'a isl_hash_table \<Rightarrow> nat \<Rightarrow> 'a option" where
  "get_data table h = entry_data (slots table ! h)"

definition unreserve :: "'a isl_hash_table \<Rightarrow> 'a isl_hash_table" where
  "unreserve table = table\<lparr>table_n := table_n table - 1\<rparr>"

text \<open>Three quarters of the table are used, and there is no memory for a larger one.\<close>

definition table_full :: "(nat \<Rightarrow> bool) \<Rightarrow> 'a isl_hash_table \<Rightarrow> bool" where
  "table_full c table \<longleftrightarrow>
     3 * 2 ^ table_bits table \<le> 4 * table_n table \<and> \<not> memory_limit c (2 * 2 ^ table_bits table)"

lemma find_SomeD:
  assumes "table_ok t" and "isl_hash_table_find (Suc (Suc depth)) (memory_limit c) t kh eq reserve = Some r"
  shows "find_post (memory_limit c) t kh eq reserve r"
  using isl_hash_table_find_run [OF assms(1) calloc_bounded_memory_limit, of depth c kh eq reserve] assms(2)
  by auto

lemma slot_in_contents:
  assumes "table_ok t" and "h < 2 ^ table_bits t" and "slots t ! h = \<lparr>entry_hash = kh, entry_data = Some d\<rparr>"
  shows "(kh, d) \<in># contents t"
  unfolding contents_def in_entries_mset
  by (rule exI [of _ h]) (use assms in \<open>simp add: table_ok_def\<close>)

interpretation hash_table: slot_table "isl_hash_table_find (Suc (Suc depth)) (memory_limit c)"
    get_data set_data unreserve isl_hash_table_remove table_ok "table_full c" contents for depth c
proof
  fix t :: "'a isl_hash_table" and kh eq reserve err t' p d
  assume t: "table_ok t"
  let ?find = "isl_hash_table_find (Suc (Suc depth)) (memory_limit c) t kh eq"
  show "?find reserve \<noteq> None"
    using isl_hash_table_find_run [OF t calloc_bounded_memory_limit, of depth c kh eq reserve] by auto
  show "t' = t \<and> (reserve \<and> err = isl_error_alloc \<and> table_full c t \<or> (\<exists>d. (kh, d) \<in># contents t \<and> eq d = Inl err))"
    if "?find reserve = Some (Inl err, t')"
    using find_SomeD [OF t that] by (auto simp: table_full_def)
  show "t' = t \<and> \<not> reserve \<and> (\<forall>d. (kh, d) \<in># contents t \<longrightarrow> eq d = Inr False)"
    if "?find reserve = Some (Inr None, t')"
    using find_SomeD [OF t that] by (simp add: absent_def)
  show "t' = t \<and> (kh, d) \<in># contents t \<and> eq d = Inr True"
    if "?find reserve = Some (Inr (Some p), t')" "get_data t' p = Some d"
    using find_SomeD [OF t that(1)] that(2) slot_in_contents [OF t]
    by (auto simp: get_data_def reserved_def)
  show "reserve \<and> (\<forall>d. (kh, d) \<in># contents t \<longrightarrow> eq d = Inr False) \<and>
      (\<forall>d. table_ok (set_data t' p d) \<and> contents (set_data t' p d) = add_mset (kh, d) (contents t)) \<and>
      table_ok (unreserve t') \<and> contents (unreserve t') = contents t"
    if "?find reserve = Some (Inr (Some p), t')" "get_data t' p = None"
    using find_SomeD [OF t that(1)] that(2)
    by (auto simp: get_data_def reserved_def absent_def unreserve_def contents_def)
  show "\<exists>t'. isl_hash_table_remove t p = Some (Inr t') \<and> table_ok t' \<and> contents t = add_mset (kh, d) (contents t')"
    if "?find False = Some (Inr (Some p), t)" "get_data t p = Some d"
    using find_SomeD [OF t that(1)] that(2) isl_hash_table_remove_run [OF t, of p kh d]
    by (auto simp: get_data_def)
qed

subsection \<open>Properties\<close>

text \<open>A table of four slots with three data, the hash codes of two of which collide.\<close>

definition sample_table :: "nat isl_hash_table" where
  "sample_table = \<lparr>table_bits = 2, table_n = 3, table_entries = Some
     [\<lparr>entry_hash = 3, entry_data = Some 30\<rparr>, empty_slot,
      \<lparr>entry_hash = 2, entry_data = Some 20\<rparr>, \<lparr>entry_hash = 3, entry_data = Some 31\<rparr>]\<rparr>"

lemma sample_home: "home 2 \<lparr>entry_hash = 3, entry_data = x\<rparr> = 3" "home 2 \<lparr>entry_hash = 2, entry_data = x\<rparr> = 2"
proof -
  have "unat (isl_hash_bits 3 2) = 3" "unat (isl_hash_bits 2 2) = 2" by code_simp+
  then show "home 2 \<lparr>entry_hash = 3, entry_data = x\<rparr> = 3" "home 2 \<lparr>entry_hash = 2, entry_data = x\<rparr> = 2"
    by (simp_all add: home_def)
qed

lemma sample_table_ok: "table_ok sample_table"
proof -
  have len: "length (slots sample_table) = 4" by (simp add: sample_table_def)
  have four: "(\<forall>i < 4. P i) \<longleftrightarrow> P 0 \<and> P 1 \<and> P 2 \<and> P (3::nat)" for P
    by (simp add: numeral_eq_Suc All_less_Suc conj_ac)
  have "chained 2 (slots sample_table)"
    unfolding chained_def len four
    by (simp add: sample_table_def occupied_def dist_def empty_slot_def sample_home)
  then show ?thesis by (simp add: table_ok_def len) (simp add: sample_table_def contents_def empty_slot_def)
qed

text \<open>
  C5: \<open>isl_hash_table_find\<close> ends, its mutual recursion with \<open>grow_table\<close> at most two
  deep, and meets its contract: it gives a stored datum with the hash code that the
  comparison accepts, or the error of the comparison on such a datum, or says that
  no stored datum with the hash code is accepted; in the last case it reserves, when
  asked to, a slot in which the new datum will be found beside all the old ones,
  growing the table when three quarters of it are used, and fails without changing
  the table only if the memory for that growth is not there.
\<close>

theorem hash_table_find_contract:
  assumes "table_ok t" and "calloc_bounded calloc_ok"
  shows "\<exists>r. isl_hash_table_find (Suc (Suc depth)) calloc_ok t key_hash eq reserve = Some r \<and>
    find_post calloc_ok t key_hash eq reserve r"
  using assms by (rule isl_hash_table_find_run)

theorem hash_table_find_contract_witness:
  "\<exists>r. isl_hash_table_find (Suc (Suc 0)) (\<lambda>sz. sz \<le> 8) sample_table 7 (\<lambda>d. Inr (d = 70)) True = Some r \<and>
    find_post (\<lambda>sz. sz \<le> 8) sample_table 7 (\<lambda>d. Inr (d = 70)) True r"
  by (rule hash_table_find_contract) (simp_all add: sample_table_ok calloc_bounded_def)

text \<open>
  C6: removing an entry ends, keeps every other entry reachable from its home slot
  (the entries behind it are moved back where necessary, around the end of the array
  too) and takes exactly that entry out of the contents.
\<close>

theorem hash_table_remove_keeps_others:
  assumes "table_ok t" and "entry < 2 ^ table_bits t"
    and "slots t ! entry = \<lparr>entry_hash = hs, entry_data = Some d\<rparr>"
  shows "\<exists>t'. isl_hash_table_remove t entry = Some (Inr t') \<and> table_ok t' \<and>
    table_bits t' = table_bits t \<and> contents t = add_mset (hs, d) (contents t')"
  using assms by (rule isl_hash_table_remove_run)

theorem hash_table_remove_keeps_others_witness:
  "\<exists>t'. isl_hash_table_remove sample_table 3 = Some (Inr t') \<and> table_ok t' \<and>
    table_bits t' = table_bits sample_table \<and> contents sample_table = add_mset (3, 31) (contents t')"
  by (rule hash_table_remove_keeps_others) (simp_all add: sample_table_ok, simp_all add: sample_table_def)

text \<open>
  C25: a new table is empty and well formed, and big enough that \<open>min_size\<close> data can
  be stored without it growing, in an array of at most \<open>8/3 * (max 2 min_size + 1)\<close> slots;
  if the memory is not there the result is an error.
\<close>

theorem hash_table_init_capacity:
  assumes "min_size + 1 < 2 ^ 29" and "calloc_bounded calloc_ok"
  shows "\<exists>r t. isl_hash_table_init calloc_ok min_size = (r, t :: 'a isl_hash_table) \<and>
    (r = Inr () \<and> calloc_ok (2 ^ table_bits t) \<and> table_ok t \<and> contents t = {#} \<and>
       4 * min_size < 3 * 2 ^ table_bits t \<and> 3 * 2 ^ table_bits t \<le> 8 * (max 2 min_size + 1) \<or>
     r = Inl isl_error_alloc \<and> \<not> calloc_ok (2 ^ table_bits t) \<and> table_entries t = None)"
proof -
  obtain bits where b: "2 \<le> bits" "4 * min_size < 3 * 2 ^ bits" "3 * 2 ^ bits \<le> 8 * (max 2 min_size + 1)"
    and run: "(isl_hash_table_init calloc_ok min_size :: unit res \<times> 'a isl_hash_table) =
       (if calloc_ok (2 ^ bits)
        then (Inr (), \<lparr>table_bits = bits, table_n = 0, table_entries = Some (replicate (2 ^ bits) empty_slot)\<rparr>)
        else (Inl isl_error_alloc, \<lparr>table_bits = bits, table_n = 0, table_entries = None\<rparr>))"
    using isl_hash_table_init_run [OF assms] by blast
  have "bits \<le> 29" if "calloc_ok (2 ^ bits)"
  proof -
    have "(2::nat) ^ bits \<le> 2 ^ 29" using that assms(2) by (auto simp: calloc_bounded_def)
    then show ?thesis by (rule power_le_imp_le_exp [rotated]) simp
  qed
  with b run show ?thesis by (cases "calloc_ok (2 ^ bits)") (simp_all add: fresh_table_ok contents_def)
qed

theorem hash_table_init_capacity_witness:
  "\<exists>r t. isl_hash_table_init (\<lambda>sz. sz \<le> 64) 20 = (r, t :: nat isl_hash_table) \<and>
    (r = Inr () \<and> 2 ^ table_bits t \<le> (64::nat) \<and> table_ok t \<and> contents t = {#} \<and>
       4 * 20 < 3 * (2::int) ^ table_bits t \<and> 3 * 2 ^ table_bits t \<le> 8 * (max 2 20 + 1 :: int) \<or>
     r = Inl isl_error_alloc \<and> \<not> 2 ^ table_bits t \<le> (64::nat) \<and> table_entries t = None)"
  by (rule hash_table_init_capacity) (simp_all add: calloc_bounded_def)

end
