(* ===== verification/Isl_Id.thy ===== *)
theory Isl_Id imports Objects Hash_Table "HOL-Library.List_Lexorder" begin

text \<open>
  Identifiers (isl_id.c): a name and a user pointer, interned in the hash table of the
  context, so that two identifiers with the same name and user are the same object.

  The objects are those of the store of theory Objects; the context also holds the
  table of the addresses of the identifiers, and \<open>user_calls\<close> records the calls of the
  \<open>free_user\<close> callbacks.  A pointer is an address or \<open>NULL\<close> (\<^const>\<open>None\<close>).
  A name is the list of its characters before the terminating zero.
\<close>

type_synonym c_string = "8 word list"
type_synonym pointer = "64 word"

record isl_id =
  id_name :: "c_string option"
  id_user :: pointer
  id_hash :: u32
  id_free_user :: "nat option"

record isl_id_ctx =
  objs :: "isl_id store"
  id_table :: "nat isl_hash_table"
  user_calls :: "(nat \<times> pointer) list"

text \<open>\<open>strcmp\<close> of the C library: characters compare as \<open>unsigned char\<close>.\<close>

fun strcmp :: "c_string \<Rightarrow> c_string \<Rightarrow> int" where
  "strcmp [] [] = 0"
| "strcmp [] (c # t) = -1"
| "strcmp (c # s) [] = 1"
| "strcmp (c # s) (d # t) = (if c < d then -1 else if d < c then 1 else strcmp s t)"

text \<open>The bytes of a pointer in memory, on a little endian machine.\<close>

definition pointer_bytes :: "pointer \<Rightarrow> 8 word list" where
  "pointer_bytes p = map (\<lambda>i. ucast (drop_bit (8 * i) p)) [0..<8]"

definition name_user_hash :: "c_string option \<Rightarrow> pointer \<Rightarrow> u32" where
  "name_user_hash name user =
     (case name of
        Some s \<Rightarrow> isl_hash_string isl_hash_init s
      | None \<Rightarrow> isl_hash_mem isl_hash_init (pointer_bytes user) 8)"

text \<open>The part of \<open>isl_ctx_alloc_with_options\<close> that makes the table of a new context.\<close>

definition isl_id_ctx_alloc :: "(nat \<Rightarrow> bool) \<Rightarrow> isl_id_ctx res" where
  "isl_id_ctx_alloc calloc_ok =
     (case isl_hash_table_init calloc_ok 0 of
        (Inl e, _) \<Rightarrow> Inl e
      | (Inr _, table) \<Rightarrow> Inr \<lparr>objs = empty_store, id_table = table, user_calls = []\<rparr>)"

text \<open>\<open>malloc_ok\<close>: the memory for the object and the copy of its name can be had.\<close>

definition id_alloc :: "bool \<Rightarrow> isl_id_ctx \<Rightarrow> c_string option \<Rightarrow> pointer \<Rightarrow> isl_id_ctx \<times> nat option" where
  "id_alloc malloc_ok ctx name user =
     (if \<not> malloc_ok then (ctx, None)
      else let (s, a) = new_obj (objs ctx)
                 \<lparr>id_name = name, id_user = user, id_hash = name_user_hash name user, id_free_user = None\<rparr>
           in (ctx\<lparr>objs := s\<rparr>, Some a))"

text \<open>
  The comparison reads the entry through its address; an address of a released object
  would be an error.  Two names are equal as pointers only if both are \<open>NULL\<close> or the
  characters are the same anyway.
\<close>

definition isl_id_has_name_and_user :: "isl_id store \<Rightarrow> c_string option \<times> pointer \<Rightarrow> nat \<Rightarrow> bool res" where
  "isl_id_has_name_and_user s nu entry =
     (case cells s entry of
        None \<Rightarrow> Inl isl_error_internal
      | Some (_, v) \<Rightarrow>
          if id_user v \<noteq> snd nu then Inr False
          else (case (id_name v, fst nu) of
                  (None, None) \<Rightarrow> Inr True
                | (Some s, Some t) \<Rightarrow> Inr (strcmp s t = 0)
                | _ \<Rightarrow> Inr False))"

definition isl_id_copy :: "isl_id_ctx \<Rightarrow> nat option \<Rightarrow> (isl_id_ctx \<times> nat option) option" where
  "isl_id_copy ctx p =
     (case p of
        None \<Rightarrow> Some (ctx, None)
      | Some a \<Rightarrow>
          (case cells (objs ctx) a of
             None \<Rightarrow> None
           | Some (r, v) \<Rightarrow> if r < 0 then Some (ctx, p) else Some (ctx\<lparr>objs := set_obj (objs ctx) a (r + 1) v\<rparr>, p)))"

definition isl_id_alloc ::
  "(nat \<Rightarrow> bool) \<Rightarrow> bool \<Rightarrow> isl_id_ctx \<Rightarrow> c_string option \<Rightarrow> pointer \<Rightarrow> (isl_id_ctx \<times> nat option) option" where
  "isl_id_alloc calloc_ok malloc_ok ctx name user =
     (case isl_hash_table_find (Suc (Suc 0)) calloc_ok (id_table ctx) (name_user_hash name user)
             (isl_id_has_name_and_user (objs ctx) (name, user)) True of
        None \<Rightarrow> None
      | Some (Inl _, table) \<Rightarrow> Some (ctx\<lparr>id_table := table\<rparr>, None)
      | Some (Inr None, table) \<Rightarrow> None
      | Some (Inr (Some entry), table) \<Rightarrow>
          (case get_data table entry of
             Some a \<Rightarrow> isl_id_copy (ctx\<lparr>id_table := table\<rparr>) (Some a)
           | None \<Rightarrow>
               (case id_alloc malloc_ok ctx name user of
                  (ctx, None) \<Rightarrow> Some (ctx\<lparr>id_table := unreserve table\<rparr>, None)
                | (ctx, Some a) \<Rightarrow> Some (ctx\<lparr>id_table := set_data table entry a\<rparr>, Some a))))"

definition isl_id_eq :: "nat \<Rightarrow> nat \<Rightarrow> bool res" where
  "isl_id_eq p entry = Inr (entry = p)"

text \<open>The end of \<open>isl_id_free\<close>: the callback, and the release of the object.\<close>

definition id_release :: "isl_id_ctx \<Rightarrow> nat \<Rightarrow> isl_id \<Rightarrow> isl_id_ctx" where
  "id_release ctx a v =
     ctx\<lparr>user_calls := (case id_free_user v of None \<Rightarrow> user_calls ctx
                                            | Some fn \<Rightarrow> user_calls ctx @ [(fn, id_user v)]),
         objs := release (objs ctx) a\<rparr>"

definition isl_id_free :: "(nat \<Rightarrow> bool) \<Rightarrow> isl_id_ctx \<Rightarrow> nat option \<Rightarrow> (isl_id_ctx \<times> nat option) option" where
  "isl_id_free calloc_ok ctx p =
     (case p of
        None \<Rightarrow> Some (ctx, None)
      | Some a \<Rightarrow>
          (case cells (objs ctx) a of
             None \<Rightarrow> None
           | Some (r, v) \<Rightarrow>
               if r < 0 then Some (ctx, None)
               else let ctx = ctx\<lparr>objs := set_obj (objs ctx) a (r - 1) v\<rparr>
                    in if 0 < r - 1 then Some (ctx, None)
                       else case isl_hash_table_find (Suc (Suc 0)) calloc_ok (id_table ctx) (id_hash v) (isl_id_eq a) False of
                              None \<Rightarrow> None
                            | Some (Inl _, table) \<Rightarrow> Some (ctx\<lparr>id_table := table\<rparr>, None)
                            | Some (Inr None, table) \<Rightarrow> Some (id_release (ctx\<lparr>id_table := table\<rparr>) a v, None)
                            | Some (Inr (Some entry), table) \<Rightarrow>
                                (case isl_hash_table_remove table entry of
                                   None \<Rightarrow> None
                                 | Some (Inl _) \<Rightarrow> Some (id_release (ctx\<lparr>id_table := table\<rparr>) a v, None)
                                 | Some (Inr table) \<Rightarrow> Some (id_release (ctx\<lparr>id_table := table\<rparr>) a v, None))))"

definition isl_id_set_free_user ::
  "isl_id_ctx \<Rightarrow> nat option \<Rightarrow> nat option \<Rightarrow> (isl_id_ctx \<times> nat option) option" where
  "isl_id_set_free_user ctx p fn =
     (case p of
        None \<Rightarrow> Some (ctx, None)
      | Some a \<Rightarrow>
          (case cells (objs ctx) a of
             None \<Rightarrow> None
           | Some (r, v) \<Rightarrow> Some (ctx\<lparr>objs := set_obj (objs ctx) a r (v\<lparr>id_free_user := fn\<rparr>)\<rparr>, p)))"

text \<open>Reading an identifier.\<close>

definition id_at :: "isl_id_ctx \<Rightarrow> nat \<Rightarrow> isl_id option" where
  "id_at ctx a = map_option snd (cells (objs ctx) a)"

definition isl_id_get_name :: "isl_id option \<Rightarrow> c_string option" where
  "isl_id_get_name p = Option.bind p id_name"

definition isl_id_get_user :: "isl_id option \<Rightarrow> pointer" where
  "isl_id_get_user p = (case p of None \<Rightarrow> 0 | Some v \<Rightarrow> id_user v)"

definition isl_id_get_hash :: "isl_id option \<Rightarrow> u32" where
  "isl_id_get_hash p = (case p of None \<Rightarrow> 0 | Some v \<Rightarrow> id_hash v)"

definition isl_id_get_free_user :: "isl_id option \<Rightarrow> nat option" where
  "isl_id_get_free_user p = Option.bind p id_free_user"

definition isl_hash_id :: "u32 \<Rightarrow> isl_id option \<Rightarrow> u32" where
  "isl_hash_id hash p = (case p of None \<Rightarrow> hash | Some v \<Rightarrow> isl_hash_hash hash (id_hash v))"

definition isl_id_plain_is_equal :: "nat option \<Rightarrow> nat option \<Rightarrow> bool res" where
  "isl_id_plain_is_equal id1 id2 =
     (if id1 = None \<or> id2 = None then Inl isl_error_none else Inr (id1 = id2))"

text \<open>
  The order of identifiers.  \<open>!name\<close> is 1 for a null pointer; user pointers compare as
  addresses.
\<close>

definition isl_id_cmp :: "isl_id_ctx \<Rightarrow> nat option \<Rightarrow> nat option \<Rightarrow> int option" where
  "isl_id_cmp ctx id1 id2 =
     (if id1 = id2 then Some 0
      else case (id1, id2) of
             (None, _) \<Rightarrow> Some (-1)
           | (_, None) \<Rightarrow> Some 1
           | (Some a, Some b) \<Rightarrow>
               (case (id_at ctx a, id_at ctx b) of
                  (Some v, Some w) \<Rightarrow>
                    Some (if (id_name v = None) \<noteq> (id_name w = None)
                          then of_bool (id_name v = None) - of_bool (id_name w = None)
                          else let cmp = (if id_name v \<noteq> None then strcmp (the (id_name v)) (the (id_name w)) else 0)
                               in if cmp \<noteq> 0 then cmp else if id_user v < id_user w then -1 else 1)
                | _ \<Rightarrow> None))"

subsection \<open>Programs that use identifiers\<close>

text \<open>
  A program holds references in variables: it asks for an identifier (\<open>mok\<close> says
  whether the memory for a new one is there), copies a reference, gives one up or sets
  the callback.
\<close>

datatype id_cmd =
    NewId nat "c_string option" pointer bool
  | CopyId nat nat
  | FreeId nat
  | SetFreeUser nat "nat option"

fun id_exec :: "(nat \<Rightarrow> bool) \<Rightarrow> id_cmd \<Rightarrow> isl_id_ctx \<times> (nat \<Rightarrow> nat option) \<Rightarrow>
  (isl_id_ctx \<times> (nat \<Rightarrow> nat option)) option" where
  "id_exec c (NewId x name user mok) (ctx, env) =
     map_option (\<lambda>(ctx, p). (ctx, env(x := p))) (isl_id_alloc c mok ctx name user)"
| "id_exec c (CopyId y x) (ctx, env) = map_option (\<lambda>(ctx, p). (ctx, env(y := p))) (isl_id_copy ctx (env x))"
| "id_exec c (FreeId x) (ctx, env) = map_option (\<lambda>(ctx, p). (ctx, env(x := p))) (isl_id_free c ctx (env x))"
| "id_exec c (SetFreeUser x fn) (ctx, env) =
     map_option (\<lambda>(ctx, p). (ctx, env(x := p))) (isl_id_set_free_user ctx (env x) fn)"

fun id_exec_all :: "(nat \<Rightarrow> bool) \<Rightarrow> id_cmd list \<Rightarrow> isl_id_ctx \<times> (nat \<Rightarrow> nat option) \<Rightarrow>
  (isl_id_ctx \<times> (nat \<Rightarrow> nat option)) option" where
  "id_exec_all c [] st = Some st"
| "id_exec_all c (cmd # cmds) st = Option.bind (id_exec c cmd st) (id_exec_all c cmds)"

text \<open>The name and user each variable stands for; a variable is assigned to when it holds nothing.\<close>

type_synonym id_key = "c_string option \<times> pointer"

fun key_exec :: "id_cmd \<Rightarrow> (nat \<Rightarrow> id_key option) \<Rightarrow> nat \<Rightarrow> id_key option" where
  "key_exec (NewId x name user mok) A = A(x \<mapsto> (name, user))"
| "key_exec (CopyId y x) A = A(y := A x)"
| "key_exec (FreeId x) A = A(x := None)"
| "key_exec (SetFreeUser x fn) A = A"

fun key_sensible :: "id_cmd \<Rightarrow> (nat \<Rightarrow> id_key option) \<Rightarrow> bool" where
  "key_sensible (NewId x name user mok) A = (A x = None)"
| "key_sensible (CopyId y x) A = (A y = None)"
| "key_sensible (FreeId x) A = True"
| "key_sensible (SetFreeUser x fn) A = True"

fun key_sensible_all :: "id_cmd list \<Rightarrow> (nat \<Rightarrow> id_key option) \<Rightarrow> bool" where
  "key_sensible_all [] A = True"
| "key_sensible_all (cmd # cmds) A = (key_sensible cmd A \<and> key_sensible_all cmds (key_exec cmd A))"

definition key_exec_all :: "id_cmd list \<Rightarrow> (nat \<Rightarrow> id_key option) \<Rightarrow> nat \<Rightarrow> id_key option" where
  "key_exec_all cmds A = fold key_exec cmds A"

definition id_key :: "isl_id \<Rightarrow> id_key" where
  "id_key v = (id_name v, id_user v)"

definition key_at :: "isl_id_ctx \<Rightarrow> nat \<Rightarrow> id_key option" where
  "key_at ctx a = map_option id_key (id_at ctx a)"

subsection \<open>The invariant\<close>

definition live :: "isl_id store \<Rightarrow> (u32 \<times> nat) set" where
  "live s = {(id_hash v, a) | a r v. cells s a = Some (r, v)}"

definition id_ok :: "isl_id \<Rightarrow> bool" where
  "id_ok v \<longleftrightarrow> id_hash v = name_user_hash (id_name v) (id_user v)"

text \<open>
  The table holds exactly the identifiers that are alive, each under its hash code, no
  two of them have the same name and user, and each counts its references.
\<close>

definition id_inv :: "isl_id_ctx \<Rightarrow> (nat \<Rightarrow> nat option) \<Rightarrow> bool" where
  "id_inv ctx env \<longleftrightarrow>
     store_inv id_ok (objs ctx) env \<and> table_ok (id_table ctx) \<and>
     contents (id_table ctx) = mset_set (live (objs ctx)) \<and>
     (\<forall>a b k. key_at ctx a = Some k \<longrightarrow> key_at ctx b = Some k \<longrightarrow> a = b)"

lemma strcmp_0 [simp]: "strcmp s t = 0 \<longleftrightarrow> s = t"
  by (induction s t rule: strcmp.induct) auto

lemma has_name_and_user:
  "cells s e = Some (r, v) \<Longrightarrow> isl_id_has_name_and_user s k e = Inr (id_key v = k)"
  by (cases k) (auto simp: isl_id_has_name_and_user_def id_key_def split: option.splits)

lemma key_at_eq: "key_at ctx a = Some k \<longleftrightarrow> (\<exists>r v. cells (objs ctx) a = Some (r, v) \<and> id_key v = k)"
  by (auto simp: key_at_def id_at_def)

lemma live_iff: "(h, a) \<in> live s \<longleftrightarrow> (\<exists>r v. cells s a = Some (r, v) \<and> h = id_hash v)"
  by (auto simp: live_def)

lemma finite_live: "finite (dom (cells s)) \<Longrightarrow> finite (live s)"
proof -
  have "live s \<subseteq> (\<lambda>a. (id_hash (snd (the (cells s a))), a)) ` dom (cells s)"
    by (force simp: live_def)
  then show "finite (dom (cells s)) \<Longrightarrow> finite (live s)" using finite_surj by blast
qed

lemma live_set_obj: "cells s a = Some (r, v) \<Longrightarrow> id_hash w = id_hash v \<Longrightarrow> live (set_obj s a r' w) = live s"
  by (auto simp: set_eq_iff live_iff)

lemma live_new: "cells s (next_addr s) = None \<Longrightarrow> live (fst (new_obj s v)) = insert (id_hash v, next_addr s) (live s)"
  by (auto simp: set_eq_iff live_iff)

lemma live_release: "cells s a = Some (r, v) \<Longrightarrow> live (release s a) = live s - {(id_hash v, a)}"
  by (auto simp: set_eq_iff live_iff)

lemma id_invD:
  assumes "id_inv ctx env"
  shows "store_inv id_ok (objs ctx) env" and "table_ok (id_table ctx)"
    and "contents (id_table ctx) = mset_set (live (objs ctx))"
    and "key_at ctx a = Some k \<Longrightarrow> key_at ctx b = Some k \<Longrightarrow> a = b"
    and "finite (live (objs ctx))"
proof -
  show inv: "store_inv id_ok (objs ctx) env" and "table_ok (id_table ctx)"
    and "contents (id_table ctx) = mset_set (live (objs ctx))"
    using assms by (simp_all add: id_inv_def)
  show "finite (live (objs ctx))" using store_invD(2) [OF inv] by (rule finite_live)
  show "key_at ctx a = Some k \<Longrightarrow> key_at ctx b = Some k \<Longrightarrow> a = b"
    using assms unfolding id_inv_def by blast
qed

text \<open>The step of one operation on a variable, and what it keeps of the others.\<close>

definition keys_kept :: "isl_id_ctx \<Rightarrow> isl_id_ctx \<Rightarrow> bool" where
  "keys_kept ctx ctx' \<longleftrightarrow> ctx_ref (objs ctx') \<le> ctx_ref (objs ctx) + 1 \<and>
     (\<forall>a k. key_at ctx a = Some k \<longrightarrow> key_at ctx' a \<in> {None, Some k})"

lemma id_copy_ok:
  assumes inv: "id_inv ctx env" and y: "env y = None" and c: "cells (objs ctx) a = Some (r, v)"
  shows "\<exists>ctx'. isl_id_copy ctx (Some a) = Some (ctx', Some a) \<and> id_inv ctx' (env(y \<mapsto> a)) \<and>
    key_at ctx' = key_at ctx \<and> ctx_ref (objs ctx') = ctx_ref (objs ctx)"
proof -
  note I = id_invD [OF inv]
  have r: "0 < r" using store_invD(5) [OF I(1), of a] c by (simp add: cell_ok_def)
  define ctx' where "ctx' = ctx\<lparr>objs := set_obj (objs ctx) a (r + 1) v\<rparr>"
  have keys: "key_at ctx' = key_at ctx"
    using c by (auto simp: ctx'_def key_at_def id_at_def fun_eq_iff)
  have "store_inv id_ok (objs ctx') (env(y \<mapsto> a))"
    using store_inv_copy [OF I(1) y c] by (simp add: ctx'_def)
  moreover have "live (objs ctx') = live (objs ctx)" using live_set_obj [OF c] by (simp add: ctx'_def)
  ultimately have "id_inv ctx' (env(y \<mapsto> a))"
    using I by (simp add: id_inv_def keys) (simp add: ctx'_def)
  moreover have "isl_id_copy ctx (Some a) = Some (ctx', Some a)"
    using c r by (simp add: isl_id_copy_def ctx'_def)
  moreover have "ctx_ref (objs ctx') = ctx_ref (objs ctx)" by (simp add: ctx'_def)
  ultimately show ?thesis using keys by blast
qed

lemma id_alloc_ok:
  assumes inv: "id_inv ctx env" and x: "env x = None"
  shows "\<exists>ctx' p. isl_id_alloc (memory_limit c) mok ctx name user = Some (ctx', p) \<and>
    id_inv ctx' (env(x := p)) \<and> keys_kept ctx ctx' \<and> (\<forall>a. p = Some a \<longrightarrow> key_at ctx' a = Some (name, user)) \<and>
    (p = None \<longrightarrow> \<not> mok \<or> table_full c (id_table ctx))"
proof -
  note I = id_invD [OF inv]
  define kh where "kh = name_user_hash name user"
  define eq where "eq = isl_id_has_name_and_user (objs ctx) (name, user)"
  have envx: "env(x := None) = env" using x by auto
  have item: "(kh, e) \<in># contents (id_table ctx) \<longleftrightarrow> (\<exists>r v. cells (objs ctx) e = Some (r, v) \<and> kh = id_hash v)" for e
    using I(3,5) by (simp add: live_iff)
  have run: "isl_id_alloc (memory_limit c) mok ctx name user =
     (case isl_hash_table_find (Suc (Suc 0)) (memory_limit c) (id_table ctx) kh eq True of
        None \<Rightarrow> None
      | Some (Inl _, table) \<Rightarrow> Some (ctx\<lparr>id_table := table\<rparr>, None)
      | Some (Inr None, table) \<Rightarrow> None
      | Some (Inr (Some entry), table) \<Rightarrow>
          (case get_data table entry of
             Some a \<Rightarrow> isl_id_copy (ctx\<lparr>id_table := table\<rparr>) (Some a)
           | None \<Rightarrow>
               (case id_alloc mok ctx name user of
                  (ctx, None) \<Rightarrow> Some (ctx\<lparr>id_table := unreserve table\<rparr>, None)
                | (ctx, Some a) \<Rightarrow> Some (ctx\<lparr>id_table := set_data table entry a\<rparr>, Some a))))"
    by (simp add: isl_id_alloc_def kh_def eq_def)
  have total: "eq e \<in> range Inr" if "(kh, e) \<in># contents (id_table ctx)" for e
    using that by (auto simp: item eq_def has_name_and_user)
  show ?thesis
  proof (rule hash_table.lookup_or_reserve [where depth = 0 and c = c, OF I(2) total])
    fix p d
    assume l: "isl_hash_table_find (Suc (Suc 0)) (memory_limit c) (id_table ctx) kh eq True = Some (Inr (Some p), id_table ctx)"
      and d: "get_data (id_table ctx) p = Some d" "(kh, d) \<in># contents (id_table ctx)" "eq d = Inr True"
    obtain r v where cd: "cells (objs ctx) d = Some (r, v)" "kh = id_hash v" using d(2) item by blast
    then have k: "key_at ctx d = Some (name, user)"
      using d(3) by (auto simp: eq_def has_name_and_user key_at_eq)
    obtain ctx' where "isl_id_copy ctx (Some d) = Some (ctx', Some d)" "id_inv ctx' (env(x \<mapsto> d))"
      "key_at ctx' = key_at ctx" "ctx_ref (objs ctx') = ctx_ref (objs ctx)"
      using id_copy_ok [OF inv x cd(1)] by blast
    then show ?thesis using l d(1) k by (simp add: run keys_kept_def)
  next
    fix p t'
    assume l: "isl_hash_table_find (Suc (Suc 0)) (memory_limit c) (id_table ctx) kh eq True = Some (Inr (Some p), t')"
      and g: "get_data t' p = None"
      and new: "\<And>d. (kh, d) \<in># contents (id_table ctx) \<Longrightarrow> eq d = Inr False"
      and put: "\<And>d. table_ok (set_data t' p d)" "\<And>d. contents (set_data t' p d) = add_mset (kh, d) (contents (id_table ctx))"
      and undo: "table_ok (unreserve t')" "contents (unreserve t') = contents (id_table ctx)"
    show ?thesis
    proof (cases mok)
      case False
      define ctx' where "ctx' = ctx\<lparr>id_table := unreserve t'\<rparr>"
      have "key_at ctx' = key_at ctx" by (simp add: ctx'_def key_at_def id_at_def fun_eq_iff)
      then have "id_inv ctx' env" "keys_kept ctx ctx'"
        using I undo by (auto simp: id_inv_def keys_kept_def ctx'_def)
      moreover have "isl_id_alloc (memory_limit c) mok ctx name user = Some (ctx', None)"
        using run l g False by (simp add: id_alloc_def ctx'_def)
      ultimately show ?thesis using envx False by auto
    next
      case True
      define v where "v = \<lparr>id_name = name, id_user = user, id_hash = kh, id_free_user = None\<rparr>"
      define a where "a = next_addr (objs ctx)"
      define ctx' where "ctx' = ctx\<lparr>objs := fst (new_obj (objs ctx) v), id_table := set_data t' p a\<rparr>"
      have free: "cells (objs ctx) a = None" using store_invD(4) [OF I(1)] by (simp add: a_def)
      have keys: "key_at ctx' = (key_at ctx)(a \<mapsto> (name, user))"
        by (auto simp: ctx'_def key_at_def id_at_def fun_eq_iff a_def v_def id_key_def)
      have other: "key_at ctx b \<noteq> Some (name, user)" for b
      proof
        assume "key_at ctx b = Some (name, user)"
        then obtain r w where w: "cells (objs ctx) b = Some (r, w)" "id_key w = (name, user)"
          by (auto simp: key_at_eq)
        then have "id_ok w" using store_invD(5) [OF I(1), of b] by (simp add: cell_ok_def)
        then have "kh = id_hash w" using w(2) by (simp add: id_ok_def id_key_def kh_def)
        then have "(kh, b) \<in># contents (id_table ctx)" using w(1) item by blast
        then show False using new [of b] has_name_and_user [OF w(1), of "(name, user)"] w(2)
          by (simp add: eq_def)
      qed
      have "store_inv id_ok (objs ctx') (env(x \<mapsto> a))"
        using store_inv_new [OF I(1) x, of v] by (simp add: ctx'_def a_def v_def id_ok_def kh_def)
      moreover have "contents (id_table ctx') = mset_set (live (objs ctx'))"
      proof -
        have "live (objs ctx') = insert (kh, a) (live (objs ctx))"
          using live_new [of "objs ctx" v] free by (simp add: ctx'_def a_def v_def)
        moreover have "(kh, a) \<notin> live (objs ctx)" using free by (simp add: live_iff)
        ultimately show ?thesis using put(2) I(3,5) by (simp add: ctx'_def)
      qed
      moreover have "table_ok (id_table ctx')" using put(1) by (simp add: ctx'_def)
      ultimately have "id_inv ctx' (env(x \<mapsto> a))"
        using I(4) other by (auto simp: id_inv_def keys split: if_splits)
      moreover have "keys_kept ctx ctx'"
        using free by (auto simp: keys_kept_def keys key_at_eq) (simp_all add: ctx'_def)
      moreover have "isl_id_alloc (memory_limit c) mok ctx name user = Some (ctx', Some a)"
        using run l g True by (simp add: id_alloc_def ctx'_def v_def kh_def a_def case_prod_unfold Let_def)
      ultimately show ?thesis using keys by auto
    qed
  next
    assume l: "isl_hash_table_find (Suc (Suc 0)) (memory_limit c) (id_table ctx) kh eq True = Some (Inl isl_error_alloc, id_table ctx)"
      and "table_full c (id_table ctx)"
    from l have "isl_id_alloc (memory_limit c) mok ctx name user = Some (ctx, None)" by (simp add: run)
    then show ?thesis using inv envx \<open>table_full c (id_table ctx)\<close> by (auto simp: keys_kept_def)
  qed
qed

lemma id_free_ok:
  assumes inv: "id_inv ctx env" and x: "env x = Some a"
  shows "\<exists>ctx'. isl_id_free (memory_limit c) ctx (Some a) = Some (ctx', None) \<and>
    id_inv ctx' (env(x := None)) \<and> keys_kept ctx ctx'"
proof -
  note I = id_invD [OF inv]
  obtain r v where cell: "cells (objs ctx) a = Some (r, v)" "0 < r"
    using store_inv_lookup [OF I(1) x] by metis
  have st: "store_inv id_ok (unref (objs ctx) a) (env(x := None))"
    by (rule store_inv_unref [OF I(1) x])
  show ?thesis
  proof (cases "0 < r - 1")
    case True
    define ctx' where "ctx' = ctx\<lparr>objs := set_obj (objs ctx) a (r - 1) v\<rparr>"
    have keys: "key_at ctx' = key_at ctx"
      using cell(1) by (auto simp: ctx'_def key_at_def id_at_def fun_eq_iff)
    have "store_inv id_ok (objs ctx') (env(x := None))"
      using st cell True by (simp add: unref_def ctx'_def)
    moreover have "live (objs ctx') = live (objs ctx)" using live_set_obj [OF cell(1)] by (simp add: ctx'_def)
    ultimately have "id_inv ctx' (env(x := None))"
      using I by (simp add: id_inv_def keys) (simp add: ctx'_def)
    moreover have "isl_id_free (memory_limit c) ctx (Some a) = Some (ctx', None)"
      using cell True by (simp add: isl_id_free_def ctx'_def)
    moreover have "keys_kept ctx ctx'" by (simp add: keys_kept_def keys) (simp add: ctx'_def)
    ultimately show ?thesis by blast
  next
    case False
    have item: "(id_hash v, a) \<in># contents (id_table ctx)"
      using I(3,5) cell(1) by (auto simp: live_iff)
    obtain p t' where l: "isl_hash_table_find (Suc (Suc 0)) (memory_limit c) (id_table ctx) (id_hash v) (isl_id_eq a) False
          = Some (Inr (Some p), id_table ctx)"
      and rem: "isl_hash_table_remove (id_table ctx) p = Some (Inr t')"
      and t': "table_ok t'" "contents (id_table ctx) = add_mset (id_hash v, a) (contents t')"
      by (rule hash_table.delete_stored [where depth = 0 and c = c, OF I(2) item, of "isl_id_eq a"])
        (simp add: isl_id_eq_def)
    define ctx' where "ctx' = id_release (ctx\<lparr>objs := set_obj (objs ctx) a (r - 1) v, id_table := t'\<rparr>) a v"
    have objs: "cells (objs ctx') = (cells (objs ctx))(a := None)" "next_addr (objs ctx') = next_addr (objs ctx)"
      "ctx_ref (objs ctx') = ctx_ref (release (objs ctx) a)"
      by (simp_all add: ctx'_def id_release_def)
    then have rel: "objs ctx' = release (objs ctx) a" by simp
    have keys: "key_at ctx' = (key_at ctx)(a := None)"
      by (auto simp: key_at_def id_at_def objs fun_eq_iff)
    have "store_inv id_ok (objs ctx') (env(x := None))"
      using st cell False by (simp add: unref_def rel)
    moreover have "contents (id_table ctx') = mset_set (live (objs ctx'))"
    proof -
      have "mset_set (live (objs ctx)) = add_mset (id_hash v, a) (mset_set (live (objs ctx) - {(id_hash v, a)}))"
        using I(5) cell(1) by (intro mset_set.remove) (auto simp: live_iff)
      then have "contents t' = mset_set (live (objs ctx) - {(id_hash v, a)})" using t'(2) I(3) by simp
      then show ?thesis using live_release [OF cell(1)] by (simp only: rel) (simp add: ctx'_def id_release_def)
    qed
    moreover have "table_ok (id_table ctx')" using t'(1) by (simp add: ctx'_def id_release_def)
    ultimately have "id_inv ctx' (env(x := None))"
      using I(4) by (auto simp: id_inv_def keys split: if_splits)
    moreover have "isl_id_free (memory_limit c) ctx (Some a) = Some (ctx', None)"
      using cell False l rem by (simp add: isl_id_free_def ctx'_def)
    moreover have "keys_kept ctx ctx'" by (auto simp: keys_kept_def keys rel)
    ultimately show ?thesis by blast
  qed
qed

lemma id_set_free_user_ok:
  assumes inv: "id_inv ctx env" and x: "env x = Some a"
  shows "\<exists>ctx'. isl_id_set_free_user ctx (Some a) fn = Some (ctx', Some a) \<and> id_inv ctx' env \<and> key_at ctx' = key_at ctx \<and>
    ctx_ref (objs ctx') = ctx_ref (objs ctx)"
proof -
  note I = id_invD [OF inv]
  obtain r v where cell: "cells (objs ctx) a = Some (r, v)" "id_ok v"
    using store_inv_lookup [OF I(1) x] by metis
  define w where "w = v\<lparr>id_free_user := fn\<rparr>"
  define ctx' where "ctx' = ctx\<lparr>objs := set_obj (objs ctx) a r w\<rparr>"
  have keys: "key_at ctx' = key_at ctx"
    using cell(1) by (auto simp: ctx'_def key_at_def id_at_def fun_eq_iff w_def id_key_def)
  have "store_inv id_ok (objs ctx') env"
    using store_inv_set [OF I(1) cell(1), of w] cell(2) by (simp add: ctx'_def w_def id_ok_def)
  moreover have "live (objs ctx') = live (objs ctx)"
    using live_set_obj [OF cell(1), of w] by (simp add: ctx'_def w_def)
  ultimately have "id_inv ctx' env"
    using I by (simp add: id_inv_def keys) (simp add: ctx'_def)
  moreover have "isl_id_set_free_user ctx (Some a) fn = Some (ctx', Some a)"
    using cell(1) by (simp add: isl_id_set_free_user_def ctx'_def w_def)
  moreover have "ctx_ref (objs ctx') = ctx_ref (objs ctx)" by (simp add: ctx'_def)
  ultimately show ?thesis using keys by blast
qed

text \<open>The variables of a program and the names and users they stand for.\<close>

definition id_sim :: "isl_id_ctx \<Rightarrow> (nat \<Rightarrow> nat option) \<Rightarrow> (nat \<Rightarrow> id_key option) \<Rightarrow> bool" where
  "id_sim ctx env A \<longleftrightarrow> id_inv ctx env \<and> (\<forall>x a. env x = Some a \<longrightarrow> key_at ctx a = A x \<and> A x \<noteq> None)"

lemma id_simD:
  assumes "id_sim ctx env A"
  shows "id_inv ctx env" and "env x = Some a \<Longrightarrow> key_at ctx a = A x" and "env x = Some a \<Longrightarrow> A x \<noteq> None"
    and "A x = None \<Longrightarrow> env x = None"
proof -
  show "id_inv ctx env" "env x = Some a \<Longrightarrow> key_at ctx a = A x" "env x = Some a \<Longrightarrow> A x \<noteq> None"
    using assms unfolding id_sim_def by blast+
  show "A x = None \<Longrightarrow> env x = None" using assms unfolding id_sim_def by (cases "env x") blast+
qed

lemma id_key_some: "id_inv ctx env \<Longrightarrow> env x = Some a \<Longrightarrow> key_at ctx a \<noteq> None"
  using store_inv_lookup [OF id_invD(1)] by (metis key_at_eq option.distinct(1))

lemma id_sim_step:
  assumes sim: "id_sim ctx env A" and inv: "id_inv ctx' (env(x := p))" and kept: "keys_kept ctx ctx'"
    and p: "\<And>a. p = Some a \<Longrightarrow> key_at ctx' a = k \<and> k \<noteq> None"
  shows "id_sim ctx' (env(x := p)) (A(x := k))"
  unfolding id_sim_def
proof (intro conjI allI impI inv)
  fix y a assume y: "(env(x := p)) y = Some a"
  then have some: "key_at ctx' a \<noteq> None" using id_key_some [OF inv] by blast
  show "key_at ctx' a = (A(x := k)) y"
  proof (cases "y = x")
    case False
    with y have "key_at ctx a = A y" "A y \<noteq> None" using id_simD(2,3) [OF sim] by auto
    with kept [unfolded keys_kept_def, THEN conjunct2, rule_format, of a "the (A y)"] some False show ?thesis by auto
  qed (use y p in simp)
  with some show "(A(x := k)) y \<noteq> None" by simp
qed

text \<open>
  When memory is ample every variable that should hold an identifier does: all arrays
  up to the limit can be had, and so can the objects, and there are not too many of them.
\<close>

fun mok_of :: "id_cmd \<Rightarrow> bool" where
  "mok_of (NewId x name user mok) = mok"
| "mok_of _ = True"

definition all_held :: "isl_id_ctx \<Rightarrow> (nat \<Rightarrow> nat option) \<Rightarrow> (nat \<Rightarrow> id_key option) \<Rightarrow> nat \<Rightarrow> bool" where
  "all_held ctx env A k \<longleftrightarrow> (\<forall>x. A x \<noteq> None \<longrightarrow> env x \<noteq> None) \<and> ctx_ref (objs ctx) \<le> int k"

lemma not_full:
  assumes inv: "id_inv ctx env" and few: "ctx_ref (objs ctx) < 3 * 2 ^ 27" and c: "\<forall>sz \<le> 2 ^ 29. c sz"
  shows "\<not> table_full c (id_table ctx)"
proof
  assume full: "table_full c (id_table ctx)"
  define b where "b = table_bits (id_table ctx)"
  have "\<not> (2::nat) ^ Suc b \<le> 2 ^ 29" using full c by (auto simp: table_full_def memory_limit_def b_def)
  then have "29 < Suc b" by (meson not_le one_le_numeral power_increasing)
  then have "(2::nat) ^ 29 \<le> 2 ^ b" by (intro power_increasing) simp_all
  then have n: "3 * 2 ^ 27 \<le> table_n (id_table ctx)" using full by (simp add: table_full_def b_def)
  have "table_n (id_table ctx) = card (live (objs ctx))"
    using id_invD(2,3) [OF inv] by (simp add: table_ok_def)
  also have "\<dots> = card (dom (cells (objs ctx)))"
  proof -
    have "bij_betw snd (live (objs ctx)) (dom (cells (objs ctx)))"
      by (force simp: bij_betw_def inj_on_def live_def image_iff)
    then show ?thesis by (rule bij_betw_same_card)
  qed
  finally have "int (table_n (id_table ctx)) = ctx_ref (objs ctx)"
    using store_invD(3) [OF id_invD(1) [OF inv]] by simp
  with n few show False by simp
qed

lemma id_exec_ok:
  assumes sim: "id_sim ctx env A" and ok: "key_sensible cmd A"
  shows "\<exists>ctx' env'. id_exec (memory_limit c) cmd (ctx, env) = Some (ctx', env') \<and> id_sim ctx' env' (key_exec cmd A) \<and>
    (mok_of cmd \<longrightarrow> (\<forall>sz \<le> 2 ^ 29. c sz) \<longrightarrow> k < 3 * 2 ^ 27 \<longrightarrow> all_held ctx env A k \<longrightarrow>
       all_held ctx' env' (key_exec cmd A) (Suc k))"
proof -
  note S = id_simD [OF sim]
  have same: "keys_kept ctx ctx'" if "key_at ctx' = key_at ctx" "ctx_ref (objs ctx') = ctx_ref (objs ctx)" for ctx'
    using that by (simp add: keys_kept_def)
  show ?thesis
  proof (cases cmd)
    case (NewId x name user mok)
    then have x: "env x = None" using ok S(4) by simp
    from id_alloc_ok [OF S(1) x, of c mok name user] obtain ctx' p where
      "isl_id_alloc (memory_limit c) mok ctx name user = Some (ctx', p)"
      "id_inv ctx' (env(x := p))" "keys_kept ctx ctx'" "\<forall>a. p = Some a \<longrightarrow> key_at ctx' a = Some (name, user)"
      "p = None \<longrightarrow> \<not> mok \<or> table_full c (id_table ctx)"
      by blast
    moreover from this(5) have "p \<noteq> None" if "mok" "\<forall>sz \<le> 2 ^ 29. c sz" "k < 3 * 2 ^ 27" "all_held ctx env A k"
      using not_full [OF S(1) _ that(2)] that by (auto simp: all_held_def)
    ultimately show ?thesis
      using id_sim_step [OF sim, of ctx' x p "Some (name, user)"] NewId
      by (auto simp: all_held_def keys_kept_def)
  next
    case (CopyId y x)
    then have y: "env y = None" using ok S(4) by simp
    show ?thesis
    proof (cases "env x")
      case None
      have "env(y := None) = env" using y by auto
      moreover have "id_sim ctx (env(y := None)) (A(y := A x))"
        by (rule id_sim_step [OF sim]) (use S(1) y in \<open>simp_all add: keys_kept_def fun_upd_idem\<close>)
      moreover have "A x = None" if "all_held ctx env A k"
        using that None unfolding all_held_def by metis
      ultimately show ?thesis using CopyId None by (auto simp: isl_id_copy_def all_held_def)
    next
      case (Some a)
      obtain r v where "cells (objs ctx) a = Some (r, v)"
        using store_inv_lookup [OF id_invD(1) [OF S(1)] Some] by metis
      then obtain ctx' where c': "isl_id_copy ctx (Some a) = Some (ctx', Some a)" "id_inv ctx' (env(y \<mapsto> a))"
        "key_at ctx' = key_at ctx" "ctx_ref (objs ctx') = ctx_ref (objs ctx)"
        using id_copy_ok [OF S(1) y] by blast
      have "id_sim ctx' (env(y \<mapsto> a)) (A(y := A x))"
        by (rule id_sim_step [OF sim c'(2) same [OF c'(3,4)]]) (use S(2,3) [OF Some] c'(3) in simp)
      then show ?thesis using CopyId Some c'(1,4) by (auto simp: all_held_def)
    qed
  next
    case (FreeId x)
    show ?thesis
    proof (cases "env x")
      case None
      have "id_sim ctx (env(x := None)) (A(x := None))"
        by (rule id_sim_step [OF sim]) (use S(1) None in \<open>simp_all add: keys_kept_def fun_upd_idem\<close>)
      then show ?thesis using FreeId None by (auto simp: isl_id_free_def all_held_def)
    next
      case (Some a)
      obtain ctx' where c': "isl_id_free (memory_limit c) ctx (Some a) = Some (ctx', None)"
        "id_inv ctx' (env(x := None))" "keys_kept ctx ctx'"
        using id_free_ok [OF S(1) Some] by blast
      then have "id_sim ctx' (env(x := None)) (A(x := None))" by (intro id_sim_step [OF sim]) simp_all
      then show ?thesis using FreeId Some c'(1,3) by (auto simp: all_held_def keys_kept_def)
    qed
  next
    case (SetFreeUser x fn)
    show ?thesis
    proof (cases "env x")
      case None
      then show ?thesis using SetFreeUser sim by (auto simp: isl_id_set_free_user_def fun_upd_idem all_held_def)
    next
      case (Some a)
      obtain ctx' where c': "isl_id_set_free_user ctx (Some a) fn = Some (ctx', Some a)" "id_inv ctx' env"
        "key_at ctx' = key_at ctx" "ctx_ref (objs ctx') = ctx_ref (objs ctx)"
        using id_set_free_user_ok [OF S(1) Some] by blast
      then have "id_sim ctx' env A" using sim by (simp add: id_sim_def)
      then show ?thesis using SetFreeUser Some c'(1,4) by (auto simp: fun_upd_idem all_held_def)
    qed
  qed
qed

lemma id_exec_all_ok:
  assumes "id_sim ctx env A" and "key_sensible_all cmds A"
  shows "\<exists>ctx' env'. id_exec_all (memory_limit c) cmds (ctx, env) = Some (ctx', env') \<and>
    id_sim ctx' env' (key_exec_all cmds A) \<and>
    (list_all mok_of cmds \<longrightarrow> (\<forall>sz \<le> 2 ^ 29. c sz) \<longrightarrow> k + length cmds \<le> 3 * 2 ^ 27 \<longrightarrow> all_held ctx env A k \<longrightarrow>
       all_held ctx' env' (key_exec_all cmds A) (k + length cmds))"
  using assms
proof (induction cmds arbitrary: ctx env A k)
  case Nil
  then show ?case by (simp add: key_exec_all_def)
next
  case (Cons cmd cmds)
  obtain ctx1 env1 where 1: "id_exec (memory_limit c) cmd (ctx, env) = Some (ctx1, env1)" "id_sim ctx1 env1 (key_exec cmd A)"
    "mok_of cmd \<longrightarrow> (\<forall>sz \<le> 2 ^ 29. c sz) \<longrightarrow> k < 3 * 2 ^ 27 \<longrightarrow> all_held ctx env A k \<longrightarrow>
       all_held ctx1 env1 (key_exec cmd A) (Suc k)"
    using id_exec_ok [OF Cons.prems(1), of cmd c k] Cons.prems(2) by auto
  from Cons.IH [OF 1(2), of "Suc k"] Cons.prems(2) obtain ctx' env' where
    2: "id_exec_all (memory_limit c) cmds (ctx1, env1) = Some (ctx', env')"
    "id_sim ctx' env' (key_exec_all cmds (key_exec cmd A))"
    "list_all mok_of cmds \<longrightarrow> (\<forall>sz \<le> 2 ^ 29. c sz) \<longrightarrow> Suc k + length cmds \<le> 3 * 2 ^ 27 \<longrightarrow>
       all_held ctx1 env1 (key_exec cmd A) (Suc k) \<longrightarrow>
       all_held ctx' env' (key_exec_all cmds (key_exec cmd A)) (Suc k + length cmds)"
    by auto
  have "key_exec_all (cmd # cmds) A = key_exec_all cmds (key_exec cmd A)" by (simp add: key_exec_all_def)
  then show ?case using 1 2 by simp
qed

subsection \<open>The order of identifiers\<close>

lemma strcmp_less: "(strcmp s t < 0) = (s < t)"
  by (induction s t rule: strcmp.induct) auto

lemma strcmp_sym: "strcmp t s = - strcmp s t"
  by (induction s t rule: strcmp.induct) auto

text \<open>Identifiers without a name come last, then names in lexicographic order, then users.\<close>

definition key_less :: "id_key \<Rightarrow> id_key \<Rightarrow> bool" where
  "key_less k l =
     (case (fst k, fst l) of
        (None, None) \<Rightarrow> snd k < snd l
      | (None, Some _) \<Rightarrow> False
      | (Some _, None) \<Rightarrow> True
      | (Some s, Some t) \<Rightarrow> s < t \<or> s = t \<and> snd k < snd l)"

lemma key_less_order:
  "\<not> key_less k k" "key_less k l \<Longrightarrow> key_less l m \<Longrightarrow> key_less k m" "k \<noteq> l \<Longrightarrow> key_less k l \<noteq> key_less l k"
  by (cases k; cases l; cases m; auto simp: key_less_def split: option.splits)+

lemma isl_id_cmp_key:
  assumes inv: "id_inv ctx env" and a: "key_at ctx a = Some k" and b: "key_at ctx b = Some l"
  obtains r where "isl_id_cmp ctx (Some a) (Some b) = Some r" and "r < 0 \<longleftrightarrow> key_less k l" and "r = 0 \<longleftrightarrow> k = l"
proof -
  obtain v w where v: "id_at ctx a = Some v" "id_key v = k" and w: "id_at ctx b = Some w" "id_key w = l"
    using a b by (auto simp: key_at_def)
  show thesis
  proof (cases "a = b")
    case True
    then have "k = l" using a b by simp
    with True show ?thesis using key_less_order(1) by (intro that [of 0]) (simp_all add: isl_id_cmp_def)
  next
    case False
    then have ne: "k \<noteq> l" using id_invD(4) [OF inv a] b by auto
    define cmp where "cmp = (if id_name v \<noteq> None then strcmp (the (id_name v)) (the (id_name w)) else 0)"
    define r :: int where "r = (if (id_name v = None) \<noteq> (id_name w = None)
      then of_bool (id_name v = None) - of_bool (id_name w = None)
      else if cmp \<noteq> 0 then cmp else if id_user v < id_user w then -1 else 1)"
    have run: "isl_id_cmp ctx (Some a) (Some b) = Some r"
      using v w False by (simp add: isl_id_cmp_def r_def cmp_def Let_def)
    have "(r < 0 \<longleftrightarrow> key_less k l) \<and> r \<noteq> 0"
    proof (cases "id_name v"; cases "id_name w")
      fix s t assume st: "id_name v = Some s" "id_name w = Some t"
      then show ?thesis using ne v(2) w(2) strcmp_less [of s t]
        by (cases "s = t") (auto simp: r_def cmp_def key_less_def id_key_def)
    qed (use ne v(2) w(2) in \<open>auto simp: r_def cmp_def key_less_def id_key_def\<close>)
    then show ?thesis using ne by (intro that [OF run]) simp_all
  qed
qed

subsection \<open>Properties\<close>

lemma isl_id_ctx_alloc_run:
  assumes c: "calloc_bounded c" and ctx0: "isl_id_ctx_alloc c = Inr ctx0"
  shows "id_sim ctx0 (\<lambda>_. None) (\<lambda>_. None)" and "all_held ctx0 (\<lambda>_. None) (\<lambda>_. None) 0"
proof -
  obtain bits where b: "2 \<le> bits"
    and run: "(isl_hash_table_init c 0 :: unit res \<times> nat isl_hash_table) =
       (if c (2 ^ bits)
        then (Inr (), \<lparr>table_bits = bits, table_n = 0, table_entries = Some (replicate (2 ^ bits) empty_slot)\<rparr>)
        else (Inl isl_error_alloc, \<lparr>table_bits = bits, table_n = 0, table_entries = None\<rparr>))"
    by (rule isl_hash_table_init_run [of 0 c]) (simp_all add: c)
  have ok: "c (2 ^ bits)" using ctx0 run by (simp add: isl_id_ctx_alloc_def split: if_splits)
  then have "(2::nat) ^ bits \<le> 2 ^ 29" using c by (auto simp: calloc_bounded_def)
  then have "bits \<le> 29" by (rule power_le_imp_le_exp [rotated]) simp
  then have t: "table_ok \<lparr>table_bits = bits, table_n = 0, table_entries = Some (replicate (2 ^ bits) empty_slot)\<rparr>"
    using b by (intro fresh_table_ok)
  have ctx0': "ctx0 = \<lparr>objs = empty_store, id_table =
      \<lparr>table_bits = bits, table_n = 0, table_entries = Some (replicate (2 ^ bits) empty_slot)\<rparr>, user_calls = []\<rparr>"
    using ctx0 run ok by (simp add: isl_id_ctx_alloc_def)
  have "store_inv id_ok empty_store (\<lambda>_. None)"
    by (simp add: store_inv_def empty_store_def cell_ok_def refs_def)
  moreover have "live empty_store = {}" by (simp add: live_def empty_store_def)
  moreover have "key_at ctx0 a = None" for a by (simp add: ctx0' key_at_def id_at_def empty_store_def)
  ultimately show "id_sim ctx0 (\<lambda>_. None) (\<lambda>_. None)"
    using t by (simp add: id_sim_def id_inv_def) (simp add: ctx0' contents_def)
  show "all_held ctx0 (\<lambda>_. None) (\<lambda>_. None) 0"
    by (simp add: all_held_def ctx0' empty_store_def)
qed

lemma id_program_run:
  assumes c: "calloc_bounded c" and ctx0: "isl_id_ctx_alloc c = Inr ctx0"
    and ok: "key_sensible_all cmds (\<lambda>_. None)"
  obtains ctx env where "id_exec_all c cmds (ctx0, \<lambda>_. None) = Some (ctx, env)"
    and "id_sim ctx env (key_exec_all cmds (\<lambda>_. None))"
    and "\<And>x. list_all mok_of cmds \<Longrightarrow> \<forall>sz \<le> 2 ^ 29. c sz \<Longrightarrow> length cmds \<le> 3 * 2 ^ 27 \<Longrightarrow>
      key_exec_all cmds (\<lambda>_. None) x \<noteq> None \<Longrightarrow> env x \<noteq> None"
  using id_exec_all_ok [OF isl_id_ctx_alloc_run(1) [OF c ctx0] ok, of c 0] isl_id_ctx_alloc_run(2) [OF c ctx0]
  unfolding memory_limit_bounded [OF c] by (auto simp: all_held_def)

lemma id_live_refs:
  assumes "id_inv ctx (\<lambda>_. None)"
  shows "cells (objs ctx) = (\<lambda>_. None)" and "ctx_ref (objs ctx) = 0" and "contents (id_table ctx) = {#}"
proof -
  note I = id_invD [OF assms] and D = store_invD [OF id_invD(1) [OF assms]]
  have "cells (objs ctx) a = None" for a
    using D(5) [of a] by (auto simp: cell_ok_def refs_def split: option.splits)
  then show 1: "cells (objs ctx) = (\<lambda>_. None)" by blast
  show "ctx_ref (objs ctx) = 0" using D(3) by (simp add: 1)
  have "live (objs ctx) = {}" by (simp add: live_def 1)
  then show "contents (id_table ctx) = {#}" using I(3) by simp
qed

text \<open>
  C8: identifiers are interned.  However a program creates, copies and frees
  identifiers, it runs to the end without touching a released object; a variable that
  holds an identifier holds the one of the name and user it was created with, and two
  variables hold the same object exactly when these agree, so that identifiers can be
  compared as pointers.  Creation fails only when memory does, and when no variable
  holds an identifier any more every object is released, the table is empty and the
  context is without references.
\<close>

theorem ids_are_interned:
  assumes "calloc_bounded c" and "isl_id_ctx_alloc c = Inr ctx0" and "key_sensible_all cmds (\<lambda>_. None)"
  shows "\<exists>ctx env. id_exec_all c cmds (ctx0, \<lambda>_. None) = Some (ctx, env) \<and>
    (\<forall>x a. env x = Some a \<longrightarrow> key_at ctx a = key_exec_all cmds (\<lambda>_. None) x) \<and>
    (\<forall>x y a b. env x = Some a \<longrightarrow> env y = Some b \<longrightarrow>
       (a = b \<longleftrightarrow> key_exec_all cmds (\<lambda>_. None) x = key_exec_all cmds (\<lambda>_. None) y)) \<and>
    (list_all mok_of cmds \<longrightarrow> (\<forall>sz \<le> 2 ^ 29. c sz) \<longrightarrow> length cmds \<le> 3 * 2 ^ 27 \<longrightarrow>
       (\<forall>x. key_exec_all cmds (\<lambda>_. None) x \<noteq> None \<longrightarrow> env x \<noteq> None)) \<and>
    (env = (\<lambda>_. None) \<longrightarrow>
       cells (objs ctx) = (\<lambda>_. None) \<and> ctx_ref (objs ctx) = 0 \<and> contents (id_table ctx) = {#})"
proof -
  obtain ctx env where run: "id_exec_all c cmds (ctx0, \<lambda>_. None) = Some (ctx, env)"
    and sim: "id_sim ctx env (key_exec_all cmds (\<lambda>_. None))"
    and held: "\<And>x. list_all mok_of cmds \<Longrightarrow> \<forall>sz \<le> 2 ^ 29. c sz \<Longrightarrow> length cmds \<le> 3 * 2 ^ 27 \<Longrightarrow>
      key_exec_all cmds (\<lambda>_. None) x \<noteq> None \<Longrightarrow> env x \<noteq> None"
    by (rule id_program_run [OF assms]) blast
  note S = id_simD [OF sim]
  have "a = b \<longleftrightarrow> key_exec_all cmds (\<lambda>_. None) x = key_exec_all cmds (\<lambda>_. None) y"
    if "env x = Some a" "env y = Some b" for x y a b
    using S(2,3) [OF that(1)] S(2,3) [OF that(2)] id_invD(4) [OF S(1), of a _ b] by auto
  then show ?thesis using run S(2) held id_live_refs S(1) by (intro exI conjI) blast+
qed

definition id_program :: "id_cmd list" where
  "id_program = [NewId 0 (Some [105]) 0 True, NewId 1 None 64 True, CopyId 2 0, FreeId 0,
     NewId 3 (Some [105]) 0 True, SetFreeUser 1 (Some 7), FreeId 1, NewId 4 (Some [106]) 0 False]"

definition id_memory :: "nat \<Rightarrow> bool" where
  "id_memory sz \<longleftrightarrow> sz \<le> 2 ^ 29"

text \<open>The context the witness starts from.\<close>

definition id_start :: isl_id_ctx where
  "id_start = \<lparr>objs = empty_store,
     id_table = \<lparr>table_bits = 2, table_n = 0, table_entries = Some (replicate 4 empty_slot)\<rparr>, user_calls = []\<rparr>"

lemma id_start: "calloc_bounded id_memory" "isl_id_ctx_alloc id_memory = Inr id_start"
proof -
  show "calloc_bounded id_memory" by (simp add: calloc_bounded_def id_memory_def)
  have "ffs (round_up 3) - 1 = 2" using ffs_round_up [of 1 3] by simp
  then show "isl_id_ctx_alloc id_memory = Inr id_start"
    by (simp add: isl_id_ctx_alloc_def isl_hash_table_init_def isl_calloc_entries_def id_memory_def id_start_def)
qed

lemma id_program_sensible: "key_sensible_all id_program (\<lambda>_. None)"
  by (simp add: id_program_def)

theorem ids_are_interned_witness:
  "\<exists>ctx env. id_exec_all id_memory id_program (id_start, \<lambda>_. None) = Some (ctx, env) \<and>
    (\<forall>x a. env x = Some a \<longrightarrow> key_at ctx a = key_exec_all id_program (\<lambda>_. None) x) \<and>
    (\<forall>x y a b. env x = Some a \<longrightarrow> env y = Some b \<longrightarrow>
       (a = b \<longleftrightarrow> key_exec_all id_program (\<lambda>_. None) x = key_exec_all id_program (\<lambda>_. None) y)) \<and>
    (list_all mok_of id_program \<longrightarrow> (\<forall>sz \<le> 2 ^ 29. id_memory sz) \<longrightarrow> length id_program \<le> 3 * 2 ^ 27 \<longrightarrow>
       (\<forall>x. key_exec_all id_program (\<lambda>_. None) x \<noteq> None \<longrightarrow> env x \<noteq> None)) \<and>
    (env = (\<lambda>_. None) \<longrightarrow>
       cells (objs ctx) = (\<lambda>_. None) \<and> ctx_ref (objs ctx) = 0 \<and> contents (id_table ctx) = {#})"
  by (rule ids_are_interned) (rule id_start id_program_sensible)+

text \<open>
  C24: \<open>isl_id_cmp\<close> is a total order on the identifiers of a program: it says equal only
  for one and the same object, changing the arguments changes the sign, and it is
  transitive.  This rests on identifiers being interned: for two objects with equal
  name and user it would call either of them the greater.
\<close>

theorem id_cmp_total_order:
  assumes "calloc_bounded c" and "isl_id_ctx_alloc c = Inr ctx0" and "key_sensible_all cmds (\<lambda>_. None)"
  shows "\<exists>ctx env. id_exec_all c cmds (ctx0, \<lambda>_. None) = Some (ctx, env) \<and>
    (\<forall>x y z a b d. env x = Some a \<longrightarrow> env y = Some b \<longrightarrow> env z = Some d \<longrightarrow>
       (\<exists>r s t u. isl_id_cmp ctx (Some a) (Some b) = Some r \<and> isl_id_cmp ctx (Some b) (Some a) = Some s \<and>
          isl_id_cmp ctx (Some b) (Some d) = Some t \<and> isl_id_cmp ctx (Some a) (Some d) = Some u \<and>
          (r = 0 \<longleftrightarrow> a = b) \<and> (r < 0 \<longleftrightarrow> 0 < s) \<and> (r < 0 \<longrightarrow> t < 0 \<longrightarrow> u < 0)))"
proof -
  obtain ctx env where run: "id_exec_all c cmds (ctx0, \<lambda>_. None) = Some (ctx, env)"
    and sim: "id_sim ctx env (key_exec_all cmds (\<lambda>_. None))"
    by (rule id_program_run [OF assms]) blast
  note inv = id_simD(1) [OF sim]
  have "\<exists>r s t u. isl_id_cmp ctx (Some a) (Some b) = Some r \<and> isl_id_cmp ctx (Some b) (Some a) = Some s \<and>
          isl_id_cmp ctx (Some b) (Some d) = Some t \<and> isl_id_cmp ctx (Some a) (Some d) = Some u \<and>
          (r = 0 \<longleftrightarrow> a = b) \<and> (r < 0 \<longleftrightarrow> 0 < s) \<and> (r < 0 \<longrightarrow> t < 0 \<longrightarrow> u < 0)"
    if x: "env x = Some a" and y: "env y = Some b" and z: "env z = Some d" for x y z a b d
  proof -
    obtain k l m where k: "key_at ctx a = Some k" and l: "key_at ctx b = Some l" and m: "key_at ctx d = Some m"
      using id_key_some [OF inv x] id_key_some [OF inv y] id_key_some [OF inv z] by blast
    have ab: "a = b \<longleftrightarrow> k = l" using k l id_invD(4) [OF inv, of a k b] by auto
    obtain r where r: "isl_id_cmp ctx (Some a) (Some b) = Some r" "r < 0 \<longleftrightarrow> key_less k l" "r = 0 \<longleftrightarrow> k = l"
      by (rule isl_id_cmp_key [OF inv k l])
    obtain s where s: "isl_id_cmp ctx (Some b) (Some a) = Some s" "s < 0 \<longleftrightarrow> key_less l k" "s = 0 \<longleftrightarrow> l = k"
      by (rule isl_id_cmp_key [OF inv l k])
    obtain t where t: "isl_id_cmp ctx (Some b) (Some d) = Some t" "t < 0 \<longleftrightarrow> key_less l m"
      by (rule isl_id_cmp_key [OF inv l m]) blast
    obtain u where u: "isl_id_cmp ctx (Some a) (Some d) = Some u" "u < 0 \<longleftrightarrow> key_less k m"
      by (rule isl_id_cmp_key [OF inv k m]) blast
    have "0 < s \<longleftrightarrow> s \<noteq> 0 \<and> \<not> s < 0" by auto
    moreover have "k \<noteq> l \<Longrightarrow> key_less k l \<longleftrightarrow> \<not> key_less l k" using key_less_order(3) [of k l] by blast
    ultimately have "r < 0 \<longleftrightarrow> 0 < s"
      unfolding r(2) s(2,3) using key_less_order(1) [of k] by (cases "k = l") simp_all
    moreover have "r < 0 \<longrightarrow> t < 0 \<longrightarrow> u < 0" using r t u key_less_order(2) [of k l m] by blast
    ultimately show ?thesis using r s t u ab by blast
  qed
  with run show ?thesis by blast
qed

theorem id_cmp_total_order_witness:
  "\<exists>ctx env. id_exec_all id_memory id_program (id_start, \<lambda>_. None) = Some (ctx, env) \<and>
    (\<forall>x y z a b d. env x = Some a \<longrightarrow> env y = Some b \<longrightarrow> env z = Some d \<longrightarrow>
       (\<exists>r s t u. isl_id_cmp ctx (Some a) (Some b) = Some r \<and> isl_id_cmp ctx (Some b) (Some a) = Some s \<and>
          isl_id_cmp ctx (Some b) (Some d) = Some t \<and> isl_id_cmp ctx (Some a) (Some d) = Some u \<and>
          (r = 0 \<longleftrightarrow> a = b) \<and> (r < 0 \<longleftrightarrow> 0 < s) \<and> (r < 0 \<longrightarrow> t < 0 \<longrightarrow> u < 0)))"
  by (rule id_cmp_total_order) (rule id_start id_program_sensible)+

end
