(* ===== verification/Isl_Hmap.thy ===== *)
theory Isl_Hmap imports Isl_Id "HOL-Library.Monad_Syntax" begin

text \<open>
  Hash maps (include/isl/hmap_templ.c), associative arrays that share and copy on write as the
  other objects do and keep their pairs in a hash table.  The file is a template over the type
  of the keys, with their hash code and equality, and the type of the values, with their
  equality.  Keys and values are represented by what they are: that copies of them are made and
  released is the subject of theories Objects and Isl_Id.
\<close>

subsection \<open>The parameters of the template\<close>

record ('k, 'v) hmap_class =
  key_hash :: "'k \<Rightarrow> u32"
  key_equal :: "'k \<Rightarrow> 'k \<Rightarrow> bool res"
  val_equal :: "'v \<Rightarrow> 'v \<Rightarrow> bool res"

text \<open>The maps of identifiers to identifiers (isl_id_to_id.c): equality is that of the pointers.\<close>

definition isl_id_is_equal :: "nat \<Rightarrow> nat \<Rightarrow> bool res" where
  "isl_id_is_equal id1 id2 = Inr (id1 = id2)"

definition id_to_id_class :: "isl_id_ctx \<Rightarrow> (nat, nat) hmap_class" where
  "id_to_id_class ctx = \<lparr>key_hash = (\<lambda>a. isl_id_get_hash (id_at ctx a)), key_equal = isl_id_is_equal, val_equal = isl_id_is_equal\<rparr>"

text \<open>What memory there is: for the object, for an array of so many entries, for the pair of a key.\<close>

record 'k hmap_memory =
  mem_map :: bool
  mem_entries :: "nat \<Rightarrow> bool"
  mem_pair :: "'k \<Rightarrow> bool"

type_synonym ('k, 'v) hmap = "('k \<times> 'v) isl_hash_table"
type_synonym ('k, 'v) hmap_result = "(('k, 'v) hmap store \<times> nat option) option"

subsection \<open>Allocation, sharing and release\<close>

text \<open>
  The visit that releases the pairs of a map.  The references to the key and to the value that it
  gives up are not counted in this theory.
\<close>

definition free_pair :: "('k \<times> 'v) option \<Rightarrow> unit \<Rightarrow> unit res \<times> ('k \<times> 'v) option \<times> unit" where
  "free_pair entry user = (Inr (), None, user)"

definition isl_hmap_free :: "('k, 'v) hmap store \<Rightarrow> nat option \<Rightarrow> ('k, 'v) hmap_result" where
  "isl_hmap_free s hmap = with_obj s hmap (\<lambda>a r t.
     if 0 < r - 1 then Some (set_obj s a (r - 1) t, None)
     else let (stat, t, user) = isl_hash_table_foreach t free_pair () in Some (release (set_obj s a (r - 1) t) a, None))"

definition isl_hmap_alloc :: "'k hmap_memory \<Rightarrow> ('k, 'v) hmap store \<Rightarrow> int \<Rightarrow> ('k, 'v) hmap_result" where
  "isl_hmap_alloc M s min_size =
     (if \<not> mem_map M then Some (s, None)
      else let (stat, t) = isl_hash_table_init (mem_entries M) min_size;
               (s, a) = new_obj s t
           in case stat of Inl e \<Rightarrow> isl_hmap_free s (Some a) | Inr u \<Rightarrow> Some (s, Some a))"

definition isl_hmap_copy :: "('k, 'v) hmap store \<Rightarrow> nat option \<Rightarrow> ('k, 'v) hmap_result" where
  "isl_hmap_copy s hmap = with_obj s hmap (\<lambda>a r t. Some (set_obj s a (r + 1) t, Some a))"

subsection \<open>Visiting the pairs\<close>

text \<open>A callback may have no result; the loop over the table then stops without one.\<close>

type_synonym ('k, 'v, 'u) pair_fn = "'k \<Rightarrow> 'v \<Rightarrow> 'u \<Rightarrow> (unit res \<times> 'u) option"

definition call_on_copy :: "('k, 'v, 'u) pair_fn \<Rightarrow> ('k \<times> 'v) option \<Rightarrow> 'u option \<Rightarrow> unit res \<times> ('k \<times> 'v) option \<times> 'u option" where
  "call_on_copy fn entry user = (case (entry, user) of
     (Some (k, v), Some u) \<Rightarrow> (case fn k v u of None \<Rightarrow> (Inl isl_error_none, entry, None) | Some (stat, u) \<Rightarrow> (stat, entry, Some u))
   | _ \<Rightarrow> (Inl isl_error_none, entry, None))"

definition isl_hmap_foreach :: "('k, 'v) hmap store \<Rightarrow> nat option \<Rightarrow> ('k, 'v, 'u) pair_fn \<Rightarrow> 'u \<Rightarrow> (unit res \<times> 'u) option" where
  "isl_hmap_foreach s hmap fn u = (case hmap of None \<Rightarrow> Some (Inl isl_error_none, u)
     | Some a \<Rightarrow> do {
         (r, t) \<leftarrow> cells s a;
         let (stat, t, user) = isl_hash_table_foreach t (call_on_copy fn) (Some u);
         map_option (Pair stat) user
       })"

definition isl_hmap_every :: "('k, 'v) hmap store \<Rightarrow> nat option \<Rightarrow> ('k \<Rightarrow> 'v \<Rightarrow> bool res) \<Rightarrow> bool res option" where
  "isl_hmap_every s hmap test = (case hmap of None \<Rightarrow> Some (Inl isl_error_none)
     | Some a \<Rightarrow> do { (r, t) \<leftarrow> cells s a; Some (isl_hash_table_every t (\<lambda>(k, v). test k v)) })"

subsection \<open>Lookup\<close>

definition has_key :: "('k, 'v) hmap_class \<Rightarrow> 'k \<Rightarrow> 'k \<times> 'v \<Rightarrow> bool res" where
  "has_key C key entry = key_equal C (fst entry) key"

text \<open>The search for the entry of a key, and the one that reserves an entry if there is none.\<close>

definition hmap_find :: "('k, 'v) hmap_class \<Rightarrow> ('k, 'v) hmap \<Rightarrow> 'k \<Rightarrow> ('k \<times> 'v) find_result" where
  "hmap_find C t key = isl_hash_table_find (Suc (Suc 0)) (\<lambda>sz. False) t (key_hash C key) (has_key C key) False"

definition hmap_reserve :: "('k, 'v) hmap_class \<Rightarrow> 'k hmap_memory \<Rightarrow> ('k, 'v) hmap \<Rightarrow> 'k \<Rightarrow> ('k \<times> 'v) find_result" where
  "hmap_reserve C M t key = isl_hash_table_find (Suc (Suc 0)) (mem_entries M) t (key_hash C key) (has_key C key) True"

text \<open>The result is that of type \<open>ISL_MAYBE\<close>: its fields \<open>valid\<close> and \<open>value\<close>.\<close>

definition isl_hmap_try_get :: "('k, 'v) hmap_class \<Rightarrow> ('k, 'v) hmap store \<Rightarrow> nat option \<Rightarrow> 'k option \<Rightarrow> (bool res \<times> 'v option) option" where
  "isl_hmap_try_get C s hmap key = (case (hmap, key) of
     (Some a, Some k) \<Rightarrow> do {
       (r, t) \<leftarrow> cells s a;
       (entry, t) \<leftarrow> hmap_find C t k;
       (case entry of
          Inl e \<Rightarrow> Some (Inl e, None)
        | Inr None \<Rightarrow> Some (Inr False, None)
        | Inr (Some h) \<Rightarrow> do { (k, v) \<leftarrow> get_data t h; Some (Inr True, Some v) })
     }
   | _ \<Rightarrow> Some (Inl isl_error_none, None))"

definition isl_hmap_has :: "('k, 'v) hmap_class \<Rightarrow> ('k, 'v) hmap store \<Rightarrow> nat option \<Rightarrow> 'k option \<Rightarrow> bool res option" where
  "isl_hmap_has C s hmap key = map_option fst (isl_hmap_try_get C s hmap key)"

definition isl_hmap_get :: "('k, 'v) hmap_class \<Rightarrow> ('k, 'v) hmap store \<Rightarrow> nat option \<Rightarrow> 'k option \<Rightarrow> 'v option option" where
  "isl_hmap_get C s hmap key = map_option snd (isl_hmap_try_get C s hmap key)"

text \<open>No result of a lookup counts as an error here.\<close>

definition has_entry :: "('k, 'v) hmap_class \<Rightarrow> ('k, 'v) hmap store \<Rightarrow> nat option \<Rightarrow> 'k \<Rightarrow> 'v \<Rightarrow> bool res" where
  "has_entry C s hmap key val = (case isl_hmap_try_get C s hmap (Some key) of
     Some (Inr True, Some v) \<Rightarrow> val_equal C v val
   | Some (valid, _) \<Rightarrow> valid
   | None \<Rightarrow> Inl isl_error_internal)"

definition isl_hmap_is_equal :: "('k, 'v) hmap_class \<Rightarrow> ('k, 'v) hmap store \<Rightarrow> nat option \<Rightarrow> nat option \<Rightarrow> bool res option" where
  "isl_hmap_is_equal C s hmap1 hmap2 = (case (hmap1, hmap2) of
     (Some a, Some b) \<Rightarrow>
       if a = b then Some (Inr True)
       else do {
         (r1, t1) \<leftarrow> cells s a;
         (r2, t2) \<leftarrow> cells s b;
         if table_n t1 \<noteq> table_n t2 then Some (Inr False) else isl_hmap_every s hmap1 (has_entry C s hmap2)
       }
   | _ \<Rightarrow> Some (Inl isl_error_none))"

subsection \<open>Changing a map\<close>

text \<open>The end of \<open>set\<close>, on a map with one reference: the pair is stored.\<close>

definition hmap_store_pair :: "('k, 'v) hmap_class \<Rightarrow> 'k hmap_memory \<Rightarrow> ('k, 'v) hmap store \<Rightarrow> nat \<Rightarrow> 'k \<Rightarrow> 'v \<Rightarrow> ('k, 'v) hmap_result" where
  "hmap_store_pair C M s a key val = do {
     (r, t) \<leftarrow> cells s a;
     (entry, t) \<leftarrow> hmap_reserve C M t key;
     let s = set_obj s a r t;
     (case entry of
        Inl e \<Rightarrow> isl_hmap_free s (Some a)
      | Inr None \<Rightarrow> None
      | Inr (Some h) \<Rightarrow>
          (case get_data t h of
             Some (k, v) \<Rightarrow> Some (set_obj s a r (set_data t h (k, val)), Some a)
           | None \<Rightarrow> if \<not> mem_pair M key then isl_hmap_free s (Some a)
                     else Some (set_obj s a r (set_data t h (key, val)), Some a)))
   }"

definition hmap_set_with :: "(('k, 'v) hmap store \<Rightarrow> nat option \<Rightarrow> ('k, 'v) hmap_result) \<Rightarrow> ('k, 'v) hmap_class \<Rightarrow> 'k hmap_memory \<Rightarrow>
    ('k, 'v) hmap store \<Rightarrow> nat option \<Rightarrow> 'k option \<Rightarrow> 'v option \<Rightarrow> ('k, 'v) hmap_result" where
  "hmap_set_with cow C M s hmap key val = (case (hmap, key, val) of
     (Some a, Some k, Some v) \<Rightarrow> do {
       (r, t) \<leftarrow> cells s a;
       (entry, t) \<leftarrow> hmap_find C t k;
       equal \<leftarrow> (case entry of
          Inl e \<Rightarrow> Some (Inl e)
        | Inr None \<Rightarrow> Some (Inr False)
        | Inr (Some h) \<Rightarrow> do { (k', v') \<leftarrow> get_data t h; Some (val_equal C v' v) });
       (case equal of
          Inl e \<Rightarrow> isl_hmap_free s hmap
        | Inr True \<Rightarrow> Some (s, hmap)
        | Inr False \<Rightarrow> do {
            (s, hmap) \<leftarrow> cow s hmap;
            (case hmap of None \<Rightarrow> Some (s, None) | Some a \<Rightarrow> hmap_store_pair C M s a k v)
          })
     }
   | _ \<Rightarrow> isl_hmap_free s hmap)"

definition add_key_val :: "(('k, 'v) hmap store \<Rightarrow> nat option \<Rightarrow> 'k option \<Rightarrow> 'v option \<Rightarrow> ('k, 'v) hmap_result) \<Rightarrow>
    ('k, 'v, ('k, 'v) hmap store \<times> nat option) pair_fn" where
  "add_key_val set_fn key val = (\<lambda>(s, hmap). do {
     (s, hmap) \<leftarrow> set_fn s hmap (Some key) (Some val);
     Some (if hmap = None then Inl isl_error_none else Inr (), (s, hmap)) })"

definition hmap_dup_with :: "(('k, 'v) hmap store \<Rightarrow> nat option \<Rightarrow> 'k option \<Rightarrow> 'v option \<Rightarrow> ('k, 'v) hmap_result) \<Rightarrow> 'k hmap_memory \<Rightarrow>
    ('k, 'v) hmap store \<Rightarrow> nat option \<Rightarrow> ('k, 'v) hmap_result" where
  "hmap_dup_with set_fn M s hmap = (case hmap of None \<Rightarrow> Some (s, None)
     | Some a \<Rightarrow> do {
         (r, t) \<leftarrow> cells s a;
         (s, dup) \<leftarrow> isl_hmap_alloc M s (int (table_n t));
         (stat, s, dup) \<leftarrow> isl_hmap_foreach s hmap (add_key_val set_fn) (s, dup);
         (case stat of Inl e \<Rightarrow> isl_hmap_free s dup | Inr u \<Rightarrow> Some (s, dup))
       })"

text \<open>\<open>cow\<close>, \<open>dup\<close> and \<open>set\<close> call each other; the first argument is the depth of these calls.\<close>

primrec hmap_cow :: "nat \<Rightarrow> ('k, 'v) hmap_class \<Rightarrow> 'k hmap_memory \<Rightarrow> ('k, 'v) hmap store \<Rightarrow> nat option \<Rightarrow> ('k, 'v) hmap_result" where
  "hmap_cow 0 C M s hmap = None"
| "hmap_cow (Suc depth) C M s hmap = with_obj s hmap (\<lambda>a r t.
     if r = 1 then Some (s, hmap)
     else hmap_dup_with (hmap_set_with (hmap_cow depth C M) C M) M (set_obj s a (r - 1) t) hmap)"

definition isl_hmap_cow :: "('k, 'v) hmap_class \<Rightarrow> 'k hmap_memory \<Rightarrow> ('k, 'v) hmap store \<Rightarrow> nat option \<Rightarrow> ('k, 'v) hmap_result" where
  "isl_hmap_cow = hmap_cow 2"

definition isl_hmap_set :: "('k, 'v) hmap_class \<Rightarrow> 'k hmap_memory \<Rightarrow>
    ('k, 'v) hmap store \<Rightarrow> nat option \<Rightarrow> 'k option \<Rightarrow> 'v option \<Rightarrow> ('k, 'v) hmap_result" where
  "isl_hmap_set C M = hmap_set_with (isl_hmap_cow C M) C M"

definition isl_hmap_dup :: "('k, 'v) hmap_class \<Rightarrow> 'k hmap_memory \<Rightarrow> ('k, 'v) hmap store \<Rightarrow> nat option \<Rightarrow> ('k, 'v) hmap_result" where
  "isl_hmap_dup C M = hmap_dup_with (isl_hmap_set C M) M"

definition isl_hmap_drop :: "('k, 'v) hmap_class \<Rightarrow> 'k hmap_memory \<Rightarrow> ('k, 'v) hmap store \<Rightarrow> nat option \<Rightarrow> 'k option \<Rightarrow> ('k, 'v) hmap_result" where
  "isl_hmap_drop C M s hmap key = (case (hmap, key) of
     (Some a, Some k) \<Rightarrow> do {
       (r, t) \<leftarrow> cells s a;
       (entry, t) \<leftarrow> hmap_find C t k;
       (case entry of
          Inl e \<Rightarrow> isl_hmap_free s hmap
        | Inr None \<Rightarrow> Some (s, hmap)
        | Inr (Some h) \<Rightarrow> do {
            (s, hmap) \<leftarrow> isl_hmap_cow C M s hmap;
            (case hmap of None \<Rightarrow> Some (s, None)
             | Some a \<Rightarrow> do {
                 (r, t) \<leftarrow> cells s a;
                 (entry, t) \<leftarrow> hmap_find C t k;
                 (case entry of
                    Inr (Some h) \<Rightarrow> do {
                      pair \<leftarrow> get_data t h;
                      res \<leftarrow> isl_hash_table_remove t h;
                      Some (set_obj s a r (case res of Inl e \<Rightarrow> t | Inr t \<Rightarrow> t), hmap)
                    }
                  | _ \<Rightarrow> isl_hmap_free s hmap)
               })
          })
     }
   | _ \<Rightarrow> isl_hmap_free s hmap)"

subsection \<open>The map a table holds\<close>

definition holds :: "('k, 'v) hmap_class \<Rightarrow> ('k, 'v) hmap \<Rightarrow> ('k \<Rightarrow> 'v option) \<Rightarrow> bool" where
  "holds C t m \<longleftrightarrow> table_ok t \<and> finite (dom m) \<and>
     contents t = image_mset (\<lambda>k. (key_hash C k, (k, the (m k)))) (mset_set (dom m))"

lemma holdsD:
  assumes "holds C t m"
  shows "table_ok t" and "finite (dom m)" and "table_n t = card (dom m)"
    and "(h, (k, v)) \<in># contents t \<longleftrightarrow> h = key_hash C k \<and> m k = Some v"
  using assms by (auto simp: holds_def table_ok_def)

lemma holds_add:
  assumes "holds C t m" and "m k = None" and "table_ok t'" and "contents t' = add_mset (key_hash C k, (k, v)) (contents t)"
  shows "holds C t' (m(k \<mapsto> v))"
proof -
  have k: "k \<notin> dom m" using assms(2) by auto
  have "image_mset (\<lambda>j. (key_hash C j, (j, the ((m(k \<mapsto> v)) j)))) (mset_set (dom m))
      = image_mset (\<lambda>j. (key_hash C j, (j, the (m j)))) (mset_set (dom m))"
    using k assms(1) by (intro image_mset_cong) (auto simp: holds_def)
  then show ?thesis using assms k by (simp add: holds_def)
qed

lemma holds_remove:
  assumes "holds C t m" and "m k = Some v" and "table_ok t'" and "contents t = add_mset (key_hash C k, (k, v)) (contents t')"
  shows "holds C t' (m(k := None))"
proof -
  have fin: "finite (dom m)" using assms(1) by (simp add: holds_def)
  have "mset_set (dom m) = add_mset k (mset_set (dom m - {k}))" using fin assms(2) by (intro mset_set.remove) auto
  then have "add_mset (key_hash C k, (k, v)) (contents t') = add_mset (key_hash C k, (k, v))
      (image_mset (\<lambda>j. (key_hash C j, (j, the (m j)))) (mset_set (dom m - {k})))"
    using assms by (simp add: holds_def)
  moreover have "image_mset (\<lambda>j. (key_hash C j, (j, the (m j)))) (mset_set (dom m - {k}))
      = image_mset (\<lambda>j. (key_hash C j, (j, the ((m(k := None)) j)))) (mset_set (dom m - {k}))"
    using fin by (intro image_mset_cong) auto
  moreover have "dom (m(k := None)) = dom m - {k}" by simp
  ultimately show ?thesis using assms(3) fin by (simp add: holds_def)
qed

text \<open>The datum of an occupied slot is exchanged.\<close>

lemma set_data_replace:
  assumes t: "table_ok t" and h: "h < 2 ^ table_bits t" "slots t ! h = \<lparr>entry_hash = hs, entry_data = Some d\<rparr>"
  shows "table_ok (set_data t h e)" and "\<exists>X. contents t = add_mset (hs, d) X \<and> contents (set_data t h e) = add_mset (hs, e) X"
proof -
  let ?es = "slots t" and ?e = "\<lparr>entry_hash = hs, entry_data = Some e\<rparr>"
  have len: "h < length ?es" using t h(1) by (simp add: table_ok_def)
  have S: "slots (set_data t h e) = ?es[h := ?e]" "table_bits (set_data t h e) = table_bits t" "table_n (set_data t h e) = table_n t"
    "table_entries (set_data t h e) \<noteq> None"
    using h(2) by (simp_all add: set_data_def)
  have c: "contents t = add_mset (hs, d) (others ?es h)" "contents (set_data t h e) = add_mset (hs, e) (others ?es h)"
    using entries_mset_split [OF len] entries_mset_update [OF len, of ?e] h(2) by (simp_all add: contents_def S(1))
  then show "\<exists>X. contents t = add_mset (hs, d) X \<and> contents (set_data t h e) = add_mset (hs, e) X" by blast
  have occ: "occupied (?es[h := ?e]) i \<longleftrightarrow> occupied ?es i" if "i < length ?es" for i
    using h(2) len that by (cases "i = h") (simp_all add: occupied_def)
  have home: "home b (?es[h := ?e] ! i) = home b (?es ! i)" if "i < length ?es" for i b
    using h(2) len that by (cases "i = h") (simp_all add: home_def)
  have "chained (table_bits t) ?es" using t by (simp add: table_ok_def)
  then have "chained (table_bits t) (?es[h := ?e])"
    unfolding chained_def length_list_update using occ home by (metis (no_types, lifting))
  then show "table_ok (set_data t h e)" using t c S(4) unfolding table_ok_def S by simp
qed

locale hmap_laws =
  fixes C :: "('k, 'v) hmap_class"
  assumes key_equal: "key_equal C a b = Inr (a = b)"
    and val_equal: "val_equal C v w = Inr (v = w)"
begin

lemma find_run:
  assumes t: "holds C t m"
  shows "m k = None \<Longrightarrow> hmap_find C t k = Some (Inr None, t)"
    and "m k = Some v \<Longrightarrow> \<exists>h. hmap_find C t k = Some (Inr (Some h), t) \<and> h < 2 ^ table_bits t \<and>
      slots t ! h = \<lparr>entry_hash = key_hash C k, entry_data = Some (k, v)\<rparr>"
proof -
  note D = holdsD [OF t]
  obtain r where r: "hmap_find C t k = Some r" "find_post (\<lambda>sz. False) t (key_hash C k) (has_key C k) False r"
    using isl_hash_table_find_run [OF D(1), of "\<lambda>sz. False" 0 "key_hash C k" "has_key C k" False]
    by (auto simp: hmap_find_def calloc_bounded_def)
  obtain res t' where rr: "r = (res, t')" by fastforce
  have eq: "has_key C k (k', v') = Inr (k' = k)" for k' and v' :: 'v by (simp add: has_key_def key_equal)
  note P = r(2) [unfolded rr]
  show "hmap_find C t k = Some (Inr None, t)" if "m k = None"
  proof (cases res)
    case (Inr ho)
    have "ho = None"
    proof (rule ccontr)
      assume "ho \<noteq> None"
      then obtain h k' v' where s: "h < 2 ^ table_bits t" "slots t ! h = \<lparr>entry_hash = key_hash C k, entry_data = Some (k', v')\<rparr>"
        "has_key C k (k', v') = Inr True" using P Inr by auto
      then show False using slot_in_contents [OF D(1) s(1,2)] D(4) eq that by auto
    qed
    then show ?thesis using P r(1) rr Inr by simp
  next
    case (Inl e)
    then show ?thesis using P eq by auto
  qed
  show "\<exists>h. hmap_find C t k = Some (Inr (Some h), t) \<and> h < 2 ^ table_bits t \<and>
      slots t ! h = \<lparr>entry_hash = key_hash C k, entry_data = Some (k, v)\<rparr>" if "m k = Some v"
  proof (cases res)
    case (Inr ho)
    have "(key_hash C k, (k, v)) \<in># contents t" using D(4) that by simp
    then have na: "\<not> absent t (key_hash C k) (has_key C k)" using eq [of k v] unfolding absent_def by force
    then have "ho \<noteq> None" using P Inr by (cases ho) auto
    then obtain h where h: "ho = Some h" by blast
    then obtain k' v' where s: "t' = t" "h < 2 ^ table_bits t" "slots t ! h = \<lparr>entry_hash = key_hash C k, entry_data = Some (k', v')\<rparr>"
      "has_key C k (k', v') = Inr True" using P Inr by auto
    have "k' = k" "v' = v" using s slot_in_contents [OF D(1) s(2,3)] D(4) eq that by auto
    then show ?thesis using s r(1) rr Inr h by simp
  next
    case (Inl e)
    then show ?thesis using P eq by auto
  qed
qed

lemma get_data_slot: "slots t ! h = \<lparr>entry_hash = hs, entry_data = Some d\<rparr> \<Longrightarrow> get_data t h = Some d"
  by (simp add: get_data_def)

lemma reserve_run:
  assumes t: "holds C t m" and mem: "calloc_bounded (mem_entries M)"
  shows "m k = Some v \<Longrightarrow> \<exists>h. hmap_reserve C M t k = Some (Inr (Some h), t) \<and> get_data t h = Some (k, v) \<and>
      (\<forall>w. holds C (set_data t h (k, w)) (m(k \<mapsto> w)))"
    and "m k = None \<Longrightarrow>
      (\<exists>h t'. hmap_reserve C M t k = Some (Inr (Some h), t') \<and> get_data t' h = None \<and> (\<forall>w. holds C (set_data t' h (k, w)) (m(k \<mapsto> w)))) \<or>
      (hmap_reserve C M t k = Some (Inl isl_error_alloc, t) \<and> 3 * 2 ^ table_bits t \<le> 4 * table_n t \<and>
        \<not> mem_entries M (2 * 2 ^ table_bits t))"
proof -
  note D = holdsD [OF t]
  obtain r where r: "hmap_reserve C M t k = Some r" "find_post (mem_entries M) t (key_hash C k) (has_key C k) True r"
    using isl_hash_table_find_run [OF D(1) mem, of 0 "key_hash C k" "has_key C k" True] by (auto simp: hmap_reserve_def)
  obtain res t' where rr: "r = (res, t')" by fastforce
  have eq: "has_key C k (k', v') = Inr (k' = k)" for k' and v' :: 'v by (simp add: has_key_def key_equal)
  note P = r(2) [unfolded rr]
  show "\<exists>h. hmap_reserve C M t k = Some (Inr (Some h), t) \<and> get_data t h = Some (k, v) \<and>
      (\<forall>w. holds C (set_data t h (k, w)) (m(k \<mapsto> w)))" if mk: "m k = Some v"
  proof -
    have "(key_hash C k, (k, v)) \<in># contents t" using D(4) mk by simp
    then have na: "\<not> absent t (key_hash C k) (has_key C k)" using eq [of k v] unfolding absent_def by force
    obtain h where h: "res = Inr (Some h)" using P na eq by (cases res; cases "projr res") auto
    then obtain k' v' where s: "t' = t" "h < 2 ^ table_bits t" "slots t ! h = \<lparr>entry_hash = key_hash C k, entry_data = Some (k', v')\<rparr>"
      "has_key C k (k', v') = Inr True" using P na by auto
    have kv: "k' = k" "v' = v" using s slot_in_contents [OF D(1) s(2,3)] D(4) eq mk by auto
    have "holds C (set_data t h (k, w)) (m(k \<mapsto> w))" for w
    proof -
      obtain X where X: "contents t = add_mset (key_hash C k, (k, v)) X" "contents (set_data t h (k, w)) = add_mset (key_hash C k, (k, w)) X"
        and ok: "table_ok (set_data t h (k, w))"
        using set_data_replace [OF D(1) s(2,3)] unfolding kv by blast
      have "dom m = insert k (dom m - {k})" using mk by auto
      have "mset_set (dom m) = add_mset k (mset_set (dom m - {k}))" using D(2) mk by (intro mset_set.remove) auto
      then have "add_mset (key_hash C k, (k, v)) X = add_mset (key_hash C k, (k, v))
          (image_mset (\<lambda>j. (key_hash C j, (j, the (m j)))) (mset_set (dom m - {k})))"
        using t mk X(1) by (simp add: holds_def)
      then have X2: "X = image_mset (\<lambda>j. (key_hash C j, (j, the ((m(k \<mapsto> w)) j)))) (mset_set (dom m - {k}))"
        using D(2) by (auto intro!: image_mset_cong)
      have "dom (m(k \<mapsto> w)) = dom m" using mk by auto
      then show ?thesis using ok X(2) X2 D(2) \<open>mset_set (dom m) = _\<close> by (simp add: holds_def)
    qed
    then show ?thesis using r(1) rr h s(1,3) kv by (auto simp: get_data_def)
  qed
  show "(\<exists>h t'. hmap_reserve C M t k = Some (Inr (Some h), t') \<and> get_data t' h = None \<and> (\<forall>w. holds C (set_data t' h (k, w)) (m(k \<mapsto> w)))) \<or>
      (hmap_reserve C M t k = Some (Inl isl_error_alloc, t) \<and> 3 * 2 ^ table_bits t \<le> 4 * table_n t \<and>
        \<not> mem_entries M (2 * 2 ^ table_bits t))" if mk: "m k = None"
  proof (cases res)
    case (Inl e)
    then show ?thesis using P r(1) rr eq by force
  next
    case (Inr ho)
    then obtain h where h: "ho = Some h" using P Inr by (cases ho) auto
    have "reserved t (key_hash C k) t' h"
    proof (rule ccontr)
      assume "\<not> ?thesis"
      then obtain k' v' where s: "h < 2 ^ table_bits t" "slots t ! h = \<lparr>entry_hash = key_hash C k, entry_data = Some (k', v')\<rparr>"
        "has_key C k (k', v') = Inr True" using P Inr h by auto
      then show False using slot_in_contents [OF D(1) s(1,2)] D(4) eq mk by auto
    qed
    then have "get_data t' h = None" "\<And>w. holds C (set_data t' h (k, w)) (m(k \<mapsto> w))"
      using holds_add [OF t mk] by (auto simp: reserved_def get_data_def)
    then show ?thesis using r(1) rr Inr h by blast
  qed
qed

lemma remove_run:
  assumes t: "holds C t m" and mk: "m k = Some v"
    and h: "h < 2 ^ table_bits t" "slots t ! h = \<lparr>entry_hash = key_hash C k, entry_data = Some (k, v)\<rparr>"
  shows "\<exists>t'. isl_hash_table_remove t h = Some (Inr t') \<and> holds C t' (m(k := None))"
  using isl_hash_table_remove_run [OF holdsD(1) [OF t] h] holds_remove [OF t mk] by blast

end

end
