(* ===== verification/Hmap_Prog.thy ===== *)
theory Hmap_Prog imports Isl_Hmap begin

text \<open>
  Programs that use hash maps (theory Isl_Hmap): they behave like programs on maps.
\<close>

subsection \<open>The invariant of the maps in memory\<close>

text \<open>A map has fewer than \<open>2 ^ 28\<close> keys; beyond that the table of a copy may not fit an \<open>int\<close>.\<close>

definition small_map :: "('k \<Rightarrow> 'v option) \<Rightarrow> bool" where
  "small_map m \<longleftrightarrow> finite (dom m) \<and> card (dom m) < 2 ^ 28"

definition hmap_ok :: "('k, 'v) hmap_class \<Rightarrow> ('k, 'v) hmap \<Rightarrow> bool" where
  "hmap_ok C t \<longleftrightarrow> (\<exists>m. holds C t m \<and> small_map m)"

text \<open>Memory is never short.\<close>

definition plenty :: "'k hmap_memory \<Rightarrow> bool" where
  "plenty M \<longleftrightarrow> mem_map M \<and> (\<forall>k. mem_pair M k) \<and> (\<forall>sz \<le> 2 ^ 29. mem_entries M sz)"

text \<open>The maps the other variables refer to stay as they are.\<close>

definition others_kept :: "(nat \<Rightarrow> nat option) \<Rightarrow> nat \<Rightarrow> 'a store \<Rightarrow> 'a store \<Rightarrow> bool" where
  "others_kept env x s s' \<longleftrightarrow> (\<forall>y b r t. y \<noteq> x \<longrightarrow> env y = Some b \<longrightarrow> cells s b = Some (r, t) \<longrightarrow> (\<exists>r'. cells s' b = Some (r', t)))"

lemma others_keptI:
  "(\<And>y b r t. y \<noteq> x \<Longrightarrow> env y = Some b \<Longrightarrow> cells s b = Some (r, t) \<Longrightarrow> \<exists>r'. cells s' b = Some (r', t)) \<Longrightarrow> others_kept env x s s'"
  unfolding others_kept_def by blast

lemma others_kept_trans: "others_kept env x s s1 \<Longrightarrow> others_kept env x s1 s2 \<Longrightarrow> others_kept env x s s2"
  unfolding others_kept_def by blast

lemma others_kept_refl [simp]: "others_kept env x s s"
  by (simp add: others_kept_def)

lemma others_kept_upd [simp]: "others_kept (env(x := p)) x s s' = others_kept env x s s'"
  by (auto simp: others_kept_def)

text \<open>
  An operation gave variable \<open>x\<close> a reference to a map that holds \<open>m\<close>, or \<open>NULL\<close>, which does not
  happen when there is plenty of memory; \<open>P\<close> is what is known of its reference count.
\<close>

definition hmap_gives :: "('k, 'v) hmap_class \<Rightarrow> 'k hmap_memory \<Rightarrow> (int \<Rightarrow> bool) \<Rightarrow> ('k, 'v) hmap store \<Rightarrow> (nat \<Rightarrow> nat option) \<Rightarrow> nat \<Rightarrow>
    ('k, 'v) hmap_result \<Rightarrow> ('k \<Rightarrow> 'v option) \<Rightarrow> bool" where
  "hmap_gives C M P s env x res m \<longleftrightarrow> (\<exists>s' p. res = Some (s', p) \<and> store_inv (hmap_ok C) s' (env(x := p)) \<and> others_kept env x s s' \<and>
     (case p of None \<Rightarrow> \<not> plenty M | Some b \<Rightarrow> \<exists>r t. P r \<and> cells s' b = Some (r, t) \<and> holds C t m))"

lemma hmap_givesE:
  assumes "hmap_gives C M P s env x res m"
  obtains (map) s' b r t where "res = Some (s', Some b)" "store_inv (hmap_ok C) s' (env(x \<mapsto> b))" "others_kept env x s s'"
      "P r" "cells s' b = Some (r, t)" "holds C t m"
    | (fails) s' where "res = Some (s', None)" "store_inv (hmap_ok C) s' (env(x := None))" "others_kept env x s s'" "\<not> plenty M"
proof -
  obtain s' p where "res = Some (s', p)" "store_inv (hmap_ok C) s' (env(x := p))" "others_kept env x s s'"
    and "case p of None \<Rightarrow> \<not> plenty M | Some b \<Rightarrow> \<exists>r t. P r \<and> cells s' b = Some (r, t) \<and> holds C t m"
    using assms unfolding hmap_gives_def by blast
  then show thesis using map fails by (cases p) auto
qed

lemma hmap_gives_map:
  "res = Some (s', Some b) \<Longrightarrow> store_inv (hmap_ok C) s' (env(x \<mapsto> b)) \<Longrightarrow> others_kept env x s s' \<Longrightarrow> P r \<Longrightarrow>
    cells s' b = Some (r, t) \<Longrightarrow> holds C t m \<Longrightarrow> hmap_gives C M P s env x res m"
  unfolding hmap_gives_def by auto

lemma hmap_gives_fails:
  "res = Some (s', None) \<Longrightarrow> store_inv (hmap_ok C) s' (env(x := None)) \<Longrightarrow> others_kept env x s s' \<Longrightarrow> \<not> plenty M \<Longrightarrow>
    hmap_gives C M P s env x res m"
  unfolding hmap_gives_def by auto

lemma hmap_gives_weaken: "hmap_gives C M P s env x res m \<Longrightarrow> (\<And>r. P r \<Longrightarrow> Q r) \<Longrightarrow> hmap_gives C M Q s env x res m"
  by (erule hmap_givesE) (blast intro: hmap_gives_map hmap_gives_fails)+

lemma hmap_gives_step:
  assumes "others_kept env x s s'" and g: "hmap_gives C M P s' (env(x := q)) x res m" and "\<And>r. P r \<Longrightarrow> Q r"
  shows "hmap_gives C M Q s env x res m"
  using g
proof (cases rule: hmap_givesE)
  case (map s2 b r t)
  then show ?thesis using assms(3) others_kept_trans [OF assms(1)] by (intro hmap_gives_map [of _ s2 b]) simp_all
next
  case (fails s2)
  then show ?thesis using others_kept_trans [OF assms(1)] by (intro hmap_gives_fails [of _ s2]) simp_all
qed

text \<open>A reference to an object that nobody else refers to is its only one.\<close>

lemma only_reference:
  assumes inv: "store_inv ok s env" and x: "env x = Some b" and c: "cells s b = Some (1, t)" and y: "y \<noteq> x"
  shows "env y \<noteq> Some b"
proof
  assume yb: "env y = Some b"
  note D = store_invD [OF inv]
  have "refs env b = 1" using D(5) [of b] c by (simp add: cell_ok_def)
  moreover have "{x, y} \<subseteq> {z. env z = Some b}" using x yb by auto
  moreover have "finite {z. env z = Some b}" by (rule finite_subset [OF _ D(1)]) auto
  ultimately have "card {x, y} \<le> 1" unfolding refs_def by (metis card_mono of_nat_eq_1_iff)
  then show False using y by simp
qed

lemma set_set_obj [simp]: "set_obj (set_obj s a r t) a r' t' = set_obj s a r' t'"
  by (simp add: set_obj_def)

lemma release_set_obj [simp]: "release (set_obj s a r t) a = release s a"
  by (simp add: set_obj_def release_def isl_ctx_deref_def)

lemma set_obj_same: "cells s a = Some (r, t) \<Longrightarrow> set_obj s a r t = s"
  by (cases s) (auto simp: set_obj_def)

lemma isl_hmap_free_run: "cells s a = Some (r, t) \<Longrightarrow> isl_hmap_free s (Some a) = Some (unref s a, None)"
  by (auto simp: isl_hmap_free_def with_obj_def unref_def case_prod_unfold Let_def)

lemma isl_hmap_free_None [simp]: "isl_hmap_free s None = Some (s, None)"
  by (simp add: isl_hmap_free_def with_obj_def)

text \<open>An operation that fails gives up its argument, which it may have written to.\<close>

lemma free_gives:
  assumes inv: "store_inv (hmap_ok C) s env" and x: "env x = Some a" and c: "cells s a = Some (1, t)" and M: "\<not> plenty M"
  shows "hmap_gives C M P s env x (isl_hmap_free (set_obj s a 1 t') (Some a)) m"
proof -
  have "isl_hmap_free (set_obj s a 1 t') (Some a) = Some (release s a, None)"
    using isl_hmap_free_run [of "set_obj s a 1 t'" a 1 t'] by (simp add: unref_def)
  moreover have "store_inv (hmap_ok C) (release s a) (env(x := None))"
    using store_inv_unref [OF inv x] c by (simp add: unref_def)
  moreover have "others_kept env x s (release s a)"
    using only_reference [OF inv x c] by (auto intro!: others_keptI)
  ultimately show ?thesis using M by (simp add: hmap_gives_def)
qed

text \<open>A map with one reference is overwritten.\<close>

lemma set_gives:
  assumes inv: "store_inv (hmap_ok C) s env" and x: "env x = Some a" and c: "cells s a = Some (1, t)"
    and t': "holds C t' m" "small_map m" and P: "P 1"
  shows "hmap_gives C M P s env x (Some (set_obj s a 1 t', Some a)) m"
proof -
  have ok: "hmap_ok C t'" using t' unfolding hmap_ok_def by blast
  have "env(x \<mapsto> a) = env" using x by auto
  then have "store_inv (hmap_ok C) (set_obj s a 1 t') (env(x \<mapsto> a))" using store_inv_set [OF inv c ok] by simp
  moreover have "others_kept env x s (set_obj s a 1 t')"
    using only_reference [OF inv x c] by (auto intro!: others_keptI)
  ultimately show ?thesis using P t'(1) by (simp add: hmap_gives_def)
qed

lemma same_gives:
  assumes "store_inv (hmap_ok C) s env" and "env x = Some a" and "cells s a = Some (r, t)" and "holds C t m" and "P r"
  shows "hmap_gives C M P s env x (Some (s, Some a)) m"
proof -
  have "env(x \<mapsto> a) = env" using assms(2) by auto
  then show ?thesis using assms by (auto simp: hmap_gives_def)
qed

lemma empty_table_holds:
  fixes C :: "('k, 'v) hmap_class"
  assumes n: "min_size < 2 ^ 28" and c: "calloc_bounded c"
  shows "(\<exists>t. (isl_hash_table_init c min_size :: unit res \<times> ('k, 'v) hmap) = (Inr (), t) \<and> holds C t Map.empty) \<or>
    (\<exists>t bits. (isl_hash_table_init c min_size :: unit res \<times> ('k, 'v) hmap) = (Inl isl_error_alloc, t) \<and> bits \<le> 29 \<and> \<not> c (2 ^ bits))"
proof -
  have n': "min_size + 1 < 2 ^ 29" using n by simp
  obtain bits where b: "2 \<le> bits" "3 * 2 ^ bits \<le> 8 * (max 2 min_size + 1)"
    and run: "(isl_hash_table_init c min_size :: unit res \<times> ('k, 'v) hmap) =
       (if c (2 ^ bits)
        then (Inr (), \<lparr>table_bits = bits, table_n = 0, table_entries = Some (replicate (2 ^ bits) empty_slot)\<rparr>)
        else (Inl isl_error_alloc, \<lparr>table_bits = bits, table_n = 0, table_entries = None\<rparr>))"
    using isl_hash_table_init_run [OF n' c, where ?'a = "'k \<times> 'v"] by metis
  have "3 * (2::int) ^ bits < 3 * 2 ^ 30" using b(2) n by simp
  then have "(2::int) ^ bits < 2 ^ 30" by simp
  then have b29: "bits \<le> 29" using power_less_imp_less_exp [of "2::int" bits 30] by simp
  then have "holds C \<lparr>table_bits = bits, table_n = 0, table_entries = Some (replicate (2 ^ bits) empty_slot)\<rparr> Map.empty"
    using fresh_table_ok [OF b(1)] by (simp add: holds_def contents_def)
  then show ?thesis using run b29 by (cases "c (2 ^ bits)") auto
qed

lemma alloc_gives:
  assumes inv: "store_inv (hmap_ok C) s env" and x: "env x = None" and n: "n < 2 ^ 28" and c: "calloc_bounded (mem_entries M)"
  shows "hmap_gives C M (\<lambda>r. r = 1) s env x (isl_hmap_alloc M s n) Map.empty"
proof -
  note D = store_invD [OF inv]
  have free: "cells s (next_addr s) = None" by (rule D(4)) simp
  have kept: "others_kept env x s s'" if "\<And>b. b \<noteq> next_addr s \<Longrightarrow> cells s' b = cells s b" for s' :: "('a, 'b) hmap store"
    using that free by (auto intro!: others_keptI) (metis option.distinct(1))
  have env: "env(x := None) = env" using x by auto
  show ?thesis
  proof (cases "mem_map M")
    case False
    then have "isl_hmap_alloc M s n = Some (s, None)" "\<not> plenty M" by (simp_all add: isl_hmap_alloc_def plenty_def)
    then show ?thesis using inv env by (intro hmap_gives_fails [of _ s]) simp_all
  next
    case True
    from empty_table_holds [OF n c, of C] show ?thesis
    proof (elim disjE exE conjE)
      fix t :: "('a, 'b) hmap"
      assume t: "isl_hash_table_init (mem_entries M) n = (Inr (), t)" "holds C t Map.empty"
      then have "hmap_ok C t" by (auto simp: hmap_ok_def small_map_def)
      from store_inv_new [OF inv x this] show ?thesis using True t kept
        by (intro hmap_gives_map [of _ "fst (new_obj s t)" "next_addr s"])
           (auto simp: isl_hmap_alloc_def Let_def case_prod_unfold)
    next
      fix t :: "('a, 'b) hmap" and bits
      assume t: "isl_hash_table_init (mem_entries M) n = (Inl isl_error_alloc, t)" and b: "bits \<le> 29" "\<not> mem_entries M (2 ^ bits)"
      let ?s = "release (fst (new_obj s t)) (next_addr s)"
      have "(2::nat) ^ bits \<le> 2 ^ 29" using b(1) by (intro power_increasing) simp_all
      then have np: "\<not> plenty M" using b(2) by (auto simp: plenty_def)
      have "isl_hmap_free (fst (new_obj s t)) (Some (next_addr s)) = Some (?s, None)"
        using isl_hmap_free_run [of "fst (new_obj s t)" "next_addr s" 1 t] by (simp add: unref_def)
      then have run: "isl_hmap_alloc M s n = Some (?s, None)" using True t by (simp add: isl_hmap_alloc_def Let_def case_prod_unfold)
      have ctx: "0 \<le> ctx_ref s" using D(3) by simp
      have "(cells s)(next_addr s := None) = cells s" using free by auto
      then have "store_inv (hmap_ok C) ?s (env(x := None))" using inv ctx unfolding env by (simp add: store_inv_def)
      then show ?thesis using run np kept by (intro hmap_gives_fails [of _ ?s]) simp_all
    qed
  qed
qed

context hmap_laws begin

lemma store_pair_gives:
  assumes inv: "store_inv (hmap_ok C) s env" and x: "env x = Some a" and c: "cells s a = Some (1, t)" and t: "holds C t m"
    and small: "small_map (m(k \<mapsto> v))" and mem: "calloc_bounded (mem_entries M)"
  shows "hmap_gives C M (\<lambda>r. r = 1) s env x (hmap_store_pair C M s a k v) (m(k \<mapsto> v))"
proof (cases "m k")
  case (Some w)
  then obtain h where h: "hmap_reserve C M t k = Some (Inr (Some h), t)" "get_data t h = Some (k, w)"
    "holds C (set_data t h (k, v)) (m(k \<mapsto> v))"
    using reserve_run(1) [OF t mem Some] by blast
  then have "hmap_store_pair C M s a k v = Some (set_obj s a 1 (set_data t h (k, v)), Some a)"
    using c by (simp add: hmap_store_pair_def)
  then show ?thesis using set_gives [OF inv x c h(3) small] by simp
next
  case None
  from reserve_run(2) [OF t mem None] show ?thesis
  proof (elim disjE exE conjE)
    fix h t'
    assume h: "hmap_reserve C M t k = Some (Inr (Some h), t')" "get_data t' h = None"
      and new: "\<forall>w. holds C (set_data t' h (k, w)) (m(k \<mapsto> w))"
    show ?thesis
    proof (cases "mem_pair M k")
      case True
      then have "hmap_store_pair C M s a k v = Some (set_obj s a 1 (set_data t' h (k, v)), Some a)"
        using c h by (simp add: hmap_store_pair_def)
      then show ?thesis using set_gives [OF inv x c _ small] new by simp
    next
      case False
      then have "hmap_store_pair C M s a k v = isl_hmap_free (set_obj s a 1 t') (Some a)" "\<not> plenty M"
        using c h by (auto simp: hmap_store_pair_def plenty_def)
      then show ?thesis using free_gives [OF inv x c] by simp
    qed
  next
    assume r: "hmap_reserve C M t k = Some (Inl isl_error_alloc, t)" and full: "3 * 2 ^ table_bits t \<le> 4 * table_n t"
      "\<not> mem_entries M (2 * 2 ^ table_bits t)"
    have "\<not> plenty M"
    proof
      assume "plenty M"
      then have "\<not> (2::nat) * 2 ^ table_bits t \<le> 2 ^ 29" using full(2) by (auto simp: plenty_def)
      then have "\<not> (2::nat) ^ Suc (table_bits t) \<le> 2 ^ 29" by simp
      then have "29 < Suc (table_bits t)" using power_increasing [of "Suc (table_bits t)" 29 "2::nat"] by linarith
      then have "(2::nat) ^ 29 \<le> 2 ^ table_bits t" by (intro power_increasing) simp_all
      then have "3 * 2 ^ 29 \<le> 4 * card (dom m)" using full(1) holdsD(3) [OF t] by simp
      moreover have "card (dom m) \<le> card (dom (m(k \<mapsto> v)))" using small by (intro card_mono) (auto simp: small_map_def)
      ultimately show False using small by (simp add: small_map_def)
    qed
    moreover have "hmap_store_pair C M s a k v = isl_hmap_free (set_obj s a 1 t) (Some a)"
      using c r by (simp add: hmap_store_pair_def)
    ultimately show ?thesis using free_gives [OF inv x c] by simp
  qed
qed

text \<open>\<open>set\<close>, when \<open>cow\<close> does what it should.\<close>

lemma set_with_gives:
  assumes inv: "store_inv (hmap_ok C) s env" and x: "env x = Some a" and c: "cells s a = Some (r, t)" and t: "holds C t m"
    and small: "small_map (m(k \<mapsto> v))" and mem: "calloc_bounded (mem_entries M)"
    and cow: "hmap_gives C M (\<lambda>r. r = 1) s env x (cow s (Some a)) m"
    and P: "P r" "P 1"
  shows "hmap_gives C M P s env x (hmap_set_with cow C M s (Some a) (Some k) (Some v)) (m(k \<mapsto> v))"
proof (cases "m k = Some v")
  case True
  obtain h where "hmap_find C t k = Some (Inr (Some h), t)" "slots t ! h = \<lparr>entry_hash = key_hash C k, entry_data = Some (k, v)\<rparr>"
    using find_run(2) [OF t True] by blast
  then have "hmap_set_with cow C M s (Some a) (Some k) (Some v) = Some (s, Some a)"
    using c by (simp add: hmap_set_with_def get_data_def val_equal)
  moreover have "m(k \<mapsto> v) = m" using True by auto
  ultimately show ?thesis using same_gives [OF inv x c t, where P = P] P(1) by simp
next
  case False
  have run: "hmap_set_with cow C M s (Some a) (Some k) (Some v) =
      Option.bind (cow s (Some a)) (\<lambda>(s, hmap). case hmap of None \<Rightarrow> Some (s, None) | Some a \<Rightarrow> hmap_store_pair C M s a k v)"
  proof (cases "m k")
    case None
    then show ?thesis using find_run(1) [OF t None] c by (simp add: hmap_set_with_def)
  next
    case (Some w)
    obtain h where "hmap_find C t k = Some (Inr (Some h), t)" "slots t ! h = \<lparr>entry_hash = key_hash C k, entry_data = Some (k, w)\<rparr>"
      using find_run(2) [OF t Some] by blast
    then show ?thesis using c Some False by (simp add: hmap_set_with_def get_data_def val_equal)
  qed
  from cow show ?thesis
  proof (cases rule: hmap_givesE)
    case (map s' b r' t')
    have "hmap_gives C M (\<lambda>r. r = 1) s' (env(x \<mapsto> b)) x (hmap_store_pair C M s' b k v) (m(k \<mapsto> v))"
      by (rule store_pair_gives [OF map(2) _ _ map(6) small mem]) (use map in simp_all)
    then show ?thesis unfolding run map(1) using hmap_gives_step [OF map(3)] P(2) by simp
  next
    case (fails s')
    then show ?thesis unfolding run by (intro hmap_gives_fails [of _ s']) simp_all
  qed
qed

end

subsection \<open>Copying a map\<close>

text \<open>The loop over the pairs that a table holds.\<close>

fun pair_loop :: "('k, 'v, 'u) pair_fn \<Rightarrow> ('k \<times> 'v) list \<Rightarrow> 'u \<Rightarrow> (unit res \<times> 'u) option" where
  "pair_loop fn [] u = Some (Inr (), u)"
| "pair_loop fn ((k, v) # ps) u = (case fn k v u of
     None \<Rightarrow> None
   | Some (Inl e, u) \<Rightarrow> Some (Inl e, u)
   | Some (Inr _, u) \<Rightarrow> pair_loop fn ps u)"

definition table_pairs :: "('k, 'v) hmap \<Rightarrow> ('k \<times> 'v) list" where
  "table_pairs t = List.map_filter entry_data (slots t)"

lemma foreach_loop_pairs:
  "(case foreach_loop (call_on_copy fn) es (Some u) of (stat, es, user) \<Rightarrow> map_option (Pair stat) user)
    = pair_loop fn (List.map_filter entry_data es) u"
proof (induction es arbitrary: u)
  case (Cons e es)
  show ?case
  proof (cases "entry_data e")
    case None
    then show ?thesis using Cons [of u] by (simp add: List.map_filter_simps case_prod_unfold Let_def)
  next
    case (Some kv)
    obtain k v where kv: "kv = (k, v)" by fastforce
    show ?thesis
    proof (cases "fn k v u")
      case None
      then show ?thesis using Some kv by (simp add: List.map_filter_simps call_on_copy_def)
    next
      case (Some su)
      obtain stat w where su: "su = (stat, w)" by fastforce
      show ?thesis using Some \<open>entry_data e = Some kv\<close> kv su Cons [of w]
        by (cases stat) (simp_all add: List.map_filter_simps call_on_copy_def case_prod_unfold Let_def)
    qed
  qed
qed (simp add: List.map_filter_simps)

lemma foreach_pairs:
  assumes "cells s a = Some (r, t)" and "table_entries t \<noteq> None"
  shows "isl_hmap_foreach s (Some a) fn u = pair_loop fn (table_pairs t) u"
  using assms foreach_loop_pairs [of fn "slots t" u]
  by (auto simp: isl_hmap_foreach_def isl_hash_table_foreach_def table_pairs_def case_prod_unfold Let_def)

lemma table_pairs_holds:
  assumes "holds C t m"
  shows "(k, v) \<in> set (table_pairs t) \<longleftrightarrow> m k = Some v"
proof -
  have "(k, v) \<in> set (table_pairs t) \<longleftrightarrow> (\<exists>e \<in> set (slots t). entry_data e = Some (k, v))"
    by (force simp: table_pairs_def List.map_filter_def image_iff)
  also have "\<dots> \<longleftrightarrow> (\<exists>h. (h, (k, v)) \<in># contents t)"
    unfolding contents_def in_entries_mset by (metis in_set_conv_nth)
  finally show ?thesis using holdsD(4) [OF assms] by auto
qed

definition add_pairs :: "('k \<times> 'v) list \<Rightarrow> ('k \<Rightarrow> 'v option) \<Rightarrow> 'k \<Rightarrow> 'v option" where
  "add_pairs ps m = fold (\<lambda>(k, v) m. m(k \<mapsto> v)) ps m"

lemma add_pairs_simps [simp]: "add_pairs [] m = m" "add_pairs ((k, v) # ps) m = add_pairs ps (m(k \<mapsto> v))"
  by (simp_all add: add_pairs_def)

lemma add_pairs_graph:
  assumes "\<forall>(k, v) \<in> set ps. m k = Some v" and "m0 \<subseteq>\<^sub>m m" and "\<forall>k v. m k = Some v \<longrightarrow> (k, v) \<in> set ps \<or> m0 k = Some v"
  shows "add_pairs ps m0 = m"
  using assms
proof (induction ps arbitrary: m0)
  case Nil
  then show ?case by (auto simp: map_le_def fun_eq_iff) (metis domIff not_None_eq)
next
  case (Cons p ps)
  obtain k v where p: "p = (k, v)" by fastforce
  have "m0(k \<mapsto> v) \<subseteq>\<^sub>m m" using Cons.prems(1,2) p by (auto simp: map_le_def)
  moreover have "\<forall>j w. m j = Some w \<longrightarrow> (j, w) \<in> set ps \<or> (m0(k \<mapsto> v)) j = Some w"
    using Cons.prems(1,3) p by auto
  moreover have "\<forall>(k, v) \<in> set ps. m k = Some v" using Cons.prems(1) by simp
  ultimately have "add_pairs ps (m0(k \<mapsto> v)) = m" by (intro Cons.IH)
  then show ?case unfolding p add_pairs_simps .
qed

lemma small_map_le: "m0 \<subseteq>\<^sub>m m \<Longrightarrow> small_map m \<Longrightarrow> small_map m0"
  unfolding small_map_def by (meson card_mono finite_subset le_less_trans map_le_implies_dom_le)

lemma add_key_val_apply: "add_key_val set_fn key val (s, hmap) = do {
     (s, hmap) \<leftarrow> set_fn s hmap (Some key) (Some val);
     Some (if hmap = None then Inl isl_error_none else Inr (), (s, hmap)) }"
  by (simp add: add_key_val_def)

text \<open>\<open>cow\<close> returns a map with one reference as it is.\<close>

definition keeps_own :: "(('k, 'v) hmap store \<Rightarrow> nat option \<Rightarrow> ('k, 'v) hmap_result) \<Rightarrow> bool" where
  "keeps_own cow \<longleftrightarrow> (\<forall>s b t. cells s b = Some (1, t) \<longrightarrow> cow s (Some b) = Some (s, Some b))"

lemma keeps_own_cow: "keeps_own (hmap_cow (Suc depth) C M)"
  by (simp add: keeps_own_def with_obj_def)

context hmap_laws begin

lemma set_own_gives:
  assumes inv: "store_inv (hmap_ok C) s env" and x: "env x = Some b" and c: "cells s b = Some (1, t)" and t: "holds C t m"
    and small: "small_map (m(k \<mapsto> v))" and mem: "calloc_bounded (mem_entries M)" and own: "keeps_own cow"
  shows "hmap_gives C M (\<lambda>r. r = 1) s env x (hmap_set_with cow C M s (Some b) (Some k) (Some v)) (m(k \<mapsto> v))"
proof -
  have "cow s (Some b) = Some (s, Some b)" using own c unfolding keeps_own_def by blast
  then have "hmap_gives C M (\<lambda>r. r = 1) s env x (cow s (Some b)) m" using same_gives [OF inv x c t] by simp
  from set_with_gives [where cow = cow, OF inv x c t small mem this] show ?thesis by simp
qed

lemma add_pairs_run:
  assumes mem: "calloc_bounded (mem_entries M)" and own: "keeps_own cow" and small: "small_map m"
  shows "store_inv (hmap_ok C) s (env(x \<mapsto> b)) \<Longrightarrow> cells s b = Some (1, t) \<Longrightarrow> holds C t m0 \<Longrightarrow> m0 \<subseteq>\<^sub>m m \<Longrightarrow>
    \<forall>(k, v) \<in> set ps. m k = Some v \<Longrightarrow>
    \<exists>stat s' p. pair_loop (add_key_val (hmap_set_with cow C M)) ps (s, Some b) = Some (stat, s', p) \<and>
      (p = None \<longleftrightarrow> stat \<noteq> Inr ()) \<and> hmap_gives C M (\<lambda>r. r = 1) s env x (Some (s', p)) (add_pairs ps m0)"
proof (induction ps arbitrary: s b t m0)
  case Nil
  have "hmap_gives C M (\<lambda>r. r = 1) s (env(x \<mapsto> b)) x (Some (s, Some b)) m0"
    by (rule same_gives [OF Nil(1) _ Nil(2,3)]) simp_all
  then have "hmap_gives C M (\<lambda>r. r = 1) s env x (Some (s, Some b)) m0" by (rule hmap_gives_step [OF others_kept_refl])
  then show ?case by simp
next
  case (Cons q ps)
  obtain k v where q: "q = (k, v)" by fastforce
  have le: "m0(k \<mapsto> v) \<subseteq>\<^sub>m m" using Cons.prems(4,5) q by (auto simp: map_le_def)
  let ?set = "hmap_set_with cow C M"
  have "hmap_gives C M (\<lambda>r. r = 1) s (env(x \<mapsto> b)) x (?set s (Some b) (Some k) (Some v)) (m0(k \<mapsto> v))"
    by (rule set_own_gives [OF Cons.prems(1) _ Cons.prems(2,3) small_map_le [OF le small] mem own]) simp
  then show ?case
  proof (cases rule: hmap_givesE)
    case (map s1 b1 r1 t1)
    have inv1: "store_inv (hmap_ok C) s1 (env(x \<mapsto> b1))" and kept: "others_kept env x s s1" using map(2,3) by simp_all
    have b1: "cells s1 b1 = Some (1, t1)" using map(4,5) by simp
    have rest: "\<forall>(k, v) \<in> set ps. m k = Some v" using Cons.prems(5) by simp
    from Cons.IH [OF inv1 b1 map(6) le rest] obtain stat s' p where
      ih: "pair_loop (add_key_val ?set) ps (s1, Some b1) = Some (stat, s', p)" "p = None \<longleftrightarrow> stat \<noteq> Inr ()"
        "hmap_gives C M (\<lambda>r. r = 1) s1 env x (Some (s', p)) (add_pairs ps (m0(k \<mapsto> v)))" by blast
    have "env = env(x := env x)" by simp
    then have "hmap_gives C M (\<lambda>r. r = 1) s env x (Some (s', p)) (add_pairs ps (m0(k \<mapsto> v)))"
      using hmap_gives_step [OF kept, of C M "\<lambda>r. r = 1" "env x"] ih(3) by simp
    then show ?thesis using ih(1,2) map(1) q by (simp add: add_key_val_apply)
  next
    case (fails s1)
    then have "hmap_gives C M (\<lambda>r. r = 1) s env x (Some (s1, None)) (add_pairs (q # ps) m0)" by (intro hmap_gives_fails [of _ s1]) simp_all
    then show ?thesis using fails(1) q by (simp add: add_key_val_apply)
  qed
qed

lemma dup_gives:
  assumes inv: "store_inv (hmap_ok C) s env" and x: "env x = None" and c: "cells s a = Some (r, t)" and t: "holds C t m"
    and small: "small_map m" and mem: "calloc_bounded (mem_entries M)" and own: "keeps_own cow"
  shows "hmap_gives C M (\<lambda>r. r = 1) s env x (hmap_dup_with (hmap_set_with cow C M) M s (Some a)) m"
proof -
  let ?set = "hmap_set_with cow C M"
  have n: "int (table_n t) < 2 ^ 28" using holdsD(3) [OF t] small by (simp add: small_map_def)
  have ne: "table_entries t \<noteq> None" using holdsD(1) [OF t] by (simp add: table_ok_def)
  have "0 < refs env a" using store_invD(5) [OF inv, of a] c by (simp add: cell_ok_def)
  then have "{y. env y = Some a} \<noteq> {}" unfolding refs_def by force
  then obtain y where y: "env y = Some a" by blast
  then have "y \<noteq> x" using x by auto
  from alloc_gives [OF inv x n mem] show ?thesis
  proof (cases rule: hmap_givesE)
    case (map s1 b r1 t1)
    obtain r' where a1: "cells s1 a = Some (r', t)" using map(3) y \<open>y \<noteq> x\<close> c unfolding others_kept_def by blast
    have b1: "cells s1 b = Some (1, t1)" using map(4,5) by simp
    have ps: "\<forall>(k, v) \<in> set (table_pairs t). m k = Some v" using table_pairs_holds [OF t] by auto
    have all: "\<forall>k v. m k = Some v \<longrightarrow> (k, v) \<in> set (table_pairs t) \<or> Map.empty k = Some v" using table_pairs_holds [OF t] by auto
    have le: "Map.empty \<subseteq>\<^sub>m m" by simp
    from add_pairs_run [OF mem own small map(2) b1 map(6) le ps] obtain stat s' p where
      l: "pair_loop (add_key_val ?set) (table_pairs t) (s1, Some b) = Some (stat, s', p)" "p = None \<longleftrightarrow> stat \<noteq> Inr ()"
        "hmap_gives C M (\<lambda>r. r = 1) s1 env x (Some (s', p)) (add_pairs (table_pairs t) Map.empty)" by blast
    have g: "hmap_gives C M (\<lambda>r. r = 1) s env x (Some (s', p)) m"
      using hmap_gives_step [OF map(3), of C M "\<lambda>r. r = 1" "env x"] l(3) add_pairs_graph [OF ps le all] by simp
    have "hmap_dup_with ?set M s (Some a) = Some (s', p)"
      using c map(1) foreach_pairs [OF a1 ne, of "add_key_val ?set" "(s1, Some b)"] l(1,2) by (cases stat) (auto simp: hmap_dup_with_def)
    then show ?thesis using g by simp
  next
    case (fails s1)
    obtain r' where a1: "cells s1 a = Some (r', t)" using fails(3) y \<open>y \<noteq> x\<close> c unfolding others_kept_def by blast
    have "pair_loop (add_key_val ?set) ps (s1, None) \<in> {Some (Inr (), s1, None), Some (Inl isl_error_none, s1, None)}" for ps :: "('k \<times> 'v) list"
      by (cases ps) (auto simp: add_key_val_apply hmap_set_with_def)
    from this [of "table_pairs t"] have "hmap_dup_with ?set M s (Some a) = Some (s1, None)"
      using c fails(1) foreach_pairs [OF a1 ne, of "add_key_val ?set" "(s1, None)"] by (auto simp: hmap_dup_with_def)
    then show ?thesis using fails by (intro hmap_gives_fails [of _ s1]) simp_all
  qed
qed

lemma cow_gives:
  assumes inv: "store_inv (hmap_ok C) s env" and x: "env x = Some a" and c: "cells s a = Some (r, t)" and t: "holds C t m"
    and small: "small_map m" and mem: "calloc_bounded (mem_entries M)"
  shows "hmap_gives C M (\<lambda>r. r = 1) s env x (isl_hmap_cow C M s (Some a)) m"
proof (cases "r = 1")
  case True
  then have "isl_hmap_cow C M s (Some a) = Some (s, Some a)" using c by (simp add: isl_hmap_cow_def numeral_2_eq_2 with_obj_def)
  then show ?thesis using same_gives [OF inv x c t, of "\<lambda>r. r = 1"] True by simp
next
  case False
  have r: "0 < r" using store_invD(5) [OF inv, of a] c by (simp add: cell_ok_def)
  let ?s = "set_obj s a (r - 1) t"
  have inv1: "store_inv (hmap_ok C) ?s (env(x := None))"
    using store_inv_unref [OF inv x] c False r by (simp add: unref_def)
  have kept: "others_kept env x s ?s" using c by (auto intro!: others_keptI)
  have "isl_hmap_cow C M s (Some a) = hmap_dup_with (hmap_set_with (hmap_cow (Suc 0) C M) C M) M ?s (Some a)"
    using c False by (simp add: isl_hmap_cow_def numeral_2_eq_2 with_obj_def)
  moreover have "hmap_gives C M (\<lambda>r. r = 1) ?s (env(x := None)) x
      (hmap_dup_with (hmap_set_with (hmap_cow (Suc 0) C M) C M) M ?s (Some a)) m"
    by (rule dup_gives [OF inv1 _ _ t small mem keeps_own_cow]) simp_all
  ultimately show ?thesis using hmap_gives_step [OF kept] by simp
qed

end

subsection \<open>The operations\<close>

context hmap_laws begin

lemma hmap_set_gives:
  assumes inv: "store_inv (hmap_ok C) s env" and x: "env x = Some a" and c: "cells s a = Some (r, t)" and t: "holds C t m"
    and small: "small_map (m(k \<mapsto> v))" "small_map m" and mem: "calloc_bounded (mem_entries M)"
  shows "hmap_gives C M (\<lambda>r. True) s env x (isl_hmap_set C M s (Some a) (Some k) (Some v)) (m(k \<mapsto> v))"
  unfolding isl_hmap_set_def
  by (rule set_with_gives [where cow = "isl_hmap_cow C M", OF inv x c t small(1) mem cow_gives [OF inv x c t small(2) mem]]) simp_all

lemma small_remove: "small_map m \<Longrightarrow> small_map (m(k := None))"
  by (erule small_map_le [rotated]) (auto simp: map_le_def)

lemma hmap_drop_gives:
  assumes inv: "store_inv (hmap_ok C) s env" and x: "env x = Some a" and c: "cells s a = Some (r, t)" and t: "holds C t m"
    and small: "small_map m" and mem: "calloc_bounded (mem_entries M)"
  shows "hmap_gives C M (\<lambda>r. True) s env x (isl_hmap_drop C M s (Some a) (Some k)) (m(k := None))"
proof (cases "m k")
  case None
  then have "isl_hmap_drop C M s (Some a) (Some k) = Some (s, Some a)"
    using find_run(1) [OF t None] c by (simp add: isl_hmap_drop_def)
  moreover have "m(k := None) = m" using None by auto
  ultimately show ?thesis using same_gives [OF inv x c t, of "\<lambda>r. True"] by simp
next
  case (Some v)
  obtain h where h: "hmap_find C t k = Some (Inr (Some h), t)" using find_run(2) [OF t Some] by blast
  from cow_gives [OF inv x c t small mem] show ?thesis
  proof (cases rule: hmap_givesE)
    case (map s1 b r1 t1)
    have b1: "cells s1 b = Some (1, t1)" using map(4,5) by simp
    obtain h1 where h1: "hmap_find C t1 k = Some (Inr (Some h1), t1)" "h1 < 2 ^ table_bits t1"
      "slots t1 ! h1 = \<lparr>entry_hash = key_hash C k, entry_data = Some (k, v)\<rparr>" using find_run(2) [OF map(6) Some] by blast
    obtain t2 where t2: "isl_hash_table_remove t1 h1 = Some (Inr t2)" "holds C t2 (m(k := None))"
      using remove_run [OF map(6) Some h1(2,3)] by blast
    have "isl_hmap_drop C M s (Some a) (Some k) = Some (set_obj s1 b 1 t2, Some b)"
      using c h map(1) b1 h1(1) get_data_slot [OF h1(3)] t2(1) by (simp add: isl_hmap_drop_def)
    moreover have "hmap_gives C M (\<lambda>r. True) s1 (env(x \<mapsto> b)) x (Some (set_obj s1 b 1 t2, Some b)) (m(k := None))"
      by (rule set_gives [OF map(2) _ b1 t2(2) small_remove [OF small]]) simp_all
    ultimately show ?thesis using hmap_gives_step [OF map(3)] by simp
  next
    case (fails s1)
    then have "isl_hmap_drop C M s (Some a) (Some k) = Some (s1, None)" using c h by (simp add: isl_hmap_drop_def)
    then show ?thesis using fails by (intro hmap_gives_fails [of _ s1]) simp_all
  qed
qed

lemma try_get_run:
  assumes "cells s a = Some (r, t)" and "holds C t m"
  shows "isl_hmap_try_get C s (Some a) (Some k) = Some (Inr (m k \<noteq> None), m k)"
proof (cases "m k")
  case None
  then show ?thesis using find_run(1) [OF assms(2) None] assms(1) by (simp add: isl_hmap_try_get_def)
next
  case (Some v)
  obtain h where "hmap_find C t k = Some (Inr (Some h), t)" "slots t ! h = \<lparr>entry_hash = key_hash C k, entry_data = Some (k, v)\<rparr>"
    using find_run(2) [OF assms(2) Some] by blast
  then show ?thesis using assms(1) Some by (simp add: isl_hmap_try_get_def get_data_slot)
qed

lemma has_entry_run:
  assumes "cells s a = Some (r, t)" and "holds C t m"
  shows "has_entry C s (Some a) k v = Inr (m k = Some v)"
  using try_get_run [OF assms, of k] by (cases "m k") (simp_all add: has_entry_def val_equal)

lemma hmap_every_run:
  assumes "cells s a = Some (r, t)" and t: "holds C t m" and test: "\<And>k v. test k v = Inr (P k v)"
  shows "isl_hmap_every s (Some a) test = Some (Inr (\<forall>k v. m k = Some v \<longrightarrow> P k v))"
proof -
  have loop: "every_loop (\<lambda>(k, v). test k v) es = Inr (\<forall>(k, v) \<in> set (List.map_filter entry_data es). P k v)" for es
    by (induction es) (auto simp: List.map_filter_simps test split: option.split bool.split)
  have "table_entries t \<noteq> None" using holdsD(1) [OF t] by (simp add: table_ok_def)
  then have "isl_hmap_every s (Some a) test = Some (Inr (\<forall>(k, v) \<in> set (table_pairs t). P k v))"
    using assms(1) loop [of "slots t"] by (auto simp: isl_hmap_every_def isl_hash_table_every_def table_pairs_def)
  moreover have "(\<forall>(k, v) \<in> set (table_pairs t). P k v) \<longleftrightarrow> (\<forall>k v. m k = Some v \<longrightarrow> P k v)"
    using table_pairs_holds [OF t] by (metis (no_types, lifting) case_prodD case_prodI2)
  ultimately show ?thesis by simp
qed

lemma is_equal_run:
  assumes 1: "cells s a = Some (r1, t1)" "holds C t1 m1" and 2: "cells s b = Some (r2, t2)" "holds C t2 m2"
  shows "isl_hmap_is_equal C s (Some a) (Some b) = Some (Inr (m1 = m2))"
proof (cases "a = b")
  case True
  have "m1 k = m2 k" for k using try_get_run [OF 1, of k] try_get_run [OF 2, of k] True by simp
  then have "m1 = m2" by blast
  then show ?thesis using True by (simp add: isl_hmap_is_equal_def)
next
  case False
  have e: "isl_hmap_every s (Some a) (has_entry C s (Some b)) = Some (Inr (\<forall>k v. m1 k = Some v \<longrightarrow> m2 k = Some v))"
    by (rule hmap_every_run [OF 1]) (rule has_entry_run [OF 2])
  have "m1 = m2" if card: "card (dom m1) = card (dom m2)" and sub: "\<forall>k v. m1 k = Some v \<longrightarrow> m2 k = Some v"
  proof -
    have "dom m1 \<subseteq> dom m2" using sub by auto
    then have "dom m1 = dom m2" using card holdsD(2) [OF 2(2)] by (simp add: card_subset_eq)
    moreover have "m1 \<subseteq>\<^sub>m m2" using sub by (auto simp: map_le_def)
    ultimately show ?thesis by (metis map_le_antisym map_le_def)
  qed
  then show ?thesis using False 1 2 e holdsD(3) [OF 1(2)] holdsD(3) [OF 2(2)] by (auto simp: isl_hmap_is_equal_def)
qed

end

subsection \<open>Programs\<close>

text \<open>Each command has the memory that there is when it runs.  A key or value that is given away may be
  \<open>NULL\<close>.\<close>

datatype ('k, 'v) hmap_cmd = AllocMap nat nat | CopyMap nat nat | FreeMap nat | SetPair nat 'k 'v | DropKey nat 'k

fun hmap_exec :: "('k, 'v) hmap_class \<Rightarrow> 'k hmap_memory \<times> ('k, 'v) hmap_cmd \<Rightarrow> ('k, 'v) hmap store \<times> (nat \<Rightarrow> nat option) \<Rightarrow>
    (('k, 'v) hmap store \<times> (nat \<Rightarrow> nat option)) option" where
  "hmap_exec C (M, AllocMap x n) (s, env) = map_option (\<lambda>(s, p). (s, env(x := p))) (isl_hmap_alloc M s (int n))"
| "hmap_exec C (M, CopyMap y x) (s, env) = map_option (\<lambda>(s, p). (s, env(y := p))) (isl_hmap_copy s (env x))"
| "hmap_exec C (M, FreeMap x) (s, env) = map_option (\<lambda>(s, p). (s, env(x := p))) (isl_hmap_free s (env x))"
| "hmap_exec C (M, SetPair x k v) (s, env) = map_option (\<lambda>(s, p). (s, env(x := p))) (isl_hmap_set C M s (env x) (Some k) (Some v))"
| "hmap_exec C (M, DropKey x k) (s, env) = map_option (\<lambda>(s, p). (s, env(x := p))) (isl_hmap_drop C M s (env x) (Some k))"

fun hmap_exec_all :: "('k, 'v) hmap_class \<Rightarrow> ('k hmap_memory \<times> ('k, 'v) hmap_cmd) list \<Rightarrow> ('k, 'v) hmap store \<times> (nat \<Rightarrow> nat option) \<Rightarrow>
    (('k, 'v) hmap store \<times> (nat \<Rightarrow> nat option)) option" where
  "hmap_exec_all C [] st = Some st"
| "hmap_exec_all C (c # cs) st = Option.bind (hmap_exec C c st) (hmap_exec_all C cs)"

text \<open>The same program on variables that hold maps.\<close>

fun map_exec :: "('k, 'v) hmap_cmd \<Rightarrow> (nat \<Rightarrow> ('k \<Rightarrow> 'v option) option) \<Rightarrow> nat \<Rightarrow> ('k \<Rightarrow> 'v option) option" where
  "map_exec (AllocMap x n) A = A(x \<mapsto> Map.empty)"
| "map_exec (CopyMap y x) A = A(y := A x)"
| "map_exec (FreeMap x) A = A(x := None)"
| "map_exec (SetPair x k v) A = A(x := map_option (\<lambda>m. m(k \<mapsto> v)) (A x))"
| "map_exec (DropKey x k) A = A(x := map_option (\<lambda>m. m(k := None)) (A x))"

fun map_exec_all :: "('m \<times> ('k, 'v) hmap_cmd) list \<Rightarrow> (nat \<Rightarrow> ('k \<Rightarrow> 'v option) option) \<Rightarrow> nat \<Rightarrow> ('k \<Rightarrow> 'v option) option" where
  "map_exec_all [] A = A"
| "map_exec_all (c # cs) A = map_exec_all cs (map_exec (snd c) A)"

text \<open>A variable that is assigned to holds nothing, and the maps stay small.\<close>

fun map_sensible :: "('k, 'v) hmap_cmd \<Rightarrow> (nat \<Rightarrow> ('k \<Rightarrow> 'v option) option) \<Rightarrow> bool" where
  "map_sensible (AllocMap x n) A = (A x = None \<and> n < 2 ^ 28)"
| "map_sensible (CopyMap y x) A = (A y = None)"
| "map_sensible (FreeMap x) A = True"
| "map_sensible (SetPair x k v) A = (\<forall>m. A x = Some m \<longrightarrow> card (dom (m(k \<mapsto> v))) < 2 ^ 28)"
| "map_sensible (DropKey x k) A = True"

fun map_sensible_all :: "('k hmap_memory \<times> ('k, 'v) hmap_cmd) list \<Rightarrow> (nat \<Rightarrow> ('k \<Rightarrow> 'v option) option) \<Rightarrow> bool" where
  "map_sensible_all [] A = True"
| "map_sensible_all (c # cs) A = (calloc_bounded (mem_entries (fst c)) \<and> map_sensible (snd c) A \<and> map_sensible_all cs (map_exec (snd c) A))"

definition hmap_sim :: "('k, 'v) hmap_class \<Rightarrow> bool \<Rightarrow> ('k, 'v) hmap store \<Rightarrow> (nat \<Rightarrow> nat option) \<Rightarrow> (nat \<Rightarrow> ('k \<Rightarrow> 'v option) option) \<Rightarrow> bool" where
  "hmap_sim C full s env A \<longleftrightarrow> store_inv (hmap_ok C) s env \<and>
     (\<forall>x a. env x = Some a \<longrightarrow> (\<exists>m r t. A x = Some m \<and> small_map m \<and> cells s a = Some (r, t) \<and> holds C t m)) \<and>
     (full \<longrightarrow> (\<forall>x. env x = None \<longrightarrow> A x = None))"

lemma hmap_simD:
  assumes "hmap_sim C full s env A"
  shows "store_inv (hmap_ok C) s env"
    and "env x = Some a \<Longrightarrow> \<exists>m r t. A x = Some m \<and> small_map m \<and> cells s a = Some (r, t) \<and> holds C t m"
    and "A x = None \<Longrightarrow> env x = None" and "full \<Longrightarrow> env x = None \<Longrightarrow> A x = None"
proof -
  show "env x = Some a \<Longrightarrow> \<exists>m r t. A x = Some m \<and> small_map m \<and> cells s a = Some (r, t) \<and> holds C t m"
    using assms unfolding hmap_sim_def by blast
  then show "A x = None \<Longrightarrow> env x = None" for x
    using assms unfolding hmap_sim_def by (metis not_None_eq)
  show "store_inv (hmap_ok C) s env" "full \<Longrightarrow> env x = None \<Longrightarrow> A x = None"
    using assms unfolding hmap_sim_def by blast+
qed

lemma hmap_simI:
  assumes "store_inv (hmap_ok C) s env"
    and "\<And>x a. env x = Some a \<Longrightarrow> \<exists>m r t. A x = Some m \<and> small_map m \<and> cells s a = Some (r, t) \<and> holds C t m"
    and "\<And>x. full \<Longrightarrow> env x = None \<Longrightarrow> A x = None"
  shows "hmap_sim C full s env A"
  unfolding hmap_sim_def using assms by blast

text \<open>An operation on variable \<open>x\<close> that gives a map.\<close>

lemma hmap_sim_gives:
  assumes sim: "hmap_sim C full s env A" and g: "hmap_gives C M P s env x res m" and small: "small_map m" and full: "full \<Longrightarrow> plenty M"
  shows "\<exists>s' p. res = Some (s', p) \<and> hmap_sim C full s' (env(x := p)) (A(x \<mapsto> m))"
proof -
  have other: "\<exists>m r t. (A(x \<mapsto> m')) y = Some m \<and> small_map m \<and> cells s' b = Some (r, t) \<and> holds C t m"
    if "others_kept env x s s'" "y \<noteq> x" "env y = Some b" for y b s' m'
    using hmap_simD(2) [OF sim that(3)] that unfolding others_kept_def by (metis fun_upd_other)
  from g show ?thesis
  proof (cases rule: hmap_givesE)
    case (map s' b r t)
    have "hmap_sim C full s' (env(x \<mapsto> b)) (A(x \<mapsto> m))"
    proof (rule hmap_simI [OF map(2)])
      show "\<exists>m' r t. (A(x \<mapsto> m)) y = Some m' \<and> small_map m' \<and> cells s' c = Some (r, t) \<and> holds C t m'"
        if "(env(x \<mapsto> b)) y = Some c" for y c
        using other [OF map(3)] that map(5,6) small by (cases "y = x") auto
      show "(A(x \<mapsto> m)) y = None" if full "(env(x \<mapsto> b)) y = None" for y
        using hmap_simD(4) [OF sim] that by (auto split: if_splits)
    qed
    then show ?thesis using map(1) by blast
  next
    case (fails s')
    have "hmap_sim C full s' (env(x := None)) (A(x \<mapsto> m))"
    proof (rule hmap_simI [OF fails(2)])
      show "\<exists>m' r t. (A(x \<mapsto> m)) y = Some m' \<and> small_map m' \<and> cells s' c = Some (r, t) \<and> holds C t m'"
        if "(env(x := None)) y = Some c" for y c
        using other [OF fails(3), of y c] that by (cases "y = x") simp_all
      show "(A(x \<mapsto> m)) y = None" if full for y using full that fails(4) by blast
    qed
    then show ?thesis using fails(1) by blast
  qed
qed

lemma hmap_sim_null:
  assumes sim: "hmap_sim C full s env A" and x: "env x = None"
  shows "hmap_sim C full s (env(x := None)) (A(x := map_option f (A x)))"
proof -
  have e: "env(x := None) = env" using x by auto
  show ?thesis unfolding e
  proof (rule hmap_simI [OF hmap_simD(1) [OF sim]])
    show "\<exists>m r t. (A(x := map_option f (A x))) y = Some m \<and> small_map m \<and> cells s a = Some (r, t) \<and> holds C t m" if "env y = Some a" for y a
      using hmap_simD(2) [OF sim that] that x by (cases "y = x") simp_all
    show "(A(x := map_option f (A x))) y = None" if full "env y = None" for y
      using hmap_simD(4) [OF sim that(1)] that(2) x by simp
  qed
qed

context hmap_laws begin

lemma hmap_exec_run:
  assumes sim: "hmap_sim C full s env A" and sens: "map_sensible cmd A" and mem: "calloc_bounded (mem_entries M)" and full: "full \<Longrightarrow> plenty M"
  shows "\<exists>s' env'. hmap_exec C (M, cmd) (s, env) = Some (s', env') \<and> hmap_sim C full s' env' (map_exec cmd A)"
proof -
  note inv = hmap_simD(1) [OF sim]
  show ?thesis
  proof (cases cmd)
    case (AllocMap x n)
    have x: "env x = None" and n: "int n < 2 ^ 28" using sens AllocMap hmap_simD(3) [OF sim] by auto
    have "small_map (Map.empty :: 'a \<Rightarrow> 'b option)" by (simp add: small_map_def)
    from hmap_sim_gives [OF sim alloc_gives [OF inv x n mem] this full] show ?thesis using AllocMap by auto
  next
    case (CopyMap y x)
    have y: "env y = None" using sens CopyMap hmap_simD(3) [OF sim] by auto
    show ?thesis
    proof (cases "env x")
      case None
      have "map_exec cmd A = A(y := A x)" "env(y := None) = env" using CopyMap y by auto
      moreover have "hmap_sim C full s env (A(y := A x))"
      proof (rule hmap_simI [OF inv])
        show "\<exists>m r t. (A(y := A x)) z = Some m \<and> small_map m \<and> cells s a = Some (r, t) \<and> holds C t m" if "env z = Some a" for z a
          using hmap_simD(2) [OF sim that] that y by (cases "z = y") simp_all
        show "(A(y := A x)) z = None" if full "env z = None" for z using hmap_simD(4) [OF sim that(1)] that(2) None by simp
      qed
      ultimately show ?thesis using CopyMap None by (simp add: isl_hmap_copy_def with_obj_def)
    next
      case (Some a)
      obtain m r t where a: "A x = Some m" "small_map m" "cells s a = Some (r, t)" "holds C t m" using hmap_simD(2) [OF sim Some] by blast
      have "isl_hmap_copy s (env x) = Some (set_obj s a (r + 1) t, Some a)" using Some a(3) by (simp add: isl_hmap_copy_def with_obj_def)
      moreover have "hmap_gives C M (\<lambda>r. True) s env y (Some (set_obj s a (r + 1) t, Some a)) m"
        using store_inv_copy [OF inv y a(3)] a(3,4) by (intro hmap_gives_map [OF refl]) (auto intro!: others_keptI)
      ultimately show ?thesis using hmap_sim_gives [OF sim _ a(2) full] CopyMap a(1) by fastforce
    qed
  next
    case (FreeMap x)
    show ?thesis
    proof (cases "env x")
      case None
      have "hmap_sim C full s (env(x := None)) (A(x := None))"
      proof (rule hmap_simI)
        have "env(x := None) = env" using None by auto
        then show "store_inv (hmap_ok C) s (env(x := None))" using inv by simp
        show "\<exists>m r t. (A(x := None)) z = Some m \<and> small_map m \<and> cells s a = Some (r, t) \<and> holds C t m" if "(env(x := None)) z = Some a" for z a
          using hmap_simD(2) [OF sim, of z a] that by (cases "z = x") simp_all
        show "(A(x := None)) z = None" if full "(env(x := None)) z = None" for z
          using hmap_simD(4) [OF sim that(1)] that(2) by (cases "z = x") simp_all
      qed
      then show ?thesis using FreeMap None by simp
    next
      case (Some a)
      obtain m r t where a: "A x = Some m" "cells s a = Some (r, t)" using hmap_simD(2) [OF sim Some] by blast
      have "hmap_sim C full (unref s a) (env(x := None)) (A(x := None))"
      proof (rule hmap_simI [OF store_inv_unref [OF inv Some]])
        show "\<exists>m r t. (A(x := None)) z = Some m \<and> small_map m \<and> cells (unref s a) b = Some (r, t) \<and> holds C t m"
          if z: "(env(x := None)) z = Some b" for z b
        proof -
          have zx: "z \<noteq> x" "env z = Some b" using z by (auto split: if_splits)
          obtain m r' t' where b: "A z = Some m" "small_map m" "cells s b = Some (r', t')" "holds C t' m"
            using hmap_simD(2) [OF sim zx(2)] by blast
          obtain r2 v2 where "cells (unref s a) b = Some (r2, v2)"
            using store_inv_lookup [OF store_inv_unref [OF inv Some] z] by metis
          then have "cells (unref s a) b = Some (r2, t')" using b(3) a(2) by (auto simp: unref_def split: if_splits)
          then show ?thesis using b zx by auto
        qed
        show "(A(x := None)) z = None" if full "(env(x := None)) z = None" for z
          using hmap_simD(4) [OF sim that(1)] that(2) by (cases "z = x") simp_all
      qed
      then show ?thesis using FreeMap Some isl_hmap_free_run [OF a(2)] by simp
    qed
  next
    case (SetPair x k v)
    show ?thesis
    proof (cases "env x")
      case None
      then have "isl_hmap_set C M s (env x) (Some k) (Some v) = Some (s, None)" by (simp add: isl_hmap_set_def hmap_set_with_def)
      then show ?thesis using SetPair hmap_sim_null [OF sim None, of "\<lambda>m. m(k \<mapsto> v)"] by simp
    next
      case (Some a)
      obtain m r t where a: "A x = Some m" "small_map m" "cells s a = Some (r, t)" "holds C t m" using hmap_simD(2) [OF sim Some] by blast
      have small: "small_map (m(k \<mapsto> v))" using sens SetPair a(1,2) by (simp add: small_map_def)
      from hmap_sim_gives [OF sim hmap_set_gives [OF inv Some a(3,4) small a(2) mem] small full]
      show ?thesis using SetPair Some a(1) by auto
    qed
  next
    case (DropKey x k)
    show ?thesis
    proof (cases "env x")
      case None
      then have "isl_hmap_drop C M s (env x) (Some k) = Some (s, None)" by (simp add: isl_hmap_drop_def)
      then show ?thesis using DropKey hmap_sim_null [OF sim None, of "\<lambda>m. m(k := None)"] by simp
    next
      case (Some a)
      obtain m r t where a: "A x = Some m" "small_map m" "cells s a = Some (r, t)" "holds C t m" using hmap_simD(2) [OF sim Some] by blast
      from hmap_sim_gives [OF sim hmap_drop_gives [OF inv Some a(3,4,2) mem, of k] small_remove [OF a(2)] full]
      obtain s' p where "isl_hmap_drop C M s (Some a) (Some k) = Some (s', p)"
        "hmap_sim C full s' (env(x := p)) (A(x \<mapsto> m(k := None)))" by blast
      then show ?thesis using DropKey Some a(1) by auto
    qed
  qed
qed

lemma hmap_exec_all_run:
  "hmap_sim C full s env A \<Longrightarrow> map_sensible_all cs A \<Longrightarrow> (full \<Longrightarrow> \<forall>c \<in> set cs. plenty (fst c)) \<Longrightarrow>
    \<exists>s' env'. hmap_exec_all C cs (s, env) = Some (s', env') \<and> hmap_sim C full s' env' (map_exec_all cs A)"
proof (induction cs arbitrary: s env A)
  case (Cons c cs)
  obtain M cmd where c: "c = (M, cmd)" by fastforce
  have "map_sensible cmd A" "calloc_bounded (mem_entries M)" "full \<Longrightarrow> plenty M" using Cons.prems(2,3) c by simp_all
  then obtain s1 env1 where 1: "hmap_exec C (M, cmd) (s, env) = Some (s1, env1)" "hmap_sim C full s1 env1 (map_exec cmd A)"
    using hmap_exec_run [OF Cons.prems(1)] by blast
  have "map_sensible_all cs (map_exec cmd A)" "full \<Longrightarrow> \<forall>c \<in> set cs. plenty (fst c)" using Cons.prems(2,3) c by simp_all
  from Cons.IH [OF 1(2) this] show ?case using 1(1) c by simp
qed auto

end

subsection \<open>The maps of identifiers\<close>

interpretation id_to_id: hmap_laws "id_to_id_class ctx" for ctx
  by unfold_locales (simp_all add: id_to_id_class_def isl_id_is_equal_def)

lemma empty_hmap_sim: "hmap_sim C full empty_store (\<lambda>_. None) (\<lambda>_. None)"
  by (rule hmap_simI) (simp_all add: store_inv_def empty_store_def cell_ok_def refs_def)

lemma id_maps_run:
  assumes sens: "map_sensible_all cs (\<lambda>_. None)"
  shows "\<exists>s env. hmap_exec_all (id_to_id_class ctx) cs (empty_store, \<lambda>_. None) = Some (s, env) \<and>
    (\<forall>x a. env x = Some a \<longrightarrow> (\<exists>m. map_exec_all cs (\<lambda>_. None) x = Some m \<and>
       (\<forall>k. isl_hmap_try_get (id_to_id_class ctx) s (env x) (Some k) = Some (Inr (m k \<noteq> None), m k)) \<and>
       (\<forall>y m'. env y \<noteq> None \<and> map_exec_all cs (\<lambda>_. None) y = Some m' \<longrightarrow>
          isl_hmap_is_equal (id_to_id_class ctx) s (env x) (env y) = Some (Inr (m = m'))))) \<and>
    ((\<forall>c \<in> set cs. plenty (fst c)) \<longrightarrow> (\<forall>x. env x = None \<longleftrightarrow> map_exec_all cs (\<lambda>_. None) x = None)) \<and>
    (map_exec_all cs (\<lambda>_. None) = (\<lambda>_. None) \<longrightarrow> cells s = (\<lambda>_. None) \<and> isl_ctx_free s = Inr ())"
proof -
  let ?C = "id_to_id_class ctx" and ?A = "map_exec_all cs (\<lambda>_. None)" and ?full = "\<forall>c \<in> set cs. plenty (fst c)"
  obtain s env where run: "hmap_exec_all ?C cs (empty_store, \<lambda>_. None) = Some (s, env)" and sim: "hmap_sim ?C ?full s env ?A"
    using id_to_id.hmap_exec_all_run [OF empty_hmap_sim sens, of ?full] by blast
  have get: "\<exists>m. ?A x = Some m \<and> (\<forall>k. isl_hmap_try_get ?C s (env x) (Some k) = Some (Inr (m k \<noteq> None), m k)) \<and>
      (\<forall>y m'. env y \<noteq> None \<and> ?A y = Some m' \<longrightarrow> isl_hmap_is_equal ?C s (env x) (env y) = Some (Inr (m = m')))"
    if x: "env x = Some a" for x a
  proof -
    obtain m r t where m: "?A x = Some m" "cells s a = Some (r, t)" "holds ?C t m" using hmap_simD(2) [OF sim x] by blast
    have "isl_hmap_is_equal ?C s (env x) (env y) = Some (Inr (m = m'))" if y: "env y \<noteq> None \<and> ?A y = Some m'" for y m'
    proof -
      obtain b where b: "env y = Some b" using y by blast
      obtain m2 r2 t2 where "?A y = Some m2" "cells s b = Some (r2, t2)" "holds ?C t2 m2" using hmap_simD(2) [OF sim b] by blast
      then show ?thesis using id_to_id.is_equal_run [OF m(2,3)] y x b by simp
    qed
    then show ?thesis using m(1) id_to_id.try_get_run [OF m(2,3)] x by simp
  qed
  have "cells s = (\<lambda>_. None) \<and> isl_ctx_free s = Inr ()" if "?A = (\<lambda>_. None)"
  proof -
    have none: "env x = None" for x using hmap_simD(3) [OF sim, of x] that by simp
    note D = store_invD [OF hmap_simD(1) [OF sim]]
    have "cells s a = None" for a using D(5) [of a] none by (auto simp: cell_ok_def refs_def split: option.splits)
    then have "cells s = (\<lambda>_. None)" by blast
    then show ?thesis using D(3) by (simp add: isl_ctx_free_def)
  qed
  then show ?thesis using run get hmap_simD(3,4) [OF sim] by blast
qed

text \<open>
  C9: Maps of identifiers are maps.  A program that allocates, copies, frees and changes hash maps runs
  to its end without touching one that is released; every variable that is not \<open>NULL\<close> then holds what
  the program on mathematical maps computes: lookups give the values of the map and comparisons
  decide equality, whatever the hash codes and however often the tables have grown and been
  copied.  A variable is \<open>NULL\<close> by a failed allocation only, and when all references are given up no
  map is left and, as far as the maps are concerned, the context can be freed.  The references that the
  maps hold to their keys and values are not counted here.
\<close>

theorem id_maps_are_maps:
  assumes "map_sensible_all cs (\<lambda>_. None)"
  shows "\<exists>s env. hmap_exec_all (id_to_id_class ctx) cs (empty_store, \<lambda>_. None) = Some (s, env) \<and>
    (\<forall>x a. env x = Some a \<longrightarrow> (\<exists>m. map_exec_all cs (\<lambda>_. None) x = Some m \<and>
       (\<forall>k. isl_hmap_try_get (id_to_id_class ctx) s (env x) (Some k) = Some (Inr (m k \<noteq> None), m k)) \<and>
       (\<forall>y m'. env y \<noteq> None \<and> map_exec_all cs (\<lambda>_. None) y = Some m' \<longrightarrow>
          isl_hmap_is_equal (id_to_id_class ctx) s (env x) (env y) = Some (Inr (m = m'))))) \<and>
    ((\<forall>c \<in> set cs. plenty (fst c)) \<longrightarrow> (\<forall>x. env x = None \<longleftrightarrow> map_exec_all cs (\<lambda>_. None) x = None)) \<and>
    (map_exec_all cs (\<lambda>_. None) = (\<lambda>_. None) \<longrightarrow> cells s = (\<lambda>_. None) \<and> isl_ctx_free s = Inr ())"
  using assms by (rule id_maps_run)

text \<open>A map with two keys is copied, and a key is dropped from the copy: the map stays as it was.\<close>

definition all_memory :: "nat hmap_memory" where
  "all_memory = \<lparr>mem_map = True, mem_entries = (\<lambda>sz. sz \<le> 2 ^ 29), mem_pair = (\<lambda>_. True)\<rparr>"

theorem id_maps_are_maps_witness:
  "\<forall>ctx. \<exists>s env. hmap_exec_all (id_to_id_class ctx) (map (Pair all_memory)
      [AllocMap 0 0, SetPair 0 7 70, SetPair 0 8 80, CopyMap 1 0, DropKey 1 7]) (empty_store, \<lambda>_. None) = Some (s, env) \<and>
    isl_hmap_try_get (id_to_id_class ctx) s (env 0) (Some 7) = Some (Inr True, Some 70) \<and>
    isl_hmap_try_get (id_to_id_class ctx) s (env 1) (Some 7) = Some (Inr False, None) \<and>
    isl_hmap_is_equal (id_to_id_class ctx) s (env 0) (env 1) = Some (Inr False)"
proof (intro allI, goal_cases)
  case (1 ctx)
  let ?cs = "map (Pair all_memory) [AllocMap 0 0, SetPair 0 7 70, SetPair 0 8 80, CopyMap 1 0, DropKey 1 7] :: (nat hmap_memory \<times> (nat, nat) hmap_cmd) list"
  let ?A = "map_exec_all ?cs (\<lambda>_. None)"
  have sens: "map_sensible_all ?cs (\<lambda>_. None)" by (simp add: all_memory_def calloc_bounded_def)
  have full: "\<forall>c \<in> set ?cs. plenty (fst c)" by (simp add: plenty_def all_memory_def)
  have A: "?A 0 = Some [7 \<mapsto> 70, 8 \<mapsto> 80]" "?A 1 = Some [8 \<mapsto> 80]" by (simp_all add: fun_eq_iff)
  obtain s env where r: "hmap_exec_all (id_to_id_class ctx) ?cs (empty_store, \<lambda>_. None) = Some (s, env)"
    and get: "\<And>x a. env x = Some a \<Longrightarrow> \<exists>m. ?A x = Some m \<and>
       (\<forall>k. isl_hmap_try_get (id_to_id_class ctx) s (env x) (Some k) = Some (Inr (m k \<noteq> None), m k)) \<and>
       (\<forall>y m'. env y \<noteq> None \<and> ?A y = Some m' \<longrightarrow> isl_hmap_is_equal (id_to_id_class ctx) s (env x) (env y) = Some (Inr (m = m')))"
    and n: "\<And>x. env x = None \<longleftrightarrow> ?A x = None"
    using id_maps_are_maps [OF sens, of ctx] full by blast
  obtain a b where ab: "env 0 = Some a" "env 1 = Some b" using n [of 0] n [of 1] A by auto
  have "([7 \<mapsto> 70, 8 \<mapsto> 80] :: nat \<Rightarrow> nat option) \<noteq> [8 \<mapsto> 80]" by (auto dest: fun_cong [of _ _ 7])
  moreover have "isl_hmap_is_equal (id_to_id_class ctx) s (env 0) (env 1) = Some (Inr (([7 \<mapsto> 70, 8 \<mapsto> 80] :: nat \<Rightarrow> nat option) = [8 \<mapsto> 80]))"
  proof -
    have one: "env 1 \<noteq> None \<and> ?A 1 = Some [8 \<mapsto> 80]" using ab(2) A(2) by blast
    obtain m where m: "?A 0 = Some m" "\<forall>y m'. env y \<noteq> None \<and> ?A y = Some m' \<longrightarrow>
        isl_hmap_is_equal (id_to_id_class ctx) s (env 0) (env y) = Some (Inr (m = m'))" using get [OF ab(1)] by blast
    have "m = [7 \<mapsto> 70, 8 \<mapsto> 80]" using m(1) unfolding A(1) by simp
    then show ?thesis using m(2) one by blast
  qed
  moreover have "isl_hmap_try_get (id_to_id_class ctx) s (env 0) (Some 7) = Some (Inr True, Some 70)"
    "isl_hmap_try_get (id_to_id_class ctx) s (env 1) (Some 7) = Some (Inr False, None)"
    using get [OF ab(1)] get [OF ab(2)] A by auto
  ultimately show ?case using r by simp
qed

end
