(* ===== verification/Spec2Isabelle.thy ===== *)
theory Spec2Isabelle imports Val_Expr Tab_Build List_Scc Hmap_Prog begin

text \<open>
  A verification development of isl, the integer set library that Enzyme-JAX carries
  under src/src/external/isl and whose polyhedral passes stand on it.  All paths below
  are relative to that directory.  The configuration modelled is the one the build
  uses: integers are the \<open>sioimath\<close> representation (\<open>USE_SMALL_INT_OPT\<close>) over the
  bundled imath library.

  \<^bold>\<open>The program and the theories.\<close>  The library is layered, and the theories follow its
  layers; each operation is one definition with the name it has in the code.

  \<^item> \<open>Prelude\<close>: the error codes (include/isl/ctx.h), the result type that stands for a
    nullable pointer (\<open>Inl e\<close> is \<open>NULL\<close> with the error recorded by \<open>isl_die\<close>), the \<open>for\<close>
    loops of the code and their invariant rules, unsigned sizes, fresh memory.
  \<^item> \<open>Isl_Int\<close>, \<open>Sioimath\<close>: \<open>isl_int\<close> as a mathematical integer and the representation
    that implements it (isl_int_sioimath.h/.c, imath/gmp_compat.c): a 32-bit word or a
    pointer to a big number, fast paths in 64-bit arithmetic with its wrap-around.
  \<^item> \<open>Hashing\<close>: the hash codes (include/isl/hash.h, isl_hash.c, isl_imath.c).
  \<^item> \<open>Hash_Table\<close>: the open addressing hash table (isl_hash.c), its growth, removal by
    moving entries back, and the contract \<open>slot_table\<close> its clients use.
  \<^item> \<open>Seq\<close>: operations on sequences of integers (isl_seq.c).
  \<^item> \<open>Val\<close>: rational values with infinities and NaN (isl_val.c).  \<open>Val_Expr\<close>: expressions
    over their operations.
  \<^item> \<open>Vec\<close>, \<open>Mat\<close>: vectors and matrices (isl_vec.c, isl_mat.c).
  \<^item> \<open>Mat_Hermite\<close>, \<open>Mat_Kernel\<close>, \<open>Mat_Inverse\<close>, \<open>Mat_Gauss\<close>: the algorithms of isl_mat.c on
    them, which share the contract \<open>column_ops\<close> for a step that acts on columns.
  \<^item> \<open>Objects\<close>: the objects in memory: reference counts, copy on write
    (\<open>isl_vec_cow\<close>, ...) and the object count of the context (isl_ctx.c), with the
    contract \<open>cow_object\<close> of a shared object.
  \<^item> \<open>Isl_Id\<close>: identifiers, interned in the hash table of the context (isl_id.c).
  \<^item> \<open>Tab\<close>: the simplex tableau (isl_tab.h, isl_tab.c): its state, the choice of a pivot,
    the pivot, redundant rows, the undo stack.  A pointer to a \<open>struct isl_tab_var\<close> is the
    code the rows and columns name it by: \<open>v\<close> for \<open>tab->var[v]\<close> and \<open>~v\<close> for \<open>tab->con[v]\<close>.
    \<open>Tab_Pivot\<close>: the rows as equations between the variables, and that a pivot keeps
    their solutions.  \<open>Tab_Points\<close>: the points a tableau describes, and that they are not
    changed by a pivot and by the rows it marks as redundant.  \<open>Tab_Bland\<close>,
    \<open>Tab_Search\<close>: the entering and leaving variables are those of Bland's rule, which does
    not cycle, and what a search for a larger value gains.  \<open>Tab_Sign\<close>: the searches
    themselves (\<open>isl_tab_sign_of_max\<close>, \<open>restore_row\<close>, \<open>at_least_one\<close>, ...).
    \<open>Tab_Con\<close>: adding a row (\<open>isl_tab_add_row\<close>), expressed in the columns of the tableau.
    \<open>Tab_Ineq\<close>: adding an inequality.  \<open>Tab_Kill\<close>: exchanging and removing columns
    (\<open>isl_tab_kill_col\<close>).  \<open>Tab_Build\<close>: equalities and the tableau of a basic map
    (\<open>isl_tab_from_basic_map\<close>).
  \<^item> \<open>Isl_Sort\<close>: the merge sort (isl_sort.c) that sorts lists.  (Vectors are sorted by \<open>qsort\<close> of
    the C library, which is HOL's \<open>sort\<close> here.)
  \<^item> \<open>Isl_Tarjan\<close>: strongly connected components (isl_tarjan.c).
  \<^item> \<open>Isl_List\<close>: the template of the list types (isl_list_templ.c), over any type of elements
    with functions for copying and freeing, the laws of which are the locale
    \<open>list_element\<close>; allocation, copies and growing.  \<open>List_Ops\<close>: what the other operations
    do to the entries.  \<open>List_Prog\<close>: programs over elements and lists, and lists of values.
    \<open>List_Scc\<close>: callbacks, and the components of a list in the order of \<open>Isl_Tarjan\<close>.
  \<^item> \<open>Isl_Hmap\<close>: the template of the hash maps (include/isl/hmap_templ.c) over the hash table,
    with the locale \<open>hmap_laws\<close> for the equality of keys and values; \<open>Hmap_Prog\<close>: programs that
    use them, and the maps of identifiers (isl_id_to_id.c).

  \<^bold>\<open>How state is represented.\<close>  Where only the value of an object matters an operation is a
  function on values: what it is given by \<open>__isl_take\<close> it returns changed.  \<open>Objects\<close>,
  \<open>Isl_Id\<close>, \<open>Isl_List\<close> and \<open>Isl_Hmap\<close> keep an explicit store of addresses, so that sharing, release and use after
  release are visible: an access to a released object has no result.  Memory that is
  allocated and not yet written is a parameter \<open>junk\<close>, and what the results show does not
  depend on it.  Failure of the allocations that the code recovers from is a parameter
  in \<open>Hash_Table\<close>, \<open>Isl_Id\<close>, \<open>Isl_Hmap\<close>, \<open>Isl_Sort\<close> and \<open>Isl_Tarjan\<close>; elsewhere allocation succeeds.

  \<^bold>\<open>What the lemmas show.\<close>
  \<^item> Every fast path of the integers computes the exact mathematical result and keeps the
    canonical form, with the one exception stated by \<open>sioimath_sub_ui_window\<close>; a shift that
    goes to imath is exact below \<open>2 ^ 32\<close> places (\<open>sioimath_ring_exact\<close>); hash codes
    do not depend on the representation; a computation on represented integers
    (\<open>seq_inner_product_on_representation\<close>) refines the one on integers.
  \<^item> Values: the operations compute in the rationals extended by infinities and NaN (type
    \<open>erat\<close>), always in lowest terms, however they are composed, unless a remainder is taken
    by zero or a power of two has an exponent for which the shift fails
    (\<open>val_expressions_are_typed\<close>, \<open>val_pow2_exact_iff\<close>).
  \<^item> Matrices: \<open>isl_mat_left_hermite\<close> ends in the Hermite normal form with unimodular
    transformation and its inverse; kernels, completions, inverses and Gaussian
    elimination are shown to compute what their comments promise, error cases included.
  \<^item> Hash table: the invariant \<open>table_ok\<close> (every entry is reachable by probing from its home
    slot and a free slot is left) is kept by reservation, growth and removal, so that
    every search ends and finds what is stored.
  \<^item> Objects and identifiers: programs that use them never touch released memory, shared
    objects behave like values, identifiers are equal exactly as pointers, and nothing is
    lost or released twice.
  \<^item> Tableau: under the invariant \<open>tab_ok\<close> a pivot, with the rows it drops as redundant,
    leaves the polyhedron as it was (\<open>tab_pivot_keeps_polyhedron\<close>), and
    \<open>isl_tab_sign_of_max\<close> ends and returns the sign of the maximum
    (\<open>tab_sign_of_max_decides\<close>), by Bland's rule.  Adding a constraint keeps the invariant
    \<open>ready\<close> and cuts the points down to those that satisfy it, so that
    \<open>isl_tab_from_basic_map\<close> decides whether a basic map has a rational point
    (\<open>from_basic_map_decides\<close>).
  \<^item> Sorting: the in-place merges with their batched copies compute the merge of two sorted
    parts, so that \<open>isl_sort\<close> sorts stably (\<open>isl_sort_stable\<close>).
  \<^item> Components: the order that Tarjan's algorithm stores lists the strongly connected
    components, in the order of the edges between them (\<open>tarjan_graph_decomposes\<close>), when the
    callback does not fail; \<open>nested_error_is_lost\<close> shows what happens when it does.
  \<^item> Lists: under the invariant \<open>heap_ok\<close>, the reference counts of the lists and of the elements
    are the numbers of references to them, every operation takes and gives the references its
    annotations say, and programs on lists behave like programs on values
    (\<open>val_lists_are_values\<close>, by the simulation \<open>list_sim\<close>); \<open>isl_list_foreach_scc\<close> gives any
    callback the components in order until the callback fails, and returns the status that
    \<open>scc_outcome\<close> describes (\<open>val_list_foreach_scc\<close>).
  \<^item> Hash maps: programs that use them behave like programs on mathematical maps
    (\<open>id_maps_are_maps\<close>, by the simulation \<open>hmap_sim\<close>); failed allocations give \<open>NULL\<close> and
    lose nothing but the map.

  \<^bold>\<open>Loops and bounds.\<close>  A loop whose end is not evident is a \<open>while_option\<close> or carries a
  result option; the properties show that there is a result (measures: the absolute value
  of the pivot in the eliminations, the distance to the next free slot in the hash table).
  The searches of the tableau are \<open>partial_function\<close>s with an option result; they are shown
  to return under the assumption that the context has no limit on the number of
  operations and is not asked to abort (\<open>unlimited\<close>), the order being the one of Bland's
  argument.
  \<open>isl_hash_table_find\<close> and \<open>grow_table\<close> call each other: the first argument is the depth
  of these calls, and two is enough because a table that has just grown has room.
  The same holds for \<open>grow\<close> and \<open>add\<close> of lists: a list that \<open>grow\<close> has allocated has room
  for all it adds; and for \<open>cow\<close>, \<open>dup\<close> and \<open>set\<close> of hash maps, where a new map has one
  reference.  Hash maps have fewer than \<open>2 ^ 28\<close> keys, so that a copy's table can be made.
  Hash tables have at most \<open>2 ^ 29\<close> slots, beyond which \<open>4 * table->n\<close> overflows an \<open>int\<close>.
  Sizes of vectors and matrices are below \<open>2 ^ 31\<close> where a sum is computed with 32 bits.
  Some quantities are unbounded here and have 32 bits in C, so that the model is that of the
  program while they fit: reference counts are below \<open>2 ^ 31\<close> (\<open>isl_vec_copy\<close> and the other
  copies); the products \<open>n_row * n_col\<close> and \<open>i * n_col\<close> of \<open>isl_mat_alloc\<close> are below \<open>2 ^ 32\<close>, so a
  matrix has fewer entries than that, and so does a tableau; a graph has less than
  \<open>2 ^ 30\<close> nodes, since \<open>isl_tarjan_graph_alloc\<close> allocates \<open>2 * len\<close> of them as an \<open>int\<close>; and a list
  is short enough that \<open>((n + n' + 1) * 3) / 2\<close> in \<open>list_grow\<close> fits an \<open>int\<close>, about \<open>7 * 10 ^ 8\<close>
  elements.

  \<^bold>\<open>Findings.\<close>  The fast path of \<open>isl_sioimath_sub_ui\<close> admits operands whose difference does
  not fit 64 bits (\<open>sioimath_sub_ui_window\<close>).  A shift by \<open>2 ^ 32\<close> or more places keeps the lower
  32 bits of the number of places, and fails an assertion from \<open>2 ^ 63\<close> on
  (\<open>sioimath_ring_exact\<close>), which gives wrong powers of two (\<open>val_pow2_exact_iff\<close>).  \<open>isl_vec_normalize\<close>, \<open>isl_vec_sort\<close> and
  \<open>isl_mat_unimodular_complete\<close> write to an argument that may be shared
  (\<open>writes_to_a_copy\<close>).  \<open>isl_mat_normalize\<close> of a zero matrix divides by zero,
  \<open>isl_mat_right_inverse\<close> of a matrix without rows reads out of bounds, \<open>isl_val_gcd\<close> of
  two equal negative integers is negative, and \<open>isl_vec_drop_els\<close> adds its position and
  count without a check for overflow.  \<open>isl_tarjan_components\<close> ignores the status of its
  recursive calls (\<open>nested_error_is_lost\<close>), and \<open>foreach_scc\<close> of lists reports success when
  its callback fails on the last component (\<open>last_failure_is_lost\<close>).

  \<^bold>\<open>Not modelled.\<close>  Printing and parsing of every kind; the digits of big numbers (imath.c),
  which are represented by their value, except that the shift's count is kept at its
  width; memory blocks (isl_blk.c); the basic map and the samples attached to a tableau:
  \<open>isl_tab_track_bmap\<close> makes its checks but stores nothing, and \<open>isl_tab_add_ineq\<close> is the function
  on a tableau that tracks no basic map, as \<open>isl_tab_from_basic_map\<close> calls it; the references
  that hash maps hold to their keys and values; spaces, basic
  maps, piecewise expressions, scheduling and code generation, which stand on the parts
  modelled here; the generated C++ and Python bindings; and the rest of
  Enzyme-JAX, which is C++ over MLIR and Python over JAX, whose semantics is not part of
  the repository.
\<close>

end
